(* ===== verification/Prelude.thy ===== *)
theory Prelude
  imports Complex_Main "HOL-Library.Word" "HOL-Library.Multiset" "HOL-Library.AList"
begin

text \<open>
  Shared vocabulary of the development: the JavaScript containers the sources use
  (\<open>Map\<close> as an insertion-ordered association list, \<open>Array.sort\<close> as a stable
  insertion sort driven by a comparator), generic lemmas on lists, and the two locales
  that every component rests on: a comparator contract and a state machine whose steps
  keep an invariant.
\<close>

named_theorems inv_intros "introduction rules of the components' invariants"
named_theorems model_simps "defining equations the component proofs unfold together"

subsection \<open>JavaScript maps\<close>

text \<open>
  A JavaScript \<open>Map\<close> (and an object used as a dictionary) keeps its keys in insertion
  order; \<open>set\<close> on a present key keeps the position. This is exactly the library's
  association list with \<open>AList.update\<close> and \<open>AList.delete\<close>.
\<close>

type_synonym ('k, 'v) jsmap = "('k \<times> 'v) list"

abbreviation jm_get :: "('k, 'v) jsmap \<Rightarrow> 'k \<Rightarrow> 'v option" where
  "jm_get m k \<equiv> map_of m k"

abbreviation jm_set :: "'k \<Rightarrow> 'v \<Rightarrow> ('k, 'v) jsmap \<Rightarrow> ('k, 'v) jsmap" where
  "jm_set k v m \<equiv> AList.update k v m"

abbreviation jm_delete :: "'k \<Rightarrow> ('k, 'v) jsmap \<Rightarrow> ('k, 'v) jsmap" where
  "jm_delete k m \<equiv> AList.delete k m"

abbreviation jm_keys :: "('k, 'v) jsmap \<Rightarrow> 'k list" where
  "jm_keys m \<equiv> map fst m"

abbreviation jm_values :: "('k, 'v) jsmap \<Rightarrow> 'v list" where
  "jm_values m \<equiv> map snd m"

abbreviation jm_has :: "('k, 'v) jsmap \<Rightarrow> 'k \<Rightarrow> bool" where
  "jm_has m k \<equiv> map_of m k \<noteq> None"

definition jm_wf :: "('k, 'v) jsmap \<Rightarrow> bool" where
  "jm_wf m \<longleftrightarrow> distinct (map fst m)"

lemma jm_wf_Nil [simp]: "jm_wf []"
  by (simp add: jm_wf_def)

lemma jm_wf_set [simp]: "jm_wf m \<Longrightarrow> jm_wf (jm_set k v m)"
  by (simp add: jm_wf_def distinct_update)

lemma jm_wf_delete [simp]: "jm_wf m \<Longrightarrow> jm_wf (jm_delete k m)"
  by (simp add: jm_wf_def distinct_delete)

lemma jm_get_set: "jm_get (jm_set k v m) k' = (if k' = k then Some v else jm_get m k')"
  by (simp add: update_conv')

lemma jm_get_delete: "jm_get (jm_delete k m) k' = (if k' = k then None else jm_get m k')"
  by (simp add: delete_conv')

lemma jm_has_iff: "jm_has m k \<longleftrightarrow> k \<in> fst ` set m"
  by (simp add: map_of_eq_None_iff)

lemma jm_wf_SomeI: "jm_wf m \<Longrightarrow> (k, v) \<in> set m \<Longrightarrow> jm_get m k = Some v"
  by (simp add: jm_wf_def)

lemma jm_wf_get_iff: "jm_wf m \<Longrightarrow> jm_get m k = Some v \<longleftrightarrow> (k, v) \<in> set m"
  by (auto simp: jm_wf_def dest: map_of_SomeD)

lemma set_jm_set: "jm_wf m \<Longrightarrow> set (jm_set k v m) = insert (k, v) {p \<in> set m. fst p \<noteq> k}"
  by (induction m) (auto simp: jm_wf_def image_iff)

lemma set_jm_delete: "set (jm_delete k m) = {p \<in> set m. fst p \<noteq> k}"
  by (auto simp: AList.delete_eq)

lemma keys_jm_set: "fst ` set (jm_set k v m) = insert k (fst ` set m)"
  by (simp add: dom_update)

lemma length_jm_set_new: "k \<notin> fst ` set m \<Longrightarrow> length (jm_set k v m) = Suc (length m)"
  by (induction m) auto

lemma length_jm_set_old: "k \<in> fst ` set m \<Longrightarrow> length (jm_set k v m) = length m"
  by (induction m) auto

lemma length_jm_delete_le: "length (jm_delete k m) \<le> length m"
  by (simp add: AList.delete_eq)

lemma jm_delete_absent: "k \<notin> fst ` set m \<Longrightarrow> jm_delete k m = m"
  by (force simp: AList.delete_eq intro!: filter_True)

lemma length_jm_delete_old:
  "jm_wf m \<Longrightarrow> k \<in> fst ` set m \<Longrightarrow> Suc (length (jm_delete k m)) = length m"
proof (induction m)
  case (Cons p m)
  show ?case
  proof (cases "fst p = k")
    case True
    with Cons.prems have "k \<notin> fst ` set m" by (auto simp: jm_wf_def)
    then have "jm_delete k m = m" by (rule jm_delete_absent)
    with True show ?thesis by simp
  next
    case False
    with Cons show ?thesis by (auto simp: jm_wf_def)
  qed
qed simp

subsection \<open>Array.prototype.sort\<close>

text \<open>
  \<open>Array.prototype.sort\<close> is stable (ECMAScript 2019). For a comparator that is a total
  preorder a stable sort has one result, so the insertion sort below computes what the
  engine computes. The comparator returns a number; \<open>cmp x y \<le> 0\<close> keeps \<open>x\<close> first.
\<close>

type_synonym 'a comparator = "'a \<Rightarrow> 'a \<Rightarrow> real"

fun sort_insert :: "'a comparator \<Rightarrow> 'a \<Rightarrow> 'a list \<Rightarrow> 'a list" where
  "sort_insert cmp x [] = [x]"
| "sort_insert cmp x (y # ys) = (if cmp x y \<le> 0 then x # y # ys else y # sort_insert cmp x ys)"

fun js_sort :: "'a comparator \<Rightarrow> 'a list \<Rightarrow> 'a list" where
  "js_sort cmp [] = []"
| "js_sort cmp (x # xs) = sort_insert cmp x (js_sort cmp xs)"

lemma mset_sort_insert [simp]: "mset (sort_insert cmp x xs) = add_mset x (mset xs)"
  by (induction xs) auto

lemma mset_js_sort [simp]: "mset (js_sort cmp xs) = mset xs"
  by (induction xs) auto

lemma set_js_sort [simp]: "set (js_sort cmp xs) = set xs"
  by (metis mset_js_sort set_mset_mset)

lemma length_js_sort [simp]: "length (js_sort cmp xs) = length xs"
  by (metis mset_js_sort size_mset)

lemma set_sort_insert [simp]: "set (sort_insert cmp x xs) = insert x (set xs)"
  by (induction xs) auto

lemma js_sort_eq_Nil [simp]: "js_sort cmp xs = [] \<longleftrightarrow> xs = []"
  by (metis length_0_conv length_js_sort)

lemma distinct_js_sort [simp]: "distinct (js_sort cmp xs) = distinct xs"
  by (metis mset_eq_imp_distinct_iff mset_js_sort)

lemma mset_map_js_sort: "mset (map f (js_sort cmp xs)) = mset (map f xs)"
  by simp

locale js_comparator =
  fixes cmp :: "'a comparator"
  assumes cmp_total: "0 < cmp x y \<Longrightarrow> cmp y x \<le> 0"
    and cmp_trans: "cmp x y \<le> 0 \<Longrightarrow> cmp y z \<le> 0 \<Longrightarrow> cmp x z \<le> 0"
begin

abbreviation "ordered xs \<equiv> sorted_wrt (\<lambda>x y. cmp x y \<le> 0) xs"

lemma ordered_sort_insert: "ordered xs \<Longrightarrow> ordered (sort_insert cmp x xs)"
proof (induction xs)
  case (Cons y ys)
  show ?case
  proof (cases "cmp x y \<le> 0")
    case True
    with Cons.prems show ?thesis by (auto intro: cmp_trans)
  next
    case False
    then have "cmp y x \<le> 0" by (intro cmp_total) simp
    with Cons False show ?thesis by auto
  qed
qed simp

lemma ordered_js_sort: "ordered (js_sort cmp xs)"
  by (induction xs) (auto intro: ordered_sort_insert)

lemma sort_insert_head: "\<forall>y \<in> set xs. cmp x y \<le> 0 \<Longrightarrow> sort_insert cmp x xs = x # xs"
  by (cases xs) auto

lemma js_sort_ordered: "ordered xs \<Longrightarrow> js_sort cmp xs = xs"
  by (induction xs) (auto simp: sort_insert_head)

lemma js_sort_idem: "js_sort cmp (js_sort cmp xs) = js_sort cmp xs"
  by (rule js_sort_ordered, rule ordered_js_sort)

text \<open>Stability: elements that compare equal to \<open>z\<close> keep their order.\<close>

lemma filter_sort_insert_same:
  assumes "\<And>y. P x \<Longrightarrow> P y \<Longrightarrow> cmp x y \<le> 0"
  shows "filter P (sort_insert cmp x xs) = (if P x then x # filter P xs else filter P xs)"
  using assms by (induction xs) auto

lemma js_sort_stable:
  assumes "\<And>x y. P x \<Longrightarrow> P y \<Longrightarrow> cmp x y \<le> 0"
  shows "filter P (js_sort cmp xs) = filter P xs"
  by (induction xs) (simp_all add: filter_sort_insert_same assms)

end

text \<open>Comparators of the form \<open>(a, b) => a.x - b.x\<close>.\<close>

definition by_key :: "('a \<Rightarrow> real) \<Rightarrow> 'a comparator" where
  "by_key f a b = f a - f b"

interpretation by_key: js_comparator "by_key f" for f :: "'a \<Rightarrow> real"
  by unfold_locales (auto simp: by_key_def)

lemma sorted_js_sort_by_key: "sorted (map f (js_sort (by_key f) xs))"
  using by_key.ordered_js_sort [of f xs] by (simp add: by_key_def sorted_wrt_map)

text \<open>With distinct keys the result depends on the elements only, not on their order.\<close>

lemma js_sort_by_key_unique:
  assumes "distinct (map f xs)" "mset xs = mset ys"
  shows "js_sort (by_key f) xs = js_sort (by_key f) ys"
proof -
  have sets: "set ys = set xs" using assms(2) by (metis set_mset_mset)
  have "mset (map f ys) = mset (map f xs)" using assms(2) by simp
  then have dys: "distinct (map f ys)" using assms(1) mset_eq_imp_distinct_iff by blast
  have d: "distinct (map f (js_sort (by_key f) zs))" if "distinct (map f zs)" for zs
    using that mset_map_js_sort [of f "by_key f" zs] mset_eq_imp_distinct_iff by blast
  show ?thesis
  proof (rule map_sorted_distinct_set_unique [where f = f])
    show "inj_on f (set (js_sort (by_key f) xs) \<union> set (js_sort (by_key f) ys))"
      using assms(1) sets by (simp add: distinct_map)
  qed (use d assms(1) dys sets sorted_js_sort_by_key in auto)
qed

text \<open>
  Comparators of the form \<open>(a, b) => a.x - b.x || tie(a, b)\<close>: the second comparator
  decides when the first difference is 0.
\<close>

definition cmp_or :: "'a comparator \<Rightarrow> 'a comparator \<Rightarrow> 'a comparator" where
  "cmp_or c d a b = (if c a b \<noteq> 0 then c a b else d a b)"


lemma cmp_or_by_key_le:
  "cmp_or (by_key f) d a b \<le> 0 \<longleftrightarrow> f a < f b \<or> (f a = f b \<and> d a b \<le> 0)"
  by (auto simp: cmp_or_def by_key_def)

lemma js_comparator_cmp_or_by_key:
  assumes "js_comparator d"
  shows "js_comparator (cmp_or (by_key f) d)"
proof
  fix x y :: 'a
  show "0 < cmp_or (by_key f) d x y \<Longrightarrow> cmp_or (by_key f) d y x \<le> 0"
    using js_comparator.cmp_total [OF assms, of x y]
    by (auto simp: cmp_or_def by_key_def split: if_splits)
next
  fix x y z :: 'a
  show "cmp_or (by_key f) d x y \<le> 0 \<Longrightarrow> cmp_or (by_key f) d y z \<le> 0
    \<Longrightarrow> cmp_or (by_key f) d x z \<le> 0"
    using js_comparator.cmp_trans [OF assms, of x y z] by (auto simp: cmp_or_by_key_le)
qed

subsection \<open>Strings\<close>

text \<open>\<open>String.prototype.trim\<close> on the one-byte characters of the model.\<close>

definition js_space :: "char \<Rightarrow> bool" where
  "js_space c \<longleftrightarrow> (of_char c :: nat) \<in> {9, 10, 11, 12, 13, 32, 160}"

definition js_trim :: "string \<Rightarrow> string" where
  "js_trim s = rev (dropWhile js_space (rev (dropWhile js_space s)))"

text \<open>Decimal digits, as template literals print a number.\<close>

fun nat_digits :: "nat \<Rightarrow> string" where
  "nat_digits n =
     (if n < 10 then [char_of (48 + n)] else nat_digits (n div 10) @ [char_of (48 + n mod 10)])"

declare nat_digits.simps [simp del]

definition digits_value :: "string \<Rightarrow> nat" where
  "digits_value ds = foldl (\<lambda>v c. 10 * v + (of_char c - 48)) 0 ds"

lemma digits_value_snoc: "digits_value (ds @ [c]) = 10 * digits_value ds + (of_char c - 48)"
  by (simp add: digits_value_def)

lemma digits_value_nat_digits: "digits_value (nat_digits n) = n"
proof (induction n rule: nat_digits.induct)
  case (1 n)
  show ?case
  proof (cases "n < 10")
    case True
    then show ?thesis by (subst nat_digits.simps) (simp add: digits_value_def)
  next
    case False
    with 1 show ?thesis
      by (subst nat_digits.simps) (simp add: digits_value_snoc)
  qed
qed

lemma nat_digits_inject [simp]: "nat_digits m = nat_digits n \<longleftrightarrow> m = n"
  by (metis digits_value_nat_digits)

subsection \<open>State machines\<close>

text \<open>
  A component with state is a total step function over its events. The locale carries a
  one-step invariant to every run; the runs are left folds over the event list.
\<close>

definition run :: "('s \<Rightarrow> 'e \<Rightarrow> 's) \<Rightarrow> 's \<Rightarrow> 'e list \<Rightarrow> 's" where
  "run step s es = foldl step s es"

lemma run_Nil [simp]: "run step s [] = s"
  by (simp add: run_def)

lemma run_Cons [simp]: "run step s (e # es) = run step (step s e) es"
  by (simp add: run_def)

lemma run_append [simp]: "run step s (es @ fs) = run step (run step s es) fs"
  by (simp add: run_def)

text \<open>Every event of the run is allowed in the state it happens in.\<close>

fun legal :: "('s \<Rightarrow> 'e \<Rightarrow> 's) \<Rightarrow> ('s \<Rightarrow> 'e \<Rightarrow> bool) \<Rightarrow> 's \<Rightarrow> 'e list \<Rightarrow> bool" where
  "legal step ok s [] \<longleftrightarrow> True"
| "legal step ok s (e # es) \<longleftrightarrow> ok s e \<and> legal step ok (step s e) es"

lemma legal_list_all: "list_all ok es \<Longrightarrow> legal step (\<lambda>_. ok) s es"
  by (induction es arbitrary: s) auto

lemma legal_append: "legal step ok s (es @ fs) \<longleftrightarrow> legal step ok s es \<and> legal step ok (run step s es) fs"
  by (induction es arbitrary: s) auto

locale guarded_machine =
  fixes step :: "'s \<Rightarrow> 'e \<Rightarrow> 's" and inv :: "'s \<Rightarrow> bool" and ok :: "'s \<Rightarrow> 'e \<Rightarrow> bool"
  assumes guarded_step: "inv s \<Longrightarrow> ok s e \<Longrightarrow> inv (step s e)"
begin

lemma run_guarded: "inv s \<Longrightarrow> legal step ok s es \<Longrightarrow> inv (run step s es)"
  by (induction es arbitrary: s) (auto intro: guarded_step)

end

text \<open>A machine whose every event keeps the invariant.\<close>

locale invariant_machine =
  fixes step :: "'s \<Rightarrow> 'e \<Rightarrow> 's" and inv :: "'s \<Rightarrow> bool"
  assumes step_inv: "inv s \<Longrightarrow> inv (step s e)"

sublocale invariant_machine \<subseteq> guarded_machine step inv "\<lambda>_ _. True"
  by unfold_locales (rule step_inv)

context invariant_machine
begin

lemma run_inv: "inv s \<Longrightarrow> inv (run step s es)"
  by (rule run_guarded) (simp_all add: legal_list_all list_all_iff)

end

text \<open>
  A machine that comes to rest: every enabled step uses up some of the work that is left, so a run of
  enabled steps is no longer than it.
\<close>

locale settling_machine = guarded_machine step inv ok
  for step :: "'s \<Rightarrow> 'e \<Rightarrow> 's" and inv :: "'s \<Rightarrow> bool" and ok :: "'s \<Rightarrow> 'e \<Rightarrow> bool" +
  fixes work :: "'s \<Rightarrow> nat"
  assumes work_decreases: "inv s \<Longrightarrow> ok s e \<Longrightarrow> work (step s e) < work s"
begin

lemma settles: "inv s \<Longrightarrow> legal step ok s es \<Longrightarrow> length es + work (run step s es) \<le> work s"
proof (induction es arbitrary: s)
  case (Cons e es)
  then have "length es + work (run step (step s e) es) \<le> work (step s e)"
    using guarded_step [of s e] by simp
  with Cons.prems work_decreases [of s e] show ?case by simp
qed simp

end

subsection \<open>Lists\<close>

lemma filter_eq_Nil_conv: "filter P xs = [] \<longleftrightarrow> (\<forall>x \<in> set xs. \<not> P x)"
  by (simp add: filter_empty_conv)

lemma sum_list_map_le:
  fixes f g :: "'a \<Rightarrow> real"
  shows "(\<And>x. x \<in> set xs \<Longrightarrow> f x \<le> g x) \<Longrightarrow> sum_list (map f xs) \<le> sum_list (map g xs)"
  by (rule sum_list_mono)

lemma map_of_SomeE: "map_of m k = Some v \<Longrightarrow> ((k, v) \<in> set m \<Longrightarrow> R) \<Longrightarrow> R"
  by (auto dest: map_of_SomeD)

text \<open>\<open>[...new Set(xs)]\<close>: duplicates dropped, first occurrences in order.\<close>

fun js_dedupe :: "'a list \<Rightarrow> 'a list" where
  "js_dedupe [] = []"
| "js_dedupe (x # xs) = x # filter (\<lambda>y. y \<noteq> x) (js_dedupe xs)"

lemma set_js_dedupe [simp]: "set (js_dedupe xs) = set xs"
  by (induction xs) auto

lemma distinct_js_dedupe [simp]: "distinct (js_dedupe xs)"
  by (induction xs) auto

subsection \<open>Typed arrays\<close>

text \<open>Byte \<open>k\<close> of a 32-bit value, \<open>(x >>> 8k) & 0xff\<close>, and \<open>DataView.setUint32\<close>.\<close>

type_synonym byte = "8 word"
type_synonym bytes = "byte list"

definition word_byte :: "nat \<Rightarrow> 32 word \<Rightarrow> byte" where
  "word_byte k w = ucast (Bit_Operations.and (drop_bit (8 * k) w) 255)"

definition le32 :: "32 word \<Rightarrow> bytes" where
  "le32 w = [word_byte 0 w, word_byte 1 w, word_byte 2 w, word_byte 3 w]"

definition of_le32 :: "bytes \<Rightarrow> nat" where
  "of_le32 b = unat (b ! 0) + 256 * unat (b ! 1) + 65536 * unat (b ! 2) + 16777216 * unat (b ! 3)"

lemma unat_word_byte: "unat (word_byte k w) = (unat w div 256 ^ k) mod 256"
proof -
  have "Bit_Operations.and (drop_bit (8 * k) w) 255 = take_bit 8 (drop_bit (8 * k) w)"
    by (simp add: take_bit_eq_mask mask_eq_exp_minus_1)
  then have "unat (word_byte k w) = take_bit 8 (unat (drop_bit (8 * k) w))"
    by (simp add: word_byte_def unsigned_ucast_eq unsigned_take_bit_eq)
  also have "unat (drop_bit (8 * k) w) = unat w div 256 ^ k"
    using unsigned_less [of w, where 'a = nat]
    by (simp only: unsigned_drop_bit_eq) (simp add: drop_bit_eq_div power_mult take_bit_nat_eq_self)
  also have "take_bit 8 (unat w div 256 ^ k) = (unat w div 256 ^ k) mod 256"
    by (simp add: take_bit_eq_mod)
  finally show ?thesis .
qed

lemma bytes_of_nat32:
  fixes n :: nat
  assumes "n < 2 ^ 32"
  shows "n mod 256 + 256 * (n div 256 mod 256) + 65536 * (n div 65536 mod 256)
    + 16777216 * (n div 16777216 mod 256) = n"
proof -
  have div: "n div 65536 = n div 256 div 256" "n div 16777216 = n div 256 div 256 div 256"
    by (simp_all add: div_mult2_eq [symmetric])
  have "n div 16777216 < 256"
    using assms by (simp add: less_mult_imp_div_less)
  then have "n div 16777216 mod 256 = n div 16777216" by simp
  then show ?thesis
    unfolding div
    using mult_div_mod_eq [of 256 n] mult_div_mod_eq [of 256 "n div 256"]
      mult_div_mod_eq [of 256 "n div 256 div 256"] by linarith
qed

lemma unat_less_32: "unat (w :: 32 word) < 4294967296"
  using unsigned_less [of w] by simp

lemma of_le32_le32 [simp]: "of_le32 (le32 w) = unat w"
  using bytes_of_nat32 [of "unat w"] unat_less_32 [of w]
  by (simp add: of_le32_def le32_def unat_word_byte)

lemma length_le32 [simp]: "length (le32 w) = 4"
  by (simp add: le32_def)

lemma le32_inject [simp]: "le32 v = le32 w \<longleftrightarrow> v = w"
  by (metis of_le32_le32 word_unat_eq_iff)

text \<open>Records of equal width laid out one after the other determine the list.\<close>

lemma concat_map_inject:
  assumes "concat (map f xs) = concat (map f ys)" "\<And>x. length (f x) = n" "0 < n"
    and "\<And>x y. x \<in> set xs \<Longrightarrow> y \<in> set ys \<Longrightarrow> f x = f y \<Longrightarrow> x = y"
  shows "xs = ys"
  using assms
proof (induction xs arbitrary: ys)
  case Nil
  have "f y \<noteq> []" for y using Nil.prems(2) [of y] Nil.prems(3) by auto
  with Nil.prems(1) show ?case by (cases ys) auto
next
  case (Cons x xs)
  obtain y zs where ys: "ys = y # zs"
    using Cons.prems(1) Cons.prems(2) [of x] Cons.prems(3) by (cases ys) auto
  with Cons.prems(1,2) have "f x = f y" "concat (map f xs) = concat (map f zs)" by auto
  with Cons ys show ?case by auto
qed

end
