(* ===== verification/Protocol.thy ===== *)
theory Protocol
  imports Prelude
begin

text \<open>
  \<open>packages/protocol/src/session.ts\<close> and \<open>signaling.ts\<close>: the session model and the
  control-plane messages shared by the desk, the phones and the server. Identifiers are
  strings; the ISO timestamps of the wire are their \<open>Date\<close> millisecond values.
\<close>

subsection \<open>Session model\<close>

datatype peer_role = Desk | Recorder

record device_info =
  userAgent :: string
  label :: "string option"
  deviceId :: "string option"
  avatarUrl :: "string option"

record peer_info =
  pi_peerId :: string
  pi_role :: peer_role
  pi_deviceInfo :: device_info
  pi_joinedAt :: int

record take_info =
  ti_takeId :: string
  ti_startedAt :: int
  ti_stoppedAt :: "int option"
  ti_disarmedPeerIds :: "string list option"

record session_state =
  ss_sessionId :: string
  ss_peers :: "peer_info list"
  ss_activeTake :: "take_info option"

subsection \<open>Messages\<close>

record stream_ref =
  sr_takeId :: string
  sr_streamId :: string

record ice_candidate =
  ic_candidate :: string
  ic_sdpMid :: "string option"
  ic_sdpMLineIndex :: "int option"

record chirp_spec =
  startHz :: real
  endHz :: real
  durationMs :: real
  gainDbfs :: real
  repeats :: nat
  gapMs :: real

definition default_chirp_spec :: chirp_spec where
  "default_chirp_spec =
     \<lparr>startHz = 200, endHz = 8000, durationMs = 1000, gainDbfs = -12, repeats = 2, gapMs = 1000\<rparr>"

datatype signaling_message =
    Hello (hello_role: peer_role) (hello_device: device_info)
      (hello_versions: "nat list") (hello_token: "string option")
  | Bye
  | PeerUpdate string string
  | IceOffer string "string option" string
  | IceAnswer string "string option" string
  | IceCandidate string "string option" "ice_candidate option"
  | TakeStart string int "string list option"
  | TakeStop string
  | StreamAnnounce string string "string option"
  | StreamFinal string string nat "string option"
  | StreamsDelete "stream_ref list"
  | StreamsDeleted "stream_ref list" "string list"
  | CalibrationChirp string real chirp_spec
  | Welcome string nat session_state
  | PeerStatus session_state
  | ErrorMsg string string bool

definition supported_protocol_versions :: "nat list" where
  "supported_protocol_versions = [1]"

definition server_peer_id :: string where
  "server_peer_id = ''00000000-0000-4000-8000-000000000001''"

definition negotiate_version :: "nat list \<Rightarrow> nat option" where
  "negotiate_version peerVersions =
     (let common = filter (\<lambda>v. v \<in> set supported_protocol_versions) peerVersions
      in if common \<noteq> [] then Some (Max (set common)) else None)"

lemma negotiate_version_Some:
  "negotiate_version vs = Some v \<longleftrightarrow>
     v \<in> set vs \<inter> set supported_protocol_versions
     \<and> (\<forall>w \<in> set vs \<inter> set supported_protocol_versions. w \<le> v)"
proof -
  let ?common = "filter (\<lambda>v. v \<in> set supported_protocol_versions) vs"
  have set: "set ?common = set vs \<inter> set supported_protocol_versions" by auto
  show ?thesis
  proof (cases "?common = []")
    case True
    then have "negotiate_version vs = None" by (simp add: negotiate_version_def Let_def)
    moreover from True set have "set vs \<inter> set supported_protocol_versions = {}"
      by (metis empty_set)
    ultimately show ?thesis by simp
  next
    case False
    then have "negotiate_version vs = Some (Max (set ?common))"
      by (simp add: negotiate_version_def Let_def)
    moreover have "Max (set ?common) = v \<longleftrightarrow> v \<in> set ?common \<and> (\<forall>w \<in> set ?common. w \<le> v)"
      using False by (metis List.finite_set Max_eq_iff set_empty)
    ultimately show ?thesis by (simp only: set option.inject)
  qed
qed

lemma negotiate_version_None:
  "negotiate_version vs = None \<longleftrightarrow> set vs \<inter> set supported_protocol_versions = {}"
proof -
  have "filter (\<lambda>v. v \<in> set supported_protocol_versions) vs = []
      \<longleftrightarrow> set vs \<inter> set supported_protocol_versions = {}"
    by (induction vs) auto
  then show ?thesis by (simp add: negotiate_version_def Let_def)
qed

end
