(* ===== verification/Blob_Store.thy ===== *)
theory Blob_Store
  imports Prelude
begin

text \<open>
  \<open>apps/server/src/blob/index.ts\<close>: the \<open>BlobStore\<close> interface as a locale and the
  filesystem driver as its model. I/O can fail at any call: every operation takes a
  predicate saying for which keys the driver's system call succeeds, so a crash or an
  unreachable store is a branch of the model.
\<close>

datatype blob_error = BlobNotFound string | InvalidBlobKey string | IoFailure string

definition chunk_blob_key :: "string \<Rightarrow> string \<Rightarrow> nat \<Rightarrow> string" where
  "chunk_blob_key takeId streamId seq = takeId @ ''/'' @ streamId @ ''/'' @ nat_digits seq"

subsection \<open>The interface\<close>

text \<open>
  What the archive may rely on, for keys and calls that succeed: a \<open>get\<close> sees the last
  \<open>put\<close>, \<open>delete\<close> is idempotent and removes exactly its key, \<open>get\<close> on a missing key is
  the one typed error of both drivers.
\<close>

locale blob_store =
  fixes put :: "(string \<Rightarrow> bool) \<Rightarrow> 's \<Rightarrow> string \<Rightarrow> bytes \<Rightarrow> blob_error + 's"
    and get :: "(string \<Rightarrow> bool) \<Rightarrow> 's \<Rightarrow> string \<Rightarrow> blob_error + bytes"
    and delete :: "(string \<Rightarrow> bool) \<Rightarrow> 's \<Rightarrow> string \<Rightarrow> blob_error + 's"
    and content :: "'s \<Rightarrow> string \<Rightarrow> bytes option"
    and valid_key :: "string \<Rightarrow> bool"
  assumes put_ok: "put io s k b = Inr s' \<Longrightarrow> valid_key k \<and> content s' = (content s)(k := Some b)"
    and put_succeeds: "valid_key k \<Longrightarrow> io k \<Longrightarrow> \<exists>s'. put io s k b = Inr s'"
    and get_ok: "valid_key k \<Longrightarrow> io k \<Longrightarrow>
          get io s k = (case content s k of None \<Rightarrow> Inl (BlobNotFound k) | Some b \<Rightarrow> Inr b)"
    and delete_ok: "delete io s k = Inr s' \<Longrightarrow> valid_key k \<and> content s' = (content s)(k := None)"
    and delete_succeeds: "valid_key k \<Longrightarrow> io k \<Longrightarrow> \<exists>s'. delete io s k = Inr s'"
begin

lemma get_after_put: "put io s k b = Inr s' \<Longrightarrow> io k \<Longrightarrow> get io s' k = Inr b"
  using put_ok get_ok by fastforce

lemma get_after_delete: "delete io s k = Inr s' \<Longrightarrow> io k \<Longrightarrow> get io s' k = Inl (BlobNotFound k)"
  using delete_ok get_ok by fastforce

lemma delete_twice: "delete io s k = Inr s' \<Longrightarrow> delete io s' k = Inr s'' \<Longrightarrow> content s'' = content s'"
  by (drule delete_ok, drule delete_ok) simp

end

subsection \<open>The filesystem driver\<close>

record fs_store =
  fs_root :: string
  fs_files :: "(string, bytes) jsmap"

fun has_dotdot :: "string \<Rightarrow> bool" where
  "has_dotdot (c # d # cs) \<longleftrightarrow> (c = CHR ''.'' \<and> d = CHR ''.'') \<or> has_dotdot (d # cs)"
| "has_dotdot _ \<longleftrightarrow> False"

text \<open>\<open>join(root, key)\<close> for the keys of \<^const>\<open>chunk_blob_key\<close>, which are normal paths.\<close>

definition fs_path :: "fs_store \<Rightarrow> string \<Rightarrow> blob_error + string" where
  "fs_path s key =
     (if has_dotdot key then Inl (InvalidBlobKey key) else Inr (fs_root s @ ''/'' @ key))"

definition fs_put :: "(string \<Rightarrow> bool) \<Rightarrow> fs_store \<Rightarrow> string \<Rightarrow> bytes \<Rightarrow> blob_error + fs_store" where
  "fs_put io s key b =
     (case fs_path s key of Inl e \<Rightarrow> Inl e
      | Inr path \<Rightarrow>
          if \<not> io key then Inl (IoFailure key)
          else Inr (s\<lparr>fs_files := jm_set path b (fs_files s)\<rparr>))"

definition fs_get :: "(string \<Rightarrow> bool) \<Rightarrow> fs_store \<Rightarrow> string \<Rightarrow> blob_error + bytes" where
  "fs_get io s key =
     (case fs_path s key of Inl e \<Rightarrow> Inl e
      | Inr path \<Rightarrow>
          if \<not> io key then Inl (IoFailure key)
          else (case jm_get (fs_files s) path of
                  None \<Rightarrow> Inl (BlobNotFound key) | Some b \<Rightarrow> Inr b))"

definition fs_delete :: "(string \<Rightarrow> bool) \<Rightarrow> fs_store \<Rightarrow> string \<Rightarrow> blob_error + fs_store" where
  "fs_delete io s key =
     (case fs_path s key of Inl e \<Rightarrow> Inl e
      | Inr path \<Rightarrow>
          if \<not> io key then Inl (IoFailure key)
          else Inr (s\<lparr>fs_files := jm_delete path (fs_files s)\<rparr>))"

definition fs_content :: "fs_store \<Rightarrow> string \<Rightarrow> bytes option" where
  "fs_content s key =
     (case fs_path s key of Inl e \<Rightarrow> None | Inr path \<Rightarrow> jm_get (fs_files s) path)"

lemma fs_path_upd [simp]: "fs_path (s\<lparr>fs_files := m\<rparr>) k = fs_path s k"
  by (simp add: fs_path_def)

lemma fs_path_inj: "fs_path s k = Inr p \<Longrightarrow> fs_path s k' = Inr p \<Longrightarrow> k = k'"
  by (auto simp: fs_path_def split: if_splits)

lemma fs_content_set:
  "fs_path s k = Inr p \<Longrightarrow>
    fs_content (s\<lparr>fs_files := jm_set p b (fs_files s)\<rparr>) = (fs_content s)(k := Some b)"
  by (auto simp: fs_content_def fun_eq_iff jm_get_set dest: fs_path_inj split: sum.splits)

lemma fs_content_delete:
  "fs_path s k = Inr p \<Longrightarrow>
    fs_content (s\<lparr>fs_files := jm_delete p (fs_files s)\<rparr>) = (fs_content s)(k := None)"
  by (auto simp: fs_content_def fun_eq_iff jm_get_delete dest: fs_path_inj split: sum.splits)

interpretation fs: blob_store fs_put fs_get fs_delete fs_content "\<lambda>k. \<not> has_dotdot k"
proof
  fix io s k b s'
  assume "fs_put io s k b = Inr s'"
  then show "\<not> has_dotdot k \<and> fs_content s' = (fs_content s)(k := Some b)"
    by (auto simp: fs_put_def fs_content_set split: sum.splits if_splits)
      (simp add: fs_path_def)
next
  fix io s k s'
  assume "fs_delete io s k = Inr s'"
  then show "\<not> has_dotdot k \<and> fs_content s' = (fs_content s)(k := None)"
    by (auto simp: fs_delete_def fs_content_delete split: sum.splits if_splits)
      (simp add: fs_path_def)
qed (auto simp: fs_put_def fs_get_def fs_delete_def fs_content_def fs_path_def split: option.splits)

lemmas fs_laws = fs.put_ok fs.put_succeeds fs.get_ok fs.delete_ok fs.delete_succeeds

subsection \<open>Blob keys\<close>

lemma append_slash_inject:
  "CHR ''/'' \<notin> set a \<Longrightarrow> CHR ''/'' \<notin> set b \<Longrightarrow>
    a @ CHR ''/'' # x = b @ CHR ''/'' # y \<longleftrightarrow> a = b \<and> x = y"
proof (induction a arbitrary: b)
  case Nil
  then show ?case by (cases b) auto
next
  case (Cons c a)
  then show ?case by (cases b) auto
qed

lemma chunk_blob_key_inject:
  assumes "CHR ''/'' \<notin> set t \<union> set t' \<union> set u \<union> set u'"
  shows "chunk_blob_key t u i = chunk_blob_key t' u' j \<longleftrightarrow> t = t' \<and> u = u' \<and> i = j"
  using assms by (auto simp: chunk_blob_key_def append_slash_inject)

end
