(* ===== verification/Archive.thy ===== *)
theory Archive
  imports Protocol Blob_Store
begin

text \<open>
  \<open>apps/server/src/archive/index.ts\<close> over the tables of \<open>db/schema.ts\<close>: the durable
  store of sessions, takes, streams and chunks. A table is an insertion-ordered map from its
  primary key to its row; a statement that violates a foreign key fails and changes nothing;
  blobs live in the filesystem driver of \<open>Blob_Store\<close>. Timestamps are milliseconds, the
  clock reading of a call is its argument \<open>now\<close>.
\<close>

subsection \<open>Tables\<close>

record session_row =
  se_createdAt :: int
  se_lastActivityAt :: int
  se_ownerUserId :: "string option"
  se_ownerEmail :: "string option"

record share_row =
  sh_createdAt :: int
  sh_createdBy :: string

record peer_row =
  pe_sessionId :: string
  pe_role :: peer_role
  pe_userAgent :: string
  pe_label :: "string option"
  pe_deviceId :: "string option"
  pe_avatarUrl :: "string option"
  pe_joinedAt :: int

record take_row =
  ta_sessionId :: string
  ta_startedAt :: int
  ta_stoppedAt :: "int option"
  ta_wallClockHint :: "int option"

record stream_header =
  hd_sampleRate :: nat
  hd_bitsPerSample :: nat
  hd_channels :: nat
  hd_deviceDesc :: string
  hd_clockEpochUs :: int
  hd_wallClockHintMs :: int

text \<open>The six header columns are written together, so they are one nullable group here.\<close>

record stream_row =
  st_takeId :: string
  st_peerId :: "string option"
  st_header :: "stream_header option"
  st_finalSeq :: "nat option"
  st_flagged :: bool

record chunk_row =
  ch_takeId :: string
  ch_firstSampleIndex :: nat
  ch_sampleCount :: nat
  ch_captureTsUs :: int
  ch_crc32c :: nat
  ch_payloadLen :: nat
  ch_blobKey :: string

record gap_row =
  ga_endSeq :: nat

record chirp_row =
  ci_sessionId :: string
  ci_emitTsDeskUs :: real
  ci_spec :: chirp_spec

record archive_db =
  sessions :: "(string, session_row) jsmap"
  session_shares :: "(string \<times> string, share_row) jsmap"
  peers_tbl :: "(string, peer_row) jsmap"
  takes :: "(string, take_row) jsmap"
  streams :: "(string, stream_row) jsmap"
  chunks :: "(string \<times> nat, chunk_row) jsmap"
  gaps :: "(string \<times> nat, gap_row) jsmap"
  collab_docs :: "(string, bytes) jsmap"
  chirps :: "(string, chirp_row) jsmap"

record archive =
  db :: archive_db
  blobs :: fs_store

datatype archive_error = FkViolation string | BlobError blob_error | DbUnavailable

definition empty_archive :: archive where
  "empty_archive =
     \<lparr>db = \<lparr>sessions = [], session_shares = [], peers_tbl = [], takes = [], streams = [],
            chunks = [], gaps = [], collab_docs = [], chirps = []\<rparr>,
      blobs = \<lparr>fs_root = ''blobs'', fs_files = []\<rparr>\<rparr>"

text \<open>\<open>insert ... on conflict do nothing\<close>, \<open>update ... where id = k\<close>, \<open>delete ... where p\<close>.\<close>

definition insert_new :: "'k \<Rightarrow> 'v \<Rightarrow> ('k, 'v) jsmap \<Rightarrow> ('k, 'v) jsmap" where
  "insert_new k v m = (if jm_has m k then m else m @ [(k, v)])"

definition update_row :: "'k \<Rightarrow> ('v \<Rightarrow> 'v) \<Rightarrow> ('k, 'v) jsmap \<Rightarrow> ('k, 'v) jsmap" where
  "update_row k f m = map (\<lambda>(k', v). (k', if k' = k then f v else v)) m"

definition delete_where :: "('k \<Rightarrow> 'v \<Rightarrow> bool) \<Rightarrow> ('k, 'v) jsmap \<Rightarrow> ('k, 'v) jsmap" where
  "delete_where p m = filter (\<lambda>(k, v). \<not> p k v) m"

lemma jm_get_insert_new:
  "jm_get (insert_new k v m) k' = (if k' = k \<and> jm_get m k = None then Some v else jm_get m k')"
  by (auto simp: insert_new_def map_add_def split: option.splits)

lemma jm_get_update_row:
  "jm_get (update_row k f m) k' = (if k' = k then map_option f (jm_get m k) else jm_get m k')"
  by (induction m) (auto simp: update_row_def)

lemma jm_get_delete_where:
  "jm_wf m \<Longrightarrow> jm_get (delete_where p m) k
    = (case jm_get m k of None \<Rightarrow> None | Some v \<Rightarrow> if p k v then None else Some v)"
  by (induction m)
    (auto simp: delete_where_def jm_wf_def map_of_eq_None_iff image_iff split: option.splits)

text \<open>The set of primary keys, kept opaque to the simplifier.\<close>

definition keys_of :: "('k, 'v) jsmap \<Rightarrow> 'k set" where
  "keys_of m = fst ` set m"

lemma jm_get_None_keys: "jm_get m k = None \<longleftrightarrow> k \<notin> keys_of m"
  by (simp add: keys_of_def map_of_eq_None_iff)

lemma jm_get_Some_keys: "jm_get m k = Some v \<Longrightarrow> k \<in> keys_of m"
  by (metis jm_get_None_keys option.distinct(1))

lemma jm_has_keys: "jm_has m k \<longleftrightarrow> k \<in> keys_of m"
  by (simp only: jm_get_None_keys not_not)

lemma keys_of_Nil [simp]: "keys_of [] = {}"
  by (simp add: keys_of_def)

lemma keys_of_insert_new [simp]: "keys_of (insert_new k v m) = insert k (keys_of m)"
  by (auto simp: keys_of_def insert_new_def map_of_eq_None_iff)

lemma keys_of_update_row [simp]: "keys_of (update_row k f m) = keys_of m"
  by (force simp: keys_of_def update_row_def)

lemma keys_of_jm_set [simp]: "keys_of (jm_set k v m) = insert k (keys_of m)"
  by (simp add: keys_of_def keys_jm_set)

lemma keys_of_delete_where [simp]: "keys_of (delete_where (\<lambda>k _. q k) m) = {k \<in> keys_of m. \<not> q k}"
  by (force simp: keys_of_def delete_where_def)

lemma keys_of_I: "(k, v) \<in> set m \<Longrightarrow> k \<in> keys_of m"
  by (force simp: keys_of_def)

lemma jm_wf_tables [simp]:
  "jm_wf m \<Longrightarrow> jm_wf (insert_new k v m)"
  "jm_wf m \<Longrightarrow> jm_wf (update_row k f m)"
  "jm_wf m \<Longrightarrow> jm_wf (delete_where p m)"
  by (auto simp: jm_wf_def insert_new_def update_row_def delete_where_def comp_def split_beta
      map_of_eq_None_iff distinct_map_filter)

lemmas table_simps = jm_get_insert_new jm_get_update_row jm_get_delete_where

text \<open>All rows of a table satisfy \<open>P\<close>; a column \<open>f\<close> of a table references another table.\<close>

definition rows_all :: "('k, 'v) jsmap \<Rightarrow> ('k \<Rightarrow> 'v \<Rightarrow> bool) \<Rightarrow> bool" where
  "rows_all m P \<longleftrightarrow> (\<forall>(k, v) \<in> set m. P k v)"

abbreviation refers :: "('k, 'v) jsmap \<Rightarrow> ('k \<Rightarrow> 'v \<Rightarrow> 'j) \<Rightarrow> ('j, 'w) jsmap \<Rightarrow> bool" where
  "refers m f t \<equiv> rows_all m (\<lambda>k v. f k v \<in> keys_of t)"

lemma rows_all_Nil [simp]: "rows_all [] P"
  by (simp add: rows_all_def)

lemma rows_all_insert_new: "rows_all m P \<Longrightarrow> (k \<notin> keys_of m \<Longrightarrow> P k v) \<Longrightarrow> rows_all (insert_new k v m) P"
  by (auto simp: rows_all_def insert_new_def jm_get_None_keys)

lemma rows_all_update_row:
  "rows_all m P \<Longrightarrow> (\<And>v. P k v \<Longrightarrow> P k (f v)) \<Longrightarrow> rows_all (update_row k f m) P"
  by (fastforce simp: rows_all_def update_row_def)

lemma rows_all_jm_set: "jm_wf m \<Longrightarrow> rows_all m P \<Longrightarrow> P k v \<Longrightarrow> rows_all (jm_set k v m) P"
  by (auto simp: rows_all_def set_jm_set)

lemma rows_all_delete_where:
  "rows_all m P \<Longrightarrow> (\<And>k v. (k, v) \<in> set m \<Longrightarrow> \<not> p k v \<Longrightarrow> P k v \<Longrightarrow> Q k v)
    \<Longrightarrow> rows_all (delete_where p m) Q"
  by (auto simp: rows_all_def delete_where_def)

lemma rows_all_mono:
  "rows_all m P \<Longrightarrow> (\<And>k v. (k, v) \<in> set m \<Longrightarrow> P k v \<Longrightarrow> Q k v) \<Longrightarrow> rows_all m Q"
  by (auto simp: rows_all_def)

lemma rows_all_get: "rows_all m P \<Longrightarrow> jm_get m k = Some v \<Longrightarrow> P k v"
  by (auto simp: rows_all_def dest: map_of_SomeD)

lemmas rows_intros = rows_all_insert_new rows_all_update_row rows_all_jm_set

subsection \<open>Write side\<close>

definition ensure_session :: "int \<Rightarrow> string \<Rightarrow> archive \<Rightarrow> archive" where
  "ensure_session now sid a =
     a\<lparr>db := db a\<lparr>sessions := insert_new sid
        \<lparr>se_createdAt = now, se_lastActivityAt = now, se_ownerUserId = None, se_ownerEmail = None\<rparr>
        (sessions (db a))\<rparr>\<rparr>"

definition touch_session :: "int \<Rightarrow> string \<Rightarrow> archive \<Rightarrow> archive" where
  "touch_session now sid a =
     a\<lparr>db := db a\<lparr>sessions :=
        update_row sid (\<lambda>r. r\<lparr>se_lastActivityAt := now\<rparr>) (sessions (db a))\<rparr>\<rparr>"

definition ensure_take :: "int \<Rightarrow> string \<Rightarrow> string \<Rightarrow> int option \<Rightarrow> archive \<Rightarrow> archive" where
  "ensure_take now sid tid hint a =
     (let a = ensure_session now sid a
      in a\<lparr>db := db a\<lparr>takes := insert_new tid
            \<lparr>ta_sessionId = sid, ta_startedAt = now, ta_stoppedAt = None, ta_wallClockHint = hint\<rparr>
            (takes (db a))\<rparr>\<rparr>)"

definition upsert_peer :: "string \<Rightarrow> peer_row \<Rightarrow> archive \<Rightarrow> archive_error + archive" where
  "upsert_peer pid row a =
     (case jm_get (peers_tbl (db a)) pid of
        Some old \<Rightarrow>
          Inr (a\<lparr>db := db a\<lparr>peers_tbl := jm_set pid
             (old\<lparr>pe_userAgent := pe_userAgent row, pe_label := pe_label row,
                  pe_deviceId := pe_deviceId row, pe_avatarUrl := pe_avatarUrl row\<rparr>)
             (peers_tbl (db a))\<rparr>\<rparr>)
      | None \<Rightarrow>
          if jm_has (sessions (db a)) (pe_sessionId row)
          then Inr (a\<lparr>db := db a\<lparr>peers_tbl := insert_new pid row (peers_tbl (db a))\<rparr>\<rparr>)
          else Inl (FkViolation ''peers.session_id''))"

definition update_peer_label :: "string \<Rightarrow> string option \<Rightarrow> archive \<Rightarrow> archive" where
  "update_peer_label pid lbl a =
     a\<lparr>db := db a\<lparr>peers_tbl :=
        update_row pid (\<lambda>r. r\<lparr>pe_label := lbl\<rparr>) (peers_tbl (db a))\<rparr>\<rparr>"

definition stop_take :: "int \<Rightarrow> string \<Rightarrow> archive \<Rightarrow> archive" where
  "stop_take now tid a =
     a\<lparr>db := db a\<lparr>takes := update_row tid (\<lambda>r. r\<lparr>ta_stoppedAt := Some now\<rparr>) (takes (db a))\<rparr>\<rparr>"

definition ensure_stream ::
    "string \<Rightarrow> string \<Rightarrow> string option \<Rightarrow> archive \<Rightarrow> archive_error + archive" where
  "ensure_stream tid stid peer a =
     (if jm_has (streams (db a)) stid \<or> jm_has (takes (db a)) tid
      then let d = db a;
               sts = insert_new stid
                  \<lparr>st_takeId = tid, st_peerId = peer, st_header = None, st_finalSeq = None,
                   st_flagged = False\<rparr> (streams d);
               sts' = (case peer of None \<Rightarrow> sts
                       | Some p \<Rightarrow> if p = [] then sts
                           else update_row stid
                                  (\<lambda>r. if st_takeId r = tid then r\<lparr>st_peerId := peer\<rparr> else r) sts)
           in Inr (a\<lparr>db := d\<lparr>streams := sts'\<rparr>\<rparr>)
      else Inl (FkViolation ''streams.take_id''))"

record chunk_meta =
  cm_takeId :: string
  cm_streamId :: string
  cm_seq :: nat
  cm_firstSampleIndex :: nat
  cm_sampleCount :: nat
  cm_captureTsUs :: int
  cm_crc32c :: nat
  cm_payloadLen :: nat

definition chunk_row_of :: "chunk_meta \<Rightarrow> chunk_row" where
  "chunk_row_of m =
     \<lparr>ch_takeId = cm_takeId m, ch_firstSampleIndex = cm_firstSampleIndex m,
      ch_sampleCount = cm_sampleCount m, ch_captureTsUs = cm_captureTsUs m,
      ch_crc32c = cm_crc32c m, ch_payloadLen = cm_payloadLen m,
      ch_blobKey = chunk_blob_key (cm_takeId m) (cm_streamId m) (cm_seq m)\<rparr>"

text \<open>
  \<open>persistChunk\<close>: the blob is put before the row is inserted; the flag says whether the row
  was new. A failure after the blob was put leaves the blob, so the state is part of the
  error.
\<close>

definition persist_chunk ::
    "(string \<Rightarrow> bool) \<Rightarrow> chunk_meta \<Rightarrow> bytes \<Rightarrow> archive
      \<Rightarrow> (archive_error + bool) \<times> archive" where
  "persist_chunk io m frame a =
     (let key = chunk_blob_key (cm_takeId m) (cm_streamId m) (cm_seq m);
          pk = (cm_streamId m, cm_seq m)
      in case fs_put io (blobs a) key frame of
           Inl e \<Rightarrow> (Inl (BlobError e), a)
         | Inr bs \<Rightarrow>
             let a = a\<lparr>blobs := bs\<rparr>
             in if jm_has (chunks (db a)) pk then (Inr False, a)
                else if jm_has (streams (db a)) (cm_streamId m)
                then (Inr True,
                  a\<lparr>db := db a\<lparr>chunks := insert_new pk (chunk_row_of m) (chunks (db a))\<rparr>\<rparr>)
                else (Inl (FkViolation ''chunks.stream_id''), a))"

definition apply_stream_header :: "string \<Rightarrow> stream_header \<Rightarrow> archive \<Rightarrow> archive" where
  "apply_stream_header stid h a =
     a\<lparr>db := db a\<lparr>streams :=
        update_row stid (\<lambda>r. r\<lparr>st_header := Some h\<rparr>) (streams (db a))\<rparr>\<rparr>"

definition persist_gaps ::
    "string \<Rightarrow> (nat \<times> nat) list \<Rightarrow> archive \<Rightarrow> archive_error + archive" where
  "persist_gaps stid ranges a =
     (if ranges = [] then Inr a
      else if jm_has (streams (db a)) stid
        \<or> (\<forall>r \<in> set ranges. jm_has (gaps (db a)) (stid, fst r))
      then Inr (a\<lparr>db := db a\<lparr>gaps :=
             foldl (\<lambda>g (s, e). insert_new (stid, s) \<lparr>ga_endSeq = e\<rparr> g) (gaps (db a)) ranges\<rparr>\<rparr>)
      else Inl (FkViolation ''gaps.stream_id''))"

definition set_final_seq :: "string \<Rightarrow> nat \<Rightarrow> archive \<Rightarrow> archive" where
  "set_final_seq stid n a =
     a\<lparr>db := db a\<lparr>streams :=
        update_row stid (\<lambda>r. r\<lparr>st_finalSeq := Some n\<rparr>) (streams (db a))\<rparr>\<rparr>"

definition flag_stream :: "string \<Rightarrow> archive \<Rightarrow> archive" where
  "flag_stream stid a =
     a\<lparr>db := db a\<lparr>streams :=
        update_row stid (\<lambda>r. r\<lparr>st_flagged := True\<rparr>) (streams (db a))\<rparr>\<rparr>"

definition record_chirp ::
    "int \<Rightarrow> string \<Rightarrow> string \<Rightarrow> real \<Rightarrow> chirp_spec \<Rightarrow> archive \<Rightarrow> archive" where
  "record_chirp now sid cid ts spec a =
     (let a = ensure_session now sid a
      in a\<lparr>db := db a\<lparr>chirps := insert_new cid
            \<lparr>ci_sessionId = sid, ci_emitTsDeskUs = ts, ci_spec = spec\<rparr> (chirps (db a))\<rparr>\<rparr>)"

end
