(* ===== verification/Archive_Retention.thy ===== *)
theory Archive_Retention
  imports Archive
begin

text \<open>
  \<open>apps/server/src/archive/retention.ts\<close>: the two deletion paths and their opposite
  failure orders, and the archive as a state machine over all its writes. The main
  invariant is the one the write side is ordered for: a chunk row implies a durable blob.
\<close>

subsection \<open>Cascades of the schema\<close>

definition delete_stream_rows :: "(string \<Rightarrow> bool) \<Rightarrow> archive_db \<Rightarrow> archive_db" where
  "delete_stream_rows p d =
     d\<lparr>streams := delete_where (\<lambda>k _. p k) (streams d),
       chunks := delete_where (\<lambda>k _. p (fst k)) (chunks d),
       gaps := delete_where (\<lambda>k _. p (fst k)) (gaps d)\<rparr>"

text \<open>The streams of the takes selected by \<open>p\<close>.\<close>

definition streams_of_takes :: "(string \<Rightarrow> bool) \<Rightarrow> archive_db \<Rightarrow> string list" where
  "streams_of_takes p d = map fst (filter (\<lambda>(k, r). p (st_takeId r)) (streams d))"

definition delete_take_row :: "string \<Rightarrow> archive_db \<Rightarrow> archive_db" where
  "delete_take_row tid d =
     (let sts = streams_of_takes (\<lambda>t. t = tid) d
      in (delete_stream_rows (\<lambda>s. s \<in> set sts) d)
           \<lparr>takes := delete_where (\<lambda>k _. k = tid) (takes d)\<rparr>)"

subsection \<open>Deletions\<close>

definition list_sessions_idle_since :: "int \<Rightarrow> archive \<Rightarrow> string list" where
  "list_sessions_idle_since cutoff a =
     map fst (filter (\<lambda>(_, r). se_lastActivityAt r < cutoff) (sessions (db a)))"

definition delete_take_if_empty :: "string \<Rightarrow> archive \<Rightarrow> bool \<times> archive" where
  "delete_take_if_empty tid a =
     (if \<exists>r \<in> set (jm_values (streams (db a))). st_takeId r = tid then (False, a)
      else (True, a\<lparr>db := delete_take_row tid (db a)\<rparr>))"

text \<open>The blob keys of the chunk rows of the streams selected by \<open>p\<close>.\<close>

definition blob_keys_of :: "(string \<Rightarrow> bool) \<Rightarrow> archive_db \<Rightarrow> string list" where
  "blob_keys_of p d = map (ch_blobKey \<circ> snd) (filter (\<lambda>(k, _). p (fst k)) (chunks d))"

text \<open>Blob deletes that log and go on after a failure.\<close>

fun delete_blobs_lenient :: "(string \<Rightarrow> bool) \<Rightarrow> string list \<Rightarrow> fs_store \<Rightarrow> fs_store" where
  "delete_blobs_lenient io [] bs = bs"
| "delete_blobs_lenient io (k # ks) bs =
     delete_blobs_lenient io ks (case fs_delete io bs k of Inl _ \<Rightarrow> bs | Inr bs' \<Rightarrow> bs')"

text \<open>Blob deletes that stop at the first failure.\<close>

fun delete_blobs_strict ::
    "(string \<Rightarrow> bool) \<Rightarrow> string list \<Rightarrow> fs_store \<Rightarrow> (blob_error + unit) \<times> fs_store" where
  "delete_blobs_strict io [] bs = (Inr (), bs)"
| "delete_blobs_strict io (k # ks) bs =
     (case fs_delete io bs k of Inl e \<Rightarrow> (Inl e, bs) | Inr bs' \<Rightarrow> delete_blobs_strict io ks bs')"

fun delete_empty_takes :: "string list \<Rightarrow> archive_db \<Rightarrow> string list \<times> archive_db" where
  "delete_empty_takes [] d = ([], d)"
| "delete_empty_takes (t # ts) d =
     (if \<exists>r \<in> set (jm_values (streams d)). st_takeId r = t then delete_empty_takes ts d
      else let (ids, d') = delete_empty_takes ts (delete_take_row t d) in (t # ids, d'))"

definition delete_streams ::
    "(string \<Rightarrow> bool) \<Rightarrow> stream_ref list \<Rightarrow> archive \<Rightarrow> string list \<times> archive" where
  "delete_streams io refs a =
     (if refs = [] then ([], a)
      else let ids = map sr_streamId refs;
               keys = blob_keys_of (\<lambda>s. s \<in> set ids) (db a);
               d = delete_stream_rows (\<lambda>s. s \<in> set ids) (db a);
               bs = delete_blobs_lenient io keys (blobs a);
               (deleted, d') = delete_empty_takes (js_dedupe (map sr_takeId refs)) d
           in (deleted, a\<lparr>db := d', blobs := bs\<rparr>))"

text \<open>The rows of a session go in the code's order; what is left is the schema's cascade.\<close>

definition delete_session_rows :: "string \<Rightarrow> archive_db \<Rightarrow> archive_db" where
  "delete_session_rows sid d =
     (let tids = map fst (filter (\<lambda>(_, r). ta_sessionId r = sid) (takes d));
          sts = streams_of_takes (\<lambda>t. t \<in> set tids) d;
          d1 = delete_stream_rows (\<lambda>s. s \<in> set sts) d;
          d2 = d1\<lparr>takes := delete_where (\<lambda>k _. k \<in> set tids) (takes d1)\<rparr>;
          d3 = d2\<lparr>chirps := delete_where (\<lambda>_ r. ci_sessionId r = sid) (chirps d2)\<rparr>;
          d4 = d3\<lparr>collab_docs := delete_where (\<lambda>k _. k = sid) (collab_docs d3)\<rparr>;
          d5 = d4\<lparr>peers_tbl := delete_where (\<lambda>_ r. pe_sessionId r = sid) (peers_tbl d4)\<rparr>
      in d5\<lparr>sessions := delete_where (\<lambda>k _. k = sid) (sessions d5),
            session_shares := delete_where (\<lambda>k _. fst k = sid) (session_shares d5)\<rparr>)"

definition session_blob_keys :: "string \<Rightarrow> archive_db \<Rightarrow> string list" where
  "session_blob_keys sid d =
     (let tids = map fst (filter (\<lambda>(_, r). ta_sessionId r = sid) (takes d));
          sts = streams_of_takes (\<lambda>t. t \<in> set tids) d
      in blob_keys_of (\<lambda>s. s \<in> set sts) d)"

definition delete_session ::
    "(string \<Rightarrow> bool) \<Rightarrow> string \<Rightarrow> archive \<Rightarrow> (archive_error + unit) \<times> archive" where
  "delete_session io sid a =
     (case delete_blobs_strict io (session_blob_keys sid (db a)) (blobs a) of
        (Inl e, bs) \<Rightarrow> (Inl (BlobError e), a\<lparr>blobs := bs\<rparr>)
      | (Inr _, bs) \<Rightarrow> (Inr (), a\<lparr>db := delete_session_rows sid (db a), blobs := bs\<rparr>))"

subsection \<open>The archive as a state machine\<close>

datatype archive_event =
    EnsureSession int string
  | TouchSession int string
  | EnsureTake int string string "int option"
  | UpsertPeer string peer_row
  | UpdatePeerLabel string "string option"
  | StopTake int string
  | DeleteTakeIfEmpty string
  | EnsureStream string string "string option"
  | PersistChunk "string \<Rightarrow> bool" chunk_meta bytes
  | ApplyStreamHeader string stream_header
  | PersistGaps string "(nat \<times> nat) list"
  | SetFinalSeq string nat
  | FlagStream string
  | RecordChirp int string string real chirp_spec
  | DeleteStreams "string \<Rightarrow> bool" "stream_ref list"
  | DeleteSession "string \<Rightarrow> bool" string

definition or_keep :: "archive \<Rightarrow> archive_error + archive \<Rightarrow> archive" where
  "or_keep a r = (case r of Inl _ \<Rightarrow> a | Inr a' \<Rightarrow> a')"

fun archive_step :: "archive \<Rightarrow> archive_event \<Rightarrow> archive" where
  "archive_step a (EnsureSession now sid) = ensure_session now sid a"
| "archive_step a (TouchSession now sid) = touch_session now sid a"
| "archive_step a (EnsureTake now sid tid hint) = ensure_take now sid tid hint a"
| "archive_step a (UpsertPeer pid row) = or_keep a (upsert_peer pid row a)"
| "archive_step a (UpdatePeerLabel pid l) = update_peer_label pid l a"
| "archive_step a (StopTake now tid) = stop_take now tid a"
| "archive_step a (DeleteTakeIfEmpty tid) = snd (delete_take_if_empty tid a)"
| "archive_step a (EnsureStream tid stid p) = or_keep a (ensure_stream tid stid p a)"
| "archive_step a (PersistChunk io m f) = snd (persist_chunk io m f a)"
| "archive_step a (ApplyStreamHeader stid h) = apply_stream_header stid h a"
| "archive_step a (PersistGaps stid rs) = or_keep a (persist_gaps stid rs a)"
| "archive_step a (SetFinalSeq stid n) = set_final_seq stid n a"
| "archive_step a (FlagStream stid) = flag_stream stid a"
| "archive_step a (RecordChirp now sid cid ts spec) = record_chirp now sid cid ts spec a"
| "archive_step a (DeleteStreams io refs) = snd (delete_streams io refs a)"
| "archive_step a (DeleteSession io sid) = snd (delete_session io sid a)"

text \<open>
  A well-formed run: chunk ids are slash-free (they are UUIDs on the wire) and a hard delete
  meets a working store. Every other operation may fail at any blob.
\<close>

fun event_ok :: "archive_event \<Rightarrow> bool" where
  "event_ok (PersistChunk io m f) \<longleftrightarrow>
     CHR ''/'' \<notin> set (cm_takeId m) \<union> set (cm_streamId m)"
| "event_ok (DeleteSession io sid) \<longleftrightarrow> (\<forall>k. io k)"
| "event_ok _ \<longleftrightarrow> True"

subsection \<open>Well-formed databases\<close>

definition tables_distinct :: "archive_db \<Rightarrow> bool" where
  "tables_distinct d \<longleftrightarrow> jm_wf (sessions d) \<and> jm_wf (takes d) \<and> jm_wf (streams d)
     \<and> jm_wf (chunks d) \<and> jm_wf (gaps d) \<and> jm_wf (peers_tbl d) \<and> jm_wf (chirps d)"

definition fk_ok :: "archive_db \<Rightarrow> bool" where
  "fk_ok d \<longleftrightarrow>
     refers (takes d) (\<lambda>_ r. ta_sessionId r) (sessions d)
   \<and> refers (streams d) (\<lambda>_ r. st_takeId r) (takes d)
   \<and> refers (chunks d) (\<lambda>k _. fst k) (streams d)
   \<and> refers (gaps d) (\<lambda>k _. fst k) (streams d)
   \<and> refers (peers_tbl d) (\<lambda>_ r. pe_sessionId r) (sessions d)
   \<and> refers (chirps d) (\<lambda>_ r. ci_sessionId r) (sessions d)"

definition canonical_chunk :: "string \<times> nat \<Rightarrow> chunk_row \<Rightarrow> bool" where
  "canonical_chunk k r \<longleftrightarrow>
     ch_blobKey r = chunk_blob_key (ch_takeId r) (fst k) (snd k)
     \<and> CHR ''/'' \<notin> set (ch_takeId r) \<union> set (fst k)"

definition rows_inv :: "archive_db \<Rightarrow> bool" where
  "rows_inv d \<longleftrightarrow> tables_distinct d \<and> fk_ok d \<and> rows_all (chunks d) canonical_chunk"

definition rows_backed :: "archive \<Rightarrow> bool" where
  "rows_backed a \<longleftrightarrow> rows_all (chunks (db a)) (\<lambda>_ r. fs_content (blobs a) (ch_blobKey r) \<noteq> None)"

definition archive_inv :: "archive \<Rightarrow> bool" where
  "archive_inv a \<longleftrightarrow> rows_inv (db a) \<and> rows_backed a"

lemmas rows_defs = rows_inv_def tables_distinct_def fk_ok_def

lemma archive_inv_empty: "archive_inv empty_archive"
  by (simp add: archive_inv_def rows_defs empty_archive_def rows_backed_def)

lemma rows_inv_ensure_session: "rows_inv (db a) \<Longrightarrow> rows_inv (db (ensure_session now sid a))"
  by (auto simp: rows_defs ensure_session_def elim!: rows_all_mono)

lemma rows_inv_touch_session: "rows_inv (db a) \<Longrightarrow> rows_inv (db (touch_session now sid a))"
  by (simp add: rows_defs touch_session_def)

lemma rows_inv_ensure_take: "rows_inv (db a) \<Longrightarrow> rows_inv (db (ensure_take now sid tid hint a))"
  by (drule rows_inv_ensure_session [of _ now sid])
    (auto simp: rows_defs ensure_take_def Let_def ensure_session_def
      intro!: rows_intros elim!: rows_all_mono)

lemma rows_inv_upsert_peer: "rows_inv (db a) \<Longrightarrow> rows_inv (db (or_keep a (upsert_peer pid row a)))"
  by (auto simp: rows_defs or_keep_def upsert_peer_def jm_get_None_keys
      intro!: rows_intros dest: rows_all_get jm_get_Some_keys split: option.splits if_splits)

lemma rows_inv_update_peer_label: "rows_inv (db a) \<Longrightarrow> rows_inv (db (update_peer_label pid l a))"
  by (auto simp: rows_defs update_peer_label_def intro!: rows_intros)

lemma rows_inv_stop_take: "rows_inv (db a) \<Longrightarrow> rows_inv (db (stop_take now tid a))"
  by (auto simp: rows_defs stop_take_def intro!: rows_intros)

lemma rows_inv_ensure_stream:
  "rows_inv (db a) \<Longrightarrow> rows_inv (db (or_keep a (ensure_stream tid stid p a)))"
  by (auto simp: rows_defs or_keep_def ensure_stream_def Let_def jm_get_None_keys
      intro!: rows_intros elim!: rows_all_mono split: option.splits)

lemma rows_inv_persist_chunk:
  "rows_inv (db a) \<Longrightarrow> event_ok (PersistChunk io m f) \<Longrightarrow> rows_inv (db (snd (persist_chunk io m f a)))"
  by (auto simp: rows_defs persist_chunk_def Let_def chunk_row_of_def canonical_chunk_def jm_get_None_keys
      intro!: rows_intros dest: jm_get_Some_keys split: sum.splits)

lemma rows_inv_stream_update:
  "rows_inv d \<Longrightarrow> (\<And>r. st_takeId (f r) = st_takeId r)
    \<Longrightarrow> rows_inv (d\<lparr>streams := update_row stid f (streams d)\<rparr>)"
  by (auto simp: rows_defs intro!: rows_intros)

lemma rows_inv_record_chirp:
  "rows_inv (db a) \<Longrightarrow> rows_inv (db (record_chirp now sid cid ts spec a))"
  by (drule rows_inv_ensure_session [of _ now sid])
    (auto simp: rows_defs record_chirp_def Let_def ensure_session_def intro!: rows_intros)

lemma gap_inserts_inv:
  "jm_wf g \<Longrightarrow> refers g (\<lambda>k _. fst k) sts \<Longrightarrow>
    stid \<in> keys_of sts \<or> (\<forall>r \<in> set ranges. (stid, fst r) \<in> keys_of g) \<Longrightarrow>
    jm_wf (foldl (\<lambda>g (s, e). insert_new (stid, s) \<lparr>ga_endSeq = e\<rparr> g) g ranges)
    \<and> refers (foldl (\<lambda>g (s, e). insert_new (stid, s) \<lparr>ga_endSeq = e\<rparr> g) g ranges) (\<lambda>k _. fst k) sts"
proof (induction ranges arbitrary: g)
  case (Cons q ranges)
  have "refers (insert_new (stid, fst q) \<lparr>ga_endSeq = snd q\<rparr> g) (\<lambda>k _. fst k) sts"
    using Cons.prems by (intro rows_intros) auto
  moreover have "stid \<in> keys_of sts
      \<or> (\<forall>r \<in> set ranges. (stid, fst r) \<in> keys_of (insert_new (stid, fst q) \<lparr>ga_endSeq = snd q\<rparr> g))"
    using Cons.prems(3) by auto
  ultimately show ?case
    using Cons.IH [of "insert_new (stid, fst q) \<lparr>ga_endSeq = snd q\<rparr> g"] Cons.prems(1)
    by (simp add: split_beta)
qed simp

lemma rows_inv_persist_gaps: "rows_inv (db a) \<Longrightarrow> rows_inv (db (or_keep a (persist_gaps stid rs a)))"
  using gap_inserts_inv [of "gaps (db a)" "streams (db a)" stid rs]
  by (auto simp: rows_defs or_keep_def persist_gaps_def jm_get_None_keys)

text \<open>Deleting rows keeps the foreign keys when every referring row goes along.\<close>

lemma rows_inv_delete_streams: "rows_inv d \<Longrightarrow> rows_inv (delete_stream_rows p d)"
  by (auto simp: rows_defs delete_stream_rows_def keys_of_delete_where intro: rows_all_delete_where)

lemma rows_all_mem: "rows_all m P \<Longrightarrow> (k, v) \<in> set m \<Longrightarrow> P k v"
  by (auto simp: rows_all_def)

lemma rows_allI: "(\<And>k v. (k, v) \<in> set m \<Longrightarrow> P k v) \<Longrightarrow> rows_all m P"
  by (auto simp: rows_all_def)

lemma rows_all_both:
  "rows_all m P \<Longrightarrow> rows_all m Q \<Longrightarrow> (\<And>k v. P k v \<Longrightarrow> Q k v \<Longrightarrow> R k v) \<Longrightarrow> rows_all m R"
  by (fastforce simp: rows_all_def)

lemma rows_inv_delete_takes:
  "rows_inv d \<Longrightarrow> rows_all (streams d) (\<lambda>_ r. \<not> p (st_takeId r))
    \<Longrightarrow> rows_inv (d\<lparr>takes := delete_where (\<lambda>k _. p k) (takes d)\<rparr>)"
  unfolding rows_defs by (auto intro: rows_all_delete_where elim: rows_all_both)

lemma streams_of_takes_gone:
  "rows_all (streams (delete_stream_rows (\<lambda>s. s \<in> set (streams_of_takes p d)) d))
     (\<lambda>_ r. \<not> p (st_takeId r))"
  by (force simp: rows_all_def delete_stream_rows_def delete_where_def streams_of_takes_def)

lemma rows_inv_delete_take_row: "rows_inv d \<Longrightarrow> rows_inv (delete_take_row t d)"
  using rows_inv_delete_takes [where p = "\<lambda>k. k = t", OF rows_inv_delete_streams streams_of_takes_gone, of d]
  by (simp add: delete_take_row_def Let_def delete_stream_rows_def)

lemma rows_inv_delete_empty_takes: "rows_inv d \<Longrightarrow> rows_inv (snd (delete_empty_takes ts d))"
  by (induction ts arbitrary: d) (auto simp: split_beta Let_def rows_inv_delete_take_row)

lemma chunks_delete_take_row: "set (chunks (delete_take_row t d)) \<subseteq> set (chunks d)"
  by (auto simp: delete_take_row_def delete_stream_rows_def delete_where_def Let_def)

lemma chunks_delete_empty_takes: "set (chunks (snd (delete_empty_takes ts d))) \<subseteq> set (chunks d)"
proof (induction ts arbitrary: d)
  case (Cons t ts)
  then show ?case
    using Cons.IH [of "delete_take_row t d"] chunks_delete_take_row [of t d]
    by (auto simp: split_beta Let_def)
qed simp

lemma rows_all_subset: "rows_all m P \<Longrightarrow> set m' \<subseteq> set m \<Longrightarrow> rows_all m' P"
  by (auto simp: rows_all_def)

lemma fs_content_lenient:
  "k \<notin> set ks \<Longrightarrow> fs_content (delete_blobs_lenient io ks bs) k = fs_content bs k"
proof (induction ks arbitrary: bs)
  case (Cons j ks)
  then show ?case
    using fs.delete_ok [of io bs j] by (auto split: sum.splits)
qed simp

lemma fs_content_strict:
  "k \<notin> set ks \<Longrightarrow> fs_content (snd (delete_blobs_strict io ks bs)) k = fs_content bs k"
proof (induction ks arbitrary: bs)
  case (Cons j ks)
  then show ?case
    using fs.delete_ok [of io bs j] by (auto split: sum.splits)
qed simp

lemma strict_removes:
  "delete_blobs_strict io ks bs = (Inr u, bs') \<Longrightarrow> k \<in> set ks \<Longrightarrow> fs_content bs' k = None"
proof (induction ks arbitrary: bs)
  case (Cons j ks)
  then obtain b where b: "fs_delete io bs j = Inr b" "delete_blobs_strict io ks b = (Inr u, bs')"
    by (auto split: sum.splits)
  show ?case
  proof (cases "k \<in> set ks")
    case True with Cons.IH [OF b(2)] show ?thesis by simp
  next
    case False
    then show ?thesis
      using Cons.prems fs_content_strict [of k ks io b] b fs.delete_ok [OF b(1)] by simp
  qed
qed simp

lemma strict_succeeds:
  "\<forall>k \<in> set ks. io k \<and> \<not> has_dotdot k \<Longrightarrow> fst (delete_blobs_strict io ks bs) = Inr ()"
proof (induction ks arbitrary: bs)
  case (Cons j ks)
  then show ?case
    using fs.delete_succeeds [of j io bs] by (auto split: sum.splits)
qed simp

lemma fs_content_valid: "fs_content bs k \<noteq> None \<Longrightarrow> \<not> has_dotdot k"
  by (auto simp: fs_content_def fs_path_def split: if_splits)

text \<open>The rows a session delete removes and those it leaves.\<close>

definition session_streams :: "string \<Rightarrow> archive_db \<Rightarrow> string list" where
  "session_streams sid d =
     streams_of_takes (\<lambda>t. t \<in> set (map fst (filter (\<lambda>(_, r). ta_sessionId r = sid) (takes d)))) d"

lemma session_blob_keys_alt:
  "session_blob_keys sid d = blob_keys_of (\<lambda>s. s \<in> set (session_streams sid d)) d"
  by (simp add: session_blob_keys_def session_streams_def Let_def)

lemma chunks_delete_session_rows:
  "chunks (delete_session_rows sid d)
    = delete_where (\<lambda>k _. fst k \<in> set (session_streams sid d)) (chunks d)"
  by (simp add: delete_session_rows_def session_streams_def delete_stream_rows_def Let_def)

lemma session_takes_gone:
  "rows_all (delete_where (\<lambda>k _. k \<in> set (map fst (filter (\<lambda>(_, r). ta_sessionId r = sid) m))) m)
     (\<lambda>_ r. ta_sessionId r \<noteq> sid)"
  by (force simp: rows_all_def delete_where_def)

lemma rows_inv_delete_session: 
  assumes "rows_inv d" shows "rows_inv (delete_session_rows sid d)"
proof -
  define tids where "tids = map fst (filter (\<lambda>(_, r). ta_sessionId r = sid) (takes d))"
  define d1 where "d1 = delete_stream_rows
    (\<lambda>s. s \<in> set (streams_of_takes (\<lambda>t. t \<in> set tids) d)) d"
  define d2 where "d2 = d1\<lparr>takes := delete_where (\<lambda>k _. k \<in> set tids) (takes d1)\<rparr>"
  have "rows_inv d1"
    unfolding d1_def using assms by (rule rows_inv_delete_streams)
  then have inv: "rows_inv d2"
    unfolding d2_def d1_def by (intro rows_inv_delete_takes streams_of_takes_gone)
  have takes: "rows_all (takes d2) (\<lambda>_ r. ta_sessionId r \<noteq> sid)"
    using session_takes_gone [of sid "takes d"]
    by (simp add: d2_def d1_def delete_stream_rows_def tids_def)
  have "delete_session_rows sid d = d2
      \<lparr>chirps := delete_where (\<lambda>_ r. ci_sessionId r = sid) (chirps d2),
       collab_docs := delete_where (\<lambda>k _. k = sid) (collab_docs d2),
       peers_tbl := delete_where (\<lambda>_ r. pe_sessionId r = sid) (peers_tbl d2),
       sessions := delete_where (\<lambda>k _. k = sid) (sessions d2),
       session_shares := delete_where (\<lambda>k _. fst k = sid) (session_shares d2)\<rparr>"
    by (simp add: delete_session_rows_def Let_def d2_def d1_def tids_def)
  moreover have "rows_inv \<dots>"
    using inv takes unfolding rows_defs
    by (auto intro: rows_all_delete_where elim: rows_all_both)
  ultimately show ?thesis by simp
qed

lemma rows_inv_delete_streams_op: "rows_inv (db a) \<Longrightarrow> rows_inv (db (snd (delete_streams io refs a)))"
  by (simp add: delete_streams_def Let_def split_beta rows_inv_delete_empty_takes rows_inv_delete_streams)

lemma blob_keys_of_iff:
  "k \<in> set (blob_keys_of p d) \<longleftrightarrow> (\<exists>pk r. (pk, r) \<in> set (chunks d) \<and> p (fst pk) \<and> ch_blobKey r = k)"
  by (force simp: blob_keys_of_def image_iff split: prod.splits)

lemma canonical_keys_apart:
  assumes "rows_all (chunks d) canonical_chunk" "(pk, r) \<in> set (chunks d)" "\<not> p (fst pk)"
  shows "ch_blobKey r \<notin> set (blob_keys_of p d)"
proof
  assume "ch_blobKey r \<in> set (blob_keys_of p d)"
  then obtain pk' r' where r': "(pk', r') \<in> set (chunks d)" "p (fst pk')" "ch_blobKey r' = ch_blobKey r"
    by (auto simp: blob_keys_of_iff)
  have "canonical_chunk pk r" "canonical_chunk pk' r'"
    using assms(1,2) r'(1) by (auto simp: rows_all_def)
  then have "chunk_blob_key (ch_takeId r') (fst pk') (snd pk') = chunk_blob_key (ch_takeId r) (fst pk) (snd pk)"
    and "CHR ''/'' \<notin> set (ch_takeId r') \<union> set (ch_takeId r) \<union> set (fst pk') \<union> set (fst pk)"
    using r'(3) unfolding canonical_chunk_def by (metis, blast)
  then have "fst pk' = fst pk"
    using chunk_blob_key_inject by blast
  with r'(2) assms(3) show False by simp
qed

text \<open>Rows that stay are backed as long as no blob of theirs is touched.\<close>

lemma rows_backed_after:
  assumes "rows_inv (db a)" "rows_backed a"
    and "set (chunks (db a')) \<subseteq> set (delete_where (\<lambda>k _. p (fst k)) (chunks (db a)))"
    and "\<And>k. k \<notin> set (blob_keys_of p (db a)) \<Longrightarrow> fs_content (blobs a') k = fs_content (blobs a) k"
  shows "rows_backed a'"
  unfolding rows_backed_def
proof (rule rows_allI)
  fix pk r assume "(pk, r) \<in> set (chunks (db a'))"
  with assms(3) have r: "(pk, r) \<in> set (chunks (db a))" "\<not> p (fst pk)"
    by (auto simp: delete_where_def)
  then have "ch_blobKey r \<notin> set (blob_keys_of p (db a))"
    using assms(1) canonical_keys_apart by (auto simp: rows_inv_def)
  then have "fs_content (blobs a') (ch_blobKey r) = fs_content (blobs a) (ch_blobKey r)"
    by (rule assms(4))
  with rows_all_mem [OF assms(2) [unfolded rows_backed_def] r(1)]
  show "fs_content (blobs a') (ch_blobKey r) \<noteq> None" by simp
qed

lemma chunks_delete_streams:
  "refs \<noteq> [] \<Longrightarrow> set (chunks (db (snd (delete_streams io refs a))))
    \<subseteq> set (delete_where (\<lambda>k _. fst k \<in> set (map sr_streamId refs)) (chunks (db a)))"
  using chunks_delete_empty_takes [of "js_dedupe (map sr_takeId refs)"
      "delete_stream_rows (\<lambda>s. s \<in> set (map sr_streamId refs)) (db a)"]
  by (simp add: delete_streams_def Let_def split_beta delete_stream_rows_def del: set_map)

lemma backed_delete_streams:
  assumes "rows_inv (db a)" "rows_backed a" shows "rows_backed (snd (delete_streams io refs a))"
proof (cases "refs = []")
  case False
  let ?p = "\<lambda>s. s \<in> set (map sr_streamId refs)"
  show ?thesis
  proof (rule rows_backed_after [where p = ?p, OF assms])
    show "set (chunks (db (snd (delete_streams io refs a))))
      \<subseteq> set (delete_where (\<lambda>k _. ?p (fst k)) (chunks (db a)))"
      using False by (rule chunks_delete_streams)
    show "fs_content (blobs (snd (delete_streams io refs a))) k = fs_content (blobs a) k"
      if "k \<notin> set (blob_keys_of ?p (db a))" for k
      using False that by (simp add: delete_streams_def Let_def split_beta fs_content_lenient)
  qed
qed (use assms in \<open>simp add: delete_streams_def\<close>)

lemma delete_session_complete:
  assumes "rows_backed a" "\<forall>k. io k"
  shows "fst (delete_blobs_strict io (session_blob_keys sid (db a)) (blobs a)) = Inr ()"
proof (rule strict_succeeds, rule ballI)
  fix k assume "k \<in> set (session_blob_keys sid (db a))"
  then have "fs_content (blobs a) k \<noteq> None"
    using assms(1) by (auto simp: session_blob_keys_alt blob_keys_of_iff rows_backed_def rows_all_def)
  then show "io k \<and> \<not> has_dotdot k"
    using assms(2) fs_content_valid by blast
qed

lemma backed_delete_session:
  assumes "rows_inv (db a)" "rows_backed a" "\<forall>k. io k"
  shows "rows_backed (snd (delete_session io sid a))"
proof -
  obtain bs where del: "delete_blobs_strict io (session_blob_keys sid (db a)) (blobs a) = (Inr (), bs)"
    using delete_session_complete [OF assms(2,3), of sid] by (metis prod.collapse)
  show ?thesis
  proof (rule rows_backed_after [where p = "\<lambda>s. s \<in> set (session_streams sid (db a))", OF assms(1,2)])
    show "set (chunks (db (snd (delete_session io sid a))))
      \<subseteq> set (delete_where (\<lambda>k _. fst k \<in> set (session_streams sid (db a))) (chunks (db a)))"
      by (simp add: delete_session_def del chunks_delete_session_rows)
    show "fs_content (blobs (snd (delete_session io sid a))) k = fs_content (blobs a) k"
      if "k \<notin> set (blob_keys_of (\<lambda>s. s \<in> set (session_streams sid (db a))) (db a))" for k
      using fs_content_strict [of k "session_blob_keys sid (db a)" io "blobs a"] that del
      by (simp add: delete_session_def session_blob_keys_alt)
  qed
qed

lemma backed_persist_chunk:
  assumes "rows_backed a" shows "rows_backed (snd (persist_chunk io m f a))"
proof (cases "fs_put io (blobs a) (chunk_blob_key (cm_takeId m) (cm_streamId m) (cm_seq m)) f")
  case (Inl e)
  with assms show ?thesis by (simp add: persist_chunk_def Let_def)
next
  case (Inr bs)
  let ?k = "chunk_blob_key (cm_takeId m) (cm_streamId m) (cm_seq m)"
  have put: "fs_content bs = (fs_content (blobs a))(?k := Some f)"
    using fs.put_ok [OF Inr] by simp
  have "rows_all (chunks (db a)) (\<lambda>_ r. fs_content bs (ch_blobKey r) \<noteq> None)"
    using assms by (auto simp: rows_backed_def put elim!: rows_all_mono)
  moreover have "fs_content bs (ch_blobKey (chunk_row_of m)) \<noteq> None"
    by (simp add: chunk_row_of_def put)
  ultimately show ?thesis
    by (auto simp: persist_chunk_def Inr Let_def rows_backed_def intro: rows_all_insert_new)
qed

lemma backed_same:
  "rows_backed a \<Longrightarrow> chunks (db a') = chunks (db a) \<Longrightarrow> blobs a' = blobs a \<Longrightarrow> rows_backed a'"
  by (simp add: rows_backed_def)

lemmas write_defs = ensure_session_def touch_session_def ensure_take_def upsert_peer_def
  update_peer_label_def stop_take_def ensure_stream_def apply_stream_header_def persist_gaps_def
  set_final_seq_def flag_stream_def record_chirp_def or_keep_def Let_def

lemma archive_step_inv:
  assumes "archive_inv a" "event_ok e" shows "archive_inv (archive_step a e)"
proof -
  have inv: "rows_inv (db a)" and backed: "rows_backed a"
    using assms(1) by (simp_all add: archive_inv_def)
  have "rows_inv (db (archive_step a e))"
  proof (cases e)
    case (PersistChunk io m f)
    with inv assms(2) show ?thesis by (simp add: rows_inv_persist_chunk del: event_ok.simps)
  next
    case (DeleteSession io sid)
    with inv show ?thesis
      by (auto simp: delete_session_def rows_inv_delete_session split: prod.splits sum.splits)
  qed (use inv in \<open>simp_all add: rows_inv_ensure_session rows_inv_touch_session rows_inv_ensure_take
      rows_inv_upsert_peer rows_inv_update_peer_label rows_inv_stop_take delete_take_if_empty_def
      rows_inv_delete_take_row rows_inv_ensure_stream apply_stream_header_def set_final_seq_def
      flag_stream_def rows_inv_stream_update rows_inv_persist_gaps rows_inv_record_chirp
      rows_inv_delete_streams_op\<close>)
  moreover have "rows_backed (archive_step a e)"
  proof (cases e)
    case (DeleteTakeIfEmpty t)
    with backed chunks_delete_take_row [of t "db a"] show ?thesis
      by (auto simp: delete_take_if_empty_def rows_backed_def intro: rows_all_subset)
  qed (use inv backed assms(2) in \<open>simp_all add: backed_persist_chunk backed_delete_streams
      backed_delete_session\<close>, (auto simp: write_defs rows_backed_def split: option.splits)+)
  ultimately show ?thesis by (simp add: archive_inv_def)
qed

interpretation archive_machine: guarded_machine archive_step archive_inv "\<lambda>_. event_ok"
  by unfold_locales (rule archive_step_inv)

subsection \<open>What the archive promises\<close>

text \<open>C1. In every run from an empty archive, with blob operations failing at will, a chunk
  row implies a durable blob: reading the row's key from a working store returns bytes.\<close>

theorem chunk_row_implies_blob:
  assumes "list_all event_ok es"
    and "jm_get (chunks (db (run archive_step empty_archive es))) pk = Some r"
  shows "\<exists>b. fs_get (\<lambda>_. True) (blobs (run archive_step empty_archive es)) (ch_blobKey r) = Inr b"
proof -
  let ?a = "run archive_step empty_archive es"
  have "archive_inv ?a"
    using archive_machine.run_guarded [OF archive_inv_empty legal_list_all [OF assms(1)]] .
  then obtain b where b: "fs_content (blobs ?a) (ch_blobKey r) = Some b"
    using rows_all_get [OF _ assms(2)] by (fastforce simp: archive_inv_def rows_backed_def)
  then have "\<not> has_dotdot (ch_blobKey r)"
    using fs_content_valid by force
  with b show ?thesis using fs.get_ok by auto
qed

definition sample_meta :: chunk_meta where
  "sample_meta = \<lparr>cm_takeId = ''t'', cm_streamId = ''s'', cm_seq = 0, cm_firstSampleIndex = 0,
     cm_sampleCount = 2, cm_captureTsUs = 5, cm_crc32c = 7, cm_payloadLen = 1\<rparr>"

definition sample_events :: "archive_event list" where
  "sample_events =
     [EnsureTake 1 ''r'' ''t'' None, EnsureStream ''t'' ''s'' None,
      PersistChunk (\<lambda>_. True) sample_meta [1, 2]]"

lemma sample_key: "chunk_blob_key ''t'' ''s'' 0 = ''t/s/0''"
  by code_simp

lemmas run_eval = sample_events_def sample_meta_def ensure_session_def ensure_take_def
  ensure_stream_def or_keep_def empty_archive_def insert_new_def Let_def persist_chunk_def
  fs_put_def fs_path_def sample_key chunk_row_of_def
  delete_streams_def delete_session_def

lemma chunk_row_implies_blob_witness:
  "\<exists>b. fs_get (\<lambda>_. True) (blobs (run archive_step empty_archive sample_events)) ''t/s/0'' = Inr b"
proof -
  let ?d = "db (run archive_step empty_archive sample_events)"
  have "list_all event_ok sample_events"
    by (simp add: sample_events_def sample_meta_def)
  moreover have "jm_get (chunks ?d) (''s'', 0) = Some (chunk_row_of sample_meta)"
    by (simp add: run_eval)
  ultimately show ?thesis
    using chunk_row_implies_blob [of sample_events "(''s'', 0)" "chunk_row_of sample_meta"]
    by (simp add: chunk_row_of_def sample_meta_def sample_key)
qed

text \<open>Blob contents that a failing delete leaves alone.\<close>

lemma lenient_keeps_failed:
  "\<not> io k \<Longrightarrow> fs_content (delete_blobs_lenient io ks bs) k = fs_content bs k"
proof (induction ks arbitrary: bs)
  case (Cons j ks)
  have "\<not> io k \<Longrightarrow> fs_delete io bs j = Inr bs' \<Longrightarrow> j \<noteq> k" for bs'
    by (auto simp: fs_delete_def split: sum.splits if_splits)
  with Cons show ?case
    using fs.delete_ok [of io bs j] by (auto split: sum.splits)
qed simp

lemma delete_session_blobs:
  "blobs (snd (delete_session io sid a))
    = snd (delete_blobs_strict io (session_blob_keys sid (db a)) (blobs a))"
  by (simp add: delete_session_def split: prod.splits sum.splits)

lemma delete_session_cases:
  obtains (aborted) e where "fst (delete_session io sid a) = Inl e"
      "db (snd (delete_session io sid a)) = db a"
  | (deleted) bs where "delete_session io sid a = (Inr (), a\<lparr>db := delete_session_rows sid (db a), blobs := bs\<rparr>)"
      "delete_blobs_strict io (session_blob_keys sid (db a)) (blobs a) = (Inr (), bs)"
  by (cases "delete_blobs_strict io (session_blob_keys sid (db a)) (blobs a)"; cases "fst (delete_blobs_strict io (session_blob_keys sid (db a)) (blobs a))")
    (auto simp: delete_session_def)

text \<open>Table by table, the rows that belong to session \<open>sid\<close> are gone and every other row is left: a
  take, a chirp and a peer belong to the session they name, a stream to the session of its take, a
  chunk and a gap to the session of their stream.\<close>

definition rows_left :: "('k \<Rightarrow> 'v \<Rightarrow> bool) \<Rightarrow> ('k, 'v) jsmap \<Rightarrow> ('k, 'v) jsmap \<Rightarrow> bool" where
  "rows_left gone m m' \<longleftrightarrow> set m' = set (filter (\<lambda>(k, v). \<not> gone k v) m)"

definition of_session_take :: "string \<Rightarrow> archive_db \<Rightarrow> string \<Rightarrow> bool" where
  "of_session_take sid d tid \<longleftrightarrow> list_ex (\<lambda>(k, t). k = tid \<and> ta_sessionId t = sid) (takes d)"

definition of_session_stream :: "string \<Rightarrow> archive_db \<Rightarrow> string \<Rightarrow> bool" where
  "of_session_stream sid d stid \<longleftrightarrow>
     list_ex (\<lambda>(k, s). k = stid \<and> of_session_take sid d (st_takeId s)) (streams d)"

definition session_erased :: "string \<Rightarrow> archive_db \<Rightarrow> archive_db \<Rightarrow> bool" where
  "session_erased sid d d' \<longleftrightarrow>
     rows_left (\<lambda>k _. k = sid) (sessions d) (sessions d')
   \<and> rows_left (\<lambda>k _. fst k = sid) (session_shares d) (session_shares d')
   \<and> rows_left (\<lambda>k _. k = sid) (collab_docs d) (collab_docs d')
   \<and> rows_left (\<lambda>_ r. pe_sessionId r = sid) (peers_tbl d) (peers_tbl d')
   \<and> rows_left (\<lambda>_ r. ci_sessionId r = sid) (chirps d) (chirps d')
   \<and> rows_left (\<lambda>_ r. ta_sessionId r = sid) (takes d) (takes d')
   \<and> rows_left (\<lambda>k _. of_session_stream sid d k) (streams d) (streams d')
   \<and> rows_left (\<lambda>k _. of_session_stream sid d (fst k)) (chunks d) (chunks d')
   \<and> rows_left (\<lambda>k _. of_session_stream sid d (fst k)) (gaps d) (gaps d')"

lemma rows_left_delete_where: "rows_left p m (delete_where p m)"
  by (simp add: rows_left_def delete_where_def)

lemma mem_keys_filter:
  "k \<in> set (map fst (filter (\<lambda>(_, r). P r) m)) \<longleftrightarrow> list_ex (\<lambda>(j, r). j = k \<and> P r) m"
  by (induction m) auto

lemma session_streams_iff: "stid \<in> set (session_streams sid d) \<longleftrightarrow> of_session_stream sid d stid"
  unfolding session_streams_def streams_of_takes_def mem_keys_filter of_session_stream_def
    of_session_take_def by (rule refl)

lemma takes_left:
  assumes "jm_wf m"
  shows "rows_left (\<lambda>_ r. ta_sessionId r = sid) m
     (delete_where (\<lambda>k _. k \<in> set (map fst (filter (\<lambda>(_, r). ta_sessionId r = sid) m))) m)"
proof -
  have "list_ex (\<lambda>(j, r). j = k \<and> ta_sessionId r = sid) m \<longleftrightarrow> ta_sessionId v = sid" if "(k, v) \<in> set m" for k v
    using that assms by (auto simp: list_ex_iff jm_wf_def dest: eq_key_imp_eq_value)
  then show ?thesis
    unfolding rows_left_def delete_where_def mem_keys_filter by (auto split: prod.splits)
qed

lemma session_erased_delete:
  assumes "rows_inv d" shows "session_erased sid d (delete_session_rows sid d)"
proof -
  have wf: "jm_wf (takes d)" using assms by (simp add: rows_defs)
  have tables: "sessions (delete_session_rows sid d) = delete_where (\<lambda>k _. k = sid) (sessions d)"
    "collab_docs (delete_session_rows sid d) = delete_where (\<lambda>k _. k = sid) (collab_docs d)"
    "session_shares (delete_session_rows sid d) = delete_where (\<lambda>k _. fst k = sid) (session_shares d)"
    "takes (delete_session_rows sid d)
      = delete_where (\<lambda>k _. k \<in> set (map fst (filter (\<lambda>(_, r). ta_sessionId r = sid) (takes d)))) (takes d)"
    "chirps (delete_session_rows sid d) = delete_where (\<lambda>_ r. ci_sessionId r = sid) (chirps d)"
    "peers_tbl (delete_session_rows sid d) = delete_where (\<lambda>_ r. pe_sessionId r = sid) (peers_tbl d)"
    "streams (delete_session_rows sid d) = delete_where (\<lambda>k _. k \<in> set (session_streams sid d)) (streams d)"
    "chunks (delete_session_rows sid d) = delete_where (\<lambda>k _. fst k \<in> set (session_streams sid d)) (chunks d)"
    "gaps (delete_session_rows sid d) = delete_where (\<lambda>k _. fst k \<in> set (session_streams sid d)) (gaps d)"
    by (simp_all add: delete_session_rows_def Let_def delete_stream_rows_def session_streams_def)
  show ?thesis
    unfolding session_erased_def tables session_streams_iff
    by (intro conjI rows_left_delete_where takes_left [OF wf])
qed

text \<open>C16. From an archive that keeps its invariant, a hard delete that meets a failing blob aborts with
  every row of the database intact; retried on a working store it succeeds, removes exactly the rows
  that belong to the session from all nine tables (its streams, chunks and gaps found through its takes)
  and exactly the blobs its chunk rows named.\<close>

theorem delete_session_retry:
  assumes "archive_inv a" and "delete_session io sid a = (Inl e, a')"
    and "\<forall>k. io' k" and "delete_session io' sid a' = (res, a'')"
  shows "db a' = db a \<and> res = Inr () \<and> session_erased sid (db a) (db a'')
    \<and> (\<forall>k \<in> set (session_blob_keys sid (db a)). fs_content (blobs a'') k = None)
    \<and> (\<forall>k. k \<notin> set (session_blob_keys sid (db a)) \<longrightarrow> fs_content (blobs a'') k = fs_content (blobs a) k)"
proof -
  have same: "db a' = db a"
    using assms(2) by (cases rule: delete_session_cases [of io sid a]) auto
  have inv: "rows_inv (db a)" using assms(1) by (simp add: archive_inv_def)
  have "\<not> has_dotdot k" if "k \<in> set (session_blob_keys sid (db a))" for k
    using that assms(1) fs_content_valid [of "blobs a" k]
    by (auto simp: session_blob_keys_alt blob_keys_of_iff archive_inv_def rows_backed_def
        dest: rows_all_mem)
  then have ok: "fst (delete_blobs_strict io' (session_blob_keys sid (db a)) (blobs a')) = Inr ()"
    using assms(3) by (intro strict_succeeds) simp
  have first: "fs_content (blobs a') k = fs_content (blobs a) k" if "k \<notin> set (session_blob_keys sid (db a))" for k
    using fs_content_strict [OF that, of io "blobs a"] delete_session_blobs [of io sid a] assms(2) by simp
  show ?thesis
  proof (cases rule: delete_session_cases [of io' sid a'])
    case (aborted e)
    with ok same show ?thesis by (auto simp: delete_session_def split: prod.splits)
  next
    case (deleted bs)
    have "fs_content bs k = fs_content (blobs a') k" if "k \<notin> set (session_blob_keys sid (db a))" for k
      using fs_content_strict [OF that, of io' "blobs a'"] deleted(2) same by simp
    with deleted show ?thesis
      using same first assms(4) strict_removes [OF deleted(2)] session_erased_delete [OF inv, of sid] by auto
  qed
qed

lemma sample_inv: "archive_inv (run archive_step empty_archive sample_events)"
  by (rule archive_machine.run_guarded [OF archive_inv_empty legal_list_all])
    (simp add: sample_events_def sample_meta_def)

lemma delete_session_retry_witness:
  "let a = run archive_step empty_archive sample_events;
       aborted = delete_session (\<lambda>_. False) ''r'' a;
       retried = delete_session (\<lambda>_. True) ''r'' (snd aborted)
   in fst aborted \<noteq> Inr () \<and> fst retried = Inr () \<and> session_erased ''r'' (db a) (db (snd retried))"
proof -
  let ?a = "run archive_step empty_archive sample_events"
  have aborts: "delete_session (\<lambda>_. False) ''r'' ?a = (Inl (BlobError (IoFailure ''t/s/0'')), ?a)"
    by (simp add: run_eval session_blob_keys_def streams_of_takes_def blob_keys_of_def fs_delete_def)
  show ?thesis
    using delete_session_retry [where a = ?a and io' = "\<lambda>_. True", OF sample_inv aborts _ prod.collapse [symmetric]]
    by (simp add: Let_def aborts)
qed

text \<open>A blob whose delete failed when the desk removed its stream is referenced by no row
  any more, so no later hard delete of any session, on any store, removes it: the recording
  outlives the session although \<open>deleteSession\<close> promises never to leak one.\<close>

theorem orphaned_blob_survives_hard_delete:
  assumes "archive_inv a" and "((stid, seq), r) \<in> set (chunks (db a))"
    and "stid \<in> set (map sr_streamId refs)" and "\<not> io (ch_blobKey r)"
  shows "fs_content (blobs (snd (delete_session io' sid (snd (delete_streams io refs a)))))
    (ch_blobKey r) \<noteq> None"
proof -
  let ?a' = "snd (delete_streams io refs a)"
  let ?p = "\<lambda>s. s \<in> set (map sr_streamId refs)"
  have inv: "rows_inv (db a)" and backed: "rows_backed a"
    using assms(1) by (simp_all add: archive_inv_def)
  have kept: "fs_content (blobs ?a') (ch_blobKey r) \<noteq> None"
    using rows_all_mem [OF backed [unfolded rows_backed_def] assms(2)] assms(4)
    by (simp add: delete_streams_def Let_def split_beta lenient_keeps_failed)
  have rows: "set (chunks (db ?a')) \<subseteq> set (delete_where (\<lambda>k _. ?p (fst k)) (chunks (db a)))"
    using assms(3) by (intro chunks_delete_streams) auto
  have "ch_blobKey r \<notin> set (session_blob_keys sid (db ?a'))"
  proof
    assume "ch_blobKey r \<in> set (session_blob_keys sid (db ?a'))"
    then obtain pk r' where r': "(pk, r') \<in> set (chunks (db ?a'))" "ch_blobKey r' = ch_blobKey r"
      by (auto simp: session_blob_keys_alt blob_keys_of_iff)
    with rows have "(pk, r') \<in> set (chunks (db a))" "\<not> ?p (fst pk)"
      by (auto simp: delete_where_def)
    then have "ch_blobKey r' \<notin> set (blob_keys_of ?p (db a))"
      using inv canonical_keys_apart by (auto simp: rows_inv_def)
    moreover have "ch_blobKey r \<in> set (blob_keys_of ?p (db a))"
      using assms(2,3) by (force simp: blob_keys_of_iff)
    ultimately show False using r'(2) by simp
  qed
  then show ?thesis
    using kept by (simp add: delete_session_blobs fs_content_strict)
qed

lemma orphaned_blob_survives_hard_delete_witness:
  "fs_content (blobs (snd (delete_session (\<lambda>_. True) ''r'' (snd (delete_streams (\<lambda>_. False)
      [\<lparr>sr_takeId = ''t'', sr_streamId = ''s''\<rparr>] (run archive_step empty_archive sample_events))))))
    ''t/s/0'' \<noteq> None"
proof -
  have "((''s'', 0), chunk_row_of sample_meta) \<in> set (chunks (db (run archive_step empty_archive sample_events)))"
    by (simp add: run_eval)
  then show ?thesis
    using orphaned_blob_survives_hard_delete [OF sample_inv, where io = "\<lambda>_. False" and io' = "\<lambda>_. True"
        and refs = "[\<lparr>sr_takeId = ''t'', sr_streamId = ''s''\<rparr>]" and sid = "''r''"
        and stid = "''s''" and seq = 0 and r = "chunk_row_of sample_meta"]
    by (simp add: chunk_row_of_def sample_meta_def sample_key)
qed

text \<open>Replaying a chunk (a retransmission or a WAL replay) reports "not new" and changes
  nothing but rewrites the same blob, and the chunk is readable.\<close>

theorem persist_chunk_idempotent:
  assumes "persist_chunk io m f a = (Inr fresh, a')" and "\<forall>k. io' k"
  shows "fst (persist_chunk io' m f a') = Inr False
    \<and> db (snd (persist_chunk io' m f a')) = db a'
    \<and> fs_content (blobs (snd (persist_chunk io' m f a'))) = fs_content (blobs a')
    \<and> fs_get io' (blobs a') (chunk_blob_key (cm_takeId m) (cm_streamId m) (cm_seq m)) = Inr f"
proof -
  let ?k = "chunk_blob_key (cm_takeId m) (cm_streamId m) (cm_seq m)"
  obtain bs where put: "fs_put io (blobs a) ?k f = Inr bs"
    using assms(1) by (cases "fs_put io (blobs a) ?k f") (auto simp: persist_chunk_def Let_def)
  have a': "blobs a' = bs" "jm_has (chunks (db a')) (cm_streamId m, cm_seq m)"
    using assms(1) by (auto simp: persist_chunk_def put Let_def jm_get_insert_new split: if_splits)
  obtain bs' where put': "fs_put io' (blobs a') ?k f = Inr bs'"
    using fs.put_succeeds fs.put_ok [OF put] assms(2) by blast
  have "fs_content bs' = fs_content bs"
    using fs.put_ok [OF put] fs.put_ok [OF put'] a'(1) by simp
  then show ?thesis
    using a' put' fs.get_after_put [OF put, of] fs.put_ok [OF put] assms(2) fs.get_ok [of ?k io' bs]
    by (simp add: persist_chunk_def Let_def)
qed

lemma persist_chunk_idempotent_witness:
  "let a = snd (persist_chunk (\<lambda>_. True) sample_meta [1, 2]
                  (run archive_step empty_archive (take 2 sample_events)))
   in fst (persist_chunk (\<lambda>_. True) sample_meta [1, 2] a) = Inr False"
proof -
  let ?a = "run archive_step empty_archive (take 2 sample_events)"
  have "fst (persist_chunk (\<lambda>_. True) sample_meta [1, 2] ?a) = Inr True"
    by (simp add: run_eval)
  then show ?thesis
    using persist_chunk_idempotent [where io = "\<lambda>_. True" and io' = "\<lambda>_. True" and a = ?a and m = sample_meta
        and f = "[1, 2]" and fresh = True] by (metis prod.collapse)
qed

end
