(* ===== verification/Flac_Streaminfo.thy ===== *)
theory Flac_Streaminfo
  imports Prelude
begin

text \<open>
  \<open>apps/server/src/flac-streaminfo.ts\<close> and its byte-for-byte mirror
  \<open>apps/web/src/audio/flac-streaminfo.ts\<close>: setting the 36-bit total-samples field of a
  FLAC STREAMINFO block in an assembled copy.
\<close>

definition streaminfo_header_bytes :: nat where
  "streaminfo_header_bytes = 42"

definition with_total_samples :: "bytes \<Rightarrow> int \<Rightarrow> bytes" where
  "with_total_samples header totalSamples =
     (if length header \<noteq> streaminfo_header_bytes \<or> totalSamples < 0 \<or> 2 ^ 36 \<le> totalSamples then header
      else let hi = totalSamples div 2 ^ 32;
               lo = word_of_int (totalSamples mod 2 ^ 32) :: 32 word
           in header[21 := Bit_Operations.or (Bit_Operations.and (header ! 21) 0xf0) (word_of_int hi),
                22 := word_byte 3 lo, 23 := word_byte 2 lo, 24 := word_byte 1 lo, 25 := word_byte 0 lo])"

text \<open>What a FLAC decoder reads back: the low nibble of byte 21, then bytes 22 to 25.\<close>

definition total_samples_of :: "bytes \<Rightarrow> nat" where
  "total_samples_of h =
     (unat (h ! 21) mod 16) * 2 ^ 32 + unat (h ! 22) * 2 ^ 24 + unat (h ! 23) * 2 ^ 16
     + unat (h ! 24) * 2 ^ 8 + unat (h ! 25)"

lemma length_with_total_samples [simp]: "length (with_total_samples h n) = length h"
  by (simp add: with_total_samples_def Let_def)

lemma take_bit_nibble:
  fixes x y :: byte
  shows "take_bit 4 (Bit_Operations.or (Bit_Operations.and x 0xf0) y) = take_bit 4 y"
proof -
  have "take_bit 4 (0xf0 :: byte) = 0" by code_simp
  then show ?thesis by (simp add: take_bit_or take_bit_and)
qed

lemma high_nibble:
  fixes x y :: byte
  assumes "unat y < 16"
  shows "drop_bit 4 (Bit_Operations.or (Bit_Operations.and x 0xf0) y) = drop_bit 4 x"
proof -
  have "drop_bit 4 y = 0"
    using assms by (simp add: unsigned_drop_bit_eq drop_bit_eq_div word_unat_eq_iff unat_div)
  moreover have "drop_bit 4 (Bit_Operations.and x 0xf0) = drop_bit 4 x"
  proof (rule bit_eqI)
    fix n assume "possible_bit TYPE(byte) n"
    show "bit (drop_bit 4 (Bit_Operations.and x 0xf0)) n = bit (drop_bit 4 x) n"
    proof (cases "bit x (4 + n)")
      case True
      then have "n < 4" using bit_imp_le_length [OF True] by simp
      then have "n = 0 \<or> n = 1 \<or> n = 2 \<or> n = 3" by auto
      then have "bit (0xf0 :: byte) (4 + n)" by (elim disjE) (simp_all add: bit_simps)
      with True show ?thesis by (simp only: bit_drop_bit_eq bit_and_iff o_def simp_thms)
    qed (simp add: bit_drop_bit_eq bit_and_iff)
  qed
  ultimately show ?thesis by (simp add: drop_bit_or)
qed

text \<open>The two writes that matter to a decoder, under one hypothesis.\<close>

lemma with_total_samples_bytes:
  assumes "length h = streaminfo_header_bytes" "0 \<le> n" "n < 2 ^ 36"
  shows "unat (with_total_samples h n ! 21) mod 16 = nat n div 2 ^ 32"
    and "drop_bit 4 (with_total_samples h n ! 21) = drop_bit 4 (h ! 21)"
    and "\<And>k. k < 4 \<Longrightarrow> unat (with_total_samples h n ! (25 - k)) = nat n mod 2 ^ 32 div 256 ^ k mod 256"
    and "\<And>i. i < 21 \<or> 25 < i \<Longrightarrow> with_total_samples h n ! i = h ! i"
proof -
  let ?hi = "word_of_int (n div 2 ^ 32) :: byte"
  let ?lo = "word_of_int (n mod 2 ^ 32) :: 32 word"
  have out: "with_total_samples h n
      = h[21 := Bit_Operations.or (Bit_Operations.and (h ! 21) 0xf0) ?hi,
          22 := word_byte 3 ?lo, 23 := word_byte 2 ?lo, 24 := word_byte 1 ?lo, 25 := word_byte 0 ?lo]"
    using assms by (simp add: with_total_samples_def Let_def)
  have len: "length h = 42" using assms(1) by (simp add: streaminfo_header_bytes_def)
  obtain m where m: "n = int m" "m < 2 ^ 36"
    using assms(2,3) by (metis nat_0_le nat_less_iff of_nat_numeral of_nat_power)
  have hi_lt: "m div 2 ^ 32 < 16" using m(2) by (simp add: less_mult_imp_div_less)
  have hi_of: "?hi = word_of_nat (m div 2 ^ 32)"
    unfolding m(1) by (metis of_int_of_nat_eq of_nat_div of_nat_numeral of_nat_power)
  have lo_of: "?lo = word_of_nat (m mod 2 ^ 32)"
    unfolding m(1) by (metis of_int_of_nat_eq of_nat_mod of_nat_numeral of_nat_power)
  have hi: "unat ?hi = m div 2 ^ 32"
    unfolding hi_of using hi_lt by (simp add: unat_of_nat)
  have lo: "unat ?lo = m mod 2 ^ 32"
    unfolding lo_of by (simp add: unat_of_nat)
  show "unat (with_total_samples h n ! 21) mod 16 = nat n div 2 ^ 32"
  proof -
    have "take_bit 4 (unat (with_total_samples h n ! 21)) = take_bit 4 (unat ?hi)"
      unfolding unsigned_take_bit_eq [symmetric] using take_bit_nibble [of "h ! 21" ?hi]
      by (simp add: out len)
    moreover have "nat n = m" using m(1) by simp
    ultimately show ?thesis using hi hi_lt by (simp add: take_bit_eq_mod)
  qed
  show "drop_bit 4 (with_total_samples h n ! 21) = drop_bit 4 (h ! 21)"
    using high_nibble [of ?hi "h ! 21"] hi hi_lt by (simp add: out len)
  show "unat (with_total_samples h n ! (25 - k)) = nat n mod 2 ^ 32 div 256 ^ k mod 256" if "k < 4" for k
  proof -
    have "k = 0 \<or> k = 1 \<or> k = 2 \<or> k = 3" using that by auto
    then have "with_total_samples h n ! (25 - k) = word_byte k ?lo"
      by (elim disjE) (simp_all add: out len)
    then show ?thesis using lo m(1) by (simp add: unat_word_byte)
  qed
  show "with_total_samples h n ! i = h ! i" if "i < 21 \<or> 25 < i" for i
    using that by (auto simp: out)
qed

text \<open>The written field reads back as the count over its full 36-bit range, and nothing else of the
  header changes: length, every byte outside the field, and the bits-per-sample nibble the
  field shares a byte with.\<close>

theorem total_samples_roundtrip:
  assumes "length h = streaminfo_header_bytes" and "0 \<le> n" and "n < 2 ^ 36"
  shows "int (total_samples_of (with_total_samples h n)) = n
    \<and> length (with_total_samples h n) = length h
    \<and> (\<forall>i. i < 21 \<or> 25 < i \<longrightarrow> with_total_samples h n ! i = h ! i)
    \<and> drop_bit 4 (with_total_samples h n ! 21) = drop_bit 4 (h ! 21)"
proof -
  note byte = with_total_samples_bytes [OF assms]
  obtain q where q: "q = nat n mod 2 ^ 32" "q < 2 ^ 32" by simp
  have low: "unat (with_total_samples h n ! 25) = q mod 256"
    "unat (with_total_samples h n ! 24) = q div 256 mod 256"
    "unat (with_total_samples h n ! 23) = q div 65536 mod 256"
    "unat (with_total_samples h n ! 22) = q div 16777216 mod 256"
    using byte(3) [of 0, folded q(1)] byte(3) [of 1, folded q(1)] byte(3) [of 2, folded q(1)]
      byte(3) [of 3, folded q(1)] by simp_all
  have "total_samples_of (with_total_samples h n) = nat n div 2 ^ 32 * 2 ^ 32 + q"
    using bytes_of_nat32 [OF q(2)] less_mult_imp_div_less [of q 256 16777216] q(2)
    by (simp add: total_samples_of_def byte(1) low)
  then have "total_samples_of (with_total_samples h n) = nat n"
    by (simp only: q(1) div_mult_mod_eq)
  then have "int (total_samples_of (with_total_samples h n)) = n"
    using assms(2) by simp
  then show ?thesis using byte(2,4) by simp
qed

lemma total_samples_roundtrip_witness:
  "int (total_samples_of (with_total_samples (replicate 42 0xff) 68719476735)) = 68719476735"
  using total_samples_roundtrip [of "replicate 42 0xff" 68719476735]
  by (simp add: streaminfo_header_bytes_def)

lemma with_total_samples_other:
  "length h \<noteq> streaminfo_header_bytes \<or> n < 0 \<or> 2 ^ 36 \<le> n \<Longrightarrow> with_total_samples h n = h"
  by (auto simp: with_total_samples_def)

end
