(* ===== verification/Archive_Read.thy ===== *)
theory Archive_Read
  imports Archive_Retention Flac_Streaminfo
begin

text \<open>
  \<open>apps/server/src/archive/read.ts\<close> and \<open>flac.ts\<close>: status summaries, the crash-rebuild scan
  and FLAC reassembly. The SHA-256 of \<open>node:crypto\<close> and the two frame parsers of the wasm
  core are parameters.
\<close>

subsection \<open>Queries\<close>

definition session_exists :: "string \<Rightarrow> archive_db \<Rightarrow> bool" where
  "session_exists sid d = jm_has (sessions d) sid"

definition stream_session_id :: "string \<Rightarrow> archive_db \<Rightarrow> string option" where
  "stream_session_id stid d =
     (case jm_get (streams d) stid of None \<Rightarrow> None
      | Some s \<Rightarrow> map_option ta_sessionId (jm_get (takes d) (st_takeId s)))"

definition load_peers :: "string \<Rightarrow> archive_db \<Rightarrow> (string \<times> peer_row) list" where
  "load_peers sid d = filter (\<lambda>(_, r). pe_sessionId r = sid) (peers_tbl d)"

record session_scan =
  sc_streams :: "(string \<times> stream_row) list"
  sc_chunks :: "((string \<times> nat) \<times> chunk_row) list"
  sc_gaps :: "((string \<times> nat) \<times> gap_row) list"

definition load_session_state :: "string \<Rightarrow> archive_db \<Rightarrow> session_scan" where
  "load_session_state sid d =
     (let tids = map fst (filter (\<lambda>(_, r). ta_sessionId r = sid) (takes d))
      in if tids = [] then \<lparr>sc_streams = [], sc_chunks = [], sc_gaps = []\<rparr>
         else let sts = filter (\<lambda>(_, r). st_takeId r \<in> set tids) (streams d);
                  cs = filter (\<lambda>(_, r). ch_takeId r \<in> set tids) (chunks d);
                  gs = filter (\<lambda>(k, _). fst k \<in> set (map fst sts)) (gaps d)
              in \<lparr>sc_streams = sts, sc_chunks = cs, sc_gaps = gs\<rparr>)"

record stream_attr =
  sa_streamId :: string
  sa_peerId :: "string option"
  sa_finalSeq :: "nat option"

record session_summary_rec =
  sm_sessionId :: string
  sm_takes :: "(string \<times> take_row \<times> stream_attr list) list"
  sm_peers :: "(string \<times> peer_row) list"

text \<open>\<open>order by started_at, id\<close>; the order of ids is a parameter (the column's uuid order).\<close>

definition take_order :: "(string \<Rightarrow> real) \<Rightarrow> (string \<times> take_row) comparator" where
  "take_order uuid_rank =
     cmp_or (by_key (\<lambda>(_, r). real_of_int (ta_startedAt r))) (by_key (\<lambda>(k, _). uuid_rank k))"

interpretation take_order: js_comparator "take_order r" for r
  unfolding take_order_def by (intro js_comparator_cmp_or_by_key by_key.js_comparator_axioms)

definition streams_by_take :: "(string \<times> stream_row) list \<Rightarrow> (string, stream_attr list) jsmap" where
  "streams_by_take sts =
     foldl (\<lambda>m (k, r).
        jm_set (st_takeId r)
          ((case jm_get m (st_takeId r) of None \<Rightarrow> [] | Some l \<Rightarrow> l)
             @ [\<lparr>sa_streamId = k, sa_peerId = st_peerId r, sa_finalSeq = st_finalSeq r\<rparr>]) m) [] sts"

definition session_summary :: "(string \<Rightarrow> real) \<Rightarrow> string \<Rightarrow> archive_db \<Rightarrow> session_summary_rec option" where
  "session_summary uuid_rank sid d =
     (if \<not> jm_has (sessions d) sid then None
      else let tks = js_sort (take_order uuid_rank) (filter (\<lambda>(_, r). ta_sessionId r = sid) (takes d));
               tids = map fst tks;
               sts = filter (\<lambda>(_, r). st_takeId r \<in> set tids) (streams d);
               byTake = streams_by_take sts
           in Some \<lparr>sm_sessionId = sid,
                sm_takes = map (\<lambda>(k, r). (k, r, case jm_get byTake k of None \<Rightarrow> [] | Some l \<Rightarrow> l)) tks,
                sm_peers = load_peers sid d\<rparr>)"

definition stream_peer :: "string \<Rightarrow> archive_db \<Rightarrow> (string option \<times> string) option" where
  "stream_peer stid d =
     (case jm_get (streams d) stid of None \<Rightarrow> None
      | Some s \<Rightarrow> (case st_peerId s of None \<Rightarrow> None
          | Some p \<Rightarrow> map_option (\<lambda>r. (pe_label r, pe_userAgent r)) (jm_get (peers_tbl d) p)))"

subsection \<open>Holes and high-water mark\<close>

text \<open>The set a stream holds: its chunk seqs and the seqs of its declared gaps.\<close>

definition held :: "nat list \<Rightarrow> (nat \<times> nat) list \<Rightarrow> nat list" where
  "held seqs ranges = seqs @ concat (map (\<lambda>(s, e). [s..<Suc e]) ranges)"

lemma mem_held:
  "x \<in> set (held seqs rs) \<longleftrightarrow> x \<in> set seqs \<or> (\<exists>g \<in> set rs. fst g \<le> x \<and> x \<le> snd g)"
proof -
  have "x \<in> set (concat (map (\<lambda>(s, e). [s..<Suc e]) rs)) \<longleftrightarrow> (\<exists>g \<in> set rs. fst g \<le> x \<and> x \<le> snd g)"
    by (auto simp: less_Suc_eq_le split_beta simp del: upt_Suc)
  then show ?thesis by (simp add: held_def)
qed

function chwm_loop :: "nat list \<Rightarrow> nat \<Rightarrow> nat" where
  "chwm_loop hs n = (if n \<in> set hs then chwm_loop hs (Suc n) else n)"
  by pat_completeness auto

lemma card_suffix_less: "n \<in> set hs \<Longrightarrow> card {x \<in> set hs. Suc n \<le> x} < card {x \<in> set hs. n \<le> x}"
proof (rule psubset_card_mono)
  assume "n \<in> set hs"
  then have "n \<in> {x \<in> set hs. n \<le> x}" "n \<notin> {x \<in> set hs. Suc n \<le> x}" by simp_all
  then have "{x \<in> set hs. Suc n \<le> x} \<noteq> {x \<in> set hs. n \<le> x}" by metis
  then show "{x \<in> set hs. Suc n \<le> x} \<subset> {x \<in> set hs. n \<le> x}" by (intro psubsetI) auto
qed simp

termination chwm_loop
  by (relation "measure (\<lambda>(hs, n). card {x \<in> set hs. n \<le> x})")
    (simp_all only: wf_measure in_measure prod.case card_suffix_less)

declare chwm_loop.simps [simp del]

definition compute_chwm :: "nat list \<Rightarrow> (nat \<times> nat) list \<Rightarrow> nat option" where
  "compute_chwm seqs ranges =
     (let n = chwm_loop (held seqs ranges) 0 in if n = 0 then None else Some (n - 1))"

type_synonym hole_state = "nat option \<times> (nat \<times> nat) list"

definition hole_step :: "nat set \<Rightarrow> hole_state \<Rightarrow> nat \<Rightarrow> hole_state" where
  "hole_step hs = (\<lambda>(start, acc) i.
     if i \<notin> hs then ((case start of None \<Rightarrow> Some i | Some s \<Rightarrow> Some s), acc)
     else (case start of None \<Rightarrow> (None, acc) | Some s \<Rightarrow> (None, acc @ [(s, i - 1)])))"

definition compute_holes :: "nat list \<Rightarrow> nat option \<Rightarrow> (nat \<times> nat) list \<Rightarrow> (nat \<times> nat) list" where
  "compute_holes seqs finalSeq ranges =
     (let hs = set (held seqs ranges);
          horizon = (case finalSeq of Some f \<Rightarrow> Some f
                     | None \<Rightarrow> if seqs = [] then None else Some (Max (set seqs)))
      in case horizon of None \<Rightarrow> []
         | Some h \<Rightarrow>
             let (start, acc) = foldl (hole_step hs) (None, []) [0..<Suc h]
             in case start of None \<Rightarrow> acc | Some s \<Rightarrow> acc @ [(s, h)])"

lemma chwm_loop_spec:
  "(\<forall>i. n \<le> i \<and> i < chwm_loop hs n \<longrightarrow> i \<in> set hs) \<and> chwm_loop hs n \<notin> set hs
    \<and> n \<le> chwm_loop hs n"
proof (induction hs n rule: chwm_loop.induct)
  case (1 hs n)
  show ?case
  proof (cases "n \<in> set hs")
    case True
    then have "chwm_loop hs n = chwm_loop hs (Suc n)"
      by (subst chwm_loop.simps) simp
    with 1 [OF True] True show ?thesis by (metis Suc_leD le_neq_implies_less less_eq_Suc_le)
  next
    case False
    then have "chwm_loop hs n = n" by (subst chwm_loop.simps) simp
    with False show ?thesis by auto
  qed
qed

lemma compute_chwm_iff:
  "compute_chwm seqs ranges = Some c \<longleftrightarrow>
     (\<forall>i \<le> c. i \<in> set (held seqs ranges)) \<and> Suc c \<notin> set (held seqs ranges)"
proof -
  let ?n = "chwm_loop (held seqs ranges) 0"
  have spec: "\<forall>i < ?n. i \<in> set (held seqs ranges)" "?n \<notin> set (held seqs ranges)"
    using chwm_loop_spec [of 0 "held seqs ranges"] by auto
  have "?n = Suc c" if "\<forall>i \<le> c. i \<in> set (held seqs ranges)" "Suc c \<notin> set (held seqs ranges)"
    using that spec by (metis less_Suc_eq_le linorder_neqE_nat)
  then show ?thesis
    using spec by (auto simp: compute_chwm_def Let_def less_Suc_eq_le)
qed

text \<open>The contiguous high-water mark is the exact end of the initial run of held seqs.\<close>

theorem compute_chwm_exact:
  "compute_chwm seqs ranges = Some c \<longleftrightarrow>
     {..c} \<subseteq> set (held seqs ranges) \<and> Suc c \<notin> set (held seqs ranges)"
  by (auto simp: compute_chwm_iff)

text \<open>The scan's invariant after looking at every seq below \<open>n\<close>.\<close>

definition ranges_set :: "(nat \<times> nat) list \<Rightarrow> nat set" where
  "ranges_set rs = (\<Union>(s, e) \<in> set rs. {s..e})"

text \<open>Non-empty ranges in increasing order with at least one held seq between two of them.\<close>

definition separated :: "(nat \<times> nat) list \<Rightarrow> bool" where
  "separated rs \<longleftrightarrow> sorted_wrt (\<lambda>r r'. Suc (snd r) < fst r') rs \<and> (\<forall>r \<in> set rs. fst r \<le> snd r)"

definition scan_inv :: "nat set \<Rightarrow> nat \<Rightarrow> hole_state \<Rightarrow> bool" where
  "scan_inv hs n = (\<lambda>(start, acc).
     (case start of
        None \<Rightarrow> separated acc \<and> ranges_set acc = {i. i < n \<and> i \<notin> hs} \<and> (\<forall>r \<in> set acc. Suc (snd r) < n)
      | Some s \<Rightarrow> s < n \<and> separated (acc @ [(s, n - 1)]) \<and> ranges_set (acc @ [(s, n - 1)]) = {i. i < n \<and> i \<notin> hs}))"

lemma ranges_set_simps [simp]:
  "ranges_set [] = {}" "ranges_set (acc @ [(s, e)]) = ranges_set acc \<union> {s..e}"
  by (auto simp: ranges_set_def)

lemma separated_snoc:
  "separated (acc @ [(s, e)]) \<longleftrightarrow> separated acc \<and> s \<le> e \<and> (\<forall>r \<in> set acc. Suc (snd r) < s)"
  by (auto simp: separated_def sorted_wrt_append)

lemma scan_inv_step: 
  assumes "scan_inv hs n st" shows "scan_inv hs (Suc n) (hole_step hs st n)"
proof -
  obtain start acc where st: "st = (start, acc)" by (cases st)
  show ?thesis
  proof (cases start)
    case None
    then have inv: "separated acc" "ranges_set acc = {i. i < n \<and> i \<notin> hs}"
        "\<forall>r \<in> set acc. Suc (snd r) < n"
      using assms by (simp_all add: scan_inv_def st)
    show ?thesis
    proof (cases "n \<in> hs")
      case True
      then show ?thesis
        using inv by (auto simp: st None scan_inv_def hole_step_def less_Suc_eq)
    next
      case False
      then show ?thesis
        using inv by (auto simp: st None scan_inv_def hole_step_def less_Suc_eq separated_snoc)
    qed
  next
    case (Some s)
    then have inv: "s < n" "separated acc" "\<forall>r \<in> set acc. Suc (snd r) < s"
        "ranges_set acc \<union> {s..n - 1} = {i. i < n \<and> i \<notin> hs}"
      using assms by (simp_all add: scan_inv_def st separated_snoc)
    show ?thesis
    proof (cases "n \<in> hs")
      case True
      have "\<forall>r \<in> set acc. Suc (snd r) < Suc n" using inv(1,3) by fastforce
      with True inv show ?thesis
        by (auto simp: st Some scan_inv_def hole_step_def less_Suc_eq separated_snoc)
    next
      case False
      have "{s..n} = insert n {s..n - 1}" using inv(1) by auto
      then have "ranges_set acc \<union> {s..n} = insert n {i. i < n \<and> i \<notin> hs}"
        using inv(4) by auto
      with False inv show ?thesis
        by (auto simp: st Some scan_inv_def hole_step_def less_Suc_eq separated_snoc)
    qed
  qed
qed

lemma scan_inv_run: "scan_inv hs n (foldl (hole_step hs) (None, []) [0..<n])"
proof (induction n)
  case 0
  then show ?case by (simp add: scan_inv_def separated_def)
next
  case (Suc n)
  then show ?case using scan_inv_step by simp
qed

definition scan_horizon :: "nat list \<Rightarrow> nat option \<Rightarrow> nat option" where
  "scan_horizon seqs finalSeq =
     (case finalSeq of Some f \<Rightarrow> Some f | None \<Rightarrow> if seqs = [] then None else Some (Max (set seqs)))"

text \<open>The reported holes are exactly the missing seqs up to the horizon (the final seq, or
  the highest held one while it is unknown), as maximal ranges in increasing order.\<close>

theorem compute_holes_exact:
  "separated (compute_holes seqs finalSeq ranges)
   \<and> ranges_set (compute_holes seqs finalSeq ranges)
     = {i. (case scan_horizon seqs finalSeq of None \<Rightarrow> False | Some h \<Rightarrow> i \<le> h)
           \<and> i \<notin> set (held seqs ranges)}"
proof (cases "scan_horizon seqs finalSeq")
  case None
  then have "compute_holes seqs finalSeq ranges = []"
    unfolding scan_horizon_def [symmetric] compute_holes_def by (simp add: scan_horizon_def [symmetric])
  with None show ?thesis by (simp add: separated_def)
next
  case (Some h)
  obtain start acc where st: "foldl (hole_step (set (held seqs ranges))) (None, []) [0..<Suc h] = (start, acc)"
    by (cases "foldl (hole_step (set (held seqs ranges))) (None, []) [0..<Suc h]")
  then have holes: "compute_holes seqs finalSeq ranges
      = (case start of None \<Rightarrow> acc | Some s \<Rightarrow> acc @ [(s, h)])"
    using Some by (simp add: compute_holes_def scan_horizon_def [symmetric] Let_def del: upt_Suc)
  have "scan_inv (set (held seqs ranges)) (Suc h) (start, acc)"
    using scan_inv_run [of "set (held seqs ranges)" "Suc h"] st by simp
  then show ?thesis
    using Some by (cases start) (auto simp: holes scan_inv_def less_Suc_eq_le)
qed

subsection \<open>Chunk-set digest\<close>

type_synonym digest_row = "nat \<times> nat"

definition digest_bytes :: "digest_row list \<Rightarrow> bytes" where
  "digest_bytes rows =
     concat (map (\<lambda>(seq, crc). le32 (word_of_nat seq) @ le32 (word_of_nat crc))
       (js_sort (by_key (\<lambda>(seq, _). real seq)) rows))"

definition chunk_set_digest :: "(bytes \<Rightarrow> string) \<Rightarrow> digest_row list \<Rightarrow> string" where
  "chunk_set_digest sha256 rows = sha256 (digest_bytes rows)"

lemma digest_bytes_perm:
  "distinct (map fst rows) \<Longrightarrow> mset rows = mset rows' \<Longrightarrow> digest_bytes rows = digest_bytes rows'"
proof -
  assume rows: "distinct (map fst rows)" "mset rows = mset rows'"
  have eq: "map (\<lambda>(seq, _). real seq) rows = map real (map fst rows)" by auto
  have "distinct (map (\<lambda>(seq, _). real seq) rows)"
    unfolding eq using rows(1) by (subst distinct_map) (simp add: inj_on_def)
  then show ?thesis
    unfolding digest_bytes_def by (simp only: js_sort_by_key_unique [OF _ rows(2)])
qed

definition u32_row :: "digest_row \<Rightarrow> bool" where
  "u32_row r \<longleftrightarrow> fst r < 2 ^ 32 \<and> snd r < 2 ^ 32"

lemma row_bytes_inject:
  assumes "u32_row r" "u32_row r'"
    and "le32 (word_of_nat (fst r)) @ le32 (word_of_nat (snd r))
       = le32 (word_of_nat (fst r')) @ le32 (word_of_nat (snd r'))"
  shows "r = r'"
  using assms
  by (auto simp: u32_row_def prod_eq_iff word_of_nat_eq_iff take_bit_nat_eq_self)

lemma digest_bytes_inject:
  assumes "list_all u32_row rows" "list_all u32_row rows'" "digest_bytes rows = digest_bytes rows'"
  shows "mset rows = mset rows'"
proof -
  let ?s = "js_sort (by_key (\<lambda>(seq, _). real seq)) :: digest_row list \<Rightarrow> digest_row list"
  have "?s rows = ?s rows'"
  proof (rule concat_map_inject [OF assms(3) [unfolded digest_bytes_def], where n = 8])
    show "(case x of (seq, crc) \<Rightarrow> le32 (word_of_nat seq) @ le32 (word_of_nat crc))
        = (case y of (seq, crc) \<Rightarrow> le32 (word_of_nat seq) @ le32 (word_of_nat crc)) \<Longrightarrow> x = y"
      if "x \<in> set (?s rows)" "y \<in> set (?s rows')" for x y
      using that assms(1,2) row_bytes_inject [of x y] by (auto simp: list_all_iff split_beta)
  qed (simp_all add: split_beta)
  then show ?thesis by (metis mset_js_sort)
qed

text \<open>Equal digests mean converged sinks: two sinks' digests are equal exactly when they
  hold the same chunks with the same checksums, in whatever order they store them, provided
  the hash does not collide on the two encodings.\<close>

theorem chunk_set_digest_converged:
  assumes "distinct (map fst rows)" "list_all u32_row rows" "list_all u32_row rows'"
    and "sha256 (digest_bytes rows) = sha256 (digest_bytes rows') \<Longrightarrow> digest_bytes rows = digest_bytes rows'"
  shows "chunk_set_digest sha256 rows = chunk_set_digest sha256 rows' \<longleftrightarrow> mset rows = mset rows'"
proof
  show "chunk_set_digest sha256 rows = chunk_set_digest sha256 rows' \<Longrightarrow> mset rows = mset rows'"
    unfolding chunk_set_digest_def by (intro digest_bytes_inject [OF assms(2,3)] assms(4))
  show "mset rows = mset rows' \<Longrightarrow> chunk_set_digest sha256 rows = chunk_set_digest sha256 rows'"
    unfolding chunk_set_digest_def using digest_bytes_perm [OF assms(1)] by (rule arg_cong)
qed

lemma chunk_set_digest_converged_witness:
  "chunk_set_digest (map (\<lambda>b. char_of (unat b))) [(0, 7), (1, 9)]
    = chunk_set_digest (map (\<lambda>b. char_of (unat b))) [(1, 9), (0, 7)]"
proof -
  have "digest_bytes [(0, 7), (1, 9)] = digest_bytes [(1, 9), (0, 7)]"
    by (rule digest_bytes_perm) (simp_all add: add_mset_commute)
  then show ?thesis
    using chunk_set_digest_converged [of "[(0, 7), (1, 9)]" "[(1, 9), (0, 7)]" "map (\<lambda>b. char_of (unat b))"]
    by (simp add: u32_row_def add_mset_commute)
qed

subsection \<open>Take status\<close>

record stream_status =
  ts_streamId :: string
  ts_takeId :: string
  ts_peerId :: "string option"
  ts_header :: "stream_header option"
  ts_finalSeq :: "nat option"
  ts_flagged :: bool
  ts_chunkCount :: nat
  ts_chwm :: "nat option"
  ts_holes :: "(nat \<times> nat) list"
  ts_gaps :: "(nat \<times> nat) list"
  ts_complete :: bool
  ts_settled :: bool
  ts_digest :: string

definition chunk_rows :: "string \<Rightarrow> archive_db \<Rightarrow> (nat \<times> chunk_row) list" where
  "chunk_rows stid d =
     js_sort (by_key (\<lambda>(seq, _). real seq))
       (map (\<lambda>(k, r). (snd k, r)) (filter (\<lambda>(k, _). fst k = stid) (chunks d)))"

definition gap_ranges :: "string \<Rightarrow> archive_db \<Rightarrow> (nat \<times> nat) list" where
  "gap_ranges stid d =
     map (\<lambda>(k, g). (snd k, ga_endSeq g)) (filter (\<lambda>(k, _). fst k = stid) (gaps d))"

definition stream_status_of :: "(bytes \<Rightarrow> string) \<Rightarrow> string \<Rightarrow> archive_db \<Rightarrow> string \<Rightarrow> stream_row \<Rightarrow> stream_status" where
  "stream_status_of sha256 tid d stid s =
     (let rows = map (\<lambda>(seq, r). (seq, ch_crc32c r)) (chunk_rows stid d);
          gapRows = gap_ranges stid d;
          seqs = map fst rows;
          holes = compute_holes seqs (st_finalSeq s) gapRows
      in \<lparr>ts_streamId = stid, ts_takeId = tid, ts_peerId = st_peerId s, ts_header = st_header s,
          ts_finalSeq = st_finalSeq s, ts_flagged = st_flagged s, ts_chunkCount = length rows,
          ts_chwm = compute_chwm seqs gapRows, ts_holes = holes, ts_gaps = gapRows,
          ts_complete = (case st_finalSeq s of None \<Rightarrow> False
                         | Some f \<Rightarrow> holes = [] \<and> length seqs = f + 1),
          ts_settled = (st_finalSeq s \<noteq> None \<and> holes = []),
          ts_digest = chunk_set_digest sha256 rows\<rparr>)"

definition take_summary ::
    "(bytes \<Rightarrow> string) \<Rightarrow> string \<Rightarrow> string \<Rightarrow> archive_db \<Rightarrow> stream_status list option" where
  "take_summary sha256 sid tid d =
     (case jm_get (takes d) tid of
        None \<Rightarrow> None
      | Some t \<Rightarrow>
          if ta_sessionId t \<noteq> sid then None
          else Some (map (\<lambda>(k, s). stream_status_of sha256 tid d k s)
                 (filter (\<lambda>(_, s). st_takeId s = tid) (streams d))))"

subsection \<open>FLAC reassembly\<close>

text \<open>
  The two parsers of the wasm build are parameters; each throws (\<open>None\<close>) on bytes that are not an audio
  chunk frame, or not a stream header. Their errors reject the call as an unreadable blob does.
\<close>

datatype flac_error =
    UnknownStream
  | HeaderNotHeld
  | FinalSeqUnknown
  | HoldsOnly nat nat
  | FrameUnreadable blob_error
  | FrameMalformed nat

definition flac_part ::
    "(bytes \<Rightarrow> bytes option) \<Rightarrow> (bytes \<Rightarrow> bytes option) \<Rightarrow> nat \<Rightarrow> nat \<Rightarrow> bytes \<Rightarrow> bytes option" where
  "flac_part extract_chunk_payload extract_codec_header servedSamples seq frame =
     (case extract_chunk_payload frame of
        None \<Rightarrow> None
      | Some payload \<Rightarrow>
          if seq = 0
          then (case extract_codec_header payload of
                  None \<Rightarrow> None
                | Some header \<Rightarrow> Some (with_total_samples header (int servedSamples)))
          else Some payload)"

text \<open>Row by row: the blob is read, then parsed; the first failure rejects the whole call.\<close>

fun flac_parts ::
    "(nat \<Rightarrow> bytes \<Rightarrow> bytes option) \<Rightarrow> (string \<Rightarrow> bool) \<Rightarrow> fs_store \<Rightarrow> (nat \<times> chunk_row) list
      \<Rightarrow> flac_error + bytes list" where
  "flac_parts part io bs [] = Inr []"
| "flac_parts part io bs ((seq, r) # rows) =
     (case fs_get io bs (ch_blobKey r) of
        Inl e \<Rightarrow> Inl (FrameUnreadable e)
      | Inr frame \<Rightarrow>
          (case part seq frame of
             None \<Rightarrow> Inl (FrameMalformed seq)
           | Some p \<Rightarrow>
               (case flac_parts part io bs rows of
                  Inl e \<Rightarrow> Inl e | Inr ps \<Rightarrow> Inr (p # ps))))"

definition reconstruct_flac ::
    "(bytes \<Rightarrow> bytes option) \<Rightarrow> (bytes \<Rightarrow> bytes option) \<Rightarrow> (string \<Rightarrow> bool) \<Rightarrow> string \<Rightarrow> bool
      \<Rightarrow> archive \<Rightarrow> flac_error + bytes" where
  "reconstruct_flac extract_chunk_payload extract_codec_header io stid allowPartial a =
     (case jm_get (streams (db a)) stid of
        None \<Rightarrow> Inl UnknownStream
      | Some s \<Rightarrow>
          let rows = chunk_rows stid (db a)
          in if rows = [] \<or> fst (hd rows) \<noteq> 0 then Inl HeaderNotHeld
             else if \<not> allowPartial \<and> st_finalSeq s = None then Inl FinalSeqUnknown
             else if \<not> allowPartial \<and> length rows \<noteq> the (st_finalSeq s) + 1
             then Inl (HoldsOnly (length rows) (the (st_finalSeq s) + 1))
             else let served = sum_list (map (ch_sampleCount \<circ> snd) rows)
                  in case flac_parts (flac_part extract_chunk_payload extract_codec_header served)
                            io (blobs a) rows of
                       Inl e \<Rightarrow> Inl e
                     | Inr parts \<Rightarrow> Inr (concat parts))"

lemma flac_parts_result:
  assumes "\<forall>(seq, r) \<in> set rows. fs_get io bs (ch_blobKey r) = Inr (f seq)"
  shows "if list_all (\<lambda>seq. part seq (f seq) \<noteq> None) (map fst rows)
    then flac_parts part io bs rows = Inr (map (\<lambda>seq. the (part seq (f seq))) (map fst rows))
    else \<exists>seq \<in> set (map fst rows). flac_parts part io bs rows = Inl (FrameMalformed seq)"
  using assms
proof (induction rows)
  case (Cons p rows)
  obtain seq r where p: "p = (seq, r)" by (cases p)
  with Cons.prems have get: "fs_get io bs (ch_blobKey r) = Inr (f seq)" by simp
  show ?case
  proof (cases "part seq (f seq)")
    case (Some q)
    with Cons p get show ?thesis by (force split: if_splits)
  qed (simp add: p get)
qed simp

lemma mem_chunk_rows: "(seq, r) \<in> set (chunk_rows stid d) \<longleftrightarrow> ((stid, seq), r) \<in> set (chunks d)"
  by (force simp: chunk_rows_def)

lemma distinct_chunk_rows:
  assumes "jm_wf (chunks d)" shows "distinct (map fst (chunk_rows stid d))"
proof -
  have "distinct (map fst (filter (\<lambda>(k, _). fst k = stid) (chunks d)))"
    using assms by (simp add: jm_wf_def distinct_map_filter)
  moreover have "map fst (map (\<lambda>(k, r). (snd k, r)) (filter (\<lambda>(k, _). fst k = stid) (chunks d)))
      = map snd (map fst (filter (\<lambda>(k, _). fst k = stid) (chunks d)))"
    by auto
  moreover have "inj_on snd (set (map fst (filter (\<lambda>(k :: string \<times> nat, _ :: chunk_row). fst k = stid) (chunks d))))"
    by (auto simp: inj_on_def)
  ultimately have "distinct (map fst (map (\<lambda>(k, r). (snd k, r)) (filter (\<lambda>(k, _). fst k = stid) (chunks d))))"
    by (simp only: distinct_map)
  then show ?thesis
    unfolding chunk_rows_def by (metis mset_eq_imp_distinct_iff mset_map_js_sort)
qed

lemma sorted_chunk_rows: "sorted (map fst (chunk_rows stid d))"
  using sorted_js_sort_by_key [of "\<lambda>(seq, _ :: chunk_row). real seq"]
  by (simp add: chunk_rows_def sorted_map split_beta)

text \<open>A strictly increasing list of \<open>n\<close> naturals that holds all of \<open>0..<n\<close> is \<open>[0..<n]\<close>.\<close>

lemma sorted_upt_eq:
  assumes "sorted xs" "distinct xs" "length xs = n" "{0..<n} \<subseteq> set xs"
  shows "xs = [0..<n]"
proof -
  have "card (set xs) = n" using assms(2,3) distinct_card by fastforce
  then have "set xs = {0..<n}"
    using assms(4) by (metis List.finite_set card_atLeastLessThan card_subset_eq diff_zero)
  then show ?thesis using assms(1,2) by (simp add: sorted_distinct_set_unique)
qed

text \<open>The frame stored for a chunk.\<close>

definition stored_frame :: "archive \<Rightarrow> string \<Rightarrow> nat \<Rightarrow> bytes" where
  "stored_frame a stid seq =
     (case jm_get (chunks (db a)) (stid, seq) of None \<Rightarrow> []
      | Some r \<Rightarrow> (case fs_content (blobs a) (ch_blobKey r) of None \<Rightarrow> [] | Some b \<Rightarrow> b))"

lemma chunk_rows_complete:
  assumes "jm_wf (chunks d)" "length (chunk_rows stid d) = Suc f"
    and "\<forall>seq. (stid, seq) \<in> keys_of (chunks d) \<longrightarrow> seq \<le> f"
  shows "map fst (chunk_rows stid d) = [0..<Suc f]"
proof (rule sorted_upt_eq [OF sorted_chunk_rows distinct_chunk_rows [OF assms(1)]])
  let ?seqs = "set (map fst (chunk_rows stid d))"
  have "seq \<le> f" if "(seq, r) \<in> set (chunk_rows stid d)" for seq r
    using that assms(3) keys_of_I by (fastforce simp: mem_chunk_rows)
  then have "?seqs \<subseteq> {0..<Suc f}" by (force simp: less_Suc_eq_le)
  moreover have "card ?seqs = Suc f"
    using distinct_card [OF distinct_chunk_rows [OF assms(1)], of stid] assms(2) by simp
  ultimately show "{0..<Suc f} \<subseteq> ?seqs"
    by (metis card_atLeastLessThan card_subset_eq diff_zero finite_atLeastLessThan order_refl)
qed (simp add: assms(2))

lemma frames_readable:
  assumes "archive_inv a"
  shows "\<forall>(seq, r) \<in> set (chunk_rows stid (db a)).
    fs_get (\<lambda>_. True) (blobs a) (ch_blobKey r) = Inr (stored_frame a stid seq)"
proof (rule ballI, clarify)
  fix seq r assume "(seq, r) \<in> set (chunk_rows stid (db a))"
  then have r: "((stid, seq), r) \<in> set (chunks (db a))" by (simp add: mem_chunk_rows)
  then have get: "jm_get (chunks (db a)) (stid, seq) = Some r"
    using assms by (simp add: archive_inv_def rows_inv_def tables_distinct_def jm_wf_SomeI)
  have "fs_content (blobs a) (ch_blobKey r) \<noteq> None"
    using rows_all_mem [OF _ r] assms by (fastforce simp: archive_inv_def rows_backed_def)
  then obtain b where b: "fs_content (blobs a) (ch_blobKey r) = Some b" by auto
  with fs_content_valid [of "blobs a"] have "\<not> has_dotdot (ch_blobKey r)" by simp
  with b show "fs_get (\<lambda>_. True) (blobs a) (ch_blobKey r) = Inr (stored_frame a stid seq)"
    using fs.get_ok by (simp add: stored_frame_def get)
qed

lemma status_complete:
  "ts_complete (stream_status_of h tid d stid s) \<longleftrightarrow>
     (\<exists>f. st_finalSeq s = Some f \<and> length (chunk_rows stid d) = Suc f
        \<and> compute_holes (map fst (chunk_rows stid d)) (Some f) (gap_ranges stid d) = [])"
  by (auto simp: stream_status_of_def Let_def comp_def split_beta split: option.splits)

text \<open>C7. A stream the summary calls complete, with no chunk row past its final seq, is served by a working
  store when the two wasm parsers accept what is stored: the download is the codec header of chunk 0,
  with the sample count of all rows, followed by the payloads of chunks 1 to the final seq in order,
  each exactly once. When a parser throws on one of the frames the call is rejected on such a frame:
  nothing is served. The condition on rows past the final seq is needed: see \<open>download_skips_hole\<close>.\<close>

theorem complete_stream_downloads:
  assumes "archive_inv a" and "jm_get (streams (db a)) stid = Some s" and "st_finalSeq s = Some f"
    and "ts_complete (stream_status_of sha256 tid (db a) stid s)"
    and "\<forall>seq. (stid, seq) \<in> keys_of (chunks (db a)) \<longrightarrow> seq \<le> f"
  shows "if list_all (\<lambda>seq. payload (stored_frame a stid seq) \<noteq> None) [0..<Suc f]
        \<and> codecHeader (the (payload (stored_frame a stid 0))) \<noteq> None
    then reconstruct_flac payload codecHeader (\<lambda>_. True) stid False a
      = Inr (with_total_samples (the (codecHeader (the (payload (stored_frame a stid 0)))))
             (int (sum_list (map (ch_sampleCount \<circ> snd) (chunk_rows stid (db a)))))
           @ concat (map (\<lambda>seq. the (payload (stored_frame a stid seq))) [1..<Suc f]))
    else \<exists>seq \<le> f. reconstruct_flac payload codecHeader (\<lambda>_. True) stid False a = Inl (FrameMalformed seq)"
proof -
  let ?rows = "chunk_rows stid (db a)"
  let ?n = "sum_list (map (ch_sampleCount \<circ> snd) ?rows)"
  let ?part = "flac_part payload codecHeader ?n"
  have len: "length ?rows = Suc f"
    using assms(3,4) by (auto simp: status_complete)
  have seqs: "map fst ?rows = [0..<Suc f]"
    using assms(1,5) len
    by (intro chunk_rows_complete) (simp_all add: archive_inv_def rows_inv_def tables_distinct_def)
  then have "hd (map fst ?rows) = 0" by (simp add: upt_conv_Cons del: upt_Suc)
  then have head: "?rows \<noteq> []" "fst (hd ?rows) = 0"
    using len by (cases ?rows; simp)+
  have call: "reconstruct_flac payload codecHeader (\<lambda>_. True) stid False a
      = (case flac_parts ?part (\<lambda>_. True) (blobs a) ?rows of Inl e \<Rightarrow> Inl e | Inr ps \<Rightarrow> Inr (concat ps))"
    using head len assms(2,3) by (simp add: reconstruct_flac_def Let_def)
  note parts = flac_parts_result [where part = ?part, OF frames_readable [OF assms(1), of stid], unfolded seqs]
  have upt: "[0..<Suc f] = 0 # [1..<Suc f]" by (simp add: upt_conv_Cons del: upt_Suc)
  have rest: "?part seq (stored_frame a stid seq) = payload (stored_frame a stid seq)" if "seq \<in> set [1..<Suc f]" for seq
    using that by (auto simp: flac_part_def split: option.split)
  have head_part: "?part 0 (stored_frame a stid 0) \<noteq> None \<longleftrightarrow> payload (stored_frame a stid 0) \<noteq> None
      \<and> codecHeader (the (payload (stored_frame a stid 0))) \<noteq> None"
    by (auto simp: flac_part_def split: option.split)
  have all: "list_all (\<lambda>seq. ?part seq (stored_frame a stid seq) \<noteq> None) [0..<Suc f]
      \<longleftrightarrow> list_all (\<lambda>seq. payload (stored_frame a stid seq) \<noteq> None) [0..<Suc f]
        \<and> codecHeader (the (payload (stored_frame a stid 0))) \<noteq> None"
    unfolding upt using rest head_part by (simp add: list_all_iff del: set_upt) blast
  show ?thesis
  proof (cases "list_all (\<lambda>seq. ?part seq (stored_frame a stid seq) \<noteq> None) [0..<Suc f]")
    case True
    have tail: "map (\<lambda>seq. the (?part seq (stored_frame a stid seq))) [1..<Suc f]
        = map (\<lambda>seq. the (payload (stored_frame a stid seq))) [1..<Suc f]"
      by (rule map_cong [OF refl]) (simp only: rest)
    have "?part 0 (stored_frame a stid 0) \<noteq> None"
      using True unfolding upt by simp
    then have "the (?part 0 (stored_frame a stid 0))
        = with_total_samples (the (codecHeader (the (payload (stored_frame a stid 0))))) (int ?n)"
      by (auto simp: flac_part_def split: option.splits)
    then have "map (\<lambda>seq. the (?part seq (stored_frame a stid seq))) [0..<Suc f]
        = with_total_samples (the (codecHeader (the (payload (stored_frame a stid 0))))) (int ?n)
          # map (\<lambda>seq. the (payload (stored_frame a stid seq))) [1..<Suc f]"
      unfolding upt list.map tail by (rule arg_cong)
    with True all parts show ?thesis by (simp add: call del: upt_Suc)
  next
    case False
    with all parts show ?thesis by (auto simp: call less_Suc_eq_le simp del: upt_Suc)
  qed
qed

definition sample_frame :: "nat \<Rightarrow> chunk_meta" where
  "sample_frame seq = sample_meta\<lparr>cm_seq := seq, cm_sampleCount := 10 * seq\<rparr>"

definition sample_stream :: "nat list \<Rightarrow> archive" where
  "sample_stream seqs = run archive_step empty_archive
     (take 2 sample_events
        @ map (\<lambda>seq. PersistChunk (\<lambda>_. True) (sample_frame seq) [word_of_nat seq]) seqs
        @ [SetFinalSeq ''s'' 1])"

lemma sample_keys: "chunk_blob_key ''t'' ''s'' 0 = ''t/s/0''" "chunk_blob_key ''t'' ''s'' (Suc 0) = ''t/s/1''"
  "chunk_blob_key ''t'' ''s'' 2 = ''t/s/2''"
  by code_simp+

lemma sample_stream_inv: "archive_inv (sample_stream seqs)"
  unfolding sample_stream_def
  by (rule archive_machine.run_guarded [OF archive_inv_empty legal_list_all])
    (simp add: sample_events_def sample_frame_def sample_meta_def list_all_iff)

lemmas sample_stream_eval = sample_stream_def sample_frame_def run_eval sample_keys set_final_seq_def
  update_row_def chunk_rows_def by_key_def gap_ranges_def

definition sample_complete :: archive where
  "sample_complete = sample_stream [0, 1]"

lemma sample_complete_inv: "archive_inv sample_complete"
  by (simp add: sample_complete_def sample_stream_inv)

lemma sample_complete_rows:
  "jm_get (streams (db sample_complete)) ''s''
    = Some \<lparr>st_takeId = ''t'', st_peerId = None, st_header = None, st_finalSeq = Some 1, st_flagged = False\<rparr>"
  "map fst (chunk_rows ''s'' (db sample_complete)) = [0, 1]"
  "gap_ranges ''s'' (db sample_complete) = []"
  "keys_of (chunks (db sample_complete)) = {(''s'', 0), (''s'', 1)}"
  by (simp_all add: sample_complete_def sample_stream_eval keys_of_def)

lemma complete_stream_downloads_witness:
  "\<exists>tail. reconstruct_flac Some Some (\<lambda>_. True) ''s'' False sample_complete = Inr tail"
proof -
  let ?s = "\<lparr>st_takeId = ''t'', st_peerId = None, st_header = None, st_finalSeq = Some 1, st_flagged = False\<rparr>"
  have "length (map fst (chunk_rows ''s'' (db sample_complete))) = 2"
    unfolding sample_complete_rows(2) by simp
  then have "length (chunk_rows ''s'' (db sample_complete)) = 2"
    unfolding length_map .
  then have "ts_complete (stream_status_of (\<lambda>_. []) ''t'' (db sample_complete) ''s'' ?s)"
    by (simp add: status_complete sample_complete_rows compute_holes_def held_def hole_step_def)
  then show ?thesis
    using complete_stream_downloads [OF sample_complete_inv sample_complete_rows(1), where f = 1
        and payload = Some and codecHeader = Some]
    by (simp add: sample_complete_rows(4))
qed

text \<open>The download check counts rows and the summary looks at seqs, so they disagree once a
  chunk past the final seq is held: with chunks 0 and 2 and final seq 1 the summary reports the
  hole at 1, and the download that "refuses when incomplete" is served without it.\<close>

theorem download_skips_hole:
  assumes "payload [0] = Some b" and "codecHeader b = Some h" and "payload [2] = Some b'"
  shows "map (\<lambda>t. (ts_complete t, ts_holes t)) (the (take_summary sha256 ''r'' ''t'' (db (sample_stream [0, 2]))))
     = [(False, [(1, 1)])]
   \<and> reconstruct_flac payload codecHeader (\<lambda>_. True) ''s'' False (sample_stream [0, 2])
     = Inr (with_total_samples h 20 @ b')"
proof -
  have db: "takes (db (sample_stream [0, 2])) = [(''t'', \<lparr>ta_sessionId = ''r'', ta_startedAt = 1,
        ta_stoppedAt = None, ta_wallClockHint = None\<rparr>)]"
    "streams (db (sample_stream [0, 2])) = [(''s'', \<lparr>st_takeId = ''t'', st_peerId = None,
        st_header = None, st_finalSeq = Some 1, st_flagged = False\<rparr>)]"
    by (simp_all add: sample_stream_eval)
  have rows: "chunk_rows ''s'' (db (sample_stream [0, 2]))
      = [(0, chunk_row_of (sample_frame 0)), (2, chunk_row_of (sample_frame 2))]"
    "gap_ranges ''s'' (db (sample_stream [0, 2])) = []"
    by (simp_all add: sample_stream_eval)
  have blobs: "fs_get (\<lambda>_. True) (blobs (sample_stream [0, 2])) ''t/s/0'' = Inr [0]"
    "fs_get (\<lambda>_. True) (blobs (sample_stream [0, 2])) ''t/s/2'' = Inr [2]"
    by (simp_all add: sample_stream_eval fs_get_def)
  have "compute_holes [0, 2] (Some 1) [] = [(1, 1)]"
    by (simp add: compute_holes_def held_def hole_step_def)
  then show ?thesis
    using assms
    by (simp add: take_summary_def stream_status_of_def reconstruct_flac_def db rows Let_def
        flac_part_def chunk_row_of_def sample_frame_def sample_meta_def sample_keys blobs)
qed

lemma download_skips_hole_witness:
  "\<exists>out. reconstruct_flac Some Some (\<lambda>_. True) ''s'' False (sample_stream [0, 2]) = Inr out"
  using download_skips_hole [of Some "[0]" Some "[0]" "[2]"] by auto

end
