(* ===== verification/Rate_Limit.thy ===== *)
theory Rate_Limit
  imports Prelude
begin

text \<open>
  \<open>apps/server/src/ratelimit.ts\<close>: the token bucket behind the signaling flood guard and
  the collab flood guard, and the per-IP limiter of WebSocket joins. Times are the
  millisecond readings of \<open>Date.now()\<close>, token counts are the code's (fractional) numbers,
  both as reals.
\<close>

subsection \<open>TokenBucket\<close>

record token_bucket =
  capacity :: real
  refillPerSec :: real
  tokens :: real
  refilledAt :: real

definition new_bucket :: "real \<Rightarrow> real \<Rightarrow> real \<Rightarrow> token_bucket" where
  "new_bucket cap rate now =
     \<lparr>capacity = cap, refillPerSec = rate, tokens = cap, refilledAt = now\<rparr>"

lemma new_bucket_sel [simp]:
  "capacity (new_bucket cap rate t) = cap" "refillPerSec (new_bucket cap rate t) = rate"
  "tokens (new_bucket cap rate t) = cap" "refilledAt (new_bucket cap rate t) = t"
  by (simp_all add: new_bucket_def)

definition refill :: "token_bucket \<Rightarrow> real \<Rightarrow> token_bucket" where
  "refill b now =
     (let elapsed = max 0 (now - refilledAt b)
      in b\<lparr>tokens := min (capacity b) (tokens b + elapsed / 1000 * refillPerSec b),
           refilledAt := now\<rparr>)"

definition take_token :: "token_bucket \<Rightarrow> real \<Rightarrow> bool \<times> token_bucket" where
  "take_token b now =
     (let b' = refill b now
      in if tokens b' < 1 then (False, b')
         else (True, b'\<lparr>tokens := tokens b' - 1\<rparr>))"

definition is_full :: "token_bucket \<Rightarrow> real \<Rightarrow> bool \<times> token_bucket" where
  "is_full b now = (let b' = refill b now in (capacity b' \<le> tokens b', b'))"

definition bucket_inv :: "token_bucket \<Rightarrow> bool" where
  "bucket_inv b \<longleftrightarrow> 0 \<le> tokens b \<and> tokens b \<le> capacity b \<and> 0 \<le> refillPerSec b"

lemma bucket_frame [simp]:
  "capacity (refill b t) = capacity b" "refillPerSec (refill b t) = refillPerSec b"
  "refilledAt (refill b t) = t"
  "capacity (snd (take_token b t)) = capacity b"
  "refillPerSec (snd (take_token b t)) = refillPerSec b"
  "refilledAt (snd (take_token b t)) = t"
  by (simp_all add: refill_def take_token_def Let_def)

lemma bucket_inv_new [inv_intros]: "0 \<le> cap \<Longrightarrow> 0 \<le> rate \<Longrightarrow> bucket_inv (new_bucket cap rate t)"
  by (simp add: bucket_inv_def)

lemma bucket_inv_refill [inv_intros]: "bucket_inv b \<Longrightarrow> bucket_inv (refill b t)"
  by (auto simp: bucket_inv_def refill_def Let_def)

lemma bucket_inv_take [inv_intros]: "bucket_inv b \<Longrightarrow> bucket_inv (snd (take_token b t))"
  using bucket_inv_refill [of b t] by (auto simp: bucket_inv_def take_token_def Let_def)

lemma bucket_inv_is_full [inv_intros]: "bucket_inv b \<Longrightarrow> bucket_inv (snd (is_full b t))"
  by (simp add: is_full_def Let_def bucket_inv_refill)

interpretation bucket_machine: invariant_machine "\<lambda>b t. snd (take_token b t)" bucket_inv
  by unfold_locales (rule bucket_inv_take)

text \<open>Calls of \<open>take\<close> at the given times, with the answers in order.\<close>

fun take_run :: "token_bucket \<Rightarrow> real list \<Rightarrow> bool list \<times> token_bucket" where
  "take_run b [] = ([], b)"
| "take_run b (t # ts) =
     (let (ok, b') = take_token b t; (oks, b'') = take_run b' ts in (ok # oks, b''))"

definition accepted :: "token_bucket \<Rightarrow> real list \<Rightarrow> nat" where
  "accepted b ts = length (filter id (fst (take_run b ts)))"

lemma snd_take_run: "snd (take_run b ts) = run (\<lambda>b t. snd (take_token b t)) b ts"
  by (induction ts arbitrary: b) (auto simp: split_beta Let_def)

lemma accepted_Nil [simp]: "accepted b [] = 0"
  by (simp add: accepted_def)

lemma accepted_Cons:
  "accepted b (t # ts) = (if fst (take_token b t) then 1 else 0) + accepted (snd (take_token b t)) ts"
  by (simp add: accepted_def split_beta Let_def)

text \<open>One call spends one token and never gains more than the elapsed time refills.\<close>

lemma take_token_budget:
  assumes "refilledAt b \<le> t" "0 \<le> refillPerSec b"
  shows "tokens (snd (take_token b t)) + (if fst (take_token b t) then 1 else 0)
    \<le> tokens b + (t - refilledAt b) / 1000 * refillPerSec b"
  using assms by (auto simp: take_token_def refill_def Let_def)

lemma accepted_budget:
  assumes "bucket_inv b" "sorted (refilledAt b # ts)"
  shows "real (accepted b ts)
    \<le> tokens b + (last (refilledAt b # ts) - refilledAt b) / 1000 * refillPerSec b"
  using assms
proof (induction ts arbitrary: b)
  case Nil
  then show ?case by (simp add: bucket_inv_def)
next
  case (Cons t ts)
  let ?b = "snd (take_token b t)"
  from Cons.prems have le: "refilledAt b \<le> t" and srt: "sorted (t # ts)" by auto
  have "real (accepted ?b ts) \<le> tokens ?b + (last (t # ts) - t) / 1000 * refillPerSec b"
    using Cons.IH [of ?b] Cons.prems(1) srt by (simp add: bucket_inv_take)
  moreover have "tokens ?b + (if fst (take_token b t) then 1 else 0)
      \<le> tokens b + (t - refilledAt b) / 1000 * refillPerSec b"
    using take_token_budget [OF le] Cons.prems(1) by (simp add: bucket_inv_def)
  ultimately have "real (accepted b (t # ts))
      \<le> tokens b + ((last (t # ts) - t) + (t - refilledAt b)) / 1000 * refillPerSec b"
    by (simp add: accepted_Cons field_simps split: if_splits)
  then show ?case by simp
qed

text \<open>C26. The flood guard's promise: however the calls are spaced, a bucket accepts at most its
  burst plus what the elapsed time refills, as long as the clock does not run backwards.
\<close>

theorem accepted_bounded:
  assumes "0 \<le> cap" "0 \<le> rate" "sorted (t0 # ts)"
  shows "real (accepted (new_bucket cap rate t0) ts)
    \<le> cap + (last (t0 # ts) - t0) / 1000 * rate"
  using accepted_budget [of "new_bucket cap rate t0" ts] assms
  by (simp add: bucket_inv_new)

theorem accepted_bounded_witness:
  "real (accepted (new_bucket 2 1 0) [0, 0, 0, 1500]) \<le> 2 + (1500 - 0) / 1000 * 1"
  using accepted_bounded [of 2 1 0 "[0, 0, 0, 1500]"] by simp

subsection \<open>KeyedRateLimiter\<close>

record keyed_limiter =
  buckets :: "(string, token_bucket) jsmap"
  kl_capacity :: real
  kl_refillPerSec :: real

definition new_limiter :: "real \<Rightarrow> real \<Rightarrow> keyed_limiter" where
  "new_limiter cap rate = \<lparr>buckets = [], kl_capacity = cap, kl_refillPerSec = rate\<rparr>"

text \<open>
  \<open>prune\<close> asks every bucket whether it is full (which refills it as a side effect) and
  deletes the full ones.
\<close>

definition prune :: "real \<Rightarrow> (string, token_bucket) jsmap \<Rightarrow> (string, token_bucket) jsmap" where
  "prune now m =
     map (\<lambda>(k, b). (k, snd (is_full b now))) (filter (\<lambda>(k, b). \<not> fst (is_full b now)) m)"

text \<open>The bucket a call uses and the map it then lives in: created (after pruning) when absent.\<close>

definition find_bucket :: "keyed_limiter \<Rightarrow> string \<Rightarrow> real
    \<Rightarrow> token_bucket \<times> (string, token_bucket) jsmap" where
  "find_bucket l key now =
     (case jm_get (buckets l) key of
        Some b \<Rightarrow> (b, buckets l)
      | None \<Rightarrow>
          let m = (if 10000 \<le> length (buckets l) then prune now (buckets l) else buckets l);
              b = new_bucket (kl_capacity l) (kl_refillPerSec l) now
          in (b, jm_set key b m))"

definition allow :: "keyed_limiter \<Rightarrow> string \<Rightarrow> real \<Rightarrow> bool \<times> keyed_limiter" where
  "allow l key now =
     (let (bucket, m) = find_bucket l key now;
          (ok, bucket') = take_token bucket now
      in (ok, l\<lparr>buckets := jm_set key bucket' m\<rparr>))"

fun allow_run :: "keyed_limiter \<Rightarrow> (string \<times> real) list \<Rightarrow> bool list" where
  "allow_run l [] = []"
| "allow_run l ((key, now) # calls) =
     (let (ok, l') = allow l key now in ok # allow_run l' calls)"

text \<open>
  What a key's entry is worth at time \<open>now\<close>: an absent entry counts as a full bucket.
  Pruning keeps this value for every key, and it determines every later answer.
\<close>

definition worth :: "real \<Rightarrow> real \<Rightarrow> real \<Rightarrow> token_bucket option \<Rightarrow> token_bucket" where
  "worth cap rate now e = (case e of None \<Rightarrow> new_bucket cap rate now | Some b \<Rightarrow> refill b now)"

lemma refill_refill:
  assumes "refilledAt b \<le> s" "s \<le> t" "0 \<le> refillPerSec b"
  shows "refill (refill b s) t = refill b t"
proof -
  let ?r = "refillPerSec b / 1000"
  have "0 \<le> (t - s) * ?r" using assms by simp
  moreover have "(t - refilledAt b) * ?r = (s - refilledAt b) * ?r + (t - s) * ?r"
    by (simp add: field_simps)
  ultimately have "min (capacity b) (min (capacity b) (tokens b + (s - refilledAt b) * ?r) + (t - s) * ?r)
      = min (capacity b) (tokens b + (t - refilledAt b) * ?r)"
    by linarith
  then show ?thesis
    using assms by (simp add: refill_def Let_def max_def)
qed

lemma take_token_refill: "refilledAt b \<le> t \<Longrightarrow> 0 \<le> refillPerSec b \<Longrightarrow>
    take_token (refill b t) t = take_token b t"
  by (simp add: take_token_def refill_refill)

lemma refill_new_bucket: "0 \<le> rate \<Longrightarrow> refill (new_bucket cap rate s) t = new_bucket cap rate t"
  by (simp add: refill_def Let_def new_bucket_def)

definition entry_ok :: "real \<Rightarrow> real \<Rightarrow> real \<Rightarrow> token_bucket option \<Rightarrow> bool" where
  "entry_ok cap rate now e \<longleftrightarrow>
     (\<forall>b. e = Some b \<longrightarrow> capacity b = cap \<and> refillPerSec b = rate \<and> refilledAt b \<le> now)"

lemma worth_later:
  "entry_ok cap rate s e \<Longrightarrow> s \<le> t \<Longrightarrow> 0 \<le> rate \<Longrightarrow> worth cap rate t e = refill (worth cap rate s e) t"
  by (auto simp: worth_def entry_ok_def refill_refill refill_new_bucket split: option.splits)

lemma full_bucket_worth:
  assumes "entry_ok cap rate t (Some b)" "fst (is_full b t)"
  shows "refill b t = new_bucket cap rate t"
  using assms by (auto simp: entry_ok_def is_full_def refill_def new_bucket_def Let_def)

lemma jm_get_prune:
  "jm_wf m \<Longrightarrow> jm_get (prune t m) k
    = (case jm_get m k of None \<Rightarrow> None
       | Some b \<Rightarrow> if fst (is_full b t) then None else Some (refill b t))"
  by (induction m) (auto simp: prune_def jm_wf_def is_full_def Let_def map_of_eq_None_iff
      image_iff split: option.splits)

lemma keys_prune: "map fst (prune t m) = map fst (filter (\<lambda>(k, b). \<not> fst (is_full b t)) m)"
  by (simp add: prune_def comp_def split_beta)

lemma jm_wf_prune [simp]: "jm_wf m \<Longrightarrow> jm_wf (prune t m)"
  unfolding jm_wf_def keys_prune by (rule distinct_map_filter)

lemma worth_prune:
  assumes "jm_wf m" "entry_ok cap rate t (jm_get m k)" "0 \<le> rate"
  shows "worth cap rate t (jm_get (prune t m) k) = worth cap rate t (jm_get m k)"
    and "entry_ok cap rate t (jm_get (prune t m) k)"
proof -
  have "worth cap rate t (jm_get (prune t m) k) = worth cap rate t (jm_get m k)
    \<and> entry_ok cap rate t (jm_get (prune t m) k)"
  proof (cases "jm_get m k")
    case None
    with assms(1) show ?thesis by (simp add: jm_get_prune worth_def entry_ok_def)
  next
    case (Some b)
    with assms(2) have e: "entry_ok cap rate t (Some b)" by simp
    show ?thesis
    proof (cases "fst (is_full b t)")
      case True
      with full_bucket_worth [OF e] assms(1) Some show ?thesis
        by (simp add: jm_get_prune worth_def entry_ok_def)
    next
      case False
      with e assms(1,3) Some show ?thesis
        by (simp add: jm_get_prune worth_def entry_ok_def refill_refill)
    qed
  qed
  then show "worth cap rate t (jm_get (prune t m) k) = worth cap rate t (jm_get m k)"
    and "entry_ok cap rate t (jm_get (prune t m) k)" by simp_all
qed

text \<open>The abstract limiter: one private bucket per key, nothing ever pruned.\<close>

definition limiter_abs :: "keyed_limiter \<Rightarrow> real \<Rightarrow> string \<Rightarrow> token_bucket" where
  "limiter_abs l now k = worth (kl_capacity l) (kl_refillPerSec l) now (jm_get (buckets l) k)"

definition limiter_inv :: "keyed_limiter \<Rightarrow> real \<Rightarrow> bool" where
  "limiter_inv l now \<longleftrightarrow> jm_wf (buckets l) \<and> 0 \<le> kl_refillPerSec l \<and>
     (\<forall>k. entry_ok (kl_capacity l) (kl_refillPerSec l) now (jm_get (buckets l) k))"

lemma limiter_inv_new: "0 \<le> rate \<Longrightarrow> limiter_inv (new_limiter cap rate) t"
  by (simp add: limiter_inv_def new_limiter_def entry_ok_def)

lemma limiter_abs_new: "limiter_abs (new_limiter cap rate) t k = new_bucket cap rate t"
  by (simp add: limiter_abs_def new_limiter_def worth_def)

lemma limiter_inv_later: "limiter_inv l s \<Longrightarrow> s \<le> t \<Longrightarrow> limiter_inv l t"
  by (fastforce simp: limiter_inv_def entry_ok_def)

lemma limiter_abs_later:
  "limiter_inv l s \<Longrightarrow> s \<le> t \<Longrightarrow> limiter_abs l t k = refill (limiter_abs l s k) t"
  unfolding limiter_abs_def by (rule worth_later) (auto simp: limiter_inv_def)

lemma take_token_worth:
  assumes "entry_ok cap rate t (Some b)" "0 \<le> rate"
  shows "take_token (worth cap rate t (Some b)) t = take_token b t"
  using assms by (simp add: worth_def entry_ok_def take_token_refill)

lemma refill_take_token: "0 \<le> refillPerSec b \<Longrightarrow> bucket_inv b \<Longrightarrow>
    refill (snd (take_token b t)) t = snd (take_token b t)"
  using bucket_inv_take [of b t] by (auto simp: refill_def bucket_inv_def Let_def)

text \<open>
  One call of \<open>allow\<close> is one \<open>take\<close> on the key's private bucket and leaves every other
  key's bucket alone: pruning cannot be observed.
\<close>

lemma allow_prune_worth:
  assumes "limiter_inv l t"
  defines "m \<equiv> if 10000 \<le> length (buckets l) then prune t (buckets l) else buckets l"
  shows "jm_wf m"
    and "worth (kl_capacity l) (kl_refillPerSec l) t (jm_get m k) = limiter_abs l t k"
    and "entry_ok (kl_capacity l) (kl_refillPerSec l) t (jm_get m k)"
  using assms by (simp_all add: limiter_inv_def limiter_abs_def worth_prune)

lemma find_bucket_worth:
  fixes l :: keyed_limiter and key k :: string and t :: real
  assumes inv: "limiter_inv l t"
  defines "m \<equiv> snd (find_bucket l key t)" and "b \<equiv> fst (find_bucket l key t)"
  shows "jm_wf m"
    and "k \<noteq> key \<Longrightarrow> worth (kl_capacity l) (kl_refillPerSec l) t (jm_get m k) = limiter_abs l t k"
    and "k \<noteq> key \<Longrightarrow> entry_ok (kl_capacity l) (kl_refillPerSec l) t (jm_get m k)"
    and "entry_ok (kl_capacity l) (kl_refillPerSec l) t (Some b)"
    and "worth (kl_capacity l) (kl_refillPerSec l) t (Some b) = limiter_abs l t key"
proof -
  from inv have r: "0 \<le> kl_refillPerSec l" by (simp add: limiter_inv_def)
  note p = allow_prune_worth [OF inv]
  have "jm_wf m \<and> (k \<noteq> key \<longrightarrow> worth (kl_capacity l) (kl_refillPerSec l) t (jm_get m k) = limiter_abs l t k
        \<and> entry_ok (kl_capacity l) (kl_refillPerSec l) t (jm_get m k))
      \<and> entry_ok (kl_capacity l) (kl_refillPerSec l) t (Some b)
      \<and> worth (kl_capacity l) (kl_refillPerSec l) t (Some b) = limiter_abs l t key"
  proof (cases "jm_get (buckets l) key")
    case None
    then have "m = jm_set key b (if 10000 \<le> length (buckets l) then prune t (buckets l) else buckets l)"
      and b: "b = new_bucket (kl_capacity l) (kl_refillPerSec l) t"
      by (simp_all add: m_def b_def find_bucket_def Let_def)
    moreover have "limiter_abs l t key = b"
      using None b by (simp add: limiter_abs_def worth_def)
    ultimately show ?thesis
      using p r by (simp add: jm_get_set entry_ok_def worth_def refill_new_bucket)
  next
    case (Some b')
    then have "m = buckets l" "b = b'" by (simp_all add: m_def b_def find_bucket_def)
    with Some inv show ?thesis by (simp add: limiter_inv_def limiter_abs_def) (metis)
  qed
  then show "jm_wf m"
    and "k \<noteq> key \<Longrightarrow> worth (kl_capacity l) (kl_refillPerSec l) t (jm_get m k) = limiter_abs l t k"
    and "k \<noteq> key \<Longrightarrow> entry_ok (kl_capacity l) (kl_refillPerSec l) t (jm_get m k)"
    and "entry_ok (kl_capacity l) (kl_refillPerSec l) t (Some b)"
    and "worth (kl_capacity l) (kl_refillPerSec l) t (Some b) = limiter_abs l t key" by blast+
qed

lemma refill_after_take:
  assumes "entry_ok cap rate t (Some b)"
  shows "refill (snd (take_token b t)) t = snd (take_token b t)"
    and "entry_ok cap rate t (Some (snd (take_token b t)))"
proof -
  have "tokens (snd (take_token b t)) \<le> capacity b"
    by (auto simp: take_token_def refill_def Let_def)
  then show "refill (snd (take_token b t)) t = snd (take_token b t)"
    by (simp add: refill_def [of "snd (take_token b t)"] Let_def)
  show "entry_ok cap rate t (Some (snd (take_token b t)))"
    using assms by (simp add: entry_ok_def)
qed

lemma allow_step:
  assumes inv: "limiter_inv l t"
  shows "fst (allow l key t) = fst (take_token (limiter_abs l t key) t)"
    and "limiter_abs (snd (allow l key t)) t k
      = (if k = key then snd (take_token (limiter_abs l t key) t) else limiter_abs l t k)"
    and "limiter_inv (snd (allow l key t)) t"
proof -
  let ?c = "kl_capacity l" and ?r = "kl_refillPerSec l"
  define b m where "b = fst (find_bucket l key t)" and "m = snd (find_bucket l key t)"
  have r: "0 \<le> ?r" using inv by (simp add: limiter_inv_def)
  have allow: "allow l key t
      = (fst (take_token b t), l\<lparr>buckets := jm_set key (snd (take_token b t)) m\<rparr>)"
    by (simp add: allow_def b_def m_def split_beta Let_def)
  note w = find_bucket_worth [OF inv, where key = key, folded b_def m_def]
  have tk: "take_token (limiter_abs l t key) t = take_token b t"
    using take_token_worth [OF w(4) r] w(5) by simp
  show "fst (allow l key t) = fst (take_token (limiter_abs l t key) t)"
    by (simp add: allow tk)
  show "limiter_abs (snd (allow l key t)) t k
      = (if k = key then snd (take_token (limiter_abs l t key) t) else limiter_abs l t k)"
  proof (cases "k = key")
    case True
    have "limiter_abs (snd (allow l key t)) t key = snd (take_token b t)"
      using refill_after_take(1) [OF w(4)] by (simp add: limiter_abs_def allow jm_get_set worth_def)
    with True tk show ?thesis by simp
  next
    case False
    then show ?thesis
      using w(2) by (simp add: limiter_abs_def allow jm_get_set)
  qed
  show "limiter_inv (snd (allow l key t)) t"
    using w(1,3) refill_after_take(2) [OF w(4)] r by (simp add: limiter_inv_def allow jm_get_set)
qed

text \<open>The answers the calls for \<open>key\<close> get, and the times of those calls.\<close>

definition answers_for :: "string \<Rightarrow> (string \<times> real) list \<Rightarrow> bool list \<Rightarrow> bool list" where
  "answers_for key calls oks = map snd (filter (\<lambda>(c, _). fst c = key) (zip calls oks))"

definition times_for :: "string \<Rightarrow> (string \<times> real) list \<Rightarrow> real list" where
  "times_for key calls = map snd (filter (\<lambda>c. fst c = key) calls)"

lemma answers_for_Cons: "answers_for key (c # calls) (ok # oks)
    = (if fst c = key then ok # answers_for key calls oks else answers_for key calls oks)"
  by (simp add: answers_for_def)

lemma times_for_Cons: "times_for key (c # calls)
    = (if fst c = key then snd c # times_for key calls else times_for key calls)"
  by (simp add: times_for_def)

lemma times_for_ge: "\<forall>c \<in> set calls. t \<le> snd c \<Longrightarrow> \<forall>u \<in> set (times_for key calls). t \<le> u"
  by (auto simp: times_for_def)

lemma take_run_refill:
  assumes "refilledAt b \<le> t" "0 \<le> refillPerSec b" "\<forall>u \<in> set ts. t \<le> u"
  shows "fst (take_run (refill b t) ts) = fst (take_run b ts)"
proof (cases ts)
  case (Cons u us)
  with assms have "take_token (refill b t) u = take_token b u"
    by (simp add: take_token_def refill_refill)
  with Cons show ?thesis by (simp add: split_beta Let_def)
qed simp

lemma allow_run_private:
  assumes "limiter_inv l t" "sorted (t # map snd calls)"
  shows "answers_for key calls (allow_run l calls)
    = fst (take_run (limiter_abs l t key) (times_for key calls))"
  using assms
proof (induction calls arbitrary: l t)
  case Nil
  then show ?case by (simp add: answers_for_def times_for_def)
next
  case (Cons c calls)
  obtain k u where c: "c = (k, u)" by fastforce
  let ?l = "snd (allow l k u)"
  from Cons.prems have tu: "t \<le> u" and srt: "sorted (u # map snd calls)"
    by (auto simp: c)
  have inv: "limiter_inv l u" using limiter_inv_later [OF Cons.prems(1) tu] .
  note st = allow_step [OF inv, of k]
  have IH: "answers_for key calls (allow_run ?l calls)
      = fst (take_run (limiter_abs ?l u key) (times_for key calls))"
    by (rule Cons.IH [OF st(3) srt])
  have at_u: "limiter_abs l u key = refill (limiter_abs l t key) u"
    by (rule limiter_abs_later [OF Cons.prems(1) tu])
  have b: "refilledAt (limiter_abs l t key) \<le> u" "0 \<le> refillPerSec (limiter_abs l t key)"
    using Cons.prems(1) tu
    by (auto simp: limiter_abs_def limiter_inv_def worth_def entry_ok_def split: option.splits)
  have go: "allow_run l ((k, u) # calls) = fst (allow l k u) # allow_run ?l calls"
    by (simp add: c split_beta Let_def)
  show ?case
  proof (cases "k = key")
    case True
    have "take_token (limiter_abs l t key) u = take_token (limiter_abs l u key) u"
      using b by (simp add: at_u take_token_refill)
    with True IH st show ?thesis
      by (simp add: go answers_for_Cons times_for_Cons c split_beta Let_def)
  next
    case False
    have "\<forall>v \<in> set (times_for key calls). u \<le> v"
      using srt by (intro times_for_ge) auto
    then have "fst (take_run (limiter_abs l u key) (times_for key calls))
        = fst (take_run (limiter_abs l t key) (times_for key calls))"
      using take_run_refill [OF b] by (simp add: at_u)
    moreover have "limiter_abs ?l u key = limiter_abs l u key"
      using False st(2) by simp
    ultimately show ?thesis
      using False IH by (simp add: go answers_for_Cons times_for_Cons c del: allow_run.simps)
  qed
qed

text \<open>C10. Per-IP isolation: for calls whose clock readings never go back, whatever the other keys do and however often
  the map is pruned, the calls for a key are answered exactly as by a bucket of its own that is never dropped. The
  refill rate is not negative. The code reads the wall clock, which can be set back; then a bucket that is
  pruned can answer otherwise.\<close>

theorem keyed_private_bucket:
  assumes "0 \<le> rate" "sorted (t0 # map snd calls)"
  shows "answers_for key calls (allow_run (new_limiter cap rate) calls)
    = fst (take_run (new_bucket cap rate t0) (times_for key calls))"
  using allow_run_private [OF limiter_inv_new assms(2)] assms(1) by (simp add: limiter_abs_new)

theorem keyed_private_bucket_witness:
  "answers_for ''a'' [(''a'', 0), (''b'', 0), (''a'', 0), (''a'', 2000)]
     (allow_run (new_limiter 1 1) [(''a'', 0), (''b'', 0), (''a'', 0), (''a'', 2000)])
   = [True, False, True]"
  using keyed_private_bucket [of 1 0 "[(''a'', 0), (''b'', 0), (''a'', 0), (''a'', 2000)]" "''a''" 1]
  by (simp add: times_for_def Let_def take_token_def refill_def new_bucket_def)

end
