(* ===== verification/Signaling.thy ===== *)
theory Signaling
  imports Archive_Read Rate_Limit
begin

text \<open>
  \<open>apps/server/src/signaling/room.ts\<close>, \<open>hello.ts\<close>, \<open>handlers.ts\<close>: one session's room. A
  WebSocket is a number; what a handler does to the outside (frames sent, sockets closed,
  calls into ingest and the archive) is the list of effects it returns, in order. A hello is
  split where it awaits the archive, so that other handlers can run in between.
\<close>

subsection \<open>State\<close>

record room_peer =
  rp_peerId :: string
  rp_role :: peer_role
  rp_deviceInfo :: device_info
  rp_joinedAt :: int
  rp_epoch :: nat
  rp_ws :: nat

record device_record =
  dv_peerId :: string
  dv_label :: "string option"
  dv_avatarUrl :: "string option"
  dv_joinedAt :: int

record room =
  rm_sessionId :: string
  rm_peers :: "(string, room_peer) jsmap"
  rm_devices :: "(string, device_record) jsmap"
  rm_activeTake :: "take_info option"

record conn_state =
  cn_sessionId :: string
  cn_pathRole :: peer_role
  cn_peerId :: "string option"
  cn_epoch :: nat

record signaling_limits =
  msgRatePerSec :: real
  msgBurst :: real
  maxPeersPerSession :: nat
  maxActiveSessions :: nat

definition default_limits :: signaling_limits where
  "default_limits =
     \<lparr>msgRatePerSec = 100, msgBurst = 200, maxPeersPerSession = 32, maxActiveSessions = 200\<rparr>"

datatype effect =
    Send nat signaling_message
  | CloseSocket nat
  | EnsureSessionRow string
  | UpsertPeerRow string peer_row
  | TouchSessionRow string
  | UpdateLabelRow string "string option"
  | RecordChirpRow string string real chirp_spec
  | IngestOffer string string
  | IngestCandidate string string string
  | IngestNoteTake string int
  | IngestNoteTakeStop string
  | IngestNoteStream string string string
  | IngestFinalSeq string string nat
  | IngestDeleteStreams "stream_ref list"
  | IngestClosePeer string

subsection \<open>Strings\<close>

text \<open>\<open>x?.trim() || fallback\<close>: the trimmed value when it is a non-empty string.\<close>

definition trim_or :: "string option \<Rightarrow> string option \<Rightarrow> string option" where
  "trim_or x fallback =
     (case x of None \<Rightarrow> fallback
      | Some s \<Rightarrow> if js_trim s = [] then fallback else Some (js_trim s))"

text \<open>\<open>x ? x : undefined\<close>: empty strings are falsy.\<close>

definition truthy :: "string option \<Rightarrow> string option" where
  "truthy x = (case x of Some [] \<Rightarrow> None | _ \<Rightarrow> x)"

fun role_name :: "peer_role \<Rightarrow> string" where
  "role_name Desk = ''desk''"
| "role_name Recorder = ''recorder''"

definition device_key :: "peer_role \<Rightarrow> string \<Rightarrow> string" where
  "device_key role did = role_name role @ '':'' @ did"

subsection \<open>Room helpers\<close>

definition create_room :: "string \<Rightarrow> (string \<times> peer_row) list \<Rightarrow> room" where
  "create_room sid rows =
     \<lparr>rm_sessionId = sid, rm_peers = [],
      rm_devices = foldl (\<lambda>m (pid, row).
         case truthy (pe_deviceId row) of
           None \<Rightarrow> m
         | Some did \<Rightarrow> jm_set (device_key (pe_role row) did)
             \<lparr>dv_peerId = pid, dv_label = pe_label row, dv_avatarUrl = pe_avatarUrl row,
              dv_joinedAt = pe_joinedAt row\<rparr> m) [] rows,
      rm_activeTake = None\<rparr>"

definition session_state_of :: "room \<Rightarrow> session_state" where
  "session_state_of room =
     \<lparr>ss_sessionId = rm_sessionId room,
      ss_peers = map (\<lambda>p. \<lparr>pi_peerId = rp_peerId p, pi_role = rp_role p,
                          pi_deviceInfo = rp_deviceInfo p, pi_joinedAt = rp_joinedAt p\<rparr>)
                   (jm_values (rm_peers room)),
      ss_activeTake = rm_activeTake room\<rparr>"

definition send_to :: "room \<Rightarrow> string \<Rightarrow> signaling_message \<Rightarrow> effect list" where
  "send_to room pid msg =
     (case jm_get (rm_peers room) pid of None \<Rightarrow> [] | Some p \<Rightarrow> [Send (rp_ws p) msg])"

definition fanout :: "room \<Rightarrow> signaling_message \<Rightarrow> effect list" where
  "fanout room msg = map (\<lambda>p. Send (rp_ws p) msg) (jm_values (rm_peers room))"

definition fanout_peer_status :: "room \<Rightarrow> effect list" where
  "fanout_peer_status room = fanout room (PeerStatus (session_state_of room))"

definition leave :: "conn_state \<Rightarrow> room \<Rightarrow> conn_state \<times> room \<times> effect list" where
  "leave conn room =
     (case cn_peerId conn of
        None \<Rightarrow> (conn, room, [])
      | Some pid \<Rightarrow>
          (case jm_get (rm_peers room) pid of
             Some p \<Rightarrow>
               if rp_epoch p = cn_epoch conn
               then let room' = room\<lparr>rm_peers := jm_delete pid (rm_peers room)\<rparr>
                    in (conn\<lparr>cn_peerId := None\<rparr>, room', IngestClosePeer pid # fanout_peer_status room')
               else (conn\<lparr>cn_peerId := None\<rparr>, room, [])
           | None \<Rightarrow> (conn\<lparr>cn_peerId := None\<rparr>, room, [])))"

definition fatal :: "nat \<Rightarrow> string \<Rightarrow> effect list" where
  "fatal ws code = [Send ws (ErrorMsg code [] True), CloseSocket ws]"

subsection \<open>Hello\<close>

record hello_msg =
  h_role :: peer_role
  h_device :: device_info
  h_versions :: "nat list"

text \<open>Up to the first await: refusals, or the agreed version.\<close>

definition hello_check ::
    "signaling_limits \<Rightarrow> nat \<Rightarrow> conn_state \<Rightarrow> nat \<Rightarrow> room \<Rightarrow> hello_msg \<Rightarrow> effect list + nat" where
  "hello_check limits activeSessions conn ws room msg =
     (case negotiate_version (h_versions msg) of
        None \<Rightarrow> Inl (fatal ws ''version-mismatch'')
      | Some version \<Rightarrow>
          if h_role msg \<noteq> cn_pathRole conn then Inl (fatal ws ''role-mismatch'')
          else
            let resumed = (case truthy (deviceId (h_device msg)) of None \<Rightarrow> None
                  | Some did \<Rightarrow> map_option dv_peerId
                      (jm_get (rm_devices room) (device_key (h_role msg) did)));
                supersedesZombie = (case resumed of None \<Rightarrow> False | Some pid \<Rightarrow> jm_has (rm_peers room) pid);
                occupancy = int (length (rm_peers room)) - (if supersedesZombie then 1 else 0)
            in if occupancy \<ge> int (maxPeersPerSession limits) then Inl (fatal ws ''session-full'')
               else if length (rm_peers room) = 0 \<and> activeSessions \<ge> maxActiveSessions limits
               then Inl (fatal ws ''server-full'')
               else Inr version)"

text \<open>
  Between the awaits: identity resume, zombie replacement, the new entry. \<open>uuid\<close> is the value
  \<open>crypto.randomUUID()\<close> would return, \<open>now\<close> the clock, \<open>epoch\<close> the next generation.
\<close>

definition hello_join ::
    "string \<Rightarrow> int \<Rightarrow> nat \<Rightarrow> conn_state \<Rightarrow> nat \<Rightarrow> room \<Rightarrow> hello_msg \<Rightarrow> conn_state \<times> room \<times> effect list" where
  "hello_join uuid now epoch conn ws room msg =
     (let did = truthy (deviceId (h_device msg));
          known = (case did of None \<Rightarrow> None
             | Some d \<Rightarrow> jm_get (rm_devices room) (device_key (h_role msg) d));
          pid = (case known of None \<Rightarrow> uuid | Some k \<Rightarrow> dv_peerId k);
          zombieOut = (case jm_get (rm_peers room) pid of None \<Rightarrow> []
             | Some z \<Rightarrow> fatal (rp_ws z) ''superseded'');
          peers = jm_delete pid (rm_peers room);
          lbl = trim_or (label (h_device msg)) (case known of None \<Rightarrow> None | Some k \<Rightarrow> dv_label k);
          avatar = trim_or (avatarUrl (h_device msg)) (case known of None \<Rightarrow> None | Some k \<Rightarrow> dv_avatarUrl k);
          joined = (case known of None \<Rightarrow> now | Some k \<Rightarrow> dv_joinedAt k);
          info = \<lparr>userAgent = userAgent (h_device msg), label = truthy lbl, deviceId = did,
                  avatarUrl = truthy avatar\<rparr>;
          entry = \<lparr>rp_peerId = pid, rp_role = h_role msg, rp_deviceInfo = info, rp_joinedAt = joined,
                   rp_epoch = epoch, rp_ws = ws\<rparr>;
          devices = (case did of None \<Rightarrow> rm_devices room
             | Some d \<Rightarrow> jm_set (device_key (h_role msg) d)
                 \<lparr>dv_peerId = pid, dv_label = lbl, dv_avatarUrl = avatar, dv_joinedAt = joined\<rparr>
                 (rm_devices room))
      in (conn\<lparr>cn_peerId := Some pid, cn_epoch := epoch\<rparr>,
          room\<lparr>rm_peers := jm_set pid entry peers, rm_devices := devices\<rparr>,
          zombieOut @ [UpsertPeerRow pid
            \<lparr>pe_sessionId = cn_sessionId conn, pe_role = h_role msg, pe_userAgent = userAgent (h_device msg),
             pe_label = lbl, pe_deviceId = did, pe_avatarUrl = avatar, pe_joinedAt = joined\<rparr>,
             TouchSessionRow (rm_sessionId room)]))"

text \<open>After the last await: welcome and fan-out.\<close>

definition hello_welcome :: "nat \<Rightarrow> conn_state \<Rightarrow> nat \<Rightarrow> room \<Rightarrow> effect list" where
  "hello_welcome version conn ws room =
     Send ws (Welcome (case cn_peerId conn of None \<Rightarrow> [] | Some p \<Rightarrow> p) version (session_state_of room))
       # fanout_peer_status room"

text \<open>The handler run to its end with no other handler in between and a working archive.\<close>

definition handle_hello ::
    "signaling_limits \<Rightarrow> nat \<Rightarrow> string \<Rightarrow> int \<Rightarrow> nat \<Rightarrow> conn_state \<Rightarrow> nat \<Rightarrow> room \<Rightarrow> hello_msg
      \<Rightarrow> conn_state \<times> room \<times> nat \<times> effect list" where
  "handle_hello limits activeSessions uuid now epochs conn ws room msg =
     (case hello_check limits activeSessions conn ws room msg of
        Inl out \<Rightarrow> (conn, room, epochs, out)
      | Inr version \<Rightarrow>
          let (conn', room', out) = hello_join uuid now (Suc epochs) conn ws room msg
          in (conn', room', Suc epochs, EnsureSessionRow (cn_sessionId conn) # out
                @ hello_welcome version conn' ws room'))"

subsection \<open>Dispatch after hello\<close>

definition not_fatal :: "nat \<Rightarrow> string \<Rightarrow> effect list" where
  "not_fatal ws code = [Send ws (ErrorMsg code [] False)]"

text \<open>What ingest answers to the calls a handler waits for.\<close>

record ingest_answers =
  ia_offer :: "string + string"
  ia_delete :: "string + string list"

text \<open>
  Every branch of the switch. \<open>now\<close> is the clock. The tail of a handler after an await runs
  directly after it here.
\<close>

fun dispatch_message ::
    "ingest_answers \<Rightarrow> int \<Rightarrow> room \<Rightarrow> conn_state \<Rightarrow> nat \<Rightarrow> room_peer \<Rightarrow> signaling_message
      \<Rightarrow> conn_state \<times> room \<times> effect list" where
  "dispatch_message ans now room conn ws from (IceOffer target _ sdp) =
     (if target \<noteq> server_peer_id
      then (conn, room, send_to room target (IceOffer target (Some (rp_peerId from)) sdp))
      else (conn, room, IngestOffer (rp_peerId from) sdp #
        (case ia_offer ans of
           Inl e \<Rightarrow> not_fatal ws ''ingest-offer-failed''
         | Inr answer \<Rightarrow> send_to room (rp_peerId from)
             (IceAnswer (rp_peerId from) (Some server_peer_id) answer))))"
| "dispatch_message ans now room conn ws from (IceAnswer target _ sdp) =
     (conn, room, if target \<noteq> server_peer_id
        then send_to room target (IceAnswer target (Some (rp_peerId from)) sdp) else [])"
| "dispatch_message ans now room conn ws from (IceCandidate target _ cand) =
     (conn, room,
      if target \<noteq> server_peer_id
      then send_to room target (IceCandidate target (Some (rp_peerId from)) cand)
      else (case cand of None \<Rightarrow> []
            | Some c \<Rightarrow> [IngestCandidate (rp_peerId from) (ic_candidate c)
                 (case ic_sdpMid c of None \<Rightarrow> ''0'' | Some m \<Rightarrow> m)]))"
| "dispatch_message ans now room conn ws from (TakeStart tid hint disarmed) =
     (if rp_role from \<noteq> Desk then (conn, room, not_fatal ws ''not-desk'')
      else let room' = room\<lparr>rm_activeTake := Some
                 \<lparr>ti_takeId = tid, ti_startedAt = now, ti_stoppedAt = None,
                  ti_disarmedPeerIds = (case disarmed of Some (p # ps) \<Rightarrow> disarmed | _ \<Rightarrow> None)\<rparr>\<rparr>
           in (conn, room', [IngestNoteTake tid hint, TouchSessionRow (rm_sessionId room)]
                 @ fanout room' (TakeStart tid hint disarmed)))"
| "dispatch_message ans now room conn ws from (TakeStop tid) =
     (if rp_role from \<noteq> Desk then (conn, room, not_fatal ws ''not-desk'')
      else let room' = (if map_option ti_takeId (rm_activeTake room) = Some tid
                        then room\<lparr>rm_activeTake := None\<rparr> else room)
           in (conn, room', [IngestNoteTakeStop tid, TouchSessionRow (rm_sessionId room)]
                 @ fanout room' (TakeStop tid)))"
| "dispatch_message ans now room conn ws from (StreamAnnounce tid stid _) =
     (conn, room, IngestNoteStream tid stid (rp_peerId from)
        # fanout room (StreamAnnounce tid stid (Some (rp_peerId from))))"
| "dispatch_message ans now room conn ws from (StreamFinal tid stid n _) =
     (conn, room, IngestFinalSeq tid stid n
        # fanout room (StreamFinal tid stid n (Some (rp_peerId from))))"
| "dispatch_message ans now room conn ws from (StreamsDelete refs) =
     (if rp_role from \<noteq> Desk then (conn, room, not_fatal ws ''not-desk'')
      else if \<exists>r \<in> set refs. Some (sr_takeId r) = map_option ti_takeId (rm_activeTake room)
      then (conn, room, not_fatal ws ''take-active'')
      else (conn, room, IngestDeleteStreams refs #
        (case ia_delete ans of
           Inl e \<Rightarrow> not_fatal ws ''delete-failed''
         | Inr deleted \<Rightarrow> fanout room (StreamsDeleted refs deleted))))"
| "dispatch_message ans now room conn ws from (CalibrationChirp cid ts spec) =
     (if rp_role from \<noteq> Desk then (conn, room, not_fatal ws ''not-desk'')
      else (conn, room, RecordChirpRow (rm_sessionId room) cid ts spec
             # fanout room (CalibrationChirp cid ts spec)))"
| "dispatch_message ans now room conn ws from (PeerUpdate pid lbl) =
     (if rp_role from \<noteq> Desk \<and> pid \<noteq> rp_peerId from then (conn, room, not_fatal ws ''not-authorized'')
      else
        let l = truthy (Some (js_trim lbl));
            target = jm_get (rm_peers room) pid;
            device = find (\<lambda>(_, d). dv_peerId d = pid) (rm_devices room)
        in if target = None \<and> device = None then (conn, room, not_fatal ws ''unknown-peer'')
           else
             let peers = (case target of None \<Rightarrow> rm_peers room
                   | Some p \<Rightarrow> jm_set pid (p\<lparr>rp_deviceInfo := (rp_deviceInfo p)\<lparr>label := l\<rparr>\<rparr>) (rm_peers room));
                 devices = (case device of None \<Rightarrow> rm_devices room
                   | Some (k, d) \<Rightarrow> jm_set k (d\<lparr>dv_label := l\<rparr>) (rm_devices room));
                 room' = room\<lparr>rm_peers := peers, rm_devices := devices\<rparr>
             in (conn, room', UpdateLabelRow pid l
                   # fanout room' (PeerUpdate pid (case l of None \<Rightarrow> [] | Some x \<Rightarrow> x))
                   @ fanout_peer_status room'))"
| "dispatch_message ans now room conn ws from Bye = leave conn room"
| "dispatch_message ans now room conn ws from _ = (conn, room, [])"

subsection \<open>Authority\<close>

definition desk_only :: "signaling_message \<Rightarrow> bool" where
  "desk_only m = (case m of TakeStart _ _ _ \<Rightarrow> True | TakeStop _ \<Rightarrow> True | StreamsDelete _ \<Rightarrow> True
     | CalibrationChirp _ _ _ \<Rightarrow> True | _ \<Rightarrow> False)"

text \<open>The effects that reach outside the room's sockets.\<close>

fun is_frame :: "effect \<Rightarrow> bool" where
  "is_frame (Send _ _) \<longleftrightarrow> True"
| "is_frame (CloseSocket _) \<longleftrightarrow> True"
| "is_frame _ \<longleftrightarrow> False"

text \<open>A phone cannot run the session: whatever desk-only message a recorder sends, the room
  and the connection stay as they are, nothing reaches ingest, the archive or another peer, and
  the sender alone is told \<open>not-desk\<close>.\<close>

theorem recorder_has_no_desk_authority:
  assumes "rp_role from = Recorder" and "desk_only msg"
  shows "dispatch_message ans now room conn ws from msg
    = (conn, room, [Send ws (ErrorMsg ''not-desk'' [] False)])"
  using assms by (cases msg) (simp_all add: desk_only_def not_fatal_def)

definition sample_peer :: "peer_role \<Rightarrow> room_peer" where
  "sample_peer role = \<lparr>rp_peerId = ''p'', rp_role = role,
     rp_deviceInfo = \<lparr>userAgent = ''ua'', label = None, deviceId = None, avatarUrl = None\<rparr>,
     rp_joinedAt = 0, rp_epoch = 1, rp_ws = 7\<rparr>"

lemma recorder_has_no_desk_authority_witness:
  "\<forall>ans now room conn. dispatch_message ans now room conn 7 (sample_peer Recorder) (TakeStop ''t'')
    = (conn, room, [Send 7 (ErrorMsg ''not-desk'' [] False)])"
  by (intro allI, rule recorder_has_no_desk_authority) (simp_all add: sample_peer_def desk_only_def)

text \<open>The sender stamped on what a peer makes the server send to others.\<close>

fun stamped_from :: "signaling_message \<Rightarrow> string option" where
  "stamped_from (IceOffer _ f _) = f"
| "stamped_from (IceAnswer _ f _) = f"
| "stamped_from (IceCandidate _ f _) = f"
| "stamped_from (StreamAnnounce _ _ f) = f"
| "stamped_from (StreamFinal _ _ _ f) = f"
| "stamped_from _ = None"

lemma mem_send_to: "Send w m \<in> set (send_to room pid msg) \<Longrightarrow> m = msg"
  by (auto simp: send_to_def split: option.splits)

lemma mem_fanout: "Send w m \<in> set (fanout room msg) \<Longrightarrow> m = msg"
  by (auto simp: fanout_def)

text \<open>No spoofing: whatever sender a message claims, every relayed offer, answer, candidate,
  announcement or final seq leaves the server stamped with the peer that sent it, or with the
  server's own id for the server's answer to an offer.\<close>

theorem relay_stamps_sender:
  assumes "Send w m \<in> set (snd (snd (dispatch_message ans now room conn ws from msg)))"
    and "stamped_from m = Some p"
  shows "p = rp_peerId from \<or> (\<exists>sdp. m = IceAnswer (rp_peerId from) (Some server_peer_id) sdp)"
proof (cases msg)
  case (IceOffer target f sdp)
  with assms show ?thesis
    by (auto simp: not_fatal_def split: if_splits sum.splits dest!: mem_send_to)
next
  case (PeerUpdate pid lbl)
  with assms show ?thesis
    by (auto simp: not_fatal_def Let_def fanout_peer_status_def split: if_splits dest!: mem_fanout)
next
  case Bye
  with assms show ?thesis
    by (auto simp: leave_def Let_def fanout_peer_status_def split: option.splits if_splits dest!: mem_fanout)
qed (use assms in \<open>auto simp: not_fatal_def Let_def split: if_splits option.splits sum.splits
      dest!: mem_fanout mem_send_to\<close>)

lemma relay_stamps_sender_witness:
  "\<forall>ans now conn. let room = \<lparr>rm_sessionId = ''r'', rm_peers = [(''q'', (sample_peer Desk)\<lparr>rp_ws := 9\<rparr>)],
        rm_devices = [], rm_activeTake = None\<rparr>
   in Send 9 (IceOffer ''q'' (Some ''p'') ''sdp'')
      \<in> set (snd (snd (dispatch_message ans now room conn 7 (sample_peer Recorder)
          (IceOffer ''q'' (Some ''victim'') ''sdp''))))
    \<and> ''p'' = rp_peerId (sample_peer Recorder)"
proof (intro allI)
  fix ans now conn
  let ?room = "\<lparr>rm_sessionId = ''r'', rm_peers = [(''q'', (sample_peer Desk)\<lparr>rp_ws := 9\<rparr>)],
        rm_devices = [], rm_activeTake = None\<rparr>"
  have sent: "Send 9 (IceOffer ''q'' (Some ''p'') ''sdp'')
      \<in> set (snd (snd (dispatch_message ans now ?room conn 7 (sample_peer Recorder)
          (IceOffer ''q'' (Some ''victim'') ''sdp''))))"
    by (simp add: server_peer_id_def send_to_def sample_peer_def)
  with relay_stamps_sender [OF sent, of "''p''"]
  show "let room = ?room
    in Send 9 (IceOffer ''q'' (Some ''p'') ''sdp'')
      \<in> set (snd (snd (dispatch_message ans now room conn 7 (sample_peer Recorder)
          (IceOffer ''q'' (Some ''victim'') ''sdp''))))
    \<and> ''p'' = rp_peerId (sample_peer Recorder)" by auto
qed

subsection \<open>The server's rooms\<close>

text \<open>
  \<open>signaling/index.ts\<close>: the rooms by session. \<open>sg_initializing\<close> are the sessions whose
  \<open>createRoom\<close> has not resolved; an entry of \<open>sg_live\<close> is a room that has.
\<close>

record signaling_srv =
  sg_initializing :: "string list"
  sg_live :: "(string, room) jsmap"
  sg_epochs :: nat
  sg_limits :: signaling_limits

definition session_busy :: "(string \<Rightarrow> string list) \<Rightarrow> string \<Rightarrow> signaling_srv \<Rightarrow> bool" where
  "session_busy links sid s =
     (if sid \<notin> set (sg_initializing s) \<and> \<not> jm_has (sg_live s) sid then False
      else (case jm_get (sg_live s) sid of
         None \<Rightarrow> True
       | Some room \<Rightarrow> rm_peers room \<noteq> [] \<or> rm_activeTake room \<noteq> None \<or> links sid \<noteq> []))"

definition active_session_count :: "signaling_srv \<Rightarrow> nat" where
  "active_session_count s =
     length (filter (\<lambda>room. rm_peers room \<noteq> [] \<or> rm_activeTake room \<noteq> None) (jm_values (sg_live s)))"

definition close_session :: "string \<Rightarrow> signaling_srv \<Rightarrow> signaling_srv \<times> effect list" where
  "close_session sid s =
     (s\<lparr>sg_initializing := removeAll sid (sg_initializing s), sg_live := jm_delete sid (sg_live s)\<rparr>,
      case jm_get (sg_live s) sid of None \<Rightarrow> []
      | Some room \<Rightarrow> concat (map (\<lambda>p. fatal (rp_ws p) ''session-deleted'') (jm_values (rm_peers room))))"

definition prune_idle_rooms :: "(string \<Rightarrow> string list) \<Rightarrow> signaling_srv \<Rightarrow> signaling_srv" where
  "prune_idle_rooms links s =
     s\<lparr>sg_live := filter (\<lambda>(sid, room).
        rm_peers room \<noteq> [] \<or> rm_activeTake room \<noteq> None \<or> links sid \<noteq> []) (sg_live s)\<rparr>"

text \<open>The room of a session, built from the archive's peer rows when there is none.\<close>

definition get_room :: "archive_db \<Rightarrow> string \<Rightarrow> signaling_srv \<Rightarrow> room \<times> signaling_srv" where
  "get_room d sid s =
     (case jm_get (sg_live s) sid of
        Some room \<Rightarrow> (room, s)
      | None \<Rightarrow> let room = create_room sid (load_peers sid d)
                in (room, s\<lparr>sg_live := jm_set sid room (sg_live s)\<rparr>))"

text \<open>The outcome of \<open>parseSignalingMessage\<close> on the raw frame.\<close>

datatype parsed = Malformed | Ignored | Parsed signaling_message

text \<open>\<open>DeskHelloAuth\<close>; \<open>None\<close> is the keyless mode.\<close>

type_synonym hello_auth = "(string \<Rightarrow> string option \<Rightarrow> bool) option"

record socket =
  so_conn :: conn_state
  so_bucket :: "token_bucket option"

text \<open>
  \<open>handleMessage\<close>: flood guard, parsing, the desk's authorization, then hello or dispatch.
\<close>

definition handle_message ::
    "hello_auth \<Rightarrow> archive_db \<Rightarrow> ingest_answers \<Rightarrow> string \<Rightarrow> int \<Rightarrow> socket \<Rightarrow> nat \<Rightarrow> parsed \<Rightarrow> signaling_srv
      \<Rightarrow> socket \<times> signaling_srv \<times> effect list" where
  "handle_message auth d ans uuid now so ws frame s =
     (let bucket = (case so_bucket so of Some b \<Rightarrow> b
             | None \<Rightarrow> new_bucket (msgBurst (sg_limits s)) (msgRatePerSec (sg_limits s)) (real_of_int now));
          (ok, bucket') = take_token bucket (real_of_int now);
          so = so\<lparr>so_bucket := Some bucket'\<rparr>;
          conn = so_conn so
      in if \<not> ok then (so, s, fatal ws ''rate-limited'')
         else case frame of
           Malformed \<Rightarrow> (so, s, not_fatal ws ''malformed'')
         | Ignored \<Rightarrow> (so, s, [])
         | Parsed (Hello role info versions token) \<Rightarrow>
             if cn_pathRole conn = Desk \<and>
                (case auth of None \<Rightarrow> False | Some judge \<Rightarrow> \<not> judge (cn_sessionId conn) token)
             then (so, s, fatal ws ''unauthorized'')
             else
               let (room, s) = get_room d (cn_sessionId conn) s;
                   (conn', room', epochs', out) = handle_hello (sg_limits s) (active_session_count s) uuid now
                      (sg_epochs s) conn ws room
                      \<lparr>h_role = role, h_device = info, h_versions = versions\<rparr>
               in (so\<lparr>so_conn := conn'\<rparr>,
                   s\<lparr>sg_live := jm_set (cn_sessionId conn) room' (sg_live s),
                     sg_epochs := epochs'\<rparr>, out)
         | Parsed msg \<Rightarrow>
             (case cn_peerId conn of
                None \<Rightarrow> (so, s, not_fatal ws ''no-hello'')
              | Some pid \<Rightarrow>
                  let (room, s) = get_room d (cn_sessionId conn) s
                  in case jm_get (rm_peers room) pid of
                       None \<Rightarrow> (so, s, [])
                     | Some from \<Rightarrow>
                         let (conn', room', out) = dispatch_message ans now room conn ws from msg
                         in (so\<lparr>so_conn := conn'\<rparr>,
                             s\<lparr>sg_live := jm_set (cn_sessionId conn) room' (sg_live s)\<rparr>, out)))"

text \<open>The frames that must attach nothing: a desk's hello its judge refuses, and on a socket without a
  peer id, of either role, everything that is not a hello.\<close>

definition turned_away :: "hello_auth \<Rightarrow> conn_state \<Rightarrow> parsed \<Rightarrow> bool" where
  "turned_away auth conn frame =
     (case frame of
        Parsed (Hello role info versions token) \<Rightarrow>
          cn_pathRole conn = Desk \<and>
          (case auth of None \<Rightarrow> False | Some judge \<Rightarrow> \<not> judge (cn_sessionId conn) token)
      | _ \<Rightarrow> cn_peerId conn = None)"

text \<open>C32. An unauthorized desk attaches nothing: a desk's hello whose token is refused, and any frame
  but a hello on a socket of either role that holds no peer id, leave every room of the server, the
  generations and the connection exactly as they were. All that comes of it is an error on that socket:
  a refused hello is answered fatally with \<open>unauthorized\<close> and the socket closed (or \<open>rate-limited\<close>, when
  its bucket is empty), the rest is told \<open>malformed\<close> or \<open>no-hello\<close>, or ignored.\<close>

theorem unauthorized_desk_attaches_nothing:
  assumes "turned_away auth (so_conn so) frame"
  shows "fst (snd (handle_message auth d ans uuid now so ws frame s)) = s
    \<and> so_conn (fst (handle_message auth d ans uuid now so ws frame s)) = so_conn so
    \<and> snd (snd (handle_message auth d ans uuid now so ws frame s))
        \<in> insert (fatal ws ''rate-limited'')
            (case frame of Parsed (Hello role info versions token) \<Rightarrow> {fatal ws ''unauthorized''}
             | Parsed _ \<Rightarrow> {not_fatal ws ''no-hello''} | Malformed \<Rightarrow> {not_fatal ws ''malformed''} | Ignored \<Rightarrow> {[]})"
proof (cases frame)
  case (Parsed msg)
  with assms show ?thesis
    by (cases msg; cases auth) (simp_all add: turned_away_def handle_message_def Let_def split_beta)
qed (use assms in \<open>simp_all add: turned_away_def handle_message_def Let_def split_beta\<close>)

lemma unauthorized_desk_attaches_nothing_witness:
  "\<forall>d ans uuid now ws info s. let so = \<lparr>so_conn = \<lparr>cn_sessionId = ''r'', cn_pathRole = Desk, cn_peerId = None, cn_epoch = 0\<rparr>,
             so_bucket = None\<rparr>
   in fst (snd (handle_message (Some (\<lambda>_ _. False)) d ans uuid now so ws
        (Parsed (Hello Desk info [1] (Some ''forged''))) s)) = s
    \<and> fst (snd (handle_message None d ans uuid now so ws (Parsed Bye) s)) = s"
  using unauthorized_desk_attaches_nothing
    [of "Some (\<lambda>_ _. False)" "\<lparr>so_conn = \<lparr>cn_sessionId = ''r'', cn_pathRole = Desk, cn_peerId = None, cn_epoch = 0\<rparr>,
          so_bucket = None\<rparr>"]
   unauthorized_desk_attaches_nothing
    [of None "\<lparr>so_conn = \<lparr>cn_sessionId = ''r'', cn_pathRole = Desk, cn_peerId = None, cn_epoch = 0\<rparr>,
          so_bucket = None\<rparr>" "Parsed Bye"]
  by (simp add: Let_def turned_away_def)

end
