(* ===== verification/Signaling_Runs.thy ===== *)
theory Signaling_Runs
  imports Signaling
begin

text \<open>
  A room under arbitrary interleavings of its sockets: hellos split at their awaits, renames,
  byes and closes in any order. The invariants say who owns an entry of the room; the two
  places where they fail are stated as theorems as well.
\<close>

text \<open>
  A \<open>ConnState\<close> outlives its socket: a handler that waits at an \<open>await\<close> holds it, and the room, after
  the socket has closed. So \<open>w_conns\<close> keeps every connection and \<open>w_open\<close> the sockets still open.
\<close>

record room_world =
  w_room :: room
  w_conns :: "(nat, conn_state) jsmap"
  w_open :: "nat list"
  w_epochs :: nat

datatype room_event =
    OpenSocket nat peer_role
  | HelloJoin nat string int hello_msg
  | Message nat ingest_answers int signaling_message
  | CloseSocketEvent nat

text \<open>\<open>HelloJoin\<close> is the part of a hello after \<open>ensureSession\<close>, for whatever the check saw: it does
  not look whether the socket is still open. \<open>Message\<close> is the dispatch after \<open>getRoom\<close>, which may
  come after the close as well; \<open>CloseSocketEvent\<close> is the \<open>leave\<close> that \<open>handleClose\<close> runs.\<close>

fun room_step :: "room_world \<Rightarrow> room_event \<Rightarrow> room_world" where
  "room_step w (OpenSocket ws role) =
     (if jm_has (w_conns w) ws then w
      else w\<lparr>w_conns := jm_set ws \<lparr>cn_sessionId = rm_sessionId (w_room w), cn_pathRole = role,
                                  cn_peerId = None, cn_epoch = 0\<rparr> (w_conns w),
             w_open := ws # w_open w\<rparr>)"
| "room_step w (HelloJoin ws uuid now msg) =
     (case jm_get (w_conns w) ws of None \<Rightarrow> w
      | Some conn \<Rightarrow>
          let (conn', room', out) = hello_join uuid now (Suc (w_epochs w)) conn ws (w_room w) msg
          in w\<lparr>w_room := room', w_conns := jm_set ws conn' (w_conns w), w_epochs := Suc (w_epochs w)\<rparr>)"
| "room_step w (Message ws ans now msg) =
     (case jm_get (w_conns w) ws of None \<Rightarrow> w
      | Some conn \<Rightarrow>
          (case cn_peerId conn of None \<Rightarrow> w
           | Some pid \<Rightarrow>
               (case jm_get (rm_peers (w_room w)) pid of None \<Rightarrow> w
                | Some from \<Rightarrow>
                    let (conn', room', out) = dispatch_message ans now (w_room w) conn ws from msg
                    in w\<lparr>w_room := room', w_conns := jm_set ws conn' (w_conns w)\<rparr>)))"
| "room_step w (CloseSocketEvent ws) =
     (if ws \<notin> set (w_open w) then w
      else case jm_get (w_conns w) ws of None \<Rightarrow> w
      | Some conn \<Rightarrow>
          let (conn', room', out) = leave conn (w_room w)
          in w\<lparr>w_room := room', w_conns := jm_set ws conn' (w_conns w),
               w_open := removeAll ws (w_open w)\<rparr>)"

definition initial_world :: "room \<Rightarrow> room_world" where
  "initial_world room = \<lparr>w_room = room\<lparr>rm_peers := []\<rparr>, w_conns = [], w_open = [], w_epochs = 0\<rparr>"

text \<open>A socket says no second hello while it holds a peer id.\<close>

fun one_hello :: "room_world \<Rightarrow> room_event \<Rightarrow> bool" where
  "one_hello w (HelloJoin ws uuid now msg) \<longleftrightarrow>
     (case jm_get (w_conns w) ws of None \<Rightarrow> True | Some conn \<Rightarrow> cn_peerId conn = None)"
| "one_hello w _ \<longleftrightarrow> True"

text \<open>The sockets whose hello finished after they had closed, in a run.\<close>

fun late_hello :: "room_world \<Rightarrow> room_event \<Rightarrow> nat set" where
  "late_hello w (HelloJoin ws uuid now msg) = (if ws \<in> set (w_open w) then {} else {ws})"
| "late_hello w _ = {}"

fun late_hellos :: "room_world \<Rightarrow> room_event list \<Rightarrow> nat set" where
  "late_hellos w [] = {}"
| "late_hellos w (e # es) = late_hello w e \<union> late_hellos (room_step w e) es"

text \<open>Every entry is owned by the connection of its socket, with its own generation; generations are
  unique.\<close>

definition entry_owned :: "room_world \<Rightarrow> string \<Rightarrow> room_peer \<Rightarrow> bool" where
  "entry_owned w pid p \<longleftrightarrow>
     rp_peerId p = pid \<and>
     (\<exists>c. jm_get (w_conns w) (rp_ws p) = Some c \<and> cn_peerId c = Some pid \<and> cn_epoch c = rp_epoch p)"

definition world_inv :: "room_world \<Rightarrow> bool" where
  "world_inv w \<longleftrightarrow> jm_wf (w_conns w) \<and> jm_wf (rm_peers (w_room w))
     \<and> (\<forall>pid p. jm_get (rm_peers (w_room w)) pid = Some p \<longrightarrow> entry_owned w pid p)
     \<and> (\<forall>ws c. jm_get (w_conns w) ws = Some c \<longrightarrow> cn_epoch c \<le> w_epochs w)
     \<and> (\<forall>ws ws' c c'. jm_get (w_conns w) ws = Some c \<longrightarrow> jm_get (w_conns w) ws' = Some c'
          \<longrightarrow> cn_epoch c = cn_epoch c' \<longrightarrow> cn_epoch c \<noteq> 0 \<longrightarrow> ws = ws')
     \<and> (\<forall>pid p. jm_get (rm_peers (w_room w)) pid = Some p \<longrightarrow> rp_epoch p \<noteq> 0)"

lemma world_invD:
  assumes "world_inv w"
  shows "jm_wf (w_conns w)" "jm_wf (rm_peers (w_room w))"
    "\<And>pid p. jm_get (rm_peers (w_room w)) pid = Some p \<Longrightarrow> entry_owned w pid p"
    "\<And>ws c. jm_get (w_conns w) ws = Some c \<Longrightarrow> cn_epoch c \<le> w_epochs w"
    "\<And>ws ws' c c'. jm_get (w_conns w) ws = Some c \<Longrightarrow> jm_get (w_conns w) ws' = Some c'
          \<Longrightarrow> cn_epoch c = cn_epoch c' \<Longrightarrow> cn_epoch c \<noteq> 0 \<Longrightarrow> ws = ws'"
    "\<And>pid p. jm_get (rm_peers (w_room w)) pid = Some p \<Longrightarrow> rp_epoch p \<noteq> 0"
  using assms by (auto simp: world_inv_def)

lemma world_inv_initial: "world_inv (initial_world room)"
  by (simp add: world_inv_def initial_world_def)

text \<open>What a step does to the peers: a leave removes its own entry, a rename keeps owners.\<close>

lemma leave_peers:
  "leave conn room = (conn', room', out) \<Longrightarrow>
    conn' = conn\<lparr>cn_peerId := None\<rparr> \<and> rm_peers room' = (case cn_peerId conn of
       None \<Rightarrow> rm_peers room
     | Some pid \<Rightarrow> (case jm_get (rm_peers room) pid of
           Some p \<Rightarrow> if rp_epoch p = cn_epoch conn then jm_delete pid (rm_peers room) else rm_peers room
         | None \<Rightarrow> rm_peers room))"
  by (cases "cn_peerId conn"; cases "jm_get (rm_peers room) (the (cn_peerId conn))")
    (auto simp: leave_def Let_def split: if_splits)

definition same_owner :: "room_peer \<Rightarrow> room_peer \<Rightarrow> bool" where
  "same_owner p q \<longleftrightarrow> rp_peerId p = rp_peerId q \<and> rp_ws p = rp_ws q \<and> rp_epoch p = rp_epoch q"

definition same_owners :: "(string, room_peer) jsmap \<Rightarrow> (string, room_peer) jsmap \<Rightarrow> bool" where
  "same_owners m m' \<longleftrightarrow> (jm_wf m \<longrightarrow> jm_wf m') \<and>
     (\<forall>pid q. jm_get m' pid = Some q \<longrightarrow> (\<exists>p. jm_get m pid = Some p \<and> same_owner p q))"

lemma same_owners_refl: "same_owners m m"
  by (auto simp: same_owners_def same_owner_def)

lemma dispatch_owners:
  assumes "msg \<noteq> Bye" "dispatch_message ans now room conn ws from msg = (conn', room', out)"
  shows "conn' = conn \<and> same_owners (rm_peers room) (rm_peers room')"
proof (cases msg)
  case (PeerUpdate pid lbl)
  with assms(2) show ?thesis
    by (auto simp: Let_def same_owners_def same_owner_def jm_get_set split: if_splits option.splits)
qed (use assms in \<open>auto simp: Let_def same_owners_refl split: if_splits\<close>)

lemma world_inv_dispatch:
  assumes "world_inv w" "same_owners (rm_peers (w_room w)) (rm_peers room')"
    and "jm_get (w_conns w) ws = Some conn"
  shows "world_inv (w\<lparr>w_room := room', w_conns := jm_set ws conn (w_conns w)\<rparr>)"
proof -
  note inv = world_invD [OF assms(1)]
  have conns: "jm_get (jm_set ws conn (w_conns w)) = jm_get (w_conns w)"
    using assms(3) by (auto simp: jm_get_set)
  have "entry_owned (w\<lparr>w_room := room', w_conns := jm_set ws conn (w_conns w)\<rparr>) pid q \<and> rp_epoch q \<noteq> 0"
    if q: "jm_get (rm_peers room') pid = Some q" for pid q
  proof -
    obtain p where p: "jm_get (rm_peers (w_room w)) pid = Some p" "same_owner p q"
      using assms(2) q unfolding same_owners_def by blast
    show ?thesis
      using inv(3) [OF p(1)] inv(6) [OF p(1)] p(2) by (auto simp: entry_owned_def conns same_owner_def)
  qed
  then show ?thesis
    using inv assms(2) by (simp add: world_inv_def conns same_owners_def)
qed

lemma hello_join_peers:
  assumes "hello_join uuid now e conn ws room msg = (conn', room', out)"
  obtains pid entry where "conn' = conn\<lparr>cn_peerId := Some pid, cn_epoch := e\<rparr>"
    "rm_peers room' = jm_set pid entry (jm_delete pid (rm_peers room))"
    "rp_peerId entry = pid" "rp_epoch entry = e" "rp_ws entry = ws"
  using assms by (auto simp: hello_join_def Let_def)

lemma world_inv_join:
  assumes "world_inv w" "jm_get (w_conns w) ws = Some conn" "cn_peerId conn = None"
    and "hello_join uuid now (Suc (w_epochs w)) conn ws (w_room w) msg = (conn', room', out)"
  shows "world_inv (w\<lparr>w_room := room', w_conns := jm_set ws conn' (w_conns w), w_epochs := Suc (w_epochs w)\<rparr>)"
    (is "world_inv ?w'")
proof -
  note inv = world_invD [OF assms(1)]
  obtain pid entry where j: "conn' = conn\<lparr>cn_peerId := Some pid, cn_epoch := Suc (w_epochs w)\<rparr>"
    "rm_peers room' = jm_set pid entry (jm_delete pid (rm_peers (w_room w)))"
    "rp_peerId entry = pid" "rp_epoch entry = Suc (w_epochs w)" "rp_ws entry = ws"
    by (rule hello_join_peers [OF assms(4)])
  have "entry_owned ?w' k p \<and> rp_epoch p \<noteq> 0" if "jm_get (rm_peers room') k = Some p" for k p
  proof (cases "k = pid")
    case True
    with that j show ?thesis by (simp add: jm_get_set entry_owned_def)
  next
    case False
    then have p: "jm_get (rm_peers (w_room w)) k = Some p"
      using that by (simp add: j(2) jm_get_set jm_get_delete)
    have "rp_ws p \<noteq> ws" using inv(3) [OF p] assms(2,3) by (auto simp: entry_owned_def)
    then show ?thesis using inv(3,6) [OF p] by (auto simp: entry_owned_def jm_get_set)
  qed
  moreover have "ws1 = ws2" if "jm_get (w_conns ?w') ws1 = Some c1" "jm_get (w_conns ?w') ws2 = Some c2"
      "cn_epoch c1 = cn_epoch c2" "cn_epoch c1 \<noteq> 0" for ws1 ws2 c1 c2
    using that inv(4) [of ws1 c1] inv(4) [of ws2 c2] inv(5) [of ws1 c1 ws2 c2]
    by (auto simp: jm_get_set j(1) split: if_splits)
  moreover have "cn_epoch c \<le> Suc (w_epochs w)" if "jm_get (w_conns ?w') ws' = Some c" for ws' c
    using that inv(4) [of ws' c] by (auto simp: jm_get_set j(1) split: if_splits)
  ultimately show ?thesis
    using inv(1,2) unfolding world_inv_def by (simp add: j(2))
qed

lemma world_inv_leave:
  assumes "world_inv w" "jm_get (w_conns w) ws = Some conn" "leave conn (w_room w) = (conn', room', out)"
    and "jm_wf conns'" "\<And>v. v \<noteq> ws \<Longrightarrow> jm_get conns' v = jm_get (w_conns w) v"
    and "jm_get conns' ws = None \<or> jm_get conns' ws = Some conn'"
  shows "world_inv (w\<lparr>w_room := room', w_conns := conns'\<rparr>)" (is "world_inv ?w'")
proof -
  note inv = world_invD [OF assms(1)] and l = leave_peers [OF assms(3)]
  have kept: "jm_get (rm_peers (w_room w)) k = Some p \<and> rp_ws p \<noteq> ws"
    if "jm_get (rm_peers room') k = Some p" for k p
  proof -
    have p: "jm_get (rm_peers (w_room w)) k = Some p"
      using that l by (auto simp: jm_get_delete split: option.splits if_splits)
    have "rp_ws p \<noteq> ws"
    proof
      assume "rp_ws p = ws"
      then have "cn_peerId conn = Some k" "rp_epoch p = cn_epoch conn"
        using inv(3) [OF p] assms(2) by (auto simp: entry_owned_def)
      then have "rm_peers room' = jm_delete k (rm_peers (w_room w))" using l p by simp
      with that show False by (simp add: jm_get_delete)
    qed
    with p show ?thesis by simp
  qed
  have was: "\<exists>c'. jm_get (w_conns w) v = Some c' \<and> cn_epoch c' = cn_epoch c"
    if "jm_get conns' v = Some c" for v c
    using that assms(2,5,6) l by (cases "v = ws") auto
  have "entry_owned ?w' k p \<and> rp_epoch p \<noteq> 0" if "jm_get (rm_peers room') k = Some p" for k p
    using kept [OF that] inv(3,6) [of k p] assms(5) by (auto simp: entry_owned_def)
  moreover have "jm_wf (rm_peers room')"
    using l inv(2) by (auto split: option.splits)
  moreover have "ws1 = ws2" if "jm_get conns' ws1 = Some c1" "jm_get conns' ws2 = Some c2"
      "cn_epoch c1 = cn_epoch c2" "cn_epoch c1 \<noteq> 0" for ws1 ws2 c1 c2
    using was [OF that(1)] was [OF that(2)] that(3,4) inv(5) by metis
  moreover have "cn_epoch c \<le> w_epochs w" if "jm_get conns' v = Some c" for v c
    using was [OF that] inv(4) by metis
  ultimately show ?thesis
    using assms(4) unfolding world_inv_def by simp
qed

lemma world_inv_step:
  assumes "world_inv w" "one_hello w e" shows "world_inv (room_step w e)"
proof (cases e)
  case (OpenSocket ws role)
  show ?thesis
  proof (cases "jm_has (w_conns w) ws")
    case False
    note inv = world_invD [OF assms(1)]
    let ?w' = "room_step w (OpenSocket ws role)"
    have room: "w_room ?w' = w_room w" using False by simp
    have "entry_owned ?w' k p" if "jm_get (rm_peers (w_room w)) k = Some p" for k p
      using inv(3) [OF that] False by (auto simp: entry_owned_def jm_get_set)
    then show ?thesis
      using inv(1,2,4,5,6) False unfolding OpenSocket world_inv_def room by (simp add: jm_get_set)
  qed (simp add: OpenSocket assms(1))
next
  case (HelloJoin ws uuid now msg)
  show ?thesis
  proof (cases "jm_get (w_conns w) ws")
    case (Some conn)
    obtain conn' room' out where j: "hello_join uuid now (Suc (w_epochs w)) conn ws (w_room w) msg = (conn', room', out)"
      by (rule prod_cases3)
    show ?thesis
      using world_inv_join [OF assms(1) Some _ j] assms(2) by (simp add: HelloJoin Some j)
  qed (simp add: HelloJoin assms(1))
next
  case (Message ws ans now msg)
  show ?thesis
  proof (cases "msg = Bye")
    case True
    have "world_inv (w\<lparr>w_room := fst (snd (leave conn (w_room w))),
        w_conns := jm_set ws (fst (leave conn (w_room w))) (w_conns w)\<rparr>)"
      if "jm_get (w_conns w) ws = Some conn" for conn
      using assms(1) that world_invD(1) [OF assms(1)]
      by (intro world_inv_leave [where conn' = "fst (leave conn (w_room w))"
            and out = "snd (snd (leave conn (w_room w)))"]) (auto simp: jm_get_set)
    then show ?thesis
      using assms(1) by (simp add: Message True Let_def split_beta split: option.splits)
  next
    case False
    have "world_inv (w\<lparr>w_room := fst (snd (dispatch_message ans now (w_room w) conn ws from msg)),
        w_conns := jm_set ws (fst (dispatch_message ans now (w_room w) conn ws from msg)) (w_conns w)\<rparr>)"
      if "jm_get (w_conns w) ws = Some conn" for conn "from"
      using dispatch_owners [OF False] world_inv_dispatch [OF assms(1)] that by (metis prod.collapse)
    then show ?thesis
      using assms(1) by (simp add: Message Let_def split_beta split: option.splits)
  qed
next
  case (CloseSocketEvent ws)
  have "world_inv (w\<lparr>w_room := fst (snd (leave conn (w_room w))),
      w_conns := jm_set ws (fst (leave conn (w_room w))) (w_conns w)\<rparr>)"
    if "jm_get (w_conns w) ws = Some conn" for conn
    using assms(1) that world_invD(1) [OF assms(1)]
    by (intro world_inv_leave [where conn' = "fst (leave conn (w_room w))"
          and out = "snd (snd (leave conn (w_room w)))"]) (auto simp: jm_get_set)
  then have "world_inv (w\<lparr>w_room := fst (snd (leave conn (w_room w))),
      w_conns := jm_set ws (fst (leave conn (w_room w))) (w_conns w), w_open := os\<rparr>)"
    if "jm_get (w_conns w) ws = Some conn" for conn os
    using that by (simp add: world_inv_def entry_owned_def)
  then show ?thesis
    using assms(1) by (simp add: CloseSocketEvent Let_def split_beta split: option.splits)
qed

interpretation room_machine: guarded_machine room_step world_inv one_hello
  by unfold_locales (rule world_inv_step)

subsection \<open>Closed sockets\<close>

text \<open>A connection whose socket has closed holds no peer id, unless its hello finished after the
  close.\<close>

definition closed_silent :: "nat set \<Rightarrow> room_world \<Rightarrow> bool" where
  "closed_silent late w \<longleftrightarrow> (\<forall>ws c pid. jm_get (w_conns w) ws = Some c \<longrightarrow> cn_peerId c = Some pid
     \<longrightarrow> ws \<in> set (w_open w) \<or> ws \<in> late)"

lemma dispatch_peerId:
  "dispatch_message ans now room conn ws from msg = (conn', room', out)
    \<Longrightarrow> cn_peerId conn' = cn_peerId conn \<or> cn_peerId conn' = None"
  using dispatch_owners [of msg ans now room conn ws "from" conn' room' out] leave_peers [of conn room conn' room' out]
  by (cases "msg = Bye") auto

lemma closed_silent_step:
  assumes "closed_silent late w"
  shows "closed_silent (late \<union> late_hello w e) (room_step w e)"
proof (cases e)
  case (Message ws ans now msg)
  have "closed_silent late (w\<lparr>w_room := r, w_conns := jm_set ws (fst t) (w_conns w)\<rparr>)"
    if "jm_get (w_conns w) ws = Some conn" "dispatch_message ans now (w_room w) conn ws from msg = t"
    for conn "from" t r
    using assms that dispatch_peerId [of ans now "w_room w" conn ws "from" msg "fst t" "fst (snd t)" "snd (snd t)"]
    by (cases "cn_peerId conn") (fastforce simp: closed_silent_def jm_get_set)+
  then show ?thesis
    using assms by (simp add: Message Let_def split_beta split: option.splits)
next
  case (CloseSocketEvent ws)
  have "closed_silent late (w\<lparr>w_room := r, w_conns := jm_set ws (fst (leave conn (w_room w))) (w_conns w),
      w_open := removeAll ws (w_open w)\<rparr>)" for conn r
    using assms leave_peers [of conn "w_room w" "fst (leave conn (w_room w))"] 
    by (cases "leave conn (w_room w)") (auto simp: closed_silent_def jm_get_set)
  then show ?thesis
    using assms by (simp add: CloseSocketEvent Let_def split_beta split: option.splits)
qed (use assms in \<open>auto simp: closed_silent_def jm_get_set Let_def split_beta split: option.splits if_splits\<close>)

lemma closed_silent_run:
  "closed_silent late w \<Longrightarrow> closed_silent (late \<union> late_hellos w es) (run room_step w es)"
proof (induction es arbitrary: late w)
  case (Cons e es)
  show ?case using Cons.IH [OF closed_silent_step [OF Cons.prems, of e]] by (simp add: Un_assoc)
qed simp

subsection \<open>Who owns an entry\<close>

text \<open>C3. However hellos, renames, byes and closes of the sockets interleave, as long as no
  socket says hello again while it holds a peer id: every peer of the room belongs to the connection
  of the socket that said that hello, in exactly its generation, and that socket is still open, except
  for a hello that finished after its own socket had closed; so when no hello did and every socket is
  closed the room is empty and can be expired. Both exceptions are real: see the two theorems on
  ghosts below.\<close>

theorem room_entries_owned:
  assumes "legal room_step one_hello (initial_world room) es"
  shows "(\<forall>pid p. jm_get (rm_peers (w_room (run room_step (initial_world room) es))) pid = Some p
        \<longrightarrow> entry_owned (run room_step (initial_world room) es) pid p
          \<and> (rp_ws p \<in> set (w_open (run room_step (initial_world room) es))
              \<or> rp_ws p \<in> late_hellos (initial_world room) es))
    \<and> (w_open (run room_step (initial_world room) es) = [] \<longrightarrow> late_hellos (initial_world room) es = {}
        \<longrightarrow> rm_peers (w_room (run room_step (initial_world room) es)) = [])"
proof -
  let ?w = "run room_step (initial_world room) es" and ?late = "late_hellos (initial_world room) es"
  have inv: "world_inv ?w"
    using room_machine.run_guarded [OF world_inv_initial assms] .
  have "closed_silent ({} \<union> ?late) ?w"
    by (rule closed_silent_run) (simp add: closed_silent_def initial_world_def)
  then have held: "entry_owned ?w pid p \<and> (rp_ws p \<in> set (w_open ?w) \<or> rp_ws p \<in> ?late)"
    if "jm_get (rm_peers (w_room ?w)) pid = Some p" for pid p
    using world_invD(3) [OF inv that] by (auto simp: closed_silent_def entry_owned_def)
  moreover have "rm_peers (w_room ?w) = []" if "w_open ?w = []" "?late = {}"
  proof (cases "rm_peers (w_room ?w)")
    case (Cons kp m)
    then have "jm_get (rm_peers (w_room ?w)) (fst kp) = Some (snd kp)" by (cases kp) simp
    with held that show ?thesis by fastforce
  qed
  ultimately show ?thesis by blast
qed

definition plain_hello :: hello_msg where
  "plain_hello = \<lparr>h_role = Recorder, h_device = \<lparr>userAgent = ''ua'', label = None, deviceId = None,
     avatarUrl = None\<rparr>, h_versions = [1]\<rparr>"

definition device_hello :: hello_msg where
  "device_hello = \<lparr>h_role = Recorder, h_device = \<lparr>userAgent = ''ua'', label = None,
     deviceId = Some ''d'', avatarUrl = None\<rparr>, h_versions = [1]\<rparr>"

definition empty_room :: room where
  "empty_room = \<lparr>rm_sessionId = ''r'', rm_peers = [], rm_devices = [], rm_activeTake = None\<rparr>"

text \<open>A device reconnects before its old socket closes.\<close>

definition reconnect_run :: "room_event list" where
  "reconnect_run = [OpenSocket 1 Recorder, HelloJoin 1 ''u1'' 0 device_hello, OpenSocket 2 Recorder,
     HelloJoin 2 ''u2'' 5 device_hello]"

lemmas room_eval = reconnect_run_def device_hello_def plain_hello_def empty_room_def initial_world_def
  hello_join_def Let_def truthy_def device_key_def trim_or_def

lemma reconnect_legal: "legal room_step one_hello (initial_world empty_room) reconnect_run"
  by (simp add: room_eval)

lemma reconnect_peers:
  "map (\<lambda>(k, p). (k, rp_ws p)) (rm_peers (w_room (run room_step (initial_world empty_room) reconnect_run)))
    = [(''u1'', 2)]"
  by (simp add: room_eval)

lemma room_entries_owned_witness:
  "\<exists>p. entry_owned (run room_step (initial_world empty_room) reconnect_run) ''u1'' p \<and> rp_ws p = 2"
proof -
  let ?peers = "rm_peers (w_room (run room_step (initial_world empty_room) reconnect_run))"
  obtain p where p: "?peers = [(''u1'', p)]" "rp_ws p = 2"
    using reconnect_peers by (auto simp: map_eq_Cons_conv)
  have "jm_get ?peers ''u1'' = Some p" by (simp add: p(1))
  then have "entry_owned (run room_step (initial_world empty_room) reconnect_run) ''u1'' p"
    using room_entries_owned [OF reconnect_legal] by blast
  with p(2) show ?thesis by blast
qed

text \<open>Generations alone, whatever the sockets do: an entry carries the generation of a hello that no
  other socket's connection has.\<close>

definition epochs_apart :: "room_world \<Rightarrow> bool" where
  "epochs_apart w \<longleftrightarrow> jm_wf (rm_peers (w_room w))
     \<and> (\<forall>pid p. jm_get (rm_peers (w_room w)) pid = Some p \<longrightarrow> rp_epoch p \<noteq> 0 \<and> rp_epoch p \<le> w_epochs w)
     \<and> (\<forall>ws c. jm_get (w_conns w) ws = Some c \<longrightarrow> cn_epoch c \<le> w_epochs w)
     \<and> (\<forall>pid p ws c. jm_get (rm_peers (w_room w)) pid = Some p \<longrightarrow> jm_get (w_conns w) ws = Some c
          \<longrightarrow> cn_epoch c = rp_epoch p \<longrightarrow> rp_ws p = ws)"

lemma epochs_apartD:
  assumes "epochs_apart w"
  shows "jm_wf (rm_peers (w_room w))"
    "\<And>pid p. jm_get (rm_peers (w_room w)) pid = Some p \<Longrightarrow> rp_epoch p \<noteq> 0 \<and> rp_epoch p \<le> w_epochs w"
    "\<And>ws c. jm_get (w_conns w) ws = Some c \<Longrightarrow> cn_epoch c \<le> w_epochs w"
    "\<And>pid p ws c. jm_get (rm_peers (w_room w)) pid = Some p \<Longrightarrow> jm_get (w_conns w) ws = Some c
        \<Longrightarrow> cn_epoch c = rp_epoch p \<Longrightarrow> rp_ws p = ws"
  using assms by (auto simp: epochs_apart_def)

lemma epochs_apart_shrink:
  assumes "epochs_apart w" "same_owners (rm_peers (w_room w)) (rm_peers r)"
    and "jm_get (w_conns w) ws = Some conn" "cn_epoch conn' = cn_epoch conn"
  shows "epochs_apart (w\<lparr>w_room := r, w_conns := jm_set ws conn' (w_conns w)\<rparr>)"
proof -
  note inv = epochs_apartD [OF assms(1)]
  have was: "\<exists>q. jm_get (rm_peers (w_room w)) pid = Some q \<and> rp_epoch q = rp_epoch p \<and> rp_ws q = rp_ws p"
    if "jm_get (rm_peers r) pid = Some p" for pid p
    using assms(2) that unfolding same_owners_def same_owner_def by metis
  have conn: "\<exists>d. jm_get (w_conns w) v = Some d \<and> cn_epoch d = cn_epoch c"
    if "jm_get (jm_set ws conn' (w_conns w)) v = Some c" for v c
    using that assms(3,4) by (auto simp: jm_get_set split: if_splits)
  have "jm_wf (rm_peers r)" using assms(2) inv(1) by (simp add: same_owners_def)
  moreover have "rp_epoch p \<noteq> 0 \<and> rp_epoch p \<le> w_epochs w" if "jm_get (rm_peers r) pid = Some p" for pid p
    using was [OF that] inv(2) by metis
  moreover have "cn_epoch c \<le> w_epochs w" if "jm_get (jm_set ws conn' (w_conns w)) v = Some c" for v c
    using conn [OF that] inv(3) by metis
  moreover have "rp_ws p = v" if "jm_get (rm_peers r) pid = Some p"
      "jm_get (jm_set ws conn' (w_conns w)) v = Some c" "cn_epoch c = rp_epoch p" for pid p v c
    using was [OF that(1)] conn [OF that(2)] that(3) inv(4) by metis
  ultimately show ?thesis by (simp add: epochs_apart_def)
qed

lemma leave_owners:
  "leave conn room = (conn', room', out)
    \<Longrightarrow> cn_epoch conn' = cn_epoch conn \<and> same_owners (rm_peers room) (rm_peers room')"
  by (drule leave_peers) (auto simp: same_owners_def same_owner_def jm_get_delete split: option.splits if_splits)

lemma epochs_apart_step: "epochs_apart w \<Longrightarrow> epochs_apart (room_step w e)"
proof -
  assume inv: "epochs_apart w"
  note invD = epochs_apartD [OF inv]
  have left: "epochs_apart (w\<lparr>w_room := fst (snd (leave conn (w_room w))),
      w_conns := jm_set ws (fst (leave conn (w_room w))) (w_conns w)\<rparr>)"
    if "jm_get (w_conns w) ws = Some conn" for ws conn
    using epochs_apart_shrink [OF inv _ that] leave_owners [of conn "w_room w"] by (metis prod.collapse)
  show ?thesis
  proof (cases e)
    case (OpenSocket ws role)
    have "rp_epoch p \<noteq> 0" if "jm_get (rm_peers (w_room w)) pid = Some p" for pid p
      using invD(2) [OF that] by simp
    then show ?thesis using OpenSocket invD by (fastforce simp: epochs_apart_def jm_get_set)
  next
    case (HelloJoin ws uuid now msg)
    show ?thesis
    proof (cases "jm_get (w_conns w) ws")
      case (Some conn)
      obtain conn' room' out where j: "hello_join uuid now (Suc (w_epochs w)) conn ws (w_room w) msg = (conn', room', out)"
        by (rule prod_cases3)
      obtain pid entry where k: "conn' = conn\<lparr>cn_peerId := Some pid, cn_epoch := Suc (w_epochs w)\<rparr>"
        "rm_peers room' = jm_set pid entry (jm_delete pid (rm_peers (w_room w)))"
        "rp_peerId entry = pid" "rp_epoch entry = Suc (w_epochs w)" "rp_ws entry = ws"
        by (rule hello_join_peers [OF j])
      have get: "jm_get (rm_peers room') q = (if q = pid then Some entry else jm_get (rm_peers (w_room w)) q)" for q
        by (simp add: k(2) jm_get_set jm_get_delete)
      have old: "cn_epoch c \<noteq> Suc (w_epochs w)" if "jm_get (w_conns w) v = Some c" for v c
        using invD(3) [OF that] by simp
      have older: "rp_epoch p \<noteq> Suc (w_epochs w)" if "jm_get (rm_peers (w_room w)) q = Some p" for q p
        using invD(2) [OF that] by simp
      have "rp_ws p = v" if "jm_get (rm_peers room') q = Some p"
        "jm_get (jm_set ws conn' (w_conns w)) v = Some c" "cn_epoch c = rp_epoch p" for q p v c
      proof (cases "q = pid")
        case True
        then have "p = entry" using that(1) by (simp add: get)
        then show ?thesis using that(2,3) old [of v c] k(4,5) by (auto simp: jm_get_set split: if_splits)
      next
        case False
        then have p: "jm_get (rm_peers (w_room w)) q = Some p" using that(1) by (simp add: get)
        have "v \<noteq> ws" using older [OF p] that(2,3) by (auto simp: k(1) jm_get_set)
        then show ?thesis using invD(4) [OF p] that(2,3) by (simp add: jm_get_set)
      qed
      moreover have "rp_epoch p \<noteq> 0 \<and> rp_epoch p \<le> Suc (w_epochs w)"
        if "jm_get (rm_peers room') q = Some p" for q p
        using that invD(2) [of q p] k(4) unfolding get by (auto split: if_splits)
      moreover have "cn_epoch c \<le> Suc (w_epochs w)" if "jm_get (jm_set ws conn' (w_conns w)) v = Some c" for v c
        using that invD(3) [of v c] by (auto simp: jm_get_set k split: if_splits)
      moreover have "jm_wf (rm_peers room')" using invD(1) by (simp add: k(2))
      ultimately show ?thesis by (simp add: HelloJoin Some j epochs_apart_def)
    qed (simp add: HelloJoin inv)
  next
    case (Message ws ans now msg)
    have "epochs_apart (w\<lparr>w_room := fst (snd (dispatch_message ans now (w_room w) conn ws from msg)),
        w_conns := jm_set ws (fst (dispatch_message ans now (w_room w) conn ws from msg)) (w_conns w)\<rparr>)"
      if "jm_get (w_conns w) ws = Some conn" for conn "from"
    proof (cases "msg = Bye")
      case True
      then show ?thesis using left [OF that] by simp
    next
      case False
      then show ?thesis
        using dispatch_owners [OF False] epochs_apart_shrink [OF inv _ that] by (metis prod.collapse)
    qed
    then show ?thesis
      using inv by (simp add: Message Let_def split_beta split: option.splits)
  next
    case (CloseSocketEvent ws)
    have "epochs_apart (w\<lparr>w_room := fst (snd (leave conn (w_room w))),
        w_conns := jm_set ws (fst (leave conn (w_room w))) (w_conns w), w_open := os\<rparr>)"
      if "jm_get (w_conns w) ws = Some conn" for conn os
      using left [OF that] by (simp add: epochs_apart_def)
    then show ?thesis
      using inv by (simp add: CloseSocketEvent Let_def split_beta split: option.splits)
  qed
qed

interpretation generations: invariant_machine room_step epochs_apart
  by unfold_locales (rule epochs_apart_step)

text \<open>C20. A superseded socket cannot evict its successor: when a socket closes, every entry held by
  another socket stays exactly as it was, even under the same peer id. It holds after every run, also
  one with repeated hellos and hellos that finish after their socket closed.\<close>

theorem superseded_socket_cannot_evict:
  assumes "jm_get (rm_peers (w_room (run room_step (initial_world room) es))) pid = Some p"
    and "rp_ws p \<noteq> ws"
  shows "jm_get (rm_peers (w_room (run room_step (initial_world room) (es @ [CloseSocketEvent ws])))) pid = Some p"
proof -
  let ?w = "run room_step (initial_world room) es"
  have inv: "epochs_apart ?w"
    by (rule generations.run_inv) (simp add: epochs_apart_def initial_world_def)
  show ?thesis
  proof (cases "ws \<in> set (w_open ?w) \<and> jm_has (w_conns ?w) ws")
    case True
    then obtain conn where conn: "jm_get (w_conns ?w) ws = Some conn" by auto
    obtain conn' room' out where l: "leave conn (w_room ?w) = (conn', room', out)"
      by (rule prod_cases3)
    have "cn_epoch conn \<noteq> rp_epoch p"
      using epochs_apartD(4) [OF inv assms(1) conn] assms(2) by auto
    then have "jm_get (rm_peers room') pid = Some p"
      using leave_peers [OF l] assms(1) by (auto simp: jm_get_delete split: option.splits)
    then show ?thesis using True by (simp add: conn l)
  qed (use assms in \<open>auto split: option.splits\<close>)
qed

lemma superseded_socket_cannot_evict_witness:
  "\<exists>p. jm_get (rm_peers (w_room (run room_step (initial_world empty_room)
      (reconnect_run @ [CloseSocketEvent 1])))) ''u1'' = Some p \<and> rp_ws p = 2"
proof -
  let ?peers = "rm_peers (w_room (run room_step (initial_world empty_room) reconnect_run))"
  obtain p where "?peers = [(''u1'', p)]" "rp_ws p = 2"
    using reconnect_peers by (auto simp: map_eq_Cons_conv)
  then show ?thesis
    using superseded_socket_cannot_evict [of empty_room reconnect_run "''u1''" p 1] by auto
qed

text \<open>A second hello without a device id on the same socket leaves a ghost: after that socket
  closes, no socket is open but the first entry is still there, so the session counts as busy
  and is never expired or pruned.\<close>

theorem second_hello_leaves_ghost:
  assumes "u1 \<noteq> u2" and "truthy (deviceId (h_device m)) = None"
  shows "let w = run room_step (initial_world room)
           [OpenSocket ws role, HelloJoin ws u1 t1 m, HelloJoin ws u2 t2 m, CloseSocketEvent ws]
         in w_open w = [] \<and> jm_has (rm_peers (w_room w)) u1
            \<and> session_busy links sid
                \<lparr>sg_initializing = [], sg_live = [(sid, w_room w)], sg_epochs = w_epochs w, sg_limits = limits\<rparr>"
  using assms
  by (simp add: initial_world_def hello_join_def Let_def leave_def session_busy_def)

lemma second_hello_leaves_ghost_witness:
  "jm_has (rm_peers (w_room (run room_step (initial_world empty_room)
     [OpenSocket 1 Recorder, HelloJoin 1 ''u1'' 0 plain_hello, HelloJoin 1 ''u2'' 1 plain_hello,
      CloseSocketEvent 1]))) ''u1''"
  using second_hello_leaves_ghost [of "''u1''" "''u2''" plain_hello empty_room 1 Recorder 0 1]
  by (simp add: Let_def plain_hello_def truthy_def)

text \<open>A hello whose socket closes while \<open>ensureSession\<close> is awaited joins all the same: the close found
  no peer id to leave, so the entry stays with no socket behind it and the session is busy for good.\<close>

theorem late_hello_leaves_ghost:
  "let w = run room_step (initial_world room) [OpenSocket ws role, CloseSocketEvent ws, HelloJoin ws u t m]
   in w_open w = [] \<and> rm_peers (w_room w) \<noteq> []
      \<and> session_busy links sid
          \<lparr>sg_initializing = [], sg_live = [(sid, w_room w)], sg_epochs = w_epochs w, sg_limits = limits\<rparr>"
  by (auto simp: initial_world_def hello_join_def Let_def leave_def session_busy_def dest: arg_cong [of _ _ length])

subsection \<open>Capacity\<close>

lemma hello_join_size:
  assumes "hello_join uuid now e conn ws room msg = (conn', room', out)" "jm_wf (rm_peers room)"
    and "hello_check limits n conn ws room msg = Inr v"
    and "length (rm_peers room) \<le> maxPeersPerSession limits"
  shows "length (rm_peers room') \<le> maxPeersPerSession limits"
proof -
  define did where "did = truthy (deviceId (h_device msg))"
  define known where "known = (case did of None \<Rightarrow> None
     | Some d \<Rightarrow> jm_get (rm_devices room) (device_key (h_role msg) d))"
  define pid where "pid = (case known of None \<Rightarrow> uuid | Some k \<Rightarrow> dv_peerId k)"
  obtain entry where peers: "rm_peers room' = jm_set pid entry (jm_delete pid (rm_peers room))"
    using assms(1) by (auto simp: hello_join_def Let_def did_def known_def pid_def)
  have "pid \<notin> fst ` set (jm_delete pid (rm_peers room))"
    by (auto simp: set_jm_delete)
  then have size: "length (rm_peers room') = Suc (length (jm_delete pid (rm_peers room)))"
    unfolding peers by (rule length_jm_set_new)
  show ?thesis
  proof (cases "pid \<in> fst ` set (rm_peers room)")
    case True
    then show ?thesis using size length_jm_delete_old [OF assms(2) True] assms(4) by simp
  next
    case False
    have "(case map_option dv_peerId known of None \<Rightarrow> False | Some p \<Rightarrow> jm_has (rm_peers room) p) = False"
      using False by (auto simp: pid_def map_of_eq_None_iff split: option.splits)
    moreover have "(case did of None \<Rightarrow> None | Some d \<Rightarrow> map_option dv_peerId
        (jm_get (rm_devices room) (device_key (h_role msg) d))) = map_option dv_peerId known"
      by (simp add: known_def split: option.splits)
    ultimately have "length (rm_peers room) < maxPeersPerSession limits"
      using assms(3) unfolding hello_check_def did_def [symmetric] Let_def
      by (simp split: option.splits if_splits)
    then show ?thesis using size jm_delete_absent [OF False] by simp
  qed
qed

text \<open>The peer cap holds for hellos that run one after the other: a room within the cap stays
  within it, a device replacing its own zombie socket included.\<close>

theorem peer_cap_kept:
  assumes "jm_wf (rm_peers room)" and "length (rm_peers room) \<le> maxPeersPerSession limits"
  shows "length (rm_peers (fst (snd (handle_hello limits n uuid now epochs conn ws room msg))))
    \<le> maxPeersPerSession limits"
proof (cases "hello_check limits n conn ws room msg")
  case (Inr v)
  obtain conn' room' out where j: "hello_join uuid now (Suc epochs) conn ws room msg = (conn', room', out)"
    by (rule prod_cases3)
  show ?thesis
    using hello_join_size [OF j assms(1) Inr assms(2)] by (simp add: handle_hello_def Inr j)
qed (simp add: handle_hello_def assms(2))

lemma peer_cap_kept_witness:
  "length (rm_peers (fst (snd (handle_hello (default_limits\<lparr>maxPeersPerSession := 1\<rparr>) 0 ''u1'' 0 0
     \<lparr>cn_sessionId = ''r'', cn_pathRole = Recorder, cn_peerId = None, cn_epoch = 0\<rparr> 1 empty_room plain_hello)))) \<le> 1"
  using peer_cap_kept [of empty_room "default_limits\<lparr>maxPeersPerSession := 1\<rparr>"]
  by (simp add: empty_room_def)

text \<open>The check and the join of a hello are separated by an await, so two hellos that both pass
  the check on the last free place both join: the room ends up one over the cap.\<close>

theorem concurrent_hellos_exceed_cap:
  assumes "jm_wf (rm_peers room)" and "Suc (length (rm_peers room)) = maxPeersPerSession limits"
    and "n < maxActiveSessions limits"
    and "u1 \<notin> fst ` set (rm_peers room)" and "u2 \<notin> fst ` set (rm_peers room)" and "u1 \<noteq> u2"
    and "truthy (deviceId (h_device m)) = None" and "negotiate_version (h_versions m) = Some v"
    and "cn_pathRole c1 = h_role m" and "cn_pathRole c2 = h_role m"
  shows "hello_check limits n c1 ws1 room m = Inr v \<and> hello_check limits n c2 ws2 room m = Inr v
    \<and> length (rm_peers (fst (snd (hello_join u2 t2 e2 c2 ws2
          (fst (snd (hello_join u1 t1 e1 c1 ws1 room m))) m)))) = Suc (maxPeersPerSession limits)"
proof -
  have check: "hello_check limits n c ws room m = Inr v" if "cn_pathRole c = h_role m" for c ws
    using assms that by (simp add: hello_check_def Let_def)
  obtain c1' r1 o1 where j1: "hello_join u1 t1 e1 c1 ws1 room m = (c1', r1, o1)"
    by (rule prod_cases3)
  obtain c2' r2 o2 where j2: "hello_join u2 t2 e2 c2 ws2 r1 m = (c2', r2, o2)"
    by (rule prod_cases3)
  obtain x1 where r1: "rm_peers r1 = jm_set u1 x1 (rm_peers room)"
    using j1 assms(4,7) by (auto simp: hello_join_def Let_def jm_delete_absent)
  have fresh: "u2 \<notin> fst ` set (rm_peers r1)"
    using assms(5,6) by (simp add: r1 keys_jm_set)
  obtain x2 where r2: "rm_peers r2 = jm_set u2 x2 (rm_peers r1)"
    using j2 assms(7) fresh by (auto simp: hello_join_def Let_def jm_delete_absent)
  have "length (rm_peers r2) = Suc (Suc (length (rm_peers room)))"
    using length_jm_set_new [OF fresh] length_jm_set_new [OF assms(4)] by (simp add: r1 r2)
  then show ?thesis using check assms(2,9,10) by (simp add: j1 j2)
qed

lemma concurrent_hellos_exceed_cap_witness:
  "length (rm_peers (fst (snd (hello_join ''u2'' 0 2
      \<lparr>cn_sessionId = ''r'', cn_pathRole = Recorder, cn_peerId = None, cn_epoch = 0\<rparr> 2
      (fst (snd (hello_join ''u1'' 0 1
         \<lparr>cn_sessionId = ''r'', cn_pathRole = Recorder, cn_peerId = None, cn_epoch = 0\<rparr> 1 empty_room plain_hello)))
      plain_hello)))) = Suc 1"
proof -
  have "negotiate_version [1] = Some 1" by (simp add: negotiate_version_Some supported_protocol_versions_def)
  then show ?thesis
    using concurrent_hellos_exceed_cap [of empty_room "default_limits\<lparr>maxPeersPerSession := 1\<rparr>" 0 "''u1''" "''u2''"
        plain_hello 1 "\<lparr>cn_sessionId = ''r'', cn_pathRole = Recorder, cn_peerId = None, cn_epoch = 0\<rparr>"
        "\<lparr>cn_sessionId = ''r'', cn_pathRole = Recorder, cn_peerId = None, cn_epoch = 0\<rparr>"]
    by (simp add: empty_room_def plain_hello_def default_limits_def truthy_def)
qed

end
