(* ===== verification/Sink_Engine.thy ===== *)
theory Sink_Engine
  imports Archive_Read
begin

text \<open>
  The sink engine of the shared core as the server drives it: \<open>packages/core/src/receiver.rs\<close>
  and \<open>packages/wasm/src/sink.rs\<close>. A receiver tracks the keys and checksums it holds; the
  frames are already decoded, \<open>crc_ok\<close> is the comparison of the declared checksum with the
  payload's. Sequence numbers are naturals, range sets are lists of inclusive ranges.
\<close>

type_synonym stream_key = "string \<times> string"

record receiver =
  rc_meta :: "(nat, chunk_meta) jsmap"
  rc_gaps :: "(nat \<times> nat) list"
  rc_finalSeq :: "nat option"
  rc_flagged :: bool

definition new_receiver :: receiver where
  "new_receiver = \<lparr>rc_meta = [], rc_gaps = [], rc_finalSeq = None, rc_flagged = False\<rparr>"

record sink_engine =
  en_streams :: "(stream_key, receiver) jsmap"

definition receiver_of :: "stream_key \<Rightarrow> sink_engine \<Rightarrow> receiver" where
  "receiver_of k e = (case jm_get (en_streams e) k of None \<Rightarrow> new_receiver | Some r \<Rightarrow> r)"

definition put_receiver :: "stream_key \<Rightarrow> receiver \<Rightarrow> sink_engine \<Rightarrow> sink_engine" where
  "put_receiver k r e = e\<lparr>en_streams := jm_set k r (en_streams e)\<rparr>"

datatype chunk_outcome = Stored | Duplicate | CorruptPayload | FatalCrcConflict | ContinuityViolation

text \<open>\<open>first_sample_index\<close> against the stored neighbours.\<close>

definition discontinuous :: "receiver \<Rightarrow> chunk_meta \<Rightarrow> bool" where
  "discontinuous r c \<longleftrightarrow>
     (if cm_seq c = 0 then False
      else if cm_seq c = 1 \<and> cm_firstSampleIndex c \<noteq> 0 then True
      else (2 \<le> cm_seq c \<and>
            (case jm_get (rc_meta r) (cm_seq c - 1) of None \<Rightarrow> False
             | Some p \<Rightarrow> cm_firstSampleIndex c \<noteq> cm_firstSampleIndex p + cm_sampleCount p))
        \<or> (case jm_get (rc_meta r) (cm_seq c + 1) of None \<Rightarrow> False
             | Some n \<Rightarrow> cm_firstSampleIndex n \<noteq> cm_firstSampleIndex c + cm_sampleCount c))"

definition ingest_chunk :: "bool \<Rightarrow> chunk_meta \<Rightarrow> receiver \<Rightarrow> chunk_outcome \<times> receiver" where
  "ingest_chunk crc_ok c r =
     (if \<not> crc_ok then (CorruptPayload, r)
      else case jm_get (rc_meta r) (cm_seq c) of
        Some old \<Rightarrow> if cm_crc32c old = cm_crc32c c then (Duplicate, r)
                    else (FatalCrcConflict, r\<lparr>rc_flagged := True\<rparr>)
      | None \<Rightarrow>
          let bad = discontinuous r c;
              r' = r\<lparr>rc_meta := jm_set (cm_seq c) c (rc_meta r)\<rparr>
          in if bad then (ContinuityViolation, r'\<lparr>rc_flagged := True\<rparr>) else (Stored, r'))"

definition record_gaps :: "(nat \<times> nat) list \<Rightarrow> receiver \<Rightarrow> receiver" where
  "record_gaps rs r = r\<lparr>rc_gaps := rc_gaps r @ rs\<rparr>"

definition rc_set_final :: "nat \<Rightarrow> receiver \<Rightarrow> receiver" where
  "rc_set_final n r = r\<lparr>rc_finalSeq :=
     (case rc_finalSeq r of None \<Rightarrow> Some n | Some old \<Rightarrow> Some (max old n))\<rparr>"

text \<open>The acknowledgement of a stream: \<open>chwm\<close> counts declared gaps as satisfied.\<close>

definition ack_chwm :: "receiver \<Rightarrow> nat option" where
  "ack_chwm r = compute_chwm (jm_keys (rc_meta r)) (rc_gaps r)"

definition remove_stream :: "stream_key \<Rightarrow> sink_engine \<Rightarrow> sink_engine" where
  "remove_stream k e = e\<lparr>en_streams := jm_delete k (en_streams e)\<rparr>"

definition engine_set_final :: "stream_key \<Rightarrow> nat \<Rightarrow> sink_engine \<Rightarrow> sink_engine" where
  "engine_set_final k n e = put_receiver k (rc_set_final n (receiver_of k e)) e"

definition rebuild_chunk :: "stream_key \<Rightarrow> chunk_meta \<Rightarrow> sink_engine \<Rightarrow> sink_engine" where
  "rebuild_chunk k c e =
     (let r = receiver_of k e
      in put_receiver k (r\<lparr>rc_meta := jm_set (cm_seq c) c (rc_meta r)\<rparr>) e)"

definition rebuild_gap :: "stream_key \<Rightarrow> nat \<times> nat \<Rightarrow> sink_engine \<Rightarrow> sink_engine" where
  "rebuild_gap k g e = put_receiver k (record_gaps [g] (receiver_of k e)) e"

text \<open>The ranges of what a receiver holds that a peer's summary lacks, as single seqs in order.\<close>

definition plan_push :: "stream_key \<Rightarrow> (nat \<times> nat) list \<Rightarrow> sink_engine \<Rightarrow> (nat \<times> nat) list" where
  "plan_push k theirs e =
     (case jm_get (en_streams e) k of None \<Rightarrow> []
      | Some r \<Rightarrow> map (\<lambda>s. (s, s)) (filter (\<lambda>s. s \<notin> set (held [] theirs)) (sort (jm_keys (rc_meta r)))))"

subsection \<open>What an engine claims\<close>

definition claims :: "sink_engine \<Rightarrow> stream_key \<Rightarrow> nat \<Rightarrow> bool" where
  "claims e k seq \<longleftrightarrow> (\<exists>r. jm_get (en_streams e) k = Some r \<and> jm_has (rc_meta r) seq)"

definition claims_gap :: "sink_engine \<Rightarrow> stream_key \<Rightarrow> nat \<times> nat \<Rightarrow> bool" where
  "claims_gap e k g \<longleftrightarrow> (\<exists>r. jm_get (en_streams e) k = Some r \<and> g \<in> set (rc_gaps r))"

lemma claims_put:
  "claims (put_receiver k r e) k' seq \<longleftrightarrow> (if k' = k then jm_has (rc_meta r) seq else claims e k' seq)"
  by (auto simp: claims_def put_receiver_def jm_get_set)

lemma claims_gap_put:
  "claims_gap (put_receiver k r e) k' g \<longleftrightarrow> (if k' = k then g \<in> set (rc_gaps r) else claims_gap e k' g)"
  by (auto simp: claims_gap_def put_receiver_def jm_get_set)

lemma receiver_of_claims:
  "jm_has (rc_meta (receiver_of k e)) seq \<longleftrightarrow> claims e k seq"
  "g \<in> set (rc_gaps (receiver_of k e)) \<longleftrightarrow> claims_gap e k g"
  by (auto simp: claims_def claims_gap_def receiver_of_def new_receiver_def split: option.splits)

lemma claims_remove: "claims (remove_stream k e) k' seq \<longleftrightarrow> k' \<noteq> k \<and> claims e k' seq"
  by (auto simp: claims_def remove_stream_def jm_get_delete)

lemma claims_gap_remove: "claims_gap (remove_stream k e) k' g \<longleftrightarrow> k' \<noteq> k \<and> claims_gap e k' g"
  by (auto simp: claims_gap_def remove_stream_def jm_get_delete)

lemma claims_set_final: "claims (engine_set_final k n e) k' seq \<longleftrightarrow> claims e k' seq"
  using receiver_of_claims(1) [of k e seq]
  by (auto simp: engine_set_final_def claims_put rc_set_final_def)

lemma claims_gap_set_final: "claims_gap (engine_set_final k n e) k' g \<longleftrightarrow> claims_gap e k' g"
  by (auto simp: engine_set_final_def claims_gap_put rc_set_final_def receiver_of_claims)

lemma claims_rebuild_chunk:
  "claims (rebuild_chunk k c e) k' seq \<longleftrightarrow> claims e k' seq \<or> (k' = k \<and> seq = cm_seq c)"
  using receiver_of_claims(1) [of k e seq]
  by (auto simp: rebuild_chunk_def Let_def claims_put jm_get_set)

lemma claims_gap_rebuild_chunk: "claims_gap (rebuild_chunk k c e) k' g \<longleftrightarrow> claims_gap e k' g"
  by (auto simp: rebuild_chunk_def Let_def claims_gap_put receiver_of_claims)

lemma claims_rebuild_gap: "claims (rebuild_gap k q e) k' seq \<longleftrightarrow> claims e k' seq"
  using receiver_of_claims(1) [of k e seq]
  by (auto simp: rebuild_gap_def record_gaps_def claims_put)

lemma claims_gap_rebuild_gap: "claims_gap (rebuild_gap k q e) k' g \<longleftrightarrow> claims_gap e k' g \<or> (k' = k \<and> g = q)"
  by (auto simp: rebuild_gap_def record_gaps_def claims_gap_put receiver_of_claims)

lemmas claims_simps = claims_put claims_gap_put receiver_of_claims claims_remove claims_gap_remove
  claims_set_final claims_gap_set_final claims_rebuild_chunk claims_gap_rebuild_chunk
  claims_rebuild_gap claims_gap_rebuild_gap

lemma ingest_chunk_claims:
  assumes "ingest_chunk ok c (receiver_of k e) = (res, r)"
  shows "claims (put_receiver k r e) k' seq \<longleftrightarrow>
      claims e k' seq \<or> (k' = k \<and> seq = cm_seq c \<and> res \<in> {Stored, ContinuityViolation})"
    and "claims_gap (put_receiver k r e) k' g \<longleftrightarrow> claims_gap e k' g"
  using assms receiver_of_claims(1) [of k e seq]
  by (auto simp: ingest_chunk_def Let_def claims_put claims_gap_put receiver_of_claims jm_get_set
      split: if_splits option.splits)

end
