(* ===== verification/Ingest.thy ===== *)
theory Ingest
  imports Sink_Engine Archive_Retention Signaling
begin

text \<open>
  \<open>apps/server/src/ingest/index.ts\<close>, \<open>link.ts\<close>, \<open>frames.ts\<close> and \<open>rebuild.ts\<close>: a session's
  ingest. Its work is one chain of tasks, each run to its end before the next; a task that
  fails poisons the ingest, which then rebuilds its engine from the archive. The database can
  be unavailable at any call: \<open>ig_db\<close> lists whether the next calls are answered.
\<close>

subsection \<open>State\<close>

record queued_key =
  qk_takeId :: string
  qk_streamId :: string
  qk_seq :: nat

record peer_link =
  pl_dataChannel :: "nat option"
  pl_syncChannel :: "nat option"
  pl_pushQueue :: "queued_key list"
  pl_fetching :: "queued_key option"
  pl_closed :: bool

text \<open>\<open>link.pushing\<close> is true exactly while a frame is being fetched.\<close>

definition new_link :: peer_link where
  "new_link = \<lparr>pl_dataChannel = None, pl_syncChannel = None, pl_pushQueue = [], pl_fetching = None,
     pl_closed = False\<rparr>"

record ingest =
  ig_sessionId :: string
  ig_engine :: "sink_engine option"
  ig_archive :: archive
  ig_db :: "bool list"
  ig_links :: "(string, peer_link) jsmap"
  ig_knownTakes :: "string list"
  ig_knownStreams :: "string list"
  ig_headerApplied :: "string list"
  ig_timers :: nat
  ig_closed :: bool

datatype ingest_out =
    SendBytes nat bytes
  | SendAck nat stream_key "nat option"
  | SendHave nat stream_key
  | SendPong nat
  | Fatal string string

text \<open>What a data channel reports: open, and how many bytes are buffered.\<close>

type_synonym channels = "nat \<Rightarrow> bool \<times> nat"

definition high_watermark :: nat where "high_watermark = 1048576"
definition low_watermark :: nat where "low_watermark = 262144"

subsection \<open>Calls into the archive\<close>

text \<open>A task is a state transformer that may fail; what it changed before it failed stays.\<close>

type_synonym 'a ig_task = "ingest \<Rightarrow> (archive_error + 'a) \<times> ingest"

definition ig_ok :: "'a \<Rightarrow> 'a ig_task" where
  "ig_ok x st = (Inr x, st)"

definition ig_then :: "'a ig_task \<Rightarrow> ('a \<Rightarrow> 'b ig_task) \<Rightarrow> 'b ig_task" where
  "ig_then m k st = (case m st of (Inl e, st') \<Rightarrow> (Inl e, st') | (Inr x, st') \<Rightarrow> k x st')"

definition ig_mod :: "(ingest \<Rightarrow> ingest) \<Rightarrow> unit ig_task" where
  "ig_mod f st = (Inr (), f st)"

text \<open>One awaited archive call: refused while the database is down, else its own outcome.\<close>

definition ig_call :: "(archive \<Rightarrow> (archive_error + 'a) \<times> archive) \<Rightarrow> 'a ig_task" where
  "ig_call f st =
     (let up = (case ig_db st of [] \<Rightarrow> True | b # _ \<Rightarrow> b);
          st = st\<lparr>ig_db := tl (ig_db st)\<rparr>
      in if \<not> up then (Inl DbUnavailable, st)
         else let (res, a) = f (ig_archive st) in (res, st\<lparr>ig_archive := a\<rparr>))"

definition ig_write :: "(archive \<Rightarrow> archive) \<Rightarrow> unit ig_task" where
  "ig_write f = ig_call (\<lambda>a. (Inr (), f a))"

definition ig_try :: "(archive \<Rightarrow> archive_error + archive) \<Rightarrow> unit ig_task" where
  "ig_try f = ig_call (\<lambda>a. case f a of Inl e \<Rightarrow> (Inl e, a) | Inr a' \<Rightarrow> (Inr (), a'))"

lemmas ig_defs = ig_ok_def ig_then_def ig_mod_def ig_call_def ig_write_def ig_try_def

subsection \<open>Frames\<close>

definition add_known :: "string \<Rightarrow> string list \<Rightarrow> string list" where
  "add_known x xs = (if x \<in> set xs then xs else xs @ [x])"

definition ensure_stream_persisted :: "int \<Rightarrow> string \<Rightarrow> string \<Rightarrow> string option \<Rightarrow> unit ig_task" where
  "ensure_stream_persisted now tid stid peer =
     ig_then
       (\<lambda>st. if tid \<notin> set (ig_knownTakes st)
             then ig_then (ig_write (ensure_take now (ig_sessionId st) tid None))
                    (\<lambda>_. ig_mod (\<lambda>st. st\<lparr>ig_knownTakes := add_known tid (ig_knownTakes st)\<rparr>)) st
             else ig_ok () st)
       (\<lambda>_ st. if stid \<notin> set (ig_knownStreams st) \<or> truthy peer \<noteq> None
             then ig_then (ig_try (ensure_stream tid stid peer))
                    (\<lambda>_. ig_mod (\<lambda>st. st\<lparr>ig_knownStreams := add_known stid (ig_knownStreams st)\<rparr>)) st
             else ig_ok () st)"

text \<open>\<open>applyHeader\<close>: every failure in it is caught and logged.\<close>

definition apply_header :: "(bytes \<Rightarrow> stream_header option) \<Rightarrow> string \<Rightarrow> bytes \<Rightarrow> ingest \<Rightarrow> ingest" where
  "apply_header parse stid frame st =
     (if stid \<in> set (ig_headerApplied st) then st
      else case parse frame of
        None \<Rightarrow> st
      | Some h \<Rightarrow>
          snd (ig_then (ig_write (apply_stream_header stid h))
                 (\<lambda>_. ig_mod (\<lambda>st. st\<lparr>ig_headerApplied := add_known stid (ig_headerApplied st)\<rparr>)) st))"

subsection \<open>Push queues\<close>

text \<open>The head of the drain loop: fetch the oldest key unless the channel is closed or congested.\<close>

definition drain_channel :: "peer_link \<Rightarrow> nat option" where
  "drain_channel link = (case pl_syncChannel link of Some c \<Rightarrow> Some c | None \<Rightarrow> pl_dataChannel link)"

definition drain_head :: "channels \<Rightarrow> peer_link \<Rightarrow> peer_link" where
  "drain_head cs link =
     (case drain_channel link of
        None \<Rightarrow> link\<lparr>pl_fetching := None\<rparr>
      | Some c \<Rightarrow>
          (case pl_pushQueue link of
             [] \<Rightarrow> link\<lparr>pl_fetching := None\<rparr>
           | k # ks \<Rightarrow>
               if \<not> fst (cs c) \<or> snd (cs c) > high_watermark then link\<lparr>pl_fetching := None\<rparr>
               else link\<lparr>pl_pushQueue := ks, pl_fetching := Some k\<rparr>))"

definition drain_push_queue :: "channels \<Rightarrow> peer_link \<Rightarrow> peer_link" where
  "drain_push_queue cs link =
     (if pl_fetching link \<noteq> None \<or> pl_closed link then link else drain_head cs link)"

text \<open>The fetched frame arrives (\<open>None\<close> when its blob is missing): send it, then loop.\<close>

definition drain_fetched :: "channels \<Rightarrow> bytes option \<Rightarrow> peer_link \<Rightarrow> peer_link \<times> ingest_out list" where
  "drain_fetched cs frame link =
     (if pl_fetching link = None then (link, [])
      else (drain_head cs link,
        case (drain_channel link, frame) of
          (Some c, Some b) \<Rightarrow> if fst (cs c) then [SendBytes c b] else []
        | _ \<Rightarrow> []))"

definition range_keys :: "stream_key \<Rightarrow> (nat \<times> nat) list \<Rightarrow> queued_key list" where
  "range_keys k ranges =
     map (\<lambda>s. \<lparr>qk_takeId = fst k, qk_streamId = snd k, qk_seq = s\<rparr>) (held [] ranges)"

definition queue_push :: "channels \<Rightarrow> stream_key \<Rightarrow> (nat \<times> nat) list \<Rightarrow> peer_link \<Rightarrow> peer_link" where
  "queue_push cs k ranges link =
     drain_push_queue cs (link\<lparr>pl_pushQueue := pl_pushQueue link @ range_keys k ranges\<rparr>)"

subsection \<open>Live tees\<close>

definition tee_raw_one :: "channels \<Rightarrow> string \<Rightarrow> bytes \<Rightarrow> string \<times> peer_link \<Rightarrow> ingest_out list" where
  "tee_raw_one cs source b = (\<lambda>(pid, link).
     if pid = source then []
     else case pl_syncChannel link of None \<Rightarrow> []
       | Some c \<Rightarrow> if fst (cs c) \<and> snd (cs c) < low_watermark then [SendBytes c b] else [])"

definition tee_raw_to_sync_peers :: "channels \<Rightarrow> string \<Rightarrow> bytes \<Rightarrow> (string, peer_link) jsmap \<Rightarrow> ingest_out list" where
  "tee_raw_to_sync_peers cs source b links = concat (map (tee_raw_one cs source b) links)"

definition tee_one :: "channels \<Rightarrow> string \<Rightarrow> chunk_meta \<Rightarrow> bytes \<Rightarrow> string \<times> peer_link
    \<Rightarrow> (string \<times> peer_link) \<times> ingest_out list" where
  "tee_one cs source m b = (\<lambda>(pid, link).
     if pid = source then ((pid, link), [])
     else case pl_syncChannel link of None \<Rightarrow> ((pid, link), [])
       | Some c \<Rightarrow>
           if \<not> fst (cs c) then ((pid, link), [])
           else if snd (cs c) > high_watermark
           then ((pid, queue_push cs (cm_takeId m, cm_streamId m) [(cm_seq m, cm_seq m)] link), [])
           else ((pid, link), [SendBytes c b]))"

definition tee_to_sync_peers :: "channels \<Rightarrow> string \<Rightarrow> chunk_meta \<Rightarrow> bytes \<Rightarrow> (string, peer_link) jsmap
    \<Rightarrow> (string, peer_link) jsmap \<times> ingest_out list" where
  "tee_to_sync_peers cs source m b links =
     (map (fst \<circ> tee_one cs source m b) links, concat (map (snd \<circ> tee_one cs source m b) links))"

text \<open>Inbound frames as the engine decodes them.\<close>

datatype in_frame =
    InChunk bool chunk_meta
  | InGapReport stream_key "(nat \<times> nat) list"
  | InTimePing
  | InTimePong
  | InHave stream_key "(nat \<times> nat) list"
  | InBackfill stream_key "(nat \<times> nat) list"
  | InAck
  | InUnknown
  | InDiscard

definition chunk_key :: "chunk_meta \<Rightarrow> stream_key" where
  "chunk_key m = (cm_takeId m, cm_streamId m)"

text \<open>
  \<open>engine.ingest\<close> followed by the switch on its result. The engine has already changed when
  a later archive call fails.
\<close>

definition process_frame ::
    "channels \<Rightarrow> (string \<Rightarrow> bool) \<Rightarrow> (bytes \<Rightarrow> stream_header option) \<Rightarrow> int \<Rightarrow> string \<Rightarrow> nat \<Rightarrow> in_frame \<Rightarrow> bytes
      \<Rightarrow> sink_engine \<Rightarrow> ingest_out list ig_task" where
  "process_frame cs io parse now peer dc frame b e st =
     (case frame of
        InChunk crc_ok m \<Rightarrow>
          let k = chunk_key m;
              (res, r) = ingest_chunk crc_ok m (receiver_of k e);
              st = st\<lparr>ig_engine := Some (put_receiver k r e)\<rparr>
          in (case res of
                Duplicate \<Rightarrow> (Inr [], st)
              | CorruptPayload \<Rightarrow> (Inr [], st)
              | FatalCrcConflict \<Rightarrow>
                  ig_then (ig_write (flag_stream (cm_streamId m)))
                    (\<lambda>_. ig_ok [Fatal peer ''chunk-key-conflict'']) st
              | _ \<Rightarrow>
                  ig_then (ensure_stream_persisted now (cm_takeId m) (cm_streamId m) None) (\<lambda>_.
                  ig_then (ig_mod (\<lambda>st. if cm_seq m = 0 then apply_header parse (cm_streamId m) b st else st)) (\<lambda>_.
                  ig_then (ig_call (persist_chunk io m b)) (\<lambda>_.
                  ig_then (if res = ContinuityViolation
                           then ig_then (ig_write (flag_stream (cm_streamId m)))
                                  (\<lambda>_. ig_ok [Fatal peer ''stream-discontinuity''])
                           else ig_ok []) (\<lambda>out st.
                    let (links, tees) = tee_to_sync_peers cs peer m b (ig_links st)
                    in (Inr (out @ tees), st\<lparr>ig_links := links\<rparr>))))) st)
      | InGapReport k ranges \<Rightarrow>
          let st = st\<lparr>ig_engine := Some (put_receiver k (record_gaps ranges (receiver_of k e)) e)\<rparr>
          in ig_then (ensure_stream_persisted now (fst k) (snd k) None) (\<lambda>_.
             ig_then (ig_try (persist_gaps (snd k) ranges)) (\<lambda>_. ig_ok [])) st
      | InTimePing \<Rightarrow> (Inr (if fst (cs dc) then [SendPong dc] else []), st)
      | InHave k ranges \<Rightarrow>
          (Inr [], st\<lparr>ig_links := map (\<lambda>(p, l). (p, if p = peer then queue_push cs k (plan_push k ranges e) l else l))
                        (ig_links st)\<rparr>)
      | InBackfill k ranges \<Rightarrow>
          (Inr [], st\<lparr>ig_links := map (\<lambda>(p, l). (p, if p = peer then queue_push cs k ranges l else l))
                        (ig_links st)\<rparr>)
      | InUnknown \<Rightarrow>
          (Inr (if (case jm_get (ig_links st) peer of None \<Rightarrow> False | Some l \<Rightarrow> pl_dataChannel l = Some dc)
                then tee_raw_to_sync_peers cs peer b (ig_links st) else []), st)
      | _ \<Rightarrow> (Inr [], st))"

subsection \<open>Rebuild\<close>

text \<open>\<open>rebuildEngine\<close> from the scan of the session; the known sets it fills are returned.\<close>

definition row_meta :: "string \<times> nat \<Rightarrow> chunk_row \<Rightarrow> chunk_meta" where
  "row_meta k r = \<lparr>cm_takeId = ch_takeId r, cm_streamId = fst k, cm_seq = snd k,
     cm_firstSampleIndex = ch_firstSampleIndex r, cm_sampleCount = ch_sampleCount r,
     cm_captureTsUs = 0, cm_crc32c = ch_crc32c r, cm_payloadLen = ch_payloadLen r\<rparr>"

definition rebuild_chunks :: "((string \<times> nat) \<times> chunk_row) list \<Rightarrow> sink_engine \<Rightarrow> sink_engine" where
  "rebuild_chunks rows e =
     foldl (\<lambda>e (k, r). rebuild_chunk (ch_takeId r, fst k) (row_meta k r) e) e rows"

definition rebuild_finals :: "(string \<times> stream_row) list \<Rightarrow> sink_engine \<Rightarrow> sink_engine" where
  "rebuild_finals rows e =
     foldl (\<lambda>e (k, s). case st_finalSeq s of None \<Rightarrow> e
        | Some n \<Rightarrow> engine_set_final (st_takeId s, k) n e) e rows"

definition rebuild_gaps :: "(string \<times> stream_row) list \<Rightarrow> ((string \<times> nat) \<times> gap_row) list \<Rightarrow> sink_engine \<Rightarrow> sink_engine" where
  "rebuild_gaps sts rows e =
     foldl (\<lambda>e (k, g). case jm_get sts (fst k) of None \<Rightarrow> e
        | Some s \<Rightarrow> rebuild_gap (st_takeId s, fst k) (snd k, ga_endSeq g) e) e rows"

definition rebuild_engine :: "session_scan \<Rightarrow> sink_engine" where
  "rebuild_engine sc =
     rebuild_gaps (sc_streams sc) (sc_gaps sc)
       (rebuild_finals (sc_streams sc) (rebuild_chunks (sc_chunks sc) \<lparr>en_streams = []\<rparr>))"

text \<open>\<open>init\<close>: rebuild, then start the two interval timers.\<close>

definition ingest_init :: "ingest \<Rightarrow> ingest" where
  "ingest_init st =
     (case ig_call (\<lambda>a. (Inr (load_session_state (ig_sessionId st) (db a)), a)) st of
        (Inl _, st') \<Rightarrow> st'\<lparr>ig_engine := None\<rparr>
      | (Inr sc, st') \<Rightarrow>
          st'\<lparr>ig_engine := Some (rebuild_engine sc),
              ig_knownTakes := js_dedupe (ig_knownTakes st' @ map (ch_takeId \<circ> snd) (sc_chunks sc)
                                 @ map (st_takeId \<circ> snd) (sc_streams sc)),
              ig_knownStreams := js_dedupe (ig_knownStreams st' @ map (fst \<circ> fst) (sc_chunks sc)
                                 @ map fst (sc_streams sc)),
              ig_headerApplied := js_dedupe (ig_headerApplied st'
                                 @ map fst (filter (\<lambda>(_, s). st_header s \<noteq> None) (sc_streams sc))),
              ig_timers := ig_timers st' + 2\<rparr>)"

definition close_peer :: "string \<Rightarrow> ingest \<Rightarrow> ingest" where
  "close_peer pid st = st\<lparr>ig_links := jm_delete pid (ig_links st)\<rparr>"

text \<open>\<open>enqueue\<close>'s catch: drop every link, forget the known sets, rebuild.\<close>

definition poison :: "ingest \<Rightarrow> ingest" where
  "poison st =
     ingest_init (st\<lparr>ig_links := [], ig_headerApplied := [], ig_knownTakes := [], ig_knownStreams := []\<rparr>)"

text \<open>\<open>close\<close> clears the two timers of the last \<open>init\<close>.\<close>

definition ingest_close :: "ingest \<Rightarrow> ingest" where
  "ingest_close st = st\<lparr>ig_closed := True, ig_timers := ig_timers st - 2, ig_links := []\<rparr>"

subsection \<open>Tasks\<close>

datatype task =
    NoteTake string "int option"
  | NoteTakeStop string
  | NoteStream string string "string option"
  | SetFinal string string nat
  | DeleteStreamsTask "stream_ref list"
  | FrameTask string nat in_frame bytes
  | SendAcksTask
  | AnnounceTask bool nat

definition send_acks_to :: "channels \<Rightarrow> sink_engine option \<Rightarrow> nat \<Rightarrow> ingest_out list" where
  "send_acks_to cs e dc =
     (case e of None \<Rightarrow> []
      | Some e \<Rightarrow> if fst (cs dc) then map (\<lambda>k. SendAck dc k (ack_chwm (receiver_of k e))) (jm_keys (en_streams e)) else [])"

definition send_haves :: "channels \<Rightarrow> sink_engine option \<Rightarrow> nat \<Rightarrow> ingest_out list" where
  "send_haves cs e dc =
     (case e of None \<Rightarrow> []
      | Some e \<Rightarrow> if fst (cs dc) then map (\<lambda>(k, r). SendHave dc k) (en_streams e) else [])"

definition send_acks :: "channels \<Rightarrow> ingest \<Rightarrow> ingest_out list" where
  "send_acks cs st =
     (if ig_engine st = None \<or> ig_closed st then []
      else concat (map (\<lambda>(_, l).
        case (case pl_dataChannel l of Some c \<Rightarrow> Some c | None \<Rightarrow> pl_syncChannel l) of
          None \<Rightarrow> [] | Some c \<Rightarrow> if fst (cs c) then send_acks_to cs (ig_engine st) c else []) (ig_links st)))"

fun exec_task ::
    "channels \<Rightarrow> (string \<Rightarrow> bool) \<Rightarrow> (bytes \<Rightarrow> stream_header option) \<Rightarrow> int \<Rightarrow> task \<Rightarrow> ingest_out list ig_task" where
  "exec_task cs io parse now (NoteTake tid hint) =
     ig_then (\<lambda>st. ig_write (ensure_take now (ig_sessionId st) tid hint) st) (\<lambda>_.
     ig_then (ig_mod (\<lambda>st. st\<lparr>ig_knownTakes := add_known tid (ig_knownTakes st)\<rparr>)) (\<lambda>_. ig_ok []))"
| "exec_task cs io parse now (NoteTakeStop tid) =
     ig_then (ig_write (stop_take now tid)) (\<lambda>_.
     ig_then (ig_call (\<lambda>a. let (gone, a') = delete_take_if_empty tid a in (Inr gone, a'))) (\<lambda>gone.
     ig_then (ig_mod (\<lambda>st. if gone then st\<lparr>ig_knownTakes := removeAll tid (ig_knownTakes st)\<rparr> else st)) (\<lambda>_ st.
       (Inr (send_acks cs st), st))))"
| "exec_task cs io parse now (NoteStream tid stid peer) =
     ig_then (ensure_stream_persisted now tid stid peer) (\<lambda>_. ig_ok [])"
| "exec_task cs io parse now (SetFinal tid stid n) =
     ig_then (ensure_stream_persisted now tid stid None) (\<lambda>_.
     ig_then (ig_mod (\<lambda>st. st\<lparr>ig_engine := map_option (engine_set_final (tid, stid) n) (ig_engine st)\<rparr>)) (\<lambda>_.
     ig_then (ig_write (set_final_seq stid n)) (\<lambda>_ st. (Inr (send_acks cs st), st))))"
| "exec_task cs io parse now (DeleteStreamsTask refs) =
     ig_then (ig_mod (\<lambda>st. st
        \<lparr>ig_engine := map_option (\<lambda>e. foldl (\<lambda>e r. remove_stream (sr_takeId r, sr_streamId r) e) e refs) (ig_engine st),
         ig_knownStreams := filter (\<lambda>s. s \<notin> set (map sr_streamId refs)) (ig_knownStreams st),
         ig_headerApplied := filter (\<lambda>s. s \<notin> set (map sr_streamId refs)) (ig_headerApplied st),
         ig_links := map (\<lambda>(p, l). (p, l\<lparr>pl_pushQueue :=
             filter (\<lambda>q. qk_streamId q \<notin> set (map sr_streamId refs)) (pl_pushQueue l)\<rparr>)) (ig_links st)\<rparr>)) (\<lambda>_.
     ig_then (ig_call (\<lambda>a. let (ids, a') = delete_streams io refs a in (Inr ids, a'))) (\<lambda>ids.
     ig_then (ig_mod (\<lambda>st. st\<lparr>ig_knownTakes := filter (\<lambda>t. t \<notin> set ids) (ig_knownTakes st)\<rparr>)) (\<lambda>_. ig_ok [])))"
| "exec_task cs io parse now (FrameTask peer dc frame b) = (\<lambda>st.
     case ig_engine st of None \<Rightarrow> (Inr [], st)
     | Some e \<Rightarrow> if ig_closed st then (Inr [], st) else process_frame cs io parse now peer dc frame b e st)"
| "exec_task cs io parse now SendAcksTask = (\<lambda>st. (Inr (send_acks cs st), st))"
| "exec_task cs io parse now (AnnounceTask sync dc) = (\<lambda>st.
     (Inr (send_acks_to cs (ig_engine st) dc @ (if sync then send_haves cs (ig_engine st) dc else [])), st))"

text \<open>One link of the promise chain. The frames a failing task had sent are dropped from the trace.\<close>

definition run_task ::
    "channels \<Rightarrow> (string \<Rightarrow> bool) \<Rightarrow> (bytes \<Rightarrow> stream_header option) \<Rightarrow> int \<Rightarrow> task \<Rightarrow> ingest \<Rightarrow> ingest \<times> ingest_out list" where
  "run_task cs io parse now t st =
     (case exec_task cs io parse now t st of
        (Inr out, st') \<Rightarrow> (st', out)
      | (Inl e, st') \<Rightarrow> (poison st', []))"

subsection \<open>Acknowledgements are durable\<close>

text \<open>
  What is right of the archive at any time: its own invariant (a chunk row has its blob) and
  that every gap row was declared, \<open>D\<close> naming the declarations.
\<close>

definition archive_ok :: "(string \<Rightarrow> nat \<times> nat \<Rightarrow> bool) \<Rightarrow> archive \<Rightarrow> bool" where
  "archive_ok D a \<longleftrightarrow> archive_inv a \<and> rows_all (gaps (db a)) (\<lambda>k g. D (fst k) (snd k, ga_endSeq g))"

lemma archive_okD: "archive_ok D a \<Longrightarrow> archive_inv a"
  "archive_ok D a \<Longrightarrow> ((stid, s), g) \<in> set (gaps (db a)) \<Longrightarrow> D stid (s, ga_endSeq g)"
  by (fastforce simp: archive_ok_def rows_all_def)+

text \<open>Everything the engine claims to hold has a row; what it calls a gap was declared, and has one.\<close>

definition gap_known :: "(string \<Rightarrow> nat \<times> nat \<Rightarrow> bool) \<Rightarrow> archive_db \<Rightarrow> string \<Rightarrow> nat \<times> nat \<Rightarrow> bool" where
  "gap_known D d stid g \<longleftrightarrow> (stid, fst g) \<in> keys_of (gaps d) \<and> D stid g"

definition engine_durable :: "(string \<Rightarrow> nat \<times> nat \<Rightarrow> bool) \<Rightarrow> sink_engine \<Rightarrow> archive_db \<Rightarrow> bool" where
  "engine_durable D e d \<longleftrightarrow>
     (\<forall>k seq. claims e k seq \<longrightarrow> (snd k, seq) \<in> keys_of (chunks d))
   \<and> (\<forall>k g. claims_gap e k g \<longrightarrow> gap_known D d (snd k) g)"

definition ingest_inv :: "(string \<Rightarrow> nat \<times> nat \<Rightarrow> bool) \<Rightarrow> ingest \<Rightarrow> bool" where
  "ingest_inv D st \<longleftrightarrow> (case ig_engine st of None \<Rightarrow> True | Some e \<Rightarrow> engine_durable D e (db (ig_archive st)))"

lemma engine_durableD:
  "engine_durable D e d \<Longrightarrow> claims e k seq \<Longrightarrow> (snd k, seq) \<in> keys_of (chunks d)"
  "engine_durable D e d \<Longrightarrow> claims_gap e k g \<Longrightarrow> gap_known D d (snd k) g"
  unfolding engine_durable_def by blast+

lemma claims_empty: "\<not> claims \<lparr>en_streams = []\<rparr> k seq" "\<not> claims_gap \<lparr>en_streams = []\<rparr> k g"
  by (simp_all add: claims_def claims_gap_def)

text \<open>Rebuilding claims exactly what the scan holds.\<close>

lemma claims_rebuild_chunks:
  "claims (rebuild_chunks rows e) k seq \<longleftrightarrow>
     claims e k seq \<or> (\<exists>r. ((snd k, seq), r) \<in> set rows \<and> ch_takeId r = fst k)"
  "claims_gap (rebuild_chunks rows e) k g \<longleftrightarrow> claims_gap e k g"
proof -
  show "claims (rebuild_chunks rows e) k seq \<longleftrightarrow>
     claims e k seq \<or> (\<exists>r. ((snd k, seq), r) \<in> set rows \<and> ch_takeId r = fst k)"
  proof (induction rows arbitrary: e)
    case (Cons p rows)
    obtain j n r where p: "p = ((j, n), r)" by (metis surj_pair)
    have step: "rebuild_chunks (p # rows) e
        = rebuild_chunks rows (rebuild_chunk (ch_takeId r, j) (row_meta (j, n) r) e)"
      by (simp add: rebuild_chunks_def p)
    have seq: "cm_seq (row_meta (j, n) r) = n" by (simp add: row_meta_def)
    have "claims (rebuild_chunks (p # rows) e) k seq \<longleftrightarrow>
        (claims e k seq \<or> k = (ch_takeId r, j) \<and> seq = n)
        \<or> (\<exists>r'. ((snd k, seq), r') \<in> set rows \<and> ch_takeId r' = fst k)"
      unfolding step by (subst Cons.IH) (simp only: claims_rebuild_chunk seq)
    moreover have "k = (ch_takeId r, j) \<and> seq = n \<longleftrightarrow> ((snd k, seq) = (j, n) \<and> ch_takeId r = fst k)"
      by (cases k) auto
    moreover have "(\<exists>r'. ((snd k, seq), r') \<in> set (p # rows) \<and> ch_takeId r' = fst k)
        \<longleftrightarrow> ((snd k, seq) = (j, n) \<and> ch_takeId r = fst k)
            \<or> (\<exists>r'. ((snd k, seq), r') \<in> set rows \<and> ch_takeId r' = fst k)"
      unfolding p list.set insert_iff prod.inject by blast
    ultimately show ?case by argo
  qed (simp add: rebuild_chunks_def)
  show "claims_gap (rebuild_chunks rows e) k g \<longleftrightarrow> claims_gap e k g"
  proof (induction rows arbitrary: e)
    case (Cons p rows)
    then show ?case by (cases p) (simp add: rebuild_chunks_def claims_gap_rebuild_chunk)
  qed (simp add: rebuild_chunks_def)
qed

lemma claims_rebuild_finals:
  "claims (rebuild_finals sts e) k seq \<longleftrightarrow> claims e k seq"
  "claims_gap (rebuild_finals sts e) k g \<longleftrightarrow> claims_gap e k g"
proof -
  show "claims (rebuild_finals sts e) k seq \<longleftrightarrow> claims e k seq"
  proof (induction sts arbitrary: e)
    case (Cons p sts)
    then show ?case by (cases "st_finalSeq (snd p)")
      (auto simp: rebuild_finals_def split_beta claims_set_final)
  qed (simp add: rebuild_finals_def)
  show "claims_gap (rebuild_finals sts e) k g \<longleftrightarrow> claims_gap e k g"
  proof (induction sts arbitrary: e)
    case (Cons p sts)
    then show ?case by (cases "st_finalSeq (snd p)")
      (auto simp: rebuild_finals_def split_beta claims_gap_set_final)
  qed (simp add: rebuild_finals_def)
qed

lemma claims_rebuild_gaps:
  "claims (rebuild_gaps sts rows e) k seq \<longleftrightarrow> claims e k seq"
  "claims_gap (rebuild_gaps sts rows e) k g \<longleftrightarrow> claims_gap e k g
     \<or> (\<exists>r s. ((snd k, fst g), r) \<in> set rows \<and> ga_endSeq r = snd g
          \<and> jm_get sts (snd k) = Some s \<and> st_takeId s = fst k)"
proof -
  show "claims (rebuild_gaps sts rows e) k seq \<longleftrightarrow> claims e k seq"
  proof (induction rows arbitrary: e)
    case (Cons p rows)
    then show ?case by (cases "jm_get sts (fst (fst p))")
      (auto simp: rebuild_gaps_def split_beta claims_rebuild_gap)
  qed (simp add: rebuild_gaps_def)
  show "claims_gap (rebuild_gaps sts rows e) k g \<longleftrightarrow> claims_gap e k g
     \<or> (\<exists>r s. ((snd k, fst g), r) \<in> set rows \<and> ga_endSeq r = snd g
          \<and> jm_get sts (snd k) = Some s \<and> st_takeId s = fst k)"
  proof (induction rows arbitrary: e)
    case (Cons p rows)
    obtain j n r where p: "p = ((j, n), r)" by (metis surj_pair)
    have here: "(\<exists>r s. ((snd k, fst g), r) \<in> set (p # rows) \<and> ga_endSeq r = snd g
          \<and> jm_get sts (snd k) = Some s \<and> st_takeId s = fst k) \<longleftrightarrow>
        (snd k = j \<and> g = (n, ga_endSeq r) \<and> (\<exists>s. jm_get sts j = Some s \<and> st_takeId s = fst k))
        \<or> (\<exists>r s. ((snd k, fst g), r) \<in> set rows \<and> ga_endSeq r = snd g
          \<and> jm_get sts (snd k) = Some s \<and> st_takeId s = fst k)"
      unfolding p by (cases g) auto
    show ?case
    proof (cases "jm_get sts j")
      case None
      have "rebuild_gaps sts (p # rows) e = rebuild_gaps sts rows e"
        by (simp add: rebuild_gaps_def p None)
      then show ?thesis unfolding here using Cons.IH [of e] None by simp
    next
      case (Some s)
      have step: "rebuild_gaps sts (p # rows) e = rebuild_gaps sts rows (rebuild_gap (st_takeId s, j) (n, ga_endSeq r) e)"
        by (simp add: rebuild_gaps_def p Some)
      have "k = (st_takeId s, j) \<and> g = (n, ga_endSeq r) \<longleftrightarrow>
          snd k = j \<and> g = (n, ga_endSeq r) \<and> (\<exists>s. jm_get sts j = Some s \<and> st_takeId s = fst k)"
        using Some by (cases k) auto
      then show ?thesis unfolding here step Cons.IH claims_gap_rebuild_gap by blast
    qed
  qed (simp add: rebuild_gaps_def)
qed

text \<open>Poisoning always restores the invariant: the engine is what the archive holds.\<close>

lemma scan_rows:
  "(k, r) \<in> set (sc_chunks (load_session_state sid d)) \<Longrightarrow> (k, r) \<in> set (chunks d)"
  "(k, g) \<in> set (sc_gaps (load_session_state sid d)) \<Longrightarrow> (k, g) \<in> set (gaps d)"
  by (auto simp: load_session_state_def Let_def keys_of_def split: if_splits)

lemma rebuild_engine_gap:
  assumes "claims_gap (rebuild_engine (load_session_state sid d)) k g"
  shows "\<exists>r. ((snd k, fst g), r) \<in> set (gaps d) \<and> ga_endSeq r = snd g"
  using assms unfolding rebuild_engine_def claims_rebuild_gaps claims_rebuild_finals claims_rebuild_chunks
  by (auto simp: claims_empty dest: scan_rows(2))

lemma rebuild_engine_durable:
  assumes "rows_all (gaps d) (\<lambda>k g. D (fst k) (snd k, ga_endSeq g))"
  shows "engine_durable D (rebuild_engine (load_session_state sid d)) d"
  unfolding engine_durable_def
proof (intro conjI allI impI)
  fix k seq assume "claims (rebuild_engine (load_session_state sid d)) k seq"
  then obtain r where "((snd k, seq), r) \<in> set (sc_chunks (load_session_state sid d))"
    by (auto simp: rebuild_engine_def claims_rebuild_gaps claims_rebuild_finals claims_rebuild_chunks claims_empty)
  then show "(snd k, seq) \<in> keys_of (chunks d)"
    using scan_rows(1) keys_of_I by fast
next
  fix k g assume "claims_gap (rebuild_engine (load_session_state sid d)) k g"
  then obtain r where r: "((snd k, fst g), r) \<in> set (gaps d)" "ga_endSeq r = snd g"
    using rebuild_engine_gap by blast
  then show "gap_known D d (snd k) g"
    using keys_of_I [OF r(1)] assms by (fastforce simp: gap_known_def rows_all_def)
qed

lemma ingest_init_inv: "archive_ok D (ig_archive st) \<Longrightarrow> ingest_inv D (ingest_init st)"
  using rebuild_engine_durable [of "db (ig_archive st)" D]
  by (auto simp: archive_ok_def ingest_init_def ig_call_def Let_def ingest_inv_def split: if_splits list.splits bool.splits)

lemma ingest_init_archive: "ig_archive (ingest_init st) = ig_archive st"
  by (auto simp: ingest_init_def ig_call_def Let_def split: if_splits list.splits)

lemma poison_inv: "archive_ok D (ig_archive st) \<Longrightarrow> ingest_inv D (poison st)"
  unfolding poison_def by (rule ingest_init_inv) simp

text \<open>What a successful task keeps: the engine, and every chunk and gap row.\<close>

definition db_grows :: "archive_db \<Rightarrow> archive_db \<Rightarrow> bool" where
  "db_grows d d' \<longleftrightarrow> keys_of (chunks d) \<subseteq> keys_of (chunks d') \<and> keys_of (gaps d) \<subseteq> keys_of (gaps d')"

definition grows :: "ingest \<Rightarrow> ingest \<Rightarrow> bool" where
  "grows st st' \<longleftrightarrow> ig_engine st' = ig_engine st \<and> db_grows (db (ig_archive st)) (db (ig_archive st'))"

lemma grows_refl [simp]: "grows st st"
  by (simp add: grows_def db_grows_def)

lemma grows_trans: "grows st st' \<Longrightarrow> grows st' st'' \<Longrightarrow> grows st st''"
  by (auto simp: grows_def db_grows_def)

lemma grows_inv: "grows st st' \<Longrightarrow> ingest_inv D st \<Longrightarrow> ingest_inv D st'"
  unfolding grows_def db_grows_def ingest_inv_def engine_durable_def gap_known_def
  by (simp split: option.splits) blast

lemma ig_then_Inr:
  "ig_then m k st = (Inr y, st'') \<longleftrightarrow> (\<exists>x st'. m st = (Inr x, st') \<and> k x st' = (Inr y, st''))"
  by (auto simp: ig_then_def split: prod.splits sum.splits)

lemma ig_call_Inr:
  "ig_call f st = (Inr x, st') \<Longrightarrow> \<exists>a. f (ig_archive st) = (Inr x, a) \<and> ig_archive st' = a \<and> ig_engine st' = ig_engine st"
  by (auto simp: ig_call_def Let_def split: if_splits prod.splits)

lemma ig_write_grows:
  assumes "ig_write f st = (Inr x, st')" "db_grows (db (ig_archive st)) (db (f (ig_archive st)))"
  shows "grows st st'"
  using ig_call_Inr [OF assms(1) [unfolded ig_write_def]] assms(2) by (auto simp: grows_def)

lemma ig_try_grows:
  assumes "ig_try f st = (Inr x, st')" "\<And>a'. f (ig_archive st) = Inr a' \<Longrightarrow> db_grows (db (ig_archive st)) (db a')"
  shows "grows st st'"
  using ig_call_Inr [OF assms(1) [unfolded ig_try_def]] assms(2)
  by (auto simp: grows_def split: sum.splits)

lemma same_chunks_grows: "chunks d' = chunks d \<Longrightarrow> gaps d' = gaps d \<Longrightarrow> db_grows d d'"
  by (simp add: db_grows_def)

lemma writes_grow:
  "db_grows (db a) (db (ensure_take now sid tid hint a))"
  "db_grows (db a) (db (flag_stream stid a))"
  "db_grows (db a) (db (stop_take now tid a))"
  "db_grows (db a) (db (set_final_seq stid n a))"
  "db_grows (db a) (db (apply_stream_header stid h a))"
  by (rule same_chunks_grows; simp add: write_defs)+

lemma ensure_stream_grows: "ensure_stream tid stid p a = Inr a' \<Longrightarrow> db_grows (db a) (db a')"
  by (auto simp: ensure_stream_def Let_def intro!: same_chunks_grows split: if_splits option.splits)

lemma ig_mod_grows:
  "ig_mod f st = (Inr x, st') \<Longrightarrow> ig_engine (f st) = ig_engine st \<Longrightarrow> ig_archive (f st) = ig_archive st \<Longrightarrow> grows st st'"
  by (auto simp: ig_mod_def grows_def db_grows_def)

lemma ig_then_grows:
  "ig_then m k st = (Inr y, st'') \<Longrightarrow> (\<And>x st'. m st = (Inr x, st') \<Longrightarrow> grows st st') \<Longrightarrow>
    (\<And>x st'. k x st' = (Inr y, st'') \<Longrightarrow> grows st' st'') \<Longrightarrow> grows st st''"
  unfolding ig_then_Inr by (blast intro: grows_trans)

lemma ensure_stream_persisted_grows:
  assumes "ensure_stream_persisted now tid stid peer st = (Inr x, st')" shows "grows st st'"
proof -
  obtain y mid where 1: "(if tid \<notin> set (ig_knownTakes st)
        then ig_then (ig_write (ensure_take now (ig_sessionId st) tid None))
               (\<lambda>_. ig_mod (\<lambda>st. st\<lparr>ig_knownTakes := add_known tid (ig_knownTakes st)\<rparr>)) st
        else ig_ok () st) = (Inr y, mid)"
    and 2: "(if stid \<notin> set (ig_knownStreams mid) \<or> truthy peer \<noteq> None
        then ig_then (ig_try (ensure_stream tid stid peer))
               (\<lambda>_. ig_mod (\<lambda>st. st\<lparr>ig_knownStreams := add_known stid (ig_knownStreams st)\<rparr>)) mid
        else ig_ok () mid) = (Inr x, st')"
    using assms unfolding ensure_stream_persisted_def ig_then_Inr by blast
  have "grows st mid"
  proof (cases "tid \<notin> set (ig_knownTakes st)")
    case True
    with 1 have "ig_then (ig_write (ensure_take now (ig_sessionId st) tid None))
        (\<lambda>_. ig_mod (\<lambda>st. st\<lparr>ig_knownTakes := add_known tid (ig_knownTakes st)\<rparr>)) st = (Inr y, mid)" by simp
    then show ?thesis
      by (rule ig_then_grows) (erule ig_write_grows, rule writes_grow, erule ig_mod_grows, simp_all)
  qed (use 1 in \<open>simp add: ig_ok_def\<close>)
  moreover have "grows mid st'"
  proof (cases "stid \<notin> set (ig_knownStreams mid) \<or> truthy peer \<noteq> None")
    case True
    with 2 have "ig_then (ig_try (ensure_stream tid stid peer))
        (\<lambda>_. ig_mod (\<lambda>st. st\<lparr>ig_knownStreams := add_known stid (ig_knownStreams st)\<rparr>)) mid = (Inr x, st')"
      by (simp del: not_None_eq)
    then show ?thesis
      by (rule ig_then_grows) (erule ig_try_grows, erule ensure_stream_grows, erule ig_mod_grows, simp_all)
  qed (use 2 in \<open>simp add: ig_ok_def\<close>)
  ultimately show ?thesis by (rule grows_trans)
qed

lemma apply_header_grows: "grows st (apply_header parse stid b st)"
proof (cases "stid \<in> set (ig_headerApplied st) \<or> parse b = None")
  case False
  then obtain h where h: "parse b = Some h" by auto
  let ?up = "case ig_db st of [] \<Rightarrow> True | u # _ \<Rightarrow> u"
  show ?thesis
    using False h writes_grow(5) [of "ig_archive st" stid h]
    by (cases ?up) (auto simp: apply_header_def ig_then_def ig_write_def ig_call_def ig_mod_def Let_def
        grows_def db_grows_def)
qed (auto simp: apply_header_def)

lemma persist_chunk_grows:
  assumes "persist_chunk io m b a = (Inr fresh, a')"
  shows "db_grows (db a) (db a')" "(cm_streamId m, cm_seq m) \<in> keys_of (chunks (db a'))"
  using assms
  by (auto simp: persist_chunk_def Let_def db_grows_def jm_get_None_keys dest: jm_get_Some_keys
      split: sum.splits if_splits)

lemma keys_foldl_gaps:
  "keys_of (foldl (\<lambda>g (s, e). insert_new (stid, s) \<lparr>ga_endSeq = e\<rparr> g) g rs)
    = keys_of g \<union> (\<lambda>r. (stid, fst r)) ` set rs"
  by (induction rs arbitrary: g) auto

lemma persist_gaps_grows:
  assumes "persist_gaps stid rs a = Inr a'"
  shows "db_grows (db a) (db a')" "\<forall>g \<in> set rs. (stid, fst g) \<in> keys_of (gaps (db a'))"
proof -
  show "db_grows (db a) (db a')"
    using assms by (auto simp: persist_gaps_def db_grows_def keys_foldl_gaps split: if_splits)
  show "\<forall>g \<in> set rs. (stid, fst g) \<in> keys_of (gaps (db a'))"
  proof
    fix g assume g: "g \<in> set rs"
    then have "a' = a\<lparr>db := db a\<lparr>gaps :=
        foldl (\<lambda>g (s, e). insert_new (stid, s) \<lparr>ga_endSeq = e\<rparr> g) (gaps (db a)) rs\<rparr>\<rparr>"
      using assms by (auto simp: persist_gaps_def split: if_splits)
    with g show "(stid, fst g) \<in> keys_of (gaps (db a'))" by (simp add: keys_foldl_gaps)
  qed
qed

lemma engine_durable_mono: "engine_durable D e d \<Longrightarrow> db_grows d d' \<Longrightarrow> engine_durable D e d'"
  unfolding engine_durable_def db_grows_def gap_known_def by blast

text \<open>A stored chunk: the engine claims one more key, and the row is there before the task ends.\<close>

lemma engine_durable_put:
  assumes "engine_durable D e d" "ingest_chunk ok m (receiver_of (chunk_key m) e) = (res, r)"
    and "db_grows d d'"
    and "res \<in> {Stored, ContinuityViolation} \<Longrightarrow> (cm_streamId m, cm_seq m) \<in> keys_of (chunks d')"
  shows "engine_durable D (put_receiver (chunk_key m) r e) d'"
  unfolding engine_durable_def
proof (intro conjI allI impI)
  fix k seq assume "claims (put_receiver (chunk_key m) r e) k seq"
  then consider "claims e k seq" | "k = chunk_key m" "seq = cm_seq m" "res \<in> {Stored, ContinuityViolation}"
    unfolding ingest_chunk_claims(1) [OF assms(2)] by blast
  then show "(snd k, seq) \<in> keys_of (chunks d')"
  proof cases
    case 1
    with engine_durableD(1) [OF engine_durable_mono [OF assms(1,3)]] show ?thesis by blast
  next
    case 2
    with assms(4) show ?thesis by (simp add: chunk_key_def)
  qed
next
  fix k g assume "claims_gap (put_receiver (chunk_key m) r e) k g"
  then have "claims_gap e k g" unfolding ingest_chunk_claims(2) [OF assms(2)] .
  with engine_durableD(2) [OF engine_durable_mono [OF assms(1,3)]] show "gap_known D d' (snd k) g"
    by blast
qed

text \<open>The persistence part of a stored chunk.\<close>

definition store_chunk ::
    "(string \<Rightarrow> bool) \<Rightarrow> (bytes \<Rightarrow> stream_header option) \<Rightarrow> int \<Rightarrow> string \<Rightarrow> chunk_meta \<Rightarrow> bytes \<Rightarrow> bool
      \<Rightarrow> ingest_out list ig_task" where
  "store_chunk io parse now peer m b bad =
     ig_then (ensure_stream_persisted now (cm_takeId m) (cm_streamId m) None) (\<lambda>_.
     ig_then (ig_mod (\<lambda>st. if cm_seq m = 0 then apply_header parse (cm_streamId m) b st else st)) (\<lambda>_.
     ig_then (ig_call (persist_chunk io m b)) (\<lambda>_.
       if bad then ig_then (ig_write (flag_stream (cm_streamId m)))
                     (\<lambda>_. ig_ok [Fatal peer ''stream-discontinuity''])
       else ig_ok [])))"

lemma persist_call_grows:
  assumes "ig_call (persist_chunk io m b) st = (Inr x, st')"
  shows "grows st st'" "(cm_streamId m, cm_seq m) \<in> keys_of (chunks (db (ig_archive st')))"
  using ig_call_Inr [OF assms] persist_chunk_grows by (fastforce simp: grows_def)+

lemma store_chunk_grows:
  assumes "store_chunk io parse now peer m b bad st = (Inr out, st')"
  shows "grows st st'" "(cm_streamId m, cm_seq m) \<in> keys_of (chunks (db (ig_archive st')))"
proof -
  obtain s1 x1 s2 s3 x3 where s: "ensure_stream_persisted now (cm_takeId m) (cm_streamId m) None st = (Inr x1, s1)"
    "s2 = (if cm_seq m = 0 then apply_header parse (cm_streamId m) b s1 else s1)"
    "ig_call (persist_chunk io m b) s2 = (Inr x3, s3)"
    "(if bad then ig_then (ig_write (flag_stream (cm_streamId m)))
                     (\<lambda>_. ig_ok [Fatal peer ''stream-discontinuity'']) else ig_ok []) s3 = (Inr out, st')"
    using assms unfolding store_chunk_def ig_then_Inr ig_mod_def by auto
  have 3: "grows s3 st'"
  proof (cases bad)
    case True
    with s(4) have "ig_then (ig_write (flag_stream (cm_streamId m)))
        (\<lambda>_. ig_ok [Fatal peer ''stream-discontinuity'']) s3 = (Inr out, st')" by simp
    then show ?thesis
      by (rule ig_then_grows) (erule ig_write_grows, rule writes_grow, simp add: ig_ok_def)
  qed (use s(4) in \<open>simp add: ig_ok_def\<close>)
  have "grows st s2"
    using ensure_stream_persisted_grows [OF s(1)] apply_header_grows grows_trans by (auto simp: s(2))
  then show "grows st st'"
    using persist_call_grows(1) [OF s(3)] 3 grows_trans by blast
  show "(cm_streamId m, cm_seq m) \<in> keys_of (chunks (db (ig_archive st')))"
    using persist_call_grows(2) [OF s(3)] 3 by (auto simp: grows_def db_grows_def)
qed

lemma process_chunk_unfold:
  assumes "ingest_chunk ok m (receiver_of (chunk_key m) e) = (res, r)" "res \<in> {Stored, ContinuityViolation}"
    and "process_frame cs io parse now peer dc (InChunk ok m) b e st = (Inr out, st')"
  obtains out1 mid where "store_chunk io parse now peer m b (res = ContinuityViolation)
      (st\<lparr>ig_engine := Some (put_receiver (chunk_key m) r e)\<rparr>) = (Inr out1, mid)"
    "ig_engine st' = ig_engine mid" "ig_archive st' = ig_archive mid"
    "out = out1 @ snd (tee_to_sync_peers cs peer m b (ig_links mid))"
proof -
  have eq: "process_frame cs io parse now peer dc (InChunk ok m) b e st
    = ig_then (store_chunk io parse now peer m b (res = ContinuityViolation))
        (\<lambda>out st. let (links, tees) = tee_to_sync_peers cs peer m b (ig_links st)
                  in (Inr (out @ tees), st\<lparr>ig_links := links\<rparr>))
        (st\<lparr>ig_engine := Some (put_receiver (chunk_key m) r e)\<rparr>)"
    using assms(1,2)
    by (auto simp: process_frame_def store_chunk_def Let_def ig_then_def split: prod.splits sum.splits)
  obtain x mid where mid: "store_chunk io parse now peer m b (res = ContinuityViolation)
        (st\<lparr>ig_engine := Some (put_receiver (chunk_key m) r e)\<rparr>) = (Inr x, mid)"
    and tee: "(let (links, tees) = tee_to_sync_peers cs peer m b (ig_links mid)
      in (Inr (x @ tees), mid\<lparr>ig_links := links\<rparr>)) = (Inr out :: archive_error + ingest_out list, st')"
    using assms(3) [unfolded eq ig_then_Inr] by blast
  show ?thesis
    by (rule that [OF mid]) (use tee in \<open>auto simp: split_beta Let_def\<close>)
qed

lemma process_chunk_inv:
  assumes "engine_durable D e (db (ig_archive st))"
    and "process_frame cs io parse now peer dc (InChunk ok m) b e st = (Inr out, st')"
  shows "ingest_inv D st'"
proof -
  obtain res r where ic: "ingest_chunk ok m (receiver_of (chunk_key m) e) = (res, r)" by fastforce
  show ?thesis
  proof (cases "res \<in> {Stored, ContinuityViolation}")
    case True
    from process_chunk_unfold [OF ic True assms(2)] obtain out1 mid where mid:
      "store_chunk io parse now peer m b (res = ContinuityViolation)
        (st\<lparr>ig_engine := Some (put_receiver (chunk_key m) r e)\<rparr>) = (Inr out1, mid)"
      "ig_engine st' = ig_engine mid" "ig_archive st' = ig_archive mid" .
    have "engine_durable D (put_receiver (chunk_key m) r e) (db (ig_archive st'))"
      using engine_durable_put [OF assms(1) ic] store_chunk_grows [OF mid(1)] mid(3)
      by (simp add: grows_def)
    then show ?thesis
      using store_chunk_grows(1) [OF mid(1)] mid(2) by (simp add: grows_def ingest_inv_def)
  next
    case False
    have "db_grows (db (ig_archive st)) (db (ig_archive st')) \<and> ig_engine st' = Some (put_receiver (chunk_key m) r e)"
      using False assms(2) ic writes_grow(2) [of "ig_archive st" "cm_streamId m"]
      by (cases res) (auto simp: process_frame_def Let_def ig_defs db_grows_def split: if_splits list.splits bool.splits)
    then show ?thesis
      using engine_durable_put [OF assms(1) ic, of "db (ig_archive st')"] False by (simp add: ingest_inv_def)
  qed
qed

lemma gap_report_inv:
  assumes "engine_durable D e (db (ig_archive st))"
    and "process_frame cs io parse now peer dc (InGapReport k rs) b e st = (Inr out, st')"
    and "list_all (D (snd k)) rs"
  shows "ingest_inv D st'"
proof -
  let ?e = "put_receiver k (record_gaps rs (receiver_of k e)) e"
  let ?st = "st\<lparr>ig_engine := Some ?e\<rparr>"
  obtain x1 s1 x2 s2 where s: "ensure_stream_persisted now (fst k) (snd k) None ?st = (Inr x1, s1)"
    "ig_try (persist_gaps (snd k) rs) s1 = (Inr x2, s2)" "s2 = st'"
    using assms(2) by (auto simp: process_frame_def Let_def ig_then_Inr ig_ok_def)
  have g1: "grows ?st s1" by (rule ensure_stream_persisted_grows [OF s(1)])
  obtain a' where a': "persist_gaps (snd k) rs (ig_archive s1) = Inr a'" "ig_archive st' = a'" "ig_engine st' = ig_engine s1"
    using ig_call_Inr [OF s(2) [unfolded ig_try_def]] s(3) by (auto split: sum.splits)
  have grow: "db_grows (db (ig_archive st)) (db (ig_archive st'))"
    using g1 persist_gaps_grows(1) [OF a'(1)] a'(2) by (auto simp: grows_def db_grows_def)
  have "engine_durable D ?e (db (ig_archive st'))"
    unfolding engine_durable_def
  proof (intro conjI allI impI)
    fix k' seq assume "claims ?e k' seq"
    then have "claims e k' seq"
      using receiver_of_claims(1) [of k e seq] by (auto simp: claims_put record_gaps_def split: if_splits)
    with engine_durableD(1) [OF engine_durable_mono [OF assms(1) grow]]
    show "(snd k', seq) \<in> keys_of (chunks (db (ig_archive st')))" by blast
  next
    fix k' g assume "claims_gap ?e k' g"
    then consider "claims_gap e k' g" | "k' = k" "g \<in> set rs"
      by (auto simp: claims_gap_put record_gaps_def receiver_of_claims split: if_splits)
    then show "gap_known D (db (ig_archive st')) (snd k') g"
    proof cases
      case 1
      with engine_durableD(2) [OF engine_durable_mono [OF assms(1) grow]] show ?thesis by blast
    next
      case 2
      with persist_gaps_grows(2) [OF a'(1)] a'(2) assms(3) show ?thesis
        by (simp add: gap_known_def list_all_iff)
    qed
  qed
  then show ?thesis using a'(3) g1 by (simp add: ingest_inv_def grows_def)
qed

text \<open>What the invariant asks of a task: wire ids hold no slash, and gap reports are declarations.\<close>

fun task_ok :: "(string \<Rightarrow> nat \<times> nat \<Rightarrow> bool) \<Rightarrow> task \<Rightarrow> bool" where
  "task_ok D (FrameTask peer dc (InChunk crc_ok m) b) \<longleftrightarrow> CHR ''/'' \<notin> set (cm_takeId m) \<union> set (cm_streamId m)"
| "task_ok D (FrameTask peer dc (InGapReport k rs) b) \<longleftrightarrow> list_all (D (snd k)) rs"
| "task_ok D _ \<longleftrightarrow> True"

lemma process_frame_inv:
  assumes "engine_durable D e (db (ig_archive st))" "ig_engine st = Some e"
    and "process_frame cs io parse now peer dc frame b e st = (Inr out, st')"
    and "task_ok D (FrameTask peer dc frame b)"
  shows "ingest_inv D st'"
proof (cases frame)
  case (InChunk ok m)
  with process_chunk_inv assms(1,3) show ?thesis by metis
next
  case (InGapReport k rs)
  with assms(4) have "list_all (D (snd k)) rs" by simp
  with gap_report_inv assms(1,3) InGapReport show ?thesis by metis
qed (use assms in \<open>auto simp: process_frame_def ingest_inv_def\<close>)

text \<open>Deletions: the engine lets go of every stream whose rows go.\<close>

lemma delete_where_False: "delete_where (\<lambda>_ _. False) m = m"
  by (simp add: delete_where_def split_beta)

lemma delete_take_row_empty:
  "\<not> (\<exists>r \<in> set (jm_values (streams d)). st_takeId r = t) \<Longrightarrow>
    chunks (delete_take_row t d) = chunks d \<and> gaps (delete_take_row t d) = gaps d"
proof -
  assume none: "\<not> (\<exists>r \<in> set (jm_values (streams d)). st_takeId r = t)"
  then have "streams_of_takes (\<lambda>t'. t' = t) d = []"
    by (auto simp: streams_of_takes_def filter_empty_conv)
  then show ?thesis
    by (simp add: delete_take_row_def Let_def delete_stream_rows_def delete_where_False)
qed

lemma delete_empty_takes_keeps:
  "chunks (snd (delete_empty_takes ts d)) = chunks d \<and> gaps (snd (delete_empty_takes ts d)) = gaps d"
  by (induction ts arbitrary: d) (simp_all add: split_beta Let_def delete_take_row_empty)

lemma keys_delete_streams:
  "keys_of (chunks (db (snd (delete_streams io refs a)))) = {k \<in> keys_of (chunks (db a)). fst k \<notin> sr_streamId ` set refs}"
  "keys_of (gaps (db (snd (delete_streams io refs a)))) = {k \<in> keys_of (gaps (db a)). fst k \<notin> sr_streamId ` set refs}"
  by (simp_all add: delete_streams_def Let_def split_beta delete_empty_takes_keeps delete_stream_rows_def
      keys_of_delete_where)

lemma claims_remove_all:
  "claims (foldl (\<lambda>e r. remove_stream (sr_takeId r, sr_streamId r) e) e refs) k seq
    \<longleftrightarrow> claims e k seq \<and> k \<notin> (\<lambda>r. (sr_takeId r, sr_streamId r)) ` set refs"
  "claims_gap (foldl (\<lambda>e r. remove_stream (sr_takeId r, sr_streamId r) e) e refs) k g
    \<longleftrightarrow> claims_gap e k g \<and> k \<notin> (\<lambda>r. (sr_takeId r, sr_streamId r)) ` set refs"
  by (induction refs arbitrary: e) (auto simp: claims_remove claims_gap_remove)

text \<open>The desk names a stream with the take it belongs to.\<close>

definition refs_match :: "stream_ref list \<Rightarrow> sink_engine \<Rightarrow> bool" where
  "refs_match refs e \<longleftrightarrow>
     (\<forall>k \<in> fst ` set (en_streams e). \<forall>r \<in> set refs. snd k = sr_streamId r \<longrightarrow> fst k = sr_takeId r)"

lemma gaps_delete_streams: "set (gaps (db (snd (delete_streams io refs a)))) \<subseteq> set (gaps (db a))"
  by (auto simp: delete_streams_def Let_def split_beta delete_empty_takes_keeps delete_stream_rows_def
      delete_where_def)

lemma gaps_persisted:
  assumes "rows_all g (\<lambda>k r. D (fst k) (snd k, ga_endSeq r))" "\<forall>q \<in> set rs. D stid q"
  shows "rows_all (foldl (\<lambda>g (s, e). insert_new (stid, s) \<lparr>ga_endSeq = e\<rparr> g) g rs)
    (\<lambda>k r. D (fst k) (snd k, ga_endSeq r))"
  using assms
proof (induction rs arbitrary: g)
  case (Cons q rs)
  have "rows_all (insert_new (stid, fst q) \<lparr>ga_endSeq = snd q\<rparr> g) (\<lambda>k r. D (fst k) (snd k, ga_endSeq r))"
    using Cons.prems by (intro rows_all_insert_new) simp_all
  then show ?case using Cons.IH Cons.prems(2) by (simp add: split_beta)
qed simp

text \<open>The writes a task may make.\<close>

fun task_write :: "(string \<Rightarrow> nat \<times> nat \<Rightarrow> bool) \<Rightarrow> archive_event \<Rightarrow> bool" where
  "task_write D (PersistChunk io m f) \<longleftrightarrow> CHR ''/'' \<notin> set (cm_takeId m) \<union> set (cm_streamId m)"
| "task_write D (PersistGaps stid rs) \<longleftrightarrow> list_all (D stid) rs"
| "task_write D (DeleteSession io sid) \<longleftrightarrow> False"
| "task_write D _ \<longleftrightarrow> True"

lemma gaps_step:
  assumes "rows_all (gaps (db a)) (\<lambda>k g. D (fst k) (snd k, ga_endSeq g))" "task_write D ev"
  shows "rows_all (gaps (db (archive_step a ev))) (\<lambda>k g. D (fst k) (snd k, ga_endSeq g))"
proof (cases ev)
  case (PersistGaps stid rs)
  then show ?thesis using assms gaps_persisted by (auto simp: or_keep_def persist_gaps_def list_all_iff)
next
  case (DeleteStreams io refs)
  then show ?thesis using rows_all_subset [OF assms(1) gaps_delete_streams] by simp
next
  case (DeleteTakeIfEmpty t)
  then show ?thesis
    using assms(1) delete_take_row_empty [of "db a" t] by (simp add: delete_take_if_empty_def)
qed (use assms in \<open>auto simp: write_defs persist_chunk_def split: sum.splits option.splits\<close>)

lemma archive_ok_step: "archive_ok D a \<Longrightarrow> task_write D ev \<Longrightarrow> archive_ok D (archive_step a ev)"
  using archive_step_inv [of a ev] gaps_step [of a D ev]
  by (cases ev) (simp_all add: archive_ok_def)

text \<open>\<open>kept D m\<close>: the task \<open>m\<close> keeps the archive in order, however it ends.\<close>

definition kept :: "(string \<Rightarrow> nat \<times> nat \<Rightarrow> bool) \<Rightarrow> 'a ig_task \<Rightarrow> bool" where
  "kept D m \<longleftrightarrow> (\<forall>st. archive_ok D (ig_archive st) \<longrightarrow> archive_ok D (ig_archive (snd (m st))))"

lemma kept_D: "kept D m \<Longrightarrow> archive_ok D (ig_archive st) \<Longrightarrow> archive_ok D (ig_archive (snd (m st)))"
  unfolding kept_def by blast

lemma kept_ok: "kept D (ig_ok x)"
  by (simp add: kept_def ig_ok_def)

lemma kept_mod: "(\<And>st. archive_ok D (ig_archive st) \<Longrightarrow> archive_ok D (ig_archive (f st))) \<Longrightarrow> kept D (ig_mod f)"
  by (simp add: kept_def ig_mod_def)

lemma kept_then: "kept D m \<Longrightarrow> (\<And>x. kept D (k x)) \<Longrightarrow> kept D (ig_then m k)"
  unfolding kept_def ig_then_def by (auto split: prod.splits sum.splits)

lemma kept_if: "kept D m \<Longrightarrow> kept D m' \<Longrightarrow> kept D (\<lambda>st. if c st then m st else m' st)"
  by (simp add: kept_def)

lemma kept_if': "kept D m \<Longrightarrow> kept D m' \<Longrightarrow> kept D (if c then m else m')"
  by simp

lemma kept_pure: "(\<And>st. ig_archive (snd (m st)) = ig_archive st) \<Longrightarrow> kept D m"
  by (simp add: kept_def)

lemma kept_call:
  assumes "\<And>a. snd (f a) = archive_step a ev" "task_write D ev" shows "kept D (ig_call f)"
  unfolding kept_def
proof (intro allI impI)
  fix st :: ingest assume ok: "archive_ok D (ig_archive st)"
  have "ig_archive (snd (ig_call f st)) \<in> {ig_archive st, snd (f (ig_archive st))}"
    by (auto simp: ig_call_def Let_def split: prod.splits list.splits)
  with ok show "archive_ok D (ig_archive (snd (ig_call f st)))"
    using archive_ok_step [OF ok assms(2)] assms(1) by auto
qed

lemma kept_write: "(\<And>a. f a = archive_step a ev) \<Longrightarrow> task_write D ev \<Longrightarrow> kept D (ig_write f)"
  unfolding ig_write_def by (rule kept_call) simp_all

lemma kept_try: "(\<And>a. or_keep a (f a) = archive_step a ev) \<Longrightarrow> task_write D ev \<Longrightarrow> kept D (ig_try f)"
  unfolding ig_try_def
proof (rule kept_call)
  fix a assume "\<And>a. or_keep a (f a) = archive_step a ev"
  then have "or_keep a (f a) = archive_step a ev" .
  then show "snd (case f a of Inl e \<Rightarrow> (Inl e, a) | Inr a' \<Rightarrow> (Inr (), a')) = archive_step a ev"
    by (simp add: or_keep_def split: sum.splits)
qed

text \<open>The writes of the tasks, each an operation of the archive.\<close>

lemma kept_writes:
  "kept D (ig_write (ensure_take now sid tid hint))" "kept D (ig_write (flag_stream stid))"
  "kept D (ig_write (stop_take now tid))" "kept D (ig_write (set_final_seq stid n))"
  "kept D (ig_write (apply_stream_header stid h))" "kept D (ig_try (ensure_stream tid stid peer))"
  "list_all (D stid) rs \<Longrightarrow> kept D (ig_try (persist_gaps stid rs))"
  "CHR ''/'' \<notin> set (cm_takeId m) \<union> set (cm_streamId m) \<Longrightarrow> kept D (ig_call (persist_chunk io m b))"
  by (rule kept_write kept_try kept_call, rule archive_step.simps [symmetric] | simp)+

lemma kept_deletes:
  "kept D (ig_call (\<lambda>a. let (gone, a') = delete_take_if_empty tid a in (Inr gone, a')))"
  "kept D (ig_call (\<lambda>a. let (ids, a') = delete_streams io refs a in (Inr ids, a')))"
  by (rule kept_call [where ev = "DeleteTakeIfEmpty tid"] kept_call [where ev = "DeleteStreams io refs"];
      simp add: split_beta)+

lemma kept_ensure_stream_persisted: "kept D (ensure_stream_persisted now tid stid peer)"
proof -
  have "ensure_stream_persisted now tid stid peer =
     ig_then
       (\<lambda>st. if tid \<notin> set (ig_knownTakes st)
             then ig_then (\<lambda>st. ig_write (ensure_take now (ig_sessionId st) tid None) st)
                    (\<lambda>_. ig_mod (\<lambda>st. st\<lparr>ig_knownTakes := add_known tid (ig_knownTakes st)\<rparr>)) st
             else ig_ok () st)
       (\<lambda>_ st. if stid \<notin> set (ig_knownStreams st) \<or> truthy peer \<noteq> None
             then ig_then (ig_try (ensure_stream tid stid peer))
                    (\<lambda>_. ig_mod (\<lambda>st. st\<lparr>ig_knownStreams := add_known stid (ig_knownStreams st)\<rparr>)) st
             else ig_ok () st)"
    by (simp add: fun_eq_iff ensure_stream_persisted_def ig_then_def)
  moreover have "kept D \<dots>"
    by (intro kept_then kept_if kept_ok kept_mod kept_writes) (simp_all add: kept_def kept_D [OF kept_writes(1)])
  ultimately show ?thesis by simp
qed

lemma kept_apply_header: "archive_ok D (ig_archive st) \<Longrightarrow> archive_ok D (ig_archive (apply_header parse stid b st))"
  by (auto simp: apply_header_def split: option.splits
      intro!: kept_D [OF kept_then [OF kept_writes(5) kept_mod]])

lemma kept_chunk:
  assumes "CHR ''/'' \<notin> set (cm_takeId m) \<union> set (cm_streamId m)"
  shows "kept D (process_frame cs io parse now peer dc (InChunk ok m) b e)"
proof -
  obtain res r where ic: "ingest_chunk ok m (receiver_of (chunk_key m) e) = (res, r)" by fastforce
  have store: "kept D (ig_then (ensure_stream_persisted now (cm_takeId m) (cm_streamId m) None) (\<lambda>_.
      ig_then (ig_mod (\<lambda>st. if cm_seq m = 0 then apply_header parse (cm_streamId m) b st else st)) (\<lambda>_.
      ig_then (ig_call (persist_chunk io m b)) (\<lambda>_.
      ig_then (if bad then ig_then (ig_write (flag_stream (cm_streamId m)))
                             (\<lambda>_. ig_ok [Fatal peer ''stream-discontinuity'']) else ig_ok []) (\<lambda>out st.
        let (links, tees) = tee_to_sync_peers cs peer m b (ig_links st)
        in (Inr (out @ tees), st\<lparr>ig_links := links\<rparr>))))))" for bad
    by (intro kept_then kept_ensure_stream_persisted kept_mod kept_writes kept_if' kept_ok kept_pure assms)
      (simp_all add: kept_apply_header split_beta Let_def)
  have conflict: "kept D (ig_then (ig_write (flag_stream (cm_streamId m)))
        (\<lambda>_. ig_ok [Fatal peer ''chunk-key-conflict'']))"
    by (intro kept_then kept_writes kept_ok)
  show ?thesis
    unfolding kept_def
  proof (intro allI impI)
    fix st :: ingest assume "archive_ok D (ig_archive st)"
    then have put: "archive_ok D (ig_archive (st\<lparr>ig_engine := Some (put_receiver (chunk_key m) r e)\<rparr>))" by simp
    show "archive_ok D (ig_archive (snd (process_frame cs io parse now peer dc (InChunk ok m) b e st)))"
      using kept_D [OF store [of "res = ContinuityViolation"] put] kept_D [OF conflict put] put ic
      by (cases res) (simp_all add: process_frame_def)
  qed
qed

lemma kept_gap_report:
  assumes "list_all (D (snd k)) rs"
  shows "kept D (process_frame cs io parse now peer dc (InGapReport k rs) b e)"
  unfolding kept_def process_frame_def in_frame.case Let_def
  by (intro allI impI kept_D [OF kept_then [OF kept_ensure_stream_persisted
        kept_then [OF kept_writes(7) kept_ok]]]) (simp_all add: assms)

lemma kept_frame:
  assumes "task_ok D (FrameTask peer dc frame b)"
  shows "kept D (process_frame cs io parse now peer dc frame b e)"
proof (cases frame)
  case (InChunk crc_ok m)
  with assms kept_chunk show ?thesis by simp
next
  case (InGapReport k rs)
  with assms kept_gap_report show ?thesis by simp
qed (simp_all add: kept_def process_frame_def)

record ingest_event =
  ie_channels :: channels
  ie_io :: "string \<Rightarrow> bool"
  ie_parse :: "bytes \<Rightarrow> stream_header option"
  ie_now :: int
  ie_db :: "bool list"
  ie_task :: task

text \<open>Links come and go between tasks: \<open>openPeerLink\<close>, \<open>attachChannel\<close>, the drain callbacks.\<close>

definition open_peer_link :: "string \<Rightarrow> ingest \<Rightarrow> ingest" where
  "open_peer_link pid st = st\<lparr>ig_links := jm_set pid new_link (jm_delete pid (ig_links st))\<rparr>"

definition on_link :: "string \<Rightarrow> (peer_link \<Rightarrow> peer_link) \<Rightarrow> ingest \<Rightarrow> ingest" where
  "on_link pid f st = st\<lparr>ig_links := map (\<lambda>(p, l). (p, if p = pid then f l else l)) (ig_links st)\<rparr>"

definition attach_channel :: "bool \<Rightarrow> nat \<Rightarrow> peer_link \<Rightarrow> peer_link" where
  "attach_channel sync dc link =
     (if sync then link\<lparr>pl_syncChannel := Some dc\<rparr> else link\<lparr>pl_dataChannel := Some dc\<rparr>)"

datatype ingest_input =
    Chain ingest_event
  | OpenPeerLink string
  | AttachChannel string bool nat
  | ClosePeerLink string
  | BufferedLow channels string
  | FrameFetched channels "bytes option" string

text \<open>
  What is asked of the inputs: a chunk's ids hold no slash (the decoder prints them from 16 bytes), and
  a deletion names each stream together with the take the engine has it under.
\<close>

fun event_allowed :: "ingest \<Rightarrow> ingest_input \<Rightarrow> bool" where
  "event_allowed st (Chain ev) \<longleftrightarrow>
     (case ie_task ev of
        DeleteStreamsTask refs \<Rightarrow> (case ig_engine st of None \<Rightarrow> True | Some e \<Rightarrow> refs_match refs e)
      | t \<Rightarrow> task_ok (\<lambda>_ _. True) t)"
| "event_allowed st _ \<longleftrightarrow> True"

text \<open>The gaps an input reports, each with its stream.\<close>

fun reported :: "ingest_input \<Rightarrow> (string \<times> nat \<times> nat) list" where
  "reported (Chain ev) =
     (case ie_task ev of FrameTask _ _ (InGapReport k ranges) _ \<Rightarrow> map (Pair (snd k)) ranges | _ \<Rightarrow> [])"
| "reported _ = []"

text \<open>Each task meets its own database weather.\<close>

fun ingest_step :: "ingest \<Rightarrow> ingest_input \<Rightarrow> ingest" where
  "ingest_step st (Chain ev) =
     fst (run_task (ie_channels ev) (ie_io ev) (ie_parse ev) (ie_now ev) (ie_task ev) (st\<lparr>ig_db := ie_db ev\<rparr>))"
| "ingest_step st (OpenPeerLink pid) = open_peer_link pid st"
| "ingest_step st (AttachChannel pid sync dc) = on_link pid (attach_channel sync dc) st"
| "ingest_step st (ClosePeerLink pid) = close_peer pid st"
| "ingest_step st (BufferedLow cs pid) = on_link pid (drain_push_queue cs) st"
| "ingest_step st (FrameFetched cs frame pid) = on_link pid (fst \<circ> drain_fetched cs frame) st"

lemma delete_task_inv:
  assumes "ingest_inv D st" "\<And>e. ig_engine st = Some e \<Longrightarrow> refs_match refs e"
    and "exec_task cs io parse now (DeleteStreamsTask refs) st = (Inr out, st')"
  shows "ingest_inv D st'"
proof (cases "ig_engine st")
  case None
  with assms(3) show ?thesis
    by (auto simp: ig_then_Inr ig_mod_def ig_ok_def ingest_inv_def dest!: ig_call_Inr)
next
  case (Some e)
  let ?e = "foldl (\<lambda>e r. remove_stream (sr_takeId r, sr_streamId r) e) e refs"
  have dur: "engine_durable D e (db (ig_archive st))" using assms(1) Some by (simp add: ingest_inv_def)
  have st': "ig_engine st' = Some ?e" "ig_archive st' = snd (delete_streams io refs (ig_archive st))"
    using assms(3) Some by (auto simp: ig_then_Inr ig_mod_def ig_ok_def split_beta dest!: ig_call_Inr)
  have gone: "snd k \<notin> sr_streamId ` set refs"
    if "k \<in> fst ` set (en_streams e)" "k \<notin> (\<lambda>r. (sr_takeId r, sr_streamId r)) ` set refs" for k
    using assms(2) [OF Some] that by (fastforce simp: refs_match_def image_iff prod_eq_iff)
  have known: "claims e k seq \<Longrightarrow> k \<in> fst ` set (en_streams e)"
    "claims_gap e k g \<Longrightarrow> k \<in> fst ` set (en_streams e)" for k seq g
    by (auto simp: claims_def claims_gap_def dest!: map_of_SomeD intro: rev_image_eqI)
  have "engine_durable D ?e (db (ig_archive st'))"
    unfolding engine_durable_def gap_known_def st' claims_remove_all keys_delete_streams
  proof (intro conjI allI impI; (elim conjE)?)
    fix k seq assume "claims e k seq" "k \<notin> (\<lambda>r. (sr_takeId r, sr_streamId r)) ` set refs"
    with gone [OF known(1)] engine_durableD(1) [OF dur]
    show "(snd k, seq) \<in> {k \<in> keys_of (chunks (db (ig_archive st))). fst k \<notin> sr_streamId ` set refs}"
      by simp
  next
    fix k g assume g: "claims_gap e k g" "k \<notin> (\<lambda>r. (sr_takeId r, sr_streamId r)) ` set refs"
    then show "(snd k, fst g) \<in> {k \<in> keys_of (gaps (db (ig_archive st))). fst k \<notin> sr_streamId ` set refs}"
      using gone [OF known(2)] engine_durableD(2) [OF dur] unfolding gap_known_def by simp
    show "D (snd k) g" using engine_durableD(2) [OF dur g(1)] unfolding gap_known_def by simp
  qed
  then show ?thesis by (simp add: ingest_inv_def st'(1))
qed

lemma stop_task_inv:
  assumes "ingest_inv D st" "exec_task cs io parse now (NoteTakeStop tid) st = (Inr out, st')"
  shows "ingest_inv D st'"
proof -
  obtain x1 s1 x2 s2 where s: "ig_write (stop_take now tid) st = (Inr x1, s1)"
    "ig_call (\<lambda>a. let (gone, a') = delete_take_if_empty tid a in (Inr gone, a')) s1 = (Inr x2, s2)"
    "ig_engine st' = ig_engine s2" "ig_archive st' = ig_archive s2"
    using assms(2) by (auto simp: ig_then_Inr ig_mod_def split: if_splits)
  have "grows st s1" by (rule ig_write_grows [OF s(1) writes_grow(3)])
  moreover have "grows s1 s2"
  proof -
    have "ig_archive s2 = snd (delete_take_if_empty tid (ig_archive s1))" "ig_engine s2 = ig_engine s1"
      using ig_call_Inr [OF s(2)] by (auto simp: split_beta)
    then show ?thesis
      using delete_take_row_empty [of "db (ig_archive s1)" tid]
      by (simp add: grows_def delete_take_if_empty_def same_chunks_grows)
  qed
  ultimately have "ingest_inv D s2" using assms(1) grows_inv grows_trans by blast
  then show ?thesis unfolding ingest_inv_def s(3,4) .
qed

lemma final_task_inv:
  assumes "ingest_inv D st" "exec_task cs io parse now (SetFinal tid stid n) st = (Inr out, st')"
  shows "ingest_inv D st'"
proof -
  obtain x1 s1 x2 s2 where s: "ensure_stream_persisted now tid stid None st = (Inr x1, s1)"
    "ig_write (set_final_seq stid n)
       (s1\<lparr>ig_engine := map_option (engine_set_final (tid, stid) n) (ig_engine s1)\<rparr>) = (Inr x2, s2)" "st' = s2"
    using assms(2) by (auto simp: ig_then_Inr ig_mod_def)
  have "ingest_inv D s1"
    using ensure_stream_persisted_grows [OF s(1)] assms(1) grows_inv by blast
  then have "ingest_inv D (s1\<lparr>ig_engine := map_option (engine_set_final (tid, stid) n) (ig_engine s1)\<rparr>)"
    by (auto simp: ingest_inv_def engine_durable_def claims_set_final claims_gap_set_final split: option.splits)
  then show ?thesis
    using ig_write_grows [OF s(2) writes_grow(4)] grows_inv s(3) by blast
qed

lemma exec_task_inv:
  assumes "ingest_inv D st" "exec_task cs io parse now t st = (Inr out, st')"
    and "\<And>refs e. t = DeleteStreamsTask refs \<Longrightarrow> ig_engine st = Some e \<Longrightarrow> refs_match refs e"
    and "task_ok D t"
  shows "ingest_inv D st'"
proof (cases t)
  case (NoteTake tid hint)
  with assms(2) have "ig_then (\<lambda>st. ig_write (ensure_take now (ig_sessionId st) tid hint) st) (\<lambda>_.
     ig_then (ig_mod (\<lambda>st. st\<lparr>ig_knownTakes := add_known tid (ig_knownTakes st)\<rparr>)) (\<lambda>_. ig_ok [])) st = (Inr out, st')"
    by simp
  then have "grows st st'"
    by (rule ig_then_grows) (erule ig_write_grows, rule writes_grow, auto simp: ig_then_Inr ig_mod_def ig_ok_def grows_def db_grows_def)
  then show ?thesis using assms(1) by (rule grows_inv)
next
  case (NoteStream tid stid peer)
  with assms(2) obtain x s1 where "ensure_stream_persisted now tid stid peer st = (Inr x, s1)" "st' = s1"
    by (auto simp: ig_then_Inr ig_ok_def)
  then show ?thesis using ensure_stream_persisted_grows grows_inv assms(1) by blast
next
  case (FrameTask peer dc frame b)
  with assms show ?thesis
    by (auto simp: ingest_inv_def split: option.splits if_splits dest: process_frame_inv [unfolded ingest_inv_def])
next
  case (DeleteStreamsTask refs)
  then show ?thesis using delete_task_inv [OF assms(1) assms(3)] assms(2) by blast
next
  case (NoteTakeStop tid)
  then show ?thesis using stop_task_inv [OF assms(1)] assms(2) by blast
next
  case (SetFinal tid stid n)
  then show ?thesis using final_task_inv [OF assms(1)] assms(2) by blast
qed (use assms in simp_all)

lemma kept_exec:
  assumes "task_ok D t" shows "kept D (exec_task cs io parse now t)"
proof (cases t)
  case (NoteTake tid hint)
  show ?thesis
    unfolding NoteTake exec_task.simps
    by (intro kept_then kept_mod kept_ok) (simp_all add: kept_def kept_D [OF kept_writes(1)])
next
  case (NoteTakeStop tid)
  show ?thesis
    unfolding NoteTakeStop exec_task.simps
    by (intro kept_then kept_mod kept_writes kept_deletes kept_pure) simp_all
next
  case (SetFinal tid stid n)
  show ?thesis
    unfolding SetFinal exec_task.simps
    by (intro kept_then kept_ensure_stream_persisted kept_mod kept_writes kept_pure) simp_all
next
  case (FrameTask peer dc frame b)
  with assms show ?thesis
    by (simp add: kept_def kept_D [OF kept_frame] split: option.split)
next
  case (NoteStream tid stid peer)
  show ?thesis
    unfolding NoteStream exec_task.simps by (intro kept_then kept_ensure_stream_persisted kept_ok)
next
  case (DeleteStreamsTask refs)
  show ?thesis
    unfolding DeleteStreamsTask exec_task.simps
    by (intro kept_then kept_mod kept_deletes kept_ok) simp_all
qed (simp_all add: kept_def)

text \<open>The whole invariant: the archive is in order, and the engine claims nothing that is not in it.\<close>

definition ingest_ok :: "(string \<Rightarrow> nat \<times> nat \<Rightarrow> bool) \<Rightarrow> ingest \<Rightarrow> bool" where
  "ingest_ok D st \<longleftrightarrow> archive_ok D (ig_archive st) \<and> ingest_inv D st"

lemma run_task_ok:
  assumes "ingest_ok D st" "task_ok D t"
    and "\<And>refs e. t = DeleteStreamsTask refs \<Longrightarrow> ig_engine st = Some e \<Longrightarrow> refs_match refs e"
  shows "ingest_ok D (fst (run_task cs io parse now t st))"
proof (cases "exec_task cs io parse now t st")
  case (Pair res st')
  have ok: "archive_ok D (ig_archive st')"
    using kept_D [OF kept_exec [OF assms(2)], of st] assms(1) Pair by (simp add: ingest_ok_def) (metis snd_conv)
  show ?thesis
  proof (cases res)
    case (Inl e)
    then show ?thesis
      using ok poison_inv [OF ok] by (simp add: run_task_def Pair ingest_ok_def poison_def ingest_init_archive)
  next
    case (Inr out)
    then show ?thesis
      using exec_task_inv [OF _ Pair [unfolded Inr] _ assms(2)] assms(1,3) ok
      by (simp add: run_task_def Pair ingest_ok_def)
  qed
qed

lemma ingest_step_ok:
  assumes "ingest_ok D st" "event_allowed st ev" "\<forall>(stid, g) \<in> set (reported ev). D stid g"
  shows "ingest_ok D (ingest_step st ev)"
proof (cases ev)
  case (Chain e)
  have "task_ok D (ie_task e)"
    using assms(2,3) unfolding Chain
    by (cases "(D, ie_task e)" rule: task_ok.cases) (auto simp: list_all_iff)
  then show ?thesis
    using assms(1,2) unfolding Chain ingest_step.simps
    by (intro run_task_ok) (simp_all add: ingest_ok_def ingest_inv_def cong: option.case_cong)
qed (use assms in \<open>simp_all add: ingest_ok_def ingest_inv_def open_peer_link_def on_link_def close_peer_def
  cong: option.case_cong\<close>)

interpretation ingest_machine: guarded_machine ingest_step "ingest_ok D"
    "\<lambda>st ev. event_allowed st ev \<and> (\<forall>(stid, g) \<in> set (reported ev). D stid g)" for D
  by unfold_locales (blast intro: ingest_step_ok)

definition start_ingest :: "string \<Rightarrow> archive \<Rightarrow> ingest" where
  "start_ingest sid a = ingest_init
     \<lparr>ig_sessionId = sid, ig_engine = None, ig_archive = a, ig_db = [], ig_links = [], ig_knownTakes = [],
      ig_knownStreams = [], ig_headerApplied = [], ig_timers = 0, ig_closed = False\<rparr>"

lemma start_ingest_ok:
  assumes "archive_inv a" "\<And>stid s r. ((stid, s), r) \<in> set (gaps (db a)) \<Longrightarrow> D stid (s, ga_endSeq r)"
  shows "ingest_ok D (start_ingest sid a)"
proof -
  have "archive_ok D a" using assms by (auto simp: archive_ok_def rows_all_def)
  then show ?thesis
    by (simp add: ingest_ok_def start_ingest_def ingest_init_archive ingest_init_inv)
qed

lemma row_blob_readable:
  assumes "archive_inv a" "jm_get (chunks (db a)) pk = Some r"
  shows "\<exists>b. fs_get (\<lambda>_. True) (blobs a) (ch_blobKey r) = Inr b"
proof -
  obtain b where b: "fs_content (blobs a) (ch_blobKey r) = Some b"
    using assms rows_all_get by (fastforce simp: archive_inv_def rows_backed_def)
  then have "\<not> has_dotdot (ch_blobKey r)" using fs_content_valid by force
  with b show ?thesis using fs.get_ok by auto
qed

lemma legal_conj:
  "legal step (\<lambda>s i. ok s i \<and> P i) s es \<longleftrightarrow> legal step ok s es \<and> list_all P es"
  by (induction es arbitrary: s) auto

text \<open>What the task sends, and the gaps declared by the rows at the start and by the reports since.\<close>

definition sent_by :: "ingest \<Rightarrow> ingest_event \<Rightarrow> ingest_out list" where
  "sent_by st ev =
     snd (run_task (ie_channels ev) (ie_io ev) (ie_parse ev) (ie_now ev) (ie_task ev) (st\<lparr>ig_db := ie_db ev\<rparr>))"

definition declared :: "archive \<Rightarrow> ingest_input list \<Rightarrow> string \<Rightarrow> nat \<times> nat \<Rightarrow> bool" where
  "declared a evs stid g \<longleftrightarrow>
     (\<exists>r. ((stid, fst g), r) \<in> set (gaps (db a)) \<and> ga_endSeq r = snd g)
     \<or> (\<exists>ev \<in> set evs. (stid, g) \<in> set (reported ev))"

lemma tees_are_bytes: "SendAck dc k c \<notin> set (snd (tee_to_sync_peers cs source m b links))"
  "SendAck dc k c \<notin> set (tee_raw_to_sync_peers cs source b links)"
  by (auto simp: tee_to_sync_peers_def tee_one_def tee_raw_to_sync_peers_def tee_raw_one_def
      split: option.splits if_splits)

lemma store_chunk_out:
  "store_chunk io parse now peer m b bad st = (Inr out, st') \<Longrightarrow> SendAck dc k c \<notin> set out"
  by (auto simp: store_chunk_def ig_then_Inr ig_ok_def split: if_splits)

lemma frames_send_no_acks:
  assumes "process_frame cs io parse now peer dc frame b e st = (Inr out, st')"
  shows "SendAck dc' k c \<notin> set out"
proof (cases frame)
  case (InChunk ok m)
  obtain res r where ic: "ingest_chunk ok m (receiver_of (chunk_key m) e) = (res, r)" by fastforce
  show ?thesis
  proof (cases "res \<in> {Stored, ContinuityViolation}")
    case True
    then obtain out1 mid where s: "store_chunk io parse now peer m b (res = ContinuityViolation)
        (st\<lparr>ig_engine := Some (put_receiver (chunk_key m) r e)\<rparr>) = (Inr out1, mid)"
      "out = out1 @ snd (tee_to_sync_peers cs peer m b (ig_links mid))"
      using process_chunk_unfold [OF ic True assms [unfolded InChunk]] by blast
    show ?thesis
      unfolding s(2) set_append Un_iff using store_chunk_out [OF s(1)] tees_are_bytes(1) by blast
  next
    case False
    with assms ic show ?thesis
      unfolding InChunk by (cases res) (auto simp: process_frame_def ig_then_Inr ig_ok_def)
  qed
next
  case (InGapReport k rs)
  have "out = []"
    using assms unfolding InGapReport process_frame_def in_frame.case Let_def ig_then_Inr ig_ok_def prod.inject
      sum.inject by (elim exE conjE) (erule sym)
  then show ?thesis by simp
qed (use assms tees_are_bytes(2) [of dc' k c cs peer b "ig_links st"] in \<open>auto simp: process_frame_def split: if_splits\<close>)

text \<open>Every acknowledgement a task sends is the high-water mark of the engine it leaves.\<close>

lemma acks_of_engine:
  assumes "SendAck dc k c \<in> set (snd (run_task cs io parse now t st))"
  shows "\<exists>e. ig_engine (fst (run_task cs io parse now t st)) = Some e \<and> c = ack_chwm (receiver_of k e)"
proof -
  have acks: "\<exists>e. ig_engine s = Some e \<and> c = ack_chwm (receiver_of k e)"
    if "SendAck dc k c \<in> set (send_acks cs s) \<or> SendAck dc k c \<in> set (send_acks_to cs (ig_engine s) dc')" for s dc'
    using that by (cases "ig_engine s") (auto simp: send_acks_def send_acks_to_def split: if_splits option.splits)
  have haves: "SendAck dc k c \<notin> set (send_haves cs e dc')" for e dc'
    by (auto simp: send_haves_def split: option.splits)
  obtain out st' where run: "exec_task cs io parse now t st = (Inr out, st')" "SendAck dc k c \<in> set out"
    using assms by (auto simp: run_task_def split: prod.splits sum.splits)
  have "\<exists>e. ig_engine st' = Some e \<and> c = ack_chwm (receiver_of k e)"
  proof (cases t)
    case (NoteTakeStop tid)
    with run acks show ?thesis by (auto simp: ig_then_Inr)
  next
    case (SetFinal tid stid n)
    with run acks show ?thesis by (auto simp: ig_then_Inr)
  next
    case (FrameTask peer dc' frame b)
    obtain e where "process_frame cs io parse now peer dc' frame b e st = (Inr out, st') \<or> out = []"
      using run(1) unfolding FrameTask by (auto split: option.splits if_splits)
    with run(2) frames_send_no_acks show ?thesis by fastforce
  next
    case SendAcksTask
    with run acks show ?thesis by auto
  next
    case (AnnounceTask sync dc')
    with run haves have "SendAck dc k c \<in> set (send_acks_to cs (ig_engine st') dc')" by (auto split: if_splits)
    with acks show ?thesis by blast
  qed (use run in \<open>auto simp: ig_then_Inr ig_ok_def\<close>)
  with run(1) show ?thesis by (simp add: run_task_def)
qed

text \<open>C2. An acknowledgement is a durability claim that is true when it is sent: in every run of
  ingest inputs from a session rebuilt over an archive in order, with the database and the blob store
  failing at will, each seq up to the high-water mark of an ack that a task sends has a chunk row whose
  bytes a working store returns, or lies in a gap that the recorder reported in the run (or that a row
  of the archive held at its start) and whose first seq has a gap row. The row's end can be short of the
  gap's: that is \<open>gap_extension_dropped\<close> below. Asked of the inputs, as \<open>event_allowed\<close>: chunk ids
  hold no slash, and a deletion of streams names each with the take the engine has it under; nothing
  outside the chain deletes the session's rows.\<close>

theorem acks_are_durable:
  assumes "archive_inv a"
    and "legal ingest_step event_allowed (start_ingest sid a) (evs @ [Chain ev])"
    and "SendAck dc k (Some c) \<in> set (sent_by (run ingest_step (start_ingest sid a) evs) ev)"
    and "seq \<le> c"
    and "now = ig_archive (run ingest_step (start_ingest sid a) (evs @ [Chain ev]))"
  shows "(\<exists>r b. jm_get (chunks (db now)) (snd k, seq) = Some r
            \<and> fs_get (\<lambda>_. True) (blobs now) (ch_blobKey r) = Inr b)
    \<or> (\<exists>g. fst g \<le> seq \<and> seq \<le> snd g \<and> declared a (evs @ [Chain ev]) (snd k) g
          \<and> (snd k, fst g) \<in> keys_of (gaps (db now)))"
proof -
  let ?D = "declared a (evs @ [Chain ev])"
  let ?st = "run ingest_step (start_ingest sid a) (evs @ [Chain ev])"
  have "\<forall>(stid, g) \<in> set (reported i). ?D stid g" if "i \<in> set (evs @ [Chain ev])" for i
    using that by (auto simp: declared_def)
  then have "legal ingest_step (\<lambda>st i. event_allowed st i \<and> (\<forall>(stid, g) \<in> set (reported i). ?D stid g))
      (start_ingest sid a) (evs @ [Chain ev])"
    using assms(2) by (simp only: legal_conj list_all_iff) blast
  moreover have "ingest_ok ?D (start_ingest sid a)"
    by (rule start_ingest_ok [OF assms(1)]) (auto simp: declared_def)
  ultimately have ok: "ingest_ok ?D ?st" using ingest_machine.run_guarded by blast
  have "?st = fst (run_task (ie_channels ev) (ie_io ev) (ie_parse ev) (ie_now ev) (ie_task ev)
      ((run ingest_step (start_ingest sid a) evs)\<lparr>ig_db := ie_db ev\<rparr>))"
    by (simp add: run_append)
  then obtain e where e: "ig_engine ?st = Some e" "Some c = ack_chwm (receiver_of k e)"
    using acks_of_engine [OF assms(3) [unfolded sent_by_def]] by auto
  have dur: "engine_durable ?D e (db now)"
    using ok unfolding ingest_ok_def ingest_inv_def e(1) assms(5) by simp
  have "archive_inv now"
    using ok archive_okD(1) unfolding ingest_ok_def assms(5) by blast
  have "seq \<in> set (held (jm_keys (rc_meta (receiver_of k e))) (rc_gaps (receiver_of k e)))"
    using compute_chwm_iff e(2) assms(4) by (metis ack_chwm_def)
  then have "seq \<in> keys_of (rc_meta (receiver_of k e))
      \<or> (\<exists>g \<in> set (rc_gaps (receiver_of k e)). fst g \<le> seq \<and> seq \<le> snd g)"
    unfolding mem_held keys_of_def by simp
  then consider "claims e k seq" | g where "claims_gap e k g" "fst g \<le> seq" "seq \<le> snd g"
    using receiver_of_claims(1) [of k e seq] receiver_of_claims(2) [of _ k e]
    unfolding jm_get_None_keys not_not by blast
  then show ?thesis
  proof cases
    case 1
    with engine_durableD(1) [OF dur] row_blob_readable [OF \<open>archive_inv now\<close>] show ?thesis
      by (meson jm_get_None_keys option.exhaust)
  next
    case 2
    with engine_durableD(2) [OF dur 2(1)] show ?thesis unfolding gap_known_def by blast
  qed
qed

definition sample_channels :: channels where
  "sample_channels c = (True, 0)"

definition sample_task :: "bool list \<Rightarrow> task \<Rightarrow> ingest_input" where
  "sample_task weather t = Chain \<lparr>ie_channels = sample_channels, ie_io = (\<lambda>_. True), ie_parse = (\<lambda>_. None),
     ie_now = 5, ie_db = weather, ie_task = t\<rparr>"

definition sample_run :: "ingest_input list" where
  "sample_run = [OpenPeerLink ''p'', AttachChannel ''p'' False 1,
     sample_task [] (FrameTask ''p'' 1 (InChunk True sample_meta) [1, 2])]"

definition sample_tick :: ingest_event where
  "sample_tick = \<lparr>ie_channels = sample_channels, ie_io = (\<lambda>_. True), ie_parse = (\<lambda>_. None),
     ie_now = 6, ie_db = [], ie_task = SendAcksTask\<rparr>"

lemma sample_run_legal:
  "legal ingest_step event_allowed (start_ingest ''r'' empty_archive) (sample_run @ [Chain sample_tick])"
  by (simp add: sample_run_def sample_task_def sample_tick_def sample_meta_def)

lemmas ingest_eval = sample_run_def sample_task_def start_ingest_def ingest_init_def ig_defs
  load_session_state_def rebuild_engine_def rebuild_gaps_def rebuild_finals_def rebuild_chunks_def
  open_peer_link_def on_link_def attach_channel_def new_link_def run_task_def process_frame_def
  chunk_key_def ingest_chunk_def receiver_of_def new_receiver_def discontinuous_def put_receiver_def
  ensure_stream_persisted_def add_known_def truthy_def apply_header_def tee_to_sync_peers_def tee_one_def

lemma sample_ack:
  "SendAck 1 (''t'', ''s'') (Some 0) \<in> set (sent_by
      (run ingest_step (start_ingest ''r'' empty_archive) sample_run) sample_tick)"
  by (simp add: ingest_eval run_eval sent_by_def sample_tick_def send_acks_def send_acks_to_def
      sample_channels_def ack_chwm_def compute_chwm_def held_def chwm_loop.simps Let_def)

lemma acks_are_durable_witness:
  "\<exists>now. now = ig_archive (run ingest_step (start_ingest ''r'' empty_archive) (sample_run @ [Chain sample_tick]))
   \<and> ((\<exists>r b. jm_get (chunks (db now)) (''s'', 0) = Some r
            \<and> fs_get (\<lambda>_. True) (blobs now) (ch_blobKey r) = Inr b)
    \<or> (\<exists>g. fst g \<le> 0 \<and> declared empty_archive (sample_run @ [Chain sample_tick]) ''s'' g
          \<and> (''s'', fst g) \<in> keys_of (gaps (db now))))"
  using acks_are_durable [OF archive_inv_empty sample_run_legal sample_ack le_refl refl] by auto

subsection \<open>A failed task loses nothing it had acknowledged\<close>

text \<open>The final seq the engine knows of a stream, through a rebuild.\<close>

definition final_of :: "sink_engine \<Rightarrow> stream_key \<Rightarrow> nat option" where
  "final_of e k = rc_finalSeq (receiver_of k e)"

lemma receiver_of_put: "receiver_of k' (put_receiver k r e) = (if k' = k then r else receiver_of k' e)"
  by (simp add: receiver_of_def put_receiver_def jm_get_set)

lemma final_of_simps:
  "final_of (rebuild_chunk k c e) k' = final_of e k'"
  "final_of (rebuild_gap k g e) k' = final_of e k'"
  "final_of (engine_set_final k n e) k' =
     (if k' = k then Some (case final_of e k of None \<Rightarrow> n | Some old \<Rightarrow> max old n) else final_of e k')"
  "final_of \<lparr>en_streams = []\<rparr> k' = None"
  by (simp_all add: final_of_def rebuild_chunk_def rebuild_gap_def engine_set_final_def receiver_of_put
      Let_def record_gaps_def rc_set_final_def receiver_of_def [of _ "\<lparr>en_streams = []\<rparr>"] new_receiver_def
      split: option.split)

lemma final_of_rebuild_chunks: "final_of (rebuild_chunks rows e) k = final_of e k"
  unfolding rebuild_chunks_def by (induction rows arbitrary: e) (simp_all add: split_beta final_of_simps)

lemma final_of_rebuild_gaps: "final_of (rebuild_gaps sts rows e) k = final_of e k"
  unfolding rebuild_gaps_def
  by (induction rows arbitrary: e) (simp_all add: split_beta final_of_simps split: option.split)

lemma final_of_rebuild_finals:
  assumes "jm_wf sts" "\<And>k. snd k \<in> keys_of sts \<Longrightarrow> final_of e k = None"
  shows "final_of (rebuild_finals sts e) k =
    (case jm_get sts (snd k) of None \<Rightarrow> final_of e k
     | Some s \<Rightarrow> if st_takeId s = fst k then st_finalSeq s else final_of e k)"
  using assms
proof (induction sts arbitrary: e)
  case (Cons p sts)
  obtain j s where p: "p = (j, s)" by fastforce
  have new: "j \<notin> keys_of sts" and wf: "jm_wf sts"
    using Cons.prems(1) by (auto simp: jm_wf_def keys_of_def p)
  define e' where "e' = (case st_finalSeq s of None \<Rightarrow> e | Some n \<Rightarrow> engine_set_final (st_takeId s, j) n e)"
  have none: "final_of e k' = None" if "snd k' \<in> keys_of (p # sts)" for k'
    using that by (rule Cons.prems(2))
  have e': "final_of e' k' = (if k' = (st_takeId s, j) then st_finalSeq s else final_of e k')" for k'
    using none [of "(st_takeId s, j)"]
    by (cases "st_finalSeq s") (simp_all add: e'_def final_of_simps keys_of_def p)
  have "final_of (rebuild_finals sts e') k =
    (case jm_get sts (snd k) of None \<Rightarrow> final_of e' k
     | Some s \<Rightarrow> if st_takeId s = fst k then st_finalSeq s else final_of e' k)"
  proof (rule Cons.IH [OF wf])
    fix k' :: stream_key assume "snd k' \<in> keys_of sts"
    with new none show "final_of e' k' = None" by (cases k') (auto simp: e' keys_of_def p)
  qed
  moreover have "rebuild_finals (p # sts) e = rebuild_finals sts e'"
    by (simp add: rebuild_finals_def p e'_def)
  moreover have "jm_get sts j = None" using new by (simp add: jm_get_None_keys)
  ultimately show ?case by (cases k) (auto simp: e' p split: option.split)
qed (simp add: rebuild_finals_def)

text \<open>What an engine rebuilt from a scan knows: the rows of the scan, no more and no less.\<close>

definition engine_is_scan :: "sink_engine \<Rightarrow> session_scan \<Rightarrow> bool" where
  "engine_is_scan e sc \<longleftrightarrow>
     (\<forall>k seq. claims e k seq \<longleftrightarrow> (\<exists>r. ((snd k, seq), r) \<in> set (sc_chunks sc) \<and> ch_takeId r = fst k))
   \<and> (\<forall>k g. claims_gap e k g \<longleftrightarrow> (\<exists>r s. ((snd k, fst g), r) \<in> set (sc_gaps sc) \<and> ga_endSeq r = snd g
        \<and> jm_get (sc_streams sc) (snd k) = Some s \<and> st_takeId s = fst k))
   \<and> (\<forall>k n. final_of e k = Some n \<longleftrightarrow> (\<exists>s. jm_get (sc_streams sc) (snd k) = Some s
        \<and> st_takeId s = fst k \<and> st_finalSeq s = Some n))"

lemma rebuild_engine_scan:
  assumes "jm_wf (sc_streams sc)" shows "engine_is_scan (rebuild_engine sc) sc"
proof -
  have "final_of (rebuild_engine sc) k =
    (case jm_get (sc_streams sc) (snd k) of None \<Rightarrow> None
     | Some s \<Rightarrow> if st_takeId s = fst k then st_finalSeq s else None)" for k
    unfolding rebuild_engine_def final_of_rebuild_gaps
    by (subst final_of_rebuild_finals [OF assms])
      (simp_all add: final_of_rebuild_chunks final_of_simps split: option.split)
  then show ?thesis
    unfolding engine_is_scan_def rebuild_engine_def claims_rebuild_gaps claims_rebuild_finals claims_rebuild_chunks
    by (auto simp: claims_empty split: option.splits)
qed

lemma jm_wf_scan: "jm_wf (streams d) \<Longrightarrow> jm_wf (sc_streams (load_session_state sid d))"
  by (simp add: load_session_state_def Let_def jm_wf_def distinct_map_filter)

text \<open>C27. Fail-stop: when a task fails, wherever the database or the blob store gave up, every link is
  dropped before anything else is sent. If the rebuild's read is refused as well there is no engine;
  if it is answered, the engine is again exactly what the session's rows say: it claims a chunk if and
  only if its row is there, a gap if and only if its row is there with that extent, and knows a final
  seq if and only if the stream's row has it. Asked of the database: a stream has one row.\<close>

theorem failed_task_rebuilds:
  assumes "exec_task cs io parse now t st = (Inl e, st')"
    and "jm_wf (streams (db (ig_archive st')))"
    and "after = fst (run_task cs io parse now t st)"
  shows "snd (run_task cs io parse now t st) = [] \<and> ig_links after = []
    \<and> (if ig_db st' \<noteq> [] \<and> \<not> hd (ig_db st') then ig_engine after = None
       else \<exists>e. ig_engine after = Some e
         \<and> engine_is_scan e (load_session_state (ig_sessionId st') (db (ig_archive st'))))"
proof -
  have after: "after = poison st'" using assms(1,3) by (simp add: run_task_def)
  have scan: "engine_is_scan (rebuild_engine (load_session_state (ig_sessionId st') (db (ig_archive st'))))
      (load_session_state (ig_sessionId st') (db (ig_archive st')))"
    by (rule rebuild_engine_scan [OF jm_wf_scan [OF assms(2)]])
  show ?thesis
    unfolding after using scan assms(1)
    by (cases "ig_db st'") (simp_all add: run_task_def poison_def ingest_init_def ig_call_def Let_def)
qed

text \<open>The blob store refuses a chunk; the rebuild's read is answered, then refused.\<close>

lemma failed_task_rebuilds_witness:
  "(\<exists>e. ig_engine (fst (run_task sample_channels (\<lambda>_. False) (\<lambda>_. None) 5
      (FrameTask ''p'' 1 (InChunk True sample_meta) [1, 2]) (start_ingest ''r'' empty_archive))) = Some e
      \<and> \<not> claims e (''t'', ''s'') 0)
   \<and> ig_engine (fst (run_task sample_channels (\<lambda>_. False) (\<lambda>_. None) 5
      (FrameTask ''p'' 1 (InChunk True sample_meta) [1, 2])
      ((start_ingest ''r'' empty_archive)\<lparr>ig_db := [True, True, True, False]\<rparr>))) = None"
proof -
  let ?st = "start_ingest ''r'' empty_archive"
  let ?t = "FrameTask ''p'' 1 (InChunk True sample_meta) [1, 2]"
  let ?exec = "exec_task sample_channels (\<lambda>_. False) (\<lambda>_. None) 5 ?t"
  obtain e st' where 1: "?exec ?st = (Inl e, st')" "ig_db st' = []" "chunks (db (ig_archive st')) = []"
    "jm_wf (streams (db (ig_archive st')))"
    by (simp add: ingest_eval run_eval jm_wf_def)
  obtain e2 st2 where 2: "?exec (?st\<lparr>ig_db := [True, True, True, False]\<rparr>) = (Inl e2, st2)"
    "ig_db st2 = [False]" "jm_wf (streams (db (ig_archive st2)))"
    by (simp add: ingest_eval run_eval jm_wf_def)
  have "sc_chunks (load_session_state sid (db (ig_archive st'))) = []" for sid
    by (simp add: load_session_state_def Let_def 1(3))
  with failed_task_rebuilds [OF 1(1,4) refl] 1(2) failed_task_rebuilds [OF 2(1,3) refl] 2(2)
  show ?thesis by (auto simp: engine_is_scan_def)
qed

fun fail_times :: "nat \<Rightarrow> ingest \<Rightarrow> ingest" where
  "fail_times 0 st = st"
| "fail_times (Suc n) st = fail_times n (poison st)"

lemma poison_timers: "ig_db st = [] \<Longrightarrow> ig_timers (poison st) = ig_timers st + 2 \<and> ig_db (poison st) = []"
  by (simp add: poison_def ingest_init_def ig_call_def Let_def)

text \<open>Every failure starts the two interval timers again without stopping the old ones: after \<open>n\<close>
  recovered failures \<open>2 n\<close> timers are left running even after \<open>close\<close>.\<close>

theorem failures_leak_timers:
  "ig_timers (ingest_close (fail_times n (start_ingest sid a))) = 2 * n"
proof -
  have "ig_timers (fail_times n st) = ig_timers st + 2 * n" if "ig_db st = []" for st
    using that by (induction n arbitrary: st) (simp_all add: poison_timers)
  then show ?thesis
    by (simp add: ingest_close_def start_ingest_def ingest_init_def ig_call_def Let_def)
qed

subsection \<open>Declared gaps\<close>

text \<open>A gap report that extends a gap already recorded under the same first seq never reaches the
  archive: the insert conflicts on (stream, first seq) and is dropped, while the engine counts
  the longer gap and acknowledges past it.\<close>

theorem gap_extension_dropped:
  assumes "jm_get (gaps (db a)) (stid, s) = Some g" and "rc_gaps r = [(s, ga_endSeq g)]"
    and "jm_keys (rc_meta r) = [0..<s]" and "ga_endSeq g < e" and "s \<le> ga_endSeq g"
  shows "persist_gaps stid [(s, e)] a = Inr a \<and> ack_chwm (record_gaps [(s, e)] r) = Some e"
proof -
  have "(stid, s) \<in> keys_of (gaps (db a))" using assms(1) by (rule jm_get_Some_keys)
  then have "persist_gaps stid [(s, e)] a = Inr a"
    using assms(1) by (simp add: persist_gaps_def insert_new_def)
  moreover have "ack_chwm (record_gaps [(s, e)] r) = Some e"
    unfolding ack_chwm_def compute_chwm_iff mem_held record_gaps_def
    using assms(2-5) by auto
  ultimately show ?thesis ..
qed

lemma gap_extension_dropped_witness:
  "ack_chwm (record_gaps [(0, 5)] (new_receiver\<lparr>rc_gaps := [(0, 3)]\<rparr>)) = Some 5"
  using gap_extension_dropped
    [of "empty_archive\<lparr>db := (db empty_archive)\<lparr>gaps := [((''s'', 0), \<lparr>ga_endSeq = 3\<rparr>)]\<rparr>\<rparr>" "''s''" 0
      "\<lparr>ga_endSeq = 3\<rparr>" "new_receiver\<lparr>rc_gaps := [(0, 3)]\<rparr>" 5]
  by (simp add: new_receiver_def)

subsection \<open>Outbound\<close>

text \<open>A live tee reaches every other sync peer once and nobody else: never the source, never a
  recorder's data channel; a peer whose channel is congested gets the chunk queued instead, behind
  what was queued before.\<close>

theorem tee_reaches_sync_peers:
  assumes "tee_to_sync_peers cs source m b links = (links', out)"
  shows "out = map (\<lambda>(_, l). SendBytes (the (pl_syncChannel l)) b)
      (filter (\<lambda>(p, l). p \<noteq> source \<and> (\<exists>c. pl_syncChannel l = Some c \<and> fst (cs c) \<and> snd (cs c) \<le> high_watermark)) links)
    \<and> (\<forall>i < length links. fst (links' ! i) = fst (links ! i)
        \<and> pl_pushQueue (snd (links' ! i)) = pl_pushQueue (snd (links ! i))
            @ (if fst (links ! i) \<noteq> source
                 \<and> (\<exists>c. pl_syncChannel (snd (links ! i)) = Some c \<and> fst (cs c) \<and> high_watermark < snd (cs c))
               then [\<lparr>qk_takeId = cm_takeId m, qk_streamId = cm_streamId m, qk_seq = cm_seq m\<rparr>] else []))"
proof -
  have links': "links' = map (fst \<circ> tee_one cs source m b) links"
    and out: "out = concat (map (snd \<circ> tee_one cs source m b) links)"
    using assms by (simp_all add: tee_to_sync_peers_def)
  have "out = map (\<lambda>(_, l). SendBytes (the (pl_syncChannel l)) b)
      (filter (\<lambda>(p, l). p \<noteq> source \<and> (\<exists>c. pl_syncChannel l = Some c \<and> fst (cs c) \<and> snd (cs c) \<le> high_watermark)) links)"
  proof -
    have one: "snd (tee_one cs source m b (p, l)) =
        (if p \<noteq> source \<and> (\<exists>c. pl_syncChannel l = Some c \<and> fst (cs c) \<and> snd (cs c) \<le> high_watermark)
         then [SendBytes (the (pl_syncChannel l)) b] else [])" for p l
      by (cases "pl_syncChannel l") (simp_all add: tee_one_def)
    show ?thesis unfolding out by (induction links) (auto simp: one split: if_splits)
  qed
  moreover have "fst (fst (tee_one cs source m b pl)) = fst pl
        \<and> pl_pushQueue (snd (fst (tee_one cs source m b pl))) = pl_pushQueue (snd pl)
            @ (if fst pl \<noteq> source
                 \<and> (\<exists>c. pl_syncChannel (snd pl) = Some c \<and> fst (cs c) \<and> high_watermark < snd (cs c))
               then [\<lparr>qk_takeId = cm_takeId m, qk_streamId = cm_streamId m, qk_seq = cm_seq m\<rparr>] else [])" for pl
    by (cases pl) (auto simp: tee_one_def queue_push_def drain_push_queue_def drain_head_def drain_channel_def
        range_keys_def held_def split: option.splits list.splits)
  ultimately show ?thesis by (simp add: links')
qed

lemma tee_reaches_sync_peers_witness:
  "snd (tee_to_sync_peers sample_channels ''p'' sample_meta [7]
      [(''p'', new_link\<lparr>pl_dataChannel := Some 1\<rparr>), (''desk'', new_link\<lparr>pl_syncChannel := Some 2\<rparr>)])
    = [SendBytes 2 [7]]"
  using tee_reaches_sync_peers [OF prod.collapse [symmetric], of sample_channels "''p''" sample_meta "[7]"
      "[(''p'', new_link\<lparr>pl_dataChannel := Some 1\<rparr>), (''desk'', new_link\<lparr>pl_syncChannel := Some 2\<rparr>)]"]
  by (simp add: new_link_def sample_channels_def)

text \<open>Push queues over any sequence of queueing, drains and fetched frames.\<close>

datatype push_event = Queue channels stream_key "(nat \<times> nat) list" | Low channels | Fetched channels "bytes option"

definition push_step :: "peer_link \<times> queued_key list \<Rightarrow> push_event \<Rightarrow> peer_link \<times> queued_key list" where
  "push_step s ev =
     (case ev of
        Queue cs k rs \<Rightarrow> (queue_push cs k rs (fst s), snd s)
      | Low cs \<Rightarrow> (drain_push_queue cs (fst s), snd s)
      | Fetched cs frame \<Rightarrow> (fst (drain_fetched cs frame (fst s)),
          snd s @ (case pl_fetching (fst s) of None \<Rightarrow> [] | Some k \<Rightarrow> [k])))"

definition push_pending :: "peer_link \<Rightarrow> queued_key list" where
  "push_pending link = (case pl_fetching link of None \<Rightarrow> [] | Some k \<Rightarrow> [k]) @ pl_pushQueue link"

fun queued_by :: "push_event list \<Rightarrow> queued_key list" where
  "queued_by [] = []"
| "queued_by (Queue cs k rs # evs) = range_keys k rs @ queued_by evs"
| "queued_by (_ # evs) = queued_by evs"

lemma drain_head_pending: "push_pending (drain_head cs link) = pl_pushQueue link"
  by (auto simp: push_pending_def drain_head_def split: option.splits list.splits)

lemma push_step_conserves:
  "snd (push_step s ev) @ push_pending (fst (push_step s ev))
    = snd s @ push_pending (fst s) @ queued_by [ev]"
  by (cases ev; cases "pl_fetching (fst s)"; cases "pl_closed (fst s)")
    (simp_all add: push_step_def queue_push_def drain_push_queue_def drain_fetched_def drain_head_pending
      push_pending_def [of "fst s"] push_pending_def [of "fst s\<lparr>pl_pushQueue := x\<rparr>" for x])

text \<open>Backfill is first in, first out and loses nothing: over any sequence of queueing, watermark
  callbacks and finished fetches, the keys already fetched, the one in flight and the ones still
  queued are together exactly what was asked for, in the order it was asked for.\<close>

theorem push_queue_fifo:
  "snd (run push_step (link, []) evs) @ push_pending (fst (run push_step (link, []) evs))
    = push_pending link @ queued_by evs"
proof -
  have "snd (run push_step s evs) @ push_pending (fst (run push_step s evs))
      = snd s @ push_pending (fst s) @ queued_by evs" for s
  proof (induction evs arbitrary: s)
    case (Cons ev evs)
    have "queued_by (ev # evs) = queued_by [ev] @ queued_by evs" by (cases ev) simp_all
    then show ?case using Cons.IH [of "push_step s ev"] push_step_conserves [of s ev] by simp
  qed simp
  from this [of "(link, [])"] show ?thesis by simp
qed

end
