(* ===== verification/Access.thy ===== *)
theory Access
  imports Archive_Retention Signaling
begin

text \<open>
  \<open>apps/server/src/auth/access.ts\<close> and the profile cache of \<open>auth/clerk.ts\<close>: who may use a
  session's desk. Clerk is outside the repository: \<open>userProfile\<close> is a function from a user to the
  profile it resolves to, \<open>None\<close> when the call rejects. An authorization is a small machine with one
  state per await, so that requests interleave at every query.
\<close>

subsection \<open>E-mail addresses\<close>

text \<open>\<open>toLowerCase\<close> on one-byte characters: A-Z and the Latin-1 capitals.\<close>

definition js_lower :: "char \<Rightarrow> char" where
  "js_lower c =
     (let n = (of_char c :: nat)
      in if (65 \<le> n \<and> n \<le> 90) \<or> (192 \<le> n \<and> n \<le> 222 \<and> n \<noteq> 215) then char_of (n + 32) else c)"

definition normalize_email :: "string \<Rightarrow> string" where
  "normalize_email raw = map js_lower (js_trim raw)"

text \<open>
  The pattern: no white space, exactly one at sign with something before it, and after it a dot
  that is neither the first nor the last character.
\<close>

definition is_plausible_email :: "string \<Rightarrow> bool" where
  "is_plausible_email email \<longleftrightarrow>
     length email \<le> 320
   \<and> list_all (\<lambda>c. \<not> js_space c) email
   \<and> length (filter (\<lambda>c. c = CHR ''@'') email) = 1
   \<and> (let local_part = takeWhile (\<lambda>c. c \<noteq> CHR ''@'') email;
          domain = drop (Suc (length local_part)) email
      in local_part \<noteq> [] \<and> list_ex (\<lambda>i. domain ! i = CHR ''.'') [1..<length domain - 1])"

subsection \<open>Profiles\<close>

record user_profile =
  up_verifiedEmails :: "string list"
  up_primaryEmail :: "string option"

text \<open>
  The profile cache: an entry holds the time of the fetch and its pending or resolved result. A
  rejected fetch is evicted if it is still the entry's. \<open>fetch\<close> is the call to Clerk.
\<close>

definition profile_ttl_ms :: int where "profile_ttl_ms = 300000"

definition user_profile_of ::
    "(string \<Rightarrow> user_profile option) \<Rightarrow> int \<Rightarrow> string \<Rightarrow> (string, int \<times> user_profile) jsmap
      \<Rightarrow> user_profile option \<times> (string, int \<times> user_profile) jsmap" where
  "user_profile_of fetch now uid cache =
     (case jm_get cache uid of
        Some (fetched, p) \<Rightarrow>
          if now - fetched < profile_ttl_ms then (Some p, cache)
          else (case fetch uid of
                  None \<Rightarrow> (None, jm_delete uid cache)
                | Some q \<Rightarrow> (Some q, jm_set uid (now, q) cache))
      | None \<Rightarrow>
          (case fetch uid of
             None \<Rightarrow> (None, jm_delete uid cache)
           | Some q \<Rightarrow> (Some q, jm_set uid (now, q) cache)))"

subsection \<open>Authorization\<close>

datatype desk_role = Owner | Sharee
datatype refusal = UnknownSession | Forbidden
datatype desk_decision = Granted desk_role | Refused refusal

text \<open>
  The awaits of \<open>authorize\<close> and \<open>claim\<close>. The flag says that this \<open>authorize\<close> was called by a \<open>claim\<close>
  that lost its race: a refusal then throws \<open>AccessDeniedError\<close>, and a grant is passed up.
\<close>

datatype auth_pc =
    SelectOwner bool
  | ClaimOwner bool "string option"
  | CheckShare bool
  | Decided desk_decision
  | ThrewAccessDenied
  | ThrewProfile

definition finish :: "bool \<Rightarrow> desk_decision \<Rightarrow> auth_pc" where
  "finish nested d =
     (case d of Refused _ \<Rightarrow> if nested then ThrewAccessDenied else Decided d | Granted _ \<Rightarrow> Decided d)"

definition primary_email :: "(string \<Rightarrow> user_profile option) \<Rightarrow> string \<Rightarrow> string option" where
  "primary_email profile uid = (case profile uid of None \<Rightarrow> None | Some p \<Rightarrow> up_primaryEmail p)"

text \<open>The update of \<open>claim\<close>: it returns the row it changed, if any.\<close>

definition claim_update :: "string \<Rightarrow> string \<Rightarrow> string option \<Rightarrow> archive_db \<Rightarrow> bool \<times> archive_db" where
  "claim_update sid uid email d =
     (case jm_get (sessions d) sid of
        Some row \<Rightarrow>
          if se_ownerUserId row = None
          then (True, d\<lparr>sessions := update_row sid (\<lambda>r. r\<lparr>se_ownerUserId := Some uid, se_ownerEmail := email\<rparr>) (sessions d)\<rparr>)
          else (False, d)
      | None \<Rightarrow> (False, d))"

fun auth_step ::
    "(string \<Rightarrow> user_profile option) \<Rightarrow> string \<Rightarrow> string \<Rightarrow> auth_pc \<Rightarrow> archive_db \<Rightarrow> auth_pc \<times> archive_db" where
  "auth_step profile sid uid (SelectOwner nested) d =
     ((case jm_get (sessions d) sid of
         None \<Rightarrow> finish nested (Refused UnknownSession)
       | Some row \<Rightarrow>
           (case se_ownerUserId row of
              None \<Rightarrow> ClaimOwner nested (primary_email profile uid)
            | Some owner \<Rightarrow> if owner = uid then finish nested (Granted Owner) else CheckShare nested)), d)"
| "auth_step profile sid uid (ClaimOwner nested email) d =
     (let (won, d') = claim_update sid uid email d
      in (if won then Decided (Granted Owner) else SelectOwner True, d'))"
| "auth_step profile sid uid (CheckShare nested) d =
     ((case profile uid of
         None \<Rightarrow> ThrewProfile
       | Some p \<Rightarrow>
           if list_ex (\<lambda>e. jm_has (session_shares d) (sid, e)) (up_verifiedEmails p)
           then finish nested (Granted Sharee)
           else finish nested (Refused Forbidden)), d)"
| "auth_step profile sid uid pc d = (pc, d)"

text \<open>A call that nothing interleaves with: four steps reach its end.\<close>

definition authorize ::
    "(string \<Rightarrow> user_profile option) \<Rightarrow> string \<Rightarrow> string \<Rightarrow> archive_db \<Rightarrow> auth_pc \<times> archive_db" where
  "authorize profile sid uid d =
     (case auth_step profile sid uid (SelectOwner False) d of (pc, d') \<Rightarrow> auth_step profile sid uid pc d')"

definition authorize_or_create ::
    "(string \<Rightarrow> user_profile option) \<Rightarrow> int \<Rightarrow> string \<Rightarrow> string \<Rightarrow> archive_db \<Rightarrow> auth_pc \<times> archive_db" where
  "authorize_or_create profile now sid uid d =
     authorize profile sid uid
       (d\<lparr>sessions := insert_new sid \<lparr>se_createdAt = now, se_lastActivityAt = now, se_ownerUserId = None,
            se_ownerEmail = None\<rparr> (sessions d)\<rparr>)"

text \<open>The insert of a fresh session; a duplicate id is a primary key violation.\<close>

definition create_owned ::
    "(string \<Rightarrow> user_profile option) \<Rightarrow> int \<Rightarrow> string \<Rightarrow> string \<Rightarrow> archive_db \<Rightarrow> archive_db option" where
  "create_owned profile now sid uid d =
     (if jm_has (sessions d) sid then None
      else Some (d\<lparr>sessions := sessions d @ [(sid, \<lparr>se_createdAt = now, se_lastActivityAt = now,
             se_ownerUserId = Some uid, se_ownerEmail = primary_email profile uid\<rparr>)]\<rparr>))"

subsection \<open>Shares\<close>

definition max_shares_per_session :: nat where "max_shares_per_session = 100"

definition list_shares :: "string \<Rightarrow> archive_db \<Rightarrow> (string \<times> int) list" where
  "list_shares sid d =
     js_sort (by_key (\<lambda>(_, created). real_of_int created))
       (map (\<lambda>((_, email), r). (email, sh_createdAt r)) (filter (\<lambda>((s, _), _). s = sid) (session_shares d)))"

text \<open>\<open>addShare\<close> reads the list, then inserts: the two queries are two steps.\<close>

definition add_share_check :: "string \<Rightarrow> string \<Rightarrow> archive_db \<Rightarrow> bool option" where
  "add_share_check sid email d =
     (let existing = list_shares sid d
      in if list_ex (\<lambda>(e, _). e = email) existing then Some True
         else if max_shares_per_session \<le> length existing then Some False
         else None)"

definition add_share_insert :: "int \<Rightarrow> string \<Rightarrow> string \<Rightarrow> string \<Rightarrow> archive_db \<Rightarrow> archive_db" where
  "add_share_insert now sid email createdBy d =
     d\<lparr>session_shares := insert_new (sid, email) \<lparr>sh_createdAt = now, sh_createdBy = createdBy\<rparr> (session_shares d)\<rparr>"

definition add_share :: "int \<Rightarrow> string \<Rightarrow> string \<Rightarrow> string \<Rightarrow> archive_db \<Rightarrow> bool \<times> archive_db" where
  "add_share now sid email createdBy d =
     (case add_share_check sid email d of
        Some b \<Rightarrow> (b, d)
      | None \<Rightarrow> (True, add_share_insert now sid email createdBy d))"

definition remove_share :: "string \<Rightarrow> string \<Rightarrow> archive_db \<Rightarrow> archive_db" where
  "remove_share sid email d =
     d\<lparr>session_shares := delete_where (\<lambda>k _. k = (sid, email)) (session_shares d)\<rparr>"

subsection \<open>The landing lists\<close>

record session_list_entry =
  sl_sessionId :: string
  sl_createdAt :: int
  sl_lastActivityAt :: int
  sl_takeCount :: nat
  sl_ownerEmail :: "string option"

definition list_entry :: "archive_db \<Rightarrow> string \<times> session_row \<Rightarrow> session_list_entry" where
  "list_entry d = (\<lambda>(sid, r).
     \<lparr>sl_sessionId = sid, sl_createdAt = se_createdAt r, sl_lastActivityAt = se_lastActivityAt r,
      sl_takeCount = length (filter (\<lambda>(_, t). ta_sessionId t = sid) (takes d)),
      sl_ownerEmail = se_ownerEmail r\<rparr>)"

definition recent_first :: "session_list_entry comparator" where
  "recent_first a b = (if sl_lastActivityAt a < sl_lastActivityAt b then 1 else - 1)"

text \<open>The rows of a query without an order come in table order here.\<close>

definition list_user_sessions ::
    "(string \<Rightarrow> user_profile option) \<Rightarrow> string \<Rightarrow> archive_db
      \<Rightarrow> (session_list_entry list \<times> session_list_entry list) option" where
  "list_user_sessions profile uid d =
     map_option (\<lambda>p.
       let own = take 200 (js_sort (by_key (\<lambda>(_, r). - real_of_int (se_lastActivityAt r)))
                   (filter (\<lambda>(_, r). se_ownerUserId r = Some uid) (sessions d)));
           shared = take 200 (filter (\<lambda>(sid, r).
                      list_ex (\<lambda>e. jm_has (session_shares d) (sid, e)) (up_verifiedEmails p)
                    \<and> se_ownerUserId r \<noteq> Some uid) (sessions d))
       in (map (list_entry d) own, js_sort recent_first (map (list_entry d) shared))) (profile uid)"

subsection \<open>What a single call decides\<close>

definition owner_of :: "archive_db \<Rightarrow> string \<Rightarrow> string option" where
  "owner_of d sid = (case jm_get (sessions d) sid of None \<Rightarrow> None | Some r \<Rightarrow> se_ownerUserId r)"

definition shared_with :: "(string \<Rightarrow> user_profile option) \<Rightarrow> archive_db \<Rightarrow> string \<Rightarrow> string \<Rightarrow> bool" where
  "shared_with profile d sid uid =
     (case profile uid of None \<Rightarrow> False
      | Some p \<Rightarrow> list_ex (\<lambda>e. jm_has (session_shares d) (sid, e)) (up_verifiedEmails p))"

lemma finish_False [simp]: "finish False d = Decided d"
  by (simp add: finish_def split: desk_decision.split)

lemma finish_Granted [simp]: "finish n (Granted r) = Decided (Granted r)"
  by (simp add: finish_def)

lemma finish_Owner: "finish n d = Decided (Granted Owner) \<longleftrightarrow> d = Granted Owner"
  by (cases d) (simp_all add: finish_def)

lemma claim_update_owner:
  "owner_of (snd (claim_update sid uid email d)) s
     = (if s = sid \<and> jm_has (sessions d) sid \<and> owner_of d sid = None then Some uid else owner_of d s)"
  by (auto simp: claim_update_def owner_of_def jm_get_update_row split: option.splits)

lemma claim_update_won:
  "fst (claim_update sid uid email d) \<longleftrightarrow> jm_has (sessions d) sid \<and> owner_of d sid = None"
  by (auto simp: claim_update_def owner_of_def split: option.splits)

lemma claim_update_keeps [simp]:
  "keys_of (sessions (snd (claim_update sid uid email d))) = keys_of (sessions d)"
  "session_shares (snd (claim_update sid uid email d)) = session_shares d"
  by (auto simp: claim_update_def split: option.splits)

lemmas claim_facts = claim_update_owner claim_update_won claim_update_keeps

lemma auth_step_keeps:
  "keys_of (sessions (snd (auth_step profile sid uid pc d))) = keys_of (sessions d)"
  "session_shares (snd (auth_step profile sid uid pc d)) = session_shares d"
  by (cases pc; simp add: Let_def split_beta)+

lemma authorize_cases:
  "authorize profile sid uid d =
     (if \<not> jm_has (sessions d) sid then (Decided (Refused UnknownSession), d)
      else if owner_of d sid = None
      then (Decided (Granted Owner), snd (claim_update sid uid (primary_email profile uid) d))
      else if owner_of d sid = Some uid then (Decided (Granted Owner), d)
      else if profile uid = None then (ThrewProfile, d)
      else if shared_with profile d sid uid then (Decided (Granted Sharee), d)
      else (Decided (Refused Forbidden), d))"
  by (auto simp: authorize_def owner_of_def shared_with_def Let_def split_beta claim_update_won
      split: option.splits)

text \<open>What \<open>authorize\<close> decides, when nothing runs between its queries: the owner's role for the
  owner and for whoever finds the session ownerless (who owns it from then on), the sharee's role for
  a user one of whose verified addresses it is shared with, a refusal for everyone else, and it never
  creates a session, changes a share, or the owner of an owned session.\<close>

theorem authorize_decides:
  "(fst (authorize profile sid uid d) = Decided (Granted Owner)
      \<longleftrightarrow> jm_has (sessions d) sid \<and> owner_of d sid \<in> {None, Some uid})
   \<and> (fst (authorize profile sid uid d) = Decided (Granted Sharee)
      \<longleftrightarrow> jm_has (sessions d) sid \<and> owner_of d sid \<notin> {None, Some uid} \<and> shared_with profile d sid uid)
   \<and> fst (authorize profile sid uid d) \<noteq> ThrewAccessDenied
   \<and> keys_of (sessions (snd (authorize profile sid uid d))) = keys_of (sessions d)
   \<and> session_shares (snd (authorize profile sid uid d)) = session_shares d
   \<and> owner_of (snd (authorize profile sid uid d)) s
      = (if s = sid \<and> jm_has (sessions d) sid \<and> owner_of d sid = None then Some uid else owner_of d s)"
  by (simp add: authorize_cases claim_update_owner shared_with_def split: option.split)

subsection \<open>Requests that race\<close>

record access_world =
  aw_db :: archive_db
  aw_requests :: "(string \<times> string \<times> auth_pc) list"

text \<open>What the server does to sessions and shares while they live; deletions join them below.\<close>

datatype access_event =
    OpenRequest bool int string string
  | Advance "string \<Rightarrow> user_profile option" nat
  | EnsureSessionRow int string
  | InsertShare int string string string
  | RevokeShare string string

definition ensure_row :: "int \<Rightarrow> string \<Rightarrow> archive_db \<Rightarrow> archive_db" where
  "ensure_row now sid d =
     d\<lparr>sessions := insert_new sid \<lparr>se_createdAt = now, se_lastActivityAt = now, se_ownerUserId = None,
            se_ownerEmail = None\<rparr> (sessions d)\<rparr>"

definition access_step :: "access_world \<Rightarrow> access_event \<Rightarrow> access_world" where
  "access_step w ev =
     (case ev of
        OpenRequest create now sid uid \<Rightarrow>
          w\<lparr>aw_db := (if create then ensure_row now sid (aw_db w) else aw_db w),
            aw_requests := aw_requests w @ [(sid, uid, SelectOwner False)]\<rparr>
      | Advance profile i \<Rightarrow>
          (if i < length (aw_requests w)
           then case aw_requests w ! i of (sid, uid, pc) \<Rightarrow>
                  let (pc', d') = auth_step profile sid uid pc (aw_db w)
                  in w\<lparr>aw_db := d', aw_requests := (aw_requests w)[i := (sid, uid, pc')]\<rparr>
           else w)
      | EnsureSessionRow now sid \<Rightarrow> w\<lparr>aw_db := ensure_row now sid (aw_db w)\<rparr>
      | InsertShare now sid email createdBy \<Rightarrow> w\<lparr>aw_db := add_share_insert now sid email createdBy (aw_db w)\<rparr>
      | RevokeShare sid email \<Rightarrow> w\<lparr>aw_db := remove_share sid email (aw_db w)\<rparr>)"

text \<open>
  A granted owner owns the session; a claim is only tried on a row that exists, and retried after a
  lost race only once the row has an owner.
\<close>

fun request_ok :: "archive_db \<Rightarrow> string \<times> string \<times> auth_pc \<Rightarrow> bool" where
  "request_ok d (sid, uid, pc) \<longleftrightarrow>
     (pc = Decided (Granted Owner) \<longrightarrow> owner_of d sid = Some uid)
   \<and> (\<forall>n email. pc = ClaimOwner n email \<longrightarrow> \<not> n \<and> jm_has (sessions d) sid)
   \<and> (pc = SelectOwner True \<longrightarrow> owner_of d sid \<noteq> None)"

definition access_inv :: "access_world \<Rightarrow> bool" where
  "access_inv w \<longleftrightarrow> list_all (request_ok (aw_db w)) (aw_requests w)"

definition owners_kept :: "archive_db \<Rightarrow> archive_db \<Rightarrow> bool" where
  "owners_kept d d' \<longleftrightarrow>
     (\<forall>s u. owner_of d s = Some u \<longrightarrow> owner_of d' s = Some u)
   \<and> (\<forall>s. jm_has (sessions d) s \<longrightarrow> jm_has (sessions d') s)"

lemma owners_kept_refl [simp]: "owners_kept d d"
  by (simp add: owners_kept_def)

lemma request_ok_mono: "owners_kept d d' \<Longrightarrow> request_ok d r \<Longrightarrow> request_ok d' r"
  by (cases r) (auto simp: owners_kept_def)

lemma access_inv_mono:
  "owners_kept (aw_db w) d \<Longrightarrow> access_inv w \<Longrightarrow> access_inv (w\<lparr>aw_db := d\<rparr>)"
  unfolding access_inv_def list_all_iff by (auto intro: request_ok_mono)

lemma owners_kept_ensure: "owners_kept d (ensure_row now sid d)"
  by (auto simp: owners_kept_def ensure_row_def owner_of_def jm_get_insert_new split: option.splits if_splits)

lemma owners_kept_shares:
  "owners_kept d (add_share_insert now sid email u d)" "owners_kept d (remove_share sid email d)"
  by (simp_all add: owners_kept_def add_share_insert_def remove_share_def owner_of_def)

lemma owners_kept_step: "owners_kept d (snd (auth_step profile sid uid pc d))"
proof -
  have "owners_kept d (snd (claim_update sid uid email d))" for email
    unfolding owners_kept_def jm_has_keys claim_facts by auto
  then show ?thesis
    by (cases pc) (simp_all add: Let_def split_beta)
qed

lemma auth_step_request_ok:
  assumes "request_ok d (sid, uid, pc)"
  shows "request_ok (snd (auth_step profile sid uid pc d)) (sid, uid, fst (auth_step profile sid uid pc d))"
proof (cases pc)
  case (SelectOwner n)
  with assms show ?thesis
    by (auto simp: owner_of_def finish_def split: option.splits)
next
  case (ClaimOwner n email)
  with assms show ?thesis
    by (auto simp: Let_def split_beta claim_update_won claim_update_owner)
next
  case (CheckShare n)
  then show ?thesis by (auto simp: finish_def split: option.splits)
qed (use assms in simp_all)

lemma access_step_inv:
  assumes "access_inv w" shows "access_inv (access_step w ev)"
proof (cases ev)
  case (OpenRequest create now sid uid)
  have "access_inv (w\<lparr>aw_db := (if create then ensure_row now sid (aw_db w) else aw_db w)\<rparr>)"
    using assms by (simp add: access_inv_mono owners_kept_ensure)
  then show ?thesis
    by (simp add: OpenRequest access_step_def access_inv_def)
next
  case (Advance profile i)
  show ?thesis
  proof (cases "i < length (aw_requests w)")
    case True
    obtain sid uid pc where r: "aw_requests w ! i = (sid, uid, pc)" by (cases "aw_requests w ! i")
    have ok: "request_ok (aw_db w) (sid, uid, pc)"
      using assms True by (simp add: access_inv_def list_all_length r [symmetric])
    let ?d = "snd (auth_step profile sid uid pc (aw_db w))"
    have "access_inv (w\<lparr>aw_db := ?d\<rparr>)"
      by (rule access_inv_mono [OF owners_kept_step assms])
    then have rest: "\<forall>q \<in> set (aw_requests w). request_ok ?d q"
      by (simp add: access_inv_def list_all_iff)
    have "\<forall>q \<in> set ((aw_requests w)[i := (sid, uid, fst (auth_step profile sid uid pc (aw_db w)))]). request_ok ?d q"
      using rest auth_step_request_ok [OF ok] set_update_subset_insert
      by (metis (no_types, lifting) insert_iff subsetD)
    with True r show ?thesis
      by (simp add: Advance access_step_def access_inv_def Let_def split_beta list_all_iff)
  qed (use assms Advance in \<open>simp add: access_step_def\<close>)
qed (use assms in \<open>simp_all add: access_step_def access_inv_mono owners_kept_ensure owners_kept_shares\<close>)

interpretation access_machine: invariant_machine access_step access_inv
  by unfold_locales (rule access_step_inv)

definition access_start :: "archive_db \<Rightarrow> access_world" where
  "access_start d = \<lparr>aw_db = d, aw_requests = []\<rparr>"

lemma access_run_inv: "access_inv (run access_step (access_start d) evs)"
  by (rule access_machine.run_inv) (simp add: access_inv_def access_start_def)

text \<open>C17. However authorizations interleave at their queries with each other and with sharing, revoking
  and session upserts, an owner grant is exclusive: two requests for one session that both end as
  its owner are the same user's, and that user is the owner the database has.\<close>

theorem one_owner:
  assumes "(sid, u, Decided (Granted Owner)) \<in> set (aw_requests (run access_step (access_start d) evs))"
    and "(sid, v, Decided (Granted Owner)) \<in> set (aw_requests (run access_step (access_start d) evs))"
  shows "u = v \<and> owner_of (aw_db (run access_step (access_start d) evs)) sid = Some u"
proof -
  have ok: "request_ok (aw_db (run access_step (access_start d) evs)) q"
    if "q \<in> set (aw_requests (run access_step (access_start d) evs))" for q
    using access_run_inv [of d evs] that by (simp add: access_inv_def list_all_iff)
  from ok [OF assms(1)] ok [OF assms(2)] show ?thesis by simp
qed

text \<open>Two users open a fresh session at once: both see it ownerless, one claims it.\<close>

definition two_users :: "string \<Rightarrow> user_profile option" where
  "two_users uid = Some \<lparr>up_verifiedEmails = [uid @ ''@x.org''], up_primaryEmail = None\<rparr>"

definition race_run :: "access_event list" where
  "race_run =
     [OpenRequest True 1 ''s'' ''ann'', OpenRequest True 1 ''s'' ''bob'',
      Advance two_users 0, Advance two_users 1, Advance two_users 1, Advance two_users 0, Advance two_users 0,
      Advance two_users 0]"

lemma race_outcome:
  "aw_requests (run access_step (access_start (db empty_archive)) race_run)
     = [(''s'', ''ann'', ThrewAccessDenied), (''s'', ''bob'', Decided (Granted Owner))]"
  by code_simp

theorem one_owner_witness:
  "owner_of (aw_db (run access_step (access_start (db empty_archive)) race_run)) ''s'' = Some ''bob''"
  using one_owner [of "''s''" "''bob''" "db empty_archive" race_run "''bob''"] by (simp add: race_outcome)

subsection \<open>Every request is answered, deletions of sessions included\<close>

text \<open>The hard delete and the expiry sweep remove a session's rows while requests are between two
  queries; a row that is upserted again afterwards has no owner.\<close>

datatype life_event = Live access_event | DropSession string

fun life_step :: "access_world \<Rightarrow> life_event \<Rightarrow> access_world" where
  "life_step w (Live ev) = access_step w ev"
| "life_step w (DropSession sid) = w\<lparr>aw_db := delete_session_rows sid (aw_db w)\<rparr>"

fun is_answer :: "auth_pc \<Rightarrow> bool" where
  "is_answer (Decided d) = True"
| "is_answer ThrewAccessDenied = True"
| "is_answer ThrewProfile = True"
| "is_answer pc = False"

text \<open>An upper bound on the queries a request still makes if its session is not deleted again: a claim
  that meets a missing row may have to start over, on a row upserted without an owner.\<close>

fun queries_left :: "archive_db \<Rightarrow> string \<Rightarrow> auth_pc \<Rightarrow> nat" where
  "queries_left d sid (SelectOwner n) = (if owner_of d sid = None then 4 else 2)"
| "queries_left d sid (ClaimOwner n email) = (if jm_has (sessions d) sid then 3 else 5)"
| "queries_left d sid (CheckShare n) = 1"
| "queries_left d sid pc = 0"

definition request_at :: "access_world \<Rightarrow> nat \<Rightarrow> auth_pc" where
  "request_at w i = snd (snd (aw_requests w ! i))"

definition session_at :: "access_world \<Rightarrow> nat \<Rightarrow> string" where
  "session_at w i = fst (aw_requests w ! i)"

definition left_at :: "access_world \<Rightarrow> nat \<Rightarrow> nat" where
  "left_at w i = queries_left (aw_db w) (session_at w i) (request_at w i)"

fun advances :: "nat \<Rightarrow> life_event list \<Rightarrow> nat" where
  "advances i [] = 0"
| "advances i (Live (Advance profile j) # evs) = (if i = j then 1 else 0) + advances i evs"
| "advances i (ev # evs) = advances i evs"

fun deletions :: "string \<Rightarrow> life_event list \<Rightarrow> nat" where
  "deletions sid [] = 0"
| "deletions sid (DropSession s # evs) = (if s = sid then 1 else 0) + deletions sid evs"
| "deletions sid (ev # evs) = deletions sid evs"

lemma queries_left_0: "queries_left d sid pc = 0 \<longleftrightarrow> is_answer pc"
  by (cases pc) simp_all

lemma queries_left_finish [simp]: "queries_left d sid (finish n r) = 0"
  by (simp add: finish_def split: desk_decision.split)

lemma queries_left_mono: "owners_kept d d' \<Longrightarrow> queries_left d' sid pc \<le> queries_left d sid pc"
  by (cases pc; cases "owner_of d sid") (auto simp: owners_kept_def)

lemma jm_get_delete_key: "jm_get (delete_where (\<lambda>k _. k = s) m) k = (if k = s then None else jm_get m k)"
  by (induction m) (auto simp: delete_where_def)

lemma queries_left_drop:
  "queries_left (delete_session_rows s d) sid pc
    \<le> (if queries_left d sid pc = 0 then 0 else queries_left d sid pc + (if s = sid then 2 else 0))"
proof -
  have "sessions (delete_session_rows s d) = delete_where (\<lambda>k _. k = s) (sessions d)"
    by (simp add: delete_session_rows_def Let_def delete_stream_rows_def)
  then have "jm_get (sessions (delete_session_rows s d)) sid = (if sid = s then None else jm_get (sessions d) sid)"
    by (simp add: jm_get_delete_key)
  then show ?thesis by (cases pc) (simp_all add: owner_of_def)
qed

lemma auth_step_progress:
  "queries_left (snd (auth_step profile sid uid pc d)) sid (fst (auth_step profile sid uid pc d))
    \<le> queries_left d sid pc - 1"
proof (cases pc)
  case (SelectOwner n)
  then show ?thesis by (auto simp: owner_of_def split: option.splits)
next
  case (ClaimOwner n email)
  then show ?thesis
    by (cases "jm_has (sessions d) sid") (simp_all add: Let_def split_beta claim_update_won claim_update_owner)
qed (auto split: option.splits)

lemma left_at_access_step:
  assumes "i < length (aw_requests w)"
  shows "i < length (aw_requests (access_step w ev)) \<and> session_at (access_step w ev) i = session_at w i
    \<and> left_at (access_step w ev) i \<le> left_at w i - advances i [Live ev]"
proof (cases ev)
  case (Advance profile j)
  obtain sid uid pc where r: "aw_requests w ! j = (sid, uid, pc)" by (cases "aw_requests w ! j")
  show ?thesis
  proof (cases "j = i")
    case True
    with r assms auth_step_progress [of profile sid uid pc "aw_db w"] show ?thesis
      by (simp add: Advance access_step_def left_at_def request_at_def session_at_def Let_def split_beta)
  next
    case False
    with r assms queries_left_mono [OF owners_kept_step] show ?thesis
      by (simp add: Advance access_step_def left_at_def request_at_def session_at_def Let_def split_beta)
  qed
qed (use assms queries_left_mono [OF owners_kept_ensure] queries_left_mono [OF owners_kept_shares(1)]
    queries_left_mono [OF owners_kept_shares(2)]
  in \<open>simp_all add: access_step_def left_at_def request_at_def session_at_def nth_append\<close>)

lemma left_at_life_step:
  assumes "i < length (aw_requests w)"
  shows "i < length (aw_requests (life_step w ev)) \<and> session_at (life_step w ev) i = session_at w i
    \<and> left_at (life_step w ev) i
        \<le> (if left_at w i = 0 then 0 else left_at w i + 2 * deletions (session_at w i) [ev] - advances i [ev])"
proof (cases ev)
  case (Live e)
  with left_at_access_step [OF assms, of e] show ?thesis by auto
next
  case (DropSession s)
  with assms queries_left_drop [of s "aw_db w" "session_at w i" "request_at w i"] show ?thesis
    by (auto simp: left_at_def request_at_def session_at_def)
qed

lemma counts_Cons:
  "advances i (ev # evs) = advances i [ev] + advances i evs"
  "deletions sid (ev # evs) = deletions sid [ev] + deletions sid evs"
  by (cases ev; cases "case ev of Live e \<Rightarrow> e | _ \<Rightarrow> EnsureSessionRow 0 []"; simp)+

lemma run_left_at:
  "i < length (aw_requests w) \<Longrightarrow>
     left_at (run life_step w evs) i
       \<le> (if left_at w i = 0 then 0 else left_at w i + 2 * deletions (session_at w i) evs - advances i evs)"
proof (induction evs arbitrary: w)
  case (Cons ev evs)
  note step = left_at_life_step [OF Cons.prems, of ev]
  have rest: "left_at (run life_step (life_step w ev) evs) i
      \<le> (if left_at (life_step w ev) i = 0 then 0
          else left_at (life_step w ev) i + 2 * deletions (session_at w i) evs - advances i evs)"
    using Cons.IH [of "life_step w ev"] step by metis
  have "advances i [ev] \<le> 1" by (cases ev; cases "case ev of Live e \<Rightarrow> e | _ \<Rightarrow> EnsureSessionRow 0 []"; simp)
  with step rest show ?case
    unfolding run_Cons counts_Cons(1) [of i ev evs] counts_Cons(2) [of _ ev evs]
    by (cases "left_at w i = 0"; cases "left_at (life_step w ev) i = 0") (simp_all, linarith?)
qed simp

text \<open>C36. The mutual recursion of \<open>authorize\<close> and \<open>claim\<close> ends: whatever other requests, upserts, shares
  and deletions of sessions do before and in between, a request has its decision or its error once
  four of its own queries have been answered, and two more for every time its session was deleted
  since it was opened.\<close>

theorem authorize_terminates:
  assumes "4 + 2 * deletions sid later \<le> advances (length (aw_requests (run life_step (access_start d) evs))) later"
  shows "is_answer (request_at
    (run life_step (access_start d) (evs @ Live (OpenRequest create now sid uid) # later))
    (length (aw_requests (run life_step (access_start d) evs))))"
proof -
  let ?w = "run life_step (access_start d) evs"
  let ?i = "length (aw_requests ?w)"
  let ?o = "life_step ?w (Live (OpenRequest create now sid uid))"
  have opened: "?i < length (aw_requests ?o)" "session_at ?o ?i = sid" "request_at ?o ?i = SelectOwner False"
    by (simp_all add: access_step_def session_at_def request_at_def)
  then have "left_at ?o ?i \<le> 4" by (simp add: left_at_def)
  then have "left_at (run life_step ?o later) ?i = 0"
    using run_left_at [OF opened(1), of later] opened(2) assms by (simp split: if_splits)
  then show ?thesis by (simp add: left_at_def queries_left_0)
qed

text \<open>The two extra queries are needed: Ann sees the session ownerless, it is deleted, so her claim
  finds no row; it is upserted again, she sees it ownerless once more, and Bob claims it first. After
  four of her queries she still waits.\<close>

definition deleted_race :: "life_event list" where
  "deleted_race =
     [Live (Advance two_users 0), DropSession ''s'', Live (Advance two_users 0),
      Live (EnsureSessionRow 2 ''s''), Live (Advance two_users 0), Live (OpenRequest False 2 ''s'' ''bob''),
      Live (Advance two_users 1), Live (Advance two_users 1), Live (Advance two_users 0),
      Live (Advance two_users 0), Live (Advance two_users 0)]"

lemma deletion_costs_two:
  "\<not> is_answer (request_at (run life_step (access_start (db empty_archive))
      (Live (OpenRequest True 1 ''s'' ''ann'') # take 10 deleted_race)) 0)"
  by code_simp

theorem authorize_terminates_witness:
  "is_answer (request_at (run life_step (access_start (db empty_archive))
      ([] @ Live (OpenRequest True 1 ''s'' ''ann'') # deleted_race)) 0)"
  using authorize_terminates [of "''s''" deleted_race "db empty_archive" "[]" True 1 "''ann''"]
  by (simp add: deleted_race_def access_start_def)

subsection \<open>Shares and addresses\<close>

text \<open>Adds that do not overlap keep a session within the cap.\<close>

lemma add_share_cap:
  "length (list_shares sid d) \<le> max_shares_per_session \<Longrightarrow>
     length (list_shares sid (snd (add_share now sid email u d))) \<le> max_shares_per_session"
  by (auto simp: add_share_def add_share_check_def add_share_insert_def list_shares_def insert_new_def Let_def
      split: option.splits if_splits)

text \<open>A share is found by the address it was added under, and gone once revoked.\<close>

lemma shared_after_insert:
  "profile uid = Some p \<Longrightarrow> email \<in> set (up_verifiedEmails p) \<Longrightarrow>
     shared_with profile (add_share_insert now sid email u d) sid uid"
  unfolding shared_with_def add_share_insert_def list_ex_iff jm_has_keys by auto

lemma not_shared_after_remove:
  "profile uid = Some p \<Longrightarrow> up_verifiedEmails p = [email] \<Longrightarrow>
     \<not> shared_with profile (remove_share sid email d) sid uid"
  unfolding shared_with_def remove_share_def jm_has_keys by simp

end
