(* ===== verification/Collab_Hub.thy ===== *)
theory Collab_Hub
  imports Rate_Limit
begin

text \<open>
  \<open>apps/server/src/collab/index.ts\<close>, \<open>room.ts\<close>, \<open>connection.ts\<close>: a session's shared document
  on the server. Yjs is a parameter of the program: a document is the list of the updates
  applied to it, which is what its merged encoding restores. The chain of saves is a queue of
  jobs, each with the code that waits for it; the timers are flags and their firing is an event.
\<close>

subsection \<open>Rooms\<close>

datatype continuation = KNone | KRelease | KEvict

text \<open>A save in the chain: not begun, or writing the bytes it encoded when it began.\<close>

datatype 'u save_job = Waiting continuation | Writing "'u list" continuation

record 'u collab_room =
  cr_doc :: "'u list"
  cr_conns :: "nat list"
  cr_saveTimer :: bool
  cr_dirty :: bool
  cr_saving :: "'u save_job list"
  cr_evictTimer :: bool
  cr_evicted :: bool
  cr_resident :: bool
  cr_row :: "'u list"

text \<open>\<open>cr_resident\<close>: the room is in the hub's maps; \<open>cr_row\<close>: its row in \<open>collab_docs\<close>.\<close>

definition collab_create_room :: "'u list \<Rightarrow> 'u collab_room" where
  "collab_create_room row =
     \<lparr>cr_doc = row, cr_conns = [], cr_saveTimer = False, cr_dirty = False, cr_saving = [],
      cr_evictTimer = False, cr_evicted = False, cr_resident = True, cr_row = row\<rparr>"

definition schedule_save :: "'u collab_room \<Rightarrow> 'u collab_room" where
  "schedule_save r = r\<lparr>cr_dirty := True, cr_saveTimer := True\<rparr>"

definition save_timer_fires :: "'u collab_room \<Rightarrow> 'u collab_room" where
  "save_timer_fires r =
     (if cr_saveTimer r then r\<lparr>cr_saveTimer := False, cr_saving := cr_saving r @ [Waiting KNone]\<rparr> else r)"

definition flush_room :: "continuation \<Rightarrow> 'u collab_room \<Rightarrow> 'u collab_room" where
  "flush_room k r = r\<lparr>cr_saveTimer := False, cr_saving := cr_saving r @ [Waiting k]\<rparr>"

definition schedule_evict :: "'u collab_room \<Rightarrow> 'u collab_room" where
  "schedule_evict r = r\<lparr>cr_evictTimer := True\<rparr>"

text \<open>What runs when a save is over: the rest of \<open>releaseRoom\<close> or of \<open>evictRoom\<close>.\<close>

fun continue_with :: "continuation \<Rightarrow> 'u collab_room \<Rightarrow> 'u collab_room" where
  "continue_with KNone r = r"
| "continue_with KRelease r =
     (if cr_conns r \<noteq> [] \<or> cr_evicted r then r else schedule_evict r)"
| "continue_with KEvict r =
     (if cr_conns r \<noteq> [] \<or> cr_evicted r then r
      else if cr_dirty r then schedule_evict r
      else r\<lparr>cr_evicted := True, cr_resident := False\<rparr>)"

text \<open>\<open>save\<close> up to its await: nothing to do for a clean room.\<close>

definition save_begins :: "'u collab_room \<Rightarrow> 'u collab_room" where
  "save_begins r =
     (case cr_saving r of
        Waiting k # js \<Rightarrow>
          if cr_dirty r then r\<lparr>cr_dirty := False, cr_saving := Writing (cr_doc r) k # js\<rparr>
          else continue_with k (r\<lparr>cr_saving := js\<rparr>)
      | _ \<Rightarrow> r)"

definition save_ends :: "bool \<Rightarrow> 'u collab_room \<Rightarrow> 'u collab_room" where
  "save_ends ok r =
     (case cr_saving r of
        Writing b k # js \<Rightarrow>
          continue_with k
            (if ok then r\<lparr>cr_saving := js, cr_row := b\<rparr> else r\<lparr>cr_saving := js, cr_dirty := True\<rparr>)
      | _ \<Rightarrow> r)"

definition evict_timer_fires :: "'u collab_room \<Rightarrow> 'u collab_room" where
  "evict_timer_fires r =
     (if \<not> cr_evictTimer r then r
      else let r = r\<lparr>cr_evictTimer := False\<rparr>
           in if cr_conns r \<noteq> [] \<or> cr_evicted r then r else flush_room KEvict r)"

definition release_room :: "'u collab_room \<Rightarrow> 'u collab_room" where
  "release_room r = (if cr_conns r \<noteq> [] then r else flush_room KRelease r)"

text \<open>The part of \<open>attachRoom\<close> after \<open>getRoom\<close>: \<open>None\<close> asks for another attempt.\<close>

definition attach_once :: "nat \<Rightarrow> 'u collab_room \<Rightarrow> 'u collab_room option" where
  "attach_once c r =
     (if cr_evicted r then None
      else Some (r\<lparr>cr_conns := (if c \<in> set (cr_conns r) then cr_conns r else cr_conns r @ [c]),
                   cr_evictTimer := False\<rparr>))"

text \<open>The bounded loop: the rooms are what the successive \<open>getRoom\<close> calls resolve to.\<close>

fun attach_loop :: "nat \<Rightarrow> nat \<Rightarrow> 'u collab_room list \<Rightarrow> 'u collab_room option \<times> nat" where
  "attach_loop 0 c rooms = (None, 0)"
| "attach_loop (Suc n) c [] = (None, 0)"
| "attach_loop (Suc n) c (r # rooms) =
     (case attach_once c r of
        Some r' \<Rightarrow> (Some r', 1)
      | None \<Rightarrow> let (res, used) = attach_loop n c rooms in (res, Suc used))"

definition attach_room :: "nat \<Rightarrow> 'u collab_room list \<Rightarrow> 'u collab_room option \<times> nat" where
  "attach_room c rooms = attach_loop 3 c rooms"

definition collab_on_close :: "nat \<Rightarrow> 'u collab_room \<Rightarrow> 'u collab_room" where
  "collab_on_close c r =
     (if \<not> cr_resident r then r
      else let r = r\<lparr>cr_conns := removeAll c (cr_conns r)\<rparr>
           in if cr_conns r = [] then release_room r else r)"

definition collab_close_session :: "'u collab_room \<Rightarrow> 'u collab_room" where
  "collab_close_session r =
     (if \<not> cr_resident r then r
      else r\<lparr>cr_resident := False, cr_saveTimer := False, cr_evictTimer := False, cr_evicted := True,
             cr_dirty := False, cr_conns := []\<rparr>)"

subsection \<open>Frames\<close>

definition msg_sync_step1 :: byte where "msg_sync_step1 = 0"
definition msg_update :: byte where "msg_update = 1"
definition msg_awareness :: byte where "msg_awareness = 2"

definition collab_frame :: "byte \<Rightarrow> bytes \<Rightarrow> bytes" where
  "collab_frame tag payload = tag # payload"

datatype 'u collab_out = SendFrame nat bytes | DropConnection nat

text \<open>
  \<open>dispatch\<close>: \<open>diff\<close>, \<open>decode\<close> and \<open>encode\<close> are Yjs (the answer to a state vector, an update
  from its bytes and back), which merges an update it already holds into nothing and then raises
  no event; awareness is relayed without touching the document.
\<close>

definition collab_broadcast :: "'u collab_room \<Rightarrow> bytes \<Rightarrow> nat \<Rightarrow> 'u collab_out list" where
  "collab_broadcast r b origin = map (\<lambda>c. SendFrame c b) (filter (\<lambda>c. c \<noteq> origin) (cr_conns r))"

definition collab_dispatch ::
    "('u list \<Rightarrow> bytes \<Rightarrow> bytes) \<Rightarrow> (bytes \<Rightarrow> 'u) \<Rightarrow> ('u \<Rightarrow> bytes) \<Rightarrow> nat \<Rightarrow> bytes \<Rightarrow> 'u collab_room
      \<Rightarrow> 'u collab_room \<times> 'u collab_out list" where
  "collab_dispatch diff decode encode c frame r =
     (case frame of
        [] \<Rightarrow> (r, [])
      | tag # payload \<Rightarrow>
          if tag = msg_sync_step1
          then (r, [SendFrame c (collab_frame msg_update (diff (cr_doc r) payload))])
          else if tag = msg_update
          then let u = decode payload
               in if u \<in> set (cr_doc r) then (r, [])
                  else let r' = schedule_save (r\<lparr>cr_doc := cr_doc r @ [u]\<rparr>)
                       in (r', collab_broadcast r' (collab_frame msg_update (encode u)) c)
          else if tag = msg_awareness
          then (r, collab_broadcast r (collab_frame msg_awareness payload) c)
          else (r, []))"

text \<open>\<open>onMessage\<close>: the flood guard, then the dispatch into the room of the maps.\<close>

definition collab_on_message ::
    "('u list \<Rightarrow> bytes \<Rightarrow> bytes) \<Rightarrow> (bytes \<Rightarrow> 'u) \<Rightarrow> ('u \<Rightarrow> bytes) \<Rightarrow> real \<Rightarrow> nat \<Rightarrow> bytes
      \<Rightarrow> token_bucket \<Rightarrow> 'u collab_room \<Rightarrow> token_bucket \<times> 'u collab_room \<times> 'u collab_out list" where
  "collab_on_message diff decode encode now c frame bucket r =
     (let (ok, bucket') = take_token bucket now
      in if \<not> ok then (bucket', r, [DropConnection c])
         else if frame = [] then (bucket', r, [])
         else let (r', out) = collab_dispatch diff decode encode c frame r in (bucket', r', out))"

subsection \<open>The life of a room\<close>

datatype 'u collab_event =
    Attach nat
  | Detach nat
  | Update nat 'u
  | SaveTimer
  | SaveBegins
  | SaveEnds bool
  | EvictTimer

definition collab_step :: "'u collab_room \<Rightarrow> 'u collab_event \<Rightarrow> 'u collab_room" where
  "collab_step r ev =
     (case ev of
        Attach c \<Rightarrow> (if cr_resident r then case attach_once c r of None \<Rightarrow> r | Some r' \<Rightarrow> r' else r)
      | Detach c \<Rightarrow> collab_on_close c r
      | Update c u \<Rightarrow>
          (if cr_resident r
           then fst (collab_dispatch (\<lambda>_ b. b) (\<lambda>_. u) (\<lambda>_. []) c (collab_frame msg_update []) r) else r)
      | SaveTimer \<Rightarrow> save_timer_fires r
      | SaveBegins \<Rightarrow> save_begins r
      | SaveEnds ok \<Rightarrow> save_ends ok r
      | EvictTimer \<Rightarrow> evict_timer_fires r)"

text \<open>The updates of a run that reached the room while it was in the maps, in order.\<close>

fun delivered :: "'u collab_room \<Rightarrow> 'u collab_event list \<Rightarrow> 'u list" where
  "delivered r [] = []"
| "delivered r (ev # evs) =
     (case ev of Update c u \<Rightarrow> if cr_resident r then [u] else [] | _ \<Rightarrow> []) @ delivered (collab_step r ev) evs"

text \<open>What the row will hold once the write in flight, if any, is done.\<close>

definition pending_doc :: "'u collab_room \<Rightarrow> 'u list" where
  "pending_doc r = (case cr_saving r of Writing b _ # _ \<Rightarrow> b | _ \<Rightarrow> cr_row r)"

definition is_waiting :: "'u save_job \<Rightarrow> bool" where
  "is_waiting j = (case j of Waiting _ \<Rightarrow> True | _ \<Rightarrow> False)"

text \<open>A clean room is saved, or its save is being written; only the head of the chain writes.\<close>

definition collab_inv :: "'u collab_room \<Rightarrow> bool" where
  "collab_inv r \<longleftrightarrow>
     list_all is_waiting (tl (cr_saving r))
   \<and> (\<not> cr_dirty r \<longrightarrow> pending_doc r = cr_doc r)
   \<and> (cr_evicted r \<longleftrightarrow> \<not> cr_resident r)
   \<and> (cr_evicted r \<longrightarrow> cr_conns r = [] \<and> \<not> cr_dirty r \<and> list_all is_waiting (cr_saving r))"

lemma is_waiting_simps [simp]: "is_waiting (Waiting k)" "\<not> is_waiting (Writing b k)"
  by (simp_all add: is_waiting_def)

lemma pending_doc_waiting:
  "list_all is_waiting (cr_saving r) \<Longrightarrow> pending_doc r = cr_row r"
  by (auto simp: pending_doc_def is_waiting_def split: list.splits save_job.splits)

lemma pending_doc_writing:
  "cr_saving r = Writing b k # js \<Longrightarrow> pending_doc r = b"
  by (simp add: pending_doc_def)

lemma pending_doc_snoc:
  "cr_saving r' = cr_saving r @ [Waiting k] \<Longrightarrow> cr_row r' = cr_row r \<Longrightarrow> pending_doc r' = pending_doc r"
  by (cases "cr_saving r") (simp_all add: pending_doc_def split: save_job.split)

lemma pending_doc_upd [simp]:
  "pending_doc (r\<lparr>cr_conns := cs\<rparr>) = pending_doc r"
  "pending_doc (r\<lparr>cr_saveTimer := t\<rparr>) = pending_doc r"
  "pending_doc (r\<lparr>cr_evictTimer := t\<rparr>) = pending_doc r"
  "pending_doc (r\<lparr>cr_dirty := t\<rparr>) = pending_doc r"
  "pending_doc (r\<lparr>cr_evicted := t\<rparr>) = pending_doc r"
  "pending_doc (r\<lparr>cr_resident := t\<rparr>) = pending_doc r"
  "pending_doc (r\<lparr>cr_doc := d\<rparr>) = pending_doc r"
  by (simp_all add: pending_doc_def cong: list.case_cong save_job.case_cong)

lemma continue_with_inv:
  assumes "collab_inv r" "list_all is_waiting (cr_saving r)"
  shows "collab_inv (continue_with k r)"
proof (cases k)
  case KEvict
  with assms show ?thesis
    by (simp add: collab_inv_def schedule_evict_def)
qed (use assms in \<open>simp_all add: collab_inv_def schedule_evict_def\<close>)

lemma inv_add_waiting:
  assumes "collab_inv r"
  shows "collab_inv (r\<lparr>cr_saveTimer := b, cr_saving := cr_saving r @ [Waiting k]\<rparr>)" (is "collab_inv ?r")
proof -
  have "pending_doc ?r = pending_doc r" by (rule pending_doc_snoc) simp_all
  moreover have "list_all is_waiting (tl (cr_saving r @ [Waiting k]))"
    using assms by (cases "cr_saving r") (simp_all add: collab_inv_def)
  ultimately show ?thesis using assms by (simp add: collab_inv_def)
qed

lemma save_begins_inv:
  assumes "collab_inv r" shows "collab_inv (save_begins r)"
proof (cases "\<exists>k js. cr_saving r = Waiting k # js")
  case True
  then obtain k js where saving: "cr_saving r = Waiting k # js" by blast
  have js: "list_all is_waiting js" using assms by (simp add: collab_inv_def saving)
  then have tl: "list_all is_waiting (tl js)" by (cases js) simp_all
  have row: "pending_doc r = cr_row r" by (rule pending_doc_waiting) (simp add: saving js)
  show ?thesis
  proof (cases "cr_dirty r")
    case True
    with assms have "\<not> cr_evicted r" "cr_resident r" unfolding collab_inv_def by blast+
    with True js show ?thesis
      by (simp add: save_begins_def saving collab_inv_def pending_doc_def)
  next
    case False
    have "pending_doc (r\<lparr>cr_saving := js\<rparr>) = cr_row r"
      using pending_doc_waiting [of "r\<lparr>cr_saving := js\<rparr>"] js by simp
    then have "collab_inv (r\<lparr>cr_saving := js\<rparr>)"
      using assms row js tl False by (simp add: collab_inv_def)
    then show ?thesis
      using js False by (simp add: save_begins_def saving continue_with_inv)
  qed
next
  case False
  then have "save_begins r = r"
    by (auto simp: save_begins_def split: list.split save_job.split)
  with assms show ?thesis by simp
qed

lemma save_ends_inv:
  assumes "collab_inv r" shows "collab_inv (save_ends ok r)"
proof (cases "\<exists>b k js. cr_saving r = Writing b k # js")
  case True
  then obtain b k js where saving: "cr_saving r = Writing b k # js" by blast
  have js: "list_all is_waiting js" using assms by (simp add: collab_inv_def saving)
  then have tl: "list_all is_waiting (tl js)" by (cases js) simp_all
  have live: "\<not> cr_evicted r"
  proof
    assume "cr_evicted r"
    with assms have "list_all is_waiting (cr_saving r)" by (simp add: collab_inv_def)
    then show False by (simp add: saving)
  qed
  have "cr_resident r" using assms live unfolding collab_inv_def by blast
  have clean: "b = cr_doc r" if "\<not> cr_dirty r"
    using assms that by (simp add: collab_inv_def pending_doc_writing [OF saving])
  have "collab_inv (if ok then r\<lparr>cr_saving := js, cr_row := b\<rparr> else r\<lparr>cr_saving := js, cr_dirty := True\<rparr>)"
    using js tl live \<open>cr_resident r\<close> clean by (cases ok) (simp_all add: collab_inv_def pending_doc_waiting)
  then show ?thesis
    using js by (simp add: save_ends_def saving continue_with_inv split: if_splits)
next
  case False
  then have "save_ends ok r = r"
    by (auto simp: save_ends_def split: list.split save_job.split)
  with assms show ?thesis by simp
qed

lemma collab_dispatch_inv:
  assumes "collab_inv r" "cr_resident r"
  shows "collab_inv (fst (collab_dispatch diff dec enc c f r))"
  using assms
  by (simp add: collab_dispatch_def collab_inv_def schedule_save_def Let_def split: list.split)

lemma collab_on_close_inv:
  assumes "collab_inv r" shows "collab_inv (collab_on_close c r)"
proof -
  let ?r = "r\<lparr>cr_conns := removeAll c (cr_conns r)\<rparr>"
  have r: "collab_inv ?r"
    using assms by (auto simp: collab_inv_def)
  then have "collab_inv (release_room ?r)"
    using inv_add_waiting [of ?r KRelease False] unfolding release_room_def flush_room_def
    by (cases "cr_conns ?r = []") simp_all
  with r assms show ?thesis
    unfolding collab_on_close_def Let_def by presburger
qed

lemma collab_step_inv:
  assumes "collab_inv r" shows "collab_inv (collab_step r ev)"
proof (cases ev)
  case (Attach c)
  with assms show ?thesis
    by (simp add: collab_step_def attach_once_def collab_inv_def)
next
  case (Update c u)
  with assms show ?thesis by (simp add: collab_step_def collab_dispatch_inv)
next
  case SaveTimer
  with assms show ?thesis by (simp add: collab_step_def save_timer_fires_def inv_add_waiting)
next
  case EvictTimer
  have "collab_inv (r\<lparr>cr_evictTimer := False\<rparr>)" using assms by (simp add: collab_inv_def)
  from this inv_add_waiting [OF this] show ?thesis
    using assms by (simp add: EvictTimer collab_step_def evict_timer_fires_def Let_def flush_room_def)
qed (use assms in \<open>simp_all add: collab_step_def save_begins_inv save_ends_inv collab_on_close_inv\<close>)

interpretation collab_machine: invariant_machine collab_step collab_inv
  by unfold_locales (rule collab_step_inv)

subsection \<open>Edits are never lost\<close>

lemma continue_with_doc [simp]: "cr_doc (continue_with k r) = cr_doc r"
  by (cases k) (simp_all add: schedule_evict_def)

lemma collab_step_doc:
  "set (cr_doc (collab_step r ev))
     = set (cr_doc r) \<union> (case ev of Update c u \<Rightarrow> if cr_resident r then {u} else {} | _ \<Rightarrow> {})"
proof (cases ev)
  case SaveBegins
  then show ?thesis
    by (auto simp: collab_step_def save_begins_def split: list.split save_job.split)
next
  case (SaveEnds ok)
  then show ?thesis
    by (auto simp: collab_step_def save_ends_def split: list.split save_job.split)
next
  case EvictTimer
  then show ?thesis
    by (simp add: collab_step_def evict_timer_fires_def flush_room_def Let_def)
next
  case (Update c u)
  then show ?thesis
    by (auto simp: collab_step_def collab_dispatch_def collab_frame_def msg_update_def msg_sync_step1_def
        schedule_save_def Let_def)
qed (simp_all add: collab_step_def attach_once_def collab_on_close_def release_room_def flush_room_def
      save_timer_fires_def Let_def)

lemma run_collab_doc:
  "set (cr_doc (run collab_step r evs)) = set (cr_doc r) \<union> set (delivered r evs)"
proof (induction evs arbitrary: r)
  case (Cons ev evs)
  then show ?case
    by (cases ev) (auto simp: run_Cons collab_step_doc)
qed simp

lemma collab_create_room_inv: "collab_inv (collab_create_room row)"
  by (simp add: collab_inv_def collab_create_room_def pending_doc_def)

text \<open>C11. An idle room is dropped from memory only once its row in the database holds the whole
  document: in every run of attaches, detaches, edits, timers and saves that may fail, a room that
  has left the maps has no connection and its row holds the updates it was loaded from and every
  update delivered to it, whichever way the debounced save, the release flush and the eviction
  flush interleave.\<close>

theorem eviction_keeps_edits:
  assumes "\<not> cr_resident (run collab_step (collab_create_room row) evs)"
  shows "cr_conns (run collab_step (collab_create_room row) evs) = []
    \<and> set (cr_row (run collab_step (collab_create_room row) evs))
        = set row \<union> set (delivered (collab_create_room row) evs)"
proof -
  let ?r = "run collab_step (collab_create_room row) evs"
  have inv: "collab_inv ?r"
    by (rule collab_machine.run_inv) (rule collab_create_room_inv)
  with assms have "cr_evicted ?r" by (simp add: collab_inv_def)
  with inv have "cr_conns ?r = []" "pending_doc ?r = cr_doc ?r" "list_all is_waiting (cr_saving ?r)"
    by (simp_all add: collab_inv_def)
  then show ?thesis
    by (simp add: pending_doc_waiting run_collab_doc [of "collab_create_room row", symmetric])
       (simp add: run_collab_doc collab_create_room_def)
qed

definition sample_collab_run :: "nat collab_event list" where
  "sample_collab_run =
     [Attach 1, Update 1 7, SaveTimer, SaveBegins, Update 1 8, Detach 1, SaveEnds False, SaveBegins, SaveEnds True,
      EvictTimer, SaveBegins]"

theorem eviction_keeps_edits_witness:
  "cr_conns (run collab_step (collab_create_room [5]) sample_collab_run) = []
   \<and> set (cr_row (run collab_step (collab_create_room [5]) sample_collab_run))
        = {5} \<union> set (delivered (collab_create_room [5]) sample_collab_run)
   \<and> delivered (collab_create_room [5]) sample_collab_run = [7, 8]"
proof -
  have "\<not> cr_resident (run collab_step (collab_create_room [5]) sample_collab_run)" by code_simp
  from eviction_keeps_edits [OF this] show ?thesis
    by (simp only: list.set) (code_simp)
qed

subsection \<open>Attaching\<close>

lemma attach_loop_spec:
  "attach_loop n c rooms = (res, used) \<Longrightarrow>
     used \<le> n
   \<and> (case res of
        Some r' \<Rightarrow> (\<exists>r pre post. rooms = pre @ r # post \<and> length pre < n \<and> (\<forall>q \<in> set pre. cr_evicted q)
                       \<and> attach_once c r = Some r' \<and> used = Suc (length pre))
      | None \<Rightarrow> \<forall>q \<in> set (take n rooms). cr_evicted q)"
proof (induction n c rooms arbitrary: res used rule: attach_loop.induct)
  case (3 n c r rooms)
  show ?case
  proof (cases "attach_once c r")
    case None
    obtain res' used' where rec: "attach_loop n c rooms = (res', used')" by fastforce
    have evicted: "cr_evicted r" using None by (simp add: attach_once_def split: if_splits)
    have split: "res = res'" "used = Suc used'" using 3 None rec by simp_all
    show ?thesis
    proof (cases res')
      case (Some r')
      with "3.IH" [OF None rec] obtain q pre post where
        "rooms = pre @ q # post" "length pre < n" "\<forall>x \<in> set pre. cr_evicted x"
        "attach_once c q = Some r'" "used' = Suc (length pre)" "used' \<le> n" by auto
      then have "r # rooms = (r # pre) @ q # post" "length (r # pre) < Suc n" "\<forall>x \<in> set (r # pre). cr_evicted x"
        "attach_once c q = Some r'" "used = Suc (length (r # pre))"
        using evicted split by simp_all
      then have "\<exists>q pre post. r # rooms = pre @ q # post \<and> length pre < Suc n \<and> (\<forall>x \<in> set pre. cr_evicted x)
          \<and> attach_once c q = Some r' \<and> used = Suc (length pre)" by blast
      with Some split \<open>used' \<le> n\<close> show ?thesis by simp
    qed (use "3.IH" [OF None rec] split evicted in simp)
  next
    case (Some r')
    with "3.prems" have "res = Some r'" "used = 1" by simp_all
    moreover have "\<exists>q pre post. r # rooms = pre @ q # post \<and> length pre < Suc n \<and> (\<forall>x \<in> set pre. cr_evicted x)
        \<and> attach_once c q = Some r' \<and> 1 = Suc (length pre)"
      using Some by (intro exI [of _ r] exI [of _ "[]"] exI [of _ rooms]) simp
    ultimately show ?thesis by simp
  qed
qed auto

text \<open>\<open>attachRoom\<close> never spins and never joins a dead room: whatever rooms \<open>getRoom\<close> resolves
  to, it asks for at most three of them, the one it joins is the first that was not evicted, its
  connection is then a member and the idle countdown is off; it gives up only when all of the rooms
  it saw were evicted.\<close>

theorem attach_room_bounded:
  assumes "attach_room c rooms = (res, used)"
  shows "used \<le> 3
    \<and> (case res of
         Some r' \<Rightarrow> c \<in> set (cr_conns r') \<and> \<not> cr_evicted r' \<and> \<not> cr_evictTimer r'
                     \<and> cr_doc r' = cr_doc (rooms ! (used - 1)) \<and> list_all cr_evicted (take (used - 1) rooms)
       | None \<Rightarrow> list_all cr_evicted (take 3 rooms))"
proof (cases res)
  case None
  then show ?thesis
    using attach_loop_spec [OF assms [unfolded attach_room_def]] by (simp add: list_all_iff)
next
  case (Some r')
  with attach_loop_spec [OF assms [unfolded attach_room_def]] obtain r pre post where
    "rooms = pre @ r # post" "\<forall>q \<in> set pre. cr_evicted q" "attach_once c r = Some r'" "used = Suc (length pre)" "used \<le> 3"
    by auto
  with Some show ?thesis
    by (auto simp: list_all_iff attach_once_def nth_append split: if_splits)
qed

definition sample_evicted_room :: "nat collab_room" where
  "sample_evicted_room = (collab_create_room [1])\<lparr>cr_evicted := True, cr_resident := False\<rparr>"

theorem attach_room_bounded_witness:
  "attach_room 4 [sample_evicted_room, collab_create_room [1, 2]]
     = (Some ((collab_create_room [1, 2])\<lparr>cr_conns := [4]\<rparr>), 2)
   \<and> cr_doc ((collab_create_room [1, 2 :: nat])\<lparr>cr_conns := [4]\<rparr>) = [1, 2]"
proof -
  have run: "attach_room 4 [sample_evicted_room, collab_create_room [1, 2]]
     = (Some ((collab_create_room [1, 2])\<lparr>cr_conns := [4]\<rparr>), 2)"
    by code_simp
  from attach_room_bounded [OF run] run show ?thesis
    by (simp add: collab_create_room_def)
qed

text \<open>A fan-out reaches every other connection once and never its origin.\<close>

lemma collab_broadcast_targets:
  "SendFrame d b \<in> set (collab_broadcast r b c) \<longleftrightarrow> d \<in> set (cr_conns r) \<and> d \<noteq> c"
  by (auto simp: collab_broadcast_def)

text \<open>The session's deletion stops every later save but the one already writing.\<close>

lemma closed_session_saves_nothing:
  "list_all is_waiting (cr_saving r) \<Longrightarrow> cr_resident r \<Longrightarrow>
     cr_row (save_begins (collab_close_session r)) = cr_row r \<and>
     list_all is_waiting (cr_saving (save_begins (collab_close_session r)))"
proof (cases "cr_saving r")
  case (Cons j js)
  assume "list_all is_waiting (cr_saving r)" "cr_resident r"
  with Cons obtain k where "j = Waiting k" by (cases j) auto
  with Cons \<open>list_all is_waiting (cr_saving r)\<close> \<open>cr_resident r\<close> show ?thesis
    by (cases k) (simp_all add: save_begins_def collab_close_session_def)
qed (simp add: save_begins_def collab_close_session_def)

end
