(* ===== verification/Http_Routes.thy ===== *)
theory Http_Routes
  imports Access Archive_Read Collab_Hub
begin

text \<open>
  The server's HTTP surface: \<open>apps/server/src/gates.ts\<close>, \<open>routes-sessions.ts\<close>, \<open>routes-shares.ts\<close>,
  \<open>download-name.ts\<close>, the join limiter and the collab upgrade of \<open>ws.ts\<close>, and from \<open>index.ts\<close> the
  hard deletion and the expiry sweep. A route is not interleaved at its awaits here; the sweep is,
  with anything else the server does. Keyless mode
  is \<open>None\<close>; a rejected profile call is the 500 of \<open>onError\<close>.
\<close>

subsection \<open>Gates\<close>

record auth_deps =
  au_verify :: "string \<Rightarrow> string option"
  au_profile :: "string \<Rightarrow> user_profile option"

definition hex_char :: "char \<Rightarrow> bool" where
  "hex_char c \<longleftrightarrow> c \<in> set ''0123456789abcdefABCDEF''"

definition uuid_shape :: "string \<Rightarrow> bool" where
  "uuid_shape s \<longleftrightarrow>
     length s = 36
   \<and> list_all (\<lambda>i. if i \<in> {8, 13, 18, 23} then s ! i = CHR ''-'' else hex_char (s ! i)) [0..<36]"

datatype desk_gate_result = GatePass "string option" "desk_role option" | GateFail nat string

definition bearer_prefix :: string where "bearer_prefix = ''Bearer ''"

definition bearer_user :: "auth_deps option \<Rightarrow> string option \<Rightarrow> string option" where
  "bearer_user auth header =
     (case auth of None \<Rightarrow> None
      | Some a \<Rightarrow>
          (case header of None \<Rightarrow> None
           | Some h \<Rightarrow>
               if take 7 h = bearer_prefix then au_verify a (drop 7 h) else None))"

definition desk_gate ::
    "auth_deps option \<Rightarrow> string option \<Rightarrow> string \<Rightarrow> archive_db \<Rightarrow> desk_gate_result \<times> archive_db" where
  "desk_gate auth header sid d =
     (case auth of None \<Rightarrow> (GatePass None None, d)
      | Some a \<Rightarrow>
          if \<not> uuid_shape sid then (GateFail 404 ''unknown session'', d)
          else case bearer_user auth header of
                 None \<Rightarrow> (GateFail 401 ''authentication required'', d)
               | Some uid \<Rightarrow>
                   let (pc, d') = authorize (au_profile a) sid uid d
                   in (case pc of
                         Decided (Granted role) \<Rightarrow> GatePass (Some uid) (Some role)
                       | Decided (Refused UnknownSession) \<Rightarrow> GateFail 404 ''unknown session''
                       | Decided (Refused Forbidden) \<Rightarrow> GateFail 403 ''no desk access''
                       | ThrewAccessDenied \<Rightarrow> GateFail 403 ''no desk access''
                       | _ \<Rightarrow> GateFail 500 ''internal'', d'))"

text \<open>The gate of the signaling hello: the verdict, or no gate in keyless mode.\<close>

datatype hello_verdict = HelloOk | HelloRefused string | HelloThrew

definition desk_hello_auth ::
    "auth_deps option \<Rightarrow> int \<Rightarrow> string \<Rightarrow> string option \<Rightarrow> archive_db \<Rightarrow> hello_verdict option \<times> archive_db" where
  "desk_hello_auth auth now sid token d =
     (case auth of None \<Rightarrow> (None, d)
      | Some a \<Rightarrow>
          (case truthy token of
             None \<Rightarrow> (Some (HelloRefused ''sign in required''), d)
           | Some t \<Rightarrow>
               (case au_verify a t of
                  None \<Rightarrow> (Some (HelloRefused ''session token invalid''), d)
                | Some uid \<Rightarrow>
                    let (pc, d') = authorize_or_create (au_profile a) now sid uid d
                    in (Some (case pc of
                          Decided (Granted _) \<Rightarrow> HelloOk
                        | ThrewProfile \<Rightarrow> HelloThrew
                        | _ \<Rightarrow> HelloRefused ''no desk access''), d'))))"

text \<open>The collab upgrade: \<open>None\<close> lets it through.\<close>

definition collab_upgrade_gate ::
    "auth_deps option \<Rightarrow> int \<Rightarrow> string option \<Rightarrow> string \<Rightarrow> archive_db \<Rightarrow> nat option \<times> archive_db" where
  "collab_upgrade_gate auth now token sid d =
     (case auth of None \<Rightarrow> (None, d)
      | Some a \<Rightarrow>
          (case (case truthy token of None \<Rightarrow> None | Some t \<Rightarrow> au_verify a t) of
             None \<Rightarrow> (Some 401, d)
           | Some uid \<Rightarrow>
               if \<not> uuid_shape sid then (Some 404, d)
               else let (pc, d') = authorize_or_create (au_profile a) now sid uid d
                    in (case pc of
                          Decided (Granted _) \<Rightarrow> None
                        | ThrewProfile \<Rightarrow> Some 500
                        | _ \<Rightarrow> Some 403, d')))"

subsection \<open>Joining\<close>

definition client_ip :: "bool \<Rightarrow> string option \<Rightarrow> string option \<Rightarrow> string" where
  "client_ip trustProxy forwarded_for remote =
     (let direct = (case remote of None \<Rightarrow> ''unknown'' | Some r \<Rightarrow> r)
      in if \<not> trustProxy then direct
         else case forwarded_for of None \<Rightarrow> direct
              | Some h \<Rightarrow> (let first = js_trim (takeWhile (\<lambda>c. c \<noteq> CHR '','') h)
                           in if first = [] then direct else first))"

text \<open>\<open>joinRateLimit\<close>: 429, or on to the upgrade.\<close>

definition join_rate_limit :: "keyed_limiter \<Rightarrow> string \<Rightarrow> real \<Rightarrow> nat option \<times> keyed_limiter" where
  "join_rate_limit l ip now = (let (ok, l') = allow l ip now in (if ok then None else Some 429, l'))"

subsection \<open>Download names\<close>

text \<open>Runs of characters that do not satisfy \<open>p\<close> become one dash.\<close>

fun collapse_runs :: "(char \<Rightarrow> bool) \<Rightarrow> bool \<Rightarrow> string \<Rightarrow> string" where
  "collapse_runs p in_run [] = []"
| "collapse_runs p in_run (c # cs) =
     (if p c then c # collapse_runs p False cs
      else if in_run then collapse_runs p True cs
      else CHR ''-'' # collapse_runs p True cs)"

definition trim_dashes :: "string \<Rightarrow> string" where
  "trim_dashes s = rev (dropWhile (\<lambda>c. c = CHR ''-'') (rev (dropWhile (\<lambda>c. c = CHR ''-'') s)))"

text \<open>\<open>letter\<close> is the Unicode class of letters and numbers.\<close>

definition file_safe :: "(char \<Rightarrow> bool) \<Rightarrow> string \<Rightarrow> string" where
  "file_safe letter name =
     (let s = trim_dashes (collapse_runs letter False name) in if s = [] then ''track'' else s)"

text \<open>The alternation is tried in its order at each position from the left.\<close>

definition device_families :: "string list" where
  "device_families = [''iPhone'', ''iPad'', ''Android'', ''Macintosh'', ''Windows'']"

fun device_name :: "string \<Rightarrow> string" where
  "device_name [] = ''Browser''"
| "device_name (c # cs) =
     (case filter (\<lambda>f. take (length f) (c # cs) = f) device_families of
        f # _ \<Rightarrow> f
      | [] \<Rightarrow> device_name cs)"

definition ascii_printable :: "char \<Rightarrow> bool" where
  "ascii_printable c \<longleftrightarrow> (let n = (of_char c :: nat) in 32 \<le> n \<and> n \<le> 126)"

definition content_disposition ::
    "(char \<Rightarrow> bool) \<Rightarrow> (string \<Rightarrow> string) \<Rightarrow> string \<Rightarrow> (string option \<times> string) option \<Rightarrow> string \<times> string option" where
  "content_disposition letter encode stid peer =
     (case peer of
        None \<Rightarrow> (stid @ ''.flac'', None)
      | Some (lbl, ua) \<Rightarrow>
          let nickname = trim_or lbl None;
              shortId = take 8 stid;
              base = (case nickname of None \<Rightarrow> device_name ua | Some n \<Rightarrow> file_safe letter n);
              name = base @ ''-'' @ shortId @ ''.flac''
          in if list_all ascii_printable name then (name, None)
             else let asciiBase = trim_dashes (collapse_runs (\<lambda>c. c \<noteq> CHR ''-'') False
                                     (collapse_runs ascii_printable False base))
                  in (if asciiBase = [] then shortId @ ''.flac'' else asciiBase @ ''-'' @ shortId @ ''.flac'',
                      Some (encode name)))"

text \<open>The file name of a download holds no quote and no backslash, so it needs no escaping.\<close>

lemma trim_dashes_subset: "set (trim_dashes s) \<subseteq> set s"
  by (auto simp: trim_dashes_def dest!: set_dropWhileD)

lemma collapse_runs_subset: "set (collapse_runs p b s) \<subseteq> insert (CHR ''-'') {c \<in> set s. p c}"
  by (induction p b s rule: collapse_runs.induct) auto

lemma file_safe_chars:
  assumes "c \<in> set (file_safe letter name)"
  shows "letter c \<or> c = CHR ''-'' \<or> c \<in> set ''track''"
  using assms trim_dashes_subset [of "collapse_runs letter False name"]
    collapse_runs_subset [of letter False name]
  by (auto simp: file_safe_def Let_def split: if_splits)

lemma file_safe_not_empty: "file_safe letter name \<noteq> []"
  by (simp add: file_safe_def Let_def)

subsection \<open>Deletion\<close>

text \<open>
  The server: signaling, collab rooms and archive. \<open>destroySession\<close> disconnects the peers, drops the
  collab room unsaved, then deletes durably; a failed deletion rejects.
\<close>

record 'u server =
  sv_signaling :: signaling_srv
  sv_collab :: "(string, 'u collab_room) jsmap"
  sv_archive :: archive

definition collab_drop_room :: "string \<Rightarrow> (string, 'u collab_room) jsmap \<Rightarrow> (string, 'u collab_room) jsmap" where
  "collab_drop_room sid rooms = jm_delete sid rooms"

definition destroy_session ::
    "(string \<Rightarrow> bool) \<Rightarrow> string \<Rightarrow> 'u server \<Rightarrow> (archive_error + unit) \<times> 'u server \<times> effect list" where
  "destroy_session io sid s =
     (let (signaling, out) = close_session sid (sv_signaling s);
          (res, arch) = delete_session io sid (sv_archive s)
      in (res, s\<lparr>sv_signaling := signaling, sv_collab := collab_drop_room sid (sv_collab s), sv_archive := arch\<rparr>, out))"

subsection \<open>Session routes\<close>

datatype 'b response = Response nat 'b

datatype body =
    NoBody
  | JError string
  | JSession string
  | JExists
  | JSummary session_summary_rec "desk_role option"
  | JTake string "stream_status list"
  | JIngest
  | Flac bytes "string \<times> string option"
  | JLists "session_list_entry list" "session_list_entry list"
  | JShares "(string \<times> int) list"
  | JEmail string

datatype session_request =
    PostSession string
  | GetExists string
  | GetSession string
  | DeleteSessionRoute string
  | GetTake string string
  | GetIngest string
  | GetFlac string bool

text \<open>
  What the routes use of the code outside: \<open>castable\<close> is Postgres's uuid input (another id is an
  error of the query, which \<open>onError\<close> turns into 500), then the parameters of the archive's queries.
\<close>

record env =
  ev_castable :: "string \<Rightarrow> bool"
  ev_uuidRank :: "string \<Rightarrow> real"
  ev_sha256 :: "bytes \<Rightarrow> string"
  ev_payload :: "bytes \<Rightarrow> bytes option"
  ev_codecHeader :: "bytes \<Rightarrow> bytes option"
  ev_io :: "string \<Rightarrow> bool"
  ev_letter :: "char \<Rightarrow> bool"
  ev_encode :: "string \<Rightarrow> string"

definition internal_error :: "body response" where
  "internal_error = Response 500 (JError ''internal'')"

definition with_gate ::
    "auth_deps option \<Rightarrow> string option \<Rightarrow> string \<Rightarrow> 'u server
      \<Rightarrow> (string option \<Rightarrow> desk_role option \<Rightarrow> 'u server \<Rightarrow> body response \<times> 'u server) \<Rightarrow> body response \<times> 'u server" where
  "with_gate auth header sid s k =
     (case desk_gate auth header sid (db (sv_archive s)) of
        (GateFail code err, d) \<Rightarrow> (Response code (JError err), s\<lparr>sv_archive := (sv_archive s)\<lparr>db := d\<rparr>\<rparr>)
      | (GatePass uid role, d) \<Rightarrow> k uid role (s\<lparr>sv_archive := (sv_archive s)\<lparr>db := d\<rparr>\<rparr>))"

definition serve_flac :: "env \<Rightarrow> string \<Rightarrow> bool \<Rightarrow> archive \<Rightarrow> body response" where
  "serve_flac ev stid allowPartial a =
     (case reconstruct_flac (ev_payload ev) (ev_codecHeader ev) (ev_io ev) stid allowPartial a of
        Inl UnknownStream \<Rightarrow> Response 404 (JError ''unknown stream'')
      | Inl (FrameUnreadable _) \<Rightarrow> internal_error
      | Inl (FrameMalformed _) \<Rightarrow> internal_error
      | Inl _ \<Rightarrow> Response 409 (JError ''not yet'')
      | Inr b \<Rightarrow> Response 200 (Flac b (content_disposition (ev_letter ev) (ev_encode ev) stid (stream_peer stid (db a)))))"

fun session_route ::
    "env \<Rightarrow> auth_deps option \<Rightarrow> int \<Rightarrow> string option \<Rightarrow> session_request \<Rightarrow> 'u server \<Rightarrow> body response \<times> 'u server" where
  "session_route ev auth now header (PostSession fresh) s =
     (case auth of
        Some a \<Rightarrow>
          (case bearer_user auth header of
             None \<Rightarrow> (Response 401 (JError ''authentication required''), s)
           | Some uid \<Rightarrow>
               (case create_owned (au_profile a) now fresh uid (db (sv_archive s)) of
                  None \<Rightarrow> (internal_error, s)
                | Some d \<Rightarrow> (Response 201 (JSession fresh), s\<lparr>sv_archive := (sv_archive s)\<lparr>db := d\<rparr>\<rparr>)))
      | None \<Rightarrow> (Response 201 (JSession fresh), s\<lparr>sv_archive := ensure_session now fresh (sv_archive s)\<rparr>))"
| "session_route ev auth now header (GetExists sid) s =
     ((if uuid_shape sid \<and> session_exists sid (db (sv_archive s)) then Response 200 JExists
       else Response 404 (JError ''unknown session'')), s)"
| "session_route ev auth now header (GetSession sid) s =
     (if \<not> uuid_shape sid then (Response 404 (JError ''unknown session''), s)
      else with_gate auth header sid s (\<lambda>uid role s.
        (case session_summary (ev_uuidRank ev) sid (db (sv_archive s)) of
           None \<Rightarrow> Response 404 (JError ''unknown session'')
         | Some sm \<Rightarrow> Response 200 (JSummary sm role), s)))"
| "session_route ev auth now header (DeleteSessionRoute sid) s =
     with_gate auth header sid s (\<lambda>uid role s.
       if \<not> ev_castable ev sid then (internal_error, s)
       else case destroy_session (ev_io ev) sid s of
              (Inl _, s', _) \<Rightarrow> (internal_error, s')
            | (Inr _, s', _) \<Rightarrow> (Response 204 NoBody, s'))"
| "session_route ev auth now header (GetTake sid tid) s =
     with_gate auth header sid s (\<lambda>uid role s.
       (if \<not> ev_castable ev tid then internal_error
        else case take_summary (ev_sha256 ev) sid tid (db (sv_archive s)) of
               None \<Rightarrow> Response 404 (JError ''unknown take'')
             | Some sts \<Rightarrow> Response 200 (JTake tid sts), s))"
| "session_route ev auth now header (GetIngest sid) s =
     with_gate auth header sid s (\<lambda>uid role s. (Response 200 JIngest, s))"
| "session_route ev auth now header (GetFlac stid partial) s =
     (if auth = None
      then ((if \<not> ev_castable ev stid then internal_error else serve_flac ev stid partial (sv_archive s)), s)
      else case bearer_user auth header of
             None \<Rightarrow> (Response 401 (JError ''authentication required''), s)
           | Some _ \<Rightarrow>
               (case (if uuid_shape stid then stream_session_id stid (db (sv_archive s)) else None) of
                  None \<Rightarrow> (Response 404 (JError ''unknown stream''), s)
                | Some sid \<Rightarrow> with_gate auth header sid s (\<lambda>uid role s. (serve_flac ev stid partial (sv_archive s), s))))"

subsection \<open>Account routes\<close>

datatype account_request = GetLists | GetShares string | PostShare string "string option" | DeleteShare string string

definition owner_gate ::
    "auth_deps option \<Rightarrow> string option \<Rightarrow> string \<Rightarrow> 'u server
      \<Rightarrow> (string option \<Rightarrow> 'u server \<Rightarrow> body response \<times> 'u server) \<Rightarrow> body response \<times> 'u server" where
  "owner_gate auth header sid s k =
     with_gate auth header sid s (\<lambda>uid role s.
       if role = Some Owner then k uid s
       else (Response 403 (JError ''only the session owner can manage desk access''), s))"

definition on_db :: "(archive_db \<Rightarrow> archive_db) \<Rightarrow> 'u server \<Rightarrow> 'u server" where
  "on_db f s = s\<lparr>sv_archive := (sv_archive s)\<lparr>db := f (db (sv_archive s))\<rparr>\<rparr>"

fun account_route ::
    "auth_deps \<Rightarrow> int \<Rightarrow> string option \<Rightarrow> account_request \<Rightarrow> 'u server \<Rightarrow> body response \<times> 'u server" where
  "account_route a now header GetLists s =
     ((case bearer_user (Some a) header of
         None \<Rightarrow> Response 401 (JError ''authentication required'')
       | Some uid \<Rightarrow>
           (case list_user_sessions (au_profile a) uid (db (sv_archive s)) of
              None \<Rightarrow> internal_error
            | Some (own, shared) \<Rightarrow> Response 200 (JLists own shared))), s)"
| "account_route a now header (GetShares sid) s =
     owner_gate (Some a) header sid s (\<lambda>uid s. (Response 200 (JShares (list_shares sid (db (sv_archive s)))), s))"
| "account_route a now header (PostShare sid body) s =
     owner_gate (Some a) header sid s (\<lambda>uid s.
       case body of
         None \<Rightarrow> (Response 400 (JError ''body must be { email }''), s)
       | Some raw \<Rightarrow>
           if length raw < 3 \<or> 320 < length raw then (Response 400 (JError ''body must be { email }''), s)
           else let email = normalize_email raw
                in if \<not> is_plausible_email email then (Response 400 (JError ''not a plausible email address''), s)
                   else let (added, d) = add_share now sid email (case uid of None \<Rightarrow> [] | Some u \<Rightarrow> u) (db (sv_archive s))
                        in (if added then Response 201 (JEmail email) else Response 409 (JError ''share limit reached''),
                            on_db (\<lambda>_. d) s))"
| "account_route a now header (DeleteShare sid raw) s =
     owner_gate (Some a) header sid s (\<lambda>uid s.
       (Response 204 NoBody, on_db (remove_share sid (normalize_email raw)) s))"

subsection \<open>Who gets through\<close>

text \<open>The session a route is about, for the routes behind the desk gate.\<close>

fun gated_session :: "archive_db \<Rightarrow> session_request \<Rightarrow> string option" where
  "gated_session d (GetSession sid) = Some sid"
| "gated_session d (DeleteSessionRoute sid) = Some sid"
| "gated_session d (GetTake sid tid) = Some sid"
| "gated_session d (GetIngest sid) = Some sid"
| "gated_session d (GetFlac stid partial) = (if uuid_shape stid then stream_session_id stid d else None)"
| "gated_session d _ = None"

definition outsider :: "auth_deps \<Rightarrow> string option \<Rightarrow> string \<Rightarrow> archive_db \<Rightarrow> bool" where
  "outsider a header sid d \<longleftrightarrow>
     (case bearer_user (Some a) header of
        None \<Rightarrow> True
      | Some uid \<Rightarrow> owner_of d sid \<notin> {None, Some uid} \<and> \<not> shared_with (au_profile a) d sid uid)"

lemma desk_gate_outsider:
  assumes "outsider a header sid d"
  shows "\<exists>code err. desk_gate (Some a) header sid d = (GateFail code err, d) \<and> code \<in> {401, 403, 404, 500}"
  using assms
  by (auto simp: outsider_def desk_gate_def Let_def authorize_cases split: option.splits)

lemma server_unchanged [simp]: "s\<lparr>sv_archive := (sv_archive s)\<lparr>db := db (sv_archive s)\<rparr>\<rparr> = s"
  by simp

lemma with_gate_outsider:
  assumes "outsider a header sid (db (sv_archive s))"
  shows "\<exists>code err. with_gate (Some a) header sid s k = (Response code (JError err), s) \<and> code \<in> {401, 403, 404, 500}"
  using desk_gate_outsider [OF assms] by (auto simp: with_gate_def)

text \<open>C23. With accounts on, no desk route answers an outsider (someone without a valid token, or whose
  account neither owns the session nor shares a verified address with it): every route about an owned
  session, its takes and its streams answers with an error and leaves the server as it was, the
  deletion included; nor can such a caller list or change the session's shares.\<close>

theorem routes_refuse_outsiders:
  assumes "gated_session (db (sv_archive s)) r = Some sid" and "outsider a header sid (db (sv_archive s))"
  shows "(\<exists>code err. session_route ev (Some a) now header r s = (Response code (JError err), s)
            \<and> code \<in> {401, 403, 404, 500})
    \<and> (\<exists>code err. account_route a now header (GetShares sid) s = (Response code (JError err), s)
            \<and> code \<in> {401, 403, 404, 500})
    \<and> (\<exists>code err. account_route a now header (PostShare sid body) s = (Response code (JError err), s)
            \<and> code \<in> {401, 403, 404, 500})
    \<and> (\<exists>code err. account_route a now header (DeleteShare sid email) s = (Response code (JError err), s)
            \<and> code \<in> {401, 403, 404, 500})"
proof -
  have "\<exists>code err. session_route ev (Some a) now header r s = (Response code (JError err), s) \<and> code \<in> {401, 403, 404, 500}"
  proof (cases r)
    case (GetFlac stid partial)
    with assms(1) have sid: "(if uuid_shape stid then stream_session_id stid (db (sv_archive s)) else None) = Some sid"
      by simp
    show ?thesis
    proof (cases "bearer_user (Some a) header")
      case (Some uid)
      then show ?thesis
        using with_gate_outsider [OF assms(2)] unfolding GetFlac session_route.simps sid by simp
    qed (simp add: GetFlac)
  qed (use assms with_gate_outsider [OF assms(2)] in auto)
  moreover have "\<exists>code err. owner_gate (Some a) header sid s k = (Response code (JError err), s) \<and> code \<in> {401, 403, 404, 500}" for k
    unfolding owner_gate_def by (rule with_gate_outsider [OF assms(2)])
  ultimately show ?thesis unfolding account_route.simps by blast
qed

definition sample_uuid :: string where
  "sample_uuid = ''00000000-0000-4000-8000-000000000001''"

definition sample_deps :: auth_deps where
  "sample_deps = \<lparr>au_verify = (\<lambda>t. if t = ''tok'' then Some ''eve'' else None), au_profile = two_users\<rparr>"

definition sample_server :: "nat server" where
  "sample_server =
     \<lparr>sv_signaling = \<lparr>sg_initializing = [], sg_live = [], sg_epochs = 0, sg_limits = default_limits\<rparr>,
      sv_collab = [],
      sv_archive = empty_archive\<lparr>db := (db empty_archive)\<lparr>sessions := [(sample_uuid,
        \<lparr>se_createdAt = 1, se_lastActivityAt = 1, se_ownerUserId = Some ''ann'', se_ownerEmail = None\<rparr>)]\<rparr>\<rparr>\<rparr>"

lemma sample_outsider: "outsider sample_deps (Some ''Bearer tok'') sample_uuid (db (sv_archive sample_server))"
  by code_simp

theorem routes_refuse_outsiders_witness:
  "\<forall>ev. \<exists>code err. session_route ev (Some sample_deps) 9 (Some ''Bearer tok'') (DeleteSessionRoute sample_uuid) sample_server
     = (Response code (JError err), sample_server) \<and> code \<in> {401, 403, 404, 500}"
  using routes_refuse_outsiders [of sample_server "DeleteSessionRoute sample_uuid" sample_uuid sample_deps
      "Some ''Bearer tok''" _ 9] sample_outsider
  by simp

text \<open>Keyless, every gate passes and nothing is written by it.\<close>

lemma keyless_gates_pass:
  "desk_gate None header sid d = (GatePass None None, d)"
  "desk_hello_auth None now sid token d = (None, d)"
  "collab_upgrade_gate None now token sid d = (None, d)"
  by (simp_all add: desk_gate_def desk_hello_auth_def collab_upgrade_gate_def)

text \<open>Without accounts the shape of an id is only checked by two routes: a take, a deletion or a
  download under an id Postgres cannot read as a uuid is answered with 500, where the gates'
  comment promises a 404.\<close>

theorem malformed_ids_are_500:
  assumes "\<not> ev_castable ev x"
  shows "session_route ev None now header (GetTake sid x) s = (internal_error, s)
    \<and> session_route ev None now header (DeleteSessionRoute x) s = (internal_error, s)
    \<and> session_route ev None now header (GetFlac x partial) s = (internal_error, s)
    \<and> (fst (session_route ev None now header (GetExists x) s) = Response 200 JExists \<longleftrightarrow>
        uuid_shape x \<and> session_exists x (db (sv_archive s)))"
  using assms by (simp add: with_gate_def keyless_gates_pass)

definition sample_env :: env where
  "sample_env = \<lparr>ev_castable = uuid_shape, ev_uuidRank = (\<lambda>_. 0), ev_sha256 = (\<lambda>_. []), ev_payload = Some,
     ev_codecHeader = Some, ev_io = (\<lambda>_. True), ev_letter = hex_char, ev_encode = (\<lambda>s. s)\<rparr>"

theorem malformed_ids_are_500_witness:
  "session_route sample_env None 5 None (GetTake sample_uuid ''take-one'') sample_server = (internal_error, sample_server)"
  using malformed_ids_are_500 [of sample_env "''take-one''" 5 None sample_uuid sample_server]
  by (simp add: sample_env_def uuid_shape_def)

subsection \<open>Expiry\<close>

text \<open>
  \<open>sweepIdleSessions\<close>, cut at its awaits: the pruning of idle rooms, the idle query, and for every
  session the check with the synchronous part of \<open>closeSession\<close>, the drop of the collab room and the
  hard delete (which runs as one step). In between anything may happen to the server, another sweep
  included: \<open>Elsewhere\<close> is any other state of it and of the ingest links. A deletion that rejects ends
  the sweep. The log is history: what the server was at the idle query, at each check, and around each
  deletion.
\<close>

datatype sweep_pc =
    SweepOff
  | SweepPrune
  | SweepList
  | SweepEach "string list"
  | SweepCollab string "string list"
  | SweepErase string "string list"
  | SweepFailed

datatype 'u sweep_entry =
    Listed int "'u server"
  | Checked string "'u server" "string \<Rightarrow> string list"
  | Erased string "'u server" "'u server"
  | SweepDone

record 'u sweep_world =
  sx_server :: "'u server"
  sx_links :: "string \<Rightarrow> string list"
  sx_pc :: sweep_pc
  sx_log :: "'u sweep_entry list"

datatype 'u sweep_event =
    SweepTick
  | SweepGoesOn int "string \<Rightarrow> bool"
  | Elsewhere "'u server" "string \<Rightarrow> string list"

definition sweep_each :: "string list \<Rightarrow> 'u sweep_world \<Rightarrow> 'u sweep_world" where
  "sweep_each sids w =
     (case sids of
        [] \<Rightarrow> w\<lparr>sx_pc := SweepOff, sx_log := sx_log w @ [SweepDone]\<rparr>
      | sid # rest \<Rightarrow>
          let s = sx_server w; w = w\<lparr>sx_log := sx_log w @ [Checked sid s (sx_links w)]\<rparr>
          in if session_busy (sx_links w) sid (sv_signaling s) then w\<lparr>sx_pc := SweepEach rest\<rparr>
             else w\<lparr>sx_server := s\<lparr>sv_signaling := fst (close_session sid (sv_signaling s))\<rparr>,
                    sx_pc := SweepCollab sid rest\<rparr>)"

definition sweep_erase :: "(string \<Rightarrow> bool) \<Rightarrow> string \<Rightarrow> string list \<Rightarrow> 'u sweep_world \<Rightarrow> 'u sweep_world" where
  "sweep_erase io sid rest w =
     (let s = sx_server w; (res, arch) = delete_session io sid (sv_archive s); s' = s\<lparr>sv_archive := arch\<rparr>
      in case res of
           Inl _ \<Rightarrow> w\<lparr>sx_server := s', sx_pc := SweepFailed\<rparr>
         | Inr _ \<Rightarrow> w\<lparr>sx_server := s', sx_pc := SweepEach rest, sx_log := sx_log w @ [Erased sid s s']\<rparr>)"

definition sweep_goes_on :: "int \<Rightarrow> int \<Rightarrow> (string \<Rightarrow> bool) \<Rightarrow> 'u sweep_world \<Rightarrow> 'u sweep_world" where
  "sweep_goes_on ttlHours now io w =
     (let s = sx_server w
      in case sx_pc w of
           SweepPrune \<Rightarrow>
             w\<lparr>sx_server := s\<lparr>sv_signaling := prune_idle_rooms (sx_links w) (sv_signaling s)\<rparr>, sx_pc := SweepList\<rparr>
         | SweepList \<Rightarrow>
             w\<lparr>sx_pc := SweepEach (list_sessions_idle_since (now - ttlHours * 3600000) (sv_archive s)),
               sx_log := sx_log w @ [Listed now s]\<rparr>
         | SweepEach sids \<Rightarrow> sweep_each sids w
         | SweepCollab sid rest \<Rightarrow>
             w\<lparr>sx_server := s\<lparr>sv_collab := collab_drop_room sid (sv_collab s)\<rparr>, sx_pc := SweepErase sid rest\<rparr>
         | SweepErase sid rest \<Rightarrow> sweep_erase io sid rest w
         | _ \<Rightarrow> w)"

fun sweep_step :: "int \<Rightarrow> 'u sweep_world \<Rightarrow> 'u sweep_event \<Rightarrow> 'u sweep_world" where
  "sweep_step ttlHours w SweepTick =
     (if sx_pc w = SweepOff \<or> sx_pc w = SweepFailed then w\<lparr>sx_pc := SweepPrune, sx_log := []\<rparr> else w)"
| "sweep_step ttlHours w (SweepGoesOn now io) = sweep_goes_on ttlHours now io w"
| "sweep_step ttlHours w (Elsewhere s links) = w\<lparr>sx_server := s, sx_links := links\<rparr>"

definition sweep_start :: "'u server \<Rightarrow> (string \<Rightarrow> string list) \<Rightarrow> 'u sweep_world" where
  "sweep_start s links = \<lparr>sx_server = s, sx_links = links, sx_pc = SweepOff, sx_log = []\<rparr>"

text \<open>Uninterrupted, the last steps are \<open>destroySession\<close>.\<close>

lemma destroy_in_pieces:
  assumes "sx_pc w = SweepEach (sid # rest)" "\<not> session_busy (sx_links w) sid (sv_signaling (sx_server w))"
  shows "sx_server (run (sweep_step ttl) w [SweepGoesOn t1 io, SweepGoesOn t2 io, SweepGoesOn t3 io])
    = fst (snd (destroy_session io sid (sx_server w)))"
  using assms by (simp add: sweep_goes_on_def sweep_each_def sweep_erase_def destroy_session_def Let_def split_beta
      split: sum.split)

text \<open>What the sweep is meant to spare and to expire, said without its own predicates: a session somebody
  uses (a connected peer, a running take, a recorder's ingest link, or a room still loading), and one
  whose row shows activity at or after the cutoff.\<close>

definition in_use :: "(string \<Rightarrow> string list) \<Rightarrow> string \<Rightarrow> signaling_srv \<Rightarrow> bool" where
  "in_use links sid s \<longleftrightarrow>
     (case jm_get (sg_live s) sid of
        Some room \<Rightarrow> rm_peers room \<noteq> [] \<or> rm_activeTake room \<noteq> None \<or> links sid \<noteq> []
      | None \<Rightarrow> sid \<in> set (sg_initializing s))"

definition long_idle :: "int \<Rightarrow> int \<Rightarrow> string \<Rightarrow> 'u server \<Rightarrow> bool" where
  "long_idle ttlHours now sid s \<longleftrightarrow>
     list_ex (\<lambda>(k, r). k = sid \<and> now - se_lastActivityAt r > ttlHours * 60 * 60 * 1000) (sessions (db (sv_archive s)))"

definition listed_idle :: "int \<Rightarrow> string \<Rightarrow> 'u sweep_entry list \<Rightarrow> bool" where
  "listed_idle ttl sid L \<longleftrightarrow> (\<exists>now s. Listed now s \<in> set L \<and> long_idle ttl now sid s)"

definition found_unused :: "string \<Rightarrow> 'u sweep_entry list \<Rightarrow> bool" where
  "found_unused sid L \<longleftrightarrow> (\<exists>s links. Checked sid s links \<in> set L \<and> \<not> in_use links sid (sv_signaling s))"

definition settled :: "string \<Rightarrow> 'u sweep_entry list \<Rightarrow> bool" where
  "settled sid L \<longleftrightarrow> (\<exists>s links. Checked sid s links \<in> set L
     \<and> (in_use links sid (sv_signaling s) \<or> (\<exists>before after. Erased sid before after \<in> set L)))"

lemma busy_in_use: "session_busy links sid s \<longleftrightarrow> in_use links sid s"
  by (auto simp: session_busy_def in_use_def split: option.splits)

lemma idle_listed:
  "sid \<in> set (list_sessions_idle_since (now - ttl * 3600000) (sv_archive s)) \<longleftrightarrow> long_idle ttl now sid s"
proof -
  have "r < now - ttl * 3600000 \<longleftrightarrow> now - r > ttl * 60 * 60 * 1000" for r by linarith
  then show ?thesis
    by (force simp: list_sessions_idle_since_def long_idle_def list_ex_iff)
qed

lemma log_mono:
  "listed_idle ttl sid L \<Longrightarrow> listed_idle ttl sid (L @ M)"
  "found_unused sid L \<Longrightarrow> found_unused sid (L @ M)"
  "settled sid L \<Longrightarrow> settled sid (L @ M)"
  by (auto simp: listed_idle_def found_unused_def settled_def)

fun to_check :: "sweep_pc \<Rightarrow> string list" where
  "to_check (SweepEach sids) = sids"
| "to_check (SweepCollab sid rest) = rest"
| "to_check (SweepErase sid rest) = rest"
| "to_check _ = []"

fun being_erased :: "sweep_pc \<Rightarrow> string set" where
  "being_erased (SweepCollab sid rest) = {sid}"
| "being_erased (SweepErase sid rest) = {sid}"
| "being_erased _ = {}"

definition erased_well :: "int \<Rightarrow> 'u sweep_entry list \<Rightarrow> bool" where
  "erased_well ttl L \<longleftrightarrow> (\<forall>sid before after. Erased sid before after \<in> set L \<longrightarrow>
     listed_idle ttl sid L \<and> found_unused sid L
   \<and> (rows_inv (db (sv_archive before)) \<longrightarrow> session_erased sid (db (sv_archive before)) (db (sv_archive after))))"

definition sweep_ok :: "int \<Rightarrow> sweep_pc \<Rightarrow> 'u sweep_entry list \<Rightarrow> bool" where
  "sweep_ok ttl pc L \<longleftrightarrow>
     erased_well ttl L
   \<and> (\<forall>sid \<in> set (to_check pc). listed_idle ttl sid L)
   \<and> (\<forall>sid \<in> being_erased pc. listed_idle ttl sid L \<and> found_unused sid L)
   \<and> (pc \<noteq> SweepFailed \<longrightarrow>
        (\<forall>sid. listed_idle ttl sid L \<longrightarrow> sid \<in> set (to_check pc) \<or> sid \<in> being_erased pc \<or> settled sid L))
   \<and> (pc = SweepPrune \<or> pc = SweepList \<longrightarrow> L = [])
   \<and> (SweepDone \<in> set L \<longrightarrow> pc = SweepOff)"

definition sweep_inv :: "int \<Rightarrow> 'u sweep_world \<Rightarrow> bool" where
  "sweep_inv ttl w \<longleftrightarrow> sweep_ok ttl (sx_pc w) (sx_log w)"

lemma erased_well_snoc:
  "erased_well ttl L \<Longrightarrow> (\<And>sid before after. x = Erased sid before after \<Longrightarrow> listed_idle ttl sid L \<and> found_unused sid L
     \<and> (rows_inv (db (sv_archive before)) \<longrightarrow> session_erased sid (db (sv_archive before)) (db (sv_archive after))))
   \<Longrightarrow> erased_well ttl (L @ [x])"
  unfolding erased_well_def using log_mono by (metis Un_iff empty_iff empty_set insert_iff list.simps(15) set_append)

lemma sweep_inv_each:
  assumes "sweep_inv ttl w" "sx_pc w = SweepEach sids"
  shows "sweep_inv ttl (sweep_each sids w)"
proof (cases sids)
  case Nil
  have "erased_well ttl (sx_log w @ [SweepDone])"
    by (rule erased_well_snoc) (use assms in \<open>simp_all add: sweep_inv_def sweep_ok_def\<close>)
  moreover have "listed_idle ttl sid (sx_log w @ [SweepDone]) \<Longrightarrow> settled sid (sx_log w @ [SweepDone])" for sid
    using assms Nil log_mono(3) [of sid "sx_log w"] by (auto simp: sweep_inv_def sweep_ok_def listed_idle_def)
  ultimately show ?thesis by (simp add: Nil sweep_each_def sweep_inv_def sweep_ok_def)
next
  case (Cons sid rest)
  let ?x = "Checked sid (sx_server w) (sx_links w)"
  have L: "listed_idle ttl k (sx_log w @ [?x]) \<longleftrightarrow> listed_idle ttl k (sx_log w)" for k
    by (auto simp: listed_idle_def)
  have well: "erased_well ttl (sx_log w @ [?x])"
    by (rule erased_well_snoc) (use assms in \<open>simp_all add: sweep_inv_def sweep_ok_def\<close>)
  have unused: "found_unused sid (sx_log w @ [?x])" if "\<not> in_use (sx_links w) sid (sv_signaling (sx_server w))"
    using that by (auto simp: found_unused_def)
  have used: "settled sid (sx_log w @ [?x])" if "in_use (sx_links w) sid (sv_signaling (sx_server w))"
    using that by (auto simp: settled_def)
  have idle: "\<forall>k \<in> set sids. listed_idle ttl k (sx_log w)" and no: "SweepDone \<notin> set (sx_log w)"
    and all: "\<And>k. listed_idle ttl k (sx_log w) \<Longrightarrow> k \<in> set sids \<or> settled k (sx_log w)"
    using assms by (auto simp: sweep_inv_def sweep_ok_def)
  have all': "k = sid \<or> k \<in> set rest \<or> settled k (sx_log w @ [?x])" if "listed_idle ttl k (sx_log w)" for k
    using all [OF that] Cons log_mono(3) by auto
  show ?thesis
    using well unused used idle no all' unfolding sweep_inv_def sweep_ok_def
    by (auto simp: Cons sweep_each_def Let_def busy_in_use L)
qed

lemma sweep_inv_erase:
  assumes "sweep_inv ttl w" "sx_pc w = SweepErase sid rest"
  shows "sweep_inv ttl (sweep_erase io sid rest w)"
proof (cases rule: delete_session_cases [of io sid "sv_archive (sx_server w)"])
  case (aborted e)
  then show ?thesis
    using assms by (auto simp: sweep_erase_def sweep_inv_def sweep_ok_def Let_def split_beta)
next
  case (deleted bs)
  let ?s = "sx_server w"
  let ?s' = "?s\<lparr>sv_archive := (sv_archive ?s)\<lparr>db := delete_session_rows sid (db (sv_archive ?s)), blobs := bs\<rparr>\<rparr>"
  let ?x = "Erased sid ?s ?s'"
  have j: "listed_idle ttl sid (sx_log w)" "found_unused sid (sx_log w)"
    using assms by (auto simp: sweep_inv_def sweep_ok_def)
  have well: "erased_well ttl (sx_log w @ [?x])"
    by (rule erased_well_snoc) (use assms j session_erased_delete in \<open>auto simp: sweep_inv_def sweep_ok_def\<close>)
  have L: "listed_idle ttl k (sx_log w @ [?x]) \<longleftrightarrow> listed_idle ttl k (sx_log w)" for k
    by (auto simp: listed_idle_def)
  have sid: "settled sid (sx_log w @ [?x])"
    using j(2) by (auto simp: settled_def found_unused_def)
  have all: "k \<in> set rest \<or> settled k (sx_log w @ [?x])" if "listed_idle ttl k (sx_log w)" for k
    using assms that sid log_mono(3) [of k "sx_log w" "[?x]"] by (auto simp: sweep_inv_def sweep_ok_def)
  show ?thesis
    using assms well all unfolding sweep_inv_def sweep_ok_def
    by (simp add: sweep_erase_def Let_def deleted L)
qed

lemma sweep_inv_empty:
  "sx_log w = [] \<Longrightarrow> to_check (sx_pc w) = [] \<Longrightarrow> being_erased (sx_pc w) = {} \<Longrightarrow> sweep_inv ttl w"
  by (simp add: sweep_inv_def sweep_ok_def erased_well_def listed_idle_def)

lemma sweep_ok_collab: "sweep_ok ttl (SweepCollab sid rest) L \<Longrightarrow> sweep_ok ttl (SweepErase sid rest) L"
  unfolding sweep_ok_def to_check.simps being_erased.simps by blast

lemma sweep_inv_step: "sweep_inv ttl w \<Longrightarrow> sweep_inv ttl (sweep_step ttl w e)"
proof (cases e)
  case SweepTick
  show "sweep_inv ttl w \<Longrightarrow> ?thesis"
  proof (cases "sx_pc w = SweepOff \<or> sx_pc w = SweepFailed")
    case True
    then show ?thesis by (intro sweep_inv_empty) (simp_all add: SweepTick)
  next
    case False
    then show "sweep_inv ttl w \<Longrightarrow> ?thesis" by (simp only: SweepTick sweep_step.simps if_False)
  qed
next
  case (SweepGoesOn now io)
  show "sweep_inv ttl w \<Longrightarrow> ?thesis"
  proof (cases "sx_pc w")
    case SweepPrune
    then show "sweep_inv ttl w \<Longrightarrow> ?thesis"
      by (intro sweep_inv_empty) (simp_all add: SweepGoesOn sweep_goes_on_def Let_def, simp add: sweep_inv_def sweep_ok_def)
  next
    case SweepList
    then show "sweep_inv ttl w \<Longrightarrow> ?thesis"
      by (auto simp: SweepGoesOn sweep_goes_on_def Let_def sweep_inv_def sweep_ok_def erased_well_def listed_idle_def idle_listed)
  next
    case (SweepEach sids)
    then show "sweep_inv ttl w \<Longrightarrow> ?thesis"
      using sweep_inv_each by (simp add: SweepGoesOn sweep_goes_on_def)
  next
    case (SweepErase sid rest)
    then show "sweep_inv ttl w \<Longrightarrow> ?thesis"
      using sweep_inv_erase by (simp add: SweepGoesOn sweep_goes_on_def)
  next
    case (SweepCollab sid rest)
    then show "sweep_inv ttl w \<Longrightarrow> ?thesis"
      by (simp add: SweepGoesOn sweep_goes_on_def Let_def sweep_inv_def sweep_ok_collab)
  qed (simp_all add: SweepGoesOn sweep_goes_on_def Let_def)
next
  case (Elsewhere s links)
  then show "sweep_inv ttl w \<Longrightarrow> ?thesis" by (simp add: sweep_inv_def)
qed

interpretation sweep: invariant_machine "sweep_step ttl" "sweep_inv ttl" for ttl
  by unfold_locales (rule sweep_inv_step)

text \<open>Whatever a step of the sweep does to the rows is the deletion it logs.\<close>

lemma sweep_touches_rows:
  assumes "db (sv_archive (sx_server (sweep_goes_on ttl now io w))) \<noteq> db (sv_archive (sx_server w))"
  shows "\<exists>sid. Erased sid (sx_server w) (sx_server (sweep_goes_on ttl now io w))
    \<in> set (sx_log (sweep_goes_on ttl now io w))"
proof (cases "sx_pc w")
  case (SweepErase sid rest)
  show ?thesis
  proof (cases rule: delete_session_cases [of io sid "sv_archive (sx_server w)"])
    case (aborted e)
    with assms SweepErase show ?thesis by (simp add: sweep_goes_on_def sweep_erase_def Let_def split_beta)
  next
    case (deleted bs)
    with SweepErase show ?thesis by (auto simp: sweep_goes_on_def sweep_erase_def Let_def)
  qed
next
  case (SweepEach sids)
  with assms show ?thesis
    by (cases sids) (simp_all add: sweep_goes_on_def sweep_each_def Let_def split: if_splits)
qed (use assms in \<open>simp_all add: sweep_goes_on_def Let_def\<close>)

text \<open>C28. The expiry sweep, whatever the server does at each of its awaits. A step of it changes rows only by a
  deletion it logs; and for every deletion the session's row was, at the idle query, last active more
  than the time to live ago, and at its check nobody used it: no connected peer, no active take, no
  ingest link, no room still loading. A deletion takes all rows of that session and no other (from a
  database that keeps its invariant). When a sweep ends without an error, every session that was idle
  at the query has been found in use at its check or deleted.\<close>

theorem sweep_expires_idle_only:
  fixes evs :: "'u sweep_event list" and ttl :: int and s :: "'u server" and links :: "string \<Rightarrow> string list"
  defines "w \<equiv> run (sweep_step ttl) (sweep_start s links) evs"
  shows "(\<forall>now io. db (sv_archive (sx_server (sweep_step ttl w (SweepGoesOn now io)))) \<noteq> db (sv_archive (sx_server w))
        \<longrightarrow> (\<exists>sid. Erased sid (sx_server w) (sx_server (sweep_step ttl w (SweepGoesOn now io)))
               \<in> set (sx_log (sweep_step ttl w (SweepGoesOn now io)))))
    \<and> (\<forall>sid before after. Erased sid before after \<in> set (sx_log w) \<longrightarrow>
        (\<exists>now at_query. Listed now at_query \<in> set (sx_log w) \<and> long_idle ttl now sid at_query)
      \<and> (\<exists>at_check ls. Checked sid at_check ls \<in> set (sx_log w) \<and> \<not> in_use ls sid (sv_signaling at_check))
      \<and> (rows_inv (db (sv_archive before)) \<longrightarrow>
           session_erased sid (db (sv_archive before)) (db (sv_archive after))))
    \<and> (SweepDone \<in> set (sx_log w) \<longrightarrow>
        (\<forall>sid now at_query. Listed now at_query \<in> set (sx_log w) \<and> long_idle ttl now sid at_query \<longrightarrow>
           (\<exists>at_check ls. Checked sid at_check ls \<in> set (sx_log w)
              \<and> (in_use ls sid (sv_signaling at_check) \<or> (\<exists>before after. Erased sid before after \<in> set (sx_log w))))))"
proof -
  have inv: "sweep_inv ttl w"
    unfolding w_def by (rule sweep.run_inv) (rule sweep_inv_empty; simp add: sweep_start_def)
  have "settled sid (sx_log w)" if "SweepDone \<in> set (sx_log w)" "listed_idle ttl sid (sx_log w)" for sid
    using inv that by (auto simp: sweep_inv_def sweep_ok_def)
  with inv sweep_touches_rows [of ttl _ _ w] show ?thesis
    unfolding sweep_inv_def sweep_ok_def erased_well_def settled_def listed_idle_def found_unused_def sweep_step.simps by blast
qed

definition sample_sweep :: "nat sweep_event list" where
  "sample_sweep = SweepTick # replicate 6 (SweepGoesOn 7200000 (\<lambda>_. True))"

theorem sweep_expires_idle_only_witness:
  "\<exists>before after. Erased sample_uuid before after
       \<in> set (sx_log (run (sweep_step 1) (sweep_start sample_server (\<lambda>_. [])) sample_sweep))
     \<and> (rows_inv (db (sv_archive before)) \<longrightarrow> session_erased sample_uuid (db (sv_archive before)) (db (sv_archive after)))"
proof -
  let ?w = "run (sweep_step 1) (sweep_start sample_server (\<lambda>_. [])) sample_sweep"
  have "list_ex (\<lambda>x. case x of Erased sid b a \<Rightarrow> sid = sample_uuid | _ \<Rightarrow> False) (sx_log ?w)" by code_simp
  then obtain x where x: "x \<in> set (sx_log ?w)" "case x of Erased sid b a \<Rightarrow> sid = sample_uuid | _ \<Rightarrow> False"
    unfolding list_ex_iff by blast
  from x(2) obtain before after where "x = Erased sample_uuid before after" by (cases x) simp_all
  with x(1) have "Erased sample_uuid before after \<in> set (sx_log ?w)" by simp
  then show ?thesis
    using sweep_expires_idle_only [where s = sample_server and links = "\<lambda>_. []" and evs = sample_sweep and ttl = 1]
    by blast
qed

text \<open>The check and the deletion are awaits apart, so a desk that opens the session in between loses
  it: its room is live, with the desk in it, and its rows are deleted.\<close>

lemma sweep_races_with_hello:
  assumes "sx_pc w = SweepErase sid rest"
    and "delete_session io sid (sv_archive s) = (Inr (), arch)"
    and "jm_get (sg_live (sv_signaling s)) sid = Some room" "rm_peers room \<noteq> []"
  shows "let w' = run (sweep_step ttl) w [Elsewhere s links, SweepGoesOn now io]
     in in_use (sx_links w') sid (sv_signaling (sx_server w'))
      \<and> \<not> jm_has (sessions (db (sv_archive (sx_server w')))) sid"
proof (cases rule: delete_session_cases [of io sid "sv_archive s"])
  case (deleted bs)
  have "sessions (delete_session_rows sid d) = delete_where (\<lambda>k _. k = sid) (sessions d)" for d
    by (simp add: delete_session_rows_def Let_def delete_stream_rows_def)
  moreover have "jm_get (delete_where (\<lambda>k _. k = sid) m) sid = None" for m :: "(string, session_row) jsmap"
    by (simp add: jm_get_delete_key)
  moreover have "arch = (sv_archive s)\<lparr>db := delete_session_rows sid (db (sv_archive s)), blobs := bs\<rparr>"
    using deleted assms(2) by simp
  ultimately show ?thesis
    using assms by (simp add: sweep_goes_on_def sweep_erase_def Let_def in_use_def)
qed (use assms in simp)

text \<open>A deletion that fails ends the sweep before the sessions after it are looked at.\<close>

lemma sweep_stops_at_failure:
  assumes "sx_pc w = SweepErase sid rest" and "delete_session io sid (sv_archive (sx_server w)) = (Inl e, arch)"
  shows "sx_pc (sweep_step ttl w (SweepGoesOn now io)) = SweepFailed"
    and "sx_log (sweep_step ttl w (SweepGoesOn now io)) = sx_log w"
  using assms by (simp_all add: sweep_goes_on_def sweep_erase_def Let_def)

end
