(* ===== verification/Timeline_Math.thy ===== *)
theory Timeline_Math
  imports Prelude
begin

text \<open>
  \<open>apps/web/src/routes/desk/timeline-math.ts\<close>: the room timeline shared by live playback and the
  offline render. Seconds and samples are reals (JavaScript's doubles without their rounding);
  \<open>Math.min()\<close> of nothing is \<open>None\<close>.
\<close>

definition js_round :: "real \<Rightarrow> real" where
  "js_round x = real_of_int \<lfloor>x + 1 / 2\<rfloor>"

fun min_of :: "real list \<Rightarrow> real option" where
  "min_of [] = None"
| "min_of (x # xs) = (case min_of xs of None \<Rightarrow> Some x | Some m \<Rightarrow> Some (min x m))"

subsection \<open>Whole streams\<close>

record track_timing =
  tt_headSec :: real
  tt_ratio :: real
  tt_clipDelaySec :: real
  tt_bufferDurationSec :: real

record source_plan =
  sp_whenSec :: real
  sp_offsetSec :: real

definition plan_source :: "track_timing \<Rightarrow> real \<Rightarrow> source_plan option" where
  "plan_source t fromSec =
     (let rel = fromSec - tt_clipDelaySec t
      in if rel \<ge> 0
         then let offsetSec = tt_headSec t + rel * tt_ratio t
              in if offsetSec \<ge> tt_bufferDurationSec t then None
                 else Some \<lparr>sp_whenSec = 0, sp_offsetSec = offsetSec\<rparr>
         else Some \<lparr>sp_whenSec = - rel, sp_offsetSec = tt_headSec t\<rparr>)"

definition track_end_sec :: "track_timing \<Rightarrow> real" where
  "track_end_sec t = tt_clipDelaySec t + (tt_bufferDurationSec t - tt_headSec t) / tt_ratio t"

subsection \<open>Clip regions\<close>

record region_span =
  rg_startSec :: real
  rg_sourceOffsetSec :: real
  rg_durationSec :: real

record region_timing =
  rt_headSec :: real
  rt_ratio :: real
  rt_bufferDurationSec :: real

record region_plan =
  rp_whenSec :: real
  rp_offsetSec :: real
  rp_playSec :: real

definition region_window :: "region_timing \<Rightarrow> 'a region_span_scheme \<Rightarrow> real \<times> real" where
  "region_window t r =
     (max (rg_sourceOffsetSec r) (rt_headSec t),
      min (rg_sourceOffsetSec r + rg_durationSec r) (rt_bufferDurationSec t))"

definition region_span_sec :: "region_timing \<Rightarrow> 'a region_span_scheme \<Rightarrow> real \<times> real" where
  "region_span_sec t r =
     (let (lo, hi) = region_window t r;
          delay = rg_startSec r - rg_sourceOffsetSec r;
          startSec = delay + (lo - rt_headSec t) / rt_ratio t
      in (startSec, max startSec (delay + (hi - rt_headSec t) / rt_ratio t)))"

definition plan_region_source :: "region_timing \<Rightarrow> 'a region_span_scheme \<Rightarrow> real \<Rightarrow> region_plan option" where
  "plan_region_source t r fromSec =
     (let (lo, hi) = region_window t r
      in if hi \<le> lo then None
         else let delay = rg_startSec r - rg_sourceOffsetSec r;
                  startSec = delay + (lo - rt_headSec t) / rt_ratio t;
                  endSec = delay + (hi - rt_headSec t) / rt_ratio t
              in if fromSec \<ge> endSec then None
                 else if fromSec \<ge> startSec
                 then let offsetSec = rt_headSec t + (fromSec - delay) * rt_ratio t
                      in Some \<lparr>rp_whenSec = 0, rp_offsetSec = offsetSec, rp_playSec = hi - offsetSec\<rparr>
                 else Some \<lparr>rp_whenSec = startSec - fromSec, rp_offsetSec = lo, rp_playSec = hi - lo\<rparr>)"

definition regions_end_sec :: "region_timing \<Rightarrow> 'a region_span_scheme list \<Rightarrow> real" where
  "regions_end_sec t regions = foldl (\<lambda>acc r. max acc (snd (region_span_sec t r))) 0 regions"

subsection \<open>Alignment\<close>

datatype align_method = Chirp | Content

record align_lag =
  al_streamId :: string
  al_lagSamples :: real
  al_sampleRate :: real
  al_method :: "align_method option"

definition method_of :: "align_lag \<Rightarrow> align_method" where
  "method_of l = (case al_method l of None \<Rightarrow> Chirp | Some m \<Rightarrow> m)"

definition wrap_lag :: "real \<Rightarrow> real \<Rightarrow> real" where
  "wrap_lag raw intervalSamples = raw - js_round (raw / intervalSamples) * intervalSamples"

definition normalized_lag :: "real \<Rightarrow> real \<Rightarrow> align_lag \<Rightarrow> real" where
  "normalized_lag repeatIntervalSec base l =
     (let raw = al_lagSamples l - base
      in if method_of l = Content then raw
         else wrap_lag raw (js_round (repeatIntervalSec * al_sampleRate l)))"

definition normalize_align_deltas :: "align_lag list \<Rightarrow> real \<Rightarrow> (string, real) jsmap" where
  "normalize_align_deltas lags repeatIntervalSec =
     (if length lags < 2 then []
      else let chirp = filter (\<lambda>l. method_of l = Chirp) lags;
               anchored = (if chirp \<noteq> [] then chirp else lags);
               base = the (min_of (map al_lagSamples anchored));
               normalized = map (\<lambda>l. (al_streamId l, normalized_lag repeatIntervalSec base l)) lags;
               m = the (min_of (map snd normalized))
           in foldl (\<lambda>out (streamId, d). jm_set streamId (d - m) out) [] normalized)"

record align_shifts_rec =
  as_shiftSec :: "(string, real) jsmap"
  as_anchorSec :: real

definition align_shifts :: "align_lag list \<Rightarrow> real \<Rightarrow> align_shifts_rec" where
  "align_shifts lags repeatIntervalSec =
     (let deltas = normalize_align_deltas lags repeatIntervalSec;
          rateOf = foldl (\<lambda>m l. jm_set (al_streamId l) (al_sampleRate l) m) [] lags;
          deltaSec = map (\<lambda>(sid, d). (sid, d / the (jm_get rateOf sid))) deltas;
          anchorSec = foldl (\<lambda>a (_, sec). max a sec) 0 deltaSec
      in \<lparr>as_shiftSec = map (\<lambda>(sid, sec). (sid, anchorSec - sec)) deltaSec, as_anchorSec = anchorSec\<rparr>)"

record persisted_lag =
  pl_lagSamples :: real
  pl_applied :: bool
  pl_method :: "align_method option"

definition persisted_align_shifts :: "(string, persisted_lag) jsmap \<Rightarrow> real \<Rightarrow> real \<Rightarrow> align_shifts_rec" where
  "persisted_align_shifts entries sampleRate repeatIntervalSec =
     align_shifts
       (map (\<lambda>(sid, e). \<lparr>al_streamId = sid, al_lagSamples = pl_lagSamples e, al_sampleRate = sampleRate,
                al_method = Some (case pl_method e of None \<Rightarrow> Chirp | Some mt \<Rightarrow> mt)\<rparr>)
         (filter (\<lambda>(_, e). pl_applied e) entries)) repeatIntervalSec"

record take_anchor_span =
  ta_startSec :: real
  ta_endSec :: real
  ta_anchorSec :: real

fun anchor_at_sec :: "take_anchor_span list \<Rightarrow> real \<Rightarrow> real" where
  "anchor_at_sec [] posSec = 0"
| "anchor_at_sec (sp # spans) posSec =
     (if posSec \<ge> ta_startSec sp \<and> posSec \<le> ta_endSec sp then ta_anchorSec sp
      else anchor_at_sec spans posSec)"

subsection \<open>The look-ahead scheduler\<close>

record session_take_span =
  ss_takeId :: string
  ss_startSec :: real
  ss_endSec :: real

definition session_end_sec :: "session_take_span list \<Rightarrow> real" where
  "session_end_sec spans = foldl (\<lambda>e sp. max e (ss_endSec sp)) 0 spans"

definition session_start_sec :: "session_take_span list \<Rightarrow> real" where
  "session_start_sec spans = (case min_of (map ss_startSec spans) of None \<Rightarrow> 0 | Some s \<Rightarrow> s)"

definition takes_to_mount :: "session_take_span list \<Rightarrow> (string \<Rightarrow> bool) \<Rightarrow> real \<Rightarrow> real \<Rightarrow> string list" where
  "takes_to_mount spans isMounted posSec aheadSec =
     map ss_takeId (js_sort (by_key ss_startSec)
       (filter (\<lambda>sp. \<not> isMounted (ss_takeId sp) \<and> ss_endSec sp > posSec
                     \<and> ss_startSec sp < posSec + aheadSec) spans))"

definition takes_to_release ::
    "session_take_span list \<Rightarrow> string list \<Rightarrow> real \<Rightarrow> string option \<Rightarrow> real \<Rightarrow> string list" where
  "takes_to_release spans mountedTakeIds posSec keepTakeId marginSec =
     (let endOf = foldl (\<lambda>m sp. jm_set (ss_takeId sp) (ss_endSec sp) m) [] spans
      in filter (\<lambda>takeId.
           if Some takeId = keepTakeId then False
           else case jm_get endOf takeId of None \<Rightarrow> True | Some e \<Rightarrow> e < posSec - marginSec) mountedTakeIds)"

text \<open>A range that resolves to nothing throws: \<open>None\<close>.\<close>

definition resolve_range :: "real \<Rightarrow> real option \<Rightarrow> real option \<Rightarrow> (real \<times> real) option" where
  "resolve_range durationSec startB endB =
     (let startSec = min (max (case startB of None \<Rightarrow> 0 | Some s \<Rightarrow> s) 0) durationSec;
          endSec = min (max (case endB of None \<Rightarrow> durationSec | Some e \<Rightarrow> e) 0) durationSec
      in if endSec - startSec \<le> 0 then None else Some (startSec, endSec))"

subsection \<open>What is heard\<close>

text \<open>
  A source started with delay \<open>when\<close> from offset \<open>offset\<close> for \<open>play\<close> source seconds at rate \<open>ratio\<close> is,
  \<open>e\<close> context seconds after the plan was made, at this buffer position (Web Audio's contract of
  \<open>start(when, offset, duration)\<close>).
\<close>

definition heard :: "real \<Rightarrow> real \<Rightarrow> real \<Rightarrow> real \<Rightarrow> real \<Rightarrow> real option" where
  "heard ratio whenSec offsetSec playSec e =
     (if whenSec \<le> e \<and> (e - whenSec) * ratio < playSec then Some (offsetSec + (e - whenSec) * ratio) else None)"

definition region_sound :: "region_timing \<Rightarrow> 'a region_span_scheme \<Rightarrow> real \<Rightarrow> real \<Rightarrow> real option" where
  "region_sound t r fromSec nowSec =
     (case plan_region_source t r fromSec of None \<Rightarrow> None
      | Some p \<Rightarrow> heard (rt_ratio t) (rp_whenSec p) (rp_offsetSec p) (rp_playSec p) (nowSec - fromSec))"

definition track_sound :: "track_timing \<Rightarrow> real \<Rightarrow> real \<Rightarrow> real option" where
  "track_sound t fromSec nowSec =
     (case plan_source t fromSec of None \<Rightarrow> None
      | Some p \<Rightarrow> heard (tt_ratio t) (sp_whenSec p) (sp_offsetSec p)
                   (tt_bufferDurationSec t - sp_offsetSec p) (nowSec - fromSec))"

text \<open>The buffer position a room time maps to, and the window rule both plans implement.\<close>

definition buffer_pos :: "real \<Rightarrow> real \<Rightarrow> real \<Rightarrow> real \<Rightarrow> real" where
  "buffer_pos headSec ratio delay nowSec = headSec + (nowSec - delay) * ratio"

lemma region_sound_window:
  assumes "0 < rt_ratio t" and "fromSec \<le> nowSec"
  shows "region_sound t r fromSec nowSec =
    (let b = buffer_pos (rt_headSec t) (rt_ratio t) (rg_startSec r - rg_sourceOffsetSec r) nowSec
     in if fst (region_window t r) \<le> b \<and> b < snd (region_window t r) then Some b else None)"
proof -
  obtain lo hi where w: "region_window t r = (lo, hi)" by fastforce
  let ?d = "rg_startSec r - rg_sourceOffsetSec r" and ?k = "rt_ratio t" and ?h = "rt_headSec t"
  let ?b = "\<lambda>x. ?h + (x - ?d) * ?k"
  have cross: "x \<ge> ?d + (y - ?h) / ?k \<longleftrightarrow> y \<le> ?b x" for x y
    using assms(1) by (simp add: field_simps)
  have mono: "?b fromSec \<le> ?b nowSec" using assms by simp
  consider "hi \<le> lo" | "lo < hi" "hi \<le> ?b fromSec" | "lo < hi" "?b fromSec < hi" "lo \<le> ?b fromSec"
    | "lo < hi" "?b fromSec < hi" "?b fromSec < lo" by linarith
  then show ?thesis
  proof cases
    case 4
    have start: "(nowSec - (?d + (lo - ?h) / ?k)) * ?k = ?b nowSec - lo"
      using assms(1) by (simp add: field_simps)
    have e: "nowSec - fromSec - (?d + (lo - ?h) / ?k - fromSec) = nowSec - (?d + (lo - ?h) / ?k)" by simp
    have late: "\<not> fromSec \<ge> ?d + (hi - ?h) / ?k" "\<not> fromSec \<ge> ?d + (lo - ?h) / ?k"
      using 4 by (simp_all only: cross not_le)
    have "?d + (lo - ?h) / ?k - fromSec \<le> nowSec - fromSec \<longleftrightarrow> lo \<le> ?b nowSec"
      using cross [of lo nowSec] by linarith
    then show ?thesis
      using 4 late unfolding region_sound_def plan_region_source_def w Let_def heard_def buffer_pos_def
      by (simp add: e start)
  next
    case 3
    then have "\<not> fromSec \<ge> ?d + (hi - ?h) / ?k" "fromSec \<ge> ?d + (lo - ?h) / ?k"
      by (simp_all only: cross not_le)
    moreover have "?b fromSec + (nowSec - fromSec) * ?k = ?b nowSec" by (simp add: algebra_simps)
    ultimately show ?thesis
      using 3 mono assms(2) unfolding region_sound_def plan_region_source_def w Let_def heard_def buffer_pos_def
      by (auto simp: algebra_simps)
  next
    case 2
    then have "fromSec \<ge> ?d + (hi - ?h) / ?k" by (simp only: cross)
    then show ?thesis
      using 2 mono unfolding region_sound_def plan_region_source_def w Let_def buffer_pos_def by simp
  next
    case 1
    then show ?thesis
      unfolding region_sound_def plan_region_source_def w Let_def buffer_pos_def by simp
  qed
qed

lemma track_sound_window:
  assumes "0 < tt_ratio t" and "fromSec \<le> nowSec"
  shows "track_sound t fromSec nowSec =
    (let b = buffer_pos (tt_headSec t) (tt_ratio t) (tt_clipDelaySec t) nowSec
     in if tt_headSec t \<le> b \<and> b < tt_bufferDurationSec t then Some b else None)"
proof (cases "fromSec \<ge> tt_clipDelaySec t")
  case True
  let ?b = "\<lambda>x. tt_headSec t + (x - tt_clipDelaySec t) * tt_ratio t"
  have mono: "?b fromSec \<le> ?b nowSec" using assms by simp
  have later: "(nowSec - fromSec) * tt_ratio t = ?b nowSec - ?b fromSec" by (simp add: algebra_simps)
  have head: "tt_headSec t \<le> ?b nowSec" using assms True by simp
  show ?thesis
  proof (cases "tt_bufferDurationSec t \<le> ?b fromSec")
    case over: True
    then have "\<not> ?b nowSec < tt_bufferDurationSec t" using mono by linarith
    with True over show ?thesis
      unfolding track_sound_def plan_source_def Let_def buffer_pos_def by simp
  next
    case False
    have "?b fromSec + (nowSec - fromSec) * tt_ratio t = ?b nowSec" unfolding later by simp
    moreover have "(nowSec - fromSec) * tt_ratio t < tt_bufferDurationSec t - ?b fromSec
        \<longleftrightarrow> ?b nowSec < tt_bufferDurationSec t" unfolding later by linarith
    ultimately show ?thesis
      using True False head assms(2) unfolding track_sound_def plan_source_def Let_def heard_def buffer_pos_def
      by simp
  qed
next
  case False
  have "0 \<le> (nowSec - tt_clipDelaySec t) * tt_ratio t \<longleftrightarrow> tt_clipDelaySec t \<le> nowSec"
    using assms(1) by (simp add: zero_le_mult_iff)
  then show ?thesis
    using False assms unfolding track_sound_def plan_source_def Let_def heard_def buffer_pos_def
    by (auto simp: algebra_simps)
qed

subsection \<open>Alignment deltas\<close>

lemma min_of_None: "min_of xs = None \<longleftrightarrow> xs = []"
  by (cases xs) (simp_all split: option.split)

lemma min_of_Some: "min_of xs = Some m \<Longrightarrow> m \<in> set xs \<and> (\<forall>x \<in> set xs. m \<le> x)"
proof (induction xs arbitrary: m)
  case (Cons x xs)
  show ?case
  proof (cases "min_of xs")
    case None
    with Cons.prems show ?thesis by (simp add: min_of_None)
  next
    case (Some m')
    with Cons show ?thesis by (fastforce simp: min_def split: if_splits)
  qed
qed simp

lemma min_of_the: "xs \<noteq> [] \<Longrightarrow> the (min_of xs) \<in> set xs \<and> (\<forall>x \<in> set xs. the (min_of xs) \<le> x)"
  using min_of_Some [of xs] min_of_None [of xs] by (cases "min_of xs") auto

lemma js_round_bounds: "\<bar>js_round x - x\<bar> \<le> 1 / 2"
  unfolding js_round_def by linarith

lemma wrap_lag_bounds:
  assumes "0 < k" shows "\<bar>wrap_lag raw k\<bar> \<le> k / 2"
proof -
  have "wrap_lag raw k = (raw / k - js_round (raw / k)) * k"
    using assms by (simp add: wrap_lag_def algebra_simps)
  then have "\<bar>wrap_lag raw k\<bar> = \<bar>js_round (raw / k) - raw / k\<bar> * k"
    using assms by (simp add: abs_mult abs_minus_commute)
  with js_round_bounds [of "raw / k"] assms show ?thesis
    by (simp add: mult_right_mono [of _ "1 / 2" k, simplified])
qed

lemma wrap_lag_multiple: "\<exists>n. wrap_lag raw k = raw + real_of_int n * k"
  by (rule exI [of _ "- \<lfloor>raw / k + 1 / 2\<rfloor>"]) (simp add: wrap_lag_def js_round_def)

lemma fold_set_distinct:
  assumes "distinct (map fst ps @ map fst out)"
  shows "foldl (\<lambda>out (k, d). jm_set k (g d) out) out ps = out @ map (\<lambda>(k, d). (k, g d)) ps"
  using assms
proof (induction ps arbitrary: out)
  case (Cons p ps)
  obtain k d where p: "p = (k, d)" by fastforce
  have "jm_set k (g d) out = out @ [(k, g d)]"
    using Cons.prems unfolding p by (induction out) auto
  then show ?case using Cons.IH [of "out @ [(k, g d)]"] Cons.prems by (simp add: p)
qed simp

definition align_base :: "align_lag list \<Rightarrow> real" where
  "align_base lags =
     the (min_of (map al_lagSamples (let chirp = filter (\<lambda>l. method_of l = Chirp) lags
                                     in if chirp \<noteq> [] then chirp else lags)))"

lemma normalize_eq:
  assumes "2 \<le> length lags" "distinct (map al_streamId lags)"
  shows "normalize_align_deltas lags interval
    = map (\<lambda>l. (al_streamId l, normalized_lag interval (align_base lags) l
               - the (min_of (map (normalized_lag interval (align_base lags)) lags)))) lags"
proof -
  let ?n = "normalized_lag interval (align_base lags)"
  have "normalize_align_deltas lags interval
      = foldl (\<lambda>out (k, d). jm_set k (d - the (min_of (map ?n lags))) out) [] (map (\<lambda>l. (al_streamId l, ?n l)) lags)"
    using assms(1) by (simp add: normalize_align_deltas_def align_base_def Let_def comp_def)
  also have "\<dots> = map (\<lambda>l. (al_streamId l, ?n l - the (min_of (map ?n lags)))) lags"
    by (subst fold_set_distinct) (simp_all add: assms(2) comp_def)
  finally show ?thesis .
qed

text \<open>The head trims of a take: with two or more measured streams every stream gets one, none is
  negative and the latest stream's is zero; between two streams measured against the recording
  itself the trims differ by exactly the measured lags, and between two chirp-measured streams of one
  rate by the measured lags up to whole sweep repeats, by at most one repeat interval.\<close>

theorem deltas_align:
  assumes "2 \<le> length lags" and "distinct (map al_streamId lags)" and "l \<in> set lags" and "k \<in> set lags"
  shows "\<exists>d e. jm_get (normalize_align_deltas lags interval) (al_streamId l) = Some d
    \<and> jm_get (normalize_align_deltas lags interval) (al_streamId k) = Some e \<and> 0 \<le> d
    \<and> (\<exists>s. jm_get (normalize_align_deltas lags interval) s = Some 0)
    \<and> (method_of l = Content \<and> method_of k = Content \<longrightarrow> d - e = al_lagSamples l - al_lagSamples k)
    \<and> (method_of l = Chirp \<and> method_of k = Chirp \<and> al_sampleRate l = al_sampleRate k
         \<and> 0 < js_round (interval * al_sampleRate l) \<longrightarrow>
         (\<exists>n :: int. d - e = al_lagSamples l - al_lagSamples k + of_int n * js_round (interval * al_sampleRate l))
         \<and> \<bar>d - e\<bar> \<le> js_round (interval * al_sampleRate l))"
proof -
  let ?n = "normalized_lag interval (align_base lags)" and ?m = "normalize_align_deltas lags interval"
  let ?min = "the (min_of (map ?n lags))"
  have ne: "map ?n lags \<noteq> []" using assms(1) by auto
  have get: "jm_get ?m (al_streamId x) = Some (?n x - ?min)" if "x \<in> set lags" for x
    unfolding normalize_eq [OF assms(1,2)] using that assms(2)
    by (intro map_of_is_SomeI) (auto simp: comp_def)
  have low: "?min \<le> ?n l" using min_of_the [OF ne] assms(3) by auto
  obtain z where z: "z \<in> set lags" "?n z = ?min" using min_of_the [OF ne] by auto
  have chirp: "(\<exists>n :: int. ?n l - ?n k = al_lagSamples l - al_lagSamples k + of_int n * js_round (interval * al_sampleRate l))
         \<and> \<bar>?n l - ?n k\<bar> \<le> js_round (interval * al_sampleRate l)"
    if c: "method_of l = Chirp" "method_of k = Chirp" "al_sampleRate l = al_sampleRate k"
      "0 < js_round (interval * al_sampleRate l)"
  proof -
    let ?i = "js_round (interval * al_sampleRate l)" and ?b = "align_base lags"
    have w: "?n l = wrap_lag (al_lagSamples l - ?b) ?i" "?n k = wrap_lag (al_lagSamples k - ?b) ?i"
      using c by (simp_all add: normalized_lag_def)
    obtain p q where "?n l = al_lagSamples l - ?b + of_int p * ?i" "?n k = al_lagSamples k - ?b + of_int q * ?i"
      using wrap_lag_multiple w by metis
    then have "?n l - ?n k = al_lagSamples l - al_lagSamples k + of_int (p - q) * ?i"
      by (simp add: algebra_simps)
    moreover have "\<bar>?n l - ?n k\<bar> \<le> ?i"
      using wrap_lag_bounds [OF c(4), of "al_lagSamples l - ?b"] wrap_lag_bounds [OF c(4), of "al_lagSamples k - ?b"]
      unfolding w by linarith
    ultimately show ?thesis by blast
  qed
  have content: "?n l - ?n k = al_lagSamples l - al_lagSamples k" if "method_of l = Content" "method_of k = Content"
    using that by (simp add: normalized_lag_def)
  show ?thesis
    using get [OF assms(3)] get [OF assms(4)] low get [OF z(1)] z(2) content chirp
    by (intro exI [of _ "?n l - ?min"] exI [of _ "?n k - ?min"]) (auto intro: exI [of _ "al_streamId z"])
qed

theorem deltas_align_witness:
  "\<exists>d e. jm_get (normalize_align_deltas
      [\<lparr>al_streamId = ''a'', al_lagSamples = 100, al_sampleRate = 10, al_method = None\<rparr>,
       \<lparr>al_streamId = ''b'', al_lagSamples = 131, al_sampleRate = 10, al_method = Some Chirp\<rparr>] 3) ''b'' = Some d
    \<and> jm_get (normalize_align_deltas
      [\<lparr>al_streamId = ''a'', al_lagSamples = 100, al_sampleRate = 10, al_method = None\<rparr>,
       \<lparr>al_streamId = ''b'', al_lagSamples = 131, al_sampleRate = 10, al_method = Some Chirp\<rparr>] 3) ''a'' = Some e
    \<and> 0 \<le> d"
  using deltas_align [of "[\<lparr>al_streamId = ''a'', al_lagSamples = 100, al_sampleRate = 10, al_method = None\<rparr>,
       \<lparr>al_streamId = ''b'', al_lagSamples = 131, al_sampleRate = 10, al_method = Some Chirp\<rparr>]"
      "\<lparr>al_streamId = ''b'', al_lagSamples = 131, al_sampleRate = 10, al_method = Some Chirp\<rparr>"
      "\<lparr>al_streamId = ''a'', al_lagSamples = 100, al_sampleRate = 10, al_method = None\<rparr>" 3]
  by auto

subsection \<open>Mounting and releasing\<close>

text \<open>What sounds within the look-ahead is mounted or about to be, nearest first; nothing released is
  mounted again at the same position.\<close>

lemma takes_to_mount_covers:
  "sp \<in> set spans \<Longrightarrow> posSec < ss_endSec sp \<Longrightarrow> ss_startSec sp < posSec + aheadSec \<Longrightarrow>
     isMounted (ss_takeId sp) \<or> ss_takeId sp \<in> set (takes_to_mount spans isMounted posSec aheadSec)"
  by (auto simp: takes_to_mount_def)

lemma end_of_spans:
  "distinct (map ss_takeId spans @ jm_keys m) \<Longrightarrow>
   jm_get (foldl (\<lambda>m sp. jm_set (ss_takeId sp) (ss_endSec sp) m) m spans) k
     = (case List.find (\<lambda>sp. ss_takeId sp = k) spans of Some sp \<Rightarrow> Some (ss_endSec sp) | None \<Rightarrow> jm_get m k)"
proof (induction spans arbitrary: m)
  case (Cons sp spans)
  have "distinct (map ss_takeId spans @ jm_keys (jm_set (ss_takeId sp) (ss_endSec sp) m))"
    using Cons.prems keys_jm_set [of "ss_takeId sp" "ss_endSec sp" m] distinct_update [of m "ss_takeId sp"] by auto
  note IH = Cons.IH [OF this]
  show ?case
  proof (cases "ss_takeId sp = k")
    case True
    then have "List.find (\<lambda>sp. ss_takeId sp = k) spans = None"
      using Cons.prems by (auto simp: find_None_iff image_iff)
    with True IH show ?thesis by (simp add: jm_get_set)
  next
    case False
    with IH show ?thesis by (simp add: jm_get_set split: option.split)
  qed
qed simp

lemma released_not_remounted:
  assumes "distinct (map ss_takeId spans)" "0 \<le> marginSec"
    and "k \<in> set (takes_to_release spans mounted posSec keep marginSec)"
  shows "k \<notin> set (takes_to_mount spans isMounted posSec aheadSec)"
proof
  assume "k \<in> set (takes_to_mount spans isMounted posSec aheadSec)"
  then obtain sp where sp: "sp \<in> set spans" "ss_takeId sp = k" "posSec < ss_endSec sp"
    by (auto simp: takes_to_mount_def)
  have "List.find (\<lambda>sp. ss_takeId sp = k) spans = Some sp"
    using sp assms(1) by (induction spans) auto
  with assms(3) end_of_spans [of spans "[]" k] assms(1) have "ss_endSec sp < posSec - marginSec"
    by (auto simp: takes_to_release_def Let_def split: if_splits)
  with sp(3) assms(2) show False by simp
qed

end
