(* ===== verification/Regions.thy ===== *)
theory Regions
  imports Timeline_Math
begin

text \<open>
  \<open>apps/web/src/routes/desk/regions.ts\<close>: the regions a clip is split into. A region is a span of
  the source played at a position of the arrangement; a list of regions is stored in source order.
\<close>

record clip_region = region_span +
  rg_id :: string

definition min_region_sec :: real where "min_region_sec = 1 / 10"

definition seed_region :: "string \<Rightarrow> real \<Rightarrow> real \<Rightarrow> clip_region" where
  "seed_region streamId startSec durationSec =
     \<lparr>rg_startSec = startSec, rg_sourceOffsetSec = 0, rg_durationSec = durationSec, rg_id = streamId\<rparr>"

definition sort_regions :: "clip_region list \<Rightarrow> clip_region list" where
  "sort_regions regions = js_sort (by_key rg_sourceOffsetSec) regions"

definition split_region :: "clip_region list \<Rightarrow> string \<Rightarrow> real \<Rightarrow> string \<Rightarrow> clip_region list option" where
  "split_region regions regionId atSourceSec newId =
     (case List.find (\<lambda>r. rg_id r = regionId) regions of
        None \<Rightarrow> None
      | Some target \<Rightarrow>
          let leftSec = atSourceSec - rg_sourceOffsetSec target;
              rightSec = rg_sourceOffsetSec target + rg_durationSec target - atSourceSec
          in if leftSec < min_region_sec \<or> rightSec < min_region_sec then None
             else Some (sort_regions (filter (\<lambda>r. rg_id r \<noteq> regionId) regions
               @ [target\<lparr>rg_durationSec := leftSec\<rparr>,
                  \<lparr>rg_startSec = rg_startSec target + leftSec, rg_sourceOffsetSec = atSourceSec,
                   rg_durationSec = rightSec, rg_id = newId\<rparr>])))"

text \<open>The stream a selected id belongs to: the first whose list holds it, else the id itself.\<close>

definition stream_of_region :: "(string, clip_region list) jsmap \<Rightarrow> string \<Rightarrow> string" where
  "stream_of_region docRegions i =
     (case List.find (\<lambda>(_, regions). list_ex (\<lambda>r. rg_id r = i) regions) docRegions of
        None \<Rightarrow> i | Some (candidate, _) \<Rightarrow> candidate)"

definition selection_stream_ids :: "string list \<Rightarrow> (string, clip_region list) jsmap \<Rightarrow> string list" where
  "selection_stream_ids selection docRegions =
     foldl (\<lambda>out i. let streamId = stream_of_region docRegions i
                    in if streamId \<in> set out then out else out @ [streamId]) [] selection"

datatype trim_edge = Head | Tail

definition region_end :: "'a region_span_scheme \<Rightarrow> real" where
  "region_end r = rg_sourceOffsetSec r + rg_durationSec r"

text \<open>The nearest sibling window before and after the region, and its edges moved by \<open>d\<close>.\<close>

definition prev_end :: "clip_region list \<Rightarrow> string \<Rightarrow> clip_region \<Rightarrow> real" where
  "prev_end regions regionId target =
     foldl (\<lambda>acc r. if rg_id r \<noteq> regionId \<and> region_end r \<le> rg_sourceOffsetSec target + 1 / 10 ^ 9
                    then max acc (region_end r) else acc) 0 regions"

definition next_start :: "clip_region list \<Rightarrow> string \<Rightarrow> clip_region \<Rightarrow> real \<Rightarrow> real" where
  "next_start regions regionId target streamDurationSec =
     foldl (\<lambda>acc r. if rg_id r \<noteq> regionId \<and> rg_sourceOffsetSec r \<ge> region_end target - 1 / 10 ^ 9
                    then min acc (rg_sourceOffsetSec r) else acc) streamDurationSec regions"

definition move_edge :: "trim_edge \<Rightarrow> real \<Rightarrow> clip_region \<Rightarrow> clip_region" where
  "move_edge edge d r =
     (case edge of
        Head \<Rightarrow> r\<lparr>rg_startSec := rg_startSec r + d, rg_sourceOffsetSec := rg_sourceOffsetSec r + d,
                  rg_durationSec := rg_durationSec r - d\<rparr>
      | Tail \<Rightarrow> r\<lparr>rg_durationSec := rg_durationSec r + d\<rparr>)"

definition trim_delta :: "clip_region list \<Rightarrow> string \<Rightarrow> clip_region \<Rightarrow> trim_edge \<Rightarrow> real \<Rightarrow> real \<Rightarrow> real" where
  "trim_delta regions regionId target edge deltaSec streamDurationSec =
     (case edge of
        Head \<Rightarrow> min (max (max deltaSec (prev_end regions regionId target - rg_sourceOffsetSec target))
                         (- rg_startSec target))
                    (rg_durationSec target - min_region_sec)
      | Tail \<Rightarrow> min (max deltaSec (min_region_sec - rg_durationSec target))
                    (next_start regions regionId target streamDurationSec - region_end target))"

definition trim_region ::
    "clip_region list \<Rightarrow> string \<Rightarrow> trim_edge \<Rightarrow> real \<Rightarrow> real \<Rightarrow> clip_region list option" where
  "trim_region regions regionId edge deltaSec streamDurationSec =
     (case List.find (\<lambda>r. rg_id r = regionId) regions of
        None \<Rightarrow> None
      | Some target \<Rightarrow>
          let d = trim_delta regions regionId target edge deltaSec streamDurationSec
          in if \<bar>d\<bar> < 1 / 10 ^ 9 then Some regions
             else Some (sort_regions (map (\<lambda>r. if rg_id r = regionId then move_edge edge d r else r) regions)))"

definition region_eps :: real where "region_eps = 1 / 10 ^ 6"

text \<open>The loop of \<open>regionsValid\<close> with slack \<open>eps\<close>: the cursor after the list, \<open>None\<close> when it fails.\<close>

fun valid_from :: "real \<Rightarrow> real \<Rightarrow> clip_region list \<Rightarrow> real option" where
  "valid_from eps cursor [] = Some cursor"
| "valid_from eps cursor (r # rs) =
     (if rg_startSec r < - eps \<or> rg_durationSec r < min_region_sec - eps then None
      else if rg_sourceOffsetSec r < cursor - eps then None
      else valid_from eps (region_end r) rs)"

definition valid_within :: "real \<Rightarrow> clip_region list \<Rightarrow> real \<Rightarrow> bool" where
  "valid_within eps regions streamDurationSec \<longleftrightarrow>
     (case valid_from eps 0 (sort_regions regions) of None \<Rightarrow> False | Some c \<Rightarrow> c \<le> streamDurationSec + eps)"

definition regions_valid :: "clip_region list \<Rightarrow> real \<Rightarrow> bool" where
  "regions_valid regions streamDurationSec = valid_within region_eps regions streamDurationSec"

subsection \<open>Cutting a region is inaudible\<close>

definition sounding :: "real option \<Rightarrow> real option \<Rightarrow> real option" where
  "sounding a b = (case a of None \<Rightarrow> b | Some _ \<Rightarrow> a)"

lemma split_windows:
  assumes "0 < rt_ratio t" "fromSec \<le> nowSec" "0 \<le> leftSec" "leftSec \<le> rg_durationSec r"
  shows "region_sound t r fromSec nowSec =
      sounding (region_sound t (r\<lparr>rg_durationSec := leftSec\<rparr>) fromSec nowSec)
        (region_sound t (r\<lparr>rg_startSec := rg_startSec r + leftSec, rg_sourceOffsetSec := rg_sourceOffsetSec r + leftSec,
            rg_durationSec := rg_durationSec r - leftSec\<rparr>) fromSec nowSec)
    \<and> (region_sound t (r\<lparr>rg_durationSec := leftSec\<rparr>) fromSec nowSec = None
     \<or> region_sound t (r\<lparr>rg_startSec := rg_startSec r + leftSec, rg_sourceOffsetSec := rg_sourceOffsetSec r + leftSec,
            rg_durationSec := rg_durationSec r - leftSec\<rparr>) fromSec nowSec = None)"
  using assms(3,4) unfolding region_sound_window [OF assms(1,2)]
  by (auto simp: region_window_def sounding_def Let_def min_def max_def)

lemma mset_split_id:
  assumes "List.find (\<lambda>r. rg_id r = i) rs = Some target" and "distinct (map rg_id rs)"
  shows "mset rs = add_mset target (mset (filter (\<lambda>r. rg_id r \<noteq> i) rs))" and "rg_id target = i"
    and "target \<in> set rs"
proof -
  from assms(1) have t: "rg_id target = i" "target \<in> set rs"
    by (auto simp: find_Some_iff)
  have "filter (\<lambda>r. rg_id r = i) rs = [target]"
  proof -
    have "\<forall>x \<in> set (filter (\<lambda>r. rg_id r = i) rs). x = target"
      using t assms(2) by (auto simp: distinct_map inj_on_def)
    moreover have "distinct (filter (\<lambda>r. rg_id r = i) rs)" using assms(2) by (simp add: distinct_map)
    moreover have "target \<in> set (filter (\<lambda>r. rg_id r = i) rs)" using t by simp
    ultimately show ?thesis
      by (cases "filter (\<lambda>r. rg_id r = i) rs" rule: list.exhaust, simp)
         (metis distinct.simps(2) list.set_intros(1) list.set_intros(2) neq_Nil_conv)
  qed
  then show "mset rs = add_mset target (mset (filter (\<lambda>r. rg_id r \<noteq> i) rs))"
    using multiset_partition [of "mset rs" "\<lambda>r. rg_id r = i"] by (simp flip: mset_filter)
  show "rg_id target = i" "target \<in> set rs" by (fact t)+
qed

definition all_sounds :: "region_timing \<Rightarrow> clip_region list \<Rightarrow> real \<Rightarrow> real \<Rightarrow> real option multiset" where
  "all_sounds t rs fromSec nowSec =
     filter_mset (\<lambda>s. s \<noteq> None) (image_mset (\<lambda>r. region_sound t r fromSec nowSec) (mset rs))"

lemma region_sound_cong:
  "rg_startSec r = rg_startSec q \<Longrightarrow> rg_sourceOffsetSec r = rg_sourceOffsetSec q \<Longrightarrow>
     rg_durationSec r = rg_durationSec q \<Longrightarrow> region_sound t r fromSec nowSec = region_sound t q fromSec nowSec"
  by (simp add: region_sound_def plan_region_source_def region_window_def)

text \<open>C12. Splitting is inaudible: whatever position playback starts from, at every later moment the
  pieces of a split region together sound exactly the source positions the uncut region sounded
  (the other regions untouched), under every alignment trim and drift ratio.\<close>

theorem split_is_inaudible:
  assumes "split_region rs i atSourceSec newId = Some rs'" and "distinct (map rg_id rs)"
    and "0 < rt_ratio t" and "fromSec \<le> nowSec"
  shows "all_sounds t rs' fromSec nowSec = all_sounds t rs fromSec nowSec"
proof -
  obtain target where f: "List.find (\<lambda>r. rg_id r = i) rs = Some target"
    using assms(1) by (auto simp: split_region_def split: option.splits)
  let ?others = "filter (\<lambda>r. rg_id r \<noteq> i) rs" and ?left = "atSourceSec - rg_sourceOffsetSec target"
  let ?l = "target\<lparr>rg_durationSec := ?left\<rparr>"
  let ?r = "\<lparr>rg_startSec = rg_startSec target + ?left, rg_sourceOffsetSec = atSourceSec,
     rg_durationSec = rg_sourceOffsetSec target + rg_durationSec target - atSourceSec, rg_id = newId\<rparr>"
  let ?cut = "target\<lparr>rg_startSec := rg_startSec target + ?left, rg_sourceOffsetSec := rg_sourceOffsetSec target + ?left,
            rg_durationSec := rg_durationSec target - ?left\<rparr>"
  have rs': "rs' = sort_regions (?others @ [?l, ?r])" and sizes: "0 \<le> ?left" "?left \<le> rg_durationSec target"
    using assms(1) f by (auto simp: split_region_def Let_def min_region_sec_def split: if_splits)
  have "region_sound t ?r fromSec nowSec = region_sound t ?cut fromSec nowSec"
    by (rule region_sound_cong) simp_all
  with split_windows [OF assms(3,4) sizes]
  have "{#s \<in># {#region_sound t ?l fromSec nowSec, region_sound t ?r fromSec nowSec#}. s \<noteq> None#}
      = {#s \<in># {#region_sound t target fromSec nowSec#}. s \<noteq> None#}"
    by (auto simp: sounding_def split: option.splits)
  moreover have "all_sounds t rs' fromSec nowSec
      = filter_mset (\<lambda>s. s \<noteq> None) (image_mset (\<lambda>r. region_sound t r fromSec nowSec) (mset ?others))
        + {#s \<in># {#region_sound t ?l fromSec nowSec, region_sound t ?r fromSec nowSec#}. s \<noteq> None#}"
    unfolding all_sounds_def rs' sort_regions_def mset_js_sort mset_append image_mset_union filter_union_mset
    by (simp only: mset.simps image_mset_add_mset image_mset_empty)
  moreover have "all_sounds t rs fromSec nowSec
      = filter_mset (\<lambda>s. s \<noteq> None) (image_mset (\<lambda>r. region_sound t r fromSec nowSec) (mset ?others))
        + {#s \<in># {#region_sound t target fromSec nowSec#}. s \<noteq> None#}"
    unfolding all_sounds_def mset_split_id(1) [OF f assms(2)]
    by (simp only: image_mset_add_mset filter_mset_add_mset add_mset_add_single [of _ "filter_mset _ _"]
        image_mset_empty filter_empty_mset) simp
  ultimately show ?thesis by simp
qed

definition sample_regions :: "clip_region list" where
  "sample_regions = [\<lparr>rg_startSec = 1, rg_sourceOffsetSec = 0, rg_durationSec = 10, rg_id = ''s''\<rparr>]"

lemma sample_split:
  "split_region sample_regions ''s'' 4 ''n'' =
     Some [\<lparr>rg_startSec = 1, rg_sourceOffsetSec = 0, rg_durationSec = 4, rg_id = ''s''\<rparr>,
           \<lparr>rg_startSec = 5, rg_sourceOffsetSec = 4, rg_durationSec = 6, rg_id = ''n''\<rparr>]"
  by (simp add: split_region_def sample_regions_def min_region_sec_def sort_regions_def by_key_def)

theorem split_is_inaudible_witness:
  "all_sounds \<lparr>rt_headSec = 1, rt_ratio = 2, rt_bufferDurationSec = 9\<rparr>
     [\<lparr>rg_startSec = 1, rg_sourceOffsetSec = 0, rg_durationSec = 4, rg_id = ''s''\<rparr>,
      \<lparr>rg_startSec = 5, rg_sourceOffsetSec = 4, rg_durationSec = 6, rg_id = ''n''\<rparr>] 2 3
   = all_sounds \<lparr>rt_headSec = 1, rt_ratio = 2, rt_bufferDurationSec = 9\<rparr> sample_regions 2 3"
  by (rule split_is_inaudible [OF sample_split]) (simp_all add: sample_regions_def)

text \<open>A stream that was never split sounds as the one region that stands for it.\<close>

lemma seed_region_sound:
  assumes "0 < tt_ratio t" "fromSec \<le> nowSec" "0 \<le> tt_headSec t"
  shows "region_sound \<lparr>rt_headSec = tt_headSec t, rt_ratio = tt_ratio t, rt_bufferDurationSec = tt_bufferDurationSec t\<rparr>
      (seed_region sid (tt_clipDelaySec t) (tt_bufferDurationSec t)) fromSec nowSec = track_sound t fromSec nowSec"
  using assms by (subst region_sound_window) (simp_all add: track_sound_window seed_region_def region_window_def)

subsection \<open>Stored lists stay valid\<close>

abbreviation before :: "clip_region \<Rightarrow> clip_region \<Rightarrow> bool" where
  "before a b \<equiv> rg_sourceOffsetSec a < rg_sourceOffsetSec b"

lemma sort_regions_eq:
  assumes "sorted_wrt before ys" "mset xs = mset ys"
  shows "sort_regions xs = ys"
proof -
  have "distinct (map rg_sourceOffsetSec ys)"
    using assms(1) by (induction ys) auto
  then have "distinct (map rg_sourceOffsetSec xs)"
    using assms(2) by (metis mset_eq_imp_distinct_iff mset_map)
  then have "sort_regions xs = js_sort (by_key rg_sourceOffsetSec) ys"
    unfolding sort_regions_def by (rule js_sort_by_key_unique) (rule assms(2))
  also have "\<dots> = ys"
    by (rule by_key.js_sort_ordered) (use assms(1) in \<open>auto simp: by_key_def elim: sorted_wrt_mono_rel [rotated]\<close>)
  finally show ?thesis .
qed

lemma valid_from_append:
  "valid_from eps c (xs @ ys) = Option.bind (valid_from eps c xs) (\<lambda>c. valid_from eps c ys)"
  by (induction eps c xs rule: valid_from.induct) auto

lemma valid_from_sorted:
  assumes "eps < 1 / 20" "valid_from eps c rs \<noteq> None"
  shows "(\<forall>r \<in> set rs. c - eps \<le> rg_sourceOffsetSec r) \<and> sorted_wrt before rs"
  using assms(2)
proof (induction rs arbitrary: c)
  case (Cons r rs)
  then have IH: "\<forall>q \<in> set rs. region_end r - eps \<le> rg_sourceOffsetSec q" "sorted_wrt before rs"
    and r: "c - eps \<le> rg_sourceOffsetSec r" "min_region_sec - eps \<le> rg_durationSec r"
    by (auto split: if_splits)
  have "rg_sourceOffsetSec r < rg_sourceOffsetSec q" if "q \<in> set rs" for q
  proof -
    have "region_end r - eps \<le> rg_sourceOffsetSec q" using IH(1) that by blast
    with r(2) assms(1) show ?thesis by (simp add: region_end_def min_region_sec_def)
  qed
  with IH r show ?case by force
qed simp

text \<open>The tail of a valid list only looks at the cursor through its first region.\<close>

lemma valid_from_cursor:
  assumes "valid_from eps c rs = Some e" "rs \<noteq> [] \<Longrightarrow> c' - eps \<le> rg_sourceOffsetSec (hd rs)"
  shows "valid_from eps c' rs = Some (if rs = [] then c' else e)"
  using assms by (cases rs) (auto split: if_splits)

text \<open>Replacing one region of a valid list by a list that is valid in its place.\<close>

lemma valid_replace:
  assumes "valid_from eps 0 (xs @ r # ys) = Some e"
    and "\<And>c. valid_from eps c [r] \<noteq> None \<Longrightarrow> valid_from eps 0 xs = Some c \<Longrightarrow> valid_from eps c new = Some e'"
    and "ys \<noteq> [] \<Longrightarrow> e' - eps \<le> rg_sourceOffsetSec (hd ys)"
  shows "valid_from eps 0 (xs @ new @ ys) = Some (if ys = [] then e' else e)"
proof -
  from assms(1) obtain c where c: "valid_from eps 0 xs = Some c" and rest: "valid_from eps c (r # ys) = Some e"
    by (auto simp: valid_from_append split: Option.bind_splits)
  from rest have r: "valid_from eps c [r] \<noteq> None" and ys: "valid_from eps (region_end r) ys = Some e"
    by (auto split: if_splits)
  show ?thesis
    using assms(2) [OF r c] valid_from_cursor [OF ys, of e'] assms(3) by (auto simp: valid_from_append c)
qed

lemma split_sorted_at:
  assumes "eps < 1 / 20" "valid_from eps 0 (sort_regions rs) = Some e"
    and "List.find (\<lambda>r. rg_id r = i) rs = Some target" "distinct (map rg_id rs)"
  obtains xs ys where "sort_regions rs = xs @ target # ys" "mset (filter (\<lambda>r. rg_id r \<noteq> i) rs) = mset (xs @ ys)"
    "sorted_wrt before (xs @ target # ys)"
proof -
  have "target \<in> set (sort_regions rs)"
    using mset_split_id(3) [OF assms(3,4)] by (simp add: sort_regions_def)
  then obtain xs ys where s: "sort_regions rs = xs @ target # ys" by (auto simp: in_set_conv_decomp)
  have sorted: "sorted_wrt before (xs @ target # ys)"
    using valid_from_sorted [OF assms(1), of 0 "sort_regions rs"] assms(2) unfolding s by simp
  have "mset (xs @ target # ys) = mset rs"
    unfolding s [symmetric] by (simp add: sort_regions_def)
  then have "mset (filter (\<lambda>r. rg_id r \<noteq> i) rs) = mset (xs @ ys)"
    unfolding mset_split_id(1) [OF assms(3,4)] by simp
  from that [OF s this sorted] show ?thesis .
qed

text \<open>A split keeps a stored list valid (positions and lengths in range, source windows in order and
  disjoint up to the slack, inside the stream).\<close>

theorem split_keeps_valid:
  assumes "regions_valid rs D" and "distinct (map rg_id rs)" and "split_region rs i atSourceSec newId = Some rs'"
  shows "regions_valid rs' D"
proof -
  have eps: "region_eps < 1 / 20" "0 < region_eps" by (simp_all add: region_eps_def)
  obtain e where e: "valid_from region_eps 0 (sort_regions rs) = Some e" "e \<le> D + region_eps"
    using assms(1) by (auto simp: regions_valid_def valid_within_def split: option.splits)
  obtain target where f: "List.find (\<lambda>r. rg_id r = i) rs = Some target"
    using assms(3) by (auto simp: split_region_def split: option.splits)
  let ?left = "atSourceSec - rg_sourceOffsetSec target"
  let ?l = "target\<lparr>rg_durationSec := ?left\<rparr>"
  let ?r = "\<lparr>rg_startSec = rg_startSec target + ?left, rg_sourceOffsetSec = atSourceSec,
     rg_durationSec = rg_sourceOffsetSec target + rg_durationSec target - atSourceSec, rg_id = newId\<rparr>"
  have rs': "rs' = sort_regions (filter (\<lambda>r. rg_id r \<noteq> i) rs @ [?l, ?r])"
    and sizes: "min_region_sec \<le> ?left" "min_region_sec \<le> rg_durationSec ?r"
    using assms(3) f by (auto simp: split_region_def Let_def split: if_splits)
  obtain xs ys where s: "sort_regions rs = xs @ target # ys"
    "mset (filter (\<lambda>r. rg_id r \<noteq> i) rs) = mset (xs @ ys)" "sorted_wrt before (xs @ target # ys)"
    by (rule split_sorted_at [OF eps(1) e(1) f assms(2)])
  have end_r: "region_end ?r = region_end target" and end_l: "region_end ?l = atSourceSec"
    by (simp_all add: region_end_def)
  have tail: "ys \<noteq> [] \<Longrightarrow> region_end target - region_eps \<le> rg_sourceOffsetSec (hd ys)"
    using e(1) unfolding s(1) by (cases ys) (auto simp: valid_from_append split: Option.bind_splits if_splits)
  have "valid_from region_eps 0 (xs @ [?l, ?r] @ ys) = Some (if ys = [] then region_end target else e)"
  proof (rule valid_replace [where r = target])
    show "valid_from region_eps 0 (xs @ target # ys) = Some e" using e(1) s(1) by simp
    show "valid_from region_eps c [?l, ?r] = Some (region_end target)"
      if "valid_from region_eps c [target] \<noteq> None" for c
      using that sizes eps end_r end_l by (simp add: region_end_def min_region_sec_def split: if_splits)
  qed (rule tail)
  moreover have "sort_regions (filter (\<lambda>r. rg_id r \<noteq> i) rs @ [?l, ?r]) = xs @ [?l, ?r] @ ys"
  proof (rule sort_regions_eq)
    have "valid_from region_eps 0 (xs @ [?l, ?r] @ ys) \<noteq> None" using calculation by simp
    then show "sorted_wrt before (xs @ [?l, ?r] @ ys)" using valid_from_sorted [OF eps(1)] by blast
    show "mset (filter (\<lambda>r. rg_id r \<noteq> i) rs @ [?l, ?r]) = mset (xs @ [?l, ?r] @ ys)"
      using s(2) by simp
  qed
  moreover have "sort_regions rs' = rs'" unfolding rs' sort_regions_def by (rule by_key.js_sort_idem)
  moreover have "region_end target \<le> D + region_eps" if "ys = []"
    using e that unfolding s(1) by (auto simp: valid_from_append split: Option.bind_splits if_splits)
  ultimately show ?thesis
    using e(2) unfolding regions_valid_def valid_within_def by (auto simp: rs')
qed

theorem split_keeps_valid_witness:
  "regions_valid [\<lparr>rg_startSec = 1, rg_sourceOffsetSec = 0, rg_durationSec = 4, rg_id = ''s''\<rparr>,
      \<lparr>rg_startSec = 5, rg_sourceOffsetSec = 4, rg_durationSec = 6, rg_id = ''n''\<rparr>] 10"
  by (rule split_keeps_valid [OF _ _ sample_split])
     (simp_all add: sample_regions_def regions_valid_def valid_within_def sort_regions_def region_eps_def
        min_region_sec_def region_end_def)

subsection \<open>Trimming\<close>

lemma fold_max_bounds:
  fixes f :: "'a \<Rightarrow> real"
  shows "acc \<le> foldl (\<lambda>acc r. if P r then max acc (f r) else acc) acc rs
    \<and> (\<forall>r \<in> set rs. P r \<longrightarrow> f r \<le> foldl (\<lambda>acc r. if P r then max acc (f r) else acc) acc rs)"
proof (induction rs arbitrary: acc)
  case (Cons x rs)
  from Cons.IH [of "if P x then max acc (f x) else acc"] show ?case
    by (auto split: if_splits)
qed simp

lemma fold_min_bounds:
  fixes f :: "'a \<Rightarrow> real"
  shows "foldl (\<lambda>acc r. if P r then min acc (f r) else acc) acc rs \<le> acc
    \<and> (\<forall>r \<in> set rs. P r \<longrightarrow> foldl (\<lambda>acc r. if P r then min acc (f r) else acc) acc rs \<le> f r)
    \<and> ((\<forall>r \<in> set rs. P r \<longrightarrow> b \<le> f r) \<and> b \<le> acc \<longrightarrow> b \<le> foldl (\<lambda>acc r. if P r then min acc (f r) else acc) acc rs)"
proof (induction rs arbitrary: acc)
  case (Cons x rs)
  from Cons.IH [of "if P x then min acc (f x) else acc"] show ?case
    by (auto split: if_splits)
qed simp

text \<open>The cursor of a list valid without slack: every region before ends at or before it.\<close>

lemma valid_from_ends:
  "valid_from 0 c rs = Some e \<Longrightarrow> 0 \<le> c \<Longrightarrow>
     c \<le> e \<and> (rs = [] \<longrightarrow> e = c) \<and> (rs \<noteq> [] \<longrightarrow> e = region_end (last rs)) \<and> (\<forall>r \<in> set rs. region_end r \<le> e)"
proof (induction rs arbitrary: c)
  case (Cons r rs)
  then have *: "valid_from 0 (region_end r) rs = Some e" "c \<le> region_end r"
    by (auto simp: region_end_def min_region_sec_def split: if_splits)
  with Cons.IH [OF *(1)] Cons.prems(2) show ?case by auto
qed simp

lemma map_one_id:
  assumes "List.find (\<lambda>r. rg_id r = i) rs = Some target" "distinct (map rg_id rs)"
  shows "mset (map (\<lambda>r. if rg_id r = i then f r else r) rs)
    = add_mset (f target) (mset (filter (\<lambda>r. rg_id r \<noteq> i) rs))"
proof -
  have "mset (map (\<lambda>r. if rg_id r = i then f r else r) rs)
      = image_mset (\<lambda>r. if rg_id r = i then f r else r) (add_mset target (mset (filter (\<lambda>r. rg_id r \<noteq> i) rs)))"
    unfolding mset_split_id(1) [OF assms, symmetric] by simp
  also have "\<dots> = add_mset (f target) (mset (map (\<lambda>r. if rg_id r = i then f r else r) (filter (\<lambda>r. rg_id r \<noteq> i) rs)))"
    using mset_split_id(2) [OF assms] by (simp del: mset_filter)
  also have "map (\<lambda>r. if rg_id r = i then f r else r) (filter (\<lambda>r. rg_id r \<noteq> i) rs) = filter (\<lambda>r. rg_id r \<noteq> i) rs"
    by (rule map_idI) simp
  finally show ?thesis .
qed

lemma valid_from_sizes: "valid_from 0 c rs \<noteq> None \<Longrightarrow> r \<in> set rs \<Longrightarrow> min_region_sec \<le> rg_durationSec r"
  by (induction "0 :: real" c rs rule: valid_from.induct) (auto split: if_splits)

text \<open>
  Where a region of a list valid without slack sits: \<open>xs\<close> are the regions before it in the source,
  \<open>ys\<close> those after it.
\<close>

definition fits :: "clip_region list \<Rightarrow> clip_region list \<Rightarrow> real \<Rightarrow> clip_region \<Rightarrow> bool" where
  "fits xs ys D r \<longleftrightarrow>
     0 \<le> rg_startSec r \<and> min_region_sec \<le> rg_durationSec r \<and> 0 \<le> rg_sourceOffsetSec r \<and> region_end r \<le> D
   \<and> (\<forall>q \<in> set xs. region_end q \<le> rg_sourceOffsetSec r \<and> min_region_sec \<le> rg_durationSec q)
   \<and> (\<forall>q \<in> set ys. region_end r \<le> rg_sourceOffsetSec q)"

text \<open>The list with the region \<open>i\<close> changed by \<open>f\<close> is valid when \<open>f\<close> keeps the region between its neighbours.\<close>

lemma valid_change:
  assumes "valid_within 0 rs D" "distinct (map rg_id rs)" "List.find (\<lambda>r. rg_id r = i) rs = Some target"
    and "\<And>xs ys. set (filter (\<lambda>r. rg_id r \<noteq> i) rs) = set xs \<union> set ys \<Longrightarrow> fits xs ys D target \<Longrightarrow> fits xs ys D (f target)"
  shows "valid_within 0 (sort_regions (map (\<lambda>r. if rg_id r = i then f r else r) rs)) D"
proof -
  obtain e where e: "valid_from 0 0 (sort_regions rs) = Some e" "e \<le> D"
    using assms(1) by (auto simp: valid_within_def split: option.splits)
  obtain xs ys where s: "sort_regions rs = xs @ target # ys"
    "mset (filter (\<lambda>r. rg_id r \<noteq> i) rs) = mset (xs @ ys)" "sorted_wrt before (xs @ target # ys)"
    by (rule split_sorted_at [OF _ e(1) assms(3,2)]) simp_all
  from e(1) obtain c where c: "valid_from 0 0 xs = Some c" "valid_from 0 c (target # ys) = Some e"
    unfolding s(1) by (auto simp: valid_from_append split: Option.bind_splits)
  then have t: "0 \<le> rg_startSec target" "min_region_sec \<le> rg_durationSec target" "c \<le> rg_sourceOffsetSec target"
    and ys: "valid_from 0 (region_end target) ys = Some e"
    by (auto split: if_splits)
  have xs_ends: "\<forall>r \<in> set xs. region_end r \<le> c" "0 \<le> c" "xs \<noteq> [] \<Longrightarrow> c = region_end (last xs)" "xs = [] \<Longrightarrow> c = 0"
    using valid_from_ends [OF c(1)] by auto
  have "region_end target \<le> e"
    using valid_from_ends [OF ys] t xs_ends(2) by (auto simp: region_end_def min_region_sec_def)
  moreover have "\<forall>r \<in> set ys. region_end target \<le> rg_sourceOffsetSec r"
    using valid_from_sorted [of 0 "region_end target" ys] ys by auto
  ultimately have "fits xs ys D target"
    unfolding fits_def using t xs_ends e(2) valid_from_sizes [of 0 xs] c(1) by force
  with mset_eq_setD [OF s(2)] have new: "fits xs ys D (f target)"
    by (intro assms(4)) simp_all
  have cf: "c \<le> rg_sourceOffsetSec (f target)"
    using new xs_ends(3,4) by (cases "xs = []") (auto simp: fits_def)
  have rep: "valid_from 0 0 (xs @ [f target] @ ys) = Some (if ys = [] then region_end (f target) else e)"
  proof (rule valid_replace [where r = target])
    show "valid_from 0 0 (xs @ target # ys) = Some e" using e(1) s(1) by simp
    show "valid_from 0 c' [f target] = Some (region_end (f target))" if "valid_from 0 0 xs = Some c'" for c'
      using that c(1) cf new by (simp add: fits_def)
    show "ys \<noteq> [] \<Longrightarrow> region_end (f target) - 0 \<le> rg_sourceOffsetSec (hd ys)"
      using new by (cases ys) (auto simp: fits_def)
  qed
  let ?new = "map (\<lambda>r. if rg_id r = i then f r else r) rs"
  have "sorted_wrt before (xs @ [f target] @ ys)"
    using valid_from_sorted [of 0 0 "xs @ [f target] @ ys"] rep by simp
  then have "sort_regions ?new = xs @ [f target] @ ys"
    by (rule sort_regions_eq) (unfold map_one_id [OF assms(3,2)] s(2), simp)
  moreover have "sort_regions (sort_regions ?new) = sort_regions ?new"
    unfolding sort_regions_def by (rule by_key.js_sort_idem)
  ultimately show ?thesis
    using rep new e(2) unfolding valid_within_def by (simp add: fits_def)
qed

lemma prev_end_bounds:
  "0 \<le> prev_end rs i t"
  "q \<in> set rs \<Longrightarrow> rg_id q \<noteq> i \<Longrightarrow> region_end q \<le> rg_sourceOffsetSec t + 1 / 10 ^ 9 \<Longrightarrow> region_end q \<le> prev_end rs i t"
  using fold_max_bounds [where acc = 0 and rs = rs and f = region_end
    and P = "\<lambda>r. rg_id r \<noteq> i \<and> region_end r \<le> rg_sourceOffsetSec t + 1 / 10 ^ 9", folded prev_end_def] by auto

lemma next_start_bounds:
  "next_start rs i t D \<le> D"
  "q \<in> set rs \<Longrightarrow> rg_id q \<noteq> i \<Longrightarrow> rg_sourceOffsetSec q \<ge> region_end t - 1 / 10 ^ 9 \<Longrightarrow>
     next_start rs i t D \<le> rg_sourceOffsetSec q"
  "b \<le> D \<Longrightarrow> (\<And>q. q \<in> set rs \<Longrightarrow> rg_id q \<noteq> i \<Longrightarrow> rg_sourceOffsetSec q \<ge> region_end t - 1 / 10 ^ 9 \<Longrightarrow>
     b \<le> rg_sourceOffsetSec q) \<Longrightarrow> b \<le> next_start rs i t D"
  using fold_min_bounds [where acc = D and rs = rs and f = rg_sourceOffsetSec and b = b
    and P = "\<lambda>r. rg_id r \<noteq> i \<and> rg_sourceOffsetSec r \<ge> region_end t - 1 / 10 ^ 9", folded next_start_def] by auto

lemma head_trim_fits:
  assumes others: "set (filter (\<lambda>r. rg_id r \<noteq> i) rs) = set xs \<union> set ys" and "fits xs ys D t"
  shows "fits xs ys D (move_edge Head (trim_delta rs i t Head delta D) t)"
proof -
  define d where "d = trim_delta rs i t Head delta D"
  have ends: "region_end q \<le> prev_end rs i t" if "q \<in> set xs" for q
  proof (rule prev_end_bounds(2))
    show "q \<in> set rs" "rg_id q \<noteq> i" using others that by auto
    show "region_end q \<le> rg_sourceOffsetSec t + 1 / 10 ^ 9" using assms(2) that by (force simp: fits_def)
  qed
  have size: "min_region_sec \<le> rg_durationSec t" "0 \<le> rg_startSec t" using assms(2) by (simp_all add: fits_def)
  have "prev_end rs i t - rg_sourceOffsetSec t \<le> d \<or> 0 \<le> d" "- rg_startSec t \<le> d"
    "d \<le> rg_durationSec t - min_region_sec"
    using size by (auto simp: d_def trim_delta_def min_def)
  moreover have "region_end q \<le> rg_sourceOffsetSec t + d" if "q \<in> set xs" for q
    using ends [OF that] that assms(2) calculation(1) by (force simp: fits_def)
  moreover have "0 \<le> rg_sourceOffsetSec t + d"
    using prev_end_bounds(1) [of rs i t] assms(2) calculation(1) by (auto simp: fits_def)
  ultimately show ?thesis
    using assms(2) unfolding d_def [symmetric] by (simp add: fits_def move_edge_def region_end_def)
qed

lemma tail_trim_fits:
  assumes others: "set (filter (\<lambda>r. rg_id r \<noteq> i) rs) = set xs \<union> set ys" and "fits xs ys D t"
  shows "fits xs ys D (move_edge Tail (trim_delta rs i t Tail delta D) t)"
proof -
  define d where "d = trim_delta rs i t Tail delta D"
  have mine: "q \<in> set rs \<and> rg_id q \<noteq> i \<longleftrightarrow> q \<in> set xs \<union> set ys" for q using others by auto
  have "region_end t \<le> next_start rs i t D"
  proof (rule next_start_bounds(3))
    fix q assume q: "q \<in> set rs" "rg_id q \<noteq> i" "region_end t - 1 / 10 ^ 9 \<le> rg_sourceOffsetSec q"
    have "q \<notin> set xs"
      using q(3) assms(2) by (force simp: fits_def region_end_def min_region_sec_def)
    with q mine [of q] assms(2) show "region_end t \<le> rg_sourceOffsetSec q" by (auto simp: fits_def)
  qed (use assms(2) in \<open>simp add: fits_def\<close>)
  moreover have "next_start rs i t D \<le> rg_sourceOffsetSec q" if "q \<in> set ys" for q
    using that mine [of q] assms(2) by (intro next_start_bounds(2)) (force simp: fits_def)+
  moreover have "d \<le> next_start rs i t D - region_end t" by (simp add: d_def trim_delta_def)
  moreover have "min_region_sec \<le> rg_durationSec t + d"
    using calculation(1) assms(2) by (auto simp: d_def trim_delta_def min_def fits_def)
  ultimately show ?thesis
    using assms(2) next_start_bounds(1) [of rs i t D] unfolding d_def [symmetric]
    by (force simp: fits_def move_edge_def region_end_def)
qed

text \<open>C30. Trimming or extending an edge keeps a disjoint list disjoint: however far the edge is dragged,
  the region keeps its minimal length, stays inside the stream, off its neighbours' source and at a
  non-negative position, and no region appears or disappears.\<close>

theorem trim_keeps_valid:
  assumes "valid_within 0 rs D" and "distinct (map rg_id rs)" and "trim_region rs i edge delta D = Some rs'"
  shows "valid_within 0 rs' D \<and> mset (map rg_id rs') = mset (map rg_id rs)"
proof -
  obtain t where f: "List.find (\<lambda>r. rg_id r = i) rs = Some t"
    using assms(3) by (auto simp: trim_region_def split: option.splits)
  let ?d = "trim_delta rs i t edge delta D"
  have rs': "rs' = (if \<bar>?d\<bar> < 1 / 10 ^ 9 then rs
      else sort_regions (map (\<lambda>r. if rg_id r = i then move_edge edge ?d r else r) rs))"
    using assms(3) f by (simp add: trim_region_def Let_def split: if_splits)
  have "valid_within 0 (sort_regions (map (\<lambda>r. if rg_id r = i then move_edge edge ?d r else r) rs)) D"
    by (rule valid_change [OF assms(1,2) f]) (cases edge; simp add: head_trim_fits tail_trim_fits)
  moreover have "mset (map rg_id (sort_regions (map (\<lambda>r. if rg_id r = i then move_edge edge ?d r else r) rs)))
      = mset (map rg_id rs)"
  proof -
    have "rg_id (move_edge edge ?d r) = rg_id r" for r by (cases edge) (simp_all add: move_edge_def)
    then have "map rg_id (map (\<lambda>r. if rg_id r = i then move_edge edge ?d r else r) rs) = map rg_id rs" by simp
    then show ?thesis unfolding sort_regions_def mset_map_js_sort by (rule arg_cong)
  qed
  ultimately show ?thesis using assms(1) by (simp add: rs')
qed

theorem trim_keeps_valid_witness:
  "valid_within 0 [\<lparr>rg_startSec = 0, rg_sourceOffsetSec = 0, rg_durationSec = 4, rg_id = ''a''\<rparr>,
     \<lparr>rg_startSec = 4, rg_sourceOffsetSec = 4, rg_durationSec = 4, rg_id = ''b''\<rparr>] 8"
proof -
  have "trim_region [\<lparr>rg_startSec = 0, rg_sourceOffsetSec = 0, rg_durationSec = 4, rg_id = ''a''\<rparr>,
     \<lparr>rg_startSec = 6, rg_sourceOffsetSec = 6, rg_durationSec = 2, rg_id = ''b''\<rparr>] ''b'' Head (- 5) 8
     = Some [\<lparr>rg_startSec = 0, rg_sourceOffsetSec = 0, rg_durationSec = 4, rg_id = ''a''\<rparr>,
     \<lparr>rg_startSec = 4, rg_sourceOffsetSec = 4, rg_durationSec = 4, rg_id = ''b''\<rparr>]"
    by (simp add: trim_region_def trim_delta_def prev_end_def move_edge_def region_end_def min_region_sec_def
        sort_regions_def by_key_def)
  from trim_keeps_valid [OF _ _ this] show ?thesis
    by (simp add: valid_within_def sort_regions_def by_key_def region_end_def min_region_sec_def)
qed

text \<open>
  The write guard accepts an overlap up to its slack of a microsecond, the trim only sees a sibling
  within a nanosecond: on such a list a head drag runs over the sibling and the guard drops the write.
\<close>

lemma trim_misses_slack_sibling:
  "let a = \<lparr>rg_startSec = 0, rg_sourceOffsetSec = 0, rg_durationSec = 1 + 1 / 10 ^ 7, rg_id = ''a''\<rparr>;
       b = \<lparr>rg_startSec = 1, rg_sourceOffsetSec = 1, rg_durationSec = 1, rg_id = ''b''\<rparr>;
       b' = \<lparr>rg_startSec = 1 / 2, rg_sourceOffsetSec = 1 / 2, rg_durationSec = 3 / 2, rg_id = ''b''\<rparr>
   in regions_valid [a, b] 2 \<and> trim_region [a, b] ''b'' Head (- 1 / 2) 2 = Some [a, b'] \<and> \<not> regions_valid [a, b'] 2"
  by (simp add: regions_valid_def valid_within_def region_eps_def trim_region_def trim_delta_def prev_end_def
      move_edge_def region_end_def min_region_sec_def sort_regions_def by_key_def)

end
