(* ===== verification/Sab_Ring.thy ===== *)
theory Sab_Ring
  imports Prelude
begin

text \<open>
  The capture ring between the audio worklet (\<open>apps/web/public/worklets/capture.js\<close>, the writer) and
  the encoder worker (\<open>apps/web/src/audio/sab-ring.ts\<close>, the reader): a shared buffer whose header
  slots wrap at 32 bits. Both sides run at once, so each operation is cut at its atomic loads and
  stores and the steps of the two interleave.
\<close>

subsection \<open>The ring\<close>

record 'a ring =
  sr_write :: "32 word"
  sr_read :: "32 word"
  sr_dropped :: "32 word"
  sr_emptyQuanta :: "32 word"
  sr_quanta :: "32 word"
  sr_data :: "'a list"

definition create_capture_ring :: "'a \<Rightarrow> nat \<Rightarrow> 'a ring" where
  "create_capture_ring zero capacitySamples =
     \<lparr>sr_write = 0, sr_read = 0, sr_dropped = 0, sr_emptyQuanta = 0, sr_quanta = 0,
      sr_data = replicate capacitySamples zero\<rparr>"

definition ring_capacity :: "'a ring \<Rightarrow> nat" where
  "ring_capacity r = length (sr_data r)"

definition available :: "'a ring \<Rightarrow> nat" where
  "available r = unat (sr_write r - sr_read r)"

definition snap_to_write :: "'a ring \<Rightarrow> 'a ring" where
  "snap_to_write r = r\<lparr>sr_read := sr_write r\<rparr>"

definition reset_dropped :: "'a ring \<Rightarrow> 'a ring" where
  "reset_dropped r = r\<lparr>sr_dropped := 0\<rparr>"

text \<open>\<open>xs\<close> written from index \<open>p\<close>; the part of the buffer \<open>read\<close> copies out.\<close>

definition blit :: "nat \<Rightarrow> 'a list \<Rightarrow> 'a list \<Rightarrow> 'a list" where
  "blit p xs d = take p d @ xs @ drop (p + length xs) d"

definition copy_in :: "32 word \<Rightarrow> 'a list \<Rightarrow> 'a list \<Rightarrow> 'a list" where
  "copy_in idx channel d =
     (let pos = unat idx mod length d;
          first = min (length channel) (length d - pos)
      in blit 0 (drop first channel) (blit pos (take first channel) d))"

definition copy_out :: "32 word \<Rightarrow> nat \<Rightarrow> 'a list \<Rightarrow> 'a list" where
  "copy_out idx n d =
     (let pos = unat idx mod length d;
          first = min n (length d - pos)
      in take first (drop pos d) @ take (n - first) d)"

definition read_ring :: "nat \<Rightarrow> 'a ring \<Rightarrow> 'a list \<times> 'a ring" where
  "read_ring mx r =
     (let n = min (available r) mx
      in if n = 0 then ([], r)
         else (copy_out (sr_read r) n (sr_data r), r\<lparr>sr_read := sr_read r + of_nat n\<rparr>))"

text \<open>\<open>process\<close> of the worklet.\<close>

definition ring_full :: "'a list \<Rightarrow> 'a ring \<Rightarrow> bool" where
  "ring_full channel r \<longleftrightarrow> available r + length channel > ring_capacity r"

definition capture_process :: "'a list \<Rightarrow> 'a ring \<Rightarrow> 'a ring" where
  "capture_process channel r =
     (if channel = [] then r\<lparr>sr_emptyQuanta := sr_emptyQuanta r + 1\<rparr>
      else if ring_full channel r then r\<lparr>sr_dropped := sr_dropped r + of_nat (length channel)\<rparr>
      else r\<lparr>sr_data := copy_in (sr_write r) channel (sr_data r),
             sr_write := sr_write r + of_nat (length channel), sr_quanta := sr_quanta r + 1\<rparr>)"

record ring_diagnostics =
  rd_depth :: nat
  rd_capacity :: nat
  rd_droppedSamples :: nat
  rd_emptyQuanta :: nat
  rd_quantaWritten :: nat

definition diagnostics :: "'a ring \<Rightarrow> ring_diagnostics" where
  "diagnostics r =
     \<lparr>rd_depth = available r, rd_capacity = ring_capacity r, rd_droppedSamples = unat (sr_dropped r),
      rd_emptyQuanta = unat (sr_emptyQuanta r), rd_quantaWritten = unat (sr_quanta r)\<rparr>"

definition decayed_peak :: "real \<Rightarrow> real list \<Rightarrow> real" where
  "decayed_peak previous slab = max (previous * (6 / 10)) (foldl (\<lambda>p v. if \<bar>v\<bar> > p then \<bar>v\<bar> else p) 0 slab)"

subsection \<open>Indices and copies\<close>

lemma slot_of_index:
  assumes "cap dvd 2 ^ 32 \<or> n < 2 ^ 32"
  shows "unat (of_nat n :: 32 word) mod cap = n mod cap"
  using assms by (auto simp: unat_of_nat mod_mod_cancel)

lemma word_diff_of_nat:
  assumes "m \<le> n" "n - m < 2 ^ 32"
  shows "unat (of_nat n - of_nat m :: 32 word) = n - m"
proof -
  have "(of_nat n - of_nat m :: 32 word) = of_nat (n - m)" using assms(1) by (simp add: of_nat_diff)
  then show ?thesis using assms(2) by (simp add: unat_of_nat)
qed

lemma length_blit [simp]: "p + length xs \<le> length d \<Longrightarrow> length (blit p xs d) = length d"
  by (simp add: blit_def)

lemma nth_blit:
  "p + length xs \<le> length d \<Longrightarrow> k < length d \<Longrightarrow>
     blit p xs d ! k = (if p \<le> k \<and> k < p + length xs then xs ! (k - p) else d ! k)"
  by (auto simp: blit_def nth_append)

lemma slot_add:
  fixes cap :: nat
  assumes "j < cap"
  shows "(l + j) mod cap = (if l mod cap + j < cap then l mod cap + j else l mod cap + j - cap)"
proof -
  have eq: "(l + j) mod cap = (l mod cap + j) mod cap" by (simp add: mod_add_left_eq)
  have lt: "l mod cap < cap" using assms by simp
  show ?thesis
  proof (cases "l mod cap + j < cap")
    case False
    have "l mod cap + j - cap < cap" using lt assms False by linarith
    then have "(l mod cap + j - cap) mod cap = l mod cap + j - cap" by (rule mod_less)
    with False show ?thesis by (simp add: eq le_mod_geq)
  qed (simp add: eq)
qed

lemma nth_two_blits:
  assumes "p < length d" "length ch \<le> length d" "k < length d" and f: "f = min (length ch) (length d - p)"
  shows "blit 0 (drop f ch) (blit p (take f ch) d) ! k
    = (if p \<le> k \<and> k < p + length ch then ch ! (k - p)
       else if k + length d < p + length ch then ch ! (k + length d - p) else d ! k)"
proof (cases "length ch \<le> length d - p")
  case True
  with f have "take f ch = ch" "drop f ch = []" by simp_all
  moreover have "\<not> k + length d < p + length ch" using True assms(1) by linarith
  ultimately show ?thesis using True assms(1,3) by (simp add: blit_def [of 0] nth_blit)
next
  case False
  with f have f': "f = length d - p" by simp
  have inner: "blit p (take f ch) d ! k = (if p \<le> k then ch ! (k - p) else d ! k)"
    using False assms(1,3) f' by (simp add: nth_blit)
  have outer: "blit 0 (drop f ch) (blit p (take f ch) d) ! k
      = (if k < length ch - f then ch ! (f + k) else blit p (take f ch) d ! k)"
    using False assms(1-3) f' by (subst nth_blit) simp_all
  have "f + k = k + length d - p" "k < length ch - f \<longleftrightarrow> k + length d < p + length ch"
    using f' assms(1) False by auto
  moreover have "\<not> p \<le> k" if "k + length d < p + length ch" using that assms(2) by simp
  moreover have "k < p + length ch" if "p \<le> k" using that assms(3) False by simp
  ultimately show ?thesis unfolding outer inner by auto
qed

lemma length_copy_in:
  assumes "length ch \<le> length d" "d \<noteq> []"
  shows "length (copy_in idx ch d) = length d"
proof -
  have "unat idx mod length d < length d" using assms(2) by simp
  then show ?thesis using assms(1) by (simp add: copy_in_def Let_def min_def)
qed

lemma nth_copy_in:
  assumes "d \<noteq> []" "length d dvd 2 ^ 32 \<or> l < 2 ^ 32" "length ch \<le> length d" "k < length d"
  shows "copy_in (of_nat l) ch d ! k
    = (if l mod length d \<le> k \<and> k < l mod length d + length ch then ch ! (k - l mod length d)
       else if k + length d < l mod length d + length ch then ch ! (k + length d - l mod length d) else d ! k)"
  unfolding copy_in_def Let_def slot_of_index [OF assms(2)]
  by (rule nth_two_blits) (use assms in simp_all)

text \<open>The samples just written, and those of the window before them.\<close>

lemma copy_in_new:
  assumes "d \<noteq> []" "length d dvd 2 ^ 32 \<or> l < 2 ^ 32" "length ch \<le> length d" "j < length ch"
  shows "copy_in (of_nat l) ch d ! ((l + j) mod length d) = ch ! j"
proof -
  have j: "j < length d" using assms(3,4) by simp
  have pos: "l mod length d < length d" using assms(1) by simp
  have "(l + j) mod length d < length d" using assms(1) by simp
  note nth = nth_copy_in [OF assms(1-3) this]
  show ?thesis unfolding nth using slot_add [OF j, of l] pos j assms(3,4) by (auto split: if_splits)
qed

lemma copy_in_old:
  assumes "d \<noteq> []" "length d dvd 2 ^ 32 \<or> l < 2 ^ 32" "i < l" "l + length ch \<le> i + length d"
  shows "copy_in (of_nat l) ch d ! (i mod length d) = d ! (i mod length d)"
proof -
  let ?cap = "length d"
  have pos: "l mod ?cap < ?cap" "i mod ?cap < ?cap" using assms(1) by simp_all
  have ch: "length ch \<le> ?cap" using assms(3,4) by simp
  have "l = i + (l - i)" "l - i \<le> ?cap" using assms(3,4) by simp_all
  then have l: "l mod ?cap = (if i mod ?cap + (l - i) < ?cap then i mod ?cap + (l - i) else i mod ?cap + (l - i) - ?cap)"
    if "l - i < ?cap" using slot_add [OF that, of i] by simp
  show ?thesis
  proof (cases "l - i < ?cap")
    case True
    then show ?thesis
      unfolding nth_copy_in [OF assms(1,2) ch pos(2)] using l [OF True] pos assms(3,4) by auto
  next
    case False
    then have "length ch = 0" using assms(3,4) by linarith
    then show ?thesis unfolding nth_copy_in [OF assms(1,2) ch pos(2)] using pos by auto
  qed
qed

lemma length_copy_out:
  assumes "n \<le> length d" "d \<noteq> []"
  shows "length (copy_out idx n d) = n"
proof -
  define pos where "pos = unat idx mod length d"
  have "pos < length d" using assms(2) by (simp add: pos_def)
  then show ?thesis
    using assms unfolding copy_out_def Let_def pos_def [symmetric] by (simp add: min_def) arith
qed

lemma nth_copy_out:
  assumes "d \<noteq> []" "length d dvd 2 ^ 32 \<or> l < 2 ^ 32" "n \<le> length d" "j < n"
  shows "copy_out (of_nat l) n d ! j = d ! ((l + j) mod length d)"
proof -
  have j: "j < length d" using assms(3,4) by simp
  have pos: "l mod length d < length d" using assms(1) by simp
  show ?thesis
    unfolding copy_out_def Let_def slot_of_index [OF assms(2)] slot_add [OF j]
    using pos j assms(3,4) by (auto simp: nth_append min_def add.commute)
qed

subsection \<open>The two sides at once\<close>

text \<open>
  The writer between its loads and its store: the quantum it will copy, and whether it has copied it.
  The reader between its loads and its store: the count it loaded, the slab once copied out, or
  the write index a snap has loaded. The last three fields are the history: every sample stored,
  the reader's absolute position, and the slabs delivered with the positions they start at.
\<close>

datatype 'a writer_pc = WIdle | WLoaded "32 word" "'a list" | WCopied "32 word" "'a list"
datatype 'a reader_pc = RIdle | RLoaded "32 word" nat | RCopied "32 word" "'a list" | RSnap "32 word"

record 'a ring_world =
  rw_ring :: "'a ring"
  rw_writer :: "'a writer_pc"
  rw_reader :: "'a reader_pc"
  rw_hist :: "'a list"
  rw_pos :: nat
  rw_out :: "(nat \<times> 'a list) list"

datatype 'a ring_event =
    Process "'a list"
  | WriterCopies
  | WriterStores
  | Read nat
  | ReaderCopies
  | ReaderStores
  | Snap
  | SnapStores
  | ResetDropped

definition writer_loads :: "'a list \<Rightarrow> 'a ring_world \<Rightarrow> 'a ring_world" where
  "writer_loads channel w =
     (let r = rw_ring w
      in if channel = [] then w\<lparr>rw_ring := r\<lparr>sr_emptyQuanta := sr_emptyQuanta r + 1\<rparr>\<rparr>
         else if ring_full channel r
         then w\<lparr>rw_ring := r\<lparr>sr_dropped := sr_dropped r + of_nat (length channel)\<rparr>\<rparr>
         else w\<lparr>rw_writer := WLoaded (sr_write r) channel\<rparr>)"

definition ring_step :: "'a ring_world \<Rightarrow> 'a ring_event \<Rightarrow> 'a ring_world" where
  "ring_step w ev =
     (let r = rw_ring w
      in case ev of
        Process channel \<Rightarrow> (case rw_writer w of WIdle \<Rightarrow> writer_loads channel w | _ \<Rightarrow> w)
      | WriterCopies \<Rightarrow>
          (case rw_writer w of
             WLoaded idx channel \<Rightarrow>
               w\<lparr>rw_ring := r\<lparr>sr_data := copy_in idx channel (sr_data r)\<rparr>, rw_writer := WCopied idx channel\<rparr>
           | _ \<Rightarrow> w)
      | WriterStores \<Rightarrow>
          (case rw_writer w of
             WCopied idx channel \<Rightarrow>
               w\<lparr>rw_ring := r\<lparr>sr_write := idx + of_nat (length channel), sr_quanta := sr_quanta r + 1\<rparr>,
                 rw_writer := WIdle, rw_hist := rw_hist w @ channel\<rparr>
           | _ \<Rightarrow> w)
      | Read mx \<Rightarrow>
          (case rw_reader w of
             RIdle \<Rightarrow> (let n = min (available r) mx in if n = 0 then w else w\<lparr>rw_reader := RLoaded (sr_read r) n\<rparr>)
           | _ \<Rightarrow> w)
      | ReaderCopies \<Rightarrow>
          (case rw_reader w of RLoaded idx n \<Rightarrow> w\<lparr>rw_reader := RCopied idx (copy_out idx n (sr_data r))\<rparr> | _ \<Rightarrow> w)
      | ReaderStores \<Rightarrow>
          (case rw_reader w of
             RCopied idx slab \<Rightarrow>
               w\<lparr>rw_ring := r\<lparr>sr_read := idx + of_nat (length slab)\<rparr>, rw_reader := RIdle,
                 rw_pos := rw_pos w + length slab, rw_out := rw_out w @ [(rw_pos w, slab)]\<rparr>
           | _ \<Rightarrow> w)
      | Snap \<Rightarrow> (case rw_reader w of RIdle \<Rightarrow> w\<lparr>rw_reader := RSnap (sr_write r)\<rparr> | _ \<Rightarrow> w)
      | SnapStores \<Rightarrow>
          (case rw_reader w of
             RSnap idx \<Rightarrow>
               w\<lparr>rw_ring := r\<lparr>sr_read := idx\<rparr>, rw_reader := RIdle,
                 rw_pos := rw_pos w + unat (idx - sr_read r)\<rparr>
           | _ \<Rightarrow> w)
      | ResetDropped \<Rightarrow> w\<lparr>rw_ring := reset_dropped r\<rparr>)"

text \<open>Uninterrupted, the pieces are the operations.\<close>

lemma process_in_pieces:
  "rw_writer w = WIdle \<Longrightarrow>
     rw_ring (run ring_step w [Process ch, WriterCopies, WriterStores]) = capture_process ch (rw_ring w)"
  by (simp add: ring_step_def writer_loads_def capture_process_def Let_def)

lemma read_in_pieces:
  "rw_reader w = RIdle \<Longrightarrow> available (rw_ring w) \<le> ring_capacity (rw_ring w) \<Longrightarrow> 0 < ring_capacity (rw_ring w) \<Longrightarrow>
     rw_ring (run ring_step w [Read mx, ReaderCopies, ReaderStores]) = snd (read_ring mx (rw_ring w))"
  by (simp add: ring_step_def read_ring_def Let_def length_copy_out ring_capacity_def)

lemma snap_in_pieces:
  "rw_reader w = RIdle \<Longrightarrow> rw_ring (run ring_step w [Snap, SnapStores]) = snap_to_write (rw_ring w)"
  by (simp add: ring_step_def snap_to_write_def Let_def)

text \<open>
  The indices count the history; every sample between the reader's position and the end of the
  history is in its slot, and the quantum being written does not reach that window.
\<close>

fun writer_ok :: "'a ring_world \<Rightarrow> 'a writer_pc \<Rightarrow> bool" where
  "writer_ok w WIdle = True"
| "writer_ok w (WLoaded idx ch) \<longleftrightarrow>
     idx = of_nat (length (rw_hist w)) \<and> length (rw_hist w) + length ch \<le> rw_pos w + ring_capacity (rw_ring w)"
| "writer_ok w (WCopied idx ch) \<longleftrightarrow>
     idx = of_nat (length (rw_hist w)) \<and> length (rw_hist w) + length ch \<le> rw_pos w + ring_capacity (rw_ring w)
   \<and> (\<forall>j < length ch. sr_data (rw_ring w) ! ((length (rw_hist w) + j) mod ring_capacity (rw_ring w)) = ch ! j)"

fun reader_ok :: "'a ring_world \<Rightarrow> 'a reader_pc \<Rightarrow> bool" where
  "reader_ok w RIdle = True"
| "reader_ok w (RLoaded idx n) \<longleftrightarrow> idx = of_nat (rw_pos w) \<and> rw_pos w + n \<le> length (rw_hist w)"
| "reader_ok w (RCopied idx slab) \<longleftrightarrow>
     idx = of_nat (rw_pos w) \<and> rw_pos w + length slab \<le> length (rw_hist w)
   \<and> slab = take (length slab) (drop (rw_pos w) (rw_hist w))"
| "reader_ok w (RSnap idx) \<longleftrightarrow> (\<exists>p. idx = of_nat p \<and> rw_pos w \<le> p \<and> p \<le> length (rw_hist w))"

definition out_ok :: "'a list \<Rightarrow> nat \<Rightarrow> nat \<times> 'a list \<Rightarrow> bool" where
  "out_ok hist pos = (\<lambda>(p, slab). p + length slab \<le> pos \<and> slab = take (length slab) (drop p hist))"

definition ring_inv :: "'a ring_world \<Rightarrow> bool" where
  "ring_inv w \<longleftrightarrow>
     sr_write (rw_ring w) = of_nat (length (rw_hist w)) \<and> sr_read (rw_ring w) = of_nat (rw_pos w)
   \<and> rw_pos w \<le> length (rw_hist w) \<and> length (rw_hist w) \<le> rw_pos w + ring_capacity (rw_ring w)
   \<and> (\<forall>i. rw_pos w \<le> i \<and> i < length (rw_hist w) \<longrightarrow>
        sr_data (rw_ring w) ! (i mod ring_capacity (rw_ring w)) = rw_hist w ! i)
   \<and> writer_ok w (rw_writer w) \<and> reader_ok w (rw_reader w)
   \<and> list_all (out_ok (rw_hist w) (rw_pos w)) (rw_out w)
   \<and> sorted_wrt (\<lambda>(p, slab) (q, _). p + length slab \<le> q) (rw_out w)"

text \<open>
  What the indices need to mean slots: a capacity that divides their range, or no more samples than fit the range. The
  second is the recorder's case, for a day of an open microphone.
\<close>

definition good_capacity :: "nat \<Rightarrow> nat \<Rightarrow> bool" where
  "good_capacity cap n \<longleftrightarrow> 0 < cap \<and> cap < 2 ^ 32 \<and> (cap dvd 2 ^ 32 \<or> n < 2 ^ 32)"

lemma good_capacity_mono: "good_capacity cap n \<Longrightarrow> m \<le> n \<Longrightarrow> good_capacity cap m"
  by (auto simp: good_capacity_def)

lemma available_inv:
  "ring_inv w \<Longrightarrow> good_capacity (ring_capacity (rw_ring w)) (length (rw_hist w)) \<Longrightarrow>
     available (rw_ring w) = length (rw_hist w) - rw_pos w"
  unfolding available_def ring_inv_def good_capacity_def
  using word_diff_of_nat [of "rw_pos w" "length (rw_hist w)"] by auto

lemma take_drop_extend: "p + n \<le> length h \<Longrightarrow> take n (drop p (h @ xs)) = take n (drop p h)"
  by simp

lemma out_ok_mono:
  "out_ok h pos o' \<Longrightarrow> pos \<le> length h \<Longrightarrow> pos \<le> pos' \<Longrightarrow> out_ok (h @ xs) pos' o'"
  unfolding out_ok_def by (cases o') auto

lemmas ring_step_simps = ring_step_def Let_def

text \<open>One step of either side keeps the invariant; the capacity never changes.\<close>

lemma ring_step_reader:
  assumes "ring_inv w" "good_capacity (ring_capacity (rw_ring w)) (length (rw_hist w))"
  shows "ring_inv (ring_step w ReaderStores)" "ring_inv (ring_step w SnapStores)"
    "ring_inv (ring_step w ReaderCopies)" "ring_inv (ring_step w (Read mx))" "ring_inv (ring_step w Snap)"
proof -
  note inv = assms(1) [unfolded ring_inv_def]
  show "ring_inv (ring_step w ReaderStores)"
  proof (cases "rw_reader w")
    case (RCopied idx slab)
    with inv have r: "idx = of_nat (rw_pos w)" "rw_pos w + length slab \<le> length (rw_hist w)"
      "slab = take (length slab) (drop (rw_pos w) (rw_hist w))" by auto
    have w': "ring_step w ReaderStores = w\<lparr>rw_ring := (rw_ring w)\<lparr>sr_read := of_nat (rw_pos w + length slab)\<rparr>,
        rw_reader := RIdle, rw_pos := rw_pos w + length slab, rw_out := rw_out w @ [(rw_pos w, slab)]\<rparr>"
      by (simp add: ring_step_simps RCopied r(1))
    have "writer_ok (ring_step w ReaderStores) (rw_writer w)"
      using inv unfolding w' by (cases "rw_writer w") (auto simp: ring_capacity_def)
    moreover have "list_all (out_ok (rw_hist w) (rw_pos w + length slab)) (rw_out w)"
      using inv by (auto simp: list_all_iff out_ok_def)
    moreover have "sorted_wrt (\<lambda>(p, slab) (q, _). p + length slab \<le> q) (rw_out w @ [(rw_pos w, slab)])"
      using inv by (auto simp: sorted_wrt_append list_all_iff out_ok_def)
    ultimately show ?thesis
      using inv r unfolding ring_inv_def w' by (auto simp: ring_capacity_def out_ok_def)
  qed (use assms(1) in \<open>simp_all add: ring_step_simps\<close>)
  show "ring_inv (ring_step w SnapStores)"
  proof (cases "rw_reader w")
    case (RSnap idx)
    with inv obtain p where p: "idx = of_nat p" "rw_pos w \<le> p" "p \<le> length (rw_hist w)" by auto
    have "p - rw_pos w < 2 ^ 32" using p inv assms(2) by (auto simp: good_capacity_def)
    then have d: "rw_pos w + unat (idx - sr_read (rw_ring w)) = p"
      using p inv word_diff_of_nat [of "rw_pos w" p] by simp
    have w': "ring_step w SnapStores = w\<lparr>rw_ring := (rw_ring w)\<lparr>sr_read := of_nat p\<rparr>, rw_reader := RIdle, rw_pos := p\<rparr>"
      using d p(1) by (simp add: ring_step_simps RSnap)
    have "writer_ok (ring_step w SnapStores) (rw_writer w)"
      using inv p unfolding w' by (cases "rw_writer w") (auto simp: ring_capacity_def)
    moreover have "list_all (out_ok (rw_hist w) p) (rw_out w)"
      using inv p(2) by (auto simp: list_all_iff out_ok_def)
    ultimately show ?thesis
      using inv p unfolding ring_inv_def w' by (auto simp: ring_capacity_def)
  qed (use assms(1) in \<open>simp_all add: ring_step_simps\<close>)
  show "ring_inv (ring_step w ReaderCopies)"
  proof (cases "rw_reader w")
    case (RLoaded idx n)
    with inv have r: "idx = of_nat (rw_pos w)" "rw_pos w + n \<le> length (rw_hist w)" by auto
    let ?d = "sr_data (rw_ring w)" and ?slab = "copy_out idx n (sr_data (rw_ring w))"
    have d: "?d \<noteq> []" "length ?d dvd 2 ^ 32 \<or> rw_pos w < 2 ^ 32" "n \<le> length ?d"
      using assms(2) r(2) inv by (auto simp: good_capacity_def ring_capacity_def)
    have len: "length ?slab = n" by (rule length_copy_out [OF d(3,1)])
    have "?slab = take n (drop (rw_pos w) (rw_hist w))"
    proof (rule nth_equalityI)
      fix j assume j: "j < length ?slab"
      then have "?slab ! j = ?d ! ((rw_pos w + j) mod length ?d)"
        using nth_copy_out [OF d] len unfolding r(1) by simp
      also have "\<dots> = rw_hist w ! (rw_pos w + j)"
        using inv j len r(2) by (simp add: ring_capacity_def)
      finally show "?slab ! j = take n (drop (rw_pos w) (rw_hist w)) ! j" using j len r(2) by simp
    qed (use len r(2) in simp)
    then show ?thesis
      using inv r len unfolding ring_inv_def by (cases "rw_writer w") (auto simp: ring_step_simps RLoaded)
  qed (use assms(1) in \<open>simp_all add: ring_step_simps\<close>)
  show "ring_inv (ring_step w (Read mx))"
  proof (cases "rw_reader w")
    case RIdle
    have "rw_pos w + min (available (rw_ring w)) mx \<le> length (rw_hist w)"
      using available_inv [OF assms] inv by (auto simp: min_def)
    then show ?thesis
      using inv unfolding ring_inv_def by (cases "rw_writer w") (auto simp: ring_step_simps RIdle Let_def)
  qed (use assms(1) in \<open>simp_all add: ring_step_simps\<close>)
  show "ring_inv (ring_step w Snap)"
  proof (cases "rw_reader w")
    case RIdle
    then show ?thesis
      using inv unfolding ring_inv_def by (cases "rw_writer w") (auto simp: ring_step_simps intro: exI [of _ "length (rw_hist w)"])
  qed (use assms(1) in \<open>simp_all add: ring_step_simps\<close>)
qed

lemma ring_step_writer:
  assumes "ring_inv w" "good_capacity (ring_capacity (rw_ring w)) (length (rw_hist w))"
  shows "ring_inv (ring_step w (Process ch))" "ring_inv (ring_step w WriterCopies)"
    "ring_inv (ring_step w WriterStores)" "ring_inv (ring_step w ResetDropped)"
proof -
  note inv = assms(1) [unfolded ring_inv_def]
  show "ring_inv (ring_step w (Process ch))"
  proof (cases "rw_writer w")
    case WIdle
    have "length (rw_hist w) + length ch \<le> rw_pos w + ring_capacity (rw_ring w)" if "\<not> ring_full ch (rw_ring w)"
      using that available_inv [OF assms] inv by (auto simp: ring_full_def)
    then show ?thesis
      using inv unfolding ring_inv_def
      by (cases "rw_reader w") (auto simp: ring_step_simps WIdle writer_loads_def Let_def ring_capacity_def)
  qed (use assms(1) in \<open>simp_all add: ring_step_simps\<close>)
  show "ring_inv (ring_step w WriterCopies)"
  proof (cases "rw_writer w")
    case (WLoaded idx ch')
    let ?d = "sr_data (rw_ring w)" and ?l = "length (rw_hist w)"
    from inv WLoaded have r: "idx = of_nat ?l" "?l + length ch' \<le> rw_pos w + length ?d"
      by (auto simp: ring_capacity_def)
    have d: "?d \<noteq> []" "length ?d dvd 2 ^ 32 \<or> ?l < 2 ^ 32" "length ch' \<le> length ?d"
      using assms(2) r(2) inv by (auto simp: good_capacity_def ring_capacity_def)
    have len: "length (copy_in idx ch' ?d) = length ?d" by (rule length_copy_in [OF d(3,1)])
    have new: "\<forall>j < length ch'. copy_in idx ch' ?d ! ((?l + j) mod length ?d) = ch' ! j"
      unfolding r(1) using copy_in_new [OF d] by blast
    have old: "\<forall>i. rw_pos w \<le> i \<and> i < ?l \<longrightarrow> copy_in idx ch' ?d ! (i mod length ?d) = rw_hist w ! i"
      using inv r(2) copy_in_old [OF d(1,2)] unfolding r(1) by (auto simp: ring_capacity_def)
    show ?thesis
      using inv r new old len unfolding ring_inv_def
      by (cases "rw_reader w") (auto simp: ring_step_simps WLoaded ring_capacity_def)
  qed (use assms(1) in \<open>simp_all add: ring_step_simps\<close>)
  show "ring_inv (ring_step w WriterStores)"
  proof (cases "rw_writer w")
    case (WCopied idx ch')
    let ?d = "sr_data (rw_ring w)" and ?l = "length (rw_hist w)"
    from inv WCopied have r: "idx = of_nat ?l" "?l + length ch' \<le> rw_pos w + ring_capacity (rw_ring w)"
      "\<forall>j < length ch'. ?d ! ((?l + j) mod ring_capacity (rw_ring w)) = ch' ! j" by auto
    have slots: "?d ! (i mod ring_capacity (rw_ring w)) = (rw_hist w @ ch') ! i"
      if "rw_pos w \<le> i" "i < ?l + length ch'" for i
      using inv that r(3) [rule_format, of "i - ?l"] by (cases "i < ?l") (auto simp: nth_append)
    have "reader_ok (ring_step w WriterStores) (rw_reader w)"
      using inv by (cases "rw_reader w") (auto simp: ring_step_simps WCopied intro: le_trans [OF _ le_add1])
    moreover have "list_all (out_ok (rw_hist w @ ch') (rw_pos w)) (rw_out w)"
      using inv out_ok_mono [of "rw_hist w" "rw_pos w" _ "rw_pos w" ch'] by (auto simp: list_all_iff)
    ultimately show ?thesis
      using inv r slots unfolding ring_inv_def by (auto simp: ring_step_simps WCopied ring_capacity_def)
  qed (use assms(1) in \<open>simp_all add: ring_step_simps\<close>)
  show "ring_inv (ring_step w ResetDropped)"
    using inv unfolding ring_inv_def
    by (cases "rw_reader w"; cases "rw_writer w") (auto simp: ring_step_simps reset_dropped_def ring_capacity_def)
qed

lemma ring_step_capacity:
  assumes "ring_inv w" "good_capacity (ring_capacity (rw_ring w)) (length (rw_hist w))"
  shows "ring_capacity (rw_ring (ring_step w ev)) = ring_capacity (rw_ring w)"
proof (cases ev)
  case WriterCopies
  show ?thesis
  proof (cases "rw_writer w")
    case (WLoaded idx ch)
    with assms have "length ch \<le> ring_capacity (rw_ring w)" "sr_data (rw_ring w) \<noteq> []"
      by (auto simp: ring_inv_def good_capacity_def ring_capacity_def)
    then show ?thesis by (simp add: WriterCopies ring_step_simps WLoaded ring_capacity_def length_copy_in)
  qed (simp_all add: WriterCopies ring_step_simps)
qed (auto simp: ring_step_simps writer_loads_def reset_dropped_def ring_capacity_def Let_def
      split: writer_pc.split reader_pc.split)

definition ring_ok :: "'a ring_world \<Rightarrow> bool" where
  "ring_ok w \<longleftrightarrow> ring_inv w \<and> good_capacity (ring_capacity (rw_ring w)) (length (rw_hist w))"

definition ring_room :: "'a ring_world \<Rightarrow> 'a ring_event \<Rightarrow> bool" where
  "ring_room w ev \<longleftrightarrow> good_capacity (ring_capacity (rw_ring w)) (length (rw_hist (ring_step w ev)))"

interpretation ring_machine: guarded_machine ring_step ring_ok ring_room
proof
  fix w :: "'a ring_world" and ev
  assume "ring_ok w" "ring_room w ev"
  then show "ring_ok (ring_step w ev)"
    using ring_step_reader [of w] ring_step_writer [of w] ring_step_capacity [of w ev]
    by (cases ev) (simp_all add: ring_ok_def ring_room_def)
qed

lemma hist_grows: "length (rw_hist w) \<le> length (rw_hist (run ring_step w evs))"
proof (induction evs arbitrary: w)
  case (Cons ev evs)
  have "length (rw_hist w) \<le> length (rw_hist (ring_step w ev))"
    by (auto simp: ring_step_simps writer_loads_def split: ring_event.split writer_pc.split reader_pc.split)
  with Cons.IH [of "ring_step w ev"] show ?case by simp
qed simp

lemma ring_run_legal:
  assumes "ring_ok w" "good_capacity (ring_capacity (rw_ring w)) (length (rw_hist (run ring_step w evs)))"
  shows "legal ring_step ring_room w evs \<and> ring_capacity (rw_ring (run ring_step w evs)) = ring_capacity (rw_ring w)"
  using assms
proof (induction evs arbitrary: w)
  case (Cons ev evs)
  have cap: "ring_capacity (rw_ring (ring_step w ev)) = ring_capacity (rw_ring w)"
    using ring_step_capacity [of w ev] Cons.prems(1) by (simp add: ring_ok_def)
  have room: "ring_room w ev"
    unfolding ring_room_def using Cons.prems(2) hist_grows [of "ring_step w ev" evs] by (auto intro: good_capacity_mono)
  have "ring_ok (ring_step w ev)" by (rule ring_machine.guarded_step [OF Cons.prems(1) room])
  from Cons.IH [OF this] Cons.prems(2) cap room show ?case by simp
qed simp

subsection \<open>What the encoder receives\<close>

definition ring_start :: "'a \<Rightarrow> nat \<Rightarrow> 'a ring_world" where
  "ring_start zero cap =
     \<lparr>rw_ring = create_capture_ring zero cap, rw_writer = WIdle, rw_reader = RIdle, rw_hist = [], rw_pos = 0,
      rw_out = []\<rparr>"

lemma ring_start_ok: "good_capacity cap n \<Longrightarrow> ring_ok (ring_start zero cap)"
  by (simp add: ring_ok_def ring_inv_def ring_start_def create_capture_ring_def ring_capacity_def good_capacity_def)

text \<open>Without snaps the slabs follow each other from the first sample on.\<close>

definition gapless :: "'a ring_world \<Rightarrow> bool" where
  "gapless w \<longleftrightarrow> ring_ok w \<and> (\<forall>idx. rw_reader w \<noteq> RSnap idx)
     \<and> concat (map snd (rw_out w)) = take (rw_pos w) (rw_hist w)"

interpretation gapless_machine: guarded_machine ring_step gapless "\<lambda>w ev. ring_room w ev \<and> ev \<noteq> Snap"
proof
  fix w :: "'a ring_world" and ev :: "'a ring_event"
  assume g: "gapless w" and "ring_room w ev \<and> ev \<noteq> Snap"
  then have ok: "ring_ok (ring_step w ev)" and ev: "ev \<noteq> Snap"
    using ring_machine.guarded_step [of w ev] by (simp_all add: gapless_def)
  have le: "rw_pos w \<le> length (rw_hist w)" using g by (simp add: gapless_def ring_ok_def ring_inv_def)
  have "concat (map snd (rw_out (ring_step w ev))) = take (rw_pos (ring_step w ev)) (rw_hist (ring_step w ev))
      \<and> (\<forall>idx. rw_reader (ring_step w ev) \<noteq> RSnap idx)"
  proof (cases "ev = ReaderStores \<and> (\<exists>idx slab. rw_reader w = RCopied idx slab)")
    case True
    then obtain idx slab where r: "ev = ReaderStores" "rw_reader w = RCopied idx slab" by blast
    with g have "slab = take (length slab) (drop (rw_pos w) (rw_hist w))"
      by (simp add: gapless_def ring_ok_def ring_inv_def)
    then have "take (rw_pos w + length slab) (rw_hist w) = take (rw_pos w) (rw_hist w) @ slab"
      by (simp add: take_add)
    with r g show ?thesis by (simp add: gapless_def ring_step_simps)
  qed (use g ev le in \<open>auto simp: gapless_def ring_step_simps writer_loads_def split: ring_event.split writer_pc.split reader_pc.split\<close>)
  with ok show "gapless (ring_step w ev)" by (simp add: gapless_def)
qed

text \<open>From a snap on: \<open>h\<close> samples were accepted and \<open>k\<close> slabs delivered when it loaded the write index.\<close>

definition snapped :: "nat \<Rightarrow> nat \<Rightarrow> 'a ring_world \<Rightarrow> bool" where
  "snapped h k w \<longleftrightarrow> ring_ok w \<and> h \<le> length (rw_hist w) \<and> k \<le> length (rw_out w)
     \<and> (case rw_reader w of
          RSnap idx \<Rightarrow> idx = of_nat h \<and> rw_pos w \<le> h \<and> length (rw_out w) = k
        | _ \<Rightarrow> h \<le> rw_pos w
            \<and> concat (map snd (drop k (rw_out w))) = take (rw_pos w - h) (drop h (rw_hist w)))"

lemma snapped_starts:
  assumes "ring_ok w" "rw_reader w = RIdle"
  shows "snapped (length (rw_hist w)) (length (rw_out w)) (ring_step w Snap)"
proof -
  have "ring_room w Snap" using assms by (simp add: ring_room_def ring_ok_def ring_step_simps)
  then have "ring_ok (ring_step w Snap)" by (rule ring_machine.guarded_step [OF assms(1)])
  moreover have "rw_pos w \<le> length (rw_hist w)" "sr_write (rw_ring w) = of_nat (length (rw_hist w))"
    using assms(1) by (simp_all add: ring_ok_def ring_inv_def)
  ultimately show ?thesis
    using assms(2) by (simp add: snapped_def ring_step_simps)
qed

lemma snapped_slab:
  assumes "snapped h k w" "rw_reader w = RCopied idx slab"
  shows "snapped h k (ring_step w ReaderStores)"
proof -
  have ok: "ring_ok w" and h: "h \<le> rw_pos w" "k \<le> length (rw_out w)"
    and so_far: "concat (map snd (drop k (rw_out w))) = take (rw_pos w - h) (drop h (rw_hist w))"
    using assms by (simp_all add: snapped_def)
  from ok assms(2) have slab: "slab = take (length slab) (drop (rw_pos w) (rw_hist w))"
    by (simp add: ring_ok_def ring_inv_def)
  have "ring_room w ReaderStores" using ok assms(2) by (simp add: ring_room_def ring_ok_def ring_step_simps)
  then have ok': "ring_ok (ring_step w ReaderStores)" by (rule ring_machine.guarded_step [OF ok])
  have "take (rw_pos w - h + length slab) (drop h (rw_hist w))
      = take (rw_pos w - h) (drop h (rw_hist w)) @ take (length slab) (drop (rw_pos w) (rw_hist w))"
    using h(1) by (simp only: take_add drop_drop) simp
  then have "take (rw_pos w + length slab - h) (drop h (rw_hist w)) = take (rw_pos w - h) (drop h (rw_hist w)) @ slab"
    using h(1) slab by simp
  with ok' so_far h assms show ?thesis
    by (simp add: snapped_def ring_step_simps)
qed

lemma snapped_lands:
  assumes "snapped h k w" "rw_reader w = RSnap idx"
  shows "snapped h k (ring_step w SnapStores)"
proof -
  have ok: "ring_ok w" and h: "h \<le> length (rw_hist w)" "idx = of_nat h" "rw_pos w \<le> h" "length (rw_out w) = k"
    using assms by (simp_all add: snapped_def)
  have "ring_room w SnapStores" using ok assms(2) by (simp add: ring_room_def ring_ok_def ring_step_simps)
  then have ok': "ring_ok (ring_step w SnapStores)" by (rule ring_machine.guarded_step [OF ok])
  have "h - rw_pos w < 2 ^ 32"
    using ok h(1,3) by (auto simp: ring_ok_def ring_inv_def good_capacity_def)
  then have "rw_pos w + unat (idx - sr_read (rw_ring w)) = h"
    using word_diff_of_nat [OF h(3)] h(2,3) ok by (simp add: ring_ok_def ring_inv_def)
  with ok' h show ?thesis
    using assms(2) by (simp add: snapped_def ring_step_simps)
qed

lemma snapped_step:
  assumes "snapped h k w" "ring_room w ev" "ev \<noteq> Snap"
  shows "snapped h k (ring_step w ev)"
proof (cases "ev = ReaderStores \<or> ev = SnapStores")
  case True
  with snapped_slab [OF assms(1)] snapped_lands [OF assms(1)] assms(1) show ?thesis
    by (cases "rw_reader w") (auto simp: ring_step_simps)
next
  case False
  have "ring_ok (ring_step w ev)"
    using assms(1,2) by (intro ring_machine.guarded_step) (simp_all add: snapped_def)
  moreover have "rw_pos w \<le> length (rw_hist w)"
    using assms(1) by (simp add: snapped_def ring_ok_def ring_inv_def)
  ultimately show ?thesis
    using False assms unfolding snapped_def
    by (cases "rw_reader w"; cases ev)
      (auto simp: ring_step_simps writer_loads_def split: writer_pc.split)
qed

interpretation snapped_machine: guarded_machine ring_step "snapped h k" "\<lambda>w ev. ring_room w ev \<and> ev \<noteq> Snap"
  for h k :: nat
  by unfold_locales (blast intro: snapped_step)

lemma legal_no_snap:
  "legal ring_step ring_room w evs \<Longrightarrow> Snap \<notin> set evs \<Longrightarrow> legal ring_step (\<lambda>w ev. ring_room w ev \<and> ev \<noteq> Snap) w evs"
  by (induction evs arbitrary: w) auto

lemma since_snap:
  assumes "ring_ok w" "rw_reader w = RIdle" "legal ring_step ring_room w (Snap # later)" "Snap \<notin> set later"
  shows "snapped (length (rw_hist w)) (length (rw_out w)) (run ring_step w (Snap # later))"
  using snapped_machine.run_guarded [OF snapped_starts [OF assms(1,2)], of later] legal_no_snap [of "ring_step w Snap" later] assms(3,4) by simp

text \<open>C21. The ring is a lossless queue between the audio thread and the encoder, for every capacity that divides the
  index range, and for any other as long as fewer than 2^32 samples were accepted: whichever way their loads, copies and
  stores interleave, every slab the encoder receives is a run of consecutive accepted samples, slabs never overlap or go
  back, and while nothing is snapped they join into an exact prefix of the accepted samples. From a snap on, once it has
  landed and while no other follows, they join into exactly the samples accepted since the snap looked, none of those
  before it; and a snap nothing interrupts is \<open>snapToWrite\<close>.\<close>

theorem ring_delivers_stream:
  assumes "good_capacity cap (length (rw_hist (run ring_step (ring_start zero cap) evs)))"
  shows "(\<forall>(p, slab) \<in> set (rw_out (run ring_step (ring_start zero cap) evs)).
        slab = take (length slab) (drop p (rw_hist (run ring_step (ring_start zero cap) evs))))
    \<and> sorted_wrt (\<lambda>(p, slab) (q, _). p + length slab \<le> q) (rw_out (run ring_step (ring_start zero cap) evs))
    \<and> length (rw_hist (run ring_step (ring_start zero cap) evs))
        \<le> rw_pos (run ring_step (ring_start zero cap) evs) + cap
    \<and> (Snap \<notin> set evs \<longrightarrow>
        concat (map snd (rw_out (run ring_step (ring_start zero cap) evs)))
          = take (rw_pos (run ring_step (ring_start zero cap) evs)) (rw_hist (run ring_step (ring_start zero cap) evs)))
    \<and> (\<forall>before later. evs = before @ Snap # later \<longrightarrow> Snap \<notin> set later
        \<longrightarrow> rw_reader (run ring_step (ring_start zero cap) before) = RIdle
        \<longrightarrow> (\<forall>idx. rw_reader (run ring_step (ring_start zero cap) evs) \<noteq> RSnap idx)
        \<longrightarrow> (let at_snap = run ring_step (ring_start zero cap) before; w = run ring_step (ring_start zero cap) evs
            in length (rw_hist at_snap) \<le> rw_pos w
             \<and> concat (map snd (drop (length (rw_out at_snap)) (rw_out w)))
                = take (rw_pos w - length (rw_hist at_snap)) (drop (length (rw_hist at_snap)) (rw_hist w))))
    \<and> (rw_reader (run ring_step (ring_start zero cap) evs) = RIdle \<longrightarrow>
        rw_ring (run ring_step (run ring_step (ring_start zero cap) evs) [Snap, SnapStores])
          = snap_to_write (rw_ring (run ring_step (ring_start zero cap) evs)))"
proof -
  let ?run = "run ring_step (ring_start zero cap)"
  let ?w = "?run evs"
  have start: "ring_ok (ring_start zero cap)" "ring_capacity (rw_ring (ring_start zero cap)) = cap"
    using ring_start_ok [OF assms] by (simp_all add: ring_start_def create_capture_ring_def ring_capacity_def)
  have legal: "legal ring_step ring_room (ring_start zero cap) evs" and cap: "ring_capacity (rw_ring ?w) = cap"
    using ring_run_legal [OF start(1), of evs] start(2) assms by simp_all
  have ok: "ring_ok ?w" by (rule ring_machine.run_guarded [OF start(1) legal])
  have "gapless (ring_start zero cap)" using start(1) by (simp add: gapless_def ring_start_def)
  then have joined: "gapless ?w" if "Snap \<notin> set evs"
    using gapless_machine.run_guarded legal_no_snap [OF legal] that by blast
  have since: "snapped (length (rw_hist (?run before))) (length (rw_out (?run before))) ?w"
    if "evs = before @ Snap # later" "Snap \<notin> set later" "rw_reader (?run before) = RIdle" for before later
  proof -
    have "legal ring_step ring_room (ring_start zero cap) before"
      and rest: "legal ring_step ring_room (?run before) (Snap # later)"
      using legal unfolding that(1) legal_append by simp_all
    then have "ring_ok (?run before)" using ring_machine.run_guarded [OF start(1)] by simp
    from since_snap [OF this that(3) rest that(2)] show ?thesis unfolding that(1) run_append .
  qed
  have "let at_snap = ?run before
      in length (rw_hist at_snap) \<le> rw_pos ?w
       \<and> concat (map snd (drop (length (rw_out at_snap)) (rw_out ?w)))
          = take (rw_pos ?w - length (rw_hist at_snap)) (drop (length (rw_hist at_snap)) (rw_hist ?w))"
    if "evs = before @ Snap # later" "Snap \<notin> set later" "rw_reader (?run before) = RIdle"
      "\<forall>idx. rw_reader ?w \<noteq> RSnap idx" for before later
    using since [OF that(1-3)] that(4) by (cases "rw_reader ?w") (simp_all add: snapped_def Let_def)
  with ok cap joined snap_in_pieces [of ?w] show ?thesis
    by (auto simp: ring_ok_def ring_inv_def list_all_iff out_ok_def gapless_def Let_def)
qed

definition sample_ring_run :: "nat ring_event list" where
  "sample_ring_run =
     [Process [1, 2, 3], WriterCopies, Read 5, WriterStores, Process [4, 5], Read 2, ReaderCopies, WriterCopies,
      ReaderStores, WriterStores]"

text \<open>A snap while the next quantum is being written, then a read: the sample left in the ring is gone.\<close>

definition after_snap :: "nat ring_event list" where
  "after_snap = [Process [6], WriterCopies, SnapStores, WriterStores, Read 5, ReaderCopies, ReaderStores]"

lemmas sample_ring_eval = sample_ring_run_def after_snap_def ring_step_simps ring_start_def create_capture_ring_def
  writer_loads_def ring_full_def available_def ring_capacity_def copy_out_def copy_in_def blit_def

lemma sample_ring_facts:
  "length (rw_hist (run ring_step (ring_start 0 5) (sample_ring_run @ Snap # after_snap))) = 6"
  "rw_reader (run ring_step (ring_start 0 5) (sample_ring_run @ Snap # after_snap)) = RIdle"
  "rw_reader (run ring_step (ring_start 0 5) sample_ring_run) = RIdle"
  "length (rw_hist (run ring_step (ring_start 0 5) sample_ring_run)) = 5"
  "length (rw_out (run ring_step (ring_start 0 5) sample_ring_run)) = 1"
  by (simp_all add: sample_ring_eval)

theorem ring_delivers_stream_witness:
  "let w = run ring_step (ring_start 0 5) (sample_ring_run @ Snap # after_snap)
   in concat (map snd (drop 1 (rw_out w))) = take (rw_pos w - 5) (drop 5 (rw_hist w))"
proof -
  have "good_capacity 5 (length (rw_hist (run ring_step (ring_start 0 5) (sample_ring_run @ Snap # after_snap))))"
    unfolding sample_ring_facts by (simp add: good_capacity_def)
  from ring_delivers_stream [OF this] have
    "\<forall>before later. sample_ring_run @ Snap # after_snap = before @ Snap # later \<longrightarrow> Snap \<notin> set later
        \<longrightarrow> rw_reader (run ring_step (ring_start 0 5) before) = RIdle
        \<longrightarrow> (\<forall>idx. rw_reader (run ring_step (ring_start 0 5) (sample_ring_run @ Snap # after_snap)) \<noteq> RSnap idx)
        \<longrightarrow> (let at_snap = run ring_step (ring_start 0 5) before;
                w = run ring_step (ring_start 0 5) (sample_ring_run @ Snap # after_snap)
            in length (rw_hist at_snap) \<le> rw_pos w
             \<and> concat (map snd (drop (length (rw_out at_snap)) (rw_out w)))
                = take (rw_pos w - length (rw_hist at_snap)) (drop (length (rw_hist at_snap)) (rw_hist w)))"
    by blast
  note since = this [rule_format, OF refl]
  have "rw_reader (run ring_step (ring_start 0 5) (sample_ring_run @ Snap # after_snap)) \<noteq> RSnap idx" for idx
    unfolding sample_ring_facts(2) by simp
  moreover have "Snap \<notin> set after_snap" by (simp add: after_snap_def)
  ultimately show ?thesis
    using since [OF _ sample_ring_facts(3)] unfolding Let_def sample_ring_facts(4,5) by blast
qed

text \<open>A capacity that does not divide the index range breaks the queue when the write index wraps,
  after 2^32 samples: the writer's slots jump while the reader's window runs on, and a sample just
  accepted is read as whatever its neighbour slot held. The recorder asks for eight seconds (384000
  slots at 48 kHz), so this happens a day into an open microphone.\<close>

theorem ring_breaks_at_wrap:
  assumes "sr_write r = - 1" and "sr_read r = - 1" and "cap = length (sr_data r)" and "cap < 2 ^ 32"
    and "2 \<le> (2 ^ 32 - 1) mod cap" and "(2 ^ 32 - 1) mod cap + 3 \<le> cap"
  shows "fst (read_ring 3 (capture_process [z] (capture_process [x, y] r)))
    = [x, y, sr_data r ! ((2 ^ 32 - 1) mod cap + 2)]"
proof -
  let ?p = "(2 ^ 32 - 1) mod cap" and ?d = "sr_data r"
  have "unat (- 1 :: 32 word) = 2 ^ 32 - 1" by (simp add: unsigned_minus_1_eq_mask mask_eq_exp_minus_1)
  then have idx: "unat (- 1 :: 32 word) mod length ?d = ?p" by (simp add: assms(3))
  let ?d1 = "take ?p ?d @ [x, y] @ drop (?p + 2) ?d"
  have len1: "length ?d1 = cap" using assms(3,6) by simp
  have "copy_in (- 1) [x, y] ?d = ?d1"
    unfolding copy_in_def Let_def idx using assms(3,6) by (simp add: blit_def)
  then have r1: "capture_process [x, y] r = r\<lparr>sr_data := ?d1, sr_write := 1, sr_quanta := sr_quanta r + 1\<rparr>"
    using assms by (simp add: capture_process_def ring_full_def available_def ring_capacity_def)
  let ?d2 = "blit 1 [z] ?d1"
  have len2: "length ?d2 = cap" using len1 assms(6) by simp
  have "copy_in 1 [z] ?d1 = ?d2"
    unfolding copy_in_def Let_def len1 using assms(6) by (simp add: blit_def [of 0])
  then have r2: "capture_process [z] (capture_process [x, y] r)
      = r\<lparr>sr_data := ?d2, sr_write := 2, sr_quanta := sr_quanta r + 2\<rparr>"
    unfolding r1 using assms len1 by (simp add: capture_process_def ring_full_def available_def ring_capacity_def)
  have "fst (read_ring 3 (r\<lparr>sr_data := ?d2, sr_write := 2, sr_quanta := sr_quanta r + 2\<rparr>)) = copy_out (- 1) 3 ?d2"
    by (simp add: read_ring_def available_def assms(2) Let_def)
  also have "\<dots> = take 3 (drop ?p ?d2)"
    unfolding copy_out_def Let_def len2 using idx assms(3,6) by simp
  also have "\<dots> = [x, y, ?d ! (?p + 2)]"
  proof (rule nth_equalityI)
    fix i assume "i < length (take 3 (drop ?p ?d2))"
    then have i: "i < 3" by simp
    then have "take 3 (drop ?p ?d2) ! i = ?d1 ! (?p + i)"
      using len1 len2 assms(5,6) by (simp add: nth_blit)
    also have "\<dots> = [x, y, ?d ! (?p + 2)] ! i"
      using i assms(3,6) by (auto simp: nth_append less_Suc_eq numeral_3_eq_3)
    finally show "take 3 (drop ?p ?d2) ! i = [x, y, ?d ! (?p + 2)] ! i" .
  qed (use len2 assms(6) in simp)
  finally show ?thesis unfolding r2 .
qed

theorem ring_breaks_at_wrap_witness:
  "fst (read_ring 3 (capture_process [7] (capture_process [5, 6]
     ((create_capture_ring (0 :: nat) 384000)\<lparr>sr_write := - 1, sr_read := - 1\<rparr>)))) = [5, 6, 0]"
  using ring_breaks_at_wrap [of "(create_capture_ring (0 :: nat) 384000)\<lparr>sr_write := - 1, sr_read := - 1\<rparr>" 384000 7 5 6]
  by (simp add: create_capture_ring_def)

end
