(* ===== verification/Json_Store.thy ===== *)
theory Json_Store
  imports Prelude
begin

text \<open>
  JSON values, and the browser's key-value storage the desk shadows its state in
  (\<open>localStorage\<close>, passed to the store functions as \<open>KVStore\<close>). \<open>JSON.stringify\<close> and \<open>JSON.parse\<close>
  are parameters of the functions that use them; what they rely on is \<open>json_codec\<close>. JSON text has no
  NaN and no infinity; a literal too large for a double, which parses as Infinity, is left out.
\<close>

datatype json =
    JNull
  | JBool bool
  | JNum real
  | JStr string
  | JArr "json list"
  | JObj "(string \<times> json) list"

text \<open>Property access on a parsed value: \<open>undefined\<close> is \<open>None\<close>; on a value that is no object too.\<close>

fun json_field :: "json \<Rightarrow> string \<Rightarrow> json option" where
  "json_field (JObj fields) k = map_of fields k"
| "json_field _ k = None"

fun json_num :: "json option \<Rightarrow> real option" where
  "json_num (Some (JNum x)) = Some x"
| "json_num _ = None"

fun json_str :: "json option \<Rightarrow> string option" where
  "json_str (Some (JStr s)) = Some s"
| "json_str _ = None"

fun json_arr :: "json option \<Rightarrow> json list option" where
  "json_arr (Some (JArr xs)) = Some xs"
| "json_arr _ = None"

fun json_bool :: "json option \<Rightarrow> bool option" where
  "json_bool (Some (JBool b)) = Some b"
| "json_bool _ = None"

text \<open>What parsing gives back of what stringifying wrote.\<close>

definition json_codec :: "(json \<Rightarrow> 't) \<Rightarrow> ('t \<Rightarrow> json option) \<Rightarrow> bool" where
  "json_codec stringify parse \<longleftrightarrow> (\<forall>j. parse (stringify j) = Some j)"

lemma json_codecD: "json_codec stringify parse \<Longrightarrow> parse (stringify j) = Some j"
  by (simp add: json_codec_def)

lemma json_codec_id: "json_codec (\<lambda>j. j) Some"
  by (simp add: json_codec_def)

text \<open>
  A store: \<open>None\<close> for no storage at all; a denied store throws on access, a full one on writing, and
  every caller swallows the throw.
\<close>

record 't kv_store =
  kv_items :: "(string, 't) jsmap"
  kv_denied :: bool
  kv_full :: bool

definition kv_get :: "'t kv_store option \<Rightarrow> string \<Rightarrow> 't option" where
  "kv_get store key =
     (case store of None \<Rightarrow> None
      | Some s \<Rightarrow> if kv_denied s then None else jm_get (kv_items s) key)"

definition kv_set :: "'t kv_store option \<Rightarrow> string \<Rightarrow> 't \<Rightarrow> 't kv_store option" where
  "kv_set store key v =
     (case store of None \<Rightarrow> None
      | Some s \<Rightarrow> if kv_denied s \<or> kv_full s then store else Some (s\<lparr>kv_items := jm_set key v (kv_items s)\<rparr>))"

definition kv_remove :: "'t kv_store option \<Rightarrow> string \<Rightarrow> 't kv_store option" where
  "kv_remove store key =
     (case store of None \<Rightarrow> None
      | Some s \<Rightarrow> if kv_denied s then store else Some (s\<lparr>kv_items := jm_delete key (kv_items s)\<rparr>))"

definition kv_works :: "'t kv_store option \<Rightarrow> bool" where
  "kv_works store \<longleftrightarrow> (case store of None \<Rightarrow> False | Some s \<Rightarrow> \<not> kv_denied s \<and> \<not> kv_full s)"

lemma kv_get_set: "kv_works store \<Longrightarrow> kv_get (kv_set store key v) key' = (if key' = key then Some v else kv_get store key')"
  by (auto simp: kv_works_def kv_get_def kv_set_def jm_get_set split: option.splits)

lemma kv_get_remove: "kv_works store \<Longrightarrow> kv_get (kv_remove store key) key' = (if key' = key then None else kv_get store key')"
  by (auto simp: kv_works_def kv_get_def kv_remove_def jm_get_delete split: option.splits)

definition fresh_store :: "'t kv_store option" where
  "fresh_store = Some \<lparr>kv_items = [], kv_denied = False, kv_full = False\<rparr>"

lemma fresh_store_works [simp]: "kv_works fresh_store"
  by (simp add: kv_works_def fresh_store_def)

end
