(* ===== verification/Midi.thy ===== *)
theory Midi
  imports Json_Store Timeline_Math
begin

text \<open>
  MIDI capture: \<open>apps/web/src/routes/desk/midi.ts\<close> (messages, lanes, the storage codec),
  \<open>midi-jsonl.ts\<close> (the line format) and \<open>midi-file.ts\<close> (the Standard MIDI File writer). Numbers of a
  message are integers; times are reals.
\<close>

subsection \<open>Messages\<close>

record midi_event =
  me_atSec :: real
  me_status :: nat
  me_data1 :: nat
  me_data2 :: nat

text \<open>\<open>status & 0xf0\<close> and \<open>status & 0x0f\<close>.\<close>

definition midi_kind :: "nat \<Rightarrow> nat" where "midi_kind status = (status div 16 mod 16) * 16"
definition midi_channel :: "nat \<Rightarrow> nat" where "midi_channel status = status mod 16"

definition captured_kinds :: "nat set" where
  "captured_kinds = {128, 144, 176, 192, 224}"

definition midi_data_bytes :: "nat \<Rightarrow> nat" where
  "midi_data_bytes status = (if midi_kind status = 192 then 1 else 2)"

definition midi_event_cap :: nat where "midi_event_cap = 50000"

definition normalize_midi_message :: "nat list option \<Rightarrow> (nat \<times> nat \<times> nat) option" where
  "normalize_midi_message data =
     (case data of
        None \<Rightarrow> None
      | Some d \<Rightarrow>
          if length d < 2 then None
          else let status = d ! 0
               in if midi_kind status \<notin> captured_kinds then None
                  else if length d \<noteq> 1 + midi_data_bytes status then None
                  else let data1 = d ! 1;
                           data2 = (if midi_data_bytes status = 2 then d ! 2 else 0)
                       in if data1 > 127 \<or> data2 > 127 then None else Some (status, data1, data2))"

definition take_relative_seconds :: "real \<Rightarrow> real \<Rightarrow> real" where
  "take_relative_seconds timeStampMs anchorMs = max 0 ((timeStampMs - anchorMs) / 1000)"

definition append_midi_event :: "midi_event list \<Rightarrow> midi_event \<Rightarrow> nat option \<Rightarrow> bool \<times> midi_event list" where
  "append_midi_event events event cap =
     (case cap of
        Some c \<Rightarrow> if c \<le> length events then (False, events) else (True, events @ [event])
      | None \<Rightarrow> (True, events @ [event]))"

definition sort_midi_events :: "midi_event list \<Rightarrow> midi_event list" where
  "sort_midi_events events = js_sort (by_key me_atSec) events"

subsection \<open>Note spans\<close>

record note_span =
  ns_note :: nat
  ns_channel :: nat
  ns_startSec :: real
  ns_endSec :: "real option"

text \<open>The spans so far and, per key, the place of its open span among them.\<close>

definition span_step :: "note_span list \<times> (nat, nat) jsmap \<Rightarrow> midi_event \<Rightarrow> note_span list \<times> (nat, nat) jsmap" where
  "span_step = (\<lambda>(spans, opened) e.
     let kind = midi_kind (me_status e)
     in if kind \<noteq> 128 \<and> kind \<noteq> 144 then (spans, opened)
        else let key = midi_channel (me_status e) * 128 + me_data1 e;
                 isOff = (kind = 128 \<or> me_data2 e = 0);
                 (spans, opened) =
                   (case jm_get opened key of
                      None \<Rightarrow> (spans, opened)
                    | Some i \<Rightarrow> (spans[i := (spans ! i)\<lparr>ns_endSec := Some (me_atSec e)\<rparr>], jm_delete key opened))
             in if isOff then (spans, opened)
                else (spans @ [\<lparr>ns_note = me_data1 e, ns_channel = midi_channel (me_status e),
                                 ns_startSec = me_atSec e, ns_endSec = None\<rparr>],
                      jm_set key (length spans) opened))"

definition note_spans_of :: "midi_event list \<Rightarrow> note_span list" where
  "note_spans_of events = fst (foldl span_step ([], []) (sort_midi_events events))"

subsection \<open>Storage\<close>

record take_midi =
  tm_events :: "midi_event list"
  tm_overflow :: bool

definition midi_key :: "string \<Rightarrow> string \<Rightarrow> string" where
  "midi_key sessionId takeId = ''antiphon:midi:'' @ sessionId @ '':'' @ takeId"

definition no_midi :: take_midi where "no_midi = \<lparr>tm_events = [], tm_overflow = False\<rparr>"

definition midi_event_json :: "midi_event \<Rightarrow> json" where
  "midi_event_json e =
     JObj [(''atSec'', JNum (me_atSec e)), (''status'', JNum (real (me_status e))),
           (''data1'', JNum (real (me_data1 e))), (''data2'', JNum (real (me_data2 e)))]"

text \<open>A JSON number as a message number: those that are no natural number fail the byte checks.\<close>

definition nat_of_num :: "real \<Rightarrow> nat option" where
  "nat_of_num x = (if x = real (nat \<lfloor>x\<rfloor>) then Some (nat \<lfloor>x\<rfloor>) else None)"

definition decode_midi_event_entry :: "json \<Rightarrow> midi_event option" where
  "decode_midi_event_entry entry =
     (case json_num (json_field entry ''atSec'') of
        None \<Rightarrow> None
      | Some atSec \<Rightarrow>
          if atSec < 0 then None
          else (case (Option.bind (json_num (json_field entry ''status'')) nat_of_num,
                      Option.bind (json_num (json_field entry ''data1'')) nat_of_num) of
                  (Some status, Some data1) \<Rightarrow>
                    (case (case json_num (json_field entry ''data2'') of None \<Rightarrow> Some 0 | Some x \<Rightarrow> nat_of_num x) of
                       None \<Rightarrow> None
                     | Some data2 \<Rightarrow>
                         map_option (\<lambda>(s, a, b). \<lparr>me_atSec = atSec, me_status = s, me_data1 = a, me_data2 = b\<rparr>)
                           (normalize_midi_message
                             (Some (if midi_data_bytes status = 2 then [status, data1, data2] else [status, data1]))))
                | _ \<Rightarrow> None))"

definition midi_doc :: "take_midi \<Rightarrow> json" where
  "midi_doc midi =
     JObj [(''v'', JNum 1), (''events'', JArr (map midi_event_json (sort_midi_events (tm_events midi)))),
           (''overflow'', JBool (tm_overflow midi))]"

definition decode_midi_doc :: "('t \<Rightarrow> json option) \<Rightarrow> 't \<Rightarrow> (take_midi \<times> nat) option" where
  "decode_midi_doc parse raw =
     (case parse raw of
        None \<Rightarrow> None
      | Some doc \<Rightarrow>
          if json_num (json_field doc ''v'') \<noteq> Some 1 then None
          else (case json_arr (json_field doc ''events'') of
                  None \<Rightarrow> None
                | Some entries \<Rightarrow>
                    let valid = List.map_filter decode_midi_event_entry entries
                    in Some (\<lparr>tm_events = sort_midi_events valid,
                              tm_overflow = (json_bool (json_field doc ''overflow'') = Some True)\<rparr>,
                             length entries - length valid)))"

definition load_midi :: "('t \<Rightarrow> json option) \<Rightarrow> string \<Rightarrow> string \<Rightarrow> 't kv_store option \<Rightarrow> take_midi" where
  "load_midi parse sessionId takeId store =
     (case kv_get store (midi_key sessionId takeId) of
        None \<Rightarrow> no_midi
      | Some raw \<Rightarrow> (case decode_midi_doc parse raw of None \<Rightarrow> no_midi | Some (midi, _) \<Rightarrow> midi))"

definition save_midi ::
    "(json \<Rightarrow> 't) \<Rightarrow> string \<Rightarrow> string \<Rightarrow> take_midi \<Rightarrow> 't kv_store option \<Rightarrow> 't kv_store option" where
  "save_midi stringify sessionId takeId midi store =
     kv_set store (midi_key sessionId takeId) (stringify (midi_doc midi))"

definition remove_midi :: "string \<Rightarrow> string \<Rightarrow> 't kv_store option \<Rightarrow> 't kv_store option" where
  "remove_midi sessionId takeId store = kv_remove store (midi_key sessionId takeId)"

record midi_input_prefs =
  mp_inputId :: string
  mp_inputLabel :: string

definition midi_prefs_key :: string where "midi_prefs_key = ''antiphon:midi-input''"

definition load_midi_prefs :: "('t \<Rightarrow> json option) \<Rightarrow> 't kv_store option \<Rightarrow> midi_input_prefs option" where
  "load_midi_prefs parse store =
     (case Option.bind (kv_get store midi_prefs_key) parse of
        None \<Rightarrow> None
      | Some p \<Rightarrow>
          (case (json_str (json_field p ''inputId''), json_str (json_field p ''inputLabel'')) of
             (Some i, Some l) \<Rightarrow> Some \<lparr>mp_inputId = i, mp_inputLabel = l\<rparr>
           | _ \<Rightarrow> None))"

definition save_midi_prefs :: "(json \<Rightarrow> 't) \<Rightarrow> midi_input_prefs \<Rightarrow> 't kv_store option \<Rightarrow> 't kv_store option" where
  "save_midi_prefs stringify prefs store =
     kv_set store midi_prefs_key
       (stringify (JObj [(''inputId'', JStr (mp_inputId prefs)), (''inputLabel'', JStr (mp_inputLabel prefs))]))"

subsection \<open>Lines\<close>

text \<open>A JSONL document as its lines; the blank line after the last newline is skipped by the reader.\<close>

definition encode_midi_jsonl :: "(json \<Rightarrow> 't) \<Rightarrow> take_midi \<Rightarrow> 't list" where
  "encode_midi_jsonl stringify midi =
     stringify (JObj [(''antiphonMidiJsonl'', JNum 1), (''overflow'', JBool (tm_overflow midi))])
       # map (\<lambda>e. stringify (midi_event_json e)) (sort_midi_events (tm_events midi))"

definition decode_midi_jsonl :: "('t \<Rightarrow> json option) \<Rightarrow> ('t \<Rightarrow> bool) \<Rightarrow> 't list \<Rightarrow> take_midi option" where
  "decode_midi_jsonl parse blank lines =
     (case lines of
        [] \<Rightarrow> None
      | header # rest \<Rightarrow>
          (case parse header of
             None \<Rightarrow> None
           | Some h \<Rightarrow>
               if json_num (json_field h ''antiphonMidiJsonl'') \<noteq> Some 1 then None
               else Some \<lparr>tm_events = sort_midi_events
                           (List.map_filter (\<lambda>l. Option.bind (parse l) decode_midi_event_entry)
                              (filter (\<lambda>l. \<not> blank l) rest)),
                          tm_overflow = (json_bool (json_field h ''overflow'') = Some True)\<rparr>))"

subsection \<open>What is stored comes back\<close>

text \<open>The events capture produces.\<close>

definition event_ok :: "midi_event \<Rightarrow> bool" where
  "event_ok e \<longleftrightarrow>
     0 \<le> me_atSec e \<and> midi_kind (me_status e) \<in> captured_kinds \<and> me_data1 e \<le> 127 \<and> me_data2 e \<le> 127
   \<and> (midi_data_bytes (me_status e) = 1 \<longrightarrow> me_data2 e = 0)"

lemma midi_data_bytes_cases: "midi_data_bytes s = 1 \<or> midi_data_bytes s = 2"
  by (simp add: midi_data_bytes_def)

lemma normalize_event_ok:
  "normalize_midi_message data = Some (s, a, b) \<Longrightarrow> 0 \<le> t \<Longrightarrow>
     event_ok \<lparr>me_atSec = t, me_status = s, me_data1 = a, me_data2 = b\<rparr>"
  by (auto simp: normalize_midi_message_def event_ok_def Let_def split: option.splits if_splits)

lemma nat_of_num_real [simp]: "nat_of_num (real n) = Some n"
  by (simp add: nat_of_num_def)

lemma decode_event_json:
  assumes "event_ok e"
  shows "decode_midi_event_entry (midi_event_json e) = Some e"
proof -
  have "normalize_midi_message (Some (if midi_data_bytes (me_status e) = 2 then [me_status e, me_data1 e, me_data2 e]
      else [me_status e, me_data1 e])) = Some (me_status e, me_data1 e, me_data2 e)"
    using assms midi_data_bytes_cases [of "me_status e"]
    by (auto simp: normalize_midi_message_def event_ok_def Let_def)
  then show ?thesis
    using assms by (simp add: decode_midi_event_entry_def midi_event_json_def event_ok_def)
qed

lemma map_filter_decode:
  "list_all event_ok es \<Longrightarrow> List.map_filter decode_midi_event_entry (map midi_event_json es) = es"
  by (induction es) (simp_all add: decode_event_json)

lemma sort_midi_idem [simp]: "sort_midi_events (sort_midi_events es) = sort_midi_events es"
  unfolding sort_midi_events_def by (rule by_key.js_sort_idem)

lemma list_all_sort: "list_all P (sort_midi_events es) = list_all P es"
  by (simp add: sort_midi_events_def list_all_iff)

text \<open>A take's MIDI survives both stores: what is saved to local storage or written as lines is read
  back with its events in timeline order, simultaneous ones in the order they were captured, and its
  overflow flag, and nothing is reported dropped.\<close>

theorem midi_storage_roundtrip:
  assumes "json_codec stringify parse" and "list_all event_ok (tm_events midi)" and "kv_works store"
    and "\<And>j. \<not> blank (stringify j)"
  shows "load_midi parse sid tid (save_midi stringify sid tid midi store)
      = \<lparr>tm_events = sort_midi_events (tm_events midi), tm_overflow = tm_overflow midi\<rparr>
    \<and> decode_midi_doc parse (stringify (midi_doc midi))
      = Some (\<lparr>tm_events = sort_midi_events (tm_events midi), tm_overflow = tm_overflow midi\<rparr>, 0)
    \<and> decode_midi_jsonl parse blank (encode_midi_jsonl stringify midi)
      = Some \<lparr>tm_events = sort_midi_events (tm_events midi), tm_overflow = tm_overflow midi\<rparr>"
proof -
  note codec = json_codecD [OF assms(1)]
  have ok: "list_all event_ok (sort_midi_events (tm_events midi))" using assms(2) by (simp add: list_all_sort)
  have doc: "decode_midi_doc parse (stringify (midi_doc midi))
      = Some (\<lparr>tm_events = sort_midi_events (tm_events midi), tm_overflow = tm_overflow midi\<rparr>, 0)"
    by (simp add: decode_midi_doc_def codec midi_doc_def map_filter_decode [OF ok])
  have lines: "List.map_filter (\<lambda>l. Option.bind (parse l) decode_midi_event_entry)
      (filter (\<lambda>l. \<not> blank l) (map (\<lambda>e. stringify (midi_event_json e)) es)) = es" if "list_all event_ok es" for es
    using that by (induction es) (simp_all add: codec assms(4) decode_event_json)
  have "decode_midi_jsonl parse blank (encode_midi_jsonl stringify midi)
      = Some \<lparr>tm_events = sort_midi_events (tm_events midi), tm_overflow = tm_overflow midi\<rparr>"
    by (simp add: decode_midi_jsonl_def encode_midi_jsonl_def codec lines [OF ok])
  with doc show ?thesis
    by (simp add: load_midi_def save_midi_def kv_get_set [OF assms(3)])
qed

definition sample_midi :: take_midi where
  "sample_midi = \<lparr>tm_events = [\<lparr>me_atSec = 2, me_status = 128, me_data1 = 60, me_data2 = 0\<rparr>,
     \<lparr>me_atSec = 1, me_status = 144, me_data1 = 60, me_data2 = 90\<rparr>], tm_overflow = True\<rparr>"

theorem midi_storage_roundtrip_witness:
  "load_midi Some ''s'' ''t'' (save_midi (\<lambda>j. j) ''s'' ''t'' sample_midi fresh_store)
     = \<lparr>tm_events = sort_midi_events (tm_events sample_midi), tm_overflow = True\<rparr>"
  using midi_storage_roundtrip [OF json_codec_id, of sample_midi fresh_store "\<lambda>_. False" "''s''" "''t''"]
  by (simp add: sample_midi_def event_ok_def midi_kind_def captured_kinds_def midi_data_bytes_def)

text \<open>The earliest events are the ones kept when the cap is hit.\<close>

lemma append_keeps_earliest:
  "\<exists>n. foldl (\<lambda>es e. snd (append_midi_event es e (Some c))) es0 es = take n (es0 @ es)
     \<and> (length es0 \<le> c \<longrightarrow> length (foldl (\<lambda>es e. snd (append_midi_event es e (Some c))) es0 es) \<le> c)"
proof (induction es arbitrary: es0)
  case Nil
  then show ?case by (intro exI [of _ "length es0"]) simp
next
  case (Cons e es)
  show ?case
  proof (cases "c \<le> length es0")
    case True
    have "foldl (\<lambda>es e. snd (append_midi_event es e (Some c))) es0 (e # es) = es0"
    proof -
      have "foldl (\<lambda>es e. snd (append_midi_event es e (Some c))) es0 xs = es0" for xs
        using True by (induction xs) (simp_all add: append_midi_event_def)
      then show ?thesis .
    qed
    then show ?thesis by (intro exI [of _ "length es0"]) simp
  next
    case False
    then show ?thesis using Cons.IH [of "es0 @ [e]"] by (auto simp: append_midi_event_def)
  qed
qed

subsection \<open>Standard MIDI files\<close>

definition midi_tpqn :: nat where "midi_tpqn = 480"
definition midi_tempo_us_per_quarter :: nat where "midi_tempo_us_per_quarter = 500000"
definition midi_ticks_per_second :: nat where
  "midi_ticks_per_second = midi_tpqn * 1000000 div midi_tempo_us_per_quarter"

definition seconds_to_ticks :: "real \<Rightarrow> int" where
  "seconds_to_ticks atSec = \<lfloor>atSec * real midi_ticks_per_second + 1 / 2\<rfloor>"

text \<open>The loop of \<open>encodeVlq\<close>: seven bits at a time in front of what is there.\<close>

function vlq_prefix :: "nat \<Rightarrow> nat list \<Rightarrow> nat list" where
  "vlq_prefix rest out = (if 0 < rest then vlq_prefix (rest div 128) ((rest mod 128 + 128) # out) else out)"
  by pat_completeness auto
termination by (relation "measure fst") auto

declare vlq_prefix.simps [simp del]

definition encode_vlq :: "int \<Rightarrow> nat list option" where
  "encode_vlq value =
     (if value < 0 \<or> value > 268435455 then None
      else Some (vlq_prefix (nat value div 128) [nat value mod 128]))"

text \<open>The events after the tempo: delta, status, one or two data bytes; the first bad delta throws.\<close>

fun encode_events :: "int \<Rightarrow> midi_event list \<Rightarrow> nat list option" where
  "encode_events lastTick [] = Some []"
| "encode_events lastTick (e # es) =
     (let tick = seconds_to_ticks (me_atSec e)
      in case (encode_vlq (tick - lastTick), encode_events tick es) of
           (Some delta, Some rest) \<Rightarrow>
             Some (delta @ [me_status e, me_data1 e] @ (if midi_data_bytes (me_status e) = 2 then [me_data2 e] else []) @ rest)
         | _ \<Rightarrow> None)"

definition be32 :: "nat \<Rightarrow> nat list" where
  "be32 n = [n div 16777216 mod 256, n div 65536 mod 256, n div 256 mod 256, n mod 256]"

definition be16 :: "nat \<Rightarrow> nat list" where
  "be16 n = [n div 256 mod 256, n mod 256]"

definition tempo_event :: "nat list" where
  "tempo_event = [0, 255, 81, 3, midi_tempo_us_per_quarter div 65536 mod 256,
     midi_tempo_us_per_quarter div 256 mod 256, midi_tempo_us_per_quarter mod 256]"

definition end_of_track :: "nat list" where "end_of_track = [0, 255, 47, 0]"

definition encode_midi_file :: "midi_event list \<Rightarrow> nat list option" where
  "encode_midi_file events =
     (case encode_events 0 (sort_midi_events events) of
        None \<Rightarrow> None
      | Some body \<Rightarrow>
          let track = tempo_event @ body @ end_of_track
          in Some ([77, 84, 104, 100] @ be32 6 @ be16 0 @ be16 1 @ be16 midi_tpqn
               @ [77, 84, 114, 107] @ be32 (length track) @ map (\<lambda>b. b mod 256) track))"

text \<open>A reader of the format, as the standard describes it: deltas, meta events, channel messages.\<close>

fun read_vlq :: "nat \<Rightarrow> nat list \<Rightarrow> (nat \<times> nat list) option" where
  "read_vlq acc [] = None"
| "read_vlq acc (b # bs) = (if b \<ge> 128 then read_vlq (acc * 128 + (b - 128)) bs else Some (acc * 128 + b, bs))"

fun read_events :: "nat \<Rightarrow> nat \<Rightarrow> nat list \<Rightarrow> (nat \<times> nat list) list option" where
  "read_events 0 tick bs = None"
| "read_events (Suc fuel) tick bs =
     (case read_vlq 0 bs of
        None \<Rightarrow> None
      | Some (delta, rest) \<Rightarrow>
          (case rest of
             status # data \<Rightarrow>
               if status = 255 then
                 (case data of
                    t # len # tail \<Rightarrow>
                      if t = 47 then Some [] else read_events fuel (tick + delta) (drop len tail)
                  | _ \<Rightarrow> None)
               else let n = midi_data_bytes status
                    in map_option (\<lambda>es. (tick + delta, status # take n data) # es)
                         (read_events fuel (tick + delta) (drop n data))
           | [] \<Rightarrow> None))"

definition read_midi_file :: "nat \<Rightarrow> nat list \<Rightarrow> (nat \<times> nat list) list option" where
  "read_midi_file fuel bytes =
     (if take 4 bytes = [77, 84, 104, 100] \<and> take 4 (drop 14 bytes) = [77, 84, 114, 107]
      then read_events fuel 0 (drop 22 bytes) else None)"

lemma read_vlq_prefix: "read_vlq 0 (vlq_prefix r out) = read_vlq r out"
proof (induction r out rule: vlq_prefix.induct)
  case (1 r out)
  show ?case
  proof (cases "0 < r")
    case True
    have "read_vlq (r div 128) ((r mod 128 + 128) # out) = read_vlq r out" by simp
    with 1 [OF True] True show ?thesis by (simp add: vlq_prefix.simps [of r])
  next
    case False
    then show ?thesis by (subst vlq_prefix.simps) simp
  qed
qed

lemma vlq_prefix_append: "vlq_prefix r (out @ rest) = vlq_prefix r out @ rest"
proof (induction r out rule: vlq_prefix.induct)
  case (1 r out)
  then show ?case by (simp add: vlq_prefix.simps [of r])
qed

lemma read_encode_vlq:
  assumes "encode_vlq v = Some bs"
  shows "read_vlq 0 (bs @ rest) = Some (nat v, rest)" and "0 \<le> v"
proof -
  from assms have bs: "bs = vlq_prefix (nat v div 128) [nat v mod 128]" and "0 \<le> v"
    by (auto simp: encode_vlq_def split: if_splits)
  then show "read_vlq 0 (bs @ rest) = Some (nat v, rest)" "0 \<le> v"
    using mod_less_divisor [of 128 "nat v"]
    by (simp_all add: read_vlq_prefix vlq_prefix_append [symmetric] del: mod_less_divisor)
qed

lemma vlq_bytes:
  assumes "\<forall>b \<in> set out. b < 256" shows "\<forall>b \<in> set (vlq_prefix r out). b < 256"
  using assms
proof (induction r out rule: vlq_prefix.induct)
  case (1 r out)
  then show ?case by (simp add: vlq_prefix.simps [of r])
qed

text \<open>What a captured event is on the wire: its tick, its status byte and its data bytes.\<close>

definition midi_wire :: "midi_event \<Rightarrow> nat \<times> nat list" where
  "midi_wire e = (nat (seconds_to_ticks (me_atSec e)),
     me_status e # me_data1 e # (if midi_data_bytes (me_status e) = 2 then [me_data2 e] else []))"

definition wire_ok :: "midi_event \<Rightarrow> bool" where
  "wire_ok e \<longleftrightarrow> event_ok e \<and> me_status e < 256 \<and> me_atSec e \<le> 279620"

lemma seconds_to_ticks_mono: "a \<le> b \<Longrightarrow> seconds_to_ticks a \<le> seconds_to_ticks b"
  unfolding seconds_to_ticks_def by (intro floor_mono add_mono mult_right_mono) simp_all

lemma ticks_in_range:
  assumes "wire_ok e" shows "0 \<le> seconds_to_ticks (me_atSec e)" and "seconds_to_ticks (me_atSec e) \<le> 268435455"
proof -
  have b: "0 \<le> me_atSec e" "me_atSec e \<le> 279620" using assms by (auto simp: wire_ok_def event_ok_def)
  have z: "seconds_to_ticks 0 = 0" "seconds_to_ticks 279620 = 268435200"
    by (simp_all add: seconds_to_ticks_def midi_ticks_per_second_def midi_tpqn_def
        midi_tempo_us_per_quarter_def floor_eq_iff)
  show "0 \<le> seconds_to_ticks (me_atSec e)" using seconds_to_ticks_mono [OF b(1)] z by simp
  show "seconds_to_ticks (me_atSec e) \<le> 268435455" using seconds_to_ticks_mono [OF b(2)] z by simp
qed

lemma wire_ok_bytes:
  assumes "wire_ok e"
  shows "128 \<le> me_status e" "me_status e < 256" "me_status e \<noteq> 255" "me_data1 e < 256" "me_data2 e < 256"
proof -
  show "me_status e < 256" "me_data1 e < 256" "me_data2 e < 256"
    using assms by (auto simp: wire_ok_def event_ok_def)
  have k: "midi_kind (me_status e) \<in> captured_kinds" "me_status e < 256"
    using assms by (auto simp: wire_ok_def event_ok_def)
  then have "me_status e div 16 \<ge> 8 \<and> me_status e div 16 \<noteq> 15"
    by (auto simp: midi_kind_def captured_kinds_def)
  then show "128 \<le> me_status e" "me_status e \<noteq> 255" by auto
qed

lemma encode_vlq_total:
  assumes "0 \<le> v" "v \<le> 268435455"
  obtains bs where "encode_vlq v = Some bs" "\<forall>b \<in> set bs. b < 256"
    "\<And>rest. read_vlq 0 (bs @ rest) = Some (nat v, rest)"
proof -
  let ?bs = "vlq_prefix (nat v div 128) [nat v mod 128]"
  have e: "encode_vlq v = Some ?bs" using assms by (simp add: encode_vlq_def)
  have "\<forall>b \<in> set ?bs. b < 256" by (rule vlq_bytes) (simp add: less_trans [OF mod_less_divisor])
  then show thesis using that [OF e] read_encode_vlq(1) [OF e] by blast
qed

lemma encode_events_read:
  assumes "sorted_wrt (\<lambda>a b. me_atSec a \<le> me_atSec b) es" and "list_all wire_ok es"
    and "0 \<le> t0" and "\<forall>e \<in> set es. t0 \<le> seconds_to_ticks (me_atSec e)"
  shows "\<exists>bs. encode_events t0 es = Some bs \<and> (\<forall>b \<in> set bs. b < 256)
    \<and> (\<forall>fuel. read_events (Suc (length es + fuel)) (nat t0) (bs @ end_of_track) = Some (map midi_wire es))"
  using assms
proof (induction es arbitrary: t0)
  case Nil
  then show ?case by (simp add: end_of_track_def)
next
  case (Cons e es)
  let ?t = "seconds_to_ticks (me_atSec e)"
  have ok: "wire_ok e" and t: "0 \<le> ?t" "?t \<le> 268435455" "t0 \<le> ?t"
    using Cons.prems ticks_in_range [of e] by auto
  note bytes = wire_ok_bytes [OF ok]
  obtain delta where d: "encode_vlq (?t - t0) = Some delta" "\<forall>b \<in> set delta. b < 256"
    "\<And>rest. read_vlq 0 (delta @ rest) = Some (nat (?t - t0), rest)"
    using encode_vlq_total [of "?t - t0"] t Cons.prems(3) by auto
  obtain bs where bs: "encode_events ?t es = Some bs" "\<forall>b \<in> set bs. b < 256"
    "\<And>fuel. read_events (Suc (length es + fuel)) (nat ?t) (bs @ end_of_track) = Some (map midi_wire es)"
    using Cons.IH [of ?t] Cons.prems t by (auto intro: seconds_to_ticks_mono)
  have sum: "nat t0 + nat (?t - t0) = nat ?t" using t Cons.prems(3) by simp
  let ?data = "me_data1 e # (if midi_data_bytes (me_status e) = 2 then [me_data2 e] else [])"
  have cut: "take (midi_data_bytes (me_status e)) (?data @ xs) = ?data"
    "drop (midi_data_bytes (me_status e)) (?data @ xs) = xs" for xs
    using midi_data_bytes_cases [of "me_status e"] by (auto simp: numeral_2_eq_2)
  have enc: "encode_events t0 (e # es) = Some (delta @ me_status e # ?data @ bs)"
    by (simp add: d(1) bs(1) Let_def)
  have "read_events (Suc (length (e # es) + fuel)) (nat t0) ((delta @ me_status e # ?data @ bs) @ end_of_track)
      = Some (map midi_wire (e # es))" for fuel
  proof -
    have "read_events (Suc (length (e # es) + fuel)) (nat t0) (delta @ me_status e # (?data @ (bs @ end_of_track)))
      = map_option (\<lambda>es. (nat ?t, me_status e # ?data) # es)
          (read_events (Suc (length es + fuel)) (nat ?t) (bs @ end_of_track))"
      unfolding length_Cons add_Suc
      by (subst read_events.simps(2)) (simp only: d(3) option.case list.case bytes(3) if_False sum cut Let_def prod.case)
    then show ?thesis using bs(3) [of fuel] by (simp add: midi_wire_def)
  qed
  moreover have "\<forall>b \<in> set (delta @ me_status e # ?data @ bs). b < 256"
    using d(2) bs(2) bytes by auto
  ultimately show ?case using enc by blast
qed

lemma tempo_event_read:
  "read_events (Suc fuel) 0 (tempo_event @ rest) = read_events fuel 0 rest"
  by (simp add: tempo_event_def)

text \<open>The MIDI file of any take shorter than 77 hours is accepted by a standard reader, which finds the
  captured events in timeline order, each at its own tick with its full message.\<close>

theorem midi_file_roundtrip:
  assumes "list_all wire_ok events"
  shows "Option.bind (encode_midi_file events) (read_midi_file (length events + 2))
    = Some (map midi_wire (sort_midi_events events))"
proof -
  let ?es = "sort_midi_events events"
  have ok: "list_all wire_ok ?es" using assms by (simp add: list_all_sort)
  have "sorted_wrt (\<lambda>a b. me_atSec a \<le> me_atSec b) ?es"
    using sorted_js_sort_by_key [of me_atSec events] by (simp add: sort_midi_events_def sorted_wrt_map)
  moreover have "\<forall>e \<in> set ?es. 0 \<le> seconds_to_ticks (me_atSec e)"
    using ok ticks_in_range(1) by (auto simp: list_all_iff)
  ultimately obtain bs where bs: "encode_events 0 ?es = Some bs" "\<forall>b \<in> set bs. b < 256"
    "\<And>fuel. read_events (Suc (length ?es + fuel)) 0 (bs @ end_of_track) = Some (map midi_wire ?es)"
    using encode_events_read [of ?es 0] ok by auto
  let ?track = "tempo_event @ bs @ end_of_track"
  have "\<forall>b \<in> set ?track. b mod 256 = b"
    using bs(2) by (auto simp: tempo_event_def end_of_track_def midi_tempo_us_per_quarter_def)
  then have bytes: "map (\<lambda>b. b mod 256) ?track = ?track" by (simp add: map_idI)
  have "read_events (length events + 2) 0 ?track = Some (map midi_wire ?es)"
    using bs(3) [of 0] tempo_event_read [of "Suc (length events)"] by (simp add: sort_midi_events_def)
  then show ?thesis
    by (simp only: encode_midi_file_def bs(1) option.case Let_def bytes Option.bind.simps)
       (simp add: read_midi_file_def be32_def be16_def)
qed

theorem midi_file_roundtrip_witness:
  "\<exists>bytes. encode_midi_file (tm_events sample_midi) = Some bytes \<and>
     read_midi_file 4 bytes = Some [(960, [144, 60, 90]), (1920, [128, 60, 0])]"
proof -
  have "list_all wire_ok (tm_events sample_midi)"
    by (simp add: sample_midi_def wire_ok_def event_ok_def midi_kind_def captured_kinds_def midi_data_bytes_def)
  note r = midi_file_roundtrip [OF this]
  have "map midi_wire (sort_midi_events (tm_events sample_midi)) = [(960, [144, 60, 90]), (1920, [128, 60, 0])]"
    by (simp add: sample_midi_def sort_midi_events_def by_key_def midi_wire_def midi_data_bytes_def midi_kind_def
        seconds_to_ticks_def midi_ticks_per_second_def midi_tpqn_def midi_tempo_us_per_quarter_def floor_eq_iff)
  with r show ?thesis
    by (cases "encode_midi_file (tm_events sample_midi)") (simp_all add: sample_midi_def eval_nat_numeral)
qed

end
