(* ===== verification/Checksums.thy ===== *)
theory Checksums
  imports Prelude
begin

text \<open>
  Little-endian fields and the two table-driven checksums of the system: the CRC-32 of
  \<open>apps/web/src/routes/desk/zip.ts\<close> and the CRC-32C of \<open>packages/core/src/crc32c.rs\<close>. They are the
  same algorithm for two reflected polynomials; what holds for both is proved once in a locale.
\<close>

unbundle bit_operations_syntax

subsection \<open>Little-endian fields\<close>

definition put16 :: "nat \<Rightarrow> bytes" where
  "put16 n = [word_of_nat n, word_of_nat (n div 256)]"

definition put32 :: "nat \<Rightarrow> bytes" where
  "put32 n = [word_of_nat n, word_of_nat (n div 256), word_of_nat (n div 65536), word_of_nat (n div 16777216)]"

fun rd16 :: "bytes \<Rightarrow> nat" where
  "rd16 (a # b # _) = unat a + 256 * unat b"
| "rd16 _ = 0"

fun rd32 :: "bytes \<Rightarrow> nat" where
  "rd32 (a # b # c # d # _) = unat a + 256 * unat b + 65536 * unat c + 16777216 * unat d"
| "rd32 _ = 0"

lemma unat_byte: "unat (word_of_nat n :: 8 word) = n mod 256"
  by (simp add: unat_of_nat)

lemma rd16_put16: "n < 65536 \<Longrightarrow> rd16 (put16 n @ rest) = n"
  by (simp add: put16_def unat_byte)

lemma rd32_put32: "n < 4294967296 \<Longrightarrow> rd32 (put32 n @ rest) = n"
proof -
  assume n: "n < 4294967296"
  define a b c where abc: "a = n div 256" "b = a div 256" "c = b div 256"
  have "n div 65536 = b" "n div 16777216 = c" using abc by (simp_all add: div_mult2_eq [symmetric])
  moreover have "c < 256" using n abc by (simp add: div_mult2_eq [symmetric] less_mult_imp_div_less)
  moreover have "n = a * 256 + n mod 256" "a = b * 256 + a mod 256" "b = c * 256 + b mod 256"
    using abc by (simp_all only: div_mult_mod_eq)
  moreover have "rd32 (put32 n @ rest) = n mod 256 + 256 * (a mod 256) + 65536 * (b mod 256) + 16777216 * (c mod 256)"
    by (simp add: put32_def unat_byte abc(1) calculation(1,2))
  ultimately show ?thesis by simp
qed

lemma length_put [simp]: "length (put16 n) = 2" "length (put32 n) = 4"
  by (simp_all add: put16_def put32_def)

definition put64 :: "nat \<Rightarrow> bytes" where
  "put64 n = put32 n @ put32 (n div 4294967296)"

definition rd64 :: "bytes \<Rightarrow> nat" where
  "rd64 b = rd32 b + 4294967296 * rd32 (drop 4 b)"

lemma length_put64 [simp]: "length (put64 n) = 8"
  by (simp add: put64_def)

lemma put32_mod: "put32 (n mod 4294967296) = put32 n"
proof -
  define q r where qr: "q = n div 4294967296" "r = n mod 4294967296"
  have byte: "(word_of_nat (y + 256 * k) :: 8 word) = word_of_nat y" for k y :: nat
    by (simp only: word_unat_eq_iff unat_byte mod_mult_self2)
  have n: "n = r + 4294967296 * q" by (simp add: qr)
  have "n = r + 256 * (16777216 * q)" "n div 256 = r div 256 + 256 * (65536 * q)"
    "n div 65536 = r div 65536 + 256 * (256 * q)" "n div 16777216 = r div 16777216 + 256 * q"
    using div_mult_self2 [of 256 r "16777216 * q"] div_mult_self2 [of 65536 r "65536 * q"]
      div_mult_self2 [of 16777216 r "256 * q"]
    by (simp_all add: n)
  then have "(word_of_nat n :: 8 word) = word_of_nat r" "(word_of_nat (n div 256) :: 8 word) = word_of_nat (r div 256)"
    "(word_of_nat (n div 65536) :: 8 word) = word_of_nat (r div 65536)"
    "(word_of_nat (n div 16777216) :: 8 word) = word_of_nat (r div 16777216)"
    by (metis byte)+
  then show ?thesis unfolding put32_def qr(2) [symmetric] by (simp only:)
qed

lemma rd64_put64: "n < 18446744073709551616 \<Longrightarrow> rd64 (put64 n @ rest) = n"
proof -
  assume n: "n < 18446744073709551616"
  have "rd32 (put32 n @ put32 (n div 4294967296) @ rest) = n mod 4294967296"
    using rd32_put32 [of "n mod 4294967296" "put32 (n div 4294967296) @ rest"] by (simp add: put32_mod)
  moreover have "drop 4 (put32 n @ put32 (n div 4294967296) @ rest) = put32 (n div 4294967296) @ rest"
    by (simp add: put32_def)
  moreover have "rd32 (put32 (n div 4294967296) @ rest) = n div 4294967296"
    using n by (intro rd32_put32) (simp add: less_mult_imp_div_less)
  ultimately show ?thesis by (simp add: rd64_def put64_def)
qed

subsection \<open>Reflected polynomials\<close>

text \<open>One turn of the inner loop that fills the table, the table, and one byte of a message.\<close>

definition crc_shift :: "32 word \<Rightarrow> 32 word \<Rightarrow> 32 word" where
  "crc_shift poly c = (if c AND 1 \<noteq> 0 then poly XOR drop_bit 1 c else drop_bit 1 c)"

definition crc_table :: "32 word \<Rightarrow> 32 word list" where
  "crc_table poly = map (\<lambda>n. (crc_shift poly ^^ 8) (word_of_nat n)) [0..<256]"

definition crc_update :: "32 word \<Rightarrow> 32 word \<Rightarrow> 8 word \<Rightarrow> 32 word" where
  "crc_update poly crc byte = (crc_table poly ! unat ((crc XOR ucast byte) AND 0xff)) XOR drop_bit 8 crc"

definition crc32 :: "bytes \<Rightarrow> 32 word" where
  "crc32 data = foldl (crc_update 0xedb88320) 0xffffffff data XOR 0xffffffff"

definition crc32c_append :: "32 word \<Rightarrow> bytes \<Rightarrow> 32 word" where
  "crc32c_append crc data = NOT (foldl (crc_update 0x82f63b78) (NOT crc) data)"

definition crc32c :: "bytes \<Rightarrow> 32 word" where
  "crc32c data = crc32c_append 0 data"

text \<open>The defining form of the checksums: one bit of the reflected polynomial at a time.\<close>

definition crc_bitwise :: "32 word \<Rightarrow> 32 word \<Rightarrow> bytes \<Rightarrow> 32 word" where
  "crc_bitwise poly init data = foldl (\<lambda>crc byte. (crc_shift poly ^^ 8) (crc XOR ucast byte)) init data"

lemma xor_cancel: "x XOR a = x XOR b \<longleftrightarrow> a = b" "a XOR x = b XOR x \<longleftrightarrow> a = b"
  for a b x :: "'a::len word" by (auto simp: bit_eq_iff bit_simps)

text \<open>Up to four bytes at a time, as one word: the register shifts once for all of them.\<close>

fun crc_pack :: "bytes \<Rightarrow> 32 word" where
  "crc_pack [] = 0"
| "crc_pack (b # bs) = ucast b XOR push_bit 8 (crc_pack bs)"

lemma crc_pack_bits: "bit (crc_pack bs) n \<Longrightarrow> n < 8 * length bs"
proof (induction bs arbitrary: n)
  case (Cons b bs)
  then have "bit b n \<or> 8 \<le> n \<and> bit (crc_pack bs) (n - 8)" by (auto simp: bit_simps)
  then show ?case using bit_imp_le_length [of b n] Cons.IH [of "n - 8"] by auto
qed simp

lemma crc_pack_Cons:
  assumes "length bs \<le> 3"
  shows "take_bit 8 (crc_pack (b # bs)) = ucast b" and "drop_bit 8 (push_bit 8 (crc_pack bs)) = crc_pack bs"
    and "drop_bit 8 (crc_pack (b # bs)) = crc_pack bs"
proof -
  have f: "n < 24" if "bit (crc_pack bs) n" for n using crc_pack_bits [OF that] assms by simp
  have b: "\<not> bit b (8 + n)" for n using bit_imp_le_length [of b "8 + n"] by auto
  show "take_bit 8 (crc_pack (b # bs)) = ucast b"
    by (rule bit_word_eqI) (auto simp: bit_simps dest: bit_imp_le_length)
  show d: "drop_bit 8 (push_bit 8 (crc_pack bs)) = crc_pack bs"
    by (rule bit_word_eqI) (auto simp: bit_simps dest: f)
  show "drop_bit 8 (crc_pack (b # bs)) = crc_pack bs"
    by (rule bit_word_eqI) (auto simp: bit_simps b dest: f)
qed

lemma crc_pack_inj:
  "length xs = length ys \<Longrightarrow> length ys \<le> 4 \<Longrightarrow> crc_pack xs = crc_pack ys \<Longrightarrow> xs = ys"
proof (induction xs ys rule: list_induct2)
  case (Cons x xs y ys)
  then have l: "length xs \<le> 3" "length ys \<le> 3" by simp_all
  have "(ucast x :: 32 word) = ucast y"
    using Cons.prems(2) crc_pack_Cons(1) [OF l(1), of x] crc_pack_Cons(1) [OF l(2), of y] by (simp del: crc_pack.simps)
  moreover have "crc_pack xs = crc_pack ys"
    using Cons.prems(2) crc_pack_Cons(3) [OF l(1), of x] crc_pack_Cons(3) [OF l(2), of y] by (simp del: crc_pack.simps)
  moreover have "x = y" if "(ucast x :: 32 word) = ucast y"
  proof (rule bit_word_eqI)
    fix n assume "n < LENGTH(8)"
    then show "bit x n \<longleftrightarrow> bit y n" using arg_cong [OF that, of "\<lambda>w. bit w n"] by (simp add: bit_simps)
  qed
  ultimately have "x = y" "xs = ys" using Cons.IH l by simp_all
  then show ?case by simp
qed simp

lemma crc_shift_8:
  "(crc_shift poly ^^ 8) x
    = crc_shift poly (crc_shift poly (crc_shift poly (crc_shift poly (crc_shift poly (crc_shift poly (crc_shift poly (crc_shift poly x)))))))"
  by (simp add: eval_nat_numeral)

locale reflected_crc =
  fixes poly :: "32 word"
  assumes top_bit: "bit poly 31"
begin

lemma crc_shift_xor: "crc_shift poly (a XOR b) = crc_shift poly a XOR crc_shift poly b"
proof -
  have low: "c AND 1 \<noteq> 0 \<longleftrightarrow> odd c" for c :: "32 word" by (simp add: and_one_eq odd_iff_mod_2_eq_one)
  have "x XOR (y XOR z) = y XOR (x XOR z)" for x y z :: "32 word" by (rule xor.left_commute)
  then show ?thesis
    unfolding crc_shift_def low even_xor_iff drop_bit_xor
    by (auto simp: xor.assoc)
qed

lemma crc_shift_pow_xor: "(crc_shift poly ^^ k) (a XOR b) = (crc_shift poly ^^ k) a XOR (crc_shift poly ^^ k) b"
  by (induction k) (simp_all add: crc_shift_xor)

lemma crc_shift_pow_low:
  "(\<And>n. n < k \<Longrightarrow> \<not> bit z n) \<Longrightarrow> (crc_shift poly ^^ k) z = drop_bit k z"
proof (induction k)
  case (Suc k)
  then have "(crc_shift poly ^^ k) z = drop_bit k z" by simp
  moreover have "even (drop_bit k z)" using Suc.prems [of k] by (simp add: bit_iff_odd_drop_bit)
  moreover have "crc_shift poly c = drop_bit 1 c" if "even c" for c
    using that by (simp add: crc_shift_def and_one_eq even_iff_mod_2_eq_zero)
  ultimately show ?case by (simp add: drop_bit_drop_bit add.commute)
qed simp

lemma crc_update_bitwise: "crc_update poly crc byte = (crc_shift poly ^^ 8) (crc XOR ucast byte)"
proof -
  define x where "x = crc XOR ucast byte"
  define l where "l = take_bit 8 x"
  have l: "x AND 0xff = l" by (simp add: l_def take_bit_eq_mask mask_eq_exp_minus_1)
  have lt: "unat l < 256" using take_bit_nat_less_exp [of 8 "unat x"] by (simp add: l_def unsigned_take_bit_eq)
  have low: "\<not> bit (x XOR l) n" if "n < 8" for n
    using that by (simp add: l_def bit_simps)
  have hi: "drop_bit 8 (x XOR l) = drop_bit 8 crc"
    by (rule bit_word_eqI) (auto simp: l_def x_def bit_simps dest: bit_imp_le_length)
  have split: "x = l XOR (x XOR l)" by (rule bit_word_eqI) (auto simp: bit_simps)
  have "(crc_shift poly ^^ 8) x = (crc_shift poly ^^ 8) l XOR (crc_shift poly ^^ 8) (x XOR l)"
    by (subst split) (rule crc_shift_pow_xor)
  also have "(crc_shift poly ^^ 8) (x XOR l) = drop_bit 8 crc"
    using crc_shift_pow_low [of 8 "x XOR l", OF low] hi by simp
  also have "(crc_shift poly ^^ 8) l = crc_table poly ! unat l"
    using lt by (simp add: crc_table_def)
  finally show ?thesis by (simp add: crc_update_def l x_def [symmetric])
qed

lemma crc_shift_inj: "inj (crc_shift poly)"
proof (rule injI)
  fix a b :: "32 word" assume eq: "crc_shift poly a = crc_shift poly b"
  have top: "bit (crc_shift poly c) 31 \<longleftrightarrow> odd c" for c :: "32 word"
    using bit_imp_le_length [of c 32] top_bit by (auto simp: crc_shift_def and_one_eq odd_iff_mod_2_eq_one bit_simps)
  have "odd a \<longleftrightarrow> odd b" using eq top by metis
  then have "drop_bit 1 a = drop_bit 1 b"
    using eq by (auto simp: crc_shift_def and_one_eq odd_iff_mod_2_eq_one xor_cancel)
  with \<open>odd a \<longleftrightarrow> odd b\<close> show "a = b"
    by (simp add: drop_bit_eq_div) (metis div_mult_mod_eq parity_cases)
qed

lemma crc_pow_inj: "inj (crc_shift poly ^^ k)"
proof (induction k)
  case (Suc k)
  show ?case unfolding funpow.simps by (rule inj_compose [OF crc_shift_inj Suc])
qed simp

lemma crc_fold_pack:
  "length bs \<le> 4 \<Longrightarrow> foldl (crc_update poly) s bs = (crc_shift poly ^^ (8 * length bs)) (s XOR crc_pack bs)"
proof (induction bs arbitrary: s)
  case (Cons b bs)
  then have l: "length bs \<le> 3" by simp
  have low: "\<not> bit (push_bit 8 (crc_pack bs)) n" if "n < 8" for n using that by (simp add: bit_simps)
  have p: "(crc_shift poly ^^ 8) (push_bit 8 (crc_pack bs)) = crc_pack bs"
    using crc_shift_pow_low [of 8, OF low] crc_pack_Cons(2) [OF l] by simp
  have "foldl (crc_update poly) s (b # bs)
      = (crc_shift poly ^^ (8 * length bs)) ((crc_shift poly ^^ 8) (s XOR ucast b) XOR (crc_shift poly ^^ 8) (push_bit 8 (crc_pack bs)))"
    using Cons.IH [of "crc_update poly s b"] l by (simp add: p crc_update_bitwise [of s b])
  also have "\<dots> = (crc_shift poly ^^ (8 * length (b # bs))) (s XOR crc_pack (b # bs))"
    by (simp only: crc_shift_pow_xor [symmetric] crc_pack.simps xor.assoc funpow_add length_Cons
        mult_Suc_right comp_apply add.commute [of 8])
  finally show ?case .
qed simp

lemma crc_update_inj: "foldl (crc_update poly) a bs = foldl (crc_update poly) b bs \<Longrightarrow> a = b"
proof (induction bs arbitrary: a b)
  case (Cons x bs)
  then have "crc_update poly a x = crc_update poly b x" by simp
  then show ?case by (simp add: crc_update_bitwise inj_eq [OF crc_pow_inj] xor_cancel)
qed simp

lemma folds_bitwise: "foldl (crc_update poly) s data = crc_bitwise poly s data"
  by (simp add: crc_bitwise_def crc_update_bitwise cong: foldl_cong)

lemma burst_detected:
  assumes "length bad = length good" "length good \<le> 4"
    and "foldl (crc_update poly) s (bad @ after) = foldl (crc_update poly) s (good @ after)"
  shows "bad = good"
proof -
  have "foldl (crc_update poly) s bad = foldl (crc_update poly) s good"
    using assms(3) unfolding foldl_append by (rule crc_update_inj)
  then have "crc_pack bad = crc_pack good"
    using assms(1,2) by (simp add: crc_fold_pack inj_eq [OF crc_pow_inj] xor_cancel)
  then show ?thesis using crc_pack_inj assms(1,2) by blast
qed

end

interpretation zip_crc: reflected_crc "0xedb88320" by unfold_locales (simp add: bit_simps)

interpretation castagnoli: reflected_crc "0x82f63b78" by unfold_locales (simp add: bit_simps)

text \<open>Both table-driven checksums compute their polynomial bit by bit, the one of the frames can be continued
  over a split message, and neither misses an error confined to four consecutive bytes.\<close>

theorem checksums_correct:
  "crc32 data = crc_bitwise 0xedb88320 0xffffffff data XOR 0xffffffff
   \<and> crc32c data = NOT (crc_bitwise 0x82f63b78 (NOT 0) data)
   \<and> crc32c_append (crc32c data) rest = crc32c (data @ rest)
   \<and> (length bad = length good \<and> length good \<le> 4 \<and> bad \<noteq> good \<longrightarrow>
        crc32 (before @ bad @ after) \<noteq> crc32 (before @ good @ after)
        \<and> crc32c (before @ bad @ after) \<noteq> crc32c (before @ good @ after))"
proof (intro conjI impI)
  show "crc32 data = crc_bitwise 0xedb88320 0xffffffff data XOR 0xffffffff"
    by (simp add: crc32_def zip_crc.folds_bitwise)
  show "crc32c data = NOT (crc_bitwise 0x82f63b78 (NOT 0) data)"
    by (simp add: crc32c_def crc32c_append_def castagnoli.folds_bitwise)
  show "crc32c_append (crc32c data) rest = crc32c (data @ rest)"
    by (simp add: crc32c_def crc32c_append_def)
next
  assume ne: "length bad = length good \<and> length good \<le> 4 \<and> bad \<noteq> good"
  then show "crc32 (before @ bad @ after) \<noteq> crc32 (before @ good @ after)"
    using zip_crc.burst_detected [of bad good "foldl (crc_update 0xedb88320) 0xffffffff before" after]
    unfolding crc32_def foldl_append by (metis xor_cancel(2))
  show "crc32c (before @ bad @ after) \<noteq> crc32c (before @ good @ after)"
    using ne castagnoli.burst_detected [of bad good "foldl (crc_update 0x82f63b78) (NOT 0) before" after]
    unfolding crc32c_def crc32c_append_def foldl_append by (metis bit.double_compl)
qed

text \<open>The published checksums of the one-letter message "a".\<close>

theorem checksums_correct_witness:
  "crc32 [0x61] = 0xe8b7be43 \<and> crc32c [0x61] = 0xc1d04330 \<and> crc32c [1, 2] \<noteq> crc32c [1, 3]"
proof -
  have "crc_bitwise 0xedb88320 0xffffffff [0x61] XOR 0xffffffff = 0xe8b7be43"
    "NOT (crc_bitwise 0x82f63b78 (NOT 0) [0x61]) = 0xc1d04330"
    by (simp_all add: crc_bitwise_def crc_shift_8 crc_shift_def)
  then show ?thesis
    using checksums_correct [of "[0x61]" "[]" "[2]" "[3]" "[1]" "[]"] by simp
qed

end
