(* ===== verification/Export_Formats.thy ===== *)
theory Export_Formats
  imports Checksums
begin

text \<open>
  The desk's hand-written export formats: \<open>apps/web/src/routes/desk/zip.ts\<close> (CRC-32 and the ZIP
  writer), \<open>wav.ts\<close> (PCM WAV) and \<open>xml.ts\<close> (the serializer behind the .als project). Bytes are 8-bit
  words, the CRC is a 32-bit word; a \<open>DataView\<close> setter keeps the low bits of its number. For ZIP and WAV
  a reader of the format, as its specification describes it, is given beside the writer.
\<close>

unbundle bit_operations_syntax

subsection \<open>ZIP\<close>

record zip_entry =
  ze_name :: bytes
  ze_data :: bytes

text \<open>The local time of a \<open>Date\<close>; \<open>dosDateTime\<close>.\<close>

record local_time =
  lt_fullYear :: nat
  lt_month :: nat
  lt_date :: nat
  lt_hours :: nat
  lt_minutes :: nat
  lt_seconds :: nat

definition dos_date :: "local_time \<Rightarrow> nat" where
  "dos_date d = push_bit 9 (max 1980 (lt_fullYear d) - 1980) OR push_bit 5 (lt_month d + 1) OR lt_date d"

definition dos_time :: "local_time \<Rightarrow> nat" where
  "dos_time d = push_bit 11 (lt_hours d) OR push_bit 5 (lt_minutes d) OR drop_bit 1 (lt_seconds d)"

definition flags_utf8 :: nat where "flags_utf8 = 0x0800"
definition zip_version :: nat where "zip_version = 20"

definition crc_of :: "bytes \<Rightarrow> nat" where "crc_of data = unat (crc32 data)"

definition local_header :: "local_time \<Rightarrow> zip_entry \<Rightarrow> bytes" where
  "local_header d e =
     put32 0x04034b50 @ put16 zip_version @ put16 flags_utf8 @ put16 0 @ put16 (dos_time d) @ put16 (dos_date d)
     @ put32 (crc_of (ze_data e)) @ put32 (length (ze_data e)) @ put32 (length (ze_data e))
     @ put16 (length (ze_name e)) @ put16 0 @ ze_name e @ ze_data e"

definition central_header :: "local_time \<Rightarrow> nat \<Rightarrow> zip_entry \<Rightarrow> bytes" where
  "central_header d offset e =
     put32 0x02014b50 @ put16 zip_version @ put16 zip_version @ put16 flags_utf8 @ put16 0
     @ put16 (dos_time d) @ put16 (dos_date d)
     @ put32 (crc_of (ze_data e)) @ put32 (length (ze_data e)) @ put32 (length (ze_data e))
     @ put16 (length (ze_name e)) @ put16 0 @ put16 0 @ put16 0 @ put16 0 @ put32 0 @ put32 offset @ ze_name e"

text \<open>The loop over the entries: the local parts, the central directory and the running offset.\<close>

fun zip_parts :: "local_time \<Rightarrow> nat \<Rightarrow> zip_entry list \<Rightarrow> bytes \<times> bytes \<times> nat" where
  "zip_parts d offset [] = ([], [], offset)"
| "zip_parts d offset (e # es) =
     (let (locals, centrals, end_off) = zip_parts d (offset + length (local_header d e)) es
      in (local_header d e @ locals, central_header d offset e @ centrals, end_off))"

definition end_record :: "nat \<Rightarrow> nat \<Rightarrow> nat \<Rightarrow> bytes" where
  "end_record n centralSize offset =
     put32 0x06054b50 @ put16 0 @ put16 0 @ put16 n @ put16 n @ put32 centralSize @ put32 offset @ put16 0"

definition build_zip :: "local_time \<Rightarrow> zip_entry list \<Rightarrow> bytes" where
  "build_zip modified entries =
     (let (locals, centrals, offset) = zip_parts modified 0 entries
      in locals @ centrals @ end_record (length entries) (length centrals) offset)"

text \<open>
  A reader of the format: the end record gives the place and the number of the central headers, each of
  which gives the place of a local header, whose data must have the size and the checksum it states.
\<close>

definition read_member :: "bytes \<Rightarrow> bytes \<Rightarrow> zip_entry option" where
  "read_member file central =
     (let here = drop (rd32 (drop 42 central)) file;
          size = rd32 (drop 24 central);
          data = take size (drop (30 + rd16 (drop 26 here) + rd16 (drop 28 here)) here)
      in if rd32 central = 0x02014b50 \<and> rd32 here = 0x04034b50 \<and> rd16 (drop 10 central) = 0
            \<and> length data = size \<and> crc_of data = rd32 (drop 16 central)
         then Some \<lparr>ze_name = take (rd16 (drop 28 central)) (drop 46 central), ze_data = data\<rparr>
         else None)"

fun read_directory :: "bytes \<Rightarrow> nat \<Rightarrow> bytes \<Rightarrow> zip_entry list option" where
  "read_directory file 0 central = Some []"
| "read_directory file (Suc n) central =
     (case read_member file central of
        None \<Rightarrow> None
      | Some e \<Rightarrow>
          map_option ((#) e)
            (read_directory file n
              (drop (46 + rd16 (drop 28 central) + rd16 (drop 30 central) + rd16 (drop 32 central)) central)))"

definition read_zip :: "bytes \<Rightarrow> zip_entry list option" where
  "read_zip file =
     (let e = drop (length file - 22) file
      in if rd32 e = 0x06054b50
         then read_directory file (rd16 (drop 10 e)) (drop (rd32 (drop 16 e)) file) else None)"

lemma length_local [simp]: "length (local_header d e) = 30 + length (ze_name e) + length (ze_data e)"
  by (simp add: local_header_def)

lemma length_central [simp]: "length (central_header d offset e) = 46 + length (ze_name e)"
  by (simp add: central_header_def)

lemma length_end [simp]: "length (end_record n c offset) = 22"
  by (simp add: end_record_def)

text \<open>Each fixed field is found behind the ones before it.\<close>

lemma drop_put:
  "2 \<le> k \<Longrightarrow> drop k (put16 n @ rest) = drop (k - 2) rest" "4 \<le> k \<Longrightarrow> drop k (put32 n @ rest) = drop (k - 4) rest"
  by simp_all

definition zip_entry_ok :: "zip_entry \<Rightarrow> bool" where
  "zip_entry_ok e \<longleftrightarrow> length (ze_name e) < 65536 \<and> length (ze_data e) < 4294967296"

lemma crc_of_bound: "crc_of data < 4294967296"
  using unsigned_less [of "crc32 data", where ?'a = nat] by (simp add: crc_of_def)

lemma local_fields:
  assumes "zip_entry_ok e"
  shows "rd32 (local_header d e @ r) = 0x04034b50"
    and "rd16 (drop 26 (local_header d e @ r)) = length (ze_name e)"
    and "rd16 (drop 28 (local_header d e @ r)) = 0"
    and "drop (30 + length (ze_name e)) (local_header d e @ r) = ze_data e @ r"
  using assms unfolding local_header_def append_assoc zip_entry_ok_def
  by (simp_all add: drop_put rd16_put16 rd32_put32)

lemma central_fields:
  assumes "zip_entry_ok e" and "offset < 4294967296"
  shows "rd32 (central_header d offset e @ r) = 0x02014b50"
    and "rd16 (drop 10 (central_header d offset e @ r)) = 0"
    and "rd32 (drop 16 (central_header d offset e @ r)) = crc_of (ze_data e)"
    and "rd32 (drop 24 (central_header d offset e @ r)) = length (ze_data e)"
    and "rd16 (drop 28 (central_header d offset e @ r)) = length (ze_name e)"
    and "rd16 (drop 30 (central_header d offset e @ r)) = 0"
    and "rd16 (drop 32 (central_header d offset e @ r)) = 0"
    and "rd32 (drop 42 (central_header d offset e @ r)) = offset"
    and "drop 46 (central_header d offset e @ r) = ze_name e @ r"
  using assms unfolding central_header_def append_assoc zip_entry_ok_def
  by (simp_all add: drop_put rd16_put16 rd32_put32 crc_of_bound)

lemma read_member_back:
  assumes "zip_entry_ok e" and "offset < 4294967296" and "drop offset file = local_header d e @ rest"
  shows "read_member file (central_header d offset e @ r) = Some e"
proof -
  define c h where "c = central_header d offset e @ r" and "h = drop offset file"
  note cf = central_fields [OF assms(1,2), of d r, folded c_def]
  note lf = local_fields [OF assms(1), of d rest, folded assms(3), folded h_def]
  have "take (length (ze_data e)) (drop (30 + length (ze_name e) + 0) h) = ze_data e"
    using lf(4) by simp
  then show ?thesis
    unfolding c_def [symmetric] read_member_def cf h_def [symmetric] Let_def lf by (simp add: cf(9))
qed

lemma zip_parts_offset:
  "zip_parts d offset es = (locals, centrals, end_off) \<Longrightarrow> end_off = offset + length locals"
proof (induction es arbitrary: offset locals centrals)
  case (Cons e es)
  then obtain l c where "zip_parts d (offset + length (local_header d e)) es = (l, c, end_off)"
    and "locals = local_header d e @ l" by (auto simp: Let_def split: prod.splits)
  then show ?case using Cons.IH by force
qed simp

lemma read_directory_back:
  assumes "zip_parts d offset es = (locals, centrals, end_off)" and "list_all zip_entry_ok es"
    and "end_off < 4294967296" and "drop offset file = locals @ rest"
  shows "read_directory file (length es) (centrals @ r) = Some es"
  using assms
proof (induction es arbitrary: offset locals centrals)
  case (Cons e es)
  obtain l c where p: "zip_parts d (offset + length (local_header d e)) es = (l, c, end_off)"
    and l: "locals = local_header d e @ l" and c: "centrals = central_header d offset e @ c"
    using Cons.prems(1) by (auto simp: Let_def split: prod.splits)
  have ok: "zip_entry_ok e" "list_all zip_entry_ok es" using Cons.prems(2) by simp_all
  have off: "offset < 4294967296" using zip_parts_offset [OF Cons.prems(1)] Cons.prems(3) by simp
  have "drop (offset + length (local_header d e)) file = l @ rest"
    using Cons.prems(4) l by (metis append_assoc append_eq_conv_conj drop_drop add.commute)
  note IH = Cons.IH [OF p ok(2) Cons.prems(3) this]
  define h where "h = central_header d offset e @ c @ r"
  have "read_member file h = Some e"
    unfolding h_def using read_member_back [OF ok(1) off] Cons.prems(4) l by simp
  moreover have "drop (46 + rd16 (drop 28 h) + rd16 (drop 30 h) + rd16 (drop 32 h)) h = c @ r"
    unfolding h_def central_fields(5-7) [OF ok(1) off] by simp
  moreover have "centrals @ r = h" by (simp add: h_def c)
  ultimately show ?case using IH by simp
qed simp

text \<open>Within the limits of a plain ZIP (under 65536 entries and 4 GiB) a standard reader of the archive
  written gets back every entry, in order, with its name and its bytes, the checksums in agreement.\<close>

theorem zip_roundtrip:
  assumes "list_all zip_entry_ok entries" and "length entries < 65536"
    and "length (build_zip modified entries) < 4294967296"
  shows "read_zip (build_zip modified entries) = Some entries"
proof -
  obtain locals centrals off where p: "zip_parts modified 0 entries = (locals, centrals, off)"
    by (cases "zip_parts modified 0 entries") auto
  let ?eocd = "end_record (length entries) (length centrals) off"
  have z: "build_zip modified entries = locals @ centrals @ ?eocd"
    by (simp add: build_zip_def p)
  have off: "off = length locals" using zip_parts_offset [OF p] by simp
  have "off < 4294967296" using assms(3) z off by simp
  moreover have "drop (length (locals @ centrals @ ?eocd) - 22) (locals @ centrals @ ?eocd) = ?eocd" by simp
  moreover have "rd32 ?eocd = 0x06054b50" "rd16 (drop 10 ?eocd) = length entries" "rd32 (drop 16 ?eocd) = off"
    using assms(2) \<open>off < 4294967296\<close> unfolding end_record_def append_assoc
    by (simp_all add: drop_put rd16_put16 rd32_put32)
  moreover have "drop off (locals @ centrals @ ?eocd) = centrals @ ?eocd" using off by simp
  ultimately show ?thesis
    using read_directory_back [OF p assms(1), of "build_zip modified entries" "centrals @ ?eocd" ?eocd] z
    unfolding read_zip_def Let_def z by simp
qed

definition sample_entries :: "zip_entry list" where
  "sample_entries = [\<lparr>ze_name = [0x61], ze_data = [1, 2, 3]\<rparr>, \<lparr>ze_name = [0x62], ze_data = []\<rparr>]"

definition sample_time :: local_time where
  "sample_time = \<lparr>lt_fullYear = 2026, lt_month = 0, lt_date = 31, lt_hours = 23, lt_minutes = 59, lt_seconds = 59\<rparr>"

theorem zip_roundtrip_witness: "read_zip (build_zip sample_time sample_entries) = Some sample_entries"
  by (rule zip_roundtrip) (simp_all add: sample_entries_def zip_entry_ok_def build_zip_def Let_def)

subsection \<open>WAV\<close>

definition js_round_int :: "real \<Rightarrow> int" where "js_round_int x = \<lfloor>x + 1 / 2\<rfloor>"

definition wav_peak :: "nat \<Rightarrow> int" where
  "wav_peak bitDepth = (if bitDepth = 24 then 8388607 else 32767)"

definition quantize :: "nat \<Rightarrow> real \<Rightarrow> int" where
  "quantize bitDepth x = js_round_int (max (- 1) (min 1 x) * of_int (wav_peak bitDepth))"

definition sample_bytes :: "nat \<Rightarrow> int \<Rightarrow> bytes" where
  "sample_bytes bitDepth sample =
     (if bitDepth = 24
      then [word_of_int (sample AND 0xff), word_of_int (drop_bit 8 sample AND 0xff), word_of_int (drop_bit 16 sample AND 0xff)]
      else [word_of_int sample, word_of_int (drop_bit 8 sample)])"

text \<open>\<open>encodeWav\<close>: \<open>None\<close> where it throws. The two bit depths are 16 and 24.\<close>

definition wav_header :: "nat \<Rightarrow> nat \<Rightarrow> nat \<Rightarrow> nat \<Rightarrow> bytes" where
  "wav_header channelCount sampleRate bitDepth dataSize =
     (let blockAlign = channelCount * (bitDepth div 8)
      in [0x52, 0x49, 0x46, 0x46] @ put32 (36 + dataSize) @ [0x57, 0x41, 0x56, 0x45] @ [0x66, 0x6d, 0x74, 0x20]
         @ put32 16 @ put16 1 @ put16 channelCount @ put32 sampleRate @ put32 (sampleRate * blockAlign)
         @ put16 blockAlign @ put16 bitDepth @ [0x64, 0x61, 0x74, 0x61] @ put32 dataSize)"

definition wav_data :: "real list list \<Rightarrow> nat \<Rightarrow> nat \<Rightarrow> bytes" where
  "wav_data channels frames bitDepth =
     concat (map (\<lambda>i. concat (map (\<lambda>c. sample_bytes bitDepth (quantize bitDepth (c ! i))) channels)) [0..<frames])"

definition encode_wav :: "real list list \<Rightarrow> nat \<Rightarrow> nat \<Rightarrow> bytes option" where
  "encode_wav channels sampleRate bitDepth =
     (case channels of
        [] \<Rightarrow> None
      | c # _ \<Rightarrow>
          let frames = length c
          in if list_ex (\<lambda>c. length c \<noteq> frames) channels then None
             else Some (wav_header (length channels) sampleRate bitDepth
                          (frames * (length channels * (bitDepth div 8)))
                        @ wav_data channels frames bitDepth))"

text \<open>A reader: the format fields from the header, and one sample of one channel.\<close>

definition read_wav :: "bytes \<Rightarrow> (nat \<times> nat \<times> nat \<times> nat) option" where
  "read_wav file =
     (if take 4 file = [0x52, 0x49, 0x46, 0x46] \<and> take 4 (drop 36 file) = [0x64, 0x61, 0x74, 0x61]
         \<and> rd16 (drop 20 file) = 1 \<and> rd32 (drop 4 file) + 8 = length file
         \<and> rd32 (drop 40 file) = length (drop 44 file)
      then Some (rd16 (drop 22 file), rd32 (drop 24 file), rd16 (drop 34 file),
                 rd32 (drop 40 file) div rd16 (drop 32 file)) else None)"

fun signed_le :: "bytes \<Rightarrow> int" where
  "signed_le [] = 0"
| "signed_le [b] = sint b"
| "signed_le (b # bs) = uint b + 256 * signed_le bs"

definition wav_sample :: "bytes \<Rightarrow> nat \<Rightarrow> nat \<Rightarrow> int" where
  "wav_sample file frame channel =
     (let width = rd16 (drop 34 file) div 8
      in signed_le (take width (drop (44 + frame * rd16 (drop 32 file) + channel * width) file)))"

lemma js_round_int_bounds: "\<bar>of_int (js_round_int x) - x\<bar> \<le> 1 / 2"
  unfolding js_round_int_def by linarith

lemma quantize_close: "\<bar>of_int (quantize d x) - max (- 1) (min 1 x) * of_int (wav_peak d)\<bar> \<le> 1 / 2"
  unfolding quantize_def by (rule js_round_int_bounds)

lemma quantize_bounds: "\<bar>quantize d x\<bar> \<le> wav_peak d"
proof -
  define y where "y = max (- 1) (min 1 x) * of_int (wav_peak d)"
  have p: "0 < wav_peak d" by (simp add: wav_peak_def)
  have b: "- 1 \<le> max (- 1) (min 1 x)" "max (- 1) (min 1 x) \<le> 1" by auto
  have "- 1 * real_of_int (wav_peak d) \<le> y" "y \<le> 1 * of_int (wav_peak d)"
    unfolding y_def using p by (intro mult_right_mono b; simp)+
  then have "real_of_int (quantize d x) < of_int (wav_peak d + 1)" "of_int (- quantize d x) < real_of_int (wav_peak d + 1)"
    using quantize_close [of d x, folded y_def] by (simp_all only: of_int_add of_int_minus of_int_1)
  then have "quantize d x < wav_peak d + 1" "- quantize d x < wav_peak d + 1" unfolding of_int_less_iff .
  then show ?thesis by simp
qed

lemma sint_byte: "- 128 \<le> k \<Longrightarrow> k < 128 \<Longrightarrow> sint (word_of_int k :: 8 word) = k"
  by (simp add: signed_of_int signed_take_bit_eq_take_bit_shift take_bit_eq_mod)

lemma uint_byte: "uint (word_of_int k :: 8 word) = k mod 256"
  by (simp add: uint_word_of_int)

lemma and_255: "(k :: int) AND 255 = k mod 256"
  using take_bit_eq_mask [of 8 k] by (simp add: take_bit_eq_mod mask_eq_exp_minus_1)

lemma sample_bytes_back:
  assumes "d = 16 \<or> d = 24" and "\<bar>v\<bar> \<le> wav_peak d"
  shows "signed_le (sample_bytes d v) = v" and "length (sample_bytes d v) = d div 8"
proof -
  show "length (sample_bytes d v) = d div 8" using assms(1) by (auto simp: sample_bytes_def)
  show "signed_le (sample_bytes d v) = v"
  proof (cases "d = 24")
    case True
    then have v: "- 8388607 \<le> v" "v \<le> 8388607" using assms(2) by (auto simp: wav_peak_def)
    have top: "sint (word_of_int (v div 65536 mod 256) :: 8 word) = v div 65536"
    proof -
      have "word_of_int (v div 65536 mod 256) = (word_of_int (v div 65536) :: 8 word)"
        by (rule word_uint_eqI) (simp add: uint_byte)
      then show ?thesis using v by (simp add: sint_byte)
    qed
    have "v = v mod 256 + 256 * (v div 256 mod 256 + 256 * (v div 65536))"
      using zdiv_zmult2_eq [of 256 v 256] by simp
    with True top show ?thesis
      by (simp add: sample_bytes_def and_255 uint_byte drop_bit_eq_div)
  next
    case False
    then have d: "d = 16" using assms(1) by simp
    then have v: "- 32767 \<le> v" "v \<le> 32767" using assms(2) by (auto simp: wav_peak_def)
    have "v = v mod 256 + 256 * (v div 256)" by simp
    with d v show ?thesis by (simp add: sample_bytes_def uint_byte sint_byte drop_bit_eq_div)
  qed
qed

text \<open>Rows of equal width: the \<open>k\<close>-th starts where \<open>k\<close> of them end.\<close>

lemma drop_concat_rows:
  "(\<And>x. x \<in> set xss \<Longrightarrow> length x = w) \<Longrightarrow> k < length xss \<Longrightarrow>
     \<exists>rest. drop (k * w) (concat xss) = xss ! k @ rest"
proof (induction xss arbitrary: k)
  case (Cons xs xss)
  then show ?case by (cases k) auto
qed simp

lemma length_concat_rows: "(\<And>x. x \<in> set xss \<Longrightarrow> length x = w) \<Longrightarrow> length (concat xss) = length xss * w"
  by (induction xss) auto

lemma wav_fields:
  assumes "n < 65536" "rate < 4294967296" "d = 16 \<or> d = 24" "36 + sz < 4294967296" "n * (d div 8) < 65536"
  defines "h \<equiv> wav_header n rate d sz"
  shows "length h = 44" and "take 4 h = [0x52, 0x49, 0x46, 0x46]" and "take 4 (drop 36 h @ r) = [0x64, 0x61, 0x74, 0x61]"
    and "rd32 (drop 4 h @ r) = 36 + sz" and "rd16 (drop 20 h @ r) = 1" and "rd16 (drop 22 h @ r) = n"
    and "rd32 (drop 24 h @ r) = rate" and "rd16 (drop 32 h @ r) = n * (d div 8)" and "rd16 (drop 34 h @ r) = d"
    and "rd32 (drop 40 h @ r) = sz"
  using assms(1-5) unfolding h_def wav_header_def Let_def
  by (auto simp: drop_put rd16_put16 rd32_put32 drop_append)

lemma wav_data_rows:
  assumes "d = 16 \<or> d = 24" and "i < frames" and "c < length channels"
  shows "length (wav_data channels frames d) = frames * (length channels * (d div 8))"
    and "\<exists>rest. drop (i * (length channels * (d div 8)) + c * (d div 8)) (wav_data channels frames d)
        = sample_bytes d (quantize d (channels ! c ! i)) @ rest"
proof -
  let ?s = "\<lambda>i c. sample_bytes d (quantize d (c ! i))"
  let ?row = "\<lambda>i. concat (map (?s i) channels)"
  have w: "length (?s i c) = d div 8" for i c using sample_bytes_back(2) [OF assms(1) quantize_bounds] .
  have row: "length (?row i) = length channels * (d div 8)" for i
    using length_concat_rows [of "map (?s i) channels" "d div 8"] w by auto
  show "length (wav_data channels frames d) = frames * (length channels * (d div 8))"
    using length_concat_rows [of "map ?row [0..<frames]" "length channels * (d div 8)"] row
    by (auto simp: wav_data_def)
  obtain r1 where r1: "drop (i * (length channels * (d div 8))) (wav_data channels frames d) = ?row i @ r1"
    using drop_concat_rows [of "map ?row [0..<frames]" "length channels * (d div 8)" i] row assms(2)
    by (auto simp: wav_data_def)
  obtain r2 where r2: "drop (c * (d div 8)) (?row i) = ?s i (channels ! c) @ r2"
    using drop_concat_rows [of "map (?s i) channels" "d div 8" c] w assms(3) by auto
  have "c * (d div 8) \<le> length (?row i)" using row assms(3) by (simp add: mult_le_mono1)
  then show "\<exists>rest. drop (i * (length channels * (d div 8)) + c * (d div 8)) (wav_data channels frames d)
        = ?s i (channels ! c) @ rest"
    using r1 r2 by (metis (no_types, lifting) add.commute append_assoc diff_is_0_eq drop0 drop_append drop_drop)
qed

text \<open>A WAV file that fits its 32-bit sizes states its channel count, rate, bit depth and length, and
  every sample read from it is the clamped input sample to within half a step of the bit depth.\<close>

theorem wav_roundtrip:
  assumes "encode_wav channels sampleRate bitDepth = Some file"
    and "bitDepth = 16 \<or> bitDepth = 24" and "length file < 4294967296" and "sampleRate < 4294967296"
    and "length channels * (bitDepth div 8) < 65536" and "i < length (hd channels)" and "c < length channels"
  shows "read_wav file = Some (length channels, sampleRate, bitDepth, length (hd channels))
    \<and> \<bar>of_int (wav_sample file i c) - max (- 1) (min 1 (channels ! c ! i)) * of_int (wav_peak bitDepth)\<bar> \<le> 1 / 2"
proof -
  let ?n = "length channels" let ?frames = "length (hd channels)" let ?w = "bitDepth div 8"
  let ?size = "?frames * (?n * ?w)"
  define h where "h = wav_header ?n sampleRate bitDepth ?size"
  define data where "data = wav_data channels ?frames bitDepth"
  have fd: "file = h @ data"
    using assms(1) by (auto simp: encode_wav_def h_def data_def Let_def split: list.splits if_splits)
  have n: "0 < ?n" "?n < 65536" using assms(2,5,7) by auto
  have w: "0 < ?w" using assms(2) by auto
  have len: "length data = ?size"
    unfolding data_def by (rule wav_data_rows(1) [OF assms(2,6,7)])
  have l44: "length h = 44" unfolding h_def wav_header_def by (simp add: Let_def)
  then have "36 + ?size < 4294967296" using assms(3) len unfolding fd by simp
  note f = wav_fields [OF n(2) assms(4,2) this assms(5), folded h_def]
  have dk: "drop k file = drop k h @ data" if "k \<le> 44" for k using that l44 by (simp add: fd)
  have "take 4 file = take 4 h" using l44 by (simp add: fd)
  moreover have "?size div (?n * ?w) = ?frames" using n w by simp
  ultimately have r: "read_wav file = Some (?n, sampleRate, bitDepth, ?frames)"
    using f(3) [of data] unfolding read_wav_def
    by (simp add: dk f len l44 del: take_append drop_append) (simp add: fd len l44)
  obtain rest where rest: "drop (i * (?n * ?w) + c * ?w) data = sample_bytes bitDepth (quantize bitDepth (channels ! c ! i)) @ rest"
    unfolding data_def using wav_data_rows(2) [OF assms(2,6,7)] by blast
  have "drop (44 + i * (?n * ?w) + c * ?w) file = drop (i * (?n * ?w) + c * ?w) data"
    using l44 by (simp add: fd add.assoc)
  then have "wav_sample file i c = quantize bitDepth (channels ! c ! i)"
    unfolding wav_sample_def using rest sample_bytes_back [OF assms(2) quantize_bounds]
    by (simp add: dk f Let_def)
  then show ?thesis using r quantize_close by simp
qed

theorem wav_roundtrip_witness:
  "\<exists>file. encode_wav [[0, 1], [- 3, 1 / 2]] 48000 24 = Some file \<and> read_wav file = Some (2, 48000, 24, 2)
     \<and> \<bar>of_int (wav_sample file 0 1) - - 8388607\<bar> \<le> (1 / 2 :: real)"
proof -
  have w: "length (wav_data [[0, 1], [- 3, 1 / 2]] 2 24) = 12"
    by (simp add: wav_data_def eval_nat_numeral sample_bytes_def)
  obtain wav where enc: "encode_wav [[0, 1], [- 3, 1 / 2]] 48000 24 = Some wav" "length wav = 56"
    using w by (simp add: numeral_2_eq_2 [symmetric] encode_wav_def wav_header_def Let_def)
  from wav_roundtrip [OF enc(1), of 0 1] enc show ?thesis by (simp add: wav_peak_def)
qed

subsection \<open>XML\<close>

datatype xml_value = XStr string | XNum real

datatype xml_element = XmlElement (xml_tag: string) (xml_attrs: "(string \<times> xml_value) list") (xml_children: "xml_element list")

definition name_start :: "char \<Rightarrow> bool" where
  "name_start c \<longleftrightarrow> c \<in> set ''ABCDEFGHIJKLMNOPQRSTUVWXYZabcdefghijklmnopqrstuvwxyz_''"

definition name_rest :: "char \<Rightarrow> bool" where
  "name_rest c \<longleftrightarrow> name_start c \<or> c \<in> set ''0123456789._-''"

fun name_re :: "string \<Rightarrow> bool" where
  "name_re [] \<longleftrightarrow> False"
| "name_re (c # cs) \<longleftrightarrow> name_start c \<and> list_all name_rest cs"

text \<open>\<open>el\<close>, with \<open>None\<close> where it throws; \<open>val\<close>.\<close>

definition el :: "string \<Rightarrow> (string \<times> xml_value) list \<Rightarrow> xml_element list \<Rightarrow> xml_element option" where
  "el tag attrs children =
     (if \<not> name_re tag \<or> list_ex (\<lambda>(n, _). \<not> name_re n) attrs then None
      else Some (XmlElement tag attrs children))"

definition val_el :: "string \<Rightarrow> xml_value \<Rightarrow> xml_element option" where
  "val_el tag v = el tag [(''Value'', v)] []"

definition replace_all :: "char \<Rightarrow> string \<Rightarrow> string \<Rightarrow> string" where
  "replace_all c rep s = concat (map (\<lambda>x. if x = c then rep else [x]) s)"

definition escape_xml :: "string \<Rightarrow> string" where
  "escape_xml raw =
     replace_all (CHR 0x27) ''&apos;''
       (replace_all (CHR 0x22) ''&quot;''
         (replace_all CHR ''>'' ''&gt;''
           (replace_all CHR ''<'' ''&lt;''
             (replace_all CHR ''&'' ''&amp;'' raw))))"

text \<open>\<open>num_text\<close> stands for \<open>String(n)\<close>; real numbers are finite.\<close>

definition format_number :: "(real \<Rightarrow> string) \<Rightarrow> real \<Rightarrow> string option" where
  "format_number num_text n =
     (let s = num_text n in if CHR ''e'' \<in> set s \<or> CHR ''E'' \<in> set s then None else Some s)"

fun format_attr :: "(real \<Rightarrow> string) \<Rightarrow> xml_value \<Rightarrow> string option" where
  "format_attr num_text (XNum n) = format_number num_text n"
| "format_attr num_text (XStr s) = Some (escape_xml s)"

fun format_attrs :: "(real \<Rightarrow> string) \<Rightarrow> (string \<times> xml_value) list \<Rightarrow> string option" where
  "format_attrs num_text [] = Some []"
| "format_attrs num_text ((n, v) # attrs) =
     (case (format_attr num_text v, format_attrs num_text attrs) of
        (Some t, Some rest) \<Rightarrow> Some ('' '' @ n @ ''='' @ [CHR 0x22] @ t @ [CHR 0x22] @ rest)
      | _ \<Rightarrow> None)"

fun serialize_into :: "(real \<Rightarrow> string) \<Rightarrow> nat \<Rightarrow> xml_element \<Rightarrow> string list option"
and serialize_list :: "(real \<Rightarrow> string) \<Rightarrow> nat \<Rightarrow> xml_element list \<Rightarrow> string list option" where
  "serialize_into num_text depth (XmlElement tag attrs children) =
     (case format_attrs num_text attrs of
        None \<Rightarrow> None
      | Some a \<Rightarrow>
          let indent = replicate depth (CHR 0x09)
          in if children = [] then Some [indent @ ''<'' @ tag @ a @ '' />'']
             else map_option (\<lambda>ls. (indent @ ''<'' @ tag @ a @ ''>'') # ls @ [indent @ ''</'' @ tag @ ''>''])
                    (serialize_list num_text (depth + 1) children))"
| "serialize_list num_text depth [] = Some []"
| "serialize_list num_text depth (e # es) =
     (case (serialize_into num_text depth e, serialize_list num_text depth es) of
        (Some a, Some b) \<Rightarrow> Some (a @ b) | _ \<Rightarrow> None)"

definition serialize_xml :: "(real \<Rightarrow> string) \<Rightarrow> xml_element \<Rightarrow> string option" where
  "serialize_xml num_text doc =
     map_option (\<lambda>ls. concat (map (\<lambda>l. l @ [CHR 0x0A])
                   ((''<?xml version='' @ [CHR 0x22] @ ''1.0'' @ [CHR 0x22] @ '' encoding='' @ [CHR 0x22] @ ''UTF-8''
                     @ [CHR 0x22] @ ''?>'') # ls)))
       (serialize_into num_text 0 doc)"

text \<open>Escaping in one pass, and its inverse.\<close>

fun escape_char :: "char \<Rightarrow> string" where
  "escape_char c =
     (if c = CHR ''&'' then ''&amp;'' else if c = CHR ''<'' then ''&lt;'' else if c = CHR ''>'' then ''&gt;''
      else if c = CHR 0x22 then ''&quot;'' else if c = CHR 0x27 then ''&apos;'' else [c])"

lemma replace_all_append [simp]: "replace_all c r (a @ b) = replace_all c r a @ replace_all c r b"
  by (simp add: replace_all_def)

lemma replace_all_Nil [simp]: "replace_all c r [] = []"
  by (simp add: replace_all_def)

lemma replace_all_Cons [simp]: "replace_all c r (x # s) = (if x = c then r else [x]) @ replace_all c r s"
  by (simp add: replace_all_def)

lemma escape_xml_char: "escape_xml (c # s) = escape_char c @ escape_xml s"
  by (simp add: escape_xml_def)

lemma escape_xml_one_pass: "escape_xml s = concat (map escape_char s)"
  by (induction s) (simp_all add: escape_xml_char del: escape_char.simps, simp add: escape_xml_def)

lemma escape_xml_safe: "set (escape_xml s) \<inter> {CHR ''<'', CHR ''>'', CHR 0x22, CHR 0x27} = {}"
  by (induction s) (auto simp: escape_xml_one_pass)

function unescape_xml :: "string \<Rightarrow> string" where
  "unescape_xml s =
     (case s of [] \<Rightarrow> []
      | c # cs \<Rightarrow>
          if take 5 s = ''&amp;'' then CHR ''&'' # unescape_xml (drop 5 s)
          else if take 4 s = ''&lt;'' then CHR ''<'' # unescape_xml (drop 4 s)
          else if take 4 s = ''&gt;'' then CHR ''>'' # unescape_xml (drop 4 s)
          else if take 6 s = ''&quot;'' then CHR 0x22 # unescape_xml (drop 6 s)
          else if take 6 s = ''&apos;'' then CHR 0x27 # unescape_xml (drop 6 s)
          else c # unescape_xml cs)"
  by pat_completeness auto
termination by (relation "measure size") auto

declare unescape_xml.simps [simp del]

lemma unescape_escape: "unescape_xml (escape_xml s) = s"
proof (induction s)
  case (Cons c s)
  have "unescape_xml (escape_char c @ r) = c # unescape_xml r" for r
    by (subst unescape_xml.simps) auto
  with Cons show ?case by (simp add: escape_xml_char del: escape_char.simps)
qed (simp add: escape_xml_def unescape_xml.simps)

end
