(* ===== verification/Load_Queue.thy ===== *)
theory Load_Queue
  imports Prelude "HOL-Library.Multiset"
begin

text \<open>
  The latest-wins queue of take loads: \<open>apps/web/src/routes/desk/load-queue.ts\<close>, and the job and handlers
  \<open>take-load.ts\<close> gives it. A step is what runs between two awaits: a request, or the continuation after an
  awaited load, alignment or job.
\<close>

subsection \<open>The queue\<close>

text \<open>\<open>inFlight\<close> is the presence of a current request.\<close>

record 'r load_queue =
  lq_current :: "'r option"
  lq_pending :: "'r option"

text \<open>The calls the queue makes of its constructor's functions.\<close>

datatype 'r lq_call = Run 'r | OnError 'r | OnDropped 'r

definition new_load_queue :: "'r load_queue" where
  "new_load_queue = \<lparr>lq_current = None, lq_pending = None\<rparr>"

definition lq_busy :: "'r load_queue \<Rightarrow> bool" where "lq_busy q \<longleftrightarrow> lq_current q \<noteq> None"

definition superseded :: "'r load_queue \<Rightarrow> bool" where "superseded q \<longleftrightarrow> lq_pending q \<noteq> None"

definition lq_request :: "'r \<Rightarrow> 'r load_queue \<Rightarrow> 'r load_queue \<times> 'r lq_call list" where
  "lq_request r q =
     (case lq_current q of
        Some _ \<Rightarrow> (q\<lparr>lq_pending := Some r\<rparr>, (case lq_pending q of None \<Rightarrow> [] | Some p \<Rightarrow> [OnDropped p]))
      | None \<Rightarrow> (q\<lparr>lq_current := Some r\<rparr>, [Run r]))"

text \<open>
  The loop of \<open>drain\<close> after the awaited run: the error handler, then the pending request. A handler that
  throws leaves the loop by the \<open>finally\<close>.
\<close>

definition lq_settle :: "bool \<Rightarrow> bool \<Rightarrow> 'r load_queue \<Rightarrow> 'r load_queue \<times> 'r lq_call list" where
  "lq_settle failed handlerThrows q =
     (case lq_current q of
        None \<Rightarrow> (q, [])
      | Some r \<Rightarrow>
          let calls = (if failed then [OnError r] else [])
          in if failed \<and> handlerThrows then (q\<lparr>lq_current := None\<rparr>, calls)
             else (case lq_pending q of
                     None \<Rightarrow> (q\<lparr>lq_current := None\<rparr>, calls)
                   | Some p \<Rightarrow> (q\<lparr>lq_current := Some p, lq_pending := None\<rparr>, calls @ [Run p])))"

text \<open>A handler that throws strands the pending request: the next one runs before it.\<close>

lemma throwing_handler_strands:
  assumes "lq_current q = Some a" "lq_pending q = Some b"
  shows "snd (lq_request c (fst (lq_settle True True q))) = [Run c]"
    and "snd (lq_settle False False (fst (lq_request c (fst (lq_settle True True q))))) = [Run b]"
  using assms by (simp_all add: lq_settle_def lq_request_def)

subsection \<open>Take loads\<close>

record take_load_request =
  tr_id :: nat
  tr_align :: bool
  tr_forceAlignScope :: bool

datatype load_status = LoadOk | LoadSuperseded | LoadFailed

text \<open>Where the job of the current request waits: for the load, for the alignment, or for the queue.\<close>

datatype job_phase = JLoading | JAligning | JEnded

record take_loads =
  tl_queue :: "take_load_request load_queue"
  tl_phase :: job_phase
  tl_settled :: "(take_load_request \<times> load_status) list"

definition no_take_loads :: take_loads where
  "no_take_loads = \<lparr>tl_queue = new_load_queue, tl_phase = JLoading, tl_settled = []\<rparr>"

definition settle_as :: "take_load_request \<Rightarrow> load_status \<Rightarrow> take_loads \<Rightarrow> take_loads" where
  "settle_as r st s = s\<lparr>tl_settled := tl_settled s @ [(r, st)]\<rparr>"

text \<open>The three functions of the constructor call: the job begins, the error handler, the drop handler.\<close>

fun handle_call :: "take_load_request lq_call \<Rightarrow> take_loads \<Rightarrow> take_loads" where
  "handle_call (Run r) s = s\<lparr>tl_phase := JLoading\<rparr>"
| "handle_call (OnError r) s = settle_as r LoadFailed s"
| "handle_call (OnDropped r) s = settle_as r LoadSuperseded s"

definition through_queue ::
    "(take_load_request load_queue \<Rightarrow> take_load_request load_queue \<times> take_load_request lq_call list)
     \<Rightarrow> take_loads \<Rightarrow> take_loads" where
  "through_queue f s = (let (q, calls) = f (tl_queue s) in fold handle_call calls (s\<lparr>tl_queue := q\<rparr>))"

datatype load_event =
    RequestTakeLoad take_load_request
  | Loaded bool        \<comment> \<open>the player's answer\<close>
  | Aligned
  | JobThrows
  | JobReturned

definition after_load :: "bool \<Rightarrow> take_load_request \<Rightarrow> take_loads \<Rightarrow> take_loads" where
  "after_load ok r s =
     (if \<not> ok \<or> superseded (tl_queue s)
      then settle_as r (if ok then LoadSuperseded else LoadFailed) (s\<lparr>tl_phase := JEnded\<rparr>)
      else if tr_forceAlignScope r \<or> tr_align r then s\<lparr>tl_phase := JAligning\<rparr>
      else settle_as r (if superseded (tl_queue s) then LoadSuperseded else LoadOk) (s\<lparr>tl_phase := JEnded\<rparr>))"

text \<open>One step; an event that does not fit where the job waits changes nothing.\<close>

fun load_step :: "take_loads \<Rightarrow> load_event \<Rightarrow> take_loads" where
  "load_step s (RequestTakeLoad r) = through_queue (lq_request r) s"
| "load_step s (Loaded ok) =
     (case lq_current (tl_queue s) of
        Some r \<Rightarrow> if tl_phase s = JLoading then after_load ok r s else s
      | None \<Rightarrow> s)"
| "load_step s Aligned =
     (case lq_current (tl_queue s) of
        Some r \<Rightarrow>
          if tl_phase s = JAligning
          then settle_as r (if superseded (tl_queue s) then LoadSuperseded else LoadOk) (s\<lparr>tl_phase := JEnded\<rparr>)
          else s
      | None \<Rightarrow> s)"
| "load_step s JobThrows =
     (if tl_phase s = JEnded then s else through_queue (lq_settle True False) s)"
| "load_step s JobReturned =
     (if tl_phase s = JEnded then through_queue (lq_settle False False) s else s)"

text \<open>The requests of a run, and whether an event continues the job where it waits.\<close>

definition requests_of :: "load_event list \<Rightarrow> take_load_request list" where
  "requests_of es = List.map_filter (\<lambda>e. case e of RequestTakeLoad r \<Rightarrow> Some r | _ \<Rightarrow> None) es"

fun continues_job :: "take_loads \<Rightarrow> load_event \<Rightarrow> bool" where
  "continues_job s (RequestTakeLoad r) \<longleftrightarrow> False"
| "continues_job s (Loaded ok) \<longleftrightarrow> lq_busy (tl_queue s) \<and> tl_phase s = JLoading"
| "continues_job s Aligned \<longleftrightarrow> lq_busy (tl_queue s) \<and> tl_phase s = JAligning"
| "continues_job s JobThrows \<longleftrightarrow> lq_busy (tl_queue s) \<and> tl_phase s \<noteq> JEnded"
| "continues_job s JobReturned \<longleftrightarrow> lq_busy (tl_queue s) \<and> tl_phase s = JEnded"

text \<open>Requests neither settled nor lost: the running job's before it settled, and the pending one.\<close>

definition unsettled :: "take_loads \<Rightarrow> take_load_request list" where
  "unsettled s =
     (case lq_current (tl_queue s) of Some r \<Rightarrow> if tl_phase s = JEnded then [] else [r] | None \<Rightarrow> [])
     @ (case lq_pending (tl_queue s) of Some p \<Rightarrow> [p] | None \<Rightarrow> [])"

definition accounted :: "take_load_request list \<Rightarrow> take_loads \<Rightarrow> bool" where
  "accounted rs s \<longleftrightarrow>
     mset (map fst (tl_settled s)) + mset (unsettled s) = mset rs
   \<and> (lq_current (tl_queue s) = None \<longrightarrow> lq_pending (tl_queue s) = None)
   \<and> (\<forall>r. lq_pending (tl_queue s) = Some r \<longrightarrow> rs \<noteq> [] \<and> last rs = r)
   \<and> (\<forall>r. lq_current (tl_queue s) = Some r \<longrightarrow> lq_pending (tl_queue s) = None \<longrightarrow> rs \<noteq> [] \<and> last rs = r)"

lemmas load_step_simps =
  through_queue_def lq_request_def lq_settle_def after_load_def settle_as_def superseded_def unsettled_def
  accounted_def lq_busy_def Let_def

lemma accounted_step:
  assumes "accounted rs s"
  shows "accounted (case e of RequestTakeLoad r \<Rightarrow> rs @ [r] | _ \<Rightarrow> rs) (load_step s e)"
proof (cases e)
  case (RequestTakeLoad r)
  then show ?thesis using assms
    by (cases "lq_current (tl_queue s)"; cases "lq_pending (tl_queue s)") (auto simp: load_step_simps add_mset_commute)
next
  case (Loaded ok)
  then show ?thesis using assms
    by (cases "lq_current (tl_queue s)"; cases "lq_pending (tl_queue s)"; cases "tl_phase s")
      (auto simp: load_step_simps add_mset_commute)
next
  case Aligned
  then show ?thesis using assms
    by (cases "lq_current (tl_queue s)"; cases "lq_pending (tl_queue s)"; cases "tl_phase s") (auto simp: load_step_simps add_mset_commute)
next
  case JobThrows
  then show ?thesis using assms
    by (cases "lq_current (tl_queue s)"; cases "lq_pending (tl_queue s)"; cases "tl_phase s") (auto simp: load_step_simps add_mset_commute)
next
  case JobReturned
  then show ?thesis using assms
    by (cases "lq_current (tl_queue s)"; cases "lq_pending (tl_queue s)"; cases "tl_phase s") (auto simp: load_step_simps)
qed

text \<open>The newest request is never reported superseded.\<close>

definition newest_stands :: "take_load_request list \<Rightarrow> take_loads \<Rightarrow> bool" where
  "newest_stands rs s \<longleftrightarrow> (rs \<noteq> [] \<longrightarrow> (last rs, LoadSuperseded) \<notin> set (tl_settled s))"

lemma accounted_distinct:
  assumes "accounted rs s" and "distinct rs" and "lq_current (tl_queue s) = Some r"
    and "lq_pending (tl_queue s) = Some p" and "tl_phase s \<noteq> JEnded"
  shows "r \<noteq> last rs"
proof -
  have "last rs = p" using assms(1,4) by (auto simp: accounted_def)
  moreover have "distinct (map fst (tl_settled s) @ unsettled s)"
    using assms(1,2) unfolding accounted_def by (metis mset_append mset_eq_imp_distinct_iff)
  ultimately show ?thesis using assms(3-5) by (auto simp: unsettled_def)
qed

lemma settled_requested: "accounted rs s \<Longrightarrow> (r, st) \<in> set (tl_settled s) \<Longrightarrow> r \<in> set rs"
proof -
  assume "accounted rs s" "(r, st) \<in> set (tl_settled s)"
  then have "r \<in># mset (map fst (tl_settled s))" "mset (map fst (tl_settled s)) \<subseteq># mset rs"
    unfolding accounted_def by (force, metis mset_subset_eq_add_left)
  then show "r \<in> set rs" by (metis mset_subset_eqD set_mset_mset)
qed

lemma newest_step:
  assumes "accounted rs s" and "newest_stands rs s" and "distinct (case e of RequestTakeLoad r \<Rightarrow> rs @ [r] | _ \<Rightarrow> rs)"
  shows "newest_stands (case e of RequestTakeLoad r \<Rightarrow> rs @ [r] | _ \<Rightarrow> rs) (load_step s e)"
proof (cases e)
  case (RequestTakeLoad r)
  have "r \<notin> set rs" using assms(3) RequestTakeLoad by simp
  moreover have "lq_pending (tl_queue s) = Some p \<Longrightarrow> p \<in> set rs" for p
    using assms(1) unfolding accounted_def by (metis last_in_set)
  ultimately show ?thesis using RequestTakeLoad settled_requested [OF assms(1)]
    by (cases "lq_current (tl_queue s)"; cases "lq_pending (tl_queue s)")
       (auto simp: newest_stands_def load_step_simps)
next
  case (Loaded ok)
  then show ?thesis using assms accounted_distinct [OF assms(1)]
    by (cases "lq_current (tl_queue s)"; cases "lq_pending (tl_queue s)"; cases "tl_phase s")
       (auto simp: newest_stands_def load_step_simps)
next
  case Aligned
  then show ?thesis using assms accounted_distinct [OF assms(1)]
    by (cases "lq_current (tl_queue s)"; cases "lq_pending (tl_queue s)"; cases "tl_phase s")
       (auto simp: newest_stands_def load_step_simps)
next
  case JobThrows
  then show ?thesis using assms
    by (cases "lq_current (tl_queue s)"; cases "lq_pending (tl_queue s)"; cases "tl_phase s")
       (auto simp: newest_stands_def load_step_simps)
next
  case JobReturned
  then show ?thesis using assms
    by (cases "lq_current (tl_queue s)"; cases "lq_pending (tl_queue s)"; cases "tl_phase s")
       (auto simp: newest_stands_def load_step_simps)
qed

lemma load_run_invariant:
  assumes "accounted rs s" and "newest_stands rs s" and "distinct (rs @ requests_of es)"
  shows "accounted (rs @ requests_of es) (run load_step s es) \<and> newest_stands (rs @ requests_of es) (run load_step s es)"
  using assms
proof (induction es arbitrary: rs s)
  case Nil
  then show ?case by (simp add: requests_of_def map_filter_simps)
next
  case (Cons e es)
  let ?rs = "case e of RequestTakeLoad r \<Rightarrow> rs @ [r] | _ \<Rightarrow> rs"
  have split: "rs @ requests_of (e # es) = ?rs @ requests_of es"
    by (cases e) (simp_all add: requests_of_def map_filter_simps)
  then have d: "distinct (?rs @ requests_of es)" using Cons.prems(3) by metis
  then have "newest_stands ?rs (load_step s e)" using Cons.prems newest_step [of rs s e] by simp
  from Cons.IH [OF accounted_step [OF Cons.prems(1), of e] this d]
  show ?case unfolding split by simp
qed

text \<open>What a job still has to do, the pending one's included.\<close>

definition work_left :: "take_loads \<Rightarrow> nat" where
  "work_left s =
     (case lq_current (tl_queue s) of None \<Rightarrow> 0
      | Some _ \<Rightarrow> (case tl_phase s of JLoading \<Rightarrow> 3 | JAligning \<Rightarrow> 2 | JEnded \<Rightarrow> 1))
     + (if lq_pending (tl_queue s) = None then 0 else 3)"

lemma work_step: "continues_job s e \<Longrightarrow> work_left (load_step s e) < work_left s"
  by (cases e; cases "lq_current (tl_queue s)"; cases "lq_pending (tl_queue s)"; cases "tl_phase s")
     (auto simp: work_left_def load_step_simps)

interpretation loads: settling_machine load_step "\<lambda>_. True" continues_job work_left
  by unfold_locales (auto dest: work_step)

lemma continued_requests: "legal load_step continues_job s cs \<Longrightarrow> requests_of cs = []"
proof (induction cs arbitrary: s)
  case (Cons e cs)
  then show ?case by (cases e) (auto simp: requests_of_def map_filter_simps)
qed (simp add: requests_of_def map_filter_simps)

text \<open>Every take load asked for is answered: once no new one arrives the queue needs at most six more
  completions, each load awaited or job ended, of which there is always one to come while it is busy; and
  when it is idle every request has been settled exactly once, the newest one not as superseded.\<close>

theorem take_loads_settle:
  assumes "distinct (requests_of es)" and "legal load_step continues_job (run load_step no_take_loads es) cs"
  defines "s \<equiv> run load_step (run load_step no_take_loads es) cs"
  shows "length cs \<le> 6
    \<and> (lq_busy (tl_queue s) \<longrightarrow> (\<exists>e. continues_job s e))
    \<and> (\<not> lq_busy (tl_queue s) \<longrightarrow>
         mset (map fst (tl_settled s)) = mset (requests_of es)
         \<and> (requests_of es \<noteq> [] \<longrightarrow> (last (requests_of es), LoadSuperseded) \<notin> set (tl_settled s)))"
proof (intro conjI impI)
  have s: "s = run load_step no_take_loads (es @ cs)" by (simp add: s_def)
  have "requests_of (es @ cs) = requests_of es"
    using continued_requests [OF assms(2)] by (simp add: requests_of_def map_filter_def)
  moreover have "accounted [] no_take_loads" "newest_stands [] no_take_loads"
    by (simp_all add: accounted_def newest_stands_def no_take_loads_def new_load_queue_def unsettled_def)
  ultimately have inv: "accounted (requests_of es) s \<and> newest_stands (requests_of es) s"
    using load_run_invariant [of "[]" no_take_loads "es @ cs"] assms(1) unfolding s by simp
  have "work_left t \<le> 6" for t by (simp add: work_left_def split: option.splits job_phase.splits)
  then show "length cs \<le> 6" using loads.settles [OF TrueI assms(2)] by (meson add_leE le_trans)
  show "\<exists>e. continues_job s e" if "lq_busy (tl_queue s)"
    using that by (cases "tl_phase s") (metis continues_job.simps)+
  assume "\<not> lq_busy (tl_queue s)"
  then have "unsettled s = []" using inv by (auto simp: accounted_def unsettled_def lq_busy_def)
  then show "mset (map fst (tl_settled s)) = mset (requests_of es)" using inv by (auto simp: accounted_def)
  show "(last (requests_of es), LoadSuperseded) \<notin> set (tl_settled s)" if "requests_of es \<noteq> []"
    using inv that by (simp add: newest_stands_def)
qed

definition sample_request :: "nat \<Rightarrow> take_load_request" where
  "sample_request n = \<lparr>tr_id = n, tr_align = True, tr_forceAlignScope = False\<rparr>"

theorem take_loads_settle_witness:
  "\<exists>es cs. requests_of es = map sample_request [1, 2, 3] \<and> length cs = 3
     \<and> mset (map fst (tl_settled (run load_step (run load_step no_take_loads es) cs))) = mset (map sample_request [1, 2, 3])"
proof -
  let ?es = "map (RequestTakeLoad \<circ> sample_request) [1, 2, 3]"
  let ?cs = "[Loaded True, JobReturned, JobThrows]"
  note defs = no_take_loads_def new_load_queue_def load_step_simps sample_request_def
  have r: "requests_of ?es = map sample_request [1, 2, 3]" by (simp add: requests_of_def map_filter_simps)
  have c: "legal load_step continues_job (run load_step no_take_loads ?es) ?cs" by (simp add: defs)
  have "distinct (requests_of ?es)" unfolding r by (simp add: sample_request_def)
  note t = take_loads_settle [OF this c]
  have "\<not> lq_busy (tl_queue (run load_step (run load_step no_take_loads ?es) ?cs))" by (simp add: defs)
  with t r show ?thesis by (intro exI [of _ ?es] exI [of _ ?cs]) simp
qed

end
