(* ===== verification/Collab_Doc.thy ===== *)
theory Collab_Doc
  imports Json_Store Regions
begin

text \<open>
  The shared project document, \<open>apps/web/src/net/collab-doc.ts\<close> and \<open>collab-doc-lists.ts\<close>: its maps, the
  hostile-data boundary of the clip regions, and the marker and comment lists with their same-id rule. A
  replica of the document is a record of its maps and arrays; a transaction is one function. Values of the
  \<open>regions\<close> map are whatever a Yjs map can hold, since any build may write them: numbers can be NaN or
  infinite. Comparing two values of one shape by their JSON text is comparing them, as long as one of them
  has finite numbers only (the others are all written \<open>null\<close>).
\<close>

subsection \<open>Values of a shared map\<close>

datatype js_number = Fin real | NaN | PosInf | NegInf

datatype shared_value =
    SUndefined
  | SNull
  | SBool bool
  | SNum js_number
  | SStr string
  | SArr "shared_value list"
  | SObj "(string \<times> shared_value) list"

fun shared_field :: "shared_value \<Rightarrow> string \<Rightarrow> shared_value" where
  "shared_field (SObj props) k = (case map_of props k of None \<Rightarrow> SUndefined | Some v \<Rightarrow> v)"
| "shared_field _ k = SUndefined"

text \<open>\<open>Number.isFinite\<close>, with the number it lets through: no coercion, no NaN, no infinity.\<close>

fun finite_number :: "shared_value \<Rightarrow> real option" where
  "finite_number (SNum (Fin x)) = Some x"
| "finite_number _ = None"

lemma finite_number_Some: "finite_number v = Some x \<longleftrightarrow> v = SNum (Fin x)"
  by (cases v rule: finite_number.cases) auto

subsection \<open>The document\<close>

record eq_state =
  eq_lowDb :: real
  eq_midDb :: real
  eq_midHz :: real
  eq_highDb :: real
  eq_bypassed :: bool

record mix_strip =
  ms_gainDb :: real
  ms_pan :: real
  ms_muted :: bool
  ms_soloed :: bool
  ms_eq :: eq_state

definition default_mix_strip :: mix_strip where
  "default_mix_strip =
     \<lparr>ms_gainDb = 0, ms_pan = 0, ms_muted = False, ms_soloed = False,
      ms_eq = \<lparr>eq_lowDb = 0, eq_midDb = 0, eq_midHz = 1000, eq_highDb = 0, eq_bypassed = False\<rparr>\<rparr>"

datatype list_kind = KMarkers | KComments

text \<open>A list element: its id and the rest of it.\<close>

record 'p list_item =
  li_id :: string
  li_payload :: 'p

record 'p project_doc =
  pd_mix :: "(string, mix_strip) jsmap"
  pd_arrange :: "(string, real) jsmap"
  pd_laneOrder :: "(string, real) jsmap"
  pd_regions :: "(string, shared_value) jsmap"
  pd_lists :: "(list_kind \<times> string, 'p list_item list) jsmap"
  pd_seeded :: "(list_kind \<times> string, bool) jsmap"

definition empty_doc :: "'p project_doc" where
  "empty_doc = \<lparr>pd_mix = [], pd_arrange = [], pd_laneOrder = [], pd_regions = [], pd_lists = [], pd_seeded = []\<rparr>"

subsection \<open>Mix\<close>

definition read_mix :: "'p project_doc \<Rightarrow> (string, mix_strip) jsmap" where
  "read_mix doc = pd_mix doc"

definition write_mix_if_changed :: "string \<Rightarrow> mix_strip \<Rightarrow> 'p project_doc \<Rightarrow> bool \<times> 'p project_doc" where
  "write_mix_if_changed key st doc =
     (let current = (case jm_get (pd_mix doc) key of None \<Rightarrow> default_mix_strip | Some v \<Rightarrow> v)
      in if current = st then (False, doc) else (True, doc\<lparr>pd_mix := jm_set key st (pd_mix doc)\<rparr>))"

subsection \<open>Arrangement and lane order\<close>

definition write_number_map :: "(string, real) jsmap \<Rightarrow> (string, real) jsmap \<Rightarrow> bool \<times> (string, real) jsmap" where
  "write_number_map next m =
     (let stale = filter (\<lambda>k. \<not> jm_has next k) (jm_keys m);
          changed = filter (\<lambda>(k, v). jm_get m k \<noteq> Some v) next
      in if stale = [] \<and> changed = [] then (False, m)
         else (True, fold (\<lambda>(k, v). jm_set k v) changed (fold jm_delete stale m)))"

definition write_arrange :: "(string, real) jsmap \<Rightarrow> 'p project_doc \<Rightarrow> bool \<times> 'p project_doc" where
  "write_arrange next doc = (let (w, m) = write_number_map next (pd_arrange doc) in (w, doc\<lparr>pd_arrange := m\<rparr>))"

definition write_lane_order :: "(string, real) jsmap \<Rightarrow> 'p project_doc \<Rightarrow> bool \<times> 'p project_doc" where
  "write_lane_order next doc =
     (let (w, m) = write_number_map next (pd_laneOrder doc) in (w, doc\<lparr>pd_laneOrder := m\<rparr>))"

definition delete_arrange_keys :: "string list \<Rightarrow> 'p project_doc \<Rightarrow> 'p project_doc" where
  "delete_arrange_keys keys doc =
     doc\<lparr>pd_arrange := fold jm_delete (filter (jm_has (pd_arrange doc)) keys) (pd_arrange doc)\<rparr>"

subsection \<open>Clip regions\<close>

definition valid_region :: "shared_value \<Rightarrow> clip_region option" where
  "valid_region region =
     (case shared_field region ''id'' of
        SStr rid \<Rightarrow>
          if rid = [] then None
          else (case (finite_number (shared_field region ''startSec''), finite_number (shared_field region ''sourceOffsetSec''),
                      finite_number (shared_field region ''durationSec'')) of
              (Some startSec, Some sourceOffsetSec, Some durationSec) \<Rightarrow>
                if startSec < 0 \<or> sourceOffsetSec < 0 \<or> durationSec \<le> 0 then None
                else Some \<lparr>rg_startSec = startSec, rg_sourceOffsetSec = sourceOffsetSec,
                            rg_durationSec = durationSec, rg_id = rid\<rparr>
            | _ \<Rightarrow> None)
      | _ \<Rightarrow> None)"

text \<open>The whole list or nothing.\<close>

fun valid_pieces :: "shared_value list \<Rightarrow> clip_region list option" where
  "valid_pieces [] = Some []"
| "valid_pieces (j # js) =
     (case valid_region j of
        None \<Rightarrow> None
      | Some r \<Rightarrow> map_option ((#) r) (valid_pieces js))"

definition valid_region_list :: "shared_value \<Rightarrow> clip_region list option" where
  "valid_region_list v = (case v of SArr js \<Rightarrow> valid_pieces js | _ \<Rightarrow> None)"

definition read_regions :: "'p project_doc \<Rightarrow> (string, clip_region list) jsmap" where
  "read_regions doc =
     List.map_filter (\<lambda>(k, v). map_option (\<lambda>rs. (k, rs)) (valid_region_list v)) (pd_regions doc)"

definition region_value :: "clip_region \<Rightarrow> shared_value" where
  "region_value r =
     SObj [(''id'', SStr (rg_id r)), (''startSec'', SNum (Fin (rg_startSec r))),
           (''sourceOffsetSec'', SNum (Fin (rg_sourceOffsetSec r))), (''durationSec'', SNum (Fin (rg_durationSec r)))]"

definition write_stream_regions :: "string \<Rightarrow> clip_region list \<Rightarrow> 'p project_doc \<Rightarrow> bool \<times> 'p project_doc" where
  "write_stream_regions streamId regions doc =
     (let v = SArr (map region_value regions)
      in if jm_get (pd_regions doc) streamId = Some v then (False, doc)
         else (True, doc\<lparr>pd_regions := jm_set streamId v (pd_regions doc)\<rparr>))"

definition delete_region_keys :: "string list \<Rightarrow> 'p project_doc \<Rightarrow> 'p project_doc" where
  "delete_region_keys keys doc =
     doc\<lparr>pd_regions := fold jm_delete (filter (jm_has (pd_regions doc)) keys) (pd_regions doc)\<rparr>"

subsection \<open>Lists\<close>

definition last_index_by_id :: "'p list_item list \<Rightarrow> (string, nat) jsmap" where
  "last_index_by_id items = fold (\<lambda>(i, item). jm_set (li_id item) i) (List.enumerate 0 items) []"

definition dedupe_by_id :: "'p list_item list \<Rightarrow> 'p list_item list" where
  "dedupe_by_id items =
     (let last_at = last_index_by_id items
      in map snd (filter (\<lambda>(i, item). jm_get last_at (li_id item) = Some i) (List.enumerate 0 items)))"

definition has_take_list :: "list_kind \<Rightarrow> string \<Rightarrow> 'p project_doc \<Rightarrow> bool" where
  "has_take_list kind takeId doc \<longleftrightarrow> jm_has (pd_lists doc) (kind, takeId)"

definition read_take_list :: "list_kind \<Rightarrow> string \<Rightarrow> 'p project_doc \<Rightarrow> 'p list_item list" where
  "read_take_list kind takeId doc =
     (case jm_get (pd_lists doc) (kind, takeId) of None \<Rightarrow> [] | Some arr \<Rightarrow> dedupe_by_id arr)"

text \<open>The deletions of a heal, from the end; \<open>n\<close> is the number of positions still to visit.\<close>

fun heal_from :: "nat \<Rightarrow> 'p list_item list \<Rightarrow> (string, nat) jsmap \<Rightarrow> 'p list_item list \<Rightarrow> 'p list_item list" where
  "heal_from 0 items last_at arr = arr"
| "heal_from (Suc i) items last_at arr =
     heal_from i items last_at
       (if jm_get last_at (li_id (items ! i)) \<noteq> Some i then take i arr @ drop (Suc i) arr else arr)"

definition heal_take_list_duplicates :: "list_kind \<Rightarrow> string \<Rightarrow> 'p project_doc \<Rightarrow> bool \<times> 'p project_doc" where
  "heal_take_list_duplicates kind takeId doc =
     (case jm_get (pd_lists doc) (kind, takeId) of
        None \<Rightarrow> (False, doc)
      | Some arr \<Rightarrow>
          let last_at = last_index_by_id arr
          in if length last_at = length arr then (False, doc)
             else (True, doc\<lparr>pd_lists := jm_set (kind, takeId) (heal_from (length arr) arr last_at arr) (pd_lists doc)\<rparr>))"

text \<open>The backward walk of \<open>writeTakeList\<close>: the positions from the end with what is still wanted.\<close>

fun reconcile :: "'p list_item list \<Rightarrow> (string, 'p list_item) jsmap \<Rightarrow> 'p list_item list \<times> (string, 'p list_item) jsmap" where
  "reconcile [] wanted = ([], wanted)"
| "reconcile (x # xs) wanted =
     (let (rest, wanted) = reconcile xs wanted
      in case jm_get wanted (li_id x) of
           None \<Rightarrow> (rest, wanted)
         | Some w \<Rightarrow> ((if x \<noteq> w then w else x) # rest, jm_delete (li_id x) wanted))"

definition by_item_id :: "'p list_item list \<Rightarrow> (string, 'p list_item) jsmap" where
  "by_item_id next = fold (\<lambda>item. jm_set (li_id item) item) next []"

definition write_take_list :: "list_kind \<Rightarrow> string \<Rightarrow> 'p list_item list \<Rightarrow> 'p project_doc \<Rightarrow> 'p project_doc" where
  "write_take_list kind takeId next doc =
     (let arr = (case jm_get (pd_lists doc) (kind, takeId) of None \<Rightarrow> [] | Some a \<Rightarrow> a);
          (kept, missing) = reconcile arr (by_item_id next)
      in doc\<lparr>pd_lists := jm_set (kind, takeId) (kept @ jm_values missing) (pd_lists doc)\<rparr>)"

definition seed_take_list_once ::
    "list_kind \<Rightarrow> string \<Rightarrow> 'p list_item list \<Rightarrow> 'p project_doc \<Rightarrow> bool \<times> 'p project_doc" where
  "seed_take_list_once kind takeId items doc =
     (if items = [] then (False, doc)
      else if jm_get (pd_seeded doc) (kind, takeId) = Some True \<or> has_take_list kind takeId doc then (False, doc)
      else (True, doc\<lparr>pd_lists := jm_set (kind, takeId) (dedupe_by_id items) (pd_lists doc),
                      pd_seeded := jm_set (kind, takeId) True (pd_seeded doc)\<rparr>))"

definition display_take_list ::
    "list_kind \<Rightarrow> string \<Rightarrow> 'p list_item list \<Rightarrow> 'p project_doc \<Rightarrow> 'p list_item list \<times> 'p project_doc" where
  "display_take_list kind takeId localFallback doc =
     (if \<not> has_take_list kind takeId doc then (dedupe_by_id localFallback, doc)
      else let doc = snd (heal_take_list_duplicates kind takeId doc) in (read_take_list kind takeId doc, doc))"

subsection \<open>The winner rule\<close>

text \<open>The last occurrence of each id, in the order of the array.\<close>

fun keep_last :: "'p list_item list \<Rightarrow> 'p list_item list" where
  "keep_last [] = []"
| "keep_last (x # xs) = (if li_id x \<in> li_id ` set xs then keep_last xs else x # keep_last xs)"

lemma distinct_mapI: "distinct (map f xs) \<Longrightarrow> distinct xs"
  by (simp add: distinct_map)

lemma set_keep_last: "set (keep_last xs) \<subseteq> set xs"
  by (induction xs) auto

lemma ids_keep_last [simp]: "li_id ` set (keep_last xs) = li_id ` set xs"
  by (induction xs) auto

lemma distinct_keep_last [simp]: "distinct (map li_id (keep_last xs))"
proof (induction xs)
  case (Cons x xs)
  then show ?case using ids_keep_last [of xs] by (auto simp: image_iff)
qed simp

lemma keep_last_distinct: "distinct (map li_id xs) \<Longrightarrow> keep_last xs = xs"
  by (induction xs) auto

lemma keep_last_idem [simp]: "keep_last (keep_last xs) = keep_last xs"
  by (rule keep_last_distinct) simp

fun last_pos :: "nat \<Rightarrow> 'p list_item list \<Rightarrow> string \<Rightarrow> nat option" where
  "last_pos n [] k = None"
| "last_pos n (x # xs) k =
     (case last_pos (Suc n) xs k of Some i \<Rightarrow> Some i | None \<Rightarrow> if k = li_id x then Some n else None)"

lemma last_pos_None: "last_pos n xs k = None \<longleftrightarrow> k \<notin> li_id ` set xs"
proof (induction xs arbitrary: n)
  case (Cons x xs)
  have "last_pos (Suc n) xs k = None \<longleftrightarrow> k \<notin> li_id ` set xs" by (rule Cons.IH)
  then show ?case by (cases "last_pos (Suc n) xs k") auto
qed simp

lemma last_pos_ge: "last_pos n xs k = Some i \<Longrightarrow> n \<le> i"
  by (induction xs arbitrary: n) (auto split: option.splits if_splits dest: Suc_leD)

lemma last_index_fold:
  "jm_get (fold (\<lambda>(i, item). jm_set (li_id item) i) (List.enumerate n xs) m) k
    = (case last_pos n xs k of Some i \<Rightarrow> Some i | None \<Rightarrow> jm_get m k)"
  by (induction xs arbitrary: n m) (auto simp: jm_get_set split: option.splits)

lemma get_last_index: "jm_get (last_index_by_id xs) k = last_pos 0 xs k"
  by (simp add: last_index_by_id_def last_index_fold split: option.split)

lemma filter_last_pos:
  assumes "\<And>k. k \<in> li_id ` set xs \<Longrightarrow> T k = last_pos n xs k"
  shows "map snd (filter (\<lambda>(i, item). T (li_id item) = Some i) (List.enumerate n xs)) = keep_last xs"
  using assms
proof (induction xs arbitrary: n)
  case (Cons x xs)
  have "T k = last_pos (Suc n) xs k" if "k \<in> li_id ` set xs" for k
    using Cons.prems [of k] that last_pos_None [of "Suc n" xs k] by (auto split: option.splits)
  note IH = Cons.IH [OF this]
  have "T (li_id x) = Some n \<longleftrightarrow> li_id x \<notin> li_id ` set xs"
    using Cons.prems [of "li_id x"] last_pos_None [of "Suc n" xs "li_id x"]
    by (auto split: option.splits dest: last_pos_ge)
  with IH show ?case by simp
qed simp

lemma dedupe_keep_last: "dedupe_by_id xs = keep_last xs"
  by (simp add: dedupe_by_id_def get_last_index Let_def filter_last_pos)

lemma heal_from_suffix:
  "n \<le> length items \<Longrightarrow>
   heal_from n items T (take n items @ Z)
    = map snd (filter (\<lambda>(i, item). jm_get T (li_id item) = Some i) (List.enumerate 0 (take n items))) @ Z"
proof (induction n arbitrary: Z)
  case (Suc n)
  then have n: "n < length items" "n \<le> length items" by simp_all
  have e: "List.enumerate 0 (take (Suc n) items) = List.enumerate 0 (take n items) @ [(n, items ! n)]"
    using n by (simp add: take_Suc_conv_app_nth enumerate_append_eq)
  note e = e [unfolded take_Suc_conv_app_nth [OF n(1)]]
  have "take (Suc n) items @ Z = take n items @ (items ! n # Z)" "length (take n items) = n"
    using n by (simp_all add: take_Suc_conv_app_nth)
  then show ?case using Suc.IH [OF n(2), of Z] Suc.IH [OF n(2), of "items ! n # Z"]
    by (simp add: e take_Suc_conv_app_nth [OF n(1)])
qed simp

lemma heal_keep_last: "heal_from (length arr) arr (last_index_by_id arr) arr = keep_last arr"
  using heal_from_suffix [of "length arr" arr "last_index_by_id arr" "[]"]
  by (simp add: get_last_index filter_last_pos)

lemma length_last_index:
  "length (last_index_by_id xs) = card (li_id ` set xs)"
proof -
  have wf: "jm_wf (fold (\<lambda>(i, item). jm_set (li_id item) i) ys m)" if "jm_wf m"
    for ys :: "(nat \<times> 'a list_item) list" and m
    using that by (induction ys arbitrary: m) auto
  have "jm_wf (last_index_by_id xs)" unfolding last_index_by_id_def by (rule wf) simp
  then have "length (last_index_by_id xs) = card (fst ` set (last_index_by_id xs))"
    by (metis distinct_card jm_wf_def length_map set_map)
  also have "fst ` set (last_index_by_id xs) = li_id ` set xs"
    using get_last_index [of xs] last_pos_None [of 0 xs] by (metis jm_has_iff set_eqI)
  finally show ?thesis .
qed

lemma heal_iff_duplicates: "length (last_index_by_id xs) = length xs \<longleftrightarrow> distinct (map li_id xs)"
  by (metis length_last_index card_distinct distinct_card length_map set_map)

text \<open>Every desk shows the same winner of a duplicated element: reading, healing and displaying a list all
  give the last occurrence of each id in the order of the shared array; a heal only deletes, changes nothing
  that is shown, and finds nothing to do the second time.\<close>

theorem lists_heal:
  assumes "jm_get (pd_lists doc) (kind, takeId) = Some arr"
  defines "healed \<equiv> snd (heal_take_list_duplicates kind takeId doc)"
  shows "read_take_list kind takeId doc = keep_last arr
    \<and> jm_get (pd_lists healed) (kind, takeId) = Some (keep_last arr)
    \<and> display_take_list kind takeId local doc = (keep_last arr, healed)
    \<and> heal_take_list_duplicates kind takeId healed = (False, healed)
    \<and> distinct (map li_id (keep_last arr))"
proof -
  have h: "jm_get (pd_lists healed) (kind, takeId) = Some (keep_last arr)"
  proof (cases "distinct (map li_id arr)")
    case True
    then show ?thesis
      using assms(1) by (simp add: healed_def heal_take_list_duplicates_def Let_def heal_iff_duplicates keep_last_distinct)
  next
    case False
    then show ?thesis
      using assms(1)
      by (simp add: healed_def heal_take_list_duplicates_def Let_def heal_iff_duplicates heal_keep_last jm_get_set)
  qed
  then have "heal_take_list_duplicates kind takeId healed = (False, healed)"
    by (simp add: heal_take_list_duplicates_def Let_def heal_iff_duplicates)
  moreover have "display_take_list kind takeId local doc = (keep_last arr, healed)"
    using assms(1) h
    by (simp add: display_take_list_def has_take_list_def read_take_list_def Let_def dedupe_keep_last flip: healed_def)
  ultimately show ?thesis
    using assms(1) h by (simp add: read_take_list_def dedupe_keep_last)
qed

subsection \<open>Writing a list\<close>

definition keyed_by_id :: "(string, 'p list_item) jsmap \<Rightarrow> bool" where
  "keyed_by_id w \<longleftrightarrow> jm_wf w \<and> (\<forall>k v. jm_get w k = Some v \<longrightarrow> li_id v = k)"

lemma keyed_set: "keyed_by_id m \<Longrightarrow> keyed_by_id (jm_set (li_id x) x m)"
  unfolding keyed_by_id_def by (simp add: jm_get_set)

lemma keyed_delete: "keyed_by_id m \<Longrightarrow> keyed_by_id (jm_delete k m)"
  unfolding keyed_by_id_def by (simp add: jm_get_delete)

lemma keyed_fold: "keyed_by_id m \<Longrightarrow> keyed_by_id (fold (\<lambda>item. jm_set (li_id item) item) ys m)"
  by (induction ys arbitrary: m) (simp_all add: keyed_set)

lemma keyed_by_item_id: "keyed_by_id (by_item_id items)"
proof -
  have "keyed_by_id []" by (simp add: keyed_by_id_def)
  then show ?thesis unfolding by_item_id_def by (rule keyed_fold)
qed

definition item_of :: "'p list_item list \<Rightarrow> string \<Rightarrow> 'p list_item option" where
  "item_of xs k = jm_get (map (\<lambda>x. (li_id x, x)) xs) k"

lemma item_of_Cons: "item_of (x # xs) k = (if k = li_id x then Some x else item_of xs k)"
  by (simp add: item_of_def)

lemma item_of_None: "item_of xs k = None \<longleftrightarrow> k \<notin> li_id ` set xs"
  by (simp add: item_of_def map_of_eq_None_iff image_image)

lemma get_by_item_id: "jm_get (by_item_id next) k = item_of (keep_last next) k"
proof -
  have "jm_get (fold (\<lambda>item. jm_set (li_id item) item) ys m) k
      = (case item_of (keep_last ys) k of Some x \<Rightarrow> Some x | None \<Rightarrow> jm_get m k)"
    for ys :: "'a list_item list" and m
  proof (induction ys arbitrary: m)
    case (Cons y ys)
    show ?case
    proof (cases "k = li_id y")
      case True
      show ?thesis
      proof (cases "li_id y \<in> li_id ` set ys")
        case in_tail: True
        then have "item_of (keep_last ys) k \<noteq> None" using True by (simp add: item_of_None)
        then show ?thesis using Cons.IH in_tail by (auto simp: jm_get_set)
      next
        case False
        then have "item_of (keep_last ys) k = None" using True by (simp add: item_of_None)
        then show ?thesis using Cons.IH False True by (simp add: jm_get_set item_of_Cons)
      qed
    next
      case False
      then show ?thesis using Cons.IH by (simp add: jm_get_set item_of_Cons cong: option.case_cong)
    qed
  qed (simp add: item_of_def)
  from this [of "next" "[]"] show ?thesis by (simp add: by_item_id_def split: option.splits)
qed

text \<open>The walk keeps of the array what is wanted, once, and leaves what is still to be added.\<close>

definition reconciled :: "'p list_item list \<Rightarrow> (string, 'p list_item) jsmap \<Rightarrow> 'p list_item list
    \<Rightarrow> (string, 'p list_item) jsmap \<Rightarrow> bool" where
  "reconciled xs w kept left \<longleftrightarrow>
     keyed_by_id left \<and> map li_id kept = filter (jm_has w) (map li_id (keep_last xs))
   \<and> (\<forall>y \<in> set kept. jm_get w (li_id y) = Some y)
   \<and> (\<forall>k. jm_get left k = (if k \<in> li_id ` set xs then None else jm_get w k))"

lemma reconcile_spec:
  assumes "keyed_by_id w"
  shows "reconciled xs w (fst (reconcile xs w)) (snd (reconcile xs w))"
proof (induction xs)
  case Nil
  then show ?case using assms by (simp add: reconciled_def)
next
  case (Cons x xs)
  obtain rest w' where r: "reconcile xs w = (rest, w')" by force
  then have IH: "reconciled xs w rest w'" using Cons.IH by simp
  show ?case
  proof (cases "jm_get w' (li_id x)")
    case None
    then have "li_id x \<in> li_id ` set xs \<or> jm_get w (li_id x) = None"
      using IH by (auto simp: reconciled_def split: if_splits)
    then show ?thesis using IH None r by (auto simp: reconciled_def)
  next
    case (Some v)
    have "jm_get w' (li_id x) = (if li_id x \<in> li_id ` set xs then None else jm_get w (li_id x))"
      using IH unfolding reconciled_def by blast
    then have x: "li_id x \<notin> li_id ` set xs" "jm_get w (li_id x) = Some v" using Some by (simp_all split: if_splits)
    moreover have "li_id v = li_id x" using IH Some unfolding reconciled_def keyed_by_id_def by blast
    ultimately have x: "li_id x \<notin> li_id ` set xs" "jm_get w (li_id x) = Some v" "li_id v = li_id x" by simp_all
    have "reconcile (x # xs) w = (v # rest, jm_delete (li_id x) w')" using Some r by auto
    moreover have "reconciled (x # xs) w (v # rest) (jm_delete (li_id x) w')"
      using IH x unfolding reconciled_def by (simp add: keyed_delete jm_get_delete)
    ultimately show ?thesis by simp
  qed
qed

text \<open>Writing a list makes the array hold exactly the wanted elements, one of each id, with the ones that
  were there before in their places and the new ones behind them, whatever duplicates it held.\<close>

theorem write_take_list_exact:
  fixes next_items :: "'p list_item list"
  assumes "jm_get (pd_lists doc) (kind, takeId) = Some arr"
  shows "\<exists>stored. jm_get (pd_lists (write_take_list kind takeId next_items doc)) (kind, takeId) = Some stored
    \<and> mset stored = mset (keep_last next_items)
    \<and> take (length (filter (\<lambda>k. k \<in> li_id ` set next_items) (map li_id (keep_last arr)))) (map li_id stored)
        = filter (\<lambda>k. k \<in> li_id ` set next_items) (map li_id (keep_last arr))
    \<and> read_take_list kind takeId (write_take_list kind takeId next_items doc) = stored"
proof -
  let ?w = "by_item_id next_items"
  obtain kept left where r: "reconcile arr ?w = (kept, left)" by force
  have spec: "reconciled arr ?w kept left" using reconcile_spec [OF keyed_by_item_id, of arr next_items] r by simp
  define stored where "stored = kept @ jm_values left"
  have w: "jm_get ?w k = item_of (keep_last next_items) k" for k by (rule get_by_item_id)
  have has: "jm_has ?w k \<longleftrightarrow> k \<in> li_id ` set next_items" for k
    using item_of_None [of "keep_last next_items" k] by (simp add: w)
  have get_left: "jm_get left k = (if k \<in> li_id ` set arr then None else jm_get ?w k)" for k
    using spec unfolding reconciled_def by blast
  have wf: "jm_wf left" using spec unfolding reconciled_def keyed_by_id_def by blast
  have left: "li_id v = k \<and> k \<notin> li_id ` set arr \<and> jm_get ?w k = Some v" if "(k, v) \<in> set left" for k v
  proof -
    have "jm_get left k = Some v" using wf that by (rule jm_wf_SomeI)
    moreover from this have "li_id v = k" using spec unfolding reconciled_def keyed_by_id_def by blast
    ultimately show ?thesis using get_left [of k] by (simp split: if_splits)
  qed
  have ids_left: "map li_id (jm_values left) = jm_keys left"
    using left by (auto intro!: map_cong simp: comp_def)
  have ids_kept: "map li_id kept = filter (\<lambda>k. k \<in> li_id ` set next_items) (map li_id (keep_last arr))"
    using spec unfolding reconciled_def has by blast
  have "set (map li_id kept) \<subseteq> li_id ` set arr"
    unfolding ids_kept set_filter set_map ids_keep_last by blast
  moreover have "set (jm_keys left) \<inter> li_id ` set arr = {}" using left by fastforce
  moreover have "distinct (map li_id kept)" unfolding ids_kept by simp
  ultimately have d: "distinct (map li_id stored)"
    unfolding stored_def map_append ids_left distinct_append using wf by (auto simp: jm_wf_def)
  have sub: "jm_get ?w (li_id y) = Some y" if "y \<in> set stored" for y
    using that spec left by (auto simp: stored_def reconciled_def)
  have all: "\<exists>y \<in> set stored. li_id y = k" if k: "k \<in> li_id ` set next_items" for k
  proof (cases "k \<in> li_id ` set arr")
    case True
    then have "k \<in> set (map li_id kept)" unfolding ids_kept set_filter set_map ids_keep_last using k by simp
    then show ?thesis by (auto simp: stored_def)
  next
    case False
    then obtain v where "jm_get left k = Some v" using get_left [of k] has [of k] k by auto
    then have "(k, v) \<in> set left" by (rule map_of_SomeD)
    moreover from this have "li_id v = k" using left by blast
    ultimately show ?thesis by (intro bexI [of _ v]) (force simp: stored_def)+
  qed
  have "set stored = set (keep_last next_items)"
  proof (intro set_eqI iffI)
    fix y assume "y \<in> set stored"
    from sub [OF this] show "y \<in> set (keep_last next_items)"
      by (auto simp: w item_of_def dest!: map_of_SomeD)
  next
    fix z assume z: "z \<in> set (keep_last next_items)"
    then have "item_of (keep_last next_items) (li_id z) = Some z"
      by (auto simp: item_of_def comp_def intro!: map_of_is_SomeI)
    moreover obtain y where y: "y \<in> set stored" "li_id y = li_id z"
      using all [of "li_id z"] z ids_keep_last [of next_items] by blast
    ultimately have "Some z = Some y" using sub [OF y(1)] unfolding y(2) w by (elim trans [OF sym])
    then show "z \<in> set stored" using y(1) by simp
  qed
  then have "mset stored = mset (keep_last next_items)"
    using distinct_mapI [OF d] distinct_mapI [OF distinct_keep_last] by (rule set_eq_iff_mset_eq_distinct [THEN iffD1, rotated 2])
  moreover have got: "jm_get (pd_lists (write_take_list kind takeId next_items doc)) (kind, takeId) = Some stored"
    using assms r by (simp add: write_take_list_def stored_def jm_get_set)
  moreover have "read_take_list kind takeId (write_take_list kind takeId next_items doc) = stored"
    unfolding read_take_list_def got option.case dedupe_keep_last by (rule keep_last_distinct [OF d])
  moreover have "take (length (map li_id kept)) (map li_id stored) = map li_id kept" by (simp add: stored_def)
  ultimately show ?thesis unfolding ids_kept by blast
qed

subsection \<open>The hostile-data boundary\<close>

definition region_well_formed :: "clip_region \<Rightarrow> bool" where
  "region_well_formed r \<longleftrightarrow>
     rg_id r \<noteq> [] \<and> 0 \<le> rg_startSec r \<and> 0 \<le> rg_sourceOffsetSec r \<and> 0 < rg_durationSec r"

text \<open>What a stored piece must be to be read as \<open>r\<close>.\<close>

definition stored_as :: "shared_value \<Rightarrow> clip_region \<Rightarrow> bool" where
  "stored_as v r \<longleftrightarrow> region_well_formed r
     \<and> shared_field v ''id'' = SStr (rg_id r)
     \<and> shared_field v ''startSec'' = SNum (Fin (rg_startSec r))
     \<and> shared_field v ''sourceOffsetSec'' = SNum (Fin (rg_sourceOffsetSec r))
     \<and> shared_field v ''durationSec'' = SNum (Fin (rg_durationSec r))"

lemma valid_region_iff: "valid_region v = Some r \<longleftrightarrow> stored_as v r"
  by (cases r) (auto simp: valid_region_def stored_as_def region_well_formed_def finite_number_Some
      split: shared_value.splits option.splits if_splits)

lemma valid_pieces_iff: "valid_pieces vs = Some rs \<longleftrightarrow> list_all2 stored_as vs rs"
  by (induction vs arbitrary: rs) (auto simp: list_all2_Cons1 valid_region_iff [symmetric] split: option.splits)

lemma valid_region_list_iff: "valid_region_list v = Some rs \<longleftrightarrow> (\<exists>vs. v = SArr vs \<and> list_all2 stored_as vs rs)"
  by (cases v) (auto simp: valid_region_list_def valid_pieces_iff)

lemma stored_as_value: "region_well_formed r \<Longrightarrow> stored_as (region_value r) r"
  by (simp add: stored_as_def region_value_def)

lemma get_read_regions:
  "jm_wf (pd_regions doc) \<Longrightarrow>
     jm_get (read_regions doc) k = Option.bind (jm_get (pd_regions doc) k) valid_region_list"
proof -
  have absent: "jm_get (List.map_filter (\<lambda>(k, v). map_option (\<lambda>rs. (k, rs)) (valid_region_list v)) m) q = None"
    if "q \<notin> fst ` set m" for m :: "(string, shared_value) jsmap" and q
    using that by (induction m) (auto simp: map_filter_simps split: option.splits)
  have "jm_get (List.map_filter (\<lambda>(k, v). map_option (\<lambda>rs. (k, rs)) (valid_region_list v)) m) k
      = Option.bind (jm_get m k) valid_region_list" if "jm_wf m" for m :: "(string, shared_value) jsmap"
    using that
  proof (induction m)
    case (Cons p m)
    obtain k' v where p: "p = (k', v)" by force
    have wf: "jm_wf m" "k' \<notin> fst ` set m" using Cons.prems p by (auto simp: jm_wf_def)
    show ?case
      using Cons.IH [OF wf(1)] absent [OF wf(2)] wf(2) p
      by (cases "valid_region_list v"; cases "k = k'") (simp_all add: map_filter_simps)
  qed (simp add: map_filter_simps)
  then show "jm_wf (pd_regions doc) \<Longrightarrow> ?thesis" by (simp add: read_regions_def)
qed

text \<open>C38. Whatever values any build has put into the shared regions map, NaN and infinities included, the
  desk reads a list for a stream exactly when an array is stored of which every piece has an id, and a
  position, an offset and a length that are finite numbers, the first two not negative and the length
  positive: then those pieces, in their order; else the stream is as if it had no list. A list of
  well-formed pieces that the desk writes is read back as it was, other streams' lists untouched.\<close>

theorem regions_boundary:
  assumes "jm_wf (pd_regions doc)"
  shows "(jm_get (read_regions doc) k = Some rs \<longleftrightarrow>
            (\<exists>vs. jm_get (pd_regions doc) k = Some (SArr vs) \<and> list_all2 stored_as vs rs))
    \<and> (list_all region_well_formed regions \<longrightarrow>
         jm_get (read_regions (snd (write_stream_regions streamId regions doc))) k
          = (if k = streamId then Some regions else jm_get (read_regions doc) k))"
proof (intro conjI impI)
  show "jm_get (read_regions doc) k = Some rs \<longleftrightarrow>
      (\<exists>vs. jm_get (pd_regions doc) k = Some (SArr vs) \<and> list_all2 stored_as vs rs)"
    unfolding get_read_regions [OF assms] Option.bind_eq_Some_conv valid_region_list_iff by blast
next
  assume "list_all region_well_formed regions"
  then have r: "valid_region_list (SArr (map region_value regions)) = Some regions"
    by (auto simp: valid_region_list_iff list_all2_map1 list_all_iff stored_as_value list_all2_same)
  have "jm_wf (pd_regions (snd (write_stream_regions streamId regions doc)))"
    using assms by (simp add: write_stream_regions_def Let_def)
  moreover have "jm_get (pd_regions (snd (write_stream_regions streamId regions doc))) k
      = (if k = streamId then Some (SArr (map region_value regions)) else jm_get (pd_regions doc) k)"
    by (simp add: write_stream_regions_def Let_def jm_get_set)
  ultimately show "jm_get (read_regions (snd (write_stream_regions streamId regions doc))) k
      = (if k = streamId then Some regions else jm_get (read_regions doc) k)"
    using get_read_regions [OF assms, of k] r by (simp add: get_read_regions)
qed

subsection \<open>Number maps, mix and seeds\<close>

lemma get_fold_delete: "jm_get (fold jm_delete ks m) k = (if k \<in> set ks then None else jm_get m k)"
  by (induction ks arbitrary: m) (auto simp: jm_get_delete)

lemma get_fold_set:
  "distinct (map fst ch) \<Longrightarrow>
     jm_get (fold (\<lambda>(k, v). jm_set k v) ch m) k = (case jm_get ch k of Some v \<Rightarrow> Some v | None \<Rightarrow> jm_get m k)"
proof (induction ch arbitrary: m)
  case (Cons p ch)
  then have "jm_get ch (fst p) = None" by (simp add: map_of_eq_None_iff)
  with Cons show ?case by (cases p; cases "jm_get ch k") (auto simp: jm_get_set)
qed simp

lemma get_filter:
  "jm_wf m \<Longrightarrow> jm_get (filter P m) k
    = (case jm_get m k of Some v \<Rightarrow> if P (k, v) then Some v else None | None \<Rightarrow> None)"
proof (induction m)
  case (Cons p m)
  then have "jm_wf m" "jm_get m (fst p) = None" by (simp_all add: jm_wf_def map_of_eq_None_iff)
  with Cons show ?case by (cases p) (auto split: option.splits)
qed simp

lemma write_number_map_reads_back:
  assumes "jm_wf m" and "jm_wf new"
  shows "jm_get (snd (write_number_map new m)) k = jm_get new k"
proof -
  let ?stale = "filter (\<lambda>k. \<not> jm_has new k) (jm_keys m)"
  let ?changed = "filter (\<lambda>(k, v). jm_get m k \<noteq> Some v) new"
  have "distinct (map fst ?changed)" using assms(2) by (simp add: jm_wf_def distinct_map_filter)
  note set_all = get_fold_set [OF this, of "fold jm_delete ?stale m" k]
  have stale: "k \<in> set ?stale \<longleftrightarrow> jm_get new k = None \<and> jm_get m k \<noteq> None"
    unfolding set_filter set_map using jm_has_iff [of m k] by (simp only: mem_Collect_eq not_not conj_commute)
  have "jm_get (fold (\<lambda>(k, v). jm_set k v) ?changed (fold jm_delete ?stale m)) k = jm_get new k"
    unfolding set_all get_fold_delete get_filter [OF assms(2)]
    using stale by (cases "jm_get new k"; cases "jm_get m k") auto
  moreover have "jm_get m k = jm_get new k" if "?stale = []" "?changed = []"
    using get_filter [OF assms(2), of "\<lambda>(k, v). jm_get m k \<noteq> Some v" k] stale that
    by (cases "jm_get new k"; cases "jm_get m k") (auto split: if_splits)
  ultimately show ?thesis by (simp add: write_number_map_def Let_def)
qed

lemma write_mix_reads_back:
  "jm_get (read_mix (snd (write_mix_if_changed key st doc))) key = Some st
   \<or> st = default_mix_strip \<and> jm_get (read_mix doc) key = None \<and> write_mix_if_changed key st doc = (False, doc)"
  by (auto simp: write_mix_if_changed_def read_mix_def Let_def jm_get_set split: option.splits)

lemma seed_once:
  "fst (seed_take_list_once kind takeId items doc) \<Longrightarrow>
     seed_take_list_once kind takeId other (snd (seed_take_list_once kind takeId items doc))
      = (False, snd (seed_take_list_once kind takeId items doc))"
  by (auto simp: seed_take_list_once_def jm_get_set split: if_splits)

subsection \<open>Sample documents\<close>

definition sample_item :: "string \<Rightarrow> nat \<Rightarrow> nat list_item" where
  "sample_item k n = \<lparr>li_id = k, li_payload = n\<rparr>"

definition sample_array :: "nat list_item list" where
  "sample_array = [sample_item ''a'' 1, sample_item ''b'' 1, sample_item ''a'' 2]"

definition sample_doc :: "nat project_doc" where
  "sample_doc = empty_doc\<lparr>pd_lists := [((KMarkers, ''t''), sample_array)],
     pd_regions := [(''s'', SArr [SObj [(''id'', SStr ''s''), (''startSec'', SNum NaN),
                      (''sourceOffsetSec'', SNum (Fin 0)), (''durationSec'', SNum (Fin 3))]]),
                    (''r'', SArr [region_value (seed_region ''r'' 0 5)])]\<rparr>"

theorem lists_heal_witness:
  "read_take_list KMarkers ''t'' sample_doc = [sample_item ''b'' 1, sample_item ''a'' 2]"
proof -
  have "jm_get (pd_lists sample_doc) (KMarkers, ''t'') = Some sample_array" by (simp add: sample_doc_def)
  from lists_heal [OF this] show ?thesis by (simp add: sample_array_def sample_item_def)
qed

theorem write_take_list_exact_witness:
  "\<exists>stored. read_take_list KMarkers ''t'' (write_take_list KMarkers ''t'' [sample_item ''c'' 1, sample_item ''b'' 7] sample_doc) = stored
     \<and> mset stored = {# sample_item ''c'' 1, sample_item ''b'' 7 #} \<and> li_id (hd stored) = ''b''"
proof -
  have "jm_get (pd_lists sample_doc) (KMarkers, ''t'') = Some sample_array" by (simp add: sample_doc_def)
  from write_take_list_exact [OF this, of "[sample_item ''c'' 1, sample_item ''b'' 7]"] obtain stored where
    "read_take_list KMarkers ''t'' (write_take_list KMarkers ''t'' [sample_item ''c'' 1, sample_item ''b'' 7] sample_doc) = stored"
    "mset stored = {# sample_item ''c'' 1, sample_item ''b'' 7 #}" "take 1 (map li_id stored) = [''b'']"
    by (auto simp: sample_item_def sample_array_def)
  then show ?thesis by (cases stored) auto
qed

theorem regions_boundary_witness:
  "jm_get (read_regions sample_doc) ''s'' = None
   \<and> jm_get (read_regions (snd (write_stream_regions ''s'' [seed_region ''s'' 0 3] sample_doc))) ''s''
      = Some [seed_region ''s'' 0 3]"
proof -
  have "jm_wf (pd_regions sample_doc)" by (simp add: sample_doc_def jm_wf_def)
  note b = regions_boundary [OF this]
  have "list_all region_well_formed [seed_region ''s'' 0 3]" by (simp add: region_well_formed_def seed_region_def)
  then have "jm_get (read_regions (snd (write_stream_regions ''s'' [seed_region ''s'' 0 3] sample_doc))) ''s''
      = Some [seed_region ''s'' 0 3]" using b [of "''s''" _ "[seed_region ''s'' 0 3]" "''s''"] by simp
  moreover have "jm_get (read_regions sample_doc) ''s'' \<noteq> Some rs" for rs
    using b [of "''s''" rs] by (auto simp: sample_doc_def stored_as_def list_all2_Cons1)
  ultimately show ?thesis by (cases "jm_get (read_regions sample_doc) ''s''") auto
qed

end
