(* ===== verification/Collab_Sync.thy ===== *)
theory Collab_Sync
  imports Collab_Hub
begin

text \<open>
  The desks' side of the shared document, \<open>apps/web/src/net/collab.ts\<close>, and its synchronisation with the
  session's room on the server (\<open>apps/server/src/collab/connection.ts\<close>). Yjs is used by its contract: a
  replica is the set of operations it holds, an update is a set of operations, applying is union, a state
  vector says which operations are held and a diff is what it lacks. A socket delivers its frames in order
  until it closes; frames underway then are lost, and so is what a flood guard cuts off.
\<close>

subsection \<open>One desk\<close>

datatype 'u sync_frame = Step1 "'u set" | UpdateOf "'u set"

text \<open>
  A desk with its socket: the frames underway in both directions, and whether the server has attached the
  connection to the room and sent its own first step.
\<close>

record 'u sync_client =
  sy_doc :: "'u set"
  sy_pendingUpdates :: "'u set list"
  sy_flushTimer :: bool
  sy_open :: bool
  sy_synced :: bool
  sy_attempts :: nat
  sy_up :: "'u sync_frame list"
  sy_down :: "'u sync_frame list"
  sy_attached :: bool
  sy_greeted :: bool

definition new_sync_client :: "'u sync_client" where
  "new_sync_client =
     \<lparr>sy_doc = {}, sy_pendingUpdates = [], sy_flushTimer = False, sy_open = False, sy_synced = False,
      sy_attempts = 0, sy_up = [], sy_down = [], sy_attached = False, sy_greeted = False\<rparr>"

definition reconnect_delay_ms :: "nat \<Rightarrow> nat" where
  "reconnect_delay_ms attempts = min 8000 (1000 * 2 ^ attempts)"

text \<open>A local change: the document's update handler queues it and starts the timer.\<close>

definition local_edit :: "'u \<Rightarrow> 'u sync_client \<Rightarrow> 'u sync_client" where
  "local_edit u c =
     c\<lparr>sy_doc := insert u (sy_doc c), sy_pendingUpdates := sy_pendingUpdates c @ [{u}], sy_flushTimer := True\<rparr>"

definition flush_updates :: "'u sync_client \<Rightarrow> 'u sync_client" where
  "flush_updates c =
     (let c = c\<lparr>sy_flushTimer := False\<rparr>
      in if sy_pendingUpdates c = [] then c
         else if \<not> sy_open c then c\<lparr>sy_pendingUpdates := []\<rparr>
         else c\<lparr>sy_pendingUpdates := [], sy_up := sy_up c @ [UpdateOf (\<Union> (set (sy_pendingUpdates c)))]\<rparr>)"

definition on_open :: "'u sync_client \<Rightarrow> 'u sync_client" where
  "on_open c =
     c\<lparr>sy_open := True, sy_attempts := 0, sy_pendingUpdates := [], sy_up := [Step1 (sy_doc c)], sy_down := [],
       sy_attached := False, sy_greeted := False\<rparr>"

fun on_frame :: "'u sync_frame \<Rightarrow> 'u sync_client \<Rightarrow> 'u sync_client" where
  "on_frame (Step1 v) c = c\<lparr>sy_up := sy_up c @ [UpdateOf (sy_doc c - v)]\<rparr>"
| "on_frame (UpdateOf x) c = c\<lparr>sy_doc := sy_doc c \<union> x, sy_synced := True\<rparr>"

definition on_close :: "'u sync_client \<Rightarrow> 'u sync_client" where
  "on_close c =
     c\<lparr>sy_open := False, sy_attempts := sy_attempts c + 1, sy_up := [], sy_down := [],
       sy_attached := False, sy_greeted := False\<rparr>"

subsection \<open>Desks and the room\<close>

record 'u sync_world =
  sw_doc :: "'u set"
  sw_client :: "nat \<Rightarrow> 'u sync_client"

definition upd_client :: "nat \<Rightarrow> ('u sync_client \<Rightarrow> 'u sync_client) \<Rightarrow> 'u sync_world \<Rightarrow> 'u sync_world" where
  "upd_client i f w = w\<lparr>sw_client := (sw_client w)(i := f (sw_client w i))\<rparr>"

definition pop_up :: "'u sync_client \<Rightarrow> 'u sync_client" where "pop_up c = c\<lparr>sy_up := tl (sy_up c)\<rparr>"
definition pop_down :: "'u sync_client \<Rightarrow> 'u sync_client" where "pop_down c = c\<lparr>sy_down := tl (sy_down c)\<rparr>"
definition push_down :: "'u sync_frame \<Rightarrow> 'u sync_client \<Rightarrow> 'u sync_client" where
  "push_down f c = c\<lparr>sy_down := sy_down c @ [f]\<rparr>"

text \<open>\<open>dispatch\<close>: a first step is answered with the diff; new operations fan out to every other desk.\<close>

fun room_gets :: "nat \<Rightarrow> 'u sync_frame \<Rightarrow> 'u sync_world \<Rightarrow> 'u sync_world" where
  "room_gets i (Step1 v) w = upd_client i (push_down (UpdateOf (sw_doc w - v))) w"
| "room_gets i (UpdateOf x) w =
     (let new = x - sw_doc w
      in if new = {} then w
         else w\<lparr>sw_doc := sw_doc w \<union> new,
                sw_client := (\<lambda>j. if j \<noteq> i \<and> sy_attached (sw_client w j)
                                  then push_down (UpdateOf new) (sw_client w j) else sw_client w j)\<rparr>)"

datatype 'u sync_event =
    Edit nat 'u
  | FlushTimer nat
  | SocketOpens nat
  | SocketCloses nat
  | RoomAttaches nat
  | RoomGreets nat
  | RoomGets nat
  | DeskGets nat

text \<open>What can happen by itself, without a user or the network's state changing.\<close>

fun sync_enabled :: "'u sync_world \<Rightarrow> 'u sync_event \<Rightarrow> bool" where
  "sync_enabled w (FlushTimer i) \<longleftrightarrow> sy_flushTimer (sw_client w i)"
| "sync_enabled w (RoomAttaches i) \<longleftrightarrow> sy_open (sw_client w i) \<and> \<not> sy_attached (sw_client w i)"
| "sync_enabled w (RoomGreets i) \<longleftrightarrow> sy_attached (sw_client w i) \<and> \<not> sy_greeted (sw_client w i)"
| "sync_enabled w (RoomGets i) \<longleftrightarrow> sy_attached (sw_client w i) \<and> sy_up (sw_client w i) \<noteq> []"
| "sync_enabled w (DeskGets i) \<longleftrightarrow> sy_down (sw_client w i) \<noteq> []"
| "sync_enabled w _ \<longleftrightarrow> False"

fun sync_step :: "'u sync_world \<Rightarrow> 'u sync_event \<Rightarrow> 'u sync_world" where
  "sync_step w (Edit i u) = upd_client i (local_edit u) w"
| "sync_step w (SocketOpens i) = (if sy_open (sw_client w i) then w else upd_client i on_open w)"
| "sync_step w (SocketCloses i) = (if sy_open (sw_client w i) then upd_client i on_close w else w)"
| "sync_step w (FlushTimer i) = (if sync_enabled w (FlushTimer i) then upd_client i flush_updates w else w)"
| "sync_step w (RoomAttaches i) =
     (if sync_enabled w (RoomAttaches i) then upd_client i (\<lambda>c. c\<lparr>sy_attached := True\<rparr>) w else w)"
| "sync_step w (RoomGreets i) =
     (if sync_enabled w (RoomGreets i)
      then upd_client i (\<lambda>c. push_down (Step1 (sw_doc w)) (c\<lparr>sy_greeted := True\<rparr>)) w else w)"
| "sync_step w (RoomGets i) =
     (if sync_enabled w (RoomGets i) then room_gets i (hd (sy_up (sw_client w i))) (upd_client i pop_up w) else w)"
| "sync_step w (DeskGets i) =
     (if sync_enabled w (DeskGets i)
      then upd_client i (\<lambda>c. on_frame (hd (sy_down c)) (pop_down c)) w else w)"

text \<open>The room's frame handling is what the server's dispatch does to its document.\<close>

lemma dispatch_refines:
  "set (cr_doc (fst (collab_dispatch diff dec enc c (collab_frame msg_update p) r)))
    = sw_doc (room_gets i (UpdateOf {dec p}) \<lparr>sw_doc = set (cr_doc r), sw_client = cl\<rparr>)"
  by (auto simp: collab_dispatch_def collab_frame_def msg_update_def msg_sync_step1_def schedule_save_def Let_def)

subsection \<open>What is underway\<close>

fun ops :: "'u sync_frame \<Rightarrow> 'u set" where
  "ops (UpdateOf x) = x"
| "ops (Step1 v) = {}"

fun is_step1 :: "'u sync_frame \<Rightarrow> bool" where
  "is_step1 (Step1 v) \<longleftrightarrow> True"
| "is_step1 (UpdateOf x) \<longleftrightarrow> False"

fun content :: "'u sync_frame \<Rightarrow> 'u set" where
  "content (UpdateOf x) = x"
| "content (Step1 v) = v"

definition underway :: "'u sync_frame list \<Rightarrow> 'u set" where
  "underway fs = \<Union> (ops ` set fs)"

definition no_step1 :: "'u sync_frame list \<Rightarrow> bool" where
  "no_step1 fs \<longleftrightarrow> list_all (\<lambda>f. \<not> is_step1 f) fs"

lemma underway_simps [simp]:
  "underway [] = {}" "underway (f # fs) = ops f \<union> underway fs" "underway (fs @ gs) = underway fs \<union> underway gs"
  by (auto simp: underway_def)

lemma no_step1_simps [simp]:
  "no_step1 []" "no_step1 (f # fs) \<longleftrightarrow> \<not> is_step1 f \<and> no_step1 fs"
  "no_step1 (fs @ gs) \<longleftrightarrow> no_step1 fs \<and> no_step1 gs"
  by (simp_all add: no_step1_def)

text \<open>
  Once the desk's first step is answered, what the room holds is at the desk or on its way; once the room's
  first step is answered, what the desk holds is in the room, on its way, or waiting for the timer.
\<close>

definition client_ok :: "'u set \<Rightarrow> 'u sync_client \<Rightarrow> bool" where
  "client_ok S c \<longleftrightarrow>
     (\<Union> (set (sy_pendingUpdates c)) \<subseteq> sy_doc c) \<and> (sy_pendingUpdates c \<noteq> [] \<longrightarrow> sy_flushTimer c)
   \<and> (sy_attached c \<longrightarrow> sy_open c) \<and> (sy_greeted c \<longrightarrow> sy_attached c)
   \<and> (\<not> sy_open c \<longrightarrow> sy_up c = [] \<and> sy_down c = [])
   \<and> (sy_open c \<longrightarrow> \<not> sy_attached c \<longrightarrow> \<not> no_step1 (sy_up c))
   \<and> \<Union> (content ` set (sy_up c)) \<subseteq> sy_doc c \<and> \<Union> (content ` set (sy_down c)) \<subseteq> S
   \<and> (sy_attached c \<longrightarrow> no_step1 (sy_up c) \<longrightarrow> S \<subseteq> sy_doc c \<union> underway (sy_down c))
   \<and> (sy_greeted c \<longrightarrow> no_step1 (sy_down c) \<longrightarrow>
        sy_doc c \<subseteq> S \<union> underway (sy_up c) \<union> \<Union> (set (sy_pendingUpdates c)))"

definition sync_inv :: "'u sync_world \<Rightarrow> bool" where
  "sync_inv w \<longleftrightarrow> (\<forall>i. client_ok (sw_doc w) (sw_client w i))"

lemma sync_inv_upd:
  "sync_inv w \<Longrightarrow> client_ok (sw_doc w) (f (sw_client w i)) \<Longrightarrow> sync_inv (upd_client i f w)"
  by (simp add: sync_inv_def upd_client_def)

lemma sync_invD: "sync_inv w \<Longrightarrow> client_ok (sw_doc w) (sw_client w i)"
  by (simp add: sync_inv_def)

lemma local_edit_ok: "client_ok S c \<Longrightarrow> client_ok S (local_edit u c)"
  by (auto simp: client_ok_def local_edit_def)

lemma on_open_ok: "client_ok S c \<Longrightarrow> client_ok S (on_open c)"
  by (auto simp: client_ok_def on_open_def)

lemma on_close_ok: "client_ok S c \<Longrightarrow> client_ok S (on_close c)"
  by (auto simp: client_ok_def on_close_def)

lemma flush_ok: "client_ok S c \<Longrightarrow> client_ok S (flush_updates c)"
  by (auto simp: client_ok_def flush_updates_def Let_def)

lemma attach_ok: "client_ok S c \<Longrightarrow> sy_open c \<Longrightarrow> \<not> sy_attached c \<Longrightarrow> client_ok S (c\<lparr>sy_attached := True\<rparr>)"
  by (auto simp: client_ok_def)

lemma greet_ok: "client_ok S c \<Longrightarrow> sy_attached c \<Longrightarrow> client_ok S (push_down (Step1 S) (c\<lparr>sy_greeted := True\<rparr>))"
  by (auto simp: client_ok_def push_down_def)

lemma desk_gets_ok:
  assumes "client_ok S c" "sy_down c \<noteq> []"
  shows "client_ok S (on_frame (hd (sy_down c)) (pop_down c))"
proof -
  obtain f fs where d: "sy_down c = f # fs" using assms(2) by (cases "sy_down c") auto
  show ?thesis using assms(1) d by (cases f) (auto simp: client_ok_def pop_down_def)
qed

lemma answer_ok:
  assumes "client_ok S c" "sy_up c = Step1 v # fs" "sy_attached c"
  shows "client_ok S (push_down (UpdateOf (S - v)) (pop_up c))"
  using assms by (auto simp: client_ok_def push_down_def pop_up_def)

lemma author_ok:
  assumes "client_ok S c" "sy_up c = UpdateOf x # fs" "sy_attached c"
  shows "client_ok (S \<union> x) (pop_up c)"
  using assms by (auto simp: client_ok_def pop_up_def)

lemma fanout_ok:
  assumes "client_ok S c" and "sy_attached c"
  shows "client_ok (S \<union> x) (push_down (UpdateOf (x - S)) c)"
  using assms by (auto simp: client_ok_def push_down_def)

lemma bystander_ok:
  assumes "client_ok S c" and "\<not> sy_attached c"
  shows "client_ok (S \<union> x) c"
  using assms by (auto simp: client_ok_def)

lemma room_gets_inv:
  assumes "sync_inv w" and "sync_enabled w (RoomGets i)"
  shows "sync_inv (room_gets i (hd (sy_up (sw_client w i))) (upd_client i pop_up w))"
proof -
  let ?c = "sw_client w i" and ?S = "sw_doc w"
  have ok: "client_ok ?S (sw_client w j)" for j using assms(1) by (simp add: sync_inv_def)
  obtain f fs where up: "sy_up ?c = f # fs" and att: "sy_attached ?c"
    using assms(2) by (cases "sy_up ?c") auto
  show ?thesis
  proof (cases f)
    case (Step1 v)
    then show ?thesis
      using ok answer_ok [OF ok, of i v fs] up att by (simp add: sync_inv_def upd_client_def)
  next
    case (UpdateOf x)
    have author: "client_ok (?S \<union> x) (pop_up ?c)" using author_ok [OF ok] up att UpdateOf by simp
    show ?thesis
    proof (cases "x - ?S = {}")
      case True
      then have "?S \<union> x = ?S" by blast
      then show ?thesis using ok author True up UpdateOf by (simp add: sync_inv_def upd_client_def)
    next
      case False
      define z where "z = room_gets i (UpdateOf x) (upd_client i pop_up w)"
      have doc: "sw_doc z = ?S \<union> x" using False by (simp add: z_def upd_client_def Let_def)
      have cl: "sw_client z j = (if j = i then pop_up ?c else if sy_attached (sw_client w j)
          then push_down (UpdateOf (x - ?S)) (sw_client w j) else sw_client w j)" for j
        using False by (simp add: z_def upd_client_def Let_def)
      have "client_ok (sw_doc z) (sw_client z j)" for j
        unfolding doc cl using author fanout_ok [OF ok] bystander_ok [OF ok] by simp
      then show ?thesis using up UpdateOf by (simp add: sync_inv_def z_def)
    qed
  qed
qed

lemma sync_step_inv: "sync_inv w \<Longrightarrow> sync_inv (sync_step w e)"
proof (cases e)
  case (RoomGets i)
  then show "sync_inv w \<Longrightarrow> ?thesis" using room_gets_inv [of w i] by (simp only: RoomGets sync_step.simps split: if_split) blast
qed (auto intro!: sync_inv_upd local_edit_ok on_open_ok on_close_ok flush_ok attach_ok greet_ok desk_gets_ok
      intro: sync_invD)

interpretation sync: invariant_machine sync_step sync_inv
  by unfold_locales (rule sync_step_inv)

subsection \<open>Coming to rest\<close>

text \<open>What each desk's timers, handshake and frames can still cause, with \<open>n\<close> desks.\<close>

fun up_cost :: "nat \<Rightarrow> 'u sync_frame \<Rightarrow> nat" where
  "up_cost n (Step1 v) = 2"
| "up_cost n (UpdateOf x) = n + 1"

fun down_cost :: "nat \<Rightarrow> 'u sync_frame \<Rightarrow> nat" where
  "down_cost n (Step1 v) = n + 2"
| "down_cost n (UpdateOf x) = 1"

definition client_work :: "nat \<Rightarrow> 'u sync_client \<Rightarrow> nat" where
  "client_work n c =
     (if sy_flushTimer c then n + 2 else 0)
     + (if sy_open c \<and> \<not> sy_attached c then 1 else 0)
     + (if sy_open c \<and> \<not> sy_greeted c then n + 3 else 0)
     + sum_list (map (up_cost n) (sy_up c)) + sum_list (map (down_cost n) (sy_down c))"

definition sync_work :: "nat \<Rightarrow> 'u sync_world \<Rightarrow> nat" where
  "sync_work n w = (\<Sum>i<n. client_work n (sw_client w i))"

fun desk_of :: "'u sync_event \<Rightarrow> nat" where
  "desk_of (Edit i u) = i"
| "desk_of (FlushTimer i) = i"
| "desk_of (SocketOpens i) = i"
| "desk_of (SocketCloses i) = i"
| "desk_of (RoomAttaches i) = i"
| "desk_of (RoomGreets i) = i"
| "desk_of (RoomGets i) = i"
| "desk_of (DeskGets i) = i"

definition sync_goes_on :: "nat \<Rightarrow> 'u sync_world \<Rightarrow> 'u sync_event \<Rightarrow> bool" where
  "sync_goes_on n w e \<longleftrightarrow> desk_of e < n \<and> sync_enabled w e"

lemma sync_work_upd:
  assumes "i < n" and "client_work n (f (sw_client w i)) < client_work n (sw_client w i)"
  shows "sync_work n (upd_client i f w) < sync_work n w"
  unfolding sync_work_def
  by (rule sum_strict_mono_ex1) (use assms in \<open>auto simp: upd_client_def\<close>)

lemma flush_work: "sy_flushTimer c \<Longrightarrow> client_work n (flush_updates c) < client_work n c"
  by (auto simp: client_work_def flush_updates_def Let_def)

lemma attach_work: "sy_open c \<Longrightarrow> \<not> sy_attached c \<Longrightarrow> client_work n (c\<lparr>sy_attached := True\<rparr>) < client_work n c"
  by (simp add: client_work_def)

lemma greet_work:
  "sy_open c \<Longrightarrow> \<not> sy_greeted c \<Longrightarrow> client_work n (push_down (Step1 S) (c\<lparr>sy_greeted := True\<rparr>)) < client_work n c"
  by (simp add: client_work_def push_down_def)

lemma desk_gets_work: "sy_down c \<noteq> [] \<Longrightarrow> client_work n (on_frame (hd (sy_down c)) (pop_down c)) < client_work n c"
  by (cases "sy_down c"; cases "hd (sy_down c)") (auto simp: client_work_def pop_down_def)

lemma push_down_work: "client_work n (push_down (UpdateOf x) c) = client_work n c + 1"
  by (simp add: client_work_def push_down_def)

lemma pop_up_work: "sy_up c = f # fs \<Longrightarrow> client_work n (pop_up c) + up_cost n f = client_work n c"
  by (simp add: client_work_def pop_up_def)

lemma fanout_work:
  assumes "i < n" and "sy_up (sw_client w i) = UpdateOf x # fs"
  shows "sync_work n (room_gets i (UpdateOf x) (upd_client i pop_up w)) < sync_work n w"
proof -
  let ?w = "room_gets i (UpdateOf x) (upd_client i pop_up w)"
  have "client_work n (sw_client ?w j) \<le> client_work n (sw_client w j) + 1" if "j \<noteq> i" for j
    using that by (auto simp: upd_client_def Let_def push_down_work)
  moreover have "client_work n (sw_client ?w i) + (n + 1) = client_work n (sw_client w i)"
    using pop_up_work [OF assms(2), of n] by (simp add: upd_client_def Let_def)
  moreover have split: "(\<Sum>j<n. g j) = g i + (\<Sum>j \<in> {..<n} - {i}. g j)" for g :: "nat \<Rightarrow> nat"
    using assms(1) by (simp add: sum.remove)
  ultimately have "sync_work n ?w + (n + 1) \<le> client_work n (sw_client w i) + (\<Sum>j \<in> {..<n} - {i}. client_work n (sw_client w j) + 1)"
    unfolding sync_work_def split [of "\<lambda>j. client_work n (sw_client ?w j)"]
    by (smt (verit, ccfv_SIG) DiffE add.commute add_left_mono group_cancel.add1 insertI1 sum_mono)
  also have "\<dots> = sync_work n w + card ({..<n} - {i})"
    unfolding sync_work_def split [of "\<lambda>j. client_work n (sw_client w j)"] by (simp only: sum.distrib) simp
  also have "card ({..<n} - {i}) \<le> n" by (metis card_Diff1_le card_lessThan)
  finally show ?thesis by simp
qed

lemma sync_work_step:
  assumes "sync_inv w" and "sync_goes_on n w e"
  shows "sync_work n (sync_step w e) < sync_work n w"
proof (cases e)
  case (RoomGets i)
  then have i: "i < n" "sync_enabled w (RoomGets i)" using assms(2) by (simp_all add: sync_goes_on_def)
  then obtain f fs where up: "sy_up (sw_client w i) = f # fs" by (cases "sy_up (sw_client w i)") auto
  show ?thesis
  proof (cases f)
    case (Step1 v)
    have "client_work n (push_down (UpdateOf (sw_doc w - v)) (pop_up (sw_client w i))) < client_work n (sw_client w i)"
      using pop_up_work [OF up, of n] Step1 by (simp add: push_down_work)
    from sync_work_upd [OF i(1), of "\<lambda>c. push_down (UpdateOf (sw_doc w - v)) (pop_up c)", OF this]
    show ?thesis using RoomGets i Step1 up by (simp add: upd_client_def)
  next
    case (UpdateOf x)
    then show ?thesis using fanout_work [OF i(1), of w x fs] up RoomGets i by simp
  qed
next
  case (RoomGreets i)
  have "client_ok (sw_doc w) (sw_client w i)" using assms(1) by (simp add: sync_inv_def)
  then show ?thesis using RoomGreets assms(2)
    by (auto simp: sync_goes_on_def client_ok_def intro!: sync_work_upd greet_work)
qed (use assms in \<open>auto simp: sync_goes_on_def intro!: sync_work_upd flush_work attach_work desk_gets_work\<close>)

interpretation syncing: settling_machine sync_step sync_inv "sync_goes_on n" "sync_work n" for n
  by unfold_locales (auto intro: sync_step_inv sync_work_step)

definition fresh_world :: "'u set \<Rightarrow> 'u sync_world" where
  "fresh_world S = \<lparr>sw_doc = S, sw_client = (\<lambda>_. new_sync_client)\<rparr>"

lemma fresh_world_inv: "sync_inv (fresh_world S)"
  by (simp add: sync_inv_def fresh_world_def client_ok_def new_sync_client_def)

text \<open>Desks never lose an operation they hold.\<close>

lemma desk_keeps_ops: "sy_doc (sw_client w i) \<subseteq> sy_doc (sw_client (sync_step w e) i)"
proof (cases e)
  case (RoomGets j)
  then show ?thesis
    by (cases "hd (sy_up (sw_client w j))") (auto simp: upd_client_def pop_up_def push_down_def Let_def)
next
  case (DeskGets j)
  then show ?thesis
    by (cases "hd (sy_down (sw_client w j))") (auto simp: upd_client_def pop_down_def)
qed (auto simp: upd_client_def local_edit_def on_open_def on_close_def flush_updates_def push_down_def Let_def)

lemma room_keeps_ops: "sw_doc w \<subseteq> sw_doc (sync_step w e)"
proof (cases e)
  case (RoomGets j)
  then show ?thesis
    by (cases "hd (sy_up (sw_client w j))") (auto simp: upd_client_def Let_def)
qed (auto simp: upd_client_def)

lemma ops_kept:
  "sy_doc (sw_client w i) \<subseteq> sy_doc (sw_client (run sync_step w es) i)" "sw_doc w \<subseteq> sw_doc (run sync_step w es)"
proof (induction es arbitrary: w)
  case (Cons e es)
  {
    case 1
    show ?case using Cons.IH(1) [of "sync_step w e"] desk_keeps_ops [of w i e] by simp
  next
    case 2
    show ?case using Cons.IH(2) [of "sync_step w e"] room_keeps_ops [of w e] by simp
  }
qed simp_all

text \<open>The operations a desk made in a run, and those any desk made.\<close>

definition made :: "nat \<Rightarrow> 'u sync_event list \<Rightarrow> 'u set" where
  "made i es = {u. Edit i u \<in> set es}"

definition made_by_any :: "'u sync_event list \<Rightarrow> 'u set" where
  "made_by_any es = {u. \<exists>i. Edit i u \<in> set es}"

lemma made_kept: "made i es \<subseteq> sy_doc (sw_client (run sync_step w es) i)"
proof (induction es arbitrary: w)
  case (Cons e es)
  have "u \<in> sy_doc (sw_client (sync_step w e) i)" if "e = Edit i u" for u
    using that by (simp add: upd_client_def local_edit_def)
  then have "{u. e = Edit i u} \<subseteq> sy_doc (sw_client (run sync_step (sync_step w e) es) i)"
    using ops_kept(1) [where w = "sync_step w e" and i = i and es = es] by blast
  moreover have "made i (e # es) = {u. e = Edit i u} \<union> made i es" by (auto simp: made_def)
  ultimately show ?case using Cons.IH [of "sync_step w e"] by simp
qed (simp add: made_def)

text \<open>Nothing is invented: what any replica holds was there at the start or was made by a desk.\<close>

definition within_ops :: "'u set \<Rightarrow> 'u sync_world \<Rightarrow> bool" where
  "within_ops T w \<longleftrightarrow> sync_inv w \<and> sw_doc w \<subseteq> T \<and> (\<forall>i. sy_doc (sw_client w i) \<subseteq> T)"

lemma frame_within:
  assumes "within_ops T w"
  shows "sy_up (sw_client w i) = f # fs \<Longrightarrow> ops f \<subseteq> T" "sy_down (sw_client w i) = f # fs \<Longrightarrow> ops f \<subseteq> T"
proof -
  have ok: "client_ok (sw_doc w) (sw_client w i)" and sub: "sw_doc w \<subseteq> T" "sy_doc (sw_client w i) \<subseteq> T"
    using assms by (simp_all add: within_ops_def sync_inv_def)
  have "\<Union> (content ` set (sy_up (sw_client w i))) \<subseteq> sy_doc (sw_client w i)"
    "\<Union> (content ` set (sy_down (sw_client w i))) \<subseteq> sw_doc w"
    using ok by (simp_all add: client_ok_def)
  note within = subset_trans [OF this(1) sub(2)] subset_trans [OF this(2) sub(1)]
  have "ops f \<subseteq> content f" by (cases f) simp_all
  then show "sy_up (sw_client w i) = f # fs \<Longrightarrow> ops f \<subseteq> T" "sy_down (sw_client w i) = f # fs \<Longrightarrow> ops f \<subseteq> T"
    using within by (auto dest: subset_trans)
qed

lemma within_ops_step:
  assumes "within_ops T w" "\<And>i u. e = Edit i u \<Longrightarrow> u \<in> T"
  shows "within_ops T (sync_step w e)"
proof -
  have inv: "sync_inv (sync_step w e)" using assms(1) sync_step_inv by (auto simp: within_ops_def)
  have sub: "sw_doc w \<subseteq> T" "\<And>i. sy_doc (sw_client w i) \<subseteq> T" using assms(1) by (auto simp: within_ops_def)
  have "sw_doc (sync_step w e) \<subseteq> T \<and> (\<forall>i. sy_doc (sw_client (sync_step w e) i) \<subseteq> T)"
  proof (cases e)
    case (RoomGets j)
    show ?thesis
    proof (cases "sy_up (sw_client w j)")
      case (Cons f fs)
      then have "ops f \<subseteq> T" by (rule frame_within(1) [OF assms(1)])
      with sub Cons show ?thesis
        by (cases f) (simp_all add: RoomGets upd_client_def pop_up_def push_down_def Let_def Un_subset_iff Diff_subset_conv)
    qed (use sub in \<open>simp add: RoomGets\<close>)
  next
    case (DeskGets j)
    show ?thesis
    proof (cases "sy_down (sw_client w j)")
      case (Cons f fs)
      then have "ops f \<subseteq> T" by (rule frame_within(2) [OF assms(1)])
      with sub Cons show ?thesis
        by (cases f) (simp_all add: DeskGets upd_client_def pop_down_def)
    qed (use sub in \<open>simp add: DeskGets\<close>)
  qed (use sub assms(2) in \<open>auto simp: upd_client_def local_edit_def on_open_def on_close_def flush_updates_def
        push_down_def Let_def\<close>)
  with inv show ?thesis by (simp add: within_ops_def)
qed

lemma within_ops_run:
  "within_ops T w \<Longrightarrow> made_by_any es \<subseteq> T \<Longrightarrow> within_ops T (run sync_step w es)"
proof (induction es arbitrary: w)
  case (Cons e es)
  have "made_by_any es \<subseteq> T" "\<And>i u. e = Edit i u \<Longrightarrow> u \<in> T"
    using Cons.prems(2) by (auto simp: made_by_any_def)
  then show ?case using Cons.IH within_ops_step [OF Cons.prems(1)] by simp
qed simp

text \<open>C13. Whatever desks edit, whichever sockets drop and come back: once nobody edits and no socket changes,
  the frames, handshakes and timers of \<open>n\<close> desks come to rest after boundedly many steps, and when they
  have, every connected desk holds exactly what the room holds. No edit is missing from that: it holds
  everything the room was loaded with and everything a connected desk ever made, also what was dropped
  from a send buffer while the desk was offline; and nothing else than what some desk made.\<close>

theorem desks_converge:
  fixes es cs :: "'u sync_event list" and S :: "'u set" and n :: nat
  defines "w \<equiv> run sync_step (fresh_world S) es"
  assumes "legal sync_step (sync_goes_on n) w cs"
  defines "z \<equiv> run sync_step w cs"
  shows "length cs \<le> sync_work n w
    \<and> ((\<exists>e. sync_goes_on n z e)
       \<or> (\<forall>i. i < n \<and> sy_open (sw_client z i)
            \<longrightarrow> sy_doc (sw_client z i) = sw_doc z \<and> made i es \<subseteq> sw_doc z))
    \<and> S \<subseteq> sw_doc z \<and> sw_doc z \<subseteq> S \<union> made_by_any es"
proof (intro conjI)
  have inv: "sync_inv w" unfolding w_def by (rule sync.run_inv [OF fresh_world_inv])
  then show "length cs \<le> sync_work n w" using syncing.settles [OF _ assms(2)] by (meson add_leE)
  have ok: "client_ok (sw_doc z) (sw_client z i)" for i
    using sync.run_inv [OF inv, of cs] by (simp add: z_def sync_inv_def)
  have "sy_doc (sw_client z i) = sw_doc z"
    if rest: "\<not> (\<exists>e. sync_goes_on n z e)" and i: "i < n" "sy_open (sw_client z i)" for i
  proof -
    have no: "\<not> sync_enabled z e" if "desk_of e = i" for e
      using rest i(1) that by (auto simp: sync_goes_on_def)
    have "sy_attached (sw_client z i)" using no [of "RoomAttaches i"] i(2) by simp
    moreover have "sy_greeted (sw_client z i)" using no [of "RoomGreets i"] calculation by simp
    moreover have "sy_up (sw_client z i) = []" using no [of "RoomGets i"] calculation by simp
    moreover have "sy_down (sw_client z i) = []" using no [of "DeskGets i"] by simp
    moreover have "sy_pendingUpdates (sw_client z i) = []"
      using no [of "FlushTimer i"] ok [of i] by (auto simp: client_ok_def)
    ultimately show ?thesis using ok [of i] by (auto simp: client_ok_def)
  qed
  moreover have "made i es \<subseteq> sy_doc (sw_client z i)" for i
    using made_kept [of i es "fresh_world S"] ops_kept(1) [where w = w and i = i and es = cs]
    unfolding w_def z_def by blast
  ultimately show "(\<exists>e. sync_goes_on n z e) \<or> (\<forall>i. i < n \<and> sy_open (sw_client z i)
      \<longrightarrow> sy_doc (sw_client z i) = sw_doc z \<and> made i es \<subseteq> sw_doc z)"
    by blast
  show "S \<subseteq> sw_doc z"
    using ops_kept(2) [of "fresh_world S" "es @ cs"] by (simp add: z_def w_def fresh_world_def)
  have "within_ops (S \<union> made_by_any es) w"
    unfolding w_def by (rule within_ops_run)
      (simp_all add: within_ops_def fresh_world_inv, simp add: fresh_world_def new_sync_client_def)
  moreover have "made_by_any cs = {}"
  proof -
    have "legal sync_step (sync_goes_on n) v cs \<Longrightarrow> made_by_any cs = {}" for v
      by (induction cs arbitrary: v) (auto simp: made_by_any_def sync_goes_on_def)
    with assms(2) show ?thesis by blast
  qed
  ultimately have "within_ops (S \<union> made_by_any es) z" unfolding z_def by (intro within_ops_run) simp_all
  then show "sw_doc z \<subseteq> S \<union> made_by_any es" by (simp add: within_ops_def)
qed

definition sample_sync :: "nat sync_event list" where
  "sample_sync = [SocketOpens 0, Edit 0 7, SocketOpens 1, RoomAttaches 0, RoomAttaches 1, SocketCloses 1, Edit 1 9]"

theorem desks_converge_witness:
  "\<exists>cs. legal sync_step (sync_goes_on 2) (run sync_step (fresh_world {1}) sample_sync) cs
     \<and> sy_doc (sw_client (run sync_step (run sync_step (fresh_world {1}) sample_sync) cs) 0) = {1, 7}"
proof -
  let ?w = "run sync_step (fresh_world {1}) sample_sync"
  let ?cs = "[RoomGets 0, RoomGreets 0, DeskGets 0, DeskGets 0, RoomGets 0, FlushTimer 0, RoomGets 0, FlushTimer 1]"
  note defs = sample_sync_def fresh_world_def new_sync_client_def upd_client_def local_edit_def on_open_def
    on_close_def flush_updates_def push_down_def pop_up_def pop_down_def sync_goes_on_def Let_def
  have l: "legal sync_step (sync_goes_on 2) ?w ?cs" by (simp add: defs)
  have "\<not> sync_goes_on 2 (run sync_step ?w ?cs) e" for e
    by (cases e) (auto simp: defs less_Suc_eq numeral_2_eq_2)
  then have "sy_doc (sw_client (run sync_step ?w ?cs) 0) = sw_doc (run sync_step ?w ?cs)"
    using desks_converge [OF l] by (auto simp: defs)
  moreover have "sw_doc (run sync_step ?w ?cs) = {1, 7}" by (auto simp: defs)
  ultimately show ?thesis using l by metis
qed

end
