(* ===== verification/Range_Set.thy ===== *)
theory Range_Set
  imports Archive_Read
begin

text \<open>
  \<open>packages/core/src/ranges.rs\<close>: sorted, coalesced sets of inclusive sequence ranges. The source computes
  on \<open>u32\<close> and widens every addition that could overflow to \<open>u64\<close>, so naturals are exact. What the
  ranges cover is \<open>ranges_set\<close>, the representation invariant is \<open>separated\<close>.
\<close>

type_synonym ranges = "(nat \<times> nat) list"

definition rs_contains :: "ranges \<Rightarrow> nat \<Rightarrow> bool" where
  "rs_contains rs v \<longleftrightarrow> list_ex (\<lambda>(s, e). s \<le> v \<and> v \<le> e) rs"

definition rs_count :: "ranges \<Rightarrow> nat" where
  "rs_count rs = sum_list (map (\<lambda>(s, e). e - s + 1) rs)"

definition rs_min :: "ranges \<Rightarrow> nat option" where
  "rs_min rs = (case rs of [] \<Rightarrow> None | r # _ \<Rightarrow> Some (fst r))"

definition rs_max :: "ranges \<Rightarrow> nat option" where
  "rs_max rs = (if rs = [] then None else Some (snd (last rs)))"

text \<open>\<open>partition_point\<close> of a predicate that holds on a prefix, then \<open>splice(lo..hi)\<close>.\<close>

definition rs_insert_range :: "nat \<times> nat \<Rightarrow> ranges \<Rightarrow> ranges" where
  "rs_insert_range r rs =
     (if snd r < fst r then rs
      else let lo = length (takeWhile (\<lambda>q. snd q + 1 < fst r) rs);
               hi = length (takeWhile (\<lambda>q. fst q \<le> snd r + 1) rs);
               merged = (if lo < hi then (min (fst r) (fst (rs ! lo)), max (snd r) (snd (rs ! (hi - 1)))) else r)
           in take lo rs @ merged # drop hi rs)"

definition rs_insert :: "nat \<Rightarrow> ranges \<Rightarrow> ranges" where
  "rs_insert v rs = rs_insert_range (v, v) rs"

definition rs_cut :: "nat \<times> nat \<Rightarrow> nat \<times> nat \<Rightarrow> ranges" where
  "rs_cut r q =
     (if snd q < fst r \<or> snd r < fst q then [q]
      else (if fst q < fst r then [(fst q, fst r - 1)] else [])
         @ (if snd r < snd q then [(snd r + 1, snd q)] else []))"

definition rs_remove_range :: "nat \<times> nat \<Rightarrow> ranges \<Rightarrow> ranges" where
  "rs_remove_range r rs = (if snd r < fst r \<or> rs = [] then rs else concat (map (rs_cut r) rs))"

definition rs_remove :: "nat \<Rightarrow> ranges \<Rightarrow> ranges" where
  "rs_remove v rs = rs_remove_range (v, v) rs"

definition rs_from_ranges :: "(nat \<times> nat) list \<Rightarrow> ranges" where
  "rs_from_ranges qs = fold rs_insert_range qs []"

definition rs_from_values :: "nat list \<Rightarrow> ranges" where
  "rs_from_values vs = fold rs_insert vs []"

definition rs_union :: "ranges \<Rightarrow> ranges \<Rightarrow> ranges" where
  "rs_union rs qs = fold rs_insert_range qs rs"

definition rs_subtract :: "ranges \<Rightarrow> ranges \<Rightarrow> ranges" where
  "rs_subtract rs qs = fold rs_remove_range qs rs"

definition rs_missing_within :: "nat \<times> nat \<Rightarrow> ranges \<Rightarrow> ranges" where
  "rs_missing_within w rs = fold rs_remove_range rs (rs_from_ranges [w])"

definition rs_contiguous :: "ranges \<Rightarrow> nat option" where
  "rs_contiguous rs = (case rs of [] \<Rightarrow> None | r # _ \<Rightarrow> if fst r \<noteq> 0 then None else Some (snd r))"

definition rs_iter_values :: "ranges \<Rightarrow> nat list" where
  "rs_iter_values rs = concat (map (\<lambda>(s, e). [s..<Suc e]) rs)"

subsection \<open>The interface\<close>

text \<open>
  What the ring, the sender and the receiver rely on: a set of sequence numbers under adding and removing
  ranges. \<open>covers\<close> is the set a representation stands for.
\<close>

locale range_set_spec =
  fixes add_range remove_range :: "nat \<times> nat \<Rightarrow> 's \<Rightarrow> 's" and covers :: "'s \<Rightarrow> nat set" and wf :: "'s \<Rightarrow> bool"
  assumes covers_add: "wf x \<Longrightarrow> covers (add_range r x) = covers x \<union> {fst r..snd r}"
    and covers_remove: "wf x \<Longrightarrow> covers (remove_range r x) = covers x - {fst r..snd r}"
    and wf_add: "wf x \<Longrightarrow> wf (add_range r x)"
    and wf_remove: "wf x \<Longrightarrow> wf (remove_range r x)"
begin

lemma wf_fold_add: "wf x \<Longrightarrow> wf (fold add_range qs x)"
  by (induction qs arbitrary: x) (simp_all add: wf_add)

lemma wf_fold_remove: "wf x \<Longrightarrow> wf (fold remove_range qs x)"
  by (induction qs arbitrary: x) (simp_all add: wf_remove)

lemma covers_fold_add: "wf x \<Longrightarrow> covers (fold add_range qs x) = covers x \<union> ranges_set qs"
proof (induction qs arbitrary: x)
  case (Cons q qs)
  then show ?case by (cases q) (auto simp: wf_add covers_add ranges_set_def)
qed (simp add: ranges_set_def)

lemma covers_fold_remove: "wf x \<Longrightarrow> covers (fold remove_range qs x) = covers x - ranges_set qs"
proof (induction qs arbitrary: x)
  case (Cons q qs)
  then show ?case by (cases q) (auto simp: wf_remove covers_remove ranges_set_def)
qed (simp add: ranges_set_def)

end

subsection \<open>Range lists implement it\<close>

lemma ranges_set_Cons: "ranges_set (r # rs) = {fst r..snd r} \<union> ranges_set rs"
  by (cases r) (simp add: ranges_set_def)

lemma ranges_set_append: "ranges_set (rs @ qs) = ranges_set rs \<union> ranges_set qs"
  by (auto simp: ranges_set_def)

lemma mem_ranges_set: "v \<in> ranges_set rs \<longleftrightarrow> (\<exists>r \<in> set rs. fst r \<le> v \<and> v \<le> snd r)"
  by (auto simp: ranges_set_def split_beta)

lemma separated_Nil [simp]: "separated []"
  by (simp add: separated_def)

lemma separated_Cons:
  "separated (r # rs) \<longleftrightarrow> fst r \<le> snd r \<and> (\<forall>q \<in> set rs. Suc (snd r) < fst q) \<and> separated rs"
  by (auto simp: separated_def)

lemma separated_append:
  "separated (rs @ qs) \<longleftrightarrow> separated rs \<and> separated qs \<and> (\<forall>r \<in> set rs. \<forall>q \<in> set qs. Suc (snd r) < fst q)"
  by (auto simp: separated_def sorted_wrt_append)

text \<open>The two partition points cut a separated list into what is left of a range, what it merges with, and the rest.\<close>

lemma partition_three:
  assumes "separated rs" "s \<le> e"
  obtains A B C where "rs = A @ B @ C"
    and "length A = length (takeWhile (\<lambda>q. snd q + 1 < s) rs)"
    and "length A + length B = length (takeWhile (\<lambda>q. fst q \<le> e + 1) rs)"
    and "\<forall>q \<in> set A. Suc (snd q) < s" and "\<forall>q \<in> set B. s \<le> Suc (snd q) \<and> fst q \<le> Suc e"
    and "\<forall>q \<in> set C. Suc e < fst q"
proof -
  define A where "A = takeWhile (\<lambda>q. snd q + 1 < s) rs"
  define R where "R = dropWhile (\<lambda>q. snd q + 1 < s) rs"
  define B where "B = takeWhile (\<lambda>q. fst q \<le> e + 1) R"
  define C where "C = dropWhile (\<lambda>q. fst q \<le> e + 1) R"
  have rs: "rs = A @ B @ C" by (simp add: A_def R_def B_def C_def)
  have R: "R = B @ C" by (simp add: B_def C_def)
  have "separated (A @ B @ C)" using assms(1) rs by simp
  then have sep: "separated A" "separated R" "separated B" "separated C"
    by (simp_all add: separated_append R)
  have A: "\<forall>q \<in> set A. Suc (snd q) < s" by (auto simp: A_def dest: set_takeWhileD)
  have "s \<le> Suc (snd q)" if "q \<in> set R" for q
  proof (cases R)
    case (Cons r R')
    then have "s \<le> Suc (snd r)" using hd_dropWhile [of "\<lambda>q. snd q + 1 < s" rs] by (simp add: R_def)
    moreover have "r = q \<or> Suc (snd r) < fst q" "fst q \<le> snd q"
      using that sep(2) Cons by (auto simp: separated_def)
    ultimately show ?thesis by auto
  qed (use that in simp)
  then have B: "\<forall>q \<in> set B. s \<le> Suc (snd q) \<and> fst q \<le> Suc e"
    using set_takeWhileD [of _ "\<lambda>q. fst q \<le> e + 1" R] by (auto simp: B_def)
  have C: "\<forall>q \<in> set C. Suc e < fst q"
  proof (cases C)
    case (Cons c C')
    then have c: "Suc e < fst c" using hd_dropWhile [of "\<lambda>q. fst q \<le> e + 1" R] by (simp add: C_def)
    have "Suc e < fst q" if "q \<in> set C'" for q
    proof -
      have "Suc (snd c) < fst q" "fst c \<le> snd c" using that sep(4) Cons by (auto simp: separated_Cons)
      with c show ?thesis by linarith
    qed
    with c Cons show ?thesis by simp
  qed simp
  have "fst q \<le> e + 1" if "q \<in> set A" for q
  proof -
    have "fst q \<le> snd q" using that sep(1) by (auto simp: separated_def)
    with A that assms(2) show ?thesis by fastforce
  qed
  then have "takeWhile (\<lambda>q. fst q \<le> e + 1) (A @ R) = A @ takeWhile (\<lambda>q. fst q \<le> e + 1) R"
    by (rule takeWhile_append2)
  then have "takeWhile (\<lambda>q. fst q \<le> e + 1) rs = A @ B"
    by (simp only: rs R [symmetric] B_def [symmetric])
  then show thesis using that [OF rs] A B C by (simp add: A_def)
qed

lemma merge_covers:
  assumes "separated B" "s \<le> e" "\<forall>q \<in> set B. s \<le> Suc (snd q) \<and> fst q \<le> Suc e" "B \<noteq> []"
  shows "{min s (fst (hd B))..max e (snd (last B))} = {s..e} \<union> ranges_set B"
proof
  have hd: "fst (hd B) \<le> fst q" and lst: "snd q \<le> snd (last B)" if "q \<in> set B" for q
  proof -
    obtain b B' where B: "B = b # B'" using assms(4) by (cases B) auto
    have "\<forall>p \<in> set B'. Suc (snd b) < fst p" "fst b \<le> snd b"
      using assms(1) by (simp_all add: B separated_Cons)
    then show "fst (hd B) \<le> fst q" using that by (fastforce simp: B)
    obtain B'' l where Bl: "B = B'' @ [l]" using assms(4) by (metis append_butlast_last_id)
    have "\<forall>p \<in> set B''. Suc (snd p) < fst l" "fst l \<le> snd l"
      using assms(1) by (simp_all add: Bl separated_append separated_Cons)
    then show "snd q \<le> snd (last B)" using that by (fastforce simp: Bl)
  qed
  show "{s..e} \<union> ranges_set B \<subseteq> {min s (fst (hd B))..max e (snd (last B))}"
  proof
    fix v assume "v \<in> {s..e} \<union> ranges_set B"
    then consider "s \<le> v" "v \<le> e" | q where "q \<in> set B" "fst q \<le> v" "v \<le> snd q" by (auto simp: mem_ranges_set)
    then show "v \<in> {min s (fst (hd B))..max e (snd (last B))}"
    proof cases
      case 2
      with hd lst show ?thesis by (metis atLeastAtMost_iff le_trans max.coboundedI2 min.coboundedI2)
    qed auto
  qed
  show "{min s (fst (hd B))..max e (snd (last B))} \<subseteq> {s..e} \<union> ranges_set B"
  proof
    fix v assume v: "v \<in> {min s (fst (hd B))..max e (snd (last B))}"
    have ends: "hd B \<in> set B" "last B \<in> set B" using assms(4) by simp_all
    consider "v < s" | "s \<le> v \<and> v \<le> e" | "e < v" by linarith
    then show "v \<in> {s..e} \<union> ranges_set B"
    proof cases
      case 1
      with v ends(1) assms(3) have "fst (hd B) \<le> v" "v \<le> snd (hd B)" by fastforce+
      with ends(1) show ?thesis by (auto simp: mem_ranges_set)
    next
      case 3
      with v ends(2) assms(3) have "fst (last B) \<le> v" "v \<le> snd (last B)" by fastforce+
      with ends(2) show ?thesis by (auto simp: mem_ranges_set)
    qed simp
  qed
qed

lemma insert_range_spec:
  assumes "separated rs"
  shows "separated (rs_insert_range r rs) \<and> ranges_set (rs_insert_range r rs) = ranges_set rs \<union> {fst r..snd r}"
proof (cases "snd r < fst r")
  case True
  then show ?thesis using assms by (simp add: rs_insert_range_def)
next
  case False
  obtain s e where r: "r = (s, e)" by (cases r)
  with False have se: "s \<le> e" by simp
  obtain A B C where rs: "rs = A @ B @ C"
    and lo: "length A = length (takeWhile (\<lambda>q. snd q + 1 < s) rs)"
    and hi: "length A + length B = length (takeWhile (\<lambda>q. fst q \<le> e + 1) rs)"
    and A: "\<forall>q \<in> set A. Suc (snd q) < s" and B: "\<forall>q \<in> set B. s \<le> Suc (snd q) \<and> fst q \<le> Suc e"
    and C: "\<forall>q \<in> set C. Suc e < fst q"
    by (rule partition_three [OF assms se])
  define m where "m = (if B = [] then (s, e) else (min s (fst (hd B)), max e (snd (last B))))"
  have eq: "rs_insert_range r rs = A @ m # C"
  proof -
    have "B \<noteq> [] \<Longrightarrow> rs ! length A = hd B" "B \<noteq> [] \<Longrightarrow> rs ! (length A + length B - 1) = last B"
      by (cases B; simp add: rs nth_append last_conv_nth)+
    then show ?thesis
      using se unfolding rs_insert_range_def Let_def r fst_conv snd_conv lo [symmetric] hi [symmetric]
      by (cases "B = []") (simp_all add: rs m_def)
  qed
  have sep: "separated A" "separated B" "separated C" "\<forall>q \<in> set A. \<forall>p \<in> set B. Suc (snd q) < fst p"
    "\<forall>q \<in> set A. \<forall>p \<in> set C. Suc (snd q) < fst p" "\<forall>q \<in> set B. \<forall>p \<in> set C. Suc (snd q) < fst p"
    using assms by (auto simp: rs separated_append)
  have m: "{fst m..snd m} = {s..e} \<union> ranges_set B" "fst m \<le> snd m"
    using merge_covers [OF sep(2) se B] se by (auto simp: m_def ranges_set_def)
  have "\<forall>q \<in> set A. Suc (snd q) < fst m" "\<forall>q \<in> set C. Suc (snd m) < fst q"
    using A C sep(4) sep(6) hd_in_set [of B] last_in_set [of B] by (auto simp: m_def max_def)
  then have "separated (A @ m # C)" using sep m(2) by (auto simp: separated_append separated_Cons)
  moreover have "ranges_set (A @ m # C) = ranges_set rs \<union> {s..e}"
    using m(1) by (auto simp: rs ranges_set_append ranges_set_Cons)
  ultimately show ?thesis by (simp only: eq) (simp add: r)
qed

lemma cut_spec:
  assumes "fst q \<le> snd q" "fst r \<le> snd r"
  shows "separated (rs_cut r q)" "ranges_set (rs_cut r q) = {fst q..snd q} - {fst r..snd r}"
    and "\<forall>p \<in> set (rs_cut r q). fst q \<le> fst p \<and> snd p \<le> snd q"
  using assms by (auto simp: rs_cut_def separated_Cons ranges_set_Cons ranges_set_simps)

lemma remove_range_spec:
  assumes "separated rs"
  shows "separated (rs_remove_range r rs) \<and> ranges_set (rs_remove_range r rs) = ranges_set rs - {fst r..snd r}"
proof (cases "snd r < fst r \<or> rs = []")
  case True
  then show ?thesis using assms by (auto simp: rs_remove_range_def)
next
  case False
  then have r: "fst r \<le> snd r" and eq: "rs_remove_range r rs = concat (map (rs_cut r) rs)"
    by (simp_all add: rs_remove_range_def)
  have "separated (concat (map (rs_cut r) qs))
      \<and> ranges_set (concat (map (rs_cut r) qs)) = ranges_set qs - {fst r..snd r}
      \<and> (\<forall>p \<in> set (concat (map (rs_cut r) qs)). \<exists>q \<in> set qs. fst q \<le> fst p \<and> snd p \<le> snd q)"
    if "separated qs" for qs
    using that
  proof (induction qs)
    case (Cons q qs)
    have q: "fst q \<le> snd q" "\<forall>p \<in> set qs. Suc (snd q) < fst p" and IH: "separated qs"
      using Cons.prems by (auto simp: separated_Cons)
    note cut = cut_spec [OF q(1) r]
    have "Suc (snd p) < fst p'"
      if p: "p \<in> set (rs_cut r q)" and p': "p' \<in> set (concat (map (rs_cut r) qs))" for p p'
    proof -
      have "snd p \<le> snd q" using cut(3) p by blast
      moreover obtain q' where "q' \<in> set qs" "fst q' \<le> fst p'" using Cons.IH [OF IH] p' by blast
      ultimately show ?thesis using q(2) by fastforce
    qed
    then show ?case
      using Cons.IH [OF IH] cut by (auto simp: separated_append ranges_set_append ranges_set_Cons)
  qed (simp add: ranges_set_def)
  then show ?thesis using assms by (simp add: eq)
qed

interpretation rs: range_set_spec rs_insert_range rs_remove_range ranges_set separated
  by unfold_locales (simp_all add: insert_range_spec remove_range_spec)

text \<open>The derived operations.\<close>

lemma rs_contains_iff: "rs_contains rs v \<longleftrightarrow> v \<in> ranges_set rs"
  by (force simp: rs_contains_def list_ex_iff mem_ranges_set)

lemma covers_insert [simp]: "separated rs \<Longrightarrow> ranges_set (rs_insert v rs) = insert v (ranges_set rs)"
  by (simp add: rs_insert_def rs.covers_add)

lemma covers_remove [simp]: "separated rs \<Longrightarrow> ranges_set (rs_remove v rs) = ranges_set rs - {v}"
  by (simp add: rs_remove_def rs.covers_remove)

lemma covers_union [simp]: "separated rs \<Longrightarrow> ranges_set (rs_union rs qs) = ranges_set rs \<union> ranges_set qs"
  by (simp add: rs_union_def rs.covers_fold_add)

lemma covers_subtract [simp]: "separated rs \<Longrightarrow> ranges_set (rs_subtract rs qs) = ranges_set rs - ranges_set qs"
  by (simp add: rs_subtract_def rs.covers_fold_remove)

lemma covers_from_ranges [simp]: "ranges_set (rs_from_ranges qs) = ranges_set qs"
  by (simp add: rs_from_ranges_def rs.covers_fold_add)

lemma separated_ops [simp]:
  "separated rs \<Longrightarrow> separated (rs_insert v rs)" "separated rs \<Longrightarrow> separated (rs_remove v rs)"
  "separated rs \<Longrightarrow> separated (rs_union rs qs)" "separated rs \<Longrightarrow> separated (rs_subtract rs qs)"
  "separated (rs_from_ranges qs)" "separated (rs_missing_within w rs)"
  by (simp_all add: rs_insert_def rs_remove_def rs_union_def rs_subtract_def rs_from_ranges_def
      rs_missing_within_def rs.wf_add rs.wf_remove rs.wf_fold_add rs.wf_fold_remove)

lemma covers_missing [simp]: "ranges_set (rs_missing_within w rs) = {fst w..snd w} - ranges_set rs"
proof -
  have "ranges_set [w] = {fst w..snd w}" by (simp add: ranges_set_Cons ranges_set_simps)
  then show ?thesis by (simp add: rs_missing_within_def rs.covers_fold_remove)
qed

lemma from_values_spec:
  "separated (rs_from_values vs) \<and> ranges_set (rs_from_values vs) = set vs"
proof -
  have "separated (fold rs_insert vs rs) \<and> ranges_set (fold rs_insert vs rs) = ranges_set rs \<union> set vs"
    if "separated rs" for rs using that by (induction vs arbitrary: rs) auto
  from this [of "[]"] show ?thesis by (simp add: rs_from_values_def ranges_set_simps)
qed

lemma set_iter_values: "set (rs_iter_values rs) = ranges_set rs"
  by (auto simp: rs_iter_values_def ranges_set_def split_beta simp del: upt_Suc)

lemma ranges_empty_iff: "separated rs \<Longrightarrow> ranges_set rs = {} \<longleftrightarrow> rs = []"
  by (cases rs) (auto simp: separated_Cons ranges_set_Cons ranges_set_simps)

lemma contiguous_Some:
  assumes "separated rs" "rs_contiguous rs = Some c"
  shows "{..c} \<subseteq> ranges_set rs" "Suc c \<notin> ranges_set rs"
  using assms by (auto simp: rs_contiguous_def ranges_set_Cons separated_Cons mem_ranges_set split: list.splits if_splits)

lemma contiguous_None: "separated rs \<Longrightarrow> rs_contiguous rs = None \<longleftrightarrow> 0 \<notin> ranges_set rs"
  by (cases rs) (auto simp: rs_contiguous_def ranges_set_Cons separated_Cons mem_ranges_set ranges_set_simps)

lemma contiguous_iff:
  assumes "separated rs"
  shows "rs_contiguous rs = Some c \<longleftrightarrow> {..c} \<subseteq> ranges_set rs \<and> Suc c \<notin> ranges_set rs"
proof
  assume r: "{..c} \<subseteq> ranges_set rs \<and> Suc c \<notin> ranges_set rs"
  then have "0 \<in> ranges_set rs" by auto
  then obtain d where d: "rs_contiguous rs = Some d" using contiguous_None [OF assms] by (cases "rs_contiguous rs") auto
  note d' = contiguous_Some [OF assms d]
  have "\<not> d < c" using d'(2) r by (meson Suc_leI atMost_iff subsetD)
  moreover have "\<not> c < d" using d'(1) r by (meson Suc_leI atMost_iff subsetD)
  ultimately show "rs_contiguous rs = Some c" using d by simp
qed (use contiguous_Some [OF assms] in auto)

lemma rs_max_iff:
  assumes "separated rs"
  shows "rs_max rs = (if ranges_set rs = {} then None else Some (Max (ranges_set rs)))"
proof (cases rs rule: rev_cases)
  case (snoc qs q)
  have q: "fst q \<le> snd q" "\<forall>p \<in> set qs. Suc (snd p) < fst q"
    using assms by (auto simp: snoc separated_append separated_Cons)
  have "Max (ranges_set rs) = snd q"
  proof (rule Max_eqI)
    show "finite (ranges_set rs)" by (simp add: set_iter_values [symmetric])
    show "snd q \<in> ranges_set rs" using q(1) by (auto simp: snoc mem_ranges_set)
    show "v \<le> snd q" if "v \<in> ranges_set rs" for v using that q by (fastforce simp: snoc mem_ranges_set)
  qed
  moreover have "ranges_set rs \<noteq> {}" using ranges_empty_iff [OF assms] by (simp add: snoc)
  ultimately show ?thesis by (simp add: rs_max_def snoc)
qed (simp add: rs_max_def ranges_set_simps)

text \<open>One list of ranges for each set: equal sets have equal representations.\<close>

lemma separated_unique:
  "separated rs \<Longrightarrow> separated qs \<Longrightarrow> ranges_set rs = ranges_set qs \<Longrightarrow> rs = qs"
proof (induction rs arbitrary: qs)
  case Nil
  then show ?case using ranges_empty_iff [of qs] by (simp add: ranges_set_simps)
next
  case (Cons r rs)
  then have "qs \<noteq> []" using ranges_empty_iff [of "r # rs"] by (auto simp: ranges_set_simps)
  then obtain q qs' where qs: "qs = q # qs'" by (cases qs) auto
  have sep: "fst r \<le> snd r" "fst q \<le> snd q" "separated rs" "separated qs'"
    "\<forall>p \<in> set rs. Suc (snd r) < fst p" "\<forall>p \<in> set qs'. Suc (snd q) < fst p"
    using Cons.prems(1,2) by (auto simp: qs separated_Cons)
  have eq: "{fst r..snd r} \<union> ranges_set rs = {fst q..snd q} \<union> ranges_set qs'"
    using Cons.prems(3) by (simp add: qs ranges_set_Cons)
  have beyond: "v \<notin> ranges_set rs" if "v \<le> Suc (snd r)" for v using that sep(5) by (fastforce simp: mem_ranges_set)
  have beyond': "v \<notin> ranges_set qs'" if "v \<le> Suc (snd q)" for v using that sep(6) by (fastforce simp: mem_ranges_set)
  have above: "Suc (snd r) < v" if "v \<in> ranges_set rs" for v using that beyond linorder_not_le by blast
  have above': "Suc (snd q) < v" if "v \<in> ranges_set qs'" for v using that beyond' linorder_not_le by blast
  have fst_eq: "fst r = fst q"
  proof (rule antisym)
    have "fst q \<in> {fst r..snd r} \<union> ranges_set rs" using eq sep(2) by auto
    then show "fst r \<le> fst q" using above sep(1) by fastforce
    have "fst r \<in> {fst q..snd q} \<union> ranges_set qs'" using eq sep(1) by auto
    then show "fst q \<le> fst r" using above' sep(2) by fastforce
  qed
  have snd_eq: "snd r = snd q"
  proof (rule ccontr)
    assume "snd r \<noteq> snd q"
    then consider "snd r < snd q" | "snd q < snd r" by linarith
    then show False
    proof cases
      case 1
      then have "Suc (snd r) \<in> {fst q..snd q}" using fst_eq sep(1) by simp
      then have "Suc (snd r) \<in> {fst r..snd r} \<union> ranges_set rs" by (simp add: eq)
      then show False using beyond [of "Suc (snd r)"] by simp
    next
      case 2
      then have "Suc (snd q) \<in> {fst r..snd r}" using fst_eq sep(2) by simp
      then have "Suc (snd q) \<in> {fst q..snd q} \<union> ranges_set qs'" by (simp add: eq [symmetric])
      then show False using beyond' [of "Suc (snd q)"] by simp
    qed
  qed
  have "ranges_set rs = ({fst r..snd r} \<union> ranges_set rs) - {fst r..snd r}" using above by fastforce
  also have "\<dots> = ({fst q..snd q} \<union> ranges_set qs') - {fst q..snd q}" by (simp only: eq) (simp only: fst_eq snd_eq)
  also have "\<dots> = ranges_set qs'" using above' by fastforce
  finally have "ranges_set rs = ranges_set qs'" .
  with Cons.IH [OF sep(3,4)] fst_eq snd_eq show ?case by (simp add: qs prod_eq_iff)
qed

end
