(* ===== verification/Frame_Codec.thy ===== *)
theory Frame_Codec
  imports Checksums Range_Set
begin

text \<open>
  The data-plane wire format, \<open>packages/core/src/frame.rs\<close>: one frame per message, little-endian fields.
  Decoding is a reader over the bytes that are left; it is total and its errors are values. Fields are
  naturals, \<open>frame_ok\<close> states their widths.
\<close>

subsection \<open>Frames\<close>

record frame_key =
  fk_takeId :: bytes
  fk_streamId :: bytes

record audio_chunk =
  ac_stream :: frame_key
  ac_seq :: nat
  ac_firstSampleIndex :: nat
  ac_sampleCount :: nat
  ac_captureTsUs :: nat
  ac_crc32c :: nat
  ac_payload :: bytes

record ack_status =
  ak_stream :: frame_key
  ak_chwm :: nat
  ak_holes :: ranges

record range_list =
  rl_stream :: frame_key
  rl_ranges :: ranges

datatype frame =
    AudioChunk audio_chunk
  | AckStatus ack_status
  | BackfillRequest range_list
  | GapReport range_list
  | TimePing nat nat
  | TimePong nat nat nat nat
  | HaveSummary range_list

datatype decoded = KnownFrame frame | UnknownType byte

datatype decode_error = BadMagic | Truncated | VersionMismatch byte | Malformed string | Oversize nat

definition max_frame_bytes :: nat where "max_frame_bytes = 65536"
definition max_chunk_payload_bytes :: nat where "max_chunk_payload_bytes = max_frame_bytes - 68"
definition max_ranges_per_frame :: nat where "max_ranges_per_frame = (max_frame_bytes - 4 - 32 - 2) div 8"
definition frame_magic :: bytes where "frame_magic = [0x41, 0x4E]"
definition frame_version :: byte where "frame_version = 1"
definition chwm_none :: nat where "chwm_none = 0xFFFFFFFF"

subsection \<open>Encoding\<close>

fun frame_type :: "frame \<Rightarrow> byte" where
  "frame_type (AudioChunk _) = 1"
| "frame_type (AckStatus _) = 2"
| "frame_type (BackfillRequest _) = 3"
| "frame_type (GapReport _) = 4"
| "frame_type (TimePing _ _) = 5"
| "frame_type (TimePong _ _ _ _) = 6"
| "frame_type (HaveSummary _) = 7"

definition encode_key :: "frame_key \<Rightarrow> bytes" where
  "encode_key k = fk_takeId k @ fk_streamId k"

text \<open>At most \<open>u16::MAX\<close> ranges are written.\<close>

definition encode_ranges :: "ranges \<Rightarrow> bytes" where
  "encode_ranges rs =
     (let n = min (length rs) 65535
      in put16 n @ concat (map (\<lambda>(s, e). put32 s @ put32 e) (take n rs)))"

fun encode_body :: "frame \<Rightarrow> bytes" where
  "encode_body (AudioChunk c) =
     encode_key (ac_stream c) @ put32 (ac_seq c) @ put64 (ac_firstSampleIndex c) @ put32 (ac_sampleCount c)
     @ put64 (ac_captureTsUs c) @ put32 (ac_crc32c c) @ put32 (length (ac_payload c)) @ ac_payload c"
| "encode_body (AckStatus a) = encode_key (ak_stream a) @ put32 (ak_chwm a) @ encode_ranges (ak_holes a)"
| "encode_body (BackfillRequest r) = encode_key (rl_stream r) @ encode_ranges (rl_ranges r)"
| "encode_body (GapReport r) = encode_key (rl_stream r) @ encode_ranges (rl_ranges r)"
| "encode_body (HaveSummary r) = encode_key (rl_stream r) @ encode_ranges (rl_ranges r)"
| "encode_body (TimePing i t1) = put32 i @ put64 t1"
| "encode_body (TimePong i t1 t2 t3) = put32 i @ put64 t1 @ put64 t2 @ put64 t3"

definition encode_frame :: "frame \<Rightarrow> bytes" where
  "encode_frame f = frame_magic @ [frame_version, frame_type f] @ encode_body f"

fun encoded_len :: "frame \<Rightarrow> nat" where
  "encoded_len (AudioChunk c) = 4 + (64 + length (ac_payload c))"
| "encoded_len (AckStatus a) = 4 + (32 + 4 + 2 + 8 * length (ak_holes a))"
| "encoded_len (BackfillRequest r) = 4 + (32 + 2 + 8 * length (rl_ranges r))"
| "encoded_len (GapReport r) = 4 + (32 + 2 + 8 * length (rl_ranges r))"
| "encoded_len (HaveSummary r) = 4 + (32 + 2 + 8 * length (rl_ranges r))"
| "encoded_len (TimePing _ _) = 4 + 12"
| "encoded_len (TimePong _ _ _ _) = 4 + 28"

text \<open>\<open>ranges.chunks(MAX_RANGES_PER_FRAME)\<close>.\<close>

function split_ranges :: "nat \<Rightarrow> ranges \<Rightarrow> ranges list" where
  "split_ranges n rs = (if rs = [] \<or> n = 0 then [] else take n rs # split_ranges n (drop n rs))"
  by pat_completeness auto
termination by (relation "measure (\<lambda>(n, rs). length rs)") auto

declare split_ranges.simps [simp del]

definition split_ranges_for_frames :: "ranges \<Rightarrow> ranges list" where
  "split_ranges_for_frames rs = split_ranges max_ranges_per_frame rs"

subsection \<open>Decoding\<close>

type_synonym 'a reader = "bytes \<Rightarrow> decode_error + 'a \<times> bytes"

definition rd_then :: "'a reader \<Rightarrow> ('a \<Rightarrow> 'b reader) \<Rightarrow> 'b reader" where
  "rd_then m f b = (case m b of Inl e \<Rightarrow> Inl e | Inr (x, r) \<Rightarrow> f x r)"

definition rd_done :: "'a \<Rightarrow> 'a reader" where
  "rd_done x b = Inr (x, b)"

definition rd_fail :: "decode_error \<Rightarrow> 'a reader" where
  "rd_fail e b = Inl e"

definition rd_bytes :: "nat \<Rightarrow> bytes reader" where
  "rd_bytes n b = (if length b < n then Inl Truncated else Inr (take n b, drop n b))"

definition rd_u16 :: "nat reader" where "rd_u16 = rd_then (rd_bytes 2) (\<lambda>x. rd_done (rd16 x))"
definition rd_u32 :: "nat reader" where "rd_u32 = rd_then (rd_bytes 4) (\<lambda>x. rd_done (rd32 x))"
definition rd_u64 :: "nat reader" where "rd_u64 = rd_then (rd_bytes 8) (\<lambda>x. rd_done (rd64 x))"

definition rd_key :: "frame_key reader" where
  "rd_key = rd_then (rd_bytes 16) (\<lambda>t. rd_then (rd_bytes 16) (\<lambda>s. rd_done \<lparr>fk_takeId = t, fk_streamId = s\<rparr>))"

fun rd_range_loop :: "nat \<Rightarrow> ranges reader" where
  "rd_range_loop 0 = rd_done []"
| "rd_range_loop (Suc n) =
     rd_then rd_u32 (\<lambda>s. rd_then rd_u32 (\<lambda>e.
       if e < s then rd_fail (Malformed ''inverted range'')
       else rd_then (rd_range_loop n) (\<lambda>rs. rd_done ((s, e) # rs))))"

definition rd_ranges :: "ranges reader" where
  "rd_ranges = rd_then rd_u16 (\<lambda>n b. if length b < n * 8 then Inl Truncated else rd_range_loop n b)"

definition rd_end :: "'a \<Rightarrow> 'a reader" where
  "rd_end x b = (if b \<noteq> [] then Inl (Malformed ''trailing bytes'') else Inr (x, b))"

definition rd_audio_chunk :: "frame reader" where
  "rd_audio_chunk =
     rd_then rd_key (\<lambda>k. rd_then rd_u32 (\<lambda>seq. rd_then rd_u64 (\<lambda>first. rd_then rd_u32 (\<lambda>samples.
     rd_then rd_u64 (\<lambda>ts. rd_then rd_u32 (\<lambda>crc. rd_then rd_u32 (\<lambda>len.
       if max_chunk_payload_bytes < len then rd_fail (Malformed ''payload_len exceeds frame bound'')
       else rd_then (rd_bytes len) (\<lambda>payload. rd_end
         (AudioChunk \<lparr>ac_stream = k, ac_seq = seq, ac_firstSampleIndex = first, ac_sampleCount = samples,
            ac_captureTsUs = ts, ac_crc32c = crc, ac_payload = payload\<rparr>)))))))))"

definition rd_ack_status :: "frame reader" where
  "rd_ack_status =
     rd_then rd_key (\<lambda>k. rd_then rd_u32 (\<lambda>chwm. rd_then rd_ranges (\<lambda>holes.
       rd_end (AckStatus \<lparr>ak_stream = k, ak_chwm = chwm, ak_holes = holes\<rparr>))))"

definition rd_list :: "(range_list \<Rightarrow> frame) \<Rightarrow> frame reader" where
  "rd_list con = rd_then rd_key (\<lambda>k. rd_then rd_ranges (\<lambda>rs. rd_end (con \<lparr>rl_stream = k, rl_ranges = rs\<rparr>)))"

definition rd_time_ping :: "frame reader" where
  "rd_time_ping = rd_then rd_u32 (\<lambda>i. rd_then rd_u64 (\<lambda>t1. rd_end (TimePing i t1)))"

definition rd_time_pong :: "frame reader" where
  "rd_time_pong = rd_then rd_u32 (\<lambda>i. rd_then rd_u64 (\<lambda>t1. rd_then rd_u64 (\<lambda>t2. rd_then rd_u64 (\<lambda>t3.
     rd_end (TimePong i t1 t2 t3)))))"

definition rd_frame :: "byte \<Rightarrow> frame reader option" where
  "rd_frame t =
     (if t = 1 then Some rd_audio_chunk
      else if t = 2 then Some rd_ack_status
      else if t = 3 then Some (rd_list BackfillRequest)
      else if t = 4 then Some (rd_list GapReport)
      else if t = 7 then Some (rd_list HaveSummary)
      else if t = 5 then Some rd_time_ping
      else if t = 6 then Some rd_time_pong
      else None)"

definition decode_frame :: "bytes \<Rightarrow> decode_error + decoded" where
  "decode_frame b =
     (if max_frame_bytes < length b then Inl (Oversize (length b))
      else if length b < 4 then Inl Truncated
      else if take 2 b \<noteq> frame_magic then Inl BadMagic
      else if b ! 2 \<noteq> frame_version then Inl (VersionMismatch (b ! 2))
      else (case rd_frame (b ! 3) of
          None \<Rightarrow> Inr (UnknownType (b ! 3))
        | Some rd \<Rightarrow> (case rd (drop 4 b) of Inl e \<Rightarrow> Inl e | Inr (f, _) \<Rightarrow> Inr (KnownFrame f))))"

subsection \<open>What a reader accepts\<close>

definition u16 :: "nat \<Rightarrow> bool" where "u16 n \<longleftrightarrow> n < 65536"
definition u32 :: "nat \<Rightarrow> bool" where "u32 n \<longleftrightarrow> n < 4294967296"
definition u64 :: "nat \<Rightarrow> bool" where "u64 n \<longleftrightarrow> n < 18446744073709551616"

definition key_ok :: "frame_key \<Rightarrow> bool" where
  "key_ok k \<longleftrightarrow> length (fk_takeId k) = 16 \<and> length (fk_streamId k) = 16"

definition range_ok :: "nat \<times> nat \<Rightarrow> bool" where
  "range_ok r \<longleftrightarrow> u32 (fst r) \<and> u32 (snd r) \<and> fst r \<le> snd r"

definition ranges_ok :: "ranges \<Rightarrow> bool" where
  "ranges_ok rs \<longleftrightarrow> list_all range_ok rs \<and> u16 (length rs)"

fun frame_ok :: "frame \<Rightarrow> bool" where
  "frame_ok (AudioChunk c) \<longleftrightarrow> key_ok (ac_stream c) \<and> u32 (ac_seq c) \<and> u64 (ac_firstSampleIndex c)
     \<and> u32 (ac_sampleCount c) \<and> u64 (ac_captureTsUs c) \<and> u32 (ac_crc32c c)
     \<and> length (ac_payload c) \<le> max_chunk_payload_bytes"
| "frame_ok (AckStatus a) \<longleftrightarrow> key_ok (ak_stream a) \<and> u32 (ak_chwm a) \<and> ranges_ok (ak_holes a)"
| "frame_ok (BackfillRequest r) \<longleftrightarrow> key_ok (rl_stream r) \<and> ranges_ok (rl_ranges r)"
| "frame_ok (GapReport r) \<longleftrightarrow> key_ok (rl_stream r) \<and> ranges_ok (rl_ranges r)"
| "frame_ok (HaveSummary r) \<longleftrightarrow> key_ok (rl_stream r) \<and> ranges_ok (rl_ranges r)"
| "frame_ok (TimePing i t1) \<longleftrightarrow> u32 i \<and> u64 t1"
| "frame_ok (TimePong i t1 t2 t3) \<longleftrightarrow> u32 i \<and> u64 t1 \<and> u64 t2 \<and> u64 t3"

text \<open>
  A reader is exact for an encoder and a validity test: it accepts precisely the encodings of valid
  values. Exactness is preserved by sequencing, so the frame readers inherit it from the fields.
\<close>

definition exact :: "'a reader \<Rightarrow> ('a \<Rightarrow> bytes) \<Rightarrow> ('a \<Rightarrow> bool) \<Rightarrow> bool" where
  "exact rd enc ok \<longleftrightarrow> (\<forall>b x r. rd b = Inr (x, r) \<longleftrightarrow> ok x \<and> b = enc x @ r)"

lemma exactD: "exact rd enc ok \<Longrightarrow> rd b = Inr (x, r) \<longleftrightarrow> ok x \<and> b = enc x @ r"
  unfolding exact_def by blast

lemma rd_then_Inr:
  "rd_then m f b = Inr (y, r) \<longleftrightarrow> (\<exists>x r'. m b = Inr (x, r') \<and> f x r' = Inr (y, r))"
  by (auto simp: rd_then_def split: sum.splits)

lemma rd_then_exact:
  assumes "exact m enc ok" "ok x"
  shows "rd_then m f (enc x @ r) = f x r" "rd_then m f (enc x) = f x []"
proof -
  have "m (enc x @ r) = Inr (x, r)" "m (enc x) = Inr (x, [])" using assms by (simp_all add: exact_def)
  then show "rd_then m f (enc x @ r) = f x r" "rd_then m f (enc x) = f x []" by (simp_all add: rd_then_def)
qed

lemma exact_bytes: "exact (rd_bytes n) (\<lambda>x. x) (\<lambda>x. length x = n)"
  by (auto simp: exact_def rd_bytes_def)

lemma unat_le_255: "unat (b :: 8 word) < 256"
  using unsigned_less [of b] by simp

lemma word_of_low_byte: "(word_of_nat (unat a + 256 * n) :: 8 word) = a"
  by (simp only: word_unat_eq_iff unat_byte mod_mult_self2) (use unat_le_255 [of a] in simp)

lemma low_byte_div: "(unat (a :: 8 word) + 256 * n) div 256 = n"
  using unat_le_255 [of a] by simp

lemma put16_rd16: "put16 (rd16 [a, b]) = [a, b]"
  by (simp add: put16_def word_of_low_byte low_byte_div del: of_nat_add of_nat_mult)

lemma rd32_nested: "rd32 (a # b # c # d # r) = unat a + 256 * (unat b + 256 * (unat c + 256 * unat d))"
  by simp

lemma put32_rd32: "put32 (rd32 [a, b, c, d]) = [a, b, c, d]"
proof -
  define z y x where "z = unat c + 256 * unat d" "y = unat b + 256 * z" "x = unat a + 256 * y"
  have div: "x div 65536 = z" "x div 16777216 = unat d"
    using low_byte_div [of a y] low_byte_div [of b z] low_byte_div [of c "unat d"]
    by (simp_all add: z_y_x_def(1) [symmetric] z_y_x_def(2) [symmetric] z_y_x_def(3) [symmetric]
        div_mult2_eq [of x 256 256, simplified] div_mult2_eq [of x 256 65536, simplified]
        div_mult2_eq [of y 256 256, simplified])
  have "rd32 [a, b, c, d] = x" unfolding rd32_nested z_y_x_def ..
  moreover have "word_of_nat x = a" "word_of_nat (x div 256) = b"
    unfolding z_y_x_def(3) low_byte_div by (simp_all only: word_of_low_byte) (simp only: z_y_x_def(2) word_of_low_byte)
  moreover have "word_of_nat z = c" by (simp only: z_y_x_def(1) word_of_low_byte)
  ultimately show ?thesis by (simp add: put32_def div)
qed

lemma list_of_length:
  "length x = 2 \<longleftrightarrow> (\<exists>a b. x = [a, b])" "length x = 4 \<longleftrightarrow> (\<exists>a b c d. x = [a, b, c, d])"
  by (auto simp: numeral_eq_Suc length_Suc_conv)

lemma exact_num:
  assumes "\<And>n. length (put n) = w" and "\<And>n. ok n \<Longrightarrow> get (put n) = n"
    and "\<And>x. length x = w \<Longrightarrow> put (get x) = x \<and> ok (get x)"
  shows "exact (rd_then (rd_bytes w) (\<lambda>x. rd_done (get x))) put ok"
  unfolding exact_def rd_then_Inr exactD [OF exact_bytes] rd_done_def
  using assms by (metis Inr_inject prod.inject)

lemma rd32_bound: "rd32 [a, b, c, d] < 4294967296"
  using unat_le_255 [of a] unat_le_255 [of b] unat_le_255 [of c] unat_le_255 [of d] by simp

lemma exact_u16: "exact rd_u16 put16 u16"
  unfolding rd_u16_def
proof (rule exact_num)
  fix x :: bytes assume "length x = 2"
  then obtain a b where "x = [a, b]" by (auto simp: list_of_length)
  then show "put16 (rd16 x) = x \<and> u16 (rd16 x)"
    using unat_le_255 [of a] unat_le_255 [of b] put16_rd16 [of a b] by (simp add: u16_def)
qed (use rd16_put16 [where rest = "[]"] in \<open>simp_all add: u16_def\<close>)

lemma exact_u32: "exact rd_u32 put32 u32"
  unfolding rd_u32_def
proof (rule exact_num)
  fix x :: bytes assume "length x = 4"
  then obtain a b c d where "x = [a, b, c, d]" by (auto simp: list_of_length)
  then show "put32 (rd32 x) = x \<and> u32 (rd32 x)"
    using put32_rd32 [of a b c d] rd32_bound [of a b c d] by (simp only: u32_def)
qed (use rd32_put32 [where rest = "[]"] in \<open>simp_all add: u32_def\<close>)

lemma put64_rd64:
  assumes "length x = 8" shows "put64 (rd64 x) = x \<and> u64 (rd64 x)"
proof -
  have "length (take 4 x) = 4" "length (drop 4 x) = 4" using assms by simp_all
  then obtain a b c d a' b' c' d' where "take 4 x = [a, b, c, d]" "drop 4 x = [a', b', c', d']"
    unfolding list_of_length by metis
  moreover from this have "x = [a, b, c, d, a', b', c', d']" by (metis append_Cons append_Nil append_take_drop_id)
  moreover define m n where "m = rd32 [a, b, c, d]" "n = rd32 [a', b', c', d']"
  ultimately have rd: "rd64 x = m + 4294967296 * n" by (simp add: rd64_def)
  have mn: "m < 4294967296" "n < 4294967296" unfolding m_n_def by (rule rd32_bound)+
  then have "put32 (m + 4294967296 * n) = put32 m" "(m + 4294967296 * n) div 4294967296 = n"
    using put32_mod [of "m + 4294967296 * n"] by simp_all
  then have "put64 (rd64 x) = put32 m @ put32 n" unfolding rd put64_def by (simp only:)
  also have "\<dots> = x"
    using \<open>x = _\<close> unfolding m_n_def put32_rd32 by simp
  finally show ?thesis using mn by (simp add: rd u64_def)
qed

lemma exact_u64: "exact rd_u64 put64 u64"
  unfolding rd_u64_def
proof (rule exact_num)
  show "put64 (rd64 x) = x \<and> u64 (rd64 x)" if "length x = 8" for x using put64_rd64 [OF that] .
qed (use rd64_put64 [where rest = "[]"] in \<open>simp_all add: u64_def\<close>)

lemmas exact_fields = exactD [OF exact_bytes] exactD [OF exact_u16] exactD [OF exact_u32] exactD [OF exact_u64]

lemma exact_key: "exact rd_key encode_key key_ok"
proof -
  have "rd_key b = Inr (k, r) \<longleftrightarrow> key_ok k \<and> b = encode_key k @ r" for b k r
    by (cases k) (auto simp: rd_key_def rd_then_Inr exact_fields rd_done_def key_ok_def encode_key_def)
  then show ?thesis by (simp add: exact_def)
qed

definition put_ranges :: "ranges \<Rightarrow> bytes" where
  "put_ranges rs = concat (map (\<lambda>(s, e). put32 s @ put32 e) rs)"

lemma rd_range_loop_exact:
  "rd_range_loop n b = Inr (rs, r) \<longleftrightarrow> length rs = n \<and> list_all range_ok rs \<and> b = put_ranges rs @ r"
proof (induction n arbitrary: b rs r)
  case 0
  then show ?case by (auto simp: rd_done_def put_ranges_def)
next
  case (Suc n)
  show ?case
  proof (cases rs)
    case Nil
    then show ?thesis by (auto simp: rd_then_Inr rd_done_def rd_fail_def split: if_splits)
  next
    case (Cons p rs')
    obtain s e where p: "p = (s, e)" by (cases p)
    have range: "range_ok (s, e) \<longleftrightarrow> u32 s \<and> u32 e \<and> s \<le> e"
      and put: "put_ranges ((s, e) # rs') = put32 s @ put32 e @ put_ranges rs'"
      by (simp_all add: range_ok_def put_ranges_def)
    have "rd_range_loop (Suc n) b = Inr (rs, r) \<longleftrightarrow>
        (u32 s \<and> u32 e \<and> s \<le> e \<and> (\<exists>b'. b = put32 s @ put32 e @ b' \<and> rd_range_loop n b' = Inr (rs', r)))"
    proof
      assume "rd_range_loop (Suc n) b = Inr (rs, r)"
      then show "u32 s \<and> u32 e \<and> s \<le> e \<and> (\<exists>b'. b = put32 s @ put32 e @ b' \<and> rd_range_loop n b' = Inr (rs', r))"
        by (auto simp: Cons p rd_then_Inr exact_fields rd_done_def rd_fail_def split: if_splits)
    next
      assume "u32 s \<and> u32 e \<and> s \<le> e \<and> (\<exists>b'. b = put32 s @ put32 e @ b' \<and> rd_range_loop n b' = Inr (rs', r))"
      then obtain b' where b: "b = put32 s @ put32 e @ b'" and ok: "u32 s" "u32 e" "s \<le> e"
        and rest: "rd_range_loop n b' = Inr (rs', r)" by blast
      have "rd_range_loop (Suc n) b = rd_then (rd_range_loop n) (\<lambda>rs. rd_done ((s, e) # rs)) b'"
        using ok by (simp add: b rd_then_exact [OF exact_u32])
      then show "rd_range_loop (Suc n) b = Inr (rs, r)"
        using rest by (simp add: rd_then_def rd_done_def Cons p)
    qed
    also have "\<dots> \<longleftrightarrow> length rs = Suc n \<and> list_all range_ok rs \<and> b = put_ranges rs @ r"
      using range put by (auto simp: Cons p Suc.IH)
    finally show ?thesis .
  qed
qed

lemma length_put_ranges: "length (put_ranges rs) = 8 * length rs"
  by (induction rs) (auto simp: put_ranges_def)

lemma encode_ranges_short: "u16 (length rs) \<Longrightarrow> encode_ranges rs = put16 (length rs) @ put_ranges rs"
  by (simp add: encode_ranges_def put_ranges_def u16_def min_def Let_def)

lemma exact_ranges: "exact rd_ranges encode_ranges ranges_ok"
proof -
  have "rd_ranges b = Inr (rs, r) \<longleftrightarrow> ranges_ok rs \<and> b = encode_ranges rs @ r" for b rs r
  proof
    assume "rd_ranges b = Inr (rs, r)"
    then show "ranges_ok rs \<and> b = encode_ranges rs @ r"
      by (auto simp: rd_ranges_def rd_then_Inr exact_fields rd_range_loop_exact ranges_ok_def
          encode_ranges_short split: if_splits)
  next
    assume "ranges_ok rs \<and> b = encode_ranges rs @ r"
    then have ok: "list_all range_ok rs" "u16 (length rs)" and b: "b = put16 (length rs) @ put_ranges rs @ r"
      by (simp_all add: ranges_ok_def encode_ranges_short)
    have "rd_ranges b = rd_range_loop (length rs) (put_ranges rs @ r)"
      using ok by (simp add: b rd_ranges_def rd_then_exact [OF exact_u16] length_put_ranges)
    then show "rd_ranges b = Inr (rs, r)" using ok by (simp add: rd_range_loop_exact)
  qed
  then show ?thesis by (simp add: exact_def)
qed

lemmas exact_parts = exact_fields exactD [OF exact_key] exactD [OF exact_ranges]

lemmas reads = rd_then_exact [OF exact_u32] rd_then_exact [OF exact_u64] rd_then_exact [OF exact_key]
  rd_then_exact [OF exact_ranges] rd_then_exact [OF exact_bytes]

subsection \<open>Frames on the wire\<close>

text \<open>What a frame reader returns re-encodes to what it read; what a valid frame encodes to is read back.\<close>

definition reads_frames :: "frame reader \<Rightarrow> (frame \<Rightarrow> bool) \<Rightarrow> bool" where
  "reads_frames rd kind \<longleftrightarrow>
     (\<forall>b f r. rd b = Inr (f, r) \<longrightarrow> kind f \<and> frame_ok f \<and> b = encode_body f)
   \<and> (\<forall>f. kind f \<and> frame_ok f \<longrightarrow> rd (encode_body f) = Inr (f, []))"

lemma rd_audio_chunk_reads: "reads_frames rd_audio_chunk (\<lambda>f. \<exists>c. f = AudioChunk c)"
  unfolding reads_frames_def
proof (intro conjI allI impI)
  fix b f r assume "rd_audio_chunk b = Inr (f, r)"
  then show "(\<exists>c. f = AudioChunk c)" "frame_ok f" "b = encode_body f"
    by (auto simp: rd_audio_chunk_def rd_then_Inr exact_parts rd_end_def rd_fail_def split: if_splits)
next
  fix f assume "(\<exists>c. f = AudioChunk c) \<and> frame_ok f"
  then obtain c where c: "f = AudioChunk c" "frame_ok (AudioChunk c)" by blast
  then have "u32 (length (ac_payload c))"
    by (simp add: u32_def max_chunk_payload_bytes_def max_frame_bytes_def)
  with c show "rd_audio_chunk (encode_body f) = Inr (f, [])"
    by (simp add: rd_audio_chunk_def reads rd_end_def)
qed

lemma rd_ack_status_reads: "reads_frames rd_ack_status (\<lambda>f. \<exists>a. f = AckStatus a)"
  unfolding reads_frames_def
proof (intro conjI allI impI)
  fix b f r assume "rd_ack_status b = Inr (f, r)"
  then show "(\<exists>a. f = AckStatus a)" "frame_ok f" "b = encode_body f"
    by (auto simp: rd_ack_status_def rd_then_Inr exact_parts rd_end_def split: if_splits)
qed (auto simp: rd_ack_status_def reads rd_end_def)

lemma range_list_eta: "\<lparr>rl_stream = rl_stream l, rl_ranges = rl_ranges l\<rparr> = l"
  by (cases l) simp

lemma rd_list_reads:
  assumes "\<And>l. encode_body (con l) = encode_key (rl_stream l) @ encode_ranges (rl_ranges l)"
    and "\<And>l. frame_ok (con l) \<longleftrightarrow> key_ok (rl_stream l) \<and> ranges_ok (rl_ranges l)"
  shows "reads_frames (rd_list con) (\<lambda>f. \<exists>l. f = con l)"
  unfolding reads_frames_def
proof (intro conjI allI impI)
  fix b f r assume "rd_list con b = Inr (f, r)"
  then show "(\<exists>l. f = con l)" "frame_ok f" "b = encode_body f"
    by (auto simp: rd_list_def rd_then_Inr exact_parts rd_end_def assms split: if_splits)
qed (auto simp: rd_list_def reads rd_end_def assms range_list_eta)

lemma rd_time_ping_reads: "reads_frames rd_time_ping (\<lambda>f. \<exists>i t. f = TimePing i t)"
  unfolding reads_frames_def
proof (intro conjI allI impI)
  fix b f r assume "rd_time_ping b = Inr (f, r)"
  then show "(\<exists>i t. f = TimePing i t)" "frame_ok f" "b = encode_body f"
    by (auto simp: rd_time_ping_def rd_then_Inr exact_parts rd_end_def split: if_splits)
qed (auto simp: rd_time_ping_def reads rd_end_def)

lemma rd_time_pong_reads: "reads_frames rd_time_pong (\<lambda>f. \<exists>i t u v. f = TimePong i t u v)"
  unfolding reads_frames_def
proof (intro conjI allI impI)
  fix b f r assume "rd_time_pong b = Inr (f, r)"
  then show "(\<exists>i t u v. f = TimePong i t u v)" "frame_ok f" "b = encode_body f"
    by (auto simp: rd_time_pong_def rd_then_Inr exact_parts rd_end_def split: if_splits)
qed (auto simp: rd_time_pong_def reads rd_end_def)

lemma reads_framesD:
  "reads_frames rd kind \<Longrightarrow> rd b = Inr (f, r) \<Longrightarrow> kind f \<and> frame_ok f \<and> b = encode_body f"
  "reads_frames rd kind \<Longrightarrow> kind f \<Longrightarrow> frame_ok f \<Longrightarrow> rd (encode_body f) = Inr (f, [])"
  unfolding reads_frames_def by blast+

lemmas frame_readers = rd_audio_chunk_reads rd_ack_status_reads rd_time_ping_reads rd_time_pong_reads
  rd_list_reads [of BackfillRequest, OF encode_body.simps(3) frame_ok.simps(3)]
  rd_list_reads [of GapReport, OF encode_body.simps(4) frame_ok.simps(4)]
  rd_list_reads [of HaveSummary, OF encode_body.simps(5) frame_ok.simps(5)]

lemma rd_frame_spec:
  assumes "rd_frame t = Some rd" "rd b = Inr (f, r)"
  shows "frame_type f = t \<and> frame_ok f \<and> b = encode_body f"
proof -
  consider "t = 1" "rd = rd_audio_chunk" | "t = 2" "rd = rd_ack_status" | "t = 3" "rd = rd_list BackfillRequest"
    | "t = 4" "rd = rd_list GapReport" | "t = 7" "rd = rd_list HaveSummary" | "t = 5" "rd = rd_time_ping"
    | "t = 6" "rd = rd_time_pong"
    using assms(1) by (auto simp: rd_frame_def split: if_splits)
  then show ?thesis
    by cases (use assms(2) frame_readers [THEN reads_framesD(1)] in fastforce)+
qed

lemma rd_frame_back:
  assumes "frame_ok f"
  shows "\<exists>rd. rd_frame (frame_type f) = Some rd \<and> rd (encode_body f) = Inr (f, [])"
  using assms frame_readers [THEN reads_framesD(2)] by (cases f) (simp_all add: rd_frame_def del: encode_body.simps)

lemma length_encode_frame: "4 \<le> length (encode_frame f)"
  by (simp add: encode_frame_def frame_magic_def)

lemma decode_sound:
  assumes dec: "decode_frame b = Inr (KnownFrame f)"
  shows "b = encode_frame f \<and> frame_ok f \<and> length b \<le> max_frame_bytes"
proof -
  have len: "length b \<le> max_frame_bytes" "4 \<le> length b" and magic: "take 2 b = frame_magic" "b ! 2 = frame_version"
    using dec by (auto simp: decode_frame_def split: if_splits)
  obtain rd r where rd: "rd_frame (b ! 3) = Some rd" "rd (drop 4 b) = Inr (f, r)"
    using dec len magic by (auto simp: decode_frame_def split: option.splits sum.splits)
  have "b = take 2 b @ [b ! 2, b ! 3] @ drop 4 b"
    using len(2) by (simp add: numeral_eq_Suc Cons_nth_drop_Suc take_Suc_conv_app_nth [symmetric])
  then show ?thesis using rd_frame_spec [OF rd] magic len by (simp add: encode_frame_def)
qed

lemma decode_encode:
  assumes "frame_ok f" "length (encode_frame f) \<le> max_frame_bytes"
  shows "decode_frame (encode_frame f) = Inr (KnownFrame f)"
proof -
  obtain rd where rd: "rd_frame (frame_type f) = Some rd" "rd (encode_body f) = Inr (f, [])"
    using rd_frame_back [OF assms(1)] by blast
  have "take 2 (encode_frame f) = frame_magic" "encode_frame f ! 2 = frame_version"
    "encode_frame f ! 3 = frame_type f" "drop 4 (encode_frame f) = encode_body f"
    by (simp_all add: encode_frame_def frame_magic_def numeral_eq_Suc)
  moreover have "\<not> max_frame_bytes < length (encode_frame f)" "\<not> length (encode_frame f) < 4"
    using assms(2) length_encode_frame [of f] by linarith+
  ultimately show ?thesis using rd by (simp add: decode_frame_def)
qed

text \<open>C14. Decoding accepts exactly what encoding produces: a message decodes to a frame just when the frame's fields
  fit their widths and the message is its encoding, of at most 64 KiB. Every other message is an error
  value or an unknown type.\<close>

theorem frame_codec_exact:
  "decode_frame b = Inr (KnownFrame f) \<longleftrightarrow> b = encode_frame f \<and> frame_ok f \<and> length b \<le> max_frame_bytes"
  using decode_sound decode_encode by blast

lemma encode_ranges_length: "length (encode_ranges rs) = 2 + 8 * min (length rs) 65535"
  using length_put_ranges [of "take (min (length rs) 65535) rs"]
  by (simp add: encode_ranges_def Let_def put_ranges_def)

lemma encoded_len_exact: "frame_ok f \<Longrightarrow> length (encode_frame f) = encoded_len f"
  by (cases f) (auto simp: encode_frame_def frame_magic_def encode_key_def key_ok_def encode_ranges_length
      ranges_ok_def u16_def)

text \<open>Lists split for frames fit into them and lose nothing.\<close>

lemma split_ranges_concat: "0 < n \<Longrightarrow> concat (split_ranges n rs) = rs"
proof (induction n rs rule: split_ranges.induct)
  case (1 n rs)
  then show ?case by (subst split_ranges.simps) (cases "rs = []"; simp)
qed

lemma split_ranges_length: "batch \<in> set (split_ranges n rs) \<Longrightarrow> length batch \<le> n"
proof (induction n rs rule: split_ranges.induct)
  case (1 n rs)
  then show ?case by (subst (asm) (2) split_ranges.simps) (auto split: if_splits)
qed

lemma split_batches_fit:
  assumes "batch \<in> set (split_ranges_for_frames rs)" "key_ok k" "list_all range_ok batch"
  shows "decode_frame (encode_frame (GapReport \<lparr>rl_stream = k, rl_ranges = batch\<rparr>))
    = Inr (KnownFrame (GapReport \<lparr>rl_stream = k, rl_ranges = batch\<rparr>))"
proof -
  have len: "length batch \<le> 8187"
    using split_ranges_length [OF assms(1) [unfolded split_ranges_for_frames_def]]
    by (simp add: max_ranges_per_frame_def max_frame_bytes_def)
  then have ok: "frame_ok (GapReport \<lparr>rl_stream = k, rl_ranges = batch\<rparr>)"
    using assms by (simp add: ranges_ok_def u16_def)
  moreover from len have "encoded_len (GapReport \<lparr>rl_stream = k, rl_ranges = batch\<rparr>) \<le> max_frame_bytes"
    by (simp add: max_frame_bytes_def)
  ultimately show ?thesis using decode_encode [OF ok] by (simp only: encoded_len_exact [OF ok])
qed

text \<open>
  An acknowledgement is not split: one with 8187 holes or more is longer than the decoder accepts, so the
  recorder never sees it.
\<close>

lemma long_ack_is_oversize:
  assumes "frame_ok (AckStatus a)" "8187 \<le> length (ak_holes a)"
  shows "decode_frame (encode_frame (AckStatus a)) = Inl (Oversize (encoded_len (AckStatus a)))"
  using assms encoded_len_exact [OF assms(1)] by (simp add: decode_frame_def max_frame_bytes_def)

subsection \<open>The stream header\<close>

text \<open>
  \<open>packages/core/src/chunk.rs\<close>: the payload of chunk 0. The device description is its UTF-8 bytes; it is
  cut at a character boundary when it does not fit its length field.
\<close>

record stream_header_v1 =
  sh_codec :: byte
  sh_channels :: byte
  sh_bitsPerSample :: byte
  sh_sampleRate :: nat
  sh_clockEpochUs :: nat
  sh_wallClockHintMs :: nat
  sh_deviceDesc :: bytes
  sh_codecHeader :: bytes

datatype stream_header_error = HBadMagic | HUnsupportedVersion byte | HTruncated | HBadDeviceDesc | HTrailingBytes

definition stream_header_magic :: bytes where "stream_header_magic = [0x41, 0x4E, 0x53, 0x30]"

definition is_char_boundary :: "bytes \<Rightarrow> nat \<Rightarrow> bool" where
  "is_char_boundary b n \<longleftrightarrow> n = 0 \<or> n = length b \<or> (n < length b \<and> (b ! n < 0x80 \<or> 0xC0 \<le> b ! n))"

fun cut_at_boundary :: "bytes \<Rightarrow> nat \<Rightarrow> nat" where
  "cut_at_boundary b 0 = 0"
| "cut_at_boundary b (Suc n) = (if is_char_boundary b (Suc n) then Suc n else cut_at_boundary b n)"

definition encode_stream_header :: "stream_header_v1 \<Rightarrow> bytes" where
  "encode_stream_header h =
     (let desc_len = cut_at_boundary (sh_deviceDesc h) (min (length (sh_deviceDesc h)) 65535);
          ch_len = min (length (sh_codecHeader h)) 65535
      in stream_header_magic @ [1, sh_codec h, sh_channels h, sh_bitsPerSample h] @ put32 (sh_sampleRate h)
         @ put64 (sh_clockEpochUs h) @ put64 (sh_wallClockHintMs h) @ put16 desc_len
         @ take desc_len (sh_deviceDesc h) @ put16 ch_len @ take ch_len (sh_codecHeader h))"

definition decode_stream_header :: "(bytes \<Rightarrow> bool) \<Rightarrow> bytes \<Rightarrow> stream_header_error + stream_header_v1" where
  "decode_stream_header utf8 b =
     (if length b < 4 then Inl HTruncated
      else if take 4 b \<noteq> stream_header_magic then Inl HBadMagic
      else if length b < 5 then Inl HTruncated
      else if b ! 4 \<noteq> 1 then Inl (HUnsupportedVersion (b ! 4))
      else if length b < 30 then Inl HTruncated
      else let desc_end = 30 + rd16 (drop 28 b)
           in if length b < desc_end + 2 then Inl HTruncated
              else let desc = take (desc_end - 30) (drop 30 b);
                       ch_end = desc_end + 2 + rd16 (drop desc_end b)
                   in if \<not> utf8 desc then Inl HBadDeviceDesc
                      else if length b < ch_end then Inl HTruncated
                      else if ch_end < length b then Inl HTrailingBytes
                      else Inr \<lparr>sh_codec = b ! 5, sh_channels = b ! 6, sh_bitsPerSample = b ! 7,
                              sh_sampleRate = rd32 (drop 8 b), sh_clockEpochUs = rd64 (drop 12 b),
                              sh_wallClockHintMs = rd64 (drop 20 b), sh_deviceDesc = desc,
                              sh_codecHeader = drop (desc_end + 2) b\<rparr>)"

definition header_chunk :: "frame_key \<Rightarrow> stream_header_v1 \<Rightarrow> audio_chunk" where
  "header_chunk k h =
     (let payload = encode_stream_header h
      in \<lparr>ac_stream = k, ac_seq = 0, ac_firstSampleIndex = 0, ac_sampleCount = 0,
          ac_captureTsUs = sh_clockEpochUs h, ac_crc32c = unat (crc32c payload), ac_payload = payload\<rparr>)"

definition mk_audio_chunk :: "frame_key \<Rightarrow> nat \<Rightarrow> nat \<Rightarrow> nat \<Rightarrow> nat \<Rightarrow> bytes \<Rightarrow> audio_chunk" where
  "mk_audio_chunk k seq first samples ts payload =
     \<lparr>ac_stream = k, ac_seq = seq, ac_firstSampleIndex = first, ac_sampleCount = samples,
      ac_captureTsUs = ts, ac_crc32c = unat (crc32c payload), ac_payload = payload\<rparr>"

lemma cut_at_boundary_whole: "cut_at_boundary b (length b) = length b"
  by (cases "length b") (simp_all add: is_char_boundary_def)

definition header_ok :: "stream_header_v1 \<Rightarrow> bool" where
  "header_ok h \<longleftrightarrow> u32 (sh_sampleRate h) \<and> u64 (sh_clockEpochUs h) \<and> u64 (sh_wallClockHintMs h)
     \<and> u16 (length (sh_deviceDesc h)) \<and> u16 (length (sh_codecHeader h))"

lemma drop_fields:
  "length a = n \<Longrightarrow> drop (n + m) (a @ b) = drop m b" "length a = n \<Longrightarrow> drop n (a @ b) = b"
  by simp_all

lemma stream_header_roundtrip:
  assumes "header_ok h" "utf8 (sh_deviceDesc h)"
  shows "decode_stream_header utf8 (encode_stream_header h) = Inr h"
proof -
  define d c where "d = sh_deviceDesc h" "c = sh_codecHeader h"
  have lens: "length d < 65536" "length c < 65536" using assms(1) by (simp_all add: header_ok_def u16_def d_c_def)
  define p where "p = stream_header_magic @ [1, sh_codec h, sh_channels h, sh_bitsPerSample h]"
  define b where "b = p @ put32 (sh_sampleRate h) @ put64 (sh_clockEpochUs h) @ put64 (sh_wallClockHintMs h)
    @ put16 (length d) @ d @ put16 (length c) @ c"
  have enc: "encode_stream_header h = b"
    using lens cut_at_boundary_whole [of d]
    by (simp add: encode_stream_header_def b_def p_def Let_def min_def d_c_def [symmetric])
  have p: "length p = 8" by (simp add: p_def stream_header_magic_def)
  have drops: "drop 8 b = put32 (sh_sampleRate h) @ drop 12 b" "drop 12 b = put64 (sh_clockEpochUs h) @ drop 20 b"
    "drop 20 b = put64 (sh_wallClockHintMs h) @ drop 28 b" "drop 28 b = put16 (length d) @ drop 30 b"
    "drop 30 b = d @ put16 (length c) @ c"
    by (simp_all add: b_def p)
  have rds: "rd32 (drop 8 b) = sh_sampleRate h" "rd64 (drop 12 b) = sh_clockEpochUs h"
    "rd64 (drop 20 b) = sh_wallClockHintMs h" "rd16 (drop 28 b) = length d"
    using assms(1) lens unfolding drops(1) drops(2) drops(3) drops(4)
    by (simp_all only: rd32_put32 rd64_put64 rd16_put16 header_ok_def u32_def u64_def)
  have "drop (30 + length d) b = drop (length d) (drop 30 b)"
    by (simp only: drop_drop add.commute)
  then have tail1: "drop (30 + length d) b = put16 (length c) @ c" unfolding drops(5) by simp
  have "drop (30 + length d + 2) b = drop 2 (drop (30 + length d) b)"
    by (simp only: drop_drop add.commute)
  then have tail: "drop (30 + length d) b = put16 (length c) @ c" "drop (30 + length d + 2) b = c"
    unfolding tail1 by simp_all
  have head: "take 4 b = stream_header_magic" "b ! 4 = 1" "b ! 5 = sh_codec h" "b ! 6 = sh_channels h"
    "b ! 7 = sh_bitsPerSample h"
    by (simp_all add: b_def p_def stream_header_magic_def nth_append)
  have len: "length b = 30 + length d + 2 + length c" by (simp add: b_def p)
  have rdc: "rd16 (put16 (length c) @ c) = length c" by (rule rd16_put16) (rule lens)
  have desc: "take (30 + length d - 30) (drop 30 b) = d" unfolding drops(5) by simp
  show ?thesis
    using assms(2) unfolding enc decode_stream_header_def Let_def rds desc head tail rdc len
    by (simp add: d_c_def)
qed

end
