(* ===== verification/Sender.thy ===== *)
theory Sender
  imports Frame_Codec
begin

text \<open>
  The recorder's stream engine: the byte-budgeted chunk ring of \<open>packages/core/src/ring.rs\<close> and the
  sender of \<open>sender.rs\<close> with its take lifecycle and its queues per sink. Ordered maps are association
  lists in key order; \<open>CHWM_NONE\<close> is the wire's sentinel. Chunks are numbered by naturals: a take ends
  long before 2^32 of them.
\<close>

subsection \<open>The chunk ring\<close>

record chunk_ring =
  ri_budget :: nat
  ri_used :: nat
  ri_chunks :: "(nat, audio_chunk) jsmap"
  ri_acked :: ranges
  ri_pending :: ranges
  ri_gaps :: ranges
  ri_evictedAcked :: ranges

definition new_ring :: "nat \<Rightarrow> chunk_ring" where
  "new_ring budget = \<lparr>ri_budget = budget, ri_used = 0, ri_chunks = [], ri_acked = [], ri_pending = [],
     ri_gaps = [], ri_evictedAcked = []\<rparr>"

definition chunk_cost :: "audio_chunk \<Rightarrow> nat" where
  "chunk_cost c = 68 + length (ac_payload c)"

definition ring_get :: "chunk_ring \<Rightarrow> nat \<Rightarrow> audio_chunk option" where
  "ring_get r seq = jm_get (ri_chunks r) seq"

definition ring_contains :: "chunk_ring \<Rightarrow> nat \<Rightarrow> bool" where
  "ring_contains r seq = jm_has (ri_chunks r) seq"

definition ring_seqs :: "chunk_ring \<Rightarrow> nat list" where
  "ring_seqs r = jm_keys (ri_chunks r)"

text \<open>Insertion of a new key into an ordered map.\<close>

definition ordered_insert :: "nat \<Rightarrow> 'a \<Rightarrow> (nat, 'a) jsmap \<Rightarrow> (nat, 'a) jsmap" where
  "ordered_insert k v m = takeWhile (\<lambda>p. fst p < k) m @ (k, v) # dropWhile (\<lambda>p. fst p < k) m"

definition evict_one :: "bool \<Rightarrow> nat \<Rightarrow> chunk_ring \<Rightarrow> chunk_ring" where
  "evict_one acked seq r =
     (case jm_get (ri_chunks r) seq of None \<Rightarrow> r
      | Some c \<Rightarrow>
          let r' = r\<lparr>ri_chunks := jm_delete seq (ri_chunks r), ri_used := ri_used r - chunk_cost c\<rparr>
          in if acked then r'\<lparr>ri_evictedAcked := rs_insert seq (ri_evictedAcked r')\<rparr>
             else r'\<lparr>ri_pending := rs_insert seq (ri_pending r'), ri_gaps := rs_insert seq (ri_gaps r')\<rparr>)"

text \<open>One pass over its victims, ended as soon as the budget holds.\<close>

fun evict_loop :: "bool \<Rightarrow> nat list \<Rightarrow> chunk_ring \<Rightarrow> chunk_ring" where
  "evict_loop acked [] r = r"
| "evict_loop acked (seq # seqs) r =
     (if ri_used r \<le> ri_budget r then r else evict_loop acked seqs (evict_one acked seq r))"

definition pinned :: "chunk_ring \<Rightarrow> nat \<Rightarrow> bool" where
  "pinned r seq \<longleftrightarrow> seq = 0 \<or> (ring_seqs r \<noteq> [] \<and> seq = last (ring_seqs r))"

definition evict_to_budget :: "chunk_ring \<Rightarrow> chunk_ring" where
  "evict_to_budget r =
     (if ri_used r \<le> ri_budget r then r
      else let r1 = evict_loop True (filter (\<lambda>s. \<not> pinned r s \<and> rs_contains (ri_acked r) s) (ring_seqs r)) r
           in if ri_used r1 \<le> ri_budget r1 then r1
              else evict_loop False (filter (\<lambda>s. \<not> pinned r s) (ring_seqs r1)) r1)"

definition ring_insert :: "audio_chunk \<Rightarrow> chunk_ring \<Rightarrow> chunk_ring" where
  "ring_insert c r =
     (if jm_has (ri_chunks r) (ac_seq c) then r
      else evict_to_budget (r\<lparr>ri_used := ri_used r + chunk_cost c,
             ri_chunks := ordered_insert (ac_seq c) c (ri_chunks r)\<rparr>))"

definition mark_acked :: "ranges \<Rightarrow> chunk_ring \<Rightarrow> chunk_ring" where
  "mark_acked rs r = r\<lparr>ri_acked := fold rs_insert_range rs (ri_acked r)\<rparr>"

definition take_pending_gaps :: "chunk_ring \<Rightarrow> ranges \<times> chunk_ring" where
  "take_pending_gaps r = (ri_pending r, r\<lparr>ri_pending := []\<rparr>)"

subsection \<open>State\<close>

datatype take_state = TakeIdle | TakeArmed | TakeStreaming | TakeDraining | TakeClosed

datatype take_state_error = TakeStateError string take_state

record sink_tx =
  tx_connected :: bool
  tx_proven :: ranges
  tx_chwm :: nat
  tx_queued :: ranges
  tx_live :: "nat list"
  tx_backfill :: "nat list"
  tx_control :: "frame list"
  tx_gapsReported :: ranges

definition new_sink_tx :: sink_tx where
  "new_sink_tx = \<lparr>tx_connected = False, tx_proven = [], tx_chwm = chwm_none, tx_queued = [], tx_live = [],
     tx_backfill = [], tx_control = [], tx_gapsReported = []\<rparr>"

record stream_sender =
  ss_stream :: frame_key
  ss_state :: take_state
  ss_ring :: chunk_ring
  ss_produced :: ranges
  ss_nextSeq :: nat
  ss_nextFirst :: nat
  ss_finalSeq :: "nat option"
  ss_sinks :: "(nat, sink_tx) jsmap"

definition new_sender :: "frame_key \<Rightarrow> nat \<Rightarrow> stream_sender" where
  "new_sender k budget = \<lparr>ss_stream = k, ss_state = TakeIdle, ss_ring = new_ring budget, ss_produced = [],
     ss_nextSeq = 0, ss_nextFirst = 0, ss_finalSeq = None, ss_sinks = []\<rparr>"

definition for_sinks :: "(sink_tx \<Rightarrow> sink_tx) \<Rightarrow> stream_sender \<Rightarrow> stream_sender" where
  "for_sinks f s = s\<lparr>ss_sinks := map (\<lambda>(i, tx). (i, f tx)) (ss_sinks s)\<rparr>"

definition put_sink :: "nat \<Rightarrow> sink_tx \<Rightarrow> stream_sender \<Rightarrow> stream_sender" where
  "put_sink i tx s = s\<lparr>ss_sinks := jm_set i tx (ss_sinks s)\<rparr>"

subsection \<open>Production\<close>

definition queue_gap_report :: "frame_key \<Rightarrow> ranges \<Rightarrow> sink_tx \<Rightarrow> sink_tx" where
  "queue_gap_report k lost tx =
     (let unreported = rs_subtract lost (tx_gapsReported tx)
      in if unreported = [] then tx
         else tx\<lparr>tx_control := tx_control tx
                   @ map (\<lambda>batch. GapReport \<lparr>rl_stream = k, rl_ranges = batch\<rparr>) (split_ranges_for_frames unreported),
                 tx_gapsReported := fold rs_insert_range unreported (tx_gapsReported tx)\<rparr>)"

definition broadcast_new_gaps :: "stream_sender \<Rightarrow> stream_sender" where
  "broadcast_new_gaps s =
     (let (new_gaps, ring) = take_pending_gaps (ss_ring s); s = s\<lparr>ss_ring := ring\<rparr>
      in if new_gaps = [] then s else for_sinks (queue_gap_report (ss_stream s) new_gaps) s)"

definition queue_live :: "nat \<Rightarrow> sink_tx \<Rightarrow> sink_tx" where
  "queue_live seq tx =
     (if rs_contains (tx_queued tx) seq then tx
      else tx\<lparr>tx_queued := rs_insert seq (tx_queued tx), tx_live := tx_live tx @ [seq]\<rparr>)"

definition queue_backfill :: "nat \<Rightarrow> sink_tx \<Rightarrow> sink_tx" where
  "queue_backfill seq tx = tx\<lparr>tx_queued := rs_insert seq (tx_queued tx), tx_backfill := tx_backfill tx @ [seq]\<rparr>"

definition produce :: "audio_chunk \<Rightarrow> stream_sender \<Rightarrow> stream_sender" where
  "produce c s =
     broadcast_new_gaps (for_sinks (queue_live (ac_seq c))
       (s\<lparr>ss_nextSeq := ss_nextSeq s + 1, ss_produced := rs_insert (ac_seq c) (ss_produced s),
          ss_ring := ring_insert c (ss_ring s)\<rparr>))"

definition sender_arm :: "stream_header_v1 \<Rightarrow> stream_sender \<Rightarrow> take_state_error + stream_sender" where
  "sender_arm h s =
     (if ss_state s \<noteq> TakeIdle then Inl (TakeStateError ''arm()'' (ss_state s))
      else Inr ((produce (header_chunk (ss_stream s) h) (s\<lparr>ss_state := TakeArmed\<rparr>))\<lparr>ss_state := TakeStreaming\<rparr>))"

definition push_audio :: "nat \<Rightarrow> nat \<Rightarrow> bytes \<Rightarrow> stream_sender \<Rightarrow> take_state_error + nat \<times> stream_sender" where
  "push_audio samples ts payload s =
     (if ss_state s \<noteq> TakeStreaming then Inl (TakeStateError ''push_audio()'' (ss_state s))
      else let seq = ss_nextSeq s;
               c = mk_audio_chunk (ss_stream s) seq (ss_nextFirst s) samples ts payload
           in Inr (seq, produce c (s\<lparr>ss_nextFirst := ss_nextFirst s + samples\<rparr>)))"

subsection \<open>Drain and completion\<close>

definition sink_settled :: "nat \<Rightarrow> stream_sender \<Rightarrow> bool" where
  "sink_settled i s =
     (case (ss_finalSeq s, jm_get (ss_sinks s) i) of
        (Some f, Some tx) \<Rightarrow> rs_missing_within (0, f) (rs_union (tx_proven tx) (ri_gaps (ss_ring s))) = []
      | _ \<Rightarrow> False)"

definition drained_any :: "stream_sender \<Rightarrow> bool" where
  "drained_any s \<longleftrightarrow> ss_finalSeq s \<noteq> None \<and> list_ex (\<lambda>i. sink_settled i s) (jm_keys (ss_sinks s))"

definition drained_all :: "stream_sender \<Rightarrow> bool" where
  "drained_all s \<longleftrightarrow> ss_finalSeq s \<noteq> None \<and> ss_sinks s \<noteq> [] \<and> list_all (\<lambda>i. sink_settled i s) (jm_keys (ss_sinks s))"

definition try_close :: "stream_sender \<Rightarrow> stream_sender" where
  "try_close s = (if ss_state s = TakeDraining \<and> drained_all s then s\<lparr>ss_state := TakeClosed\<rparr> else s)"

definition sender_finish :: "stream_sender \<Rightarrow> take_state_error + stream_sender" where
  "sender_finish s =
     (if ss_state s \<noteq> TakeStreaming then Inl (TakeStateError ''finish()'' (ss_state s))
      else Inr (try_close (s\<lparr>ss_finalSeq := Some (ss_nextSeq s - 1), ss_state := TakeDraining\<rparr>)))"

subsection \<open>Sinks\<close>

definition add_sink :: "nat \<Rightarrow> stream_sender \<Rightarrow> stream_sender" where
  "add_sink i s =
     (if jm_has (ss_sinks s) i then s
      else s\<lparr>ss_sinks := ordered_insert i (fold queue_backfill (ring_seqs (ss_ring s)) new_sink_tx) (ss_sinks s)\<rparr>)"

definition remove_sink :: "nat \<Rightarrow> stream_sender \<Rightarrow> stream_sender" where
  "remove_sink i s = s\<lparr>ss_sinks := jm_delete i (ss_sinks s)\<rparr>"

definition set_connected :: "nat \<Rightarrow> bool \<Rightarrow> stream_sender \<Rightarrow> stream_sender" where
  "set_connected i up s =
     (case jm_get (ss_sinks s) i of None \<Rightarrow> s
      | Some tx \<Rightarrow>
          put_sink i (if up then tx\<lparr>tx_connected := True\<rparr>
            else tx\<lparr>tx_connected := False, tx_backfill := tx_backfill tx @ sort (tx_live tx), tx_live := []\<rparr>) s)"

subsection \<open>Acknowledgements\<close>

definition sat_succ :: "nat \<Rightarrow> nat" where
  "sat_succ n = min (n + 1) 0xFFFFFFFF"

text \<open>What an acknowledgement proves: up to the high-water mark, and between the holes.\<close>

definition ack_hole_step :: "nat \<times> nat \<Rightarrow> nat \<times> ranges \<Rightarrow> nat \<times> ranges" where
  "ack_hole_step hole acc =
     (sat_succ (snd hole),
      if fst acc < fst hole then rs_insert_range (fst acc, fst hole - 1) (snd acc) else snd acc)"

definition ack_proven :: "ack_status \<Rightarrow> ranges" where
  "ack_proven a =
     (let base = (if ak_chwm a \<noteq> chwm_none then rs_insert_range (0, ak_chwm a) [] else []);
          cursor = (if ak_chwm a = chwm_none then 0 else sat_succ (ak_chwm a))
      in if ak_holes a = [] then base else snd (fold ack_hole_step (ak_holes a) (cursor, base)))"

definition requeue :: "chunk_ring \<Rightarrow> nat \<Rightarrow> sink_tx \<Rightarrow> sink_tx" where
  "requeue ring seq tx =
     (if ring_contains ring seq \<and> \<not> rs_contains (tx_queued tx) seq then queue_backfill seq tx else tx)"

definition handle_ack :: "nat \<Rightarrow> ack_status \<Rightarrow> stream_sender \<Rightarrow> stream_sender" where
  "handle_ack i a s =
     (case jm_get (ss_sinks s) i of None \<Rightarrow> s
      | Some tx \<Rightarrow>
          let proven = ack_proven a;
              tx = tx\<lparr>tx_proven := proven, tx_chwm := ak_chwm a\<rparr>;
              ring = mark_acked proven (ss_ring s);
              outstanding = rs_subtract (rs_subtract (ss_produced s) proven) (ri_gaps ring);
              tx = fold (requeue ring) (rs_iter_values outstanding) tx;
              holes = rs_from_ranges (ak_holes a);
              gapped = rs_subtract holes (rs_subtract holes (ri_gaps ring));
              tx = (if gapped = [] then tx else queue_gap_report (ss_stream s) gapped (tx\<lparr>tx_gapsReported := []\<rparr>))
          in try_close (put_sink i tx (s\<lparr>ss_ring := ring\<rparr>)))"

definition handle_backfill_request :: "nat \<Rightarrow> range_list \<Rightarrow> stream_sender \<Rightarrow> stream_sender" where
  "handle_backfill_request i req s =
     (case jm_get (ss_sinks s) i of None \<Rightarrow> s
      | Some tx \<Rightarrow>
          let wanted = rs_from_ranges (rl_ranges req);
              gapped = rs_subtract wanted (rs_subtract wanted (ri_gaps (ss_ring s)));
              tx = (if gapped = [] then tx else queue_gap_report (ss_stream s) gapped tx);
              tx = fold (requeue (ss_ring s)) (rs_iter_values wanted) tx
          in put_sink i tx s)"

fun sender_handle_frame :: "nat \<Rightarrow> frame \<Rightarrow> stream_sender \<Rightarrow> stream_sender" where
  "sender_handle_frame i (AckStatus a) s = (if ak_stream a = ss_stream s then handle_ack i a s else s)"
| "sender_handle_frame i (BackfillRequest r) s =
     (if rl_stream r = ss_stream s then handle_backfill_request i r s else s)"
| "sender_handle_frame i _ s = s"

subsection \<open>Outbound frames\<close>

definition next_queued :: "sink_tx \<Rightarrow> (nat \<times> sink_tx) option" where
  "next_queued tx =
     (case tx_live tx of
        seq # rest \<Rightarrow> Some (seq, tx\<lparr>tx_live := rest\<rparr>)
      | [] \<Rightarrow> (case tx_backfill tx of seq # rest \<Rightarrow> Some (seq, tx\<lparr>tx_backfill := rest\<rparr>) | [] \<Rightarrow> None))"

function pop_loop :: "chunk_ring \<Rightarrow> sink_tx \<Rightarrow> frame option \<times> sink_tx" where
  "pop_loop ring tx =
     (case next_queued tx of None \<Rightarrow> (None, tx)
      | Some (seq, tx') \<Rightarrow>
          let tx' = tx'\<lparr>tx_queued := rs_remove seq (tx_queued tx')\<rparr>
          in if rs_contains (tx_proven tx') seq then pop_loop ring tx'
             else (case ring_get ring seq of Some c \<Rightarrow> (Some (AudioChunk c), tx') | None \<Rightarrow> pop_loop ring tx'))"
  by pat_completeness auto
termination
  by (relation "measure (\<lambda>(ring, tx). length (tx_live tx) + length (tx_backfill tx))")
    (auto simp: next_queued_def split: list.splits)

declare pop_loop.simps [simp del]

definition pop_frame :: "nat \<Rightarrow> stream_sender \<Rightarrow> frame option \<times> stream_sender" where
  "pop_frame i s =
     (case jm_get (ss_sinks s) i of None \<Rightarrow> (None, s)
      | Some tx \<Rightarrow>
          if \<not> tx_connected tx then (None, s)
          else (case tx_control tx of
              f # rest \<Rightarrow> (Some f, put_sink i (tx\<lparr>tx_control := rest\<rparr>) s)
            | [] \<Rightarrow> let (f, tx') = pop_loop (ss_ring s) tx in (f, put_sink i tx' s)))"

definition sender_is_idle :: "nat \<Rightarrow> stream_sender \<Rightarrow> bool" where
  "sender_is_idle i s =
     (case jm_get (ss_sinks s) i of None \<Rightarrow> True
      | Some tx \<Rightarrow> tx_control tx = [] \<and> tx_live tx = [] \<and> tx_backfill tx = [])"

subsection \<open>The ring keeps account\<close>

definition ring_core :: "nat \<Rightarrow> chunk_ring \<Rightarrow> bool" where
  "ring_core n r \<longleftrightarrow>
     sorted_wrt (<) (ring_seqs r)
   \<and> ri_used r = sum_list (map (chunk_cost \<circ> snd) (ri_chunks r))
   \<and> separated (ri_acked r) \<and> separated (ri_pending r) \<and> separated (ri_gaps r) \<and> separated (ri_evictedAcked r)
   \<and> set (ring_seqs r) \<union> ranges_set (ri_gaps r) \<union> ranges_set (ri_evictedAcked r) = {..<n}
   \<and> set (ring_seqs r) \<inter> ranges_set (ri_gaps r) = {}
   \<and> set (ring_seqs r) \<inter> ranges_set (ri_evictedAcked r) = {}
   \<and> ranges_set (ri_gaps r) \<inter> ranges_set (ri_evictedAcked r) = {}
   \<and> ranges_set (ri_evictedAcked r) \<subseteq> ranges_set (ri_acked r)
   \<and> ranges_set (ri_pending r) \<subseteq> ranges_set (ri_gaps r)"

definition ring_inv :: "nat \<Rightarrow> chunk_ring \<Rightarrow> bool" where
  "ring_inv n r \<longleftrightarrow> ring_core n r
   \<and> (0 < n \<longrightarrow> 0 \<in> set (ring_seqs r) \<and> n - 1 \<in> set (ring_seqs r))
   \<and> (ri_used r \<le> ri_budget r \<or> set (ring_seqs r) \<subseteq> {0, n - 1})"

lemma ring_coreD:
  assumes "ring_core n r"
  shows "sorted_wrt (<) (ring_seqs r)" "ri_used r = sum_list (map (chunk_cost \<circ> snd) (ri_chunks r))"
    "separated (ri_acked r)" "separated (ri_pending r)" "separated (ri_gaps r)" "separated (ri_evictedAcked r)"
    "set (ring_seqs r) \<union> ranges_set (ri_gaps r) \<union> ranges_set (ri_evictedAcked r) = {..<n}"
    "ranges_set (ri_evictedAcked r) \<subseteq> ranges_set (ri_acked r)"
    "ranges_set (ri_pending r) \<subseteq> ranges_set (ri_gaps r)"
  using assms unfolding ring_core_def by blast+

lemma ring_core_disjoint:
  assumes "ring_core n r"
  shows "v \<in> set (ring_seqs r) \<Longrightarrow> v \<notin> ranges_set (ri_gaps r) \<and> v \<notin> ranges_set (ri_evictedAcked r)"
    and "v \<in> ranges_set (ri_gaps r) \<Longrightarrow> v \<notin> ranges_set (ri_evictedAcked r)"
  using assms unfolding ring_core_def by blast+

lemma ring_core_wf: "ring_core n r \<Longrightarrow> jm_wf (ri_chunks r)"
  by (auto simp: ring_core_def jm_wf_def ring_seqs_def strict_sorted_iff)

lemma sum_jm_delete:
  fixes f :: "'b \<Rightarrow> nat"
  assumes "jm_wf m" "jm_get m k = Some v"
  shows "sum_list (map (f \<circ> snd) m) = f v + sum_list (map (f \<circ> snd) (jm_delete k m))"
  using assms
proof (induction m)
  case (Cons p m)
  show ?case
  proof (cases "fst p = k")
    case True
    then have "k \<notin> fst ` set m" using Cons.prems(1) by (auto simp: jm_wf_def)
    then show ?thesis using True Cons.prems(2) by (simp add: jm_delete_absent)
  next
    case False
    then show ?thesis using Cons by (auto simp: jm_wf_def)
  qed
qed simp

lemma keys_jm_delete: "jm_keys (jm_delete k m) = filter (\<lambda>x. x \<noteq> k) (jm_keys m)"
  by (induction m) auto

lemma evict_one_core:
  assumes "ring_core n r" "seq \<in> set (ring_seqs r)" "acked \<longrightarrow> seq \<in> ranges_set (ri_acked r)"
  shows "ring_core n (evict_one acked seq r)"
    and "ring_seqs (evict_one acked seq r) = filter (\<lambda>s. s \<noteq> seq) (ring_seqs r)"
    and "ri_chunks (evict_one acked seq r) = jm_delete seq (ri_chunks r)"
    and "ri_budget (evict_one acked seq r) = ri_budget r" "ri_acked (evict_one acked seq r) = ri_acked r"
    and "ranges_set (ri_gaps (evict_one acked seq r)) = ranges_set (ri_gaps r) \<union> (if acked then {} else {seq})"
    and "ranges_set (ri_pending (evict_one acked seq r)) = ranges_set (ri_pending r) \<union> (if acked then {} else {seq})"
proof -
  obtain c where c: "jm_get (ri_chunks r) seq = Some c"
    using assms(2) by (metis jm_has_iff not_Some_eq ring_seqs_def set_map)
  note d = ring_coreD [OF assms(1)]
  have used: "ri_used r - chunk_cost c = sum_list (map (chunk_cost \<circ> snd) (jm_delete seq (ri_chunks r)))"
    using sum_jm_delete [OF ring_core_wf [OF assms(1)] c, of chunk_cost] d(2) by simp
  show seqs: "ring_seqs (evict_one acked seq r) = filter (\<lambda>s. s \<noteq> seq) (ring_seqs r)"
    and chunks: "ri_chunks (evict_one acked seq r) = jm_delete seq (ri_chunks r)"
    and "ri_budget (evict_one acked seq r) = ri_budget r" "ri_acked (evict_one acked seq r) = ri_acked r"
    and "ranges_set (ri_gaps (evict_one acked seq r)) = ranges_set (ri_gaps r) \<union> (if acked then {} else {seq})"
    and "ranges_set (ri_pending (evict_one acked seq r)) = ranges_set (ri_pending r) \<union> (if acked then {} else {seq})"
    using c d(4,5) by (simp_all add: evict_one_def Let_def ring_seqs_def keys_jm_delete)
  have "sorted_wrt (<) (filter (\<lambda>s. s \<noteq> seq) (ring_seqs r))" using d(1) by (rule sorted_wrt_filter)
  then show "ring_core n (evict_one acked seq r)"
    using assms d(3-9) used c unfolding ring_core_def seqs
    by (auto simp: evict_one_def Let_def)
qed

lemma evict_loop_spec:
  assumes "ring_core n r" "distinct vs" "set vs \<subseteq> set (ring_seqs r)" "acked \<longrightarrow> set vs \<subseteq> ranges_set (ri_acked r)"
    and "r' = evict_loop acked vs r"
  shows "ring_core n r' \<and> ri_budget r' = ri_budget r \<and> ri_acked r' = ri_acked r
    \<and> set (ring_seqs r) - set vs \<subseteq> set (ring_seqs r') \<and> set (ring_seqs r') \<subseteq> set (ring_seqs r)
    \<and> (ri_used r' \<le> ri_budget r' \<or> set (ring_seqs r') = set (ring_seqs r) - set vs)
    \<and> (\<forall>k c. jm_get (ri_chunks r') k = Some c \<longrightarrow> jm_get (ri_chunks r) k = Some c)
    \<and> ranges_set (ri_gaps r) \<subseteq> ranges_set (ri_gaps r')
    \<and> ranges_set (ri_gaps r') \<subseteq> ranges_set (ri_gaps r) \<union> (if acked then {} else set vs)"
  using assms
proof (induction vs arbitrary: r r')
  case (Cons v vs)
  show ?case
  proof (cases "ri_used r \<le> ri_budget r")
    case True
    then show ?thesis using Cons.prems by auto
  next
    case False
    define r1 where "r1 = evict_one acked v r"
    have v: "v \<in> set (ring_seqs r)" "acked \<longrightarrow> v \<in> ranges_set (ri_acked r)" using Cons.prems by auto
    note e = evict_one_core [OF Cons.prems(1) v, folded r1_def]
    have r': "r' = evict_loop acked vs r1" using False Cons.prems(5) by (simp add: r1_def)
    have seqs: "set (ring_seqs r1) = set (ring_seqs r) - {v}" by (auto simp: e(2))
    have vs: "set vs \<subseteq> set (ring_seqs r1)" using Cons.prems(2,3) by (auto simp: seqs)
    have acked: "acked \<longrightarrow> set vs \<subseteq> ranges_set (ri_acked r1)" using Cons.prems(4) by (auto simp: e(5))
    have "jm_get (ri_chunks r) k = Some c" if "jm_get (ri_chunks r1) k = Some c" for k c
      using that by (simp add: e(3) jm_get_delete split: if_splits)
    moreover have "set (v # vs) = insert v (set vs)" by simp
    ultimately show ?thesis
      using Cons.IH [OF e(1) _ vs acked r'] Cons.prems(2) seqs e(4,5,6) by (cases acked) auto
  qed
qed auto

lemma ordered_insert_last:
  "\<forall>k' \<in> set (jm_keys m). k' < k \<Longrightarrow> ordered_insert k v m = m @ [(k, v)]"
  by (simp add: ordered_insert_def takeWhile_eq_all_conv dropWhile_eq_Nil_conv)

lemma ring_insert_core:
  assumes "ring_core n r" "ac_seq c = n"
  defines "r0 \<equiv> r\<lparr>ri_used := ri_used r + chunk_cost c, ri_chunks := ordered_insert n c (ri_chunks r)\<rparr>"
  shows "ring_core (Suc n) r0" "ring_seqs r0 = ring_seqs r @ [n]" "ri_chunks r0 = ri_chunks r @ [(n, c)]"
    and "ring_insert c r = evict_to_budget r0"
proof -
  note d = ring_coreD [OF assms(1)]
  have below: "\<forall>k \<in> set (ring_seqs r). k < n" using d(7) by blast
  then have ins: "ordered_insert n c (ri_chunks r) = ri_chunks r @ [(n, c)]"
    by (intro ordered_insert_last) (simp add: ring_seqs_def)
  then show seqs: "ring_seqs r0 = ring_seqs r @ [n]" and "ri_chunks r0 = ri_chunks r @ [(n, c)]"
    by (simp_all add: r0_def ring_seqs_def)
  have "n \<notin> ranges_set (ri_gaps r)" "n \<notin> ranges_set (ri_evictedAcked r)" using d(7) by blast+
  moreover have "sorted_wrt (<) (ring_seqs r @ [n])" using d(1) below by (simp add: sorted_wrt_append)
  moreover have "set (ring_seqs r @ [n]) \<union> ranges_set (ri_gaps r) \<union> ranges_set (ri_evictedAcked r) = {..<Suc n}"
  proof -
    have "set (ring_seqs r @ [n]) \<union> ranges_set (ri_gaps r) \<union> ranges_set (ri_evictedAcked r)
        = insert n (set (ring_seqs r) \<union> ranges_set (ri_gaps r) \<union> ranges_set (ri_evictedAcked r))" by auto
    also have "\<dots> = {..<Suc n}" by (simp only: d(7) lessThan_Suc)
    finally show ?thesis .
  qed
  ultimately show "ring_core (Suc n) r0"
    using assms(1) ins unfolding ring_core_def seqs by (simp add: r0_def)
  have "jm_get (ri_chunks r) n = None" using below by (auto simp: map_of_eq_None_iff ring_seqs_def)
  then show "ring_insert c r = evict_to_budget r0" by (simp add: ring_insert_def assms(2) r0_def)
qed

lemma ring_insert_inv:
  assumes "ring_inv n r" "ac_seq c = n" "r' = ring_insert c r"
  shows "ring_inv (Suc n) r' \<and> ri_acked r' = ri_acked r \<and> ri_budget r' = ri_budget r
    \<and> (\<forall>k d. jm_get (ri_chunks r') k = Some d \<longrightarrow> (if k = n then d = c else jm_get (ri_chunks r) k = Some d))
    \<and> ranges_set (ri_gaps r) \<subseteq> ranges_set (ri_gaps r')
    \<and> (ranges_set (ri_gaps r') - ranges_set (ri_gaps r)) \<inter> ranges_set (ri_acked r) = {}"
proof -
  have core: "ring_core n r" using assms(1) by (simp add: ring_inv_def)
  define r0 where "r0 = r\<lparr>ri_used := ri_used r + chunk_cost c, ri_chunks := ordered_insert n c (ri_chunks r)\<rparr>"
  note r0 = ring_insert_core [OF core assms(2), folded r0_def]
  have same: "ri_budget r0 = ri_budget r" "ri_acked r0 = ri_acked r" "ri_gaps r0 = ri_gaps r" by (simp_all add: r0_def)
  have nth: "if k = n then d = c else jm_get (ri_chunks r) k = Some d" if "jm_get (ri_chunks r0) k = Some d" for k d
  proof -
    have "jm_get (ri_chunks r) n = None" using ring_coreD(7) [OF core] by (auto simp: map_of_eq_None_iff ring_seqs_def)
    then show ?thesis using that by (auto simp: r0(3) map_add_def split: option.splits if_splits)
  qed
  have pins: "0 \<in> set (ring_seqs r0)" "n \<in> set (ring_seqs r0)"
    using assms(1) by (cases n; auto simp: ring_inv_def r0(2))+
  have pinned: "pinned r0 s \<longleftrightarrow> s = 0 \<or> s = n" for s by (simp add: pinned_def r0(2))
  have dist: "distinct (ring_seqs r0)" using ring_coreD(1) [OF r0(1)] by (simp add: strict_sorted_iff)
  show ?thesis
  proof (cases "ri_used r0 \<le> ri_budget r0")
    case True
    then have "r' = r0" by (simp add: assms(3) r0(4) evict_to_budget_def)
    then show ?thesis using True r0(1) pins same nth by (auto simp: ring_inv_def)
  next
    case over: False
    define v1 where "v1 = filter (\<lambda>s. \<not> pinned r0 s \<and> rs_contains (ri_acked r0) s) (ring_seqs r0)"
    define r1 where "r1 = evict_loop True v1 r0"
    have v1: "distinct v1" "set v1 \<subseteq> set (ring_seqs r0)" "True \<longrightarrow> set v1 \<subseteq> ranges_set (ri_acked r0)"
      using dist by (auto simp: v1_def rs_contains_iff)
    note e1 = evict_loop_spec [OF r0(1) v1 r1_def]
    have pins1: "0 \<in> set (ring_seqs r1)" "n \<in> set (ring_seqs r1)"
      using e1 pins by (auto simp: v1_def pinned)
    have gaps1: "ranges_set (ri_gaps r1) = ranges_set (ri_gaps r)" using e1 same by auto
    show ?thesis
    proof (cases "ri_used r1 \<le> ri_budget r1")
      case True
      then have "r' = r1" using over by (simp add: assms(3) r0(4) evict_to_budget_def r1_def v1_def)
      moreover have "\<forall>k d. jm_get (ri_chunks r1) k = Some d \<longrightarrow> (if k = n then d = c else jm_get (ri_chunks r) k = Some d)"
        using e1 nth by blast
      ultimately show ?thesis using True e1 pins1 same by (simp add: ring_inv_def gaps1)
    next
      case False
      define v2 where "v2 = filter (\<lambda>s. \<not> pinned r0 s) (ring_seqs r1)"
      have r': "r' = evict_loop False v2 r1"
        using over False by (simp add: assms(3) r0(4) evict_to_budget_def r1_def v1_def v2_def Let_def)
      have core1: "ring_core (Suc n) r1" using e1 by blast
      have "distinct (ring_seqs r1)" using ring_coreD(1) [OF core1] by (simp add: strict_sorted_iff)
      then have v2: "distinct v2" "set v2 \<subseteq> set (ring_seqs r1)" "False \<longrightarrow> set v2 \<subseteq> ranges_set (ri_acked r1)"
        by (auto simp: v2_def)
      note e2 = evict_loop_spec [OF core1 v2 r']
      have pins2: "0 \<in> set (ring_seqs r')" "n \<in> set (ring_seqs r')"
        using e2 pins1 by (auto simp: v2_def pinned)
      have "set (ring_seqs r1) - set v2 \<subseteq> {0, n}" by (auto simp: v2_def pinned)
      then have bound: "ri_used r' \<le> ri_budget r' \<or> set (ring_seqs r') \<subseteq> {0, n}" using e2 by auto
      have gone: "set (ring_seqs r1) = set (ring_seqs r0) - set v1" using e1 False by blast
      have "s \<notin> ranges_set (ri_acked r)" if "s \<in> set v2" for s
        using that gone by (auto simp: v2_def v1_def rs_contains_iff same)
      then have "(ranges_set (ri_gaps r') - ranges_set (ri_gaps r)) \<inter> ranges_set (ri_acked r) = {}"
        using e2 gaps1 by auto
      moreover have "\<forall>k d. jm_get (ri_chunks r') k = Some d \<longrightarrow> (if k = n then d = c else jm_get (ri_chunks r) k = Some d)"
        using e1 e2 nth by blast
      moreover have "ranges_set (ri_gaps r) \<subseteq> ranges_set (ri_gaps r')"
        using e2 gaps1 by blast
      ultimately show ?thesis using e1 e2 pins2 bound same by (simp add: ring_inv_def)
    qed
  qed
qed

lemma ring_inv_new: "ring_inv 0 (new_ring budget)"
  by (simp add: ring_inv_def ring_core_def new_ring_def ring_seqs_def ranges_set_simps)

lemma ring_inv_mark:
  assumes "ring_inv n r"
  shows "ring_inv n (mark_acked rs r)"
    and "ranges_set (ri_acked (mark_acked rs r)) = ranges_set (ri_acked r) \<union> ranges_set rs"
proof -
  have sep: "separated (ri_acked r)" using assms by (simp add: ring_inv_def ring_core_def)
  then show acked: "ranges_set (ri_acked (mark_acked rs r)) = ranges_set (ri_acked r) \<union> ranges_set rs"
    by (simp add: mark_acked_def rs.covers_fold_add)
  show "ring_inv n (mark_acked rs r)"
    using assms sep acked by (auto simp: ring_inv_def ring_core_def mark_acked_def ring_seqs_def rs.wf_fold_add)
qed

lemma ring_inv_take_pending: "ring_inv n r \<Longrightarrow> ring_inv n (r\<lparr>ri_pending := []\<rparr>)"
  by (auto simp: ring_inv_def ring_core_def ring_seqs_def ranges_set_simps)

subsection \<open>Queues\<close>

definition tx_inv :: "nat \<Rightarrow> sink_tx \<Rightarrow> bool" where
  "tx_inv n tx \<longleftrightarrow>
     separated (tx_queued tx) \<and> separated (tx_proven tx) \<and> separated (tx_gapsReported tx)
   \<and> ranges_set (tx_queued tx) = set (tx_live tx) \<union> set (tx_backfill tx)
   \<and> distinct (tx_live tx @ tx_backfill tx)
   \<and> ranges_set (tx_queued tx) \<subseteq> {..<n}
   \<and> (\<forall>f \<in> set (tx_control tx). \<exists>l. f = GapReport l \<and> ranges_set (rl_ranges l) \<subseteq> {..<n})"

lemma tx_inv_mono: "tx_inv n tx \<Longrightarrow> n \<le> m \<Longrightarrow> tx_inv m tx"
  unfolding tx_inv_def by (meson lessThan_subset_iff order_trans)

lemma tx_inv_new: "tx_inv n new_sink_tx"
  by (simp add: tx_inv_def new_sink_tx_def ranges_set_simps)

lemma tx_inv_queue_live: "tx_inv n tx \<Longrightarrow> seq < n \<Longrightarrow> tx_inv n (queue_live seq tx)"
  by (auto simp: tx_inv_def queue_live_def rs_contains_iff)

lemma tx_inv_queue_backfill:
  "tx_inv n tx \<Longrightarrow> seq < n \<Longrightarrow> seq \<notin> ranges_set (tx_queued tx) \<Longrightarrow> tx_inv n (queue_backfill seq tx)"
  by (auto simp: tx_inv_def queue_backfill_def)

text \<open>What a gap report leaves alone.\<close>

lemma gap_report_fields [simp]:
  "tx_queued (queue_gap_report k g tx) = tx_queued tx" "tx_live (queue_gap_report k g tx) = tx_live tx"
  "tx_backfill (queue_gap_report k g tx) = tx_backfill tx" "tx_proven (queue_gap_report k g tx) = tx_proven tx"
  "tx_connected (queue_gap_report k g tx) = tx_connected tx" "tx_chwm (queue_gap_report k g tx) = tx_chwm tx"
  by (simp_all add: queue_gap_report_def Let_def)

lemma batch_subset: "b \<in> set (split_ranges_for_frames g) \<Longrightarrow> ranges_set b \<subseteq> ranges_set g"
proof -
  assume b: "b \<in> set (split_ranges_for_frames g)"
  have "concat (split_ranges_for_frames g) = g"
    unfolding split_ranges_for_frames_def by (rule split_ranges_concat) (simp add: max_ranges_per_frame_def max_frame_bytes_def)
  then have "set b \<subseteq> set g" using b by (metis (no_types) UN_upper set_concat)
  then show "ranges_set b \<subseteq> ranges_set g" unfolding mem_ranges_set subset_iff by blast
qed

lemma tx_inv_gap_report:
  assumes "tx_inv n tx" "separated g" "ranges_set g \<subseteq> {..<n}"
  shows "tx_inv n (queue_gap_report k g tx)"
proof (cases "rs_subtract g (tx_gapsReported tx) = []")
  case True
  then show ?thesis using assms(1) by (simp add: queue_gap_report_def)
next
  case False
  have "ranges_set (rs_subtract g (tx_gapsReported tx)) \<subseteq> {..<n}" using assms(2,3) by auto
  then show ?thesis using False assms(1) batch_subset
    unfolding tx_inv_def gap_report_fields by (fastforce simp: queue_gap_report_def Let_def rs.wf_fold_add)
qed

lemma requeue_fields [simp]:
  "tx_proven (requeue ring seq tx) = tx_proven tx" "tx_connected (requeue ring seq tx) = tx_connected tx"
  "tx_chwm (requeue ring seq tx) = tx_chwm tx" "tx_control (requeue ring seq tx) = tx_control tx"
  "tx_gapsReported (requeue ring seq tx) = tx_gapsReported tx"
  by (simp_all add: requeue_def queue_backfill_def)

lemma fold_requeue:
  assumes "tx_inv n tx" "\<forall>s. ring_contains ring s \<longrightarrow> s < n"
  shows "tx_inv n (fold (requeue ring) vs tx)
    \<and> ranges_set (tx_queued (fold (requeue ring) vs tx)) = ranges_set (tx_queued tx) \<union> {v \<in> set vs. ring_contains ring v}
    \<and> tx_proven (fold (requeue ring) vs tx) = tx_proven tx \<and> tx_connected (fold (requeue ring) vs tx) = tx_connected tx
    \<and> tx_control (fold (requeue ring) vs tx) = tx_control tx
    \<and> tx_gapsReported (fold (requeue ring) vs tx) = tx_gapsReported tx"
  using assms(1)
proof (induction vs arbitrary: tx)
  case (Cons v vs)
  have sep: "separated (tx_queued tx)" using Cons.prems by (simp add: tx_inv_def)
  have "tx_inv n (requeue ring v tx)"
    using Cons.prems assms(2) tx_inv_queue_backfill [of n tx v] by (auto simp: requeue_def rs_contains_iff)
  moreover have "ranges_set (tx_queued (requeue ring v tx))
      = ranges_set (tx_queued tx) \<union> (if ring_contains ring v then {v} else {})"
    using sep by (auto simp: requeue_def queue_backfill_def rs_contains_iff)
  ultimately show ?case using Cons.IH [of "requeue ring v tx"] by auto
qed auto

lemma fold_insert_range_separated: "separated x \<Longrightarrow> separated (fold rs_insert_range qs x)"
  by (rule rs.wf_fold_add)

lemma separated_ack_proven: "separated (ack_proven a)"
proof -
  have "separated (snd (fold ack_hole_step hs acc))" if "separated (snd acc)" for hs acc
    using that by (induction hs arbitrary: acc) (auto simp: ack_hole_step_def rs.wf_add)
  then show ?thesis by (simp add: ack_proven_def rs.wf_add)
qed

subsection \<open>Popping everything\<close>

lemma next_queued_inv:
  assumes "tx_inv n tx" "next_queued tx = Some (seq, tx')"
  shows "tx_inv n (tx'\<lparr>tx_queued := rs_remove seq (tx_queued tx')\<rparr>)"
    and "set (tx_live tx) \<union> set (tx_backfill tx) = insert seq (set (tx_live tx') \<union> set (tx_backfill tx'))"
    and "tx_control tx' = tx_control tx" "tx_proven tx' = tx_proven tx" "tx_connected tx' = tx_connected tx"
    and "length (tx_live tx') + length (tx_backfill tx') < length (tx_live tx) + length (tx_backfill tx)"
  using assms by (auto simp: next_queued_def tx_inv_def split: list.splits)

text \<open>The chunks a sink is owed: queued, not proven, still resident.\<close>

definition owed :: "chunk_ring \<Rightarrow> sink_tx \<Rightarrow> audio_chunk set" where
  "owed ring tx = {c. \<exists>s \<in> set (tx_live tx) \<union> set (tx_backfill tx). s \<notin> ranges_set (tx_proven tx) \<and> ring_get ring s = Some c}"

lemma pop_loop_spec:
  assumes "tx_inv n tx" "pop_loop ring tx = (f, tx')"
  shows "tx_inv n tx' \<and> tx_control tx' = tx_control tx \<and> tx_proven tx' = tx_proven tx \<and> tx_connected tx' = tx_connected tx
    \<and> (case f of None \<Rightarrow> tx_live tx' = [] \<and> tx_backfill tx' = [] \<and> owed ring tx = {}
       | Some f \<Rightarrow> (\<exists>c. f = AudioChunk c \<and> owed ring tx = insert c (owed ring tx'))
           \<and> length (tx_live tx') + length (tx_backfill tx') < length (tx_live tx) + length (tx_backfill tx))"
  using assms
proof (induction ring tx arbitrary: f tx' rule: pop_loop.induct)
  case (1 ring tx)
  show ?case
  proof (cases "next_queued tx")
    case None
    then have "tx_live tx = []" "tx_backfill tx = []" by (auto simp: next_queued_def split: list.splits)
    moreover have "f = None" "tx' = tx" using 1(4) None by (auto simp: pop_loop.simps [of ring tx])
    ultimately show ?thesis using 1(3) by (simp add: owed_def)
  next
    case (Some p)
    obtain seq t where p: "next_queued tx = Some (seq, t)" using Some by (cases p) auto
    define u where "u = t\<lparr>tx_queued := rs_remove seq (tx_queued t)\<rparr>"
    note q = next_queued_inv [OF 1(3) p, folded u_def]
    have u: "tx_live u = tx_live t" "tx_backfill u = tx_backfill t" "tx_control u = tx_control t"
      "tx_proven u = tx_proven t" "tx_connected u = tx_connected t" by (simp_all add: u_def)
    have pop: "pop_loop ring tx
        = (if rs_contains (tx_proven u) seq then pop_loop ring u
           else case ring_get ring seq of Some c \<Rightarrow> (Some (AudioChunk c), u) | None \<Rightarrow> pop_loop ring u)"
      unfolding u_def by (subst pop_loop.simps) (simp add: p Let_def)
    have owed: "owed ring tx = owed ring u \<union> {c. seq \<notin> ranges_set (tx_proven u) \<and> ring_get ring seq = Some c}"
      using q(2,4) by (auto simp: owed_def u)
    show ?thesis
    proof (cases "rs_contains (tx_proven u) seq \<or> ring_get ring seq = None")
      case True
      then have rest: "pop_loop ring u = (f, tx')" using 1(4) pop by (auto split: if_splits)
      have same: "owed ring tx = owed ring u" using True owed by (auto simp: rs_contains_iff)
      have "tx_inv n tx' \<and> tx_control tx' = tx_control u \<and> tx_proven tx' = tx_proven u \<and> tx_connected tx' = tx_connected u
        \<and> (case f of None \<Rightarrow> tx_live tx' = [] \<and> tx_backfill tx' = [] \<and> owed ring u = {}
           | Some f \<Rightarrow> (\<exists>c. f = AudioChunk c \<and> owed ring u = insert c (owed ring tx'))
               \<and> length (tx_live tx') + length (tx_backfill tx') < length (tx_live u) + length (tx_backfill u))"
      proof (cases "rs_contains (tx_proven u) seq")
        case proven: True
        show ?thesis by (rule 1(1) [OF p refl u_def proven q(1) rest])
      next
        case False
        with True have gone: "ring_get ring seq = None" by simp
        show ?thesis by (rule 1(2) [OF p refl u_def False gone q(1) rest])
      qed
      then show ?thesis using q u same by (auto split: option.splits)
    next
      case False
      then obtain c where c: "ring_get ring seq = Some c" by auto
      then have "f = Some (AudioChunk c)" "tx' = u" using False 1(4) pop by auto
      then show ?thesis using q u owed c False by (auto simp: rs_contains_iff)
    qed
  qed
qed

text \<open>Popping until nothing is owed, as the \<open>drain\<close> message of the encoder worker does under a byte budget.\<close>

definition pop_tx :: "chunk_ring \<Rightarrow> sink_tx \<Rightarrow> frame option \<times> sink_tx" where
  "pop_tx ring tx =
     (if \<not> tx_connected tx then (None, tx)
      else case tx_control tx of f # rest \<Rightarrow> (Some f, tx\<lparr>tx_control := rest\<rparr>) | [] \<Rightarrow> pop_loop ring tx)"

lemma pop_frame_tx:
  "pop_frame i s = (case jm_get (ss_sinks s) i of None \<Rightarrow> (None, s)
     | Some tx \<Rightarrow> if \<not> tx_connected tx then (None, s) else (case pop_tx (ss_ring s) tx of (f, tx') \<Rightarrow> (f, put_sink i tx' s)))"
  by (auto simp: pop_frame_def pop_tx_def split: option.splits list.splits prod.splits)

lemma pop_tx_spec:
  assumes "tx_inv n tx" "tx_connected tx" "pop_tx ring tx = (f, tx')"
  shows "tx_inv n tx' \<and> tx_connected tx' \<and> tx_proven tx' = tx_proven tx
    \<and> (case f of None \<Rightarrow> tx_control tx = [] \<and> owed ring tx = {} \<and> tx_control tx' = [] \<and> tx_live tx' = [] \<and> tx_backfill tx' = []
       | Some f \<Rightarrow> insert f (set (tx_control tx') \<union> AudioChunk ` owed ring tx') = set (tx_control tx) \<union> AudioChunk ` owed ring tx
           \<and> length (tx_control tx') + length (tx_live tx') + length (tx_backfill tx')
             < length (tx_control tx) + length (tx_live tx) + length (tx_backfill tx))"
proof (cases "tx_control tx")
  case Nil
  then have "pop_loop ring tx = (f, tx')" using assms(2,3) by (simp add: pop_tx_def)
  from pop_loop_spec [OF assms(1) this] show ?thesis using Nil assms(2) by (auto split: option.splits)
next
  case (Cons g rest)
  then have "f = Some g" "tx' = tx\<lparr>tx_control := rest\<rparr>" using assms(2,3) by (auto simp: pop_tx_def)
  then show ?thesis using Cons assms(1,2) by (auto simp: tx_inv_def owed_def)
qed

fun pop_all :: "nat \<Rightarrow> nat \<Rightarrow> stream_sender \<Rightarrow> frame list \<times> stream_sender" where
  "pop_all 0 i s = ([], s)"
| "pop_all (Suc fuel) i s =
     (case pop_frame i s of (None, s') \<Rightarrow> ([], s')
      | (Some f, s') \<Rightarrow> (case pop_all fuel i s' of (fs, s'') \<Rightarrow> (f # fs, s'')))"

definition backlog :: "nat \<Rightarrow> stream_sender \<Rightarrow> nat" where
  "backlog i s = (case jm_get (ss_sinks s) i of None \<Rightarrow> 0
     | Some tx \<Rightarrow> length (tx_control tx) + length (tx_live tx) + length (tx_backfill tx))"

lemma put_sink_simps [simp]:
  "ss_ring (put_sink i tx s) = ss_ring s" "jm_get (ss_sinks (put_sink i tx s)) j = (if j = i then Some tx else jm_get (ss_sinks s) j)"
  "ss_stream (put_sink i tx s) = ss_stream s" "ss_state (put_sink i tx s) = ss_state s"
  "ss_finalSeq (put_sink i tx s) = ss_finalSeq s" "ss_produced (put_sink i tx s) = ss_produced s"
  "ss_nextSeq (put_sink i tx s) = ss_nextSeq s" "ss_nextFirst (put_sink i tx s) = ss_nextFirst s"
  "put_sink i tx (put_sink i tx' s) = put_sink i tx s"
proof -
  have "jm_set i v (jm_set i w m) = jm_set i v m" for v w and m :: "(nat, sink_tx) jsmap" by (induction m) auto
  then show "put_sink i tx (put_sink i tx' s) = put_sink i tx s" by (simp add: put_sink_def)
qed (simp_all add: put_sink_def jm_get_set)

lemma put_sink_same: "jm_get (ss_sinks s) i = Some tx \<Longrightarrow> put_sink i tx s = s"
proof -
  have "jm_get m i = Some tx \<Longrightarrow> jm_set i tx m = m" for m by (induction m) auto
  then show "jm_get (ss_sinks s) i = Some tx \<Longrightarrow> put_sink i tx s = s" by (simp add: put_sink_def)
qed

text \<open>With as much fuel as the backlog everything owed leaves, and only that.\<close>

lemma pop_all_spec:
  assumes "jm_get (ss_sinks s) i = Some tx" "tx_inv n tx" "tx_connected tx" "backlog i s \<le> fuel" "pop_all fuel i s = (fs, s')"
  shows "set fs = set (tx_control tx) \<union> AudioChunk ` owed (ss_ring s) tx
    \<and> (\<exists>tx'. s' = put_sink i tx' s \<and> tx_inv n tx' \<and> tx_connected tx' \<and> tx_proven tx' = tx_proven tx
         \<and> tx_control tx' = [] \<and> tx_live tx' = [] \<and> tx_backfill tx' = [])"
  using assms
proof (induction fuel arbitrary: s tx fs s')
  case 0
  then have "tx_control tx = []" "tx_live tx = []" "tx_backfill tx = []" by (simp_all add: backlog_def)
  then show ?case using 0 put_sink_same [OF 0(1)] by (auto simp: owed_def intro!: exI [of _ tx])
next
  case (Suc fuel)
  obtain f tx1 where pop: "pop_tx (ss_ring s) tx = (f, tx1)" by (cases "pop_tx (ss_ring s) tx")
  note t = pop_tx_spec [OF Suc.prems(2,3) pop]
  have frame: "pop_frame i s = (f, put_sink i tx1 s)" using Suc.prems(1,3) pop by (simp add: pop_frame_tx)
  show ?case
  proof (cases f)
    case None
    then have "fs = []" "s' = put_sink i tx1 s" using Suc.prems(5) frame by simp_all
    then show ?thesis using t None by auto
  next
    case (Some g)
    obtain gs s2 where rest: "pop_all fuel i (put_sink i tx1 s) = (gs, s2)" by fastforce
    have fs: "fs = g # gs" "s' = s2" using Suc.prems(5) frame Some rest by simp_all
    have "backlog i (put_sink i tx1 s) \<le> fuel"
      using t Some Suc.prems(1,4) by (simp add: backlog_def)
    note IH = Suc.IH [OF _ _ _ this rest, of tx1, simplified]
    show ?thesis using IH t Some fs by auto
  qed
qed

subsection \<open>Runs\<close>

datatype sender_event =
    Arm stream_header_v1
  | PushAudio nat nat bytes
  | Finish
  | AddSink nat
  | RemoveSink nat
  | SetConnected nat bool
  | Deliver nat frame
  | PopFrame nat

text \<open>A misused lifecycle call returns its error and changes nothing.\<close>

fun sender_step :: "stream_sender \<Rightarrow> sender_event \<Rightarrow> stream_sender" where
  "sender_step s (Arm h) = (case sender_arm h s of Inl _ \<Rightarrow> s | Inr s' \<Rightarrow> s')"
| "sender_step s (PushAudio n ts p) = (case push_audio n ts p s of Inl _ \<Rightarrow> s | Inr (_, s') \<Rightarrow> s')"
| "sender_step s Finish = (case sender_finish s of Inl _ \<Rightarrow> s | Inr s' \<Rightarrow> s')"
| "sender_step s (AddSink i) = add_sink i s"
| "sender_step s (RemoveSink i) = remove_sink i s"
| "sender_step s (SetConnected i up) = set_connected i up s"
| "sender_step s (Deliver i f) = sender_handle_frame i f s"
| "sender_step s (PopFrame i) = snd (pop_frame i s)"

text \<open>
  What a take is, from the microphone's calls alone: its chunks in order and whether it is over. No sink,
  acknowledgement or connection appears in it.
\<close>

record recording =
  re_chunks :: "audio_chunk list"
  re_over :: bool

definition no_recording :: recording where
  "no_recording = \<lparr>re_chunks = [], re_over = False\<rparr>"

fun record_step :: "frame_key \<Rightarrow> recording \<Rightarrow> sender_event \<Rightarrow> recording" where
  "record_step k r (Arm h) = (if re_chunks r = [] then r\<lparr>re_chunks := [header_chunk k h]\<rparr> else r)"
| "record_step k r (PushAudio n ts p) =
     (if re_chunks r \<noteq> [] \<and> \<not> re_over r
      then r\<lparr>re_chunks := re_chunks r @ [mk_audio_chunk k (length (re_chunks r))
             (sum_list (map ac_sampleCount (re_chunks r))) n ts p]\<rparr>
      else r)"
| "record_step k r Finish = (if re_chunks r \<noteq> [] then r\<lparr>re_over := True\<rparr> else r)"
| "record_step k r _ = r"

definition acknowledged :: "frame_key \<Rightarrow> sender_event list \<Rightarrow> nat set" where
  "acknowledged k es = {v. \<exists>i a. Deliver i (AckStatus a) \<in> set es \<and> ak_stream a = k \<and> v \<in> ranges_set (ack_proven a)}"

subsection \<open>The invariant of a sender\<close>

definition sinks_ok :: "nat \<Rightarrow> stream_sender \<Rightarrow> bool" where
  "sinks_ok n s \<longleftrightarrow> (\<forall>i tx. jm_get (ss_sinks s) i = Some tx \<longrightarrow> tx_inv n tx)"

text \<open>Everything but the take's phase.\<close>

definition sender_core :: "frame_key \<Rightarrow> audio_chunk list \<Rightarrow> nat set \<Rightarrow> stream_sender \<Rightarrow> bool" where
  "sender_core k cs acks s \<longleftrightarrow>
     ss_stream s = k \<and> ss_nextSeq s = length cs \<and> ss_nextFirst s = sum_list (map ac_sampleCount cs)
   \<and> ring_inv (length cs) (ss_ring s) \<and> ri_pending (ss_ring s) = [] \<and> ranges_set (ri_acked (ss_ring s)) \<subseteq> acks
   \<and> (\<forall>j c. ring_get (ss_ring s) j = Some c \<longrightarrow> j < length cs \<and> c = cs ! j)
   \<and> separated (ss_produced s) \<and> ranges_set (ss_produced s) = {..<length cs}
   \<and> sinks_ok (length cs) s"

definition phase_ok :: "recording \<Rightarrow> stream_sender \<Rightarrow> bool" where
  "phase_ok r s \<longleftrightarrow>
     (re_over r \<longrightarrow> re_chunks r \<noteq> [])
   \<and> (ss_state s = TakeIdle \<longleftrightarrow> re_chunks r = [])
   \<and> (ss_state s = TakeStreaming \<longleftrightarrow> re_chunks r \<noteq> [] \<and> \<not> re_over r)
   \<and> (re_over r \<longleftrightarrow> ss_state s = TakeDraining \<or> ss_state s = TakeClosed)
   \<and> ss_finalSeq s = (if re_over r then Some (length (re_chunks r) - 1) else None)"

definition sender_inv :: "frame_key \<Rightarrow> recording \<Rightarrow> nat set \<Rightarrow> stream_sender \<Rightarrow> bool" where
  "sender_inv k r acks s \<longleftrightarrow> sender_core k (re_chunks r) acks s \<and> phase_ok r s"

lemma sender_core_mono: "sender_core k cs acks s \<Longrightarrow> acks \<subseteq> acks' \<Longrightarrow> sender_core k cs acks' s"
  by (auto simp: sender_core_def)

lemma sinks_ok_put: "sinks_ok n s \<Longrightarrow> tx_inv n tx \<Longrightarrow> sinks_ok n (put_sink i tx s)"
  by (simp add: sinks_ok_def)

lemma sender_core_put: "sender_core k cs acks s \<Longrightarrow> tx_inv (length cs) tx \<Longrightarrow> sender_core k cs acks (put_sink i tx s)"
  by (simp add: sender_core_def sinks_ok_put)

lemma phase_ok_put: "phase_ok r (put_sink i tx s) = phase_ok r s"
  by (simp add: phase_ok_def)

lemma for_sinks_simps [simp]:
  "ss_ring (for_sinks f s) = ss_ring s" "ss_stream (for_sinks f s) = ss_stream s" "ss_state (for_sinks f s) = ss_state s"
  "ss_finalSeq (for_sinks f s) = ss_finalSeq s" "ss_produced (for_sinks f s) = ss_produced s"
  "ss_nextSeq (for_sinks f s) = ss_nextSeq s" "ss_nextFirst (for_sinks f s) = ss_nextFirst s"
  "jm_get (ss_sinks (for_sinks f s)) i = map_option f (jm_get (ss_sinks s) i)"
  by (simp_all add: for_sinks_def map_of_map)

lemma for_sinks_ok: "sinks_ok n s \<Longrightarrow> (\<And>tx. tx_inv n tx \<Longrightarrow> tx_inv m (f tx)) \<Longrightarrow> sinks_ok m (for_sinks f s)"
  by (auto simp: sinks_ok_def)

lemma broadcast_new_gaps_simps [simp]:
  "ss_ring (broadcast_new_gaps s) = (ss_ring s)\<lparr>ri_pending := []\<rparr>"
  "ss_stream (broadcast_new_gaps s) = ss_stream s" "ss_state (broadcast_new_gaps s) = ss_state s"
  "ss_finalSeq (broadcast_new_gaps s) = ss_finalSeq s" "ss_produced (broadcast_new_gaps s) = ss_produced s"
  "ss_nextSeq (broadcast_new_gaps s) = ss_nextSeq s" "ss_nextFirst (broadcast_new_gaps s) = ss_nextFirst s"
  by (simp_all add: broadcast_new_gaps_def take_pending_gaps_def Let_def)

lemma broadcast_new_gaps_ok:
  assumes "sinks_ok n s" "separated (ri_pending (ss_ring s))" "ranges_set (ri_pending (ss_ring s)) \<subseteq> {..<n}"
  shows "sinks_ok n (broadcast_new_gaps s)"
proof -
  from assms(1) have "sinks_ok n (s\<lparr>ss_ring := r\<rparr>)" for r by (simp add: sinks_ok_def)
  then have "sinks_ok n (for_sinks f (s\<lparr>ss_ring := r\<rparr>))" if "\<And>tx. tx_inv n tx \<Longrightarrow> tx_inv n (f tx)" for f r
    using for_sinks_ok that by blast
  then show ?thesis
    using \<open>\<And>r. sinks_ok n (s\<lparr>ss_ring := r\<rparr>)\<close>
    by (simp add: broadcast_new_gaps_def take_pending_gaps_def Let_def tx_inv_gap_report assms(2,3))
qed

lemma produce_core:
  assumes "sender_core k cs acks s" "ac_seq c = length cs"
    and "s' = produce c (s\<lparr>ss_nextFirst := ss_nextFirst s + ac_sampleCount c\<rparr>)"
  shows "sender_core k (cs @ [c]) acks s' \<and> ss_state s' = ss_state s \<and> ss_finalSeq s' = ss_finalSeq s"
proof -
  define ring where "ring = ring_insert c (ss_ring s)"
  have ri: "ring_inv (length cs) (ss_ring s)" and sep: "separated (ss_produced s)"
    and content: "\<And>j d. ring_get (ss_ring s) j = Some d \<Longrightarrow> j < length cs \<and> d = cs ! j"
    and sinks: "sinks_ok (length cs) s"
    using assms(1) by (auto simp: sender_core_def)
  note ins = ring_insert_inv [OF ri assms(2) ring_def]
  define s1 where "s1 = s\<lparr>ss_nextFirst := ss_nextFirst s + ac_sampleCount c, ss_nextSeq := ss_nextSeq s + 1,
      ss_produced := rs_insert (ac_seq c) (ss_produced s), ss_ring := ring\<rparr>"
  have s': "s' = broadcast_new_gaps (for_sinks (queue_live (ac_seq c)) s1)"
    by (simp add: assms(3) produce_def s1_def ring_def)
  have "sinks_ok (length cs) s1" using sinks by (simp add: sinks_ok_def s1_def)
  then have "sinks_ok (Suc (length cs)) (for_sinks (queue_live (ac_seq c)) s1)"
    by (rule for_sinks_ok) (simp add: assms(2) tx_inv_queue_live tx_inv_mono)
  moreover have rc: "ring_core (Suc (length cs)) ring" using ins by (simp add: ring_inv_def)
  have "ranges_set (ri_pending ring) \<subseteq> {..<Suc (length cs)}" using ring_coreD(7,9) [OF rc] by blast
  ultimately have sinks': "sinks_ok (length (cs @ [c])) s'"
    unfolding s' using ring_coreD(4) [OF rc] by (simp add: broadcast_new_gaps_ok s1_def)
  have "j < length (cs @ [c]) \<and> d = (cs @ [c]) ! j" if "ring_get ring j = Some d" for j d
  proof -
    have "if j = length cs then d = c else jm_get (ri_chunks (ss_ring s)) j = Some d"
      using ins that unfolding ring_get_def by blast
    then show ?thesis using content [of j d] by (auto simp: ring_get_def nth_append split: if_splits)
  qed
  then have content': "ring_get (ss_ring s') j = Some d \<longrightarrow> j < length (cs @ [c]) \<and> d = (cs @ [c]) ! j" for j d
    by (simp add: s' s1_def ring_get_def)
  have "ring_inv (length (cs @ [c])) (ss_ring s')"
    using ins ring_inv_take_pending [of "Suc (length cs)" ring] by (simp add: s' s1_def)
  moreover have "ranges_set (rs_insert (ac_seq c) (ss_produced s)) = {..<length (cs @ [c])}"
    using assms(1,2) sep by (auto simp: sender_core_def)
  ultimately show ?thesis
    using assms(1) sinks' content' ins sep by (simp add: sender_core_def s' s1_def)
qed

lemma try_close_simps [simp]:
  "ss_ring (try_close s) = ss_ring s" "ss_sinks (try_close s) = ss_sinks s" "ss_stream (try_close s) = ss_stream s"
  "ss_finalSeq (try_close s) = ss_finalSeq s" "ss_produced (try_close s) = ss_produced s"
  "ss_nextSeq (try_close s) = ss_nextSeq s" "ss_nextFirst (try_close s) = ss_nextFirst s"
  by (simp_all add: try_close_def)

lemma try_close_core: "sender_core k cs acks s \<Longrightarrow> sender_core k cs acks (try_close s)"
  by (simp add: sender_core_def sinks_ok_def)

lemma try_close_phase: "phase_ok r s \<Longrightarrow> phase_ok r (try_close s)"
  by (auto simp: phase_ok_def try_close_def)

lemma sender_core_state: "sender_core k cs acks (s\<lparr>ss_state := x\<rparr>) = sender_core k cs acks s"
  "sender_core k cs acks (s\<lparr>ss_finalSeq := y, ss_state := x\<rparr>) = sender_core k cs acks s"
  by (simp_all add: sender_core_def sinks_ok_def)

lemma sender_core_final: "sender_core k cs acks (s\<lparr>ss_finalSeq := x\<rparr>) = sender_core k cs acks s"
  by (simp add: sender_core_def sinks_ok_def)

lemma gaps_below: "ring_inv n r \<Longrightarrow> ranges_set (ri_gaps r) \<subseteq> {..<n}"
  using ring_coreD(7) [of n r] unfolding ring_inv_def by blast

lemma ring_below: "ring_inv n r \<Longrightarrow> ring_contains r s \<Longrightarrow> s < n"
  using ring_coreD(7) [of n r] unfolding ring_inv_def ring_contains_def jm_has_iff ring_seqs_def by auto

text \<open>An acknowledgement: what it leaves in the sink's queues, and the ring it leaves.\<close>

definition ack_tx :: "stream_sender \<Rightarrow> ack_status \<Rightarrow> sink_tx \<Rightarrow> sink_tx" where
  "ack_tx s a tx =
     (let proven = ack_proven a;
          ring = mark_acked proven (ss_ring s);
          outstanding = rs_subtract (rs_subtract (ss_produced s) proven) (ri_gaps ring);
          tx = fold (requeue ring) (rs_iter_values outstanding) (tx\<lparr>tx_proven := proven, tx_chwm := ak_chwm a\<rparr>);
          holes = rs_from_ranges (ak_holes a);
          gapped = rs_subtract holes (rs_subtract holes (ri_gaps ring))
      in if gapped = [] then tx else queue_gap_report (ss_stream s) gapped (tx\<lparr>tx_gapsReported := []\<rparr>))"

lemma handle_ack_tx:
  "jm_get (ss_sinks s) i = Some tx \<Longrightarrow>
     handle_ack i a s = try_close (put_sink i (ack_tx s a tx) (s\<lparr>ss_ring := mark_acked (ack_proven a) (ss_ring s)\<rparr>))"
  by (simp add: handle_ack_def ack_tx_def Let_def)

lemma mark_acked_simps [simp]:
  "ri_chunks (mark_acked rs r) = ri_chunks r" "ri_gaps (mark_acked rs r) = ri_gaps r" "ri_pending (mark_acked rs r) = ri_pending r"
  "ring_get (mark_acked rs r) j = ring_get r j" "ring_contains (mark_acked rs r) j = ring_contains r j"
  by (simp_all add: mark_acked_def ring_get_def ring_contains_def)

lemma ack_tx_spec:
  assumes "sender_core k cs acks s" "tx_inv (length cs) tx"
  shows "tx_inv (length cs) (ack_tx s a tx)"
    and "tx_proven (ack_tx s a tx) = ack_proven a" "tx_connected (ack_tx s a tx) = tx_connected tx"
    and "ranges_set (tx_queued (ack_tx s a tx)) = ranges_set (tx_queued tx)
      \<union> {v. v < length cs \<and> v \<notin> ranges_set (ack_proven a) \<and> v \<notin> ranges_set (ri_gaps (ss_ring s)) \<and> ring_contains (ss_ring s) v}"
proof -
  define tx0 where "tx0 = tx\<lparr>tx_proven := ack_proven a, tx_chwm := ak_chwm a\<rparr>"
  define ring where "ring = mark_acked (ack_proven a) (ss_ring s)"
  define vs where "vs = rs_iter_values (rs_subtract (rs_subtract (ss_produced s) (ack_proven a)) (ri_gaps ring))"
  define tx1 where "tx1 = fold (requeue ring) vs tx0"
  have ri: "ring_inv (length cs) (ss_ring s)" and sep: "separated (ss_produced s)" "ranges_set (ss_produced s) = {..<length cs}"
    using assms(1) by (simp_all add: sender_core_def)
  have tx0: "tx_inv (length cs) tx0" using assms(2) by (auto simp: tx_inv_def tx0_def separated_ack_proven)
  have below: "\<forall>v. ring_contains ring v \<longrightarrow> v < length cs" using ring_below [OF ri] by (simp add: ring_def)
  note f = fold_requeue [OF tx0 below, of vs, folded tx1_def]
  have vs: "set vs = {v. v < length cs \<and> v \<notin> ranges_set (ack_proven a) \<and> v \<notin> ranges_set (ri_gaps (ss_ring s))}"
    using sep by (auto simp: vs_def set_iter_values ring_def)
  have inv0: "tx_inv (length cs) (tx1\<lparr>tx_gapsReported := []\<rparr>)" using f by (auto simp: tx_inv_def)
  define g where "g = rs_subtract (rs_from_ranges (ak_holes a)) (rs_subtract (rs_from_ranges (ak_holes a)) (ri_gaps ring))"
  have g: "separated g" "ranges_set g \<subseteq> {..<length cs}" using gaps_below [OF ri] by (auto simp: g_def ring_def)
  have ack: "ack_tx s a tx = (if g = [] then tx1 else queue_gap_report (ss_stream s) g (tx1\<lparr>tx_gapsReported := []\<rparr>))"
    by (simp add: ack_tx_def Let_def tx1_def vs_def ring_def tx0_def g_def)
  show "tx_inv (length cs) (ack_tx s a tx)" using ack f inv0 tx_inv_gap_report [OF _ g] by auto
  show "tx_proven (ack_tx s a tx) = ack_proven a" "tx_connected (ack_tx s a tx) = tx_connected tx"
    using ack f by (auto simp: tx0_def)
  have "ranges_set (tx_queued (ack_tx s a tx)) = ranges_set (tx_queued tx1)" using ack by auto
  then show "ranges_set (tx_queued (ack_tx s a tx)) = ranges_set (tx_queued tx)
      \<union> {v. v < length cs \<and> v \<notin> ranges_set (ack_proven a) \<and> v \<notin> ranges_set (ri_gaps (ss_ring s)) \<and> ring_contains (ss_ring s) v}"
    using f by (auto simp: vs tx0_def ring_def)
qed

lemma handle_ack_core:
  assumes "sender_core k cs acks s"
  shows "sender_core k cs (acks \<union> ranges_set (ack_proven a)) (handle_ack i a s)"
proof (cases "jm_get (ss_sinks s) i")
  case None
  then show ?thesis using assms sender_core_mono by (fastforce simp: handle_ack_def)
next
  case (Some tx)
  have ri: "ring_inv (length cs) (ss_ring s)" and tx: "tx_inv (length cs) tx"
    using assms Some by (auto simp: sender_core_def sinks_ok_def)
  have "sender_core k cs (acks \<union> ranges_set (ack_proven a)) (s\<lparr>ss_ring := mark_acked (ack_proven a) (ss_ring s)\<rparr>)"
    using assms ring_inv_mark [OF ri, of "ack_proven a"] by (auto simp: sender_core_def sinks_ok_def)
  then show ?thesis
    unfolding handle_ack_tx [OF Some] by (intro try_close_core sender_core_put ack_tx_spec(1) [OF assms tx])
qed

lemma handle_backfill_core:
  assumes "sender_core k cs acks s"
  shows "sender_core k cs acks (handle_backfill_request i req s)"
proof (cases "jm_get (ss_sinks s) i")
  case (Some tx)
  have ri: "ring_inv (length cs) (ss_ring s)" and tx: "tx_inv (length cs) tx"
    using assms Some by (auto simp: sender_core_def sinks_ok_def)
  have below: "\<forall>v. ring_contains (ss_ring s) v \<longrightarrow> v < length cs" using ring_below [OF ri] by simp
  define w where "w = rs_from_ranges (rl_ranges req)"
  define g where "g = rs_subtract w (rs_subtract w (ri_gaps (ss_ring s)))"
  have "separated g" "ranges_set g \<subseteq> {..<length cs}" using gaps_below [OF ri] by (auto simp: g_def w_def)
  then have "tx_inv (length cs) (if g = [] then tx else queue_gap_report (ss_stream s) g tx)"
    using tx tx_inv_gap_report by simp
  from fold_requeue [OF this below, of "rs_iter_values w"] show ?thesis
    using sender_core_put [OF assms]
    by (cases "g = []") (simp_all add: handle_backfill_request_def Some Let_def w_def [symmetric] g_def [symmetric])
qed (simp add: handle_backfill_request_def assms)

lemma sender_core_sinks:
  "sender_core k cs acks s \<Longrightarrow> sinks_ok (length cs) (s\<lparr>ss_sinks := m\<rparr>) \<Longrightarrow> sender_core k cs acks (s\<lparr>ss_sinks := m\<rparr>)"
  by (simp add: sender_core_def)

lemma fold_queue_backfill:
  assumes "tx_inv n tx" "distinct vs" "set vs \<inter> ranges_set (tx_queued tx) = {}" "\<forall>v \<in> set vs. v < n"
  shows "tx_inv n (fold queue_backfill vs tx)"
  using assms
proof (induction vs arbitrary: tx)
  case (Cons v vs)
  have "separated (tx_queued tx)" using Cons.prems(1) by (simp add: tx_inv_def)
  then have "ranges_set (tx_queued (queue_backfill v tx)) = insert v (ranges_set (tx_queued tx))"
    by (simp add: queue_backfill_def)
  with Cons show ?case by (auto simp: tx_inv_queue_backfill)
qed simp

lemma ordered_insert_get:
  assumes "jm_get m k = None"
  shows "jm_get (ordered_insert k v m) j = (if j = k then Some v else jm_get m j)"
proof -
  define a b where "a = takeWhile (\<lambda>p. fst p < k) m" and "b = dropWhile (\<lambda>p. fst p < k) m"
  have m: "m = a @ b" by (simp add: a_def b_def)
  have ins: "ordered_insert k v m = a @ (k, v) # b" by (simp add: ordered_insert_def a_def b_def)
  have "jm_get a k = None" using assms by (metis m map_add_None map_of_append)
  then have "jm_get (a @ (k, v) # b) j = (if j = k then Some v else jm_get (a @ b) j)"
    by (auto simp: map_add_def split: option.splits)
  then show ?thesis unfolding ins m [symmetric] .
qed

lemma sender_step_core:
  assumes "sender_inv k r acks s"
  shows "sender_inv k (record_step k r e) (acks \<union> acknowledged k [e]) (sender_step s e)"
proof -
  have core: "sender_core k (re_chunks r) acks s" and phase: "phase_ok r s"
    using assms by (simp_all add: sender_inv_def)
  have more: "sender_core k cs (acks \<union> acknowledged k [e]) t" if "sender_core k cs acks t" for cs t
    using that by (rule sender_core_mono) simp
  note facts = core [unfolded sender_core_def]
  have sinks: "tx_inv (length (re_chunks r)) tx" if "jm_get (ss_sinks s) i = Some tx" for i tx
    using that facts by (simp add: sinks_ok_def)
  show ?thesis
  proof (cases e)
    case (Arm h)
    show ?thesis
    proof (cases "ss_state s = TakeIdle")
      case False
      then show ?thesis using assms more phase by (auto simp: Arm sender_arm_def sender_inv_def phase_ok_def)
    next
      case True
      then have cs: "re_chunks r = []" "\<not> re_over r" "ss_finalSeq s = None" using phase by (auto simp: phase_ok_def)
      define c where "c = header_chunk k h"
      have c: "ac_seq c = 0" "ac_sampleCount c = 0" "ss_stream s = k" using facts by (simp_all add: c_def header_chunk_def Let_def)
      have "sender_core k [] acks (s\<lparr>ss_state := TakeArmed\<rparr>)" using core cs by (simp add: sender_core_state)
      from produce_core [OF this _ refl, of c] have p: "sender_core k [c] acks (produce c (s\<lparr>ss_state := TakeArmed\<rparr>))"
        "ss_finalSeq (produce c (s\<lparr>ss_state := TakeArmed\<rparr>)) = None"
        using c(1,2) cs(3) by simp_all
      show ?thesis
        using True p more [of "[c]"] cs c(3)
        by (simp add: Arm sender_arm_def sender_inv_def sender_core_state phase_ok_def c_def [symmetric])
    qed
  next
    case (PushAudio n ts p)
    show ?thesis
    proof (cases "ss_state s = TakeStreaming")
      case False
      then show ?thesis using assms more phase by (auto simp: PushAudio push_audio_def sender_inv_def phase_ok_def)
    next
      case True
      then have cs: "re_chunks r \<noteq> []" "\<not> re_over r" using phase by (auto simp: phase_ok_def)
      define c where "c = mk_audio_chunk k (length (re_chunks r)) (sum_list (map ac_sampleCount (re_chunks r))) n ts p"
      have c: "ac_seq c = length (re_chunks r)" "ac_sampleCount c = n" by (simp_all add: c_def mk_audio_chunk_def)
      note pr = produce_core [OF core c(1) refl, unfolded c(2)]
      have "push_audio n ts p s = Inr (length (re_chunks r), produce c (s\<lparr>ss_nextFirst := ss_nextFirst s + n\<rparr>))"
        using True facts by (simp add: push_audio_def c_def Let_def)
      then show ?thesis
        using pr more phase True cs
        by (auto simp: PushAudio sender_inv_def phase_ok_def c_def [symmetric])
    qed
  next
    case Finish
    show ?thesis
    proof (cases "ss_state s = TakeStreaming")
      case False
      then show ?thesis using assms more phase by (auto simp: Finish sender_finish_def sender_inv_def phase_ok_def)
    next
      case True
      then have cs: "re_chunks r \<noteq> []" "\<not> re_over r" using phase by (auto simp: phase_ok_def)
      define t where "t = s\<lparr>ss_finalSeq := Some (ss_nextSeq s - 1), ss_state := TakeDraining\<rparr>"
      have "sender_core k (re_chunks r) acks t" using core by (simp add: t_def sender_core_state sender_core_final)
      moreover have "phase_ok (r\<lparr>re_over := True\<rparr>) t" using cs facts by (simp add: phase_ok_def t_def)
      ultimately have "sender_core k (re_chunks r) acks (try_close t)" "phase_ok (r\<lparr>re_over := True\<rparr>) (try_close t)"
        by (simp_all only: try_close_core try_close_phase)
      then show ?thesis using True cs more by (simp add: Finish sender_finish_def sender_inv_def t_def)
    qed
  next
    case (AddSink i)
    have "sinks_ok (length (re_chunks r)) (add_sink i s)"
    proof (cases "jm_get (ss_sinks s) i")
      case None
      have ri: "ring_inv (length (re_chunks r)) (ss_ring s)" using facts by blast
      then have "distinct (ring_seqs (ss_ring s))" "\<forall>v \<in> set (ring_seqs (ss_ring s)). v < length (re_chunks r)"
        using ring_coreD(1,7) [of "length (re_chunks r)" "ss_ring s"] by (auto simp: ring_inv_def strict_sorted_iff)
      then have "tx_inv (length (re_chunks r)) (fold queue_backfill (ring_seqs (ss_ring s)) new_sink_tx)"
        by (intro fold_queue_backfill tx_inv_new) (simp_all add: new_sink_tx_def ranges_set_simps)
      then show ?thesis using None sinks by (auto simp: sinks_ok_def add_sink_def ordered_insert_get)
    qed (use facts in \<open>simp add: add_sink_def\<close>)
    moreover have "\<exists>m. add_sink i s = s\<lparr>ss_sinks := m\<rparr>"
      by (cases "jm_has (ss_sinks s) i") (auto simp: add_sink_def intro: exI [of _ "ss_sinks s"])
    ultimately show ?thesis
      using core phase more sender_core_sinks by (auto simp: AddSink sender_inv_def phase_ok_def)
  next
    case (RemoveSink i)
    have "sinks_ok (length (re_chunks r)) (remove_sink i s)"
      using sinks by (auto simp: sinks_ok_def remove_sink_def jm_get_delete)
    then show ?thesis
      using core phase more sender_core_sinks by (auto simp: RemoveSink remove_sink_def sender_inv_def phase_ok_def)
  next
    case (SetConnected i up)
    show ?thesis
    proof (cases "jm_get (ss_sinks s) i")
      case None
      then show ?thesis using assms more by (simp add: SetConnected set_connected_def sender_inv_def)
    next
      case (Some tx)
      have "tx_inv (length (re_chunks r)) (tx\<lparr>tx_connected := True\<rparr>)"
        "tx_inv (length (re_chunks r)) (tx\<lparr>tx_connected := False, tx_backfill := tx_backfill tx @ sort (tx_live tx), tx_live := []\<rparr>)"
        using sinks [OF Some] by (auto simp: tx_inv_def)
      then show ?thesis
        using sender_core_put [OF core] phase more
        by (simp add: SetConnected set_connected_def Some sender_inv_def phase_ok_put)
    qed
  next
    case (Deliver i f)
    show ?thesis
    proof (cases f)
      case (AckStatus a)
      show ?thesis
      proof (cases "ak_stream a = k")
        case True
        have "phase_ok r (handle_ack i a s)"
        proof (cases "jm_get (ss_sinks s) i")
          case (Some tx)
          have "phase_ok r (put_sink i (ack_tx s a tx) (s\<lparr>ss_ring := mark_acked (ack_proven a) (ss_ring s)\<rparr>))"
            using phase by (simp add: phase_ok_def)
          then show ?thesis unfolding handle_ack_tx [OF Some] by (rule try_close_phase)
        qed (use phase in \<open>simp add: handle_ack_def\<close>)
        moreover have "ranges_set (ack_proven a) \<subseteq> acknowledged k [e]"
          using True by (auto simp: acknowledged_def Deliver AckStatus)
        then have "sender_core k (re_chunks r) (acks \<union> acknowledged k [e]) (handle_ack i a s)"
          using handle_ack_core [OF core, of a i] sender_core_mono by blast
        ultimately show ?thesis using True facts by (simp add: Deliver AckStatus sender_inv_def)
      qed (use assms more facts in \<open>simp add: Deliver AckStatus sender_inv_def\<close>)
    next
      case (BackfillRequest req)
      have "phase_ok r (handle_backfill_request i req s)"
        using phase by (auto simp: handle_backfill_request_def phase_ok_put Let_def split: option.splits)
      then show ?thesis
        using handle_backfill_core [OF core] assms more by (simp add: Deliver BackfillRequest sender_inv_def)
    qed (use assms more in \<open>simp_all add: Deliver sender_inv_def\<close>)
  next
    case (PopFrame i)
    have "\<exists>tx'. (tx' = None \<or> tx_inv (length (re_chunks r)) (the tx')) \<and> snd (pop_frame i s) = (case tx' of None \<Rightarrow> s | Some tx' \<Rightarrow> put_sink i tx' s)"
    proof (cases "jm_get (ss_sinks s) i")
      case None
      then show ?thesis by (intro exI [of _ None]) (simp add: pop_frame_def)
    next
      case (Some tx)
      show ?thesis
      proof (cases "tx_connected tx")
        case False
        then show ?thesis using Some by (intro exI [of _ None]) (simp add: pop_frame_def)
      next
        case True
        obtain f tx' where pop: "pop_tx (ss_ring s) tx = (f, tx')" by (cases "pop_tx (ss_ring s) tx")
        then have "tx_inv (length (re_chunks r)) tx'" using pop_tx_spec [OF sinks [OF Some] True pop] by blast
        then show ?thesis using Some True pop by (intro exI [of _ "Some tx'"]) (simp add: pop_frame_tx)
      qed
    qed
    then show ?thesis
      using sender_core_put [OF core] phase core more by (auto simp: PopFrame sender_inv_def phase_ok_put split: option.splits)
  qed
qed

lemma sender_inv_new: "sender_inv k no_recording {} (new_sender k budget)"
  by (simp add: sender_inv_def sender_core_def phase_ok_def no_recording_def new_sender_def ring_inv_new sinks_ok_def
      ranges_set_simps ring_get_def) (simp add: new_ring_def ranges_set_simps)

lemma acknowledged_append: "acknowledged k (es @ fs) = acknowledged k es \<union> acknowledged k fs"
  by (auto simp: acknowledged_def)

lemma sender_run_inv:
  "sender_inv k (run (record_step k) no_recording es) (acknowledged k es) (run sender_step (new_sender k budget) es)"
proof (induction es rule: rev_induct)
  case Nil
  then show ?case using sender_inv_new by (simp add: acknowledged_def)
next
  case (snoc e es)
  then show ?case using sender_step_core by (simp add: acknowledged_append)
qed

text \<open>C4. Nothing is lost silently: whatever sinks come, go and acknowledge, the sender has numbered exactly the
  chunks the microphone produced, and each of them is either in the ring as it was produced, or was put out
  after an acknowledgement proved that a sink holds it, or is declared a gap, one of the three. The stream
  header and the newest chunk are never put out, and beyond those the ring keeps to its budget.\<close>

theorem every_chunk_accounted:
  fixes k es budget
  defines "s \<equiv> run sender_step (new_sender k budget) es" and "t \<equiv> run (record_step k) no_recording es"
  shows "ss_nextSeq s = length (re_chunks t)
    \<and> ss_finalSeq s = (if re_over t then Some (length (re_chunks t) - 1) else None)
    \<and> (\<forall>v < length (re_chunks t).
         (if ring_contains (ss_ring s) v then ring_get (ss_ring s) v = Some (re_chunks t ! v)
            \<and> v \<notin> ranges_set (ri_gaps (ss_ring s)) \<and> v \<notin> ranges_set (ri_evictedAcked (ss_ring s))
          else (v \<in> ranges_set (ri_gaps (ss_ring s))) \<noteq> (v \<in> ranges_set (ri_evictedAcked (ss_ring s)))
            \<and> (v \<in> ranges_set (ri_evictedAcked (ss_ring s)) \<longrightarrow> v \<in> acknowledged k es)))
    \<and> (re_chunks t \<noteq> [] \<longrightarrow> ring_contains (ss_ring s) 0 \<and> ring_contains (ss_ring s) (length (re_chunks t) - 1))
    \<and> (ri_used (ss_ring s) \<le> ri_budget (ss_ring s) \<or> set (ring_seqs (ss_ring s)) \<subseteq> {0, length (re_chunks t) - 1})"
proof -
  have inv: "sender_inv k t (acknowledged k es) s" unfolding s_def t_def by (rule sender_run_inv)
  then have core: "sender_core k (re_chunks t) (acknowledged k es) s" and phase: "phase_ok t s"
    by (simp_all add: sender_inv_def)
  have ri: "ring_inv (length (re_chunks t)) (ss_ring s)" using core by (simp add: sender_core_def)
  then have rc: "ring_core (length (re_chunks t)) (ss_ring s)" by (simp add: ring_inv_def)
  have in_ring: "ring_contains (ss_ring s) v \<longleftrightarrow> v \<in> set (ring_seqs (ss_ring s))" for v
    unfolding ring_contains_def jm_has_iff ring_seqs_def by simp
  have content: "ring_get (ss_ring s) v = Some (re_chunks t ! v)" if "ring_contains (ss_ring s) v" for v
    using that core unfolding sender_core_def ring_contains_def ring_get_def by (metis not_None_eq)
  have cover: "v \<in> set (ring_seqs (ss_ring s)) \<or> v \<in> ranges_set (ri_gaps (ss_ring s)) \<or> v \<in> ranges_set (ri_evictedAcked (ss_ring s))"
    if "v < length (re_chunks t)" for v using that ring_coreD(7) [OF rc] by blast
  have acked: "ranges_set (ri_evictedAcked (ss_ring s)) \<subseteq> acknowledged k es"
    using ring_coreD(8) [OF rc] core by (auto simp: sender_core_def)
  have each: "if ring_contains (ss_ring s) v then ring_get (ss_ring s) v = Some (re_chunks t ! v)
            \<and> v \<notin> ranges_set (ri_gaps (ss_ring s)) \<and> v \<notin> ranges_set (ri_evictedAcked (ss_ring s))
          else (v \<in> ranges_set (ri_gaps (ss_ring s))) \<noteq> (v \<in> ranges_set (ri_evictedAcked (ss_ring s)))
            \<and> (v \<in> ranges_set (ri_evictedAcked (ss_ring s)) \<longrightarrow> v \<in> acknowledged k es)" if "v < length (re_chunks t)" for v
    using content [of v] cover [OF that] acked ring_core_disjoint [OF rc, of v] unfolding in_ring by auto
  have "ss_nextSeq s = length (re_chunks t)" "ss_finalSeq s = (if re_over t then Some (length (re_chunks t) - 1) else None)"
    using core phase by (simp_all add: sender_core_def phase_ok_def)
  moreover have "re_chunks t \<noteq> [] \<longrightarrow> ring_contains (ss_ring s) 0 \<and> ring_contains (ss_ring s) (length (re_chunks t) - 1)"
    and "ri_used (ss_ring s) \<le> ri_budget (ss_ring s) \<or> set (ring_seqs (ss_ring s)) \<subseteq> {0, length (re_chunks t) - 1}"
    using ri by (simp_all add: ring_inv_def in_ring)
  ultimately show ?thesis using each by blast
qed

text \<open>A take of a header and three chunks on a ring that has no room: one chunk is put out and declared a gap.\<close>

definition sample_header :: stream_header_v1 where
  "sample_header = \<lparr>sh_codec = 1, sh_channels = 1, sh_bitsPerSample = 24, sh_sampleRate = 48000, sh_clockEpochUs = 0,
     sh_wallClockHintMs = 0, sh_deviceDesc = [], sh_codecHeader = []\<rparr>"

definition sample_take :: "sender_event list" where
  "sample_take = [Arm sample_header, PushAudio 480 0 [1], PushAudio 480 10000 [2], Finish]"

theorem every_chunk_accounted_witness:
  "let r = ss_ring (run sender_step (new_sender \<lparr>fk_takeId = [], fk_streamId = []\<rparr> 0) sample_take)
   in ring_contains r 0 \<and> ring_contains r 2 \<and> ring_seqs r = [0, 2]
    \<and> (1 \<in> ranges_set (ri_gaps r) \<longleftrightarrow> 1 \<notin> ranges_set (ri_evictedAcked r))"
proof -
  define k where "k = \<lparr>fk_takeId = [], fk_streamId = []\<rparr>"
  have n: "length (re_chunks (run (record_step k) no_recording sample_take)) = 3"
    by (simp add: sample_take_def run_def no_recording_def)
  note acc = every_chunk_accounted [where k = k and es = sample_take and budget = 0, unfolded n]
  have seqs: "ring_seqs (ss_ring (run sender_step (new_sender k 0) sample_take)) = [0, 2]"
    by (simp add: sample_take_def sample_header_def new_sender_def new_ring_def sender_arm_def push_audio_def sender_finish_def
        produce_def ring_insert_def evict_to_budget_def pinned_def evict_one_def ring_seqs_def ordered_insert_def chunk_cost_def
        header_chunk_def mk_audio_chunk_def broadcast_new_gaps_def take_pending_gaps_def for_sinks_def try_close_def
        rs_contains_def Let_def)
  have "1 \<notin> set (jm_keys (ri_chunks (ss_ring (run sender_step (new_sender k 0) sample_take))))"
    using seqs by (simp add: ring_seqs_def)
  then have out: "\<not> ring_contains (ss_ring (run sender_step (new_sender k 0) sample_take)) 1"
    unfolding ring_contains_def jm_has_iff by simp
  have "re_chunks (run (record_step k) no_recording sample_take) \<noteq> []" using n by auto
  with acc show ?thesis
    using out seqs unfolding k_def [symmetric] Let_def by (auto dest: spec [of _ 1])
qed

end
