(* ===== verification/Stream_Receiver.thy ===== *)
theory Stream_Receiver
  imports Frame_Codec Sink_Engine
begin

text \<open>
  What a receiver reports, \<open>packages/core/src/receiver.rs\<close> from \<open>chwm\<close> on: the acknowledgement with its
  high-water mark and holes, the possession summaries and the completeness tests. The seqs a receiver
  holds are the keys of its metadata map; \<open>held\<close> and \<open>meta\<close> change together in the source.
\<close>

definition rc_held :: "receiver \<Rightarrow> ranges" where
  "rc_held r = rs_from_values (jm_keys (rc_meta r))"

definition rc_declared :: "receiver \<Rightarrow> ranges" where
  "rc_declared r = rs_from_ranges (rc_gaps r)"

definition rc_chwm :: "receiver \<Rightarrow> nat option" where
  "rc_chwm r = rs_contiguous (rs_union (rc_held r) (rc_declared r))"

definition rc_horizon :: "receiver \<Rightarrow> nat option" where
  "rc_horizon r =
     (case (rs_max (rc_held r), rc_finalSeq r) of
        (Some m, Some f) \<Rightarrow> Some (max m f)
      | (Some m, None) \<Rightarrow> Some m
      | (None, Some f) \<Rightarrow> Some f
      | (None, None) \<Rightarrow> None)"

definition rc_holes :: "receiver \<Rightarrow> ranges" where
  "rc_holes r =
     (case rc_horizon r of None \<Rightarrow> []
      | Some h \<Rightarrow> rs_subtract (rs_missing_within (0, h) (rc_held r)) (rc_declared r))"

definition rc_ack_status :: "frame_key \<Rightarrow> receiver \<Rightarrow> ack_status" where
  "rc_ack_status k r =
     \<lparr>ak_stream = k, ak_chwm = (case rc_chwm r of None \<Rightarrow> chwm_none | Some c \<Rightarrow> c), ak_holes = rc_holes r\<rparr>"

definition rc_have_summaries :: "frame_key \<Rightarrow> receiver \<Rightarrow> range_list list" where
  "rc_have_summaries k r =
     (if rc_held r = [] then [\<lparr>rl_stream = k, rl_ranges = []\<rparr>]
      else map (\<lambda>batch. \<lparr>rl_stream = k, rl_ranges = batch\<rparr>) (split_ranges_for_frames (rc_held r)))"

definition rc_backfill_request :: "frame_key \<Rightarrow> receiver \<Rightarrow> range_list list" where
  "rc_backfill_request k r =
     (if rc_holes r = [] then []
      else map (\<lambda>batch. \<lparr>rl_stream = k, rl_ranges = batch\<rparr>) (split_ranges_for_frames (rc_holes r)))"

definition rc_is_complete :: "receiver \<Rightarrow> bool" where
  "rc_is_complete r =
     (case rc_finalSeq r of None \<Rightarrow> False | Some f \<Rightarrow> rs_missing_within (0, f) (rc_held r) = [])"

definition rc_is_settled :: "receiver \<Rightarrow> bool" where
  "rc_is_settled r =
     (case rc_finalSeq r of None \<Rightarrow> False
      | Some f \<Rightarrow> rs_missing_within (0, f) (rs_union (rc_held r) (rc_declared r)) = [])"

subsection \<open>As sets of sequence numbers\<close>

definition has_seq :: "receiver \<Rightarrow> nat \<Rightarrow> bool" where
  "has_seq r v \<longleftrightarrow> jm_has (rc_meta r) v"

definition says_gap :: "receiver \<Rightarrow> nat \<Rightarrow> bool" where
  "says_gap r v \<longleftrightarrow> v \<in> ranges_set (rc_gaps r)"

lemma keys_has: "fst ` set (rc_meta r) = {v. has_seq r v}"
  unfolding has_seq_def jm_has_iff by auto

lemma separated_status [simp]: "separated (rc_held r)" "separated (rc_declared r)" "separated (rc_holes r)"
  by (simp_all add: rc_held_def rc_declared_def rc_holes_def from_values_spec split: option.splits)

lemma covers_held: "ranges_set (rc_held r) = {v. has_seq r v}"
  by (simp add: rc_held_def from_values_spec keys_has)

lemma covers_declared: "ranges_set (rc_declared r) = {v. says_gap r v}"
  by (simp add: rc_declared_def says_gap_def)

lemma set_held_status: "set (held (jm_keys (rc_meta r)) (rc_gaps r)) = {v. has_seq r v \<or> says_gap r v}"
  by (auto simp: set_eq_iff mem_held keys_has says_gap_def mem_ranges_set)

lemma covers_holes:
  "ranges_set (rc_holes r)
    = {v. (case rc_horizon r of None \<Rightarrow> False | Some h \<Rightarrow> v \<le> h) \<and> \<not> has_seq r v \<and> \<not> says_gap r v}"
  by (auto simp: rc_holes_def covers_held covers_declared ranges_set_simps split: option.splits)

lemma horizon_final: "rc_finalSeq r = Some f \<Longrightarrow> \<exists>h. rc_horizon r = Some h \<and> f \<le> h"
  by (auto simp: rc_horizon_def split: option.splits)

lemma horizon_has:
  assumes "has_seq r v" obtains h where "rc_horizon r = Some h" "v \<le> h"
proof -
  have "finite (ranges_set (rc_held r))" by (simp add: set_iter_values [symmetric])
  then have "v \<le> Max (ranges_set (rc_held r))" "ranges_set (rc_held r) \<noteq> {}"
    using assms by (auto simp: covers_held)
  then have "rs_max (rc_held r) = Some (Max (ranges_set (rc_held r)))" by (simp add: rs_max_iff)
  then have "rc_horizon r = Some (case rc_finalSeq r of None \<Rightarrow> Max (ranges_set (rc_held r))
      | Some f \<Rightarrow> max (Max (ranges_set (rc_held r))) f)"
    by (simp add: rc_horizon_def split: option.splits)
  with \<open>v \<le> Max _\<close> show thesis by (intro that) (assumption, auto split: option.splits)
qed

lemma chwm_Some: "rc_chwm r = Some c \<longleftrightarrow> (\<forall>v \<le> c. has_seq r v \<or> says_gap r v) \<and> \<not> has_seq r (Suc c) \<and> \<not> says_gap r (Suc c)"
  by (auto simp: rc_chwm_def contiguous_iff covers_held covers_declared)

text \<open>C22. The engine and the archive compute one truth. For every receiver the high-water mark the core reports
  from its range sets is the one the server's status computes from the chunk rows, and the holes the server
  computes are the core's holes up to the final seq; as long as nothing is held past the final seq the two
  report the same ranges in the same order.\<close>

theorem engine_agrees_with_archive:
  "rc_chwm r = compute_chwm (jm_keys (rc_meta r)) (rc_gaps r)
   \<and> ranges_set (compute_holes (jm_keys (rc_meta r)) (rc_finalSeq r) (rc_gaps r))
       = {v \<in> ranges_set (rc_holes r). \<forall>f. rc_finalSeq r = Some f \<longrightarrow> v \<le> f}
   \<and> ((\<forall>f v. rc_finalSeq r = Some f \<and> has_seq r v \<longrightarrow> v \<le> f) \<longrightarrow>
        rc_holes r = compute_holes (jm_keys (rc_meta r)) (rc_finalSeq r) (rc_gaps r))"
proof (intro conjI impI)
  have "rc_chwm r = Some c \<longleftrightarrow> compute_chwm (jm_keys (rc_meta r)) (rc_gaps r) = Some c" for c
    by (auto simp: chwm_Some compute_chwm_iff set_held_status)
  then show "rc_chwm r = compute_chwm (jm_keys (rc_meta r)) (rc_gaps r)" by (metis option.exhaust)
  have keys: "set (jm_keys (rc_meta r)) = {v. has_seq r v}" by (simp add: keys_has)
  have max: "rs_max (rc_held r) = (if jm_keys (rc_meta r) = [] then None else Some (Max (set (jm_keys (rc_meta r)))))"
    using keys by (auto simp: rs_max_iff covers_held)
  have past: "(case scan_horizon (jm_keys (rc_meta r)) (rc_finalSeq r) of None \<Rightarrow> False | Some h \<Rightarrow> v \<le> h)
      \<longleftrightarrow> (case rc_horizon r of None \<Rightarrow> False | Some h \<Rightarrow> v \<le> h) \<and> (\<forall>f. rc_finalSeq r = Some f \<longrightarrow> v \<le> f)" for v
    by (cases "rc_finalSeq r") (auto simp: rc_horizon_def scan_horizon_def max)
  then show set: "ranges_set (compute_holes (jm_keys (rc_meta r)) (rc_finalSeq r) (rc_gaps r))
      = {v \<in> ranges_set (rc_holes r). \<forall>f. rc_finalSeq r = Some f \<longrightarrow> v \<le> f}"
    using compute_holes_exact [of "jm_keys (rc_meta r)" "rc_finalSeq r" "rc_gaps r"]
    by (auto simp: covers_holes set_held_status)
  assume final: "\<forall>f v. rc_finalSeq r = Some f \<and> has_seq r v \<longrightarrow> v \<le> f"
  have "v \<le> f" if "v \<in> ranges_set (rc_holes r)" "rc_finalSeq r = Some f" for v f
  proof -
    have "Max (set (jm_keys (rc_meta r))) \<le> f" if "jm_keys (rc_meta r) \<noteq> []"
    proof -
      have "set (jm_keys (rc_meta r)) \<noteq> {}" using that by simp
      then have "Max (set (jm_keys (rc_meta r))) \<in> set (jm_keys (rc_meta r))" by (rule Max_in [OF List.finite_set])
      then show ?thesis using final \<open>rc_finalSeq r = Some f\<close> keys by blast
    qed
    with that show ?thesis by (auto simp: covers_holes rc_horizon_def max split: if_splits)
  qed
  then have "ranges_set (rc_holes r) = ranges_set (compute_holes (jm_keys (rc_meta r)) (rc_finalSeq r) (rc_gaps r))"
    unfolding set by blast
  then show "rc_holes r = compute_holes (jm_keys (rc_meta r)) (rc_finalSeq r) (rc_gaps r)"
    using compute_holes_exact [of "jm_keys (rc_meta r)" "rc_finalSeq r" "rc_gaps r"]
    by (intro separated_unique) simp_all
qed

definition sample_receiver :: receiver where
  "sample_receiver = \<lparr>rc_meta = [(0, sample_frame 0), (2, sample_frame 2)], rc_gaps = [], rc_finalSeq = Some 3, rc_flagged = False\<rparr>"

theorem engine_agrees_with_archive_witness:
  "rc_chwm sample_receiver = Some 0 \<and> rc_holes sample_receiver = [(1, 1), (3, 3)]"
proof -
  have "\<forall>f v. rc_finalSeq sample_receiver = Some f \<and> has_seq sample_receiver v \<longrightarrow> v \<le> f"
    by (auto simp: sample_receiver_def has_seq_def)
  with engine_agrees_with_archive [of sample_receiver]
  have "rc_chwm sample_receiver = compute_chwm (jm_keys (rc_meta sample_receiver)) (rc_gaps sample_receiver)"
    "rc_holes sample_receiver
      = compute_holes (jm_keys (rc_meta sample_receiver)) (rc_finalSeq sample_receiver) (rc_gaps sample_receiver)"
    by blast+
  moreover have "compute_chwm [0, 2] [] = Some 0"
    by (auto simp: compute_chwm_iff held_def)
  moreover have "compute_holes [0, 2] (Some 3) [] = [(1, 1), (3, 3)]"
    by (simp add: compute_holes_def held_def hole_step_def numeral_eq_Suc)
  ultimately show ?thesis by (simp add: sample_receiver_def)
qed

end
