(* ===== verification/Delivery.thy ===== *)
theory Delivery
  imports Sender Stream_Receiver
begin

text \<open>
  Both ends of a stream together: the sender of \<open>packages/core/src/sender.rs\<close> and the receiver of
  \<open>receiver.rs\<close>, the frames of one reaching the other. An acknowledgement proves nothing the receiver
  lacks, and one exchange over a connected sink settles a finished take.
\<close>

subsection \<open>Frames at the receiver\<close>

text \<open>The metadata of a chunk as the engine keeps it, \<open>SinkEngine::ingest\<close>; ids are rendered by a parameter.\<close>

definition chunk_meta_of :: "(bytes \<Rightarrow> string) \<Rightarrow> audio_chunk \<Rightarrow> chunk_meta" where
  "chunk_meta_of uuid c =
     \<lparr>cm_takeId = uuid (fk_takeId (ac_stream c)), cm_streamId = uuid (fk_streamId (ac_stream c)), cm_seq = ac_seq c,
      cm_firstSampleIndex = ac_firstSampleIndex c, cm_sampleCount = ac_sampleCount c,
      cm_captureTsUs = int (ac_captureTsUs c), cm_crc32c = ac_crc32c c, cm_payloadLen = length (ac_payload c)\<rparr>"

fun receive_frame :: "(bytes \<Rightarrow> string) \<Rightarrow> frame \<Rightarrow> receiver \<Rightarrow> receiver" where
  "receive_frame uuid (AudioChunk c) r =
     snd (ingest_chunk (ac_crc32c c = unat (crc32c (ac_payload c))) (chunk_meta_of uuid c) r)"
| "receive_frame uuid (GapReport l) r = record_gaps (rl_ranges l) r"
| "receive_frame uuid _ r = r"

text \<open>One exchange: the receiver acknowledges, the sender serves what that leaves owed, and it acknowledges again.\<close>

definition exchange :: "(bytes \<Rightarrow> string) \<Rightarrow> frame_key \<Rightarrow> nat \<Rightarrow> stream_sender \<times> receiver \<Rightarrow> stream_sender \<times> receiver" where
  "exchange uuid k i = (\<lambda>(s, r).
     let s1 = handle_ack i (rc_ack_status k r) s;
         (fs, s2) = pop_all (backlog i s1) i s1;
         r2 = fold (receive_frame uuid) fs r
     in (handle_ack i (rc_ack_status k r2) s2, r2))"

subsection \<open>What an acknowledgement proves\<close>

definition covered :: "receiver \<Rightarrow> nat \<Rightarrow> bool" where
  "covered r v \<longleftrightarrow> has_seq r v \<or> says_gap r v"

lemma separated_after: "separated (h # hs) \<Longrightarrow> v \<in> ranges_set hs \<Longrightarrow> snd h < v"
  by (auto simp: separated_Cons mem_ranges_set)

lemma ack_hole_step_set:
  assumes "separated (snd acc)" "snd h < chwm_none"
  shows "fst (ack_hole_step h acc) = Suc (snd h)" "separated (snd (ack_hole_step h acc))"
    and "ranges_set (snd (ack_hole_step h acc)) = ranges_set (snd acc) \<union> {fst acc..<fst h}"
  using assms by (auto simp: ack_hole_step_def sat_succ_def chwm_none_def rs.wf_add rs.covers_add)

text \<open>Whatever is proven beyond the base lies between the cursor and some hole, in no hole.\<close>

lemma ack_holes_sound:
  assumes "separated (snd acc)" "separated hs" "\<forall>h \<in> set hs. snd h < chwm_none \<and> fst acc \<le> fst h"
    and "v \<in> ranges_set (snd (fold ack_hole_step hs acc))"
  shows "v \<in> ranges_set (snd acc) \<or> (fst acc \<le> v \<and> v \<notin> ranges_set hs \<and> (\<exists>h \<in> set hs. v < fst h))"
  using assms
proof (induction hs arbitrary: acc)
  case (Cons h hs)
  have h: "snd h < chwm_none" "fst h \<le> snd h" "separated hs" "fst acc \<le> fst h" "\<forall>q \<in> set hs. Suc (snd h) < fst q"
    using Cons.prems(2,3) by (auto simp: separated_Cons)
  note st = ack_hole_step_set [OF Cons.prems(1) h(1)]
  have "v \<in> ranges_set (snd (ack_hole_step h acc)) \<or>
      (Suc (snd h) \<le> v \<and> v \<notin> ranges_set hs \<and> (\<exists>p \<in> set hs. v < fst p))"
    using Cons.IH [OF st(2) h(3)] Cons.prems(3,4) h(5) unfolding st(1) by fastforce
  then show ?case
  proof
    assume "v \<in> ranges_set (snd (ack_hole_step h acc))"
    then show ?thesis using st(3) h(2) separated_after [OF Cons.prems(2), of v] by (force simp: ranges_set_Cons)
  qed (use h in \<open>auto simp: ranges_set_Cons\<close>)
qed simp


subsection \<open>An acknowledgement is sound\<close>

definition bounded :: "nat \<Rightarrow> receiver \<Rightarrow> bool" where
  "bounded n r \<longleftrightarrow> n \<le> chwm_none \<and> (\<forall>v. covered r v \<longrightarrow> v < n) \<and> (\<forall>f. rc_finalSeq r = Some f \<longrightarrow> f < n)"

lemma horizon_bounded:
  assumes "bounded n r" "rc_horizon r = Some h"
  shows "h < n"
proof -
  have max: "rs_max (rc_held r) = Some m \<Longrightarrow> m < n" for m
  proof -
    assume m: "rs_max (rc_held r) = Some m"
    then have "m \<in> ranges_set (rc_held r)"
      using Max_in [of "ranges_set (rc_held r)"] by (auto simp: rs_max_iff set_iter_values [symmetric] split: if_splits)
    then show ?thesis using assms(1) by (auto simp: bounded_def covered_def covers_held)
  qed
  show ?thesis using assms max by (auto simp: rc_horizon_def bounded_def max_def split: option.splits)
qed

lemma holes_mem: "v \<in> ranges_set (rc_holes r) \<longleftrightarrow> (\<exists>h. rc_horizon r = Some h \<and> v \<le> h) \<and> \<not> covered r v"
  by (auto simp: covers_holes covered_def split: option.splits)

lemma ack_sound:
  assumes "bounded n r" "v \<in> ranges_set (ack_proven (rc_ack_status k r))"
  shows "covered r v"
proof -
  define a where "a = rc_ack_status k r"
  define acc where "acc = (if ak_chwm a = chwm_none then 0 else sat_succ (ak_chwm a),
    if ak_chwm a \<noteq> chwm_none then rs_insert_range (0, ak_chwm a) [] else [])"
  have proven: "ack_proven a = (if ak_holes a = [] then snd acc else snd (fold ack_hole_step (ak_holes a) acc))"
    by (simp add: ack_proven_def acc_def Let_def)
  have holes: "ak_holes a = rc_holes r" by (simp add: a_def rc_ack_status_def)
  have sep: "separated (snd acc)" by (simp add: acc_def rs.wf_add)
  have base: "covered r w" if "w < fst acc \<or> w \<in> ranges_set (snd acc)" for w
  proof (cases "rc_chwm r")
    case (Some c)
    have cov: "\<forall>w \<le> c. covered r w" using Some by (simp add: chwm_Some covered_def)
    then have "c < chwm_none" using assms(1) by (auto simp: bounded_def)
    then have "fst acc = Suc c" "ranges_set (snd acc) = {..c}"
      using Some by (auto simp: acc_def a_def rc_ack_status_def sat_succ_def chwm_none_def rs.covers_add)
    then show ?thesis using that cov by auto
  qed (use that in \<open>simp add: acc_def a_def rc_ack_status_def\<close>)
  have hole: "snd h < chwm_none \<and> fst acc \<le> fst h \<and> fst h \<le> snd h \<and> (\<forall>w < fst h. w \<notin> ranges_set (rc_holes r) \<longrightarrow> covered r w)"
    if h: "h \<in> set (rc_holes r)" for h
  proof -
    have le: "fst h \<le> snd h" using separated_status(3) [of r] h by (auto simp: separated_def)
    then have ends: "fst h \<in> ranges_set (rc_holes r)" "snd h \<in> ranges_set (rc_holes r)"
      using h by (auto simp: mem_ranges_set)
    then obtain z where z: "rc_horizon r = Some z" "snd h \<le> z" "\<not> covered r (fst h)" unfolding holes_mem by blast
    have "z < n" by (rule horizon_bounded [OF assms(1) z(1)])
    moreover have "fst acc \<le> fst h" using base [of "fst h"] z(3) by (meson leI)
    moreover have "covered r w" if "w < fst h" "w \<notin> ranges_set (rc_holes r)" for w
      using that z le unfolding holes_mem by force
    ultimately show ?thesis using le z(2) assms(1) by (auto simp: bounded_def)
  qed
  have "v \<in> ranges_set (ack_proven a)" using assms(2) by (simp add: a_def)
  then consider "v \<in> ranges_set (snd acc)" | "v \<in> ranges_set (snd (fold ack_hole_step (rc_holes r) acc))"
    unfolding proven holes by (auto split: if_splits)
  then show ?thesis
  proof cases
    case 2
    have "\<forall>h \<in> set (rc_holes r). snd h < chwm_none \<and> fst acc \<le> fst h" using hole by blast
    from ack_holes_sound [OF sep separated_status(3) this 2] show ?thesis using base hole by blast
  qed (use base in blast)
qed

text \<open>Without holes and with everything up to \<open>f\<close> covered, all of it is proven.\<close>

lemma ack_complete:
  assumes "bounded n r" "\<forall>v \<le> f. covered r v" "rc_holes r = []"
  shows "{..f} \<subseteq> ranges_set (ack_proven (rc_ack_status k r))"
proof -
  obtain c where c: "rc_chwm r = Some c" "f \<le> c"
  proof (cases "rc_chwm r")
    case None
    then have "\<not> covered r 0" by (simp add: rc_chwm_def contiguous_None covers_held covers_declared covered_def)
    then show ?thesis using assms(2) by simp
  next
    case (Some c)
    then have "\<not> covered r (Suc c)" by (simp add: chwm_Some covered_def)
    then have "f \<le> c" using assms(2) by (meson not_less_eq_eq)
    then show ?thesis using Some that by blast
  qed
  then have "covered r c" by (simp add: chwm_Some covered_def)
  then have "c < chwm_none" using assms(1) by (auto simp: bounded_def)
  then show ?thesis using c assms(3) by (auto simp: ack_proven_def rc_ack_status_def Let_def rs.covers_add)
qed


subsection \<open>What the receiver has after a batch of frames\<close>

lemma receive_frame_spec:
  "has_seq (receive_frame uuid f r) v \<longleftrightarrow>
     has_seq r v \<or> (\<exists>c. f = AudioChunk c \<and> ac_crc32c c = unat (crc32c (ac_payload c)) \<and> v = ac_seq c)"
  "says_gap (receive_frame uuid f r) v \<longleftrightarrow> says_gap r v \<or> (\<exists>l. f = GapReport l \<and> v \<in> ranges_set (rl_ranges l))"
  "rc_finalSeq (receive_frame uuid f r) = rc_finalSeq r"
  by (cases f; auto simp: ingest_chunk_def chunk_meta_of_def Let_def has_seq_def says_gap_def record_gaps_def jm_get_set
      ranges_set_append split: option.splits)+

lemma receive_frames_spec:
  "has_seq (fold (receive_frame uuid) fs r) v \<longleftrightarrow>
     has_seq r v \<or> (\<exists>c. AudioChunk c \<in> set fs \<and> ac_crc32c c = unat (crc32c (ac_payload c)) \<and> v = ac_seq c)"
  "says_gap (fold (receive_frame uuid) fs r) v \<longleftrightarrow> says_gap r v \<or> (\<exists>l. GapReport l \<in> set fs \<and> v \<in> ranges_set (rl_ranges l))"
  "rc_finalSeq (fold (receive_frame uuid) fs r) = rc_finalSeq r"
proof (induction fs arbitrary: r)
  case (Cons f fs)
  { case 1 show ?case using Cons.IH(1) [of "receive_frame uuid f r"] by (auto simp: receive_frame_spec) }
  { case 2 show ?case using Cons.IH(2) [of "receive_frame uuid f r"] by (auto simp: receive_frame_spec) }
  { case 3 show ?case using Cons.IH(3) [of "receive_frame uuid f r"] by (simp add: receive_frame_spec) }
qed auto

text \<open>Every recorded chunk carries its own number and its own checksum.\<close>

definition genuine :: "audio_chunk list \<Rightarrow> bool" where
  "genuine cs \<longleftrightarrow> (\<forall>j < length cs. ac_seq (cs ! j) = j \<and> ac_crc32c (cs ! j) = unat (crc32c (ac_payload (cs ! j))))"

lemma record_genuine: "genuine (re_chunks (run (record_step k) no_recording es))"
proof (induction es rule: rev_induct)
  case (snoc e es)
  then show ?case
    by (cases e) (auto simp: genuine_def header_chunk_def mk_audio_chunk_def Let_def nth_append less_Suc_eq)
qed (simp add: genuine_def no_recording_def)

lemma gap_reported:
  assumes "v \<in> ranges_set (ri_gaps (ss_ring s))" "v \<in> ranges_set (ak_holes a)"
  shows "\<exists>l. GapReport l \<in> set (tx_control (ack_tx s a tx)) \<and> v \<in> ranges_set (rl_ranges l)"
proof -
  define g where "g = rs_subtract (rs_from_ranges (ak_holes a)) (rs_subtract (rs_from_ranges (ak_holes a)) (ri_gaps (ss_ring s)))"
  have v: "v \<in> ranges_set g" using assms by (simp add: g_def)
  then have "g \<noteq> []" by (auto simp: ranges_set_simps)
  have sub: "separated g" by (simp add: g_def)
  have un: "v \<in> ranges_set (rs_subtract g [])" using v sub by (simp add: ranges_set_simps)
  then have ne: "rs_subtract g [] \<noteq> []" by (auto simp: ranges_set_simps)
  have "concat (split_ranges_for_frames (rs_subtract g [])) = rs_subtract g []"
    unfolding split_ranges_for_frames_def by (rule split_ranges_concat) (simp add: max_ranges_per_frame_def max_frame_bytes_def)
  then obtain b where b: "b \<in> set (split_ranges_for_frames (rs_subtract g []))" "v \<in> ranges_set b"
    using un unfolding mem_ranges_set by (metis UN_E set_concat)
  have "GapReport \<lparr>rl_stream = ss_stream s, rl_ranges = b\<rparr> \<in> set (tx_control (ack_tx s a tx))"
    using \<open>g \<noteq> []\<close> ne b(1) by (auto simp: ack_tx_def Let_def g_def [symmetric] queue_gap_report_def)
  with b(2) show ?thesis by force
qed


subsection \<open>One exchange\<close>

text \<open>After serving what an acknowledgement left owed, the receiver covers the whole take.\<close>

lemma served:
  assumes "sender_inv k t acks s" "genuine (re_chunks t)" "jm_get (ss_sinks s) i = Some tx" "tx_connected tx"
    and "bounded (length (re_chunks t)) r" "rc_finalSeq r = Some (length (re_chunks t) - 1)"
    and "\<forall>v \<in> ranges_set (ri_evictedAcked (ss_ring s)). covered r v"
    and "s1 = handle_ack i (rc_ack_status k r) s" "pop_all (backlog i s1) i s1 = (fs, s2)"
    and "r2 = fold (receive_frame uuid) fs r"
  shows "\<forall>v < length (re_chunks t). covered r2 v" and "bounded (length (re_chunks t)) r2"
    and "\<exists>tx2. s2 = put_sink i tx2 s1"
proof -
  let ?n = "length (re_chunks t)" and ?a = "rc_ack_status k r"
  have core: "sender_core k (re_chunks t) acks s" using assms(1) by (simp add: sender_inv_def)
  have tx: "tx_inv ?n tx" using core assms(3) by (auto simp: sender_core_def sinks_ok_def)
  note a = ack_tx_spec [OF core tx, of ?a]
  have s1: "s1 = try_close (put_sink i (ack_tx s ?a tx) (s\<lparr>ss_ring := mark_acked (ack_proven ?a) (ss_ring s)\<rparr>))"
    using handle_ack_tx [OF assms(3)] assms(8) by simp
  then have at1: "jm_get (ss_sinks s1) i = Some (ack_tx s ?a tx)" by simp
  have ring1: "ring_get (ss_ring s1) j = ring_get (ss_ring s) j" for j by (simp add: s1)
  have conn: "tx_connected (ack_tx s ?a tx)" using a(3) assms(4) by simp
  note pop = pop_all_spec [OF at1 a(1) conn order_refl assms(9)]
  then show "\<exists>tx2. s2 = put_sink i tx2 s1" by blast
  have fs: "set fs = set (tx_control (ack_tx s ?a tx)) \<union> AudioChunk ` owed (ss_ring s1) (ack_tx s ?a tx)" using pop by blast
  have control: "\<exists>l. f = GapReport l \<and> ranges_set (rl_ranges l) \<subseteq> {..<?n}" if "f \<in> set (tx_control (ack_tx s ?a tx))" for f
    using a(1) that by (simp add: tx_inv_def)
  have content: "j < ?n \<and> c = re_chunks t ! j" if "ring_get (ss_ring s) j = Some c" for j c
    using core that by (simp add: sender_core_def)
  have chunks: "\<exists>j < ?n. c = re_chunks t ! j" if "AudioChunk c \<in> set fs" for c
    using that control content unfolding fs owed_def ring1 by blast
  have mono: "covered r v \<Longrightarrow> covered r2 v" for v by (auto simp: covered_def assms(10) receive_frames_spec)
  have new: "v < ?n" if "covered r2 v" for v
  proof -
    from that consider "covered r v" | c where "AudioChunk c \<in> set fs" "v = ac_seq c"
      | l where "GapReport l \<in> set fs" "v \<in> ranges_set (rl_ranges l)"
      unfolding covered_def assms(10) receive_frames_spec by blast
    then show ?thesis
    proof cases
      case 1 then show ?thesis using assms(5) by (simp add: bounded_def)
    next
      case 2 then show ?thesis using chunks [OF 2(1)] assms(2) by (auto simp: genuine_def)
    next
      case 3 then show ?thesis using control unfolding fs by fastforce
    qed
  qed
  have final: "rc_finalSeq r2 = rc_finalSeq r" by (simp add: assms(10) receive_frames_spec)
  show "bounded ?n r2" using assms(5) new by (simp add: bounded_def final)
  have ri: "ring_core ?n (ss_ring s)" using core by (simp add: sender_core_def ring_inv_def)
  show "\<forall>v < ?n. covered r2 v"
  proof (intro allI impI)
    fix v assume v: "v < ?n"
    show "covered r2 v"
    proof (cases "covered r v")
      case True
      then show ?thesis by (rule mono)
    next
      case False
      then have unproven: "v \<notin> ranges_set (ack_proven ?a)" using ack_sound [OF assms(5)] by blast
      from False consider (ring) "v \<in> set (ring_seqs (ss_ring s))" | (gap) "v \<in> ranges_set (ri_gaps (ss_ring s))"
        using \<open>v < ?n\<close> ring_coreD(7) [OF ri] assms(7) by blast
      then show ?thesis
      proof cases
        case ring
        then have inn: "ring_contains (ss_ring s) v" unfolding ring_contains_def jm_has_iff ring_seqs_def by simp
        then obtain c where c: "ring_get (ss_ring s) v = Some c" by (auto simp: ring_contains_def ring_get_def)
        have "v \<notin> ranges_set (ri_gaps (ss_ring s))" using ring_core_disjoint(1) [OF ri ring] by blast
        then have "v \<in> ranges_set (tx_queued (ack_tx s ?a tx))" using a(4) v unproven inn by blast
        then have "v \<in> set (tx_live (ack_tx s ?a tx)) \<union> set (tx_backfill (ack_tx s ?a tx))" using a(1) by (simp add: tx_inv_def)
        then have "c \<in> owed (ss_ring s1) (ack_tx s ?a tx)" using c unproven by (auto simp: owed_def ring1 a(2))
        then have "AudioChunk c \<in> set fs" using fs by blast
        moreover have "ac_seq c = v" "ac_crc32c c = unat (crc32c (ac_payload c))"
          using content [OF c] assms(2) by (auto simp: genuine_def)
        ultimately show ?thesis unfolding covered_def assms(10) receive_frames_spec by blast
      next
        case gap
        obtain h where "rc_horizon r = Some h" "?n - 1 \<le> h" using horizon_final [OF assms(6)] by blast
        then have "v \<in> ranges_set (ak_holes ?a)" using False v by (auto simp: rc_ack_status_def holes_mem)
        from gap_reported [OF gap this] show ?thesis
          unfolding covered_def assms(10) receive_frames_spec fs by blast
      qed
    qed
  qed
qed


lemma ack_tx_proven: "tx_proven (ack_tx s a tx) = ack_proven a"
proof -
  have "tx_proven (fold (requeue ring) vs tx) = tx_proven tx" for ring vs tx
    by (induction vs arbitrary: tx) simp_all
  then show ?thesis by (simp add: ack_tx_def Let_def)
qed

lemma all_covered: "{..n} \<subseteq> ranges_set rs \<Longrightarrow> rs_missing_within (0, n) rs = []"
  using ranges_empty_iff [of "rs_missing_within (0, n) rs"] by (auto simp: )

lemma exchange_ends:
  assumes "sender_inv k t acks s" "genuine (re_chunks t)" "re_over t" "jm_get (ss_sinks s) i = Some tx" "tx_connected tx"
    and "bounded (length (re_chunks t)) r" "rc_finalSeq r = ss_finalSeq s"
    and "\<forall>v \<in> ranges_set (ri_evictedAcked (ss_ring s)). covered r v"
    and "exchange uuid k i (s, r) = (s', r')"
  shows "sink_settled i s' \<and> rc_is_settled r' \<and> ((\<forall>j \<in> set (jm_keys (ss_sinks s)) - {i}. sink_settled j s) \<longrightarrow> ss_state s' = TakeClosed)"
proof -
  let ?n = "length (re_chunks t)"
  define s1 where "s1 = handle_ack i (rc_ack_status k r) s"
  obtain fs s2 where pop: "pop_all (backlog i s1) i s1 = (fs, s2)" by fastforce
  have r': "r' = fold (receive_frame uuid) fs r" and s': "s' = handle_ack i (rc_ack_status k r') s2"
    using assms(9) pop by (auto simp: exchange_def Let_def s1_def)
  have core: "sender_core k (re_chunks t) acks s" and phase: "phase_ok t s" using assms(1) by (simp_all add: sender_inv_def)
  have n: "0 < ?n" "ss_finalSeq s = Some (?n - 1)" using phase assms(3) by (auto simp: phase_ok_def)
  have final: "rc_finalSeq r = Some (?n - 1)" using assms(7) n(2) by simp
  note sv = served [OF assms(1,2,4,5,6) final assms(8) s1_def pop r']
  have core1: "sender_core k (re_chunks t) (acks \<union> ranges_set (ack_proven (rc_ack_status k r))) s1"
    unfolding s1_def by (rule handle_ack_core [OF core])
  have s1: "s1 = try_close (put_sink i (ack_tx s (rc_ack_status k r) tx) (s\<lparr>ss_ring := mark_acked (ack_proven (rc_ack_status k r)) (ss_ring s)\<rparr>))"
    unfolding s1_def by (rule handle_ack_tx [OF assms(4)])
  obtain tx2 where s2: "s2 = put_sink i tx2 s1" using sv(3) by blast
  then have at2: "jm_get (ss_sinks s2) i = Some tx2" by simp
  define x where "x = put_sink i (ack_tx s2 (rc_ack_status k r') tx2) (s2\<lparr>ss_ring := mark_acked (ack_proven (rc_ack_status k r')) (ss_ring s2)\<rparr>)"
  have s'x: "s' = try_close x" unfolding s' x_def by (rule handle_ack_tx [OF at2])
  have final': "rc_finalSeq r' = Some (?n - 1)" using final by (simp add: r' receive_frames_spec)
  have holes: "rc_holes r' = []"
  proof -
    have "ranges_set (rc_holes r') = {}" using sv(1) horizon_bounded [OF sv(2)] by (auto simp: set_eq_iff holes_mem)
    then show ?thesis using ranges_empty_iff by simp
  qed
  have cov: "\<forall>v \<le> ?n - 1. covered r' v" 
  proof (intro allI impI)
    fix v assume "v \<le> ?n - 1"
    then have "v < ?n" using n(1) by linarith
    then show "covered r' v" using sv(1) by blast
  qed
  have "tx_proven (ack_tx s2 (rc_ack_status k r') tx2) = ack_proven (rc_ack_status k r')"
    by (rule ack_tx_proven)
  then have proven: "{..?n - 1} \<subseteq> ranges_set (tx_proven (ack_tx s2 (rc_ack_status k r') tx2))"
    using ack_complete [OF sv(2) cov holes] by simp
  have fx: "ss_finalSeq x = Some (?n - 1)" by (simp add: x_def s2 s1 n(2))
  define tx3 where "tx3 = ack_tx s2 (rc_ack_status k r') tx2"
  have atx: "jm_get (ss_sinks x) i = Some tx3" by (simp add: x_def tx3_def)
  have "separated (tx_proven tx3)" by (simp add: tx3_def ack_tx_proven separated_ack_proven)
  then have "{..?n - 1} \<subseteq> ranges_set (rs_union (tx_proven tx3) (ri_gaps (ss_ring x)))"
    using proven by (auto simp: tx3_def)
  then have settled: "sink_settled i x" by (simp add: sink_settled_def fx atx all_covered)
  have "{..?n - 1} \<subseteq> ranges_set (rs_union (rc_held r') (rc_declared r'))"
    using cov by (auto simp: covers_held covers_declared covered_def)
  then have "rc_is_settled r'" by (simp add: rc_is_settled_def final' all_covered)
  moreover have "sink_settled i s'" using settled unfolding s'x sink_settled_def try_close_simps .
  moreover have "ss_state s' = TakeClosed" if others: "\<forall>j \<in> set (jm_keys (ss_sinks s)) - {i}. sink_settled j s"
  proof -
    have keys: "set (jm_keys (ss_sinks x)) = set (jm_keys (ss_sinks s))"
      using assms(4) unfolding x_def s2 s1 put_sink_def try_close_simps
      by (auto simp: dom_update dest: jm_get_Some_keys [unfolded keys_of_def])
    have "sink_settled j x" if "j \<in> set (jm_keys (ss_sinks x))" for j
    proof (cases "j = i")
      case False
      with others that have "sink_settled j s" unfolding keys by blast
      moreover have "jm_get (ss_sinks x) j = jm_get (ss_sinks s) j" using False by (simp add: x_def s2 s1)
      moreover have "ri_gaps (ss_ring x) = ri_gaps (ss_ring s)" by (simp add: x_def s2 s1 mark_acked_def)
      ultimately show ?thesis using n(2)
        by (cases "jm_get (ss_sinks s) j") (simp_all add: sink_settled_def fx)
    qed (use settled in simp)
    moreover have "ss_sinks x \<noteq> []" using atx by auto
    ultimately have "drained_all x" using fx by (simp add: drained_all_def list_all_iff)
    moreover have "ss_state x = TakeDraining \<or> ss_state x = TakeClosed"
      using phase assms(3) by (auto simp: x_def s2 s1 try_close_def phase_ok_def)
    ultimately show ?thesis by (auto simp: s'x try_close_def)
  qed
  ultimately show ?thesis by blast
qed


text \<open>C8. One exchange settles a finished take. Take any run of a sender that has finished recording, with a sink connected
  to it, and any receiver at that sink that knows the final seq, claims nothing the take does not have and
  covers what was put out on the strength of acknowledgements. When the receiver acknowledges, gets everything
  the sender then owes it and acknowledges again, it covers the whole take and the sender knows it; and the
  take is closed if every other sink had settled before, so in particular if this was the only one. The take
  has fewer chunks than the largest seq an acknowledgement can name.\<close>

theorem exchange_settles:
  fixes k es budget
  defines "s \<equiv> run sender_step (new_sender k budget) es" and "t \<equiv> run (record_step k) no_recording es"
  assumes "re_over t" "length (re_chunks t) \<le> chwm_none" "jm_get (ss_sinks s) i = Some tx" "tx_connected tx"
    and "rc_finalSeq r = ss_finalSeq s" "\<forall>v. has_seq r v \<or> says_gap r v \<longrightarrow> v < ss_nextSeq s"
    and "\<forall>v \<in> ranges_set (ri_evictedAcked (ss_ring s)). has_seq r v \<or> says_gap r v"
    and "exchange uuid k i (s, r) = (s', r')"
  shows "sink_settled i s' \<and> rc_is_settled r' \<and> ((\<forall>j \<in> set (jm_keys (ss_sinks s)) - {i}. sink_settled j s) \<longrightarrow> ss_state s' = TakeClosed)"
proof -
  have inv: "sender_inv k t (acknowledged k es) s" unfolding s_def t_def by (rule sender_run_inv)
  then have n: "ss_nextSeq s = length (re_chunks t)" "ss_finalSeq s = Some (length (re_chunks t) - 1)" "re_chunks t \<noteq> []"
    using assms(3) by (auto simp: sender_inv_def sender_core_def phase_ok_def)
  then have "bounded (length (re_chunks t)) r" using assms(4,7,8) by (auto simp: bounded_def covered_def)
  moreover have "genuine (re_chunks t)" unfolding t_def by (rule record_genuine)
  ultimately show ?thesis using exchange_ends [OF inv _ assms(3,5,6) _ assms(7) _ assms(10)] assms(9) by (simp add: covered_def)
qed

text \<open>A take of a header and one chunk, a sink that has nothing yet: one exchange closes the take.\<close>

definition sample_delivery :: "sender_event list" where
  "sample_delivery = [Arm sample_header, PushAudio 480 0 [1], Finish, AddSink 7, SetConnected 7 True]"

definition sample_budget :: nat where
  "sample_budget = 137 + length (encode_stream_header sample_header)"

definition sample_sink :: receiver where
  "sample_sink = new_receiver\<lparr>rc_finalSeq := Some 1\<rparr>"

theorem exchange_settles_witness:
  "\<exists>s' r'. exchange (\<lambda>_. []) \<lparr>fk_takeId = [], fk_streamId = []\<rparr> 7
      (run sender_step (new_sender \<lparr>fk_takeId = [], fk_streamId = []\<rparr> sample_budget) sample_delivery, sample_sink) = (s', r')
    \<and> rc_is_settled r' \<and> ss_state s' = TakeClosed"
proof -
  define k where "k = \<lparr>fk_takeId = [], fk_streamId = []\<rparr>"
  define s where "s = run sender_step (new_sender k sample_budget) sample_delivery"
  obtain s' r' where ex: "exchange (\<lambda>_. []) k 7 (s, sample_sink) = (s', r')" by fastforce
  note eval = sample_delivery_def sample_budget_def new_sender_def new_ring_def sender_arm_def push_audio_def sender_finish_def
    produce_def ring_insert_def evict_to_budget_def ring_seqs_def ordered_insert_def chunk_cost_def
    header_chunk_def mk_audio_chunk_def broadcast_new_gaps_def take_pending_gaps_def for_sinks_def try_close_def
    add_sink_def set_connected_def put_sink_def new_sink_tx_def queue_backfill_def drained_all_def Let_def
  have keys: "jm_keys (ss_sinks s) = [7]" by (simp add: s_def eval)
  have state: "ss_finalSeq s = Some 1" "ss_nextSeq s = 2" "ri_evictedAcked (ss_ring s) = []"
    by (simp_all add: s_def eval)
  have "\<exists>tx. jm_get (ss_sinks s) 7 = Some tx \<and> tx_connected tx" by (simp add: s_def eval)
  then obtain tx where tx: "jm_get (ss_sinks s) 7 = Some tx" "tx_connected tx" by blast
  have over: "re_over (run (record_step k) no_recording sample_delivery)"
    and len: "length (re_chunks (run (record_step k) no_recording sample_delivery)) \<le> chwm_none"
    by (simp_all add: sample_delivery_def no_recording_def chwm_none_def)
  have final: "rc_finalSeq sample_sink = ss_finalSeq s" by (simp add: sample_sink_def state)
  have none: "\<not> has_seq sample_sink v" "\<not> says_gap sample_sink v" for v
    by (simp_all add: sample_sink_def new_receiver_def has_seq_def says_gap_def)
  have below: "\<forall>v. has_seq sample_sink v \<or> says_gap sample_sink v \<longrightarrow> v < ss_nextSeq s" using none by blast
  have evicted: "\<forall>v \<in> ranges_set (ri_evictedAcked (ss_ring s)). has_seq sample_sink v \<or> says_gap sample_sink v"
    by (simp add: state(3))
  have "rc_is_settled r' \<and> ss_state s' = TakeClosed"
    using exchange_settles [where k = k and es = sample_delivery and budget = sample_budget, folded s_def, OF over len tx final below evicted ex]
    by (simp add: keys)
  then show ?thesis using ex unfolding k_def s_def by blast
qed

end
