(* ===== verification/Take_Lists.thy ===== *)
theory Take_Lists
  imports Collab_Doc
begin

text \<open>
  The song markers and comments of a take: \<open>apps/web/src/routes/desk/markers.ts\<close> and \<open>comments.ts\<close>, their
  local shadow in the browser's storage included. Both are elements of the shared document's lists, so a
  marker is a \<open>list_item\<close> with its name and position as payload, a comment one with its note. The order of
  ids, \<open>localeCompare\<close>, and \<open>crypto.randomUUID\<close> are parameters.
\<close>

subsection \<open>Markers\<close>

record marker_body =
  mk_name :: string
  mk_atSec :: real

type_synonym marker = "marker_body list_item"

record song =
  sg_id :: string
  sg_index :: nat
  sg_name :: string
  sg_startSec :: real
  sg_endSec :: "real option"

definition min_marker_gap_sec :: real where "min_marker_gap_sec = 1 / 4"

abbreviation marker_at :: "marker \<Rightarrow> real" where
  "marker_at m \<equiv> mk_atSec (li_payload m)"

definition marker_order :: "string comparator \<Rightarrow> marker comparator" where
  "marker_order lc = cmp_or (by_key marker_at) (\<lambda>a b. lc (li_id a) (li_id b))"

definition sort_markers :: "string comparator \<Rightarrow> marker list \<Rightarrow> marker list" where
  "sort_markers lc markers = js_sort (marker_order lc) markers"

text \<open>\<open>uid\<close> is the fresh random id; an absent or blank name becomes \<open>Song N\<close>.\<close>

definition new_marker :: "string \<Rightarrow> nat \<Rightarrow> real \<Rightarrow> string option \<Rightarrow> marker" where
  "new_marker uid n at' name =
     (let typed = (case name of None \<Rightarrow> [] | Some s \<Rightarrow> js_trim s)
      in \<lparr>li_id = uid, li_payload = \<lparr>mk_name = (if typed = [] then ''Song '' @ nat_digits (n + 1) else typed), mk_atSec = at'\<rparr>\<rparr>)"

definition add_marker ::
    "string comparator \<Rightarrow> string \<Rightarrow> marker list \<Rightarrow> real \<Rightarrow> string option \<Rightarrow> marker list \<times> marker option" where
  "add_marker lc uid markers atSec name =
     (if list_ex (\<lambda>m. \<bar>marker_at m - max 0 atSec\<bar> < min_marker_gap_sec) markers then (sort_markers lc markers, None)
      else let added = new_marker uid (length markers) (max 0 atSec) name
           in (sort_markers lc (markers @ [added]), Some added))"

definition rename_marker :: "marker list \<Rightarrow> string \<Rightarrow> string \<Rightarrow> marker list" where
  "rename_marker markers uid name =
     (let new_name = take 64 (js_trim name)
      in map (\<lambda>m. if li_id m = uid \<and> new_name \<noteq> [] then m\<lparr>li_payload := (li_payload m)\<lparr>mk_name := new_name\<rparr>\<rparr> else m) markers)"

definition remove_marker :: "marker list \<Rightarrow> string \<Rightarrow> marker list" where
  "remove_marker markers uid = filter (\<lambda>m. li_id m \<noteq> uid) markers"

definition songs_of :: "string comparator \<Rightarrow> marker list \<Rightarrow> song list" where
  "songs_of lc markers =
     (let sorted = sort_markers lc markers
      in map (\<lambda>(i, m). \<lparr>sg_id = li_id m, sg_index = i + 1, sg_name = mk_name (li_payload m), sg_startSec = marker_at m,
                        sg_endSec = (if i + 1 < length sorted then Some (marker_at (sorted ! (i + 1))) else None)\<rparr>)
           (List.enumerate 0 sorted))"

text \<open>
  The stem of export names. \<open>tame\<close> is the class the first replacement keeps: Unicode letters, numbers and some
  punctuation, white space among them.
\<close>

fun collapse_spaces :: "bool \<Rightarrow> string \<Rightarrow> string" where
  "collapse_spaces in_run [] = []"
| "collapse_spaces in_run (c # cs) =
     (if \<not> js_space c then c # collapse_spaces False cs
      else if in_run then collapse_spaces True cs
      else CHR '' '' # collapse_spaces True cs)"

definition trim_edge_dots :: "string \<Rightarrow> string" where
  "trim_edge_dots s =
     (let edge = (\<lambda>c. js_space c \<or> c = CHR ''.'') in rev (dropWhile edge (rev (dropWhile edge s))))"

definition pad_start2 :: "string \<Rightarrow> string" where
  "pad_start2 s = (if length s < 2 then CHR ''0'' # s else s)"

definition song_slug :: "(char \<Rightarrow> bool) \<Rightarrow> nat \<Rightarrow> string \<Rightarrow> string" where
  "song_slug tame index name =
     (let safe = js_trim (take 64 (trim_edge_dots (collapse_spaces False (filter (\<lambda>c. tame c \<or> js_space c) name))))
      in pad_start2 (nat_digits index) @ '' '' @ (if safe = [] then ''song'' else safe))"

definition song_file_name :: "(char \<Rightarrow> bool) \<Rightarrow> nat \<Rightarrow> string \<Rightarrow> string" where
  "song_file_name tame index name = song_slug tame index name @ ''.wav''"

definition markers_key :: "string \<Rightarrow> string \<Rightarrow> string" where
  "markers_key sessionId takeId = ''antiphon:markers:'' @ sessionId @ '':'' @ takeId"

definition marker_json :: "marker \<Rightarrow> json" where
  "marker_json m = JObj [(''id'', JStr (li_id m)), (''name'', JStr (mk_name (li_payload m))), (''atSec'', JNum (marker_at m))]"

text \<open>The type guard of the loader; every JSON number is finite.\<close>

definition valid_marker :: "json \<Rightarrow> marker option" where
  "valid_marker j =
     (case (json_str (json_field j ''id''), json_str (json_field j ''name''), json_num (json_field j ''atSec'')) of
        (Some i, Some n, Some a) \<Rightarrow>
          if i \<noteq> [] \<and> 0 \<le> a then Some \<lparr>li_id = i, li_payload = \<lparr>mk_name = n, mk_atSec = a\<rparr>\<rparr> else None
      | _ \<Rightarrow> None)"

definition load_markers :: "string comparator \<Rightarrow> ('t \<Rightarrow> json option) \<Rightarrow> string \<Rightarrow> string \<Rightarrow> 't kv_store option \<Rightarrow> marker list" where
  "load_markers lc parse sessionId takeId store =
     (case Option.bind (kv_get store (markers_key sessionId takeId)) parse of
        None \<Rightarrow> []
      | Some doc \<Rightarrow>
          (case json_arr (json_field doc ''markers'') of
             Some entries \<Rightarrow>
               if json_num (json_field doc ''v'') = Some 1
               then sort_markers lc (dedupe_by_id (List.map_filter valid_marker entries)) else []
           | None \<Rightarrow> []))"

definition save_markers ::
    "string comparator \<Rightarrow> (json \<Rightarrow> 't) \<Rightarrow> string \<Rightarrow> string \<Rightarrow> marker list \<Rightarrow> 't kv_store option \<Rightarrow> 't kv_store option" where
  "save_markers lc stringify sessionId takeId markers store =
     kv_set store (markers_key sessionId takeId)
       (stringify (JObj [(''v'', JNum 1), (''markers'', JArr (map marker_json (sort_markers lc markers)))]))"

subsection \<open>Comments\<close>

record comment_body =
  cb_atSec :: real
  cb_streamId :: "string option"
  cb_text :: string
  cb_author :: string
  cb_createdAtMs :: real
  cb_resolvedAtMs :: "real option"

type_synonym take_comment = "comment_body list_item"

definition max_comment_text :: nat where "max_comment_text = 500"
definition max_comment_author :: nat where "max_comment_author = 40"
definition default_comment_author :: string where "default_comment_author = ''Desk''"

abbreviation comment_at :: "take_comment \<Rightarrow> real" where
  "comment_at c \<equiv> cb_atSec (li_payload c)"

definition comment_order :: "string comparator \<Rightarrow> take_comment comparator" where
  "comment_order lc = cmp_or (by_key comment_at)
     (cmp_or (by_key (\<lambda>c. cb_createdAtMs (li_payload c))) (\<lambda>a b. lc (li_id a) (li_id b)))"

definition sort_comments :: "string comparator \<Rightarrow> take_comment list \<Rightarrow> take_comment list" where
  "sort_comments lc comments = js_sort (comment_order lc) comments"

record new_comment =
  nc_atSec :: real
  nc_text :: string
  nc_author :: string
  nc_streamId :: "string option"

definition author_label :: "string \<Rightarrow> string" where
  "author_label author =
     (let a = take max_comment_author (js_trim author) in if a = [] then default_comment_author else a)"

definition add_comment ::
    "string comparator \<Rightarrow> string \<Rightarrow> take_comment list \<Rightarrow> new_comment \<Rightarrow> real \<Rightarrow> take_comment list \<times> take_comment option" where
  "add_comment lc uid comments input nowMs =
     (let text = take max_comment_text (js_trim (nc_text input))
      in if text = [] then (sort_comments lc comments, None)
         else let added = \<lparr>li_id = uid, li_payload = \<lparr>cb_atSec = max 0 (nc_atSec input), cb_streamId = nc_streamId input,
                 cb_text = text, cb_author = author_label (nc_author input), cb_createdAtMs = nowMs, cb_resolvedAtMs = None\<rparr>\<rparr>
              in (sort_comments lc (comments @ [added]), Some added))"

definition edit_comment_text :: "take_comment list \<Rightarrow> string \<Rightarrow> string \<Rightarrow> take_comment list" where
  "edit_comment_text comments uid text =
     (let new_text = take max_comment_text (js_trim text)
      in map (\<lambda>c. if li_id c = uid \<and> new_text \<noteq> [] then c\<lparr>li_payload := (li_payload c)\<lparr>cb_text := new_text\<rparr>\<rparr> else c) comments)"

definition resolve_comment :: "take_comment list \<Rightarrow> string \<Rightarrow> real \<Rightarrow> take_comment list" where
  "resolve_comment comments uid nowMs =
     map (\<lambda>c. if li_id c = uid \<and> cb_resolvedAtMs (li_payload c) = None
              then c\<lparr>li_payload := (li_payload c)\<lparr>cb_resolvedAtMs := Some nowMs\<rparr>\<rparr> else c) comments"

definition unresolve_comment :: "take_comment list \<Rightarrow> string \<Rightarrow> take_comment list" where
  "unresolve_comment comments uid =
     map (\<lambda>c. if li_id c = uid then c\<lparr>li_payload := (li_payload c)\<lparr>cb_resolvedAtMs := None\<rparr>\<rparr> else c) comments"

definition remove_comment :: "take_comment list \<Rightarrow> string \<Rightarrow> take_comment list" where
  "remove_comment comments uid = filter (\<lambda>c. li_id c \<noteq> uid) comments"

definition open_comment_count :: "take_comment list \<Rightarrow> nat" where
  "open_comment_count comments = length (filter (\<lambda>c. cb_resolvedAtMs (li_payload c) = None) comments)"

definition comments_key :: "string \<Rightarrow> string \<Rightarrow> string" where
  "comments_key sessionId takeId = ''antiphon:comments:'' @ sessionId @ '':'' @ takeId"

definition opt_json :: "('a \<Rightarrow> json) \<Rightarrow> 'a option \<Rightarrow> json" where
  "opt_json f x = (case x of None \<Rightarrow> JNull | Some v \<Rightarrow> f v)"

definition comment_json :: "take_comment \<Rightarrow> json" where
  "comment_json c =
     (let b = li_payload c
      in JObj [(''id'', JStr (li_id c)), (''atSec'', JNum (cb_atSec b)), (''streamId'', opt_json JStr (cb_streamId b)),
               (''text'', JStr (cb_text b)), (''author'', JStr (cb_author b)), (''createdAtMs'', JNum (cb_createdAtMs b)),
               (''resolvedAtMs'', opt_json JNum (cb_resolvedAtMs b))])"

text \<open>A nullable field: \<open>null\<close> or a value of its type; anything else, an absent field too, refuses the entry.\<close>

definition nullable :: "(json option \<Rightarrow> 'a option) \<Rightarrow> json option \<Rightarrow> 'a option option" where
  "nullable f x = (if x = Some JNull then Some None else map_option Some (f x))"

definition valid_comment :: "json \<Rightarrow> take_comment option" where
  "valid_comment j =
     (case (json_str (json_field j ''id''), json_num (json_field j ''atSec''), nullable json_str (json_field j ''streamId''),
            json_str (json_field j ''text''), json_str (json_field j ''author''), json_num (json_field j ''createdAtMs''),
            nullable json_num (json_field j ''resolvedAtMs'')) of
        (Some i, Some a, Some sid, Some t, Some au, Some cr, Some re) \<Rightarrow>
          if i \<noteq> [] \<and> 0 \<le> a \<and> t \<noteq> []
          then Some \<lparr>li_id = i, li_payload = \<lparr>cb_atSec = a, cb_streamId = sid, cb_text = t, cb_author = au,
                 cb_createdAtMs = cr, cb_resolvedAtMs = re\<rparr>\<rparr>
          else None
      | _ \<Rightarrow> None)"

definition load_comments :: "string comparator \<Rightarrow> ('t \<Rightarrow> json option) \<Rightarrow> string \<Rightarrow> string \<Rightarrow> 't kv_store option \<Rightarrow> take_comment list" where
  "load_comments lc parse sessionId takeId store =
     (case Option.bind (kv_get store (comments_key sessionId takeId)) parse of
        None \<Rightarrow> []
      | Some doc \<Rightarrow>
          (case json_arr (json_field doc ''comments'') of
             Some entries \<Rightarrow>
               if json_num (json_field doc ''v'') = Some 1
               then sort_comments lc (dedupe_by_id (List.map_filter valid_comment entries)) else []
           | None \<Rightarrow> []))"

definition save_comments ::
    "string comparator \<Rightarrow> (json \<Rightarrow> 't) \<Rightarrow> string \<Rightarrow> string \<Rightarrow> take_comment list \<Rightarrow> 't kv_store option \<Rightarrow> 't kv_store option" where
  "save_comments lc stringify sessionId takeId comments store =
     kv_set store (comments_key sessionId takeId)
       (stringify (JObj [(''v'', JNum 1), (''comments'', JArr (map comment_json (sort_comments lc comments)))]))"

definition author_pref_key :: string where "author_pref_key = ''antiphon:comment-author''"

definition load_author_pref :: "string kv_store option \<Rightarrow> string" where
  "load_author_pref store =
     (case kv_get store author_pref_key of None \<Rightarrow> default_comment_author | Some raw \<Rightarrow> author_label raw)"

definition save_author_pref :: "string \<Rightarrow> string kv_store option \<Rightarrow> string kv_store option" where
  "save_author_pref author store = kv_set store author_pref_key (take max_comment_author (js_trim author))"

subsection \<open>Songs tile the take\<close>

lemma marker_order_comparator: "js_comparator lc \<Longrightarrow> js_comparator (marker_order lc)"
  unfolding marker_order_def
  by (intro js_comparator_cmp_or_by_key) (auto simp: js_comparator_def)

lemma sorted_markers:
  assumes "js_comparator lc"
  shows "sorted (map marker_at (sort_markers lc ms))"
proof -
  have "sorted_wrt (\<lambda>a b. marker_order lc a b \<le> 0) (sort_markers lc ms)"
    unfolding sort_markers_def by (rule js_comparator.ordered_js_sort [OF marker_order_comparator [OF assms]])
  then show ?thesis
    unfolding sorted_map by (rule sorted_wrt_mono_rel [rotated]) (auto simp: marker_order_def cmp_or_by_key_le)
qed

text \<open>The spans of a sorted list, one after the other.\<close>

fun tiles :: "marker list \<Rightarrow> (real \<times> real option) list" where
  "tiles [] = []"
| "tiles [m] = [(marker_at m, None)]"
| "tiles (m # n # ms) = (marker_at m, Some (marker_at n)) # tiles (n # ms)"

definition in_tile :: "real \<Rightarrow> real \<times> real option \<Rightarrow> bool" where
  "in_tile t p \<longleftrightarrow> fst p \<le> t \<and> (case snd p of None \<Rightarrow> True | Some e \<Rightarrow> t < e)"

lemma tiles_nth:
  "tiles ms = map (\<lambda>i. (marker_at (ms ! i), if Suc i < length ms then Some (marker_at (ms ! Suc i)) else None)) [0..<length ms]"
proof (induction ms rule: tiles.induct)
  case (3 m n ms)
  have "[0..<length (m # n # ms)] = 0 # map Suc [0..<length (n # ms)]" unfolding map_Suc_upt by (simp add: upt_rec)
  then show ?case using 3 by (simp only: list.map tiles.simps map_map comp_def nth_Cons_0 nth_Cons_Suc list.size) simp
qed auto

lemma enumerate_nth: "List.enumerate 0 xs = map (\<lambda>i. (i, xs ! i)) [0..<length xs]"
  by (rule nth_equalityI) (simp_all add: nth_enumerate_eq)

lemma songs_tiles: "map (\<lambda>s. (sg_startSec s, sg_endSec s)) (songs_of lc ms) = tiles (sort_markers lc ms)"
  by (simp add: songs_of_def Let_def tiles_nth enumerate_nth comp_def)

lemma one_tile:
  "sorted (map marker_at ms) \<Longrightarrow> length (filter (in_tile t) (tiles ms)) = (if \<exists>m \<in> set ms. marker_at m \<le> t then 1 else 0)"
proof (induction ms rule: tiles.induct)
  case (3 m n ms)
  then show ?case by (auto simp: in_tile_def)
qed (auto simp: in_tile_def)

text \<open>Markers keep their distance; the relation is symmetric, so sorting does not matter.\<close>

definition spaced :: "marker list \<Rightarrow> bool" where
  "spaced ms \<longleftrightarrow> sorted_wrt (\<lambda>a b. min_marker_gap_sec \<le> \<bar>marker_at a - marker_at b\<bar>) ms"

lemma sorted_wrt_sort_insert:
  assumes "\<And>a b. R a b \<Longrightarrow> R b a"
  shows "sorted_wrt R (sort_insert cmp x xs) \<longleftrightarrow> (\<forall>y \<in> set xs. R x y) \<and> sorted_wrt R xs"
  using assms by (induction xs) auto

lemma sorted_wrt_js_sort:
  assumes "\<And>a b. R a b \<Longrightarrow> R b a"
  shows "sorted_wrt R (js_sort cmp xs) \<longleftrightarrow> sorted_wrt R xs"
  using assms by (induction xs) (auto simp: sorted_wrt_sort_insert)

lemma spaced_sort: "spaced (sort_markers lc ms) \<longleftrightarrow> spaced ms"
  unfolding spaced_def sort_markers_def by (rule sorted_wrt_js_sort) simp

lemma marker_at_new [simp]: "marker_at (new_marker uid n a name) = a"
  by (simp add: new_marker_def Let_def)

lemma add_marker_spec:
  assumes "add_marker lc uid ms at' name = (ms', added)"
  shows "ms' = sort_markers lc (ms @ (case added of None \<Rightarrow> [] | Some m \<Rightarrow> [m]))"
    and "added = Some m \<longrightarrow> marker_at m = max 0 at' \<and> (\<forall>n \<in> set ms. min_marker_gap_sec \<le> \<bar>marker_at n - marker_at m\<bar>)"
proof -
  have "\<not> list_ex (\<lambda>m. \<bar>marker_at m - max 0 at'\<bar> < min_marker_gap_sec) ms
      \<longleftrightarrow> (\<forall>n \<in> set ms. min_marker_gap_sec \<le> \<bar>marker_at n - max 0 at'\<bar>)"
    unfolding list_ex_iff not_less [symmetric] by blast
  then show "ms' = sort_markers lc (ms @ (case added of None \<Rightarrow> [] | Some m \<Rightarrow> [m]))"
    and "added = Some m \<longrightarrow> marker_at m = max 0 at' \<and> (\<forall>n \<in> set ms. min_marker_gap_sec \<le> \<bar>marker_at n - marker_at m\<bar>)"
    using assms marker_at_new [of uid "length ms" "max 0 at'" name]
    by (auto simp only: add_marker_def Let_def prod.inject option.inject option.simps append_Nil2 split: if_splits)
qed

lemma add_marker_keeps:
  assumes "add_marker lc uid ms at' name = (ms', added)"
  shows "spaced ms \<Longrightarrow> spaced ms'" and "(\<forall>m \<in> set ms. 0 \<le> marker_at m) \<Longrightarrow> \<forall>m \<in> set ms'. 0 \<le> marker_at m"
    and "mset ms' = mset ms + (case added of None \<Rightarrow> {#} | Some m \<Rightarrow> {#m#})"
proof -
  have eq: "ms' = sort_markers lc (ms @ (case added of None \<Rightarrow> [] | Some m \<Rightarrow> [m]))"
    and new: "added = Some m \<Longrightarrow> marker_at m = max 0 at' \<and> (\<forall>n \<in> set ms. min_marker_gap_sec \<le> \<bar>marker_at n - marker_at m\<bar>)" for m
    using add_marker_spec [OF assms] by blast+
  show "spaced ms \<Longrightarrow> spaced ms'"
  proof -
    assume sp: "spaced ms"
    have "\<forall>n \<in> set ms. min_marker_gap_sec \<le> \<bar>marker_at n - marker_at m\<bar>" if "added = Some m" for m using new that by blast
    then show "spaced ms'"
      using sp unfolding eq spaced_sort unfolding spaced_def by (cases added) (auto simp only: sorted_wrt_append
        option.simps append_Nil2 sorted_wrt.simps list.set empty_iff insert_iff simp_thms)
  qed
  show "(\<forall>m \<in> set ms. 0 \<le> marker_at m) \<Longrightarrow> \<forall>m \<in> set ms'. 0 \<le> marker_at m"
    using new by (cases added) (auto simp: eq sort_markers_def)
  show "mset ms' = mset ms + (case added of None \<Rightarrow> {#} | Some m \<Rightarrow> {#m#})"
    by (cases added) (simp_all add: eq sort_markers_def)
qed

lemma remove_marker_keeps: "spaced ms \<Longrightarrow> spaced (remove_marker ms uid)"
  unfolding spaced_def remove_marker_def by (rule sorted_wrt_filter)

lemma rename_marker_keeps: "spaced (rename_marker ms uid name) \<longleftrightarrow> spaced ms"
proof -
  have "map marker_at (rename_marker ms uid name) = map marker_at ms"
    by (simp add: rename_marker_def Let_def)
  moreover have "spaced xs \<longleftrightarrow> sorted_wrt (\<lambda>x y. min_marker_gap_sec \<le> \<bar>x - y\<bar>) (map marker_at xs)" for xs
    by (simp add: spaced_def sorted_wrt_map)
  ultimately show ?thesis by simp
qed

datatype marker_edit = AddMarker string real "string option" | RenameMarker string string | RemoveMarker string

fun marker_step :: "string comparator \<Rightarrow> marker list \<Rightarrow> marker_edit \<Rightarrow> marker list" where
  "marker_step lc ms (AddMarker uid at' name) = fst (add_marker lc uid ms at' name)"
| "marker_step lc ms (RenameMarker uid name) = rename_marker ms uid name"
| "marker_step lc ms (RemoveMarker uid) = remove_marker ms uid"

lemma marker_step_keeps: "spaced ms \<Longrightarrow> spaced (marker_step lc ms e)"
  by (cases e) (simp_all add: add_marker_keeps(1) [OF surjective_pairing] remove_marker_keeps rename_marker_keeps)

text \<open>However markers were added, renamed and removed on a take, any two stay a quarter of a second apart; and the
  songs derived from them tile the take: every instant from the first marker on belongs to exactly one song,
  every instant before it to none.\<close>

theorem songs_tile_take:
  assumes "js_comparator lc"
  shows "spaced (run (marker_step lc) [] es)
    \<and> (let songs = songs_of lc (run (marker_step lc) [] es)
       in length (filter (\<lambda>s. in_tile t (sg_startSec s, sg_endSec s)) songs)
            = (if \<exists>m \<in> set (run (marker_step lc) [] es). marker_at m \<le> t then 1 else 0)
        \<and> map sg_index songs = [1..<length songs + 1])"
proof -
  define ms where "ms = run (marker_step lc) [] es"
  have "spaced ms"
    unfolding ms_def by (induction es rule: rev_induct) (simp_all add: marker_step_keeps spaced_def [of "[]"])
  moreover have "length (filter (\<lambda>s. in_tile t (sg_startSec s, sg_endSec s)) (songs_of lc ms))
      = length (filter (in_tile t) (tiles (sort_markers lc ms)))"
    by (simp add: songs_tiles [symmetric] filter_map comp_def)
  moreover have "set (sort_markers lc ms) = set ms" by (simp add: sort_markers_def)
  moreover have "map sg_index (songs_of lc ms) = [1..<length (songs_of lc ms) + 1]"
    by (simp add: songs_of_def Let_def enumerate_nth comp_def map_Suc_upt del: upt_Suc)
  ultimately show ?thesis
    unfolding ms_def [symmetric] Let_def using one_tile [OF sorted_markers [OF assms, of ms], of t] by presburger
qed

definition sample_id_order :: "string comparator" where
  "sample_id_order a b = real (length a) - real (length b)"

lemma sample_id_order: "js_comparator sample_id_order"
  by unfold_locales (auto simp: sample_id_order_def)

theorem songs_tile_take_witness:
  "let songs = songs_of sample_id_order (run (marker_step sample_id_order) []
       [AddMarker ''a'' 10 None, AddMarker ''b'' 10.1 None, AddMarker ''c'' 2 (Some '' Intro '')])
   in length (filter (\<lambda>s. in_tile 5 (sg_startSec s, sg_endSec s)) songs) = 1"
proof -
  have "marker_at (new_marker ''c'' n 2 x) = 2" for n x by simp
  then show ?thesis
    using songs_tile_take [OF sample_id_order, where t = 5 and es = "[AddMarker ''a'' 10 None, AddMarker ''b'' 10.1 None, AddMarker ''c'' 2 (Some '' Intro '')]"]
    by (auto simp: add_marker_def sort_markers_def Let_def min_marker_gap_sec_def)
qed

subsection \<open>The stored shadow\<close>

lemma map_filter_map_Some: "(\<And>x. x \<in> set xs \<Longrightarrow> f (g x) = Some x) \<Longrightarrow> List.map_filter f (map g xs) = xs"
  by (induction xs) (auto simp: List.map_filter_simps)

definition marker_ok :: "marker \<Rightarrow> bool" where
  "marker_ok m \<longleftrightarrow> li_id m \<noteq> [] \<and> 0 \<le> marker_at m"

lemma valid_marker_json: "marker_ok m \<Longrightarrow> valid_marker (marker_json m) = Some m"
  by (simp add: valid_marker_def marker_json_def marker_ok_def)

lemma valid_marker_ok: "valid_marker j = Some m \<Longrightarrow> marker_ok m"
  by (auto simp: valid_marker_def marker_ok_def split: option.splits if_splits)

definition comment_ok :: "take_comment \<Rightarrow> bool" where
  "comment_ok c \<longleftrightarrow> li_id c \<noteq> [] \<and> 0 \<le> comment_at c \<and> cb_text (li_payload c) \<noteq> []"

lemma nullable_opt_json:
  "nullable json_str (Some (opt_json JStr x)) = Some x" "nullable json_num (Some (opt_json JNum y)) = Some y"
  by (cases x; simp add: nullable_def opt_json_def) (cases y; simp add: nullable_def opt_json_def)

lemma valid_comment_json: "comment_ok c \<Longrightarrow> valid_comment (comment_json c) = Some c"
  by (simp add: valid_comment_def comment_json_def comment_ok_def Let_def nullable_opt_json)

lemma valid_comment_ok: "valid_comment j = Some c \<Longrightarrow> comment_ok c"
  by (auto simp: valid_comment_def comment_ok_def split: option.splits if_splits)

lemma distinct_ids_sort: "distinct (map li_id (js_sort cmp xs)) = distinct (map li_id xs)"
  by (metis mset_eq_imp_distinct_iff mset_map_js_sort)

text \<open>Whatever the storage holds, what is loaded is well formed, one entry per id.\<close>

lemma keep_last_subset: "set (keep_last xs) \<subseteq> set xs"
  by (induction xs) auto

lemma mem_map_filter: "x \<in> set (List.map_filter f xs) \<longleftrightarrow> (\<exists>y \<in> set xs. f y = Some x)"
  by (auto simp: List.map_filter_def) force

lemma keep_last_memD: "x \<in> set (keep_last xs) \<Longrightarrow> x \<in> set xs"
  using keep_last_subset by blast

lemma load_markers_ok:
  "(\<forall>m \<in> set (load_markers lc parse sid tid store). marker_ok m) \<and> distinct (map li_id (load_markers lc parse sid tid store))"
  by (auto simp: load_markers_def sort_markers_def dedupe_keep_last distinct_ids_sort mem_map_filter valid_marker_ok
      split: option.splits dest!: keep_last_memD)

lemma load_comments_ok:
  "(\<forall>c \<in> set (load_comments lc parse sid tid store). comment_ok c) \<and> distinct (map li_id (load_comments lc parse sid tid store))"
  by (auto simp: load_comments_def sort_comments_def dedupe_keep_last distinct_ids_sort mem_map_filter valid_comment_ok
      split: option.splits dest!: keep_last_memD)

lemma comment_order_comparator: "js_comparator lc \<Longrightarrow> js_comparator (comment_order lc)"
  unfolding comment_order_def
  by (intro js_comparator_cmp_or_by_key) (auto simp: js_comparator_def)

lemma markers_load_save:
  assumes "json_codec stringify parse" "js_comparator lc" "kv_works store"
    and "\<forall>m \<in> set ms. marker_ok m" "distinct (map li_id ms)"
  shows "load_markers lc parse sid tid (save_markers lc stringify sid tid ms store) = sort_markers lc ms"
proof -
  have "List.map_filter valid_marker (map marker_json (sort_markers lc ms)) = sort_markers lc ms"
    by (rule map_filter_map_Some) (use assms(4) in \<open>auto simp: sort_markers_def valid_marker_json\<close>)
  moreover have "dedupe_by_id (sort_markers lc ms) = sort_markers lc ms"
    using assms(5) by (simp add: dedupe_keep_last sort_markers_def distinct_ids_sort keep_last_distinct)
  moreover have "sort_markers lc (sort_markers lc ms) = sort_markers lc ms"
    unfolding sort_markers_def by (rule js_comparator.js_sort_idem [OF marker_order_comparator [OF assms(2)]])
  ultimately show ?thesis
    by (simp add: load_markers_def save_markers_def kv_get_set [OF assms(3)] json_codecD [OF assms(1)])
qed

lemma comments_load_save:
  assumes "json_codec stringify parse" "js_comparator lc" "kv_works store"
    and "\<forall>c \<in> set cs. comment_ok c" "distinct (map li_id cs)"
  shows "load_comments lc parse sid tid (save_comments lc stringify sid tid cs store) = sort_comments lc cs"
proof -
  have "List.map_filter valid_comment (map comment_json (sort_comments lc cs)) = sort_comments lc cs"
    by (rule map_filter_map_Some) (use assms(4) in \<open>auto simp: sort_comments_def valid_comment_json\<close>)
  moreover have "dedupe_by_id (sort_comments lc cs) = sort_comments lc cs"
    using assms(5) by (simp add: dedupe_keep_last sort_comments_def distinct_ids_sort keep_last_distinct)
  moreover have "sort_comments lc (sort_comments lc cs) = sort_comments lc cs"
    unfolding sort_comments_def by (rule js_comparator.js_sort_idem [OF comment_order_comparator [OF assms(2)]])
  ultimately show ?thesis
    by (simp add: load_comments_def save_comments_def kv_get_set [OF assms(3)] json_codecD [OF assms(1)])
qed

text \<open>The local shadow of markers and comments is faithful and hostile-proof: what was saved is loaded again in
  timeline order, and whatever else a build left under the keys, what is loaded is well formed with one entry per
  id.\<close>

theorem shadow_roundtrip:
  assumes "json_codec stringify parse" "js_comparator lc" "kv_works store"
  shows "((\<forall>m \<in> set ms. marker_ok m) \<and> distinct (map li_id ms)
        \<longrightarrow> load_markers lc parse sid tid (save_markers lc stringify sid tid ms store) = sort_markers lc ms)
    \<and> ((\<forall>c \<in> set cs. comment_ok c) \<and> distinct (map li_id cs)
        \<longrightarrow> load_comments lc parse sid tid (save_comments lc stringify sid tid cs store) = sort_comments lc cs)
    \<and> (\<forall>m \<in> set (load_markers lc parse sid tid any). marker_ok m) \<and> distinct (map li_id (load_markers lc parse sid tid any))
    \<and> (\<forall>c \<in> set (load_comments lc parse sid tid any). comment_ok c) \<and> distinct (map li_id (load_comments lc parse sid tid any))"
  using markers_load_save [OF assms] comments_load_save [OF assms]
    load_markers_ok [of lc parse sid tid "any"] load_comments_ok [of lc parse sid tid "any"] by blast

theorem shadow_roundtrip_witness:
  "load_markers sample_id_order Some ''s'' ''t''
     (save_markers sample_id_order (\<lambda>j. j) ''s'' ''t'' [new_marker ''a'' 0 4 None, new_marker ''b'' 1 2 None] fresh_store)
   = sort_markers sample_id_order [new_marker ''a'' 0 4 None, new_marker ''b'' 1 2 None]"
  using shadow_roundtrip [OF json_codec_id sample_id_order fresh_store_works,
      of "[new_marker ''a'' 0 4 None, new_marker ''b'' 1 2 None]" "''s''" "''t''"]
  by (simp add: marker_ok_def new_marker_def Let_def)

subsection \<open>Export names\<close>

text \<open>Whatever a marker is called, its export name holds digits, tame characters and single blanks only.\<close>

lemma set_collapse_spaces: "set (collapse_spaces b s) \<subseteq> {c \<in> set s. \<not> js_space c} \<union> {CHR '' ''}"
  by (induction b s rule: collapse_spaces.induct) auto

lemma set_dropWhile_subset: "set (dropWhile p s) \<subseteq> set s"
  using set_dropWhileD by fast

lemma set_js_trim: "set (js_trim s) \<subseteq> set s" "set (trim_edge_dots s) \<subseteq> set s"
  unfolding js_trim_def trim_edge_dots_def Let_def using set_dropWhile_subset by (metis set_rev subset_trans)+

lemma song_slug_tame:
  assumes "c \<in> set (song_slug tame index name)"
  shows "tame c \<or> c = CHR '' '' \<or> c \<in> set (nat_digits index) \<or> c \<in> set ''0song''"
proof -
  define kept where "kept = filter (\<lambda>c. tame c \<or> js_space c) name"
  define safe where "safe = js_trim (take 64 (trim_edge_dots (collapse_spaces False kept)))"
  have "set safe \<subseteq> set (collapse_spaces False kept)"
    unfolding safe_def by (meson set_js_trim set_take_subset subset_trans)
  then have safe: "tame d \<or> d = CHR '' ''" if "d \<in> set safe" for d
    using that set_collapse_spaces [of False kept] by (auto simp: kept_def)
  have "song_slug tame index name = pad_start2 (nat_digits index) @ '' '' @ (if safe = [] then ''song'' else safe)"
    by (simp add: song_slug_def safe_def kept_def Let_def)
  with assms have "c \<in> set (pad_start2 (nat_digits index)) \<or> c = CHR '' '' \<or> c \<in> set ''song'' \<or> c \<in> set safe"
    by (cases "safe = []") (simp_all only: if_True if_False set_append Un_iff list.set insert_iff empty_iff simp_thms, blast)
  moreover have "set (pad_start2 (nat_digits index)) \<subseteq> insert (CHR ''0'') (set (nat_digits index))"
    by (auto simp: pad_start2_def)
  moreover have "set ''song'' \<subseteq> set ''0song''" by simp
  moreover have "CHR ''0'' \<in> set ''0song''" by simp
  ultimately show ?thesis using safe by blast
qed

text \<open>The cut at 64 characters comes after the edge dots went, so a long name can end in a dot all the same.\<close>

lemma collapse_no_space: "\<forall>c \<in> set s. \<not> js_space c \<Longrightarrow> collapse_spaces b s = s"
  by (induction b s rule: collapse_spaces.induct) auto

lemma strip_both_ends:
  "s \<noteq> [] \<Longrightarrow> \<not> p (hd s) \<Longrightarrow> \<not> p (last s) \<Longrightarrow> rev (dropWhile p (rev (dropWhile p s))) = s"
proof -
  assume "s \<noteq> []" "\<not> p (hd s)" "\<not> p (last s)"
  then have "dropWhile p s = s" "dropWhile p (rev s) = rev s" by (simp_all add: dropWhile_eq_self_iff hd_rev)
  then show ?thesis by simp
qed

lemma long_slug_ends_in_dot:
  "last (song_slug (\<lambda>_. True) 1 (replicate 63 (CHR ''a'') @ ''.b'')) = CHR ''.''"
proof -
  let ?s = "replicate 63 (CHR ''a'') @ ''.b''" and ?t = "replicate 63 (CHR ''a'') @ ''.''"
  have chars: "\<not> js_space (CHR ''a'')" "\<not> js_space (CHR ''b'')" "\<not> js_space (CHR ''.'')" by (simp_all add: js_space_def)
  then have "collapse_spaces False ?s = ?s" by (intro collapse_no_space) auto
  moreover have "trim_edge_dots ?s = ?s"
    unfolding trim_edge_dots_def Let_def by (rule strip_both_ends) (use chars in \<open>simp_all add: numeral_eq_Suc\<close>)
  moreover have "take 64 ?s = ?t" by simp
  moreover have "js_trim ?t = ?t"
    unfolding js_trim_def by (rule strip_both_ends) (use chars in \<open>simp_all add: numeral_eq_Suc\<close>)
  ultimately show ?thesis by (simp add: song_slug_def Let_def)
qed

end
