(* ===== verification/Sink_Worker.thy ===== *)
theory Sink_Worker
  imports Delivery
begin

text \<open>
  The desk's own copy of every stream: \<open>apps/web/src/audio/sink.worker.ts\<close>, its store helpers \<open>sink-store.ts\<close> on the
  browser's private file system, the message contract \<open>sink-worker-protocol.ts\<close> and the request bridge
  \<open>apps/web/src/net/desk-sink-worker.ts\<close>. Frames are bytes, read by the codec of \<open>Frame_Codec\<close>, and the engine is that of
  \<open>packages/wasm/src/sink.rs\<close>. Every write of the file system has an outcome the model is given; the messages are handled
  one after the other, as the worker's promise chain does. The order among directory entries and among streams is that
  of insertion.
\<close>

subsection \<open>Ids\<close>

definition hex_digit :: "nat \<Rightarrow> char" where
  "hex_digit n = (if n < 10 then char_of (48 + n) else char_of (87 + n))"

definition hex_byte :: "byte \<Rightarrow> string" where
  "hex_byte b = [hex_digit (unat b div 16), hex_digit (unat b mod 16)]"

definition hex_bytes :: "bytes \<Rightarrow> string" where
  "hex_bytes bs = concat (map hex_byte bs)"

definition uuid_string :: "bytes \<Rightarrow> string" where
  "uuid_string b = hex_bytes (take 4 b) @ ''-'' @ hex_bytes (take 2 (drop 4 b)) @ ''-'' @ hex_bytes (take 2 (drop 6 b)) @ ''-''
     @ hex_bytes (take 2 (drop 8 b)) @ ''-'' @ hex_bytes (take 6 (drop 10 b))"

text \<open>The value of a hexadecimal digit; \<open>parseInt(s, 16)\<close> reads the longest prefix of digits, \<open>NaN\<close> is stored as 0.\<close>

definition hex_value :: "char \<Rightarrow> nat option" where
  "hex_value c =
     (let n = (of_char c :: nat)
      in if 48 \<le> n \<and> n \<le> 57 then Some (n - 48) else if 97 \<le> n \<and> n \<le> 102 then Some (n - 87)
         else if 65 \<le> n \<and> n \<le> 70 then Some (n - 55) else None)"

fun parse_hex :: "nat \<Rightarrow> string \<Rightarrow> nat" where
  "parse_hex acc [] = acc"
| "parse_hex acc (c # cs) = (case hex_value c of None \<Rightarrow> acc | Some v \<Rightarrow> parse_hex (16 * acc + v) cs)"

definition uuid_bytes :: "string \<Rightarrow> bytes" where
  "uuid_bytes uuid =
     (let hex = filter (\<lambda>c. c \<noteq> CHR ''-'') uuid
      in map (\<lambda>i. word_of_nat (parse_hex 0 (take 2 (drop (2 * i) hex)))) [0..<16])"

definition stream_dir_name :: "string \<Rightarrow> string \<Rightarrow> string" where
  "stream_dir_name takeId streamId = takeId @ ''_'' @ streamId"

definition key_text :: "frame_key \<Rightarrow> stream_key" where
  "key_text k = (uuid_string (fk_takeId k), uuid_string (fk_streamId k))"

definition key_bytes :: "stream_key \<Rightarrow> frame_key" where
  "key_bytes k = \<lparr>fk_takeId = uuid_bytes (fst k), fk_streamId = uuid_bytes (snd k)\<rparr>"

subsection \<open>The engine on bytes\<close>

datatype ingest_result =
    RChunk chunk_outcome chunk_meta
  | RGapReport stream_key ranges
  | RTimePing bytes
  | RHave stream_key ranges
  | RBackfill stream_key ranges
  | RAck stream_key nat ranges
  | RTimePong
  | RIgnored
  | RDiscard decode_error

definition engine_ingest :: "bytes \<Rightarrow> nat \<Rightarrow> sink_engine \<Rightarrow> ingest_result \<times> sink_engine" where
  "engine_ingest b now e =
     (case decode_frame b of
        Inl err \<Rightarrow> (RDiscard err, e)
      | Inr (UnknownType _) \<Rightarrow> (RIgnored, e)
      | Inr (KnownFrame f) \<Rightarrow>
          (case f of
             AudioChunk c \<Rightarrow>
               let k = key_text (ac_stream c);
                   meta = chunk_meta_of uuid_string c;
                   (res, r) = ingest_chunk (ac_crc32c c = unat (crc32c (ac_payload c))) meta (receiver_of k e)
               in (RChunk res meta, put_receiver k r e)
           | GapReport l \<Rightarrow>
               let k = key_text (rl_stream l)
               in (RGapReport k (rl_ranges l), put_receiver k (record_gaps (rl_ranges l) (receiver_of k e)) e)
           | TimePing i t1 \<Rightarrow> (RTimePing (encode_frame (TimePong i t1 now now)), e)
           | HaveSummary l \<Rightarrow> (RHave (key_text (rl_stream l)) (rl_ranges l), e)
           | BackfillRequest l \<Rightarrow> (RBackfill (key_text (rl_stream l)) (rl_ranges l), e)
           | AckStatus a \<Rightarrow> (RAck (key_text (ak_stream a)) (ak_chwm a) (ak_holes a), e)
           | TimePong _ _ _ _ \<Rightarrow> (RTimePong, e)))"

definition ack_frames :: "sink_engine \<Rightarrow> bytes list" where
  "ack_frames e = map (\<lambda>(k, r). encode_frame (AckStatus (rc_ack_status (key_bytes k) r))) (en_streams e)"

definition have_frames :: "sink_engine \<Rightarrow> bytes list" where
  "have_frames e =
     concat (map (\<lambda>(k, r). map (\<lambda>l. encode_frame (HaveSummary l)) (rc_have_summaries (key_bytes k) r)) (en_streams e))"

text \<open>\<open>None\<close> is the \<open>JsError\<close> of a frame that is no \<open>HAVE_SUMMARY\<close>.\<close>

definition engine_plan_push :: "bytes \<Rightarrow> sink_engine \<Rightarrow> (stream_key \<times> ranges) option" where
  "engine_plan_push b e =
     (case decode_frame b of
        Inr (KnownFrame (HaveSummary l)) \<Rightarrow>
          let k = key_text (rl_stream l)
          in Some (k, case jm_get (en_streams e) k of None \<Rightarrow> []
                      | Some r \<Rightarrow> rs_subtract (rc_held r) (rs_from_ranges (rl_ranges l)))
      | _ \<Rightarrow> None)"

definition chunk_meta_json :: "bytes \<Rightarrow> chunk_meta option" where
  "chunk_meta_json b =
     (case decode_frame b of Inr (KnownFrame (AudioChunk c)) \<Rightarrow> Some (chunk_meta_of uuid_string c) | _ \<Rightarrow> None)"

definition extract_chunk_payload :: "bytes \<Rightarrow> bytes option" where
  "extract_chunk_payload b =
     (case decode_frame b of Inr (KnownFrame (AudioChunk c)) \<Rightarrow> Some (ac_payload c) | _ \<Rightarrow> None)"

definition extract_codec_header :: "(bytes \<Rightarrow> bool) \<Rightarrow> bytes \<Rightarrow> bytes option" where
  "extract_codec_header utf8 b = (case decode_stream_header utf8 b of Inl _ \<Rightarrow> None | Inr h \<Rightarrow> Some (sh_codecHeader h))"

subsection \<open>The file system\<close>

type_synonym opfs_dir = "(string, bytes) jsmap"
type_synonym opfs = "(string, opfs_dir) jsmap"

text \<open>
  A write: the directory cannot be had, the file cannot be had, the file was created but its content never committed, or
  all went well. A file that existed keeps its content until the commit.
\<close>

datatype io = IoNoDir | IoNoFile | IoTorn | IoOk

definition dir_of :: "string \<Rightarrow> opfs \<Rightarrow> opfs_dir" where
  "dir_of d fs = (case jm_get fs d of None \<Rightarrow> [] | Some files \<Rightarrow> files)"

definition write_file :: "io \<Rightarrow> string \<Rightarrow> string \<Rightarrow> bytes \<Rightarrow> opfs \<Rightarrow> bool \<times> opfs" where
  "write_file out d name b fs =
     (case out of
        IoNoDir \<Rightarrow> (False, fs)
      | IoNoFile \<Rightarrow> (False, jm_set d (dir_of d fs) fs)
      | IoTorn \<Rightarrow> (False, jm_set d (if jm_has (dir_of d fs) name then dir_of d fs else jm_set name [] (dir_of d fs)) fs)
      | IoOk \<Rightarrow> (True, jm_set d (jm_set name b (dir_of d fs)) fs))"

record meta_lite =
  ml_crc32c :: nat
  ml_payloadLen :: nat
  ml_sampleCount :: nat

type_synonym meta_store = "(string, (nat, meta_lite) jsmap) jsmap"

definition lite_of :: "chunk_meta \<Rightarrow> meta_lite" where
  "lite_of m = \<lparr>ml_crc32c = cm_crc32c m, ml_payloadLen = cm_payloadLen m, ml_sampleCount = cm_sampleCount m\<rparr>"

definition note_meta :: "string \<Rightarrow> chunk_meta \<Rightarrow> meta_store \<Rightarrow> meta_store" where
  "note_meta d m metas =
     jm_set d (jm_set (cm_seq m) (lite_of m) (case jm_get metas d of None \<Rightarrow> [] | Some ms \<Rightarrow> ms)) metas"

definition persist_chunk_file :: "io \<Rightarrow> chunk_meta \<Rightarrow> bytes \<Rightarrow> opfs \<times> meta_store \<Rightarrow> bool \<times> opfs \<times> meta_store" where
  "persist_chunk_file out m b = (\<lambda>(fs, metas).
     let d = stream_dir_name (cm_takeId m) (cm_streamId m);
         (ok, fs) = write_file out d (nat_digits (cm_seq m)) b fs
     in (ok, fs, if ok then note_meta d m metas else metas))"

text \<open>The files of a gap report, in order until one fails.\<close>

definition gap_name :: "nat \<times> nat \<Rightarrow> string" where
  "gap_name r = ''gap_'' @ nat_digits (fst r) @ ''_'' @ nat_digits (snd r)"

fun write_gaps :: "io list \<Rightarrow> string \<Rightarrow> ranges \<Rightarrow> opfs \<Rightarrow> bool \<times> opfs" where
  "write_gaps outs d [] fs = (True, fs)"
| "write_gaps outs d (r # rs) fs =
     (case write_file (case outs of [] \<Rightarrow> IoOk | out # _ \<Rightarrow> out) d (gap_name r) [] fs of
        (False, fs) \<Rightarrow> (False, fs)
      | (True, fs) \<Rightarrow> write_gaps (tl outs) d rs fs)"

subsection \<open>The boot rescan\<close>

fun split_on :: "char \<Rightarrow> string \<Rightarrow> string list" where
  "split_on x [] = [[]]"
| "split_on x (c # cs) = (if c = x then [] # split_on x cs
     else (case split_on x cs of [] \<Rightarrow> [[c]] | p # ps \<Rightarrow> (c # p) # ps))"

text \<open>\<open>Number(name)\<close> when it is a natural number in plain digits, which is how the names are written.\<close>

definition digit_char :: "char \<Rightarrow> bool" where
  "digit_char c \<longleftrightarrow> (let n = (of_char c :: nat) in 48 \<le> n \<and> n \<le> 57)"

definition number_of :: "string \<Rightarrow> nat option" where
  "number_of s = (if s \<noteq> [] \<and> list_all digit_char s then Some (digits_value s) else None)"

definition starts_with :: "string \<Rightarrow> string \<Rightarrow> bool" where
  "starts_with p s \<longleftrightarrow> take (length p) s = p"

record rescan =
  rs_engine :: sink_engine
  rs_metas :: meta_store
  rs_chunks :: nat

text \<open>One file. A final seq that cannot be parsed ends the rescan with an exception, what was rebuilt before stays.\<close>

definition rescan_file :: "(bytes \<Rightarrow> nat option) \<Rightarrow> stream_key \<Rightarrow> string \<times> bytes \<Rightarrow> rescan \<Rightarrow> bool \<times> rescan" where
  "rescan_file parse_final k = (\<lambda>(name, b) s.
     (let ek = key_text (key_bytes k)
      in if starts_with ''gap_'' name then
           (let parts = tl (split_on (CHR ''_'') name);
                num = (\<lambda>i. if i < length parts then (case number_of (parts ! i) of None \<Rightarrow> 0 | Some n \<Rightarrow> n) else 0)
            in (True, s\<lparr>rs_engine := rebuild_gap ek (num 0, num 1) (rs_engine s)\<rparr>))
         else if name = ''final.json'' then
           (case parse_final b of None \<Rightarrow> (False, s) | Some n \<Rightarrow> (True, s\<lparr>rs_engine := engine_set_final ek n (rs_engine s)\<rparr>))
         else if number_of name = None then (True, s)
         else (case chunk_meta_json b of
                 None \<Rightarrow> (True, s)
               | Some m \<Rightarrow> (True, s\<lparr>rs_engine := rebuild_chunk ek m (rs_engine s),
                    rs_metas := note_meta (stream_dir_name (fst k) (snd k)) m (rs_metas s), rs_chunks := rs_chunks s + 1\<rparr>))))"

fun rescan_files :: "(bytes \<Rightarrow> nat option) \<Rightarrow> stream_key \<Rightarrow> opfs_dir \<Rightarrow> rescan \<Rightarrow> bool \<times> rescan" where
  "rescan_files pf k [] s = (True, s)"
| "rescan_files pf k (f # fs) s = (case rescan_file pf k f s of (False, s) \<Rightarrow> (False, s) | (True, s) \<Rightarrow> rescan_files pf k fs s)"

fun rescan_dirs :: "(bytes \<Rightarrow> nat option) \<Rightarrow> opfs \<Rightarrow> rescan \<Rightarrow> bool \<times> rescan" where
  "rescan_dirs pf [] s = (True, s)"
| "rescan_dirs pf ((d, files) # dirs) s =
     (case split_on (CHR ''_'') d of
        t # u # _ \<Rightarrow>
          if t = [] \<or> u = [] then rescan_dirs pf dirs s
          else (case rescan_files pf (t, u) files (s\<lparr>rs_metas := jm_set (stream_dir_name t u) [] (rs_metas s)\<rparr>) of
                  (False, s) \<Rightarrow> (False, s) | (True, s) \<Rightarrow> rescan_dirs pf dirs s)
      | _ \<Rightarrow> rescan_dirs pf dirs s)"

subsection \<open>Digest, energy and assembly\<close>

definition metas_of :: "meta_store \<Rightarrow> stream_key \<Rightarrow> (nat, meta_lite) jsmap option" where
  "metas_of metas k = jm_get metas (stream_dir_name (fst k) (snd k))"

definition digest_for :: "(bytes \<Rightarrow> string) \<Rightarrow> meta_store \<Rightarrow> stream_key \<Rightarrow> string" where
  "digest_for sha256 metas k =
     (case metas_of metas k of None \<Rightarrow> []
      | Some ms \<Rightarrow> chunk_set_digest sha256 (map (\<lambda>(seq, m). (seq, ml_crc32c m)) ms))"

fun list_max :: "nat list \<Rightarrow> nat" where
  "list_max [] = 0"
| "list_max (x # xs) = max x (list_max xs)"

fun list_min :: "nat list \<Rightarrow> nat" where
  "list_min [] = 0"
| "list_min [x] = x"
| "list_min (x # xs) = min x (list_min xs)"

text \<open>The bucket \<open>b\<close> of \<open>n\<close> sizes spread over \<open>count\<close> buckets: at least one position.\<close>

definition bucket_peak :: "nat list \<Rightarrow> nat \<Rightarrow> nat \<Rightarrow> nat" where
  "bucket_peak sizes buckets b =
     (let start = b * length sizes div buckets;
          stop = max (start + 1) ((b + 1) * length sizes div buckets)
      in list_max (take (stop - start) (drop start sizes)))"

definition energy_for :: "meta_store \<Rightarrow> stream_key \<Rightarrow> nat \<Rightarrow> real list \<times> nat" where
  "energy_for metas k maxBars =
     (case metas_of metas k of None \<Rightarrow> ([], 0)
      | Some ms \<Rightarrow>
          let sorted = js_sort (by_key (\<lambda>(seq, _). real seq)) (filter (\<lambda>(seq, _). 0 < seq) ms);
              total = sum_list (map (\<lambda>(_, m). ml_sampleCount m) sorted);
              sizes = map (\<lambda>(_, m). ml_payloadLen m) sorted;
              n = min maxBars (length sizes);
              buckets = map (bucket_peak sizes n) [0..<n];
              hi = list_max buckets; lo = list_min buckets
          in if sizes = [] then ([], total)
             else (map (\<lambda>v. if lo < hi then 0.08 + 0.92 * (real v - real lo) / (real hi - real lo) else 0.3) buckets, total))"

datatype assembly = Flac bytes | NotHeld string | HoleAt nat

text \<open>The payloads of the held seqs from the files; \<open>None\<close> when a file is missing or is no chunk.\<close>

fun read_parts :: "(bytes \<Rightarrow> bool) \<Rightarrow> opfs_dir \<Rightarrow> nat list \<Rightarrow> bytes option" where
  "read_parts utf8 files [] = Some []"
| "read_parts utf8 files (seq # seqs) =
     (case Option.bind (jm_get files (nat_digits seq)) extract_chunk_payload of
        None \<Rightarrow> None
      | Some p \<Rightarrow>
          (case (if seq = 0 then extract_codec_header utf8 p else Some p) of
             None \<Rightarrow> None
           | Some part \<Rightarrow> map_option ((@) part) (read_parts utf8 files seqs)))"

fun first_break :: "nat list \<Rightarrow> nat option" where
  "first_break (a # b # seqs) = (if b \<noteq> a + 1 then Some (a + 1) else first_break (b # seqs))"
| "first_break _ = None"

definition assemble_flac_from_store :: "(bytes \<Rightarrow> bool) \<Rightarrow> opfs \<Rightarrow> meta_store \<Rightarrow> stream_key \<Rightarrow> assembly" where
  "assemble_flac_from_store utf8 fs metas k =
     (case jm_get fs (stream_dir_name (fst k) (snd k)) of
        None \<Rightarrow> NotHeld ''NotFoundError''
      | Some files \<Rightarrow>
          let seqs = sort (jm_keys (case metas_of metas k of None \<Rightarrow> [] | Some ms \<Rightarrow> ms))
          in if seqs = [] \<or> hd seqs \<noteq> 0 then NotHeld ''stream header not held''
             else (case first_break seqs of
                     Some n \<Rightarrow> HoleAt n
                   | None \<Rightarrow> (case read_parts utf8 files seqs of None \<Rightarrow> NotHeld ''unreadable'' | Some b \<Rightarrow> Flac b)))"

subsection \<open>The worker\<close>

record desk_status =
  ds_takeId :: string
  ds_streamId :: string
  ds_chwm :: "nat option"
  ds_heldCount :: nat
  ds_holes :: ranges
  ds_gaps :: ranges
  ds_finalSeq :: "nat option"
  ds_complete :: bool
  ds_settled :: bool
  ds_flagged :: bool
  ds_digest :: string
  ds_totalSamples :: nat
  ds_energy :: "real list"

datatype to_sink =
    Configure string
  | Frame nat bytes
  | SetFinal string string nat
  | Acks
  | Haves
  | PlanPush bytes
  | GetFrames string string ranges
  | Status
  | AssembleFlac nat string string
  | DeleteStreams "(string \<times> string) list"

datatype from_sink =
    Ready nat
  | Reply nat bytes
  | AcksResult "bytes list"
  | HavesResult "bytes list"
  | PushPlan stream_key ranges
  | FramesResult "bytes list"
  | StatusResult "desk_status list"
  | FlacResult nat "bytes option" "string option"
  | WorkerError

record desk_sink =
  dk_engine :: "sink_engine option"
  dk_root :: "string option"
  dk_metas :: meta_store
  dk_disk :: "(string, opfs) jsmap"

text \<open>The directory of the open session; the disk outlives the worker.\<close>

definition dk_files :: "desk_sink \<Rightarrow> opfs" where
  "dk_files w = (case dk_root w of None \<Rightarrow> [] | Some sess \<Rightarrow> (case jm_get (dk_disk w) sess of None \<Rightarrow> [] | Some fs \<Rightarrow> fs))"

definition set_files :: "opfs \<Rightarrow> desk_sink \<Rightarrow> desk_sink" where
  "set_files fs w = (case dk_root w of None \<Rightarrow> w | Some sess \<Rightarrow> w\<lparr>dk_disk := jm_set sess fs (dk_disk w)\<rparr>)"

text \<open>A fresh worker on an existing disk.\<close>

definition boot_sink :: "(string, opfs) jsmap \<Rightarrow> desk_sink" where
  "boot_sink disk = \<lparr>dk_engine = None, dk_root = None, dk_metas = [], dk_disk = disk\<rparr>"

definition status_of :: "(bytes \<Rightarrow> string) \<Rightarrow> meta_store \<Rightarrow> stream_key \<times> receiver \<Rightarrow> desk_status" where
  "status_of sha256 metas = (\<lambda>(k, r).
     \<lparr>ds_takeId = fst k, ds_streamId = snd k, ds_chwm = rc_chwm r, ds_heldCount = rs_count (rc_held r), ds_holes = rc_holes r,
      ds_gaps = rc_declared r, ds_finalSeq = rc_finalSeq r, ds_complete = rc_is_complete r, ds_settled = rc_is_settled r,
      ds_flagged = rc_flagged r, ds_digest = digest_for sha256 metas k,
      ds_totalSamples = snd (energy_for metas k 96), ds_energy = fst (energy_for metas k 96)\<rparr>)"

definition delete_stream :: "io list \<Rightarrow> nat \<Rightarrow> string \<times> string \<Rightarrow> desk_sink \<Rightarrow> desk_sink" where
  "delete_stream outs i = (\<lambda>(t, u) w.
     (let w = w\<lparr>dk_engine := map_option (remove_stream (key_text (key_bytes (t, u)))) (dk_engine w),
                dk_metas := jm_delete (stream_dir_name t u) (dk_metas w)\<rparr>
      in if i < length outs \<and> outs ! i \<noteq> IoOk then w else set_files (jm_delete (stream_dir_name t u) (dk_files w)) w))"

text \<open>What the environment is: the outcomes of the handler's writes, and whether the session directory can be had.\<close>

record sink_env =
  se_outs :: "io list"
  se_now :: nat

record codec_env =
  ce_parse_final :: "bytes \<Rightarrow> nat option"
  ce_utf8 :: "bytes \<Rightarrow> bool"
  ce_sha256 :: "bytes \<Rightarrow> string"

text \<open>\<open>JSON.stringify({ finalSeq })\<close>, encoded.\<close>

definition final_text :: "nat \<Rightarrow> bytes" where
  "final_text n = map of_char (''{\"finalSeq\":'' @ nat_digits n @ ''}'')"

definition first_out :: "sink_env \<Rightarrow> io" where
  "first_out env = (case se_outs env of [] \<Rightarrow> IoOk | out # _ \<Rightarrow> out)"

definition sink_configure :: "codec_env \<Rightarrow> sink_env \<Rightarrow> string \<Rightarrow> desk_sink \<Rightarrow> from_sink list \<times> desk_sink" where
  "sink_configure ce env sess w =
     (if first_out env \<noteq> IoOk then ([WorkerError], w\<lparr>dk_engine := Some \<lparr>en_streams = []\<rparr>\<rparr>)
      else let w = w\<lparr>dk_root := Some sess\<rparr>;
               w = set_files (dk_files w) w;
               (ok, s) = rescan_dirs (ce_parse_final ce) (dk_files w)
                  \<lparr>rs_engine = \<lparr>en_streams = []\<rparr>, rs_metas = dk_metas w, rs_chunks = 0\<rparr>
           in ([if ok then Ready (rs_chunks s) else WorkerError], w\<lparr>dk_engine := Some (rs_engine s), dk_metas := rs_metas s\<rparr>))"

definition sink_frame :: "sink_env \<Rightarrow> nat \<Rightarrow> bytes \<Rightarrow> desk_sink \<Rightarrow> from_sink list \<times> desk_sink" where
  "sink_frame env conn b w =
     (case dk_engine w of
        None \<Rightarrow> ([], w)
      | Some e \<Rightarrow>
          let (res, e') = engine_ingest b (se_now env) e; w = w\<lparr>dk_engine := Some e'\<rparr>
          in case res of
               RChunk out m \<Rightarrow>
                 if out = Stored \<or> out = ContinuityViolation then
                   (if dk_root w = None then ([WorkerError], w)
                    else let (ok, fs, metas) = persist_chunk_file (first_out env) m b (dk_files w, dk_metas w)
                         in (if ok then [] else [WorkerError], (set_files fs w)\<lparr>dk_metas := metas\<rparr>))
                 else ([], w)
             | RGapReport k rs \<Rightarrow>
                 (if dk_root w = None then ([], w)
                  else let d = stream_dir_name (fst k) (snd k)
                       in if first_out env = IoNoDir then ([WorkerError], w)
                          else let (ok, fs) = write_gaps (se_outs env) d rs (jm_set d (dir_of d (dk_files w)) (dk_files w))
                               in (if ok then [] else [WorkerError], set_files fs w))
             | RTimePing reply \<Rightarrow> ([Reply conn reply], w)
             | _ \<Rightarrow> ([], w))"

definition sink_set_final :: "codec_env \<Rightarrow> sink_env \<Rightarrow> string \<Rightarrow> string \<Rightarrow> nat \<Rightarrow> desk_sink \<Rightarrow> from_sink list \<times> desk_sink" where
  "sink_set_final ce env t u n w =
     (case (dk_engine w, dk_root w) of
        (Some e, Some _) \<Rightarrow>
          let w = w\<lparr>dk_engine := Some (engine_set_final (key_text (key_bytes (t, u))) n e)\<rparr>;
              (ok, fs) = write_file (first_out env) (stream_dir_name t u) ''final.json'' (final_text n) (dk_files w)
          in (if ok then [] else [WorkerError], set_files fs w)
      | _ \<Rightarrow> ([], w))"

definition stored_frames :: "opfs \<Rightarrow> string \<Rightarrow> string \<Rightarrow> ranges \<Rightarrow> bytes list" where
  "stored_frames fs t u rs =
     (case jm_get fs (stream_dir_name t u) of None \<Rightarrow> []
      | Some files \<Rightarrow> List.map_filter (\<lambda>seq. jm_get files (nat_digits seq)) (concat (map (\<lambda>(s, e). [s..<e + 1]) rs)))"

fun sink_handle :: "codec_env \<Rightarrow> sink_env \<Rightarrow> to_sink \<Rightarrow> desk_sink \<Rightarrow> from_sink list \<times> desk_sink" where
  "sink_handle ce env (Configure sess) w = sink_configure ce env sess w"
| "sink_handle ce env (Frame conn b) w = sink_frame env conn b w"
| "sink_handle ce env (SetFinal t u n) w = sink_set_final ce env t u n w"
| "sink_handle ce env Acks w = (case dk_engine w of None \<Rightarrow> ([], w) | Some e \<Rightarrow> ([AcksResult (ack_frames e)], w))"
| "sink_handle ce env Haves w = (case dk_engine w of None \<Rightarrow> ([], w) | Some e \<Rightarrow> ([HavesResult (have_frames e)], w))"
| "sink_handle ce env (PlanPush b) w =
     (case dk_engine w of None \<Rightarrow> ([], w)
      | Some e \<Rightarrow> (case engine_plan_push b e of None \<Rightarrow> ([WorkerError], w) | Some (k, rs) \<Rightarrow> ([PushPlan k rs], w)))"
| "sink_handle ce env (GetFrames t u rs) w =
     (if dk_root w = None then ([], w) else ([FramesResult (stored_frames (dk_files w) t u rs)], w))"
| "sink_handle ce env Status w =
     ([StatusResult (case dk_engine w of None \<Rightarrow> [] | Some e \<Rightarrow> map (status_of (ce_sha256 ce) (dk_metas w)) (en_streams e))], w)"
| "sink_handle ce env (AssembleFlac req t u) w =
     (if dk_root w = None then ([FlacResult req None (Some ''no store'')], w)
      else ([case assemble_flac_from_store (ce_utf8 ce) (dk_files w) (dk_metas w) (t, u) of
               Flac b \<Rightarrow> FlacResult req (Some b) None
             | NotHeld why \<Rightarrow> FlacResult req None (Some why)
             | HoleAt n \<Rightarrow> FlacResult req None (Some (''hole at seq '' @ nat_digits n))], w))"
| "sink_handle ce env (DeleteStreams refs) w =
     ([], fold (\<lambda>(i, ref). delete_stream (se_outs env) i ref) (List.enumerate 0 refs) w)"

subsection \<open>Ids and names read back\<close>

lemma hex_digit_code: "n < 16 \<Longrightarrow> (of_char (hex_digit n) :: nat) = (if n < 10 then 48 + n else 87 + n)"
  by (simp add: hex_digit_def)

lemma hex_value_digit: "n < 16 \<Longrightarrow> hex_value (hex_digit n) = Some n"
  by (simp add: hex_value_def hex_digit_code Let_def)

lemma hex_digit_plain:
  assumes "n < 16"
  shows "hex_digit n \<noteq> CHR ''-'' \<and> hex_digit n \<noteq> CHR ''_''"
proof -
  have "(of_char (CHR ''-'') :: nat) = 45" "(of_char (CHR ''_'') :: nat) = 95" by simp_all
  moreover have "(of_char (hex_digit n) :: nat) \<noteq> 45" "(of_char (hex_digit n) :: nat) \<noteq> 95"
    using assms by (auto simp: hex_digit_code)
  ultimately show ?thesis by metis
qed

lemma byte_nibbles: "unat (b :: byte) div 16 < 16" "unat (b :: byte) mod 16 < 16"
proof -
  have "unat b < 256" by (rule order_less_le_trans [OF unsigned_less]) simp
  then show "unat b div 16 < 16" "unat b mod 16 < 16" by simp_all
qed

lemma parse_hex_byte: "word_of_nat (parse_hex 0 (hex_byte b)) = b"
  using byte_nibbles [of b] by (simp add: hex_byte_def hex_value_digit)

lemma hex_bytes_simps [simp]: "hex_bytes [] = []" "hex_bytes (b # bs) = hex_byte b @ hex_bytes bs"
  by (simp_all add: hex_bytes_def)

lemma length_hex_byte [simp]: "length (hex_byte b) = 2"
  by (simp add: hex_byte_def)

lemma hex_bytes_plain: "c \<in> set (hex_bytes bs) \<Longrightarrow> c \<noteq> CHR ''-'' \<and> c \<noteq> CHR ''_''"
  using hex_digit_plain byte_nibbles by (auto simp: hex_bytes_def hex_byte_def)

lemma hex_bytes_append: "hex_bytes (xs @ ys) = hex_bytes xs @ hex_bytes ys"
  by (simp add: hex_bytes_def)

lemma filter_hex [simp]: "filter (\<lambda>c. c \<noteq> CHR ''-'') (hex_bytes bs) = hex_bytes bs"
  using hex_bytes_plain by (simp add: filter_id_conv)

lemma take_drop_hex: "i < length bs \<Longrightarrow> take 2 (drop (2 * i) (hex_bytes bs)) = hex_byte (bs ! i)"
proof (induction bs arbitrary: i)
  case (Cons b bs)
  then show ?case by (cases i) simp_all
qed simp

lemma uuid_roundtrip: "length b = 16 \<Longrightarrow> uuid_bytes (uuid_string b) = b"
proof -
  assume n: "length b = 16"
  have split: "take 4 b @ take 2 (drop 4 b) @ take 2 (drop 6 b) @ take 2 (drop 8 b) @ take 6 (drop 10 b) = b"
  proof -
    have "take 6 (drop 10 b) = drop 10 b" using n by simp
    moreover have "take 2 (drop 8 b) @ drop 10 b = drop 8 b" using append_take_drop_id [of 2 "drop 8 b"] by simp
    moreover have "take 2 (drop 6 b) @ drop 8 b = drop 6 b" using append_take_drop_id [of 2 "drop 6 b"] by simp
    moreover have "take 2 (drop 4 b) @ drop 6 b = drop 4 b" using append_take_drop_id [of 2 "drop 4 b"] by simp
    ultimately show ?thesis by simp
  qed
  have "filter (\<lambda>c. c \<noteq> CHR ''-'') (uuid_string b) = hex_bytes b"
    by (subst (2) split [symmetric]) (simp add: uuid_string_def hex_bytes_append)
  then show ?thesis
    using n by (intro nth_equalityI) (simp_all add: uuid_bytes_def Let_def take_drop_hex parse_hex_byte)
qed

definition canonical :: "string \<Rightarrow> bool" where
  "canonical t \<longleftrightarrow> uuid_string (uuid_bytes t) = t"

lemma canonical_uuid: "length b = 16 \<Longrightarrow> canonical (uuid_string b)"
  by (simp add: canonical_def uuid_roundtrip)

lemma canonical_plain: "canonical t \<Longrightarrow> CHR ''_'' \<notin> set t \<and> t \<noteq> []"
proof -
  assume "canonical t"
  then have t: "t = uuid_string (uuid_bytes t)" by (simp add: canonical_def)
  have "CHR ''_'' \<notin> set (uuid_string b)" for b using hex_bytes_plain by (auto simp: uuid_string_def)
  moreover have "uuid_string b \<noteq> []" for b by (simp add: uuid_string_def)
  ultimately show ?thesis by (metis t)
qed

lemma canonical_key: "canonical (fst k) \<Longrightarrow> canonical (snd k) \<Longrightarrow> key_text (key_bytes k) = k"
  by (simp add: key_text_def key_bytes_def canonical_def)

lemma split_on_single: "x \<notin> set s \<Longrightarrow> split_on x s = [s]"
  by (induction s) auto

lemma split_on_append: "x \<notin> set s \<Longrightarrow> split_on x (s @ x # r) = s # split_on x r"
  by (induction s) auto

lemma dir_name_split:
  "canonical t \<Longrightarrow> canonical u \<Longrightarrow> split_on (CHR ''_'') (stream_dir_name t u) = [t, u]"
  using canonical_plain by (simp add: stream_dir_name_def split_on_append split_on_single)

lemma dir_name_inject:
  assumes "canonical t" "canonical u" "canonical t'" "canonical u'"
  shows "stream_dir_name t u = stream_dir_name t' u' \<longleftrightarrow> t = t' \<and> u = u'"
  by (metis assms dir_name_split list.inject)

lemma digits_plain: "c \<in> set (nat_digits n) \<Longrightarrow> digit_char c"
proof (induction n rule: nat_digits.induct)
  case (1 n)
  have d: "digit_char (char_of (48 + m))" if "m < 10" for m :: nat
    using that by (simp add: digit_char_def Let_def)
  show ?case
  proof (cases "n < 10")
    case True
    with 1(2) d show ?thesis by (simp add: nat_digits.simps [of n])
  next
    case False
    with 1 d [of "n mod 10"] show ?thesis by (auto simp: nat_digits.simps [of n])
  qed
qed

lemma nat_digits_ne: "nat_digits n \<noteq> []"
  by (simp add: nat_digits.simps [of n])

lemma number_of_digits [simp]: "number_of (nat_digits n) = Some n"
  using digits_plain by (auto simp: number_of_def nat_digits_ne digits_value_nat_digits list_all_iff)

lemma digits_no_underscore: "CHR ''_'' \<notin> set (nat_digits n)"
  using digits_plain [of "CHR ''_''" n] by (auto simp: digit_char_def Let_def)

lemma gap_name_parts: "tl (split_on (CHR ''_'') (gap_name g)) = [nat_digits (fst g), nat_digits (snd g)]"
  using digits_no_underscore by (simp add: gap_name_def split_on_append split_on_single)

lemma gap_name_inject: "gap_name g = gap_name h \<longleftrightarrow> g = h"
  by (metis gap_name_parts list.inject nat_digits_inject prod_eqI)

lemma file_names_apart [simp]:
  "starts_with ''gap_'' (gap_name g)" "\<not> starts_with ''gap_'' (nat_digits n)" "nat_digits n \<noteq> ''final.json''"
  "gap_name g \<noteq> nat_digits n" "nat_digits n \<noteq> gap_name g" "gap_name g \<noteq> ''final.json''" "\<not> starts_with ''gap_'' ''final.json''"
proof -
  have g: "\<not> digit_char (CHR ''g'')" "\<not> digit_char (CHR ''f'')" by (simp_all add: digit_char_def Let_def)
  have hd: "digit_char (hd (nat_digits n))" for n using digits_plain nat_digits_ne by (metis hd_in_set)
  show "starts_with ''gap_'' (gap_name g)" "\<not> starts_with ''gap_'' ''final.json''" "gap_name g \<noteq> ''final.json''"
    by (simp_all add: starts_with_def gap_name_def)
  show "\<not> starts_with ''gap_'' (nat_digits n)" "nat_digits n \<noteq> ''final.json''"
    using hd [of n] g nat_digits_ne [of n] by (cases "nat_digits n"; auto simp: starts_with_def)+
  show "gap_name g \<noteq> nat_digits n" using hd [of n] g(1) by (cases "nat_digits n") (auto simp: gap_name_def)
  then show "nat_digits n \<noteq> gap_name g" by metis
qed

end
