(* ===== verification/Sink_Recovery.thy ===== *)
theory Sink_Recovery
  imports Sink_Worker
begin

text \<open>
  What the desk's sink worker can rely on its disk for. Memory and disk are kept together by every handler whose writes go
  through, so a worker started again on the disk knows what the old one knew; and the one place where they part is named.
\<close>

subsection \<open>A disk the worker wrote\<close>

definition meta_get :: "meta_store \<Rightarrow> string \<Rightarrow> nat \<Rightarrow> meta_lite option" where
  "meta_get metas d n = (case jm_get metas d of None \<Rightarrow> None | Some ms \<Rightarrow> jm_get ms n)"

lemma meta_get_note: "meta_get (note_meta d m metas) d' n = (if d' = d \<and> n = cm_seq m then Some (lite_of m) else meta_get metas d' n)"
  by (auto simp: meta_get_def note_meta_def jm_get_set split: option.splits)

definition good_file :: "codec_env \<Rightarrow> stream_key \<Rightarrow> string \<Rightarrow> bytes \<Rightarrow> bool" where
  "good_file ce k name b \<longleftrightarrow>
     (\<exists>m. name = nat_digits (cm_seq m) \<and> chunk_meta_json b = Some m \<and> (cm_takeId m, cm_streamId m) = k)
   \<or> (\<exists>g. name = gap_name g)
   \<or> (name = ''final.json'' \<and> (\<exists>n. ce_parse_final ce b = Some n))"

definition canonical_key :: "stream_key \<Rightarrow> bool" where
  "canonical_key k \<longleftrightarrow> canonical (fst k) \<and> canonical (snd k)"

abbreviation dir_name :: "stream_key \<Rightarrow> string" where
  "dir_name k \<equiv> stream_dir_name (fst k) (snd k)"

definition file_at :: "opfs \<Rightarrow> stream_key \<Rightarrow> string \<Rightarrow> bytes option" where
  "file_at fs k name = jm_get (dir_of (dir_name k) fs) name"

definition disk_ok :: "codec_env \<Rightarrow> opfs \<Rightarrow> bool" where
  "disk_ok ce fs \<longleftrightarrow> jm_wf fs \<and> (\<forall>(d, files) \<in> set fs. jm_wf files
     \<and> (\<exists>k. canonical_key k \<and> d = dir_name k \<and> (\<forall>(name, b) \<in> set files. good_file ce k name b)))"

text \<open>What the rescan makes of one stream's files.\<close>

definition rescanned :: "stream_key \<Rightarrow> opfs_dir \<Rightarrow> rescan \<Rightarrow> rescan \<Rightarrow> bool" where
  "rescanned k files s s' \<longleftrightarrow>
     (\<forall>k' n. claims (rs_engine s') k' n \<longleftrightarrow> claims (rs_engine s) k' n \<or> (k' = k \<and> jm_has files (nat_digits n)))
   \<and> (\<forall>k' g. claims_gap (rs_engine s') k' g \<longleftrightarrow> claims_gap (rs_engine s) k' g \<or> (k' = k \<and> jm_has files (gap_name g)))
   \<and> (\<forall>d n. meta_get (rs_metas s') d n
        = (case (if d = dir_name k then jm_get files (nat_digits n) else None) of
             None \<Rightarrow> meta_get (rs_metas s) d n | Some b \<Rightarrow> map_option lite_of (chunk_meta_json b)))"

lemma rescan_file_good:
  assumes "good_file ce k name b" "canonical_key k"
  shows "\<exists>s'. rescan_file (ce_parse_final ce) k (name, b) s = (True, s') \<and> rescanned k [(name, b)] s s'"
proof -
  have ek: "key_text (key_bytes k) = k" using assms(2) canonical_key by (simp add: canonical_key_def)
  from assms(1) consider (chunk) m where "name = nat_digits (cm_seq m)" "chunk_meta_json b = Some m"
    | (gap) g where "name = gap_name g" | (final) n where "name = ''final.json''" "ce_parse_final ce b = Some n"
    unfolding good_file_def by blast
  then show ?thesis
  proof cases
    case chunk
    then show ?thesis
      by (auto simp: rescan_file_def rescanned_def Let_def ek claims_rebuild_chunk claims_gap_rebuild_chunk meta_get_note)
  next
    case gap
    then show ?thesis
      by (auto simp: rescan_file_def rescanned_def Let_def ek gap_name_parts claims_rebuild_gap claims_gap_rebuild_gap
          gap_name_inject prod_eq_iff)
  next
    case final
    moreover have "''final.json'' \<noteq> nat_digits n" "''final.json'' \<noteq> gap_name g" for n g
      using file_names_apart(3) [of n] file_names_apart(6) [of g] by metis+
    ultimately show ?thesis
      by (auto simp: rescan_file_def rescanned_def Let_def ek claims_set_final claims_gap_set_final)
  qed
qed

lemma rescanned_Nil: "rescanned k [] s s"
  by (simp add: rescanned_def)

lemma rescannedD:
  assumes "rescanned k files s s'"
  shows "claims (rs_engine s') k' n \<longleftrightarrow> claims (rs_engine s) k' n \<or> (k' = k \<and> jm_has files (nat_digits n))"
    and "claims_gap (rs_engine s') k' g \<longleftrightarrow> claims_gap (rs_engine s) k' g \<or> (k' = k \<and> jm_has files (gap_name g))"
    and "meta_get (rs_metas s') d n = (case (if d = dir_name k then jm_get files (nat_digits n) else None) of
      None \<Rightarrow> meta_get (rs_metas s) d n | Some b \<Rightarrow> map_option lite_of (chunk_meta_json b))"
proof -
  show "claims (rs_engine s') k' n \<longleftrightarrow> claims (rs_engine s) k' n \<or> (k' = k \<and> jm_has files (nat_digits n))"
    by (rule assms [unfolded rescanned_def, THEN conjunct1, rule_format])
  show "claims_gap (rs_engine s') k' g \<longleftrightarrow> claims_gap (rs_engine s) k' g \<or> (k' = k \<and> jm_has files (gap_name g))"
    by (rule assms [unfolded rescanned_def, THEN conjunct2, THEN conjunct1, rule_format])
  show "meta_get (rs_metas s') d n = (case (if d = dir_name k then jm_get files (nat_digits n) else None) of
      None \<Rightarrow> meta_get (rs_metas s) d n | Some b \<Rightarrow> map_option lite_of (chunk_meta_json b))"
    by (rule assms [unfolded rescanned_def, THEN conjunct2, THEN conjunct2, rule_format])
qed

lemma rescanned_Cons:
  assumes "rescanned k [(name, b)] s s1" "rescanned k files s1 s2" "jm_get files name = None"
  shows "rescanned k ((name, b) # files) s s2"
  unfolding rescanned_def
proof (intro conjI allI)
  fix k' n show "claims (rs_engine s2) k' n \<longleftrightarrow> claims (rs_engine s) k' n \<or> (k' = k \<and> jm_has ((name, b) # files) (nat_digits n))"
    unfolding rescannedD(1) [OF assms(2)] rescannedD(1) [OF assms(1)] by auto
next
  fix k' g show "claims_gap (rs_engine s2) k' g \<longleftrightarrow> claims_gap (rs_engine s) k' g \<or> (k' = k \<and> jm_has ((name, b) # files) (gap_name g))"
    unfolding rescannedD(2) [OF assms(2)] rescannedD(2) [OF assms(1)] by auto
next
  fix d n
  show "meta_get (rs_metas s2) d n = (case (if d = dir_name k then jm_get ((name, b) # files) (nat_digits n) else None) of
      None \<Rightarrow> meta_get (rs_metas s) d n | Some b \<Rightarrow> map_option lite_of (chunk_meta_json b))"
    unfolding rescannedD(3) [OF assms(2)] rescannedD(3) [OF assms(1)]
    using assms(3) by (cases "jm_get files (nat_digits n)") auto
qed

lemma rescan_files_good:
  assumes "\<forall>(name, b) \<in> set files. good_file ce k name b" "canonical_key k" "jm_wf files"
  shows "\<exists>s'. rescan_files (ce_parse_final ce) k files s = (True, s') \<and> rescanned k files s s'"
  using assms
proof (induction files arbitrary: s)
  case (Cons f files)
  obtain name b where f: "f = (name, b)" by (cases f)
  have good: "good_file ce k name b" using Cons.prems(1) f by simp
  have fresh: "jm_get files name = None" using Cons.prems(3) f by (auto simp: jm_wf_def map_of_eq_None_iff)
  from rescan_file_good [OF good Cons.prems(2), of s] obtain s1 where s1:
    "rescan_file (ce_parse_final ce) k (name, b) s = (True, s1)" "rescanned k [(name, b)] s s1" by blast
  have wf: "jm_wf files" and rest: "\<forall>(name, b) \<in> set files. good_file ce k name b"
    using Cons.prems(1,3) f by (auto simp: jm_wf_def)
  from Cons.IH [OF rest Cons.prems(2) wf, of s1] obtain s2 where s2:
    "rescan_files (ce_parse_final ce) k files s1 = (True, s2)" "rescanned k files s1 s2" by blast
  show ?case using s1 s2 f rescanned_Cons [OF s1(2) s2(2) fresh] by auto
qed (auto simp: rescanned_Nil)

text \<open>What a worker knows of each stream is what the files say.\<close>

definition agrees :: "opfs \<Rightarrow> sink_engine \<Rightarrow> meta_store \<Rightarrow> bool" where
  "agrees fs e metas \<longleftrightarrow>
     (\<forall>k n. claims e k n \<longleftrightarrow> canonical_key k \<and> file_at fs k (nat_digits n) \<noteq> None)
   \<and> (\<forall>k g. claims_gap e k g \<longleftrightarrow> canonical_key k \<and> file_at fs k (gap_name g) \<noteq> None)
   \<and> (\<forall>k n. canonical_key k \<longrightarrow> meta_get metas (dir_name k) n
        = Option.bind (file_at fs k (nat_digits n)) (\<lambda>b. map_option lite_of (chunk_meta_json b)))"

lemma agreesD:
  assumes "agrees fs e metas"
  shows "claims e k n \<longleftrightarrow> canonical_key k \<and> file_at fs k (nat_digits n) \<noteq> None"
    and "claims_gap e k g \<longleftrightarrow> canonical_key k \<and> file_at fs k (gap_name g) \<noteq> None"
    and "canonical_key k \<Longrightarrow> meta_get metas (dir_name k) n
        = Option.bind (file_at fs k (nat_digits n)) (\<lambda>b. map_option lite_of (chunk_meta_json b))"
proof -
  show "claims e k n \<longleftrightarrow> canonical_key k \<and> file_at fs k (nat_digits n) \<noteq> None"
    by (rule assms [unfolded agrees_def, THEN conjunct1, rule_format])
  show "claims_gap e k g \<longleftrightarrow> canonical_key k \<and> file_at fs k (gap_name g) \<noteq> None"
    by (rule assms [unfolded agrees_def, THEN conjunct2, THEN conjunct1, rule_format])
  show "canonical_key k \<Longrightarrow> meta_get metas (dir_name k) n
        = Option.bind (file_at fs k (nat_digits n)) (\<lambda>b. map_option lite_of (chunk_meta_json b))"
    by (rule assms [unfolded agrees_def, THEN conjunct2, THEN conjunct2, rule_format])
qed

lemma dir_name_eq: "canonical_key k \<Longrightarrow> canonical_key k' \<Longrightarrow> dir_name k' = dir_name k \<longleftrightarrow> k' = k"
  by (auto simp: canonical_key_def dir_name_inject prod_eq_iff)

lemma file_at_Cons:
  assumes "canonical_key k" "canonical_key k'"
  shows "file_at ((dir_name k, files) # fs) k' name = (if k' = k then jm_get files name else file_at fs k' name)"
  using assms dir_name_eq [of k k'] by (auto simp: file_at_def dir_of_def)

lemma file_at_fresh: "jm_get fs (dir_name k) = None \<Longrightarrow> file_at fs k name = None"
  by (simp add: file_at_def dir_of_def)

text \<open>The rescan adds what the directories hold to what it was given; a stream with a directory starts over in the metas.\<close>

definition rescanned_all :: "opfs \<Rightarrow> rescan \<Rightarrow> rescan \<Rightarrow> bool" where
  "rescanned_all fs s s' \<longleftrightarrow>
     (\<forall>k n. claims (rs_engine s') k n \<longleftrightarrow> claims (rs_engine s) k n \<or> (canonical_key k \<and> file_at fs k (nat_digits n) \<noteq> None))
   \<and> (\<forall>k g. claims_gap (rs_engine s') k g \<longleftrightarrow> claims_gap (rs_engine s) k g \<or> (canonical_key k \<and> file_at fs k (gap_name g) \<noteq> None))
   \<and> (\<forall>k n. canonical_key k \<longrightarrow> meta_get (rs_metas s') (dir_name k) n
        = (if jm_has fs (dir_name k) then Option.bind (file_at fs k (nat_digits n)) (\<lambda>b. map_option lite_of (chunk_meta_json b))
           else meta_get (rs_metas s) (dir_name k) n))"

lemma rescanned_allD:
  assumes "rescanned_all fs s s'"
  shows "claims (rs_engine s') k n \<longleftrightarrow> claims (rs_engine s) k n \<or> (canonical_key k \<and> file_at fs k (nat_digits n) \<noteq> None)"
    and "claims_gap (rs_engine s') k g \<longleftrightarrow> claims_gap (rs_engine s) k g \<or> (canonical_key k \<and> file_at fs k (gap_name g) \<noteq> None)"
    and "canonical_key k \<Longrightarrow> meta_get (rs_metas s') (dir_name k) n
        = (if jm_has fs (dir_name k) then Option.bind (file_at fs k (nat_digits n)) (\<lambda>b. map_option lite_of (chunk_meta_json b))
           else meta_get (rs_metas s) (dir_name k) n)"
proof -
  show "claims (rs_engine s') k n \<longleftrightarrow> claims (rs_engine s) k n \<or> (canonical_key k \<and> file_at fs k (nat_digits n) \<noteq> None)"
    by (rule assms [unfolded rescanned_all_def, THEN conjunct1, rule_format])
  show "claims_gap (rs_engine s') k g \<longleftrightarrow> claims_gap (rs_engine s) k g \<or> (canonical_key k \<and> file_at fs k (gap_name g) \<noteq> None)"
    by (rule assms [unfolded rescanned_all_def, THEN conjunct2, THEN conjunct1, rule_format])
  show "canonical_key k \<Longrightarrow> meta_get (rs_metas s') (dir_name k) n
        = (if jm_has fs (dir_name k) then Option.bind (file_at fs k (nat_digits n)) (\<lambda>b. map_option lite_of (chunk_meta_json b))
           else meta_get (rs_metas s) (dir_name k) n)"
    by (rule assms [unfolded rescanned_all_def, THEN conjunct2, THEN conjunct2, rule_format])
qed

lemma rescanned_all_Cons:
  assumes k: "canonical_key k" and fresh: "jm_get fs (dir_name k) = None"
    and first: "rescanned k files (s\<lparr>rs_metas := jm_set (dir_name k) [] (rs_metas s)\<rparr>) s1" and rest: "rescanned_all fs s1 s2"
  shows "rescanned_all ((dir_name k, files) # fs) s s2"
  unfolding rescanned_all_def
proof (intro conjI allI impI)
  have at_k: "canonical_key k' \<and> file_at ((dir_name k, files) # fs) k' name \<noteq> None
      \<longleftrightarrow> (k' = k \<and> jm_has files name) \<or> (canonical_key k' \<and> file_at fs k' name \<noteq> None)" for k' name
    using k file_at_Cons [OF k, of k' files fs name] file_at_fresh [OF fresh, of name]
    by (cases "k' = k"; cases "canonical_key k'") simp_all
  fix k' n
  show "claims (rs_engine s2) k' n \<longleftrightarrow> claims (rs_engine s) k' n
      \<or> (canonical_key k' \<and> file_at ((dir_name k, files) # fs) k' (nat_digits n) \<noteq> None)"
    unfolding rescanned_allD(1) [OF rest] rescannedD(1) [OF first] at_k by auto
  fix g
  show "claims_gap (rs_engine s2) k' g \<longleftrightarrow> claims_gap (rs_engine s) k' g
      \<or> (canonical_key k' \<and> file_at ((dir_name k, files) # fs) k' (gap_name g) \<noteq> None)"
    unfolding rescanned_allD(2) [OF rest] rescannedD(2) [OF first] at_k by auto
next
  fix k' n assume k': "canonical_key k'"
  have empty: "meta_get (jm_set (dir_name k) [] ms) d n = (if d = dir_name k then None else meta_get ms d n)" for ms d
    by (auto simp: meta_get_def jm_get_set)
  show "meta_get (rs_metas s2) (dir_name k') n
      = (if jm_has ((dir_name k, files) # fs) (dir_name k')
         then Option.bind (file_at ((dir_name k, files) # fs) k' (nat_digits n)) (\<lambda>b. map_option lite_of (chunk_meta_json b))
         else meta_get (rs_metas s) (dir_name k') n)"
    unfolding rescanned_allD(3) [OF rest k'] rescannedD(3) [OF first] file_at_Cons [OF k k']
    using fresh dir_name_eq [OF k k']
    by (cases "k' = k"; cases "jm_get files (nat_digits n)"; cases "jm_get fs (dir_name k')") (simp_all add: empty)
qed

lemma rescan_dirs_good:
  assumes "disk_ok ce fs"
  shows "\<exists>s'. rescan_dirs (ce_parse_final ce) fs s = (True, s') \<and> rescanned_all fs s s'"
  using assms
proof (induction fs arbitrary: s)
  case Nil
  show ?case by (simp add: rescanned_all_def file_at_def dir_of_def)
next
  case (Cons f fs)
  obtain d files where f: "f = (d, files)" by (cases f)
  from Cons.prems f have wf: "jm_wf files" and ok: "disk_ok ce fs" and fresh: "jm_get fs d = None"
    by (auto simp: disk_ok_def jm_wf_def map_of_eq_None_iff)
  from Cons.prems f obtain k where k: "canonical_key k" "d = dir_name k" "\<forall>(name, b) \<in> set files. good_file ce k name b"
    by (auto simp: disk_ok_def)
  have split: "split_on (CHR ''_'') d = [fst k, snd k]" "fst k \<noteq> []" "snd k \<noteq> []"
    using k(1,2) dir_name_split canonical_plain by (auto simp: canonical_key_def)
  define s0 where "s0 = s\<lparr>rs_metas := jm_set (dir_name k) [] (rs_metas s)\<rparr>"
  from rescan_files_good [OF k(3,1) wf, of s0] obtain s1 where s1:
    "rescan_files (ce_parse_final ce) k files s0 = (True, s1)" "rescanned k files s0 s1" by blast
  from Cons.IH [OF ok, of s1] obtain s2 where s2:
    "rescan_dirs (ce_parse_final ce) fs s1 = (True, s2)" "rescanned_all fs s1 s2" by blast
  have "rescanned_all (f # fs) s s2"
    unfolding f k(2) by (rule rescanned_all_Cons [OF k(1) fresh [unfolded k(2)] s1(2) [unfolded s0_def] s2(2)])
  moreover have "rescan_dirs (ce_parse_final ce) (f # fs) s = (True, s2)"
    using s1(1) s2(1) by (simp add: f split s0_def)
  ultimately show ?case by blast
qed

subsection \<open>The handlers keep disk and memory together\<close>

lemma file_at_write:
  assumes "canonical_key k" "canonical_key k'"
  shows "file_at (jm_set (dir_name k) (jm_set name b (dir_of (dir_name k) fs)) fs) k' name'
     = (if k' = k \<and> name' = name then Some b else file_at fs k' name')"
  using dir_name_eq [OF assms] by (auto simp: file_at_def dir_of_def jm_get_set)

lemma file_at_mkdir:
  assumes "canonical_key k" "canonical_key k'"
  shows "file_at (jm_set (dir_name k) (dir_of (dir_name k) fs) fs) k' name = file_at fs k' name"
  using dir_name_eq [OF assms] by (auto simp: file_at_def dir_of_def jm_get_set)

lemma file_at_remove:
  assumes "canonical_key k" "canonical_key k'"
  shows "file_at (jm_delete (dir_name k) fs) k' name = (if k' = k then None else file_at fs k' name)"
  using dir_name_eq [OF assms] by (auto simp: file_at_def dir_of_def jm_get_delete)

lemma disk_ok_dir:
  assumes "disk_ok ce fs" "canonical_key k"
  shows "jm_wf (dir_of (dir_name k) fs) \<and> (\<forall>(name, b) \<in> set (dir_of (dir_name k) fs). good_file ce k name b)"
proof (cases "jm_get fs (dir_name k)")
  case (Some files)
  then have "(dir_name k, files) \<in> set fs" by (rule map_of_SomeD)
  with assms(1) obtain k' where k': "jm_wf files" "canonical_key k'" "dir_name k = dir_name k'"
    "\<forall>(name, b) \<in> set files. good_file ce k' name b" by (auto simp: disk_ok_def)
  with dir_name_eq [OF k'(2) assms(2)] have "k' = k" by simp
  with k'(1,4) Some show ?thesis by (simp add: dir_of_def)
qed (simp add: dir_of_def)

lemma disk_ok_put:
  assumes "disk_ok ce fs" "canonical_key k" "jm_wf files" "\<forall>(name, b) \<in> set files. good_file ce k name b"
  shows "disk_ok ce (jm_set (dir_name k) files fs)"
proof -
  have "\<exists>k'. canonical_key k' \<and> dir_name k = dir_name k' \<and> (\<forall>(name, b) \<in> set files. good_file ce k' name b)"
    using assms(2,4) by (intro exI [of _ k]) simp
  with assms(1,3) show ?thesis unfolding disk_ok_def by (simp add: set_jm_set)
qed

lemma disk_ok_write:
  assumes "disk_ok ce fs" "canonical_key k" "good_file ce k name b"
  shows "disk_ok ce (jm_set (dir_name k) (jm_set name b (dir_of (dir_name k) fs)) fs)"
  using disk_ok_dir [OF assms(1,2)] assms(3) by (intro disk_ok_put [OF assms(1,2)]) (auto simp: set_jm_set)

lemma disk_ok_mkdir:
  assumes "disk_ok ce fs" "canonical_key k"
  shows "disk_ok ce (jm_set (dir_name k) (dir_of (dir_name k) fs) fs)"
  using disk_ok_dir [OF assms] by (intro disk_ok_put [OF assms]) auto

lemma disk_ok_remove: "disk_ok ce fs \<Longrightarrow> disk_ok ce (jm_delete d fs)"
  by (auto simp: disk_ok_def set_jm_delete)

lemma agrees_chunk:
  assumes a: "agrees fs e metas" and k: "canonical_key k" and m: "chunk_meta_json b = Some m"
    and e': "\<And>k' n. claims e' k' n \<longleftrightarrow> claims e k' n \<or> (k' = k \<and> n = cm_seq m)" "\<And>k' g. claims_gap e' k' g \<longleftrightarrow> claims_gap e k' g"
  shows "agrees (jm_set (dir_name k) (jm_set (nat_digits (cm_seq m)) b (dir_of (dir_name k) fs)) fs) e' (note_meta (dir_name k) m metas)"
    (is "agrees ?fs e' ?metas")
  unfolding agrees_def
proof (intro conjI allI impI)
  fix k' n
  show "claims e' k' n \<longleftrightarrow> canonical_key k' \<and> file_at ?fs k' (nat_digits n) \<noteq> None"
    using k file_at_write [OF k, of k' "nat_digits (cm_seq m)" b fs "nat_digits n"]
    by (cases "canonical_key k'"; cases "k' = k") (simp_all add: e'(1) agreesD(1) [OF a])
  fix g
  show "claims_gap e' k' g \<longleftrightarrow> canonical_key k' \<and> file_at ?fs k' (gap_name g) \<noteq> None"
    using file_at_write [OF k, of k' "nat_digits (cm_seq m)" b fs "gap_name g"]
    by (cases "canonical_key k'") (simp_all add: e'(2) agreesD(2) [OF a])
next
  fix k' n assume k': "canonical_key k'"
  show "meta_get ?metas (dir_name k') n
      = Option.bind (file_at ?fs k' (nat_digits n)) (\<lambda>b. map_option lite_of (chunk_meta_json b))"
    unfolding meta_get_note file_at_write [OF k k'] agreesD(3) [OF a k']
    using dir_name_eq [OF k k'] m by simp
qed

lemma agrees_files:
  assumes a: "agrees fs e metas"
    and files: "\<And>k n. canonical_key k \<Longrightarrow> file_at fs' k (nat_digits n) = file_at fs k (nat_digits n)"
    and e': "\<And>k n. claims e' k n \<longleftrightarrow> claims e k n"
      "\<And>k g. claims_gap e' k g \<longleftrightarrow> canonical_key k \<and> file_at fs' k (gap_name g) \<noteq> None"
  shows "agrees fs' e' metas"
  unfolding agrees_def
proof (intro conjI allI impI)
  fix k n show "claims e' k n \<longleftrightarrow> canonical_key k \<and> file_at fs' k (nat_digits n) \<noteq> None"
    using files [of k n] by (cases "canonical_key k") (simp_all add: e'(1) agreesD(1) [OF a])
next
  fix k g show "claims_gap e' k g \<longleftrightarrow> canonical_key k \<and> file_at fs' k (gap_name g) \<noteq> None" by (rule e'(2))
next
  fix k n assume k: "canonical_key k"
  show "meta_get metas (dir_name k) n = Option.bind (file_at fs' k (nat_digits n)) (\<lambda>b. map_option lite_of (chunk_meta_json b))"
    unfolding files [OF k] by (rule agreesD(3) [OF a k])
qed

lemma write_gaps_ok:
  assumes "list_all (\<lambda>out. out = IoOk) outs" "canonical_key k" "disk_ok ce fs"
  shows "\<exists>fs'. write_gaps outs (dir_name k) rs fs = (True, fs') \<and> disk_ok ce fs'
     \<and> (\<forall>k' name. canonical_key k' \<longrightarrow> file_at fs' k' name
          = (if k' = k \<and> (\<exists>g \<in> set rs. name = gap_name g) then Some [] else file_at fs k' name))"
  using assms
proof (induction rs arbitrary: outs fs)
  case (Cons r rs)
  define fs1 where "fs1 = jm_set (dir_name k) (jm_set (gap_name r) [] (dir_of (dir_name k) fs)) fs"
  have ok1: "disk_ok ce fs1"
    unfolding fs1_def by (rule disk_ok_write [OF Cons.prems(3,2)], unfold good_file_def, blast)
  have outs: "list_all (\<lambda>out. out = IoOk) (tl outs)" using Cons.prems(1) by (cases outs) auto
  from Cons.IH [OF outs Cons.prems(2) ok1] obtain fs' where fs': "write_gaps (tl outs) (dir_name k) rs fs1 = (True, fs')"
    "disk_ok ce fs'" "\<forall>k' name. canonical_key k' \<longrightarrow> file_at fs' k' name
          = (if k' = k \<and> (\<exists>g \<in> set rs. name = gap_name g) then Some [] else file_at fs1 k' name)" by blast
  have "write_file (case outs of [] \<Rightarrow> IoOk | out # _ \<Rightarrow> out) (dir_name k) (gap_name r) [] fs = (True, fs1)"
    using Cons.prems(1) by (cases outs) (simp_all add: write_file_def fs1_def)
  then have "write_gaps outs (dir_name k) (r # rs) fs = (True, fs')" using fs'(1) by simp
  moreover have "file_at fs' k' name = (if k' = k \<and> (\<exists>g \<in> set (r # rs). name = gap_name g) then Some [] else file_at fs k' name)"
    if "canonical_key k'" for k' name
  proof -
    have "file_at fs' k' name = (if k' = k \<and> (\<exists>g \<in> set rs. name = gap_name g) then Some [] else file_at fs1 k' name)"
      by (rule fs'(3) [rule_format, OF that])
    also have "file_at fs1 k' name = (if k' = k \<and> name = gap_name r then Some [] else file_at fs k' name)"
      unfolding fs1_def by (rule file_at_write [OF Cons.prems(2) that])
    finally show ?thesis
      by (cases "k' = k"; cases "name = gap_name r"; cases "\<exists>g \<in> set rs. name = gap_name g") simp_all
  qed
  ultimately show ?case using fs'(2) by blast
qed simp

text \<open>A worker that is open, whose disk is well kept and whose memory says what the disk says.\<close>

definition mirrors :: "codec_env \<Rightarrow> desk_sink \<Rightarrow> bool" where
  "mirrors ce w \<longleftrightarrow> dk_root w \<noteq> None \<and> disk_ok ce (dk_files w)
     \<and> (\<exists>e. dk_engine w = Some e \<and> agrees (dk_files w) e (dk_metas w))"

lemma mirrorsI:
  "dk_root w \<noteq> None \<Longrightarrow> disk_ok ce (dk_files w) \<Longrightarrow> dk_engine w = Some e \<Longrightarrow> agrees (dk_files w) e (dk_metas w) \<Longrightarrow> mirrors ce w"
  by (auto simp: mirrors_def)

lemma set_files_simps [simp]:
  "dk_root (set_files fs w) = dk_root w" "dk_engine (set_files fs w) = dk_engine w" "dk_metas (set_files fs w) = dk_metas w"
  "dk_root w \<noteq> None \<Longrightarrow> dk_files (set_files fs w) = fs"
  by (auto simp: set_files_def dk_files_def jm_get_set split: option.splits)

lemma dk_files_update [simp]:
  "dk_files (w\<lparr>dk_engine := e\<rparr>) = dk_files w" "dk_files (w\<lparr>dk_metas := ms\<rparr>) = dk_files w"
  by (simp_all add: dk_files_def split: option.split)

definition all_written :: "sink_env \<Rightarrow> bool" where
  "all_written env \<longleftrightarrow> list_all (\<lambda>out. out = IoOk) (se_outs env)"

lemma first_out_ok: "all_written env \<Longrightarrow> first_out env = IoOk"
  by (cases "se_outs env") (auto simp: all_written_def first_out_def)

lemma key_text_canonical: "key_ok k \<Longrightarrow> canonical_key (key_text k)"
  by (simp add: key_ok_def key_text_def canonical_key_def canonical_uuid)

lemma engine_ingest_quiet:
  assumes "\<And>c. decode_frame b \<noteq> Inr (KnownFrame (AudioChunk c))" "\<And>l. decode_frame b \<noteq> Inr (KnownFrame (GapReport l))"
  shows "snd (engine_ingest b now e) = e \<and> (\<forall>out m. fst (engine_ingest b now e) \<noteq> RChunk out m)
     \<and> (\<forall>k rs. fst (engine_ingest b now e) \<noteq> RGapReport k rs)"
proof (cases "decode_frame b")
  case (Inr d)
  show ?thesis
  proof (cases d)
    case (KnownFrame f)
    with Inr assms show ?thesis by (cases f) (simp_all add: engine_ingest_def)
  qed (simp add: Inr engine_ingest_def)
qed (simp add: engine_ingest_def)

lemma frame_mirrors:
  assumes w: "mirrors ce w" and env: "all_written env"
  shows "mirrors ce (snd (sink_frame env conn b w)) \<and> WorkerError \<notin> set (fst (sink_frame env conn b w))"
proof -
  from w obtain e where root: "dk_root w \<noteq> None" and disk: "disk_ok ce (dk_files w)" and e: "dk_engine w = Some e"
    and agr: "agrees (dk_files w) e (dk_metas w)" by (auto simp: mirrors_def)
  note out = first_out_ok [OF env]
  consider (none) "\<And>c. decode_frame b \<noteq> Inr (KnownFrame (AudioChunk c))" "\<And>l. decode_frame b \<noteq> Inr (KnownFrame (GapReport l))"
    | (chunk) c where "decode_frame b = Inr (KnownFrame (AudioChunk c))"
    | (report) l where "decode_frame b = Inr (KnownFrame (GapReport l))"
    by blast
  then show ?thesis
  proof cases
    case none
    obtain res where res: "engine_ingest b (se_now env) e = (res, e)" "\<And>out m. res \<noteq> RChunk out m" "\<And>k rs. res \<noteq> RGapReport k rs"
      using engine_ingest_quiet [OF none, of "se_now env" e] by (metis prod.collapse)
    have same: "w\<lparr>dk_engine := Some e\<rparr> = w" using e by simp
    show ?thesis
    proof (cases res)
      case RChunk with res(2) show ?thesis by blast
    next
      case RGapReport with res(3) show ?thesis by blast
    qed (use w in \<open>simp_all add: sink_frame_def e res(1) same\<close>)
  next
    case chunk
    define k where "k = key_text (ac_stream c)"
    define m where "m = chunk_meta_of uuid_string c"
    obtain res r where ing: "ingest_chunk (ac_crc32c c = unat (crc32c (ac_payload c))) m (receiver_of k e) = (res, r)"
      by (cases "ingest_chunk (ac_crc32c c = unat (crc32c (ac_payload c))) m (receiver_of k e)")
    note cl = ingest_chunk_claims [OF ing]
    have meta: "chunk_meta_json b = Some m" using chunk by (simp add: chunk_meta_json_def m_def)
    have mk: "(cm_takeId m, cm_streamId m) = k" by (simp add: m_def k_def key_text_def chunk_meta_of_def)
    have k: "canonical_key k"
      using decode_sound [OF chunk] by (simp add: k_def key_text_canonical)
    have ingest: "engine_ingest b (se_now env) e = (RChunk res m, put_receiver k r e)"
      using chunk ing by (simp add: engine_ingest_def Let_def k_def m_def)
    show ?thesis
    proof (cases "res = Stored \<or> res = ContinuityViolation")
      case True
      define fs where "fs = jm_set (dir_name k) (jm_set (nat_digits (cm_seq m)) b (dir_of (dir_name k) (dk_files w))) (dk_files w)"
      have dn: "stream_dir_name (cm_takeId m) (cm_streamId m) = dir_name k" using mk by auto
      have step: "sink_frame env conn b w
          = ([], (set_files fs (w\<lparr>dk_engine := Some (put_receiver k r e)\<rparr>))\<lparr>dk_metas := note_meta (dir_name k) m (dk_metas w)\<rparr>)"
        using True root by (auto simp: sink_frame_def Let_def e ingest out persist_chunk_file_def write_file_def dn fs_def)
      have ok: "disk_ok ce fs" unfolding fs_def
        using meta mk by (intro disk_ok_write [OF disk k]) (auto simp: good_file_def)
      have agr': "agrees fs (put_receiver k r e) (note_meta (dir_name k) m (dk_metas w))"
        unfolding fs_def by (rule agrees_chunk [OF agr k meta]) (use cl True in auto)
      show ?thesis unfolding step
        using root ok agr' by (auto intro!: mirrorsI)
    next
      case False
      have step: "sink_frame env conn b w = ([], w\<lparr>dk_engine := Some (put_receiver k r e)\<rparr>)"
        using False by (simp add: sink_frame_def e ingest)
      have "agrees (dk_files w) (put_receiver k r e) (dk_metas w)"
        by (rule agrees_files [OF agr]) (use cl False agreesD(2) [OF agr] in auto)
      then show ?thesis unfolding step using root disk by (auto intro!: mirrorsI)
    qed
  next
    case report
    define k where "k = key_text (rl_stream l)"
    define r where "r = record_gaps (rl_ranges l) (receiver_of k e)"
    have k: "canonical_key k"
      using decode_sound [OF report] by (simp add: k_def key_text_canonical)
    have ingest: "engine_ingest b (se_now env) e = (RGapReport k (rl_ranges l), put_receiver k r e)"
      using report by (simp add: engine_ingest_def Let_def k_def r_def)
    define fs0 where "fs0 = jm_set (dir_name k) (dir_of (dir_name k) (dk_files w)) (dk_files w)"
    from write_gaps_ok [OF env [unfolded all_written_def] k disk_ok_mkdir [OF disk k], of "rl_ranges l"]
    obtain fs where fs: "write_gaps (se_outs env) (dir_name k) (rl_ranges l) fs0 = (True, fs)" "disk_ok ce fs"
      "\<forall>k' name. canonical_key k' \<longrightarrow> file_at fs k' name
          = (if k' = k \<and> (\<exists>g \<in> set (rl_ranges l). name = gap_name g) then Some [] else file_at fs0 k' name)"
      unfolding fs0_def by blast
    have files: "file_at fs k' name
          = (if k' = k \<and> (\<exists>g \<in> set (rl_ranges l). name = gap_name g) then Some [] else file_at (dk_files w) k' name)"
      if "canonical_key k'" for k' name
      using fs(3) [rule_format, OF that, of name] unfolding fs0_def file_at_mkdir [OF k that] .
    have step: "sink_frame env conn b w = ([], set_files fs (w\<lparr>dk_engine := Some (put_receiver k r e)\<rparr>))"
      using root fs(1) by (auto simp: sink_frame_def Let_def e ingest out fs0_def)
    have cl: "claims (put_receiver k r e) k' n \<longleftrightarrow> claims e k' n"
      "claims_gap (put_receiver k r e) k' g \<longleftrightarrow> claims_gap e k' g \<or> (k' = k \<and> g \<in> set (rl_ranges l))" for k' n g
      using receiver_of_claims(1) [of k e n] receiver_of_claims(2) [of g k e]
      by (auto simp: r_def record_gaps_def claims_put claims_gap_put)
    have "agrees fs (put_receiver k r e) (dk_metas w)"
    proof (rule agrees_files [OF agr])
      fix k' g show "claims_gap (put_receiver k r e) k' g \<longleftrightarrow> canonical_key k' \<and> file_at fs k' (gap_name g) \<noteq> None"
        using files [of k' "gap_name g"] k
        by (cases "canonical_key k'") (auto simp: cl(2) agreesD(2) [OF agr] gap_name_inject)
    qed (auto simp: files cl(1))
    then show ?thesis unfolding step using root fs(2) by (auto intro!: mirrorsI)
  qed
qed

lemma set_final_mirrors:
  assumes w: "mirrors ce w" and env: "all_written env" and ids: "canonical_key (t, u)"
    and json: "\<And>n. ce_parse_final ce (final_text n) = Some n"
  shows "mirrors ce (snd (sink_set_final ce env t u n w)) \<and> WorkerError \<notin> set (fst (sink_set_final ce env t u n w))"
proof -
  from w obtain e where root: "dk_root w \<noteq> None" and disk: "disk_ok ce (dk_files w)" and e: "dk_engine w = Some e"
    and agr: "agrees (dk_files w) e (dk_metas w)" by (auto simp: mirrors_def)
  define e' where "e' = engine_set_final (key_text (key_bytes (t, u))) n e"
  define fs where "fs = jm_set (dir_name (t, u)) (jm_set ''final.json'' (final_text n) (dir_of (dir_name (t, u)) (dk_files w))) (dk_files w)"
  have step: "sink_set_final ce env t u n w = ([], set_files fs (w\<lparr>dk_engine := Some e'\<rparr>))"
    using root first_out_ok [OF env] by (auto simp: sink_set_final_def Let_def e write_file_def e'_def fs_def)
  have ok: "disk_ok ce fs"
    unfolding fs_def by (rule disk_ok_write [OF disk ids], unfold good_file_def, use json in blast)
  have other: "file_at fs k name = file_at (dk_files w) k name" if "canonical_key k" "name \<noteq> ''final.json''" for k name
    using that file_at_write [OF ids that(1)] unfolding fs_def by simp
  have "agrees fs e' (dk_metas w)"
  proof (rule agrees_files [OF agr])
    fix k g show "claims_gap e' k g \<longleftrightarrow> canonical_key k \<and> file_at fs k (gap_name g) \<noteq> None"
      using other [of k "gap_name g"]
      by (cases "canonical_key k") (simp_all add: e'_def claims_gap_set_final agreesD(2) [OF agr])
  qed (simp_all add: other e'_def claims_set_final)
  then show ?thesis unfolding step using root ok by (auto intro!: mirrorsI)
qed

lemma delete_stream_mirrors:
  assumes w: "mirrors ce w" and out: "i < length outs \<longrightarrow> outs ! i = IoOk" and ids: "canonical_key ref"
  shows "mirrors ce (delete_stream outs i ref w)"
proof -
  from w obtain e where root: "dk_root w \<noteq> None" and disk: "disk_ok ce (dk_files w)" and e: "dk_engine w = Some e"
    and agr: "agrees (dk_files w) e (dk_metas w)" by (auto simp: mirrors_def)
  define fs where "fs = jm_delete (dir_name ref) (dk_files w)"
  have ek: "key_text (key_bytes ref) = ref" using ids canonical_key by (simp add: canonical_key_def)
  have step: "delete_stream outs i ref w
      = set_files fs (w\<lparr>dk_engine := Some (remove_stream ref e), dk_metas := jm_delete (dir_name ref) (dk_metas w)\<rparr>)"
    using out ek by (cases ref) (auto simp: delete_stream_def Let_def e fs_def)
  note at_fs = file_at_remove [OF ids, of _ "dk_files w", folded fs_def]
  have "agrees fs (remove_stream ref e) (jm_delete (dir_name ref) (dk_metas w))"
    unfolding agrees_def
  proof (intro conjI allI impI)
    fix k n show "claims (remove_stream ref e) k n \<longleftrightarrow> canonical_key k \<and> file_at fs k (nat_digits n) \<noteq> None"
      by (cases "canonical_key k") (simp_all add: at_fs claims_remove agreesD(1) [OF agr])
  next
    fix k g show "claims_gap (remove_stream ref e) k g \<longleftrightarrow> canonical_key k \<and> file_at fs k (gap_name g) \<noteq> None"
      by (cases "canonical_key k") (simp_all add: at_fs claims_gap_remove agreesD(2) [OF agr])
  next
    fix k n assume k: "canonical_key k"
    have "meta_get (jm_delete (dir_name ref) (dk_metas w)) (dir_name k) n = (if k = ref then None else meta_get (dk_metas w) (dir_name k) n)"
      using dir_name_eq [OF ids k] by (auto simp: meta_get_def jm_get_delete)
    then show "meta_get (jm_delete (dir_name ref) (dk_metas w)) (dir_name k) n
        = Option.bind (file_at fs k (nat_digits n)) (\<lambda>b. map_option lite_of (chunk_meta_json b))"
      using agreesD(3) [OF agr k, of n] at_fs [OF k, of "nat_digits n"] by simp
  qed
  moreover have "disk_ok ce fs" unfolding fs_def by (rule disk_ok_remove [OF disk])
  ultimately show ?thesis unfolding step using root by (auto intro!: mirrorsI)
qed

definition canonical_message :: "to_sink \<Rightarrow> bool" where
  "canonical_message msg = (case msg of Configure _ \<Rightarrow> False | SetFinal t u _ \<Rightarrow> canonical_key (t, u)
     | DeleteStreams refs \<Rightarrow> list_all canonical_key refs | _ \<Rightarrow> True)"

lemma delete_mirrors:
  assumes "mirrors ce w" "all_written env" "list_all canonical_key refs"
  shows "mirrors ce (fold (\<lambda>(i, ref). delete_stream (se_outs env) i ref) (List.enumerate j refs) w)"
  using assms(1,3)
proof (induction refs arbitrary: j w)
  case (Cons ref refs)
  have "j < length (se_outs env) \<longrightarrow> se_outs env ! j = IoOk"
    using assms(2) by (simp add: all_written_def list_all_length)
  then have "mirrors ce (delete_stream (se_outs env) j ref w)"
    using Cons.prems by (intro delete_stream_mirrors) auto
  with Cons show ?case by simp
qed simp

lemma handle_mirrors:
  assumes "mirrors ce w" "all_written env" "canonical_message msg" "\<And>n. ce_parse_final ce (final_text n) = Some n"
  shows "mirrors ce (snd (sink_handle ce env msg w))"
proof (cases msg)
  case (Configure sess)
  with assms(3) show ?thesis by (simp add: canonical_message_def)
next
  case (Frame conn b)
  then show ?thesis using frame_mirrors [OF assms(1,2), of conn b] by simp
next
  case (SetFinal t u n)
  then show ?thesis using set_final_mirrors [OF assms(1,2) _ assms(4), of t u n] assms(3) by (simp add: canonical_message_def)
next
  case (PlanPush b)
  with assms(1) show ?thesis by (auto simp: mirrors_def split: option.splits)
next
  case (DeleteStreams refs)
  then show ?thesis using delete_mirrors [OF assms(1,2)] assms(3) by (simp add: canonical_message_def)
qed (use assms(1) in \<open>auto simp: mirrors_def split: option.splits\<close>)

text \<open>A worker's life after it is open: what the environment did and which message came, one after the other.\<close>

definition sink_run :: "codec_env \<Rightarrow> (sink_env \<times> to_sink) list \<Rightarrow> desk_sink \<Rightarrow> desk_sink" where
  "sink_run ce steps w = fold (\<lambda>(env, msg) w. snd (sink_handle ce env msg w)) steps w"

lemma run_mirrors:
  assumes "mirrors ce w" "list_all (\<lambda>(env, msg). all_written env \<and> canonical_message msg) steps"
    "\<And>n. ce_parse_final ce (final_text n) = Some n"
  shows "mirrors ce (sink_run ce steps w)"
  using assms(1,2)
proof (induction steps arbitrary: w)
  case (Cons st steps)
  obtain env msg where st: "st = (env, msg)" by (cases st)
  show ?case
    using Cons.IH [of "snd (sink_handle ce env msg w)"] Cons.prems handle_mirrors [OF _ _ _ assms(3), of w env msg]
    by (simp add: sink_run_def st)
qed (simp add: sink_run_def)

lemma configure_mirrors:
  assumes "disk_ok ce (case jm_get disk sess of None \<Rightarrow> [] | Some fs \<Rightarrow> fs)" "all_written env"
  shows "mirrors ce (snd (sink_handle ce env (Configure sess) (boot_sink disk)))
     \<and> (\<exists>n. fst (sink_handle ce env (Configure sess) (boot_sink disk)) = [Ready n])
     \<and> dk_files (snd (sink_handle ce env (Configure sess) (boot_sink disk))) = (case jm_get disk sess of None \<Rightarrow> [] | Some fs \<Rightarrow> fs)
     \<and> dk_root (snd (sink_handle ce env (Configure sess) (boot_sink disk))) = Some sess"
proof -
  define fs where "fs = (case jm_get disk sess of None \<Rightarrow> [] | Some fs \<Rightarrow> fs)"
  define w where "w = set_files fs ((boot_sink disk)\<lparr>dk_root := Some sess\<rparr>)"
  define s0 where "s0 = \<lparr>rs_engine = \<lparr>en_streams = []\<rparr>, rs_metas = [], rs_chunks = 0\<rparr>"
  have w: "dk_root w = Some sess" "dk_files w = fs" "dk_metas w = []"
    by (simp_all add: w_def) (simp add: boot_sink_def)
  have open_fs: "dk_files ((boot_sink disk)\<lparr>dk_root := Some sess\<rparr>) = fs"
    by (simp add: dk_files_def boot_sink_def fs_def)
  have boot_metas: "dk_metas (boot_sink disk) = []" by (simp add: boot_sink_def)
  from rescan_dirs_good [OF assms(1) [folded fs_def], of s0] obtain s where
    s: "rescan_dirs (ce_parse_final ce) fs s0 = (True, s)" "rescanned_all fs s0 s" by blast
  have conf: "sink_handle ce env (Configure sess) (boot_sink disk)
      = ([Ready (rs_chunks s)], w\<lparr>dk_engine := Some (rs_engine s), dk_metas := rs_metas s\<rparr>)"
    using first_out_ok [OF assms(2)] s(1) w
    by (simp add: sink_configure_def Let_def open_fs boot_metas flip: w_def s0_def)
  have "agrees fs (rs_engine s) (rs_metas s)"
    unfolding agrees_def
  proof (intro conjI allI impI)
    fix k n show "claims (rs_engine s) k n \<longleftrightarrow> canonical_key k \<and> file_at fs k (nat_digits n) \<noteq> None"
      unfolding rescanned_allD(1) [OF s(2)] by (simp add: s0_def claims_def)
  next
    fix k g show "claims_gap (rs_engine s) k g \<longleftrightarrow> canonical_key k \<and> file_at fs k (gap_name g) \<noteq> None"
      unfolding rescanned_allD(2) [OF s(2)] by (simp add: s0_def claims_gap_def)
  next
    fix k n assume k: "canonical_key k"
    show "meta_get (rs_metas s) (dir_name k) n = Option.bind (file_at fs k (nat_digits n)) (\<lambda>b. map_option lite_of (chunk_meta_json b))"
      unfolding rescanned_allD(3) [OF s(2) k]
      by (auto simp: s0_def meta_get_def file_at_def dir_of_def)
  qed
  then show ?thesis
    using assms(1) w unfolding conf fs_def [symmetric] by (auto intro!: mirrorsI)
qed

lemma handle_root:
  assumes "canonical_message msg"
  shows "dk_root (snd (sink_handle ce env msg w)) = dk_root w"
proof (cases msg)
  case (Configure sess)
  with assms show ?thesis by (simp add: canonical_message_def)
next
  case (DeleteStreams refs)
  have one: "dk_root (delete_stream outs i ref v) = dk_root v" for outs i ref v
    by (cases ref) (simp add: delete_stream_def Let_def)
  have "dk_root (fold (\<lambda>(i, ref). delete_stream (se_outs env) i ref) xs v) = dk_root v" for xs v
    by (induction xs arbitrary: v) (auto simp: one)
  with DeleteStreams show ?thesis by simp
qed (auto simp: sink_frame_def sink_set_final_def Let_def split: option.splits prod.splits ingest_result.splits)

lemma run_root:
  "list_all (\<lambda>(env, msg). all_written env \<and> canonical_message msg) steps \<Longrightarrow> dk_root (sink_run ce steps w) = dk_root w"
proof (induction steps arbitrary: w)
  case (Cons st steps)
  obtain env msg where st: "st = (env, msg)" by (cases st)
  show ?case
    using Cons.IH [of "snd (sink_handle ce env msg w)"] Cons.prems handle_root [of msg ce env w] by (simp add: sink_run_def st)
qed (simp add: sink_run_def)

text \<open>A session opened on an empty disk and worked through, and a worker started again on the disk it left.\<close>

definition life :: "codec_env \<Rightarrow> string \<Rightarrow> (sink_env \<times> to_sink) list \<Rightarrow> desk_sink" where
  "life ce sess steps = sink_run ce steps (snd (sink_handle ce \<lparr>se_outs = [], se_now = 0\<rparr> (Configure sess) (boot_sink [])))"

definition restart :: "codec_env \<Rightarrow> string \<Rightarrow> desk_sink \<Rightarrow> from_sink list \<times> desk_sink" where
  "restart ce sess w = sink_handle ce \<lparr>se_outs = [], se_now = 0\<rparr> (Configure sess) (boot_sink (dk_disk w))"

lemma life_mirrors:
  assumes "list_all (\<lambda>(env, msg). all_written env \<and> canonical_message msg) steps"
    and "\<And>n. ce_parse_final ce (final_text n) = Some n"
  shows "mirrors ce (life ce sess steps) \<and> dk_root (life ce sess steps) = Some sess"
proof -
  have "disk_ok ce (case jm_get [] sess of None \<Rightarrow> [] | Some fs \<Rightarrow> fs)" by (simp add: disk_ok_def)
  from configure_mirrors [OF this, of "\<lparr>se_outs = [], se_now = 0\<rparr>"] show ?thesis
    unfolding life_def using run_mirrors [OF _ assms] run_root [OF assms(1)] by (simp add: all_written_def)
qed

definition same_knowledge :: "desk_sink \<Rightarrow> desk_sink \<Rightarrow> bool" where
  "same_knowledge w w' \<longleftrightarrow>
     (\<exists>e e'. dk_engine w = Some e \<and> dk_engine w' = Some e'
        \<and> (\<forall>k n. claims e' k n \<longleftrightarrow> claims e k n) \<and> (\<forall>k g. claims_gap e' k g \<longleftrightarrow> claims_gap e k g)
        \<and> (\<forall>k n. canonical_key k \<longrightarrow> meta_get (dk_metas w') (dir_name k) n = meta_get (dk_metas w) (dir_name k) n))"

text \<open>C9. A desk that crashes rejoins as if merely disconnected: after any session in which every write went through, a worker
  started again on the disk reports ready and knows exactly the chunks, the declared gaps and the chunk metas that the
  old one knew, whatever frames came in.
\<close>

theorem restart_recovers:
  assumes "list_all (\<lambda>(env, msg). all_written env \<and> canonical_message msg) steps"
    and "\<And>n. ce_parse_final ce (final_text n) = Some n"
  shows "(\<exists>n. fst (restart ce sess (life ce sess steps)) = [Ready n])
     \<and> same_knowledge (life ce sess steps) (snd (restart ce sess (life ce sess steps)))"
proof -
  define w where "w = life ce sess steps"
  have w: "mirrors ce w" "dk_root w = Some sess" using life_mirrors [OF assms, of sess] by (simp_all add: w_def)
  then obtain e where e: "dk_engine w = Some e" "agrees (dk_files w) e (dk_metas w)" and ok: "disk_ok ce (dk_files w)"
    by (auto simp: mirrors_def)
  have files: "dk_files w = (case jm_get (dk_disk w) sess of None \<Rightarrow> [] | Some fs \<Rightarrow> fs)"
    by (simp add: dk_files_def w(2))
  define w' where "w' = snd (restart ce sess w)"
  from configure_mirrors [OF ok [unfolded files], of "\<lparr>se_outs = [], se_now = 0\<rparr>"]
  have w': "mirrors ce w'" "dk_files w' = dk_files w" and ready: "\<exists>n. fst (restart ce sess w) = [Ready n]"
    by (simp_all add: w'_def restart_def all_written_def files)
  from w' obtain e' where e': "dk_engine w' = Some e'" "agrees (dk_files w) e' (dk_metas w')"
    by (auto simp: mirrors_def)
  have "(\<forall>k n. claims e' k n \<longleftrightarrow> claims e k n) \<and> (\<forall>k g. claims_gap e' k g \<longleftrightarrow> claims_gap e k g)"
    by (simp add: agreesD(1,2) [OF e(2)] agreesD(1,2) [OF e'(2)])
  moreover have "meta_get (dk_metas w') (dir_name k) n = meta_get (dk_metas w) (dir_name k) n" if "canonical_key k" for k n
    by (simp add: agreesD(3) [OF e(2) that] agreesD(3) [OF e'(2) that])
  ultimately show ?thesis
    using ready e(1) e'(1) unfolding same_knowledge_def w_def [symmetric] w'_def [symmetric] by blast
qed

lemma char_of_byte [simp]: "char_of (unat (of_char c :: byte)) = c"
proof -
  have "(of_char c :: byte) = word_of_nat (of_char c)" by (simp add: of_nat_of_char)
  moreover have "(of_char c :: nat) < 2 ^ 8" by simp
  ultimately have "unat (of_char c :: byte) = of_char c" by (simp add: unat_of_nat take_bit_nat_eq_self)
  then show ?thesis by simp
qed

definition sample_codec :: codec_env where
  "sample_codec = \<lparr>ce_parse_final = (\<lambda>b. number_of (butlast (drop 12 (map (\<lambda>x. char_of (unat x)) b)))), ce_utf8 = (\<lambda>_. True), ce_sha256 = (\<lambda>_. [])\<rparr>"

lemma sample_codec_final: "ce_parse_final sample_codec (final_text n) = Some n"
proof -
  have "(\<lambda>x. char_of (unat x)) \<circ> (of_char :: char \<Rightarrow> byte) = id" by (rule ext) simp
  then show ?thesis by (simp add: sample_codec_def final_text_def)
qed

definition sample_key :: frame_key where
  "sample_key = \<lparr>fk_takeId = replicate 16 1, fk_streamId = replicate 16 2\<rparr>"

definition sample_chunk :: audio_chunk where
  "sample_chunk = mk_audio_chunk sample_key 3 4096 4096 99 [7, 8, 9]"

definition sample_session :: "(sink_env \<times> to_sink) list" where
  "sample_session =
     [(\<lparr>se_outs = [IoOk], se_now = 5\<rparr>, Frame 0 (encode_frame (AudioChunk sample_chunk))),
      (\<lparr>se_outs = [], se_now = 6\<rparr>, Frame 0 (encode_frame (GapReport \<lparr>rl_stream = sample_key, rl_ranges = [(1, 2)]\<rparr>))),
      (\<lparr>se_outs = [], se_now = 7\<rparr>, SetFinal (fst (key_text sample_key)) (snd (key_text sample_key)) 3),
      (\<lparr>se_outs = [], se_now = 8\<rparr>, Acks)]"

theorem restart_recovers_witness:
  "(\<exists>n. fst (restart sample_codec ''s'' (life sample_codec ''s'' sample_session)) = [Ready n])
   \<and> same_knowledge (life sample_codec ''s'' sample_session) (snd (restart sample_codec ''s'' (life sample_codec ''s'' sample_session)))"
proof (rule restart_recovers [OF _ sample_codec_final])
  have "canonical_key (key_text sample_key)"
    by (rule key_text_canonical) (simp add: key_ok_def sample_key_def)
  then show "list_all (\<lambda>(env, msg). all_written env \<and> canonical_message msg) sample_session"
    by (simp add: sample_session_def all_written_def canonical_message_def)
qed

text \<open>The promise of persist before acknowledgement breaks where a write fails: the engine has taken the chunk before the
  file is written and is not told of the failure. The worker reports an error, yet claims the chunk from then on, in every
  acknowledgement and summary it sends, while no readable file of it exists.
\<close>

theorem failed_write_still_claimed:
  assumes w: "mirrors ce w" and e: "dk_engine w = Some e" and b: "decode_frame b = Inr (KnownFrame (AudioChunk c))"
    and crc: "ac_crc32c c = unat (crc32c (ac_payload c))" and new: "\<not> claims e (key_text (ac_stream c)) (ac_seq c)"
    and out: "first_out env \<noteq> IoOk"
  shows "\<exists>e'. fst (sink_frame env conn b w) = [WorkerError] \<and> dk_engine (snd (sink_frame env conn b w)) = Some e'
     \<and> claims e' (key_text (ac_stream c)) (ac_seq c)
     \<and> Option.bind (file_at (dk_files (snd (sink_frame env conn b w))) (key_text (ac_stream c)) (nat_digits (ac_seq c))) chunk_meta_json = None"
proof -
  define k where "k = key_text (ac_stream c)"
  define m where "m = chunk_meta_of uuid_string c"
  have root: "dk_root w \<noteq> None" and agr: "agrees (dk_files w) e (dk_metas w)" using w e by (auto simp: mirrors_def)
  have dn: "stream_dir_name (cm_takeId m) (cm_streamId m) = dir_name k" and seq: "cm_seq m = ac_seq c"
    by (simp_all add: m_def k_def key_text_def chunk_meta_of_def)
  have k: "canonical_key k" using decode_sound [OF b] by (simp add: k_def key_text_canonical)
  obtain res r where ing: "ingest_chunk True m (receiver_of k e) = (res, r)" by (cases "ingest_chunk True m (receiver_of k e)")
  have fresh: "jm_get (rc_meta (receiver_of k e)) (cm_seq m) = None"
    using new receiver_of_claims(1) [of k e "cm_seq m"] by (simp add: k_def seq)
  then have res: "res = Stored \<or> res = ContinuityViolation"
    using ing by (auto simp: ingest_chunk_def Let_def split: if_splits)
  have ingest: "engine_ingest b (se_now env) e = (RChunk res m, put_receiver k r e)"
    using b crc ing by (simp add: engine_ingest_def Let_def k_def m_def)
  have none: "file_at (dk_files w) k (nat_digits (ac_seq c)) = None"
    using new agreesD(1) [OF agr, of k "ac_seq c"] k by (simp add: k_def)
  define fs where "fs = snd (write_file (first_out env) (dir_name k) (nat_digits (ac_seq c)) b (dk_files w))"
  have fails: "write_file (first_out env) (dir_name k) (nat_digits (ac_seq c)) b (dk_files w) = (False, fs)"
    using out by (cases "first_out env") (simp_all add: write_file_def fs_def)
  have torn: "Option.bind (file_at fs k (nat_digits (ac_seq c))) chunk_meta_json = None"
    using out none unfolding fs_def
    by (cases "first_out env")
       (simp_all add: write_file_def file_at_def dir_of_def jm_get_set chunk_meta_json_def decode_frame_def split: option.splits)
  have step: "sink_frame env conn b w
      = ([WorkerError], (set_files fs (w\<lparr>dk_engine := Some (put_receiver k r e)\<rparr>))\<lparr>dk_metas := dk_metas w\<rparr>)"
    using res root fails by (auto simp: sink_frame_def Let_def e ingest persist_chunk_file_def dn seq)
  have "claims (put_receiver k r e) k (ac_seq c)" using ingest_chunk_claims(1) [OF ing] res seq by auto
  with torn root show ?thesis unfolding step k_def [symmetric] by simp
qed

lemma sample_chunk_frame: "decode_frame (encode_frame (AudioChunk sample_chunk)) = Inr (KnownFrame (AudioChunk sample_chunk))"
proof (rule decode_encode)
  have "unat (w :: 32 word) < 4294967296" for w using unsigned_less [of w] by simp
  then show "frame_ok (AudioChunk sample_chunk)"
    by (simp add: sample_chunk_def mk_audio_chunk_def sample_key_def key_ok_def max_chunk_payload_bytes_def max_frame_bytes_def u32_def u64_def)
  show "length (encode_frame (AudioChunk sample_chunk)) \<le> max_frame_bytes"
    by (simp add: sample_chunk_def mk_audio_chunk_def sample_key_def encode_frame_def frame_magic_def encode_key_def max_frame_bytes_def)
qed

theorem failed_write_still_claimed_witness:
  "\<exists>e'. fst (sink_frame \<lparr>se_outs = [IoTorn], se_now = 5\<rparr> 0 (encode_frame (AudioChunk sample_chunk)) (life sample_codec ''s'' [])) = [WorkerError]
     \<and> dk_engine (snd (sink_frame \<lparr>se_outs = [IoTorn], se_now = 5\<rparr> 0 (encode_frame (AudioChunk sample_chunk)) (life sample_codec ''s'' []))) = Some e'
     \<and> claims e' (key_text (ac_stream sample_chunk)) (ac_seq sample_chunk)
     \<and> Option.bind (file_at (dk_files (snd (sink_frame \<lparr>se_outs = [IoTorn], se_now = 5\<rparr> 0 (encode_frame (AudioChunk sample_chunk))
          (life sample_codec ''s'' [])))) (key_text (ac_stream sample_chunk)) (nat_digits (ac_seq sample_chunk))) chunk_meta_json = None"
proof -
  have life: "dk_engine (life sample_codec ''s'' []) = Some \<lparr>en_streams = []\<rparr>"
    by (simp add: life_def sink_run_def sink_configure_def Let_def first_out_def boot_sink_def dk_files_def set_files_def)
  have "mirrors sample_codec (life sample_codec ''s'' [])"
    using life_mirrors [of "[]" sample_codec] sample_codec_final by simp
  then show ?thesis
    by (rule failed_write_still_claimed [OF _ life sample_chunk_frame])
       (simp_all add: sample_chunk_def mk_audio_chunk_def claims_def first_out_def)
qed

end
