(* ===== verification/Codec.thy ===== *)
theory Codec
  imports Frame_Codec
begin

text \<open>
  The streaming FLAC encoder of a take: \<open>packages/codec/src/encoder.rs\<close>. Samples come in slabs of any size, are cut into
  blocks, and the encoded blocks are packed into chunks. The block encoder itself is the third-party \<open>flacenc\<close>, a parameter
  that is given the configuration (the normal one or the verbatim fallback), the frame number and the samples.
\<close>

definition block_size :: nat where "block_size = 4096"
definition nominal_chunk_ms :: nat where "nominal_chunk_ms = 500"

record encoder_config =
  ec_sampleRate :: nat
  ec_bitsPerSample :: nat

datatype codec_error =
    UnsupportedBitDepth nat
  | UnsupportedSampleRate nat
  | EncodeFailed
  | FrameTooLarge nat
  | FinishedAlready

record encoded_chunk =
  en_payload :: bytes
  en_firstSample :: nat
  en_sampleCount :: nat

record stream_encoder =
  se_cfg :: encoder_config
  se_pending :: "int list"
  se_nextFrame :: nat
  se_samplesIn :: nat
  se_cursor :: nat
  se_payload :: bytes
  se_first :: nat
  se_samples :: nat
  se_finished :: bool

type_synonym flacenc = "bool \<Rightarrow> nat \<Rightarrow> int list \<Rightarrow> bytes option"

definition validate_config :: "encoder_config \<Rightarrow> codec_error option" where
  "validate_config cfg =
     (if ec_bitsPerSample cfg \<noteq> 16 \<and> ec_bitsPerSample cfg \<noteq> 24 then Some (UnsupportedBitDepth (ec_bitsPerSample cfg))
      else if ec_sampleRate cfg = 0 \<or> 2 ^ 20 \<le> ec_sampleRate cfg then Some (UnsupportedSampleRate (ec_sampleRate cfg))
      else None)"

definition new_encoder :: "encoder_config \<Rightarrow> codec_error + stream_encoder" where
  "new_encoder cfg =
     (case validate_config cfg of
        Some err \<Rightarrow> Inl err
      | None \<Rightarrow> Inr \<lparr>se_cfg = cfg, se_pending = [], se_nextFrame = 0, se_samplesIn = 0, se_cursor = 0, se_payload = [],
          se_first = 0, se_samples = 0, se_finished = False\<rparr>)"

definition nominal_chunk_samples :: "encoder_config \<Rightarrow> nat" where
  "nominal_chunk_samples cfg = ec_sampleRate cfg * nominal_chunk_ms div 1000"

text \<open>The marker and the STREAMINFO block; sizes, total and checksum are unknown while streaming.\<close>

definition codec_header :: "encoder_config \<Rightarrow> bytes" where
  "codec_header cfg =
     (let rate = ec_sampleRate cfg; bps = ec_bitsPerSample cfg - 1
      in [0x66, 0x4C, 0x61, 0x43, 0x80, 0, 0, 0x22] @ [0x10, 0, 0x10, 0] @ replicate 6 0
         @ map of_nat [rate div 2 ^ 12, rate div 2 ^ 4, rate mod 16 * 16 + bps div 16, bps mod 16 * 16]
         @ replicate 20 0)"

text \<open>Web Audio floats to integers: scaled, rounded half away from zero, clamped.\<close>

definition round_away :: "real \<Rightarrow> int" where
  "round_away x = (if x < 0 then - \<lfloor>1 / 2 - x\<rfloor> else \<lfloor>x + 1 / 2\<rfloor>)"

definition quantize_f32 :: "encoder_config \<Rightarrow> real \<Rightarrow> int" where
  "quantize_f32 cfg f =
     (let scale = 2 ^ (ec_bitsPerSample cfg - 1)
      in min (scale - 1) (max (- scale) (round_away (f * real_of_int scale))))"

definition take_chunk :: "stream_encoder \<Rightarrow> encoded_chunk \<times> stream_encoder" where
  "take_chunk e =
     (\<lparr>en_payload = se_payload e, en_firstSample = se_first e, en_sampleCount = se_samples e\<rparr>,
      e\<lparr>se_payload := [], se_samples := 0\<rparr>)"

definition append_frame ::
  "bytes \<Rightarrow> nat \<Rightarrow> encoded_chunk list \<Rightarrow> stream_encoder \<Rightarrow> (codec_error + encoded_chunk list) \<times> stream_encoder" where
  "append_frame frame n out e =
     (if max_chunk_payload_bytes < length frame then (Inl (FrameTooLarge (length frame)), e)
      else let (out, e) = (if se_payload e \<noteq> [] \<and> max_chunk_payload_bytes < length (se_payload e) + length frame
                           then (let (c, e) = take_chunk e in (out @ [c], e)) else (out, e));
               e = (if se_payload e = [] then e\<lparr>se_first := se_cursor e\<rparr> else e);
               e = e\<lparr>se_payload := se_payload e @ frame, se_samples := se_samples e + n, se_cursor := se_cursor e + n\<rparr>
           in if nominal_chunk_samples (se_cfg e) \<le> se_samples e
              then (let (c, e) = take_chunk e in (Inr (out @ [c]), e)) else (Inr out, e))"

definition encode_block :: "flacenc \<Rightarrow> int list \<Rightarrow> stream_encoder \<Rightarrow> (codec_error + bytes) \<times> stream_encoder" where
  "encode_block flac samples e =
     (case flac False (se_nextFrame e) samples of
        None \<Rightarrow> (Inl EncodeFailed, e)
      | Some b \<Rightarrow>
          if length b \<le> max_chunk_payload_bytes then (Inr b, e\<lparr>se_nextFrame := se_nextFrame e + 1\<rparr>)
          else (case flac True (se_nextFrame e) samples of
                  None \<Rightarrow> (Inl EncodeFailed, e)
                | Some b \<Rightarrow>
                    if length b \<le> max_chunk_payload_bytes then (Inr b, e\<lparr>se_nextFrame := se_nextFrame e + 1\<rparr>)
                    else (Inl (FrameTooLarge (length b)), e)))"

definition encode_pending_block ::
  "flacenc \<Rightarrow> encoded_chunk list \<Rightarrow> stream_encoder \<Rightarrow> (codec_error + encoded_chunk list) \<times> stream_encoder" where
  "encode_pending_block flac out e =
     (let samples = se_pending e; e = e\<lparr>se_pending := []\<rparr>
      in case encode_block flac samples e of
           (Inl err, e) \<Rightarrow> (Inl err, e)
         | (Inr b, e) \<Rightarrow> append_frame b (length samples) out e)"

text \<open>
  The loop over a slab. The pending block is never full between two rounds, so every round takes at least one sample; the
  test for a full one stands for the subtraction that cannot underflow.
\<close>

function push_loop ::
  "flacenc \<Rightarrow> int list \<Rightarrow> encoded_chunk list \<Rightarrow> stream_encoder \<Rightarrow> (codec_error + encoded_chunk list) \<times> stream_encoder" where
  "push_loop flac rest out e =
     (if rest = [] \<or> block_size \<le> length (se_pending e) then (Inr out, e)
      else let n = min (block_size - length (se_pending e)) (length rest);
               e = e\<lparr>se_pending := se_pending e @ take n rest\<rparr>; rest = drop n rest
           in if length (se_pending e) = block_size
              then (case encode_pending_block flac out e of
                      (Inl err, e) \<Rightarrow> (Inl err, e)
                    | (Inr out, e) \<Rightarrow> push_loop flac rest out e)
              else push_loop flac rest out e)"
  by pat_completeness auto

termination
  by (relation "measure (\<lambda>(_, rest, _, _). length rest)") (auto simp: min_def)

declare push_loop.simps [simp del]

definition push_i32 :: "flacenc \<Rightarrow> int list \<Rightarrow> stream_encoder \<Rightarrow> (codec_error + encoded_chunk list) \<times> stream_encoder" where
  "push_i32 flac samples e =
     (if se_finished e then (Inl FinishedAlready, e)
      else push_loop flac samples [] (e\<lparr>se_samplesIn := se_samplesIn e + length samples\<rparr>))"

definition push_f32 :: "flacenc \<Rightarrow> real list \<Rightarrow> stream_encoder \<Rightarrow> (codec_error + encoded_chunk list) \<times> stream_encoder" where
  "push_f32 flac samples e = push_i32 flac (map (quantize_f32 (se_cfg e)) samples) e"

definition finish_encoder :: "flacenc \<Rightarrow> stream_encoder \<Rightarrow> (codec_error + encoded_chunk list) \<times> stream_encoder" where
  "finish_encoder flac e =
     (if se_finished e then (Inl FinishedAlready, e)
      else let e = e\<lparr>se_finished := True\<rparr>;
               (res, e) = (if se_pending e = [] then (Inr [], e) else encode_pending_block flac [] e)
           in case res of
                Inl err \<Rightarrow> (Inl err, e)
              | Inr out \<Rightarrow> if 0 < se_samples e then (let (c, e) = take_chunk e in (Inr (out @ [c]), e)) else (Inr out, e))"

subsection \<open>Packing frames into chunks\<close>

text \<open>Chunks that follow one another from sample \<open>a\<close> to sample \<open>b\<close>, none empty, none too big.\<close>

fun tiled :: "nat \<Rightarrow> nat \<Rightarrow> encoded_chunk list \<Rightarrow> nat \<Rightarrow> bool" where
  "tiled nominal a [] b \<longleftrightarrow> a = b"
| "tiled nominal a (c # cs) b \<longleftrightarrow>
     en_firstSample c = a \<and> 0 < en_sampleCount c \<and> en_sampleCount c \<le> nominal + block_size
   \<and> en_payload c \<noteq> [] \<and> length (en_payload c) \<le> max_chunk_payload_bytes
   \<and> tiled nominal (a + en_sampleCount c) cs b"

lemma tiled_append: "tiled nominal a (cs @ ds) b \<longleftrightarrow> (\<exists>m. tiled nominal a cs m \<and> tiled nominal m ds b)"
  by (induction cs arbitrary: a) auto

lemma tiled_snoc:
  "tiled nominal a cs (en_firstSample c) \<Longrightarrow> 0 < en_sampleCount c \<Longrightarrow> en_sampleCount c \<le> nominal + block_size \<Longrightarrow>
   en_payload c \<noteq> [] \<Longrightarrow> length (en_payload c) \<le> max_chunk_payload_bytes \<Longrightarrow>
   tiled nominal a (cs @ [c]) (en_firstSample c + en_sampleCount c)"
  by (auto simp: tiled_append)

text \<open>What the chunks out so far and the one under construction make of the frames appended, with their sample counts.\<close>

definition laid :: "(bytes \<times> nat) list \<Rightarrow> encoded_chunk list \<Rightarrow> stream_encoder \<Rightarrow> bool" where
  "laid frs cs e \<longleftrightarrow>
     concat (map en_payload cs) @ se_payload e = concat (map fst frs)
   \<and> se_cursor e = sum_list (map snd frs) \<and> se_samples e \<le> se_cursor e
   \<and> tiled (nominal_chunk_samples (se_cfg e)) 0 cs (se_cursor e - se_samples e)
   \<and> (se_payload e = [] \<longleftrightarrow> se_samples e = 0) \<and> (se_payload e \<noteq> [] \<longrightarrow> se_first e = se_cursor e - se_samples e)
   \<and> length (se_payload e) \<le> max_chunk_payload_bytes
   \<and> (se_samples e \<noteq> 0 \<longrightarrow> se_samples e < nominal_chunk_samples (se_cfg e))"

lemma laid_input [simp]:
  "laid frs cs (e\<lparr>se_pending := p\<rparr>) = laid frs cs e" "laid frs cs (e\<lparr>se_nextFrame := k\<rparr>) = laid frs cs e"
  "laid frs cs (e\<lparr>se_finished := b\<rparr>) = laid frs cs e" "laid frs cs (e\<lparr>se_samplesIn := k\<rparr>) = laid frs cs e"
  by (simp_all add: laid_def)

definition same_input :: "stream_encoder \<Rightarrow> stream_encoder \<Rightarrow> bool" where
  "same_input e e' \<longleftrightarrow> se_cfg e' = se_cfg e \<and> se_pending e' = se_pending e \<and> se_nextFrame e' = se_nextFrame e
     \<and> se_finished e' = se_finished e \<and> se_samplesIn e' = se_samplesIn e"

lemma take_chunk_laid:
  assumes "laid frs cs e" "se_payload e \<noteq> []" "take_chunk e = (c, e')"
  shows "laid frs (cs @ [c]) e' \<and> same_input e e' \<and> se_payload e' = []"
proof -
  have c: "en_payload c = se_payload e" "en_firstSample c = se_cursor e - se_samples e" "en_sampleCount c = se_samples e"
    and e': "e' = e\<lparr>se_payload := [], se_samples := 0\<rparr>"
    using assms by (auto simp: take_chunk_def laid_def)
  have "tiled (nominal_chunk_samples (se_cfg e)) 0 (cs @ [c]) (en_firstSample c + en_sampleCount c)"
    using assms(1,2) by (intro tiled_snoc) (auto simp: c laid_def)
  moreover have "en_firstSample c + en_sampleCount c = se_cursor e" using assms(1) by (simp add: c laid_def)
  ultimately show ?thesis
    using assms(1) by (simp add: laid_def e' same_input_def c(1))
qed

lemma append_frame_laid:
  assumes p: "laid frs cs e" and f: "frame \<noteq> []" "length frame \<le> max_chunk_payload_bytes" and n: "0 < n" "n \<le> block_size"
  shows "\<exists>new e'. append_frame frame n out e = (Inr (out @ new), e') \<and> laid (frs @ [(frame, n)]) (cs @ new) e' \<and> same_input e e'"
proof -
  define split where "split \<longleftrightarrow> se_payload e \<noteq> [] \<and> max_chunk_payload_bytes < length (se_payload e) + length frame"
  obtain c0 e0 where t0: "take_chunk e = (c0, e0)" by (cases "take_chunk e")
  define pre e1 where "pre = (if split then [c0] else [])" and "e1 = (if split then e0 else e)"
  have p1: "laid frs (cs @ pre) e1" "same_input e e1" "length (se_payload e1) + length frame \<le> max_chunk_payload_bytes"
    using take_chunk_laid [OF p _ t0] p f(2) by (auto simp: pre_def e1_def split_def same_input_def laid_def)
  define e2 where "e2 = (if se_payload e1 = [] then e1\<lparr>se_first := se_cursor e1\<rparr> else e1)"
  define e3 where "e3 = e2\<lparr>se_payload := se_payload e2 @ frame, se_samples := se_samples e2 + n, se_cursor := se_cursor e2 + n\<rparr>"
  have e3: "se_payload e3 = se_payload e1 @ frame" "se_samples e3 = se_samples e1 + n" "se_cursor e3 = se_cursor e1 + n"
    "se_first e3 = se_cursor e1 - se_samples e1" "se_cfg e3 = se_cfg e1" "same_input e1 e3"
    using p1(1) by (auto simp: e3_def e2_def laid_def same_input_def)
  let ?nom = "nominal_chunk_samples (se_cfg e1)"
  have run: "append_frame frame n out e
      = (if ?nom \<le> se_samples e3 then (let (c, e) = take_chunk e3 in (Inr ((out @ pre) @ [c]), e)) else (Inr (out @ pre), e3))"
    using f(2) t0 e3(5) by (simp add: append_frame_def Let_def pre_def e1_def e2_def e3_def split_def)
  have facts: "concat (map en_payload (cs @ pre)) @ se_payload e3 = concat (map fst (frs @ [(frame, n)]))"
    "se_cursor e3 = sum_list (map snd (frs @ [(frame, n)]))" "se_samples e3 \<le> se_cursor e3"
    "tiled ?nom 0 (cs @ pre) (se_cursor e3 - se_samples e3)" "length (se_payload e3) \<le> max_chunk_payload_bytes"
    "se_payload e3 \<noteq> []" "0 < se_samples e3" "se_first e3 = se_cursor e3 - se_samples e3"
    using p1 f n unfolding laid_def by (auto simp: e3)
  have small: "se_samples e3 \<le> ?nom + block_size" using p1(1) n by (cases "se_samples e1 = 0") (simp_all add: e3 laid_def)
  have same: "same_input e e3" using p1(2) e3(6) by (simp add: same_input_def)
  show ?thesis
  proof (cases "?nom \<le> se_samples e3")
    case False
    then have "laid (frs @ [(frame, n)]) (cs @ pre) e3" using facts unfolding laid_def e3(5) by simp
    then show ?thesis using run False same by auto
  next
    case True
    obtain c e4 where t: "take_chunk e3 = (c, e4)" by (cases "take_chunk e3")
    have c: "en_payload c = se_payload e3" "en_firstSample c = se_cursor e3 - se_samples e3" "en_sampleCount c = se_samples e3"
      and e4: "e4 = e3\<lparr>se_payload := [], se_samples := 0\<rparr>"
      using t facts(8) by (auto simp: take_chunk_def)
    have "tiled ?nom 0 ((cs @ pre) @ [c]) (en_firstSample c + en_sampleCount c)"
      by (rule tiled_snoc) (use facts small in \<open>simp_all add: c\<close>)
    then have "laid (frs @ [(frame, n)]) (cs @ pre @ [c]) e4"
      using facts by (simp add: laid_def e4 e3(5) c)
    moreover have "same_input e e4" using same by (simp add: same_input_def e4)
    ultimately show ?thesis using run True t by auto
  qed
qed

text \<open>When a chunk is cut: it has reached the nominal length, or it could not take what comes next (the chunk after it, or
  the payload \<open>p\<close> under construction) within the payload bound.\<close>

fun cut_late :: "nat \<Rightarrow> encoded_chunk list \<Rightarrow> bytes \<Rightarrow> bool" where
  "cut_late nominal [] p \<longleftrightarrow> True"
| "cut_late nominal (c # cs) p \<longleftrightarrow>
     (nominal \<le> en_sampleCount c
      \<or> max_chunk_payload_bytes < length (en_payload c) + length (case cs of [] \<Rightarrow> p | d # _ \<Rightarrow> en_payload d))
   \<and> cut_late nominal cs p"

lemma cut_late_snoc:
  "cut_late nominal (cs @ [c]) p \<longleftrightarrow> cut_late nominal cs (en_payload c)
     \<and> (nominal \<le> en_sampleCount c \<or> max_chunk_payload_bytes < length (en_payload c) + length p)"
  by (induction cs) (auto split: list.split)

lemma cut_late_grows: "cut_late nominal cs p \<Longrightarrow> cut_late nominal cs (p @ q)"
  by (induction cs) (auto split: list.splits)

lemma cut_late_butlast: "cut_late nominal cs p \<Longrightarrow> cut_late nominal (butlast cs) (en_payload (last cs))"
  by (cases cs rule: rev_cases) (simp_all add: cut_late_snoc)

lemma append_frame_cut_late:
  assumes "append_frame frame n out e = (Inr (out @ new), e')"
    and "cut_late (nominal_chunk_samples (se_cfg e)) cs (se_payload e)"
  shows "cut_late (nominal_chunk_samples (se_cfg e)) (cs @ new) (se_payload e')"
proof -
  let ?nom = "nominal_chunk_samples (se_cfg e)"
  define split where "split \<longleftrightarrow> se_payload e \<noteq> [] \<and> max_chunk_payload_bytes < length (se_payload e) + length frame"
  define pre where "pre = (if split then [fst (take_chunk e)] else [])"
  define pay where "pay = (if split then frame else se_payload e @ frame)"
  have early: "cut_late ?nom (cs @ pre) pay"
    using assms(2) by (auto simp: pre_def pay_def split_def take_chunk_def cut_late_snoc
        intro: cut_late_grows cut_late_grows [of _ _ "[]", simplified])
  show ?thesis
  proof (cases "?nom \<le> (if split then 0 else se_samples e) + n")
    case True
    then obtain c where "new = pre @ [c]" "en_payload c = pay" "en_sampleCount c = (if split then 0 else se_samples e) + n"
      using assms(1) by (auto simp: append_frame_def take_chunk_def Let_def pre_def pay_def split_def split: if_splits)
    then have "cut_late ?nom ((cs @ pre) @ [c]) p" for p using early True by (simp only: cut_late_snoc) simp
    then show ?thesis using \<open>new = pre @ [c]\<close> by simp
  next
    case False
    then have "new = pre" "se_payload e' = pay"
      using assms(1) by (auto simp: append_frame_def take_chunk_def Let_def pre_def pay_def split_def split: if_splits)
    then show ?thesis using early by simp
  qed
qed

text \<open>Both together.\<close>

definition packed :: "(bytes \<times> nat) list \<Rightarrow> encoded_chunk list \<Rightarrow> stream_encoder \<Rightarrow> bool" where
  "packed frs cs e \<longleftrightarrow> laid frs cs e \<and> cut_late (nominal_chunk_samples (se_cfg e)) cs (se_payload e)"

lemma packed_input [simp]:
  "packed frs cs (e\<lparr>se_pending := p\<rparr>) = packed frs cs e" "packed frs cs (e\<lparr>se_nextFrame := k\<rparr>) = packed frs cs e"
  "packed frs cs (e\<lparr>se_finished := b\<rparr>) = packed frs cs e" "packed frs cs (e\<lparr>se_samplesIn := k\<rparr>) = packed frs cs e"
  by (simp_all add: packed_def)

lemma append_frame_packed:
  assumes p: "packed frs cs e" and f: "frame \<noteq> []" "length frame \<le> max_chunk_payload_bytes" and n: "0 < n" "n \<le> block_size"
  shows "\<exists>new e'. append_frame frame n out e = (Inr (out @ new), e') \<and> packed (frs @ [(frame, n)]) (cs @ new) e' \<and> same_input e e'"
proof -
  have "laid frs cs e" using p by (simp add: packed_def)
  from append_frame_laid [OF this f n, of out] obtain new e' where
    a: "append_frame frame n out e = (Inr (out @ new), e')" "laid (frs @ [(frame, n)]) (cs @ new) e'" "same_input e e'" by blast
  moreover have "cut_late (nominal_chunk_samples (se_cfg e)) (cs @ new) (se_payload e')"
    using append_frame_cut_late [OF a(1)] p by (simp add: packed_def)
  ultimately show ?thesis by (auto simp: packed_def same_input_def)
qed

subsection \<open>A take is the encoding of its samples\<close>

text \<open>The frame of a block: the normal encoding, or the verbatim one where that is too big.\<close>

definition frame_of :: "flacenc \<Rightarrow> nat \<Rightarrow> int list \<Rightarrow> bytes" where
  "frame_of flac i blk =
     (if length (the (flac False i blk)) \<le> max_chunk_payload_bytes then the (flac False i blk) else the (flac True i blk))"

text \<open>A block encoder that does not fail on the blocks it is given (one to 4096 samples), whose frames are never empty
  and, in the fallback, fit a chunk. What becomes of a block that fails is \<open>failed_block_is_dropped\<close> below.\<close>

definition sound_flacenc :: "flacenc \<Rightarrow> bool" where
  "sound_flacenc flac \<longleftrightarrow>
     (\<forall>i blk. blk \<noteq> [] \<longrightarrow> length blk \<le> block_size \<longrightarrow>
        (\<exists>b. flac False i blk = Some b \<and> b \<noteq> []) \<and> (\<exists>b. flac True i blk = Some b \<and> b \<noteq> [] \<and> length b \<le> max_chunk_payload_bytes))"

lemma sound_flacencD:
  assumes "sound_flacenc flac" "blk \<noteq> []" "length blk \<le> block_size"
  shows "frame_of flac i blk \<noteq> [] \<and> length (frame_of flac i blk) \<le> max_chunk_payload_bytes"
    and "encode_block flac blk e = (Inr (frame_of flac (se_nextFrame e) blk), e\<lparr>se_nextFrame := se_nextFrame e + 1\<rparr>)"
proof -
  have f: "\<exists>b. flac False i blk = Some b \<and> b \<noteq> []" "\<exists>b. flac True i blk = Some b \<and> b \<noteq> [] \<and> length b \<le> max_chunk_payload_bytes"
    for i using assms by (auto simp: sound_flacenc_def)
  show "frame_of flac i blk \<noteq> [] \<and> length (frame_of flac i blk) \<le> max_chunk_payload_bytes"
    using f [of i] by (auto simp: frame_of_def)
  show "encode_block flac blk e = (Inr (frame_of flac (se_nextFrame e) blk), e\<lparr>se_nextFrame := se_nextFrame e + 1\<rparr>)"
    using f [of "se_nextFrame e"] by (auto simp: frame_of_def encode_block_def)
qed

text \<open>The frames of the first \<open>n\<close> full blocks, and of all samples with the short block at the end.\<close>

definition block_at :: "int list \<Rightarrow> nat \<Rightarrow> int list" where
  "block_at xs i = take block_size (drop (i * block_size) xs)"

definition full_frames :: "flacenc \<Rightarrow> int list \<Rightarrow> nat \<Rightarrow> (bytes \<times> nat) list" where
  "full_frames flac xs n = map (\<lambda>i. (frame_of flac i (block_at xs i), block_size)) [0..<n]"

definition all_frames :: "flacenc \<Rightarrow> int list \<Rightarrow> (bytes \<times> nat) list" where
  "all_frames flac xs =
     (let n = length xs div block_size; rest = drop (n * block_size) xs
      in full_frames flac xs n @ (if rest = [] then [] else [(frame_of flac n rest, length rest)]))"

definition encoded :: "flacenc \<Rightarrow> int list \<Rightarrow> encoded_chunk list \<Rightarrow> stream_encoder \<Rightarrow> bool" where
  "encoded flac xs cs e \<longleftrightarrow>
     (let n = length xs div block_size
      in packed (full_frames flac xs n) cs e \<and> se_pending e = drop (n * block_size) xs \<and> se_nextFrame e = n \<and> \<not> se_finished e)"

lemma full_frames_append: "n * block_size \<le> length xs \<Longrightarrow> full_frames flac (xs @ ys) n = full_frames flac xs n"
proof -
  assume n: "n * block_size \<le> length xs"
  have "block_at (xs @ ys) i = block_at xs i" if "i < n" for i
  proof -
    have "(i + 1) * block_size \<le> n * block_size" using that by (intro mult_le_mono1) simp
    then have "block_size \<le> length xs - i * block_size" using n by simp
    then show ?thesis by (simp add: block_at_def)
  qed
  then show ?thesis by (simp add: full_frames_def)
qed

lemma sum_full_frames: "sum_list (map snd (full_frames flac xs n)) = n * block_size"
  by (induction n) (simp_all add: full_frames_def)

lemma block_size_pos: "0 < block_size" by (simp add: block_size_def)

text \<open>One round of the loop: the pending block grows, and is encoded when it is full.\<close>

lemma fill_pending:
  assumes e: "encoded flac xs cs e" and n: "length (se_pending e) + length ys < block_size"
  shows "encoded flac (xs @ ys) cs (e\<lparr>se_pending := se_pending e @ ys\<rparr>)"
proof -
  define m where "m = length xs div block_size"
  have m: "m * block_size \<le> length xs" by (simp add: m_def div_times_less_eq_dividend)
  have "length xs - m * block_size + length ys < block_size"
    using e n by (simp add: encoded_def Let_def flip: m_def)
  then have "length (xs @ ys) < block_size * Suc m" "block_size * m \<le> length (xs @ ys)"
    using m by (simp_all add: mult.commute)
  then have "length (xs @ ys) div block_size = m" by (intro div_nat_eqI)
  then show ?thesis
    using e full_frames_append [OF m, of flac ys] m by (simp add: encoded_def Let_def flip: m_def)
qed

lemma full_pending:
  assumes e: "encoded flac xs cs e" and n: "length (se_pending e) + length ys = block_size" and ys: "ys \<noteq> []" and f: "sound_flacenc flac"
  shows "\<exists>new e'. encode_pending_block flac out (e\<lparr>se_pending := se_pending e @ ys\<rparr>) = (Inr (out @ new), e')
     \<and> encoded flac (xs @ ys) (cs @ new) e' \<and> se_cfg e' = se_cfg e"
proof -
  define m where "m = length xs div block_size"
  have m: "m * block_size \<le> length xs" by (simp add: m_def div_times_less_eq_dividend)
  have pend: "se_pending e = drop (m * block_size) xs" and nf: "se_nextFrame e = m"
    and pk: "packed (full_frames flac xs m) cs e" and fin: "\<not> se_finished e"
    using e by (simp_all add: encoded_def Let_def flip: m_def)
  have len: "length (xs @ ys) = (m + 1) * block_size" using n m pend by simp
  define blk where "blk = se_pending e @ ys"
  have blk: "blk = block_at (xs @ ys) m"
    using n m pend by (simp add: blk_def block_at_def)
  have bl: "blk \<noteq> []" "length blk = block_size" "length blk \<le> block_size" using ys n by (simp_all add: blk_def)
  define e1 where "e1 = e\<lparr>se_pending := [], se_nextFrame := m + 1\<rparr>"
  have "packed (full_frames flac (xs @ ys) m) cs e1"
    using pk full_frames_append [OF m, of flac ys] by (simp add: e1_def)
  note fr = sound_flacencD(1) [OF f bl(1,3), of m]
  from append_frame_packed [OF \<open>packed _ cs e1\<close> fr [THEN conjunct1] fr [THEN conjunct2] block_size_pos order_refl, of out]
  obtain new e' where app: "append_frame (frame_of flac m blk) block_size out e1 = (Inr (out @ new), e')"
    "packed (full_frames flac (xs @ ys) m @ [(frame_of flac m blk, block_size)]) (cs @ new) e'" "same_input e1 e'"
    by auto
  have run: "encode_pending_block flac out (e\<lparr>se_pending := se_pending e @ ys\<rparr>) = (Inr (out @ new), e')"
    using app(1) bl(2)
    by (simp add: encode_pending_block_def Let_def sound_flacencD(2) [OF f bl(1,3)] nf e1_def flip: blk_def)
  have "full_frames flac (xs @ ys) (m + 1) = full_frames flac (xs @ ys) m @ [(frame_of flac m blk, block_size)]"
    by (simp add: full_frames_def blk)
  then have "encoded flac (xs @ ys) (cs @ new) e'"
    using app(2,3) fin block_size_pos unfolding encoded_def len by (simp add: Let_def same_input_def e1_def) (use len in simp)
  then show ?thesis using run app(3) by (auto simp: same_input_def e1_def)
qed

lemma push_loop_encoded:
  assumes "encoded flac xs cs e" "sound_flacenc flac"
  shows "\<exists>new e'. push_loop flac rest out e = (Inr (out @ new), e') \<and> encoded flac (xs @ rest) (cs @ new) e' \<and> se_cfg e' = se_cfg e"
  using assms(1)
proof (induction "length rest" arbitrary: rest xs cs out e rule: less_induct)
  case less
  have lt: "length (se_pending e) < block_size"
    using less.prems block_size_pos by (simp add: encoded_def Let_def minus_div_mult_eq_mod)
  show ?case
  proof (cases "rest = []")
    case True
    then show ?thesis using less.prems by (simp add: push_loop.simps)
  next
    case False
    define n where "n = min (block_size - length (se_pending e)) (length rest)"
    define ys where "ys = take n rest"
    define zs where "zs = drop n rest"
    have split: "rest = ys @ zs" "ys \<noteq> []" "length zs < length rest" using False lt by (auto simp: ys_def zs_def n_def)
    have room: "length (se_pending e) + length ys \<le> block_size" using lt by (simp add: ys_def n_def)
    define e1 where "e1 = e\<lparr>se_pending := se_pending e @ ys\<rparr>"
    have step: "push_loop flac rest out e
        = (if length (se_pending e1) = block_size
           then (case encode_pending_block flac out e1 of (Inl err, e) \<Rightarrow> (Inl err, e) | (Inr out, e) \<Rightarrow> push_loop flac zs out e)
           else push_loop flac zs out e1)"
      unfolding e1_def ys_def zs_def n_def using False lt by (subst push_loop.simps) (simp add: Let_def)
    show ?thesis
    proof (cases "length (se_pending e) + length ys = block_size")
      case True
      from full_pending [OF less.prems True split(2) assms(2), of out, folded e1_def] obtain new e2 where
        e2: "encode_pending_block flac out e1 = (Inr (out @ new), e2)" "encoded flac (xs @ ys) (cs @ new) e2" "se_cfg e2 = se_cfg e" by blast
      from less.hyps [OF split(3) e2(2), of "out @ new"] obtain more e3 where
        "push_loop flac zs (out @ new) e2 = (Inr ((out @ new) @ more), e3)" "encoded flac ((xs @ ys) @ zs) ((cs @ new) @ more) e3" "se_cfg e3 = se_cfg e2"
        by blast
      then show ?thesis using step True e2 split(1) by (intro exI [of _ "new @ more"] exI [of _ e3]) (simp add: e1_def)
    next
      case False
      with room have "encoded flac (xs @ ys) cs e1" unfolding e1_def by (intro fill_pending [OF less.prems]) simp
      from less.hyps [OF split(3) this, of out] obtain new e3 where
        "push_loop flac zs out e1 = (Inr (out @ new), e3)" "encoded flac ((xs @ ys) @ zs) (cs @ new) e3" "se_cfg e3 = se_cfg e1" by blast
      then show ?thesis using step False split(1) by (auto simp: e1_def)
    qed
  qed
qed

lemma push_f32_encoded:
  assumes "encoded flac xs cs e" "sound_flacenc flac"
  shows "\<exists>new e'. push_f32 flac fs e = (Inr new, e') \<and> encoded flac (xs @ map (quantize_f32 (se_cfg e)) fs) (cs @ new) e' \<and> se_cfg e' = se_cfg e"
proof -
  have "encoded flac xs cs (e\<lparr>se_samplesIn := k\<rparr>)" for k using assms(1) by (simp add: encoded_def Let_def)
  from push_loop_encoded [OF this assms(2), of "map (quantize_f32 (se_cfg e)) fs" "[]"]
  show ?thesis using assms(1) by (simp add: push_f32_def push_i32_def encoded_def Let_def)
qed

lemma finish_encoded:
  assumes e: "encoded flac xs cs e" and f: "sound_flacenc flac"
  shows "\<exists>new e'. finish_encoder flac e = (Inr new, e') \<and> concat (map en_payload (cs @ new)) = concat (map fst (all_frames flac xs))
     \<and> tiled (nominal_chunk_samples (se_cfg e)) 0 (cs @ new) (length xs)
     \<and> cut_late (nominal_chunk_samples (se_cfg e)) (butlast (cs @ new)) (en_payload (last (cs @ new)))"
proof -
  define m where "m = length xs div block_size"
  define rest where "rest = drop (m * block_size) xs"
  have pend: "se_pending e = rest" and nf: "se_nextFrame e = m" and fin: "\<not> se_finished e"
    and pk: "packed (full_frames flac xs m) cs e"
    using e by (simp_all add: encoded_def Let_def rest_def flip: m_def)
  have m: "m * block_size \<le> length xs" by (simp add: m_def div_times_less_eq_dividend)
  have short: "length rest \<le> block_size"
    using block_size_pos by (simp add: rest_def m_def minus_div_mult_eq_mod less_imp_le)
  have all: "all_frames flac xs = full_frames flac xs m @ (if rest = [] then [] else [(frame_of flac m rest, length rest)])"
    by (simp add: all_frames_def Let_def rest_def m_def)
  have total: "sum_list (map snd (all_frames flac xs)) = length xs"
    using m by (auto simp: all sum_full_frames rest_def)
  define e0 where "e0 = e\<lparr>se_finished := True\<rparr>"
  have "\<exists>new e1. (if se_pending e0 = [] then (Inr [], e0) else encode_pending_block flac [] e0) = (Inr new, e1)
      \<and> packed (all_frames flac xs) (cs @ new) e1 \<and> se_cfg e1 = se_cfg e"
  proof (cases "rest = []")
    case True
    then show ?thesis using pk pend by (intro exI [of _ "[]"] exI [of _ e0]) (simp add: all e0_def)
  next
    case False
    define e1 where "e1 = e0\<lparr>se_pending := [], se_nextFrame := m + 1\<rparr>"
    have "packed (full_frames flac xs m) cs e1" using pk by (simp add: e1_def e0_def)
    note fr = sound_flacencD(1) [OF f False short, of m]
    from append_frame_packed [OF \<open>packed _ cs e1\<close> fr [THEN conjunct1] fr [THEN conjunct2] _ short, of "[]"] False
    obtain new e2 where "append_frame (frame_of flac m rest) (length rest) [] e1 = (Inr new, e2)"
      "packed (all_frames flac xs) (cs @ new) e2" "same_input e1 e2" by (auto simp: all)
    then show ?thesis
      using False pend nf
      by (intro exI [of _ new] exI [of _ e2])
         (simp add: encode_pending_block_def Let_def sound_flacencD(2) [OF f False short] e1_def e0_def same_input_def)
  qed
  then obtain new e1 where run: "(if se_pending e0 = [] then (Inr [], e0) else encode_pending_block flac [] e0) = (Inr new, e1)"
    and p1: "packed (all_frames flac xs) (cs @ new) e1" and cfg: "se_cfg e1 = se_cfg e" by blast
  have fin_run: "finish_encoder flac e = (if 0 < se_samples e1 then (let (c, e) = take_chunk e1 in (Inr (new @ [c]), e)) else (Inr new, e1))"
    using fin run by (simp add: finish_encoder_def Let_def flip: e0_def)
  show ?thesis
  proof (cases "0 < se_samples e1")
    case True
    obtain c e2 where t: "take_chunk e1 = (c, e2)" by (cases "take_chunk e1")
    have l1: "laid (all_frames flac xs) (cs @ new) e1" "se_payload e1 \<noteq> []"
      "cut_late (nominal_chunk_samples (se_cfg e1)) (cs @ new) (se_payload e1)"
      using p1 True by (auto simp: packed_def laid_def)
    have "laid (all_frames flac xs) ((cs @ new) @ [c]) e2" "se_payload e2 = []" "same_input e1 e2"
      using take_chunk_laid [OF l1(1,2) t] by simp_all
    moreover have "en_payload c = se_payload e1" using t by (auto simp: take_chunk_def)
    ultimately show ?thesis
      using fin_run t True total cfg l1(3)
      by (intro exI [of _ "new @ [c]"] exI [of _ e2]) (auto simp: laid_def same_input_def simp flip: append_assoc)
  next
    case False
    then have "se_payload e1 = []" using p1 by (simp add: packed_def laid_def)
    with False show ?thesis using fin_run p1 total cfg cut_late_butlast by (auto simp: packed_def laid_def)
  qed
qed

text \<open>A whole take: slabs pushed one after the other, then the end.\<close>

fun push_all :: "flacenc \<Rightarrow> real list list \<Rightarrow> stream_encoder \<Rightarrow> (codec_error + encoded_chunk list) \<times> stream_encoder" where
  "push_all flac [] e = (Inr [], e)"
| "push_all flac (s # ss) e =
     (case push_f32 flac s e of
        (Inl err, e) \<Rightarrow> (Inl err, e)
      | (Inr out, e) \<Rightarrow>
          (case push_all flac ss e of (Inl err, e) \<Rightarrow> (Inl err, e) | (Inr out', e) \<Rightarrow> (Inr (out @ out'), e)))"

definition encode_take :: "flacenc \<Rightarrow> encoder_config \<Rightarrow> real list list \<Rightarrow> codec_error + encoded_chunk list" where
  "encode_take flac cfg slabs =
     (case new_encoder cfg of
        Inl err \<Rightarrow> Inl err
      | Inr e \<Rightarrow>
          (case push_all flac slabs e of
             (Inl err, _) \<Rightarrow> Inl err
           | (Inr out, e) \<Rightarrow> map_sum id ((@) out) (fst (finish_encoder flac e))))"

lemma push_all_encoded:
  assumes "encoded flac xs cs e" "sound_flacenc flac"
  shows "\<exists>new e'. push_all flac slabs e = (Inr new, e') \<and> encoded flac (xs @ map (quantize_f32 (se_cfg e)) (concat slabs)) (cs @ new) e'
     \<and> se_cfg e' = se_cfg e"
  using assms(1)
proof (induction slabs arbitrary: xs cs e)
  case (Cons s ss)
  from push_f32_encoded [OF Cons.prems assms(2), of s] obtain new e1 where
    e1: "push_f32 flac s e = (Inr new, e1)" "encoded flac (xs @ map (quantize_f32 (se_cfg e)) s) (cs @ new) e1" "se_cfg e1 = se_cfg e" by blast
  from Cons.IH [OF e1(2)] e1(1,3) show ?case by auto
qed simp

lemma encoded_new: "new_encoder cfg = Inr e \<Longrightarrow> encoded flac [] [] e \<and> se_cfg e = cfg"
  by (auto simp: new_encoder_def encoded_def full_frames_def packed_def laid_def split: option.splits)

text \<open>C33. Lossless or bust, whatever the slabs. For a valid configuration and a block encoder that does not fail, the
  payloads of the chunks of a take, one after the other, are the encodings of the consecutive blocks of its quantized
  samples, the last one short; the chunks tile the sample domain from 0 to the number of samples without gap or
  overlap, each at most one block over the nominal length and within the payload bound; and every chunk but the last has
  the nominal length, unless the chunk after it would not have fitted the payload bound with it. How the samples were
  cut into slabs does not show. A block that fails is lost: see \<open>failed_block_is_dropped\<close>.\<close>

theorem take_is_its_encoding:
  assumes "sound_flacenc flac" "validate_config cfg = None"
  shows "\<exists>cs. encode_take flac cfg slabs = Inr cs
     \<and> concat (map en_payload cs) = concat (map fst (all_frames flac (map (quantize_f32 cfg) (concat slabs))))
     \<and> tiled (nominal_chunk_samples cfg) 0 cs (length (concat slabs))
     \<and> cut_late (nominal_chunk_samples cfg) (butlast cs) (en_payload (last cs))"
proof -
  obtain e where e: "new_encoder cfg = Inr e" using assms(2) by (simp add: new_encoder_def)
  then have start: "encoded flac [] [] e" "se_cfg e = cfg" using encoded_new by blast+
  from push_all_encoded [OF start(1) assms(1), of slabs] obtain new e1 where
    p: "push_all flac slabs e = (Inr new, e1)" "encoded flac (map (quantize_f32 cfg) (concat slabs)) new e1" "se_cfg e1 = cfg"
    using start(2) by auto
  from finish_encoded [OF p(2) assms(1)] obtain last e2 where
    "finish_encoder flac e1 = (Inr last, e2)" "tiled (nominal_chunk_samples cfg) 0 (new @ last) (length (concat slabs))"
    "concat (map en_payload (new @ last)) = concat (map fst (all_frames flac (map (quantize_f32 cfg) (concat slabs))))"
    "cut_late (nominal_chunk_samples cfg) (butlast (new @ last)) (en_payload (List.last (new @ last)))"
    using p(3) by auto
  then show ?thesis using e p(1) by (intro exI [of _ "new @ last"]) (simp add: encode_take_def)
qed

theorem take_is_its_encoding_witness:
  "\<exists>cs. encode_take (\<lambda>_ i blk. Some [of_nat i, of_nat (length blk)]) \<lparr>ec_sampleRate = 48000, ec_bitsPerSample = 24\<rparr> [[0, 1 / 2], [], [1]] = Inr cs
     \<and> concat (map en_payload cs) = [0, 3] \<and> tiled 24000 0 cs 3"
proof -
  define flac :: flacenc where "flac = (\<lambda>_ i blk. Some [of_nat i, of_nat (length blk)])"
  have "sound_flacenc flac" by (simp add: sound_flacenc_def flac_def max_chunk_payload_bytes_def max_frame_bytes_def)
  moreover have "validate_config \<lparr>ec_sampleRate = 48000, ec_bitsPerSample = 24\<rparr> = None" by (simp add: validate_config_def)
  ultimately obtain cs where cs: "encode_take flac \<lparr>ec_sampleRate = 48000, ec_bitsPerSample = 24\<rparr> [[0, 1 / 2], [], [1]] = Inr cs"
    "concat (map en_payload cs) = concat (map fst (all_frames flac (map (quantize_f32 \<lparr>ec_sampleRate = 48000, ec_bitsPerSample = 24\<rparr>) (concat [[0, 1 / 2], [], [1]]))))"
    "tiled (nominal_chunk_samples \<lparr>ec_sampleRate = 48000, ec_bitsPerSample = 24\<rparr>) 0 cs (length (concat [[0, 1 / 2], [], [1 :: real]]))"
    using take_is_its_encoding [of flac "\<lparr>ec_sampleRate = 48000, ec_bitsPerSample = 24\<rparr>" "[[0, 1 / 2], [], [1]]"] by blast
  have "all_frames flac [a, b, c] = [([0, 3], 3)]" for a b c
    by (simp add: all_frames_def full_frames_def frame_of_def block_size_def flac_def max_chunk_payload_bytes_def max_frame_bytes_def)
  moreover have len: "length (concat [[0, 1 / 2], [], [1 :: real]]) = 3" by simp
  moreover have "tiled 24000 0 cs 3" using cs(3) unfolding len by (simp add: nominal_chunk_samples_def nominal_chunk_ms_def)
  ultimately show ?thesis
    using cs(1,2) unfolding flac_def by auto
qed

text \<open>
  A block that cannot be encoded is dropped in silence: the samples have left the pending buffer, the cursor has not moved,
  and what follows is numbered as if they had never been captured.
\<close>

lemma failed_block_is_dropped:
  assumes "flac False (se_nextFrame e) (se_pending e) = None"
  shows "encode_pending_block flac out e = (Inl EncodeFailed, e\<lparr>se_pending := []\<rparr>)"
  using assms by (simp add: encode_pending_block_def encode_block_def Let_def)

end
