(* ===== verification/Time_Sync.thy ===== *)
theory Time_Sync
  imports Frame_Codec
begin

text \<open>
  The clock estimate between a recorder and a sink: \<open>packages/core/src/timesync.rs\<close>. Clock readings are microseconds,
  ping ids wrap at 32 bits.
\<close>

definition time_sync_window :: nat where "time_sync_window = 16"

record time_sample =
  tm_offset :: int
  tm_rtt :: nat

record time_sync =
  ty_next :: nat
  ty_inFlight :: "(nat \<times> nat) list"
  ty_window :: "time_sample list"

definition new_time_sync :: time_sync where
  "new_time_sync = \<lparr>ty_next = 0, ty_inFlight = [], ty_window = []\<rparr>"

text \<open>The oldest entry goes once there are more than the window holds.\<close>

definition push_bounded :: "'a \<Rightarrow> 'a list \<Rightarrow> 'a list" where
  "push_bounded x xs = (if time_sync_window < length (xs @ [x]) then tl (xs @ [x]) else xs @ [x])"

definition sync_ping :: "nat \<Rightarrow> time_sync \<Rightarrow> (nat \<times> nat) \<times> time_sync" where
  "sync_ping now s =
     ((ty_next s, now), s\<lparr>ty_next := (ty_next s + 1) mod 2 ^ 32, ty_inFlight := push_bounded (ty_next s, now) (ty_inFlight s)\<rparr>)"

definition pong_for :: "nat \<times> nat \<Rightarrow> nat \<Rightarrow> nat \<Rightarrow> frame" where
  "pong_for ping recv send = TimePong (fst ping) (snd ping) recv send"

text \<open>Division of a signed number truncates toward zero.\<close>

definition half :: "int \<Rightarrow> int" where
  "half n = (if n < 0 then - (- n div 2) else n div 2)"

fun remove_ping :: "nat \<Rightarrow> (nat \<times> nat) list \<Rightarrow> (nat \<times> (nat \<times> nat) list) option" where
  "remove_ping i [] = None"
| "remove_ping i ((j, t) # ps) = (if j = i then Some (t, ps) else map_option (\<lambda>(t', ps). (t', (j, t) # ps)) (remove_ping i ps))"

definition sync_pong :: "nat \<Rightarrow> nat \<Rightarrow> nat \<Rightarrow> nat \<Rightarrow> nat \<Rightarrow> time_sync \<Rightarrow> time_sample option \<times> time_sync" where
  "sync_pong i t1 t2 t3 t4 s =
     (case remove_ping i (ty_inFlight s) of
        None \<Rightarrow> (None, s)
      | Some (sent, rest) \<Rightarrow>
          let s = s\<lparr>ty_inFlight := rest\<rparr>;
              offset = half ((int t2 - int sent) + (int t3 - int t4));
              rtt = (int t4 - int sent) - (int t3 - int t2)
          in if t1 \<noteq> sent \<or> t4 < sent \<or> t3 < t2 \<or> rtt < 0 then (None, s)
             else let sample = \<lparr>tm_offset = offset, tm_rtt = nat rtt\<rparr>
                  in (Some sample, s\<lparr>ty_window := push_bounded sample (ty_window s)\<rparr>))"

text \<open>The first of the samples with the least round trip.\<close>

fun least_rtt :: "time_sample list \<Rightarrow> time_sample option" where
  "least_rtt [] = None"
| "least_rtt (x # xs) = (case least_rtt xs of None \<Rightarrow> Some x | Some y \<Rightarrow> Some (if tm_rtt x \<le> tm_rtt y then x else y))"

definition sync_offset :: "time_sync \<Rightarrow> int option" where
  "sync_offset s = map_option tm_offset (least_rtt (ty_window s))"

definition best_rtt :: "time_sync \<Rightarrow> nat option" where
  "best_rtt s = map_option tm_rtt (least_rtt (ty_window s))"

subsection \<open>How far the estimate can be off\<close>

datatype sync_event = Ping nat | Pong nat nat nat nat nat

fun sync_step :: "time_sync \<Rightarrow> sync_event \<Rightarrow> time_sync" where
  "sync_step s (Ping now) = snd (sync_ping now s)"
| "sync_step s (Pong i t1 t2 t3 t4) = snd (sync_pong i t1 t2 t3 t4 s)"

text \<open>A pong of a peer whose clock is \<open>d\<close> ahead and whose frames take time to travel, either way.\<close>

fun honest :: "int \<Rightarrow> sync_event \<Rightarrow> bool" where
  "honest d (Ping now) \<longleftrightarrow> True"
| "honest d (Pong i t1 t2 t3 t4) \<longleftrightarrow> int t1 + d \<le> int t2 \<and> int t3 - d \<le> int t4"

definition close_sample :: "int \<Rightarrow> time_sample \<Rightarrow> bool" where
  "close_sample d x \<longleftrightarrow> 2 * \<bar>tm_offset x - d\<bar> \<le> int (tm_rtt x) + 1"

lemma half_close: "2 * \<bar>half n - d\<bar> \<le> \<bar>n - 2 * d\<bar> + 1"
  by (auto simp: half_def abs_if)

lemma set_push_bounded: "set (push_bounded x xs) \<subseteq> insert x (set xs)"
proof -
  have "set (tl ys) \<subseteq> set ys" for ys :: "'a list" by (cases ys) auto
  from this [of "xs @ [x]"] show ?thesis by (auto simp: push_bounded_def)
qed

lemma length_push_bounded: "length xs \<le> time_sync_window \<Longrightarrow> length (push_bounded x xs) \<le> time_sync_window"
  by (auto simp: push_bounded_def)

definition sync_inv :: "int \<Rightarrow> time_sync \<Rightarrow> bool" where
  "sync_inv d s \<longleftrightarrow> length (ty_inFlight s) \<le> time_sync_window \<and> length (ty_window s) \<le> time_sync_window
     \<and> list_all (close_sample d) (ty_window s)"

lemma remove_ping_length: "remove_ping i ps = Some (t, rest) \<Longrightarrow> length rest \<le> length ps"
  by (induction ps arbitrary: rest) (fastforce split: if_splits)+

lemma clock_step_inv:
  assumes "sync_inv d s" "honest d ev"
  shows "sync_inv d (sync_step s ev)"
proof (cases ev)
  case (Ping now)
  then show ?thesis using assms(1) length_push_bounded by (auto simp: sync_inv_def sync_ping_def)
next
  case (Pong i t1 t2 t3 t4)
  show ?thesis
  proof (cases "remove_ping i (ty_inFlight s)")
    case None
    with Pong assms(1) show ?thesis by (simp add: sync_pong_def)
  next
    case (Some p)
    obtain sent rest where p: "p = (sent, rest)" by (cases p)
    define x where "x = \<lparr>tm_offset = half ((int t2 - int sent) + (int t3 - int t4)), tm_rtt = nat ((int t4 - int sent) - (int t3 - int t2))\<rparr>"
    have short: "length rest \<le> time_sync_window"
      using remove_ping_length [OF Some [unfolded p]] assms(1) by (simp add: sync_inv_def)
    have "close_sample d x" if "t1 = sent" "0 \<le> (int t4 - int sent) - (int t3 - int t2)"
      using that assms(2) Pong half_close [of "(int t2 - int sent) + (int t3 - int t4)" d]
      by (simp add: close_sample_def x_def) arith
    then have "list_all (close_sample d) (push_bounded x (ty_window s))"
      if "t1 = sent" "0 \<le> (int t4 - int sent) - (int t3 - int t2)"
      using that assms(1) set_push_bounded [of x "ty_window s"] by (auto simp: sync_inv_def list_all_iff)
    then show ?thesis
      using short assms(1) length_push_bounded [of "ty_window s" x]
      by (auto simp: Pong Some p sync_pong_def Let_def sync_inv_def simp flip: x_def)
  qed
qed

lemma least_rtt_None: "least_rtt xs = None \<longleftrightarrow> xs = []"
  by (cases xs) (auto split: option.splits)

lemma least_rtt_spec:
  "least_rtt xs = Some x \<Longrightarrow> x \<in> set xs \<and> (\<forall>y \<in> set xs. tm_rtt x \<le> tm_rtt y)"
proof (induction xs arbitrary: x)
  case (Cons a xs)
  show ?case
  proof (cases "least_rtt xs")
    case None
    with Cons.prems show ?thesis by (simp add: least_rtt_None)
  next
    case (Some y)
    with Cons.IH [OF Some] Cons.prems show ?thesis by (auto split: if_splits)
  qed
qed simp

text \<open>However pings and pongs are lost, repeated or reordered, as long as the pongs are those of one peer whose clock is \<open>d\<close> ahead, the estimate is off by at most half the best round trip of the window, rounded up;
  and neither the pings in flight nor the window ever hold more than sixteen entries.\<close>

theorem offset_within_half_rtt:
  assumes "list_all (honest d) evs" "sync_offset (run sync_step new_time_sync evs) = Some off"
  shows "\<exists>rtt. best_rtt (run sync_step new_time_sync evs) = Some rtt \<and> 2 * \<bar>off - d\<bar> \<le> int rtt + 1
     \<and> length (ty_inFlight (run sync_step new_time_sync evs)) \<le> time_sync_window
     \<and> length (ty_window (run sync_step new_time_sync evs)) \<le> time_sync_window"
proof -
  have "sync_inv d (run sync_step s evs)" if "sync_inv d s" for s
    using that assms(1) by (induction evs arbitrary: s) (auto simp: clock_step_inv)
  moreover have "sync_inv d new_time_sync" by (simp add: sync_inv_def new_time_sync_def time_sync_window_def)
  ultimately have inv: "sync_inv d (run sync_step new_time_sync evs)" by blast
  from assms(2) obtain x where x: "least_rtt (ty_window (run sync_step new_time_sync evs)) = Some x" "off = tm_offset x"
    by (auto simp: sync_offset_def)
  then have "close_sample d x" using least_rtt_spec [OF x(1)] inv by (auto simp: sync_inv_def list_all_iff)
  then show ?thesis using x inv by (simp add: best_rtt_def close_sample_def sync_inv_def)
qed

text \<open>Two pings to a peer 250 ms ahead; the second travels faster, and its sample wins.\<close>

theorem offset_within_half_rtt_witness:
  "\<exists>rtt. best_rtt (run sync_step new_time_sync [Ping 1000, Ping 2000, Pong 0 1000 256000 256000 46000, Pong 1 2000 252100 252100 2150, Pong 7 0 250000 250000 0]) = Some rtt
     \<and> 2 * \<bar>250025 - 250000\<bar> \<le> int rtt + 1
     \<and> length (ty_inFlight (run sync_step new_time_sync [Ping 1000, Ping 2000, Pong 0 1000 256000 256000 46000, Pong 1 2000 252100 252100 2150, Pong 7 0 250000 250000 0])) \<le> time_sync_window
     \<and> length (ty_window (run sync_step new_time_sync [Ping 1000, Ping 2000, Pong 0 1000 256000 256000 46000, Pong 1 2000 252100 252100 2150, Pong 7 0 250000 250000 0])) \<le> time_sync_window"
  by (rule offset_within_half_rtt [of 250000])
     (simp_all add: new_time_sync_def sync_ping_def sync_pong_def push_bounded_def time_sync_window_def half_def sync_offset_def Let_def)

end
