(* ===== verification/Encoder_Worker.thy ===== *)
theory Encoder_Worker
  imports Sab_Ring Codec Time_Sync Sender Sink_Worker
begin

text \<open>
  The recorder's encoder worker: \<open>apps/web/src/audio/encoder.worker.ts\<close>, the local pseudo-sink \<open>local-take.ts\<close>, the
  messages of \<open>worker-protocol.ts\<close> and the engine of \<open>packages/wasm/src/recorder.rs\<close> behind it. The worker handles one
  message or timer at a time; the audio thread writes the ring in between. Samples are reals, \<open>flacenc\<close>, the bytes of a
  float and UTF-8 validity are parameters.
\<close>

subsection \<open>The recorder engine\<close>

record enc_env =
  ee_flac :: flacenc
  ee_f32 :: "real \<Rightarrow> bytes"
  ee_utf8 :: "bytes \<Rightarrow> bool"

record recorder_engine =
  rn_sender :: stream_sender
  rn_encoder :: stream_encoder
  rn_rate :: nat
  rn_epoch :: nat
  rn_sync :: "(nat, time_sync) jsmap"

record arm_msg =
  am_key :: frame_key
  am_bits :: nat
  am_deviceDesc :: bytes
  am_wallClock :: nat
  am_budget :: nat
  am_retain :: bool

definition u64_max :: nat where "u64_max = 2 ^ 64 - 1"

definition capture_ts_for :: "recorder_engine \<Rightarrow> nat \<Rightarrow> nat" where
  "capture_ts_for g first = min u64_max (rn_epoch g + min u64_max (first * 1000000 div rn_rate g))"

text \<open>The constructor arms at once; \<open>None\<close> is its \<open>JsError\<close>.\<close>

definition new_recorder :: "arm_msg \<Rightarrow> nat \<Rightarrow> nat \<Rightarrow> recorder_engine option" where
  "new_recorder a rate epoch =
     (if length (fk_takeId (am_key a)) \<noteq> 16 \<or> length (fk_streamId (am_key a)) \<noteq> 16 then None
      else case new_encoder \<lparr>ec_sampleRate = rate, ec_bitsPerSample = am_bits a\<rparr> of
        Inl _ \<Rightarrow> None
      | Inr enc \<Rightarrow>
          (case sender_arm \<lparr>sh_codec = 1, sh_channels = 1, sh_bitsPerSample = of_nat (am_bits a), sh_sampleRate = rate,
               sh_clockEpochUs = epoch, sh_wallClockHintMs = am_wallClock a, sh_deviceDesc = am_deviceDesc a,
               sh_codecHeader = codec_header \<lparr>ec_sampleRate = rate, ec_bitsPerSample = am_bits a\<rparr>\<rparr>
               (new_sender (am_key a) (am_budget a)) of
             Inl _ \<Rightarrow> None
           | Inr s \<Rightarrow> Some \<lparr>rn_sender = s, rn_encoder = enc, rn_rate = rate, rn_epoch = epoch, rn_sync = []\<rparr>))"

definition sync_of :: "nat \<Rightarrow> recorder_engine \<Rightarrow> time_sync" where
  "sync_of i g = (case jm_get (rn_sync g) i of None \<Rightarrow> new_time_sync | Some ts \<Rightarrow> ts)"

definition recorder_add_sink :: "nat \<Rightarrow> recorder_engine \<Rightarrow> recorder_engine" where
  "recorder_add_sink i g = g\<lparr>rn_sender := add_sink i (rn_sender g), rn_sync := jm_set i (sync_of i g) (rn_sync g)\<rparr>"

definition recorder_remove_sink :: "nat \<Rightarrow> recorder_engine \<Rightarrow> recorder_engine" where
  "recorder_remove_sink i g = g\<lparr>rn_sender := remove_sink i (rn_sender g), rn_sync := jm_delete i (rn_sync g)\<rparr>"

definition recorder_set_connected :: "nat \<Rightarrow> bool \<Rightarrow> recorder_engine \<Rightarrow> recorder_engine" where
  "recorder_set_connected i up g = g\<lparr>rn_sender := set_connected i up (rn_sender g)\<rparr>"

text \<open>The chunks of one call, until the sender refuses one.\<close>

fun push_chunks :: "encoded_chunk list \<Rightarrow> recorder_engine \<Rightarrow> bool \<times> recorder_engine" where
  "push_chunks [] g = (True, g)"
| "push_chunks (c # cs) g =
     (case push_audio (en_sampleCount c) (capture_ts_for g (en_firstSample c)) (en_payload c) (rn_sender g) of
        Inl _ \<Rightarrow> (False, g)
      | Inr (_, s) \<Rightarrow> push_chunks cs (g\<lparr>rn_sender := s\<rparr>))"

definition recorder_push :: "flacenc \<Rightarrow> real list \<Rightarrow> recorder_engine \<Rightarrow> bool \<times> recorder_engine" where
  "recorder_push flac samples g =
     (case push_f32 flac samples (rn_encoder g) of
        (Inl _, enc) \<Rightarrow> (False, g\<lparr>rn_encoder := enc\<rparr>)
      | (Inr cs, enc) \<Rightarrow> push_chunks cs (g\<lparr>rn_encoder := enc\<rparr>))"

definition recorder_finish :: "flacenc \<Rightarrow> recorder_engine \<Rightarrow> bool \<times> recorder_engine" where
  "recorder_finish flac g =
     (case finish_encoder flac (rn_encoder g) of
        (Inl _, enc) \<Rightarrow> (False, g\<lparr>rn_encoder := enc\<rparr>)
      | (Inr cs, enc) \<Rightarrow>
          (case push_chunks cs (g\<lparr>rn_encoder := enc\<rparr>) of
             (False, g) \<Rightarrow> (False, g)
           | (True, g) \<Rightarrow> (case sender_finish (rn_sender g) of Inl _ \<Rightarrow> (False, g) | Inr s \<Rightarrow> (True, g\<lparr>rn_sender := s\<rparr>))))"

definition recorder_pop :: "nat \<Rightarrow> recorder_engine \<Rightarrow> bytes option \<times> recorder_engine" where
  "recorder_pop i g = (let (f, s) = pop_frame i (rn_sender g) in (map_option encode_frame f, g\<lparr>rn_sender := s\<rparr>))"

text \<open>A frame from a sink: whether it threw, the reply, the engine.\<close>

definition recorder_frame :: "nat \<Rightarrow> bytes \<Rightarrow> nat \<Rightarrow> recorder_engine \<Rightarrow> bool \<times> bytes option \<times> recorder_engine" where
  "recorder_frame i b now g =
     (case decode_frame b of
        Inl (VersionMismatch _) \<Rightarrow> (False, None, g)
      | Inl _ \<Rightarrow> (True, None, g)
      | Inr (UnknownType _) \<Rightarrow> (True, None, g)
      | Inr (KnownFrame f) \<Rightarrow>
          (case f of
             TimePing p t1 \<Rightarrow> (True, Some (encode_frame (pong_for (p, t1) now now)), g)
           | TimePong p t1 t2 t3 \<Rightarrow>
               (True, None, case jm_get (rn_sync g) i of None \<Rightarrow> g
                  | Some ts \<Rightarrow> g\<lparr>rn_sync := jm_set i (snd (sync_pong p t1 t2 t3 now ts)) (rn_sync g)\<rparr>)
           | _ \<Rightarrow> (True, None, g\<lparr>rn_sender := sender_handle_frame i f (rn_sender g)\<rparr>)))"

definition recorder_time_ping :: "nat \<Rightarrow> nat \<Rightarrow> recorder_engine \<Rightarrow> bytes \<times> recorder_engine" where
  "recorder_time_ping i now g =
     (let (ping, ts) = sync_ping now (sync_of i g)
      in (encode_frame (TimePing (fst ping) (snd ping)), g\<lparr>rn_sync := jm_set i ts (rn_sync g)\<rparr>))"

record sink_stats =
  kt_id :: nat
  kt_connected :: bool
  kt_settled :: bool
  kt_idle :: bool
  kt_clockOffset :: "int option"

record recorder_stats =
  st_state :: take_state
  st_nextSeq :: nat
  st_finalSeq :: "nat option"
  st_samplesIn :: nat
  st_ringBytes :: nat
  st_ringChunks :: nat
  st_gaps :: ranges
  st_key :: stream_key
  st_sampleRate :: nat
  st_sinks :: "sink_stats list"

definition stats_of :: "recorder_engine \<Rightarrow> recorder_stats" where
  "stats_of g =
     (let s = rn_sender g
      in \<lparr>st_state = ss_state s, st_nextSeq = ss_nextSeq s, st_finalSeq = ss_finalSeq s, st_samplesIn = se_samplesIn (rn_encoder g),
          st_ringBytes = ri_used (ss_ring s), st_ringChunks = length (ring_seqs (ss_ring s)), st_gaps = ri_gaps (ss_ring s),
          st_key = key_text (ss_stream s), st_sampleRate = rn_rate g,
          st_sinks = map (\<lambda>(i, tx). \<lparr>kt_id = i, kt_connected = tx_connected tx, kt_settled = sink_settled i s,
            kt_idle = sender_is_idle i s, kt_clockOffset = Option.bind (jm_get (rn_sync g) i) sync_offset\<rparr>) (ss_sinks s)\<rparr>)"

text \<open>The experimental frame of the live level.\<close>

definition encode_meter_frame :: "(real \<Rightarrow> bytes) \<Rightarrow> frame_key \<Rightarrow> real \<Rightarrow> bytes" where
  "encode_meter_frame f32 k peak = frame_magic @ [frame_version, 0x80] @ encode_key k @ f32 (max 0 (min 1 peak))"

subsection \<open>The local pseudo-sink\<close>

definition local_sink_id :: nat where "local_sink_id = 0xFFFF"

record local_take =
  lt_retain :: bool
  lt_sink :: "sink_engine option"
  lt_payloads :: "(nat, bytes) jsmap"
  lt_header :: "bytes option"
  lt_total :: nat

definition reset_local_take :: "bool \<Rightarrow> local_take" where
  "reset_local_take retain =
     \<lparr>lt_retain = retain, lt_sink = (if retain then Some \<lparr>en_streams = []\<rparr> else None), lt_payloads = [], lt_header = None, lt_total = 0\<rparr>"

definition attach_local_sink :: "local_take \<Rightarrow> recorder_engine \<Rightarrow> recorder_engine" where
  "attach_local_sink lt g =
     (if lt_retain lt then recorder_set_connected local_sink_id True (recorder_add_sink local_sink_id g) else g)"

definition ack_local :: "local_take \<Rightarrow> nat \<Rightarrow> recorder_engine \<Rightarrow> recorder_engine" where
  "ack_local lt now g =
     (case lt_sink lt of None \<Rightarrow> g
      | Some e \<Rightarrow> fold (\<lambda>ack g. snd (snd (recorder_frame local_sink_id ack now g))) (ack_frames e) g)"

definition retain_frame :: "(bytes \<Rightarrow> bool) \<Rightarrow> nat \<Rightarrow> bytes \<Rightarrow> local_take \<Rightarrow> local_take" where
  "retain_frame utf8 now b lt =
     (let lt = lt\<lparr>lt_sink := map_option (\<lambda>e. snd (engine_ingest b now e)) (lt_sink lt)\<rparr>
      in case (extract_chunk_payload b, chunk_meta_json b) of
           (Some p, Some m) \<Rightarrow>
             if cm_seq m = 0 then (case extract_codec_header utf8 p of None \<Rightarrow> lt | Some h \<Rightarrow> lt\<lparr>lt_header := Some h\<rparr>)
             else if jm_has (lt_payloads lt) (cm_seq m) then lt
             else lt\<lparr>lt_payloads := jm_set (cm_seq m) p (lt_payloads lt), lt_total := lt_total lt + cm_sampleCount m\<rparr>
         | _ \<Rightarrow> lt)"

text \<open>The loop pops until nothing is owed; the backlog is the number of rounds it can take.\<close>

definition drain_local :: "(bytes \<Rightarrow> bool) \<Rightarrow> nat \<Rightarrow> recorder_engine \<Rightarrow> local_take \<Rightarrow> recorder_engine \<times> local_take" where
  "drain_local utf8 now g lt =
     (if \<not> lt_retain lt \<or> lt_sink lt = None then (g, lt)
      else let (fs, s) = pop_all (backlog local_sink_id (rn_sender g)) local_sink_id (rn_sender g);
               g = g\<lparr>rn_sender := s\<rparr>;
               lt = fold (retain_frame utf8 now) (map encode_frame fs) lt
           in (if fs = [] then g else ack_local lt now g, lt))"

definition finalize_local :: "nat \<Rightarrow> nat option \<Rightarrow> recorder_engine \<Rightarrow> local_take \<Rightarrow> recorder_engine \<times> local_take" where
  "finalize_local now finalSeq g lt =
     (case (lt_sink lt, finalSeq) of
        (Some e, Some n) \<Rightarrow>
          let lt = lt\<lparr>lt_sink := Some (engine_set_final (key_text (key_bytes (st_key (stats_of g)))) n e)\<rparr>
          in (ack_local lt now g, lt)
      | _ \<Rightarrow> (g, lt))"

definition build_local_flac :: "local_take \<Rightarrow> bytes option" where
  "build_local_flac lt =
     (case lt_header lt of None \<Rightarrow> None
      | Some h \<Rightarrow>
          Some (with_total_samples h (int (lt_total lt))
            @ concat (map (\<lambda>seq. the (jm_get (lt_payloads lt) seq)) (sort (jm_keys (lt_payloads lt))))))"

subsection \<open>The worker\<close>

datatype to_encoder =
    EncConfigure "real ring" nat
  | EncArm arm_msg
  | EncStop
  | SinkAdd nat
  | SinkConnected nat bool
  | SinkRemove nat
  | EncFrame nat bytes
  | EncDrain nat nat
  | EncTimePing nat
  | EncExport

datatype from_encoder =
    EncReady
  | Armed nat
  | EncFrames nat "bytes list"
  | EncReply nat bytes
  | Pending "nat list"
  | Meter bytes
  | Stats "recorder_stats option" "ring_diagnostics option" real nat
  | Stopped "nat option"
  | ExportResult "bytes option"
  | EncError

record encoder_worker =
  ew_ring :: "real ring option"
  ew_rate :: nat
  ew_engine :: "recorder_engine option"
  ew_peak :: real
  ew_meterIds :: "frame_key option"
  ew_preArm :: "(nat, bool) jsmap"
  ew_pendingArm :: "arm_msg option"
  ew_local :: local_take

definition fresh_worker :: encoder_worker where
  "fresh_worker = \<lparr>ew_ring = None, ew_rate = 48000, ew_engine = None, ew_peak = 0, ew_meterIds = None, ew_preArm = [],
     ew_pendingArm = None, ew_local = reset_local_take False\<rparr>"

definition engine_state :: "encoder_worker \<Rightarrow> take_state option" where
  "engine_state w = map_option (\<lambda>g. ss_state (rn_sender g)) (ew_engine w)"

definition announce_pending :: "encoder_worker \<Rightarrow> from_encoder list" where
  "announce_pending w =
     (case ew_engine w of None \<Rightarrow> []
      | Some g \<Rightarrow>
          let ids = map kt_id (filter (\<lambda>k. kt_id k \<noteq> local_sink_id \<and> kt_connected k \<and> \<not> kt_idle k) (st_sinks (stats_of g)))
          in if ids = [] then [] else [Pending ids])"

definition send_stats :: "(real \<Rightarrow> bytes) \<Rightarrow> encoder_worker \<Rightarrow> from_encoder list" where
  "send_stats f32 w =
     (let stats = map_option (\<lambda>g. let st = stats_of g in st\<lparr>st_sinks := filter (\<lambda>k. kt_id k \<noteq> local_sink_id) (st_sinks st)\<rparr>) (ew_engine w)
      in Stats stats (map_option diagnostics (ew_ring w)) (ew_peak w) (length (lt_payloads (ew_local w)))
         # (case (stats, ew_meterIds w) of
              (Some st, Some k) \<Rightarrow> if st_state st = TakeStreaming then [Meter (encode_meter_frame f32 k (ew_peak w))] else []
            | _ \<Rightarrow> []))"

text \<open>Arming: whether it threw, the messages, the worker. The old engine goes first, whatever becomes of the new one.\<close>

definition do_arm :: "arm_msg \<Rightarrow> nat \<Rightarrow> encoder_worker \<Rightarrow> bool \<times> from_encoder list \<times> encoder_worker" where
  "do_arm a now w =
     (case ew_ring w of None \<Rightarrow> (True, [], w)
      | Some r \<Rightarrow>
          let w = w\<lparr>ew_engine := None, ew_ring := Some (reset_dropped (snap_to_write r)),
                ew_local := reset_local_take (am_retain a), ew_meterIds := Some (am_key a)\<rparr>
          in case new_recorder a (ew_rate w) now of
               None \<Rightarrow> (False, [], w)
             | Some g \<Rightarrow>
                 let g = attach_local_sink (ew_local w) g;
                     g = fold (\<lambda>(i, up) g. recorder_set_connected i up (recorder_add_sink i g)) (ew_preArm w) g
                 in (True, [Armed now], w\<lparr>ew_engine := Some g\<rparr>))"

text \<open>The first lines of the pump: a queued take is armed once the old one has closed.\<close>

definition arm_queued :: "nat \<Rightarrow> encoder_worker \<Rightarrow> bool \<times> from_encoder list \<times> encoder_worker" where
  "arm_queued now w =
     (case ew_pendingArm w of
        Some a \<Rightarrow> if engine_state w = Some TakeClosed then do_arm a now (w\<lparr>ew_pendingArm := None\<rparr>) else (True, [], w)
      | None \<Rightarrow> (True, [], w))"

definition drain_take :: "enc_env \<Rightarrow> nat \<Rightarrow> encoder_worker \<Rightarrow> encoder_worker" where
  "drain_take env now w =
     (case ew_engine w of None \<Rightarrow> w
      | Some g \<Rightarrow> let (g, lt) = drain_local (ee_utf8 env) now g (ew_local w) in w\<lparr>ew_engine := Some g, ew_local := lt\<rparr>)"

text \<open>The rest of it: at most two seconds leave the ring, and reach the encoder while a take is streaming.\<close>

definition pump_ring :: "enc_env \<Rightarrow> nat \<Rightarrow> encoder_worker \<Rightarrow> from_encoder list \<times> encoder_worker" where
  "pump_ring env now w =
     (case ew_ring w of None \<Rightarrow> ([], w)
      | Some r \<Rightarrow>
          let (slab, r) = read_ring (ew_rate w * 2) r;
              w = w\<lparr>ew_ring := Some r\<rparr>;
              w = (if slab = [] then w else w\<lparr>ew_peak := decayed_peak (ew_peak w) slab\<rparr>);
              (ok, w) = (case ew_engine w of
                  Some g \<Rightarrow> if slab \<noteq> [] \<and> ss_state (rn_sender g) = TakeStreaming
                    then (let (ok, g) = recorder_push (ee_flac env) slab g in (ok, w\<lparr>ew_engine := Some g\<rparr>)) else (True, w)
                | None \<Rightarrow> (True, w))
          in if \<not> ok then ([EncError], w) else let w = drain_take env now w in (announce_pending w, w))"

definition pump :: "enc_env \<Rightarrow> nat \<Rightarrow> encoder_worker \<Rightarrow> from_encoder list \<times> encoder_worker" where
  "pump env now w =
     (case arm_queued now w of
        (False, out, w) \<Rightarrow> (out, w)
      | (True, out, w) \<Rightarrow> (let (out', w) = pump_ring env now w in (out @ out', w)))"

definition on_arm :: "arm_msg \<Rightarrow> nat \<Rightarrow> encoder_worker \<Rightarrow> from_encoder list \<times> encoder_worker" where
  "on_arm a now w =
     (if ew_ring w = None then ([EncError], w)
      else if ew_engine w \<noteq> None \<and> engine_state w \<noteq> Some TakeClosed then ([], w\<lparr>ew_pendingArm := Some a\<rparr>)
      else (case do_arm a now w of (True, out, w) \<Rightarrow> (out, w) | (False, out, w) \<Rightarrow> (out @ [EncError], w)))"

definition on_stop :: "enc_env \<Rightarrow> nat \<Rightarrow> encoder_worker \<Rightarrow> from_encoder list \<times> encoder_worker" where
  "on_stop env now w =
     (if ew_pendingArm w \<noteq> None then ([Stopped None], w\<lparr>ew_pendingArm := None\<rparr>)
      else if ew_engine w = None then ([], w)
      else let (out, w) = pump env now w
           in case ew_engine w of None \<Rightarrow> (out @ [EncError], w)
              | Some g \<Rightarrow>
                  (case recorder_finish (ee_flac env) g of
                     (False, g) \<Rightarrow> (out @ [EncError], w\<lparr>ew_engine := Some g\<rparr>)
                   | (True, g) \<Rightarrow>
                       let finalSeq = ss_finalSeq (rn_sender g);
                           w = drain_take env now (w\<lparr>ew_engine := Some g\<rparr>);
                           (g, lt) = finalize_local now finalSeq (the (ew_engine w)) (ew_local w);
                           w = w\<lparr>ew_engine := Some g, ew_local := lt\<rparr>
                       in (out @ announce_pending w @ [Stopped finalSeq], w)))"

text \<open>Frames for a transport until its byte budget is used up; every frame has a header, so the loop ends.\<close>

function drain_frames :: "nat \<Rightarrow> nat \<Rightarrow> stream_sender \<Rightarrow> bytes list \<times> stream_sender" where
  "drain_frames i budget s =
     (if budget = 0 then ([], s)
      else case pop_frame i s of
        (None, s) \<Rightarrow> ([], s)
      | (Some f, s) \<Rightarrow> (let b = encode_frame f; (bs, s) = drain_frames i (budget - length b) s in (b # bs, s)))"
  by pat_completeness auto

termination
proof (relation "measure (\<lambda>(_, budget, _). budget)")
  fix i budget :: nat and s x s' f b
  assume "budget \<noteq> 0" "b = encode_frame f"
  then show "((i, budget - length b, s'), i, budget, s) \<in> measure (\<lambda>(_, budget, _). budget)"
    using length_encode_frame [of f] by simp
qed simp

declare drain_frames.simps [simp del]

definition on_engine :: "(recorder_engine \<Rightarrow> recorder_engine) \<Rightarrow> encoder_worker \<Rightarrow> encoder_worker" where
  "on_engine f w = w\<lparr>ew_engine := map_option f (ew_engine w)\<rparr>"

fun encoder_handle :: "enc_env \<Rightarrow> nat \<Rightarrow> to_encoder \<Rightarrow> encoder_worker \<Rightarrow> from_encoder list \<times> encoder_worker" where
  "encoder_handle env now (EncConfigure r rate) w = ([EncReady], w\<lparr>ew_ring := Some r, ew_rate := rate\<rparr>)"
| "encoder_handle env now (EncArm a) w = on_arm a now w"
| "encoder_handle env now EncStop w = on_stop env now w"
| "encoder_handle env now (SinkAdd i) w =
     ([], on_engine (recorder_add_sink i)
        (w\<lparr>ew_preArm := jm_set i (case jm_get (ew_preArm w) i of None \<Rightarrow> False | Some up \<Rightarrow> up) (ew_preArm w)\<rparr>))"
| "encoder_handle env now (SinkConnected i up) w =
     (let w = on_engine (recorder_set_connected i up) (w\<lparr>ew_preArm := jm_set i up (ew_preArm w)\<rparr>)
      in (if up then announce_pending w else [], w))"
| "encoder_handle env now (SinkRemove i) w = ([], on_engine (recorder_remove_sink i) (w\<lparr>ew_preArm := jm_delete i (ew_preArm w)\<rparr>))"
| "encoder_handle env now (EncFrame i b) w =
     (case ew_engine w of None \<Rightarrow> ([], w)
      | Some g \<Rightarrow>
          (case recorder_frame i b now g of
             (False, _, _) \<Rightarrow> ([EncError], w)
           | (True, reply, g) \<Rightarrow>
               let w = w\<lparr>ew_engine := Some g\<rparr>
               in ((case reply of None \<Rightarrow> [] | Some r \<Rightarrow> [EncReply i r]) @ announce_pending w, w)))"
| "encoder_handle env now (EncDrain i maxBytes) w =
     (case ew_engine w of None \<Rightarrow> ([], w)
      | Some g \<Rightarrow>
          let (bs, s) = drain_frames i maxBytes (rn_sender g)
          in (if bs = [] then [] else [EncFrames i bs], w\<lparr>ew_engine := Some (g\<lparr>rn_sender := s\<rparr>)\<rparr>))"
| "encoder_handle env now (EncTimePing i) w =
     (case ew_engine w of None \<Rightarrow> ([], w)
      | Some g \<Rightarrow> let (b, g) = recorder_time_ping i now g in ([EncReply i b], w\<lparr>ew_engine := Some g\<rparr>))"
| "encoder_handle env now EncExport w = ([ExportResult (build_local_flac (ew_local w))], w)"

end
