(* ===== verification/Capture_Take.thy ===== *)
theory Capture_Take
  imports Encoder_Worker
begin

text \<open>
  What a take consists of. The encoder worker of \<open>Encoder_Worker\<close> and the audio thread that fills its ring run against
  each other; the samples the audio thread had accepted when a take was armed, and those read when it was stopped, are
  kept as history, and the chunks of the take are compared with the samples between the two.
\<close>

subsection \<open>The ring as a queue\<close>

definition ring_holds :: "'a ring \<Rightarrow> 'a list \<Rightarrow> nat \<Rightarrow> bool" where
  "ring_holds r hist pos \<longleftrightarrow>
     ring_ok \<lparr>rw_ring = r, rw_writer = WIdle, rw_reader = RIdle, rw_hist = hist, rw_pos = pos, rw_out = []\<rparr>"

definition accepted :: "'a list \<Rightarrow> 'a ring \<Rightarrow> 'a list" where
  "accepted channel r = (if ring_full channel r then [] else channel)"

lemma ring_holds_out:
  assumes "ring_ok w" "rw_writer w = WIdle" "rw_reader w = RIdle"
  shows "ring_holds (rw_ring w) (rw_hist w) (rw_pos w)"
  using assms by (simp add: ring_holds_def ring_ok_def Sab_Ring.ring_inv_def)

lemma ring_holds_pos: "ring_holds r hist pos \<Longrightarrow> pos \<le> length hist \<and> length hist \<le> pos + ring_capacity r"
  by (simp add: ring_holds_def ring_ok_def Sab_Ring.ring_inv_def)

lemma ring_holds_available: "ring_holds r hist pos \<Longrightarrow> available r = length hist - pos"
  using available_inv [of "\<lparr>rw_ring = r, rw_writer = WIdle, rw_reader = RIdle, rw_hist = hist, rw_pos = pos, rw_out = []\<rparr>"]
  by (simp add: ring_holds_def ring_ok_def)

lemma ring_holds_capture:
  assumes "ring_holds r hist pos" "good_capacity (ring_capacity r) (length (hist @ accepted channel r))"
  shows "ring_holds (capture_process channel r) (hist @ accepted channel r) pos \<and> ring_capacity (capture_process channel r) = ring_capacity r"
proof -
  define w where "w = \<lparr>rw_ring = r, rw_writer = WIdle, rw_reader = RIdle, rw_hist = hist, rw_pos = pos, rw_out = []\<rparr>"
  define evs where "evs = [Process channel, WriterCopies, WriterStores]"
  have end_w: "rw_writer (run ring_step w evs) = WIdle" "rw_reader (run ring_step w evs) = RIdle" "rw_pos (run ring_step w evs) = pos"
    "rw_hist (run ring_step w evs) = hist @ accepted channel r"
    by (simp_all add: w_def evs_def ring_step_simps writer_loads_def accepted_def)
  have ring: "rw_ring (run ring_step w evs) = capture_process channel r"
    unfolding evs_def by (subst process_in_pieces) (simp_all add: w_def)
  have ok: "ring_ok w" using assms(1) by (simp add: ring_holds_def w_def)
  have "good_capacity (ring_capacity (rw_ring w)) (length (rw_hist (run ring_step w evs)))"
    unfolding end_w(4) using assms(2) by (simp add: w_def)
  from ring_run_legal [OF ok this] have "ring_ok (run ring_step w evs)" "ring_capacity (capture_process channel r) = ring_capacity r"
    using ring_machine.run_guarded [OF ok] ring by (auto simp: w_def)
  then show ?thesis using ring_holds_out [OF _ end_w(1,2)] end_w ring by simp
qed

lemma ring_holds_run:
  fixes r :: "'a ring" and hist pos evs
  defines "w \<equiv> run ring_step \<lparr>rw_ring = r, rw_writer = WIdle, rw_reader = RIdle, rw_hist = hist, rw_pos = pos, rw_out = []\<rparr> evs"
  assumes "ring_holds r hist pos" "rw_hist w = hist" "rw_writer w = WIdle" "rw_reader w = RIdle"
  shows "ring_holds (rw_ring w) hist (rw_pos w) \<and> ring_capacity (rw_ring w) = ring_capacity r"
proof -
  note ok = assms(2) [unfolded ring_holds_def]
  have "good_capacity (ring_capacity r) (length (rw_hist w))" using ok assms(3) by (simp add: ring_ok_def)
  with ring_run_legal [OF ok, of evs] have "ring_ok w" "ring_capacity (rw_ring w) = ring_capacity r"
    using ring_machine.run_guarded [OF ok, of evs] by (auto simp: w_def)
  then show ?thesis using ring_holds_out [OF _ assms(4,5)] assms(3) by simp
qed

lemma ring_holds_snap:
  assumes "ring_holds r hist pos"
  shows "ring_holds (reset_dropped (snap_to_write r)) hist (length hist) \<and> ring_capacity (reset_dropped (snap_to_write r)) = ring_capacity r"
proof -
  let ?w = "\<lparr>rw_ring = r, rw_writer = WIdle, rw_reader = RIdle, rw_hist = hist, rw_pos = pos, rw_out = []\<rparr>"
  let ?evs = "[Snap, SnapStores, ResetDropped]"
  have "unat (sr_write r - sr_read r) = length hist - pos"
    using ring_holds_available [OF assms] by (simp add: available_def)
  then have "rw_pos (run ring_step ?w ?evs) = length hist"
    using ring_holds_pos [OF assms] by (simp add: ring_step_simps)
  moreover have "rw_ring (run ring_step ?w ?evs) = reset_dropped (snap_to_write r)"
    by (simp add: ring_step_simps snap_to_write_def)
  ultimately show ?thesis using ring_holds_run [OF assms, of ?evs] by (simp add: ring_step_simps)
qed

lemma ring_holds_read:
  assumes "ring_holds r hist pos" "read_ring mx r = (slab, r')"
  shows "slab = take (min mx (length hist - pos)) (drop pos hist) \<and> ring_holds r' hist (pos + length slab)
     \<and> ring_capacity r' = ring_capacity r"
proof (cases "min (available r) mx = 0")
  case True
  then show ?thesis using assms ring_holds_available [OF assms(1)] by (auto simp: read_ring_def min_def split: if_splits)
next
  case False
  let ?w = "\<lparr>rw_ring = r, rw_writer = WIdle, rw_reader = RIdle, rw_hist = hist, rw_pos = pos, rw_out = []\<rparr>"
  let ?evs = "[Read mx, ReaderCopies, ReaderStores]"
  let ?n = "min (available r) mx"
  obtain n where n: "n = min (available r) mx" "n \<noteq> 0" using False by blast
  note av = ring_holds_available [OF assms(1)] and ps = ring_holds_pos [OF assms(1)]
  have cap: "available r \<le> ring_capacity r" "0 < ring_capacity r"
    using av ps assms(1) by (auto simp: ring_holds_def ring_ok_def good_capacity_def)
  have slab: "slab = copy_out (sr_read r) ?n (sr_data r)" using assms(2) unfolding read_ring_def Let_def if_not_P [OF False] by simp
  have len: "length slab = ?n" unfolding slab using cap by (intro length_copy_out) (auto simp: ring_capacity_def)
  have ring: "rw_ring (run ring_step ?w ?evs) = r'"
    by (subst read_in_pieces) (use cap assms(2) in \<open>simp_all\<close>)
  have pos: "rw_pos (run ring_step ?w ?evs) = pos + length slab" "rw_hist (run ring_step ?w ?evs) = hist"
    "rw_writer (run ring_step ?w ?evs) = WIdle" "rw_reader (run ring_step ?w ?evs) = RIdle"
    "rw_out (run ring_step ?w ?evs) = [(pos, slab)]"
    using n by (simp_all add: ring_step_simps slab flip: n(1))
  have holds: "ring_holds r' hist (pos + length slab)" "ring_capacity r' = ring_capacity r"
    using ring_holds_run [OF assms(1), of ?evs] ring pos by simp_all
  have ok: "ring_ok ?w" using assms(1) by (simp add: ring_holds_def)
  have "ring_ok (run ring_step ?w ?evs)"
    using ring_run_legal [OF ok, of ?evs] pos(2) ring_machine.run_guarded [OF ok, of ?evs] ok by (simp add: ring_ok_def)
  then have "out_ok hist (pos + length slab) (pos, slab)" using pos unfolding ring_ok_def Sab_Ring.ring_inv_def by simp
  then have "slab = take (length slab) (drop pos hist)" by (simp add: out_ok_def)
  then show ?thesis using holds len av by (simp add: min.commute)
qed

subsection \<open>Steps that leave the recording alone\<close>

definition quiet :: "sender_event \<Rightarrow> bool" where
  "quiet e \<longleftrightarrow> (case e of Arm _ \<Rightarrow> False | PushAudio _ _ _ \<Rightarrow> False | Finish \<Rightarrow> False | _ \<Rightarrow> True)"

definition quietly :: "stream_sender \<Rightarrow> stream_sender \<Rightarrow> bool" where
  "quietly s s' \<longleftrightarrow> (\<exists>es. list_all quiet es \<and> s' = run sender_step s es)"

lemma quietly_refl [simp]: "quietly s s"
  unfolding quietly_def by (intro exI [of _ "[]"]) simp

lemma quietly_trans: "quietly s s' \<Longrightarrow> quietly s' s'' \<Longrightarrow> quietly s s''"
proof -
  assume "quietly s s'" "quietly s' s''"
  then obtain es es' where "list_all quiet es" "s' = run sender_step s es" "list_all quiet es'" "s'' = run sender_step s' es'"
    by (auto simp: quietly_def)
  then show ?thesis unfolding quietly_def by (intro exI [of _ "es @ es'"]) simp
qed

lemma quietlyI: "quiet e \<Longrightarrow> quietly s (sender_step s e)"
  unfolding quietly_def by (intro exI [of _ "[e]"]) simp

lemma quietly_ops:
  "quietly s (add_sink i s)" "quietly s (remove_sink i s)" "quietly s (set_connected i up s)"
  "quietly s (sender_handle_frame i f s)" "pop_frame i s = (fo, s') \<Longrightarrow> quietly s s'"
  using quietlyI [of "AddSink i" s] quietlyI [of "RemoveSink i" s] quietlyI [of "SetConnected i up" s]
    quietlyI [of "Deliver i f" s] quietlyI [of "PopFrame i" s] by (simp_all add: quiet_def)

lemma quietly_pop_all: "pop_all n i s = (fs, s') \<Longrightarrow> quietly s s'"
proof (induction n arbitrary: s fs s')
  case (Suc n)
  obtain fo s1 where pop: "pop_frame i s = (fo, s1)" by (cases "pop_frame i s")
  note q = quietly_ops(5) [OF pop]
  show ?case
  proof (cases fo)
    case None
    with Suc.prems pop q show ?thesis by simp
  next
    case (Some f)
    obtain gs s2 where rest: "pop_all n i s1 = (gs, s2)" by (cases "pop_all n i s1")
    with Suc.prems pop Some have "s' = s2" by simp
    with Suc.IH [OF rest] q show ?thesis using quietly_trans by blast
  qed
qed simp

lemma quietly_drain_frames: "drain_frames i n s = (bs, s') \<Longrightarrow> quietly s s'"
proof (induction i n s arbitrary: bs s' rule: drain_frames.induct)
  case (1 i n s)
  show ?case
  proof (cases "n = 0")
    case True
    with "1.prems" show ?thesis by (simp add: drain_frames.simps [of i 0 s])
  next
    case False
    obtain fo s1 where pop: "pop_frame i s = (fo, s1)" by (cases "pop_frame i s")
    note q = quietly_ops(5) [OF pop]
    show ?thesis
    proof (cases fo)
      case None
      with "1.prems" False pop q show ?thesis by (simp add: drain_frames.simps [of i n s])
    next
      case (Some f)
      obtain cs s2 where rest: "drain_frames i (n - length (encode_frame f)) s1 = (cs, s2)"
        by (cases "drain_frames i (n - length (encode_frame f)) s1")
      with "1.prems" False pop Some have "s' = s2" by (simp add: drain_frames.simps [of i n s] Let_def)
      with "1.IH" [OF False pop [symmetric] Some refl rest] q show ?thesis using quietly_trans by blast
    qed
  qed
qed

text \<open>What the engine's other calls keep: the encoder, the sample rate, and the recording.\<close>

definition keeps :: "recorder_engine \<Rightarrow> recorder_engine \<Rightarrow> bool" where
  "keeps g g' \<longleftrightarrow> rn_encoder g' = rn_encoder g \<and> rn_rate g' = rn_rate g \<and> quietly (rn_sender g) (rn_sender g')"

lemma keeps_refl [simp]: "keeps g g"
  by (simp add: keeps_def)

lemma keeps_trans: "keeps g g' \<Longrightarrow> keeps g' g'' \<Longrightarrow> keeps g g''"
  using quietly_trans by (auto simp: keeps_def)

lemma keeps_calls:
  "keeps g (recorder_add_sink i g)" "keeps g (recorder_remove_sink i g)" "keeps g (recorder_set_connected i up g)"
  "recorder_frame i b now g = (ok, reply, g') \<Longrightarrow> keeps g g'" "recorder_time_ping i now g = (b', g') \<Longrightarrow> keeps g g'"
proof -
  show "keeps g (recorder_add_sink i g)" "keeps g (recorder_remove_sink i g)" "keeps g (recorder_set_connected i up g)"
    by (simp_all add: keeps_def recorder_add_sink_def recorder_remove_sink_def recorder_set_connected_def quietly_ops)
  show "recorder_time_ping i now g = (b', g') \<Longrightarrow> keeps g g'"
    by (auto simp: recorder_time_ping_def keeps_def split: prod.splits)
  show "recorder_frame i b now g = (ok, reply, g') \<Longrightarrow> keeps g g'"
    by (auto simp: recorder_frame_def keeps_def split: sum.splits decode_error.splits decoded.splits frame.splits option.splits
        simp del: sender_handle_frame.simps intro: quietly_ops(4))
qed

lemma keeps_fold: "(\<And>x g. x \<in> set xs \<Longrightarrow> keeps g (f x g)) \<Longrightarrow> keeps g (fold f xs g)"
proof (induction xs arbitrary: g)
  case (Cons x xs)
  then show ?case using keeps_trans [of g "f x g"] by simp
qed simp

lemma keeps_ack_local: "keeps g (ack_local lt now g)"
proof (cases "lt_sink lt")
  case (Some e)
  have "keeps g (snd (snd (recorder_frame i b now g)))" for i b g
    by (cases "recorder_frame i b now g") (auto dest: keeps_calls(4))
  then show ?thesis by (simp add: ack_local_def Some keeps_fold)
qed (simp add: ack_local_def)

lemma keeps_drain_local: "drain_local utf8 now g lt = (g', lt') \<Longrightarrow> keeps g g'"
proof -
  assume d: "drain_local utf8 now g lt = (g', lt')"
  obtain fs s where pop: "pop_all (backlog local_sink_id (rn_sender g)) local_sink_id (rn_sender g) = (fs, s)" by fastforce
  have one: "keeps g (g\<lparr>rn_sender := s\<rparr>)" using quietly_pop_all [OF pop] by (simp add: keeps_def)
  show ?thesis
    using d one keeps_trans [OF one keeps_ack_local]
    by (auto simp: drain_local_def Let_def pop split: if_splits)
qed

lemma keeps_finalize_local: "finalize_local now n g lt = (g', lt') \<Longrightarrow> keeps g g'"
  using keeps_ack_local by (auto simp: finalize_local_def Let_def split: option.splits)

subsection \<open>What the chunks of a take are\<close>

definition between :: "nat \<Rightarrow> nat \<Rightarrow> 'a list \<Rightarrow> 'a list" where
  "between m n xs = take (n - m) (drop m xs)"

lemma between_snoc: "m \<le> n \<Longrightarrow> n + k \<le> length xs \<Longrightarrow> between m n xs @ take k (drop n xs) = between m (n + k) xs"
proof -
  assume mn: "m \<le> n" and "n + k \<le> length xs"
  then have k: "n + k - m = (n - m) + k" by simp
  show ?thesis unfolding between_def k take_add using mn by simp
qed

lemma between_append: "n \<le> length xs \<Longrightarrow> between m n (xs @ ys) = between m n xs"
  by (cases "m \<le> length xs") (auto simp: between_def)

text \<open>The audio chunks a sender has numbered, after the header.\<close>

definition numbered :: "frame_key \<Rightarrow> sender_event list \<Rightarrow> audio_chunk list" where
  "numbered k es = tl (re_chunks (run (record_step k) no_recording es))"

definition carries :: "audio_chunk list \<Rightarrow> encoded_chunk list \<Rightarrow> bool" where
  "carries acs cs \<longleftrightarrow> map (\<lambda>c. (ac_payload c, ac_sampleCount c)) acs = map (\<lambda>c. (en_payload c, en_sampleCount c)) cs"

text \<open>
  The engine of a take that began when \<open>m\<close> samples had been accepted: its sender is a sender's run whose chunks carry those
  of the codec, which encode the samples from \<open>m\<close> on, up to the reader while the take streams, up to \<open>n\<close> when it is over.
\<close>

definition engine_ok :: "enc_env \<Rightarrow> real list \<Rightarrow> nat \<Rightarrow> nat \<Rightarrow> nat \<Rightarrow> recorder_engine \<Rightarrow> bool" where
  "engine_ok env hist m n pos g \<longleftrightarrow>
     (\<exists>k budget es cs.
        rn_sender g = run sender_step (new_sender k budget) es
      \<and> re_chunks (run (record_step k) no_recording es) \<noteq> [] \<and> carries (numbered k es) cs
      \<and> (if re_over (run (record_step k) no_recording es)
         then m \<le> n \<and> n \<le> length hist \<and> se_finished (rn_encoder g)
           \<and> concat (map en_payload cs)
               = concat (map fst (all_frames (ee_flac env) (map (quantize_f32 (se_cfg (rn_encoder g))) (between m n hist))))
           \<and> tiled (nominal_chunk_samples (se_cfg (rn_encoder g))) 0 cs (n - m)
         else m \<le> pos \<and> encoded (ee_flac env) (map (quantize_f32 (se_cfg (rn_encoder g))) (between m pos hist)) cs (rn_encoder g)))"

lemma quiet_record: "list_all quiet es \<Longrightarrow> run (record_step k) r es = r"
proof (induction es arbitrary: r)
  case (Cons e es)
  then show ?case by (cases e) (simp_all add: quiet_def)
qed simp

lemma engine_ok_keeps: "engine_ok env hist m n pos g \<Longrightarrow> keeps g g' \<Longrightarrow> engine_ok env hist m n pos g'"
proof -
  assume ok: "engine_ok env hist m n pos g" and k: "keeps g g'"
  from k obtain es' where q: "list_all quiet es'" "rn_sender g' = run sender_step (rn_sender g) es'"
    and enc: "rn_encoder g' = rn_encoder g" by (auto simp: keeps_def quietly_def)
  from ok [unfolded engine_ok_def] obtain k budget es cs where
    s: "rn_sender g = run sender_step (new_sender k budget) es" and
    rest: "re_chunks (run (record_step k) no_recording es) \<noteq> [] \<and> carries (numbered k es) cs
      \<and> (if re_over (run (record_step k) no_recording es)
         then m \<le> n \<and> n \<le> length hist \<and> se_finished (rn_encoder g)
           \<and> concat (map en_payload cs)
               = concat (map fst (all_frames (ee_flac env) (map (quantize_f32 (se_cfg (rn_encoder g))) (between m n hist))))
           \<and> tiled (nominal_chunk_samples (se_cfg (rn_encoder g))) 0 cs (n - m)
         else m \<le> pos \<and> encoded (ee_flac env) (map (quantize_f32 (se_cfg (rn_encoder g))) (between m pos hist)) cs (rn_encoder g))"
    by blast
  have "rn_sender g' = run sender_step (new_sender k budget) (es @ es')" by (simp add: q(2) s)
  moreover have "run (record_step k) no_recording (es @ es') = run (record_step k) no_recording es"
    by (simp add: quiet_record [OF q(1)])
  ultimately show ?thesis
    unfolding engine_ok_def numbered_def enc using rest [unfolded numbered_def]
    by (intro exI [of _ k] exI [of _ budget] exI [of _ "es @ es'"] exI [of _ cs]) simp
qed

subsection \<open>Pushing and finishing\<close>

lemma engine_ok_history: "engine_ok env hist m n pos g \<Longrightarrow> pos \<le> length hist \<Longrightarrow> engine_ok env (hist @ ys) m n pos g"
proof -
  assume ok: "engine_ok env hist m n pos g" and pos: "pos \<le> length hist"
  have "n \<le> length hist \<Longrightarrow> between m n (hist @ ys) = between m n hist" "between m pos (hist @ ys) = between m pos hist"
    using between_append pos by blast+
  then show ?thesis using ok unfolding engine_ok_def by (simp cong: conj_cong if_cong) (metis trans_le_add1)
qed

lemma engine_state_over:
  assumes "rn_sender g = run sender_step (new_sender k budget) es" "re_chunks (run (record_step k) no_recording es) \<noteq> []"
  shows "ss_state (rn_sender g) = TakeStreaming \<longleftrightarrow> \<not> re_over (run (record_step k) no_recording es)"
proof -
  from sender_run_inv [of k es budget] have "phase_ok (run (record_step k) no_recording es) (rn_sender g)"
    by (simp add: sender_inv_def assms(1))
  then show ?thesis using assms(2) by (simp add: phase_ok_def)
qed

lemma produce_state [simp]: "ss_state (produce c s) = ss_state s"
  by (simp add: produce_def broadcast_new_gaps_def for_sinks_def take_pending_gaps_def Let_def split: prod.split)

definition push_events :: "recorder_engine \<Rightarrow> encoded_chunk list \<Rightarrow> sender_event list" where
  "push_events g cs = map (\<lambda>c. PushAudio (en_sampleCount c) (capture_ts_for g (en_firstSample c)) (en_payload c)) cs"

lemma push_chunks_run:
  assumes "ss_state (rn_sender g) = TakeStreaming"
  shows "\<exists>g'. push_chunks cs g = (True, g') \<and> rn_sender g' = run sender_step (rn_sender g) (push_events g cs)
     \<and> ss_state (rn_sender g') = TakeStreaming \<and> rn_encoder g' = rn_encoder g"
  using assms
proof (induction cs arbitrary: g)
  case (Cons c cs)
  obtain seq s where push: "push_audio (en_sampleCount c) (capture_ts_for g (en_firstSample c)) (en_payload c) (rn_sender g) = Inr (seq, s)"
    and st: "ss_state s = TakeStreaming"
    using Cons.prems by (auto simp: push_audio_def Let_def)
  have ts: "push_events (g\<lparr>rn_sender := s\<rparr>) cs = push_events g cs" by (simp add: push_events_def capture_ts_for_def)
  from Cons.IH [of "g\<lparr>rn_sender := s\<rparr>"] st obtain g' where
    "push_chunks cs (g\<lparr>rn_sender := s\<rparr>) = (True, g')" "rn_sender g' = run sender_step s (push_events g cs)"
    "ss_state (rn_sender g') = TakeStreaming" "rn_encoder g' = rn_encoder g" unfolding ts by auto
  then show ?case using push by (simp add: push_events_def)
qed (simp add: push_events_def)

lemma push_events_record:
  assumes "re_chunks r \<noteq> []" "\<not> re_over r"
  shows "\<exists>acs. re_chunks (run (record_step k) r (push_events g cs)) = re_chunks r @ acs \<and> carries acs cs
     \<and> \<not> re_over (run (record_step k) r (push_events g cs))"
  using assms
proof (induction cs arbitrary: r)
  case (Cons c cs)
  define r1 where "r1 = record_step k r (PushAudio (en_sampleCount c) (capture_ts_for g (en_firstSample c)) (en_payload c))"
  obtain ac where r1: "re_chunks r1 = re_chunks r @ [ac]" "ac_payload ac = en_payload c" "ac_sampleCount ac = en_sampleCount c" "\<not> re_over r1"
    using Cons.prems by (simp add: r1_def mk_audio_chunk_def)
  from Cons.IH [of r1] r1(1,4) obtain acs where
    "re_chunks (run (record_step k) r1 (push_events g cs)) = re_chunks r1 @ acs" "carries acs cs"
    "\<not> re_over (run (record_step k) r1 (push_events g cs))" by auto
  moreover have "run (record_step k) r (push_events g (c # cs)) = run (record_step k) r1 (push_events g cs)"
    by (simp add: push_events_def r1_def del: record_step.simps)
  ultimately show ?case
    using r1 by (intro exI [of _ "ac # acs"]) (simp add: carries_def)
qed (simp add: push_events_def carries_def)

lemma carries_append: "carries acs cs \<Longrightarrow> carries bcs ds \<Longrightarrow> carries (acs @ bcs) (cs @ ds)"
  by (simp add: carries_def)

lemma engine_ok_push:
  assumes f: "sound_flacenc (ee_flac env)" and ok: "engine_ok env hist m n pos g" and st: "ss_state (rn_sender g) = TakeStreaming"
    and slab: "slab = take (length slab) (drop pos hist)" "pos + length slab \<le> length hist"
  shows "\<exists>g'. recorder_push (ee_flac env) slab g = (True, g') \<and> engine_ok env hist m n (pos + length slab) g'
     \<and> ss_state (rn_sender g') = TakeStreaming"
proof -
  define cfg where "cfg = se_cfg (rn_encoder g)"
  from ok obtain k budget es cs where s: "rn_sender g = run sender_step (new_sender k budget) es"
    and ne: "re_chunks (run (record_step k) no_recording es) \<noteq> []" and c: "carries (numbered k es) cs"
    and live: "\<not> re_over (run (record_step k) no_recording es) \<longrightarrow> m \<le> pos
       \<and> encoded (ee_flac env) (map (quantize_f32 cfg) (between m pos hist)) cs (rn_encoder g)"
    unfolding engine_ok_def cfg_def by (auto split: if_splits)
  have over: "\<not> re_over (run (record_step k) no_recording es)" using engine_state_over [OF s ne] st by simp
  with live have m: "m \<le> pos" and e: "encoded (ee_flac env) (map (quantize_f32 cfg) (between m pos hist)) cs (rn_encoder g)" by blast+
  from push_f32_encoded [OF e f, of slab] obtain new enc where
    p: "push_f32 (ee_flac env) slab (rn_encoder g) = (Inr new, enc)" "se_cfg enc = cfg"
    "encoded (ee_flac env) (map (quantize_f32 cfg) (between m pos hist @ slab)) (cs @ new) enc"
    unfolding cfg_def by auto
  have "between m pos hist @ slab = between m (pos + length slab) hist"
    using between_snoc [OF m slab(2)] slab(1) by simp
  with p(3) have e': "encoded (ee_flac env) (map (quantize_f32 cfg) (between m (pos + length slab) hist)) (cs @ new) enc" by simp
  define g1 where "g1 = g\<lparr>rn_encoder := enc\<rparr>"
  have st1: "ss_state (rn_sender g1) = TakeStreaming" and enc1: "rn_encoder g1 = enc"
    and s1: "rn_sender g1 = run sender_step (new_sender k budget) es" using st by (simp_all add: g1_def flip: s)
  from push_chunks_run [OF st1, of new, unfolded enc1 s1 run_append [symmetric]]
  obtain g' where g': "push_chunks new g1 = (True, g')"
    "rn_sender g' = run sender_step (new_sender k budget) (es @ push_events g1 new)" "ss_state (rn_sender g') = TakeStreaming"
    "rn_encoder g' = enc" by blast
  from push_events_record [OF ne over, of k g1 new] obtain acs where
    rec: "re_chunks (run (record_step k) no_recording (es @ push_events g1 new)) = re_chunks (run (record_step k) no_recording es) @ acs"
    "carries acs new" "\<not> re_over (run (record_step k) no_recording (es @ push_events g1 new))" by auto
  have "carries (numbered k (es @ push_events g1 new)) (cs @ new)"
    unfolding numbered_def rec(1) using c ne rec(2) by (simp add: carries_append numbered_def)
  then have "engine_ok env hist m n (pos + length slab) g'"
    unfolding engine_ok_def g'(4) p(2) using g'(2) rec ne e' m
    by (intro exI [of _ k] exI [of _ budget] exI [of _ "es @ push_events g1 new"] exI [of _ "cs @ new"]) simp
  moreover have "recorder_push (ee_flac env) slab g = (True, g')"
    using p(1) g'(1) by (simp add: recorder_push_def g1_def)
  ultimately show ?thesis using g'(3) by blast
qed

lemma finish_fields: "se_finished (snd (finish_encoder flac e)) \<and> se_cfg (snd (finish_encoder flac e)) = se_cfg e"
proof -
  have append: "se_finished (snd (append_frame b n out e)) = se_finished e \<and> se_cfg (snd (append_frame b n out e)) = se_cfg e" for b n out e
    by (auto simp: append_frame_def take_chunk_def Let_def)
  have block: "se_finished (snd (encode_block flac b e)) = se_finished e \<and> se_cfg (snd (encode_block flac b e)) = se_cfg e" for b e
    by (auto simp: encode_block_def split: option.split)
  have pend: "se_finished (snd (encode_pending_block flac out e)) = se_finished e \<and> se_cfg (snd (encode_pending_block flac out e)) = se_cfg e" for out e
    using block [of "se_pending e" "e\<lparr>se_pending := []\<rparr>"] append
    by (auto simp: encode_pending_block_def Let_def split: prod.split sum.split)
  show ?thesis
    using pend [of "[]" "e\<lparr>se_finished := True\<rparr>"]
    by (auto simp: finish_encoder_def take_chunk_def Let_def split: prod.split sum.split)
qed

lemma engine_ok_finish:
  assumes f: "sound_flacenc (ee_flac env)" and ok: "engine_ok env hist m n pos g" and st: "ss_state (rn_sender g) = TakeStreaming"
    and pos: "pos \<le> length hist"
  shows "\<exists>g'. recorder_finish (ee_flac env) g = (True, g') \<and> engine_ok env hist m pos pos g' \<and> ss_finalSeq (rn_sender g') \<noteq> None"
proof -
  define cfg where "cfg = se_cfg (rn_encoder g)"
  from ok obtain k budget es cs where s: "rn_sender g = run sender_step (new_sender k budget) es"
    and ne: "re_chunks (run (record_step k) no_recording es) \<noteq> []" and c: "carries (numbered k es) cs"
    and live: "\<not> re_over (run (record_step k) no_recording es) \<longrightarrow> m \<le> pos
       \<and> encoded (ee_flac env) (map (quantize_f32 cfg) (between m pos hist)) cs (rn_encoder g)"
    unfolding engine_ok_def cfg_def by (auto split: if_splits)
  have over: "\<not> re_over (run (record_step k) no_recording es)" using engine_state_over [OF s ne] st by simp
  with live have m: "m \<le> pos" and e: "encoded (ee_flac env) (map (quantize_f32 cfg) (between m pos hist)) cs (rn_encoder g)" by blast+
  have len: "length (map (quantize_f32 cfg) (between m pos hist)) = pos - m" using m pos by (simp add: between_def)
  from finish_encoded [OF e f] obtain new enc where p: "finish_encoder (ee_flac env) (rn_encoder g) = (Inr new, enc)"
    "concat (map en_payload (cs @ new)) = concat (map fst (all_frames (ee_flac env) (map (quantize_f32 cfg) (between m pos hist))))"
    "tiled (nominal_chunk_samples cfg) 0 (cs @ new) (pos - m)" unfolding cfg_def [symmetric] len by blast
  have enc: "se_finished enc" "se_cfg enc = cfg" using finish_fields [of "ee_flac env" "rn_encoder g"] by (simp_all add: p(1) cfg_def)
  define g1 where "g1 = g\<lparr>rn_encoder := enc\<rparr>"
  have st1: "ss_state (rn_sender g1) = TakeStreaming" and enc1: "rn_encoder g1 = enc"
    and s1: "rn_sender g1 = run sender_step (new_sender k budget) es" using st by (simp_all add: g1_def flip: s)
  from push_chunks_run [OF st1, of new, unfolded enc1 s1 run_append [symmetric]]
  obtain g2 where g2: "push_chunks new g1 = (True, g2)"
    "rn_sender g2 = run sender_step (new_sender k budget) (es @ push_events g1 new)" "ss_state (rn_sender g2) = TakeStreaming"
    "rn_encoder g2 = enc" by blast
  from push_events_record [OF ne over, of k g1 new] obtain acs where
    rec: "re_chunks (run (record_step k) no_recording (es @ push_events g1 new)) = re_chunks (run (record_step k) no_recording es) @ acs"
    "carries acs new" "\<not> re_over (run (record_step k) no_recording (es @ push_events g1 new))" by auto
  define es' where "es' = es @ push_events g1 new @ [Finish]"
  obtain s' where fin: "sender_finish (rn_sender g2) = Inr s'" "ss_finalSeq s' \<noteq> None"
    using g2(3) by (auto simp: sender_finish_def try_close_def)
  define g' where "g' = g2\<lparr>rn_sender := s'\<rparr>"
  have run': "rn_sender g' = run sender_step (new_sender k budget) es'" using g2(2) fin(1) by (simp add: g'_def es'_def)
  have rec': "re_chunks (run (record_step k) no_recording es') = re_chunks (run (record_step k) no_recording es) @ acs"
    "re_over (run (record_step k) no_recording es')" using rec ne by (simp_all add: es'_def)
  have "carries (numbered k es') (cs @ new)"
    unfolding numbered_def rec'(1) using c ne rec(2) by (simp add: carries_append numbered_def)
  then have "engine_ok env hist m pos pos g'"
    unfolding engine_ok_def using run' rec' ne p(2,3) m pos enc
    by (intro exI [of _ k] exI [of _ budget] exI [of _ es'] exI [of _ "cs @ new"]) (simp add: g'_def g2(4))
  moreover have "recorder_finish (ee_flac env) g = (True, g')"
    using p(1) g2(1) fin(1) by (simp add: recorder_finish_def g1_def g'_def)
  ultimately show ?thesis using fin(2) by (auto simp: g'_def)
qed

subsection \<open>The worker and the audio thread\<close>

datatype capture_event = Quantum "real list" | PumpTick nat | EncMsg nat to_encoder

text \<open>
  The worker, every sample the ring has accepted, how many of them there were when the last take was armed, and how many
  had been read when the last one was stopped.
\<close>

record capture_world =
  cw_worker :: encoder_worker
  cw_captured :: "real list"
  cw_mark :: nat
  cw_stop :: nat

definition unread :: "encoder_worker \<Rightarrow> nat" where
  "unread w = (case ew_ring w of None \<Rightarrow> 0 | Some r \<Rightarrow> available r)"

definition after_output :: "from_encoder list \<times> encoder_worker \<Rightarrow> capture_world \<Rightarrow> capture_world" where
  "after_output = (\<lambda>(out, w') w.
     w\<lparr>cw_worker := w',
       cw_mark := (if \<exists>t. Armed t \<in> set out then length (cw_captured w) else cw_mark w),
       cw_stop := (if \<exists>n. Stopped (Some n) \<in> set out then length (cw_captured w) - unread w' else cw_stop w)\<rparr>)"

fun capture_step :: "enc_env \<Rightarrow> capture_world \<Rightarrow> capture_event \<Rightarrow> capture_world" where
  "capture_step env w (Quantum ch) =
     (case ew_ring (cw_worker w) of None \<Rightarrow> w
      | Some r \<Rightarrow> w\<lparr>cw_worker := (cw_worker w)\<lparr>ew_ring := Some (capture_process ch r)\<rparr>, cw_captured := cw_captured w @ accepted ch r\<rparr>)"
| "capture_step env w (PumpTick now) = after_output (pump env now (cw_worker w)) w"
| "capture_step env w (EncMsg now msg) = after_output (encoder_handle env now msg (cw_worker w)) w"

text \<open>The worker's part of the invariant, for a history, a take's start and end, and the reader's position.\<close>

definition worker_ok :: "enc_env \<Rightarrow> nat \<Rightarrow> real list \<Rightarrow> nat \<Rightarrow> nat \<Rightarrow> encoder_worker \<Rightarrow> bool" where
  "worker_ok env cap hist m n w \<longleftrightarrow>
     (\<exists>r pos. ew_ring w = Some r \<and> ring_capacity r = cap \<and> ring_holds r hist pos
        \<and> (\<forall>g. ew_engine w = Some g \<longrightarrow> engine_ok env hist m n pos g))"

lemma worker_okI:
  "ew_ring w = Some r \<Longrightarrow> ring_capacity r = cap \<Longrightarrow> ring_holds r hist pos \<Longrightarrow>
   (\<And>g. ew_engine w = Some g \<Longrightarrow> engine_ok env hist m n pos g) \<Longrightarrow> worker_ok env cap hist m n w"
  by (auto simp: worker_ok_def)

lemma worker_ok_engine:
  assumes "worker_ok env cap hist m n w" "ew_ring w' = ew_ring w"
    and "\<And>g'. ew_engine w' = Some g' \<Longrightarrow> \<exists>g. ew_engine w = Some g \<and> keeps g g'"
  shows "worker_ok env cap hist m n w'"
  using assms engine_ok_keeps unfolding worker_ok_def by metis

lemma do_arm_ok:
  assumes w: "worker_ok env cap hist m n w" and arm: "do_arm a now w = (ok, out, w')"
  shows "worker_ok env cap hist (length hist) k w' \<and> (ok \<longrightarrow> out = [Armed now]) \<and> (\<not> ok \<longrightarrow> out = [] \<and> ew_engine w' = None)"
proof -
  from w obtain r pos where r: "ew_ring w = Some r" "ring_capacity r = cap" "ring_holds r hist pos" by (auto simp: worker_ok_def)
  define r1 where "r1 = reset_dropped (snap_to_write r)"
  have r1: "ring_holds r1 hist (length hist)" "ring_capacity r1 = cap" using ring_holds_snap [OF r(3)] r(2) by (simp_all add: r1_def)
  show ?thesis
  proof (cases "new_recorder a (ew_rate w) now")
    case None
    with arm r(1) r1 show ?thesis by (auto simp: do_arm_def Let_def r1_def intro!: worker_okI)
  next
    case (Some g)
    define g2 where "g2 = fold (\<lambda>(i, up) g. recorder_set_connected i up (recorder_add_sink i g)) (ew_preArm w)
        (attach_local_sink (reset_local_take (am_retain a)) g)"
    have "keeps g (attach_local_sink lt g)" for lt g
      using keeps_trans [OF keeps_calls(1) keeps_calls(3)] by (simp add: attach_local_sink_def)
    moreover have "keeps g (fold (\<lambda>(i, up) g. recorder_set_connected i up (recorder_add_sink i g)) xs g)" for xs g
      using keeps_trans [OF keeps_calls(1) keeps_calls(3)] by (intro keeps_fold) auto
    ultimately have g2: "keeps g g2" unfolding g2_def using keeps_trans by blast
    from Some obtain enc h where enc: "new_encoder \<lparr>ec_sampleRate = ew_rate w, ec_bitsPerSample = am_bits a\<rparr> = Inr enc" "rn_encoder g = enc"
      and "sender_arm h (new_sender (am_key a) (am_budget a)) = Inr (rn_sender g)"
      by (auto simp: new_recorder_def split: if_splits sum.splits)
    then have s: "rn_sender g = run sender_step (new_sender (am_key a) (am_budget a)) [Arm h]" by simp
    have "engine_ok env hist (length hist) k (length hist) g"
      unfolding engine_ok_def s
      using encoded_new [OF enc(1)] enc(2)
      by (intro exI [of _ "am_key a"] exI [of _ "am_budget a"] exI [of _ "[Arm h]"] exI [of _ "[]"])
         (simp add: numbered_def carries_def no_recording_def between_def encoded_def full_frames_def)
    then have "engine_ok env hist (length hist) k (length hist) g2" using g2 by (rule engine_ok_keeps)
    with arm r(1) r1 Some show ?thesis
      by (auto simp: do_arm_def Let_def r1_def g2_def intro!: worker_okI)
  qed
qed

lemma drain_take_ok:
  "worker_ok env cap hist m n w \<Longrightarrow> worker_ok env cap hist m n (drain_take env' now w) \<and> unread (drain_take env' now w) = unread w"
proof (cases "ew_engine w")
  case (Some g)
  assume w: "worker_ok env cap hist m n w"
  obtain g' lt where d: "drain_local (ee_utf8 env') now g (ew_local w) = (g', lt)" by fastforce
  have eq: "drain_take env' now w = w\<lparr>ew_engine := Some g', ew_local := lt\<rparr>" by (simp add: drain_take_def Some d)
  have "worker_ok env cap hist m n (w\<lparr>ew_engine := Some g', ew_local := lt\<rparr>)"
    by (rule worker_ok_engine [OF w]) (use Some keeps_drain_local [OF d] in auto)
  then show ?thesis unfolding eq by (simp add: unread_def)
qed (simp add: drain_take_def)

definition silent :: "from_encoder list \<Rightarrow> bool" where
  "silent out \<longleftrightarrow> (\<forall>t. Armed t \<notin> set out) \<and> (\<forall>k. Stopped k \<notin> set out)"

lemma silent_announce [simp]: "silent (announce_pending w)"
  by (auto simp: announce_pending_def silent_def Let_def split: option.splits)

lemma silent_simps [simp]: "silent []" "silent [EncError]" "silent (xs @ ys) \<longleftrightarrow> silent xs \<and> silent ys"
  by (auto simp: silent_def)

lemma engine_ok_pos:
  assumes "engine_ok env hist m n pos g" "ss_state (rn_sender g) \<noteq> TakeStreaming"
  shows "engine_ok env hist m n pos' g"
proof -
  from assms(1) [unfolded engine_ok_def] obtain k budget es cs where
    s: "rn_sender g = run sender_step (new_sender k budget) es" and ne: "re_chunks (run (record_step k) no_recording es) \<noteq> []"
    and rest: "carries (numbered k es) cs" "if re_over (run (record_step k) no_recording es)
         then m \<le> n \<and> n \<le> length hist \<and> se_finished (rn_encoder g)
           \<and> concat (map en_payload cs)
               = concat (map fst (all_frames (ee_flac env) (map (quantize_f32 (se_cfg (rn_encoder g))) (between m n hist))))
           \<and> tiled (nominal_chunk_samples (se_cfg (rn_encoder g))) 0 cs (n - m)
         else m \<le> pos \<and> encoded (ee_flac env) (map (quantize_f32 (se_cfg (rn_encoder g))) (between m pos hist)) cs (rn_encoder g)"
    by blast
  have "re_over (run (record_step k) no_recording es)" using engine_state_over [OF s ne] assms(2) by simp
  with s ne rest show ?thesis unfolding engine_ok_def by (intro exI [of _ k] exI [of _ budget] exI [of _ es] exI [of _ cs]) simp
qed

text \<open>
  The pump as the drain of a worker whose ring has been read and whose engine has taken what was read. It streams, or not,
  as before.
\<close>

lemma pump_ring_parts:
  assumes w: "worker_ok env cap hist m n w" and f: "sound_flacenc (ee_flac env)" and p: "pump_ring env now w = (out, w')"
  shows "\<exists>w2. worker_ok env cap hist m n w2 \<and> w' = drain_take env now w2 \<and> out = announce_pending w'
     \<and> unread w2 = unread w - 2 * ew_rate w \<and> ew_pendingArm w2 = ew_pendingArm w \<and> ew_rate w2 = ew_rate w
     \<and> engine_state w2 = engine_state w"
proof -
  from w obtain r pos where r: "ew_ring w = Some r" "ring_capacity r = cap" "ring_holds r hist pos"
    and g: "\<And>g. ew_engine w = Some g \<Longrightarrow> engine_ok env hist m n pos g" by (auto simp: worker_ok_def)
  obtain slab r' where rd: "read_ring (ew_rate w * 2) r = (slab, r')" by fastforce
  note ring = ring_holds_read [OF r(3) rd]
  have len: "length slab = min (ew_rate w * 2) (length hist - pos)" using ring ring_holds_pos [OF r(3)] by auto
  have slab: "slab = take (length slab) (drop pos hist)" "pos + length slab \<le> length hist"
    using ring ring_holds_pos [OF r(3)] len by auto
  define w1 where "w1 = (let w = w\<lparr>ew_ring := Some r'\<rparr> in if slab = [] then w else w\<lparr>ew_peak := decayed_peak (ew_peak w) slab\<rparr>)"
  have w1: "ew_ring w1 = Some r'" "ew_engine w1 = ew_engine w" "ew_pendingArm w1 = ew_pendingArm w" "ew_rate w1 = ew_rate w"
    by (simp_all add: w1_def Let_def)
  have "available r' = available r - 2 * ew_rate w"
    using ring_holds_available [OF r(3)] ring_holds_available [of r' hist "pos + length slab"] ring len by auto
  then have left: "unread w1 = unread w - 2 * ew_rate w" using r(1) w1(1) by (simp add: unread_def)
  show ?thesis
  proof (cases "\<exists>g. ew_engine w = Some g \<and> slab \<noteq> [] \<and> ss_state (rn_sender g) = TakeStreaming")
    case True
    then obtain g0 where g0: "ew_engine w = Some g0" "slab \<noteq> []" "ss_state (rn_sender g0) = TakeStreaming" by blast
    from engine_ok_push [OF f g [OF g0(1)] g0(3) slab] obtain g' where
      g': "recorder_push (ee_flac env) slab g0 = (True, g')" "engine_ok env hist m n (pos + length slab) g'"
        "ss_state (rn_sender g') = TakeStreaming" by blast
    define w2 where "w2 = w1\<lparr>ew_engine := Some g'\<rparr>"
    have ok: "worker_ok env cap hist m n w2"
      by (rule worker_okI [of _ r']) (use ring r(2) g'(2) w1 in \<open>auto simp: w2_def\<close>)
    have "pump_ring env now w = (announce_pending (drain_take env now w2), drain_take env now w2)"
      using r(1) rd g0 g'(1) w1(2) by (simp add: pump_ring_def Let_def w2_def w1_def)
    then show ?thesis using p ok left w1 g0 g'(3)
      by (intro exI [of _ w2]) (simp add: w2_def unread_def engine_state_def)
  next
    case False
    have "engine_ok env hist m n (pos + length slab) g0" if "ew_engine w = Some g0" for g0
      using g [OF that] engine_ok_pos False that by (cases "slab = []") auto
    then have ok: "worker_ok env cap hist m n w1"
      by (intro worker_okI [of _ r']) (use ring r(2) w1 in auto)
    have "pump_ring env now w = (announce_pending (drain_take env now w1), drain_take env now w1)"
    proof (cases "ew_engine w")
      case None
      then show ?thesis using r(1) rd by (simp add: pump_ring_def Let_def w1_def)
    next
      case (Some g0)
      then have "\<not> (slab \<noteq> [] \<and> ss_state (rn_sender g0) = TakeStreaming)" using False by blast
      then show ?thesis using r(1) rd Some w1(2) by (auto simp: pump_ring_def Let_def w1_def)
    qed
    then show ?thesis using p ok left w1 by (intro exI [of _ w1]) (simp add: engine_state_def)
  qed
qed

lemma pump_ring_ok:
  assumes "worker_ok env cap hist m n w" "sound_flacenc (ee_flac env)" "pump_ring env now w = (out, w')"
  shows "worker_ok env cap hist m n w' \<and> silent out \<and> unread w' = unread w - 2 * ew_rate w"
  using pump_ring_parts [OF assms] drain_take_ok by fastforce

lemma recorder_finish_again:
  assumes "engine_ok env hist m n pos g" "ss_state (rn_sender g) \<noteq> TakeStreaming"
  shows "recorder_finish flac g = (False, g)"
proof -
  from assms(1) obtain k budget es where s: "rn_sender g = run sender_step (new_sender k budget) es"
    and ne: "re_chunks (run (record_step k) no_recording es) \<noteq> []"
    and fin: "re_over (run (record_step k) no_recording es) \<longrightarrow> se_finished (rn_encoder g)"
    unfolding engine_ok_def by (auto split: if_splits)
  then have "se_finished (rn_encoder g)" using engine_state_over [OF s ne] assms(2) by blast
  then show ?thesis by (simp add: recorder_finish_def finish_encoder_def)
qed

text \<open>A handler's outputs and worker, against the one before: what was armed began at the end of the history, what was
  stopped ended at the reader.\<close>

definition handled :: "enc_env \<Rightarrow> nat \<Rightarrow> real list \<Rightarrow> nat \<Rightarrow> nat \<Rightarrow> from_encoder list \<times> encoder_worker \<Rightarrow> bool" where
  "handled env cap hist m n = (\<lambda>(out, w').
     worker_ok env cap hist (if \<exists>t. Armed t \<in> set out then length hist else m)
       (if \<exists>k. Stopped (Some k) \<in> set out then length hist - unread w' else n) w')"

lemma handledI: "worker_ok env cap hist m n w \<Longrightarrow> silent out \<Longrightarrow> handled env cap hist m n (out, w)"
  by (simp add: handled_def silent_def)

lemma pump_ok:
  assumes w: "worker_ok env cap hist m n w" and f: "sound_flacenc (ee_flac env)"
  shows "handled env cap hist m n (pump env now w)"
proof (cases "ew_pendingArm w \<noteq> None \<and> engine_state w = Some TakeClosed")
  case False
  then have q: "arm_queued now w = (True, [], w)" by (auto simp: arm_queued_def split: option.split)
  obtain out w' where p: "pump_ring env now w = (out, w')" by fastforce
  show ?thesis using pump_ring_ok [OF w f p] handledI by (simp add: pump_def q p)
next
  case True
  then obtain a where a: "ew_pendingArm w = Some a" by blast
  obtain ok out w1 where arm: "do_arm a now (w\<lparr>ew_pendingArm := None\<rparr>) = (ok, out, w1)" by (cases "do_arm a now (w\<lparr>ew_pendingArm := None\<rparr>)")
  have "worker_ok env cap hist m n (w\<lparr>ew_pendingArm := None\<rparr>)" by (rule worker_ok_engine [OF w]) auto
  from do_arm_ok [OF this arm] have w1: "worker_ok env cap hist (length hist) k w1" "ok \<longrightarrow> out = [Armed now]"
    "\<not> ok \<longrightarrow> out = [] \<and> ew_engine w1 = None" for k by blast+
  have q: "arm_queued now w = (ok, out, w1)" using True a arm by (simp add: arm_queued_def)
  show ?thesis
  proof (cases ok)
    case True
    obtain out' w2 where p: "pump_ring env now w1 = (out', w2)" by fastforce
    have "worker_ok env cap hist (length hist) n w2 \<and> silent out'" using pump_ring_ok [OF w1(1) f p] by blast
    then show ?thesis using w1(2) True by (auto simp: pump_def q p handled_def silent_def)
  next
    case False
    have "worker_ok env cap hist m n w1" using w1(1) [of n] w1(3) False by (auto simp: worker_ok_def)
    then show ?thesis using w1(3) False by (simp add: pump_def q handled_def)
  qed
qed

lemma on_stop_ok:
  assumes w: "worker_ok env cap hist m n w" and f: "sound_flacenc (ee_flac env)"
  shows "handled env cap hist m n (on_stop env now w)"
proof (cases "ew_pendingArm w \<noteq> None \<or> ew_engine w = None")
  case True
  have "worker_ok env cap hist m n (w\<lparr>ew_pendingArm := None\<rparr>)" by (rule worker_ok_engine [OF w]) auto
  with w True show ?thesis by (auto simp: on_stop_def handled_def)
next
  case False
  then have p0: "ew_pendingArm w = None" "ew_engine w \<noteq> None" by auto
  obtain out w1 where p: "pump_ring env now w = (out, w1)" by fastforce
  have pump: "pump env now w = (out, w1)" using p0(1) p by (simp add: pump_def arm_queued_def)
  from pump_ring_ok [OF w f p] have w1: "worker_ok env cap hist m n w1" "silent out" by blast+
  show ?thesis
  proof (cases "ew_engine w1")
    case None
    then show ?thesis using w1 p0 by (auto simp: on_stop_def pump intro!: handledI)
  next
    case (Some g)
    from w1(1) obtain r pos where r: "ew_ring w1 = Some r" "ring_capacity r = cap" "ring_holds r hist pos"
      and g: "engine_ok env hist m n pos g" using Some by (auto simp: worker_ok_def)
    note pos = ring_holds_pos [OF r(3), THEN conjunct1]
    show ?thesis
    proof (cases "ss_state (rn_sender g) = TakeStreaming")
      case False
      have "worker_ok env cap hist m n (w1\<lparr>ew_engine := Some g\<rparr>)" by (rule worker_ok_engine [OF w1(1)]) (use Some in auto)
      then show ?thesis
        using recorder_finish_again [OF g False] w1 p0 Some by (auto simp: on_stop_def pump intro!: handledI)
    next
      case True
      from engine_ok_finish [OF f g True pos] obtain g1 where
        g1: "recorder_finish (ee_flac env) g = (True, g1)" "engine_ok env hist m pos pos g1" "ss_finalSeq (rn_sender g1) \<noteq> None" by blast
      define w2 where "w2 = drain_take env now (w1\<lparr>ew_engine := Some g1\<rparr>)"
      have "worker_ok env cap hist m pos (w1\<lparr>ew_engine := Some g1\<rparr>)"
        by (rule worker_okI [of _ r]) (use r g1(2) in auto)
      from drain_take_ok [OF this, of env now] have w2: "worker_ok env cap hist m pos w2" "unread w2 = unread w1"
        by (simp_all add: w2_def unread_def)
      obtain ga lta where dl: "drain_local (ee_utf8 env) now g1 (ew_local w1) = (ga, lta)" by fastforce
      then obtain g2 where g2: "ew_engine w2 = Some g2" by (simp add: w2_def drain_take_def)
      obtain g3 lt where fin: "finalize_local now (ss_finalSeq (rn_sender g1)) g2 (ew_local w2) = (g3, lt)" by fastforce
      define w3 where "w3 = w2\<lparr>ew_engine := Some g3, ew_local := lt\<rparr>"
      have w3: "worker_ok env cap hist m pos w3" "unread w3 = unread w1"
        using w2(2) by (auto intro!: worker_ok_engine [OF w2(1)] simp: w3_def g2 keeps_finalize_local [OF fin] unread_def)
      have "length hist - unread w3 = pos"
        using ring_holds_available [OF r(3)] pos r(1) w3(2) by (simp add: unread_def)
      moreover have "on_stop env now w = (out @ announce_pending w3 @ [Stopped (ss_finalSeq (rn_sender g1))], w3)"
        using p0 Some g1(1) fin by (simp add: on_stop_def pump Let_def g2 w3_def flip: w2_def)
      ultimately show ?thesis
        using w3(1) w1(2) g1(3) silent_announce [of w3] by (auto simp: handled_def silent_def)
    qed
  qed
qed

lemma handle_ok:
  assumes w: "worker_ok env cap hist m n w" and f: "sound_flacenc (ee_flac env)" and msg: "\<And>r rate. msg \<noteq> EncConfigure r rate"
  shows "handled env cap hist m n (encoder_handle env now msg w)"
proof (cases msg)
  case (EncConfigure r rate)
  with msg show ?thesis by blast
next
  case (EncArm a)
  from w obtain r where r: "ew_ring w = Some r" by (auto simp: worker_ok_def)
  obtain ok out w1 where arm: "do_arm a now w = (ok, out, w1)" by (cases "do_arm a now w")
  note d = do_arm_ok [OF w arm]
  have "worker_ok env cap hist m n w1" if "\<not> ok" using d [of n] that by (auto simp: worker_ok_def)
  moreover have "worker_ok env cap hist m n (w\<lparr>ew_pendingArm := Some a\<rparr>)" by (rule worker_ok_engine [OF w]) auto
  ultimately show ?thesis using d [of n] r arm by (cases ok) (auto simp: EncArm on_arm_def handled_def)
next
  case EncStop
  then show ?thesis using on_stop_ok [OF w f] by simp
next
  case (SinkAdd i)
  show ?thesis using keeps_calls(1) by (auto simp: SinkAdd on_engine_def intro!: handledI worker_ok_engine [OF w])
next
  case (SinkConnected i up)
  have "worker_ok env cap hist m n (on_engine (recorder_set_connected i up) (w\<lparr>ew_preArm := jm_set i up (ew_preArm w)\<rparr>))"
    by (rule worker_ok_engine [OF w]) (auto simp: on_engine_def keeps_calls(3))
  then show ?thesis by (auto simp: SinkConnected Let_def intro!: handledI)
next
  case (SinkRemove i)
  show ?thesis using keeps_calls(2) by (auto simp: SinkRemove on_engine_def intro!: handledI worker_ok_engine [OF w])
next
  case (EncFrame i b)
  show ?thesis
  proof (cases "ew_engine w")
    case (Some g)
    obtain ok reply g' where fr: "recorder_frame i b now g = (ok, reply, g')" by (cases "recorder_frame i b now g")
    have w1: "worker_ok env cap hist m n (w\<lparr>ew_engine := Some g'\<rparr>)"
      by (rule worker_ok_engine [OF w]) (use keeps_calls(4) [OF fr] Some in auto)
    have "silent (case reply of None \<Rightarrow> [] | Some r \<Rightarrow> [EncReply i r])" by (auto simp: silent_def split: option.split)
    then show ?thesis using w w1 by (cases ok) (auto simp: EncFrame Some fr Let_def intro!: handledI)
  qed (use w in \<open>auto simp: EncFrame intro!: handledI\<close>)
next
  case (EncDrain i mx)
  show ?thesis
  proof (cases "ew_engine w")
    case (Some g)
    obtain bs s where d: "drain_frames i mx (rn_sender g) = (bs, s)" by fastforce
    have w1: "worker_ok env cap hist m n (w\<lparr>ew_engine := Some (g\<lparr>rn_sender := s\<rparr>)\<rparr>)"
      by (rule worker_ok_engine [OF w]) (use quietly_drain_frames [OF d] Some in \<open>auto simp: keeps_def\<close>)
    have "silent (if bs = [] then [] else [EncFrames i bs])" by (auto simp: silent_def)
    then show ?thesis using w1 by (auto simp: EncDrain Some d intro!: handledI)
  qed (use w in \<open>auto simp: EncDrain intro!: handledI\<close>)
next
  case (EncTimePing i)
  show ?thesis
  proof (cases "ew_engine w")
    case (Some g)
    obtain b g' where t: "recorder_time_ping i now g = (b, g')" by fastforce
    have w1: "worker_ok env cap hist m n (w\<lparr>ew_engine := Some g'\<rparr>)"
      by (rule worker_ok_engine [OF w]) (use keeps_calls(5) [OF t] Some in auto)
    then show ?thesis by (auto simp: EncTimePing Some t silent_def intro!: handledI)
  qed (use w in \<open>auto simp: EncTimePing intro!: handledI\<close>)
next
  case EncExport
  with w show ?thesis by (auto simp: silent_def intro!: handledI)
qed

subsection \<open>Every run\<close>

definition capture_ok :: "enc_env \<Rightarrow> nat \<Rightarrow> capture_world \<Rightarrow> bool" where
  "capture_ok env cap w \<longleftrightarrow> sound_flacenc (ee_flac env) \<and> worker_ok env cap (cw_captured w) (cw_mark w) (cw_stop w) (cw_worker w)"

definition capture_room :: "enc_env \<Rightarrow> nat \<Rightarrow> capture_world \<Rightarrow> capture_event \<Rightarrow> bool" where
  "capture_room env cap w ev \<longleftrightarrow> good_capacity cap (length (cw_captured (capture_step env w ev)))
     \<and> (\<forall>now r rate. ev \<noteq> EncMsg now (EncConfigure r rate))"

lemma worker_ok_more:
  assumes "worker_ok env cap hist m n w" "ew_ring w = Some r" "good_capacity cap (length (hist @ accepted ch r))"
  shows "worker_ok env cap (hist @ accepted ch r) m n (w\<lparr>ew_ring := Some (capture_process ch r)\<rparr>)"
proof -
  from assms(1,2) obtain pos where r: "ring_capacity r = cap" "ring_holds r hist pos"
    and g: "\<And>g. ew_engine w = Some g \<Longrightarrow> engine_ok env hist m n pos g" by (auto simp: worker_ok_def)
  have "ring_holds (capture_process ch r) (hist @ accepted ch r) pos \<and> ring_capacity (capture_process ch r) = cap"
    using ring_holds_capture [OF r(2), of ch] assms(3) r(1) by simp
  then show ?thesis
    using engine_ok_history [OF g] ring_holds_pos [OF r(2)] by (auto intro!: worker_okI)
qed

interpretation capture_machine: guarded_machine "capture_step env" "capture_ok env cap" "capture_room env cap" for env cap
proof
  fix w ev
  assume ok: "capture_ok env cap w" and room: "capture_room env cap w ev"
  then have f: "sound_flacenc (ee_flac env)" and w: "worker_ok env cap (cw_captured w) (cw_mark w) (cw_stop w) (cw_worker w)"
    by (simp_all add: capture_ok_def)
  have out: "capture_ok env cap (after_output res w)" if "handled env cap (cw_captured w) (cw_mark w) (cw_stop w) res" for res
    using that f by (cases res) (simp add: capture_ok_def after_output_def handled_def)
  show "capture_ok env cap (capture_step env w ev)"
  proof (cases ev)
    case (Quantum ch)
    from w obtain r where r: "ew_ring (cw_worker w) = Some r" by (auto simp: worker_ok_def)
    have "good_capacity cap (length (cw_captured w @ accepted ch r))" using room r by (simp add: capture_room_def Quantum)
    then show ?thesis using worker_ok_more [OF w r] f by (simp add: capture_ok_def Quantum r)
  next
    case (PumpTick now)
    show ?thesis unfolding PumpTick capture_step.simps by (rule out [OF pump_ok [OF w f]])
  next
    case (EncMsg now msg)
    have "msg \<noteq> EncConfigure r rate" for r rate using room by (auto simp: capture_room_def EncMsg)
    then show ?thesis unfolding EncMsg capture_step.simps by (intro out handle_ok [OF w f])
  qed
qed

text \<open>A worker on a fresh ring.\<close>

definition capture_start :: "nat \<Rightarrow> nat \<Rightarrow> capture_world" where
  "capture_start cap rate =
     \<lparr>cw_worker = fresh_worker\<lparr>ew_ring := Some (create_capture_ring 0 cap), ew_rate := rate\<rparr>,
      cw_captured = [], cw_mark = 0, cw_stop = 0\<rparr>"

lemma capture_grows: "length (cw_captured w) \<le> length (cw_captured (run (capture_step env) w evs))"
proof (induction evs arbitrary: w)
  case (Cons ev evs)
  have "length (cw_captured w) \<le> length (cw_captured (capture_step env w ev))"
    by (cases ev) (auto simp: after_output_def split: option.split prod.split)
  with Cons.IH [of "capture_step env w ev"] show ?case by simp
qed simp

lemma capture_run_ok:
  assumes "sound_flacenc (ee_flac env)" "\<And>now r rate. EncMsg now (EncConfigure r rate) \<notin> set evs"
    and "good_capacity cap (length (cw_captured (run (capture_step env) (capture_start cap rate) evs)))"
  shows "capture_ok env cap (run (capture_step env) (capture_start cap rate) evs)"
proof (rule capture_machine.run_guarded)
  have "ring_holds (create_capture_ring 0 cap) [] 0"
    using assms(3) by (simp add: ring_holds_def ring_ok_def Sab_Ring.ring_inv_def create_capture_ring_def ring_capacity_def good_capacity_def)
  then show "capture_ok env cap (capture_start cap rate)"
    unfolding capture_ok_def capture_start_def using assms(1)
    by (auto intro!: worker_okI simp: fresh_worker_def create_capture_ring_def ring_capacity_def)
  have "legal (capture_step env) (capture_room env cap) w evs"
    if "good_capacity cap (length (cw_captured (run (capture_step env) w evs)))" "\<And>now r rate. EncMsg now (EncConfigure r rate) \<notin> set evs" for w
    using that
  proof (induction evs arbitrary: w)
    case (Cons ev evs)
    have "good_capacity cap (length (cw_captured (capture_step env w ev)))"
      using Cons.prems(1) capture_grows [of "capture_step env w ev" env evs] by (auto intro: good_capacity_mono)
    moreover have "\<forall>now r rate. ev \<noteq> EncMsg now (EncConfigure r rate)" using Cons.prems(2) by auto
    ultimately show ?case using Cons by (auto simp: capture_room_def)
  qed simp
  from this [OF assms(3,2)] show "legal (capture_step env) (capture_room env cap) (capture_start cap rate) evs" .
qed

text \<open>C5. What a take records, and what it does not. Let the audio thread, timers and messages run against each other in
  any order, with takes armed, queued and stopped at will. The chunks numbered for the current take carry the encoding of
  the consecutive samples accepted from the moment it was armed, up to those the worker has read or, once it is over, had
  read when it stopped. No sample from before the take was armed is ever encoded, and none in between is left out. It is
  asked that the block encoder fails on no block (one that fails is lost: \<open>failed_block_is_dropped\<close> in \<open>Codec\<close>), that the
  worker is configured once, and that the ring's capacity divides the range of its counters or fewer than 2^32 samples are
  accepted (else the position jumps: \<open>ring_breaks_at_wrap\<close> in \<open>Sab_Ring\<close>).\<close>

theorem take_is_captured_audio:
  fixes env evs cap rate
  defines "w \<equiv> run (capture_step env) (capture_start cap rate) evs"
  assumes "sound_flacenc (ee_flac env)" "\<And>now r rate. EncMsg now (EncConfigure r rate) \<notin> set evs"
    and "good_capacity cap (length (cw_captured w))" "ew_engine (cw_worker w) = Some g"
  shows "engine_ok env (cw_captured w) (cw_mark w) (cw_stop w) (length (cw_captured w) - unread (cw_worker w)) g"
proof -
  have "capture_ok env cap w" unfolding w_def by (rule capture_run_ok [OF assms(2,3)]) (use assms(4) in \<open>simp_all add: w_def\<close>)
  then obtain r pos where r: "ew_ring (cw_worker w) = Some r" "ring_holds r (cw_captured w) pos"
    and g: "engine_ok env (cw_captured w) (cw_mark w) (cw_stop w) pos g"
    using assms(5) by (auto simp: capture_ok_def worker_ok_def)
  have "length (cw_captured w) - unread (cw_worker w) = pos"
    using ring_holds_available [OF r(2)] ring_holds_pos [OF r(2)] r(1) by (simp add: unread_def)
  with g show ?thesis by simp
qed

text \<open>Two samples of a soundcheck, a take, one sample of it: the encoder has seen the third sample only.\<close>

definition sample_env :: enc_env where
  "sample_env = \<lparr>ee_flac = (\<lambda>_ i blk. Some [of_nat i, of_nat (length blk)]), ee_f32 = (\<lambda>_. [0, 0, 0, 0]), ee_utf8 = (\<lambda>_. True)\<rparr>"

definition sample_arm :: arm_msg where
  "sample_arm = \<lparr>am_key = \<lparr>fk_takeId = replicate 16 1, fk_streamId = replicate 16 2\<rparr>, am_bits = 24, am_deviceDesc = [],
     am_wallClock = 0, am_budget = 1000, am_retain = False\<rparr>"

definition sample_capture :: "capture_event list" where
  "sample_capture = [Quantum [1 / 2, 1 / 4], EncMsg 7 (EncArm sample_arm), Quantum [1 / 8], PumpTick 8]"

theorem take_is_captured_audio_witness:
  "\<exists>g. ew_engine (cw_worker (run (capture_step sample_env) (capture_start 5 48000) sample_capture)) = Some g
     \<and> engine_ok sample_env [1 / 2, 1 / 4, 1 / 8] 2 0 3 g \<and> ss_state (rn_sender g) = TakeStreaming"
proof -
  define ring where "ring w rd data q = \<lparr>sr_write = w, sr_read = rd, sr_dropped = 0, sr_emptyQuanta = 0, sr_quanta = q, sr_data = data\<rparr>"
    for w rd q :: "32 word" and data :: "real list"
  note ring_eval = ring_def create_capture_ring_def accepted_def capture_process_def ring_full_def available_def ring_capacity_def
    copy_in_def copy_out_def blit_def snap_to_write_def reset_dropped_def read_ring_def Let_def
  have three: "replicate 3 0 = [0, 0, 0 :: real]" by (simp add: numeral_3_eq_3)
  have r: "capture_process [1 / 2, 1 / 4] (create_capture_ring 0 5) = ring 2 0 [1 / 2, 1 / 4, 0, 0, 0] 1"
    "accepted [1 / 2, 1 / 4] (create_capture_ring 0 5) = [1 / 2, 1 / 4 :: real]"
    "reset_dropped (snap_to_write (ring 2 0 [1 / 2, 1 / 4, 0, 0, 0] 1)) = ring 2 2 [1 / 2, 1 / 4, 0, 0, 0] 1"
    "capture_process [1 / 8] (ring 2 2 [1 / 2, 1 / 4, 0, 0, 0] 1) = ring 3 2 [1 / 2, 1 / 4, 1 / 8, 0, 0] 2"
    "accepted [1 / 8] (ring 2 2 [1 / 2, 1 / 4, 0, 0, 0] 1) = [1 / 8]"
    "read_ring (48000 * 2) (ring 3 2 [1 / 2, 1 / 4, 1 / 8, 0, 0] 2) = ([1 / 8], ring 3 3 [1 / 2, 1 / 4, 1 / 8, 0, 0] 2)"
    "available (ring 3 3 [1 / 2, 1 / 4, 1 / 8, 0, 0] 2) = 0"
    by (simp_all add: ring_eval three)
  obtain g2 enc where g2: "new_recorder sample_arm 48000 7 = Some g2" "ss_state (rn_sender g2) = TakeStreaming"
    "rn_encoder g2 = enc" "se_pending enc = []" "\<not> se_finished enc"
    by (auto simp: new_recorder_def sample_arm_def new_encoder_def validate_config_def sender_arm_def new_sender_def)
  define g3 where "g3 = g2\<lparr>rn_encoder := enc\<lparr>se_samplesIn := se_samplesIn enc + 1, se_pending := [quantize_f32 (se_cfg enc) (1 / 8)]\<rparr>\<rparr>"
  have push: "recorder_push flac [1 / 8] g2 = (True, g3)" for flac
    using g2(3-5) by (simp add: recorder_push_def push_f32_def push_i32_def push_loop.simps block_size_def Let_def g3_def)
  define w0 where "w0 = fresh_worker\<lparr>ew_ring := Some (create_capture_ring 0 5)\<rparr>"
  define w1 where "w1 = w0\<lparr>ew_ring := Some (ring 2 0 [1 / 2, 1 / 4, 0, 0, 0] 1)\<rparr>"
  define w2 where "w2 = w1\<lparr>ew_engine := Some g2, ew_ring := Some (ring 2 2 [1 / 2, 1 / 4, 0, 0, 0] 1), ew_meterIds := Some (am_key sample_arm)\<rparr>"
  define w3 where "w3 = w2\<lparr>ew_ring := Some (ring 3 2 [1 / 2, 1 / 4, 1 / 8, 0, 0] 2)\<rparr>"
  define w4 where "w4 = w3\<lparr>ew_ring := Some (ring 3 3 [1 / 2, 1 / 4, 1 / 8, 0, 0] 2), ew_peak := decayed_peak 0 [1 / 8], ew_engine := Some g3\<rparr>"
  have w: "ew_rate w0 = 48000" "ew_engine w0 = None" "ew_preArm w0 = []" "ew_pendingArm w0 = None" "ew_local w0 = reset_local_take False"
    "ew_peak w0 = 0" by (simp_all add: w0_def fresh_worker_def)
  have arm: "on_arm sample_arm 7 w1 = ([Armed 7], w2)"
    using w g2(1) r(3) by (simp add: on_arm_def do_arm_def Let_def w1_def w2_def attach_local_sink_def reset_local_take_def) (simp add: sample_arm_def)
  have local: "announce_pending (w\<lparr>ew_local := lt\<rparr>) = announce_pending w" for w lt by (simp add: announce_pending_def)
  have pump: "pump sample_env 8 w3 = (announce_pending w4, w4)"
    using w g2(2) r(6) push
    by (simp add: pump_def arm_queued_def pump_ring_def w3_def w2_def w1_def w4_def Let_def drain_take_def drain_local_def reset_local_take_def local)
  have start: "capture_start 5 48000 = \<lparr>cw_worker = w0, cw_captured = [], cw_mark = 0, cw_stop = 0\<rparr>"
    by (simp add: capture_start_def w0_def fresh_worker_def)
  define z where "z = \<lparr>cw_worker = w4, cw_captured = [1 / 2, 1 / 4, 1 / 8], cw_mark = 2, cw_stop = 0\<rparr>"
  have end_z: "run (capture_step sample_env) (capture_start 5 48000) sample_capture = z"
    using silent_announce [of w4] r arm pump
    by (simp add: sample_capture_def start after_output_def z_def silent_def) (simp add: w0_def w1_def w2_def w3_def r)
  have f: "sound_flacenc (ee_flac sample_env)"
    by (simp add: sound_flacenc_def sample_env_def max_chunk_payload_bytes_def max_frame_bytes_def)
  have eng: "ew_engine (cw_worker (run (capture_step sample_env) (capture_start 5 48000) sample_capture)) = Some g3"
    unfolding end_z by (simp add: z_def w4_def)
  have z: "cw_captured z = [1 / 2, 1 / 4, 1 / 8]" "cw_mark z = 2" "cw_stop z = 0" "length (cw_captured z) - unread (cw_worker z) = 3"
    "good_capacity 5 (length (cw_captured z))"
    using r(7) by (simp_all add: z_def w4_def unread_def good_capacity_def)
  have "engine_ok sample_env [1 / 2, 1 / 4, 1 / 8] 2 0 3 g3"
    by (rule take_is_captured_audio [OF f _ _ eng, unfolded end_z, unfolded z(4), unfolded z(1-3)])
       (use z(5) in \<open>simp_all add: sample_capture_def z(1)\<close>)
  with eng g2(2) show ?thesis by (auto simp: g3_def)
qed

text \<open>
  Stopping reads the ring once, two seconds at most, whatever it holds: after a longer stall of the worker the rest of what
  was captured before the stop stays unread, and by the theorem above the take ends where the reader does.
\<close>

lemma stop_leaves_tail:
  assumes "worker_ok env cap hist m n w" "sound_flacenc (ee_flac env)" "ew_pendingArm w = None" "ew_engine w \<noteq> None"
  shows "unread (snd (on_stop env now w)) = unread w - 2 * ew_rate w"
proof -
  obtain out w1 where p: "pump_ring env now w = (out, w1)" by fastforce
  have pump: "pump env now w = (out, w1)" using assms(3) p by (simp add: pump_def arm_queued_def)
  have drain: "ew_ring (drain_take env now v) = ew_ring v" for v
    by (auto simp: drain_take_def split: option.split prod.split)
  have "ew_ring (snd (on_stop env now w)) = ew_ring w1"
    using assms(3,4) by (auto simp: on_stop_def pump Let_def drain split: option.splits prod.splits bool.splits)
  then show ?thesis using pump_ring_ok [OF assms(1,2) p] by (simp add: unread_def)
qed

end
