(* ===== verification/Capture_Controller.thy ===== *)
theory Capture_Controller
  imports Encoder_Worker
begin

text \<open>
  The main thread's side of a recorder: \<open>apps/web/src/audio/capture-controller.ts\<close> with the helpers of
  \<open>capture-media.ts\<close>, and the data channels it drains into, \<open>apps/web/src/net/sink-link.ts\<close>. The calls return what they
  do to the world: messages for the encoder worker, microphone tracks stopped, promises settled. A call that awaits is
  split where it awaits; what its closure keeps across the wait is its stage. Links are shared between the controller and
  the session that owns them, so they live in a store and are named by their place in it. Whether a channel accepts a
  frame, the UTF-8 of a string and the user agent are parameters.
\<close>

subsection \<open>Links to the sinks\<close>

record data_channel =
  dc_id :: nat
  dc_open :: bool
  dc_buffered :: nat
  dc_sent :: "bytes list"

record sink_link =
  sk_sinkId :: nat
  sk_target :: string
  sk_label :: string
  sk_dispose :: bool
  sk_channel :: "data_channel option"
  sk_connecting :: bool

type_synonym link_store = "sink_link list"

record capture_env =
  ca_sends :: "data_channel \<Rightarrow> bytes \<Rightarrow> bool"
  ca_utf8 :: "string \<Rightarrow> bytes"
  ca_device :: "string option"

definition port_high_watermark :: nat where "port_high_watermark = 2 ^ 20"
definition port_low_watermark :: nat where "port_low_watermark = 256 * 1024"

definition new_sink_link :: "nat \<Rightarrow> string \<Rightarrow> string \<Rightarrow> sink_link" where
  "new_sink_link i target chan =
     \<lparr>sk_sinkId = i, sk_target = target, sk_label = chan, sk_dispose = False, sk_channel = None, sk_connecting = False\<rparr>"

text \<open>Frames until one is refused: whether all went, and the channel.\<close>

fun send_frames :: "(data_channel \<Rightarrow> bytes \<Rightarrow> bool) \<Rightarrow> bytes list \<Rightarrow> data_channel \<Rightarrow> bool \<times> data_channel" where
  "send_frames sends [] c = (True, c)"
| "send_frames sends (f # fs) c =
     (if sends c f then send_frames sends fs (c\<lparr>dc_buffered := dc_buffered c + length f, dc_sent := dc_sent c @ [f]\<rparr>)
      else (False, c))"

text \<open>The port's \<open>send\<close>: whether it asks for more, and the link.\<close>

definition port_send :: "(data_channel \<Rightarrow> bytes \<Rightarrow> bool) \<Rightarrow> bytes list \<Rightarrow> sink_link \<Rightarrow> bool \<times> sink_link" where
  "port_send sends frames l =
     (case sk_channel l of None \<Rightarrow> (False, l)
      | Some c \<Rightarrow>
          if \<not> dc_open c then (False, l)
          else let (ok, c) = send_frames sends frames c
               in (ok \<and> dc_buffered c < port_low_watermark, l\<lparr>sk_channel := Some c\<rparr>))"

definition port_budget :: "sink_link \<Rightarrow> nat" where
  "port_budget l = (case sk_channel l of None \<Rightarrow> 0 | Some c \<Rightarrow> if dc_open c then port_high_watermark - dc_buffered c else 0)"

subsection \<open>The state of the pipeline\<close>

record capture_flags =
  cf_echoCancellation :: "string option"
  cf_noiseSuppression :: "string option"
  cf_autoGainControl :: "string option"
  cf_sampleRate :: "nat option"
  cf_channelCount :: "nat option"
  cf_deviceLabel :: string
  cf_deviceId :: "string option"

record media_stream =
  me_id :: nat
  me_flags :: capture_flags

record audio_context =
  ax_rate :: nat
  ax_state :: string

record arm_options =
  ao_takeId :: bytes
  ao_streamId :: bytes
  ao_deviceDesc :: "string option"
  ao_retainLocal :: "bool option"

record capture_snapshot =
  sn_contextSampleRate :: "nat option"
  sn_contextState :: "string option"
  sn_flags :: "capture_flags option"
  sn_stats :: "recorder_stats option"
  sn_ring :: "ring_diagnostics option"
  sn_peak :: real
  sn_localChunks :: nat
  sn_finalSeq :: "nat option"
  sn_error :: "string option"
  sn_takeOpen :: bool

record capture_controller =
  cc_context :: "audio_context option"
  cc_stream :: "media_stream option"
  cc_source :: "nat option"
  cc_worker :: bool
  cc_ready :: bool
  cc_node :: bool
  cc_wakeLock :: bool
  cc_sinks :: "(nat, nat) jsmap"
  cc_snapshot :: capture_snapshot
  cc_exports :: "nat list"
  cc_pendingArm :: "arm_options option"
  cc_epoch :: nat
  cc_switching :: bool
  cc_armGeneration :: nat
  cc_stopFor :: "nat option"

definition new_controller :: capture_controller where
  "new_controller =
     \<lparr>cc_context = None, cc_stream = None, cc_source = None, cc_worker = False, cc_ready = False, cc_node = False,
      cc_wakeLock = False, cc_sinks = [],
      cc_snapshot = \<lparr>sn_contextSampleRate = None, sn_contextState = None, sn_flags = None, sn_stats = None, sn_ring = None,
        sn_peak = 0, sn_localChunks = 0, sn_finalSeq = None, sn_error = None, sn_takeOpen = False\<rparr>,
      cc_exports = [], cc_pendingArm = None, cc_epoch = 0, cc_switching = False, cc_armGeneration = 0, cc_stopFor = None\<rparr>"

text \<open>
  What a call does outside the controller: the worker is created, told something or terminated, the tracks of a stream
  stop, an export promise settles, a call throws.
\<close>

datatype capture_out =
    SpawnWorker
  | ToWorker to_encoder
  | KillWorker
  | StopTracks nat
  | ExportDone nat "bytes option"
  | Throws string

definition publish :: "(capture_snapshot \<Rightarrow> capture_snapshot) \<Rightarrow> capture_controller \<Rightarrow> capture_controller" where
  "publish patch c = c\<lparr>cc_snapshot := patch (cc_snapshot c)\<rparr>"

definition post_enc :: "capture_controller \<Rightarrow> to_encoder \<Rightarrow> capture_out list" where
  "post_enc c msg = (if cc_worker c then [ToWorker msg] else [])"

definition ring_seconds :: nat where "ring_seconds = 8"
definition encoded_ring_budget_bytes :: nat where "encoded_ring_budget_bytes = 6 * 1024 * 1024"

definition default_device_desc :: "capture_env \<Rightarrow> capture_flags option \<Rightarrow> bytes" where
  "default_device_desc env flags =
     ca_utf8 env (case ca_device env of None \<Rightarrow> ''browser'' | Some d \<Rightarrow> d) @ [0x20, 0xC2, 0xB7, 0x20]
       @ ca_utf8 env (case flags of None \<Rightarrow> ''mic'' | Some f \<Rightarrow> cf_deviceLabel f)"

text \<open>The two version bits of a random id.\<close>

definition stamp_uuid4 :: "bytes \<Rightarrow> bytes" where
  "stamp_uuid4 b = b[6 := or (and (b ! 6) 0x0F) 0x40, 8 := or (and (b ! 8) 0x3F) 0x80]"

subsection \<open>Starting\<close>

text \<open>
  \<open>start\<close> awaits the microphone, the context's \<open>resume\<close>, the worklet module and the wake lock. The local \<open>stream\<close> and
  \<open>context\<close> survive in its closure; it never looks at the pipeline's epoch.
\<close>

datatype start_stage =
    AwaitMic bool
  | AwaitResume bool media_stream audio_context
  | AwaitModule bool media_stream audio_context
  | AwaitWakeLock

definition start_call :: "bool \<Rightarrow> capture_controller \<Rightarrow> start_stage option" where
  "start_call wakeLock c = (if cc_context c \<noteq> None then None else Some (AwaitMic wakeLock))"

definition start_fails :: "capture_controller \<Rightarrow> capture_out list \<times> capture_controller" where
  "start_fails c = ([Throws ''capture start failed''], publish (sn_error_update (\<lambda>_. Some ''capture start failed'')) c)"

definition start_acquired ::
  "bool \<Rightarrow> media_stream \<Rightarrow> nat \<Rightarrow> capture_controller \<Rightarrow> start_stage \<times> capture_controller" where
  "start_acquired wakeLock st rate c =
     (let x = \<lparr>ax_rate = rate, ax_state = ''suspended''\<rparr>
      in (AwaitResume wakeLock st x, c\<lparr>cc_stream := Some st, cc_context := Some x\<rparr>))"

definition start_resumed ::
  "bool \<Rightarrow> media_stream \<Rightarrow> audio_context \<Rightarrow> capture_controller \<Rightarrow> start_stage \<times> capture_controller" where
  "start_resumed wakeLock st x c =
     (let x = x\<lparr>ax_state := ''running''\<rparr> in (AwaitModule wakeLock st x, c\<lparr>cc_context := map_option (\<lambda>_. x) (cc_context c)\<rparr>))"

definition start_loaded ::
  "bool \<Rightarrow> media_stream \<Rightarrow> audio_context \<Rightarrow> capture_controller \<Rightarrow> capture_out list \<times> start_stage option \<times> capture_controller" where
  "start_loaded wakeLock st x c =
     (let c = c\<lparr>cc_source := Some (me_id st), cc_node := True, cc_worker := True\<rparr>;
          c = publish (\<lambda>s. s\<lparr>sn_contextSampleRate := Some (ax_rate x), sn_contextState := Some (ax_state x),
                sn_flags := Some (me_flags st), sn_error := None\<rparr>) c
      in ([SpawnWorker, ToWorker (EncConfigure (create_capture_ring 0 (ax_rate x * ring_seconds)) (ax_rate x))],
          if wakeLock then Some AwaitWakeLock else None, c))"

definition start_locked :: "bool \<Rightarrow> capture_controller \<Rightarrow> capture_controller" where
  "start_locked granted c = (if granted then c\<lparr>cc_wakeLock := True\<rparr> else c)"

subsection \<open>Switching the input\<close>

text \<open>The guards before the wait, with the epoch the closure keeps; then the guards after it, and the swap.\<close>

definition switch_call :: "capture_controller \<Rightarrow> string + nat \<times> capture_controller" where
  "switch_call c =
     (if cc_context c = None \<or> \<not> cc_node c then Inl ''capture pipeline is not running''
      else if sn_takeOpen (cc_snapshot c) then Inl ''cannot switch input while a take is open''
      else if cc_switching c then Inl ''a device switch is already in flight''
      else Inr (cc_epoch c, c\<lparr>cc_switching := True\<rparr>))"

definition switch_failed :: "capture_controller \<Rightarrow> capture_out list \<times> capture_controller" where
  "switch_failed c =
     ([Throws ''input switch failed''],
      (publish (sn_error_update (\<lambda>_. Some ''input switch failed'')) c)\<lparr>cc_switching := False\<rparr>)"

definition switch_acquired :: "nat \<Rightarrow> media_stream \<Rightarrow> capture_controller \<Rightarrow> capture_out list \<times> capture_controller" where
  "switch_acquired epoch st c =
     (if cc_epoch c \<noteq> epoch \<or> cc_context c = None \<or> \<not> cc_node c
      then ([StopTracks (me_id st), Throws ''capture pipeline closed during the switch''], c\<lparr>cc_switching := False\<rparr>)
      else if sn_takeOpen (cc_snapshot c)
      then ([StopTracks (me_id st), Throws ''a take opened during the switch''], c\<lparr>cc_switching := False\<rparr>)
      else ((case cc_stream c of None \<Rightarrow> [] | Some old \<Rightarrow> [StopTracks (me_id old)]),
            (publish (\<lambda>s. s\<lparr>sn_flags := Some (me_flags st), sn_error := None\<rparr>)
              (c\<lparr>cc_source := Some (me_id st), cc_stream := Some st\<rparr>))\<lparr>cc_switching := False\<rparr>))"

subsection \<open>Takes\<close>

definition ctl_arm :: "capture_env \<Rightarrow> nat \<Rightarrow> arm_options \<Rightarrow> capture_controller \<Rightarrow> capture_out list \<times> capture_controller" where
  "ctl_arm env wall a c =
     (let c = publish (sn_takeOpen_update (\<lambda>_. True)) (c\<lparr>cc_armGeneration := cc_armGeneration c + 1\<rparr>)
      in if \<not> cc_ready c then ([], c\<lparr>cc_pendingArm := Some a\<rparr>)
         else (post_enc c (EncArm
             \<lparr>am_key = \<lparr>fk_takeId = ao_takeId a, fk_streamId = ao_streamId a\<rparr>, am_bits = 24,
              am_deviceDesc = (case ao_deviceDesc a of None \<Rightarrow> default_device_desc env (sn_flags (cc_snapshot c))
                | Some d \<Rightarrow> ca_utf8 env d),
              am_wallClock = wall, am_budget = encoded_ring_budget_bytes,
              am_retain = (case ao_retainLocal a of None \<Rightarrow> False | Some r \<Rightarrow> r)\<rparr>), c))"

definition ctl_stop_take :: "capture_controller \<Rightarrow> capture_out list \<times> capture_controller" where
  "ctl_stop_take c =
     (if cc_pendingArm c \<noteq> None
      then ([], publish (sn_takeOpen_update (\<lambda>_. False)) (c\<lparr>cc_pendingArm := None\<rparr>))
      else (post_enc c EncStop, c\<lparr>cc_stopFor := Some (cc_armGeneration c)\<rparr>))"

subsection \<open>Sinks\<close>

definition attach_sink :: "nat \<Rightarrow> nat \<Rightarrow> capture_controller \<Rightarrow> capture_out list \<times> capture_controller" where
  "attach_sink i addr c = (post_enc c (SinkAdd i), c\<lparr>cc_sinks := jm_set i addr (cc_sinks c)\<rparr>)"

definition set_sink_connected :: "nat \<Rightarrow> bool \<Rightarrow> capture_controller \<Rightarrow> capture_out list" where
  "set_sink_connected i up c = post_enc c (SinkConnected i up)"

definition detach_sink :: "nat \<Rightarrow> capture_controller \<Rightarrow> capture_out list \<times> capture_controller" where
  "detach_sink i c = (post_enc c (SinkRemove i), c\<lparr>cc_sinks := jm_delete i (cc_sinks c)\<rparr>)"

definition deliver_frame :: "nat \<Rightarrow> bytes \<Rightarrow> capture_controller \<Rightarrow> capture_out list" where
  "deliver_frame i b c = post_enc c (EncFrame i b)"

definition request_drain :: "link_store \<Rightarrow> nat \<Rightarrow> capture_controller \<Rightarrow> capture_out list" where
  "request_drain h i c =
     (case jm_get (cc_sinks c) i of None \<Rightarrow> []
      | Some a \<Rightarrow> let budget = port_budget (h ! a) in if 0 < budget then post_enc c (EncDrain i budget) else [])"

definition send_time_ping :: "nat \<Rightarrow> capture_controller \<Rightarrow> capture_out list" where
  "send_time_ping i c = post_enc c (EncTimePing i)"

definition export_local_flac :: "nat \<Rightarrow> capture_controller \<Rightarrow> capture_out list \<times> capture_controller" where
  "export_local_flac waiter c = (post_enc c EncExport, c\<lparr>cc_exports := cc_exports c @ [waiter]\<rparr>)"

text \<open>A port found in the controller's map sends, and may ask for more.\<close>

definition port_deliver ::
  "capture_env \<Rightarrow> nat \<Rightarrow> bytes list \<Rightarrow> link_store \<Rightarrow> capture_controller \<Rightarrow> capture_out list \<times> link_store" where
  "port_deliver env i frames h c =
     (case jm_get (cc_sinks c) i of None \<Rightarrow> ([], h)
      | Some a \<Rightarrow> let (wants, l) = port_send (ca_sends env) frames (h ! a); h = h[a := l]
                  in (if wants then request_drain h (sk_sinkId l) c else [], h))"

fun meter_out :: "capture_env \<Rightarrow> bytes \<Rightarrow> (nat \<times> nat) list \<Rightarrow> link_store \<Rightarrow> capture_controller \<Rightarrow> capture_out list \<times> link_store" where
  "meter_out env b [] h c = ([], h)"
| "meter_out env b ((i, a) # ps) h c =
     (if length b < port_budget (h ! a)
      then let (outs, h) = port_deliver env i [b] h c; (outs', h) = meter_out env b ps h c in (outs @ outs', h)
      else meter_out env b ps h c)"

subsection \<open>Teardown, and the worker's reports\<close>

definition teardown_call :: "capture_controller \<Rightarrow> capture_out list \<times> capture_controller" where
  "teardown_call c =
     ((case cc_stream c of None \<Rightarrow> [] | Some st \<Rightarrow> [StopTracks (me_id st)]) @ (if cc_worker c then [KillWorker] else []),
      c\<lparr>cc_epoch := cc_epoch c + 1, cc_node := False, cc_source := None, cc_stream := None, cc_worker := False,
        cc_ready := False, cc_pendingArm := None\<rparr>)"

definition teardown_closed :: "capture_controller \<Rightarrow> capture_controller" where
  "teardown_closed c =
     publish (\<lambda>s. s\<lparr>sn_contextSampleRate := None, sn_contextState := None, sn_flags := None, sn_stats := None,
         sn_ring := None, sn_peak := 0, sn_localChunks := 0, sn_finalSeq := None, sn_takeOpen := False\<rparr>)
       (c\<lparr>cc_context := None, cc_wakeLock := False\<rparr>)"

fun on_worker ::
  "capture_env \<Rightarrow> nat \<Rightarrow> from_encoder \<Rightarrow> link_store \<Rightarrow> capture_controller \<Rightarrow> capture_out list \<times> link_store \<times> capture_controller" where
  "on_worker env wall EncReady h c =
     (case cc_pendingArm c of None \<Rightarrow> ([], h, c\<lparr>cc_ready := True\<rparr>)
      | Some a \<Rightarrow> let (outs, c) = ctl_arm env wall a (c\<lparr>cc_ready := True, cc_pendingArm := None\<rparr>) in (outs, h, c))"
| "on_worker env wall (Armed t) h c = ([], h, publish (sn_finalSeq_update (\<lambda>_. None)) c)"
| "on_worker env wall (Stats st ring peak n) h c =
     ([], h, publish (\<lambda>s. s\<lparr>sn_stats := st, sn_ring := ring, sn_peak := peak, sn_localChunks := n,
        sn_contextState := map_option ax_state (cc_context c)\<rparr>) c)"
| "on_worker env wall (Pending ids) h c = (concat (map (\<lambda>i. request_drain h i c) ids), h, c)"
| "on_worker env wall (EncFrames i fs) h c = (let (outs, h) = port_deliver env i fs h c in (outs, h, c))"
| "on_worker env wall (EncReply i b) h c = (let (outs, h) = port_deliver env i [b] h c in (outs, h, c))"
| "on_worker env wall (Meter b) h c = (let (outs, h) = meter_out env b (cc_sinks c) h c in (outs, h, c))"
| "on_worker env wall (Stopped n) h c =
     ([], h, publish (\<lambda>s. let s = s\<lparr>sn_finalSeq := n\<rparr>
        in if cc_stopFor c = Some (cc_armGeneration c) then s\<lparr>sn_takeOpen := False\<rparr> else s) c)"
| "on_worker env wall (ExportResult b) h c = (map (\<lambda>w. ExportDone w b) (cc_exports c), h, c\<lparr>cc_exports := []\<rparr>)"
| "on_worker env wall EncError h c = ([], h, publish (sn_error_update (\<lambda>_. Some ''encoder'')) c)"

end
