(* ===== verification/Capture_Page.thy ===== *)
theory Capture_Page
  imports Capture_Controller Capture_Take
begin

text \<open>
  The recorder page at work: the capture controller, the encoder worker behind two message queues, the audio thread and
  the microphone. Calls, promises that settle, messages and timers come in any order. What the worker does between an arm and
  a stop is followed through its pumps and messages.
\<close>

subsection \<open>The page\<close>

text \<open>
  Beside controller, links, worker and queues: the streams whose tracks are live, the calls that wait, and whether the
  last of all calls of \<open>arm\<close>, \<open>stopTake\<close> and \<open>teardown\<close> was an arm.
\<close>

record capture_page =
  pg_ctl :: capture_controller
  pg_links :: link_store
  pg_work :: "capture_world option"
  pg_inbox :: "to_encoder list"
  pg_outbox :: "from_encoder list"
  pg_live :: "nat list"
  pg_nextStream :: nat
  pg_starts :: "start_stage list"
  pg_switches :: "nat list"
  pg_closing :: nat
  pg_armed :: bool

definition new_worker :: capture_world where
  "new_worker = \<lparr>cw_worker = fresh_worker, cw_captured = [], cw_mark = 0, cw_stop = 0\<rparr>"

definition new_page :: "link_store \<Rightarrow> capture_page" where
  "new_page h = \<lparr>pg_ctl = new_controller, pg_links = h, pg_work = None, pg_inbox = [], pg_outbox = [], pg_live = [],
     pg_nextStream = 0, pg_starts = [], pg_switches = [], pg_closing = 0, pg_armed = False\<rparr>"

fun page_out :: "capture_page \<Rightarrow> capture_out \<Rightarrow> capture_page" where
  "page_out p SpawnWorker = p\<lparr>pg_work := Some new_worker, pg_inbox := [], pg_outbox := []\<rparr>"
| "page_out p (ToWorker m) = p\<lparr>pg_inbox := pg_inbox p @ [m]\<rparr>"
| "page_out p KillWorker = p\<lparr>pg_work := None, pg_inbox := [], pg_outbox := []\<rparr>"
| "page_out p (StopTracks i) = p\<lparr>pg_live := removeAll i (pg_live p)\<rparr>"
| "page_out p (ExportDone w b) = p"
| "page_out p (Throws e) = p"

text \<open>A call's effects and the controller it leaves.\<close>

definition perform :: "capture_out list \<times> capture_controller \<Rightarrow> capture_page \<Rightarrow> capture_page" where
  "perform = (\<lambda>(outs, c) p. run page_out (p\<lparr>pg_ctl := c\<rparr>) outs)"

datatype page_event =
    StartCall bool
  | MicGranted nat capture_flags nat
  | MicRefused nat
  | Resumed nat
  | ModuleLoaded nat
  | StageFails nat
  | WakeLocked nat bool
  | SwitchCall
  | SwitchGranted nat capture_flags
  | SwitchRefused nat
  | ArmCall nat arm_options
  | StopCall
  | SinkCall to_encoder
  | AttachCall nat nat
  | DetachCall nat
  | ExportCall nat
  | TeardownCall
  | TeardownCloses
  | LinkChanges nat sink_link
  | WorkerTakes nat
  | WorkerPumps nat
  | WorkerStats
  | WorkerReports nat
  | AudioQuantum "real list"

text \<open>One stage of a start gives way to the next or none.\<close>

definition restage :: "nat \<Rightarrow> start_stage option \<Rightarrow> capture_page \<Rightarrow> capture_page" where
  "restage k st p = p\<lparr>pg_starts := (case st of None \<Rightarrow> take k (pg_starts p) @ drop (Suc k) (pg_starts p)
     | Some s \<Rightarrow> (pg_starts p)[k := s])\<rparr>"

definition stage_at :: "nat \<Rightarrow> capture_page \<Rightarrow> start_stage option" where
  "stage_at k p = (if k < length (pg_starts p) then Some (pg_starts p ! k) else None)"

definition grant_mic :: "capture_page \<Rightarrow> capture_flags \<Rightarrow> media_stream \<times> capture_page" where
  "grant_mic p flags =
     (\<lparr>me_id = pg_nextStream p, me_flags = flags\<rparr>,
      p\<lparr>pg_live := pg_nextStream p # pg_live p, pg_nextStream := pg_nextStream p + 1\<rparr>)"

definition work_step :: "enc_env \<Rightarrow> capture_event \<Rightarrow> from_encoder list \<Rightarrow> capture_page \<Rightarrow> capture_page" where
  "work_step env ev out p =
     p\<lparr>pg_work := map_option (\<lambda>w. capture_step env w ev) (pg_work p), pg_outbox := pg_outbox p @ out\<rparr>"

fun page_step :: "capture_env \<Rightarrow> enc_env \<Rightarrow> capture_page \<Rightarrow> page_event \<Rightarrow> capture_page" where
  "page_step ca ee p (StartCall lock) =
     (case start_call lock (pg_ctl p) of None \<Rightarrow> p | Some st \<Rightarrow> p\<lparr>pg_starts := pg_starts p @ [st]\<rparr>)"
| "page_step ca ee p (MicGranted k flags rate) =
     (case stage_at k p of
        Some (AwaitMic lock) \<Rightarrow>
          (let (st, p) = grant_mic p flags; (stage, c) = start_acquired lock st rate (pg_ctl p)
           in restage k (Some stage) (p\<lparr>pg_ctl := c\<rparr>))
      | _ \<Rightarrow> p)"
| "page_step ca ee p (MicRefused k) =
     (case stage_at k p of Some (AwaitMic _) \<Rightarrow> restage k None (perform (start_fails (pg_ctl p)) p) | _ \<Rightarrow> p)"
| "page_step ca ee p (Resumed k) =
     (case stage_at k p of
        Some (AwaitResume lock st x) \<Rightarrow>
          (let (stage, c) = start_resumed lock st x (pg_ctl p) in restage k (Some stage) (p\<lparr>pg_ctl := c\<rparr>))
      | _ \<Rightarrow> p)"
| "page_step ca ee p (ModuleLoaded k) =
     (case stage_at k p of
        Some (AwaitModule lock st x) \<Rightarrow>
          (let (outs, stage, c) = start_loaded lock st x (pg_ctl p) in restage k stage (perform (outs, c) p))
      | _ \<Rightarrow> p)"
| "page_step ca ee p (StageFails k) =
     (case stage_at k p of
        Some (AwaitResume _ _ _) \<Rightarrow> restage k None (perform (start_fails (pg_ctl p)) p)
      | Some (AwaitModule _ _ _) \<Rightarrow> restage k None (perform (start_fails (pg_ctl p)) p)
      | _ \<Rightarrow> p)"
| "page_step ca ee p (WakeLocked k granted) =
     (case stage_at k p of
        Some AwaitWakeLock \<Rightarrow> restage k None (p\<lparr>pg_ctl := start_locked granted (pg_ctl p)\<rparr>) | _ \<Rightarrow> p)"
| "page_step ca ee p SwitchCall =
     (case switch_call (pg_ctl p) of Inl _ \<Rightarrow> p
      | Inr (epoch, c) \<Rightarrow> p\<lparr>pg_ctl := c, pg_switches := pg_switches p @ [epoch]\<rparr>)"
| "page_step ca ee p (SwitchGranted k flags) =
     (if k < length (pg_switches p)
      then let (st, q) = grant_mic p flags
           in perform (switch_acquired (pg_switches p ! k) st (pg_ctl q))
                (q\<lparr>pg_switches := take k (pg_switches p) @ drop (Suc k) (pg_switches p)\<rparr>)
      else p)"
| "page_step ca ee p (SwitchRefused k) =
     (if k < length (pg_switches p)
      then perform (switch_failed (pg_ctl p)) (p\<lparr>pg_switches := take k (pg_switches p) @ drop (Suc k) (pg_switches p)\<rparr>)
      else p)"
| "page_step ca ee p (ArmCall wall a) = (perform (ctl_arm ca wall a (pg_ctl p)) p)\<lparr>pg_armed := True\<rparr>"
| "page_step ca ee p StopCall = (perform (ctl_stop_take (pg_ctl p)) p)\<lparr>pg_armed := False\<rparr>"
| "page_step ca ee p (SinkCall m) =
     (case m of
        SinkConnected i up \<Rightarrow> perform (set_sink_connected i up (pg_ctl p), pg_ctl p) p
      | EncFrame i b \<Rightarrow> perform (deliver_frame i b (pg_ctl p), pg_ctl p) p
      | EncDrain i _ \<Rightarrow> perform (request_drain (pg_links p) i (pg_ctl p), pg_ctl p) p
      | EncTimePing i \<Rightarrow> perform (send_time_ping i (pg_ctl p), pg_ctl p) p
      | _ \<Rightarrow> p)"
| "page_step ca ee p (AttachCall i a) = perform (attach_sink i a (pg_ctl p)) p"
| "page_step ca ee p (DetachCall i) = perform (detach_sink i (pg_ctl p)) p"
| "page_step ca ee p (ExportCall waiter) = perform (export_local_flac waiter (pg_ctl p)) p"
| "page_step ca ee p TeardownCall =
     (perform (teardown_call (pg_ctl p)) p)\<lparr>pg_closing := pg_closing p + 1, pg_armed := False\<rparr>"
| "page_step ca ee p TeardownCloses =
     (if pg_closing p = 0 then p else p\<lparr>pg_ctl := teardown_closed (pg_ctl p), pg_closing := pg_closing p - 1\<rparr>)"
| "page_step ca ee p (LinkChanges a l) = p\<lparr>pg_links := (pg_links p)[a := l]\<rparr>"
| "page_step ca ee p (WorkerTakes now) =
     (case (pg_work p, pg_inbox p) of
        (Some w, m # ms) \<Rightarrow> work_step ee (EncMsg now m) (fst (encoder_handle ee now m (cw_worker w))) (p\<lparr>pg_inbox := ms\<rparr>)
      | _ \<Rightarrow> p)"
| "page_step ca ee p (WorkerPumps now) =
     (case pg_work p of None \<Rightarrow> p | Some w \<Rightarrow>
        if ew_ring (cw_worker w) = None then p else work_step ee (PumpTick now) (fst (pump ee now (cw_worker w))) p)"
| "page_step ca ee p WorkerStats =
     (case pg_work p of None \<Rightarrow> p | Some w \<Rightarrow>
        if ew_ring (cw_worker w) = None then p else p\<lparr>pg_outbox := pg_outbox p @ send_stats (ee_f32 ee) (cw_worker w)\<rparr>)"
| "page_step ca ee p (WorkerReports wall) =
     (case pg_outbox p of [] \<Rightarrow> p
      | m # ms \<Rightarrow> (let (outs, h, c) = on_worker ca wall m (pg_links p) (pg_ctl p)
                  in perform (outs, c) (p\<lparr>pg_outbox := ms, pg_links := h\<rparr>)))"
| "page_step ca ee p (AudioQuantum ch) = (if cc_node (pg_ctl p) then work_step ee (Quantum ch) [] p else p)"

subsection \<open>What streams\<close>

abbreviation streams :: "recorder_engine \<Rightarrow> bool" where
  "streams g \<equiv> ss_state (rn_sender g) = TakeStreaming"

definition working :: "encoder_worker \<Rightarrow> bool" where
  "working w \<longleftrightarrow> engine_state w = Some TakeStreaming"

lemma keeps_streams:
  assumes ok: "engine_ok env hist m n pos g" and k: "keeps g g'"
  shows "streams g' \<longleftrightarrow> streams g"
proof -
  from k obtain es' where q: "list_all quiet es'" "rn_sender g' = run sender_step (rn_sender g) es'"
    by (auto simp: keeps_def quietly_def)
  from ok [unfolded engine_ok_def] obtain k budget es where
    s: "rn_sender g = run sender_step (new_sender k budget) es" and ne: "re_chunks (run (record_step k) no_recording es) \<noteq> []"
    by blast
  have rec: "run (record_step k) no_recording (es @ es') = run (record_step k) no_recording es"
    by (simp add: quiet_record [OF q(1)])
  have "rn_sender g' = run sender_step (new_sender k budget) (es @ es')" by (simp add: q(2) s)
  then show ?thesis using engine_state_over [OF s ne] engine_state_over [of g' k budget "es @ es'"] ne rec by simp
qed

lemma engine_okE:
  assumes "engine_ok env hist m n pos g"
  obtains k budget es where "rn_sender g = run sender_step (new_sender k budget) es"
    "re_chunks (run (record_step k) no_recording es) \<noteq> []"
    "re_over (run (record_step k) no_recording es) \<Longrightarrow> n \<le> length hist"
proof -
  from assms [unfolded engine_ok_def] obtain k budget es cs where
    1: "rn_sender g = run sender_step (new_sender k budget) es" and 2: "re_chunks (run (record_step k) no_recording es) \<noteq> []"
    and 3: "if re_over (run (record_step k) no_recording es)
         then m \<le> n \<and> n \<le> length hist \<and> se_finished (rn_encoder g)
           \<and> concat (map en_payload cs)
               = concat (map fst (all_frames (ee_flac env) (map (quantize_f32 (se_cfg (rn_encoder g))) (between m n hist))))
           \<and> tiled (nominal_chunk_samples (se_cfg (rn_encoder g))) 0 cs (n - m)
         else m \<le> pos \<and> encoded (ee_flac env) (map (quantize_f32 (se_cfg (rn_encoder g))) (between m pos hist)) cs (rn_encoder g)"
    by blast
  from 3 have "re_over (run (record_step k) no_recording es) \<Longrightarrow> n \<le> length hist" by simp
  with 1 2 show thesis by (rule that)
qed

lemma armed_streams:
  assumes "engine_ok env hist m n pos g" "length hist < n"
  shows "streams g"
  using assms engine_state_over by (elim engine_okE) fastforce

text \<open>
  The worker between arms and stops, seen from outside: while a take is open it streams, or is queued behind one that
  drains; otherwise nothing streams and nothing is queued.
\<close>

definition valid_rate :: "nat \<Rightarrow> bool" where
  "valid_rate rate \<longleftrightarrow> 0 < rate \<and> rate < 2 ^ 20"

definition valid_arm :: "arm_msg \<Rightarrow> bool" where
  "valid_arm a \<longleftrightarrow> length (fk_takeId (am_key a)) = 16 \<and> length (fk_streamId (am_key a)) = 16 \<and> am_bits a \<in> {16, 24}"

definition take_phase :: "bool \<Rightarrow> encoder_worker \<Rightarrow> bool" where
  "take_phase opened w \<longleftrightarrow> valid_rate (ew_rate w) \<and>
     (case ew_pendingArm w of
        None \<Rightarrow> working w = opened
      | Some a \<Rightarrow> opened \<and> valid_arm a \<and> ew_engine w \<noteq> None \<and> \<not> working w)"

lemma working_engine: "working w \<longleftrightarrow> (\<exists>g. ew_engine w = Some g \<and> streams g)"
  by (auto simp: working_def engine_state_def)

lemma new_recorder_works:
  "valid_arm a \<Longrightarrow> valid_rate rate \<Longrightarrow> \<exists>g. new_recorder a rate now = Some g"
  by (auto simp: valid_arm_def valid_rate_def new_recorder_def new_encoder_def validate_config_def sender_arm_def new_sender_def)

lemma do_arm_works:
  assumes w: "worker_ok env cap hist m n w" and v: "valid_arm a" "valid_rate (ew_rate w)" and arm: "do_arm a now w = (ok, out, w')"
  shows "ok \<and> working w' \<and> ew_pendingArm w' = ew_pendingArm w \<and> ew_rate w' = ew_rate w"
proof -
  from w obtain r where r: "ew_ring w = Some r" by (auto simp: worker_ok_def)
  obtain g where g: "new_recorder a (ew_rate w) now = Some g" using new_recorder_works [OF v] by blast
  have w': "worker_ok env cap hist (length hist) (Suc (length hist)) w'" using do_arm_ok [OF w arm] by blast
  obtain g' where g': "ew_engine w' = Some g'" and eq: "ok" "ew_pendingArm w' = ew_pendingArm w" "ew_rate w' = ew_rate w"
    using arm r g by (auto simp: do_arm_def Let_def)
  obtain pos where "engine_ok env hist (length hist) (Suc (length hist)) pos g'" using w' g' by (auto simp: worker_ok_def)
  then show ?thesis using armed_streams g' eq by (auto simp: working_engine)
qed

lemma same_engine_working:
  assumes w: "worker_ok env cap hist m n w"
    and e: "\<And>g'. ew_engine w' = Some g' \<Longrightarrow> \<exists>g. ew_engine w = Some g \<and> keeps g g'" "ew_engine w' = None \<Longrightarrow> ew_engine w = None"
  shows "working w' = working w"
proof (cases "ew_engine w'")
  case None
  then show ?thesis using e(2) by (simp add: working_engine)
next
  case (Some g')
  then obtain g where g: "ew_engine w = Some g" "keeps g g'" using e(1) by blast
  from w g(1) obtain pos where "engine_ok env hist m n pos g" unfolding worker_ok_def by blast
  then have "streams g' = streams g" using g(2) by (rule keeps_streams)
  then show ?thesis using g(1) Some by (simp add: working_engine)
qed

text \<open>What leaves the engine's recording alone leaves the phase alone.\<close>

lemma take_phase_same:
  assumes w: "worker_ok env cap hist m n w" and p: "take_phase opened w"
    and e: "\<And>g'. ew_engine w' = Some g' \<Longrightarrow> \<exists>g. ew_engine w = Some g \<and> keeps g g'" "ew_engine w' = None \<Longrightarrow> ew_engine w = None"
    and s: "ew_pendingArm w' = ew_pendingArm w" "ew_rate w' = ew_rate w"
  shows "take_phase opened w'"
proof -
  have "working w' = working w" by (rule same_engine_working [OF w e])
  moreover have "(ew_engine w' = None) = (ew_engine w = None)" using e by (metis option.exhaust option.distinct(1))
  ultimately show ?thesis using p s by (cases "ew_pendingArm w") (simp_all add: take_phase_def)
qed

lemma drain_take_same:
  "ew_pendingArm (drain_take env now w) = ew_pendingArm w" "ew_rate (drain_take env now w) = ew_rate w"
  "ew_engine (drain_take env now w) = None \<Longrightarrow> ew_engine w = None"
  "ew_engine (drain_take env now w) = Some g' \<Longrightarrow> \<exists>g. ew_engine w = Some g \<and> keeps g g'"
  using keeps_drain_local by (auto simp: drain_take_def Let_def split: option.splits prod.splits)

lemma pump_ring_phase:
  assumes w: "worker_ok env cap hist m n w" and f: "sound_flacenc (ee_flac env)" and ph: "take_phase opened w"
    and p: "pump_ring env now w = (out, w')"
  shows "take_phase opened w'"
proof -
  from pump_ring_parts [OF w f p] obtain w2 where w2: "worker_ok env cap hist m n w2" "w' = drain_take env now w2"
    "ew_pendingArm w2 = ew_pendingArm w" "ew_rate w2 = ew_rate w" "engine_state w2 = engine_state w" by blast
  have "ew_engine w2 = None \<longleftrightarrow> ew_engine w = None"
    using arg_cong [OF w2(5), of "\<lambda>x. x = None"] by (simp add: engine_state_def)
  then have "take_phase opened w2" using ph w2(3-5) by (cases "ew_pendingArm w") (simp_all add: take_phase_def working_def)
  then show ?thesis unfolding w2(2) by (rule take_phase_same [OF w2(1)]) (fact drain_take_same)+
qed

lemma pump_phase:
  assumes w: "worker_ok env cap hist m n w" and f: "sound_flacenc (ee_flac env)" and ph: "take_phase opened w"
    and p: "pump env now w = (out, w')"
  shows "take_phase opened w'"
proof (cases "ew_pendingArm w \<noteq> None \<and> engine_state w = Some TakeClosed")
  case False
  then have q: "arm_queued now w = (True, [], w)" by (auto simp: arm_queued_def split: option.split)
  then show ?thesis using pump_ring_phase [OF w f ph] p by (auto simp: pump_def split: prod.splits)
next
  case True
  then obtain a where a: "ew_pendingArm w = Some a" by blast
  have w0: "worker_ok env cap hist m n (w\<lparr>ew_pendingArm := None\<rparr>)" by (rule worker_ok_engine [OF w]) auto
  obtain ok out1 w1 where arm: "do_arm a now (w\<lparr>ew_pendingArm := None\<rparr>) = (ok, out1, w1)" by (cases "do_arm a now (w\<lparr>ew_pendingArm := None\<rparr>)")
  have v: "valid_arm a" "valid_rate (ew_rate (w\<lparr>ew_pendingArm := None\<rparr>))" "opened" using ph a by (simp_all add: take_phase_def)
  have w1: "ok" "working w1" "ew_pendingArm w1 = None" "ew_rate w1 = ew_rate w"
    using do_arm_works [OF w0 v(1,2) arm] by simp_all
  then have ph1: "take_phase opened w1" using v by (simp add: take_phase_def)
  have w1ok: "worker_ok env cap hist (length hist) n w1" using do_arm_ok [OF w0 arm] by blast
  have "arm_queued now w = (ok, out1, w1)" using True a arm by (simp add: arm_queued_def)
  then show ?thesis using pump_ring_phase [OF w1ok f ph1] p w1(1) by (auto simp: pump_def split: prod.splits)
qed

lemma on_arm_phase:
  assumes w: "worker_ok env cap hist m n w" and ph: "take_phase False w" and v: "valid_arm a" and arm: "on_arm a now w = (out, w')"
  shows "take_phase True w'"
proof -
  from w have ring: "ew_ring w \<noteq> None" by (auto simp: worker_ok_def)
  have p: "ew_pendingArm w = None" "\<not> working w" "valid_rate (ew_rate w)"
    using ph by (auto simp: take_phase_def split: option.splits)
  show ?thesis
  proof (cases "ew_engine w \<noteq> None \<and> engine_state w \<noteq> Some TakeClosed")
    case True
    then have "w' = w\<lparr>ew_pendingArm := Some a\<rparr>" using arm ring by (simp add: on_arm_def)
    then show ?thesis using True p v by (simp add: take_phase_def working_engine)
  next
    case False
    obtain ok out1 w1 where d: "do_arm a now w = (ok, out1, w1)" by (cases "do_arm a now w")
    from do_arm_works [OF w v p(3) d] have w1: "ok" "working w1" "ew_pendingArm w1 = None" "ew_rate w1 = ew_rate w" by (simp_all add: p(1))
    then have "w' = w1" using arm ring False d by (auto simp: on_arm_def)
    then show ?thesis using w1 p(3) by (simp add: take_phase_def)
  qed
qed

lemma finish_stops: "recorder_finish flac g = (True, g') \<Longrightarrow> \<not> streams g'"
  by (auto simp: recorder_finish_def sender_finish_def try_close_def Let_def split: prod.splits sum.splits if_splits bool.splits)

lemma on_stop_phase:
  assumes w: "worker_ok env cap hist m n w" and f: "sound_flacenc (ee_flac env)" and ph: "take_phase opened w"
    and stop: "on_stop env now w = (out, w')"
  shows "take_phase False w' \<and> (opened \<longrightarrow> (\<exists>k. Stopped k \<in> set out))"
proof (cases "ew_pendingArm w")
  case (Some a)
  then show ?thesis using ph stop by (auto simp: on_stop_def take_phase_def working_engine)
next
  case None
  show ?thesis
  proof (cases "ew_engine w")
    case no: None
    then show ?thesis using ph stop None by (auto simp: on_stop_def take_phase_def working_engine)
  next
    case eng: (Some g0)
    obtain out1 w1 where p: "pump_ring env now w = (out1, w1)" by fastforce
    have pump: "pump env now w = (out1, w1)" using None p by (simp add: pump_def arm_queued_def)
    note w1 = pump_ring_ok [OF w f p, THEN conjunct1] and ph1 = pump_ring_phase [OF w f ph p]
    from pump_ring_parts [OF w f p] obtain w2 where w2: "w1 = drain_take env now w2"
      "ew_pendingArm w2 = ew_pendingArm w" "engine_state w2 = engine_state w" by blast
    have "ew_engine w2 \<noteq> None" using w2(3) eng by (auto simp: engine_state_def)
    then obtain g where g: "ew_engine w1 = Some g" using drain_take_same(3) [of env now w2] w2(1) by (cases "ew_engine w1") auto
    have pend: "ew_pendingArm w1 = None" using w2 drain_take_same(1) None by simp
    have rate: "valid_rate (ew_rate w1)" and opened: "streams g \<longleftrightarrow> opened"
      using ph1 pend g by (auto simp: take_phase_def working_engine)
    from w1 g obtain pos r where ok: "engine_ok env hist m n pos g" and r: "ew_ring w1 = Some r" "ring_capacity r = cap" "ring_holds r hist pos"
      unfolding worker_ok_def by blast
    show ?thesis
    proof (cases opened)
      case False
      then have "w' = w1\<lparr>ew_engine := Some g\<rparr>"
        using stop recorder_finish_again [OF ok] opened None eng g by (simp add: on_stop_def pump)
      then show ?thesis using False opened rate pend by (simp add: take_phase_def working_engine)
    next
      case True
      then have st: "streams g" using opened by simp
      from engine_ok_finish [OF f ok st ring_holds_pos [OF r(3), THEN conjunct1]] obtain g1 where
        g1: "recorder_finish (ee_flac env) g = (True, g1)" "engine_ok env hist m pos pos g1" by blast
      define v where "v = w1\<lparr>ew_engine := Some g1\<rparr>"
      have v: "worker_ok env cap hist m pos v" by (rule worker_okI [of _ r]) (use r g1(2) in \<open>auto simp: v_def\<close>)
      have phv: "take_phase False v" using rate pend finish_stops [OF g1(1)] by (simp add: take_phase_def v_def working_engine)
      define w3 where "w3 = drain_take env now v"
      have w3: "worker_ok env cap hist m pos w3" using drain_take_ok [OF v] by (simp add: w3_def)
      have ph3: "take_phase False w3" unfolding w3_def by (rule take_phase_same [OF v phv]) (fact drain_take_same)+
      obtain g3 where g3: "ew_engine w3 = Some g3"
        using drain_take_same(3) [of env now v] by (cases "ew_engine w3") (auto simp: w3_def v_def)
      obtain g4 lt where fin: "finalize_local now (ss_finalSeq (rn_sender g1)) g3 (ew_local w3) = (g4, lt)" by fastforce
      have res: "on_stop env now w = (out1 @ announce_pending (w3\<lparr>ew_engine := Some g4, ew_local := lt\<rparr>)
          @ [Stopped (ss_finalSeq (rn_sender g1))], w3\<lparr>ew_engine := Some g4, ew_local := lt\<rparr>)"
        using None eng g g1(1) g3 fin by (simp add: on_stop_def pump Let_def flip: v_def w3_def)
      have "take_phase False (w3\<lparr>ew_engine := Some g4, ew_local := lt\<rparr>)"
        by (rule take_phase_same [OF w3 ph3]) (use g3 keeps_finalize_local [OF fin] in auto)
      then show ?thesis using stop res by auto
    qed
  qed
qed

lemma other_phase:
  assumes w: "worker_ok env cap hist m n w" and ph: "take_phase opened w"
    and msg: "\<And>r rate. msg \<noteq> EncConfigure r rate" "\<And>a. msg \<noteq> EncArm a" "msg \<noteq> EncStop"
  shows "take_phase opened (snd (encoder_handle env now msg w))"
proof (cases msg)
  case (SinkAdd i)
  show ?thesis by (rule take_phase_same [OF w ph]) (auto simp: SinkAdd on_engine_def keeps_calls(1))
next
  case (SinkConnected i up)
  show ?thesis by (rule take_phase_same [OF w ph]) (auto simp: SinkConnected Let_def on_engine_def keeps_calls(3))
next
  case (SinkRemove i)
  show ?thesis by (rule take_phase_same [OF w ph]) (auto simp: SinkRemove on_engine_def keeps_calls(2))
next
  case (EncFrame i b)
  show ?thesis
    by (rule take_phase_same [OF w ph])
       (auto simp: EncFrame Let_def split: option.splits prod.splits bool.splits dest: keeps_calls(4))
next
  case (EncDrain i mx)
  show ?thesis
    by (rule take_phase_same [OF w ph])
       (auto simp: EncDrain Let_def keeps_def split: option.splits prod.splits dest: quietly_drain_frames)
next
  case (EncTimePing i)
  show ?thesis
    by (rule take_phase_same [OF w ph])
       (auto simp: EncTimePing Let_def split: option.splits prod.splits dest: keeps_calls(5))
next
  case EncExport
  then show ?thesis using ph by simp
qed (use msg in auto)

subsection \<open>Stages\<close>

definition waking :: "start_stage \<Rightarrow> bool" where
  "waking st \<longleftrightarrow> st = AwaitWakeLock"

text \<open>The callers' part: no start while one is under way or a teardown waits, no teardown while a start is under way.\<close>

fun calm :: "capture_page \<Rightarrow> page_event \<Rightarrow> bool" where
  "calm p (StartCall _) \<longleftrightarrow> pg_closing p = 0 \<and> list_all waking (pg_starts p)"
| "calm p TeardownCall \<longleftrightarrow> list_all waking (pg_starts p)"
| "calm p _ \<longleftrightarrow> True"

lemma perform_simps [simp]:
  "perform ([], c) p = p\<lparr>pg_ctl := c\<rparr>" "perform (x # xs, c) p = run page_out (page_out (p\<lparr>pg_ctl := c\<rparr>) x) xs"
  by (simp_all add: perform_def)

lemma perform_post:
  "perform (post_enc c m, c') p = p\<lparr>pg_ctl := c', pg_inbox := pg_inbox p @ (if cc_worker c then [m] else [])\<rparr>"
  by (simp add: post_enc_def)

lemma list_all_update: "list_all P xs \<Longrightarrow> P y \<Longrightarrow> list_all P (xs[k := y])"
  by (auto simp: list_all_iff dest: set_update_subset_insert [THEN subsetD])

lemma list_all_dropped: "list_all P xs \<Longrightarrow> list_all P (take k xs @ drop (Suc k) xs)"
  by (auto simp: list_all_iff dest: in_set_takeD in_set_dropD)

lemma filter_update_le:
  "k < length xs \<Longrightarrow> (P y \<Longrightarrow> P (xs ! k)) \<Longrightarrow> length (filter P (xs[k := y])) \<le> length (filter P xs)"
proof (induction xs arbitrary: k)
  case (Cons x xs)
  then show ?case by (cases k) auto
qed simp

lemma filter_dropped_le: "length (filter P (take k xs @ drop (Suc k) xs)) \<le> length (filter P xs)"
proof (cases "k < length xs")
  case True
  then have "filter P xs = filter P (take k xs) @ filter P (xs ! k # drop (Suc k) xs)"
    using id_take_nth_drop [of k xs] by (metis filter_append)
  then show ?thesis by simp
qed simp

lemma filter_update_lost:
  "k < length xs \<Longrightarrow> P (xs ! k) \<Longrightarrow> \<not> P y \<Longrightarrow> Suc (length (filter P (xs[k := y]))) = length (filter P xs)"
proof (induction xs arbitrary: k)
  case (Cons x xs)
  then show ?case by (cases k) auto
qed simp

lemma filter_dropped_lost:
  "k < length xs \<Longrightarrow> P (xs ! k) \<Longrightarrow> Suc (length (filter P (take k xs @ drop (Suc k) xs))) = length (filter P xs)"
proof -
  assume k: "k < length xs" "P (xs ! k)"
  then have "filter P xs = filter P (take k xs) @ filter P (xs ! k # drop (Suc k) xs)"
    using id_take_nth_drop [of k xs] by (metis filter_append)
  with k show ?thesis by simp
qed

lemma stage_atD: "stage_at k p = Some st \<Longrightarrow> k < length (pg_starts p) \<and> pg_starts p ! k = st"
  by (simp add: stage_at_def split: if_splits)

text \<open>A browser and a microphone for the examples.\<close>

definition plain_env :: capture_env where
  "plain_env = \<lparr>ca_sends = (\<lambda>_ _. True), ca_utf8 = map of_char, ca_device = None\<rparr>"

definition plain_flags :: "string \<Rightarrow> capture_flags" where
  "plain_flags dev = \<lparr>cf_echoCancellation = None, cf_noiseSuppression = None, cf_autoGainControl = None, cf_sampleRate = None,
     cf_channelCount = Some 1, cf_deviceLabel = dev, cf_deviceId = None\<rparr>"

end
