(* ===== verification/Take_Latch.thy ===== *)
theory Take_Latch
  imports Capture_Page
begin

text \<open>
  When the page believes a take is open. The latch \<open>takeOpen\<close> is set before anything is posted and cleared by the worker's
  report; an invariant over the two queues between them relates it to the worker. A take that streams is covered by the
  latch or its stop is on the way, and a stopped take's latch opens once the queues have run dry.
\<close>

subsection \<open>The queue between the page and its worker\<close>

text \<open>Whether a take is open once the worker has handled its messages; none if they arm an open take or configure it again.\<close>

fun follow :: "bool \<Rightarrow> to_encoder list \<Rightarrow> bool option" where
  "follow opened [] = Some opened"
| "follow opened (EncArm a # ms) = (if opened \<or> \<not> valid_arm a then None else follow True ms)"
| "follow opened (EncStop # ms) = follow False ms"
| "follow opened (EncConfigure _ _ # ms) = None"
| "follow opened (_ # ms) = follow opened ms"

text \<open>Whether one of the stops meets an open take, and so is answered.\<close>

fun will_answer :: "bool \<Rightarrow> to_encoder list \<Rightarrow> bool" where
  "will_answer opened [] = False"
| "will_answer opened (EncArm a # ms) = will_answer True ms"
| "will_answer opened (EncStop # ms) = (opened \<or> will_answer False ms)"
| "will_answer opened (_ # ms) = will_answer opened ms"

fun neutral :: "to_encoder \<Rightarrow> bool" where
  "neutral (EncArm _) = False"
| "neutral EncStop = False"
| "neutral (EncConfigure _ _) = False"
| "neutral _ = True"

lemma follow_append: "follow o1 (ms @ ns) = Option.bind (follow o1 ms) (\<lambda>o2. follow o2 ns)"
  by (induction o1 ms rule: follow.induct) simp_all

lemma neutral_follow: "neutral m \<Longrightarrow> follow opened (m # ms) = follow opened ms \<and> will_answer opened (m # ms) = will_answer opened ms"
  by (cases m) simp_all

lemma neutral_follows: "list_all neutral ns \<Longrightarrow> follow opened ns = Some opened \<and> \<not> will_answer opened ns"
proof (induction ns)
  case (Cons m ms)
  then show ?case using neutral_follow [of m] by simp
qed simp

lemma will_answer_append:
  "follow o1 ms = Some o2 \<Longrightarrow> will_answer o1 (ms @ ns) \<longleftrightarrow> will_answer o1 ms \<or> will_answer o2 ns"
  by (induction o1 ms rule: follow.induct) (auto split: if_splits)

lemma follow_closed:
  "follow opened ms = Some False \<Longrightarrow> EncStop \<notin> set ms \<Longrightarrow> \<not> opened \<and> (\<forall>a. EncArm a \<notin> set ms)"
proof (induction opened ms rule: follow.induct)
  case (2 opened a ms)
  then show ?case by (auto split: if_splits)
qed auto

subsection \<open>The latch\<close>

definition stage_rate :: "start_stage \<Rightarrow> bool" where
  "stage_rate st \<longleftrightarrow> (case st of AwaitResume _ _ x \<Rightarrow> valid_rate (ax_rate x) | AwaitModule _ _ x \<Rightarrow> valid_rate (ax_rate x) | _ \<Rightarrow> True)"

definition holding :: "start_stage \<Rightarrow> bool" where
  "holding st \<longleftrightarrow> (case st of AwaitResume _ _ _ \<Rightarrow> True | AwaitModule _ _ _ \<Rightarrow> True | _ \<Rightarrow> False)"

definition booting :: "capture_world \<Rightarrow> to_encoder list \<Rightarrow> bool" where
  "booting w inbox \<longleftrightarrow> w = new_worker \<and>
     (\<exists>rate ms. inbox = EncConfigure (create_capture_ring 0 (rate * ring_seconds)) rate # ms \<and> valid_rate rate \<and> follow False ms = Some False)"

abbreviation take_open :: "capture_page \<Rightarrow> bool" where
  "take_open p \<equiv> sn_takeOpen (cc_snapshot (pg_ctl p))"

definition waits_stopped :: "bool \<Rightarrow> capture_page \<Rightarrow> bool" where
  "waits_stopped opened p \<longleftrightarrow> cc_stopFor (pg_ctl p) = Some (cc_armGeneration (pg_ctl p))
     \<and> (will_answer opened (pg_inbox p) \<or> (\<exists>k. Stopped k \<in> set (pg_outbox p)))"

definition worker_side :: "enc_env \<Rightarrow> capture_page \<Rightarrow> bool" where
  "worker_side env p \<longleftrightarrow>
     (case pg_work p of
        None \<Rightarrow> \<not> cc_worker (pg_ctl p) \<and> \<not> cc_ready (pg_ctl p) \<and> pg_inbox p = [] \<and> pg_outbox p = []
          \<and> (pg_closing p = 0 \<and> take_open p \<longrightarrow> pg_armed p)
      | Some w \<Rightarrow> cc_worker (pg_ctl p) \<and> cc_context (pg_ctl p) \<noteq> None \<and> list_all waking (pg_starts p) \<and> pg_closing p = 0 \<and>
          (if ew_ring (cw_worker w) = None
           then booting w (pg_inbox p) \<and> \<not> cc_ready (pg_ctl p) \<and> pg_outbox p = [] \<and> (take_open p \<longrightarrow> pg_armed p)
           else \<exists>cap opened. capture_ok env cap w \<and> take_phase opened (cw_worker w)
             \<and> follow opened (pg_inbox p) = Some (pg_armed p \<and> cc_pendingArm (pg_ctl p) = None)
             \<and> (take_open p \<and> \<not> pg_armed p \<longrightarrow> waits_stopped opened p)))"

definition valid_options :: "arm_options \<Rightarrow> bool" where
  "valid_options a \<longleftrightarrow> length (ao_takeId a) = 16 \<and> length (ao_streamId a) = 16"

definition page_side :: "capture_page \<Rightarrow> bool" where
  "page_side p \<longleftrightarrow>
     (\<forall>a. cc_pendingArm (pg_ctl p) = Some a \<longrightarrow> pg_armed p \<and> valid_options a) \<and> (pg_armed p \<longrightarrow> take_open p)
     \<and> (\<forall>g. cc_stopFor (pg_ctl p) = Some g \<longrightarrow> g \<le> cc_armGeneration (pg_ctl p) \<and> (g = cc_armGeneration (pg_ctl p) \<longrightarrow> \<not> pg_armed p))
     \<and> (pg_armed p \<and> cc_pendingArm (pg_ctl p) = None \<longrightarrow> cc_ready (pg_ctl p))
     \<and> (0 < pg_closing p \<longrightarrow> \<not> pg_armed p \<and> list_all waking (pg_starts p))
     \<and> (list_ex holding (pg_starts p) \<longrightarrow> cc_context (pg_ctl p) \<noteq> None)
     \<and> list_all stage_rate (pg_starts p) \<and> length (filter (Not \<circ> waking) (pg_starts p)) \<le> 1"

definition latch_inv :: "enc_env \<Rightarrow> capture_page \<Rightarrow> bool" where
  "latch_inv env p \<longleftrightarrow> sound_flacenc (ee_flac env) \<and> worker_side env p \<and> page_side p"

lemma running_worker:
  assumes "latch_inv env p" "pg_work p = Some w" "ew_ring (cw_worker w) \<noteq> None"
  obtains cap opened where "capture_ok env cap w" "take_phase opened (cw_worker w)"
    "follow opened (pg_inbox p) = Some (pg_armed p \<and> cc_pendingArm (pg_ctl p) = None)"
    "take_open p \<and> \<not> pg_armed p \<longrightarrow> waits_stopped opened p"
proof -
  have "worker_side env p" using assms(1) by (simp add: latch_inv_def)
  then have "\<exists>cap opened. capture_ok env cap w \<and> take_phase opened (cw_worker w)
      \<and> follow opened (pg_inbox p) = Some (pg_armed p \<and> cc_pendingArm (pg_ctl p) = None)
      \<and> (take_open p \<and> \<not> pg_armed p \<longrightarrow> waits_stopped opened p)"
    unfolding worker_side_def assms(2) option.case if_not_P [OF assms(3)] by (elim conjE)
  then show thesis using that by blast
qed

text \<open>Takes are armed one at a time, with ids of 16 bytes; sample rates are below 2^20.\<close>

fun one_take :: "capture_page \<Rightarrow> page_event \<Rightarrow> bool" where
  "one_take p (ArmCall _ a) \<longleftrightarrow> \<not> pg_armed p \<and> pg_closing p = 0 \<and> valid_options a"
| "one_take p (MicGranted _ _ rate) \<longleftrightarrow> valid_rate rate"
| "one_take p _ \<longleftrightarrow> True"

text \<open>The ring's counters are good for the samples of a worker's life.\<close>

definition ring_good :: "capture_page \<Rightarrow> bool" where
  "ring_good p \<longleftrightarrow> (\<forall>w r. pg_work p = Some w \<and> ew_ring (cw_worker w) = Some r
     \<longrightarrow> good_capacity (ring_capacity r) (length (cw_captured w)))"

definition well_used :: "capture_env \<Rightarrow> enc_env \<Rightarrow> capture_page \<Rightarrow> page_event \<Rightarrow> bool" where
  "well_used ca ee p ev \<longleftrightarrow> calm p ev \<and> one_take p ev \<and> ring_good (page_step ca ee p ev)"

text \<open>Most events touch nothing the latch is about: they leave these fields alone and post what is neutral.\<close>

definition latch_view :: "capture_controller \<Rightarrow> bool \<times> bool \<times> arm_options option \<times> nat \<times> nat option \<times> bool \<times> bool" where
  "latch_view c = (cc_worker c, cc_ready c, cc_pendingArm c, cc_armGeneration c, cc_stopFor c, sn_takeOpen (cc_snapshot c),
     cc_context c = None)"

lemma latch_inv_neutral:
  assumes inv: "latch_inv env p"
    and same: "pg_work p' = pg_work p" "pg_armed p' = pg_armed p" "pg_closing p' = pg_closing p"
      "latch_view (pg_ctl p') = latch_view (pg_ctl p)"
    and starts: "list_all stage_rate (pg_starts p')" "length (filter (Not \<circ> waking) (pg_starts p')) \<le> 1"
      "list_all waking (pg_starts p) \<Longrightarrow> list_all waking (pg_starts p')"
      "list_ex holding (pg_starts p') \<Longrightarrow> list_ex holding (pg_starts p)"
    and inbox: "pg_inbox p' = pg_inbox p @ ns" "list_all neutral ns" "cc_worker (pg_ctl p) \<or> ns = []"
    and outbox: "(\<exists>k. Stopped k \<in> set (pg_outbox p)) \<Longrightarrow> (\<exists>k. Stopped k \<in> set (pg_outbox p'))"
      "pg_outbox p = [] \<Longrightarrow> pg_outbox p' = []"
  shows "latch_inv env p'"
proof -
  have view: "cc_worker (pg_ctl p') = cc_worker (pg_ctl p)" "cc_ready (pg_ctl p') = cc_ready (pg_ctl p)"
    "cc_pendingArm (pg_ctl p') = cc_pendingArm (pg_ctl p)" "cc_armGeneration (pg_ctl p') = cc_armGeneration (pg_ctl p)"
    "cc_stopFor (pg_ctl p') = cc_stopFor (pg_ctl p)" "take_open p' = take_open p" "(cc_context (pg_ctl p') = None) = (cc_context (pg_ctl p) = None)"
    using same(4) by (simp_all add: latch_view_def)
  have page: "page_side p'" using inv view same starts by (auto simp: latch_inv_def page_side_def)
  have "worker_side env p'"
  proof (cases "pg_work p")
    case None
    then show ?thesis using inv view same inbox outbox by (auto simp: latch_inv_def worker_side_def)
  next
    case (Some w)
    show ?thesis
    proof (cases "ew_ring (cw_worker w) = None")
      case True
      have "booting w (pg_inbox p) \<Longrightarrow> booting w (pg_inbox p')"
        using inbox neutral_follows [OF inbox(2)] unfolding booting_def by (fastforce simp: follow_append)
      then show ?thesis using inv view same starts outbox Some True by (auto simp: latch_inv_def worker_side_def)
    next
      case False
      have "waits_stopped opened p \<Longrightarrow> follow opened (pg_inbox p) = Some b \<Longrightarrow> waits_stopped opened p'" for opened b
        using outbox(1) view by (auto simp: waits_stopped_def inbox(1) will_answer_append)
      moreover have "follow opened (pg_inbox p') = follow opened (pg_inbox p)" for opened
        using neutral_follows [OF inbox(2)] by (cases "follow opened (pg_inbox p)") (simp_all add: inbox(1) follow_append)
      ultimately show ?thesis using inv view same starts Some False by (auto simp: latch_inv_def worker_side_def)
    qed
  qed
  with page inv show ?thesis by (simp add: latch_inv_def)
qed

subsection \<open>Events the latch does not see\<close>

definition mild :: "capture_controller \<Rightarrow> capture_out \<Rightarrow> bool" where
  "mild c x \<longleftrightarrow> (case x of SpawnWorker \<Rightarrow> False | KillWorker \<Rightarrow> False | ToWorker m \<Rightarrow> neutral m \<and> cc_worker c | _ \<Rightarrow> True)"

lemma run_mild:
  "list_all (mild c) outs \<Longrightarrow> \<exists>live ns. run page_out p outs = p\<lparr>pg_live := live, pg_inbox := pg_inbox p @ ns\<rparr>
     \<and> list_all neutral ns \<and> (cc_worker c \<or> ns = [])"
proof (induction outs arbitrary: p)
  case Nil
  then show ?case by (intro exI [of _ "pg_live p"] exI [of _ "[]"]) simp
next
  case (Cons x outs)
  from Cons.prems have x: "mild c x" and "list_all (mild c) outs" by simp_all
  from Cons.IH [OF this(2), of "page_out p x"] obtain live ns where
    r: "run page_out (page_out p x) outs = (page_out p x)\<lparr>pg_live := live, pg_inbox := pg_inbox (page_out p x) @ ns\<rparr>"
      "list_all neutral ns" "cc_worker c \<or> ns = []" by blast
  show ?case
  proof (cases x)
    case (ToWorker m)
    with x have "neutral m" "cc_worker c" by (simp_all add: mild_def)
    with r ToWorker show ?thesis by (intro exI [of _ live] exI [of _ "m # ns"]) simp
  qed (use r x in \<open>auto simp: mild_def intro!: exI [of _ live] exI [of _ ns]\<close>)
qed

lemma perform_mild:
  assumes inv: "latch_inv env p" and outs: "list_all (mild (pg_ctl p)) outs" and view: "latch_view c' = latch_view (pg_ctl p)"
  shows "latch_inv env (perform (outs, c') p)"
proof -
  from run_mild [OF outs, of "p\<lparr>pg_ctl := c'\<rparr>"] obtain live ns where
    r: "perform (outs, c') p = p\<lparr>pg_ctl := c', pg_live := live, pg_inbox := pg_inbox p @ ns\<rparr>" "list_all neutral ns"
      "cc_worker (pg_ctl p) \<or> ns = []" by (auto simp: perform_def)
  have "list_all stage_rate (pg_starts p)" "length (filter (Not \<circ> waking) (pg_starts p)) \<le> 1"
    using inv by (simp_all add: latch_inv_def page_side_def)
  then show ?thesis unfolding r(1) by (intro latch_inv_neutral [OF inv]) (use view r(2,3) in simp_all)
qed

lemma mild_posts [simp]:
  "neutral m \<Longrightarrow> list_all (mild c) (post_enc c m)"
  "list_all (mild c) (request_drain h i c)"
  "list_all (mild c) (set_sink_connected i up c)" "list_all (mild c) (deliver_frame i b c)" "list_all (mild c) (send_time_ping i c)"
  "list_all (mild c) (fst (port_deliver env i fs h c))"
  by (simp_all add: post_enc_def mild_def request_drain_def set_sink_connected_def deliver_frame_def send_time_ping_def
      port_deliver_def Let_def split: option.split prod.split)

lemma mild_meter [simp]: "list_all (mild c) (fst (meter_out env b ps h c))"
proof (induction ps arbitrary: h)
  case (Cons q ps)
  obtain i a where q: "q = (i, a)" by fastforce
  obtain outs h' where d: "port_deliver env i [b] h c = (outs, h')" by fastforce
  obtain outs' h'' where r: "meter_out env b ps h' c = (outs', h'')" by fastforce
  show ?case using Cons.IH [of h] Cons.IH [of h'] mild_posts(6) [of c env i "[b]" h] by (auto simp: q d r)
qed simp

lemma mild_throws [simp]: "mild c (Throws e)" "mild c (StopTracks i)" "mild c (ExportDone w b)"
  by (simp_all add: mild_def)

lemma latch_inv_quiet:
  assumes "latch_inv env p"
    and "pg_work p' = pg_work p" "pg_armed p' = pg_armed p" "pg_closing p' = pg_closing p"
      "latch_view (pg_ctl p') = latch_view (pg_ctl p)" "pg_starts p' = pg_starts p" "pg_inbox p' = pg_inbox p"
      "(\<exists>k. Stopped k \<in> set (pg_outbox p)) \<Longrightarrow> (\<exists>k. Stopped k \<in> set (pg_outbox p'))"
      "pg_outbox p = [] \<Longrightarrow> pg_outbox p' = []"
  shows "latch_inv env p'"
proof (rule latch_inv_neutral [OF assms(1), of p' "[]"])
  show "list_all stage_rate (pg_starts p')" "length (filter (Not \<circ> waking) (pg_starts p')) \<le> 1"
    using assms(1,6) by (simp_all add: latch_inv_def page_side_def)
qed (use assms in simp_all)

lemma switch_keeps_latch:
  assumes "latch_inv env p" "ev = SwitchCall \<or> (\<exists>k flags. ev = SwitchGranted k flags) \<or> (\<exists>k. ev = SwitchRefused k)"
  shows "latch_inv env (page_step ca ee p ev)"
  using assms(2)
proof (elim disjE exE)
  assume ev: "ev = SwitchCall"
  show ?thesis
  proof (cases "switch_call (pg_ctl p)")
    case (Inr ec)
    then obtain epoch c where ec: "switch_call (pg_ctl p) = Inr (epoch, c)" by (cases ec) simp
    then have "latch_view c = latch_view (pg_ctl p)" by (auto simp: switch_call_def latch_view_def split: if_splits)
    then show ?thesis by (intro latch_inv_quiet [OF assms(1)]) (simp_all add: ev ec)
  qed (simp add: ev assms(1))
next
  fix k flags assume ev: "ev = SwitchGranted k flags"
  show ?thesis
  proof (cases "k < length (pg_switches p)")
    case True
    define st where "st = \<lparr>me_id = pg_nextStream p, me_flags = flags\<rparr>"
    define q where "q = p\<lparr>pg_live := pg_nextStream p # pg_live p, pg_nextStream := pg_nextStream p + 1,
        pg_switches := take k (pg_switches p) @ drop (Suc k) (pg_switches p)\<rparr>"
    have q: "latch_inv env q" by (rule latch_inv_quiet [OF assms(1)]) (simp_all add: q_def)
    obtain outs c where sw: "switch_acquired (pg_switches p ! k) st (pg_ctl p) = (outs, c)" by fastforce
    have "list_all (mild (pg_ctl q)) outs" "latch_view c = latch_view (pg_ctl q)"
      using sw by (auto simp: switch_acquired_def latch_view_def publish_def q_def split: if_splits option.splits)
    then have "latch_inv env (perform (outs, c) q)" by (rule perform_mild [OF q])
    then show ?thesis using True sw by (simp add: ev grant_mic_def st_def q_def)
  qed (simp add: ev assms(1))
next
  fix k assume ev: "ev = SwitchRefused k"
  show ?thesis
  proof (cases "k < length (pg_switches p)")
    case True
    define q where "q = p\<lparr>pg_switches := take k (pg_switches p) @ drop (Suc k) (pg_switches p)\<rparr>"
    have q: "latch_inv env q" by (rule latch_inv_quiet [OF assms(1)]) (simp_all add: q_def)
    have "latch_inv env (perform (switch_failed (pg_ctl q)) q)"
      unfolding switch_failed_def by (rule perform_mild [OF q]) (simp_all add: latch_view_def publish_def)
    then show ?thesis using True by (simp add: ev q_def)
  qed (simp add: ev assms(1))
qed

lemma sinks_keep_latch:
  assumes "latch_inv env p"
    "(\<exists>m. ev = SinkCall m) \<or> (\<exists>i a. ev = AttachCall i a) \<or> (\<exists>i. ev = DetachCall i) \<or> (\<exists>w. ev = ExportCall w)
     \<or> (\<exists>a l. ev = LinkChanges a l) \<or> ev = WorkerStats"
  shows "latch_inv env (page_step ca ee p ev)"
  using assms(2)
proof (elim disjE exE)
  fix m assume "ev = SinkCall m"
  then show ?thesis using assms(1) by (cases m) (auto intro!: perform_mild)
next
  fix i a assume "ev = AttachCall i a"
  then show ?thesis using assms(1) by (auto simp: attach_sink_def latch_view_def intro!: perform_mild)
next
  fix i assume "ev = DetachCall i"
  then show ?thesis using assms(1) by (auto simp: detach_sink_def latch_view_def intro!: perform_mild)
next
  fix w assume "ev = ExportCall w"
  then show ?thesis using assms(1) by (auto simp: export_local_flac_def latch_view_def intro!: perform_mild)
next
  fix a l assume "ev = LinkChanges a l"
  then show ?thesis using assms(1) by (auto intro!: latch_inv_quiet [OF assms(1)])
next
  assume ev: "ev = WorkerStats"
  show ?thesis
  proof (cases "pg_work p")
    case (Some w)
    show ?thesis
    proof (cases "ew_ring (cw_worker w) = None")
      case False
      have "latch_inv env (p\<lparr>pg_outbox := pg_outbox p @ send_stats (ee_f32 ee) (cw_worker w)\<rparr>)"
      proof -
        have "worker_side env (p\<lparr>pg_outbox := pg_outbox p @ send_stats (ee_f32 ee) (cw_worker w)\<rparr>)"
          using assms(1) Some False by (auto simp: latch_inv_def worker_side_def waits_stopped_def)
        then show ?thesis using assms(1) by (simp add: latch_inv_def page_side_def)
      qed
      then show ?thesis by (simp add: ev Some False)
    qed (simp add: ev Some assms(1))
  qed (simp add: ev assms(1))
qed

subsection \<open>Starting and tearing down\<close>

text \<open>While a start is on its way to the worker there is none.\<close>

lemma starting_no_worker:
  assumes "latch_inv env p" "stage_at k p = Some st" "\<not> waking st"
  shows "pg_work p = None" "pg_closing p = 0"
proof -
  have "\<not> list_all waking (pg_starts p)" using stage_atD [OF assms(2)] assms(3) by (auto simp: list_all_length)
  then show "pg_work p = None" "pg_closing p = 0"
    using assms(1) by (auto simp: latch_inv_def worker_side_def page_side_def split: option.splits)
qed

text \<open>Without a worker only the page's side counts.\<close>

lemma latch_inv_workless:
  assumes inv: "latch_inv env p" and none: "pg_work p = None"
    and same: "pg_work p' = None" "pg_armed p' = pg_armed p" "pg_closing p' = pg_closing p" "pg_inbox p' = pg_inbox p" "pg_outbox p' = pg_outbox p"
      "cc_worker (pg_ctl p') = cc_worker (pg_ctl p)" "cc_ready (pg_ctl p') = cc_ready (pg_ctl p)"
      "cc_pendingArm (pg_ctl p') = cc_pendingArm (pg_ctl p)" "cc_armGeneration (pg_ctl p') = cc_armGeneration (pg_ctl p)"
      "cc_stopFor (pg_ctl p') = cc_stopFor (pg_ctl p)" "take_open p' = take_open p"
    and starts: "list_all stage_rate (pg_starts p')" "length (filter (Not \<circ> waking) (pg_starts p')) \<le> 1"
      "0 < pg_closing p \<Longrightarrow> list_all waking (pg_starts p')"
      "list_ex holding (pg_starts p') \<Longrightarrow> cc_context (pg_ctl p') \<noteq> None"
  shows "latch_inv env p'"
  using assms by (auto simp: latch_inv_def worker_side_def page_side_def)

lemma start_fails_view: "latch_view (snd (start_fails c)) = latch_view c" "list_all (mild c) (fst (start_fails c))"
  by (simp_all add: start_fails_def latch_view_def publish_def)

lemma drop_stage_keeps_latch:
  assumes inv: "latch_inv env p"
  shows "latch_inv env (restage k None p)"
proof (rule latch_inv_neutral [OF inv, of _ "[]"])
  have s: "list_all stage_rate (pg_starts p)" "length (filter (Not \<circ> waking) (pg_starts p)) \<le> 1"
    using inv by (simp_all add: latch_inv_def page_side_def)
  show "list_all stage_rate (pg_starts (restage k None p))" using s(1) by (simp add: restage_def list_all_dropped del: list_all_append)
  show "length (filter (Not \<circ> waking) (pg_starts (restage k None p))) \<le> 1"
    using filter_dropped_le [of "Not \<circ> waking" k "pg_starts p"] s(2) by (simp add: restage_def del: filter_append)
  show "list_all waking (pg_starts p) \<Longrightarrow> list_all waking (pg_starts (restage k None p))"
    by (simp add: restage_def list_all_dropped del: list_all_append)
  show "list_ex holding (pg_starts (restage k None p)) \<Longrightarrow> list_ex holding (pg_starts p)"
    by (auto simp: restage_def list_ex_iff dest: in_set_takeD in_set_dropD)
qed (simp_all add: restage_def)

lemma stage_fails_keeps_latch:
  assumes "latch_inv env p"
  shows "latch_inv env (restage k None (perform (start_fails (pg_ctl p)) p))"
  by (rule drop_stage_keeps_latch, subst prod.collapse [symmetric], rule perform_mild [OF assms start_fails_view(2,1)])

lemma start_keeps_latch:
  assumes inv: "latch_inv env p" and calm: "calm p (StartCall lock)"
  shows "latch_inv env (page_step ca ee p (StartCall lock))"
proof (cases "start_call lock (pg_ctl p)")
  case (Some st)
  then have st: "st = AwaitMic lock" "cc_context (pg_ctl p) = None" by (auto simp: start_call_def split: if_splits)
  then have none: "pg_work p = None" using inv by (auto simp: latch_inv_def worker_side_def split: option.splits)
  have "length (filter (Not \<circ> waking) (pg_starts p)) = 0" using calm by (auto simp: filter_empty_conv list_all_iff)
  moreover have "\<not> list_ex holding (pg_starts p)" using calm by (auto simp: list_all_iff list_ex_iff waking_def holding_def)
  moreover have "list_all stage_rate (pg_starts p)" using inv by (simp add: latch_inv_def page_side_def)
  ultimately have "latch_inv env (p\<lparr>pg_starts := pg_starts p @ [st]\<rparr>)"
    using calm by (intro latch_inv_workless [OF inv none]) (simp_all add: none st stage_rate_def waking_def holding_def)
  then show ?thesis by (simp add: Some)
qed (simp add: inv)

lemma granted_keeps_latch:
  assumes inv: "latch_inv env p" and one: "one_take p (MicGranted k flags rate)"
  shows "latch_inv env (page_step ca ee p (MicGranted k flags rate))"
proof (cases "\<exists>lock. stage_at k p = Some (AwaitMic lock)")
  case True
  then obtain lock where st: "stage_at k p = Some (AwaitMic lock)" by blast
  have w: "\<not> waking (AwaitMic lock)" by (simp add: waking_def)
  note none = starting_no_worker [OF inv st w]
  note k = stage_atD [OF st]
  define s where "s = \<lparr>me_id = pg_nextStream p, me_flags = flags\<rparr>"
  define stage where "stage = AwaitResume lock s \<lparr>ax_rate = rate, ax_state = ''suspended''\<rparr>"
  have s: "list_all stage_rate (pg_starts p)" "length (filter (Not \<circ> waking) (pg_starts p)) \<le> 1"
    using inv by (simp_all add: latch_inv_def page_side_def)
  have "stage_rate stage" using one by (simp add: stage_def stage_rate_def)
  then have rate': "list_all stage_rate ((pg_starts p)[k := stage])" by (rule list_all_update [OF s(1)])
  have len: "length (filter (Not \<circ> waking) ((pg_starts p)[k := stage])) \<le> 1"
    using filter_update_le [of k "pg_starts p" "Not \<circ> waking" stage] k w s(2) by auto
  have "page_step ca ee p (MicGranted k flags rate) =
      restage k (Some stage) (p\<lparr>pg_live := pg_nextStream p # pg_live p, pg_nextStream := pg_nextStream p + 1,
        pg_ctl := (pg_ctl p)\<lparr>cc_stream := Some s, cc_context := Some \<lparr>ax_rate = rate, ax_state = ''suspended''\<rparr>\<rparr>\<rparr>)"
    by (simp add: st grant_mic_def start_acquired_def Let_def s_def stage_def)
  also have "latch_inv env \<dots>"
    by (rule latch_inv_workless [OF inv none(1)]) (use none rate' len in \<open>simp_all add: restage_def\<close>)
  finally show ?thesis .
qed (auto simp: inv split: option.split start_stage.split)

lemma holding_context:
  assumes "latch_inv env p" "stage_at k p = Some st" "holding st"
  shows "cc_context (pg_ctl p) \<noteq> None"
proof -
  have "list_ex holding (pg_starts p)" using stage_atD [OF assms(2)] assms(3) by (auto simp: list_ex_iff)
  then show ?thesis using assms(1) by (simp add: latch_inv_def page_side_def)
qed

lemma resumed_keeps_latch:
  assumes inv: "latch_inv env p"
  shows "latch_inv env (page_step ca ee p (Resumed k))"
proof (cases "\<exists>lock st x. stage_at k p = Some (AwaitResume lock st x)")
  case True
  then obtain lock s x where st: "stage_at k p = Some (AwaitResume lock s x)" by blast
  have w: "\<not> waking (AwaitResume lock s x)" by (simp add: waking_def)
  note none = starting_no_worker [OF inv st w]
  note k = stage_atD [OF st]
  define stage where "stage = AwaitModule lock s (x\<lparr>ax_state := ''running''\<rparr>)"
  have ctx: "cc_context (pg_ctl p) \<noteq> None" by (rule holding_context [OF inv st]) (simp add: holding_def)
  have s: "list_all stage_rate (pg_starts p)" "length (filter (Not \<circ> waking) (pg_starts p)) \<le> 1"
    using inv by (simp_all add: latch_inv_def page_side_def)
  have "stage_rate (AwaitResume lock s x)" using s(1) k by (metis list_all_length)
  then have "stage_rate stage" by (simp add: stage_def stage_rate_def)
  then have rate': "list_all stage_rate ((pg_starts p)[k := stage])" by (rule list_all_update [OF s(1)])
  have len: "length (filter (Not \<circ> waking) ((pg_starts p)[k := stage])) \<le> 1"
    using filter_update_le [of k "pg_starts p" "Not \<circ> waking" stage] k w s(2) by auto
  have "page_step ca ee p (Resumed k) = restage k (Some stage)
      (p\<lparr>pg_ctl := (pg_ctl p)\<lparr>cc_context := map_option (\<lambda>_. x\<lparr>ax_state := ''running''\<rparr>) (cc_context (pg_ctl p))\<rparr>\<rparr>)"
    by (simp add: st start_resumed_def Let_def stage_def)
  also have "latch_inv env \<dots>"
    by (rule latch_inv_workless [OF inv none(1)]) (use none rate' len ctx in \<open>simp_all add: restage_def\<close>)
  finally show ?thesis .
qed (auto simp: inv split: option.split start_stage.split)

lemma wake_keeps_latch:
  assumes inv: "latch_inv env p"
  shows "latch_inv env (page_step ca ee p (WakeLocked k granted))"
proof -
  have "latch_inv env (p\<lparr>pg_ctl := start_locked granted (pg_ctl p)\<rparr>)"
    by (rule latch_inv_quiet [OF inv]) (simp_all add: start_locked_def latch_view_def)
  then have "latch_inv env (restage k None (p\<lparr>pg_ctl := start_locked granted (pg_ctl p)\<rparr>))" by (rule drop_stage_keeps_latch)
  with inv show ?thesis by (simp split: option.split start_stage.split)
qed

lemma stage_fail_events_keep_latch:
  assumes inv: "latch_inv env p"
  shows "latch_inv env (page_step ca ee p (MicRefused k))" "latch_inv env (page_step ca ee p (StageFails k))"
  using stage_fails_keeps_latch [OF inv, of k] inv by (simp_all split: option.split start_stage.split)

lemma loaded_keeps_latch:
  assumes inv: "latch_inv env p"
  shows "latch_inv env (page_step ca ee p (ModuleLoaded k))"
proof (cases "\<exists>lock st x. stage_at k p = Some (AwaitModule lock st x)")
  case True
  then obtain lock s x where st: "stage_at k p = Some (AwaitModule lock s x)" by blast
  have w: "\<not> waking (AwaitModule lock s x)" by (simp add: waking_def)
  note none = starting_no_worker [OF inv st w]
  note k = stage_atD [OF st]
  have ctx: "cc_context (pg_ctl p) \<noteq> None" by (rule holding_context [OF inv st]) (simp add: holding_def)
  define stage where "stage = (if lock then Some AwaitWakeLock else None)"
  define starts where "starts = (case stage of None \<Rightarrow> take k (pg_starts p) @ drop (Suc k) (pg_starts p) | Some s \<Rightarrow> (pg_starts p)[k := s])"
  have s: "list_all stage_rate (pg_starts p)" "length (filter (Not \<circ> waking) (pg_starts p)) \<le> 1"
    using inv by (simp_all add: latch_inv_def page_side_def)
  have rate: "valid_rate (ax_rate x)" using s(1) k by (metis (no_types) list_all_length stage_rate_def start_stage.simps(18))
  have "Suc (length (filter (Not \<circ> waking) starts)) = length (filter (Not \<circ> waking) (pg_starts p))"
    using filter_update_lost [of k "pg_starts p" "Not \<circ> waking" AwaitWakeLock]
      filter_dropped_lost [of k "pg_starts p" "Not \<circ> waking"] k w
    by (simp add: starts_def stage_def waking_def del: filter_append)
  then have "length (filter (Not \<circ> waking) starts) = 0" using s(2) by linarith
  then have woke: "list_all waking starts" by (auto simp: filter_empty_conv list_all_iff)
  have rates: "list_all stage_rate starts"
    using list_all_update [OF s(1), of AwaitWakeLock k] list_all_dropped [OF s(1), of k]
    by (simp add: starts_def stage_def stage_rate_def del: list_all_append)
  have unheld: "\<not> list_ex holding starts" using woke by (auto simp: list_all_iff list_ex_iff waking_def holding_def)
  define c where "c = publish (\<lambda>s'. s'\<lparr>sn_contextSampleRate := Some (ax_rate x), sn_contextState := Some (ax_state x),
      sn_flags := Some (me_flags s), sn_error := None\<rparr>) ((pg_ctl p)\<lparr>cc_source := Some (me_id s), cc_node := True, cc_worker := True\<rparr>)"
  define q where "q = p\<lparr>pg_ctl := c, pg_work := Some new_worker,
      pg_inbox := [EncConfigure (create_capture_ring 0 (ax_rate x * ring_seconds)) (ax_rate x)], pg_outbox := [], pg_starts := starts\<rparr>"
  have q: "page_step ca ee p (ModuleLoaded k) = q"
    using st by (simp add: start_loaded_def Let_def restage_def q_def c_def starts_def stage_def)
  have c: "cc_worker c" "cc_ready c = cc_ready (pg_ctl p)" "cc_context c = cc_context (pg_ctl p)" "cc_pendingArm c = cc_pendingArm (pg_ctl p)"
    "cc_armGeneration c = cc_armGeneration (pg_ctl p)" "cc_stopFor c = cc_stopFor (pg_ctl p)" "sn_takeOpen (cc_snapshot c) = take_open p"
    by (simp_all add: c_def publish_def)
  have "worker_side env q"
    using inv none ctx c rate woke by (auto simp: latch_inv_def worker_side_def q_def new_worker_def fresh_worker_def booting_def)
  moreover have "page_side q"
    using inv none c rates woke unheld s(2) by (auto simp: latch_inv_def page_side_def q_def filter_empty_conv list_all_iff)
  ultimately show ?thesis using inv unfolding q latch_inv_def by simp
qed (auto simp: inv split: option.split start_stage.split)

lemma teardown_keeps_latch:
  assumes inv: "latch_inv env p"
  shows "calm p TeardownCall \<Longrightarrow> latch_inv env (page_step ca ee p TeardownCall)" "latch_inv env (page_step ca ee p TeardownCloses)"
proof -
  assume calm: "calm p TeardownCall"
  define live where "live = (case cc_stream (pg_ctl p) of None \<Rightarrow> pg_live p | Some st \<Rightarrow> removeAll (me_id st) (pg_live p))"
  have r: "perform (teardown_call (pg_ctl p)) p =
      p\<lparr>pg_ctl := snd (teardown_call (pg_ctl p)), pg_live := live, pg_work := if cc_worker (pg_ctl p) then None else pg_work p,
        pg_inbox := if cc_worker (pg_ctl p) then [] else pg_inbox p, pg_outbox := if cc_worker (pg_ctl p) then [] else pg_outbox p\<rparr>"
    by (cases "cc_stream (pg_ctl p)"; cases "cc_worker (pg_ctl p)"; cases p) (simp_all add: teardown_call_def live_def)
  have view: "cc_pendingArm (snd (teardown_call c)) = None" "\<not> cc_worker (snd (teardown_call c))" "\<not> cc_ready (snd (teardown_call c))"
    "cc_context (snd (teardown_call c)) = cc_context c" "cc_stopFor (snd (teardown_call c)) = cc_stopFor c"
    "cc_armGeneration (snd (teardown_call c)) = cc_armGeneration c" for c by (simp_all add: teardown_call_def)
  show "latch_inv env (page_step ca ee p TeardownCall)"
  proof (cases "cc_worker (pg_ctl p)")
    case True
    then show ?thesis using inv calm view by (auto simp: latch_inv_def worker_side_def page_side_def r split: option.splits)
  next
    case False
    then have "pg_work p = None" using inv by (auto simp: latch_inv_def worker_side_def split: option.splits)
    then show ?thesis using False inv calm view by (auto simp: latch_inv_def worker_side_def page_side_def r)
  qed
next
  show "latch_inv env (page_step ca ee p TeardownCloses)"
  proof (cases "pg_closing p = 0")
    case False
    then have "pg_work p = None" using inv by (auto simp: latch_inv_def worker_side_def split: option.splits)
    moreover have "\<not> list_ex holding (pg_starts p)"
      using inv False by (auto simp: latch_inv_def page_side_def list_all_iff list_ex_iff waking_def holding_def)
    ultimately show ?thesis using False inv
      by (auto simp: latch_inv_def worker_side_def page_side_def teardown_closed_def publish_def)
  qed (simp add: inv)
qed

subsection \<open>Arming, stopping, and the worker's reports\<close>

lemma arm_keeps_latch:
  assumes inv: "latch_inv env p" and one: "one_take p (ArmCall wall a)"
  shows "latch_inv env (page_step ca ee p (ArmCall wall a))"
proof -
  from one have o: "\<not> pg_armed p" "pg_closing p = 0" "valid_options a" by simp_all
  define c where "c = publish (sn_takeOpen_update (\<lambda>_. True)) ((pg_ctl p)\<lparr>cc_armGeneration := cc_armGeneration (pg_ctl p) + 1\<rparr>)"
  have c: "cc_worker c = cc_worker (pg_ctl p)" "cc_ready c = cc_ready (pg_ctl p)" "cc_context c = cc_context (pg_ctl p)" "cc_pendingArm c = cc_pendingArm (pg_ctl p)"
    "cc_armGeneration c = cc_armGeneration (pg_ctl p) + 1" "cc_stopFor c = cc_stopFor (pg_ctl p)" "sn_takeOpen (cc_snapshot c)"
    by (simp_all add: c_def publish_def)
  have stop: "cc_stopFor (pg_ctl p) = Some g \<Longrightarrow> g \<le> cc_armGeneration (pg_ctl p)" for g
    using inv by (auto simp: latch_inv_def page_side_def)
  have pend: "cc_pendingArm (pg_ctl p) = None" using inv o(1) by (cases "cc_pendingArm (pg_ctl p)") (auto simp: latch_inv_def page_side_def)
  show ?thesis
  proof (cases "cc_ready (pg_ctl p)")
    case False
    have step: "page_step ca ee p (ArmCall wall a) = p\<lparr>pg_ctl := c\<lparr>cc_pendingArm := Some a\<rparr>, pg_armed := True\<rparr>"
      using False by (simp add: ctl_arm_def Let_def publish_def c_def)
    have "worker_side env (p\<lparr>pg_ctl := c\<lparr>cc_pendingArm := Some a\<rparr>, pg_armed := True\<rparr>)"
      using inv o c pend False by (auto simp: latch_inv_def worker_side_def split: option.splits)
    moreover have "page_side (p\<lparr>pg_ctl := c\<lparr>cc_pendingArm := Some a\<rparr>, pg_armed := True\<rparr>)"
      using inv o c stop by (fastforce simp: latch_inv_def page_side_def)
    ultimately show ?thesis using inv unfolding step latch_inv_def by simp
  next
    case True
    then obtain w where w: "pg_work p = Some w" "cc_worker (pg_ctl p)" "ew_ring (cw_worker w) \<noteq> None"
      using inv by (auto simp: latch_inv_def worker_side_def split: option.splits if_splits)
    then obtain cap opened where side: "capture_ok env cap w" "take_phase opened (cw_worker w)" "follow opened (pg_inbox p) = Some False"
      using inv o(1) by (auto simp: latch_inv_def worker_side_def)
    obtain m where m: "ctl_arm ca wall a (pg_ctl p) = (post_enc c (EncArm m), c)" "valid_arm m"
      using True o(3) by (auto simp: ctl_arm_def Let_def c_def valid_arm_def valid_options_def publish_def)
    define q where "q = p\<lparr>pg_ctl := c, pg_inbox := pg_inbox p @ [EncArm m], pg_armed := True\<rparr>"
    have step: "page_step ca ee p (ArmCall wall a) = q" using m w(2) c(1) by (simp add: perform_post q_def)
    have "follow opened (pg_inbox p @ [EncArm m]) = Some True" using side(3) m(2) by (simp add: follow_append)
    then have "worker_side env q"
      using inv w c pend side(1,2) by (auto simp: latch_inv_def worker_side_def q_def)
    moreover have "page_side q" using inv o c stop pend True by (fastforce simp: latch_inv_def page_side_def q_def)
    ultimately show ?thesis using inv unfolding step latch_inv_def by simp
  qed
qed

lemma stop_keeps_latch:
  assumes inv: "latch_inv env p"
  shows "latch_inv env (page_step ca ee p StopCall)"
proof (cases "cc_pendingArm (pg_ctl p)")
  case (Some a)
  have step: "page_step ca ee p StopCall =
      p\<lparr>pg_ctl := publish (sn_takeOpen_update (\<lambda>_. False)) ((pg_ctl p)\<lparr>cc_pendingArm := None\<rparr>), pg_armed := False\<rparr>"
    by (simp add: ctl_stop_take_def Some)
  show ?thesis unfolding step using inv Some
    by (auto simp: latch_inv_def worker_side_def page_side_def publish_def split: option.splits if_splits)
next
  case None
  define c where "c = (pg_ctl p)\<lparr>cc_stopFor := Some (cc_armGeneration (pg_ctl p))\<rparr>"
  have c: "cc_worker c = cc_worker (pg_ctl p)" "cc_ready c = cc_ready (pg_ctl p)" "cc_context c = cc_context (pg_ctl p)" "cc_pendingArm c = cc_pendingArm (pg_ctl p)"
    "cc_armGeneration c = cc_armGeneration (pg_ctl p)" "cc_stopFor c = Some (cc_armGeneration c)" "cc_snapshot c = cc_snapshot (pg_ctl p)"
    by (simp_all add: c_def)
  define q where "q = p\<lparr>pg_ctl := c, pg_inbox := pg_inbox p @ (if cc_worker (pg_ctl p) then [EncStop] else []), pg_armed := False\<rparr>"
  have step: "page_step ca ee p StopCall = q"
    by (simp add: ctl_stop_take_def None perform_post q_def c_def)
  have page: "page_side q" using inv c None by (auto simp: latch_inv_def page_side_def q_def)
  have "worker_side env q"
  proof (cases "pg_work p")
    case no: None
    then show ?thesis using inv c None by (auto simp: latch_inv_def worker_side_def page_side_def q_def)
  next
    case (Some w)
    then have w: "cc_worker (pg_ctl p)" using inv by (auto simp: latch_inv_def worker_side_def)
    show ?thesis
    proof (cases "ew_ring (cw_worker w) = None")
      case True
      then have b: "booting w (pg_inbox p)" "\<not> cc_ready (pg_ctl p)" using inv Some by (auto simp: latch_inv_def worker_side_def)
      then have "booting w (pg_inbox p @ [EncStop])" unfolding booting_def by (fastforce simp: follow_append)
      moreover have "\<not> pg_armed p" using inv b(2) None by (auto simp: latch_inv_def page_side_def)
      ultimately show ?thesis using inv Some True c w by (auto simp: latch_inv_def worker_side_def q_def)
    next
      case False
      with inv Some obtain cap opened where side: "capture_ok env cap w" "take_phase opened (cw_worker w)"
        "follow opened (pg_inbox p) = Some (pg_armed p \<and> cc_pendingArm (pg_ctl p) = None)"
        "take_open p \<and> \<not> pg_armed p \<longrightarrow> waits_stopped opened p" by (elim running_worker)
      then have pos: "follow opened (pg_inbox p) = Some (pg_armed p)" using None by simp
      have "follow opened (pg_inbox q) = Some False" using pos w by (simp add: q_def follow_append)
      moreover have "take_open q \<longrightarrow> waits_stopped opened q"
        using pos side(4) w c by (cases "pg_armed p") (auto simp: waits_stopped_def q_def will_answer_append)
      ultimately show ?thesis using inv Some False c w side(1,2) by (auto simp: latch_inv_def worker_side_def q_def)
    qed
  qed
  with page inv show ?thesis unfolding step latch_inv_def by simp
qed

lemma reports_keep_latch:
  assumes inv: "latch_inv env p"
  shows "latch_inv env (page_step ca ee p (WorkerReports wall))"
proof (cases "pg_outbox p")
  case (Cons m ms)
  then have w0: "\<exists>w. pg_work p = Some w \<and> ew_ring (cw_worker w) \<noteq> None"
    using inv by (auto simp: latch_inv_def worker_side_def split: option.splits if_splits)
  then obtain w where w: "pg_work p = Some w" "ew_ring (cw_worker w) \<noteq> None" by blast
  with inv obtain cap opened where side: "capture_ok env cap w" "take_phase opened (cw_worker w)"
    "follow opened (pg_inbox p) = Some (pg_armed p \<and> cc_pendingArm (pg_ctl p) = None)"
    "take_open p \<and> \<not> pg_armed p \<longrightarrow> waits_stopped opened p" by (elim running_worker)
  have up: "cc_worker (pg_ctl p)" "cc_context (pg_ctl p) \<noteq> None" "list_all waking (pg_starts p)" "pg_closing p = 0"
    using inv w by (simp_all add: latch_inv_def worker_side_def)
  show ?thesis
  proof (cases "m = EncReady \<or> (\<exists>k. m = Stopped k)")
    case False
    have mild: "\<exists>outs h c. on_worker ca wall m (pg_links p) (pg_ctl p) = (outs, h, c) \<and> list_all (mild (pg_ctl p)) outs
        \<and> latch_view c = latch_view (pg_ctl p)"
    proof (cases m)
      case (EncFrames i fs)
      obtain outs h where d: "port_deliver ca i fs (pg_links p) (pg_ctl p) = (outs, h)" by fastforce
      have "list_all (mild (pg_ctl p)) outs" using mild_posts(6) [of "pg_ctl p" ca i fs "pg_links p"] unfolding d by simp
      then show ?thesis by (simp add: EncFrames d)
    next
      case (EncReply i b)
      obtain outs h where d: "port_deliver ca i [b] (pg_links p) (pg_ctl p) = (outs, h)" by fastforce
      have "list_all (mild (pg_ctl p)) outs" using mild_posts(6) [of "pg_ctl p" ca i "[b]" "pg_links p"] unfolding d by simp
      then show ?thesis by (simp add: EncReply d)
    next
      case (Pending ids)
      then show ?thesis by (simp add: list_all_iff) (metis (no_types) Ball_set mild_posts(2))
    next
      case (Meter b)
      obtain outs h where d: "meter_out ca b (cc_sinks (pg_ctl p)) (pg_links p) (pg_ctl p) = (outs, h)" by fastforce
      have "list_all (mild (pg_ctl p)) outs"
        using mild_meter [of "pg_ctl p" ca b "cc_sinks (pg_ctl p)" "pg_links p"] unfolding d by simp
      then show ?thesis by (simp add: Meter d)
    qed (use False in \<open>auto simp: latch_view_def publish_def list_all_iff\<close>)
    then obtain outs h c where o: "on_worker ca wall m (pg_links p) (pg_ctl p) = (outs, h, c)" "list_all (mild (pg_ctl p)) outs"
      "latch_view c = latch_view (pg_ctl p)" by blast
    define q where "q = p\<lparr>pg_outbox := ms, pg_links := h\<rparr>"
    have q: "latch_inv env q" by (rule latch_inv_quiet [OF inv]) (use Cons False in \<open>auto simp: q_def\<close>)
    have "latch_inv env (perform (outs, c) q)" by (rule perform_mild [OF q]) (use o in \<open>simp_all add: q_def\<close>)
    then show ?thesis using Cons o(1) by (simp add: q_def)
  next
    case True
    then show ?thesis
    proof (elim disjE exE)
      fix k assume m: "m = Stopped k"
      define c where "c = publish (\<lambda>s. let s = s\<lparr>sn_finalSeq := k\<rparr>
          in if cc_stopFor (pg_ctl p) = Some (cc_armGeneration (pg_ctl p)) then s\<lparr>sn_takeOpen := False\<rparr> else s) (pg_ctl p)"
      define q where "q = p\<lparr>pg_outbox := ms, pg_ctl := c\<rparr>"
      have step: "page_step ca ee p (WorkerReports wall) = q" using Cons m by (simp add: q_def c_def)
      have c: "cc_worker c = cc_worker (pg_ctl p)" "cc_ready c = cc_ready (pg_ctl p)" "cc_context c = cc_context (pg_ctl p)"
        "cc_pendingArm c = cc_pendingArm (pg_ctl p)" "cc_armGeneration c = cc_armGeneration (pg_ctl p)" "cc_stopFor c = cc_stopFor (pg_ctl p)"
        "sn_takeOpen (cc_snapshot c) = (take_open p \<and> cc_stopFor (pg_ctl p) \<noteq> Some (cc_armGeneration (pg_ctl p)))"
        by (simp_all add: c_def publish_def Let_def)
      have sf: "cc_stopFor (pg_ctl p) = Some (cc_armGeneration (pg_ctl p)) \<Longrightarrow> \<not> pg_armed p"
        using inv by (auto simp: latch_inv_def page_side_def)
      have "take_open q \<longrightarrow> pg_armed q" using side(4) c(7) by (auto simp: q_def waits_stopped_def)
      then have "worker_side env q" using inv w side(1-3) up c by (auto simp: latch_inv_def worker_side_def q_def)
      moreover have "page_side q" using inv c sf by (auto simp: latch_inv_def page_side_def q_def)
      ultimately show ?thesis using inv unfolding step latch_inv_def by simp
    next
      assume m: "m = EncReady"
      show ?thesis
      proof (cases "cc_pendingArm (pg_ctl p)")
        case None
        have step: "page_step ca ee p (WorkerReports wall) = p\<lparr>pg_outbox := ms, pg_ctl := (pg_ctl p)\<lparr>cc_ready := True\<rparr>\<rparr>"
          using Cons m None by simp
        have "waits_stopped opened p \<Longrightarrow> waits_stopped opened (p\<lparr>pg_outbox := ms, pg_ctl := (pg_ctl p)\<lparr>cc_ready := True\<rparr>\<rparr>)"
          using Cons m by (auto simp: waits_stopped_def)
        then have "worker_side env (p\<lparr>pg_outbox := ms, pg_ctl := (pg_ctl p)\<lparr>cc_ready := True\<rparr>\<rparr>)"
          using inv w side up by (auto simp: latch_inv_def worker_side_def)
        moreover have "page_side (p\<lparr>pg_outbox := ms, pg_ctl := (pg_ctl p)\<lparr>cc_ready := True\<rparr>\<rparr>)"
          using inv by (auto simp: latch_inv_def page_side_def)
        ultimately show ?thesis using inv unfolding step latch_inv_def by simp
      next
        case (Some a)
        then have a: "valid_options a" "pg_armed p" "take_open p" using inv by (auto simp: latch_inv_def page_side_def)
        define c where "c = publish (sn_takeOpen_update (\<lambda>_. True))
            ((pg_ctl p)\<lparr>cc_ready := True, cc_pendingArm := None, cc_armGeneration := cc_armGeneration (pg_ctl p) + 1\<rparr>)"
        have c: "cc_worker c" "cc_ready c" "cc_context c = cc_context (pg_ctl p)" "cc_pendingArm c = None"
          "cc_armGeneration c = cc_armGeneration (pg_ctl p) + 1" "cc_stopFor c = cc_stopFor (pg_ctl p)" "sn_takeOpen (cc_snapshot c)"
          using up by (simp_all add: c_def publish_def)
        obtain arm where arm: "ctl_arm ca wall a ((pg_ctl p)\<lparr>cc_ready := True, cc_pendingArm := None\<rparr>) = (post_enc c (EncArm arm), c)"
          "valid_arm arm"
          using a(1) by (auto simp: ctl_arm_def Let_def c_def valid_arm_def valid_options_def publish_def)
        define q where "q = p\<lparr>pg_outbox := ms, pg_ctl := c, pg_inbox := pg_inbox p @ [EncArm arm]\<rparr>"
        have step: "page_step ca ee p (WorkerReports wall) = q" using Cons m Some arm c(1) by (simp add: perform_post q_def)
        have "follow opened (pg_inbox p @ [EncArm arm]) = Some True" using side(3) arm(2) Some by (simp add: follow_append)
        then have "worker_side env q" using w side(1,2) up c a by (auto simp: worker_side_def q_def)
        moreover have "page_side q" using inv c a by (fastforce simp: latch_inv_def page_side_def q_def)
        ultimately show ?thesis using inv unfolding step latch_inv_def by simp
      qed
    qed
  qed
qed (simp add: inv)

subsection \<open>The worker's own steps\<close>

lemma capture_ok_output:
  assumes "capture_ok env cap w" "handled env cap (cw_captured w) (cw_mark w) (cw_stop w) res"
  shows "capture_ok env cap (after_output res w) \<and> cw_worker (after_output res w) = snd res"
  using assms by (cases res) (simp add: capture_ok_def after_output_def handled_def)

lemma capture_ok_ring: "capture_ok env cap w \<Longrightarrow> ew_ring (cw_worker w) \<noteq> None"
  by (auto simp: capture_ok_def worker_ok_def)

text \<open>A running worker has made a step: what is left to show.\<close>

lemma running_step:
  assumes inv: "latch_inv env p" and w: "pg_work p = Some w" "ew_ring (cw_worker w) \<noteq> None"
    and w': "capture_ok env cap w'" "take_phase opened' (cw_worker w')"
    and queue: "follow opened' inbox' = follow opened (pg_inbox p)"
      "follow opened (pg_inbox p) = Some (pg_armed p \<and> cc_pendingArm (pg_ctl p) = None)"
      "take_open p \<and> \<not> pg_armed p \<longrightarrow> waits_stopped opened' (p\<lparr>pg_inbox := inbox', pg_outbox := pg_outbox p @ out\<rparr>)"
  shows "latch_inv env (p\<lparr>pg_work := Some w', pg_inbox := inbox', pg_outbox := pg_outbox p @ out\<rparr>)"
proof -
  have "worker_side env (p\<lparr>pg_work := Some w', pg_inbox := inbox', pg_outbox := pg_outbox p @ out\<rparr>)"
    using inv w w' queue capture_ok_ring [OF w'(1)] by (auto simp: latch_inv_def worker_side_def waits_stopped_def)
  then show ?thesis using inv by (simp add: latch_inv_def page_side_def)
qed

lemma pumps_keep_latch:
  assumes inv: "latch_inv env p"
  shows "latch_inv env (page_step ca env p (WorkerPumps now))"
proof (cases "\<exists>w. pg_work p = Some w \<and> ew_ring (cw_worker w) \<noteq> None")
  case True
  then obtain w where w: "pg_work p = Some w" "ew_ring (cw_worker w) \<noteq> None" by blast
  with inv obtain cap opened where side: "capture_ok env cap w" "take_phase opened (cw_worker w)"
    "follow opened (pg_inbox p) = Some (pg_armed p \<and> cc_pendingArm (pg_ctl p) = None)"
    "take_open p \<and> \<not> pg_armed p \<longrightarrow> waits_stopped opened p" by (elim running_worker)
  obtain out v where pump: "pump env now (cw_worker w) = (out, v)" by fastforce
  have ok: "sound_flacenc (ee_flac env)" "worker_ok env cap (cw_captured w) (cw_mark w) (cw_stop w) (cw_worker w)"
    using side(1) by (simp_all add: capture_ok_def)
  note w' = capture_ok_output [OF side(1) pump_ok [OF ok(2,1), of now], unfolded pump]
  have "take_phase opened v" by (rule pump_phase [OF ok(2,1) side(2) pump])
  then have "latch_inv env (p\<lparr>pg_work := Some (after_output (out, v) w), pg_inbox := pg_inbox p, pg_outbox := pg_outbox p @ out\<rparr>)"
    using w' side(3,4) by (intro running_step [OF inv w, of cap _ opened _ opened]) (auto simp: waits_stopped_def)
  moreover obtain r where "ew_ring (cw_worker w) = Some r" using w(2) by blast
  ultimately show ?thesis using w(1) pump by (simp add: work_step_def)
qed (auto simp: inv split: option.split)

lemma takes_keep_latch:
  assumes inv: "latch_inv env p" and good: "ring_good (page_step ca env p (WorkerTakes now))"
  shows "latch_inv env (page_step ca env p (WorkerTakes now))"
proof (cases "\<exists>w m ms. pg_work p = Some w \<and> pg_inbox p = m # ms")
  case True
  then obtain w m ms where w: "pg_work p = Some w" and inbox: "pg_inbox p = m # ms" by blast
  obtain out v where h: "encoder_handle env now m (cw_worker w) = (out, v)" by fastforce
  have step: "page_step ca env p (WorkerTakes now)
      = p\<lparr>pg_work := Some (after_output (out, v) w), pg_inbox := ms, pg_outbox := pg_outbox p @ out\<rparr>"
    using w inbox h by (simp add: work_step_def)
  show ?thesis
  proof (cases "ew_ring (cw_worker w) = None")
    case True
    then have b: "booting w (m # ms)" "\<not> cc_ready (pg_ctl p)" "pg_outbox p = []" "take_open p \<longrightarrow> pg_armed p"
      and up: "cc_worker (pg_ctl p)" "cc_context (pg_ctl p) \<noteq> None" "list_all waking (pg_starts p)" "pg_closing p = 0"
      using inv w inbox by (simp_all add: latch_inv_def worker_side_def)
    from b(1) obtain rate where m: "w = new_worker" "m = EncConfigure (create_capture_ring 0 (rate * ring_seconds)) rate"
      "valid_rate rate" "follow False ms = Some False" by (auto simp: booting_def)
    define r where "r = create_capture_ring (0 :: real) (rate * ring_seconds)"
    define w' where "w' = new_worker\<lparr>cw_worker := fresh_worker\<lparr>ew_ring := Some r, ew_rate := rate\<rparr>\<rparr>"
    have res: "out = [EncReady]" "after_output (out, v) w = w'"
      using h m by (auto simp: new_worker_def after_output_def w'_def r_def)
    have "good_capacity (ring_capacity r) 0"
      using good unfolding step res(2) by (simp add: ring_good_def w'_def new_worker_def)
    then have "ring_holds r [] 0"
      by (simp add: r_def ring_holds_def ring_ok_def Sab_Ring.ring_inv_def create_capture_ring_def ring_capacity_def good_capacity_def)
    then have ok: "capture_ok env (ring_capacity r) w'"
      using inv by (auto simp: capture_ok_def w'_def new_worker_def latch_inv_def fresh_worker_def intro!: worker_okI)
    have ph: "take_phase False (cw_worker w')" using m(3) by (simp add: w'_def take_phase_def fresh_worker_def working_engine)
    have "\<not> (pg_armed p \<and> cc_pendingArm (pg_ctl p) = None)" using inv b(2) by (auto simp: latch_inv_def page_side_def)
    then have "worker_side env (p\<lparr>pg_work := Some w', pg_inbox := ms, pg_outbox := pg_outbox p @ out\<rparr>)"
      using up ok ph m(4) b(4) capture_ok_ring [OF ok] by (auto simp: worker_side_def)
    then show ?thesis using inv unfolding step res(2) by (simp add: latch_inv_def page_side_def)
  next
    case False
    with inv w obtain cap opened where side: "capture_ok env cap w" "take_phase opened (cw_worker w)"
      "follow opened (pg_inbox p) = Some (pg_armed p \<and> cc_pendingArm (pg_ctl p) = None)"
      "take_open p \<and> \<not> pg_armed p \<longrightarrow> waits_stopped opened p" by (elim running_worker)
    have ok: "sound_flacenc (ee_flac env)" "worker_ok env cap (cw_captured w) (cw_mark w) (cw_stop w) (cw_worker w)"
      using side(1) by (simp_all add: capture_ok_def)
    have conf: "m \<noteq> EncConfigure r rate" for r rate using side(3) by (auto simp: inbox)
    note w' = capture_ok_output [OF side(1) handle_ok [OF ok(2,1) conf, of now], unfolded h]
    have "\<exists>opened'. take_phase opened' v \<and> follow opened' ms = follow opened (m # ms)
        \<and> (will_answer opened (m # ms) \<longrightarrow> will_answer opened' ms \<or> (\<exists>k. Stopped k \<in> set out))"
    proof (cases "\<exists>a. m = EncArm a")
      case True
      then obtain a where a: "m = EncArm a" by blast
      then have o: "\<not> opened" "valid_arm a" using side(3) by (auto simp: inbox split: if_splits)
      have "take_phase True v" using on_arm_phase [OF ok(2) _ o(2)] side(2) o(1) h a by auto
      then show ?thesis using o by (intro exI [of _ True]) (simp add: a)
    next
      case noarm: False
      show ?thesis
      proof (cases "m = EncStop")
        case True
        have "take_phase False v \<and> (opened \<longrightarrow> (\<exists>k. Stopped k \<in> set out))"
          using on_stop_phase [OF ok(2,1) side(2)] h True by simp
        then show ?thesis by (intro exI [of _ False]) (auto simp: True)
      next
        case False
        have "take_phase opened (snd (encoder_handle env now m (cw_worker w)))"
          by (rule other_phase [OF ok(2) side(2)]) (use conf noarm False in auto)
        moreover have "neutral m" using conf noarm False by (cases m) auto
        ultimately show ?thesis using neutral_follow by (intro exI [of _ opened]) (simp add: h)
      qed
    qed
    then obtain opened' where o': "take_phase opened' v" "follow opened' ms = follow opened (m # ms)"
      "will_answer opened (m # ms) \<longrightarrow> will_answer opened' ms \<or> (\<exists>k. Stopped k \<in> set out)" by blast
    have "take_open p \<and> \<not> pg_armed p \<longrightarrow> waits_stopped opened' (p\<lparr>pg_inbox := ms, pg_outbox := pg_outbox p @ out\<rparr>)"
      using side(4) o'(3) by (auto simp: waits_stopped_def inbox)
    then show ?thesis unfolding step
      using w' o'(1,2) side(3) by (intro running_step [OF inv w False, of cap _ opened' _ opened]) (simp_all add: inbox)
  qed
qed (auto simp: inv split: option.split list.split)

lemma capacity_kept: "ring_capacity (capture_process ch r) = ring_capacity r"
proof -
  have "length (copy_in (sr_write r) ch (sr_data r)) = length (sr_data r)" if "length ch \<le> length (sr_data r)" "ch \<noteq> []"
    using that by (intro length_copy_in) auto
  then show ?thesis by (auto simp: capture_process_def ring_full_def ring_capacity_def)
qed

lemma quantum_keeps_latch:
  assumes inv: "latch_inv env p" and good: "ring_good (page_step ca env p (AudioQuantum ch))"
  shows "latch_inv env (page_step ca env p (AudioQuantum ch))"
proof (cases "\<exists>w r. cc_node (pg_ctl p) \<and> pg_work p = Some w \<and> ew_ring (cw_worker w) = Some r")
  case True
  then obtain w r where node: "cc_node (pg_ctl p)" and w: "pg_work p = Some w" and r: "ew_ring (cw_worker w) = Some r" by blast
  have running: "ew_ring (cw_worker w) \<noteq> None" using r by simp
  with inv w obtain cap opened where side: "capture_ok env cap w" "take_phase opened (cw_worker w)"
    "follow opened (pg_inbox p) = Some (pg_armed p \<and> cc_pendingArm (pg_ctl p) = None)"
    "take_open p \<and> \<not> pg_armed p \<longrightarrow> waits_stopped opened p" by (elim running_worker)
  define w' where "w' = w\<lparr>cw_worker := (cw_worker w)\<lparr>ew_ring := Some (capture_process ch r)\<rparr>, cw_captured := cw_captured w @ accepted ch r\<rparr>"
  have step: "page_step ca env p (AudioQuantum ch) = p\<lparr>pg_work := Some w', pg_inbox := pg_inbox p, pg_outbox := pg_outbox p @ []\<rparr>"
    using node w r by (simp add: work_step_def w'_def)
  have ok: "sound_flacenc (ee_flac env)" "worker_ok env cap (cw_captured w) (cw_mark w) (cw_stop w) (cw_worker w)"
    using side(1) by (simp_all add: capture_ok_def)
  have "ring_capacity r = cap" using ok(2) r by (auto simp: worker_ok_def)
  moreover have "ring_capacity (capture_process ch r) = ring_capacity r"
    by (rule capacity_kept)
  ultimately have "good_capacity cap (length (cw_captured w @ accepted ch r))"
    using good unfolding step by (simp add: ring_good_def w'_def)
  then have ok': "capture_ok env cap w'" using worker_ok_more [OF ok(2) r] ok(1) by (simp add: capture_ok_def w'_def)
  have "take_phase opened (cw_worker w')" using side(2)
    by (cases "ew_pendingArm (cw_worker w)") (simp_all add: w'_def take_phase_def working_def engine_state_def)
  then show ?thesis unfolding step
    using ok' side(3,4) by (intro running_step [OF inv w running, of cap _ opened _ opened]) (auto simp: waits_stopped_def)
next
  case False
  show ?thesis
  proof (cases "pg_work p")
    case None
    have "latch_inv env (p\<lparr>pg_work := None, pg_outbox := pg_outbox p\<rparr>)" by (rule latch_inv_quiet [OF inv]) (use None in simp_all)
    then show ?thesis using inv None by (simp add: work_step_def)
  next
    case (Some w)
    have "latch_inv env (p\<lparr>pg_work := Some w, pg_outbox := pg_outbox p\<rparr>)" by (rule latch_inv_quiet [OF inv]) (use Some in simp_all)
    then show ?thesis using inv Some False by (auto simp: work_step_def)
  qed
qed

subsection \<open>Every run\<close>

interpretation page_machine: guarded_machine "page_step ca ee" "latch_inv ee" "well_used ca ee" for ca ee
proof
  fix p ev
  assume inv: "latch_inv ee p" and used: "well_used ca ee p ev"
  then have calm: "calm p ev" and one: "one_take p ev" and good: "ring_good (page_step ca ee p ev)" by (simp_all add: well_used_def)
  show "latch_inv ee (page_step ca ee p ev)"
  proof (cases ev)
    case (StartCall lock)
    then show ?thesis using start_keeps_latch [OF inv] calm by simp
  next
    case (MicGranted k flags rate)
    then show ?thesis using granted_keeps_latch [OF inv] one by simp
  next
    case (ArmCall wall a)
    then show ?thesis using arm_keeps_latch [OF inv] one by simp
  next
    case TeardownCall
    then show ?thesis using teardown_keeps_latch(1) [OF inv] calm by simp
  next
    case (WorkerTakes now)
    then show ?thesis using takes_keep_latch [OF inv] good by simp
  next
    case (AudioQuantum ch)
    then show ?thesis using quantum_keeps_latch [OF inv] good by simp
  qed (use inv in \<open>auto simp del: page_step.simps intro: stage_fail_events_keep_latch resumed_keeps_latch loaded_keeps_latch
      wake_keeps_latch stop_keeps_latch teardown_keeps_latch(2) pumps_keep_latch reports_keep_latch switch_keeps_latch
      sinks_keep_latch\<close>)
qed

lemma new_page_ok: "sound_flacenc (ee_flac ee) \<Longrightarrow> latch_inv ee (new_page h)"
  by (simp add: latch_inv_def worker_side_def page_side_def new_page_def new_controller_def)

lemma page_run_ok:
  "sound_flacenc (ee_flac ee) \<Longrightarrow> legal (page_step ca ee) (well_used ca ee) (new_page h) evs
   \<Longrightarrow> latch_inv ee (run (page_step ca ee) (new_page h) evs)"
  using page_machine.run_guarded new_page_ok by blast

lemma latch_shut:
  assumes inv: "latch_inv ee p" and w: "pg_work p = Some w" and shut: "\<not> take_open p" "EncStop \<notin> set (pg_inbox p)"
  shows "\<not> working (cw_worker w) \<and> ew_pendingArm (cw_worker w) = None \<and> (\<forall>a. EncArm a \<notin> set (pg_inbox p))"
proof (cases "ew_ring (cw_worker w) = None")
  case True
  then have b: "booting w (pg_inbox p)" using inv w by (simp add: latch_inv_def worker_side_def)
  then obtain rate ms where m: "pg_inbox p = EncConfigure (create_capture_ring 0 (rate * ring_seconds)) rate # ms" "follow False ms = Some False"
    "w = new_worker" by (auto simp: booting_def)
  have "EncArm a \<notin> set ms" for a using follow_closed [OF m(2)] shut(2) m(1) by simp
  then show ?thesis using m(1,3) by (simp add: new_worker_def fresh_worker_def working_engine)
next
  case False
  with inv w obtain cap opened where side: "capture_ok ee cap w" "take_phase opened (cw_worker w)"
    "follow opened (pg_inbox p) = Some (pg_armed p \<and> cc_pendingArm (pg_ctl p) = None)"
    "take_open p \<and> \<not> pg_armed p \<longrightarrow> waits_stopped opened p" by (elim running_worker)
  have "\<not> pg_armed p" using inv shut(1) by (auto simp: latch_inv_def page_side_def)
  then have "follow opened (pg_inbox p) = Some False" using side(3) by simp
  then have "\<not> opened \<and> (\<forall>a. EncArm a \<notin> set (pg_inbox p))" using shut(2) by (rule follow_closed)
  then show ?thesis using side(2) by (auto simp: take_phase_def split: option.splits)
qed

text \<open>Only the end of a device switch gives a running pipeline another source, and the latch is off then.\<close>

lemma swap_when_shut:
  assumes "cc_source (pg_ctl (page_step ca ee p (SwitchGranted k flags))) \<noteq> cc_source (pg_ctl p)"
  shows "\<not> take_open p"
proof
  assume open_take: "take_open p"
  have keep: "cc_source (pg_ctl (run page_out q outs)) = cc_source (pg_ctl q)" for q outs
  proof (induction outs arbitrary: q)
    case (Cons x outs)
    then show ?case by (cases x) simp_all
  qed simp
  have "cc_source (snd (switch_acquired e st (pg_ctl p))) = cc_source (pg_ctl p)" for e st
    using open_take by (simp add: switch_acquired_def)
  then have "cc_source (pg_ctl (perform (switch_acquired e st (pg_ctl p)) q)) = cc_source (pg_ctl p)" for e st q
    by (simp add: perform_def keep split: prod.split) (metis snd_conv)
  then show False using assms by (simp add: grant_mic_def Let_def split: if_splits)
qed

text \<open>C6. The input device is not swapped inside a take. Calls, the two queues, the worker's timers and the audio thread
  interleave. When a device switch puts another source in place while no stop is on its way to the worker, the worker
  neither streams a take nor has one queued, and none is on its way to it. Asked of the run, as \<open>well_used\<close>: takes are armed
  one at a time and not while a teardown waits, starts and teardowns do not overlap, the ring's counters are good for the
  samples of the worker's life, and the block encoder fails on no block. While a stop is on its way a swap can fall inside
  the take that it ends: the report of an earlier stop opens the latch then (\<open>stale_report_opens\<close> below).\<close>

theorem swap_outside_takes:
  fixes ca ee h evs
  defines "p \<equiv> run (page_step ca ee) (new_page h) evs"
  assumes "sound_flacenc (ee_flac ee)" "legal (page_step ca ee) (well_used ca ee) (new_page h) evs"
    and "cc_source (pg_ctl (page_step ca ee p (SwitchGranted k flags))) \<noteq> cc_source (pg_ctl p)"
    and "pg_work p = Some w" "EncStop \<notin> set (pg_inbox p)"
  shows "engine_state (cw_worker w) \<noteq> Some TakeStreaming \<and> ew_pendingArm (cw_worker w) = None \<and> (\<forall>a. EncArm a \<notin> set (pg_inbox p))"
proof -
  have "latch_inv ee p" unfolding p_def by (rule page_run_ok [OF assms(2,3)])
  from latch_shut [OF this assms(5) swap_when_shut [OF assms(4)] assms(6)] show ?thesis by (simp add: working_def)
qed

text \<open>A switch on an idle pipeline does put the new source in place.\<close>

definition sample_boot :: "page_event list" where
  "sample_boot = [StartCall False, MicGranted 0 (plain_flags ''one'') 48000, Resumed 0, ModuleLoaded 0, WorkerTakes 1, WorkerReports 2]"

definition booted_ctl :: capture_controller where
  "booted_ctl = new_controller\<lparr>cc_context := Some \<lparr>ax_rate = 48000, ax_state = ''running''\<rparr>,
     cc_stream := Some \<lparr>me_id = 0, me_flags = plain_flags ''one''\<rparr>, cc_source := Some 0, cc_worker := True, cc_ready := True,
     cc_node := True, cc_snapshot := (cc_snapshot new_controller)\<lparr>sn_contextSampleRate := Some 48000, sn_contextState := Some ''running'',
       sn_flags := Some (plain_flags ''one'')\<rparr>\<rparr>"

definition booted_page :: capture_page where
  "booted_page = (new_page [])\<lparr>pg_ctl := booted_ctl,
     pg_work := Some (new_worker\<lparr>cw_worker := fresh_worker\<lparr>ew_ring := Some (create_capture_ring 0 384000), ew_rate := 48000\<rparr>\<rparr>),
     pg_live := [0], pg_nextStream := 1\<rparr>"

lemma sample_boot_runs:
  "run (page_step plain_env ee) (new_page []) sample_boot = booted_page"
  "legal (page_step plain_env ee) (well_used plain_env ee) (new_page []) sample_boot"
proof -
  have cap: "good_capacity (ring_capacity (create_capture_ring (0 :: real) 384000)) 0"
    by (simp add: ring_capacity_def create_capture_ring_def good_capacity_def)
  note ev = sample_boot_def new_page_def new_controller_def start_call_def stage_at_def grant_mic_def start_acquired_def restage_def
    start_resumed_def start_loaded_def publish_def new_worker_def fresh_worker_def work_step_def after_output_def ring_seconds_def
  show "run (page_step plain_env ee) (new_page []) sample_boot = booted_page"
    by (simp add: ev booted_page_def booted_ctl_def Let_def)
  show "legal (page_step plain_env ee) (well_used plain_env ee) (new_page []) sample_boot"
    by (simp add: ev Let_def well_used_def ring_good_def cap valid_rate_def)
qed

lemma sample_sound: "sound_flacenc (ee_flac sample_env)"
  by (simp add: sound_flacenc_def sample_env_def max_chunk_payload_bytes_def max_frame_bytes_def)

theorem swap_outside_takes_witness:
  "\<exists>p w. pg_work p = Some w \<and> cc_source (pg_ctl (page_step plain_env sample_env p (SwitchGranted 0 (plain_flags ''two'')))) = Some 1
     \<and> engine_state (cw_worker w) \<noteq> Some TakeStreaming \<and> ew_pendingArm (cw_worker w) = None"
proof -
  let ?step = "page_step plain_env sample_env"
  define p where "p = run ?step (new_page []) (sample_boot @ [SwitchCall])"
  define w where "w = the (pg_work booted_page)"
  have "p = ?step booted_page SwitchCall" unfolding p_def run_append sample_boot_runs(1) by simp
  then have p: "p = booted_page\<lparr>pg_ctl := booted_ctl\<lparr>cc_switching := True\<rparr>, pg_switches := [0]\<rparr>"
    by (simp add: booted_page_def booted_ctl_def switch_call_def new_page_def new_controller_def)
  have work: "pg_work p = Some w" "pg_inbox p = []" "cc_source (pg_ctl p) = Some 0"
    by (simp_all add: p w_def booted_page_def new_page_def booted_ctl_def)
  have source: "cc_source (pg_ctl (?step p (SwitchGranted 0 (plain_flags ''two'')))) = Some 1"
    by (simp add: p grant_mic_def switch_acquired_def booted_page_def booted_ctl_def new_page_def new_controller_def publish_def Let_def)
  have good: "ring_good p"
    by (simp add: p ring_good_def booted_page_def new_worker_def ring_capacity_def create_capture_ring_def good_capacity_def)
  have legal: "legal ?step (well_used plain_env sample_env) (new_page []) (sample_boot @ [SwitchCall])"
    using good unfolding legal_append p_def run_append sample_boot_runs(1) by (simp add: sample_boot_runs(2) well_used_def)
  have "engine_state (cw_worker w) \<noteq> Some TakeStreaming \<and> ew_pendingArm (cw_worker w) = None \<and> (\<forall>a. EncArm a \<notin> set (pg_inbox p))"
    by (rule swap_outside_takes [OF sample_sound legal, folded p_def, of 0 "plain_flags ''two''"])
      (simp_all only: source work, simp_all)
  with work(1) source show ?thesis by blast
qed

text \<open>C24. A take's latch opens again. However things interleave, once the last take has been stopped and both queues between
  the page and its worker have run dry, the page no longer takes a take to be open: no report is lost, and none that
  answers an earlier stop is left to answer it.\<close>

theorem latch_released:
  fixes ca ee h evs
  defines "p \<equiv> run (page_step ca ee) (new_page h) evs"
  assumes "sound_flacenc (ee_flac ee)" "legal (page_step ca ee) (well_used ca ee) (new_page h) evs"
    and "\<not> pg_armed p" "pg_inbox p = []" "pg_outbox p = []" "pg_closing p = 0"
  shows "\<not> take_open p"
proof -
  have inv: "latch_inv ee p" unfolding p_def by (rule page_run_ok [OF assms(2,3)])
  show ?thesis
  proof (cases "pg_work p")
    case None
    then show ?thesis using inv assms(4,7) by (simp add: latch_inv_def worker_side_def)
  next
    case (Some w)
    show ?thesis
    proof (cases "ew_ring (cw_worker w) = None")
      case True
      then show ?thesis using inv Some assms(5) by (simp add: latch_inv_def worker_side_def booting_def)
    next
      case False
      with inv Some obtain cap opened where "take_open p \<and> \<not> pg_armed p \<longrightarrow> waits_stopped opened p" by (elim running_worker)
      then show ?thesis using assms(4-6) by (auto simp: waits_stopped_def)
    qed
  qed
qed

text \<open>A take armed and stopped on the booted page: the worker is told twice and reports twice.\<close>

definition sample_options :: arm_options where
  "sample_options = \<lparr>ao_takeId = replicate 16 1, ao_streamId = replicate 16 2, ao_deviceDesc = Some [], ao_retainLocal = None\<rparr>"

definition sample_take :: "page_event list" where
  "sample_take = [ArmCall 5 sample_options, StopCall, WorkerTakes 6, WorkerTakes 7, WorkerReports 8, WorkerReports 9]"

theorem latch_released_witness:
  "\<exists>p n. p = run (page_step plain_env sample_env) (new_page []) (sample_boot @ sample_take)
     \<and> sn_finalSeq (cc_snapshot (pg_ctl p)) = Some n \<and> cc_armGeneration (pg_ctl p) = 1 \<and> \<not> take_open p"
proof -
  let ?step = "page_step plain_env sample_env"
  define p where "p = run ?step (new_page []) (sample_boot @ sample_take)"
  define r where "r = create_capture_ring (0 :: real) 384000"
  have r: "reset_dropped (snap_to_write r) = r" "read_ring 96000 r = ([], r)" "good_capacity (ring_capacity r) 0"
    by (simp_all add: r_def create_capture_ring_def reset_dropped_def snap_to_write_def read_ring_def available_def Let_def
        copy_out_def ring_capacity_def good_capacity_def)
  define a where "a = \<lparr>am_key = \<lparr>fk_takeId = replicate 16 1, fk_streamId = replicate 16 2\<rparr>, am_bits = 24, am_deviceDesc = [],
      am_wallClock = 5, am_budget = encoded_ring_budget_bytes, am_retain = False\<rparr>"
  define w0 where "w0 = fresh_worker\<lparr>ew_ring := Some r, ew_rate := 48000\<rparr>"
  have w0: "ew_rate w0 = 48000" "ew_engine w0 = None" "ew_preArm w0 = []" "ew_pendingArm w0 = None" "ew_local w0 = reset_local_take False"
    "ew_ring w0 = Some r" by (simp_all add: w0_def fresh_worker_def)
  obtain g where g: "new_recorder a 48000 6 = Some g" "streams g" "se_pending (rn_encoder g) = []" "\<not> se_finished (rn_encoder g)"
    "se_samples (rn_encoder g) = 0" "ss_sinks (rn_sender g) = []"
    by (auto simp: new_recorder_def a_def new_encoder_def validate_config_def sender_arm_def new_sender_def produce_def
        broadcast_new_gaps_def for_sinks_def take_pending_gaps_def Let_def split: prod.splits)
  define w1 where "w1 = w0\<lparr>ew_engine := Some g, ew_meterIds := Some (am_key a)\<rparr>"
  have arm: "on_arm a 6 w0 = ([Armed 6], w1)"
    using w0 g(1) r(1) by (simp add: on_arm_def do_arm_def Let_def w1_def attach_local_sink_def reset_local_take_def)
       (simp add: a_def)
  define n where "n = ss_nextSeq (rn_sender g) - 1"
  obtain g' where fin: "recorder_finish flac g = (True, g')" "ss_finalSeq (rn_sender g') = Some n" "ss_sinks (rn_sender g') = []" for flac
    using g by (auto simp: recorder_finish_def finish_encoder_def sender_finish_def try_close_def n_def Let_def)
  have idle: "drain_take env now w = w" "announce_pending (w\<lparr>ew_engine := e\<rparr>) = []"
    if "ew_local w = reset_local_take False" "ew_engine w = Some h" "\<And>h. e = Some h \<Longrightarrow> ss_sinks (rn_sender h) = []" for env now w e h
    using that by (auto simp: drain_take_def drain_local_def reset_local_take_def announce_pending_def stats_of_def Let_def split: option.split)
  define w2 where "w2 = w1\<lparr>ew_engine := Some g'\<rparr>"
  have w1: "ew_ring w1 = Some r" "ew_rate w1 = 48000" "ew_engine w1 = Some g" "ew_pendingArm w1 = None" "ew_local w1 = reset_local_take False"
    "w1\<lparr>ew_ring := Some r\<rparr> = w1" "w1\<lparr>ew_engine := Some g\<rparr> = w1"
    by (simp_all add: w1_def w0_def fresh_worker_def)
  have w2: "ew_engine w2 = Some g'" "ew_local w2 = reset_local_take False" "w2\<lparr>ew_engine := Some g'\<rparr> = w2"
      "w2\<lparr>ew_engine := Some g', ew_local := reset_local_take False\<rparr> = w2"
    using w1(5) by (simp_all add: w2_def w1_def w0_def fresh_worker_def)
  have drain: "drain_take sample_env 7 w1 = w1" "announce_pending w1 = []" "drain_take sample_env 7 w2 = w2" "announce_pending w2 = []"
    using idle(1) [OF w1(5,3), of "Some g"] idle(2) [OF w1(5,3), of "Some g"] idle(1) [OF w2(2,1), of "Some g'"]
      idle(2) [OF w2(2,1), of "Some g'"] g(6) fin(3) w1(7) w2(3) by simp_all
  have pump: "pump sample_env 7 w1 = ([], w1)"
    using w1(1-4) r(2) by (simp add: pump_def arm_queued_def pump_ring_def w1(6) drain Let_def)
  have "finalize_local 7 (Some n) g' (reset_local_take False) = (g', reset_local_take False)"
    by (simp add: finalize_local_def reset_local_take_def)
  then have stop: "on_stop sample_env 7 w1 = ([Stopped (Some n)], w2)"
    using w1(3,4) fin(1,2) w2(1,2) by (simp add: on_stop_def pump drain Let_def w2(4) flip: w2_def)
  define c0 where "c0 = publish (sn_takeOpen_update (\<lambda>_. True)) (booted_ctl\<lparr>cc_armGeneration := 1\<rparr>)"
  define c1 where "c1 = c0\<lparr>cc_stopFor := Some 1\<rparr>"
  define page where "page w inbox outbox c = booted_page\<lparr>pg_ctl := c, pg_work := Some (new_worker\<lparr>cw_worker := w\<rparr>),
      pg_inbox := inbox, pg_outbox := outbox\<rparr>" for w inbox outbox c
  have c: "cc_ready booted_ctl" "cc_worker booted_ctl" "cc_pendingArm booted_ctl = None" "cc_armGeneration booted_ctl = 0"
    "cc_worker c0" "cc_pendingArm c0 = None" "cc_armGeneration c0 = 1" "cc_armGeneration c1 = 1" "cc_stopFor c1 = Some 1"
    by (simp_all add: booted_ctl_def new_controller_def c0_def c1_def publish_def)
  have start: "booted_page = page w0 [] [] booted_ctl"
    by (simp add: page_def booted_page_def new_page_def w0_def r_def)
  have s1: "?step (page w0 [] [] booted_ctl) (ArmCall 5 sample_options) = (page w0 [EncArm a] [] c0)\<lparr>pg_armed := True\<rparr>"
    using c by (simp add: page_def ctl_arm_def sample_options_def plain_env_def a_def c0_def Let_def perform_post publish_def post_enc_def
        booted_page_def new_page_def)
  have s2: "?step ((page w0 [EncArm a] [] c0)\<lparr>pg_armed := True\<rparr>) StopCall = page w0 [EncArm a, EncStop] [] c1"
    using c by (simp add: page_def ctl_stop_take_def perform_post c1_def booted_page_def new_page_def)
  have s3: "?step (page w0 [EncArm a, EncStop] [] c1) (WorkerTakes 6) = page w1 [EncStop] [Armed 6] c1"
    by (simp add: page_def work_step_def arm after_output_def new_worker_def)
  have s4: "?step (page w1 [EncStop] [Armed 6] c1) (WorkerTakes 7) = page w2 [] [Armed 6, Stopped (Some n)] c1"
    by (simp add: page_def work_step_def stop after_output_def new_worker_def)
  define c2 where "c2 = publish (sn_finalSeq_update (\<lambda>_. None)) c1"
  have s5: "?step (page w2 [] [Armed 6, Stopped (Some n)] c1) (WorkerReports 8) = page w2 [] [Stopped (Some n)] c2"
    by (simp add: page_def c2_def booted_page_def new_page_def)
  have c2: "cc_armGeneration c2 = 1" "cc_stopFor c2 = Some 1" using c by (simp_all add: c2_def publish_def)
  define c3 where "c3 = publish (\<lambda>s. s\<lparr>sn_finalSeq := Some n, sn_takeOpen := False\<rparr>) c2"
  have s6: "?step (page w2 [] [Stopped (Some n)] c2) (WorkerReports 9) = page w2 [] [] c3"
    using c2 by (simp add: page_def c3_def booted_page_def new_page_def publish_def Let_def)
  have end_p: "p = page w2 [] [] c3"
    unfolding p_def run_append sample_boot_runs(1) start sample_take_def run_Cons s1 s2 s3 s4 s5 s6 by simp
  have good: "ring_good (page w i out c)" "ring_good ((page w i out c)\<lparr>pg_armed := True\<rparr>)" if "ew_ring w = Some r" for w i out c
    using that r(3) by (simp_all add: page_def ring_good_def new_worker_def)
  have rings: "ew_ring w0 = Some r" "ew_ring w1 = Some r" "ew_ring w2 = Some r" using w0 w1 by (simp_all add: w2_def)
  have "legal ?step (well_used plain_env sample_env) booted_page sample_take"
    unfolding start sample_take_def legal.simps s1 s2 s3 s4 s5 s6 well_used_def
    using good rings by (simp add: sample_options_def valid_options_def) (simp add: page_def booted_page_def new_page_def)
  then have legal: "legal ?step (well_used plain_env sample_env) (new_page []) (sample_boot @ sample_take)"
    unfolding legal_append sample_boot_runs(1) using sample_boot_runs(2) by simp
  have "\<not> take_open p"
    by (rule latch_released [OF sample_sound legal, folded p_def])
       (simp_all add: end_p page_def booted_page_def new_page_def)
  moreover have "sn_finalSeq (cc_snapshot (pg_ctl p)) = Some n" "cc_armGeneration (pg_ctl p) = 1"
    using c2 by (simp_all add: end_p page_def c3_def publish_def)
  ultimately show ?thesis using p_def by blast
qed

subsection \<open>Outside the discipline\<close>

text \<open>
  The report of an earlier stop is told from that of the last one only if no stop followed the last arm: with a stop, an
  arm and a stop posted before the first report comes back, that report opens the latch while the worker still streams.
\<close>

lemma stale_report_opens:
  fixes c env wall a
  assumes "cc_ready c" "cc_pendingArm c = None"
  defines "c1 \<equiv> snd (ctl_stop_take c)"
  defines "c2 \<equiv> snd (ctl_arm env wall a c1)"
  defines "c3 \<equiv> snd (ctl_stop_take c2)"
  shows "\<not> sn_takeOpen (cc_snapshot (snd (snd (on_worker env wall' (Stopped n) h c3))))"
  using assms(1,2) by (simp add: c1_def c2_def c3_def ctl_stop_take_def ctl_arm_def publish_def Let_def)

text \<open>
  A take armed while another one streams is queued, and its stop takes it off the queue again: the worker is as before, and
  no such take ever records anything.
\<close>

lemma arm_stop_lost:
  assumes "working w" "ew_pendingArm w = None" "ew_ring w \<noteq> None"
  shows "on_arm a now w = ([], w\<lparr>ew_pendingArm := Some a\<rparr>)"
    and "on_stop env now' (w\<lparr>ew_pendingArm := Some a\<rparr>) = ([Stopped None], w)"
proof -
  have "ew_engine w \<noteq> None \<and> engine_state w \<noteq> Some TakeClosed" using assms(1) by (auto simp: working_def engine_state_def)
  then show "on_arm a now w = ([], w\<lparr>ew_pendingArm := Some a\<rparr>)" using assms(3) by (simp add: on_arm_def)
  show "on_stop env now' (w\<lparr>ew_pendingArm := Some a\<rparr>) = ([Stopped None], w)"
    using assms(2) by (cases w) (simp add: on_stop_def)
qed

end
