(* ===== verification/Live_Mic.thy ===== *)
theory Live_Mic
  imports Capture_Page
begin

text \<open>
  Which microphones are live. Every stream the browser grants is accounted for until its tracks stop: it is the one the
  controller holds, or none. What \<open>start\<close> does not check is shown to matter.
\<close>

definition awaits_mic :: "start_stage \<Rightarrow> bool" where
  "awaits_mic st \<longleftrightarrow> (case st of AwaitMic _ \<Rightarrow> True | _ \<Rightarrow> False)"

definition held :: "capture_controller \<Rightarrow> nat list" where
  "held c = (case cc_stream c of None \<Rightarrow> [] | Some s \<Rightarrow> [me_id s])"

definition mic_inv :: "capture_page \<Rightarrow> bool" where
  "mic_inv p \<longleftrightarrow>
     pg_live p = held (pg_ctl p) \<and> (\<forall>i\<in>set (pg_live p). i < pg_nextStream p)
     \<and> (0 < pg_closing p \<longrightarrow> cc_stream (pg_ctl p) = None \<and> \<not> cc_node (pg_ctl p) \<and> list_all waking (pg_starts p))
     \<and> (cc_context (pg_ctl p) = None \<longrightarrow> cc_stream (pg_ctl p) = None)
     \<and> (list_ex awaits_mic (pg_starts p) \<longrightarrow> cc_context (pg_ctl p) = None)
     \<and> length (filter (Not \<circ> waking) (pg_starts p)) \<le> 1"

lemma mic_neutral:
  assumes "mic_inv p" "pg_live p' = pg_live p" "cc_stream (pg_ctl p') = cc_stream (pg_ctl p)" "pg_nextStream p' = pg_nextStream p"
    "pg_closing p' = pg_closing p" "(cc_context (pg_ctl p') = None) = (cc_context (pg_ctl p) = None)" "pg_starts p' = pg_starts p"
    "0 < pg_closing p \<Longrightarrow> cc_node (pg_ctl p') \<Longrightarrow> cc_node (pg_ctl p)"
  shows "mic_inv p'"
  using assms by (auto simp: mic_inv_def held_def)

lemma mic_drop_stage: "mic_inv p \<Longrightarrow> mic_inv (restage k None p)"
proof -
  assume inv: "mic_inv p"
  have "length (filter (Not \<circ> waking) (pg_starts (restage k None p))) \<le> 1"
    using inv filter_dropped_le [of "Not \<circ> waking" k "pg_starts p"] by (simp add: restage_def mic_inv_def del: filter_append)
  moreover have "list_all waking (pg_starts p) \<Longrightarrow> list_all waking (pg_starts (restage k None p))"
    by (simp add: restage_def list_all_dropped del: list_all_append)
  moreover have "list_ex awaits_mic (pg_starts (restage k None p)) \<Longrightarrow> list_ex awaits_mic (pg_starts p)"
    by (auto simp: restage_def list_ex_iff dest: in_set_takeD in_set_dropD)
  ultimately show ?thesis using inv unfolding mic_inv_def by (auto simp: restage_def)
qed

text \<open>Only these effects stop a microphone; everything else a call does leaves the live ones alone.\<close>

definition tame :: "capture_out \<Rightarrow> bool" where
  "tame x \<longleftrightarrow> (case x of StopTracks _ \<Rightarrow> False | _ \<Rightarrow> True)"

lemma run_tame:
  "list_all tame outs \<Longrightarrow> pg_live (run page_out p outs) = pg_live p"
  by (induction outs arbitrary: p) (auto simp: tame_def split: capture_out.splits)

lemma run_outs_fields:
  "pg_ctl (run page_out p outs) = pg_ctl p" "pg_nextStream (run page_out p outs) = pg_nextStream p"
  "pg_closing (run page_out p outs) = pg_closing p" "pg_starts (run page_out p outs) = pg_starts p"
proof (induction outs arbitrary: p)
  case (Cons x outs)
  {
    case 1 show ?case by (cases x) (simp_all add: Cons.IH)
  next
    case 2 show ?case by (cases x) (simp_all add: Cons.IH)
  next
    case 3 show ?case by (cases x) (simp_all add: Cons.IH)
  next
    case 4 show ?case by (cases x) (simp_all add: Cons.IH)
  }
qed simp_all

lemma mic_perform:
  assumes "mic_inv p" "list_all tame outs" "cc_stream c = cc_stream (pg_ctl p)" "(cc_context c = None) = (cc_context (pg_ctl p) = None)"
    "0 < pg_closing p \<Longrightarrow> cc_node c \<Longrightarrow> cc_node (pg_ctl p)"
  shows "mic_inv (perform (outs, c) p)"
  using assms(2-5) by (intro mic_neutral [OF assms(1)]) (simp_all add: perform_def run_tame run_outs_fields)

lemma tame_posts [simp]:
  "list_all tame (post_enc c m)" "list_all tame (request_drain h i c)" "list_all tame (set_sink_connected i up c)"
  "list_all tame (deliver_frame i b c)" "list_all tame (send_time_ping i c)" "list_all tame (fst (port_deliver env i fs h c))"
  "tame (Throws e)" "tame (ExportDone w fl)"
  by (simp_all add: post_enc_def tame_def request_drain_def set_sink_connected_def deliver_frame_def send_time_ping_def
      port_deliver_def Let_def split: option.split prod.split)

lemma tame_meter [simp]: "list_all tame (fst (meter_out env b ps h c))"
proof (induction ps arbitrary: h)
  case (Cons q ps)
  obtain i a where q: "q = (i, a)" by fastforce
  obtain outs h' where d: "port_deliver env i [b] h c = (outs, h')" by fastforce
  obtain outs' h'' where r: "meter_out env b ps h' c = (outs', h'')" by fastforce
  have "list_all tame outs" using tame_posts(6) [of env i "[b]" h c] unfolding d by simp
  then show ?case using Cons.IH [of h] Cons.IH [of h'] by (auto simp: q d r)
qed simp

lemma tame_arm: "list_all tame (fst (ctl_arm env wall a c))"
  by (simp add: ctl_arm_def Let_def)

lemma arm_stream: "cc_stream (snd (ctl_arm env wall a c)) = cc_stream c" "cc_context (snd (ctl_arm env wall a c)) = cc_context c"
  "cc_node (snd (ctl_arm env wall a c)) = cc_node c"
  by (simp_all add: ctl_arm_def Let_def publish_def)

lemma mic_report:
  assumes r: "on_worker env wall m h c = (outs, h', c')"
  shows "list_all tame outs \<and> cc_stream c' = cc_stream c \<and> (cc_context c' = None) = (cc_context c = None) \<and> cc_node c' = cc_node c"
proof (cases m)
  case EncReady
  show ?thesis
  proof (cases "cc_pendingArm c")
    case (Some a)
    define c1 where "c1 = c\<lparr>cc_ready := True, cc_pendingArm := None\<rparr>"
    have "outs = fst (ctl_arm env wall a c1) \<and> c' = snd (ctl_arm env wall a c1)"
      using r by (simp add: EncReady Some c1_def split: prod.splits)
    then show ?thesis using tame_arm arm_stream by (simp add: c1_def)
  qed (use r EncReady in auto)
next
  case (EncFrames i fs)
  then show ?thesis using r tame_posts(6) [of env i fs h c] by (cases "port_deliver env i fs h c") (simp del: tame_posts)
next
  case (EncReply i b)
  then show ?thesis using r tame_posts(6) [of env i "[b]" h c] by (cases "port_deliver env i [b] h c") (simp del: tame_posts)
next
  case (Meter b)
  then show ?thesis using r tame_meter [of env b "cc_sinks c" h c] by (cases "meter_out env b (cc_sinks c) h c") (simp del: tame_meter)
next
  case (Pending ids)
  have "list_all tame (concat (map (\<lambda>i. request_drain h i c) ids))" by (induction ids) simp_all
  then show ?thesis using r Pending by auto
qed (use r in \<open>auto simp: publish_def Let_def list_all_iff tame_def split: if_splits\<close>)

subsection \<open>Every event\<close>

lemma mic_start_call:
  assumes inv: "mic_inv p" and calm: "calm p (StartCall lock)"
  shows "mic_inv (page_step ca ee p (StartCall lock))"
proof (cases "start_call lock (pg_ctl p)")
  case (Some st)
  then have st: "st = AwaitMic lock" "cc_context (pg_ctl p) = None" by (auto simp: start_call_def split: if_splits)
  have "filter (Not \<circ> waking) (pg_starts p) = []" using calm by (auto simp: filter_empty_conv list_all_iff)
  then show ?thesis using inv st calm by (auto simp: Some mic_inv_def)
qed (simp add: inv)

lemma mic_granted:
  assumes inv: "mic_inv p"
  shows "mic_inv (page_step ca ee p (MicGranted k flags rate))"
proof (cases "\<exists>lock. stage_at k p = Some (AwaitMic lock)")
  case True
  then obtain lock where st: "stage_at k p = Some (AwaitMic lock)" by blast
  note k = stage_atD [OF st]
  have "AwaitMic lock \<in> set (pg_starts p)" using k nth_mem by metis
  then have aw: "list_ex awaits_mic (pg_starts p)" unfolding list_ex_iff by (rule bexI [rotated]) (simp add: awaits_mic_def)
  then have none: "cc_context (pg_ctl p) = None" "cc_stream (pg_ctl p) = None" using inv by (simp_all add: mic_inv_def)
  have w: "\<not> waking (AwaitMic lock)" by (simp add: waking_def)
  have opened: "pg_closing p = 0" using inv k w by (auto simp: mic_inv_def list_all_length)
  define s where "s = \<lparr>me_id = pg_nextStream p, me_flags = flags\<rparr>"
  define x where "x = \<lparr>ax_rate = rate, ax_state = ''suspended''\<rparr>"
  define stage where "stage = AwaitResume lock s x"
  have len: "length (filter (Not \<circ> waking) ((pg_starts p)[k := stage])) \<le> 1"
    using filter_update_le [of k "pg_starts p" "Not \<circ> waking" stage] k w inv by (auto simp: mic_inv_def)
  have gone: "\<not> list_ex awaits_mic ((pg_starts p)[k := stage])"
  proof
    assume "list_ex awaits_mic ((pg_starts p)[k := stage])"
    then obtain i where i: "i < length (pg_starts p)" "awaits_mic ((pg_starts p)[k := stage] ! i)" by (auto simp: list_ex_length)
    then have "i \<noteq> k" using k by (auto simp: stage_def awaits_mic_def)
    with i have "awaits_mic (pg_starts p ! i)" by simp
    then have "\<not> waking (pg_starts p ! i)" by (auto simp: awaits_mic_def waking_def)
    moreover have "Suc (length (filter (Not \<circ> waking) ((pg_starts p)[k := AwaitWakeLock]))) = length (filter (Not \<circ> waking) (pg_starts p))"
      using filter_update_lost [of k "pg_starts p" "Not \<circ> waking" AwaitWakeLock] k w by (simp add: waking_def)
    then have "length (filter (Not \<circ> waking) ((pg_starts p)[k := AwaitWakeLock])) = 0" using inv unfolding mic_inv_def by linarith
    then have "filter (Not \<circ> waking) ((pg_starts p)[k := AwaitWakeLock]) = []" by simp
    then have "waking ((pg_starts p)[k := AwaitWakeLock] ! i)" using i(1) by (auto simp: filter_empty_conv dest: nth_mem)
    ultimately show False using \<open>i \<noteq> k\<close> by simp
  qed
  have "page_step ca ee p (MicGranted k flags rate) =
      restage k (Some stage) (p\<lparr>pg_live := pg_nextStream p # pg_live p, pg_nextStream := pg_nextStream p + 1,
        pg_ctl := (pg_ctl p)\<lparr>cc_stream := Some s, cc_context := Some x\<rparr>\<rparr>)"
    by (simp add: st grant_mic_def start_acquired_def Let_def s_def x_def stage_def)
  then show ?thesis using inv none opened len gone by (simp add: mic_inv_def restage_def held_def s_def)
qed (auto simp: inv split: option.split start_stage.split)

lemma mic_restage:
  assumes inv: "mic_inv p" and k: "stage_at k p = Some st" "\<not> waking st" and new: "\<not> awaits_mic stage"
  shows "mic_inv (restage k (Some stage) p)"
proof -
  have len: "length (filter (Not \<circ> waking) ((pg_starts p)[k := stage])) \<le> 1"
    using filter_update_le [of k "pg_starts p" "Not \<circ> waking" stage] stage_atD [OF k(1)] k(2) inv by (auto simp: mic_inv_def)
  have "pg_closing p = 0" using inv stage_atD [OF k(1)] k(2) by (auto simp: mic_inv_def list_all_length)
  moreover have "list_ex awaits_mic ((pg_starts p)[k := stage]) \<Longrightarrow> list_ex awaits_mic (pg_starts p)"
    using new by (auto simp: list_ex_iff dest: set_update_subset_insert [THEN subsetD])
  ultimately show ?thesis using inv len by (auto simp: mic_inv_def restage_def)
qed

lemma mic_resumed:
  assumes inv: "mic_inv p"
  shows "mic_inv (page_step ca ee p (Resumed k))"
proof (cases "\<exists>lock st x. stage_at k p = Some (AwaitResume lock st x)")
  case True
  then obtain lock s x where st: "stage_at k p = Some (AwaitResume lock s x)" by blast
  define q where "q = p\<lparr>pg_ctl := (pg_ctl p)\<lparr>cc_context := map_option (\<lambda>_. x\<lparr>ax_state := ''running''\<rparr>) (cc_context (pg_ctl p))\<rparr>\<rparr>"
  have q: "mic_inv q" by (rule mic_neutral [OF inv]) (simp_all add: q_def)
  have "stage_at k q = stage_at k p" by (simp add: q_def stage_at_def)
  with st have "stage_at k q = Some (AwaitResume lock s x)" by simp
  from mic_restage [OF q this] have "mic_inv (restage k (Some (AwaitModule lock s (x\<lparr>ax_state := ''running''\<rparr>))) q)"
    by (simp add: waking_def awaits_mic_def)
  then show ?thesis by (simp add: st start_resumed_def Let_def q_def)
qed (auto simp: inv split: option.split start_stage.split)

lemma mic_loaded:
  assumes inv: "mic_inv p"
  shows "mic_inv (page_step ca ee p (ModuleLoaded k))"
proof (cases "\<exists>lock st x. stage_at k p = Some (AwaitModule lock st x)")
  case True
  then obtain lock s x where st: "stage_at k p = Some (AwaitModule lock s x)" by blast
  obtain outs stage c where l: "start_loaded lock s x (pg_ctl p) = (outs, stage, c)" by (cases "start_loaded lock s x (pg_ctl p)")
  have c: "list_all tame outs" "cc_stream c = cc_stream (pg_ctl p)" "cc_context c = cc_context (pg_ctl p)"
    "stage = None \<or> stage = Some AwaitWakeLock"
    using l by (auto simp: start_loaded_def publish_def tame_def Let_def split: if_splits)
  have "pg_closing p = 0" using inv stage_atD [OF st] by (auto simp: mic_inv_def list_all_length waking_def)
  then have q: "mic_inv (perform (outs, c) p)" by (intro mic_perform [OF inv c(1,2)]) (simp_all add: c(3))
  have "stage_at k (perform (outs, c) p) = stage_at k p" by (simp add: stage_at_def perform_def run_outs_fields)
  with st have "stage_at k (perform (outs, c) p) = Some (AwaitModule lock s x)" by simp
  from mic_restage [OF q this, of AwaitWakeLock] mic_drop_stage [OF q, of k] c(4)
  have "mic_inv (restage k stage (perform (outs, c) p))" by (auto simp: waking_def awaits_mic_def)
  then show ?thesis by (simp add: st l)
qed (auto simp: inv split: option.split start_stage.split)

lemma mic_stage_fails:
  assumes inv: "mic_inv p"
  shows "mic_inv (page_step ca ee p (MicRefused k))" "mic_inv (page_step ca ee p (StageFails k))"
proof -
  have "mic_inv (perform (start_fails (pg_ctl p)) p)"
    unfolding start_fails_def by (rule mic_perform [OF inv]) (simp_all add: publish_def)
  then show "mic_inv (page_step ca ee p (MicRefused k))" "mic_inv (page_step ca ee p (StageFails k))"
    using mic_drop_stage inv by (simp_all split: option.split start_stage.split)
qed

lemma mic_waked: "mic_inv p \<Longrightarrow> mic_inv (page_step ca ee p (WakeLocked k granted))"
proof -
  assume inv: "mic_inv p"
  have "mic_inv (p\<lparr>pg_ctl := start_locked granted (pg_ctl p)\<rparr>)" by (rule mic_neutral [OF inv]) (simp_all add: start_locked_def split: if_splits)
  from mic_drop_stage [OF this] inv show ?thesis by (simp split: option.split start_stage.split)
qed

lemma mic_switched:
  assumes inv: "mic_inv p"
  shows "mic_inv (page_step ca ee p (SwitchGranted k flags))"
proof (cases "k < length (pg_switches p)")
  case True
  define i where "i = pg_nextStream p"
  define s where "s = \<lparr>me_id = i, me_flags = flags\<rparr>"
  define q where "q = p\<lparr>pg_live := i # pg_live p, pg_nextStream := i + 1,
      pg_switches := take k (pg_switches p) @ drop (Suc k) (pg_switches p)\<rparr>"
  obtain outs c where sw: "switch_acquired (pg_switches p ! k) s (pg_ctl p) = (outs, c)" by fastforce
  have step: "page_step ca ee p (SwitchGranted k flags) = perform (outs, c) q"
    using True sw by (simp add: grant_mic_def i_def s_def q_def)
  have live: "pg_live p = held (pg_ctl p)" and fresh: "i \<notin> set (pg_live p)" using inv by (auto simp: mic_inv_def i_def)
  have fields: "pg_ctl (perform (outs, c) q) = c" "pg_nextStream (perform (outs, c) q) = i + 1"
    "pg_closing (perform (outs, c) q) = pg_closing p" "pg_starts (perform (outs, c) q) = pg_starts p"
    by (simp_all add: perform_def run_outs_fields q_def)
  show ?thesis
  proof (cases "cc_stream c = cc_stream (pg_ctl p) \<and> cc_context c = cc_context (pg_ctl p) \<and> pg_live (perform (outs, c) q) = pg_live p")
    case True
    moreover have "\<forall>j\<in>set (pg_live p). j < i + 1" using inv by (auto simp: mic_inv_def i_def intro: less_SucI)
    moreover have "held c = held (pg_ctl p)" using True by (simp add: held_def)
    moreover have "cc_node c = cc_node (pg_ctl p)" using sw by (auto simp: switch_acquired_def publish_def split: if_splits)
    ultimately show ?thesis using inv fields unfolding step by (simp add: mic_inv_def)
  next
    case False
    have swap: "cc_stream c = Some s" "cc_context c = cc_context (pg_ctl p)" "cc_context c \<noteq> None"
      "outs = (case cc_stream (pg_ctl p) of None \<Rightarrow> [] | Some old \<Rightarrow> [StopTracks (me_id old)])"
      using sw False fresh by (auto simp: switch_acquired_def perform_def q_def s_def publish_def split: if_splits)
    have "pg_live (perform (outs, c) q) = [i]"
      using live fresh by (auto simp: swap(4) perform_def q_def held_def split: option.splits)
    moreover have "cc_node (pg_ctl p)"
      using sw False fresh by (auto simp: switch_acquired_def perform_def q_def s_def split: if_splits)
    then have "pg_closing p = 0" using inv by (auto simp: mic_inv_def)
    ultimately show ?thesis using inv fields swap unfolding step by (auto simp: mic_inv_def held_def s_def)
  qed
qed (simp add: inv)

lemma mic_switch_rest:
  assumes inv: "mic_inv p"
  shows "mic_inv (page_step ca ee p SwitchCall)" "mic_inv (page_step ca ee p (SwitchRefused k))"
proof -
  show "mic_inv (page_step ca ee p SwitchCall)"
  proof (cases "switch_call (pg_ctl p)")
    case (Inr ec)
    then obtain epoch c where ec: "switch_call (pg_ctl p) = Inr (epoch, c)" by (cases ec) simp
    then have "cc_stream c = cc_stream (pg_ctl p)" "cc_context c = cc_context (pg_ctl p)" "cc_node c = cc_node (pg_ctl p)" by (auto simp: switch_call_def split: if_splits)
    then show ?thesis by (intro mic_neutral [OF inv]) (simp_all add: ec)
  qed (simp add: inv)
  show "mic_inv (page_step ca ee p (SwitchRefused k))"
  proof (cases "k < length (pg_switches p)")
    case True
    define q where "q = p\<lparr>pg_switches := take k (pg_switches p) @ drop (Suc k) (pg_switches p)\<rparr>"
    have q: "mic_inv q" by (rule mic_neutral [OF inv]) (simp_all add: q_def)
    have "mic_inv (perform (switch_failed (pg_ctl q)) q)"
      unfolding switch_failed_def by (rule mic_perform [OF q]) (simp_all add: publish_def)
    then show ?thesis using True by (simp add: q_def)
  qed (simp add: inv)
qed

lemma mic_teardown:
  assumes inv: "mic_inv p"
  shows "calm p TeardownCall \<Longrightarrow> mic_inv (page_step ca ee p TeardownCall)" "mic_inv (page_step ca ee p TeardownCloses)"
proof -
  assume calm: "calm p TeardownCall"
  obtain outs c where t: "teardown_call (pg_ctl p) = (outs, c)" by fastforce
  then have c: "cc_stream c = None" "cc_context c = cc_context (pg_ctl p)" "\<not> cc_node c" by (auto simp: teardown_call_def)
  have live: "pg_live p = held (pg_ctl p)" using inv by (simp add: mic_inv_def)
  have "pg_live (perform (outs, c) p) = []"
    using t live by (auto simp: teardown_call_def perform_def held_def split: option.splits if_splits)
  then show "mic_inv (page_step ca ee p TeardownCall)"
    using inv calm c by (auto simp: t mic_inv_def held_def perform_def run_outs_fields)
next
  show "mic_inv (page_step ca ee p TeardownCloses)"
    using inv by (auto simp: mic_inv_def held_def teardown_closed_def publish_def)
qed

lemma mic_calls:
  assumes inv: "mic_inv p"
  shows "mic_inv (page_step ca ee p (ArmCall wall a))" "mic_inv (page_step ca ee p StopCall)" "mic_inv (page_step ca ee p (SinkCall m))"
    "mic_inv (page_step ca ee p (AttachCall i b))" "mic_inv (page_step ca ee p (DetachCall i))" "mic_inv (page_step ca ee p (ExportCall w))"
    "mic_inv (page_step ca ee p (LinkChanges d l))"
proof -
  have armed: "mic_inv p \<Longrightarrow> mic_inv (p\<lparr>pg_armed := b\<rparr>)" for p b by (rule mic_neutral) simp_all
  obtain outs c where arm: "ctl_arm ca wall a (pg_ctl p) = (outs, c)" by fastforce
  have "mic_inv (perform (outs, c) p)"
    by (rule mic_perform [OF inv]) (use tame_arm [of ca wall a "pg_ctl p"] arm_stream [of ca wall a "pg_ctl p"] in \<open>simp_all add: arm\<close>)
  then show "mic_inv (page_step ca ee p (ArmCall wall a))" using armed by (simp add: arm)
  have "mic_inv (perform (ctl_stop_take (pg_ctl p)) p)"
    unfolding ctl_stop_take_def by (auto intro!: mic_perform [OF inv] mic_neutral [OF inv] simp: publish_def)
  then show "mic_inv (page_step ca ee p StopCall)" using armed by simp
  show "mic_inv (page_step ca ee p (SinkCall m))"
    using inv by (cases m) (auto intro!: mic_perform [OF inv])
  show "mic_inv (page_step ca ee p (AttachCall i b))" by (auto simp: attach_sink_def intro!: mic_perform [OF inv])
  show "mic_inv (page_step ca ee p (DetachCall i))" by (auto simp: detach_sink_def intro!: mic_perform [OF inv])
  show "mic_inv (page_step ca ee p (ExportCall w))" by (auto simp: export_local_flac_def intro!: mic_perform [OF inv])
  show "mic_inv (page_step ca ee p (LinkChanges d l))" by (rule mic_neutral [OF inv]) simp_all
qed

lemma mic_work:
  assumes inv: "mic_inv p"
  shows "mic_inv (page_step ca ee p (WorkerTakes now))" "mic_inv (page_step ca ee p (WorkerPumps now))"
    "mic_inv (page_step ca ee p WorkerStats)" "mic_inv (page_step ca ee p (WorkerReports wall))" "mic_inv (page_step ca ee p (AudioQuantum ch))"
proof -
  have work: "mic_inv q \<Longrightarrow> mic_inv (work_step ee ev out q)" for q ev out by (rule mic_neutral) (simp_all add: work_step_def)
  have inbox: "mic_inv (p\<lparr>pg_inbox := ms\<rparr>)" for ms by (rule mic_neutral [OF inv]) simp_all
  show "mic_inv (page_step ca ee p (WorkerTakes now))" using inv work [OF inbox] by (simp split: option.split list.split)
  show "mic_inv (page_step ca ee p (WorkerPumps now))" using inv work [OF inv] by (simp split: option.split)
  show "mic_inv (page_step ca ee p (AudioQuantum ch))" using inv work [OF inv] by simp
  have "mic_inv (p\<lparr>pg_outbox := ms\<rparr>)" for ms by (rule mic_neutral [OF inv]) simp_all
  then show "mic_inv (page_step ca ee p WorkerStats)" using inv by (simp split: option.split)
  show "mic_inv (page_step ca ee p (WorkerReports wall))"
  proof (cases "pg_outbox p")
    case (Cons m ms)
    obtain outs h c where r: "on_worker ca wall m (pg_links p) (pg_ctl p) = (outs, h, c)" by (metis prod_cases3)
    have q: "mic_inv (p\<lparr>pg_outbox := ms, pg_links := h\<rparr>)" by (rule mic_neutral [OF inv]) simp_all
    have "mic_inv (perform (outs, c) (p\<lparr>pg_outbox := ms, pg_links := h\<rparr>))"
      by (rule mic_perform [OF q]) (use mic_report [OF r] in simp_all)
    then show ?thesis using Cons r by simp
  qed (simp add: inv)
qed

interpretation mic_machine: guarded_machine "page_step ca ee" mic_inv calm for ca ee
proof
  fix p ev
  assume inv: "mic_inv p" and calm: "calm p ev"
  show "mic_inv (page_step ca ee p ev)"
  proof (cases ev)
    case (StartCall lock)
    then show ?thesis using mic_start_call [OF inv] calm by simp
  next
    case TeardownCall
    then show ?thesis using mic_teardown(1) [OF inv] calm by simp
  qed (use inv in \<open>auto simp del: page_step.simps intro: mic_granted mic_resumed mic_loaded mic_stage_fails mic_waked
      mic_switched mic_switch_rest mic_teardown(2) mic_calls mic_work\<close>)
qed

text \<open>C18. No microphone stays hot behind the page's back, as long as starts and teardowns do not overlap one another. However
  device switches, takes, reports and failing starts interleave with them, the one stream whose tracks are live is the one
  the controller holds, a stream that a switch acquired too late is stopped at once, and when the pipeline is down nothing
  is live. A teardown while a start waits for the permission, and two starts in flight, are outside of this and do leave a
  microphone live: \<open>start_outlives_teardown\<close> and \<open>two_starts_leak\<close> below.\<close>

theorem only_held_mic_is_live:
  assumes "legal (page_step ca ee) calm (new_page h) evs"
  defines "p \<equiv> run (page_step ca ee) (new_page h) evs"
  shows "set (pg_live p) = set_option (map_option me_id (cc_stream (pg_ctl p)))
     \<and> (cc_context (pg_ctl p) = None \<or> 0 < pg_closing p \<longrightarrow> pg_live p = [])"
proof -
  have "mic_inv (new_page h)" by (simp add: mic_inv_def new_page_def new_controller_def held_def)
  then have inv: "mic_inv p" unfolding p_def by (rule mic_machine.run_guarded) (rule assms(1))
  then have "set (pg_live p) = set_option (map_option me_id (cc_stream (pg_ctl p)))"
    by (auto simp: mic_inv_def held_def split: option.splits)
  moreover have "cc_context (pg_ctl p) = None \<or> 0 < pg_closing p \<Longrightarrow> pg_live p = []"
    using inv by (auto simp: mic_inv_def held_def)
  ultimately show ?thesis by blast
qed

text \<open>A switch still waits for its microphone when the page is torn down and started again: its stream is stopped on arrival.\<close>

definition late_switch :: "page_event list" where
  "late_switch = [StartCall False, MicGranted 0 (plain_flags ''mic'') 48000, Resumed 0, ModuleLoaded 0, SwitchCall, TeardownCall, TeardownCloses,
     StartCall False, MicGranted 0 (plain_flags ''mic'') 48000, SwitchGranted 0 (plain_flags ''mic'')]"

lemmas page_eval = new_page_def new_controller_def start_call_def stage_at_def grant_mic_def start_acquired_def restage_def
  start_resumed_def start_loaded_def publish_def switch_call_def switch_acquired_def teardown_call_def teardown_closed_def waking_def Let_def

theorem only_held_mic_is_live_witness:
  "\<exists>p. p = run (page_step plain_env sample_env) (new_page []) late_switch \<and> pg_nextStream p = 3 \<and> set (pg_live p) = {1}"
proof -
  define p where "p = run (page_step plain_env sample_env) (new_page []) late_switch"
  have p: "map_option me_id (cc_stream (pg_ctl p)) = Some 1" "pg_nextStream p = 3"
    by (simp_all add: p_def late_switch_def page_eval)
  have "legal (page_step plain_env sample_env) calm (new_page []) late_switch" by (simp add: late_switch_def page_eval)
  from only_held_mic_is_live [OF this, folded p_def] p show ?thesis by (auto simp: p_def)
qed

text \<open>
  \<open>start\<close> has no such check. A teardown while it waits for the microphone leaves the page with a live microphone and a
  running pipeline once the permission is granted; two starts at once leave one stream live that nothing refers to; and a
  start that fails after the microphone was granted leaves it live, while later starts return at once.
\<close>

lemma start_outlives_teardown:
  "pg_live (run (page_step ca ee) (new_page h) [StartCall False, TeardownCall, TeardownCloses, MicGranted 0 flags rate]) = [0]"
  "pg_closing (run (page_step ca ee) (new_page h) [StartCall False, TeardownCall, TeardownCloses, MicGranted 0 flags rate]) = 0"
  by (simp_all add: page_eval)

lemma two_starts_leak:
  "let p = run (page_step ca ee) (new_page h) [StartCall False, StartCall False, MicGranted 0 flags rate, MicGranted 1 flags rate,
     TeardownCall, TeardownCloses] in pg_live p = [0] \<and> cc_stream (pg_ctl p) = None"
  by (simp add: page_eval)

lemma failed_start_stays:
  "let p = run (page_step ca ee) (new_page h) [StartCall False, MicGranted 0 flags rate, StageFails 0, StartCall False]
   in pg_live p = [0] \<and> pg_starts p = [] \<and> \<not> cc_node (pg_ctl p)"
  by (simp add: page_eval start_fails_def)

end
