(* ===== verification/Device_Identity.thy ===== *)
theory Device_Identity
  imports Prelude "HOL-Library.Char_ord"
begin

unbundle bit_operations_syntax

text \<open>
  Who a browser is: \<open>apps/web/src/net/device-identity.ts\<close> keeps a device id and a nickname in local storage with a copy in
  memory, \<open>desk-input-identity.ts\<close> derives the id of the desk's own recorder from it. Strings are sequences of UTF-16 code
  units; a storage may be missing, and its calls may throw.
\<close>

subsection \<open>Storage that may fail\<close>

record browser_store =
  ks_items :: "(string, string) jsmap"
  ks_getThrows :: bool
  ks_setThrows :: bool

text \<open>The storage, if the browser has one, and the copies of this page.\<close>

record identity_store =
  is_store :: "browser_store option"
  is_volatile :: "(string, string) jsmap"

definition device_id_key :: string where "device_id_key = ''antiphon:device-id''"
definition nickname_key :: string where "nickname_key = ''antiphon:nickname''"

definition or_else :: "'a option \<Rightarrow> 'a option \<Rightarrow> 'a option" where
  "or_else a b = (case a of None \<Rightarrow> b | Some x \<Rightarrow> Some x)"

definition kv_read :: "string \<Rightarrow> identity_store \<Rightarrow> string option" where
  "kv_read key s =
     (case is_store s of
        None \<Rightarrow> jm_get (is_volatile s) key
      | Some k \<Rightarrow> if ks_getThrows k then jm_get (is_volatile s) key
                  else or_else (jm_get (ks_items k) key) (jm_get (is_volatile s) key))"

definition kv_write :: "string \<Rightarrow> string \<Rightarrow> identity_store \<Rightarrow> identity_store" where
  "kv_write key v s =
     s\<lparr>is_volatile := jm_set key v (is_volatile s),
       is_store := map_option (\<lambda>k. if ks_setThrows k then k else k\<lparr>ks_items := jm_set key v (ks_items k)\<rparr>) (is_store s)\<rparr>"

definition kv_remove_item :: "string \<Rightarrow> identity_store \<Rightarrow> identity_store" where
  "kv_remove_item key s =
     s\<lparr>is_volatile := jm_delete key (is_volatile s),
       is_store := map_option (\<lambda>k. if ks_setThrows k then k else k\<lparr>ks_items := jm_delete key (ks_items k)\<rparr>) (is_store s)\<rparr>"

subsection \<open>Device id\<close>

definition uuid_char :: "char \<Rightarrow> bool" where
  "uuid_char c \<longleftrightarrow> c \<in> set ''0123456789abcdefABCDEF''"

text \<open>Whether a string is a dash or hex digit where \<open>UUID_RE\<close> wants one.\<close>

definition is_uuid :: "string \<Rightarrow> bool" where
  "is_uuid s \<longleftrightarrow> length s = 36 \<and>
     list_all (\<lambda>i. if i \<in> {8, 13, 18, 23} then s ! i = CHR ''-'' else uuid_char (s ! i)) [0..<36]"

definition get_device_id :: "string \<Rightarrow> identity_store \<Rightarrow> string \<times> identity_store" where
  "get_device_id fresh s =
     (case kv_read device_id_key s of
        Some d \<Rightarrow> if d \<noteq> [] \<and> is_uuid d then (d, s) else (fresh, kv_write device_id_key fresh s)
      | None \<Rightarrow> (fresh, kv_write device_id_key fresh s))"

subsection \<open>Nicknames\<close>

type_synonym utf16 = "nat list"

definition unit_space :: "nat \<Rightarrow> bool" where
  "unit_space u \<longleftrightarrow> u \<in> {9, 10, 11, 12, 13, 32, 0xA0, 0x1680, 0x2028, 0x2029, 0x202F, 0x205F, 0x3000, 0xFEFF} \<or> (0x2000 \<le> u \<and> u \<le> 0x200A)"

definition unit_trim :: "utf16 \<Rightarrow> utf16" where
  "unit_trim s = rev (dropWhile unit_space (rev (dropWhile unit_space s)))"

definition nickname_max_length :: nat where "nickname_max_length = 48"

definition high_surrogate :: "nat \<Rightarrow> bool" where
  "high_surrogate u \<longleftrightarrow> 0xD800 \<le> u \<and> u \<le> 0xDBFF"

definition low_surrogate :: "nat \<Rightarrow> bool" where
  "low_surrogate u \<longleftrightarrow> 0xDC00 \<le> u \<and> u \<le> 0xDFFF"

definition normalize_units :: "utf16 \<Rightarrow> utf16" where
  "normalize_units raw =
     (let name = take nickname_max_length (unit_trim raw);
          name = (if name \<noteq> [] \<and> high_surrogate (last name) then butlast name else name)
      in unit_trim name)"

text \<open>Names whose characters have one unit each.\<close>

definition normalize_nickname :: "string \<Rightarrow> string" where
  "normalize_nickname s = map char_of (normalize_units (map of_char s))"

definition get_nickname :: "identity_store \<Rightarrow> string option" where
  "get_nickname s =
     (case kv_read nickname_key s of
        None \<Rightarrow> None
      | Some v \<Rightarrow> let n = normalize_nickname v in if n = [] then None else Some n)"

definition set_nickname :: "string \<Rightarrow> identity_store \<Rightarrow> identity_store" where
  "set_nickname name s =
     (let n = normalize_nickname name in if n \<noteq> [] then kv_write nickname_key n s else kv_remove_item nickname_key s)"

subsection \<open>The desk's own recorder\<close>

definition derive_pad :: "byte list" where
  "derive_pad = map (of_nat \<circ> of_char) ''antiphon-input.1''"

fun hex_val :: "char \<Rightarrow> nat option" where
  "hex_val c = (if CHR ''0'' \<le> c \<and> c \<le> CHR ''9'' then Some (of_char c - 48)
     else if CHR ''a'' \<le> c \<and> c \<le> CHR ''f'' then Some (of_char c - 87) else None)"

definition hex_of :: "nat \<Rightarrow> char" where
  "hex_of n = ''0123456789abcdef'' ! n"

fun hex_pairs :: "string \<Rightarrow> byte list option" where
  "hex_pairs [] = Some []"
| "hex_pairs (a # b # cs) =
     (case (hex_val a, hex_val b, hex_pairs cs) of
        (Some x, Some y, Some bs) \<Rightarrow> Some (of_nat (16 * x + y) # bs) | _ \<Rightarrow> None)"
| "hex_pairs [_] = None"

definition lower_char :: "char \<Rightarrow> char" where
  "lower_char c = (if CHR ''A'' \<le> c \<and> c \<le> CHR ''Z'' then char_of (of_char c + 32 :: nat) else c)"

text \<open>The pad over the bytes, stamped as a version 4 UUID.\<close>

definition derive_bytes :: "byte list \<Rightarrow> byte list" where
  "derive_bytes bs =
     (let bs = map2 (XOR) bs derive_pad
      in bs[6 := ((bs ! 6) AND 0x0F) OR 0x40, 8 := ((bs ! 8) AND 0x3F) OR 0x80])"

definition byte_hex :: "byte \<Rightarrow> string" where
  "byte_hex b = [hex_of (unat b div 16), hex_of (unat b mod 16)]"

definition with_dashes :: "string \<Rightarrow> string" where
  "with_dashes out = take 8 out @ ''-'' @ take 4 (drop 8 out) @ ''-'' @ take 4 (drop 12 out) @ ''-'' @ take 4 (drop 16 out) @ ''-'' @ drop 20 out"

definition derive_desk_input_device_id :: "string \<Rightarrow> string option" where
  "derive_desk_input_device_id d =
     (let hex = map lower_char (filter (\<lambda>c. c \<noteq> CHR ''-'') d)
      in if length hex \<noteq> 32 then None
         else map_option (\<lambda>bs. with_dashes (concat (map byte_hex (derive_bytes bs)))) (hex_pairs hex))"

definition default_desk_input_label :: "string \<Rightarrow> string" where
  "default_desk_input_label l = (let t = js_trim l in if t \<noteq> [] then ''Room mic ('' @ t @ '')'' else ''Room mic'')"

subsection \<open>Properties\<close>

definition trimmed :: "utf16 \<Rightarrow> bool" where
  "trimmed s \<longleftrightarrow> s = [] \<or> \<not> unit_space (hd s) \<and> \<not> unit_space (last s)"

definition trim_end :: "utf16 \<Rightarrow> utf16" where
  "trim_end s = rev (dropWhile unit_space (rev s))"

lemma unit_trim_split: "unit_trim s = trim_end (dropWhile unit_space s)"
  by (simp add: unit_trim_def trim_end_def)

lemma trim_end_snoc: "trim_end (s @ [u]) = (if unit_space u then trim_end s else s @ [u])"
  by (simp add: trim_end_def)

lemma trim_end_prefix: "\<exists>t. s = trim_end s @ t \<and> list_all unit_space t"
proof (induction s rule: rev_induct)
  case (snoc u s)
  then obtain t where "s = trim_end s @ t" "list_all unit_space t" by blast
  then show ?case by (cases "unit_space u") (auto simp: trim_end_snoc intro: exI [of _ "t @ [u]"])
qed (simp add: trim_end_def)

lemma trim_end_last: "trim_end s \<noteq> [] \<Longrightarrow> \<not> unit_space (last (trim_end s))"
  by (induction s rule: rev_induct) (auto simp: trim_end_snoc trim_end_def)

lemma trimmed_unit_trim: "trimmed (unit_trim s)"
proof (cases "unit_trim s = []")
  case False
  define d where "d = dropWhile unit_space s"
  obtain t where t: "d = trim_end d @ t" using trim_end_prefix by blast
  have ne: "trim_end d \<noteq> []" using False by (simp add: unit_trim_split d_def)
  then have "d \<noteq> []" using t by auto
  then have "\<not> unit_space (hd d)" unfolding d_def by (rule hd_dropWhile)
  moreover have "hd d = hd (trim_end d)" using t ne by (metis hd_append)
  ultimately show ?thesis using trim_end_last [OF ne] by (simp add: trimmed_def unit_trim_split d_def)
qed (simp add: trimmed_def)

lemma unit_trim_id: "trimmed s \<Longrightarrow> unit_trim s = s"
proof (cases s rule: rev_cases)
  case (snoc xs u)
  assume "trimmed s"
  then have h: "\<not> unit_space (hd s)" and l: "\<not> unit_space u" using snoc by (auto simp: trimmed_def)
  have "dropWhile unit_space s = s" by (simp add: dropWhile_eq_self_iff h)
  then show ?thesis using l by (simp add: unit_trim_split snoc trim_end_snoc)
qed (simp add: unit_trim_def)

text \<open>Surrogates in pairs.\<close>

fun wf16 :: "utf16 \<Rightarrow> bool" where
  "wf16 [] \<longleftrightarrow> True"
| "wf16 (u # us) \<longleftrightarrow>
     (if high_surrogate u then (case us of [] \<Rightarrow> False | v # vs \<Rightarrow> low_surrogate v \<and> wf16 vs) else \<not> low_surrogate u \<and> wf16 us)"

lemma low_not_high: "low_surrogate u \<Longrightarrow> \<not> high_surrogate u"
  by (simp add: low_surrogate_def high_surrogate_def)

lemma space_no_surrogate: "unit_space u \<Longrightarrow> \<not> high_surrogate u \<and> \<not> low_surrogate u"
  by (auto simp: unit_space_def high_surrogate_def low_surrogate_def)

lemma wf16_last: "wf16 s \<Longrightarrow> s \<noteq> [] \<Longrightarrow> \<not> high_surrogate (last s)"
  by (induction s rule: wf16.induct) (auto split: list.splits if_splits dest: low_not_high)

lemma wf16_dropWhile: "wf16 s \<Longrightarrow> wf16 (dropWhile unit_space s)"
  by (induction s) (auto dest: space_no_surrogate split: if_splits)

lemma wf16_init: "wf16 (s @ [u]) \<Longrightarrow> unit_space u \<Longrightarrow> wf16 s"
proof (induction s rule: wf16.induct)
  case (2 w us)
  then show ?case using space_no_surrogate [of u] by (cases us) (auto split: if_splits)
qed simp

lemma wf16_trim_end: "wf16 s \<Longrightarrow> wf16 (trim_end s)"
proof (induction s rule: rev_induct)
  case (snoc u s)
  then show ?case using wf16_init [of s u] by (simp add: trim_end_snoc)
qed (simp add: trim_end_def)

lemma wf16_unit_trim: "wf16 s \<Longrightarrow> wf16 (unit_trim s)"
  by (simp add: unit_trim_split wf16_trim_end wf16_dropWhile)

text \<open>A cut leaves pairs whole, or one high surrogate at its end.\<close>

lemma wf16_take: "wf16 s \<Longrightarrow> wf16 (take n s) \<or> take n s \<noteq> [] \<and> high_surrogate (last (take n s)) \<and> wf16 (butlast (take n s))"
proof (induction s arbitrary: n rule: wf16.induct)
  case (2 u us)
  show ?case
  proof (cases n)
    case (Suc m)
    show ?thesis
    proof (cases "high_surrogate u")
      case False
      then show ?thesis using "2.IH"(2) [OF False, of m] "2.prems" Suc by auto
    next
      case True
      then obtain v vs where us: "us = v # vs" "low_surrogate v" "wf16 vs" using "2.prems" by (auto split: list.splits)
      show ?thesis
      proof (cases m)
        case 0
        then show ?thesis using True Suc us by simp
      next
        case (Suc k)
        then show ?thesis using "2.IH"(1) [OF True us(1,3), of k] True us \<open>n = Suc m\<close> by auto
      qed
    qed
  qed simp
qed simp

text \<open>A nickname that is committed is in normal form: trimmed, at most 48 UTF-16 units, surrogates still in pairs, and
  left alone by being normalised again, whatever well-formed text was pasted.\<close>

theorem nickname_normal:
  assumes "wf16 raw"
  shows "trimmed (normalize_units raw) \<and> length (normalize_units raw) \<le> 48 \<and> wf16 (normalize_units raw)
     \<and> normalize_units (normalize_units raw) = normalize_units raw"
proof -
  define cut where "cut = take nickname_max_length (unit_trim raw)"
  define whole where "whole = (if cut \<noteq> [] \<and> high_surrogate (last cut) then butlast cut else cut)"
  define n where "n = normalize_units raw"
  have n: "n = unit_trim whole" by (simp add: n_def normalize_units_def Let_def cut_def whole_def)
  have "wf16 cut \<or> cut \<noteq> [] \<and> high_surrogate (last cut) \<and> wf16 (butlast cut)"
    unfolding cut_def by (rule wf16_take [OF wf16_unit_trim [OF assms]])
  then have whole: "wf16 whole" using wf16_last [of cut] by (auto simp: whole_def)
  have "length whole \<le> 48" by (auto simp: whole_def cut_def nickname_max_length_def)
  moreover have "length n \<le> length whole"
  proof -
    obtain t where "dropWhile unit_space whole = trim_end (dropWhile unit_space whole) @ t" using trim_end_prefix by blast
    then have "length n \<le> length (dropWhile unit_space whole)" unfolding n unit_trim_split by (metis length_append le_add1)
    then show ?thesis using length_dropWhile_le [of unit_space whole] by linarith
  qed
  ultimately have len: "length n \<le> 48" by linarith
  have t: "trimmed n" and w: "wf16 n" using trimmed_unit_trim wf16_unit_trim [OF whole] by (simp_all add: n)
  have "take nickname_max_length (unit_trim n) = n" using len by (simp add: unit_trim_id [OF t] nickname_max_length_def)
  then have "normalize_units n = n" using wf16_last [OF w] unit_trim_id [OF t] by (auto simp: normalize_units_def Let_def)
  with t len w show ?thesis by (simp add: n_def)
qed

text \<open>A pair across the cut goes whole.\<close>

theorem nickname_normal_witness: "normalize_units (replicate 47 97 @ [0xD83C, 0xDFA4]) = replicate 47 97 \<and> wf16 (replicate 47 97)"
proof -
  let ?raw = "replicate 47 97 @ [0xD83C, 0xDFA4]"
  have rep: "wf16 (replicate n 97 @ us) = wf16 us" for n us
    by (induction n) (simp_all add: high_surrogate_def low_surrogate_def)
  have raw: "wf16 ?raw" by (simp add: rep high_surrogate_def low_surrogate_def)
  have trim: "unit_trim ?raw = ?raw" "unit_trim (replicate 47 97) = replicate 47 97"
    by (intro unit_trim_id, simp add: trimmed_def unit_space_def)+
  have n: "normalize_units ?raw = replicate 47 97"
    by (simp add: normalize_units_def trim nickname_max_length_def high_surrogate_def Let_def butlast_append)
  from nickname_normal [OF raw] show ?thesis unfolding n by blast
qed

end
