(* ===== verification/Signaling_Client.thy ===== *)
theory Signaling_Client
  imports Protocol Device_Identity
begin

text \<open>
  The control connection of a page, \<open>apps/web/src/net/signaling-client.ts\<close>: one WebSocket after another with a hello on
  each, reconnection with a growing delay, and a halt on fatal errors that only \<open>reopen\<close> ends. Sockets, timers and the
  token of a desk are the environment; the events of a socket reach the client however old the socket is.
\<close>

subsection \<open>State\<close>

record client_state =
  cs_connected :: bool
  cs_peerId :: "string option"
  cs_session :: "session_state option"
  cs_fatal :: "(string \<times> string) option"

record signaling_client =
  sc_role :: peer_role
  sc_sessionId :: string
  sc_label :: "string option"
  sc_deviceId :: "string option"
  sc_accountIdentity :: bool
  sc_ws :: "nat option"
  sc_closed :: bool
  sc_attempts :: nat
  sc_state :: client_state

record auth_user =
  au_email :: "string option"
  au_imageUrl :: "string option"

text \<open>What a page knows when a socket opens: the account, the user agent and this browser's device id.\<close>

record client_env =
  cl_user :: "auth_user option"
  cl_userAgent :: string
  cl_deviceId :: string

definition reconnect_base_ms :: nat where "reconnect_base_ms = 1000"
definition reconnect_max_ms :: nat where "reconnect_max_ms = 8000"

definition new_client :: "peer_role \<Rightarrow> string \<Rightarrow> string option \<Rightarrow> string option \<Rightarrow> bool \<Rightarrow> signaling_client" where
  "new_client role sid lbl dev account =
     \<lparr>sc_role = role, sc_sessionId = sid, sc_label = lbl, sc_deviceId = dev, sc_accountIdentity = account, sc_ws = None,
      sc_closed = False, sc_attempts = 0,
      sc_state = \<lparr>cs_connected = False, cs_peerId = None, cs_session = None, cs_fatal = None\<rparr>\<rparr>"

text \<open>The address of a connection.\<close>

definition socket_path :: "signaling_client \<Rightarrow> string" where
  "socket_path c = ''/'' @ (if sc_role c = Desk then ''session'' else ''join'') @ ''/'' @ sc_sessionId c @ ''/ws''"

text \<open>The label a hello carries: the trimmed nickname, or a recorder's account address.\<close>

definition hello_label :: "client_env \<Rightarrow> signaling_client \<Rightarrow> string option" where
  "hello_label env c =
     (let account = if sc_accountIdentity c then cl_user env else None;
          nick = (case sc_label c of None \<Rightarrow> [] | Some l \<Rightarrow> js_trim l)
      in if nick \<noteq> [] then Some nick
         else if sc_role c = Recorder then Option.bind account au_email else None)"

definition hello_message :: "client_env \<Rightarrow> string option \<Rightarrow> string option \<Rightarrow> signaling_client \<Rightarrow> signaling_message" where
  "hello_message env lbl token c =
     (let account = if sc_accountIdentity c then cl_user env else None
      in Hello (sc_role c)
           \<lparr>userAgent = take 500 (cl_userAgent env), label = (if lbl = Some [] then None else lbl),
            deviceId = Some (case sc_deviceId c of None \<Rightarrow> cl_deviceId env | Some d \<Rightarrow> d),
            avatarUrl = (case Option.bind account au_imageUrl of Some u \<Rightarrow> if u = [] then None else Some u | None \<Rightarrow> None)\<rparr>
           [1] (if token = Some [] then None else token))"

text \<open>A renamed peer in the snapshot.\<close>

definition renamed_peer :: "string \<Rightarrow> string \<Rightarrow> peer_info \<Rightarrow> peer_info" where
  "renamed_peer i lbl q =
     (if pi_peerId q \<noteq> i then q
      else q\<lparr>pi_deviceInfo := (pi_deviceInfo q)\<lparr>label := (if lbl = [] then None else Some lbl)\<rparr>\<rparr>)"

text \<open>The client's part of a message: its new state, and whether it closes the socket.\<close>

definition client_message :: "signaling_message \<Rightarrow> client_state \<Rightarrow> bool \<times> client_state" where
  "client_message m s =
     (case m of
        ErrorMsg code text fatal \<Rightarrow>
          if fatal then (True, s\<lparr>cs_connected := False, cs_fatal := Some (code, text)\<rparr>) else (False, s)
      | Welcome pid v sess \<Rightarrow> (False, \<lparr>cs_connected = True, cs_peerId = Some pid, cs_session = Some sess, cs_fatal = None\<rparr>)
      | PeerStatus sess \<Rightarrow> (False, s\<lparr>cs_session := Some sess\<rparr>)
      | PeerUpdate i lbl \<Rightarrow>
          (False, s\<lparr>cs_session := map_option (\<lambda>t. t\<lparr>ss_peers := map (renamed_peer i lbl) (ss_peers t)\<rparr>) (cs_session s)\<rparr>)
      | _ \<Rightarrow> (False, s))"

text \<open>Whether the client publishes a state for a message.\<close>

definition client_notifies :: "signaling_message \<Rightarrow> client_state \<Rightarrow> bool" where
  "client_notifies m c =
     (case m of ErrorMsg _ _ fatal \<Rightarrow> fatal | Welcome _ _ _ \<Rightarrow> True | PeerStatus _ \<Rightarrow> True
      | PeerUpdate _ _ \<Rightarrow> cs_session c \<noteq> None | _ \<Rightarrow> False)"

definition reconnect_delay :: "nat \<Rightarrow> nat" where
  "reconnect_delay attempts = min reconnect_max_ms (reconnect_base_ms * 2 ^ attempts)"

subsection \<open>The client among its sockets\<close>

datatype ready = Connecting | Open | Closing | Closed

text \<open>
  The sockets ever made, in the order they were, the reconnects that wait, the hellos that wait for a token, and what was
  sent on which socket.
\<close>

record client_world =
  cl_client :: signaling_client
  cl_sockets :: "ready list"
  cl_timers :: "nat list"
  cl_hellos :: "(nat \<times> string option) list"
  cl_sent :: "(nat \<times> signaling_message) list"

definition client_start :: "signaling_client \<Rightarrow> client_world" where
  "client_start c = \<lparr>cl_client = c, cl_sockets = [], cl_timers = [], cl_hellos = [], cl_sent = []\<rparr>"

datatype client_event =
    ConnectCall
  | TimerFires nat
  | SocketOpens nat
  | DeadlinePasses nat
  | TokenArrives nat "string option"
  | SocketMessage nat "signaling_message option"
  | SocketErrors nat
  | SocketCloses nat
  | SendCall signaling_message
  | ReopenCall
  | CloseCall

definition set_state :: "client_state \<Rightarrow> client_world \<Rightarrow> client_world" where
  "set_state s w = w\<lparr>cl_client := (cl_client w)\<lparr>sc_state := s\<rparr>\<rparr>"

definition client_connect :: "client_world \<Rightarrow> client_world" where
  "client_connect w =
     (if sc_closed (cl_client w) \<or> cs_fatal (sc_state (cl_client w)) \<noteq> None then w
      else w\<lparr>cl_client := (cl_client w)\<lparr>sc_ws := Some (length (cl_sockets w))\<rparr>, cl_sockets := cl_sockets w @ [Connecting]\<rparr>)"

text \<open>\<open>close()\<close> on a socket.\<close>

definition close_socket :: "nat \<Rightarrow> client_world \<Rightarrow> client_world" where
  "close_socket i w =
     w\<lparr>cl_sockets := (cl_sockets w)[i := (if cl_sockets w ! i = Closed then Closed else Closing)]\<rparr>"

definition socket_is :: "client_world \<Rightarrow> nat \<Rightarrow> ready \<Rightarrow> bool" where
  "socket_is w i r \<longleftrightarrow> i < length (cl_sockets w) \<and> cl_sockets w ! i = r"

text \<open>\<open>sendRaw\<close>: only an open current socket takes it.\<close>

definition send_raw :: "signaling_message \<Rightarrow> client_world \<Rightarrow> client_world" where
  "send_raw m w =
     (case sc_ws (cl_client w) of None \<Rightarrow> w
      | Some i \<Rightarrow> if socket_is w i Open then w\<lparr>cl_sent := cl_sent w @ [(i, m)]\<rparr> else w)"

fun client_step :: "client_env \<Rightarrow> client_world \<Rightarrow> client_event \<Rightarrow> client_world" where
  "client_step env w ConnectCall = client_connect w"
| "client_step env w (TimerFires k) =
     (if k < length (cl_timers w) then client_connect (w\<lparr>cl_timers := take k (cl_timers w) @ drop (Suc k) (cl_timers w)\<rparr>) else w)"
| "client_step env w (SocketOpens i) =
     (if socket_is w i Connecting
      then w\<lparr>cl_sockets := (cl_sockets w)[i := Open], cl_client := (cl_client w)\<lparr>sc_attempts := 0\<rparr>,
             cl_hellos := cl_hellos w @ [(i, hello_label env (cl_client w))]\<rparr>
      else w)"
| "client_step env w (DeadlinePasses i) = (if socket_is w i Connecting then close_socket i w else w)"
| "client_step env w (TokenArrives k token) =
     (if k < length (cl_hellos w)
      then let (i, lbl) = cl_hellos w ! k;
               v = w\<lparr>cl_hellos := take k (cl_hellos w) @ drop (Suc k) (cl_hellos w)\<rparr>;
               tok = (if sc_role (cl_client w) = Desk then token else None)
           in if sc_ws (cl_client w) \<noteq> Some i \<or> \<not> socket_is w i Open then v
              else send_raw (hello_message env lbl tok (cl_client w)) v
      else w)"
| "client_step env w (SocketMessage i None) = w"
| "client_step env w (SocketMessage i (Some m)) =
     (if socket_is w i Open
      then let (closes, s) = client_message m (sc_state (cl_client w)); v = set_state s w
           in if closes then close_socket i v else v
      else w)"
| "client_step env w (SocketErrors i) = (if socket_is w i Connecting \<or> socket_is w i Open then close_socket i w else w)"
| "client_step env w (SocketCloses i) =
     (if i < length (cl_sockets w) \<and> cl_sockets w ! i \<noteq> Closed
      then let c = cl_client w; s = (sc_state c)\<lparr>cs_connected := False, cs_peerId := None\<rparr>;
               v = w\<lparr>cl_sockets := (cl_sockets w)[i := Closed], cl_client := c\<lparr>sc_state := s\<rparr>\<rparr>
           in if \<not> sc_closed c \<and> cs_fatal s = None
              then v\<lparr>cl_timers := cl_timers w @ [reconnect_delay (sc_attempts c)],
                     cl_client := (cl_client v)\<lparr>sc_attempts := sc_attempts c + 1\<rparr>\<rparr>
              else v
      else w)"
| "client_step env w (SendCall m) = send_raw m w"
| "client_step env w ReopenCall =
     (let c = cl_client w
      in if sc_closed c \<or> cs_fatal (sc_state c) = None then w
         else client_connect (w\<lparr>cl_client := c\<lparr>sc_attempts := 0, sc_state := (sc_state c)\<lparr>cs_fatal := None\<rparr>\<rparr>\<rparr>))"
| "client_step env w CloseCall =
     (let v = w\<lparr>cl_client := (cl_client w)\<lparr>sc_closed := True\<rparr>\<rparr>
      in case sc_ws (cl_client w) of None \<Rightarrow> v | Some i \<Rightarrow> close_socket i v)"

subsection \<open>One connection at a time\<close>

text \<open>Sockets that are not closed, and reconnects that wait.\<close>

definition live_count :: "client_world \<Rightarrow> nat" where
  "live_count w = length (filter (\<lambda>r. r \<noteq> Closed) (cl_sockets w)) + length (cl_timers w)"

definition delays_ok :: "nat list \<Rightarrow> bool" where
  "delays_ok ts \<longleftrightarrow> list_all (\<lambda>d. reconnect_base_ms \<le> d \<and> d \<le> reconnect_max_ms) ts"

text \<open>
  The socket the client holds, the sockets ever made, the reconnects that wait, and whether the client counts as
  connected: only the newest socket may be alive, it is the held one, and no reconnect waits beside it.
\<close>

definition conn_ok :: "nat option \<Rightarrow> ready list \<Rightarrow> nat list \<Rightarrow> bool \<Rightarrow> bool" where
  "conn_ok ws ss ts up \<longleftrightarrow> delays_ok ts \<and>
     (if ss = [] then ws = None \<and> length ts \<le> 1 \<and> \<not> up
      else ws = Some (length ss - 1) \<and> list_all (\<lambda>r. r = Closed) (butlast ss)
         \<and> (if last ss = Closed then length ts \<le> 1 else ts = []) \<and> (up \<longrightarrow> last ss \<in> {Open, Closing}))"

definition client_inv :: "client_world \<Rightarrow> bool" where
  "client_inv w \<longleftrightarrow>
     conn_ok (sc_ws (cl_client w)) (cl_sockets w) (cl_timers w) (cs_connected (sc_state (cl_client w)))"

text \<open>The callers' part: connect once, and reopen only when nothing is left of the connection that was halted.\<close>

fun client_calls :: "client_world \<Rightarrow> client_event \<Rightarrow> bool" where
  "client_calls w ConnectCall \<longleftrightarrow> live_count w = 0"
| "client_calls w ReopenCall \<longleftrightarrow> cs_fatal (sc_state (cl_client w)) = None \<or> live_count w = 0"
| "client_calls w _ \<longleftrightarrow> True"

lemma delays_ok_simps [simp]:
  "delays_ok []" "delays_ok (d # ts) \<longleftrightarrow> reconnect_base_ms \<le> d \<and> d \<le> reconnect_max_ms \<and> delays_ok ts"
  "delays_ok (as @ bs) \<longleftrightarrow> delays_ok as \<and> delays_ok bs"
  by (simp_all add: delays_ok_def)

lemma reconnect_delay_bounds [simp]: "reconnect_base_ms \<le> reconnect_delay n" "reconnect_delay n \<le> reconnect_max_ms"
  by (simp_all add: reconnect_delay_def reconnect_base_ms_def reconnect_max_ms_def)

lemma conn_ok_Nil [simp]: "conn_ok ws [] ts up \<longleftrightarrow> delays_ok ts \<and> ws = None \<and> length ts \<le> 1 \<and> \<not> up"
  by (auto simp: conn_ok_def)

lemma conn_ok_snoc [simp]:
  "conn_ok ws (cs @ [r]) ts up \<longleftrightarrow> delays_ok ts \<and> ws = Some (length cs) \<and> list_all (\<lambda>r. r = Closed) cs
     \<and> (if r = Closed then length ts \<le> 1 else ts = []) \<and> (up \<longrightarrow> r \<in> {Open, Closing})"
  by (auto simp: conn_ok_def)

lemma delays_ok_remove: "delays_ok ts \<Longrightarrow> delays_ok (take k ts @ drop (Suc k) ts)"
  by (auto simp: delays_ok_def list_all_iff dest: in_set_takeD in_set_dropD)

lemma conn_ok_cases:
  assumes "conn_ok ws ss ts up"
  obtains "ss = []" | cs r where "ss = cs @ [r]" "list_all (\<lambda>r. r = Closed) cs" "ws = Some (length cs)"
  using assms by (cases ss rule: rev_cases) auto

text \<open>A socket that is not closed is the newest one.\<close>

lemma conn_ok_alive:
  assumes "conn_ok ws ss ts up" "i < length ss" "ss ! i \<noteq> Closed"
  obtains cs r where "ss = cs @ [r]" "i = length cs" "r \<noteq> Closed" "list_all (\<lambda>r. r = Closed) cs"
  using assms by (cases ss rule: rev_cases) (auto simp: list_all_length nth_append less_Suc_eq split: if_splits)

text \<open>What changes the newest socket.\<close>

lemma conn_ok_move:
  assumes ok: "conn_ok ws ss ts up" and i: "i < length ss" "ss ! i \<noteq> Closed"
  shows "r' \<noteq> Closed \<Longrightarrow> up' \<longrightarrow> r' \<in> {Open, Closing} \<Longrightarrow> conn_ok ws (ss[i := r']) ts up'"
    and "conn_ok ws (ss[i := Closed]) ts False"
    and "conn_ok ws (ss[i := Closed]) (ts @ [reconnect_delay n]) False"
proof -
  obtain cs r where ss: "ss = cs @ [r]" "i = length cs" "r \<noteq> Closed" "list_all (\<lambda>r. r = Closed) cs"
    using conn_ok_alive [OF ok i] .
  show "r' \<noteq> Closed \<Longrightarrow> up' \<longrightarrow> r' \<in> {Open, Closing} \<Longrightarrow> conn_ok ws (ss[i := r']) ts up'"
    and "conn_ok ws (ss[i := Closed]) ts False"
    and "conn_ok ws (ss[i := Closed]) (ts @ [reconnect_delay n]) False"
    using ok ss by auto
qed

lemma live_count_zero: "live_count w = 0 \<longleftrightarrow> list_all (\<lambda>r. r = Closed) (cl_sockets w) \<and> cl_timers w = []"
  by (auto simp: live_count_def list_all_iff filter_empty_conv)

lemma conn_ok_connect:
  assumes "conn_ok ws ss [] up" "list_all (\<lambda>r. r = Closed) ss"
  shows "\<not> up" "conn_ok (Some (length ss)) (ss @ [Connecting]) [] False"
  using assms by (cases ss rule: rev_cases; simp add: conn_ok_def butlast_append)+

lemma connect_inv: "client_inv w \<Longrightarrow> live_count w = 0 \<Longrightarrow> client_inv (client_connect w)"
  using conn_ok_connect [of "sc_ws (cl_client w)" "cl_sockets w" "cs_connected (sc_state (cl_client w))"]
  by (auto simp: client_inv_def client_connect_def live_count_zero)

lemma fired_inv:
  assumes inv: "client_inv w" and k: "k < length (cl_timers w)"
  shows "client_inv (client_connect (w\<lparr>cl_timers := take k (cl_timers w) @ drop (Suc k) (cl_timers w)\<rparr>))"
proof -
  have w: "length (cl_timers w) \<le> 1" "list_all (\<lambda>r. r = Closed) (cl_sockets w)"
    using inv k by (cases "cl_sockets w" rule: rev_cases; auto simp: client_inv_def split: if_splits)+
  then have none: "take k (cl_timers w) @ drop (Suc k) (cl_timers w) = []" using k by simp
  have "conn_ok (sc_ws (cl_client w)) (cl_sockets w) [] (cs_connected (sc_state (cl_client w)))"
    using inv by (cases "cl_sockets w" rule: rev_cases) (auto simp: client_inv_def split: if_splits)
  then show ?thesis unfolding none by (intro connect_inv) (simp_all add: client_inv_def live_count_zero w)
qed

lemma close_socket_inv:
  assumes "client_inv w" "i < length (cl_sockets w)"
    and "cs_connected (sc_state (cl_client w)) \<longrightarrow> cl_sockets w ! i \<noteq> Connecting"
  shows "client_inv (close_socket i w)"
proof (cases "cl_sockets w ! i = Closed")
  case True
  then have "(cl_sockets w)[i := Closed] = cl_sockets w" by (metis list_update_id)
  with True assms(1) show ?thesis by (simp add: client_inv_def close_socket_def)
next
  case False
  with assms show ?thesis by (simp add: client_inv_def close_socket_def conn_ok_move(1))
qed

lemma send_raw_inv: "client_inv w \<Longrightarrow> client_inv (send_raw m w)"
  by (cases "sc_ws (cl_client w)") (simp_all add: client_inv_def send_raw_def)

lemma connecting_is_down:
  assumes "client_inv w" "socket_is w i Connecting"
  shows "\<not> cs_connected (sc_state (cl_client w))"
proof -
  have ok: "conn_ok (sc_ws (cl_client w)) (cl_sockets w) (cl_timers w) (cs_connected (sc_state (cl_client w)))"
    using assms(1) by (simp add: client_inv_def)
  have "i < length (cl_sockets w)" "cl_sockets w ! i \<noteq> Closed" using assms(2) by (simp_all add: socket_is_def)
  from conn_ok_alive [OF ok this] obtain cs r where "cl_sockets w = cs @ [r]" "i = length cs" .
  with ok assms(2) show ?thesis by (auto simp: socket_is_def)
qed

lemma close_kept_inv:
  assumes "client_inv w" "i < length (cl_sockets w)"
  shows "client_inv (close_socket i w)"
proof (rule close_socket_inv [OF assms])
  show "cs_connected (sc_state (cl_client w)) \<longrightarrow> cl_sockets w ! i \<noteq> Connecting"
    using connecting_is_down [OF assms(1), of i] assms(2) by (auto simp: socket_is_def)
qed

lemma message_inv:
  assumes inv: "client_inv w" and op: "socket_is w i Open"
  shows "client_inv (client_step env w (SocketMessage i (Some m)))"
proof -
  obtain closes s where m: "client_message m (sc_state (cl_client w)) = (closes, s)" by fastforce
  have i: "i < length (cl_sockets w)" "cl_sockets w ! i \<noteq> Closed" "cl_sockets w ! i = Open"
    using op by (simp_all add: socket_is_def)
  have "conn_ok (sc_ws (cl_client w)) ((cl_sockets w)[i := Open]) (cl_timers w) (cs_connected s)"
    using inv i by (intro conn_ok_move(1)) (auto simp: client_inv_def)
  then have "client_inv (set_state s w)" using i(3) list_update_id [of "cl_sockets w" i] by (simp add: client_inv_def set_state_def)
  with m op i show ?thesis by (simp add: Let_def close_kept_inv set_state_def)
qed

lemma closes_inv:
  assumes inv: "client_inv w"
  shows "client_inv (client_step env w (SocketCloses i))"
  using inv by (simp add: client_inv_def Let_def conn_ok_move)

lemma opens_inv:
  assumes inv: "client_inv w"
  shows "client_inv (client_step env w (SocketOpens i))"
  using inv connecting_is_down [OF inv, of i] by (auto simp: client_inv_def socket_is_def conn_ok_move)

interpretation client_machine: guarded_machine "client_step env" client_inv client_calls for env
proof
  fix w ev
  assume inv: "client_inv w" and calls: "client_calls w ev"
  show "client_inv (client_step env w ev)"
  proof (cases ev)
    case (SocketMessage i m)
    then show ?thesis using message_inv [OF inv, of i env] inv by (cases m) (auto simp: Let_def)
  next
    case (TokenArrives k token)
    then show ?thesis using inv by (auto simp: Let_def client_inv_def send_raw_def split: prod.split option.split)
  next
    case (SocketOpens i)
    then show ?thesis using opens_inv [OF inv] by blast
  next
    case (SocketCloses i)
    then show ?thesis using closes_inv [OF inv] by blast
  next
    case ReopenCall
    let ?v = "w\<lparr>cl_client := (cl_client w)\<lparr>sc_attempts := 0, sc_state := (sc_state (cl_client w))\<lparr>cs_fatal := None\<rparr>\<rparr>\<rparr>"
    have "client_inv ?v" using inv by (simp add: client_inv_def)
    moreover have "live_count ?v = live_count w" by (simp add: live_count_def)
    ultimately show ?thesis using ReopenCall calls inv connect_inv [of ?v] by (auto simp: Let_def)
  next
    case CloseCall
    let ?v = "w\<lparr>cl_client := (cl_client w)\<lparr>sc_closed := True\<rparr>\<rparr>"
    have v: "client_inv ?v" using inv by (simp add: client_inv_def)
    show ?thesis
    proof (cases "sc_ws (cl_client w)")
      case (Some i)
      then have "i < length (cl_sockets ?v)" using inv by (cases "cl_sockets w" rule: rev_cases) (auto simp: client_inv_def)
      with close_kept_inv [OF v] Some CloseCall show ?thesis by (simp add: Let_def)
    qed (use v CloseCall in \<open>simp add: Let_def\<close>)
  qed (use inv calls in \<open>auto simp del: client_step.simps(9) simp: connect_inv fired_inv send_raw_inv close_kept_inv socket_is_def\<close>)
qed

lemma conn_ok_single:
  assumes "conn_ok ws ss ts up"
  shows "length (filter (\<lambda>r. r \<noteq> Closed) ss) + length ts \<le> 1"
    and "up \<Longrightarrow> \<exists>i. ws = Some i \<and> i < length ss \<and> ss ! i \<in> {Open, Closing}"
    and "i < length ss \<Longrightarrow> ws \<noteq> Some i \<Longrightarrow> ss ! i = Closed"
  using assms
  by (cases ss rule: rev_cases; auto simp: list_all_iff filter_empty_conv nth_append less_Suc_eq split: if_splits)+

text \<open>C34. A page keeps one control connection. However opens, handshake deadlines, tokens, messages, fatal errors, errors,
  closes and timers interleave, there is never more than one socket that is not closed or reconnect that waits, taken
  together; a client that says it is connected holds a socket that opened; every other socket is closed; and every
  reconnect waits between one and eight seconds.\<close>

theorem one_connection:
  assumes "legal (client_step env) client_calls (client_start (new_client role sid lbl dev account)) evs"
  defines "w \<equiv> run (client_step env) (client_start (new_client role sid lbl dev account)) evs"
  shows "live_count w \<le> 1
     \<and> (cs_connected (sc_state (cl_client w)) \<longrightarrow>
          (\<exists>i. sc_ws (cl_client w) = Some i \<and> i < length (cl_sockets w) \<and> cl_sockets w ! i \<in> {Open, Closing}))
     \<and> (\<forall>i < length (cl_sockets w). sc_ws (cl_client w) \<noteq> Some i \<longrightarrow> cl_sockets w ! i = Closed)
     \<and> list_all (\<lambda>d. 1000 \<le> d \<and> d \<le> 8000) (cl_timers w)"
proof -
  have "client_inv (client_start (new_client role sid lbl dev account))"
    by (simp add: client_inv_def client_start_def new_client_def)
  then have "client_inv w" unfolding w_def by (rule client_machine.run_guarded) (rule assms(1))
  then have ok: "conn_ok (sc_ws (cl_client w)) (cl_sockets w) (cl_timers w) (cs_connected (sc_state (cl_client w)))"
    by (simp add: client_inv_def)
  then have "delays_ok (cl_timers w)" by (simp add: conn_ok_def)
  then have "list_all (\<lambda>d. 1000 \<le> d \<and> d \<le> 8000) (cl_timers w)"
    by (simp add: delays_ok_def reconnect_base_ms_def reconnect_max_ms_def)
  with conn_ok_single [OF ok] show ?thesis by (auto simp: live_count_def)
qed

text \<open>A socket drops, its successor is superseded and halts, and the tab is taken over.\<close>

definition sample_client_env :: client_env where
  "sample_client_env = \<lparr>cl_user = None, cl_userAgent = ''ua'', cl_deviceId = ''dev''\<rparr>"

definition taken_over :: "client_event list" where
  "taken_over = [ConnectCall, SocketOpens 0, SocketErrors 0, SocketCloses 0, TimerFires 0, SocketOpens 1,
     SocketMessage 1 (Some (ErrorMsg ''superseded'' [] True)), SocketCloses 1, ReopenCall]"

lemmas client_eval = client_start_def new_client_def client_connect_def close_socket_def socket_is_def set_state_def
  client_message_def live_count_def reconnect_delay_def reconnect_base_ms_def reconnect_max_ms_def

theorem one_connection_witness:
  "\<exists>w. w = run (client_step sample_client_env) (client_start (new_client Recorder ''s'' None None True)) taken_over
     \<and> cl_sockets w = [Closed, Closed, Connecting] \<and> live_count w \<le> 1"
proof -
  define w where "w = run (client_step sample_client_env) (client_start (new_client Recorder ''s'' None None True)) taken_over"
  have "legal (client_step sample_client_env) client_calls (client_start (new_client Recorder ''s'' None None True)) taken_over"
    by (simp add: taken_over_def client_eval Let_def)
  from one_connection [OF this, folded w_def] have "live_count w \<le> 1" by blast
  moreover have "cl_sockets w = [Closed, Closed, Connecting]" by (simp add: w_def taken_over_def client_eval Let_def)
  ultimately show ?thesis unfolding w_def by blast
qed

text \<open>
  A tab taken over before the halted socket has closed: its close finds the error cleared, so it schedules a reconnect beside
  the new connection, and the hello of the third socket supersedes the second.
\<close>

lemma reopen_before_close:
  "let w = run (client_step env) (client_start (new_client Recorder sid lbl dev account))
     [ConnectCall, SocketOpens 0, SocketMessage 0 (Some (ErrorMsg code txt True)), ReopenCall, SocketCloses 0, SocketOpens 1,
      TimerFires 0]
   in cl_sockets w = [Closed, Open, Connecting] \<and> sc_ws (cl_client w) = Some 2"
  by (simp add: client_eval)

end
