(* ===== verification/Recorder_Session.thy ===== *)
theory Recorder_Session
  imports Signaling_Client Take_Latch Sink_Worker "HOL-Library.Sublist"
begin

text \<open>
  The recorder's session, \<open>apps/web/src/net/recorder-session.ts\<close>: what it does to the capture controller and to the room on
  the control messages it hears, with a link to every sink it can reach. The calls it makes are kept in order; the capture
  controller, the signaling client and the browser carry them out. Offers (\<open>rtc.ts\<close>) settle when they like, and
  their closures name the link they were made for, whether it is still in use or not.
\<close>

subsection \<open>State\<close>

datatype session_call =
    Announces signaling_message
  | ArmTake arm_options
  | StopTake
  | AttachSink nat nat
  | SinkUp nat bool
  | AskDrain nat
  | Deliver nat bytes
  | TimePing nat
  | TeardownCapture
  | MakeOffer nat string string
  | Dispose nat
  | RetryIn nat
  | PersistLabel string
  | Reopens
  | ClosesSignaling
  | BadId

record recorder_session =
  rs_sig :: client_state
  rs_label :: "string option"
  rs_closed :: bool
  rs_store :: link_store
  rs_links :: "(nat, nat) jsmap"
  rs_outage :: "nat option"
  rs_take :: "string option"
  rs_stream :: "string option"
  rs_sittingOut :: "string option"
  rs_stopped :: "(string \<times> string) option"
  rs_fatalHandled :: bool
  rs_offers :: "nat list"
  rs_adopted :: "(nat \<times> nat) list"
  rs_calls :: "session_call list"

definition sink_server :: nat where "sink_server = 0"
definition sink_desk :: nat where "sink_desk = 1"
definition time_sync_interval_ms :: nat where "time_sync_interval_ms = 5000"
definition link_retry_ms :: nat where "link_retry_ms = 2000"

definition new_recorder_session :: "string option \<Rightarrow> recorder_session" where
  "new_recorder_session lbl =
     \<lparr>rs_sig = \<lparr>cs_connected = False, cs_peerId = None, cs_session = None, cs_fatal = None\<rparr>, rs_label = lbl,
      rs_closed = False, rs_store = [], rs_links = [], rs_outage = None, rs_take = None, rs_stream = None,
      rs_sittingOut = None, rs_stopped = None, rs_fatalHandled = False, rs_offers = [], rs_adopted = [], rs_calls = []\<rparr>"

definition say :: "session_call \<Rightarrow> recorder_session \<Rightarrow> recorder_session" where
  "say c s = s\<lparr>rs_calls := rs_calls s @ [c]\<rparr>"

text \<open>The bytes of an id; an id without 32 digits throws.\<close>

definition uuid_to_bytes :: "string \<Rightarrow> bytes option" where
  "uuid_to_bytes uuid =
     (let hex = filter (\<lambda>c. c \<noteq> CHR ''-'') uuid
      in if length hex \<noteq> 32 then None
         else Some (map (\<lambda>i. word_of_nat (parse_hex 0 (take 2 (drop (2 * i) hex)))) [0..<16]))"

subsection \<open>Links\<close>

definition chan_up :: "sink_link \<Rightarrow> bool" where
  "chan_up l \<longleftrightarrow> (case sk_channel l of None \<Rightarrow> False | Some c \<Rightarrow> dc_open c)"

definition set_link :: "nat \<Rightarrow> sink_link \<Rightarrow> recorder_session \<Rightarrow> recorder_session" where
  "set_link a l s = s\<lparr>rs_store := (rs_store s)[a := l]\<rparr>"

text \<open>\<open>teardownSinkLink\<close>, and the same for every link in turn.\<close>

definition teardown_link :: "nat \<Rightarrow> recorder_session \<Rightarrow> recorder_session" where
  "teardown_link a s =
     (let l = rs_store s ! a; s = say (SinkUp (sk_sinkId l) False) s; s = (if sk_dispose l then say (Dispose a) s else s)
      in set_link a (l\<lparr>sk_dispose := False, sk_channel := None, sk_connecting := False\<rparr>) s)"

fun teardown_links :: "nat list \<Rightarrow> recorder_session \<Rightarrow> recorder_session" where
  "teardown_links [] s = s"
| "teardown_links (a # as) s = teardown_links as (teardown_link a s)"

text \<open>\<open>adoptSinkChannel\<close>.\<close>

definition adopt_channel :: "nat \<Rightarrow> data_channel \<Rightarrow> recorder_session \<Rightarrow> recorder_session" where
  "adopt_channel a c s =
     (let l = rs_store s ! a
      in say (AskDrain (sk_sinkId l)) (say (SinkUp (sk_sinkId l) True)
           (set_link a (l\<lparr>sk_dispose := True, sk_channel := Some c, sk_connecting := False\<rparr>)
             (s\<lparr>rs_adopted := rs_adopted s @ [(a, dc_id c)]\<rparr>))))"

definition desk_peer_id :: "recorder_session \<Rightarrow> string option" where
  "desk_peer_id s =
     (case cs_session (rs_sig s) of None \<Rightarrow> None
      | Some t \<Rightarrow> map_option pi_peerId (find (\<lambda>q. pi_role q = Desk) (ss_peers t)))"

text \<open>A link for a sink, made and registered when there is none.\<close>

definition with_link :: "nat \<Rightarrow> string \<Rightarrow> string \<Rightarrow> recorder_session \<Rightarrow> nat \<times> recorder_session" where
  "with_link i target lbl s =
     (case jm_get (rs_links s) i of
        Some a \<Rightarrow> (a, s)
      | None \<Rightarrow> let a = length (rs_store s)
                in (a, say (AttachSink i a)
                         (s\<lparr>rs_store := rs_store s @ [new_sink_link i target lbl], rs_links := jm_set i a (rs_links s)\<rparr>)))"

definition ensure_link :: "nat \<Rightarrow> string \<Rightarrow> string \<Rightarrow> recorder_session \<Rightarrow> recorder_session" where
  "ensure_link i target lbl s =
     (let (a, s) = with_link i target lbl s; l = rs_store s ! a
      in if sk_connecting l \<or> chan_up l then s
         else say (MakeOffer a target lbl) ((set_link a (l\<lparr>sk_connecting := True\<rparr>) s)\<lparr>rs_offers := rs_offers s @ [a]\<rparr>))"

definition antiphon_channel :: string where "antiphon_channel = ''antiphon/1''"

text \<open>A desk that came back under another peer id: its old link is torn down and forgotten.\<close>

definition drop_stale_desk :: "string \<Rightarrow> recorder_session \<Rightarrow> recorder_session" where
  "drop_stale_desk deskId s =
     (case jm_get (rs_links s) sink_desk of None \<Rightarrow> s
      | Some a \<Rightarrow> if sk_target (rs_store s ! a) = deskId then s
                  else (let s = teardown_link a s in s\<lparr>rs_links := jm_delete sink_desk (rs_links s)\<rparr>))"

definition ensure_links :: "nat \<Rightarrow> recorder_session \<Rightarrow> recorder_session" where
  "ensure_links now s =
     (if (case rs_outage s of None \<Rightarrow> False | Some u \<Rightarrow> u \<noteq> 0 \<and> now < u) \<or> \<not> cs_connected (rs_sig s) then s
      else let s = ensure_link sink_server server_peer_id antiphon_channel s
           in case desk_peer_id s of None \<Rightarrow> s
              | Some d \<Rightarrow> if d = [] then s else ensure_link sink_desk d antiphon_channel (drop_stale_desk d s))"

definition link_down :: "nat \<Rightarrow> recorder_session \<Rightarrow> recorder_session" where
  "link_down a s = say (RetryIn link_retry_ms) (teardown_link a s)"

text \<open>The two ends of an offer.\<close>

definition drop_offer :: "nat \<Rightarrow> recorder_session \<Rightarrow> recorder_session" where
  "drop_offer k s = s\<lparr>rs_offers := take k (rs_offers s) @ drop (Suc k) (rs_offers s)\<rparr>"

definition offer_opens :: "nat \<Rightarrow> data_channel \<Rightarrow> recorder_session \<Rightarrow> recorder_session" where
  "offer_opens k c s = adopt_channel (rs_offers s ! k) c (drop_offer k s)"

definition offer_fails :: "nat \<Rightarrow> recorder_session \<Rightarrow> recorder_session" where
  "offer_fails k s =
     (let a = rs_offers s ! k; l = rs_store s ! a
      in say (RetryIn link_retry_ms) (say (SinkUp (sk_sinkId l) False)
           (set_link a (l\<lparr>sk_connecting := False\<rparr>) (drop_offer k s))))"

text \<open>An event of an adopted channel: its state changes, and its handlers act when the link still has it.\<close>

definition channel_is :: "nat \<Rightarrow> nat \<Rightarrow> recorder_session \<Rightarrow> bool" where
  "channel_is a c s \<longleftrightarrow> (case sk_channel (rs_store s ! a) of None \<Rightarrow> False | Some d \<Rightarrow> dc_id d = c)"

definition channel_shuts :: "nat \<Rightarrow> nat \<Rightarrow> recorder_session \<Rightarrow> recorder_session" where
  "channel_shuts a c s =
     (let l = rs_store s ! a
      in if channel_is a c s then set_link a (l\<lparr>sk_channel := map_option (dc_open_update (\<lambda>_. False)) (sk_channel l)\<rparr>) s else s)"

definition channel_down :: "nat \<Rightarrow> nat \<Rightarrow> recorder_session \<Rightarrow> recorder_session" where
  "channel_down a c s = (if channel_is a c s then link_down a s else s)"

subsection \<open>Takes\<close>

definition is_disarmed :: "string list option \<Rightarrow> recorder_session \<Rightarrow> bool" where
  "is_disarmed ids s =
     (case cs_peerId (rs_sig s) of None \<Rightarrow> False | Some me \<Rightarrow> (case ids of None \<Rightarrow> False | Some is \<Rightarrow> me \<in> set is))"

definition arm_for_take :: "string \<Rightarrow> string \<Rightarrow> recorder_session \<Rightarrow> recorder_session" where
  "arm_for_take stream takeId s =
     (let s = s\<lparr>rs_sittingOut := None, rs_take := Some takeId, rs_stream := Some stream\<rparr>
      in case (uuid_to_bytes takeId, uuid_to_bytes stream) of
           (Some t, Some u) \<Rightarrow>
             say (Announces (StreamAnnounce takeId stream None))
               (say (ArmTake \<lparr>ao_takeId = t, ao_streamId = u, ao_deviceDesc = None, ao_retainLocal = Some False\<rparr>) s)
         | _ \<Rightarrow> say BadId s)"

definition session_stop_take :: "recorder_session \<Rightarrow> recorder_session" where
  "session_stop_take s =
     (case (rs_take s, rs_stream s) of
        (Some t, Some u) \<Rightarrow> (say StopTake (s\<lparr>rs_stopped := Some (t, u)\<rparr>))\<lparr>rs_take := None\<rparr>
      | _ \<Rightarrow> s)"

text \<open>Called when the worker reports a final sequence number.\<close>

definition notify_final :: "nat \<Rightarrow> recorder_session \<Rightarrow> recorder_session" where
  "notify_final n s =
     (case rs_stopped s of None \<Rightarrow> s
      | Some (t, u) \<Rightarrow> (say (Announces (StreamFinal t u n None)) s)\<lparr>rs_stopped := None\<rparr>)"

text \<open>The take of a start or a welcome: sat out when this lane is disarmed.\<close>

definition take_or_sit_out :: "string \<Rightarrow> string \<Rightarrow> string list option \<Rightarrow> recorder_session \<Rightarrow> recorder_session" where
  "take_or_sit_out stream takeId disarmed s =
     (if rs_take s = Some takeId then s
      else if is_disarmed disarmed s then s\<lparr>rs_sittingOut := Some takeId\<rparr> else arm_for_take stream takeId s)"

definition adopt_label :: "string \<Rightarrow> recorder_session \<Rightarrow> recorder_session" where
  "adopt_label lbl s =
     (let n = normalize_nickname lbl in say (PersistLabel n) (s\<lparr>rs_label := (if n = [] then None else Some n)\<rparr>))"

fun on_signal :: "nat \<Rightarrow> string \<Rightarrow> signaling_message \<Rightarrow> recorder_session \<Rightarrow> recorder_session" where
  "on_signal now stream (Welcome pid v sess) s =
     (let s = ensure_links now s
      in case ss_activeTake sess of None \<Rightarrow> s
         | Some t \<Rightarrow> take_or_sit_out stream (ti_takeId t) (ti_disarmedPeerIds t) s)"
| "on_signal now stream (PeerStatus sess) s = ensure_links now s"
| "on_signal now stream (PeerUpdate i lbl) s = (if Some i = cs_peerId (rs_sig s) then adopt_label lbl s else s)"
| "on_signal now stream (TakeStart t hint disarmed) s = take_or_sit_out stream t disarmed s"
| "on_signal now stream (TakeStop t) s =
     (let s = (if rs_sittingOut s = Some t then s\<lparr>rs_sittingOut := None\<rparr> else s)
      in if rs_take s = Some t then session_stop_take s else s)"
| "on_signal now stream _ s = s"

subsection \<open>The control connection\<close>

definition halt_for_fatal :: "recorder_session \<Rightarrow> recorder_session" where
  "halt_for_fatal s =
     (let s = s\<lparr>rs_take := None, rs_stream := None, rs_sittingOut := None, rs_stopped := None\<rparr>;
          s = teardown_links (jm_values (rs_links s)) s
      in say TeardownCapture (s\<lparr>rs_links := []\<rparr>))"

definition state_changed :: "nat \<Rightarrow> recorder_session \<Rightarrow> recorder_session" where
  "state_changed now s =
     (let s = (if cs_fatal (rs_sig s) \<noteq> None \<and> \<not> rs_fatalHandled s then halt_for_fatal (s\<lparr>rs_fatalHandled := True\<rparr>) else s)
      in if cs_connected (rs_sig s) then ensure_links now s else s)"

text \<open>A message: the client's state first, its listeners, then the session's own handler.\<close>

definition hears :: "nat \<Rightarrow> string \<Rightarrow> signaling_message \<Rightarrow> recorder_session \<Rightarrow> recorder_session" where
  "hears now stream m s =
     (let c = rs_sig s; s = s\<lparr>rs_sig := snd (client_message m c)\<rparr>;
          s = (if client_notifies m c then state_changed now s else s)
      in on_signal now stream m s)"

definition socket_lost :: "nat \<Rightarrow> recorder_session \<Rightarrow> recorder_session" where
  "socket_lost now s = state_changed now (s\<lparr>rs_sig := (rs_sig s)\<lparr>cs_connected := False, cs_peerId := None\<rparr>\<rparr>)"

definition take_over :: "nat \<Rightarrow> recorder_session \<Rightarrow> recorder_session" where
  "take_over now s =
     (if cs_fatal (rs_sig s) = None then s
      else let s = s\<lparr>rs_fatalHandled := False\<rparr>
           in if rs_closed s then s else say Reopens (state_changed now (s\<lparr>rs_sig := (rs_sig s)\<lparr>cs_fatal := None\<rparr>\<rparr>)))"

definition rename :: "string \<Rightarrow> recorder_session \<Rightarrow> recorder_session" where
  "rename lbl s =
     (let n = normalize_nickname lbl; s = adopt_label lbl s
      in case cs_peerId (rs_sig s) of
           Some me \<Rightarrow> if cs_connected (rs_sig s) \<and> me \<noteq> [] then say (Announces (PeerUpdate me n)) s else s
         | None \<Rightarrow> s)"

definition simulate_outage :: "nat \<Rightarrow> nat \<Rightarrow> recorder_session \<Rightarrow> recorder_session" where
  "simulate_outage now ms s = teardown_links (jm_values (rs_links s)) (s\<lparr>rs_outage := Some (now + ms)\<rparr>)"

definition outage_over :: "nat \<Rightarrow> recorder_session \<Rightarrow> recorder_session" where
  "outage_over now s = ensure_links now (s\<lparr>rs_outage := None\<rparr>)"

definition time_sync_tick :: "recorder_session \<Rightarrow> recorder_session" where
  "time_sync_tick s =
     s\<lparr>rs_calls := rs_calls s @ map (\<lambda>a. TimePing (sk_sinkId (rs_store s ! a)))
         (filter (\<lambda>a. chan_up (rs_store s ! a)) (jm_values (rs_links s)))\<rparr>"

definition session_close :: "recorder_session \<Rightarrow> recorder_session" where
  "session_close s = say ClosesSignaling ((teardown_links (jm_values (rs_links s)) s)\<lparr>rs_closed := True\<rparr>)"

subsection \<open>What the page shows\<close>

datatype link_state = LinkConnected | LinkConnecting | LinkDown | LinkAbsent

definition link_state_of :: "nat \<Rightarrow> recorder_session \<Rightarrow> link_state" where
  "link_state_of i s =
     (case jm_get (rs_links s) i of None \<Rightarrow> LinkDown
      | Some a \<Rightarrow> if chan_up (rs_store s ! a) then LinkConnected
                  else if sk_connecting (rs_store s ! a) then LinkConnecting else LinkDown)"

record session_snapshot =
  so_signalingConnected :: bool
  so_peerId :: "string option"
  so_label :: "string option"
  so_serverLink :: link_state
  so_deskLink :: link_state
  so_activeTakeId :: "string option"
  so_streamId :: "string option"
  so_outageUntil :: "nat option"
  so_sittingOut :: bool
  so_fatal :: "(string \<times> string) option"

definition session_snapshot_of :: "recorder_session \<Rightarrow> session_snapshot" where
  "session_snapshot_of s =
     \<lparr>so_signalingConnected = cs_connected (rs_sig s), so_peerId = cs_peerId (rs_sig s), so_label = rs_label s,
      so_serverLink = link_state_of sink_server s,
      so_deskLink = (case desk_peer_id s of None \<Rightarrow> LinkAbsent | Some d \<Rightarrow> if d = [] then LinkAbsent else link_state_of sink_desk s),
      so_activeTakeId = rs_take s, so_streamId = rs_stream s, so_outageUntil = rs_outage s,
      so_sittingOut = (rs_sittingOut s \<noteq> None), so_fatal = cs_fatal (rs_sig s)\<rparr>"

subsection \<open>The session among its events\<close>

datatype session_event =
    Hears nat string signaling_message
  | SocketLost nat
  | OfferOpens nat data_channel
  | OfferFails nat
  | ChannelShuts nat
  | ChannelDown nat
  | ChannelFrame nat bytes
  | ChannelLow nat
  | RetryFires nat
  | OutageCall nat nat
  | OutageOver nat
  | WorkerFinal nat
  | RenameCall string
  | TakeOverCall nat
  | SyncTick
  | CloseSession

definition adopted_at :: "nat \<Rightarrow> recorder_session \<Rightarrow> (nat \<times> nat) option" where
  "adopted_at k s = (if k < length (rs_adopted s) then Some (rs_adopted s ! k) else None)"

fun session_step :: "recorder_session \<Rightarrow> session_event \<Rightarrow> recorder_session" where
  "session_step s (Hears now stream m) = hears now stream m s"
| "session_step s (SocketLost now) = socket_lost now s"
| "session_step s (OfferOpens k c) = (if k < length (rs_offers s) then offer_opens k c s else s)"
| "session_step s (OfferFails k) = (if k < length (rs_offers s) then offer_fails k s else s)"
| "session_step s (ChannelShuts k) = (case adopted_at k s of None \<Rightarrow> s | Some (a, c) \<Rightarrow> channel_shuts a c s)"
| "session_step s (ChannelDown k) = (case adopted_at k s of None \<Rightarrow> s | Some (a, c) \<Rightarrow> channel_down a c s)"
| "session_step s (ChannelFrame k b) =
     (case adopted_at k s of None \<Rightarrow> s | Some (a, c) \<Rightarrow> say (Deliver (sk_sinkId (rs_store s ! a)) b) s)"
| "session_step s (ChannelLow k) =
     (case adopted_at k s of None \<Rightarrow> s | Some (a, c) \<Rightarrow> say (AskDrain (sk_sinkId (rs_store s ! a))) s)"
| "session_step s (RetryFires now) = ensure_links now s"
| "session_step s (OutageCall now ms) = simulate_outage now ms s"
| "session_step s (OutageOver now) = outage_over now s"
| "session_step s (WorkerFinal n) = notify_final n s"
| "session_step s (RenameCall lbl) = rename lbl s"
| "session_step s (TakeOverCall now) = take_over now s"
| "session_step s SyncTick = time_sync_tick s"
| "session_step s CloseSession = session_close s"

subsection \<open>What the controller is told of the sinks\<close>

text \<open>Whether the last word on a sink was that it is up.\<close>

definition tell :: "nat \<Rightarrow> bool \<Rightarrow> session_call \<Rightarrow> bool" where
  "tell i b c = (case c of SinkUp j up \<Rightarrow> if j = i then up else b | _ \<Rightarrow> b)"

definition told :: "recorder_session \<Rightarrow> nat \<Rightarrow> bool" where
  "told s i = foldl (tell i) False (rs_calls s)"

definition current :: "recorder_session \<Rightarrow> nat \<Rightarrow> bool" where
  "current s a \<longleftrightarrow> jm_get (rs_links s) (sk_sinkId (rs_store s ! a)) = Some a"

definition link_ok :: "recorder_session \<Rightarrow> bool" where
  "link_ok s \<longleftrightarrow>
     (\<forall>i a. jm_get (rs_links s) i = Some a \<longrightarrow> a < length (rs_store s) \<and> sk_sinkId (rs_store s ! a) = i)
   \<and> (\<forall>i. told s i \<longrightarrow> (\<exists>a. jm_get (rs_links s) i = Some a \<and> sk_channel (rs_store s ! a) \<noteq> None))
   \<and> (\<forall>a < length (rs_store s). chan_up (rs_store s ! a) \<longrightarrow> told s (sk_sinkId (rs_store s ! a)) \<and> \<not> sk_connecting (rs_store s ! a))
   \<and> (\<forall>a < length (rs_store s). sk_channel (rs_store s ! a) \<noteq> None \<longrightarrow> current s a)
   \<and> (\<forall>p \<in> set (rs_adopted s). fst p < length (rs_store s))"

text \<open>Every offer in flight belongs to a link that is in use and waits for it.\<close>

definition no_stray :: "recorder_session \<Rightarrow> bool" where
  "no_stray s \<longleftrightarrow> list_all (\<lambda>a. current s a \<and> sk_connecting (rs_store s ! a)) (rs_offers s)"

definition orderly :: "recorder_session \<Rightarrow> session_event \<Rightarrow> bool" where
  "orderly s e \<longleftrightarrow> no_stray (session_step s e)"

lemma say_simps [simp]:
  "rs_sig (say c s) = rs_sig s" "rs_store (say c s) = rs_store s" "rs_links (say c s) = rs_links s"
  "rs_offers (say c s) = rs_offers s" "rs_adopted (say c s) = rs_adopted s" "rs_calls (say c s) = rs_calls s @ [c]"
  "rs_take (say c s) = rs_take s" "rs_stream (say c s) = rs_stream s" "rs_stopped (say c s) = rs_stopped s"
  "rs_outage (say c s) = rs_outage s" "rs_fatalHandled (say c s) = rs_fatalHandled s" "rs_closed (say c s) = rs_closed s"
  "rs_sittingOut (say c s) = rs_sittingOut s" "rs_label (say c s) = rs_label s"
  by (simp_all add: say_def)

lemma set_link_simps [simp]:
  "rs_sig (set_link a l s) = rs_sig s" "rs_store (set_link a l s) = (rs_store s)[a := l]" "rs_links (set_link a l s) = rs_links s"
  "rs_offers (set_link a l s) = rs_offers s" "rs_adopted (set_link a l s) = rs_adopted s" "rs_calls (set_link a l s) = rs_calls s"
  "rs_take (set_link a l s) = rs_take s" "rs_stream (set_link a l s) = rs_stream s" "rs_stopped (set_link a l s) = rs_stopped s"
  "rs_outage (set_link a l s) = rs_outage s" "rs_fatalHandled (set_link a l s) = rs_fatalHandled s"
  "rs_closed (set_link a l s) = rs_closed s" "rs_sittingOut (set_link a l s) = rs_sittingOut s" "rs_label (set_link a l s) = rs_label s"
  by (simp_all add: set_link_def)

lemma told_snoc: "foldl (tell i) b (cs @ [c]) = tell i (foldl (tell i) b cs) c"
  by simp

text \<open>Calls that say nothing about a sink, and fields that are no part of it.\<close>

definition is_silent :: "session_call \<Rightarrow> bool" where
  "is_silent c \<longleftrightarrow> (\<forall>i up. c \<noteq> SinkUp i up)"

lemma tell_silent [simp]: "is_silent c \<Longrightarrow> tell i b c = b"
  by (cases c) (auto simp: tell_def is_silent_def)

lemma silent_calls [simp]:
  "is_silent (Announces m)" "is_silent (ArmTake x)" "is_silent StopTake" "is_silent (AttachSink i a)" "is_silent (AskDrain i)"
  "is_silent (Deliver i b)" "is_silent (TimePing i)" "is_silent TeardownCapture" "is_silent (MakeOffer a t l)" "is_silent (Dispose a)"
  "is_silent (RetryIn n)" "is_silent (PersistLabel l)" "is_silent Reopens" "is_silent ClosesSignaling" "is_silent BadId"
  by (simp_all add: is_silent_def)

text \<open>What leaves links, offers and the last words alone.\<close>

definition same_links :: "recorder_session \<Rightarrow> recorder_session \<Rightarrow> bool" where
  "same_links s s' \<longleftrightarrow> rs_store s' = rs_store s \<and> rs_links s' = rs_links s \<and> rs_offers s' = rs_offers s \<and> rs_adopted s' = rs_adopted s
     \<and> told s' = told s"

lemma same_links_refl [simp]: "same_links s s"
  by (simp add: same_links_def)

lemma same_links_trans: "same_links s t \<Longrightarrow> same_links t u \<Longrightarrow> same_links s u"
  by (simp add: same_links_def)

lemma same_links_say: "is_silent c \<Longrightarrow> same_links s (say c s)"
  by (simp add: same_links_def told_def fun_eq_iff)

lemma same_links_ok: "same_links s s' \<Longrightarrow> link_ok s \<Longrightarrow> link_ok s'"
  by (simp add: same_links_def link_ok_def current_def)

lemma link_ok_say: "is_silent c \<Longrightarrow> link_ok s \<Longrightarrow> link_ok (say c s)"
  by (rule same_links_ok [OF same_links_say])

lemma same_links_fields:
  "same_links s (s\<lparr>rs_sig := x\<rparr>)" "same_links s (s\<lparr>rs_label := l\<rparr>)" "same_links s (s\<lparr>rs_closed := b\<rparr>)" "same_links s (s\<lparr>rs_outage := u\<rparr>)"
  "same_links s (s\<lparr>rs_take := t\<rparr>)" "same_links s (s\<lparr>rs_stream := t\<rparr>)" "same_links s (s\<lparr>rs_sittingOut := t\<rparr>)"
  "same_links s (s\<lparr>rs_stopped := k\<rparr>)" "same_links s (s\<lparr>rs_fatalHandled := b\<rparr>)"
  by (simp_all add: same_links_def told_def fun_eq_iff)

subsection \<open>The operations on links keep it\<close>

lemma told_set_link [simp]: "told (set_link a l s) = told s"
  by (simp add: told_def fun_eq_iff)

lemma told_SinkUp: "told (say (SinkUp j up) s) i = (if j = i then up else told s i)"
  by (simp add: told_def tell_def)

lemma told_say [simp]: "is_silent c \<Longrightarrow> told (say c s) = told s"
  by (simp add: told_def fun_eq_iff)

definition torn :: "sink_link \<Rightarrow> sink_link" where
  "torn l = l\<lparr>sk_dispose := False, sk_channel := None, sk_connecting := False\<rparr>"

lemma torn_simps [simp]: "sk_channel (torn l) = None" "sk_sinkId (torn l) = sk_sinkId l" "\<not> sk_connecting (torn l)" "\<not> chan_up (torn l)"
  "sk_target (torn l) = sk_target l"
  by (simp_all add: torn_def chan_up_def)

lemma teardown_link_parts [simp]:
  "rs_store (teardown_link a s) = (rs_store s)[a := torn (rs_store s ! a)]" "rs_links (teardown_link a s) = rs_links s"
  "rs_offers (teardown_link a s) = rs_offers s" "rs_adopted (teardown_link a s) = rs_adopted s" "rs_sig (teardown_link a s) = rs_sig s"
  "told (teardown_link a s) i = (if sk_sinkId (rs_store s ! a) = i then False else told s i)"
  by (simp_all add: teardown_link_def torn_def Let_def told_SinkUp)

lemma link_okD:
  assumes "link_ok s"
  shows "jm_get (rs_links s) i = Some a \<Longrightarrow> a < length (rs_store s)"
    and "jm_get (rs_links s) i = Some a \<Longrightarrow> sk_sinkId (rs_store s ! a) = i"
    and "jm_get (rs_links s) i = Some a \<Longrightarrow> current s a"
    and "told s i \<Longrightarrow> \<exists>a. jm_get (rs_links s) i = Some a \<and> sk_channel (rs_store s ! a) \<noteq> None"
    and "a < length (rs_store s) \<Longrightarrow> chan_up (rs_store s ! a) \<Longrightarrow> told s (sk_sinkId (rs_store s ! a))"
    and "a < length (rs_store s) \<Longrightarrow> sk_channel (rs_store s ! a) \<noteq> None \<Longrightarrow> current s a"
    and "p \<in> set (rs_adopted s) \<Longrightarrow> fst p < length (rs_store s)"
  using assms unfolding link_ok_def current_def by blast+

lemma link_okI:
  assumes "\<And>i a. jm_get (rs_links s) i = Some a \<Longrightarrow> a < length (rs_store s) \<and> sk_sinkId (rs_store s ! a) = i"
    and "\<And>i. told s i \<Longrightarrow> \<exists>a. jm_get (rs_links s) i = Some a \<and> sk_channel (rs_store s ! a) \<noteq> None"
    and "\<And>a. a < length (rs_store s) \<Longrightarrow> chan_up (rs_store s ! a) \<Longrightarrow> told s (sk_sinkId (rs_store s ! a)) \<and> \<not> sk_connecting (rs_store s ! a)"
    and "\<And>a. a < length (rs_store s) \<Longrightarrow> sk_channel (rs_store s ! a) \<noteq> None \<Longrightarrow> jm_get (rs_links s) (sk_sinkId (rs_store s ! a)) = Some a"
    and "\<And>p. p \<in> set (rs_adopted s) \<Longrightarrow> fst p < length (rs_store s)"
  shows "link_ok s"
  using assms unfolding link_ok_def current_def by blast

lemma current_lt: "link_ok s \<Longrightarrow> current s a \<Longrightarrow> a < length (rs_store s)"
  by (auto simp: current_def dest: link_okD(1))

lemma current_unique: "current s a \<Longrightarrow> current s b \<Longrightarrow> sk_sinkId (rs_store s ! a) = sk_sinkId (rs_store s ! b) \<Longrightarrow> a = b"
  by (simp add: current_def)

text \<open>One link in use takes another state.\<close>

lemma link_ok_change:
  assumes ok: "link_ok s" and cur: "current s a" and l: "sk_sinkId l = sk_sinkId (rs_store s ! a)"
    and links: "rs_links t = rs_links s" and store: "rs_store t = (rs_store s)[a := l]" and ad: "set (rs_adopted t) \<subseteq> {(a, c)} \<union> set (rs_adopted s)"
    and t: "\<And>i. told t i = (if sk_sinkId l = i then up else told s i)"
    and up: "up \<longrightarrow> sk_channel l \<noteq> None" "chan_up l \<longrightarrow> up \<and> \<not> sk_connecting l"
  shows "link_ok t"
proof (rule link_okI, goal_cases)
  case (1 i b)
  then show ?case using link_okD(1,2) [OF ok, of i b] l links store by (cases "b = a") simp_all
next
  case (2 i)
  have a: "a < length (rs_store s)" using current_lt [OF ok cur] .
  show ?case
  proof (cases "sk_sinkId l = i")
    case True
    with 2 t up a cur l links store show ?thesis by (auto simp: current_def)
  next
    case False
    with 2 t have "told s i" by simp
    then obtain b where b: "jm_get (rs_links s) i = Some b" "sk_channel (rs_store s ! b) \<noteq> None" using link_okD(4) [OF ok] by blast
    with False l link_okD(2) [OF ok b(1)] have "b \<noteq> a" by auto
    with b links store show ?thesis by simp
  qed
next
  case (3 b)
  show ?case
  proof (cases "b = a")
    case True
    with 3 t up store show ?thesis by (simp add: nth_list_update)
  next
    case False
    with 3 store have b: "b < length (rs_store s)" "chan_up (rs_store s ! b)" by simp_all
    then have "sk_channel (rs_store s ! b) \<noteq> None" by (auto simp: chan_up_def split: option.splits)
    then have "current s b" using link_okD(6) [OF ok b(1)] by blast
    then have "sk_sinkId (rs_store s ! b) \<noteq> sk_sinkId l" using current_unique [OF cur] False l by force
    then show ?thesis using b False t ok store by (auto simp: link_ok_def)
  qed
next
  case (4 b)
  then show ?case using link_okD(6) [OF ok, of b] cur l links store by (cases "b = a") (auto simp: current_def)
next
  case (5 p)
  then show ?case using link_okD(7) [OF ok, of p] ad current_lt [OF ok cur] store by auto
qed

lemma teardown_link_ok: "link_ok s \<Longrightarrow> current s a \<Longrightarrow> link_ok (teardown_link a s)"
  by (rule link_ok_change [where a = a and l = "torn (rs_store s ! a)" and up = False]) auto

lemma current_teardown [simp]: "current (teardown_link a s) b \<longleftrightarrow> current s b"
  by (cases "a < length (rs_store s)"; cases "b = a") (simp_all add: current_def list_update_beyond)

lemma teardown_links_ok: "link_ok s \<Longrightarrow> \<forall>a \<in> set as. current s a \<Longrightarrow> link_ok (teardown_links as s)"
  by (induction as arbitrary: s) (simp_all add: teardown_link_ok)

lemma told_fields [simp]:
  "told (s\<lparr>rs_store := h\<rparr>) = told s" "told (s\<lparr>rs_links := m\<rparr>) = told s" "told (s\<lparr>rs_offers := os\<rparr>) = told s"
  "told (s\<lparr>rs_adopted := ps\<rparr>) = told s"
  by (simp_all add: told_def fun_eq_iff)

lemma teardown_links_parts [simp]:
  "rs_links (teardown_links as s) = rs_links s" "rs_offers (teardown_links as s) = rs_offers s"
  "rs_adopted (teardown_links as s) = rs_adopted s" "length (rs_store (teardown_links as s)) = length (rs_store s)"
  "rs_sig (teardown_links as s) = rs_sig s"
  by (induction as arbitrary: s) simp_all

lemma teardown_links_torn:
  "b < length (rs_store s) \<Longrightarrow> b \<in> set as \<or> sk_channel (rs_store s ! b) = None \<Longrightarrow> sk_channel (rs_store (teardown_links as s) ! b) = None"
proof (induction as arbitrary: s)
  case (Cons a as)
  then show ?case by (cases "b = a") auto
qed simp

lemma values_current: "link_ok s \<Longrightarrow> jm_wf (rs_links s) \<Longrightarrow> a \<in> set (jm_values (rs_links s)) \<Longrightarrow> current s a"
  by (auto simp: jm_wf_get_iff [symmetric] intro: link_okD(3))

lemma teardown_all:
  assumes ok: "link_ok s" and wf: "jm_wf (rs_links s)"
  defines "t \<equiv> teardown_links (jm_values (rs_links s)) s"
  shows "link_ok t" "b < length (rs_store t) \<Longrightarrow> sk_channel (rs_store t ! b) = None" "\<not> told t i"
proof -
  show t: "link_ok t" unfolding t_def using values_current [OF ok wf] by (intro teardown_links_ok ok) blast
  have none: "sk_channel (rs_store t ! b) = None" if "b < length (rs_store s)" for b
  proof (cases "sk_channel (rs_store s ! b) = None")
    case False
    then have "current s b" using link_okD(6) [OF ok that] by blast
    then have "b \<in> set (jm_values (rs_links s))" by (force simp: current_def dest: map_of_SomeD)
    with that show ?thesis by (simp add: t_def teardown_links_torn)
  qed (use that in \<open>simp add: t_def teardown_links_torn\<close>)
  then show "b < length (rs_store t) \<Longrightarrow> sk_channel (rs_store t ! b) = None" by (simp add: t_def)
  show "\<not> told t i" using link_okD(4) [OF t, of i] none link_okD(1) [OF ok] by (auto simp: t_def)
qed

lemma forget_links_ok:
  assumes "\<And>b. b < length (rs_store s) \<Longrightarrow> sk_channel (rs_store s ! b) = None" "\<And>i. \<not> told s i"
    "\<And>p. p \<in> set (rs_adopted s) \<Longrightarrow> fst p < length (rs_store s)"
  shows "link_ok (s\<lparr>rs_links := []\<rparr>)"
  using assms by (auto simp: link_ok_def chan_up_def)

lemma drop_stale_ok:
  assumes ok: "link_ok s"
  shows "link_ok (drop_stale_desk d s)"
proof (cases "jm_get (rs_links s) sink_desk")
  case (Some a)
  let ?t = "teardown_link a s"
  have cur: "current s a" and i: "sk_sinkId (rs_store s ! a) = sink_desk" and a: "a < length (rs_store s)"
    using link_okD(1,2,3) [OF ok Some] by simp_all
  have t: "link_ok ?t" using teardown_link_ok [OF ok cur] .
  have "link_ok (?t\<lparr>rs_links := jm_delete sink_desk (rs_links s)\<rparr>)"
  proof (rule link_okI, goal_cases)
    case (1 i b)
    then show ?case using link_okD(1,2) [OF t, of i b] by (simp add: jm_get_delete split: if_splits)
  next
    case (2 j)
    then have "told ?t j" by simp
    moreover from this i have "j \<noteq> sink_desk" by auto
    ultimately show ?case using link_okD(4) [OF t] by (simp add: jm_get_delete)
  next
    case (3 b)
    then show ?case using t by (auto simp: link_ok_def simp del: teardown_link_parts)
  next
    case (4 b)
    then have cur_b: "current ?t b" using link_okD(6) [OF t, of b] by simp
    have "b \<noteq> a" using 4 a by auto
    then have "sk_sinkId (rs_store ?t ! b) \<noteq> sink_desk" using cur_b Some by (auto simp: current_def)
    then show ?case using cur_b by (simp add: current_def jm_get_delete)
  next
    case (5 p)
    then show ?case using link_okD(7) [OF t, of p] by simp
  qed
  then show ?thesis using ok Some by (simp add: drop_stale_desk_def Let_def)
qed (use ok in \<open>simp add: drop_stale_desk_def\<close>)

text \<open>A link is found or made, and takes the mark of an offer.\<close>

lemma with_link_ok:
  assumes ok: "link_ok s" and w: "with_link i target lbl s = (a, t)"
  shows "link_ok t" "current t a" "sk_sinkId (rs_store t ! a) = i"
proof -
  have "link_ok t \<and> current t a \<and> sk_sinkId (rs_store t ! a) = i"
  proof (cases "jm_get (rs_links s) i")
    case (Some b)
    then show ?thesis using w ok link_okD(2,3) [OF ok Some] by (simp add: with_link_def)
  next
    case None
    then have t: "a = length (rs_store s)" "rs_store t = rs_store s @ [new_sink_link i target lbl]" "rs_links t = jm_set i a (rs_links s)"
      "rs_adopted t = rs_adopted s" "told t = told s"
      using w by (auto simp: with_link_def Let_def)
    have "\<not> told s i" using link_okD(4) [OF ok, of i] None by auto
    have "link_ok t"
    proof (rule link_okI, goal_cases)
      case (1 j b)
      then show ?case using link_okD(1,2) [OF ok, of j b] t
        by (auto simp: jm_get_set nth_append new_sink_link_def split: if_splits)
    next
      case (2 j)
      then obtain b where b: "jm_get (rs_links s) j = Some b" "sk_channel (rs_store s ! b) \<noteq> None"
        using t link_okD(4) [OF ok, of j] by auto
      with None have "j \<noteq> i" by auto
      with b link_okD(1) [OF ok b(1)] t show ?case by (simp add: jm_get_set nth_append)
    next
      case (3 b)
      then show ?case using t ok by (auto simp: link_ok_def nth_append new_sink_link_def chan_up_def less_Suc_eq split: if_splits)
    next
      case (4 b)
      then have b: "b < length (rs_store s)" "sk_channel (rs_store s ! b) \<noteq> None"
        using t by (auto simp: nth_append new_sink_link_def less_Suc_eq split: if_splits)
      then have "jm_get (rs_links s) (sk_sinkId (rs_store s ! b)) = Some b" using link_okD(6) [OF ok] by (simp add: current_def)
      moreover from this None have "sk_sinkId (rs_store s ! b) \<noteq> i" by auto
      ultimately show ?case using b t by (simp add: jm_get_set nth_append)
    next
      case (5 p)
      then show ?case using link_okD(7) [OF ok, of p] t by simp
    qed
    with t show ?thesis by (simp add: current_def jm_get_set new_sink_link_def)
  qed
  then show "link_ok t" "current t a" "sk_sinkId (rs_store t ! a) = i" by simp_all
qed

lemma told_has_channel: "link_ok s \<Longrightarrow> current s a \<Longrightarrow> told s (sk_sinkId (rs_store s ! a)) \<Longrightarrow> sk_channel (rs_store s ! a) \<noteq> None"
  by (auto simp: current_def dest: link_okD(4))

lemma ensure_link_ok:
  assumes ok: "link_ok s"
  shows "link_ok (ensure_link i target lbl s)"
proof -
  obtain a t where w: "with_link i target lbl s = (a, t)" by fastforce
  note t = with_link_ok [OF ok w]
  show ?thesis
  proof (cases "sk_connecting (rs_store t ! a) \<or> chan_up (rs_store t ! a)")
    case False
    let ?l = "rs_store t ! a"
    let ?u = "say (MakeOffer a target lbl) ((set_link a (?l\<lparr>sk_connecting := True\<rparr>) t)\<lparr>rs_offers := rs_offers t @ [a]\<rparr>)"
    have "link_ok ?u"
      by (rule link_ok_change [OF t(1,2), where l = "?l\<lparr>sk_connecting := True\<rparr>" and up = "told t (sk_sinkId ?l)"])
        (use False told_has_channel [OF t(1,2)] in \<open>auto simp: chan_up_def\<close>)
    with w False show ?thesis by (simp add: ensure_link_def Let_def)
  qed (use w t(1) in \<open>auto simp: ensure_link_def Let_def\<close>)
qed

lemma ensure_links_ok: "link_ok s \<Longrightarrow> link_ok (ensure_links now s)"
  by (auto simp: ensure_links_def Let_def ensure_link_ok drop_stale_ok split: option.split)

definition links_inv :: "recorder_session \<Rightarrow> bool" where
  "links_inv s \<longleftrightarrow> link_ok s \<and> jm_wf (rs_links s)"

lemma same_links_inv: "same_links s s' \<Longrightarrow> links_inv s \<Longrightarrow> links_inv s'"
  unfolding links_inv_def by (metis same_links_def same_links_ok)

lemma ensure_link_wf: "jm_wf (rs_links s) \<Longrightarrow> jm_wf (rs_links (ensure_link i target lbl s))"
  by (auto simp: ensure_link_def with_link_def Let_def split: option.splits)

lemma drop_stale_wf: "jm_wf (rs_links s) \<Longrightarrow> jm_wf (rs_links (drop_stale_desk d s))"
  by (auto simp: drop_stale_desk_def Let_def split: option.splits)

lemma ensure_links_inv: "links_inv s \<Longrightarrow> links_inv (ensure_links now s)"
  by (auto simp: links_inv_def ensure_links_ok)
    (auto simp: ensure_links_def Let_def ensure_link_wf drop_stale_wf split: option.split)

subsection \<open>What the other calls leave alone\<close>

lemma arm_same: "same_links s (arm_for_take u t s)"
  by (auto simp: arm_for_take_def Let_def same_links_def told_def tell_def fun_eq_iff split: option.splits)

lemma stop_same: "same_links s (session_stop_take s)"
  by (auto simp: session_stop_take_def Let_def same_links_def told_def tell_def fun_eq_iff split: option.splits)

lemma final_same: "same_links s (notify_final n s)"
  by (auto simp: notify_final_def Let_def same_links_def told_def tell_def fun_eq_iff split: option.splits)

lemma label_same: "same_links s (adopt_label lbl s)"
  by (auto simp: adopt_label_def Let_def same_links_def told_def tell_def fun_eq_iff)

lemma rename_same: "same_links s (rename lbl s)"
  by (auto simp: rename_def adopt_label_def Let_def same_links_def told_def tell_def fun_eq_iff split: option.splits)

lemma take_same: "same_links s (take_or_sit_out u t d s)"
  using arm_same by (simp add: take_or_sit_out_def same_links_fields)

lemma sync_same: "same_links s (time_sync_tick s)"
proof -
  have "foldl (tell i) b (map (\<lambda>a. TimePing (f a)) xs) = b" for i b f and xs :: "nat list"
    by (induction xs) simp_all
  then show ?thesis by (simp add: time_sync_tick_def same_links_def told_def fun_eq_iff)
qed

lemma on_signal_inv: "links_inv s \<Longrightarrow> links_inv (on_signal now u m s)"
proof (cases m)
  case (TakeStop t)
  assume inv: "links_inv s"
  let ?s = "if rs_sittingOut s = Some t then s\<lparr>rs_sittingOut := None\<rparr> else s"
  have "links_inv ?s" using inv same_links_inv [OF same_links_fields(7)] by simp
  with TakeStop show ?thesis using same_links_inv [OF stop_same, of ?s] by (simp add: Let_def)
qed (auto simp: Let_def ensure_links_inv intro: same_links_inv [OF take_same] same_links_inv [OF label_same] split: option.split)

lemma halt_inv: assumes "links_inv s" shows "links_inv (halt_for_fatal s)"
proof -
  let ?s = "s\<lparr>rs_take := None, rs_stream := None, rs_sittingOut := None, rs_stopped := None\<rparr>"
  have "same_links s ?s" by (simp add: same_links_def told_def fun_eq_iff)
  then have "link_ok ?s" "jm_wf (rs_links ?s)" using same_links_inv assms unfolding links_inv_def by blast+
  note t = teardown_all [OF this]
  have "link_ok ((teardown_links (jm_values (rs_links ?s)) ?s)\<lparr>rs_links := []\<rparr>)"
    using t link_okD(7) [OF t(1)] by (intro forget_links_ok) auto
  then show ?thesis by (simp add: halt_for_fatal_def Let_def links_inv_def link_ok_say)
qed

lemma state_changed_inv: "links_inv s \<Longrightarrow> links_inv (state_changed now s)"
  using same_links_inv [OF same_links_fields(9) [of s True]]
  by (auto simp: state_changed_def Let_def halt_inv ensure_links_inv)

lemma teardown_all_inv: "links_inv s \<Longrightarrow> links_inv (teardown_links (jm_values (rs_links s)) s)"
  by (simp add: links_inv_def teardown_all)

lemma hears_inv: assumes "links_inv s" shows "links_inv (hears now u m s)"
proof -
  let ?s = "s\<lparr>rs_sig := snd (client_message m (rs_sig s))\<rparr>"
  have "links_inv ?s" using same_links_inv [OF same_links_fields(1)] assms .
  then show ?thesis by (simp add: hears_def Let_def on_signal_inv state_changed_inv)
qed

lemma link_down_inv: "links_inv s \<Longrightarrow> current s a \<Longrightarrow> links_inv (link_down a s)"
  by (simp add: links_inv_def link_down_def link_ok_say teardown_link_ok)

subsection \<open>Offers and channels\<close>

lemma drop_offer_same:
  "link_ok s \<Longrightarrow> link_ok (drop_offer k s)" "rs_links (drop_offer k s) = rs_links s" "rs_store (drop_offer k s) = rs_store s"
  "rs_adopted (drop_offer k s) = rs_adopted s" "told (drop_offer k s) = told s" "current (drop_offer k s) = current s"
  by (simp_all add: drop_offer_def link_ok_def current_def fun_eq_iff)

lemma stray_freeD: "no_stray s \<Longrightarrow> k < length (rs_offers s) \<Longrightarrow> current s (rs_offers s ! k) \<and> sk_connecting (rs_store s ! (rs_offers s ! k))"
  by (simp add: no_stray_def list_all_length)

lemma offer_opens_inv:
  assumes inv: "links_inv s" "no_stray s" and k: "k < length (rs_offers s)"
  shows "links_inv (offer_opens k c s)"
proof -
  let ?a = "rs_offers s ! k" and ?t = "drop_offer k s"
  let ?l = "(rs_store s ! ?a)\<lparr>sk_dispose := True, sk_channel := Some c, sk_connecting := False\<rparr>"
  have "link_ok ?t" "current ?t ?a" using inv stray_freeD [OF inv(2) k] by (simp_all add: links_inv_def drop_offer_same)
  then have "link_ok (say (SinkUp (sk_sinkId (rs_store s ! ?a)) True) (set_link ?a ?l (?t\<lparr>rs_adopted := rs_adopted s @ [(?a, dc_id c)]\<rparr>)))"
    by (rule link_ok_change [where l = ?l and up = True and c = "dc_id c"]) (auto simp: drop_offer_same told_SinkUp)
  then show ?thesis
    using inv(1) by (simp add: links_inv_def offer_opens_def adopt_channel_def Let_def link_ok_say drop_offer_same)
qed

lemma offer_fails_inv:
  assumes inv: "links_inv s" "no_stray s" and k: "k < length (rs_offers s)"
  shows "links_inv (offer_fails k s)"
proof -
  let ?a = "rs_offers s ! k" and ?t = "drop_offer k s"
  let ?l = "(rs_store s ! ?a)\<lparr>sk_connecting := False\<rparr>"
  have c: "current s ?a" "sk_connecting (rs_store s ! ?a)" using stray_freeD [OF inv(2) k] by simp_all
  have "?a < length (rs_store s)" using current_lt c(1) inv(1) by (simp add: links_inv_def)
  then have down: "\<not> chan_up (rs_store s ! ?a)" using inv(1) c(2) by (auto simp: links_inv_def link_ok_def)
  have "link_ok ?t" "current ?t ?a" using inv c by (simp_all add: links_inv_def drop_offer_same)
  then have "link_ok (say (SinkUp (sk_sinkId (rs_store s ! ?a)) False) (set_link ?a ?l ?t))"
    by (rule link_ok_change [where l = ?l and up = False]) (use down in \<open>auto simp: drop_offer_same told_SinkUp chan_up_def\<close>)
  then show ?thesis using inv(1) by (simp add: links_inv_def offer_fails_def Let_def link_ok_say drop_offer_same)
qed

lemma held_channel_current:
  assumes "links_inv s" "channel_is a c s" "adopted_at k s = Some (a, c)"
  shows "current s a"
proof -
  have "(a, c) \<in> set (rs_adopted s)" using assms(3) by (auto simp: adopted_at_def split: if_splits) (metis nth_mem)
  then have "a < length (rs_store s)" using assms(1) by (fastforce simp: links_inv_def dest: link_okD(7))
  moreover have "sk_channel (rs_store s ! a) \<noteq> None" using assms(2) by (auto simp: channel_is_def split: option.splits)
  ultimately show ?thesis using assms(1) by (auto simp: links_inv_def dest: link_okD(6))
qed

lemma channel_shuts_inv:
  assumes inv: "links_inv s" and a: "adopted_at k s = Some (a, c)"
  shows "links_inv (channel_shuts a c s)"
proof (cases "channel_is a c s")
  case True
  let ?l = "(rs_store s ! a)\<lparr>sk_channel := map_option (dc_open_update (\<lambda>_. False)) (sk_channel (rs_store s ! a))\<rparr>"
  have cur: "current s a" and ok: "link_ok s" using held_channel_current [OF inv True a] inv by (simp_all add: links_inv_def)
  have "link_ok (set_link a ?l s)"
    by (rule link_ok_change [OF ok cur, where l = ?l and up = "told s (sk_sinkId (rs_store s ! a))"])
      (use told_has_channel [OF ok cur] in \<open>auto simp: chan_up_def split: option.splits\<close>)
  with inv True show ?thesis by (simp add: links_inv_def channel_shuts_def Let_def)
qed (use inv in \<open>simp add: channel_shuts_def\<close>)

lemma channel_down_inv:
  assumes "links_inv s" "adopted_at k s = Some (a, c)"
  shows "links_inv (channel_down a c s)"
  using assms held_channel_current [OF assms(1) _ assms(2)] by (simp add: channel_down_def link_down_inv)

lemma say_inv: "is_silent c \<Longrightarrow> links_inv s \<Longrightarrow> links_inv (say c s)"
  by (rule same_links_inv [OF same_links_say])

lemma take_over_inv: assumes "links_inv s" shows "links_inv (take_over now s)"
proof -
  let ?s = "s\<lparr>rs_fatalHandled := False\<rparr>" and ?t = "s\<lparr>rs_fatalHandled := False, rs_sig := (rs_sig s)\<lparr>cs_fatal := None\<rparr>\<rparr>"
  have "links_inv ?s" "links_inv ?t" by (rule same_links_inv [OF _ assms]; simp add: same_links_def told_def fun_eq_iff)+
  with assms show ?thesis by (simp add: take_over_def Let_def say_inv state_changed_inv)
qed

lemma session_step_links: assumes inv: "links_inv s" "no_stray s" shows "links_inv (session_step s e)"
proof (cases e)
  case (Hears now u m)
  then show ?thesis using hears_inv [OF inv(1)] by simp
next
  case (SocketLost now)
  then show ?thesis using state_changed_inv [OF same_links_inv [OF same_links_fields(1) inv(1)]] by (simp add: socket_lost_def)
next
  case (OutageCall now ms)
  have "links_inv (s\<lparr>rs_outage := Some (now + ms)\<rparr>)" using same_links_inv [OF same_links_fields(4) inv(1)] .
  from teardown_all_inv [OF this] OutageCall show ?thesis by (simp add: simulate_outage_def)
next
  case (OutageOver now)
  then show ?thesis using ensure_links_inv [OF same_links_inv [OF same_links_fields(4) inv(1)]] by (simp add: outage_over_def)
next
  case CloseSession
  have "links_inv ((teardown_links (jm_values (rs_links s)) s)\<lparr>rs_closed := True\<rparr>)"
    by (rule same_links_inv [OF same_links_fields(3) teardown_all_inv [OF inv(1)]])
  with CloseSession show ?thesis by (simp add: session_close_def say_inv)
qed (use inv in \<open>auto simp: offer_opens_inv offer_fails_inv channel_shuts_inv channel_down_inv say_inv ensure_links_inv take_over_inv
    same_links_inv [OF final_same] same_links_inv [OF rename_same] same_links_inv [OF sync_same] split: option.split\<close>)

definition session_inv :: "recorder_session \<Rightarrow> bool" where
  "session_inv s \<longleftrightarrow> links_inv s \<and> no_stray s"

interpretation link_machine: guarded_machine session_step session_inv orderly
  by unfold_locales (simp add: session_inv_def orderly_def session_step_links)

text \<open>C19. The encoder is told the truth about every sink. However control messages, offers, channels, retries, outages,
  takeovers and fatal errors interleave, as long as every offer in flight belongs to a link in use that still waits for it:
  a sink that was last announced as up has a link in use that holds a channel, an open channel of a link in use was
  announced as up, and no link that fell out of use still holds a channel. A takeover or an outage while an offer is in
  flight is thereby left out: the offer's failure then speaks for a link it no longer belongs to, and a link that opened
  meanwhile is told down (\<open>late_failure_silences_sink\<close> below).\<close>

theorem sinks_told_the_truth:
  assumes "legal session_step orderly (new_recorder_session lbl) evs"
  defines "s \<equiv> run session_step (new_recorder_session lbl) evs"
  shows "(told s i \<longrightarrow> (\<exists>a. jm_get (rs_links s) i = Some a \<and> sk_channel (rs_store s ! a) \<noteq> None))
     \<and> (\<forall>a. jm_get (rs_links s) i = Some a \<and> chan_up (rs_store s ! a) \<longrightarrow> told s i)
     \<and> (\<forall>a < length (rs_store s). sk_channel (rs_store s ! a) \<noteq> None \<longrightarrow> a \<in> set (jm_values (rs_links s)))"
proof -
  have "session_inv (new_recorder_session lbl)"
    by (simp add: session_inv_def links_inv_def link_ok_def no_stray_def new_recorder_session_def told_def)
  then have "session_inv s" unfolding s_def by (rule link_machine.run_guarded) (rule assms(1))
  then have ok: "link_ok s" by (simp add: session_inv_def links_inv_def)
  have "a \<in> set (jm_values (rs_links s))" if "a < length (rs_store s)" "sk_channel (rs_store s ! a) \<noteq> None" for a
    using link_okD(6) [OF ok that] by (force simp: current_def dest: map_of_SomeD)
  moreover have "told s i" if "jm_get (rs_links s) i = Some a" "chan_up (rs_store s ! a)" for a
    using link_okD(5) [OF ok link_okD(1) [OF ok that(1)] that(2)] link_okD(2) [OF ok that(1)] by simp
  ultimately show ?thesis using link_okD(4) [OF ok, of i] by blast
qed

text \<open>A desk joins, its link opens, another desk takes its place.\<close>

definition desk_peer :: "string \<Rightarrow> peer_info" where
  "desk_peer i = \<lparr>pi_peerId = i, pi_role = Desk,
     pi_deviceInfo = \<lparr>userAgent = [], label = None, deviceId = None, avatarUrl = None\<rparr>, pi_joinedAt = 0\<rparr>"

definition room_of :: "string \<Rightarrow> session_state" where
  "room_of i = \<lparr>ss_sessionId = ''s'', ss_peers = [desk_peer i], ss_activeTake = None\<rparr>"

definition open_chan :: "nat \<Rightarrow> data_channel" where
  "open_chan i = \<lparr>dc_id = i, dc_open = True, dc_buffered = 0, dc_sent = []\<rparr>"

definition desk_changes :: "session_event list" where
  "desk_changes = [Hears 1 [] (Welcome ''me'' 1 (room_of ''A'')), OfferOpens 0 (open_chan 0), OfferOpens 0 (open_chan 1),
     Hears 2 [] (PeerStatus (room_of ''B'')), OfferOpens 0 (open_chan 2)]"

lemmas session_eval = new_recorder_session_def hears_def client_message_def client_notifies_def state_changed_def ensure_links_def
  ensure_link_def with_link_def desk_peer_id_def drop_stale_desk_def teardown_link_def adopt_channel_def
  offer_opens_def offer_fails_def drop_offer_def new_sink_link_def chan_up_def say_def set_link_def
  sink_server_def sink_desk_def Let_def

theorem sinks_told_the_truth_witness:
  "\<exists>s. s = run session_step (new_recorder_session None) desk_changes \<and> jm_get (rs_links s) 1 = Some 2 \<and> told s 1"
proof -
  define s where "s = run session_step (new_recorder_session None) desk_changes"
  have "legal session_step orderly (new_recorder_session None) desk_changes"
    by (simp add: desk_changes_def orderly_def no_stray_def current_def session_eval room_of_def desk_peer_def open_chan_def)
  from sinks_told_the_truth [OF this, of 1, folded s_def]
  have "\<forall>a. jm_get (rs_links s) 1 = Some a \<and> chan_up (rs_store s ! a) \<longrightarrow> told s 1" by blast
  moreover have "jm_get (rs_links s) 1 = Some 2 \<and> chan_up (rs_store s ! 2)"
    by (simp add: s_def desk_changes_def session_eval room_of_def desk_peer_def open_chan_def)
  ultimately show ?thesis unfolding s_def by blast
qed

text \<open>
  An offer that outlives its link spoils this. A desk is replaced while the offer to it is in flight; the link to its successor
  opens; the old offer then times out and reports the sink as down. The page shows the desk link as connected, no retry mends
  it, and the encoder sends the desk nothing.
\<close>

definition desk_replaced :: "session_event list" where
  "desk_replaced = [Hears 1 [] (Welcome ''me'' 1 (room_of ''A'')), OfferOpens 0 (open_chan 0),
     Hears 2 [] (PeerStatus (room_of ''B'')), OfferOpens 1 (open_chan 1), OfferFails 0, RetryFires 3]"

lemma late_failure_silences_sink:
  "let s = run session_step (new_recorder_session None) desk_replaced
   in link_state_of sink_desk s = LinkConnected \<and> \<not> told s sink_desk \<and> rs_offers s = []"
  by (simp add: desk_replaced_def link_state_of_def told_def tell_def session_eval room_of_def desk_peer_def open_chan_def)

subsection \<open>Streams announced, stopped and finalised\<close>

text \<open>The streams the calls announce, those whose take they stop, and those they finalise, in order.\<close>

record take_log =
  tg_announced :: "(string \<times> string) list"
  tg_stopped :: "(string \<times> string) list"
  tg_finals :: "(string \<times> string) list"

definition log_call :: "take_log \<Rightarrow> session_call \<Rightarrow> take_log" where
  "log_call g c =
     (case c of
        Announces (StreamAnnounce t u f) \<Rightarrow> g\<lparr>tg_announced := tg_announced g @ [(t, u)]\<rparr>
      | StopTake \<Rightarrow> g\<lparr>tg_stopped := tg_stopped g @ [last (tg_announced g)]\<rparr>
      | Announces (StreamFinal t u n f) \<Rightarrow> g\<lparr>tg_finals := tg_finals g @ [(t, u)]\<rparr>
      | _ \<Rightarrow> g)"

definition take_log_of :: "recorder_session \<Rightarrow> take_log" where
  "take_log_of s = foldl log_call \<lparr>tg_announced = [], tg_stopped = [], tg_finals = []\<rparr> (rs_calls s)"

definition open_take :: "recorder_session \<Rightarrow> (string \<times> string) list" where
  "open_take s = (case (rs_take s, rs_stream s) of (Some t, Some u) \<Rightarrow> [(t, u)] | _ \<Rightarrow> [])"

definition awaiting_final :: "recorder_session \<Rightarrow> (string \<times> string) list" where
  "awaiting_final s = (case rs_stopped s of None \<Rightarrow> [] | Some k \<Rightarrow> [k])"

definition takes_inv :: "recorder_session \<Rightarrow> bool" where
  "takes_inv s \<longleftrightarrow>
     subseq (tg_finals (take_log_of s) @ awaiting_final s) (tg_stopped (take_log_of s))
   \<and> subseq (tg_stopped (take_log_of s) @ open_take s) (tg_announced (take_log_of s))
   \<and> (open_take s \<noteq> [] \<longrightarrow> tg_announced (take_log_of s) \<noteq> [] \<and> open_take s = [last (tg_announced (take_log_of s))])"

text \<open>Ids a take and its stream are known by; a browser's random ids are such.\<close>

definition ids_ok :: "session_event \<Rightarrow> bool" where
  "ids_ok e \<longleftrightarrow> (case e of
     Hears now u m \<Rightarrow> uuid_to_bytes u \<noteq> None \<and>
       (case m of TakeStart t h d \<Rightarrow> uuid_to_bytes t \<noteq> None
        | Welcome p v sess \<Rightarrow> (case ss_activeTake sess of None \<Rightarrow> True | Some t \<Rightarrow> uuid_to_bytes (ti_takeId t) \<noteq> None)
        | _ \<Rightarrow> True)
   | _ \<Rightarrow> True)"

definition same_takes :: "recorder_session \<Rightarrow> recorder_session \<Rightarrow> bool" where
  "same_takes s s' \<longleftrightarrow> rs_take s' = rs_take s \<and> rs_stream s' = rs_stream s \<and> rs_stopped s' = rs_stopped s
     \<and> take_log_of s' = take_log_of s"

lemma same_takes_refl [simp]: "same_takes s s"
  by (simp add: same_takes_def)

lemma same_takes_trans: "same_takes s t \<Longrightarrow> same_takes t u \<Longrightarrow> same_takes s u"
  by (simp add: same_takes_def)

lemma same_takes_inv: "same_takes s s' \<Longrightarrow> takes_inv s \<Longrightarrow> takes_inv s'"
  by (simp add: same_takes_def takes_inv_def open_take_def awaiting_final_def)

lemmas takes_unfold = same_takes_def take_log_of_def log_call_def Let_def

lemma teardown_link_takes: "same_takes s (teardown_link a s)"
  by (simp add: teardown_link_def takes_unfold)

lemma teardown_links_takes: "same_takes s (teardown_links as s)"
  by (induction as arbitrary: s) (auto intro: same_takes_trans teardown_link_takes)

lemma ensure_link_takes: "same_takes s (ensure_link i target lbl s)"
  by (simp add: ensure_link_def with_link_def takes_unfold split: option.split)

lemma drop_stale_takes: "same_takes s (drop_stale_desk d s)"
  using teardown_link_takes [of s] by (simp add: drop_stale_desk_def takes_unfold split: option.split)

lemma ensure_links_takes: "same_takes s (ensure_links now s)"
  by (auto simp: ensure_links_def Let_def split: option.split
      intro: ensure_link_takes same_takes_trans [OF ensure_link_takes same_takes_trans [OF drop_stale_takes ensure_link_takes]])

lemma label_takes: "same_takes s (adopt_label lbl s)"
  by (simp add: adopt_label_def takes_unfold)

lemma rename_takes: "same_takes s (rename lbl s)"
  by (simp add: rename_def adopt_label_def takes_unfold split: option.split)

lemma offer_takes: "same_takes s (offer_opens k c s)" "same_takes s (offer_fails k s)"
  by (simp_all add: offer_opens_def offer_fails_def adopt_channel_def drop_offer_def takes_unfold)

lemma channel_takes: "same_takes s (channel_shuts a c s)" "same_takes s (channel_down a c s)"
  by (simp_all add: channel_shuts_def channel_down_def link_down_def teardown_link_def takes_unfold)

lemma sync_takes: "same_takes s (time_sync_tick s)"
proof -
  have "foldl log_call g (map (\<lambda>a. TimePing (f a)) xs) = g" for g f and xs :: "nat list"
    by (induction xs) (simp_all add: log_call_def)
  then show ?thesis by (simp add: time_sync_tick_def same_takes_def take_log_of_def)
qed

lemma outage_takes: "same_takes s (simulate_outage now ms s)"
  unfolding simulate_outage_def
  by (rule same_takes_trans [OF _ teardown_links_takes]) (simp add: same_takes_def take_log_of_def)

lemma outage_over_takes: "same_takes s (outage_over now s)"
  unfolding outage_over_def
  by (rule same_takes_trans [OF _ ensure_links_takes]) (simp add: same_takes_def take_log_of_def)

lemma close_takes: "same_takes s (session_close s)"
  using teardown_links_takes [of s] by (simp add: session_close_def takes_unfold)

lemma subseq_leftD: "subseq (xs @ ys) zs \<Longrightarrow> subseq xs zs"
  by (meson prefixI prefix_imp_subseq subseq_order.trans)

lemma subseq_snoc: "subseq xs ys \<Longrightarrow> subseq (xs @ [x]) (ys @ [x])"
  by (rule list_emb_append_mono) simp_all

lemma subseq_distinct: "subseq xs ys \<Longrightarrow> distinct ys \<Longrightarrow> distinct xs"
  by (metis distinct_nthsI subseq_conv_nths)

lemma arm_takes:
  assumes "takes_inv s" "uuid_to_bytes t \<noteq> None" "uuid_to_bytes u \<noteq> None"
  shows "takes_inv (arm_for_take u t s)"
proof -
  from assms(1) have "subseq (tg_stopped (take_log_of s)) (tg_announced (take_log_of s))"
    unfolding takes_inv_def by (blast intro: subseq_leftD)
  with assms show ?thesis
    by (auto simp: takes_inv_def arm_for_take_def Let_def take_log_of_def log_call_def open_take_def awaiting_final_def intro: subseq_snoc)
qed

lemma take_or_sit_out_takes:
  "takes_inv s \<Longrightarrow> uuid_to_bytes t \<noteq> None \<Longrightarrow> uuid_to_bytes u \<noteq> None \<Longrightarrow> takes_inv (take_or_sit_out u t d s)"
  using arm_takes by (auto simp: take_or_sit_out_def intro: same_takes_inv [rotated] simp: same_takes_def take_log_of_def)

lemma stop_takes: assumes inv: "takes_inv s" shows "takes_inv (session_stop_take s)"
proof (cases "rs_take s = None \<or> rs_stream s = None")
  case False
  then obtain t u where k: "rs_take s = Some t" "rs_stream s = Some u" by auto
  then have o: "last (tg_announced (take_log_of s)) = (t, u)" using inv by (auto simp: takes_inv_def open_take_def)
  have "subseq (tg_finals (take_log_of s)) (tg_stopped (take_log_of s))"
    using inv unfolding takes_inv_def by (blast intro: subseq_leftD)
  with inv k o show ?thesis
    by (auto simp: takes_inv_def session_stop_take_def take_log_of_def log_call_def open_take_def awaiting_final_def intro: subseq_snoc)
qed (use inv in \<open>auto simp: session_stop_take_def split: option.split\<close>)

lemma final_takes: "takes_inv s \<Longrightarrow> takes_inv (notify_final n s)"
  by (auto simp: takes_inv_def notify_final_def take_log_of_def log_call_def open_take_def awaiting_final_def split: option.split)

lemma forgets_takes:
  "takes_inv s \<Longrightarrow> takes_inv (s\<lparr>rs_take := None, rs_stream := None, rs_sittingOut := None, rs_stopped := None\<rparr>)"
  by (auto simp: takes_inv_def take_log_of_def open_take_def awaiting_final_def intro: subseq_leftD)

lemma halt_takes: assumes "takes_inv s" shows "takes_inv (halt_for_fatal s)"
proof -
  let ?s = "s\<lparr>rs_take := None, rs_stream := None, rs_sittingOut := None, rs_stopped := None\<rparr>"
  have "same_takes ?s (halt_for_fatal s)"
    using teardown_links_takes [of ?s] by (simp add: halt_for_fatal_def takes_unfold)
  then show ?thesis using same_takes_inv forgets_takes [OF assms] by blast
qed

lemma state_changed_takes: assumes "takes_inv s" shows "takes_inv (state_changed now s)"
proof -
  have "takes_inv (s\<lparr>rs_fatalHandled := True\<rparr>)" by (rule same_takes_inv [OF _ assms]) (simp add: same_takes_def take_log_of_def)
  with assms show ?thesis
    by (auto simp: state_changed_def Let_def halt_takes intro: same_takes_inv [OF ensure_links_takes])
qed

lemma sig_takes: "takes_inv s \<Longrightarrow> takes_inv (s\<lparr>rs_sig := x\<rparr>)" "takes_inv s \<Longrightarrow> takes_inv (s\<lparr>rs_fatalHandled := b\<rparr>)"
  by (auto elim!: same_takes_inv [rotated] simp: same_takes_def take_log_of_def)

lemma on_signal_takes:
  assumes inv: "takes_inv s" and ids: "ids_ok (Hears now u m)"
  shows "takes_inv (on_signal now u m s)"
proof (cases m)
  case (TakeStop t)
  have "takes_inv (if rs_sittingOut s = Some t then s\<lparr>rs_sittingOut := None\<rparr> else s)"
    using inv by (auto elim!: same_takes_inv [rotated] simp: same_takes_def take_log_of_def)
  with TakeStop show ?thesis by (simp add: Let_def stop_takes)
next
  case (Welcome p v sess)
  have "takes_inv (ensure_links now s)" by (rule same_takes_inv [OF ensure_links_takes inv])
  with Welcome ids show ?thesis by (auto simp: Let_def ids_ok_def take_or_sit_out_takes split: option.split)
next
  case (TakeStart t h d)
  with inv ids show ?thesis by (simp add: ids_ok_def take_or_sit_out_takes)
qed (use inv in \<open>auto intro: same_takes_inv [OF ensure_links_takes] same_takes_inv [OF label_takes]\<close>)

lemma hears_takes: "takes_inv s \<Longrightarrow> ids_ok (Hears now u m) \<Longrightarrow> takes_inv (hears now u m s)"
  by (simp add: hears_def Let_def on_signal_takes state_changed_takes sig_takes)

lemma take_over_takes: "takes_inv s \<Longrightarrow> takes_inv (take_over now s)"
  by (auto simp: take_over_def Let_def sig_takes state_changed_takes
      intro!: same_takes_inv [where s' = "say Reopens t" and s = t for t] simp: same_takes_def take_log_of_def log_call_def)

interpretation take_machine: guarded_machine session_step takes_inv "\<lambda>_. ids_ok"
proof
  fix s e
  assume inv: "takes_inv s" and ids: "ids_ok e"
  note keep = same_takes_inv [OF _ inv]
  show "takes_inv (session_step s e)"
  proof (cases e)
    case (Hears now u m)
    with hears_takes [OF inv] ids show ?thesis by simp
  next
    case (SocketLost now)
    with inv show ?thesis by (simp add: socket_lost_def state_changed_takes sig_takes)
  qed (use inv in \<open>auto simp: final_takes take_over_takes keep ensure_links_takes offer_takes channel_takes rename_takes sync_takes
      outage_takes outage_over_takes close_takes same_takes_def [of s "say x s" for x] take_log_of_def log_call_def split: option.split\<close>)
qed

text \<open>C25. A final names a stream that was announced and stopped. However control messages, reports of the worker, outages,
  halts and takeovers interleave, the streams the session finalises are among those whose take it stopped, in that order and
  each for a stop of its own, those it stopped are among those it announced, and a running take is the last one announced.
  With fresh stream ids no stream is finalised twice.\<close>

theorem finals_follow_stops:
  fixes lbl :: "string option"
  assumes "list_all ids_ok evs"
  defines "s \<equiv> run session_step (new_recorder_session lbl) evs"
  shows "subseq (tg_finals (take_log_of s)) (tg_stopped (take_log_of s))
     \<and> subseq (tg_stopped (take_log_of s)) (tg_announced (take_log_of s))
     \<and> (\<forall>t u. rs_take s = Some t \<and> rs_stream s = Some u \<longrightarrow> last (tg_announced (take_log_of s)) = (t, u))
     \<and> (distinct (tg_announced (take_log_of s)) \<longrightarrow> distinct (tg_finals (take_log_of s)))"
proof -
  have "takes_inv (new_recorder_session lbl)"
    by (simp add: takes_inv_def new_recorder_session_def take_log_of_def open_take_def awaiting_final_def)
  then have "takes_inv s" unfolding s_def by (rule take_machine.run_guarded) (simp add: legal_list_all assms(1))
  then have s: "subseq (tg_finals (take_log_of s)) (tg_stopped (take_log_of s))"
    "subseq (tg_stopped (take_log_of s)) (tg_announced (take_log_of s))"
    "rs_take s = Some t \<Longrightarrow> rs_stream s = Some u \<Longrightarrow> last (tg_announced (take_log_of s)) = (t, u)" for t u
    unfolding takes_inv_def by (blast intro: subseq_leftD, blast intro: subseq_leftD, simp add: open_take_def)
  moreover have "distinct (tg_announced (take_log_of s)) \<Longrightarrow> distinct (tg_finals (take_log_of s))"
    using s(1,2) by (meson subseq_distinct subseq_order.trans)
  ultimately show ?thesis by blast
qed

definition sample_id :: "char \<Rightarrow> string" where
  "sample_id c = replicate 8 c @ ''-'' @ replicate 4 c @ ''-'' @ replicate 4 c @ ''-'' @ replicate 4 c @ ''-'' @ replicate 12 c"

definition sample_bytes :: "char \<Rightarrow> bytes" where
  "sample_bytes c = the (uuid_to_bytes (sample_id c))"

lemma sample_ids [simp]: "c \<noteq> CHR ''-'' \<Longrightarrow> uuid_to_bytes (sample_id c) = Some (sample_bytes c)"
  by (simp add: sample_bytes_def uuid_to_bytes_def sample_id_def)

lemma sample_id_eq [simp]: "sample_id c = sample_id d \<longleftrightarrow> c = d"
  by (simp add: sample_id_def)

definition one_take :: "session_event list" where
  "one_take = [Hears 1 (sample_id CHR ''0'') (Welcome ''me'' 1 (room_of ''A'')),
     Hears 2 (sample_id CHR ''a'') (TakeStart (sample_id CHR ''1'') 0 None),
     Hears 3 (sample_id CHR ''0'') (TakeStop (sample_id CHR ''1'')), WorkerFinal 7]"

theorem finals_follow_stops_witness:
  "\<exists>s. s = run session_step (new_recorder_session None) one_take
     \<and> tg_finals (take_log_of s) = [(sample_id CHR ''1'', sample_id CHR ''a'')]
     \<and> subseq (tg_finals (take_log_of s)) (tg_announced (take_log_of s))"
proof -
  define s where "s = run session_step (new_recorder_session None) one_take"
  have "list_all ids_ok one_take" by (simp add: one_take_def ids_ok_def room_of_def)
  from finals_follow_stops [OF this, of None, folded s_def]
  have "subseq (tg_finals (take_log_of s)) (tg_announced (take_log_of s))" by (meson subseq_order.trans)
  moreover have "tg_finals (take_log_of s) = [(sample_id CHR ''1'', sample_id CHR ''a'')]"
    by (simp add: s_def one_take_def take_or_sit_out_def is_disarmed_def arm_for_take_def session_stop_take_def notify_final_def take_log_of_def
        log_call_def session_eval room_of_def desk_peer_def)
  ultimately show ?thesis unfolding s_def by blast
qed

text \<open>
  A recorder that is offline when its take stops is welcomed into a room without a take and keeps recording. The next start arms
  it again without a stop; the encoder queues that arm behind the stream that still runs and its stop only takes it off the
  queue (Lemma \<open>Take_Latch.arm_stop_lost\<close>): this take and every later one is lost.
\<close>

definition take_calls :: "recorder_session \<Rightarrow> bool list" where
  "take_calls s = concat (map (\<lambda>c. case c of ArmTake a \<Rightarrow> [True] | StopTake \<Rightarrow> [False] | _ \<Rightarrow> []) (rs_calls s))"

definition missed_stop :: "session_event list" where
  "missed_stop = [Hears 1 (sample_id CHR ''0'') (Welcome ''me'' 1 (room_of ''A'')),
     Hears 2 (sample_id CHR ''a'') (TakeStart (sample_id CHR ''1'') 0 None), SocketLost 3,
     Hears 4 (sample_id CHR ''0'') (Welcome ''me'' 1 (room_of ''A'')),
     Hears 5 (sample_id CHR ''b'') (TakeStart (sample_id CHR ''2'') 0 None),
     Hears 6 (sample_id CHR ''0'') (TakeStop (sample_id CHR ''2''))]"

lemmas take_eval = take_or_sit_out_def is_disarmed_def arm_for_take_def session_stop_take_def notify_final_def
  socket_lost_def session_eval room_of_def desk_peer_def

lemma missed_stop_arms_again: "take_calls (run session_step (new_recorder_session None) missed_stop) = [True, True, False]"
  by (simp add: missed_stop_def take_calls_def take_eval)

text \<open>
  Only one stop is remembered. When a take stops while the final of the one before it is still awaited, that final is sent for
  the later stream, and the later stream's own is dropped.
\<close>

definition overlapping_stops :: "session_event list" where
  "overlapping_stops = [Hears 1 (sample_id CHR ''0'') (Welcome ''me'' 1 (room_of ''A'')),
     Hears 2 (sample_id CHR ''a'') (TakeStart (sample_id CHR ''1'') 0 None),
     Hears 3 (sample_id CHR ''0'') (TakeStop (sample_id CHR ''1'')),
     Hears 4 (sample_id CHR ''b'') (TakeStart (sample_id CHR ''2'') 0 None),
     Hears 5 (sample_id CHR ''0'') (TakeStop (sample_id CHR ''2'')), WorkerFinal 7, WorkerFinal 9]"

lemma final_of_the_wrong_stream:
  "concat (map (\<lambda>c. case c of Announces (StreamFinal t u n f) \<Rightarrow> [(u, n)] | _ \<Rightarrow> [])
     (rs_calls (run session_step (new_recorder_session None) overlapping_stops))) = [(sample_id CHR ''b'', 7)]"
  by (simp add: overlapping_stops_def take_eval)

end
