(* ===== verification/Desk_Link.thy ===== *)
theory Desk_Link
  imports Sink_Worker
begin

text \<open>
  The desk's bridge to its sink worker, \<open>apps/web/src/net/desk-sink-worker.ts\<close>: who waits for which answer. Acknowledgements,
  have frames and stored frames are matched by order alone, assembled files by a request id. Behind it stands the worker of
  \<open>Sink_Worker\<close> with a queue in either direction; every question carries a number here, so that it can be said whose
  answer a waiter is given.
\<close>

subsection \<open>The waiters\<close>

record 'w worker_link =
  wl_acks :: "'w list"
  wl_haves :: "'w list"
  wl_frames :: "'w list"
  wl_flac :: "(nat, 'w) jsmap"
  wl_next :: nat

definition new_worker_link :: "'w worker_link" where
  "new_worker_link = \<lparr>wl_acks = [], wl_haves = [], wl_frames = [], wl_flac = [], wl_next = 1\<rparr>"

datatype request_kind = AckRequest | HaveRequest

definition link_request :: "request_kind \<Rightarrow> 'w \<Rightarrow> 'w worker_link \<Rightarrow> to_sink \<times> 'w worker_link" where
  "link_request kind x l =
     (case kind of AckRequest \<Rightarrow> (Acks, l\<lparr>wl_acks := wl_acks l @ [x]\<rparr>) | HaveRequest \<Rightarrow> (Haves, l\<lparr>wl_haves := wl_haves l @ [x]\<rparr>))"

definition link_get_frames :: "string \<Rightarrow> string \<Rightarrow> ranges \<Rightarrow> 'w \<Rightarrow> 'w worker_link \<Rightarrow> to_sink \<times> 'w worker_link" where
  "link_get_frames t u rs x l = (GetFrames t u rs, l\<lparr>wl_frames := wl_frames l @ [x]\<rparr>)"

definition link_assemble :: "string \<Rightarrow> string \<Rightarrow> 'w \<Rightarrow> 'w worker_link \<Rightarrow> to_sink \<times> 'w worker_link" where
  "link_assemble t u x l =
     (AssembleFlac (wl_next l) t u, l\<lparr>wl_flac := jm_set (wl_next l) x (wl_flac l), wl_next := wl_next l + 1\<rparr>)"

text \<open>What a message of the worker amounts to: an event for the session, or an answer for a waiter.\<close>

datatype 'w link_event =
    BootDone nat
  | ReplyTo nat bytes
  | FramesFor 'w "bytes list"
  | PushFor stream_key ranges
  | StatusIs "desk_status list"
  | FlacFor 'w "bytes option"
  | LinkError
  | Nobody

definition shift_to :: "'w list \<Rightarrow> bytes list \<Rightarrow> 'w link_event \<times> 'w list" where
  "shift_to ws fs = (case ws of [] \<Rightarrow> (Nobody, []) | x # xs \<Rightarrow> (FramesFor x fs, xs))"

fun link_receive :: "from_sink \<Rightarrow> 'w worker_link \<Rightarrow> 'w link_event \<times> 'w worker_link" where
  "link_receive (Ready n) l = (BootDone n, l)"
| "link_receive (Reply c b) l = (ReplyTo c b, l)"
| "link_receive (AcksResult fs) l = (let (ev, ws) = shift_to (wl_acks l) fs in (ev, l\<lparr>wl_acks := ws\<rparr>))"
| "link_receive (HavesResult fs) l = (let (ev, ws) = shift_to (wl_haves l) fs in (ev, l\<lparr>wl_haves := ws\<rparr>))"
| "link_receive (PushPlan k rs) l = (PushFor k rs, l)"
| "link_receive (FramesResult fs) l = (let (ev, ws) = shift_to (wl_frames l) fs in (ev, l\<lparr>wl_frames := ws\<rparr>))"
| "link_receive (StatusResult ss) l = (StatusIs ss, l)"
| "link_receive (FlacResult r b why) l =
     ((case jm_get (wl_flac l) r of None \<Rightarrow> Nobody | Some x \<Rightarrow> FlacFor x b), l\<lparr>wl_flac := jm_delete r (wl_flac l)\<rparr>)"
| "link_receive WorkerError l = (LinkError, l)"

subsection \<open>The link before its worker\<close>

text \<open>
  Questions and answers carry the number of the question; the messages that ask nothing carry none. What was handed out is
  kept as pairs of the waiter served and the question answered.
\<close>

record link_world =
  lw_link :: "nat worker_link"
  lw_inbox :: "(nat option \<times> to_sink) list"
  lw_outbox :: "(nat option \<times> from_sink) list"
  lw_worker :: desk_sink
  lw_handed :: "(nat \<times> nat option) list"

definition link_start :: "string \<Rightarrow> (string, opfs) jsmap \<Rightarrow> link_world" where
  "link_start sess disk =
     \<lparr>lw_link = new_worker_link, lw_inbox = [(None, Configure sess)], lw_outbox = [], lw_worker = boot_sink disk, lw_handed = []\<rparr>"

datatype link_move =
    AskFor request_kind nat
  | AskFrames string string ranges nat
  | AskFlac string string nat
  | Posts to_sink
  | Works sink_env
  | Delivers

definition asks_nothing :: "to_sink \<Rightarrow> bool" where
  "asks_nothing m \<longleftrightarrow> (case m of Frame _ _ \<Rightarrow> True | SetFinal _ _ _ \<Rightarrow> True | PlanPush _ \<Rightarrow> True | Status \<Rightarrow> True
     | DeleteStreams _ \<Rightarrow> True | _ \<Rightarrow> False)"

definition handed :: "nat option \<Rightarrow> nat link_event \<Rightarrow> (nat \<times> nat option) list" where
  "handed tag ev = (case ev of FramesFor x _ \<Rightarrow> [(x, tag)] | FlacFor x _ \<Rightarrow> [(x, tag)] | _ \<Rightarrow> [])"

fun link_step :: "codec_env \<Rightarrow> link_world \<Rightarrow> link_move \<Rightarrow> link_world" where
  "link_step ce v (AskFor kind n) =
     (let (m, l) = link_request kind n (lw_link v) in v\<lparr>lw_link := l, lw_inbox := lw_inbox v @ [(Some n, m)]\<rparr>)"
| "link_step ce v (AskFrames t u rs n) =
     (let (m, l) = link_get_frames t u rs n (lw_link v) in v\<lparr>lw_link := l, lw_inbox := lw_inbox v @ [(Some n, m)]\<rparr>)"
| "link_step ce v (AskFlac t u n) =
     (let (m, l) = link_assemble t u n (lw_link v) in v\<lparr>lw_link := l, lw_inbox := lw_inbox v @ [(Some n, m)]\<rparr>)"
| "link_step ce v (Posts m) = (if asks_nothing m then v\<lparr>lw_inbox := lw_inbox v @ [(None, m)]\<rparr> else v)"
| "link_step ce v (Works env) =
     (case lw_inbox v of [] \<Rightarrow> v
      | (tag, m) # ms \<Rightarrow> let (outs, w) = sink_handle ce env m (lw_worker v)
                       in v\<lparr>lw_inbox := ms, lw_outbox := lw_outbox v @ map (Pair tag) outs, lw_worker := w\<rparr>)"
| "link_step ce v Delivers =
     (case lw_outbox v of [] \<Rightarrow> v
      | (tag, m) # ms \<Rightarrow> let (ev, l) = link_receive m (lw_link v)
                       in v\<lparr>lw_outbox := ms, lw_link := l, lw_handed := lw_handed v @ handed tag ev\<rparr>)"

text \<open>The session's directory can be had: the one thing without which \<open>get-frames\<close> has no answer.\<close>

definition boots :: "link_world \<Rightarrow> link_move \<Rightarrow> bool" where
  "boots v e \<longleftrightarrow> (case e of Works env \<Rightarrow> (dk_root (lw_worker v) = None \<longrightarrow> first_out env = IoOk) | _ \<Rightarrow> True)"

subsection \<open>The worker answers every question once\<close>

datatype answer = AnAck | AHave | AFrames | AFlac nat

definition asked :: "to_sink \<Rightarrow> answer option" where
  "asked m = (case m of Acks \<Rightarrow> Some AnAck | Haves \<Rightarrow> Some AHave | GetFrames _ _ _ \<Rightarrow> Some AFrames
     | AssembleFlac r _ _ \<Rightarrow> Some (AFlac r) | _ \<Rightarrow> None)"

definition answered :: "from_sink \<Rightarrow> answer option" where
  "answered m = (case m of AcksResult _ \<Rightarrow> Some AnAck | HavesResult _ \<Rightarrow> Some AHave | FramesResult _ \<Rightarrow> Some AFrames
     | FlacResult r _ _ \<Rightarrow> Some (AFlac r) | _ \<Rightarrow> None)"

definition serves :: "desk_sink \<Rightarrow> bool" where
  "serves w \<longleftrightarrow> dk_engine w \<noteq> None \<and> dk_root w \<noteq> None"

lemma set_files_serves [simp]: "dk_engine (set_files fs w) = dk_engine w" "dk_root (set_files fs w) = dk_root w"
  by (simp_all add: set_files_def split: option.split)

lemma delete_serves [simp]: "serves (delete_stream outs i ref w) = serves w"
  by (cases ref) (simp add: delete_stream_def serves_def Let_def)

lemma deletes_serve: "serves (fold (\<lambda>(i, ref). delete_stream outs i ref) xs w) = serves w"
  by (induction xs arbitrary: w) (simp_all add: case_prod_beta)

lemma answers_once:
  assumes "serves w" "\<And>s. m \<noteq> Configure s"
  shows "List.map_filter answered (fst (sink_handle ce env m w)) = (case asked m of None \<Rightarrow> [] | Some k \<Rightarrow> [k])"
    and "serves (snd (sink_handle ce env m w))"
proof -
  have "List.map_filter answered (fst (sink_handle ce env m w)) = (case asked m of None \<Rightarrow> [] | Some k \<Rightarrow> [k])
     \<and> serves (snd (sink_handle ce env m w))"
  proof (cases m)
    case (Frame c b)
    show ?thesis using assms unfolding Frame
      by (auto simp: sink_frame_def asked_def answered_def serves_def List.map_filter_def Let_def
          split: option.splits prod.splits ingest_result.splits if_splits)
  next
    case (SetFinal t u n)
    then show ?thesis using assms
      by (auto simp: sink_set_final_def asked_def answered_def serves_def List.map_filter_def Let_def split: option.splits prod.splits)
  next
    case (DeleteStreams refs)
    then show ?thesis using assms deletes_serve [of "se_outs env"] by (simp add: asked_def List.map_filter_def)
  next
    case (AssembleFlac r t u)
    then show ?thesis using assms
      by (auto simp: asked_def answered_def serves_def List.map_filter_def split: assembly.splits)
  qed (use assms in \<open>auto simp: asked_def answered_def serves_def List.map_filter_def split: option.splits prod.splits\<close>)
  then show "List.map_filter answered (fst (sink_handle ce env m w)) = (case asked m of None \<Rightarrow> [] | Some k \<Rightarrow> [k])"
    and "serves (snd (sink_handle ce env m w))" by simp_all
qed

lemma boot_serves:
  assumes "first_out env = IoOk"
  shows "serves (snd (sink_handle ce env (Configure s) w))"
    and "List.map_filter answered (fst (sink_handle ce env (Configure s) w)) = []"
  using assms by (auto simp: sink_configure_def serves_def answered_def List.map_filter_def Let_def split: prod.splits)

subsection \<open>Waiters and questions stay in step\<close>

definition tagged :: "('m \<Rightarrow> answer option) \<Rightarrow> (nat option \<times> 'm) list \<Rightarrow> (answer \<times> nat option) list" where
  "tagged f = List.map_filter (\<lambda>(tag, m). map_option (\<lambda>k. (k, tag)) (f m))"

definition pending :: "link_world \<Rightarrow> (answer \<times> nat option) list" where
  "pending v = tagged answered (lw_outbox v) @ tagged asked (lw_inbox v)"

definition of_kind :: "answer \<Rightarrow> (answer \<times> nat option) list \<Rightarrow> nat option list" where
  "of_kind k ps = map snd (filter (\<lambda>p. fst p = k) ps)"

definition flacs :: "(answer \<times> nat option) list \<Rightarrow> (answer \<times> nat option) list" where
  "flacs = filter (\<lambda>p. \<exists>r. fst p = AFlac r)"

definition in_step :: "nat worker_link \<Rightarrow> (answer \<times> nat option) list \<Rightarrow> bool" where
  "in_step l ps \<longleftrightarrow> map Some (wl_acks l) = of_kind AnAck ps \<and> map Some (wl_haves l) = of_kind AHave ps
     \<and> map Some (wl_frames l) = of_kind AFrames ps
     \<and> map (\<lambda>(r, x). (AFlac r, Some x)) (wl_flac l) = flacs ps
     \<and> distinct (map fst (wl_flac l)) \<and> list_all (\<lambda>r. r < wl_next l) (map fst (wl_flac l))"

definition is_configure :: "to_sink \<Rightarrow> bool" where
  "is_configure m \<longleftrightarrow> (case m of Configure _ \<Rightarrow> True | _ \<Rightarrow> False)"

definition ready_to_serve :: "link_world \<Rightarrow> bool" where
  "ready_to_serve v \<longleftrightarrow>
     (if serves (lw_worker v) then list_all (\<lambda>(t, m). \<not> is_configure m) (lw_inbox v)
      else dk_root (lw_worker v) = None \<and> (case lw_inbox v of [] \<Rightarrow> False
        | (t, m) # ms \<Rightarrow> is_configure m \<and> list_all (\<lambda>(t, m). \<not> is_configure m) ms))"

definition link_inv :: "link_world \<Rightarrow> bool" where
  "link_inv v \<longleftrightarrow> ready_to_serve v \<and> in_step (lw_link v) (pending v) \<and> list_all (\<lambda>(x, tag). tag = Some x) (lw_handed v)"

lemma map_filter_simps2 [simp]:
  "List.map_filter f [] = []" "List.map_filter f (x # xs) = (case f x of None \<Rightarrow> List.map_filter f xs | Some y \<Rightarrow> y # List.map_filter f xs)"
  "List.map_filter f (xs @ ys) = List.map_filter f xs @ List.map_filter f ys"
  by (simp_all add: List.map_filter_def split: option.split)

lemma tagged_simps [simp]:
  "tagged f [] = []" "tagged f (xs @ ys) = tagged f xs @ tagged f ys"
  "tagged f ((tag, m) # xs) = (case f m of None \<Rightarrow> tagged f xs | Some k \<Rightarrow> (k, tag) # tagged f xs)"
  by (simp_all add: tagged_def split: option.split)

lemma tagged_same: "tagged f (map (Pair tag) ms) = map (\<lambda>k. (k, tag)) (List.map_filter f ms)"
  by (induction ms) (simp_all split: option.split)

lemma kind_simps [simp]:
  "of_kind k [] = []" "of_kind k (p # ps) = (if fst p = k then snd p # of_kind k ps else of_kind k ps)"
  "of_kind k (ps @ qs) = of_kind k ps @ of_kind k qs"
  "flacs [] = []" "flacs (ps @ qs) = flacs ps @ flacs qs"
  "flacs (p # ps) = (if \<exists>r. fst p = AFlac r then p # flacs ps else flacs ps)"
  by (simp_all add: of_kind_def flacs_def)

lemma update_fresh: "k \<notin> fst ` set m \<Longrightarrow> jm_set k x m = m @ [(k, x)]"
  by (induction m) auto

lemma asks_in_step:
  assumes "in_step l ps"
  shows "in_step (l\<lparr>wl_acks := wl_acks l @ [n]\<rparr>) (ps @ [(AnAck, Some n)])"
    and "in_step (l\<lparr>wl_haves := wl_haves l @ [n]\<rparr>) (ps @ [(AHave, Some n)])"
    and "in_step (l\<lparr>wl_frames := wl_frames l @ [n]\<rparr>) (ps @ [(AFrames, Some n)])"
    and "in_step (l\<lparr>wl_flac := jm_set (wl_next l) n (wl_flac l), wl_next := wl_next l + 1\<rparr>) (ps @ [(AFlac (wl_next l), Some n)])"
proof -
  have keys: "list_all (\<lambda>r. r < wl_next l) (map fst (wl_flac l))" using assms by (simp add: in_step_def)
  then have "wl_next l \<notin> fst ` set (wl_flac l)" by (auto simp: list_all_iff)
  moreover from keys have "list_all (\<lambda>r. r < wl_next l + 1) (map fst (wl_flac l))" by (auto simp: list_all_iff)
  ultimately show "in_step (l\<lparr>wl_flac := jm_set (wl_next l) n (wl_flac l), wl_next := wl_next l + 1\<rparr>) (ps @ [(AFlac (wl_next l), Some n)])"
    using assms by (auto simp: in_step_def update_fresh)
qed (use assms in \<open>simp_all add: in_step_def\<close>)

text \<open>An answer at the head of all that is pending goes to the waiter that asked for it.\<close>

lemma receive_in_step:
  assumes st: "in_step l (tagged answered [(tag, m)] @ ps)" and r: "link_receive m l = (ev, l')"
  shows "in_step l' ps" "list_all (\<lambda>(x, t). t = Some x) (handed tag ev)"
proof -
  have "in_step l' ps \<and> list_all (\<lambda>(x, t). t = Some x) (handed tag ev)"
  proof (cases m)
    case (AcksResult fs)
    with st obtain x xs where "wl_acks l = x # xs" "tag = Some x" by (cases "wl_acks l") (auto simp: in_step_def answered_def)
    with AcksResult st r show ?thesis by (auto simp: in_step_def answered_def shift_to_def handed_def)
  next
    case (HavesResult fs)
    with st obtain x xs where "wl_haves l = x # xs" "tag = Some x" by (cases "wl_haves l") (auto simp: in_step_def answered_def)
    with HavesResult st r show ?thesis by (auto simp: in_step_def answered_def shift_to_def handed_def)
  next
    case (FramesResult fs)
    with st obtain x xs where "wl_frames l = x # xs" "tag = Some x" by (cases "wl_frames l") (auto simp: in_step_def answered_def)
    with FramesResult st r show ?thesis by (auto simp: in_step_def answered_def shift_to_def handed_def)
  next
    case (FlacResult q b why)
    with st obtain x xs where "wl_flac l = (q, x) # xs" "tag = Some x"
      by (cases "wl_flac l") (auto simp: in_step_def answered_def)
    with FlacResult st r show ?thesis
      by (auto simp: in_step_def answered_def handed_def jm_delete_absent)
  qed (use st r in \<open>auto simp: in_step_def answered_def handed_def\<close>)
  then show "in_step l' ps" "list_all (\<lambda>(x, t). t = Some x) (handed tag ev)" by simp_all
qed

lemma serves_root: "serves w \<Longrightarrow> dk_root w \<noteq> None"
  by (simp add: serves_def)

lemma works_inv:
  assumes inv: "link_inv v" and ok: "boots v (Works env)"
  shows "link_inv (link_step ce v (Works env))"
proof (cases "lw_inbox v")
  case (Cons q ms)
  obtain tag m where q: "q = (tag, m)" by fastforce
  obtain outs w where h: "sink_handle ce env m (lw_worker v) = (outs, w)" by fastforce
  show ?thesis
  proof (cases "serves (lw_worker v)")
    case True
    with inv Cons q have nc: "\<not> is_configure m" "list_all (\<lambda>(t, m). \<not> is_configure m) ms"
      by (simp_all add: link_inv_def ready_to_serve_def)
    then have "\<And>s. m \<noteq> Configure s" by (auto simp: is_configure_def)
    from answers_once [OF True this, of ce env] h
    have a: "List.map_filter answered outs = (case asked m of None \<Rightarrow> [] | Some k \<Rightarrow> [k])" "serves w" by simp_all
    have "pending (link_step ce v (Works env)) = pending v"
      using Cons q h a(1) by (simp add: pending_def tagged_same split: option.split)
    with inv Cons q h a(2) nc show ?thesis by (simp add: link_inv_def ready_to_serve_def)
  next
    case False
    with inv Cons q have c: "is_configure m" "list_all (\<lambda>(t, m). \<not> is_configure m) ms" "dk_root (lw_worker v) = None"
      by (simp_all add: link_inv_def ready_to_serve_def)
    then obtain s where m: "m = Configure s" by (auto simp: is_configure_def split: to_sink.splits)
    from ok c have "first_out env = IoOk" by (simp add: boots_def)
    from boot_serves [OF this, of ce s "lw_worker v"] h m
    have a: "List.map_filter answered outs = []" "serves w" by simp_all
    have "pending (link_step ce v (Works env)) = pending v"
      using Cons q h a(1) m by (simp add: pending_def tagged_same asked_def)
    with inv Cons q h a(2) c show ?thesis by (simp add: link_inv_def ready_to_serve_def)
  qed
qed (use inv in simp)

lemma delivers_inv:
  assumes inv: "link_inv v"
  shows "link_inv (link_step ce v Delivers)"
proof (cases "lw_outbox v")
  case (Cons q ms)
  obtain tag m where q: "q = (tag, m)" by fastforce
  obtain ev l where r: "link_receive m (lw_link v) = (ev, l)" by fastforce
  have "in_step (lw_link v) (tagged answered [(tag, m)] @ (tagged answered ms @ tagged asked (lw_inbox v)))"
    using inv Cons q by (cases "answered m") (simp_all add: link_inv_def pending_def)
  from receive_in_step [OF this r] inv Cons q r show ?thesis
    by (simp add: link_inv_def pending_def ready_to_serve_def)
qed (use inv in simp)

lemma posted_ready:
  "ready_to_serve v \<Longrightarrow> \<not> is_configure m \<Longrightarrow> ready_to_serve (v\<lparr>lw_link := l, lw_inbox := lw_inbox v @ [(t, m)]\<rparr>)"
  "ready_to_serve v \<Longrightarrow> \<not> is_configure m \<Longrightarrow> ready_to_serve (v\<lparr>lw_inbox := lw_inbox v @ [(t, m)]\<rparr>)"
  by (cases "lw_inbox v"; auto simp: ready_to_serve_def split: if_splits)+

interpretation sink_link: guarded_machine "link_step ce" link_inv boots for ce
proof
  fix v e
  assume inv: "link_inv v" and ok: "boots v e"
  show "link_inv (link_step ce v e)"
  proof (cases e)
    case (AskFor kind n)
    then show ?thesis using inv asks_in_step
      by (cases kind) (auto simp: link_inv_def link_request_def pending_def asked_def is_configure_def posted_ready simp flip: append_assoc)
  next
    case (AskFrames t u rs n)
    then show ?thesis using inv asks_in_step
      by (auto simp: link_inv_def link_get_frames_def pending_def asked_def is_configure_def posted_ready simp flip: append_assoc)
  next
    case (AskFlac t u n)
    then show ?thesis using inv asks_in_step
      by (auto simp: link_inv_def link_assemble_def pending_def asked_def is_configure_def posted_ready simp flip: append_assoc)
  next
    case (Posts m)
    then show ?thesis using inv
      by (cases m) (auto simp: link_inv_def pending_def asked_def asks_nothing_def is_configure_def posted_ready)
  next
    case (Works env)
    with works_inv [OF inv] ok show ?thesis by simp
  next
    case Delivers
    with delivers_inv [OF inv] show ?thesis by simp
  qed
qed

text \<open>C31. Every answer of the sink worker goes to the question it answers, as long as the worker can open the session's
  directory when it first tries. However requests of all four kinds, frames, other messages, the worker and its answers
  interleave, each waiter that is served is served with the answer to its own question, although acknowledgements, have
  frames and stored frames carry no name; and once both queues are empty nobody waits any more. Without the directory a
  request for frames is never answered and its waiter stays.\<close>

theorem answers_reach_their_question:
  assumes "legal (link_step ce) boots (link_start sess disk) es"
  defines "v \<equiv> run (link_step ce) (link_start sess disk) es"
  shows "list_all (\<lambda>(x, tag). tag = Some x) (lw_handed v)
     \<and> (lw_inbox v = [] \<and> lw_outbox v = [] \<longrightarrow>
          wl_acks (lw_link v) = [] \<and> wl_haves (lw_link v) = [] \<and> wl_frames (lw_link v) = [] \<and> wl_flac (lw_link v) = [])"
proof -
  have "link_inv (link_start sess disk)"
    by (simp add: link_inv_def link_start_def ready_to_serve_def boot_sink_def serves_def is_configure_def in_step_def
        new_worker_link_def pending_def asked_def)
  then have "link_inv v" unfolding v_def by (rule sink_link.run_guarded) (rule assms(1))
  then show ?thesis by (auto simp: link_inv_def in_step_def pending_def)
qed

lemma legal_always: "(\<And>s e. e \<in> set es \<Longrightarrow> ok s e) \<Longrightarrow> legal step ok s es"
  by (induction es arbitrary: s) auto

definition sample_codec_env :: codec_env where
  "sample_codec_env = \<lparr>ce_parse_final = \<lambda>_. None, ce_utf8 = \<lambda>_. True, ce_sha256 = \<lambda>_. []\<rparr>"

definition sample_questions :: "link_move list" where
  "sample_questions = [AskFor HaveRequest 7, AskFor AckRequest 8, AskFlac ''t'' ''u'' 9] @ replicate 4 (Works \<lparr>se_outs = [], se_now = 0\<rparr>)
     @ replicate 4 Delivers"

theorem answers_reach_their_question_witness:
  "\<exists>v. v = run (link_step sample_codec_env) (link_start ''s'' []) sample_questions
     \<and> lw_handed v = [(7, Some 7), (8, Some 8), (9, Some 9)] \<and> wl_flac (lw_link v) = []"
proof -
  define v where "v = run (link_step sample_codec_env) (link_start ''s'' []) sample_questions"
  have q: "lw_inbox v = []" "lw_outbox v = []" "lw_handed v = [(7, Some 7), (8, Some 8), (9, Some 9)]"
    by (simp_all add: v_def sample_questions_def numeral_eq_Suc link_start_def boot_sink_def new_worker_link_def link_request_def
        link_assemble_def sink_configure_def first_out_def dk_files_def set_files_def Let_def
        assemble_flac_from_store_def shift_to_def handed_def ack_frames_def have_frames_def split: prod.split)
  have "legal (link_step sample_codec_env) boots (link_start ''s'' []) sample_questions"
    by (rule legal_always) (auto simp: sample_questions_def boots_def first_out_def)
  from answers_reach_their_question [OF this, folded v_def] q have "wl_flac (lw_link v) = []" by blast
  with q show ?thesis unfolding v_def by blast
qed

end
