(* ===== verification/Desk_Session.thy ===== *)
theory Desk_Session
  imports Signaling_Client Desk_Link Capture_Controller
begin

text \<open>
  The desk's session: \<open>apps/web/src/net/desk-session.ts\<close> with its published state (\<open>desk-session-state.ts\<close>), the
  connections of recorders and the backpressured pushes (\<open>desk-conns.ts\<close>), the sync channel to the server
  (\<open>desk-server-sync.ts\<close>) and the calibration chirp (\<open>desk-chirp.ts\<close>). What the session does to the room, the sink worker
  and the browser is kept in order; its channels are objects named by the connection they belong to. Whether a channel takes a frame and
  the reading of a 32-bit float are parameters.
\<close>

subsection \<open>The published state\<close>

record stream_meta =
  sm_takeId :: string
  sm_streamId :: string
  sm_peerId :: "string option"
  sm_finalSeq :: "nat option"

datatype sync_status = SyncConnected | SyncConnecting | SyncDown

record live_level =
  lv_peak :: real
  lv_at :: nat

record desk_session_state =
  de_signalingConnected :: bool
  de_peerId :: "string option"
  de_session :: "session_state option"
  de_serverSync :: sync_status
  de_activeTakeId :: "string option"
  de_takeStartedAt :: "int option"
  de_streams :: "stream_meta list"
  de_deskStatus :: "desk_status list"
  de_rebuiltChunks :: nat
  de_lastChirpAt :: "int option"
  de_errors :: "string list"
  de_fatal :: "(string \<times> string) option"
  de_liveLevels :: "(string, live_level) jsmap"
  de_disarmedPeers :: "string list"

definition initial_desk_state :: desk_session_state where
  "initial_desk_state =
     \<lparr>de_signalingConnected = False, de_peerId = None, de_session = None, de_serverSync = SyncDown, de_activeTakeId = None,
      de_takeStartedAt = None, de_streams = [], de_deskStatus = [], de_rebuiltChunks = 0, de_lastChirpAt = None, de_errors = [],
      de_fatal = None, de_liveLevels = [], de_disarmedPeers = []\<rparr>"

text \<open>What seeding streams the archive knows takes: finals for the worker, and a new list if anything changes.\<close>

record seed_plan =
  sp_setFinal :: "(string \<times> string \<times> nat) list"
  sp_streams :: "stream_meta list option"

definition known_stream :: "string \<Rightarrow> stream_meta list \<Rightarrow> stream_meta option" where
  "known_stream u ss = find (\<lambda>s. sm_streamId s = u) ss"

text \<open>The loop: finals to set, streams to add, and whether a known stream gets its final.\<close>

fun seed_scan :: "stream_meta list \<Rightarrow> stream_meta list \<Rightarrow> (string \<times> string \<times> nat) list \<times> stream_meta list \<times> bool" where
  "seed_scan current [] = ([], [], False)"
| "seed_scan current (m # ms) =
     (let (finals, added, finalized) = seed_scan current ms; known = known_stream (sm_streamId m) current;
          final = (case sm_finalSeq m of None \<Rightarrow> [] | Some n \<Rightarrow> [(sm_takeId m, sm_streamId m, n)])
      in case known of
           Some k \<Rightarrow> if sm_finalSeq k \<noteq> None then (finals, added, finalized)
                     else (final @ finals, added, sm_finalSeq m \<noteq> None \<or> finalized)
         | None \<Rightarrow> (final @ finals, m # added, finalized))"

definition seeded_final :: "stream_meta list \<Rightarrow> string \<Rightarrow> nat option" where
  "seeded_final metas u =
     map_of (rev (List.map_filter (\<lambda>m. map_option (Pair (sm_streamId m)) (sm_finalSeq m)) metas)) u"

definition plan_stream_seed :: "stream_meta list \<Rightarrow> stream_meta list \<Rightarrow> seed_plan" where
  "plan_stream_seed current metas =
     (let (finals, added, finalized) = seed_scan current metas
      in if added = [] \<and> \<not> finalized then \<lparr>sp_setFinal = finals, sp_streams = None\<rparr>
         else \<lparr>sp_setFinal = finals,
               sp_streams = Some (map (\<lambda>s. case seeded_final metas (sm_streamId s) of
                   Some n \<Rightarrow> if sm_finalSeq s = None then s\<lparr>sm_finalSeq := Some n\<rparr> else s | None \<Rightarrow> s) current @ added)\<rparr>)"

definition upsert_announced :: "string \<Rightarrow> string \<Rightarrow> string option \<Rightarrow> stream_meta list \<Rightarrow> stream_meta list" where
  "upsert_announced t u from_peer ss =
     filter (\<lambda>s. sm_streamId s \<noteq> u) ss @ [\<lparr>sm_takeId = t, sm_streamId = u, sm_peerId = from_peer, sm_finalSeq = None\<rparr>]"

definition with_stream_final :: "string \<Rightarrow> nat \<Rightarrow> stream_meta list \<Rightarrow> stream_meta list" where
  "with_stream_final u n ss = map (\<lambda>s. if sm_streamId s = u then s\<lparr>sm_finalSeq := Some n\<rparr> else s) ss"

definition drop_deleted :: "string list \<Rightarrow> desk_session_state \<Rightarrow> desk_session_state" where
  "drop_deleted ids d =
     d\<lparr>de_streams := filter (\<lambda>s. sm_streamId s \<notin> set ids) (de_streams d),
       de_liveLevels := filter (\<lambda>(u, l). u \<notin> set ids) (de_liveLevels d)\<rparr>"

subsection \<open>The session\<close>

datatype desk_out =
    SendSignal signaling_message
  | PostWorker to_sink
  | OpenSync nat
  | AnswerOffer nat string string
  | DisposeConn nat
  | RetrySync nat
  | ExpireError string nat
  | StreamsGone "string list" "string list"
  | FlacDone nat "bytes option"
  | ReopenSignaling
  | CloseDesk

datatype desk_waiter = ForAcks | ForHaves nat | ForPush | ForFlac nat

record take_start =
  tk_takeId :: string
  tk_hint :: int
  tk_disarmed :: "string list option"

record desk_env =
  dv_sends :: "data_channel \<Rightarrow> bytes \<Rightarrow> bool"
  dv_f32 :: "bytes \<Rightarrow> real option"

record desk_session =
  dx_sig :: client_state
  dx_state :: desk_session_state
  dx_chans :: "(nat, data_channel) jsmap"
  dx_conns :: "nat list"
  dx_nextConn :: nat
  dx_wasmReady :: bool
  dx_takeStart :: "take_start option"
  dx_server :: "nat option"
  dx_connecting :: bool
  dx_opening :: "nat list"
  dx_pumps :: "(nat \<times> bytes list) list"
  dx_link :: "desk_waiter worker_link"
  dx_out :: "desk_out list"

definition ack_interval_ms :: nat where "ack_interval_ms = 2000"
definition have_interval_ms :: nat where "have_interval_ms = 5000"
definition status_interval_ms :: nat where "status_interval_ms = 1000"
definition error_ttl_ms :: nat where "error_ttl_ms = 30000"
definition sync_retry_ms :: nat where "sync_retry_ms = 2000"
definition sync_high_watermark :: nat where "sync_high_watermark = 2 ^ 20"

definition desk_does :: "desk_out \<Rightarrow> desk_session \<Rightarrow> desk_session" where
  "desk_does x s = s\<lparr>dx_out := dx_out s @ [x]\<rparr>"

definition desk_patch :: "(desk_session_state \<Rightarrow> desk_session_state) \<Rightarrow> desk_session \<Rightarrow> desk_session" where
  "desk_patch f s = s\<lparr>dx_state := f (dx_state s)\<rparr>"

text \<open>A session before \<open>start\<close>, and what \<open>start\<close> posts at once.\<close>

definition new_desk_session :: desk_session where
  "new_desk_session =
     \<lparr>dx_sig = \<lparr>cs_connected = False, cs_peerId = None, cs_session = None, cs_fatal = None\<rparr>, dx_state = initial_desk_state,
      dx_chans = [], dx_conns = [], dx_nextConn = 1, dx_wasmReady = False, dx_takeStart = None, dx_server = None,
      dx_connecting = False, dx_opening = [], dx_pumps = [], dx_link = new_worker_link, dx_out = []\<rparr>"

definition desk_start :: "string \<Rightarrow> desk_session" where
  "desk_start sess = desk_does (PostWorker (Configure sess)) new_desk_session"

subsection \<open>Channels and connections\<close>

definition chan_open :: "nat \<Rightarrow> desk_session \<Rightarrow> bool" where
  "chan_open i s \<longleftrightarrow> (case jm_get (dx_chans s) i of None \<Rightarrow> False | Some c \<Rightarrow> dc_open c)"

text \<open>Frames on a channel until one is refused.\<close>

definition send_burst :: "desk_env \<Rightarrow> bytes list \<Rightarrow> nat \<Rightarrow> desk_session \<Rightarrow> desk_session" where
  "send_burst env frames i s =
     (case jm_get (dx_chans s) i of None \<Rightarrow> s
      | Some c \<Rightarrow> s\<lparr>dx_chans := jm_set i (snd (send_frames (dv_sends env) frames c)) (dx_chans s)\<rparr>)"

definition add_conn :: "nat \<Rightarrow> data_channel \<Rightarrow> desk_session \<Rightarrow> desk_session" where
  "add_conn i c s =
     s\<lparr>dx_chans := jm_set i c (dx_chans s), dx_conns := (if i \<in> set (dx_conns s) then dx_conns s else dx_conns s @ [i])\<rparr>"

definition remove_conn :: "nat \<Rightarrow> desk_session \<Rightarrow> desk_session" where
  "remove_conn i s = s\<lparr>dx_conns := removeAll i (dx_conns s)\<rparr>"

text \<open>A recorder's channel closes; its peer connection fails.\<close>

definition conn_closes :: "nat \<Rightarrow> desk_session \<Rightarrow> desk_session" where
  "conn_closes i s = desk_does (DisposeConn i) (remove_conn i s)"

definition conn_fails :: "nat \<Rightarrow> desk_session \<Rightarrow> desk_session" where
  "conn_fails i s = remove_conn i (if i \<in> set (dx_conns s) then desk_does (DisposeConn i) s else s)"

definition send_to_conn :: "desk_env \<Rightarrow> nat \<Rightarrow> bytes \<Rightarrow> desk_session \<Rightarrow> desk_session" where
  "send_to_conn env i b s = (if i \<in> set (dx_conns s) \<and> chan_open i s then send_burst env [b] i s else s)"

text \<open>
  \<open>pumpFramesToChannel\<close>: frames while the buffer is below the mark; what is left waits for the buffer to drain, unless the
  channel died.
\<close>

fun pump_frames :: "(data_channel \<Rightarrow> bytes \<Rightarrow> bool) \<Rightarrow> nat \<Rightarrow> bytes list \<Rightarrow> data_channel \<Rightarrow> bytes list \<times> data_channel" where
  "pump_frames sends high [] c = ([], c)"
| "pump_frames sends high (f # fs) c =
     (if dc_buffered c < high
      then if sends c f then pump_frames sends high fs (c\<lparr>dc_buffered := dc_buffered c + length f, dc_sent := dc_sent c @ [f]\<rparr>)
           else ([], c)
      else (f # fs, c))"

definition pump_channel :: "desk_env \<Rightarrow> nat \<Rightarrow> bytes list \<Rightarrow> desk_session \<Rightarrow> desk_session" where
  "pump_channel env i frames s =
     (case jm_get (dx_chans s) i of None \<Rightarrow> s
      | Some c \<Rightarrow>
          let (rest, c) = pump_frames (dv_sends env) sync_high_watermark frames c; s = s\<lparr>dx_chans := jm_set i c (dx_chans s)\<rparr>
          in if rest = [] then s else s\<lparr>dx_pumps := dx_pumps s @ [(i, rest)]\<rparr>)"

fun pump_all :: "desk_env \<Rightarrow> (nat \<times> bytes list) list \<Rightarrow> desk_session \<Rightarrow> desk_session" where
  "pump_all env [] s = s"
| "pump_all env ((i, fs) # ps) s = pump_all env ps (pump_channel env i fs s)"

text \<open>\<open>bufferedamountlow\<close>: the pumps that wait on the channel run once.\<close>

definition buffer_low :: "desk_env \<Rightarrow> nat \<Rightarrow> nat \<Rightarrow> desk_session \<Rightarrow> desk_session" where
  "buffer_low env i left s =
     (let s = s\<lparr>dx_chans := (case jm_get (dx_chans s) i of None \<Rightarrow> dx_chans s
                | Some c \<Rightarrow> jm_set i (c\<lparr>dc_buffered := left\<rparr>) (dx_chans s))\<rparr>
      in pump_all env (filter (\<lambda>p. fst p = i) (dx_pumps s)) (s\<lparr>dx_pumps := filter (\<lambda>p. fst p \<noteq> i) (dx_pumps s)\<rparr>))"

subsection \<open>Questions to the worker\<close>

definition ask_worker :: "request_kind \<Rightarrow> desk_waiter \<Rightarrow> desk_session \<Rightarrow> desk_session" where
  "ask_worker kind x s = (let (m, l) = link_request kind x (dx_link s) in desk_does (PostWorker m) (s\<lparr>dx_link := l\<rparr>))"

definition broadcast_acks :: "desk_session \<Rightarrow> desk_session" where
  "broadcast_acks s = ask_worker AckRequest ForAcks s"

fun acks_to_conns :: "desk_env \<Rightarrow> bytes list \<Rightarrow> nat list \<Rightarrow> desk_session \<Rightarrow> desk_session" where
  "acks_to_conns env frames [] s = s"
| "acks_to_conns env frames (i # is) s = acks_to_conns env frames is (if chan_open i s then send_burst env frames i s else s)"

subsection \<open>The sync channel\<close>

definition exchange_haves :: "desk_session \<Rightarrow> desk_session" where
  "exchange_haves s =
     (case dx_server s of None \<Rightarrow> s | Some i \<Rightarrow> if chan_open i s then ask_worker HaveRequest (ForHaves i) s else s)"

definition set_sync :: "sync_status \<Rightarrow> desk_session \<Rightarrow> desk_session" where
  "set_sync x = desk_patch (\<lambda>d. d\<lparr>de_serverSync := x\<rparr>)"

definition sync_ensure :: "desk_session \<Rightarrow> desk_session" where
  "sync_ensure s =
     (if dx_connecting s \<or> (case dx_server s of None \<Rightarrow> False | Some i \<Rightarrow> chan_open i s) \<or> \<not> cs_connected (dx_sig s) then s
      else desk_does (OpenSync (dx_nextConn s))
             (set_sync SyncConnecting
               (s\<lparr>dx_connecting := True, dx_opening := dx_opening s @ [dx_nextConn s], dx_nextConn := dx_nextConn s + 1\<rparr>)))"

definition sync_opens :: "nat \<Rightarrow> data_channel \<Rightarrow> desk_session \<Rightarrow> desk_session" where
  "sync_opens i c s = exchange_haves (set_sync SyncConnected ((add_conn i c (s\<lparr>dx_server := Some i\<rparr>))\<lparr>dx_connecting := False\<rparr>))"

definition sync_fails :: "desk_session \<Rightarrow> desk_session" where
  "sync_fails s = desk_does (RetrySync sync_retry_ms) (set_sync SyncDown (s\<lparr>dx_connecting := False\<rparr>))"

definition sync_down :: "nat \<Rightarrow> desk_session \<Rightarrow> desk_session" where
  "sync_down i s =
     (if dx_server s \<noteq> Some i then s
      else desk_does (RetrySync sync_retry_ms)
             (set_sync SyncDown (desk_does (DisposeConn i) (remove_conn i (s\<lparr>dx_server := None\<rparr>)))))"

definition push_to_server :: "desk_env \<Rightarrow> bytes list \<Rightarrow> desk_session \<Rightarrow> desk_session" where
  "push_to_server env frames s =
     (case dx_server s of None \<Rightarrow> s | Some i \<Rightarrow> if chan_open i s then pump_channel env i frames s else s)"

subsection \<open>Frames\<close>

text \<open>The wasm reader of meter frames: the stream and the peak, clamped.\<close>

definition decode_meter_frame :: "(bytes \<Rightarrow> real option) \<Rightarrow> bytes \<Rightarrow> (string \<times> real) option" where
  "decode_meter_frame f32 b =
     (if length b \<noteq> 40 \<or> take 2 b \<noteq> frame_magic \<or> b ! 2 \<noteq> frame_version \<or> b ! 3 \<noteq> 0x80 then None
      else Some (uuid_string (take 16 (drop 20 b)),
             case f32 (take 4 (drop 36 b)) of None \<Rightarrow> 0 | Some p \<Rightarrow> max 0 (min 1 p)))"

definition intercept_meter :: "desk_env \<Rightarrow> nat \<Rightarrow> bytes \<Rightarrow> desk_session \<Rightarrow> bool \<times> desk_session" where
  "intercept_meter env now b s =
     (if length b \<noteq> 40 \<or> b ! 3 \<noteq> 0x80 then (False, s)
      else if \<not> dx_wasmReady s then (True, s)
      else (True, case decode_meter_frame (dv_f32 env) b of None \<Rightarrow> s
          | Some (u, p) \<Rightarrow> desk_patch (\<lambda>d. d\<lparr>de_liveLevels := jm_set u \<lparr>lv_peak = p, lv_at = now\<rparr> (de_liveLevels d)\<rparr>) s))"

definition desk_recorder_frame :: "desk_env \<Rightarrow> nat \<Rightarrow> nat \<Rightarrow> bytes \<Rightarrow> desk_session \<Rightarrow> desk_session" where
  "desk_recorder_frame env now i b s =
     (let (taken, s) = intercept_meter env now b s in if taken then s else desk_does (PostWorker (Frame i b)) s)"

definition server_frame :: "desk_env \<Rightarrow> nat \<Rightarrow> nat \<Rightarrow> bytes \<Rightarrow> desk_session \<Rightarrow> desk_session" where
  "server_frame env now i b s =
     (let (taken, s) = intercept_meter env now b s
      in if taken then s
         else desk_does (PostWorker (Frame i b))
                (if 4 \<le> length b \<and> b ! 3 = 0x07 then desk_does (PostWorker (PlanPush b)) s else s))"

subsection \<open>Takes, lanes and errors\<close>

definition nonempty :: "'a list option \<Rightarrow> 'a list option" where
  "nonempty xs = (if xs = Some [] then None else xs)"

definition start_message :: "take_start \<Rightarrow> signaling_message" where
  "start_message k = TakeStart (tk_takeId k) (tk_hint k) (tk_disarmed k)"

definition start_take :: "string \<Rightarrow> int \<Rightarrow> desk_session \<Rightarrow> desk_session" where
  "start_take takeId wall s = desk_does (SendSignal (TakeStart takeId wall (nonempty (Some (de_disarmedPeers (dx_state s)))))) s"

definition toggle_arm :: "string \<Rightarrow> desk_session \<Rightarrow> desk_session" where
  "toggle_arm i = desk_patch (\<lambda>d. d\<lparr>de_disarmedPeers :=
     (if i \<in> set (de_disarmedPeers d) then filter (\<lambda>p. p \<noteq> i) (de_disarmedPeers d) else de_disarmedPeers d @ [i])\<rparr>)"

definition desk_stop_take :: "desk_session \<Rightarrow> desk_session" where
  "desk_stop_take s = (case de_activeTakeId (dx_state s) of None \<Rightarrow> s | Some t \<Rightarrow> desk_does (SendSignal (TakeStop t)) s)"

definition rename_peer :: "string \<Rightarrow> string \<Rightarrow> desk_session \<Rightarrow> desk_session" where
  "rename_peer i lbl = desk_does (SendSignal (PeerUpdate i (normalize_nickname lbl)))"

text \<open>When the repeats of the chirp sound, in seconds, and what is announced.\<close>

definition chirp_times :: "chirp_spec \<Rightarrow> real \<Rightarrow> real list" where
  "chirp_times spec now = map (\<lambda>i. now + 0.15 + of_nat i * (durationMs spec + gapMs spec) / 1000) [0..<repeats spec]"

definition chirp_played :: "string \<Rightarrow> real \<Rightarrow> int \<Rightarrow> desk_session \<Rightarrow> desk_session" where
  "chirp_played chirpId emitUs now s =
     desk_patch (\<lambda>d. d\<lparr>de_lastChirpAt := Some now\<rparr>) (desk_does (SendSignal (CalibrationChirp chirpId emitUs default_chirp_spec)) s)"

definition push_error :: "string \<Rightarrow> desk_session \<Rightarrow> desk_session" where
  "push_error m s =
     desk_does (ExpireError m error_ttl_ms)
       (desk_patch (\<lambda>d. d\<lparr>de_errors := drop (length (de_errors d) - 4) (de_errors d) @ [m]\<rparr>) s)"

definition dismiss_error :: "nat \<Rightarrow> desk_session \<Rightarrow> desk_session" where
  "dismiss_error i = desk_patch (\<lambda>d. d\<lparr>de_errors := take i (de_errors d) @ drop (Suc i) (de_errors d)\<rparr>)"

fun index_of :: "'a \<Rightarrow> 'a list \<Rightarrow> nat option" where
  "index_of x [] = None"
| "index_of x (y # ys) = (if x = y then Some 0 else map_option Suc (index_of x ys))"

definition error_expires :: "string \<Rightarrow> desk_session \<Rightarrow> desk_session" where
  "error_expires m s = (case index_of m (de_errors (dx_state s)) of None \<Rightarrow> s | Some i \<Rightarrow> dismiss_error i s)"

definition delete_streams_call :: "stream_ref list \<Rightarrow> desk_session \<Rightarrow> desk_session" where
  "delete_streams_call refs s =
     (if refs = [] then s
      else if \<not> cs_connected (dx_sig s) then push_error ''delete failed: signaling offline'' s
      else desk_does (SendSignal (StreamsDelete refs)) s)"

definition seed_archived :: "stream_meta list \<Rightarrow> desk_session \<Rightarrow> desk_session" where
  "seed_archived metas s =
     (let plan = plan_stream_seed (de_streams (dx_state s)) metas;
          s = s\<lparr>dx_out := dx_out s @ map (\<lambda>(t, u, n). PostWorker (SetFinal t u n)) (sp_setFinal plan)\<rparr>
      in case sp_streams plan of None \<Rightarrow> s
         | Some ss \<Rightarrow> exchange_haves (desk_patch (\<lambda>d. d\<lparr>de_streams := ss\<rparr>) s))"

definition assemble_call :: "string \<Rightarrow> string \<Rightarrow> nat \<Rightarrow> desk_session \<Rightarrow> desk_session" where
  "assemble_call t u x s = (let (m, l) = link_assemble t u (ForFlac x) (dx_link s) in desk_does (PostWorker m) (s\<lparr>dx_link := l\<rparr>))"

subsection \<open>Control messages\<close>

definition on_welcome :: "take_info option \<Rightarrow> desk_session \<Rightarrow> desk_session" where
  "on_welcome active s =
     sync_ensure
       (case active of
          Some t \<Rightarrow>
            if de_activeTakeId (dx_state s) = Some (ti_takeId t) then s
            else desk_patch (\<lambda>d. d\<lparr>de_activeTakeId := Some (ti_takeId t), de_takeStartedAt := Some (ti_startedAt t)\<rparr>)
                   (s\<lparr>dx_takeStart := Some \<lparr>tk_takeId = ti_takeId t, tk_hint = ti_startedAt t, tk_disarmed = nonempty (ti_disarmedPeerIds t)\<rparr>\<rparr>)
        | None \<Rightarrow>
            (case dx_takeStart s of
               Some k \<Rightarrow> desk_does (SendSignal (start_message k)) s
             | None \<Rightarrow> desk_patch (\<lambda>d. d\<lparr>de_activeTakeId := None\<rparr>) s))"

definition streams_deleted :: "stream_ref list \<Rightarrow> string list \<Rightarrow> desk_session \<Rightarrow> desk_session" where
  "streams_deleted refs gone s =
     (let ids = map sr_streamId refs
      in desk_does (StreamsGone (remdups ids) gone)
           (desk_patch (drop_deleted ids)
             (desk_does (PostWorker Status)
               (desk_does (PostWorker (DeleteStreams (map (\<lambda>r. (sr_takeId r, sr_streamId r)) refs))) s))))"

fun desk_signal :: "int \<Rightarrow> signaling_message \<Rightarrow> desk_session \<Rightarrow> desk_session" where
  "desk_signal now (Welcome pid v sess) s = on_welcome (ss_activeTake sess) s"
| "desk_signal now (TakeStart t hint dis) s =
     (let s = s\<lparr>dx_takeStart := Some \<lparr>tk_takeId = t, tk_hint = hint, tk_disarmed = nonempty dis\<rparr>\<rparr>
      in if de_activeTakeId (dx_state s) = Some t then s
         else desk_patch (\<lambda>d. d\<lparr>de_activeTakeId := Some t, de_takeStartedAt := Some now\<rparr>) s)"
| "desk_signal now (TakeStop t) s =
     (let s = (if map_option tk_takeId (dx_takeStart s) = Some t then s\<lparr>dx_takeStart := None\<rparr> else s)
      in exchange_haves (broadcast_acks (desk_patch (\<lambda>d. d\<lparr>de_activeTakeId := None\<rparr>) s)))"
| "desk_signal now (StreamAnnounce t u p) s = desk_patch (\<lambda>d. d\<lparr>de_streams := upsert_announced t u p (de_streams d)\<rparr>) s"
| "desk_signal now (StreamFinal t u n p) s =
     desk_patch (\<lambda>d. d\<lparr>de_streams := with_stream_final u n (de_streams d)\<rparr>) (desk_does (PostWorker (SetFinal t u n)) s)"
| "desk_signal now (StreamsDeleted refs gone) s = streams_deleted refs gone s"
| "desk_signal now (IceOffer target from_peer sdp) s =
     (case from_peer of None \<Rightarrow> s
      | Some p \<Rightarrow> if p = [] \<or> p = server_peer_id then s
                  else (desk_does (AnswerOffer (dx_nextConn s) p sdp) s)\<lparr>dx_nextConn := dx_nextConn s + 1\<rparr>)"
| "desk_signal now (ErrorMsg code txt fatal) s = (if fatal then s else push_error (code @ '': '' @ txt) s)"
| "desk_signal now _ s = s"

text \<open>The client's state as the desk mirrors it.\<close>

definition desk_state_changed :: "desk_session \<Rightarrow> desk_session" where
  "desk_state_changed s =
     (let s = desk_patch (\<lambda>d. d\<lparr>de_signalingConnected := cs_connected (dx_sig s), de_peerId := cs_peerId (dx_sig s),
                de_session := cs_session (dx_sig s), de_fatal := cs_fatal (dx_sig s)\<rparr>) s
      in if cs_connected (dx_sig s) then sync_ensure s else s)"

definition desk_hears :: "int \<Rightarrow> signaling_message \<Rightarrow> desk_session \<Rightarrow> desk_session" where
  "desk_hears now m s =
     (let c = dx_sig s; s = s\<lparr>dx_sig := snd (client_message m c)\<rparr>;
          s = (if client_notifies m c then desk_state_changed s else s)
      in desk_signal now m s)"

definition desk_socket_lost :: "desk_session \<Rightarrow> desk_session" where
  "desk_socket_lost s = desk_state_changed (s\<lparr>dx_sig := (dx_sig s)\<lparr>cs_connected := False, cs_peerId := None\<rparr>\<rparr>)"

definition desk_take_over :: "desk_session \<Rightarrow> desk_session" where
  "desk_take_over s =
     (if cs_fatal (dx_sig s) = None then s
      else desk_does ReopenSignaling (desk_state_changed (s\<lparr>dx_sig := (dx_sig s)\<lparr>cs_fatal := None\<rparr>\<rparr>)))"

definition desk_close :: "desk_session \<Rightarrow> desk_session" where
  "desk_close s = desk_does CloseDesk (s\<lparr>dx_conns := [], dx_out := dx_out s @ map DisposeConn (dx_conns s)\<rparr>)"

subsection \<open>Answers of the worker\<close>

definition serve_waiter :: "desk_env \<Rightarrow> desk_waiter \<Rightarrow> bytes list \<Rightarrow> desk_session \<Rightarrow> desk_session" where
  "serve_waiter env x frames s =
     (case x of
        ForAcks \<Rightarrow> acks_to_conns env frames (dx_conns s) s
      | ForHaves i \<Rightarrow> send_burst env frames i s
      | ForPush \<Rightarrow> push_to_server env frames s
      | ForFlac n \<Rightarrow> s)"

definition worker_says :: "desk_env \<Rightarrow> from_sink \<Rightarrow> desk_session \<Rightarrow> desk_session" where
  "worker_says env m s =
     (let (ev, l) = link_receive m (dx_link s); s = s\<lparr>dx_link := l\<rparr>
      in case ev of
           BootDone n \<Rightarrow> desk_patch (\<lambda>d. d\<lparr>de_rebuiltChunks := n\<rparr>) s
         | ReplyTo i b \<Rightarrow> send_to_conn env i b s
         | PushFor k rs \<Rightarrow>
             if rs = [] then s
             else (let (q, l) = link_get_frames (fst k) (snd k) rs ForPush (dx_link s) in desk_does (PostWorker q) (s\<lparr>dx_link := l\<rparr>))
         | FramesFor x fs \<Rightarrow> serve_waiter env x fs s
         | StatusIs ss \<Rightarrow> desk_patch (\<lambda>d. d\<lparr>de_deskStatus := ss\<rparr>) s
         | FlacFor x b \<Rightarrow> (case x of ForFlac n \<Rightarrow> desk_does (FlacDone n b) s | _ \<Rightarrow> s)
         | LinkError \<Rightarrow> push_error ''sink worker'' s
         | Nobody \<Rightarrow> s)"

subsection \<open>The session among its events\<close>

datatype desk_event =
    DeskHears int signaling_message
  | DeskSocketLost
  | SyncOpens nat data_channel
  | SyncFails nat
  | SyncDowns nat
  | SyncRetries
  | RecorderOpens nat data_channel
  | RecorderCloses nat
  | RecorderFails nat
  | AnswerReady string string
  | ChannelStops nat
  | RecorderFrame nat nat bytes
  | ServerFrame nat nat bytes
  | BufferLow nat nat
  | WorkerSays from_sink
  | WasmReady
  | AckTick
  | HaveTick
  | StatusTick
  | StartTake string int
  | StopTakeCall
  | ToggleArm string
  | RenamePeer string string
  | ChirpPlayed string real int
  | DeleteStreamsCall "stream_ref list"
  | SeedArchived "stream_meta list"
  | AssembleCall string string nat
  | DismissError nat
  | ErrorExpires string
  | DeskTakeOver
  | DeskClose

fun desk_step :: "desk_env \<Rightarrow> desk_session \<Rightarrow> desk_event \<Rightarrow> desk_session" where
  "desk_step env s (DeskHears now m) = desk_hears now m s"
| "desk_step env s DeskSocketLost = desk_socket_lost s"
| "desk_step env s (SyncOpens i c) =
     (if i \<in> set (dx_opening s) then sync_opens i c (s\<lparr>dx_opening := remove1 i (dx_opening s)\<rparr>) else s)"
| "desk_step env s (SyncFails i) =
     (if i \<in> set (dx_opening s) then sync_fails (s\<lparr>dx_opening := remove1 i (dx_opening s)\<rparr>) else s)"
| "desk_step env s (SyncDowns i) = sync_down i s"
| "desk_step env s SyncRetries = sync_ensure s"
| "desk_step env s (RecorderOpens i c) = add_conn i c s"
| "desk_step env s (RecorderCloses i) = conn_closes i s"
| "desk_step env s (RecorderFails i) = conn_fails i s"
| "desk_step env s (AnswerReady p sdp) = desk_does (SendSignal (IceAnswer p None sdp)) s"
| "desk_step env s (ChannelStops i) =
     (case jm_get (dx_chans s) i of None \<Rightarrow> s | Some c \<Rightarrow> s\<lparr>dx_chans := jm_set i (c\<lparr>dc_open := False\<rparr>) (dx_chans s)\<rparr>)"
| "desk_step env s (RecorderFrame now i b) = desk_recorder_frame env now i b s"
| "desk_step env s (ServerFrame now i b) = server_frame env now i b s"
| "desk_step env s (BufferLow i left) = buffer_low env i left s"
| "desk_step env s (WorkerSays m) = worker_says env m s"
| "desk_step env s WasmReady = s\<lparr>dx_wasmReady := True\<rparr>"
| "desk_step env s AckTick = broadcast_acks s"
| "desk_step env s HaveTick = exchange_haves s"
| "desk_step env s StatusTick = desk_does (PostWorker Status) s"
| "desk_step env s (StartTake t wall) = start_take t wall s"
| "desk_step env s StopTakeCall = desk_stop_take s"
| "desk_step env s (ToggleArm i) = toggle_arm i s"
| "desk_step env s (RenamePeer i lbl) = rename_peer i lbl s"
| "desk_step env s (ChirpPlayed i ts now) = chirp_played i ts now s"
| "desk_step env s (DeleteStreamsCall refs) = delete_streams_call refs s"
| "desk_step env s (SeedArchived ms) = seed_archived ms s"
| "desk_step env s (AssembleCall t u n) = assemble_call t u n s"
| "desk_step env s (DismissError i) = dismiss_error i s"
| "desk_step env s (ErrorExpires m) = error_expires m s"
| "desk_step env s DeskTakeOver = desk_take_over s"
| "desk_step env s DeskClose = desk_close s"

subsection \<open>The rolling take\<close>

text \<open>The last word of the room on its take, event by event: what a desk should hold.\<close>

definition take_of_info :: "take_info \<Rightarrow> take_start" where
  "take_of_info t = \<lparr>tk_takeId = ti_takeId t, tk_hint = ti_startedAt t, tk_disarmed = nonempty (ti_disarmedPeerIds t)\<rparr>"

fun last_take :: "take_start option \<Rightarrow> desk_event \<Rightarrow> take_start option" where
  "last_take k (DeskHears now (TakeStart t h d)) = Some \<lparr>tk_takeId = t, tk_hint = h, tk_disarmed = nonempty d\<rparr>"
| "last_take k (DeskHears now (TakeStop t)) = (if map_option tk_takeId k = Some t then None else k)"
| "last_take k (DeskHears now (Welcome p v sess)) =
     (case ss_activeTake sess of None \<Rightarrow> k | Some t \<Rightarrow> if map_option tk_takeId k = Some (ti_takeId t) then k else Some (take_of_info t))"
| "last_take k e = k"

text \<open>A stop names the take that rolls, if one does.\<close>

definition stops_own :: "desk_session \<Rightarrow> desk_event \<Rightarrow> bool" where
  "stops_own s e \<longleftrightarrow>
     (case e of DeskHears now m \<Rightarrow> (case m of TakeStop t \<Rightarrow> de_activeTakeId (dx_state s) \<in> {None, Some t} | _ \<Rightarrow> True) | _ \<Rightarrow> True)"

definition keeps_take :: "desk_session \<Rightarrow> desk_session \<Rightarrow> bool" where
  "keeps_take s s' \<longleftrightarrow> dx_takeStart s' = dx_takeStart s \<and> de_activeTakeId (dx_state s') = de_activeTakeId (dx_state s)"

lemma keeps_take_refl [simp]: "keeps_take s s"
  by (simp add: keeps_take_def)

lemma keeps_take_trans: "keeps_take s t \<Longrightarrow> keeps_take t u \<Longrightarrow> keeps_take s u"
  by (simp add: keeps_take_def)

lemma does_keeps [simp]: "keeps_take s (desk_does x s)"
  by (simp add: keeps_take_def desk_does_def)

lemma does_takes [simp]: "dx_takeStart (desk_does x s) = dx_takeStart s" "dx_state (desk_does x s) = dx_state s"
  by (simp_all add: desk_does_def)

lemma ask_takes [simp]: "dx_takeStart (ask_worker q x s) = dx_takeStart s" "dx_state (ask_worker q x s) = dx_state s"
  by (simp_all add: ask_worker_def split: prod.split)

lemma haves_takes [simp]: "dx_takeStart (exchange_haves s) = dx_takeStart s" "dx_state (exchange_haves s) = dx_state s"
  by (simp_all add: exchange_haves_def split: option.split)

lemma burst_takes [simp]: "dx_takeStart (send_burst env fs i s) = dx_takeStart s" "dx_state (send_burst env fs i s) = dx_state s"
  by (simp_all add: send_burst_def split: option.split)

lemma pump_takes [simp]: "dx_takeStart (pump_channel env i fs s) = dx_takeStart s" "dx_state (pump_channel env i fs s) = dx_state s"
  by (simp_all add: pump_channel_def Let_def split: option.split prod.split)

lemma pump_all_takes [simp]: "dx_takeStart (pump_all env ps s) = dx_takeStart s" "dx_state (pump_all env ps s) = dx_state s"
  by (induction ps arbitrary: s) auto

lemma acks_takes [simp]: "dx_takeStart (acks_to_conns env fs is s) = dx_takeStart s" "dx_state (acks_to_conns env fs is s) = dx_state s"
  by (induction "is" arbitrary: s) simp_all

lemma sync_keeps: "keeps_take s (sync_ensure s)" "keeps_take s (sync_opens i c s)" "keeps_take s (sync_fails s)" "keeps_take s (sync_down i s)"
  by (simp_all add: keeps_take_def sync_ensure_def sync_opens_def sync_fails_def sync_down_def set_sync_def desk_patch_def add_conn_def
      remove_conn_def split: option.split)

lemma frames_keep: "keeps_take s (desk_recorder_frame env now i b s)" "keeps_take s (server_frame env now i b s)"
  by (auto simp: keeps_take_def desk_recorder_frame_def server_frame_def intercept_meter_def desk_patch_def split: option.split)

lemma error_keeps: "keeps_take s (push_error m s)" "keeps_take s (dismiss_error i s)" "keeps_take s (error_expires m s)"
  by (simp_all add: keeps_take_def push_error_def dismiss_error_def error_expires_def desk_patch_def split: option.split)

lemma state_keeps: "keeps_take s (desk_state_changed (s\<lparr>dx_sig := c\<rparr>))"
  using sync_keeps(1) by (simp add: keeps_take_def desk_state_changed_def desk_patch_def Let_def)

lemma serve_keeps: "keeps_take s (serve_waiter env x fs s)"
  by (simp add: keeps_take_def serve_waiter_def push_to_server_def split: desk_waiter.split option.split)

lemma worker_keeps: "keeps_take s (worker_says env m s)"
proof -
  obtain ev l where r: "link_receive m (dx_link s) = (ev, l)" by fastforce
  let ?s = "s\<lparr>dx_link := l\<rparr>"
  have s: "keeps_take s ?s" by (simp add: keeps_take_def)
  show ?thesis
  proof (cases ev)
    case (FramesFor x fs)
    with r keeps_take_trans [OF s serve_keeps] show ?thesis by (simp add: worker_says_def)
  next
    case LinkError
    with r keeps_take_trans [OF s error_keeps(1)] show ?thesis by (simp add: worker_says_def)
  qed (use r in \<open>auto simp: worker_says_def keeps_take_def desk_patch_def send_to_conn_def link_get_frames_def Let_def
      split: desk_waiter.split prod.split\<close>)
qed

lemma hears_signal: "\<exists>t. keeps_take s t \<and> desk_hears now m s = desk_signal now m t"
proof -
  let ?s = "s\<lparr>dx_sig := snd (client_message m (dx_sig s))\<rparr>"
  have "keeps_take s (if client_notifies m (dx_sig s) then desk_state_changed ?s else ?s)"
    using state_keeps by (simp add: keeps_take_def)
  then show ?thesis by (auto simp: desk_hears_def Let_def)
qed

definition follows :: "take_start option \<Rightarrow> desk_session \<Rightarrow> bool" where
  "follows k s \<longleftrightarrow> dx_takeStart s = k \<and> de_activeTakeId (dx_state s) = map_option tk_takeId k"

lemma follows_keeps: "keeps_take s s' \<Longrightarrow> follows k s \<Longrightarrow> follows k s'"
  by (simp add: follows_def keeps_take_def)

lemma signal_follows:
  assumes f: "follows k s" and ok: "stops_own s (DeskHears now m)"
  shows "follows (last_take k (DeskHears now m)) (desk_signal now m s)"
proof (cases m)
  case (Welcome p v sess)
  then show ?thesis using f sync_keeps(1)
    by (auto simp: follows_def on_welcome_def keeps_take_def desk_patch_def take_of_info_def split: option.split)
next
  case (TakeStop t)
  then show ?thesis using f ok
    by (auto simp: follows_def stops_own_def broadcast_acks_def desk_patch_def Let_def)
next
  case (ErrorMsg code why fatal)
  then show ?thesis using f follows_keeps [OF error_keeps(1)] by simp
qed (use f in \<open>auto simp: follows_def desk_patch_def streams_deleted_def drop_deleted_def Let_def split: option.split\<close>)

lemma calls_keep:
  "keeps_take s (s\<lparr>dx_opening := os\<rparr>)" "keeps_take s (add_conn i c s)" "keeps_take s (conn_closes i s)"
  "keeps_take s (conn_fails i s)" "keeps_take s (buffer_low env i n s)" "keeps_take s (s\<lparr>dx_wasmReady := b\<rparr>)"
  "keeps_take s (broadcast_acks s)" "keeps_take s (exchange_haves s)" "keeps_take s (start_take t wall s)"
  "keeps_take s (desk_stop_take s)" "keeps_take s (toggle_arm p s)" "keeps_take s (rename_peer p l s)"
  "keeps_take s (chirp_played x ts now s)" "keeps_take s (delete_streams_call refs s)" "keeps_take s (seed_archived ms s)"
  "keeps_take s (assemble_call t u n s)" "keeps_take s (desk_close s)"
  "keeps_take s (case jm_get (dx_chans s) i of None \<Rightarrow> s | Some c \<Rightarrow> s\<lparr>dx_chans := jm_set i (f c) (dx_chans s)\<rparr>)"
  using error_keeps(1) by (auto simp: keeps_take_def add_conn_def conn_closes_def conn_fails_def remove_conn_def buffer_low_def
      broadcast_acks_def start_take_def desk_stop_take_def toggle_arm_def rename_peer_def chirp_played_def delete_streams_call_def
      seed_archived_def assemble_call_def link_assemble_def desk_close_def desk_patch_def Let_def split: option.split)

lemma step_keeps:
  assumes "\<And>now m. e \<noteq> DeskHears now m"
  shows "keeps_take s (desk_step env s e)"
proof (cases e)
  case (SyncOpens i c)
  then show ?thesis using keeps_take_trans [OF calls_keep(1) sync_keeps(2)] by simp
next
  case (SyncFails i)
  then show ?thesis using keeps_take_trans [OF calls_keep(1) sync_keeps(3)] by simp
next
  case DeskTakeOver
  then show ?thesis using keeps_take_trans [OF state_keeps does_keeps] by (simp add: desk_take_over_def)
next
  case DeskSocketLost
  then show ?thesis using state_keeps by (simp add: desk_socket_lost_def)
qed (use assms in \<open>simp_all add: sync_keeps frames_keep error_keeps worker_keeps calls_keep\<close>)

lemma step_follows:
  assumes f: "follows k s" and ok: "stops_own s e"
  shows "follows (last_take k e) (desk_step env s e)"
proof (cases "\<exists>now m. e = DeskHears now m")
  case True
  then obtain now m where e: "e = DeskHears now m" by blast
  obtain t where t: "keeps_take s t" "desk_hears now m s = desk_signal now m t" using hears_signal by blast
  then have "stops_own t (DeskHears now m)" using ok e by (simp add: stops_own_def keeps_take_def)
  from signal_follows [OF follows_keeps [OF t(1) f] this] t(2) e show ?thesis by simp
next
  case False
  then have "last_take k e = k" by (cases e) auto
  with follows_keeps [OF step_keeps f] False show ?thesis by simp
qed

lemma run_follows:
  "follows k s \<Longrightarrow> legal (desk_step env) stops_own s es \<Longrightarrow> follows (run last_take k es) (run (desk_step env) s es)"
  by (induction es arbitrary: k s) (simp_all add: step_follows del: desk_step.simps last_take.simps)

definition extends_out :: "desk_session \<Rightarrow> desk_session \<Rightarrow> bool" where
  "extends_out s s' \<longleftrightarrow> (\<exists>xs. dx_out s' = dx_out s @ xs)"

lemma extends_out_simps [simp]: "extends_out s s" "extends_out s (desk_does x s)" "extends_out s (desk_patch f s)"
  "extends_out s (sync_ensure s)"
  by (auto simp: extends_out_def desk_does_def desk_patch_def sync_ensure_def set_sync_def)

lemma extends_out_trans: "extends_out s t \<Longrightarrow> extends_out t u \<Longrightarrow> extends_out s u"
  by (auto simp: extends_out_def)

lemma state_extends: "extends_out s (desk_state_changed (s\<lparr>dx_sig := c\<rparr>))"
proof -
  have 1: "extends_out s (desk_patch f (s\<lparr>dx_sig := c\<rparr>))" for f by (simp add: extends_out_def desk_patch_def)
  then have "extends_out s (sync_ensure (desk_patch f (s\<lparr>dx_sig := c\<rparr>)))" for f
    using extends_out_trans extends_out_simps(4) by blast
  with 1 show ?thesis by (simp add: desk_state_changed_def Let_def)
qed

text \<open>An empty room is told the take again, as it was last heard.\<close>

lemma empty_room_reasserts:
  assumes "dx_takeStart s = Some k" "ss_activeTake sess = None"
  shows "\<exists>xs ys. dx_out (desk_hears now (Welcome p v sess) s) = dx_out s @ xs @ [SendSignal (start_message k)] @ ys"
proof -
  define t where "t = desk_state_changed (s\<lparr>dx_sig := snd (client_message (Welcome p v sess) (dx_sig s))\<rparr>)"
  have k: "dx_takeStart t = Some k" using state_keeps assms(1) by (simp add: t_def keeps_take_def)
  obtain xs where xs: "dx_out t = dx_out s @ xs" using state_extends by (fastforce simp: t_def extends_out_def)
  obtain ys where ys: "dx_out (sync_ensure (desk_does (SendSignal (start_message k)) t)) = dx_out (desk_does (SendSignal (start_message k)) t) @ ys"
    using extends_out_simps(4) by (fastforce simp: extends_out_def)
  have "desk_hears now (Welcome p v sess) s = sync_ensure (desk_does (SendSignal (start_message k)) t)"
    using k assms(2) by (simp add: desk_hears_def client_notifies_def t_def on_welcome_def)
  with xs ys show ?thesis by (auto simp: desk_does_def)
qed

text \<open>C29. The desk holds the room's last word on its take, as long as every stop it hears names the take it shows, if it shows
  one. However control messages, lost sockets, frames, answers of the worker, channels and calls interleave, the take the
  desk shows is the one of the last start heard or adopted that was not stopped, kept with its original hint and disarmed
  lanes, so a stop names it and a room that came back empty is told exactly that start again. A stop of another take, which
  two desks that race can produce, hides the rolling one: \<open>foreign_stop_hides_take\<close> below.\<close>

theorem desk_follows_the_take:
  assumes "legal (desk_step env) stops_own (desk_start sess) es"
  defines "s \<equiv> run (desk_step env) (desk_start sess) es" and "k \<equiv> run last_take None es"
  shows "dx_takeStart s = k \<and> de_activeTakeId (dx_state s) = map_option tk_takeId k
     \<and> (\<forall>t. k = Some t \<longrightarrow> dx_out (desk_step env s StopTakeCall) = dx_out s @ [SendSignal (TakeStop (tk_takeId t))])
     \<and> (\<forall>t now p v room. k = Some t \<and> ss_activeTake room = None \<longrightarrow>
          (\<exists>xs ys. dx_out (desk_step env s (DeskHears now (Welcome p v room))) = dx_out s @ xs @ [SendSignal (start_message t)] @ ys))"
proof -
  have "follows None (desk_start sess)" by (simp add: follows_def desk_start_def new_desk_session_def initial_desk_state_def)
  from run_follows [OF this assms(1)] have f: "dx_takeStart s = k" "de_activeTakeId (dx_state s) = map_option tk_takeId k"
    by (simp_all add: follows_def s_def k_def)
  have "dx_out (desk_step env s StopTakeCall) = dx_out s @ [SendSignal (TakeStop (tk_takeId t))]" if "k = Some t" for t
    using f that by (simp add: desk_stop_take_def desk_does_def)
  with f show ?thesis using empty_room_reasserts by simp
qed

definition sample_desk_env :: desk_env where
  "sample_desk_env = \<lparr>dv_sends = \<lambda>_ _. True, dv_f32 = \<lambda>_. None\<rparr>"

definition empty_room :: session_state where
  "empty_room = \<lparr>ss_sessionId = ''s'', ss_peers = [], ss_activeTake = None\<rparr>"

definition server_reboots :: "desk_event list" where
  "server_reboots = [DeskHears 1 (Welcome ''me'' 1 empty_room), ToggleArm ''p'', StartTake ''t'' 5, DeskHears 6 (TakeStart ''t'' 5 (Some [''p''])),
     DeskSocketLost]"

lemmas desk_eval = desk_start_def new_desk_session_def initial_desk_state_def desk_hears_def client_message_def client_notifies_def
  desk_state_changed_def sync_ensure_def set_sync_def desk_patch_def desk_does_def on_welcome_def start_take_def toggle_arm_def
  desk_stop_take_def desk_socket_lost_def nonempty_def start_message_def Let_def

theorem desk_follows_the_take_witness:
  "\<exists>s xs ys. s = run (desk_step sample_desk_env) (desk_start ''s'') server_reboots
     \<and> dx_out (desk_step sample_desk_env s (DeskHears 9 (Welcome ''me'' 1 empty_room)))
         = dx_out s @ xs @ [SendSignal (TakeStart ''t'' 5 (Some [''p'']))] @ ys"
proof -
  have "legal (desk_step sample_desk_env) stops_own (desk_start ''s'') server_reboots"
    by (simp add: server_reboots_def stops_own_def)
  from desk_follows_the_take [OF this]
  have "\<exists>xs ys. dx_out (desk_step sample_desk_env (run (desk_step sample_desk_env) (desk_start ''s'') server_reboots)
      (DeskHears 9 (Welcome ''me'' 1 empty_room)))
    = dx_out (run (desk_step sample_desk_env) (desk_start ''s'') server_reboots) @ xs @ [SendSignal (TakeStart ''t'' 5 (Some [''p'']))] @ ys"
    by (simp add: server_reboots_def empty_room_def nonempty_def start_message_def)
  then show ?thesis by blast
qed

text \<open>
  A stop that names another take, as when two desks race, empties the shown take while the desk's own still rolls: nothing stops
  it from this desk any more.
\<close>

lemma foreign_stop_hides_take:
  "let s = run (desk_step env) (desk_start sess) [DeskHears 1 (TakeStart ''a'' 0 None), DeskHears 2 (TakeStart ''b'' 0 None),
     DeskHears 3 (TakeStop ''a'')]
   in map_option tk_takeId (dx_takeStart s) = Some ''b'' \<and> de_activeTakeId (dx_state s) = None
     \<and> desk_step env s StopTakeCall = s"
  by (simp add: desk_eval broadcast_acks_def ask_worker_def link_request_def exchange_haves_def)

text \<open>
  A stop whose echo is lost with the socket is undone: the room has ended the take and comes back empty, and the desk starts it
  again.
\<close>

lemma stopped_take_restarts:
  "let s = run (desk_step env) (desk_start sess) [DeskHears 1 (Welcome ''me'' 1 empty_room), DeskHears 2 (TakeStart ''t'' 0 None),
     StopTakeCall, DeskSocketLost, DeskHears 3 (Welcome ''me'' 1 empty_room)]
   in filter (\<lambda>x. \<exists>m. x = SendSignal m) (dx_out s) = [SendSignal (TakeStop ''t''), SendSignal (TakeStart ''t'' 0 None)]"
  by (simp add: desk_eval empty_room_def)

subsection \<open>Seeding from the archive\<close>

definition unsettled :: "stream_meta list \<Rightarrow> stream_meta \<Rightarrow> bool" where
  "unsettled current m \<longleftrightarrow> (case known_stream (sm_streamId m) current of None \<Rightarrow> True | Some k \<Rightarrow> sm_finalSeq k = None)"

definition final_of :: "stream_meta \<Rightarrow> (string \<times> string \<times> nat) list" where
  "final_of m = (case sm_finalSeq m of None \<Rightarrow> [] | Some n \<Rightarrow> [(sm_takeId m, sm_streamId m, n)])"

lemma seed_scan_eq:
  "seed_scan current ms =
     (concat (map final_of (filter (unsettled current) ms)), filter (\<lambda>m. known_stream (sm_streamId m) current = None) ms,
      \<exists>m \<in> set ms. known_stream (sm_streamId m) current \<noteq> None \<and> unsettled current m \<and> sm_finalSeq m \<noteq> None)"
  by (induction ms) (auto simp: Let_def unsettled_def final_of_def split: option.split)

lemma known_streamD: "known_stream u ss = Some k \<Longrightarrow> k \<in> set ss \<and> sm_streamId k = u"
  by (auto simp: known_stream_def find_Some_iff)

lemma known_stream_None: "known_stream u ss = None \<longleftrightarrow> u \<notin> sm_streamId ` set ss"
  by (auto simp: known_stream_def find_None_iff)

lemma known_stream_append: "known_stream u (xs @ ys) = (case known_stream u xs of None \<Rightarrow> known_stream u ys | Some k \<Rightarrow> Some k)"
  by (induction xs) (auto simp: known_stream_def)

lemma known_stream_map: "(\<And>s. sm_streamId (f s) = sm_streamId s) \<Longrightarrow> known_stream u (map f xs) = map_option f (known_stream u xs)"
  by (induction xs) (auto simp: known_stream_def)

lemma known_stream_mem: "distinct (map sm_streamId ss) \<Longrightarrow> m \<in> set ss \<Longrightarrow> known_stream (sm_streamId m) ss = Some m"
  by (induction ss) (auto simp: known_stream_def)

lemma rev_lookup: "distinct (map fst kv) \<Longrightarrow> map_of (rev kv) u = map_of kv u"
  by (metis distinct_rev map_of_eq_Some_iff not_Some_eq rev_map set_rev)

lemma seeded_final_mem:
  assumes d: "distinct (map sm_streamId metas)" and m: "m \<in> set metas"
  shows "seeded_final metas (sm_streamId m) = sm_finalSeq m"
proof -
  let ?kv = "List.map_filter (\<lambda>m. map_option (Pair (sm_streamId m)) (sm_finalSeq m)) metas"
  have keys: "fst ` set (List.map_filter (\<lambda>m. map_option (Pair (sm_streamId m)) (sm_finalSeq m)) xs) \<subseteq> sm_streamId ` set xs" for xs
    by (induction xs) (auto simp: List.map_filter_def split: option.splits)
  have dist: "distinct (map fst ?kv)" using d
  proof (induction metas)
    case (Cons x xs)
    then show ?case using keys [of xs] by (auto split: option.split)
  qed (simp add: List.map_filter_def)
  have mem: "(u, n) \<in> set ?kv \<longleftrightarrow> (\<exists>m \<in> set metas. sm_streamId m = u \<and> sm_finalSeq m = Some n)" for u n
    by (force simp: List.map_filter_def)
  have "map_of ?kv (sm_streamId m) = Some n \<longleftrightarrow> sm_finalSeq m = Some n" for n
    using dist mem d m by (simp add: map_of_eq_Some_iff [OF dist]) (metis known_stream_mem option.inject)
  then have "map_of ?kv (sm_streamId m) = sm_finalSeq m" by (metis not_Some_eq)
  then show ?thesis using dist using rev_lookup [OF dist] by (simp add: seeded_final_def)
qed

definition seeded :: "stream_meta list \<Rightarrow> stream_meta \<Rightarrow> stream_meta" where
  "seeded metas s = (case seeded_final metas (sm_streamId s) of
     Some n \<Rightarrow> if sm_finalSeq s = None then s\<lparr>sm_finalSeq := Some n\<rparr> else s | None \<Rightarrow> s)"

lemma seeded_simps [simp]: "sm_streamId (seeded metas s) = sm_streamId s" "sm_takeId (seeded metas s) = sm_takeId s"
  "sm_peerId (seeded metas s) = sm_peerId s" "sm_finalSeq s \<noteq> None \<Longrightarrow> seeded metas s = s"
  "sm_finalSeq (seeded metas s) = (if sm_finalSeq s = None then seeded_final metas (sm_streamId s) else sm_finalSeq s)"
  by (auto simp: seeded_def split: option.split)

definition after_seed :: "stream_meta list \<Rightarrow> stream_meta list \<Rightarrow> stream_meta list" where
  "after_seed current metas = (case sp_streams (plan_stream_seed current metas) of None \<Rightarrow> current | Some ss \<Rightarrow> ss)"

text \<open>Nothing to add and nothing to finalise: the list stays, and so it is with the seeded one.\<close>

lemma after_seed_eq:
  assumes d: "distinct (map sm_streamId metas)" and dc: "distinct (map sm_streamId current)"
  shows "after_seed current metas = map (seeded metas) current @ filter (\<lambda>m. known_stream (sm_streamId m) current = None) metas"
proof (cases "sp_streams (plan_stream_seed current metas)")
  case None
  then have n: "filter (\<lambda>m. known_stream (sm_streamId m) current = None) metas = []"
    "\<not> (\<exists>m \<in> set metas. known_stream (sm_streamId m) current \<noteq> None \<and> unsettled current m \<and> sm_finalSeq m \<noteq> None)"
    unfolding plan_stream_seed_def seed_scan_eq by (auto split: if_splits)
  have "seeded metas s = s" if s: "s \<in> set current" for s
  proof (cases "\<exists>m \<in> set metas. sm_streamId m = sm_streamId s")
    case True
    then obtain m where m: "m \<in> set metas" "sm_streamId m = sm_streamId s" by blast
    have "known_stream (sm_streamId m) current = Some s" using known_stream_mem [OF dc s] m(2) by simp
    with n(2) m(1) have "sm_finalSeq s = None \<Longrightarrow> sm_finalSeq m = None" by (auto simp: unsettled_def)
    with seeded_final_mem [OF d m(1)] m(2) show ?thesis by (auto simp: seeded_def split: option.split)
  next
    case False
    then have "seeded_final metas (sm_streamId s) = None"
      by (auto simp: seeded_final_def map_of_eq_None_iff List.map_filter_def)
    then show ?thesis by (simp add: seeded_def)
  qed
  then have "map (seeded metas) current = current" by (simp add: map_idI)
  with None n(1) show ?thesis by (simp add: after_seed_def)
next
  case (Some ss)
  then show ?thesis unfolding after_seed_def
    by (auto simp: plan_stream_seed_def seed_scan_eq seeded_def split: if_splits)
qed

text \<open>Seeding streams from the archive settles at once. The seeded list holds every stream of the archive, with a final
  wherever the archive has one, under ids that stay distinct; a stream the desk already knew keeps its take, its peer and any
  final it had; and seeding the same streams again changes nothing and sets no final.\<close>

theorem seeding_settles:
  assumes metas: "distinct (map sm_streamId metas)" and current: "distinct (map sm_streamId current)"
  defines "after \<equiv> after_seed current metas"
  shows "plan_stream_seed after metas = \<lparr>sp_setFinal = [], sp_streams = None\<rparr> \<and> distinct (map sm_streamId after)
     \<and> (\<forall>m \<in> set metas. \<exists>s \<in> set after. sm_streamId s = sm_streamId m \<and> (sm_finalSeq m \<noteq> None \<longrightarrow> sm_finalSeq s \<noteq> None))
     \<and> (\<forall>s \<in> set current. \<exists>s' \<in> set after. sm_streamId s' = sm_streamId s \<and> sm_takeId s' = sm_takeId s \<and> sm_peerId s' = sm_peerId s
          \<and> (sm_finalSeq s \<noteq> None \<longrightarrow> s' = s))"
proof -
  let ?new = "filter (\<lambda>m. known_stream (sm_streamId m) current = None) metas"
  have after: "after = map (seeded metas) current @ ?new" unfolding after_def by (rule after_seed_eq [OF metas current])
  have known: "\<exists>s. known_stream (sm_streamId m) after = Some s \<and> (sm_finalSeq m \<noteq> None \<longrightarrow> sm_finalSeq s \<noteq> None)"
    if m: "m \<in> set metas" for m
  proof (cases "known_stream (sm_streamId m) current")
    case None
    moreover have "known_stream (sm_streamId m) ?new = Some m"
      using metas m None by (intro known_stream_mem) (auto simp: distinct_map inj_on_def)
    ultimately show ?thesis by (simp add: after known_stream_append known_stream_map)
  next
    case (Some k)
    with seeded_final_mem [OF metas m] known_streamD [OF Some] show ?thesis
      by (simp add: after known_stream_append known_stream_map)
  qed
  have "filter (\<lambda>m. known_stream (sm_streamId m) after = None) metas = []" using known by (fastforce simp: filter_empty_conv)
  moreover have nf: "sm_finalSeq m = None" if "m \<in> set metas" "unsettled after m" for m
    using known [OF that(1)] that(2) by (auto simp: unsettled_def split: option.splits)
  have "final_of m = []" if "m \<in> set metas" "unsettled after m" for m using nf [OF that] by (simp add: final_of_def)
  then have "concat (map final_of (filter (unsettled after) metas)) = []" by simp
  moreover have "\<not> (\<exists>m \<in> set metas. known_stream (sm_streamId m) after \<noteq> None \<and> unsettled after m \<and> sm_finalSeq m \<noteq> None)"
  proof
    assume "\<exists>m \<in> set metas. known_stream (sm_streamId m) after \<noteq> None \<and> unsettled after m \<and> sm_finalSeq m \<noteq> None"
    then obtain m where "m \<in> set metas" "unsettled after m" "sm_finalSeq m \<noteq> None" by (elim bexE conjE)
    with nf show False by simp
  qed
  ultimately have 1: "plan_stream_seed after metas = \<lparr>sp_setFinal = [], sp_streams = None\<rparr>"
    unfolding plan_stream_seed_def seed_scan_eq by simp
  have 2: "distinct (map sm_streamId after)"
  proof -
    have "map sm_streamId after = map sm_streamId current @ map sm_streamId ?new" by (simp add: after comp_def)
    moreover have "distinct (map sm_streamId ?new)" using metas by (auto simp: distinct_map inj_on_def)
    moreover have "set (map sm_streamId current) \<inter> set (map sm_streamId ?new) = {}"
    proof -
      have "u \<notin> set (map sm_streamId ?new)" if "u \<in> set (map sm_streamId current)" for u
        using that known_stream_None by fastforce
      then show ?thesis by blast
    qed
    ultimately show ?thesis using current by simp
  qed
  have 3: "\<exists>s \<in> set after. sm_streamId s = sm_streamId m \<and> (sm_finalSeq m \<noteq> None \<longrightarrow> sm_finalSeq s \<noteq> None)" if "m \<in> set metas" for m
    using known [OF that] known_streamD by blast
  have 4: "\<exists>s' \<in> set after. sm_streamId s' = sm_streamId s \<and> sm_takeId s' = sm_takeId s \<and> sm_peerId s' = sm_peerId s
      \<and> (sm_finalSeq s \<noteq> None \<longrightarrow> s' = s)" if "s \<in> set current" for s
    using that by (intro bexI [of _ "seeded metas s"]) (auto simp: after)
  from 1 2 3 4 show ?thesis by blast
qed

definition archived_stream :: "string \<Rightarrow> nat option \<Rightarrow> stream_meta" where
  "archived_stream u n = \<lparr>sm_takeId = ''t'', sm_streamId = u, sm_peerId = None, sm_finalSeq = n\<rparr>"

theorem seeding_settles_witness:
  "plan_stream_seed (after_seed [archived_stream ''a'' None] [archived_stream ''a'' (Some 4), archived_stream ''b'' None])
     [archived_stream ''a'' (Some 4), archived_stream ''b'' None] = \<lparr>sp_setFinal = [], sp_streams = None\<rparr>"
  using seeding_settles [of "[archived_stream ''a'' (Some 4), archived_stream ''b'' None]" "[archived_stream ''a'' None]"]
  by (simp add: archived_stream_def)

text \<open>
  A sync channel that is closing when a peer status arrives is replaced at once; its close event is then taken for that of a
  stranger, and its connection is neither disposed of nor forgotten.
\<close>

lemma replaced_sync_conn_stays:
  "let c = \<lparr>dc_id = 0, dc_open = True, dc_buffered = 0, dc_sent = []\<rparr>;
       s = run (desk_step env) (desk_start sess) [DeskHears 1 (Welcome ''me'' 1 empty_room), SyncOpens 1 c, ChannelStops 1,
             DeskHears 2 (PeerStatus empty_room), SyncOpens 2 c, SyncDowns 1]
   in dx_conns s = [1, 2] \<and> dx_server s = Some 2 \<and> DisposeConn 1 \<notin> set (dx_out s)"
  by (simp add: desk_eval empty_room_def sync_opens_def add_conn_def exchange_haves_def chan_open_def ask_worker_def
      link_request_def sync_down_def new_worker_link_def)

end
