(* ===== verification/Player_Align.thy ===== *)
theory Player_Align
  imports Timeline_Math Protocol
begin

text \<open>
  How a take is aligned, \<open>apps/web/src/routes/desk/player-align.ts\<close>: the passes over the tracks of a take that write their
  alignment and drift. The three measurements (the chirp search, the correlation of two heads and the drift estimate of
  \<open>packages/dsp\<close>) are parameters; what is made of their results is modelled. Tracks are named by their stream.
\<close>

subsection \<open>Verdicts\<close>

record align_result =
  ar_lagSamples :: real
  ar_confidence :: real
  ar_applied :: bool
  ar_method :: "align_method option"

record drift_result =
  dr_ratio :: real
  dr_ppm :: real
  dr_initialOffsetSamples :: real
  dr_confidence :: real
  dr_windowsUsed :: nat
  dr_applied :: bool
  dr_isReference :: bool

record stored_alignment =
  sa_alignment :: align_result
  sa_drift :: "drift_result option"

record audio_buffer =
  ab_rate :: real
  ab_data :: "real list"

record align_track =
  at_streamId :: string
  at_buffer :: audio_buffer
  at_alignment :: "align_result option"
  at_drift :: "drift_result option"

record drift_estimate =
  de_ratio :: real
  de_ppm :: real
  de_offset :: real
  de_confidence :: real
  de_windows :: nat

text \<open>The measurements: of a head at a rate, of two heads, and of two recordings from their trims on.\<close>

record align_env =
  ae_chirp :: "real list \<Rightarrow> real \<Rightarrow> (real \<times> real) option"
  ae_content :: "real list \<Rightarrow> real list \<Rightarrow> real \<Rightarrow> (real \<times> real) option"
  ae_drift :: "audio_buffer \<Rightarrow> real \<Rightarrow> audio_buffer \<Rightarrow> real \<Rightarrow> drift_estimate"

definition align_window_seconds :: real where "align_window_seconds = 25"
definition content_window_seconds :: real where "content_window_seconds = 60"
definition align_min_confidence :: real where "align_min_confidence = 2.5"
definition content_min_confidence :: real where "content_min_confidence = 2.75"
definition drift_min_confidence :: real where "drift_min_confidence = 0.5"
definition drift_max_ppm :: real where "drift_max_ppm = 1000"

definition chirp_interval_sec :: real where
  "chirp_interval_sec = (durationMs default_chirp_spec + gapMs default_chirp_spec) / 1000"

definition result_method :: "align_result \<Rightarrow> align_method" where
  "result_method r = (case ar_method r of None \<Rightarrow> Chirp | Some m \<Rightarrow> m)"

definition track_applied :: "align_track \<Rightarrow> bool" where
  "track_applied t \<longleftrightarrow> (case at_alignment t of None \<Rightarrow> False | Some r \<Rightarrow> ar_applied r)"

definition track_method :: "align_track \<Rightarrow> align_method" where
  "track_method t = (case at_alignment t of None \<Rightarrow> Chirp | Some r \<Rightarrow> result_method r)"

definition track_lag :: "align_track \<Rightarrow> real" where
  "track_lag t = (case at_alignment t of None \<Rightarrow> 0 | Some r \<Rightarrow> ar_lagSamples r)"

definition head_of :: "real \<Rightarrow> align_track \<Rightarrow> real list" where
  "head_of seconds t = take (nat \<lfloor>js_round (ab_rate (at_buffer t) * seconds)\<rfloor>) (ab_data (at_buffer t))"

subsection \<open>The verdict for the toolbar\<close>

datatype align_outcome =
    Aligned nat "string option" "align_method option"
  | Declined real real
  | AlignFailed string

definition confidence_of :: "align_track \<Rightarrow> real" where
  "confidence_of t = (case at_alignment t of None \<Rightarrow> 0 | Some r \<Rightarrow> ar_confidence r)"

text \<open>The reduction keeps the earlier of two equals; \<open>None\<close> as a method stands for mixed.\<close>

fun best_measured :: "align_track \<Rightarrow> align_track list \<Rightarrow> align_track" where
  "best_measured a [] = a"
| "best_measured a (b # bs) = best_measured (if confidence_of b > confidence_of a then b else a) bs"

definition is_reference :: "align_track \<Rightarrow> bool" where
  "is_reference t \<longleftrightarrow> (case at_drift t of None \<Rightarrow> False | Some d \<Rightarrow> dr_isReference d)"

definition measured_outcome :: "align_track list \<Rightarrow> align_outcome option" where
  "measured_outcome tracks =
     (case filter (\<lambda>t. at_alignment t \<noteq> None) tracks of
        [] \<Rightarrow> None
      | m # ms \<Rightarrow>
          let applied = filter track_applied (m # ms)
          in if applied \<noteq> []
             then let methods = set (map track_method applied)
                  in Some (Aligned (length applied) (map_option at_streamId (find is_reference applied))
                       (if card methods > 1 then None else if Content \<in> methods then Some Content else Some Chirp))
             else let best = best_measured m ms
                  in Some (Declined (confidence_of best)
                       (if track_method best = Content then content_min_confidence else align_min_confidence)))"

definition alignment_outcome :: "string option \<Rightarrow> align_track list \<Rightarrow> align_outcome option" where
  "alignment_outcome alignError tracks =
     (case alignError of None \<Rightarrow> measured_outcome tracks
      | Some m \<Rightarrow> if m \<noteq> [] then Some (AlignFailed m) else measured_outcome tracks)"

subsection \<open>The chirp\<close>

definition in_scope :: "string list option \<Rightarrow> align_track \<Rightarrow> bool" where
  "in_scope scope t \<longleftrightarrow> (case scope of None \<Rightarrow> True | Some ids \<Rightarrow> at_streamId t \<in> set ids)"

definition chirp_verdict :: "align_env \<Rightarrow> align_track \<Rightarrow> align_result" where
  "chirp_verdict env t =
     (case ae_chirp env (head_of align_window_seconds t) (ab_rate (at_buffer t)) of
        None \<Rightarrow> \<lparr>ar_lagSamples = 0, ar_confidence = 0, ar_applied = False, ar_method = Some Chirp\<rparr>
      | Some (lag, c) \<Rightarrow> \<lparr>ar_lagSamples = lag, ar_confidence = c, ar_applied = (c \<ge> align_min_confidence), ar_method = Some Chirp\<rparr>)"

definition chirp_pass :: "align_env \<Rightarrow> string list option \<Rightarrow> align_track list \<Rightarrow> align_track list" where
  "chirp_pass env scope = map (\<lambda>t. if in_scope scope t then t\<lparr>at_alignment := Some (chirp_verdict env t)\<rparr> else t)"

text \<open>A fresh chirp lag means nothing among kept lags that came from content alone.\<close>

definition demote_chirps :: "string list option \<Rightarrow> align_track list \<Rightarrow> align_track list" where
  "demote_chirps scope tracks =
     (let kept = filter (\<lambda>t. \<not> in_scope scope t \<and> track_applied t) tracks
      in if scope = None \<or> kept = [] \<or> (\<exists>t \<in> set kept. track_method t = Chirp) then tracks
         else map (\<lambda>t. if in_scope scope t \<and> track_applied t \<and> track_method t = Chirp
                       then t\<lparr>at_alignment := map_option (ar_applied_update (\<lambda>_. False)) (at_alignment t)\<rparr> else t) tracks)"

subsection \<open>Content\<close>

fun longest :: "align_track \<Rightarrow> align_track list \<Rightarrow> align_track" where
  "longest a [] = a"
| "longest a (b # bs) = longest (if length (ab_data (at_buffer b)) > length (ab_data (at_buffer a)) then b else a) bs"

definition longest_of :: "align_track list \<Rightarrow> align_track" where
  "longest_of ts = longest (hd ts) (tl ts)"

definition anchors_of :: "align_track list \<Rightarrow> align_track list" where
  "anchors_of tracks = filter track_applied tracks"

definition chirp_anchors_of :: "align_track list \<Rightarrow> align_track list" where
  "chirp_anchors_of tracks = filter (\<lambda>t. track_method t = Chirp) (anchors_of tracks)"

definition pending_of :: "string list option \<Rightarrow> align_track list \<Rightarrow> align_track list" where
  "pending_of scope tracks = filter (\<lambda>t. in_scope scope t \<and> \<not> track_applied t) tracks"

text \<open>The reference: the kept one, else the longest of the best that there is.\<close>

definition content_reference :: "string list option \<Rightarrow> align_track list \<Rightarrow> align_track" where
  "content_reference scope tracks =
     (case (if scope = None then None else find (\<lambda>t. \<not> in_scope scope t \<and> is_reference t) (anchors_of tracks)) of
        Some t \<Rightarrow> t
      | None \<Rightarrow>
          if chirp_anchors_of tracks \<noteq> [] then longest_of (chirp_anchors_of tracks)
          else if anchors_of tracks \<noteq> [] then longest_of (anchors_of tracks)
          else longest_of (if scope = None then tracks else pending_of scope tracks))"

text \<open>Its lag in the domain the head trims are computed in.\<close>

definition virtual_lag :: "align_track list \<Rightarrow> align_track \<Rightarrow> real" where
  "virtual_lag tracks r =
     (if \<not> track_applied r then 0
      else if track_method r = Content then track_lag r
      else let base = the (min_of (map track_lag (chirp_anchors_of tracks)));
               interval = js_round (chirp_interval_sec * ab_rate (at_buffer r))
           in base + wrap_lag (track_lag r - base) interval)"

definition pair_lag :: "align_env \<Rightarrow> align_track \<Rightarrow> align_track \<Rightarrow> (real \<times> real) option" where
  "pair_lag env r t = ae_content env (head_of content_window_seconds r) (head_of content_window_seconds t) (ab_rate (at_buffer t))"

definition content_verdict :: "align_env \<Rightarrow> align_track list \<Rightarrow> align_track \<Rightarrow> align_track \<Rightarrow> align_track" where
  "content_verdict env tracks r t =
     (case pair_lag env r t of None \<Rightarrow> t
      | Some (lag, c) \<Rightarrow> t\<lparr>at_alignment := Some \<lparr>ar_lagSamples = virtual_lag tracks r + lag, ar_confidence = c,
            ar_applied = (c \<ge> content_min_confidence), ar_method = Some Content\<rparr>\<rparr>)"

text \<open>The best confidence of what was placed, 0 for none.\<close>

definition best_placed :: "align_env \<Rightarrow> align_track \<Rightarrow> align_track list \<Rightarrow> real" where
  "best_placed env r ts =
     foldl (\<lambda>b t. case pair_lag env r t of None \<Rightarrow> b | Some (lag, c) \<Rightarrow> if c \<ge> content_min_confidence then max b c else b) 0 ts"

definition content_pass :: "align_env \<Rightarrow> string list option \<Rightarrow> align_track list \<Rightarrow> align_track list" where
  "content_pass env scope tracks =
     (let pending = pending_of scope tracks
      in if length tracks < 2 \<or> pending = [] then tracks
         else let r = content_reference scope tracks;
                  others = filter (\<lambda>t. at_streamId t \<noteq> at_streamId r) pending;
                  best = best_placed env r others
              in map (\<lambda>t. if at_streamId t = at_streamId r
                          then (if best > 0 \<and> \<not> track_applied t
                                then t\<lparr>at_alignment := Some \<lparr>ar_lagSamples = 0, ar_confidence = best, ar_applied = True, ar_method = Some Content\<rparr>\<rparr>
                                else t)
                          else if in_scope scope t \<and> \<not> track_applied t then content_verdict env tracks r t else t) tracks)"

subsection \<open>Drift\<close>

record drift_cached =
  dh_referenceId :: string
  dh_refDelta :: real
  dh_trackDelta :: real
  dh_result :: drift_result

definition reference_drift :: drift_result where
  "reference_drift = \<lparr>dr_ratio = 1, dr_ppm = 0, dr_initialOffsetSamples = 0, dr_confidence = 1, dr_windowsUsed = 0,
     dr_applied = False, dr_isReference = True\<rparr>"

text \<open>The guard rails: a fit that is unsure or implausible is kept as a measurement and applied as the identity.\<close>

definition drift_verdict :: "drift_estimate \<Rightarrow> drift_result" where
  "drift_verdict e =
     (let applied = (de_confidence e \<ge> drift_min_confidence \<and> \<bar>de_ppm e\<bar> \<le> drift_max_ppm)
      in \<lparr>dr_ratio = (if applied then de_ratio e else 1), dr_ppm = de_ppm e,
          dr_initialOffsetSamples = (if applied then de_offset e else 0), dr_confidence = de_confidence e,
          dr_windowsUsed = de_windows e, dr_applied = applied, dr_isReference = False\<rparr>)"

fun least_delta :: "(string, real) jsmap \<Rightarrow> align_track \<Rightarrow> align_track list \<Rightarrow> align_track" where
  "least_delta deltas a [] = a"
| "least_delta deltas a (b # bs) =
     least_delta deltas (if the (jm_get deltas (at_streamId b)) < the (jm_get deltas (at_streamId a)) then b else a) bs"

definition track_drift ::
  "align_env \<Rightarrow> (string, real) jsmap \<Rightarrow> align_track \<Rightarrow> align_track \<Rightarrow> (string, drift_cached) jsmap \<Rightarrow> drift_result \<times> (string, drift_cached) jsmap" where
  "track_drift env deltas r t cache =
     (let rd = the (jm_get deltas (at_streamId r)); td = the (jm_get deltas (at_streamId t));
          fresh = drift_verdict (ae_drift env (at_buffer r) rd (at_buffer t) td);
          noted = jm_set (at_streamId t) \<lparr>dh_referenceId = at_streamId r, dh_refDelta = rd, dh_trackDelta = td, dh_result = fresh\<rparr> cache
      in case jm_get cache (at_streamId t) of
           Some h \<Rightarrow> if dh_referenceId h = at_streamId r \<and> dh_refDelta h = rd \<and> dh_trackDelta h = td then (dh_result h, cache)
                     else (fresh, noted)
         | None \<Rightarrow> (fresh, noted))"

fun drift_loop ::
  "align_env \<Rightarrow> (string, real) jsmap \<Rightarrow> align_track \<Rightarrow> align_track list \<Rightarrow> (string, drift_cached) jsmap \<Rightarrow> align_track list \<times> (string, drift_cached) jsmap" where
  "drift_loop env deltas r [] cache = ([], cache)"
| "drift_loop env deltas r (t # ts) cache =
     (if \<not> jm_has deltas (at_streamId t) then (let (us, cache) = drift_loop env deltas r ts cache in (t # us, cache))
      else if at_streamId t = at_streamId r
      then (let (us, cache) = drift_loop env deltas r ts cache in (t\<lparr>at_drift := Some reference_drift\<rparr> # us, cache))
      else (let (d, cache) = track_drift env deltas r t cache; (us, cache) = drift_loop env deltas r ts cache
            in (t\<lparr>at_drift := Some d\<rparr> # us, cache)))"

definition drift_pass ::
  "align_env \<Rightarrow> (string, real) jsmap \<Rightarrow> align_track list \<Rightarrow> (string, drift_cached) jsmap \<Rightarrow> align_track list \<times> (string, drift_cached) jsmap" where
  "drift_pass env deltas tracks cache =
     (case filter (\<lambda>t. jm_has deltas (at_streamId t)) tracks of
        [] \<Rightarrow> (tracks, cache)
      | t # ts \<Rightarrow> if length deltas < 2 then (tracks, cache) else drift_loop env deltas (least_delta deltas t ts) tracks cache)"

text \<open>The head trims of the applied tracks, as the schedule computes them.\<close>

definition lag_of_track :: "align_track \<Rightarrow> align_lag" where
  "lag_of_track t = \<lparr>al_streamId = at_streamId t, al_lagSamples = track_lag t, al_sampleRate = ab_rate (at_buffer t),
     al_method = Some (track_method t)\<rparr>"

definition track_deltas :: "align_track list \<Rightarrow> (string, real) jsmap" where
  "track_deltas tracks = normalize_align_deltas (map lag_of_track (filter track_applied tracks)) chirp_interval_sec"

text \<open>A whole run.\<close>

definition align_run ::
  "align_env \<Rightarrow> string list option \<Rightarrow> align_track list \<Rightarrow> (string, drift_cached) jsmap \<Rightarrow> align_track list \<times> (string, drift_cached) jsmap" where
  "align_run env scope tracks cache =
     (let ts = content_pass env scope (demote_chirps scope (chirp_pass env scope tracks)) in drift_pass env (track_deltas ts) ts cache)"

subsection \<open>One domain for every lag\<close>

definition content_step :: "align_env \<Rightarrow> string list option \<Rightarrow> align_track list \<Rightarrow> align_track \<Rightarrow> align_track" where
  "content_step env scope tracks t =
     (let r = content_reference scope tracks;
          best = best_placed env r (filter (\<lambda>t. at_streamId t \<noteq> at_streamId r) (pending_of scope tracks))
      in if at_streamId t = at_streamId r
         then (if best > 0 \<and> \<not> track_applied t
               then t\<lparr>at_alignment := Some \<lparr>ar_lagSamples = 0, ar_confidence = best, ar_applied = True, ar_method = Some Content\<rparr>\<rparr>
               else t)
         else if in_scope scope t \<and> \<not> track_applied t then content_verdict env tracks r t else t)"

lemma content_pass_steps:
  "content_pass env scope tracks = (if length tracks < 2 \<or> pending_of scope tracks = [] then tracks else map (content_step env scope tracks) tracks)"
  by (simp add: content_pass_def content_step_def Let_def)

lemma verdict_id [simp]: "at_streamId (content_verdict env tracks r t) = at_streamId t" "at_buffer (content_verdict env tracks r t) = at_buffer t"
  "at_drift (content_verdict env tracks r t) = at_drift t"
  by (simp_all add: content_verdict_def split: option.split)

lemma step_id [simp]: "at_streamId (content_step env scope tracks t) = at_streamId t"
  by (simp add: content_step_def Let_def)

lemma step_applied: "track_applied t \<Longrightarrow> content_step env scope tracks t = t"
  by (simp add: content_step_def Let_def)

lemma step_no_chirp:
  assumes "\<not> track_applied t"
  shows "\<not> (track_applied (content_step env scope tracks t) \<and> track_method (content_step env scope tracks t) = Chirp)"
  using assms
  by (auto simp: content_step_def content_verdict_def Let_def track_applied_def track_method_def result_method_def
      split: option.splits)

lemma chirp_anchors_kept:
  "filter (\<lambda>t. track_applied t \<and> track_method t = Chirp) (map (content_step env scope tracks) ts)
     = filter (\<lambda>t. track_applied t \<and> track_method t = Chirp) ts"
proof (induction ts)
  case (Cons t ts)
  then show ?case by (cases "track_applied t") (auto simp: step_applied step_no_chirp)
qed simp

lemma longest_mem: "longest a bs \<in> set (a # bs)"
  by (induction bs arbitrary: a) auto

lemma longest_of_mem: "ts \<noteq> [] \<Longrightarrow> longest_of ts \<in> set ts"
  using longest_mem [of "hd ts" "tl ts"] by (simp add: longest_of_def)

lemma reference_mem:
  assumes "tracks \<noteq> []" "pending_of scope tracks \<noteq> []"
  shows "content_reference scope tracks \<in> set tracks"
proof -
  have sub: "set (anchors_of tracks) \<subseteq> set tracks" "set (chirp_anchors_of tracks) \<subseteq> set tracks" "set (pending_of scope tracks) \<subseteq> set tracks"
    by (auto simp: anchors_of_def chirp_anchors_of_def pending_of_def)
  have "longest_of (if scope = None then tracks else pending_of scope tracks) \<in> set tracks"
    using longest_of_mem [OF assms(1)] longest_of_mem [OF assms(2)] sub(3) by auto
  moreover have "t \<in> set tracks" if "find P (anchors_of tracks) = Some t" for P t
  proof -
    from that have "t \<in> set (anchors_of tracks)" by (metis find_Some_iff nth_mem)
    with sub(1) show ?thesis by blast
  qed
  ultimately show ?thesis
    using longest_of_mem [of "anchors_of tracks"] longest_of_mem [of "chirp_anchors_of tracks"] sub
    by (auto simp: content_reference_def split: option.split if_splits)
qed

lemma best_placed_mono:
  "b \<le> foldl (\<lambda>b t. case pair_lag env r t of None \<Rightarrow> b | Some (lag, c) \<Rightarrow> if c \<ge> content_min_confidence then max b c else b) b ts"
proof (induction ts arbitrary: b)
  case (Cons t ts)
  let ?f = "\<lambda>b t. case pair_lag env r t of None \<Rightarrow> b | Some (lag, c) \<Rightarrow> if c \<ge> content_min_confidence then max b c else b"
  have "b \<le> ?f b t" by (simp split: option.split prod.split)
  also have "\<dots> \<le> foldl ?f (?f b t) ts" by (rule Cons.IH)
  finally show ?case by simp
qed simp

lemma best_placed_pos:
  assumes "t \<in> set ts" "pair_lag env r t = Some (lag, c)" "c \<ge> content_min_confidence"
  shows "best_placed env r ts > 0"
proof -
  let ?f = "\<lambda>b t. case pair_lag env r t of None \<Rightarrow> b | Some (lag, c) \<Rightarrow> if c \<ge> content_min_confidence then max b c else b"
  obtain xs ys where ts: "ts = xs @ t # ys" using assms(1) by (meson split_list)
  have "?f (foldl ?f 0 xs) t \<le> foldl ?f (?f (foldl ?f 0 xs) t) ys" by (rule best_placed_mono)
  moreover have "0 < ?f (foldl ?f 0 xs) t" using assms(2,3) by (simp add: content_min_confidence_def)
  ultimately show ?thesis by (simp add: best_placed_def ts)
qed

lemma distinct_applied: "distinct (map at_streamId ts) \<Longrightarrow> distinct (map at_streamId (filter P ts))"
  by (auto simp: distinct_map inj_on_def)

lemma two_of: "x \<in> set xs \<Longrightarrow> y \<in> set xs \<Longrightarrow> x \<noteq> y \<Longrightarrow> 2 \<le> length xs"
  by (cases xs; cases "tl xs") auto

lemma chirp_base_kept:
  assumes "chirp_anchors_of tracks \<noteq> []"
  shows "align_base (map lag_of_track (filter track_applied (map (content_step env scope tracks) tracks)))
    = the (min_of (map track_lag (chirp_anchors_of tracks)))"
proof -
  let ?lags = "map lag_of_track (filter track_applied (map (content_step env scope tracks) tracks))"
  have "filter (\<lambda>l. method_of l = Chirp) ?lags
      = map lag_of_track (filter (\<lambda>t. track_applied t \<and> track_method t = Chirp) (map (content_step env scope tracks) tracks))"
    by (simp add: filter_map comp_def lag_of_track_def method_of_def conj_commute)
  also have "\<dots> = map lag_of_track (filter (\<lambda>t. track_applied t \<and> track_method t = Chirp) tracks)"
    by (simp only: chirp_anchors_kept)
  finally have "filter (\<lambda>l. method_of l = Chirp) ?lags = map lag_of_track (chirp_anchors_of tracks)"
    by (simp add: chirp_anchors_of_def anchors_of_def conj_commute)
  then show ?thesis using assms by (simp add: align_base_def comp_def lag_of_track_def)
qed

lemma delta_of_lag:
  assumes "lags = map lag_of_track (filter track_applied ts)" "2 \<le> length lags" "distinct (map al_streamId lags)" "x \<in> set lags"
  shows "jm_get (track_deltas ts) (al_streamId x) = Some (normalized_lag chirp_interval_sec (align_base lags) x
    - the (min_of (map (normalized_lag chirp_interval_sec (align_base lags)) lags)))"
proof -
  let ?n = "normalized_lag chirp_interval_sec (align_base lags)"
  have "track_deltas ts = map (\<lambda>l. (al_streamId l, ?n l - the (min_of (map ?n lags)))) lags"
    using normalize_eq [OF assms(2,3)] assms(1) by (simp add: track_deltas_def)
  then show ?thesis using assms(3,4) by (auto intro: map_of_is_SomeI simp: comp_def)
qed

text \<open>C35. Every content measurement lands in the domain of the head trims. Whatever chirps were found, whatever was kept
  from an earlier run and whichever track serves as the reference, the trims of a track placed by content and of its
  reference differ by exactly the lag measured between their recordings.\<close>

theorem content_lags_chain:
  assumes ids: "distinct (map at_streamId tracks)" and t: "t \<in> set (pending_of scope tracks)"
    and other: "at_streamId t \<noteq> at_streamId (content_reference scope tracks)"
    and measured: "pair_lag env (content_reference scope tracks) t = Some (lag, c)" "c \<ge> 2.75"
  shows "\<exists>d e. jm_get (track_deltas (content_pass env scope tracks)) (at_streamId t) = Some d
     \<and> jm_get (track_deltas (content_pass env scope tracks)) (at_streamId (content_reference scope tracks)) = Some e \<and> d - e = lag"
proof -
  define r where "r = content_reference scope tracks"
  define g where "g = content_step env scope tracks"
  define lags where "lags = map lag_of_track (filter track_applied (map g tracks))"
  let ?n = "normalized_lag chirp_interval_sec (align_base lags)"
  have tt: "t \<in> set tracks" "in_scope scope t" "\<not> track_applied t" using t by (auto simp: pending_of_def)
  have p: "pending_of scope tracks \<noteq> []" "tracks \<noteq> []" using t tt(1) by auto
  have r: "r \<in> set tracks" unfolding r_def using reference_mem p by blast
  have len: "2 \<le> length tracks" using two_of [OF tt(1) r] other by (auto simp: r_def)
  have pass: "content_pass env scope tracks = map g tracks" using len p by (simp add: content_pass_steps g_def)
  have best: "best_placed env r (filter (\<lambda>t. at_streamId t \<noteq> at_streamId r) (pending_of scope tracks)) > 0"
    using t other measured by (intro best_placed_pos [of t]) (auto simp: r_def content_min_confidence_def)
  have gt: "g t = t\<lparr>at_alignment := Some \<lparr>ar_lagSamples = virtual_lag tracks r + lag, ar_confidence = c, ar_applied = True, ar_method = Some Content\<rparr>\<rparr>"
    using tt other measured by (simp add: g_def content_step_def r_def Let_def content_verdict_def content_min_confidence_def)
  have gr: "track_applied (g r)" "g r = (if track_applied r then r else g r)"
    using best by (auto simp: g_def content_step_def r_def Let_def track_applied_def)
  have gr_new: "track_lag (g r) = 0 \<and> track_method (g r) = Content" if "\<not> track_applied r"
    using best that by (simp add: g_def content_step_def r_def Let_def track_lag_def track_method_def result_method_def)
  have "track_applied (g t)" by (simp add: gt track_applied_def)
  then have mem: "lag_of_track (g t) \<in> set lags" "lag_of_track (g r) \<in> set lags"
    using tt(1) r gr(1) by (auto simp: lags_def)
  have "map at_streamId (map g tracks) = map at_streamId tracks" by (simp add: g_def)
  then have "distinct (map at_streamId (map g tracks))" using ids by (simp only:)
  from distinct_applied [OF this, of track_applied] have dist: "distinct (map al_streamId lags)"
    by (simp add: lags_def lag_of_track_def comp_def)
  have sid: "al_streamId (lag_of_track (g x)) = at_streamId x" for x by (simp add: lag_of_track_def g_def)
  have two: "2 \<le> length lags" using two_of [OF mem] sid other by (metis r_def)
  note get = delta_of_lag [OF lags_def two dist]
  have nt: "?n (lag_of_track (g t)) = virtual_lag tracks r + lag - align_base lags"
    by (simp add: gt normalized_lag_def lag_of_track_def method_of_def track_method_def result_method_def track_lag_def)
  have "?n (lag_of_track (g r)) = virtual_lag tracks r - align_base lags"
  proof (cases "track_applied r \<and> track_method r = Chirp")
    case False
    then show ?thesis using gr(2) gr_new
      by (cases "track_applied r")
        (auto simp: virtual_lag_def normalized_lag_def lag_of_track_def method_of_def, metis align_method.exhaust)+
  next
    case True
    then have "g r = r" using gr(2) by simp
    have "r \<in> set (chirp_anchors_of tracks)" using True r by (simp add: chirp_anchors_of_def anchors_of_def)
    then have "align_base lags = the (min_of (map track_lag (chirp_anchors_of tracks)))"
      unfolding lags_def g_def by (intro chirp_base_kept) auto
    with True \<open>g r = r\<close> show ?thesis
      by (simp add: virtual_lag_def normalized_lag_def lag_of_track_def method_of_def Let_def)
  qed
  with get [OF mem(1)] get [OF mem(2)] nt sid show ?thesis unfolding pass r_def [symmetric] by simp
qed

text \<open>Two tracks with a chirp and one without, placed against the longer of the two.\<close>

definition sample_tracks :: "align_track list" where
  "sample_tracks =
     [\<lparr>at_streamId = ''a'', at_buffer = \<lparr>ab_rate = 10, ab_data = [0, 1, 0]\<rparr>,
        at_alignment = Some \<lparr>ar_lagSamples = 4, ar_confidence = 3, ar_applied = True, ar_method = None\<rparr>, at_drift = None\<rparr>,
      \<lparr>at_streamId = ''b'', at_buffer = \<lparr>ab_rate = 10, ab_data = [0, 1]\<rparr>,
        at_alignment = Some \<lparr>ar_lagSamples = 27, ar_confidence = 3, ar_applied = True, ar_method = Some Chirp\<rparr>, at_drift = None\<rparr>,
      \<lparr>at_streamId = ''c'', at_buffer = \<lparr>ab_rate = 10, ab_data = [1]\<rparr>,
        at_alignment = Some \<lparr>ar_lagSamples = 0, ar_confidence = 0, ar_applied = False, ar_method = Some Chirp\<rparr>, at_drift = None\<rparr>]"

definition sample_align_env :: align_env where
  "sample_align_env = \<lparr>ae_chirp = \<lambda>_ _. None, ae_content = \<lambda>_ _ _. Some (3, 5),
     ae_drift = \<lambda>_ _ _ _. \<lparr>de_ratio = 1, de_ppm = 0, de_offset = 0, de_confidence = 1, de_windows = 1\<rparr>\<rparr>"

theorem content_lags_chain_witness:
  "\<exists>d e. jm_get (track_deltas (content_pass sample_align_env None sample_tracks)) ''c'' = Some d
     \<and> jm_get (track_deltas (content_pass sample_align_env None sample_tracks)) ''a'' = Some e \<and> d - e = 3"
proof -
  have r: "content_reference None sample_tracks = sample_tracks ! 0"
    by (simp add: content_reference_def sample_tracks_def chirp_anchors_of_def anchors_of_def track_applied_def track_method_def
        result_method_def longest_of_def)
  have p: "sample_tracks ! 2 \<in> set (pending_of None sample_tracks)"
    by (simp add: pending_of_def sample_tracks_def in_scope_def track_applied_def)
  show ?thesis
    using content_lags_chain [OF _ p, of sample_align_env 3 5] unfolding r
    by (simp add: pair_lag_def sample_align_env_def sample_tracks_def)
qed

subsection \<open>Guard rails\<close>

definition drift_safe :: "drift_result \<Rightarrow> bool" where
  "drift_safe d \<longleftrightarrow> (if dr_applied d then dr_confidence d \<ge> 0.5 \<and> \<bar>dr_ppm d\<bar> \<le> 1000 else dr_ratio d = 1 \<and> dr_initialOffsetSamples d = 0)"

lemma drift_verdict_safe: "drift_safe (drift_verdict e)"
  by (simp add: drift_verdict_def drift_safe_def drift_min_confidence_def drift_max_ppm_def Let_def)

lemma drift_loop_safe:
  "list_all (\<lambda>h. drift_safe (dh_result (snd h))) cache \<Longrightarrow> list_all (\<lambda>t. pred_option drift_safe (at_drift t)) ts \<Longrightarrow>
   list_all (\<lambda>t. pred_option drift_safe (at_drift t)) (fst (drift_loop env deltas r ts cache))"
proof (induction ts arbitrary: cache)
  case (Cons t ts)
  have up: "list_all (\<lambda>h. drift_safe (dh_result (snd h))) (jm_set k x cache)" if "drift_safe (dh_result x)" for k x
    using Cons.prems(1) that by (induction cache) auto
  have fresh: "drift_safe (fst (track_drift env deltas r t cache))
      \<and> list_all (\<lambda>h. drift_safe (dh_result (snd h))) (snd (track_drift env deltas r t cache))"
  proof (cases "jm_get cache (at_streamId t)")
    case None
    then show ?thesis by (simp add: track_drift_def Let_def up drift_verdict_safe)
  next
    case (Some h)
    then have "(at_streamId t, h) \<in> set cache" by (simp add: map_of_SomeD)
    with Cons.prems(1) have "drift_safe (dh_result h)" by (auto simp: list_all_iff)
    with Some Cons.prems(1) show ?thesis by (simp add: track_drift_def Let_def up drift_verdict_safe)
  qed
  then show ?case using Cons.IH Cons.prems
    by (auto simp: case_prod_beta reference_drift_def drift_safe_def)
qed simp

text \<open>A track that a new run no longer places keeps the drift of the old one, applied ratio included.\<close>

lemma declined_keeps_drift:
  "deltas = [] \<Longrightarrow> drift_pass env deltas tracks cache = (tracks, cache)"
  by (simp add: drift_pass_def split: list.split)

end
