(* ===== verification/Player_Plan.thy ===== *)
theory Player_Plan
  imports Player_Align Collab_Doc
begin

text \<open>
  The pure half of the session player: the equaliser model (\<open>apps/web/src/routes/desk/eq.ts\<close>), the session plan with its
  normal form, its diff and its spans (\<open>player-plan.ts\<close>), and the model an export renders from. Decibels, hertz and
  seconds are reals; \<open>Infinity\<close> as the start of a stream without clips is \<open>None\<close>. The order of ids, \<open>localeCompare\<close>, is a
  parameter.
\<close>

subsection \<open>Equaliser\<close>

definition eq_mid_hz_min :: real where "eq_mid_hz_min = 200"
definition eq_mid_hz_max :: real where "eq_mid_hz_max = 8000"
definition eq_mid_hz_default :: real where "eq_mid_hz_default = 1000"
definition eq_db_range :: real where "eq_db_range = 12"

record eq_patch =
  ep_lowDb :: "real option"
  ep_midDb :: "real option"
  ep_midHz :: "real option"
  ep_highDb :: "real option"

definition default_eq :: eq_state where
  "default_eq = \<lparr>eq_lowDb = 0, eq_midDb = 0, eq_midHz = eq_mid_hz_default, eq_highDb = 0, eq_bypassed = False\<rparr>"

definition clamp_to :: "real \<Rightarrow> real \<Rightarrow> real \<Rightarrow> real" where
  "clamp_to lo hi x = max lo (min hi x)"

definition clamp_eq_db :: "real \<Rightarrow> real" where "clamp_eq_db = clamp_to (- eq_db_range) eq_db_range"
definition clamp_hz :: "real \<Rightarrow> real" where "clamp_hz = clamp_to eq_mid_hz_min eq_mid_hz_max"

definition or_else :: "'a option \<Rightarrow> 'a \<Rightarrow> 'a" where
  "or_else x d = (case x of None \<Rightarrow> d | Some v \<Rightarrow> v)"

definition apply_eq_patch :: "eq_state \<Rightarrow> eq_patch \<Rightarrow> eq_state" where
  "apply_eq_patch e p =
     e\<lparr>eq_lowDb := clamp_eq_db (or_else (ep_lowDb p) (eq_lowDb e)),
       eq_midDb := clamp_eq_db (or_else (ep_midDb p) (eq_midDb e)),
       eq_midHz := clamp_hz (or_else (ep_midHz p) (eq_midHz e)),
       eq_highDb := clamp_eq_db (or_else (ep_highDb p) (eq_highDb e))\<rparr>"

text \<open>The frequency knob is logarithmic.\<close>

definition mid_hz_to_norm :: "real \<Rightarrow> real" where
  "mid_hz_to_norm hz = ln (clamp_hz hz / eq_mid_hz_min) / ln (eq_mid_hz_max / eq_mid_hz_min)"

definition norm_to_mid_hz :: "real \<Rightarrow> real" where
  "norm_to_mid_hz n = clamp_hz (eq_mid_hz_min * (eq_mid_hz_max / eq_mid_hz_min) powr (max 0 (min 1 n)))"

text \<open>What a chain of three biquads is set to; a strip gain in decibels as the factor of its node.\<close>

record eq_chain =
  ch_lowGain :: real
  ch_midGain :: real
  ch_midHz :: real
  ch_highGain :: real

definition eq_chain_of :: "eq_state \<Rightarrow> eq_chain" where
  "eq_chain_of e = \<lparr>ch_lowGain = clamp_eq_db (eq_lowDb e), ch_midGain = clamp_eq_db (eq_midDb e),
     ch_midHz = clamp_hz (eq_midHz e), ch_highGain = clamp_eq_db (eq_highDb e)\<rparr>"

definition min_db :: real where "min_db = - 60"
definition max_db :: real where "max_db = 6"

definition db_to_linear :: "real \<Rightarrow> real" where
  "db_to_linear db = (if db \<le> min_db then 0 else 10 powr (db / 20))"

subsection \<open>The session plan\<close>

record session_stream_plan =
  ps_streamId :: string
  ps_channelKey :: string
  ps_clipStartSec :: real
  ps_declaredDurationSec :: real
  ps_regions :: "clip_region list option"

record session_take_plan =
  pk_takeId :: string
  pk_streams :: "session_stream_plan list"

definition normalize_session_plan :: "string comparator \<Rightarrow> session_take_plan list \<Rightarrow> session_take_plan list" where
  "normalize_session_plan lc plan =
     map (\<lambda>p. \<lparr>pk_takeId = pk_takeId p, pk_streams = js_sort (\<lambda>a b. lc (ps_streamId a) (ps_streamId b)) (pk_streams p)\<rparr>)
       (filter (\<lambda>p. pk_streams p \<noteq> []) plan)"

definition same_stream :: "session_stream_plan \<Rightarrow> session_stream_plan \<Rightarrow> bool" where
  "same_stream a b \<longleftrightarrow> ps_streamId a = ps_streamId b \<and> ps_channelKey a = ps_channelKey b
     \<and> \<bar>ps_clipStartSec a - ps_clipStartSec b\<bar> \<le> 1 / 10 ^ 4
     \<and> \<bar>ps_declaredDurationSec a - ps_declaredDurationSec b\<bar> \<le> 1 / 10 ^ 4
     \<and> ps_regions a = ps_regions b"

definition same_plan :: "session_take_plan list \<Rightarrow> session_take_plan list \<Rightarrow> bool" where
  "same_plan a b \<longleftrightarrow> list_all2 (\<lambda>p q. pk_takeId p = pk_takeId q \<and> list_all2 same_stream (pk_streams p) (pk_streams q)) a b"

fun max_of :: "real list \<Rightarrow> real option" where
  "max_of [] = None"
| "max_of (x # xs) = (case max_of xs of None \<Rightarrow> Some x | Some m \<Rightarrow> Some (max x m))"

text \<open>Where a stream begins on the arrangement; a stream whose clips are all deleted begins nowhere.\<close>

definition clip_start_of :: "real \<Rightarrow> clip_region list option \<Rightarrow> real option" where
  "clip_start_of clipStartSec regions =
     (case regions of None \<Rightarrow> Some clipStartSec | Some rs \<Rightarrow> min_of (map rg_startSec rs))"

definition clips_base_sec :: "(real \<times> clip_region list option) list \<Rightarrow> real" where
  "clips_base_sec streams =
     (case min_of (List.map_filter (\<lambda>(c, rs). clip_start_of c rs) streams) of None \<Rightarrow> 0 | Some b \<Rightarrow> b)"

definition planned_base_sec :: "session_stream_plan list \<Rightarrow> real" where
  "planned_base_sec streams = clips_base_sec (map (\<lambda>s. (ps_clipStartSec s, ps_regions s)) streams)"

definition planned_stream_end :: "session_stream_plan \<Rightarrow> real" where
  "planned_stream_end s =
     (case ps_regions s of
        None \<Rightarrow> ps_clipStartSec s + ps_declaredDurationSec s
      | Some rs \<Rightarrow> or_else (max_of (map (\<lambda>r. rg_startSec r + rg_durationSec r) rs)) 0)"

definition planned_end_sec :: "session_stream_plan list \<Rightarrow> real" where
  "planned_end_sec streams = the (max_of (map planned_stream_end streams))"

subsection \<open>The model an export renders\<close>

record strip_view =
  sv_gain :: real
  sv_pan :: real
  sv_eq :: eq_state

record render_track =
  rk_streamId :: string
  rk_channelKey :: string
  rk_buffer :: audio_buffer
  rk_timing :: track_timing
  rk_regions :: "clip_region list option"
  rk_strip :: strip_view

record render_model =
  rm_takeId :: string
  rm_durationSec :: real
  rm_master :: strip_view
  rm_tracks :: "render_track list"

definition buffer_duration :: "audio_buffer \<Rightarrow> real" where
  "buffer_duration b = real (length (ab_data b)) / ab_rate b"

definition stream_part :: "track_timing \<Rightarrow> region_timing" where
  "stream_part t = \<lparr>rt_headSec = tt_headSec t, rt_ratio = tt_ratio t, rt_bufferDurationSec = tt_bufferDurationSec t\<rparr>"

definition rebase_regions :: "real \<Rightarrow> clip_region list \<Rightarrow> clip_region list" where
  "rebase_regions base = map (\<lambda>r. r\<lparr>rg_startSec := rg_startSec r - base\<rparr>)"

definition render_track_end :: "render_track \<Rightarrow> real" where
  "render_track_end t =
     (case rk_regions t of None \<Rightarrow> track_end_sec (rk_timing t)
      | Some rs \<Rightarrow> regions_end_sec (stream_part (rk_timing t)) rs)"

text \<open>A stream decoded off the plan, with its stored verdict where there is one.\<close>

definition planned_track :: "(string, stored_alignment) jsmap \<Rightarrow> session_stream_plan \<times> audio_buffer \<Rightarrow> align_track" where
  "planned_track entries = (\<lambda>(s, b).
     \<lparr>at_streamId = ps_streamId s, at_buffer = b,
      at_alignment = map_option sa_alignment (jm_get entries (ps_streamId s)),
      at_drift = Option.bind (jm_get entries (ps_streamId s)) sa_drift\<rparr>)"

definition drift_ratio :: "align_track \<Rightarrow> real" where
  "drift_ratio t = (case at_drift t of None \<Rightarrow> 1 | Some d \<Rightarrow> if dr_applied d then dr_ratio d else 1)"

definition drift_samples :: "align_track \<Rightarrow> real" where
  "drift_samples t = (case at_drift t of None \<Rightarrow> 0 | Some d \<Rightarrow> if dr_applied d then dr_initialOffsetSamples d else 0)"

definition head_sec :: "(string, real) jsmap \<Rightarrow> align_track \<Rightarrow> real" where
  "head_sec deltas t = (or_else (jm_get deltas (at_streamId t)) 0 + drift_samples t) / ab_rate (at_buffer t)"

definition model_timing :: "(string, real) jsmap \<Rightarrow> align_track \<Rightarrow> real \<Rightarrow> track_timing" where
  "model_timing deltas t delay =
     \<lparr>tt_headSec = head_sec deltas t, tt_ratio = drift_ratio t, tt_clipDelaySec = delay,
      tt_bufferDurationSec = buffer_duration (at_buffer t)\<rparr>"

definition planned_model_base :: "session_stream_plan list \<Rightarrow> real" where
  "planned_model_base streams =
     the (min_of (map (\<lambda>s. case ps_regions s of Some (r # rs) \<Rightarrow> the (min_of (map rg_startSec (r # rs)))
                             | _ \<Rightarrow> ps_clipStartSec s) streams))"

definition planned_render_model ::
  "string \<Rightarrow> (session_stream_plan \<times> audio_buffer) list \<Rightarrow> (string, stored_alignment) jsmap \<Rightarrow> (string \<Rightarrow> strip_view) \<Rightarrow> strip_view \<Rightarrow> render_model" where
  "planned_render_model takeId decoded entries stripOf master =
     (let deltas = track_deltas (map (planned_track entries) decoded);
          base = planned_model_base (map fst decoded);
          tracks = map (\<lambda>(s, b). \<lparr>rk_streamId = ps_streamId s, rk_channelKey = ps_channelKey s, rk_buffer = b,
              rk_timing = model_timing deltas (planned_track entries (s, b)) (ps_clipStartSec s - base),
              rk_regions = map_option (rebase_regions base) (ps_regions s), rk_strip = stripOf (ps_channelKey s)\<rparr>) decoded
      in \<lparr>rm_takeId = takeId, rm_durationSec = the (max_of (map render_track_end tracks)), rm_master = master, rm_tracks = tracks\<rparr>)"

subsection \<open>Sources\<close>

text \<open>A stream plays as one source, or as one per region when it was split.\<close>

datatype piece = Whole | Region clip_region

record node_plan =
  np_whenSec :: real
  np_offsetSec :: real
  np_playSec :: "real option"

definition plan_piece :: "track_timing \<Rightarrow> piece \<Rightarrow> real \<Rightarrow> node_plan option" where
  "plan_piece t p fromSec =
     (case p of
        Whole \<Rightarrow> map_option (\<lambda>q. \<lparr>np_whenSec = sp_whenSec q, np_offsetSec = sp_offsetSec q, np_playSec = None\<rparr>) (plan_source t fromSec)
      | Region r \<Rightarrow> map_option (\<lambda>q. \<lparr>np_whenSec = rp_whenSec q, np_offsetSec = rp_offsetSec q, np_playSec = Some (rp_playSec q)\<rparr>)
          (plan_region_source (stream_part t) r fromSec))"

definition pieces_of :: "clip_region list option \<Rightarrow> piece list" where
  "pieces_of regions = (case regions of None \<Rightarrow> [Whole] | Some rs \<Rightarrow> map Region rs)"

text \<open>A started source node, and the buffer position it sounds at a time of its context.\<close>

record source_node =
  sn_whenSec :: real
  sn_offsetSec :: real
  sn_playSec :: "real option"
  sn_ratio :: real
  sn_duration :: real

definition start_node :: "track_timing \<Rightarrow> real \<Rightarrow> node_plan \<Rightarrow> source_node" where
  "start_node t origin n =
     \<lparr>sn_whenSec = origin + np_whenSec n, sn_offsetSec = np_offsetSec n, sn_playSec = np_playSec n,
      sn_ratio = tt_ratio t, sn_duration = tt_bufferDurationSec t\<rparr>"

definition node_sounds :: "source_node \<Rightarrow> real \<Rightarrow> real option" where
  "node_sounds n ctxTime =
     heard (sn_ratio n) (sn_whenSec n) (sn_offsetSec n) (or_else (sn_playSec n) (sn_duration n - sn_offsetSec n)) ctxTime"

text \<open>What the room timeline prescribes for a piece at a session position.\<close>

definition piece_at :: "track_timing \<Rightarrow> piece \<Rightarrow> real \<Rightarrow> real option" where
  "piece_at t p nowSec =
     (case p of
        Whole \<Rightarrow> (let b = buffer_pos (tt_headSec t) (tt_ratio t) (tt_clipDelaySec t) nowSec
                in if tt_headSec t \<le> b \<and> b < tt_bufferDurationSec t then Some b else None)
      | Region r \<Rightarrow> (let b = buffer_pos (tt_headSec t) (tt_ratio t) (rg_startSec r - rg_sourceOffsetSec r) nowSec
                   in if fst (region_window (stream_part t) r) \<le> b \<and> b < snd (region_window (stream_part t) r) then Some b else None))"

lemma heard_shift: "heard k (x + w) off play c = heard k w off play (c - x)"
  by (simp add: heard_def algebra_simps)

lemma piece_sound:
  assumes "0 < tt_ratio t" "fromSec \<le> nowSec"
  shows "piece_at t p nowSec = (case plan_piece t p fromSec of None \<Rightarrow> None
     | Some n \<Rightarrow> node_sounds (start_node t origin n) (origin + (nowSec - fromSec)))"
proof (cases p)
  case Whole
  show ?thesis using track_sound_window [OF assms]
    by (cases "plan_source t fromSec") (simp_all add: Whole piece_at_def track_sound_def plan_piece_def node_sounds_def start_node_def heard_shift or_else_def)
next
  case (Region r)
  have "0 < rt_ratio (stream_part t)" using assms(1) by (simp add: stream_part_def)
  from region_sound_window [OF this assms(2), of r] show ?thesis
    by (cases "plan_region_source (stream_part t) r fromSec")
      (simp_all add: Region piece_at_def region_sound_def plan_piece_def node_sounds_def start_node_def heard_shift or_else_def
        stream_part_def)
qed

text \<open>Moving a piece and the position by the same amount changes nothing.\<close>

definition shift_piece :: "real \<Rightarrow> piece \<Rightarrow> piece" where
  "shift_piece base p = (case p of Whole \<Rightarrow> Whole | Region r \<Rightarrow> Region (r\<lparr>rg_startSec := rg_startSec r - base\<rparr>))"

lemma piece_at_shift:
  "piece_at (t\<lparr>tt_clipDelaySec := tt_clipDelaySec t - base\<rparr>) (shift_piece base p) nowSec = piece_at t p (nowSec + base)"
  by (cases p) (simp_all add: piece_at_def shift_piece_def buffer_pos_def Let_def region_window_def stream_part_def algebra_simps)

lemma pieces_of_rebased: "pieces_of (map_option (rebase_regions base) rs) = map (shift_piece base) (pieces_of rs)"
  by (cases rs) (simp_all add: pieces_of_def rebase_regions_def shift_piece_def)

subsection \<open>Laws of the knobs and of the plan\<close>

lemma eq_patch_in_range:
  "\<bar>eq_lowDb (apply_eq_patch e p)\<bar> \<le> 12 \<and> \<bar>eq_midDb (apply_eq_patch e p)\<bar> \<le> 12 \<and> \<bar>eq_highDb (apply_eq_patch e p)\<bar> \<le> 12
     \<and> 200 \<le> eq_midHz (apply_eq_patch e p) \<and> eq_midHz (apply_eq_patch e p) \<le> 8000 \<and> eq_bypassed (apply_eq_patch e p) = eq_bypassed e"
  by (simp add: apply_eq_patch_def clamp_eq_db_def clamp_hz_def clamp_to_def eq_db_range_def eq_mid_hz_min_def eq_mid_hz_max_def abs_le_iff minus_max_eq_min)

lemma knob_round_trip: "norm_to_mid_hz (mid_hz_to_norm hz) = clamp_hz hz"
proof -
  have r: "200 \<le> clamp_hz hz" "clamp_hz hz \<le> 8000"
    by (simp_all add: clamp_hz_def clamp_to_def eq_mid_hz_min_def eq_mid_hz_max_def)
  then have b: "0 \<le> mid_hz_to_norm hz" "mid_hz_to_norm hz \<le> 1"
    by (simp_all add: mid_hz_to_norm_def eq_mid_hz_min_def eq_mid_hz_max_def)
  have "(40 :: real) powr mid_hz_to_norm hz = clamp_hz hz / 200"
    using r by (simp add: mid_hz_to_norm_def powr_def eq_mid_hz_min_def eq_mid_hz_max_def)
  then show ?thesis using r b
    by (simp add: norm_to_mid_hz_def eq_mid_hz_min_def eq_mid_hz_max_def)
      (simp add: clamp_hz_def clamp_to_def eq_mid_hz_min_def eq_mid_hz_max_def)
qed

lemma same_plan_refl: "same_plan p p"
  by (simp add: same_plan_def same_stream_def list.rel_refl_strong)

lemma max_of_None: "max_of xs = None \<longleftrightarrow> xs = []"
  by (cases xs) (simp_all split: option.split)

lemma max_of_Some: "max_of xs = Some m \<Longrightarrow> m \<in> set xs \<and> (\<forall>x \<in> set xs. x \<le> m)"
proof (induction xs arbitrary: m)
  case (Cons x xs)
  show ?case
  proof (cases "max_of xs")
    case None
    with Cons.prems show ?thesis by (simp add: max_of_None)
  next
    case (Some m')
    with Cons show ?thesis by (fastforce simp: max_def split: if_splits)
  qed
qed simp

lemma max_of_the: "xs \<noteq> [] \<Longrightarrow> the (max_of xs) \<in> set xs \<and> (\<forall>x \<in> set xs. x \<le> the (max_of xs))"
  using max_of_Some [of xs] max_of_None [of xs] by (cases "max_of xs") auto

end
