(* ===== verification/Render.thy ===== *)
theory Render
  imports Player_Plan
begin

text \<open>
  Offline export, \<open>apps/web/src/routes/desk/render.ts\<close>: what is scheduled into an \<open>OfflineAudioContext\<close> for a master or a stem,
  and the mix of a whole session from one master per take. What the context makes of its graph is a parameter \<open>play\<close>, the
  channels it renders; arithmetic on samples is on reals.
\<close>

subsection \<open>One take\<close>

definition render_sample_rate :: real where "render_sample_rate = 48000"

definition start_source :: "render_track \<Rightarrow> real \<Rightarrow> source_node list" where
  "start_source t fromSec =
     List.map_filter (\<lambda>p. map_option (start_node (rk_timing t) 0) (plan_piece (rk_timing t) p fromSec)) (pieces_of (rk_regions t))"

record offline_job =
  oj_channels :: nat
  oj_frames :: nat
  oj_tracks :: "(strip_view option \<times> audio_buffer \<times> source_node list) list"
  oj_master :: "strip_view option"

definition range_frames :: "real \<Rightarrow> real \<Rightarrow> nat" where
  "range_frames startSec endSec = max 1 (nat \<lfloor>js_round ((endSec - startSec) * render_sample_rate)\<rfloor>)"

text \<open>A master mirrors the graph of playback. A range that holds nothing throws: \<open>None\<close>.\<close>

definition master_job :: "render_model \<Rightarrow> real option \<Rightarrow> real option \<Rightarrow> offline_job option" where
  "master_job m fromSec toSec =
     map_option (\<lambda>(startSec, endSec).
       \<lparr>oj_channels = 2, oj_frames = range_frames startSec endSec,
        oj_tracks = map (\<lambda>t. (Some (rk_strip t), rk_buffer t, start_source t startSec)) (rm_tracks m),
        oj_master = Some (rm_master m)\<rparr>)
       (resolve_range (rm_durationSec m) fromSec toSec)"

text \<open>A stem is a whole stream before the mix.\<close>

definition stem_jobs :: "render_model \<Rightarrow> real option \<Rightarrow> real option \<Rightarrow> (string \<times> string \<times> offline_job) list option" where
  "stem_jobs m fromSec toSec =
     map_option (\<lambda>(startSec, endSec).
       map (\<lambda>t. (rk_streamId t, rk_channelKey t,
         \<lparr>oj_channels = 1, oj_frames = range_frames startSec endSec,
          oj_tracks = [(None, rk_buffer t, start_source (t\<lparr>rk_regions := None\<rparr>) startSec)], oj_master = None\<rparr>)) (rm_tracks m))
       (resolve_range (rm_durationSec m) fromSec toSec)"

subsection \<open>A session\<close>

record render_segment =
  rs_takeId :: string
  rs_baseSec :: real
  rs_declaredEndSec :: real

record session_mix =
  sx_left :: "real list"
  sx_right :: "real list"

datatype render_error = NoTakes | NotRenderable string | EmptyRange

definition estimate_session_wav_bytes :: "real \<Rightarrow> real" where
  "estimate_session_wav_bytes spanSec = 44 + of_int \<lceil>spanSec * render_sample_rate\<rceil> * 2 * 3"

text \<open>The samples of a take are added to what is there, as far as the allocation goes.\<close>

definition mix_into :: "nat \<Rightarrow> real list \<Rightarrow> real list \<Rightarrow> real list" where
  "mix_into offset s out =
     map (\<lambda>j. if offset \<le> j \<and> j < offset + length s then out ! j + s ! (j - offset) else out ! j) [0..<length out]"

definition channel_of :: "real list list \<Rightarrow> nat \<Rightarrow> real list" where
  "channel_of rendered c = rendered ! min c (length rendered - 1)"

definition segment_offset :: "real \<Rightarrow> render_segment \<Rightarrow> nat" where
  "segment_offset startSec g = nat \<lfloor>js_round ((rs_baseSec g - startSec) * render_sample_rate)\<rfloor>"

definition segment_audio ::
  "(offline_job \<Rightarrow> real list list) \<Rightarrow> (string \<Rightarrow> render_model option) \<Rightarrow> render_segment \<Rightarrow> render_error + real list list" where
  "segment_audio play modelOf g =
     (case modelOf (rs_takeId g) of None \<Rightarrow> Inl (NotRenderable (take 8 (rs_takeId g)))
      | Some m \<Rightarrow> (case master_job m None None of None \<Rightarrow> Inl EmptyRange | Some j \<Rightarrow> Inr (play j)))"

fun mix_segments ::
  "(offline_job \<Rightarrow> real list list) \<Rightarrow> (string \<Rightarrow> render_model option) \<Rightarrow> real \<Rightarrow> render_segment list
   \<Rightarrow> real list \<times> real list \<times> nat \<Rightarrow> render_error + (real list \<times> real list \<times> nat)" where
  "mix_segments play modelOf startSec [] acc = Inr acc"
| "mix_segments play modelOf startSec (g # gs) (left, right, endSample) =
     (case segment_audio play modelOf g of Inl e \<Rightarrow> Inl e
      | Inr rendered \<Rightarrow>
          let off = segment_offset startSec g; l = channel_of rendered 0; r = channel_of rendered 1; capacity = length left
          in mix_segments play modelOf startSec gs
               (mix_into off l left, mix_into off r right,
                max (max endSample (min (off + length l) capacity)) (min (off + length r) capacity)))"

definition mix_capacity :: "render_segment list \<Rightarrow> nat" where
  "mix_capacity segments =
     nat \<lceil>(the (max_of (map rs_declaredEndSec segments)) - the (min_of (map rs_baseSec segments)) + 1) * render_sample_rate\<rceil>"

definition render_session ::
  "(offline_job \<Rightarrow> real list list) \<Rightarrow> render_segment list \<Rightarrow> (string \<Rightarrow> render_model option) \<Rightarrow> render_error + session_mix" where
  "render_session play segments modelOf =
     (if segments = [] then Inl NoTakes
      else let startSec = the (min_of (map rs_baseSec segments)); capacity = mix_capacity segments
           in case mix_segments play modelOf startSec (js_sort (by_key rs_baseSec) segments)
                     (replicate capacity 0, replicate capacity 0, 0) of
                Inl e \<Rightarrow> Inl e
              | Inr (left, right, endSample) \<Rightarrow> Inr \<lparr>sx_left = take endSample left, sx_right = take endSample right\<rparr>)"

subsection \<open>The mix is a sum\<close>

text \<open>What a take contributes to a sample of a channel.\<close>

definition sample_of :: "nat \<Rightarrow> real list \<Rightarrow> nat \<Rightarrow> real" where
  "sample_of off s j = (if off \<le> j \<and> j < off + length s then s ! (j - off) else 0)"

definition segment_sample ::
  "(offline_job \<Rightarrow> real list list) \<Rightarrow> (string \<Rightarrow> render_model option) \<Rightarrow> real \<Rightarrow> nat \<Rightarrow> nat \<Rightarrow> render_segment \<Rightarrow> real" where
  "segment_sample play modelOf startSec c j g =
     (case segment_audio play modelOf g of Inl e \<Rightarrow> 0 | Inr a \<Rightarrow> sample_of (segment_offset startSec g) (channel_of a c) j)"

lemma length_mix [simp]: "length (mix_into off s out) = length out"
  by (simp add: mix_into_def)

lemma mix_nth: "j < length out \<Longrightarrow> mix_into off s out ! j = out ! j + sample_of off s j"
  by (simp add: mix_into_def sample_of_def)

lemma mix_segments_sum:
  assumes "mix_segments play modelOf startSec gs (left, right, e) = Inr (left', right', e')" "length right = length left"
  shows "length left' = length left \<and> length right' = length left \<and> e \<le> e' \<and> (e \<le> length left \<longrightarrow> e' \<le> length left)
     \<and> list_all (\<lambda>g. \<exists>a. segment_audio play modelOf g = Inr a
          \<and> min (segment_offset startSec g + length (channel_of a 0)) (length left) \<le> e'
          \<and> min (segment_offset startSec g + length (channel_of a 1)) (length left) \<le> e') gs
     \<and> (\<forall>j < length left. left' ! j = left ! j + sum_list (map (segment_sample play modelOf startSec 0 j) gs)
          \<and> right' ! j = right ! j + sum_list (map (segment_sample play modelOf startSec 1 j) gs))"
  using assms
proof (induction gs arbitrary: left right e)
  case (Cons g gs)
  obtain a where a: "segment_audio play modelOf g = Inr a"
    using Cons.prems(1) by (cases "segment_audio play modelOf g") auto
  let ?l = "mix_into (segment_offset startSec g) (channel_of a 0) left"
  let ?r = "mix_into (segment_offset startSec g) (channel_of a 1) right"
  let ?e = "max (max e (min (segment_offset startSec g + length (channel_of a 0)) (length left)))
               (min (segment_offset startSec g + length (channel_of a 1)) (length left))"
  have run: "mix_segments play modelOf startSec gs (?l, ?r, ?e) = Inr (left', right', e')"
    using Cons.prems(1) by (simp add: a Let_def)
  have sample: "segment_sample play modelOf startSec c j g = sample_of (segment_offset startSec g) (channel_of a c) j" for c j
    by (simp add: segment_sample_def a)
  note ih = Cons.IH [OF run, simplified, OF Cons.prems(2)]
  have "left' ! j = left ! j + (segment_sample play modelOf startSec 0 j g + sum_list (map (segment_sample play modelOf startSec 0 j) gs))
      \<and> right' ! j = right ! j + (segment_sample play modelOf startSec 1 j g + sum_list (map (segment_sample play modelOf startSec 1 j) gs))"
    if "j < length left" for j
    using ih that Cons.prems(2) by (simp add: mix_nth sample)
  with ih show ?case by (auto simp: a)
qed simp

lemma sum_js_sort: "sum_list (map f (js_sort c xs)) = (sum_list (map f xs) :: real)"
  by (metis mset_map_js_sort sum_mset_sum_list)

lemma js_round_le: "js_round x \<le> x + 1 / 2"
  unfolding js_round_def by linarith

lemma master_range: "master_job m None None = Some job \<Longrightarrow> 0 < rm_durationSec m \<and> oj_channels job = 2 \<and> oj_frames job = range_frames 0 (rm_durationSec m)"
  by (auto simp: master_job_def resolve_range_def Let_def split: if_splits)

lemma frames_fit:
  assumes "0 \<le> x" "0 < d" "x + d + 1 / 100 \<le> y"
  shows "nat \<lfloor>js_round (x * render_sample_rate)\<rfloor> + range_frames 0 d \<le> nat \<lceil>y * render_sample_rate\<rceil>"
proof -
  let ?o = "nat \<lfloor>js_round (x * render_sample_rate)\<rfloor>" and ?f = "range_frames 0 d"
  have off: "real ?o \<le> x * 48000 + 1 / 2"
    using js_round_le [of "x * 48000"] assms(1) by (simp add: render_sample_rate_def) linarith
  have "real ?f \<le> d * 48000 + 3 / 2"
    using js_round_le [of "d * 48000"] assms(2) by (simp add: range_frames_def render_sample_rate_def) linarith
  moreover have "(x + d + 1 / 100) * 48000 \<le> y * 48000" using assms(3) by simp
  ultimately have "real (?o + ?f) \<le> y * 48000" using off by simp
  also have "\<dots> \<le> real (nat \<lceil>y * render_sample_rate\<rceil>)" by (simp add: render_sample_rate_def) linarith
  finally show ?thesis by linarith
qed

text \<open>C39. The session master is the sum of its takes. Every sample is the sum of what each take's own master has at that
  moment of the arrangement, whatever the order of the takes and whether they overlap, with silence where there is none;
  the two channels have one length; and a take whose aligned audio ends within a second of what the archive declares is in it
  to its last frame. The context renders as many frames of as many channels as it was made with.\<close>

theorem session_is_sum_of_takes:
  assumes mix: "render_session play segments modelOf = Inr mix"
    and plays: "\<And>job. map length (play job) = replicate (oj_channels job) (oj_frames job)"
    and g: "g \<in> set segments" "modelOf (rs_takeId g) = Some model"
      "rm_durationSec model \<le> rs_declaredEndSec g - rs_baseSec g + 0.99"
  shows "length (sx_left mix) = length (sx_right mix)
    \<and> segment_offset (the (min_of (map rs_baseSec segments))) g + range_frames 0 (rm_durationSec model) \<le> length (sx_left mix)
    \<and> (\<forall>j < length (sx_left mix).
         sx_left mix ! j = sum_list (map (segment_sample play modelOf (the (min_of (map rs_baseSec segments))) 0 j) segments)
       \<and> sx_right mix ! j = sum_list (map (segment_sample play modelOf (the (min_of (map rs_baseSec segments))) 1 j) segments))"
proof -
  define start where "start = the (min_of (map rs_baseSec segments))"
  define sorted where "sorted = js_sort (by_key rs_baseSec) segments"
  let ?n = "mix_capacity segments"
  have ne: "segments \<noteq> []" using g(1) by auto
  obtain l r e where run: "mix_segments play modelOf start sorted (replicate ?n 0, replicate ?n 0, 0) = Inr (l, r, e)"
    and m: "mix = \<lparr>sx_left = take e l, sx_right = take e r\<rparr>"
    using mix ne by (auto simp: render_session_def start_def sorted_def Let_def split: sum.splits)
  note facts = mix_segments_sum [OF run]
  have len: "length l = ?n" "length r = ?n" "e \<le> ?n" using facts by auto
  obtain a where a: "segment_audio play modelOf g = Inr a" "min (segment_offset start g + length (channel_of a 0)) ?n \<le> e"
    using facts g(1) by (auto simp: sorted_def list_all_iff)
  obtain job where job: "master_job model None None = Some job" "a = play job"
    using a(1) g(2) by (auto simp: segment_audio_def split: option.splits)
  have two: "map length (play job) = replicate 2 (range_frames 0 (rm_durationSec model))" "0 < rm_durationSec model"
    using plays [of job] master_range [OF job(1)] by simp_all
  then have len2: "length (play job) = 2" by (metis length_map length_replicate)
  have "map length (play job) ! 0 = range_frames 0 (rm_durationSec model)" using two(1) by (simp add: numeral_2_eq_2)
  then have frames: "length (channel_of a 0) = range_frames 0 (rm_durationSec model)"
    using len2 job(2) by (simp add: channel_of_def)
  have "start \<le> rs_baseSec g" "rs_declaredEndSec g \<le> the (max_of (map rs_declaredEndSec segments))"
    using min_of_the [of "map rs_baseSec segments"] max_of_the [of "map rs_declaredEndSec segments"] g(1) ne
    by (auto simp: start_def)
  then have "segment_offset start g + range_frames 0 (rm_durationSec model) \<le> ?n"
    unfolding segment_offset_def mix_capacity_def start_def [symmetric]
    using g(3) two(2) by (intro frames_fit) auto
  moreover have "l ! j = sum_list (map (segment_sample play modelOf start 0 j) segments)
      \<and> r ! j = sum_list (map (segment_sample play modelOf start 1 j) segments)" if "j < e" for j
    using facts that len(3) by (simp add: sorted_def sum_js_sort)
  ultimately show ?thesis using a(2) len by (simp add: m frames start_def)
qed

text \<open>Two takes of one short sound each, the second half a second later.\<close>

definition sample_model :: "string \<Rightarrow> render_model option" where
  "sample_model k = Some \<lparr>rm_takeId = k, rm_durationSec = 1 / 48000, rm_master = \<lparr>sv_gain = 1, sv_pan = 0, sv_eq = default_eq\<rparr>, rm_tracks = []\<rparr>"

definition sample_segments :: "render_segment list" where
  "sample_segments = [\<lparr>rs_takeId = ''a'', rs_baseSec = 1, rs_declaredEndSec = 2\<rparr>, \<lparr>rs_takeId = ''b'', rs_baseSec = 1 + 1 / 48000, rs_declaredEndSec = 2\<rparr>]"

definition sample_play :: "offline_job \<Rightarrow> real list list" where
  "sample_play job = replicate (oj_channels job) (replicate (oj_frames job) 5)"

lemma sample_job: "master_job (the (sample_model k)) None None = Some \<lparr>oj_channels = 2, oj_frames = 1, oj_tracks = [],
     oj_master = Some \<lparr>sv_gain = 1, sv_pan = 0, sv_eq = default_eq\<rparr>\<rparr>"
  by (simp add: sample_model_def master_job_def resolve_range_def range_frames_def js_round_def render_sample_rate_def)

lemma sample_audio: "segment_audio sample_play sample_model g = Inr [[5], [5]]"
  using sample_job [of "rs_takeId g"] by (simp add: segment_audio_def sample_model_def sample_play_def numeral_2_eq_2)

lemma sample_mix_runs: "\<exists>out. mix_segments sample_play sample_model start gs acc = Inr out"
proof (induction gs arbitrary: acc)
  case (Cons g gs)
  obtain l r e where "acc = (l, r, e)" by (cases acc)
  then show ?case using Cons.IH by (simp only: mix_segments.simps sample_audio sum.case Let_def)
qed auto

lemma sample_mixed: "\<exists>m. render_session sample_play sample_segments sample_model = Inr m"
proof -
  obtain l r e where "mix_segments sample_play sample_model (the (min_of (map rs_baseSec sample_segments)))
      (js_sort (by_key rs_baseSec) sample_segments) (replicate (mix_capacity sample_segments) 0, replicate (mix_capacity sample_segments) 0, 0) = Inr (l, r, e)"
    using sample_mix_runs by (metis prod_cases3)
  then show ?thesis by (simp add: render_session_def Let_def) (simp add: sample_segments_def)
qed

theorem session_is_sum_of_takes_witness:
  "\<exists>m. render_session sample_play sample_segments sample_model = Inr m
    \<and> (1 < length (sx_left m)) \<and> sx_left m ! 1 = 5"
proof -
  obtain m where m: "render_session sample_play sample_segments sample_model = Inr m" using sample_mixed by blast
  have c: "map length (sample_play job) = replicate (oj_channels job) (oj_frames job)" for job
    by (simp add: sample_play_def)
  have s: "segment_sample sample_play sample_model 1 0 (Suc 0) (sample_segments ! 0) = 0"
    "segment_sample sample_play sample_model 1 0 (Suc 0) (sample_segments ! 1) = 5"
    "segment_offset 1 (sample_segments ! 1) = 1" "range_frames 0 (1 / 48000) = 1"
    by (simp_all add: segment_sample_def sample_audio sample_of_def channel_of_def segment_offset_def sample_segments_def
        js_round_def render_sample_rate_def range_frames_def)
  have b: "the (min_of (map rs_baseSec sample_segments)) = 1" by (simp add: sample_segments_def)
  have g: "sample_segments ! 1 \<in> set sample_segments" by (simp add: sample_segments_def)
  have model: "sample_model (rs_takeId (sample_segments ! 1)) = Some (the (sample_model ''b''))"
    "rm_durationSec (the (sample_model ''b'')) = 1 / 48000"
    "rm_durationSec (the (sample_model ''b'')) \<le> rs_declaredEndSec (sample_segments ! 1) - rs_baseSec (sample_segments ! 1) + 0.99"
    by (simp_all add: sample_model_def sample_segments_def)
  have sum: "sum_list (map f sample_segments) = f (sample_segments ! 0) + f (sample_segments ! 1)" for f :: "render_segment \<Rightarrow> real"
    by (simp add: sample_segments_def)
  show ?thesis
    using session_is_sum_of_takes [OF m c g model(1) model(3)] m s unfolding b model(2)
    by (auto simp: sum)
qed

end
