(* ===== verification/Player.thy ===== *)
theory Player
  imports Player_Plan
begin

text \<open>
  The session player, \<open>apps/web/src/routes/desk/player.ts\<close>: the tracks that are mounted, the mixer, the transport and its
  clock, the look-ahead that decodes takes before the playhead reaches them, and a run of the alignment. A call that awaits is
  split where it awaits; between two parts anything else may happen. The audio context is the clock \<open>pl_now\<close> and the nodes that
  are started in it, each with what \<open>start\<close> was given. Meters, listeners and the drift cache are left out.
\<close>

subsection \<open>State\<close>

text \<open>A track is an object: \<open>pt_oid\<close> tells two objects of one stream apart. What its nodes are set to is part of it.\<close>

record player_track = align_track +
  pt_oid :: nat
  pt_takeId :: string
  pt_channelKey :: string
  pt_clipStartSec :: real
  pt_regions :: "clip_region list option"
  pt_gain :: real
  pt_pan :: real
  pt_eq :: eq_chain
  pt_bypass :: bool

record player_source =
  so_oid :: nat
  so_takeId :: string
  so_node :: source_node

text \<open>The calls that are waiting: a load, a decode ahead, an alignment.\<close>

record load_job =
  lj_takeId :: string
  lj_todo :: "string list"
  lj_channelOf :: "string \<Rightarrow> string"
  lj_next :: "(string, player_track) jsmap"

record ahead_job =
  aj_takeId :: string
  aj_todo :: "session_stream_plan list"
  aj_mounted :: "player_track list"

record align_job =
  gj_takeId :: "string option"
  gj_scope :: "string list option"
  gj_before :: "(string \<times> track_timing) list"

record player =
  pl_now :: real
  pl_nextOid :: nat
  pl_tracks :: "(string, player_track) jsmap"
  pl_channels :: "(string, mix_strip) jsmap"
  pl_sources :: "player_source list"
  pl_plan :: "session_take_plan list"
  pl_wired :: bool
  pl_ahead :: "ahead_job option"
  pl_lastLookaheadMs :: real
  pl_loadedTakeId :: "string option"
  pl_load :: "load_job option"
  pl_align :: "align_job option"
  pl_playing :: bool
  pl_startCtxTime :: real
  pl_startPos :: real
  pl_master :: mix_strip
  pl_error :: "string option"
  pl_alignError :: "string option"
  pl_scheduleCount :: nat
  pl_seekCount :: nat
  pl_settled :: "string list"

definition new_player :: player where
  "new_player =
     \<lparr>pl_now = 0, pl_nextOid = 0, pl_tracks = [], pl_channels = [], pl_sources = [], pl_plan = [], pl_wired = False, pl_ahead = None,
      pl_lastLookaheadMs = 0, pl_loadedTakeId = None, pl_load = None, pl_align = None, pl_playing = False, pl_startCtxTime = 0,
      pl_startPos = 0, pl_master = default_mix_strip, pl_error = None, pl_alignError = None, pl_scheduleCount = 0,
      pl_seekCount = 0, pl_settled = []\<rparr>"

definition lookahead_sec :: real where "lookahead_sec = 15"
definition release_margin_sec :: real where "release_margin_sec = 5"
definition lookahead_poll_ms :: real where "lookahead_poll_ms = 500"

text \<open>The waveform that is drawn: a peak per bucket, at most 64 samples looked at.\<close>

definition waveform_peak :: "real list \<Rightarrow> nat \<Rightarrow> nat \<Rightarrow> nat \<Rightarrow> real" where
  "waveform_peak xs start stop stride =
     foldl max 0 (map (\<lambda>i. \<bar>xs ! (start + i * stride)\<bar>) [0..<(stop - start + stride - 1) div stride])"

definition compute_waveform :: "real list \<Rightarrow> nat \<Rightarrow> real list" where
  "compute_waveform xs buckets =
     (if xs = [] then []
      else let perBucket = real (length xs) / real buckets; stride = max 1 (nat \<lfloor>perBucket / 64\<rfloor>)
           in map (\<lambda>b. let start = nat \<lfloor>real b * perBucket\<rfloor>;
                            stop = min (length xs) (max (start + 1) (nat \<lfloor>real (b + 1) * perBucket\<rfloor>))
                        in min 1 (waveform_peak xs start stop stride)) [0..<buckets])"

subsection \<open>The mixer\<close>

definition strip_of :: "player \<Rightarrow> string \<Rightarrow> mix_strip" where
  "strip_of s key = or_else (jm_get (pl_channels s) key) default_mix_strip"

definition ensure_channel :: "string \<Rightarrow> player \<Rightarrow> player" where
  "ensure_channel key s = (if jm_has (pl_channels s) key then s else s\<lparr>pl_channels := jm_set key default_mix_strip (pl_channels s)\<rparr>)"

definition any_solo :: "player \<Rightarrow> bool" where
  "any_solo s = list_ex ms_soloed (jm_values (pl_channels s))"

definition strip_gain :: "player \<Rightarrow> string \<Rightarrow> real" where
  "strip_gain s key =
     (let st = strip_of s key; audible = (\<not> ms_muted st \<and> (\<not> any_solo s \<or> ms_soloed st))
      in if audible then db_to_linear (ms_gainDb st) else 0)"

definition map_tracks :: "(player_track \<Rightarrow> player_track) \<Rightarrow> player \<Rightarrow> player" where
  "map_tracks f s = s\<lparr>pl_tracks := map (\<lambda>(k, t). (k, f t)) (pl_tracks s)\<rparr>"

definition apply_gains :: "player \<Rightarrow> player" where
  "apply_gains s =
     (let s = fold ensure_channel (map pt_channelKey (jm_values (pl_tracks s))) s
      in map_tracks (\<lambda>t. t\<lparr>pt_gain := strip_gain s (pt_channelKey t), pt_pan := ms_pan (strip_of s (pt_channelKey t))\<rparr>) s)"

definition set_strip :: "string \<Rightarrow> (mix_strip \<Rightarrow> mix_strip) \<Rightarrow> player \<Rightarrow> player" where
  "set_strip key f s = s\<lparr>pl_channels := jm_set key (f (strip_of s key)) (pl_channels s)\<rparr>"

definition set_channel_db :: "string \<Rightarrow> real \<Rightarrow> player \<Rightarrow> player" where
  "set_channel_db key db s = apply_gains (set_strip key (ms_gainDb_update (\<lambda>_. clamp_to min_db max_db db)) s)"

definition set_channel_pan :: "string \<Rightarrow> real \<Rightarrow> player \<Rightarrow> player" where
  "set_channel_pan key p s = apply_gains (set_strip key (ms_pan_update (\<lambda>_. clamp_to (- 1) 1 p)) s)"

definition toggle_channel_mute :: "string \<Rightarrow> player \<Rightarrow> player" where
  "toggle_channel_mute key s = apply_gains (set_strip key (ms_muted_update Not) s)"

definition toggle_channel_solo :: "string \<Rightarrow> player \<Rightarrow> player" where
  "toggle_channel_solo key s = apply_gains (set_strip key (ms_soloed_update Not) s)"

definition set_channel_eq :: "string \<Rightarrow> eq_patch \<Rightarrow> player \<Rightarrow> player" where
  "set_channel_eq key p s =
     (let s = set_strip key (ms_eq_update (\<lambda>e. apply_eq_patch e p)) s
      in map_tracks (\<lambda>t. if pt_channelKey t = key then t\<lparr>pt_eq := eq_chain_of (ms_eq (strip_of s key))\<rparr> else t) s)"

definition toggle_channel_eq_bypass :: "string \<Rightarrow> player \<Rightarrow> player" where
  "toggle_channel_eq_bypass key s =
     (let s = set_strip key (ms_eq_update (eq_bypassed_update Not)) s
      in map_tracks (\<lambda>t. if pt_channelKey t = key then t\<lparr>pt_bypass := eq_bypassed (ms_eq (strip_of s key))\<rparr> else t) s)"

definition set_master_db :: "real \<Rightarrow> player \<Rightarrow> player" where
  "set_master_db db s = apply_gains (s\<lparr>pl_master := (pl_master s)\<lparr>ms_gainDb := clamp_to min_db max_db db\<rparr>\<rparr>)"

definition set_master_pan :: "real \<Rightarrow> player \<Rightarrow> player" where
  "set_master_pan p s = apply_gains (s\<lparr>pl_master := (pl_master s)\<lparr>ms_pan := clamp_to (- 1) 1 p\<rparr>\<rparr>)"

definition set_master_eq :: "eq_patch \<Rightarrow> player \<Rightarrow> player" where
  "set_master_eq p s = s\<lparr>pl_master := ms_eq_update (\<lambda>e. apply_eq_patch e p) (pl_master s)\<rparr>"

definition toggle_master_eq_bypass :: "player \<Rightarrow> player" where
  "toggle_master_eq_bypass s = s\<lparr>pl_master := ms_eq_update (eq_bypassed_update Not) (pl_master s)\<rparr>"

text \<open>A track moved to another strip takes its equaliser over.\<close>

definition rekey_track :: "player \<Rightarrow> string \<Rightarrow> player_track \<Rightarrow> player_track" where
  "rekey_track s key t =
     t\<lparr>pt_channelKey := key, pt_eq := eq_chain_of (ms_eq (strip_of s key)), pt_bypass := eq_bypassed (ms_eq (strip_of s key))\<rparr>"

subsection \<open>The mount window\<close>

definition take_tracks :: "player \<Rightarrow> string option \<Rightarrow> player_track list" where
  "take_tracks s k = filter (\<lambda>t. Some (pt_takeId t) = k) (jm_values (pl_tracks s))"

definition loaded_tracks :: "player \<Rightarrow> player_track list" where
  "loaded_tracks s = take_tracks s (pl_loadedTakeId s)"

definition mounted_take_ids :: "player \<Rightarrow> string list" where
  "mounted_take_ids s = foldl (\<lambda>ks t. if pt_takeId t \<in> set ks then ks else ks @ [pt_takeId t]) [] (jm_values (pl_tracks s))"

definition planned_take :: "player \<Rightarrow> string \<Rightarrow> session_take_plan option" where
  "planned_take s k = List.find (\<lambda>p. pk_takeId p = k) (pl_plan s)"

definition plan_stream :: "player \<Rightarrow> string \<Rightarrow> string \<Rightarrow> session_stream_plan option" where
  "plan_stream s k sid = Option.bind (planned_take s k) (\<lambda>p. List.find (\<lambda>x. ps_streamId x = sid) (pk_streams p))"

definition take_deltas :: "player \<Rightarrow> string \<Rightarrow> (string, real) jsmap" where
  "take_deltas s k = track_deltas (map align_track.truncate (take_tracks s (Some k)))"

definition player_timing :: "player \<Rightarrow> player_track \<Rightarrow> track_timing" where
  "player_timing s t = model_timing (take_deltas s (pt_takeId t)) (align_track.truncate t) (pt_clipStartSec t)"

definition track_end :: "player \<Rightarrow> player_track \<Rightarrow> real" where
  "track_end s t =
     (case pt_regions t of None \<Rightarrow> track_end_sec (player_timing s t)
      | Some rs \<Rightarrow> regions_end_sec (stream_part (player_timing s t)) rs)"

definition take_base_sec :: "player \<Rightarrow> string option \<Rightarrow> real" where
  "take_base_sec s k =
     (case k of None \<Rightarrow> 0
      | Some tid \<Rightarrow>
          if take_tracks s k \<noteq> [] then clips_base_sec (map (\<lambda>t. (pt_clipStartSec t, pt_regions t)) (take_tracks s k))
          else case planned_take s tid of None \<Rightarrow> 0
               | Some p \<Rightarrow> if pk_streams p \<noteq> [] then planned_base_sec (pk_streams p) else 0)"

definition take_end_sec :: "player \<Rightarrow> string \<Rightarrow> real" where
  "take_end_sec s tid =
     (if take_tracks s (Some tid) \<noteq> [] then the (max_of (map (track_end s) (take_tracks s (Some tid))))
      else case planned_take s tid of None \<Rightarrow> 0
           | Some p \<Rightarrow> if pk_streams p \<noteq> [] then planned_end_sec (pk_streams p) else 0)"

definition take_span :: "player \<Rightarrow> string \<Rightarrow> session_take_span" where
  "take_span s tid = \<lparr>ss_takeId = tid, ss_startSec = take_base_sec s (Some tid), ss_endSec = take_end_sec s tid\<rparr>"

definition take_spans :: "player \<Rightarrow> session_take_span list" where
  "take_spans s =
     (let planned = foldl (\<lambda>m p. if pk_streams p = [] then m else jm_set (pk_takeId p) (take_span s (pk_takeId p)) m) [] (pl_plan s)
      in jm_values (foldl (\<lambda>m tid. if jm_has m tid then m else jm_set tid (take_span s tid) m) planned (mounted_take_ids s)))"

definition session_duration :: "player \<Rightarrow> real" where
  "session_duration s = session_end_sec (take_spans s)"

definition take_duration :: "player \<Rightarrow> real" where
  "take_duration s =
     (case pl_loadedTakeId s of None \<Rightarrow> 0
      | Some tid \<Rightarrow> if loaded_tracks s = [] then 0 else take_end_sec s tid - take_base_sec s (Some tid))"

definition player_position :: "player \<Rightarrow> real" where
  "player_position s =
     (if \<not> pl_playing s then pl_startPos s
      else min (session_duration s) (pl_startPos s + max 0 (pl_now s - pl_startCtxTime s)))"

subsection \<open>Sources\<close>

definition stop_sources :: "player \<Rightarrow> player" where
  "stop_sources s = s\<lparr>pl_sources := []\<rparr>"

definition source_of :: "player \<Rightarrow> player_track \<Rightarrow> real \<Rightarrow> node_plan \<Rightarrow> player_source" where
  "source_of s t origin n = \<lparr>so_oid = pt_oid t, so_takeId = pt_takeId t, so_node = start_node (player_timing s t) origin n\<rparr>"

definition sources_from :: "player \<Rightarrow> real \<Rightarrow> real \<Rightarrow> player_track \<Rightarrow> player_source list" where
  "sources_from s when fromSec t =
     List.map_filter (\<lambda>p. map_option (source_of s t when) (plan_piece (player_timing s t) p fromSec)) (pieces_of (pt_regions t))"

definition schedule :: "real \<Rightarrow> player \<Rightarrow> player" where
  "schedule fromSec s =
     (let when = pl_now s + 6 / 100
      in s\<lparr>pl_sources := pl_sources s @ concat (map (sources_from s when fromSec) (jm_values (pl_tracks s))),
           pl_startCtxTime := when, pl_startPos := fromSec, pl_playing := True, pl_scheduleCount := pl_scheduleCount s + 1\<rparr>)"

text \<open>Stop everything and play on from where the playhead is.\<close>

definition reschedule :: "player \<Rightarrow> player" where
  "reschedule s = (let pos = player_position s in schedule pos (stop_sources s))"

text \<open>A take joins a transport that rolls: on the clock of what is rolling, and from the middle when it comes late.\<close>

definition joining_source :: "player \<Rightarrow> player_track \<Rightarrow> piece \<Rightarrow> player_source option" where
  "joining_source s t p =
     (case plan_piece (player_timing s t) p (pl_startPos s) of None \<Rightarrow> None
      | Some n \<Rightarrow>
          if pl_startCtxTime s + np_whenSec n < pl_now s + 2 / 100
          then (let now = pl_now s + 2 / 100; posNow = pl_startPos s + (now - pl_startCtxTime s)
                in map_option (source_of s t now) (plan_piece (player_timing s t) p posNow))
          else Some (source_of s t (pl_startCtxTime s) n))"

definition schedule_take :: "string \<Rightarrow> player \<Rightarrow> player" where
  "schedule_take tid s =
     (let new = concat (map (\<lambda>t. List.map_filter (joining_source s t) (pieces_of (pt_regions t))) (take_tracks s (Some tid)))
      in if new = [] then s else s\<lparr>pl_sources := pl_sources s @ new, pl_scheduleCount := pl_scheduleCount s + 1\<rparr>)"

definition unmount_take :: "string \<Rightarrow> player \<Rightarrow> player" where
  "unmount_take tid s =
     s\<lparr>pl_sources := filter (\<lambda>x. so_takeId x \<noteq> tid) (pl_sources s),
       pl_tracks := filter (\<lambda>(k, t). pt_takeId t \<noteq> tid) (pl_tracks s)\<rparr>"

definition player_pause :: "player \<Rightarrow> player" where
  "player_pause s =
     (if \<not> pl_playing s then s else (stop_sources s)\<lparr>pl_startPos := player_position s, pl_playing := False\<rparr>)"

subsection \<open>Mounting\<close>

text \<open>A new track reads the plan and its strip as they are when its audio is decoded.\<close>

definition mount_track :: "string \<Rightarrow> string \<Rightarrow> audio_buffer \<Rightarrow> string \<Rightarrow> player \<Rightarrow> player_track \<times> player" where
  "mount_track tid sid b key s =
     (let s = ensure_channel key s; planned = plan_stream s tid sid
      in (rekey_track s key
            \<lparr>at_streamId = sid, at_buffer = b, at_alignment = None, at_drift = None, pt_oid = pl_nextOid s, pt_takeId = tid,
             pt_channelKey = key, pt_clipStartSec = (case planned of None \<Rightarrow> 0 | Some x \<Rightarrow> ps_clipStartSec x),
             pt_regions = Option.bind planned ps_regions, pt_gain = 1, pt_pan = 0, pt_eq = eq_chain_of default_eq, pt_bypass = False\<rparr>,
          s\<lparr>pl_nextOid := pl_nextOid s + 1\<rparr>))"

definition filled_result :: "align_result \<Rightarrow> align_result" where
  "filled_result r = r\<lparr>ar_method := Some (result_method r)\<rparr>"

definition with_verdict :: "stored_alignment option \<Rightarrow> player_track \<Rightarrow> player_track" where
  "with_verdict e t =
     (case e of None \<Rightarrow> t | Some a \<Rightarrow> t\<lparr>at_alignment := Some (filled_result (sa_alignment a)), at_drift := sa_drift a\<rparr>)"

text \<open>A take decoded ahead: registered with its stored verdict, and scheduled when the transport rolls.\<close>

definition ahead_done :: "ahead_job \<Rightarrow> (string, stored_alignment) jsmap \<Rightarrow> player \<Rightarrow> player" where
  "ahead_done j entries s =
     (let s = s\<lparr>pl_ahead := None\<rparr>
      in if planned_take s (aj_takeId j) = None then s
         else let mounted = map (\<lambda>t. with_verdict (jm_get entries (at_streamId t)) t) (aj_mounted j);
                  s = apply_gains (s\<lparr>pl_tracks := fold (\<lambda>t m. jm_set (at_streamId t) t m) mounted (pl_tracks s)\<rparr>)
              in if pl_playing s then schedule_take (aj_takeId j) s else s)"

definition mount_ahead :: "string \<Rightarrow> player \<Rightarrow> player" where
  "mount_ahead tid s =
     (case planned_take s tid of None \<Rightarrow> s
      | Some p \<Rightarrow> s\<lparr>pl_ahead := Some \<lparr>aj_takeId = tid, aj_todo = pk_streams p, aj_mounted = []\<rparr>\<rparr>)"

definition ahead_decoded :: "audio_buffer \<Rightarrow> (string, stored_alignment) jsmap \<Rightarrow> player \<Rightarrow> player" where
  "ahead_decoded b entries s =
     (case pl_ahead s of None \<Rightarrow> s
      | Some j \<Rightarrow> (case aj_todo j of
            [] \<Rightarrow> ahead_done j entries s
          | x # rest \<Rightarrow>
              let (t, s) = mount_track (aj_takeId j) (ps_streamId x) b (ps_channelKey x) s;
                  j = j\<lparr>aj_todo := rest, aj_mounted := aj_mounted j @ [t]\<rparr>
              in if rest = [] then ahead_done j entries s else s\<lparr>pl_ahead := Some j\<rparr>))"

definition ahead_fails :: "string \<Rightarrow> player \<Rightarrow> player" where
  "ahead_fails message s =
     (case pl_ahead s of None \<Rightarrow> s
      | Some j \<Rightarrow> s\<lparr>pl_ahead := None, pl_error := Some (''take '' @ take 8 (aj_takeId j) @ '' decode failed: '' @ message)\<rparr>)"

definition ahead_missing :: "player \<Rightarrow> player" where
  "ahead_missing s =
     (case pl_ahead s of None \<Rightarrow> s
      | Some j \<Rightarrow> (case aj_todo j of [] \<Rightarrow> s
          | x # _ \<Rightarrow> ahead_fails (''stream '' @ take 8 (ps_streamId x) @ '' not reconstructable'') s))"

definition ensure_lookahead :: "player \<Rightarrow> player" where
  "ensure_lookahead s =
     (if \<not> pl_wired s then s
      else let pos = player_position s; spans = take_spans s;
               s = fold unmount_take (takes_to_release spans (mounted_take_ids s) pos (pl_loadedTakeId s) release_margin_sec) s
           in if pl_ahead s \<noteq> None then s
              else case takes_to_mount spans (\<lambda>tid. take_tracks s (Some tid) \<noteq> []) pos lookahead_sec of
                     [] \<Rightarrow> s | tid # _ \<Rightarrow> mount_ahead tid s)"

subsection \<open>Selecting a take\<close>

definition load_done :: "load_job \<Rightarrow> player \<Rightarrow> player" where
  "load_done j s =
     (let s = s\<lparr>pl_load := None, pl_tracks := lj_next j, pl_loadedTakeId := Some (lj_takeId j)\<rparr>
      in apply_gains (s\<lparr>pl_startPos := take_base_sec s (Some (lj_takeId j))\<rparr>))"

definition load_call :: "string \<Rightarrow> string list \<Rightarrow> (string \<Rightarrow> string) \<Rightarrow> player \<Rightarrow> player" where
  "load_call tid ids channelOf s =
     (if pl_load s \<noteq> None then s
      else if pl_loadedTakeId s = Some tid \<and> list_all (\<lambda>i. jm_has (pl_tracks s) i) ids then s
      else let s = player_pause s
           in if ids \<noteq> [] \<and> list_all (\<lambda>i. map_option pt_takeId (jm_get (pl_tracks s) i) = Some tid) ids
              then let s = fold unmount_take (filter (\<lambda>k. k \<noteq> tid) (mounted_take_ids s)) s;
                       s = s\<lparr>pl_loadedTakeId := Some tid\<rparr>
                   in apply_gains (s\<lparr>pl_startPos := take_base_sec s (Some tid), pl_error := None, pl_alignError := None\<rparr>)
              else let j = \<lparr>lj_takeId = tid, lj_todo = ids, lj_channelOf = channelOf, lj_next = []\<rparr>;
                       s = s\<lparr>pl_error := None, pl_alignError := None\<rparr>
                   in if ids = [] then load_done j s else s\<lparr>pl_load := Some j\<rparr>)"

definition load_next :: "load_job \<Rightarrow> player \<Rightarrow> player" where
  "load_next j s = (if lj_todo j = [] then load_done j s else s\<lparr>pl_load := Some j\<rparr>)"

definition load_decoded :: "audio_buffer \<Rightarrow> player \<Rightarrow> player" where
  "load_decoded b s =
     (case pl_load s of None \<Rightarrow> s
      | Some j \<Rightarrow> (case lj_todo j of [] \<Rightarrow> s
          | sid # rest \<Rightarrow>
              let previous = jm_get (pl_tracks s) sid;
                  (t, s) = mount_track (lj_takeId j) sid b (lj_channelOf j sid) s;
                  t = t\<lparr>at_alignment := Option.bind previous at_alignment, at_drift := Option.bind previous at_drift\<rparr>
              in load_next (j\<lparr>lj_todo := rest, lj_next := jm_set sid t (lj_next j)\<rparr>) s))"

definition load_missing :: "player \<Rightarrow> player" where
  "load_missing s =
     (case pl_load s of None \<Rightarrow> s
      | Some j \<Rightarrow> (case lj_todo j of [] \<Rightarrow> s
          | sid # rest \<Rightarrow>
              load_next (j\<lparr>lj_todo := rest\<rparr>)
                (s\<lparr>pl_error := Some (''stream '' @ take 8 sid @ '' not reconstructable yet'')\<rparr>)))"

definition load_fails :: "string \<Rightarrow> player \<Rightarrow> player" where
  "load_fails message s =
     (if pl_load s = None then s else s\<lparr>pl_load := None, pl_error := Some (''decode failed: '' @ message)\<rparr>)"

subsection \<open>The plan\<close>

definition on_track :: "string \<Rightarrow> (player_track \<Rightarrow> player_track) \<Rightarrow> player \<Rightarrow> player" where
  "on_track sid f s =
     (case jm_get (pl_tracks s) sid of None \<Rightarrow> s | Some t \<Rightarrow> s\<lparr>pl_tracks := jm_set sid (f t) (pl_tracks s)\<rparr>)"

definition moves_clip :: "session_stream_plan \<Rightarrow> player_track \<Rightarrow> bool" where
  "moves_clip x t \<longleftrightarrow> \<bar>pt_clipStartSec t - ps_clipStartSec x\<bar> > 1 / 10 ^ 4"

text \<open>A mounted track takes its clip start, its regions and its strip from the plan; the flag notes whether it moved.\<close>

definition repoint :: "string \<Rightarrow> session_stream_plan \<Rightarrow> player \<times> bool \<Rightarrow> player \<times> bool" where
  "repoint tid x = (\<lambda>(s, moved).
     case jm_get (pl_tracks s) (ps_streamId x) of None \<Rightarrow> (s, moved)
     | Some t \<Rightarrow>
         if pt_takeId t \<noteq> tid then (s, moved)
         else let clip = moves_clip x t; cut = (pt_regions t \<noteq> ps_regions x);
                  s = on_track (ps_streamId x) (\<lambda>t. t\<lparr>pt_clipStartSec := (if clip then ps_clipStartSec x else pt_clipStartSec t),
                                                     pt_regions := ps_regions x\<rparr>) s;
                  s = (if pt_channelKey t = ps_channelKey x then s
                       else let s = ensure_channel (ps_channelKey x) s
                            in apply_gains (on_track (ps_streamId x) (rekey_track s (ps_channelKey x)) s))
              in (s, moved \<or> clip \<or> cut))"

definition repoint_all :: "session_take_plan list \<Rightarrow> player \<Rightarrow> player \<times> bool" where
  "repoint_all plan s = fold (\<lambda>p. fold (repoint (pk_takeId p)) (pk_streams p)) plan (s, False)"

definition set_session_plan :: "string comparator \<Rightarrow> session_take_plan list \<Rightarrow> player \<Rightarrow> player" where
  "set_session_plan lc plan s =
     (let new = normalize_session_plan lc plan
      in if same_plan (pl_plan s) new then s
         else let s = s\<lparr>pl_plan := new\<rparr>;
                  s = fold unmount_take
                        (filter (\<lambda>k. k \<notin> set (map pk_takeId new) \<and> Some k \<noteq> pl_loadedTakeId s) (mounted_take_ids s)) s;
                  (s, moved) = repoint_all new s
              in if moved \<and> pl_playing s then reschedule s else s)"

definition remap_channels :: "(string \<Rightarrow> string) \<Rightarrow> player \<Rightarrow> player" where
  "remap_channels channelOf s =
     (let changed = filter (\<lambda>t. channelOf (at_streamId t) \<noteq> pt_channelKey t) (jm_values (pl_tracks s));
          s = fold ensure_channel (map (\<lambda>t. channelOf (at_streamId t)) changed) s
      in if changed = [] then s
         else apply_gains (map_tracks (\<lambda>t. let key = channelOf (at_streamId t)
                                           in if key = pt_channelKey t then t else rekey_track s key t) s))"

subsection \<open>The transport\<close>

definition player_play :: "real option \<Rightarrow> player \<Rightarrow> player" where
  "player_play fromSec s =
     (if pl_tracks s = [] then s
      else let s = (stop_sources s)\<lparr>pl_scheduleCount := 0\<rparr>; pos = or_else fromSec (pl_startPos s)
           in ensure_lookahead (schedule (if pos \<ge> session_duration s - 5 / 100 then 0 else pos) s))"

definition player_toggle :: "player \<Rightarrow> player" where
  "player_toggle s = (if pl_playing s then player_pause s else player_play None s)"

definition player_seek :: "real \<Rightarrow> player \<Rightarrow> player" where
  "player_seek sec s =
     (let s = s\<lparr>pl_seekCount := pl_seekCount s + 1\<rparr>; clamped = max 0 (min sec (session_duration s));
          s = (if pl_playing s then schedule clamped (stop_sources s) else s\<lparr>pl_startPos := clamped\<rparr>)
      in ensure_lookahead s)"

text \<open>A turn of the meter loop: the look-ahead at most twice a second, and a pause on the last frame.\<close>

definition meter_tick :: "real \<Rightarrow> player \<Rightarrow> player" where
  "meter_tick nowMs s =
     (if \<not> pl_playing s then s
      else let s = (if nowMs - pl_lastLookaheadMs s > lookahead_poll_ms then ensure_lookahead (s\<lparr>pl_lastLookaheadMs := nowMs\<rparr>) else s)
           in if player_position s \<ge> session_duration s - 2 / 100 then player_pause s else s)"

definition remove_tracks :: "string list \<Rightarrow> player \<Rightarrow> player" where
  "remove_tracks ids s =
     (if \<not> list_ex (\<lambda>i. jm_has (pl_tracks s) i) ids then s
      else let s = s\<lparr>pl_tracks := filter (\<lambda>(k, t). k \<notin> set ids) (pl_tracks s)\<rparr>;
               s = (if loaded_tracks s = [] then (player_pause s)\<lparr>pl_loadedTakeId := None, pl_startPos := 0\<rparr> else s)
           in if pl_playing s then reschedule s else s)"

subsection \<open>A run of the alignment\<close>

definition fingerprint :: "player \<Rightarrow> (string \<times> track_timing) list" where
  "fingerprint s = map (\<lambda>t. (at_streamId t, player_timing s t)) (loaded_tracks s)"

definition align_scope :: "player \<Rightarrow> string list option \<Rightarrow> string list option option" where
  "align_scope s scope =
     (case scope of None \<Rightarrow> Some None
      | Some ids \<Rightarrow>
          let loaded = loaded_tracks s; scoped = filter (\<lambda>i. i \<in> set (map at_streamId loaded)) ids
          in if length scoped = length loaded then Some None
             else if scoped = [] then None
             else if list_ex (\<lambda>t. at_streamId t \<notin> set scoped \<and> at_alignment t \<noteq> None) loaded then Some (Some scoped)
             else Some None)"

definition align_call :: "bool \<Rightarrow> string list option \<Rightarrow> player \<Rightarrow> player" where
  "align_call force scope s =
     (if loaded_tracks s = [] \<or> pl_align s \<noteq> None then s
      else if \<not> force \<and> list_all (\<lambda>t. at_alignment t \<noteq> None) (loaded_tracks s) then s
      else case align_scope s scope of None \<Rightarrow> s
           | Some sc \<Rightarrow> s\<lparr>pl_align := Some \<lparr>gj_takeId = pl_loadedTakeId s, gj_scope = sc, gj_before = fingerprint s\<rparr>, pl_alignError := None\<rparr>)"

text \<open>The passes of \<open>Player_Align\<close> await between two tracks, so their verdicts arrive one by one.\<close>

definition align_writes :: "nat \<Rightarrow> align_result option \<Rightarrow> drift_result option \<Rightarrow> player \<Rightarrow> player" where
  "align_writes oid r d s =
     (if pl_align s = None then s
      else map_tracks (\<lambda>t. if pt_oid t = oid then t\<lparr>at_alignment := r, at_drift := d\<rparr> else t) s)"

definition align_settles :: "align_job \<Rightarrow> player \<Rightarrow> player" where
  "align_settles j s =
     (case gj_takeId j of None \<Rightarrow> s
      | Some tid \<Rightarrow>
          if pl_alignError s \<in> {None, Some []} \<and> pl_loadedTakeId s = Some tid \<and> list_ex (\<lambda>t. at_alignment t \<noteq> None) (loaded_tracks s)
          then s\<lparr>pl_settled := pl_settled s @ [tid]\<rparr> else s)"

definition align_ends :: "player \<Rightarrow> player" where
  "align_ends s =
     (case pl_align s of None \<Rightarrow> s
      | Some j \<Rightarrow>
          let s = (if pl_playing s \<and> fingerprint s \<noteq> gj_before j then reschedule s else s)
          in align_settles j (s\<lparr>pl_align := None\<rparr>))"

definition align_throws :: "string \<Rightarrow> player \<Rightarrow> player" where
  "align_throws message s =
     (case pl_align s of None \<Rightarrow> s
      | Some j \<Rightarrow> align_settles j (s\<lparr>pl_align := None, pl_alignError := Some message\<rparr>))"

definition differs :: "(string, stored_alignment) jsmap \<Rightarrow> player_track \<Rightarrow> bool" where
  "differs entries t \<longleftrightarrow>
     (case jm_get entries (at_streamId t) of None \<Rightarrow> False
      | Some a \<Rightarrow> at_alignment t \<noteq> Some (filled_result (sa_alignment a)) \<or> at_drift t \<noteq> sa_drift a)"

definition restore_alignment :: "string \<Rightarrow> (string, stored_alignment) jsmap \<Rightarrow> player \<Rightarrow> player" where
  "restore_alignment tid entries s =
     (if pl_loadedTakeId s \<noteq> Some tid \<or> pl_align s \<noteq> None \<or> pl_load s \<noteq> None then s
      else if \<not> list_ex (differs entries) (loaded_tracks s) then s
      else let s = map_tracks (\<lambda>t. if pt_takeId t = tid \<and> differs entries t
                                   then with_verdict (jm_get entries (at_streamId t)) t else t) (s\<lparr>pl_alignError := None\<rparr>)
           in if pl_playing s then reschedule s else s)"

subsection \<open>Everything that happens\<close>

datatype player_event =
    Elapse real
  | SetSources
  | SetPlan "session_take_plan list"
  | LoadCall string "string list" "string \<Rightarrow> string"
  | LoadDecoded audio_buffer
  | LoadMissing
  | LoadFails string
  | AheadDecoded audio_buffer "(string, stored_alignment) jsmap"
  | AheadMissing
  | AheadFails string
  | Play "real option"
  | Pause
  | Toggle
  | Seek real
  | Meter real
  | AlignCall bool "string list option"
  | AlignWrites nat "align_result option" "drift_result option"
  | AlignEnds
  | AlignThrows string
  | Restore string "(string, stored_alignment) jsmap"
  | RemoveTracks "string list"
  | RemapChannels "string \<Rightarrow> string"
  | ReportError string
  | ChannelDb string real
  | ChannelPan string real
  | ChannelMute string
  | ChannelSolo string
  | ChannelEq string eq_patch
  | ChannelEqBypass string
  | MasterDb real
  | MasterPan real
  | MasterEq eq_patch
  | MasterEqBypass

fun player_step :: "string comparator \<Rightarrow> player \<Rightarrow> player_event \<Rightarrow> player" where
  "player_step lc s (Elapse d) = s\<lparr>pl_now := pl_now s + max 0 d\<rparr>"
| "player_step lc s SetSources = s\<lparr>pl_wired := True\<rparr>"
| "player_step lc s (SetPlan plan) = set_session_plan lc plan s"
| "player_step lc s (LoadCall tid ids channelOf) = load_call tid ids channelOf s"
| "player_step lc s (LoadDecoded b) = load_decoded b s"
| "player_step lc s LoadMissing = load_missing s"
| "player_step lc s (LoadFails message) = load_fails message s"
| "player_step lc s (AheadDecoded b entries) = ahead_decoded b entries s"
| "player_step lc s AheadMissing = ahead_missing s"
| "player_step lc s (AheadFails message) = ahead_fails message s"
| "player_step lc s (Play fromSec) = player_play fromSec s"
| "player_step lc s Pause = player_pause s"
| "player_step lc s Toggle = player_toggle s"
| "player_step lc s (Seek sec) = player_seek sec s"
| "player_step lc s (Meter nowMs) = meter_tick nowMs s"
| "player_step lc s (AlignCall force scope) = align_call force scope s"
| "player_step lc s (AlignWrites oid r d) = align_writes oid r d s"
| "player_step lc s AlignEnds = align_ends s"
| "player_step lc s (AlignThrows message) = align_throws message s"
| "player_step lc s (Restore tid entries) = restore_alignment tid entries s"
| "player_step lc s (RemoveTracks ids) = remove_tracks ids s"
| "player_step lc s (RemapChannels channelOf) = remap_channels channelOf s"
| "player_step lc s (ReportError message) = s\<lparr>pl_error := Some message\<rparr>"
| "player_step lc s (ChannelDb key db) = set_channel_db key db s"
| "player_step lc s (ChannelPan key p) = set_channel_pan key p s"
| "player_step lc s (ChannelMute key) = toggle_channel_mute key s"
| "player_step lc s (ChannelSolo key) = toggle_channel_solo key s"
| "player_step lc s (ChannelEq key p) = set_channel_eq key p s"
| "player_step lc s (ChannelEqBypass key) = toggle_channel_eq_bypass key s"
| "player_step lc s (MasterDb db) = set_master_db db s"
| "player_step lc s (MasterPan p) = set_master_pan p s"
| "player_step lc s (MasterEq p) = set_master_eq p s"
| "player_step lc s MasterEqBypass = toggle_master_eq_bypass s"

abbreviation player_run :: "string comparator \<Rightarrow> player \<Rightarrow> player_event list \<Rightarrow> player" where
  "player_run lc \<equiv> run (player_step lc)"

subsection \<open>Render models\<close>

definition strip_view_of :: "player \<Rightarrow> string \<Rightarrow> strip_view" where
  "strip_view_of s key = \<lparr>sv_gain = strip_gain s key, sv_pan = ms_pan (strip_of s key), sv_eq = ms_eq (strip_of s key)\<rparr>"

definition master_view :: "player \<Rightarrow> strip_view" where
  "master_view s = \<lparr>sv_gain = db_to_linear (ms_gainDb (pl_master s)), sv_pan = ms_pan (pl_master s), sv_eq = ms_eq (pl_master s)\<rparr>"

definition mounted_render_track :: "player \<Rightarrow> real \<Rightarrow> player_track \<Rightarrow> render_track" where
  "mounted_render_track s base t =
     \<lparr>rk_streamId = at_streamId t, rk_channelKey = pt_channelKey t, rk_buffer = at_buffer t,
      rk_timing = (player_timing s t)\<lparr>tt_clipDelaySec := pt_clipStartSec t - base\<rparr>,
      rk_regions = map_option (rebase_regions base) (pt_regions t), rk_strip = strip_view_of s (pt_channelKey t)\<rparr>"

definition mounted_render_model :: "player \<Rightarrow> string \<Rightarrow> render_model" where
  "mounted_render_model s tid =
     (let base = take_base_sec s (Some tid)
      in \<lparr>rm_takeId = tid, rm_durationSec = take_end_sec s tid - base, rm_master = master_view s,
          rm_tracks = map (mounted_render_track s base) (take_tracks s (Some tid))\<rparr>)"

definition current_render_model :: "player \<Rightarrow> render_model option" where
  "current_render_model s =
     (case pl_loadedTakeId s of None \<Rightarrow> None
      | Some tid \<Rightarrow> if loaded_tracks s = [] then None else Some (mounted_render_model s tid))"

text \<open>A take that is not mounted is decoded for its export; \<open>decode\<close> is what comes of a stream of it.\<close>

definition render_model_for ::
  "(string \<Rightarrow> string \<Rightarrow> audio_buffer option) \<Rightarrow> (string \<Rightarrow> (string, stored_alignment) jsmap) \<Rightarrow> player \<Rightarrow> string \<Rightarrow> render_model option" where
  "render_model_for decode stored s tid =
     (if take_tracks s (Some tid) \<noteq> [] then Some (mounted_render_model s tid)
      else case planned_take s tid of None \<Rightarrow> None
           | Some p \<Rightarrow>
               if pk_streams p = [] \<or> \<not> pl_wired s then None
               else if list_ex (\<lambda>x. decode tid (ps_streamId x) = None) (pk_streams p) then None
               else Some (planned_render_model tid (map (\<lambda>x. (x, the (decode tid (ps_streamId x)))) (pk_streams p)) (stored tid)
                            (strip_view_of s) (master_view s)))"

definition session_render_plan :: "player \<Rightarrow> (string \<times> real \<times> real) list" where
  "session_render_plan s =
     js_sort (by_key (\<lambda>(_, base, _). base))
       (map (\<lambda>p. (pk_takeId p, take_base_sec s (Some (pk_takeId p)), take_end_sec s (pk_takeId p)))
         (filter (\<lambda>p. pk_streams p \<noteq> []) (pl_plan s)))"

end
