(* ===== verification/Player_Clock.thy ===== *)
theory Player_Clock
  imports Player
begin

text \<open>
  What a rolling transport sounds like. Sources are started at different moments: by a schedule of everything, by a take that
  joins while the others roll, and in the middle of a take whose decoding came late. The theory shows that all of them are on one
  clock, and that nothing is missing and nothing is left over.
\<close>

subsection \<open>Sources on one grid\<close>

lemma set_map_filter: "y \<in> set (List.map_filter f xs) \<longleftrightarrow> (\<exists>x \<in> set xs. f x = Some y)"
  by (induction xs) (auto simp: List.map_filter_def split: option.splits)

text \<open>The results that a partial function has over a multiset, each as often as it comes up.\<close>

definition results :: "('a \<Rightarrow> 'b option) \<Rightarrow> 'a multiset \<Rightarrow> 'b multiset" where
  "results f M = (\<Sum>x\<in>#M. case f x of None \<Rightarrow> {#} | Some y \<Rightarrow> {#y#})"

lemma results_simps [simp]:
  "results f {#} = {#}" "results f (add_mset x M) = (case f x of None \<Rightarrow> {#} | Some y \<Rightarrow> {#y#}) + results f M"
  "results f (M + N) = results f M + results f N"
  by (simp_all add: results_def)

lemma results_image [simp]: "results f (image_mset g M) = results (f \<circ> g) M"
  by (induction M) simp_all

lemma mset_map_filter: "mset (List.map_filter f xs) = results f (mset xs)"
  by (induction xs) (simp_all add: map_filter_simps split: option.split)

lemma results_results: "results g (results f M) = results (\<lambda>x. Option.bind (f x) g) M"
  by (induction M) (simp_all split: option.split)

lemma results_cong: "(\<And>x. x \<in># M \<Longrightarrow> f x = g x) \<Longrightarrow> results f M = results g M"
  by (induction M) simp_all

lemma results_filter:
  "(\<And>x y. f x = Some y \<Longrightarrow> Q y \<longleftrightarrow> P x) \<Longrightarrow> results f (filter_mset P M) = filter_mset Q (results f M)"
  by (induction M) (auto split: option.split)

text \<open>What the clock needs of a track: its object, its take, its timing and its pieces.\<close>

record track_view =
  tv_oid :: nat
  tv_takeId :: string
  tv_timing :: track_timing
  tv_pieces :: "piece list"

definition view_of :: "player \<Rightarrow> player_track \<Rightarrow> track_view" where
  "view_of s t = \<lparr>tv_oid = pt_oid t, tv_takeId = pt_takeId t, tv_timing = player_timing s t, tv_pieces = pieces_of (pt_regions t)\<rparr>"

definition views :: "player \<Rightarrow> track_view multiset" where
  "views s = image_mset (view_of s) (mset (jm_values (pl_tracks s)))"

definition planned_node :: "track_view \<Rightarrow> real \<Rightarrow> node_plan \<Rightarrow> player_source" where
  "planned_node v x n = \<lparr>so_oid = tv_oid v, so_takeId = tv_takeId v, so_node = start_node (tv_timing v) x n\<rparr>"

text \<open>The pieces of some tracks, each with its track.\<close>

definition parts :: "track_view multiset \<Rightarrow> (track_view \<times> piece) multiset" where
  "parts V = (\<Sum>v\<in>#V. image_mset (Pair v) (mset (tv_pieces v)))"

lemma parts_simps [simp]:
  "parts {#} = {#}" "parts (add_mset v V) = image_mset (Pair v) (mset (tv_pieces v)) + parts V"
  "parts (V + W) = parts V + parts W"
  by (simp_all add: parts_def)

lemma parts_of: "(v, p) \<in># parts V \<Longrightarrow> v \<in># V"
  by (induction V) auto

lemma parts_filter: "parts (filter_mset P V) = filter_mset (P \<circ> fst) (parts V)"
  by (induction V) (auto simp: filter_mset_image_mset comp_def)

text \<open>What a piece that was planned at \<open>x\<close> started, on a clock that reads \<open>p0\<close> at context time \<open>c0\<close>.\<close>

definition started :: "real \<Rightarrow> real \<Rightarrow> track_view \<times> piece \<times> real \<Rightarrow> player_source option" where
  "started c0 p0 = (\<lambda>(v, p, x). map_option (planned_node v x) (plan_piece (tv_timing v) p (p0 + (x - c0))))"

text \<open>
  Every piece of every track was planned once, at a moment up to \<open>m\<close>, and the sources are what these
  plans started, each once.
\<close>

definition grid :: "real \<Rightarrow> real \<Rightarrow> real \<Rightarrow> track_view multiset \<Rightarrow> player_source multiset \<Rightarrow> bool" where
  "grid m c0 p0 V S \<longleftrightarrow> c0 \<le> m
     \<and> (\<exists>P. image_mset (\<lambda>(v, p, x). (v, p)) P = parts V
          \<and> (\<forall>(v, p, x) \<in># P. c0 \<le> x \<and> x \<le> m) \<and> S = results (started c0 p0) P)"

lemma grid_later: "grid m c0 p0 V S \<Longrightarrow> m \<le> m' \<Longrightarrow> grid m' c0 p0 V S"
  unfolding grid_def by fastforce

lemma grid_empty: "c0 \<le> m \<Longrightarrow> grid m c0 p0 {#} {#}"
  by (simp add: grid_def)

lemma grid_union:
  assumes "grid m c0 p0 V S" "grid m c0 p0 V' S'"
  shows "grid m c0 p0 (V + V') (S + S')"
proof -
  obtain P where P: "image_mset (\<lambda>(v, p, x). (v, p)) P = parts V"
      "\<forall>(v, p, x) \<in># P. c0 \<le> x \<and> x \<le> m" "S = results (started c0 p0) P"
    using assms(1) by (auto simp: grid_def)
  obtain Q where Q: "image_mset (\<lambda>(v, p, x). (v, p)) Q = parts V'"
      "\<forall>(v, p, x) \<in># Q. c0 \<le> x \<and> x \<le> m" "S' = results (started c0 p0) Q"
    using assms(2) by (auto simp: grid_def)
  show ?thesis
    using assms(1) P Q unfolding grid_def by (intro conjI exI [of _ "P + Q"]) auto
qed

lemma grid_without:
  assumes "grid m c0 p0 V S"
  shows "grid m c0 p0 {#v \<in># V. tv_takeId v \<noteq> k#} {#y \<in># S. so_takeId y \<noteq> k#}"
proof -
  obtain P where P: "image_mset (\<lambda>(v, p, x). (v, p)) P = parts V"
      "\<forall>(v, p, x) \<in># P. c0 \<le> x \<and> x \<le> m" "S = results (started c0 p0) P"
    using assms by (auto simp: grid_def)
  let ?P = "filter_mset (\<lambda>(v, p, x). tv_takeId v \<noteq> k) P"
  have "image_mset (\<lambda>(v, p, x). (v, p)) ?P = filter_mset (\<lambda>(v, p). tv_takeId v \<noteq> k) (image_mset (\<lambda>(v, p, x). (v, p)) P)"
    by (induction P) auto
  moreover have "results (started c0 p0) ?P = filter_mset (\<lambda>y. so_takeId y \<noteq> k) (results (started c0 p0) P)"
    by (rule results_filter) (auto simp: started_def planned_node_def)
  ultimately show ?thesis
    using assms P unfolding grid_def
    by (intro conjI exI [of _ ?P]) (auto simp: parts_filter comp_def case_prod_unfold)
qed

text \<open>
  What sounds at a context time, and what the timeline prescribes at a session position: objects with
  buffer positions, each as often as it sounds.
\<close>

definition heard_at :: "player_source multiset \<Rightarrow> real \<Rightarrow> (nat \<times> real) multiset" where
  "heard_at S c = results (\<lambda>y. map_option (Pair (so_oid y)) (node_sounds (so_node y) c)) S"

definition due_at :: "track_view multiset \<Rightarrow> real \<Rightarrow> (nat \<times> real) multiset" where
  "due_at V pos = results (\<lambda>(v, p). map_option (Pair (tv_oid v)) (piece_at (tv_timing v) p pos)) (parts V)"

lemma planned_sound:
  assumes "0 < tt_ratio (tv_timing v)" "x \<le> c"
  shows "piece_at (tv_timing v) p (p0 + (c - c0)) = (case plan_piece (tv_timing v) p (p0 + (x - c0)) of None \<Rightarrow> None
     | Some n \<Rightarrow> node_sounds (so_node (planned_node v x n)) c)"
proof -
  have "x + (p0 + (c - c0) - (p0 + (x - c0))) = c" by simp
  then show ?thesis
    using piece_sound [OF assms(1), of "p0 + (x - c0)" "p0 + (c - c0)" p x] assms(2)
    by (cases "plan_piece (tv_timing v) p (p0 + (x - c0))") (simp_all add: planned_node_def)
qed

lemma grid_sounds:
  assumes g: "grid m c0 p0 V S" and ratio: "\<forall>v \<in># V. 0 < tt_ratio (tv_timing v)" and c: "m \<le> c"
  shows "heard_at S c = due_at V (p0 + (c - c0))"
proof -
  obtain P where P: "image_mset (\<lambda>(v, p, x). (v, p)) P = parts V"
      "\<forall>(v, p, x) \<in># P. c0 \<le> x \<and> x \<le> m" "S = results (started c0 p0) P"
    using g by (auto simp: grid_def)
  let ?due = "\<lambda>(v, p). map_option (Pair (tv_oid v)) (piece_at (tv_timing v) p (p0 + (c - c0)))"
  have "heard_at S c = results (\<lambda>z. Option.bind (started c0 p0 z)
      (\<lambda>y. map_option (Pair (so_oid y)) (node_sounds (so_node y) c))) P"
    unfolding heard_at_def P(3) by (rule results_results)
  also have "\<dots> = results (?due \<circ> (\<lambda>(v, p, x). (v, p))) P"
  proof (rule results_cong)
    fix z assume z: "z \<in># P"
    obtain v p x where zz: "z = (v, p, x)" by (cases z)
    have "(v, p) \<in># parts V" unfolding P(1) [symmetric] using z zz by force
    with ratio have r: "0 < tt_ratio (tv_timing v)" using parts_of by blast
    have "x \<le> c" using P(2) z zz c by fastforce
    from planned_sound [OF r this, of p p0 c0]
    show "Option.bind (started c0 p0 z) (\<lambda>y. map_option (Pair (so_oid y)) (node_sounds (so_node y) c))
        = (?due \<circ> (\<lambda>(v, p, x). (v, p))) z"
      by (cases "plan_piece (tv_timing v) p (p0 + (x - c0))") (simp_all add: zz started_def planned_node_def)
  qed
  also have "\<dots> = due_at V (p0 + (c - c0))"
    unfolding due_at_def P(1) [symmetric] by simp
  finally show ?thesis .
qed

text \<open>Tracks whose pieces were planned one by one.\<close>

lemma grid_tracks:
  assumes "c0 \<le> m"
    and "\<And>t p. t \<in> set ts \<Longrightarrow> \<exists>x. c0 \<le> x \<and> x \<le> m \<and> src t p = started c0 p0 (view_of s t, p, x)"
  shows "grid m c0 p0 (image_mset (view_of s) (mset ts))
    (mset (concat (map (\<lambda>t. List.map_filter (src t) (pieces_of (pt_regions t))) ts)))"
  using assms(2)
proof (induction ts)
  case (Cons t ts)
  from Cons.prems [of t] obtain x where x: "\<And>p. c0 \<le> x p \<and> x p \<le> m \<and> src t p = started c0 p0 (view_of s t, p, x p)"
    by (metis list.set_intros(1))
  have "grid m c0 p0 {#view_of s t#} (mset (List.map_filter (src t) (pieces_of (pt_regions t))))"
    unfolding grid_def
  proof (intro conjI exI [of _ "image_mset (\<lambda>p. (view_of s t, p, x p)) (mset (pieces_of (pt_regions t)))"])
    show "mset (List.map_filter (src t) (pieces_of (pt_regions t)))
        = results (started c0 p0) (image_mset (\<lambda>p. (view_of s t, p, x p)) (mset (pieces_of (pt_regions t))))"
      unfolding mset_map_filter results_image by (rule results_cong) (simp add: x)
  qed (use assms(1) x in \<open>auto simp: image_mset.compositionality comp_def view_of_def\<close>)
  from grid_union [OF this Cons.IH] Cons.prems show ?case by simp
qed (simp add: grid_empty assms(1))

subsection \<open>What leaves the clock alone\<close>

definition skeleton :: "player_track \<Rightarrow> align_track \<times> nat \<times> string \<times> real \<times> clip_region list option" where
  "skeleton t = (align_track.truncate t, pt_oid t, pt_takeId t, pt_clipStartSec t, pt_regions t)"

lemma take_tracks_cong: "pl_tracks s = pl_tracks s' \<Longrightarrow> take_tracks s = take_tracks s'"
  by (simp add: take_tracks_def fun_eq_iff)

lemma views_cong: "pl_tracks s = pl_tracks s' \<Longrightarrow> views s = views s'"
proof -
  assume tr: "pl_tracks s = pl_tracks s'"
  have "view_of s = view_of s'"
    using take_tracks_cong [OF tr] by (simp add: view_of_def player_timing_def take_deltas_def fun_eq_iff)
  then show ?thesis by (simp add: views_def tr)
qed

lemma take_tracks_values: "take_tracks s k = filter (\<lambda>t. Some (pt_takeId t) = k) (jm_values (pl_tracks s))"
  by (simp add: take_tracks_def)

lemma timing_by_skeletons:
  assumes "map skeleton (take_tracks s (Some (pt_takeId t))) = map skeleton (take_tracks s' (Some (pt_takeId t)))"
    and "skeleton t = skeleton t'"
  shows "view_of s t = view_of s' t'"
proof -
  have "map (fst \<circ> skeleton) (take_tracks s (Some (pt_takeId t))) = map (fst \<circ> skeleton) (take_tracks s' (Some (pt_takeId t)))"
    using assms(1) by (metis map_map)
  then have "map align_track.truncate (take_tracks s (Some (pt_takeId t))) = map align_track.truncate (take_tracks s' (Some (pt_takeId t)))"
    by (simp add: comp_def skeleton_def)
  then show ?thesis using assms(2)
    by (simp add: view_of_def player_timing_def take_deltas_def skeleton_def)
qed

lemma skeleton_takes:
  assumes "map skeleton ts = map skeleton ts'"
  shows "map skeleton (filter (\<lambda>t. Some (pt_takeId t) = k) ts) = map skeleton (filter (\<lambda>t. Some (pt_takeId t) = k) ts')"
  using assms
proof (induction ts arbitrary: ts')
  case (Cons t ts)
  then obtain u us where "ts' = u # us" "skeleton t = skeleton u" "map skeleton ts = map skeleton us" by (cases ts') auto
  moreover from this have "pt_takeId t = pt_takeId u" by (simp add: skeleton_def)
  ultimately show ?case using Cons.IH [of us] by simp
qed simp

lemma views_skeleton:
  assumes "map skeleton (jm_values (pl_tracks s)) = map skeleton (jm_values (pl_tracks s'))"
  shows "views s = views s'"
proof -
  have sk: "map skeleton (take_tracks s k) = map skeleton (take_tracks s' k)" for k
    using skeleton_takes [OF assms] by (simp only: take_tracks_values)
  have len: "length (jm_values (pl_tracks s)) = length (jm_values (pl_tracks s'))"
    using assms by (metis length_map)
  have "view_of s (jm_values (pl_tracks s) ! i) = view_of s' (jm_values (pl_tracks s') ! i)" if i: "i < length (jm_values (pl_tracks s))" for i
  proof (rule timing_by_skeletons [OF sk])
    have "map skeleton (jm_values (pl_tracks s)) ! i = map skeleton (jm_values (pl_tracks s')) ! i" by (simp only: assms)
    then show "skeleton (jm_values (pl_tracks s) ! i) = skeleton (jm_values (pl_tracks s') ! i)"
      using i len by (simp only: nth_map)
  qed
  then have "map (view_of s) (jm_values (pl_tracks s)) = map (view_of s') (jm_values (pl_tracks s'))"
    using len by (intro nth_equalityI) auto
  then have "mset (map (view_of s) (jm_values (pl_tracks s))) = mset (map (view_of s') (jm_values (pl_tracks s')))"
    by (simp only:)
  then show ?thesis by (simp only: views_def mset_map)
qed

text \<open>Two states with one transport, one set of views and one set of sources.\<close>

definition same_clock :: "player \<Rightarrow> player \<Rightarrow> bool" where
  "same_clock s s' \<longleftrightarrow> pl_playing s' = pl_playing s \<and> pl_startCtxTime s' = pl_startCtxTime s \<and> pl_startPos s' = pl_startPos s
     \<and> pl_now s' = pl_now s \<and> pl_sources s' = pl_sources s \<and> map skeleton (jm_values (pl_tracks s')) = map skeleton (jm_values (pl_tracks s))"

definition on_grid :: "player \<Rightarrow> bool" where
  "on_grid s \<longleftrightarrow> (pl_playing s \<longrightarrow> grid (pl_now s + 6 / 100) (pl_startCtxTime s) (pl_startPos s) (views s) (mset (pl_sources s)))"

lemma same_clock_refl [simp]: "same_clock s s"
  by (simp add: same_clock_def)

lemma same_clock_trans: "same_clock s s' \<Longrightarrow> same_clock s' s'' \<Longrightarrow> same_clock s s''"
  by (simp add: same_clock_def)

lemma same_clock_grid: "same_clock s s' \<Longrightarrow> on_grid s' = on_grid s"
  using views_skeleton [of s' s] by (simp add: same_clock_def on_grid_def)

lemma not_playing_grid [simp]: "\<not> pl_playing s \<Longrightarrow> on_grid s"
  by (simp add: on_grid_def)

lemma source_of_view: "source_of s t = planned_node (view_of s t)"
  by (simp add: source_of_def planned_node_def view_of_def fun_eq_iff)

lemma view_of_simps [simp]: "tv_timing (view_of s t) = player_timing s t" "tv_pieces (view_of s t) = pieces_of (pt_regions t)"
  "tv_takeId (view_of s t) = pt_takeId t"
  by (simp_all add: view_of_def)

lemma schedule_on_grid: "pl_sources s = [] \<Longrightarrow> on_grid (schedule f s)"
proof -
  assume none: "pl_sources s = []"
  let ?s = "schedule f s" and ?c = "pl_now s + 6 / 100"
  have v: "views ?s = views s" by (rule views_cong) (simp add: schedule_def Let_def)
  have "grid ?c ?c f (views s) (mset (concat (map (\<lambda>t. List.map_filter (\<lambda>p. map_option (source_of s t ?c)
      (plan_piece (player_timing s t) p f)) (pieces_of (pt_regions t))) (jm_values (pl_tracks s)))))"
    unfolding views_def by (rule grid_tracks) (auto simp: started_def source_of_view intro!: exI [of _ ?c])
  then have "grid ?c ?c f (views s) (mset (pl_sources ?s))"
    by (simp add: schedule_def Let_def none sources_from_def [abs_def])
  then show ?thesis by (simp add: on_grid_def v) (simp add: schedule_def Let_def)
qed

lemma reschedule_on_grid: "on_grid (reschedule s)"
  by (simp add: reschedule_def Let_def schedule_on_grid stop_sources_def)

text \<open>Operations on the mixer, and what only notes something.\<close>

lemma same_clock_map: "(\<And>t. skeleton (f t) = skeleton t) \<Longrightarrow> same_clock s (map_tracks f s)"
  by (simp add: same_clock_def map_tracks_def case_prod_beta comp_def)

lemma ensure_same [simp]: "same_clock s (ensure_channel key s)"
  by (simp add: ensure_channel_def same_clock_def)

lemma fold_same: "(\<And>x s. same_clock s (f x s)) \<Longrightarrow> same_clock s (fold f xs s)"
  by (induction xs arbitrary: s) (auto intro: same_clock_trans)

lemma gains_same [simp]: "same_clock s (apply_gains s)"
  unfolding apply_gains_def Let_def
  by (rule same_clock_trans [OF fold_same [OF ensure_same] same_clock_map]) (simp add: skeleton_def align_track.truncate_def)

lemma strip_same [simp]: "same_clock s (set_strip key f s)"
  by (simp add: set_strip_def same_clock_def)

lemma skeleton_node [simp]: "skeleton (t\<lparr>pt_eq := e\<rparr>) = skeleton t" "skeleton (t\<lparr>pt_bypass := b\<rparr>) = skeleton t"
  "skeleton (rekey_track s key t) = skeleton t"
  by (simp_all add: skeleton_def align_track.truncate_def rekey_track_def)

lemma mixer_same:
  "same_clock s (set_channel_db key db s)" "same_clock s (set_channel_pan key p s)" "same_clock s (toggle_channel_mute key s)"
  "same_clock s (toggle_channel_solo key s)" "same_clock s (set_channel_eq key e s)" "same_clock s (toggle_channel_eq_bypass key s)"
  "same_clock s (set_master_db db s)" "same_clock s (set_master_pan p s)" "same_clock s (set_master_eq e s)"
  "same_clock s (toggle_master_eq_bypass s)"
proof -
  have strip: "same_clock s (apply_gains (set_strip key f s))" for f by (rule same_clock_trans [OF strip_same gains_same])
  have master: "same_clock s (s\<lparr>pl_master := x\<rparr>)" for x by (simp add: same_clock_def)
  show "same_clock s (set_channel_db key db s)" "same_clock s (set_channel_pan key p s)" "same_clock s (toggle_channel_mute key s)"
    "same_clock s (toggle_channel_solo key s)"
    by (simp_all only: set_channel_db_def set_channel_pan_def toggle_channel_mute_def toggle_channel_solo_def strip)
  show "same_clock s (set_channel_eq key e s)" "same_clock s (toggle_channel_eq_bypass key s)"
    unfolding set_channel_eq_def toggle_channel_eq_bypass_def Let_def
    by (rule same_clock_trans [OF strip_same same_clock_map], simp)+
  show "same_clock s (set_master_db db s)" "same_clock s (set_master_pan p s)"
    unfolding set_master_db_def set_master_pan_def by (rule same_clock_trans [OF master gains_same])+
  show "same_clock s (set_master_eq e s)" "same_clock s (toggle_master_eq_bypass s)"
    unfolding set_master_eq_def toggle_master_eq_bypass_def by (rule master)+
qed

lemma remap_same: "same_clock s (remap_channels channelOf s)"
proof -
  have e: "same_clock s (fold ensure_channel ks s)" for ks by (rule fold_same) simp
  have m: "same_clock s' (map_tracks (\<lambda>t. let key = channelOf (at_streamId t) in if key = pt_channelKey t then t else rekey_track s' key t) s')" for s'
    by (rule same_clock_map) (simp add: Let_def)
  show ?thesis unfolding remap_channels_def Let_def
    using e same_clock_trans [OF e same_clock_trans [OF m [unfolded Let_def] gains_same]] by simp
qed

lemma mount_track_same: "same_clock s (snd (mount_track tid sid b key s))"
  using ensure_same [of s key] by (simp add: mount_track_def Let_def same_clock_def)

lemma align_settles_same: "same_clock s (align_settles j s)"
  by (simp add: align_settles_def same_clock_def split: option.split)

lemma mount_ahead_same: "same_clock s (mount_ahead tid s)"
  by (simp add: mount_ahead_def same_clock_def split: option.split)

subsection \<open>Takes that leave and takes that join\<close>

lemma view_of_cong: "take_tracks s' (Some (pt_takeId t)) = take_tracks s (Some (pt_takeId t)) \<Longrightarrow> view_of s' t = view_of s t"
  by (simp add: view_of_def player_timing_def take_deltas_def)

lemma unmount_views: "views (unmount_take k s) = {#v \<in># views s. tv_takeId v \<noteq> k#}"
proof -
  have tr: "jm_values (pl_tracks (unmount_take k s)) = filter (\<lambda>t. pt_takeId t \<noteq> k) (jm_values (pl_tracks s))"
    by (simp add: unmount_take_def filter_map comp_def case_prod_unfold)
  have "take_tracks (unmount_take k s) (Some j) = take_tracks s (Some j)" if "j \<noteq> k" for j
    using that by (auto simp: take_tracks_values tr intro!: filter_cong)
  then have "view_of (unmount_take k s) t = view_of s t" if "pt_takeId t \<noteq> k" for t
    using that by (simp add: view_of_def player_timing_def take_deltas_def)
  then have "image_mset (view_of (unmount_take k s)) {#t \<in># M. pt_takeId t \<noteq> k#}
      = {#v \<in># image_mset (view_of s) M. tv_takeId v \<noteq> k#}" for M
    by (induction M) simp_all
  then show ?thesis by (simp only: views_def tr mset_filter)
qed

lemma unmount_grid: "on_grid s \<Longrightarrow> on_grid (unmount_take k s)"
  using grid_without [of _ _ _ "views s" "mset (pl_sources s)" k]
  by (simp add: on_grid_def unmount_views) (simp add: unmount_take_def)

lemma fold_unmount_grid: "on_grid s \<Longrightarrow> on_grid (fold unmount_take ks s)"
  by (induction ks arbitrary: s) (simp_all add: unmount_grid)

lemma plan_piece_when: "plan_piece t p f = Some n \<Longrightarrow> 0 \<le> np_whenSec n"
  by (cases p) (auto simp: plan_piece_def plan_source_def plan_region_source_def Let_def split: if_splits prod.splits)

lemma joining_time:
  assumes "pl_startCtxTime s \<le> pl_now s + 6 / 100"
  shows "\<exists>x. pl_startCtxTime s \<le> x \<and> x \<le> pl_now s + 6 / 100
     \<and> joining_source s t p = started (pl_startCtxTime s) (pl_startPos s) (view_of s t, p, x)"
proof (cases "\<exists>n. plan_piece (player_timing s t) p (pl_startPos s) = Some n \<and> pl_startCtxTime s + np_whenSec n < pl_now s + 2 / 100")
  case True
  then obtain n where n: "plan_piece (player_timing s t) p (pl_startPos s) = Some n" "pl_startCtxTime s + np_whenSec n < pl_now s + 2 / 100"
    by blast
  with plan_piece_when [OF n(1)] show ?thesis
    by (intro exI [of _ "pl_now s + 2 / 100"]) (simp add: joining_source_def started_def Let_def source_of_view)
next
  case False
  then show ?thesis using assms
    by (intro exI [of _ "pl_startCtxTime s"])
      (auto simp: joining_source_def started_def source_of_view split: option.split)
qed

definition joining_sources :: "player \<Rightarrow> string \<Rightarrow> player_source list" where
  "joining_sources s k = concat (map (\<lambda>t. List.map_filter (joining_source s t) (pieces_of (pt_regions t))) (take_tracks s (Some k)))"

lemma schedule_take_sources:
  "schedule_take k s = s\<lparr>pl_sources := pl_sources s @ joining_sources s k,
     pl_scheduleCount := (if joining_sources s k = [] then pl_scheduleCount s else pl_scheduleCount s + 1)\<rparr>"
  by (simp add: schedule_take_def joining_sources_def Let_def)

lemma joining_grid:
  assumes c: "pl_startCtxTime s \<le> pl_now s + 6 / 100"
  shows "grid (pl_now s + 6 / 100) (pl_startCtxTime s) (pl_startPos s)
    (image_mset (view_of s) (mset (take_tracks s (Some k)))) (mset (joining_sources s k))"
  unfolding joining_sources_def by (rule grid_tracks [OF c joining_time [OF c]])

text \<open>Registering the tracks of a take of which nothing is mounted.\<close>

lemma update_append: "k \<notin> fst ` set m \<Longrightarrow> jm_set k v (m @ x) = m @ jm_set k v x"
  by (induction m) auto

lemma register_append:
  "\<forall>t \<in> set ts. at_streamId t \<notin> fst ` set m \<Longrightarrow> fold (\<lambda>t m. jm_set (at_streamId t) t m) ts (m @ x)
     = m @ fold (\<lambda>t m. jm_set (at_streamId t) t m) ts x"
  by (induction ts arbitrary: x) (simp_all add: update_append)

lemma register_set: "set (jm_values (fold (\<lambda>t m. jm_set (at_streamId t) t m) ts x)) \<subseteq> set (jm_values x) \<union> set ts"
proof (induction ts arbitrary: x)
  case (Cons t ts)
  have "set (jm_values (jm_set (at_streamId t) t x)) \<subseteq> insert t (set (jm_values x))" by (induction x) auto
  with Cons.IH [of "jm_set (at_streamId t) t x"] show ?case by auto
qed simp

lemma register_views:
  assumes tr: "pl_tracks s' = pl_tracks s @ new" and own: "\<forall>t \<in> set (jm_values new). pt_takeId t = k"
    and fresh: "\<forall>t \<in> set (jm_values (pl_tracks s)). pt_takeId t \<noteq> k"
  shows "views s' = views s + image_mset (view_of s') (mset (take_tracks s' (Some k)))"
proof -
  have tk: "take_tracks s' (Some k) = jm_values new"
    using own fresh by (auto simp: take_tracks_values tr filter_empty_conv intro!: filter_True)
  have "filter (\<lambda>t. pt_takeId t = j) (jm_values new) = []" if "j \<noteq> k" for j
    using own that by (auto simp: filter_empty_conv)
  then have "take_tracks s' (Some j) = take_tracks s (Some j)" if "j \<noteq> k" for j
    using that by (simp add: take_tracks_values tr)
  moreover have "pt_takeId t \<noteq> k" if "t \<in> set (jm_values (pl_tracks s))" for t
    using fresh that by blast
  ultimately have "view_of s' t = view_of s t" if "t \<in> set (jm_values (pl_tracks s))" for t
    using that by (intro view_of_cong) blast
  then have "image_mset (view_of s') (mset (jm_values (pl_tracks s))) = views s"
    unfolding views_def by (intro image_mset_cong) simp
  then show ?thesis by (simp add: views_def tr tk)
qed

subsection \<open>One step\<close>

text \<open>A decode ahead holds tracks of its own take only.\<close>

definition ahead_ok :: "player \<Rightarrow> bool" where
  "ahead_ok s \<longleftrightarrow> (case pl_ahead s of None \<Rightarrow> True | Some j \<Rightarrow> list_all (\<lambda>t. pt_takeId t = aj_takeId j) (aj_mounted j))"

text \<open>
  What has to stay away from a rolling transport: verdicts written by a run of the alignment, a load that ends (the desk plays
  only when none is pending, \<open>playActionReady\<close>), and a decode ahead of a take that has been mounted by other means.
\<close>

fun calm :: "player \<Rightarrow> player_event \<Rightarrow> bool" where
  "calm s (AlignWrites oid r d) \<longleftrightarrow> \<not> pl_playing s"
| "calm s (LoadDecoded b) \<longleftrightarrow> \<not> pl_playing s \<or> pl_load s = None"
| "calm s LoadMissing \<longleftrightarrow> \<not> pl_playing s \<or> pl_load s = None"
| "calm s (AheadDecoded b entries) \<longleftrightarrow> \<not> pl_playing s
     \<or> (case pl_ahead s of None \<Rightarrow> True
        | Some j \<Rightarrow> list_all (\<lambda>t. pt_takeId t \<noteq> aj_takeId j) (jm_values (pl_tracks s))
            \<and> list_all (\<lambda>i. i \<notin> fst ` set (pl_tracks s)) (map at_streamId (aj_mounted j) @ map ps_streamId (aj_todo j)))"
| "calm s e \<longleftrightarrow> True"

lemma skeleton_update:
  "jm_get m k = Some t \<Longrightarrow> skeleton t' = skeleton t \<Longrightarrow> map skeleton (jm_values (jm_set k t' m)) = map skeleton (jm_values m)"
  by (induction m) (auto split: if_splits)

lemma on_track_same: "(\<And>t. jm_get (pl_tracks s) sid = Some t \<Longrightarrow> skeleton (f t) = skeleton t) \<Longrightarrow> same_clock s (on_track sid f s)"
  by (cases "jm_get (pl_tracks s) sid") (simp_all add: same_clock_def on_track_def skeleton_update del: map_map)

lemma rekey_same: "same_clock s (let s = ensure_channel key s in apply_gains (on_track i (rekey_track s key) s))"
  unfolding Let_def by (rule same_clock_trans [OF ensure_same same_clock_trans [OF on_track_same gains_same]]) simp

lemma repoint_unmoved:
  assumes "\<not> snd (repoint tid x (s, moved))"
  shows "\<not> moved \<and> same_clock s (fst (repoint tid x (s, moved)))"
proof (cases "jm_get (pl_tracks s) (ps_streamId x)")
  case None
  with assms show ?thesis by (simp add: repoint_def)
next
  case (Some t)
  show ?thesis
  proof (cases "pt_takeId t = tid")
    case False
    with Some assms show ?thesis by (simp add: repoint_def)
  next
    case True
    let ?f = "\<lambda>u. u\<lparr>pt_clipStartSec := (if moves_clip x t then ps_clipStartSec x else pt_clipStartSec u), pt_regions := ps_regions x\<rparr>"
    have still: "\<not> moved" "\<not> moves_clip x t" "pt_regions t = ps_regions x"
      using assms Some True by (auto simp: repoint_def Let_def)
    have "skeleton (?f t) = skeleton t"
      using still by (simp add: skeleton_def align_track.truncate_def)
    have one: "same_clock s (on_track (ps_streamId x) ?f s)"
    proof (rule on_track_same)
      fix u assume "jm_get (pl_tracks s) (ps_streamId x) = Some u"
      with Some have "u = t" by simp
      with \<open>skeleton (?f t) = skeleton t\<close> show "skeleton (?f u) = skeleton u" by blast
    qed
    show ?thesis using one same_clock_trans [OF one rekey_same] still(1) Some True
      by (simp add: repoint_def Let_def)
  qed
qed

lemma repoints_unmoved:
  "\<not> snd (fold (repoint tid) xs z) \<Longrightarrow> \<not> snd z \<and> same_clock (fst z) (fst (fold (repoint tid) xs z))"
proof (induction xs arbitrary: z)
  case (Cons x xs)
  obtain s moved where z: "z = (s, moved)" by (cases z)
  from Cons.prems Cons.IH [of "repoint tid x z"]
  have ih: "\<not> snd (repoint tid x z)" "same_clock (fst (repoint tid x z)) (fst (fold (repoint tid) (x # xs) z))" by simp_all
  from repoint_unmoved ih(1) have "\<not> moved" "same_clock s (fst (repoint tid x z))" unfolding z by blast+
  with ih(2) show ?case using same_clock_trans z by fastforce
qed simp

lemma repoint_takes_unmoved:
  "\<not> snd (fold (\<lambda>p. fold (repoint (pk_takeId p)) (pk_streams p)) plan z) \<Longrightarrow>
     \<not> snd z \<and> same_clock (fst z) (fst (fold (\<lambda>p. fold (repoint (pk_takeId p)) (pk_streams p)) plan z))"
proof (induction plan arbitrary: z)
  case (Cons p plan)
  let ?y = "fold (repoint (pk_takeId p)) (pk_streams p) z"
  have ih: "\<not> snd ?y" "same_clock (fst ?y) (fst (fold (\<lambda>p. fold (repoint (pk_takeId p)) (pk_streams p)) plan ?y))"
    using Cons.IH [of ?y] Cons.prems by simp_all
  have "\<not> snd z" "same_clock (fst z) (fst ?y)" using repoints_unmoved [OF ih(1)] by simp_all
  with same_clock_trans [OF this(2) ih(2)] show ?case by simp
qed simp

lemma repoint_all_unmoved: "\<not> snd (repoint_all plan s) \<Longrightarrow> same_clock s (fst (repoint_all plan s))"
  using repoint_takes_unmoved [of plan "(s, False)"] by (simp add: repoint_all_def)

lemma plan_grid: "on_grid s \<Longrightarrow> on_grid (set_session_plan lc plan s)"
proof (cases "same_plan (pl_plan s) (normalize_session_plan lc plan)")
  case False
  assume s: "on_grid s"
  let ?new = "normalize_session_plan lc plan"
  define u where "u = fold unmount_take
      (filter (\<lambda>k. k \<notin> set (map pk_takeId ?new) \<and> Some k \<noteq> pl_loadedTakeId s) (mounted_take_ids (s\<lparr>pl_plan := ?new\<rparr>))) (s\<lparr>pl_plan := ?new\<rparr>)"
  have "same_clock s (s\<lparr>pl_plan := ?new\<rparr>)" by (simp add: same_clock_def)
  then have "on_grid u" unfolding u_def using s same_clock_grid by (intro fold_unmount_grid) blast
  moreover have "set_session_plan lc plan s = (let (s, moved) = repoint_all ?new u in if moved \<and> pl_playing s then reschedule s else s)"
    using False by (simp add: set_session_plan_def u_def Let_def)
  ultimately show ?thesis
    using repoint_all_unmoved [of ?new u] same_clock_grid
    by (cases "snd (repoint_all ?new u)") (auto simp: case_prod_beta reschedule_on_grid)
qed (simp add: set_session_plan_def)

lemma lookahead_grid: "on_grid s \<Longrightarrow> on_grid (ensure_lookahead s)"
  using fold_unmount_grid same_clock_grid [OF mount_ahead_same]
  by (auto simp: ensure_lookahead_def Let_def split: list.split)

lemma pause_stops [simp]: "\<not> pl_playing (player_pause s)"
  by (simp add: player_pause_def)

lemma play_grid: "on_grid s \<Longrightarrow> on_grid (player_play f s)"
  by (auto simp: player_play_def Let_def stop_sources_def intro!: lookahead_grid schedule_on_grid)

lemma seek_grid: "on_grid (player_seek x s)"
  by (auto simp: player_seek_def Let_def stop_sources_def intro!: lookahead_grid schedule_on_grid)

lemma meter_grid: "on_grid s \<Longrightarrow> on_grid (meter_tick n s)"
proof -
  assume s: "on_grid s"
  have "same_clock s (s\<lparr>pl_lastLookaheadMs := n\<rparr>)" by (simp add: same_clock_def)
  with s have "on_grid (ensure_lookahead (s\<lparr>pl_lastLookaheadMs := n\<rparr>))" using same_clock_grid lookahead_grid by blast
  with s show ?thesis by (simp add: meter_tick_def Let_def)
qed

lemma load_done_stopped: "\<not> pl_playing s \<Longrightarrow> \<not> pl_playing (load_done j s)"
  using gains_same by (simp add: load_done_def Let_def same_clock_def)

lemma load_call_grid: "on_grid s \<Longrightarrow> on_grid (load_call tid ids channelOf s)"
proof -
  assume s: "on_grid s"
  have playing: "pl_playing (apply_gains z) = pl_playing z" for z using gains_same by (simp add: same_clock_def)
  have "pl_playing (fold unmount_take ks z) = pl_playing z" for ks z
    by (induction ks arbitrary: z) (simp_all add: unmount_take_def)
  with s show ?thesis
    by (auto simp: load_call_def Let_def playing load_done_stopped split: if_splits)
qed

lemma take_views: "image_mset (view_of s) (mset (take_tracks s (Some k))) = {#v \<in># views s. tv_takeId v = k#}"
proof -
  have "image_mset (view_of s) {#t \<in># M. pt_takeId t = k#} = {#v \<in># image_mset (view_of s) M. tv_takeId v = k#}" for M
    by (induction M) simp_all
  then show ?thesis by (simp add: views_def take_tracks_values)
qed

lemma verdict_keeps [simp]: "pt_takeId (with_verdict e t) = pt_takeId t" "at_streamId (with_verdict e t) = at_streamId t"
  by (simp_all add: with_verdict_def split: option.split)

lemma gains_playing [simp]: "pl_playing (apply_gains s) = pl_playing s"
  using gains_same [of s] by (simp add: same_clock_def)

lemma ahead_done_grid:
  assumes s: "on_grid s" and own: "list_all (\<lambda>t. pt_takeId t = aj_takeId j) (aj_mounted j)"
    and fresh: "\<not> pl_playing s \<or> (list_all (\<lambda>t. pt_takeId t \<noteq> aj_takeId j) (jm_values (pl_tracks s))
        \<and> list_all (\<lambda>t. at_streamId t \<notin> fst ` set (pl_tracks s)) (aj_mounted j))"
  shows "on_grid (ahead_done j entries s)"
proof (cases "pl_playing s \<and> planned_take (s\<lparr>pl_ahead := None\<rparr>) (aj_takeId j) \<noteq> None")
  case False
  moreover have "same_clock s (s\<lparr>pl_ahead := None\<rparr>)" by (simp add: same_clock_def)
  ultimately show ?thesis using s same_clock_grid by (auto simp: ahead_done_def Let_def)
next
  case True
  let ?k = "aj_takeId j" and ?reg = "fold (\<lambda>t m. jm_set (at_streamId t) t m)"
  define mounted where "mounted = map (\<lambda>t. with_verdict (jm_get entries (at_streamId t)) t) (aj_mounted j)"
  define u where "u = s\<lparr>pl_ahead := None, pl_tracks := ?reg mounted (pl_tracks s)\<rparr>"
  define w where "w = apply_gains u"
  obtain pk where "planned_take (s\<lparr>pl_ahead := None\<rparr>) ?k = Some pk" using True by blast
  then have done': "ahead_done j entries s = schedule_take ?k w"
    using True gains_playing [of u] by (simp add: ahead_done_def Let_def mounted_def u_def w_def)
  have "\<forall>t \<in> set mounted. at_streamId t \<notin> fst ` set (pl_tracks s)"
    using fresh True by (auto simp: mounted_def list_all_iff)
  then have tr: "pl_tracks u = pl_tracks s @ ?reg mounted []"
    using register_append [of mounted "pl_tracks s" "[]"] by (simp add: u_def)
  have "set (jm_values (?reg mounted [])) \<subseteq> set mounted" using register_set [of mounted "[]"] by simp
  moreover have "\<forall>t \<in> set mounted. pt_takeId t = ?k" using own by (auto simp: mounted_def list_all_iff)
  ultimately have "views u = views s + image_mset (view_of u) (mset (take_tracks u (Some ?k)))"
    using fresh True by (intro register_views [OF tr]) (blast, simp add: list_all_iff)
  moreover have same: "same_clock u w" by (simp add: w_def)
  then have vw: "views w = views u" using views_skeleton [of w u] by (simp add: same_clock_def)
  ultimately have split: "views w = views s + image_mset (view_of w) (mset (take_tracks w (Some ?k)))"
    unfolding take_views vw by simp
  have eq: "pl_now w = pl_now s" "pl_startCtxTime w = pl_startCtxTime s" "pl_startPos w = pl_startPos s"
      "pl_sources w = pl_sources s" "pl_playing w = pl_playing s"
    using same by (simp_all add: same_clock_def u_def)
  have g: "grid (pl_now s + 6 / 100) (pl_startCtxTime s) (pl_startPos s) (views s) (mset (pl_sources s))"
    using s True by (simp add: on_grid_def)
  then have "pl_startCtxTime w \<le> pl_now w + 6 / 100" by (simp add: grid_def eq)
  from grid_union [OF g joining_grid [OF this, of ?k, unfolded eq]]
  have "grid (pl_now s + 6 / 100) (pl_startCtxTime s) (pl_startPos s) (views w) (mset (pl_sources s) + mset (joining_sources w ?k))"
    by (simp add: split)
  moreover have "views (schedule_take ?k w) = views w" by (rule views_cong) (simp add: schedule_take_sources)
  ultimately show ?thesis
    unfolding done' on_grid_def by (simp add: schedule_take_sources eq)
qed

lemma mount_track_facts:
  "pl_tracks (snd (mount_track tid sid b key s)) = pl_tracks s" "pl_playing (snd (mount_track tid sid b key s)) = pl_playing s"
  "pt_takeId (fst (mount_track tid sid b key s)) = tid" "at_streamId (fst (mount_track tid sid b key s)) = sid"
  by (simp_all add: mount_track_def Let_def ensure_channel_def rekey_track_def)

lemma ahead_grid:
  assumes "on_grid s" "ahead_ok s" "calm s (AheadDecoded b entries)"
  shows "on_grid (ahead_decoded b entries s)"
proof (cases "pl_ahead s")
  case (Some j)
  show ?thesis
  proof (cases "aj_todo j")
    case Nil
    have "on_grid (ahead_done j entries s)"
      by (rule ahead_done_grid) (use assms Some in \<open>auto simp: ahead_ok_def list_all_iff\<close>)
    then show ?thesis by (simp add: ahead_decoded_def Some Nil)
  next
    case (Cons x rest)
    obtain t z where tz: "mount_track (aj_takeId j) (ps_streamId x) b (ps_channelKey x) s = (t, z)" by fastforce
    note facts = mount_track_facts [of "aj_takeId j" "ps_streamId x" b "ps_channelKey x" s, unfolded tz, simplified]
    have same: "same_clock s z" using mount_track_same [of s "aj_takeId j" "ps_streamId x" b "ps_channelKey x"] by (simp add: tz)
    then have z: "on_grid z" using assms(1) same_clock_grid by blast
    let ?j = "j\<lparr>aj_todo := rest, aj_mounted := aj_mounted j @ [t]\<rparr>"
    have "on_grid (ahead_done ?j entries z)"
      by (rule ahead_done_grid [OF z]) (use assms(2,3) Some Cons facts in \<open>auto simp: ahead_ok_def list_all_iff\<close>)
    moreover have "same_clock z (z\<lparr>pl_ahead := Some ?j\<rparr>)" by (simp add: same_clock_def)
    then have "on_grid (z\<lparr>pl_ahead := Some ?j\<rparr>)" using z same_clock_grid by blast
    ultimately show ?thesis by (cases "rest = []") (simp_all add: ahead_decoded_def Some Cons tz Let_def)
  qed
qed (use assms in \<open>simp add: ahead_decoded_def\<close>)

lemma load_next_stopped: "\<not> pl_playing s \<Longrightarrow> \<not> pl_playing (load_next j s)"
  by (simp add: load_next_def load_done_stopped)

lemma load_decoded_stopped: "\<not> pl_playing s \<Longrightarrow> \<not> pl_playing (load_decoded b s)"
  using mount_track_facts(2)
  by (auto simp: load_decoded_def Let_def case_prod_beta load_next_stopped split: option.split list.split)

lemma load_missing_stopped: "\<not> pl_playing s \<Longrightarrow> \<not> pl_playing (load_missing s)"
  by (auto simp: load_missing_def load_next_stopped split: option.split list.split)

lemma reschedule_or_stopped: "on_grid (if pl_playing s then reschedule s else s)"
  by (simp add: reschedule_on_grid)

lemma remove_grid: "on_grid s \<Longrightarrow> on_grid (remove_tracks ids s)"
  unfolding remove_tracks_def Let_def by (simp only: reschedule_or_stopped split: if_split) simp

lemma restore_grid: "on_grid s \<Longrightarrow> on_grid (restore_alignment tid entries s)"
  unfolding restore_alignment_def Let_def by (simp only: reschedule_or_stopped split: if_split) simp

lemma align_ends_grid: "on_grid s \<Longrightarrow> on_grid (align_ends s)"
proof (cases "pl_align s")
  case (Some j)
  assume s: "on_grid s"
  have n: "same_clock z (align_settles j (z\<lparr>pl_align := None\<rparr>))" for z
    by (rule same_clock_trans [OF _ align_settles_same]) (simp add: same_clock_def)
  then show ?thesis using s same_clock_grid [OF n] reschedule_on_grid by (simp add: align_ends_def Some Let_def)
qed (simp add: align_ends_def)

lemma align_throws_grid: "on_grid s \<Longrightarrow> on_grid (align_throws msg s)"
proof (cases "pl_align s")
  case (Some j)
  assume s: "on_grid s"
  have n: "same_clock s (align_settles j (s\<lparr>pl_align := None, pl_alignError := Some msg\<rparr>))"
    by (rule same_clock_trans [OF _ align_settles_same]) (simp add: same_clock_def)
  then show ?thesis using s same_clock_grid [OF n] by (simp add: align_throws_def Some)
qed (simp add: align_throws_def)

lemma noting_same:
  "same_clock s (s\<lparr>pl_wired := w\<rparr>)" "same_clock s (s\<lparr>pl_error := e\<rparr>)" "same_clock s (load_fails msg s)"
  "same_clock s (ahead_fails msg s)" "same_clock s (ahead_missing s)" "same_clock s (align_call force scope s)"
  by (auto simp: same_clock_def load_fails_def ahead_fails_def ahead_missing_def align_call_def split: option.split list.split)

lemma elapse_grid: "on_grid s \<Longrightarrow> on_grid (s\<lparr>pl_now := pl_now s + max 0 d\<rparr>)"
proof -
  assume s: "on_grid s"
  have v: "views (s\<lparr>pl_now := n\<rparr>) = views s" for n by (rule views_cong) simp
  show ?thesis using s grid_later [of "pl_now s + 6 / 100"] by (auto simp: on_grid_def v)
qed

lemma same_clock_gridI: "same_clock s s' \<Longrightarrow> on_grid s \<Longrightarrow> on_grid s'"
  by (simp add: same_clock_grid)

lemmas quiet_grid = mixer_same [THEN same_clock_gridI] remap_same [THEN same_clock_gridI] noting_same [THEN same_clock_gridI]

lemma step_grid:
  assumes "on_grid s" "ahead_ok s" "calm s e"
  shows "on_grid (player_step lc s e)"
proof (cases e)
  case (AheadDecoded b entries)
  with assms show ?thesis using ahead_grid by simp
next
  case (Toggle)
  with assms show ?thesis by (simp add: player_toggle_def play_grid)
next
  case (AlignWrites oid r d)
  with assms show ?thesis by (simp add: align_writes_def map_tracks_def)
next
  case (LoadDecoded b)
  with assms show ?thesis using load_decoded_stopped [of s b] by (cases "pl_load s") (auto simp: load_decoded_def)
next
  case LoadMissing
  with assms show ?thesis using load_missing_stopped [of s] by (cases "pl_load s") (auto simp: load_missing_def)
qed (use assms in
  \<open>simp_all add: quiet_grid plan_grid load_call_grid play_grid seek_grid meter_grid remove_grid restore_grid align_ends_grid
    align_throws_grid elapse_grid\<close>)

subsection \<open>Decodes ahead\<close>

lemma fold_keeps: "(\<And>x s. g (f x s) = g s) \<Longrightarrow> g (fold f xs s) = g s"
  by (induction xs arbitrary: s) auto

lemma ahead_ensure [simp]: "pl_ahead (ensure_channel key s) = pl_ahead s"
  by (simp add: ensure_channel_def)

lemma ahead_map [simp]: "pl_ahead (map_tracks f s) = pl_ahead s"
  by (simp add: map_tracks_def)

lemma ahead_on_track [simp]: "pl_ahead (on_track i f s) = pl_ahead s"
  by (simp add: on_track_def split: option.split)

lemma ahead_gains [simp]: "pl_ahead (apply_gains s) = pl_ahead s"
  by (simp add: apply_gains_def Let_def fold_keeps)

lemma ahead_strip [simp]: "pl_ahead (set_strip key f s) = pl_ahead s"
  by (simp add: set_strip_def)

lemma ahead_mount [simp]: "pl_ahead (snd (mount_track tid sid b key s)) = pl_ahead s"
  by (simp add: mount_track_def Let_def)

lemma ahead_unmount [simp]: "pl_ahead (unmount_take k s) = pl_ahead s"
  by (simp add: unmount_take_def)

lemma ahead_schedule [simp]: "pl_ahead (schedule f s) = pl_ahead s" "pl_ahead (stop_sources s) = pl_ahead s"
  "pl_ahead (reschedule s) = pl_ahead s" "pl_ahead (schedule_take k s) = pl_ahead s"
  by (simp_all add: schedule_def stop_sources_def reschedule_def schedule_take_sources Let_def)

lemma ahead_pause [simp]: "pl_ahead (player_pause s) = pl_ahead s"
  by (simp add: player_pause_def)

lemma ahead_repoint [simp]: "pl_ahead (fst (repoint tid x z)) = pl_ahead (fst z)"
  by (cases z) (simp add: repoint_def Let_def split: option.split)

lemma ahead_repoint_all: "pl_ahead (fst (repoint_all plan s)) = pl_ahead s"
proof -
  have inner: "pl_ahead (fst (fold (repoint tid) xs z)) = pl_ahead (fst z)" for tid xs z
    by (rule fold_keeps [where g = "\<lambda>z. pl_ahead (fst z)"]) simp
  have "pl_ahead (fst (fold (\<lambda>p. fold (repoint (pk_takeId p)) (pk_streams p)) plan z)) = pl_ahead (fst z)" for z
    by (rule fold_keeps [where g = "\<lambda>z. pl_ahead (fst z)"]) (rule inner)
  then show ?thesis by (simp add: repoint_all_def)
qed

lemma ahead_plan: "pl_ahead (set_session_plan lc plan s) = pl_ahead s"
  using ahead_repoint_all by (simp add: set_session_plan_def Let_def case_prod_beta fold_keeps)

lemma ahead_remap: "pl_ahead (remap_channels f s) = pl_ahead s"
  by (simp add: remap_channels_def Let_def fold_keeps)

lemma ahead_load: "pl_ahead (load_call tid ids f s) = pl_ahead s" "pl_ahead (load_decoded b s) = pl_ahead s"
  "pl_ahead (load_missing s) = pl_ahead s" "pl_ahead (load_fails m s) = pl_ahead s"
  by (auto simp: load_call_def load_decoded_def load_missing_def load_fails_def load_next_def load_done_def Let_def fold_keeps
      case_prod_beta split: option.split list.split)

lemma ahead_align: "pl_ahead (align_call g sc s) = pl_ahead s" "pl_ahead (align_writes i r d s) = pl_ahead s"
  "pl_ahead (align_settles j s) = pl_ahead s" "pl_ahead (restore_alignment tid es s) = pl_ahead s" "pl_ahead (remove_tracks ids s) = pl_ahead s"
  by (auto simp: align_call_def align_writes_def align_settles_def restore_alignment_def remove_tracks_def Let_def split: option.split)

lemma ahead_align_ends: "pl_ahead (align_ends s) = pl_ahead s" "pl_ahead (align_throws m s) = pl_ahead s"
  by (auto simp: align_ends_def align_throws_def ahead_align Let_def split: option.split)

lemma ahead_mixer: "pl_ahead (set_channel_db key db s) = pl_ahead s" "pl_ahead (set_channel_pan key p s) = pl_ahead s"
  "pl_ahead (toggle_channel_mute key s) = pl_ahead s" "pl_ahead (toggle_channel_solo key s) = pl_ahead s"
  "pl_ahead (set_channel_eq key e s) = pl_ahead s" "pl_ahead (toggle_channel_eq_bypass key s) = pl_ahead s"
  "pl_ahead (set_master_db db s) = pl_ahead s" "pl_ahead (set_master_pan p s) = pl_ahead s" "pl_ahead (set_master_eq e s) = pl_ahead s"
  "pl_ahead (toggle_master_eq_bypass s) = pl_ahead s"
  by (simp_all add: set_channel_db_def set_channel_pan_def toggle_channel_mute_def toggle_channel_solo_def set_channel_eq_def
      toggle_channel_eq_bypass_def set_master_db_def set_master_pan_def set_master_eq_def toggle_master_eq_bypass_def Let_def)

lemma ahead_ok_cong: "pl_ahead s' = pl_ahead s \<Longrightarrow> ahead_ok s \<Longrightarrow> ahead_ok s'"
  by (simp add: ahead_ok_def)

lemma ahead_ok_none: "pl_ahead s = None \<Longrightarrow> ahead_ok s"
  by (simp add: ahead_ok_def)

lemma lookahead_ok: "ahead_ok s \<Longrightarrow> ahead_ok (ensure_lookahead s)"
proof -
  assume s: "ahead_ok s"
  have f: "ahead_ok (fold unmount_take ks s)" for ks by (rule ahead_ok_cong [OF _ s]) (simp add: fold_keeps)
  have m: "ahead_ok z \<Longrightarrow> ahead_ok (mount_ahead k z)" for k z
    by (cases "planned_take z k") (simp_all add: ahead_ok_def mount_ahead_def)
  show ?thesis using s f m by (auto simp: ensure_lookahead_def Let_def split: list.split)
qed

lemma ahead_done_none: "pl_ahead (ahead_done j entries s) = None"
  by (simp add: ahead_done_def Let_def)

lemma decoded_ok: "ahead_ok s \<Longrightarrow> ahead_ok (ahead_decoded b entries s)"
proof (cases "pl_ahead s")
  case (Some j)
  assume s: "ahead_ok s"
  show ?thesis
  proof (cases "aj_todo j")
    case (Cons x rest)
    obtain t z where tz: "mount_track (aj_takeId j) (ps_streamId x) b (ps_channelKey x) s = (t, z)" by fastforce
    have "pt_takeId t = aj_takeId j" using mount_track_facts(3) [of "aj_takeId j" "ps_streamId x" b "ps_channelKey x" s] by (simp add: tz)
    then show ?thesis using s Some Cons tz
      by (cases "rest = []") (simp_all add: ahead_decoded_def Let_def ahead_ok_none ahead_done_none, simp add: ahead_ok_def)
  qed (simp add: ahead_decoded_def Some ahead_ok_none ahead_done_none)
qed (simp add: ahead_decoded_def)

lemma step_ahead_ok: "ahead_ok s \<Longrightarrow> ahead_ok (player_step lc s e)"
proof -
  assume s: "ahead_ok s"
  note keep = ahead_ok_cong [OF _ s]
  have play: "ahead_ok (player_play f s)" for f
    using s by (auto simp: player_play_def Let_def intro!: lookahead_ok ahead_ok_cong [OF ahead_schedule(1)] intro: keep)
  show ?thesis
  proof (cases e)
    case (Seek x)
    then show ?thesis by (auto simp: player_seek_def Let_def intro!: lookahead_ok intro: keep)
  next
    case (Meter n)
    have "ahead_ok (ensure_lookahead (s\<lparr>pl_lastLookaheadMs := n\<rparr>))" by (intro lookahead_ok keep) simp
    with Meter s show ?thesis by (auto simp: meter_tick_def Let_def intro: ahead_ok_cong [OF ahead_pause])
  next
    case Toggle
    then show ?thesis using play by (simp add: player_toggle_def keep)
  next
    case AheadMissing
    then show ?thesis using s by (auto simp: ahead_missing_def ahead_fails_def ahead_ok_none split: option.split list.split)
  next
    case (AheadFails m)
    then show ?thesis using s by (auto simp: ahead_fails_def ahead_ok_none split: option.split)
  qed (simp_all add: play decoded_ok [OF s] keep ahead_plan ahead_remap ahead_load ahead_align ahead_align_ends ahead_mixer)
qed

interpretation player_aheads: invariant_machine "player_step lc" ahead_ok for lc
  by unfold_locales (rule step_ahead_ok)

interpretation player_clock: guarded_machine "player_step lc" "\<lambda>s. on_grid s \<and> ahead_ok s" calm for lc
  by unfold_locales (blast intro: step_grid step_ahead_ok)

subsection \<open>Nothing missing, nothing left over\<close>

lemma new_player_ahead: "ahead_ok new_player"
  by (simp add: ahead_ok_def new_player_def)

text \<open>C15. A rolling transport sounds exactly like its timeline. Take any history that ends with the transport stopped. After
  that let takes mount ahead and be released, clips move and be cut, verdicts be restored, streams be deleted, the playhead
  jump, in any order: at every later moment what the started sources sound is what the timeline prescribes for the tracks that
  are mounted, every piece at the buffer position that the one session clock maps to and as often as the timeline has it:
  nothing missing, nothing left over, nothing twice. Three events are left out while the transport rolls, as \<open>calm\<close> says: an
  alignment run writing a verdict (when the run ends the sources are started again if the timings changed), a load that ends (the desk plays only when
  none is pending), and a decode ahead that lands on a take mounted by other means meanwhile (that take is then started twice:
  \<open>joins_itself\<close> in \<open>Player_Laws\<close>). The drift ratios are positive, and sound is compared from the end of the 60 ms in
  which new sources are being started.\<close>

theorem plays_the_timeline:
  assumes history: "s = player_run lc new_player past" and stopped: "\<not> pl_playing s"
    and since: "legal (player_step lc) calm s es" and final: "t = player_run lc s es" and rolling: "pl_playing t"
    and ratios: "\<forall>x \<in> set (jm_values (pl_tracks t)). 0 < tt_ratio (player_timing t x)"
    and later: "pl_now t + 6 / 100 \<le> c"
  shows "heard_at (mset (pl_sources t)) c = due_at (views t) (pl_startPos t + (c - pl_startCtxTime t))"
proof -
  have "ahead_ok s" unfolding history by (rule player_aheads.run_inv [OF new_player_ahead])
  then have "on_grid t" using player_clock.run_guarded [OF _ since] stopped by (simp add: final)
  then have "grid (pl_now t + 6 / 100) (pl_startCtxTime t) (pl_startPos t) (views t) (mset (pl_sources t))"
    using rolling by (simp add: on_grid_def)
  moreover have "\<forall>v \<in># views t. 0 < tt_ratio (tv_timing v)" using ratios by (auto simp: views_def)
  ultimately show ?thesis using later by (rule grid_sounds)
qed

text \<open>A short take is loaded and played; a tenth of a second after its start its second sample sounds.\<close>

definition sample_take :: "player_event list" where
  "sample_take = [LoadCall ''k'' [''a''] (\<lambda>i. i), LoadDecoded \<lparr>ab_rate = 10, ab_data = [1, 0, 1]\<rparr>]"

definition sample_track :: player_track where
  "sample_track =
     \<lparr>at_streamId = ''a'', at_buffer = \<lparr>ab_rate = 10, ab_data = [1, 0, 1]\<rparr>, at_alignment = None, at_drift = None, pt_oid = 0,
      pt_takeId = ''k'', pt_channelKey = ''a'', pt_clipStartSec = 0, pt_regions = None, pt_gain = 1, pt_pan = 0,
      pt_eq = eq_chain_of (ms_eq default_mix_strip), pt_bypass = False\<rparr>"

definition sample_loaded :: player where
  "sample_loaded = new_player\<lparr>pl_nextOid := 1, pl_tracks := [(''a'', sample_track)], pl_channels := [(''a'', default_mix_strip)],
     pl_loadedTakeId := Some ''k''\<rparr>"

lemma sample_loads: "player_run lc new_player sample_take = sample_loaded"
proof -
  have "load_call ''k'' [''a''] (\<lambda>i. i) new_player
      = new_player\<lparr>pl_load := Some \<lparr>lj_takeId = ''k'', lj_todo = [''a''], lj_channelOf = (\<lambda>i. i), lj_next = []\<rparr>\<rparr>"
    by (simp add: load_call_def new_player_def player_pause_def)
  moreover have "db_to_linear 0 = 1" by (simp add: db_to_linear_def min_db_def)
  ultimately show ?thesis
    by (simp add: sample_take_def load_decoded_def mount_track_def ensure_channel_def plan_stream_def planned_take_def rekey_track_def
        strip_of_def or_else_def load_next_def load_done_def apply_gains_def map_tracks_def strip_gain_def any_solo_def take_base_sec_def
        take_tracks_def clips_base_sec_def clip_start_of_def List.map_filter_def sample_loaded_def sample_track_def new_player_def default_mix_strip_def Let_def)
qed

theorem plays_the_timeline_witness:
  "heard_at (mset (pl_sources (player_run (\<lambda>_ _. 0) sample_loaded [Play None]))) (16 / 100) = {#(0, 1 / 10)#}"
proof -
  define t where "t = player_run (\<lambda>_ _. 0) sample_loaded [Play None]"
  have deltas: "take_deltas s k = []" if "pl_tracks s = [(''a'', sample_track)]" for s k
    using that by (simp add: take_deltas_def take_tracks_def sample_track_def track_deltas_def track_applied_def align_track.truncate_def
        normalize_align_deltas_def)
  have timing: "player_timing s sample_track = \<lparr>tt_headSec = 0, tt_ratio = 1, tt_clipDelaySec = 0, tt_bufferDurationSec = 3 / 10\<rparr>"
    if "pl_tracks s = [(''a'', sample_track)]" for s
    by (simp add: player_timing_def deltas [OF that] model_timing_def head_sec_def drift_ratio_def drift_samples_def or_else_def
        buffer_duration_def) (simp add: sample_track_def align_track.truncate_def)
  have play: "t = schedule 0 (sample_loaded\<lparr>pl_sources := [], pl_scheduleCount := 0\<rparr>)"
    unfolding t_def by (simp add: player_play_def stop_sources_def ensure_lookahead_def schedule_def Let_def)
      (simp add: sample_loaded_def new_player_def or_else_def)
  then have tr: "pl_tracks t = [(''a'', sample_track)]" "pl_startPos t = 0" "pl_startCtxTime t = 6 / 100" "pl_playing t" "pl_now t = 0"
    by (simp_all add: schedule_def Let_def sample_loaded_def new_player_def)
  have "\<forall>x \<in> set (jm_values (pl_tracks t)). 0 < tt_ratio (player_timing t x)"
    using timing [OF tr(1)] by (simp add: tr)
  moreover have "legal (player_step (\<lambda>_ _. 0)) calm sample_loaded [Play None]" "\<not> pl_playing sample_loaded"
    by (simp_all add: sample_loaded_def new_player_def)
  ultimately have "heard_at (mset (pl_sources t)) (16 / 100) = due_at (views t) (pl_startPos t + (16 / 100 - pl_startCtxTime t))"
    using plays_the_timeline [OF sample_loads [symmetric], of "\<lambda>_ _. 0" "[Play None]" t "16 / 100"] tr by (simp add: t_def)
  also have "\<dots> = {#(0, 1 / 10)#}"
    by (simp add: due_at_def views_def view_of_def tr timing [OF tr(1)])
      (simp add: sample_track_def pieces_of_def piece_at_def buffer_pos_def)
  finally show ?thesis unfolding t_def .
qed

end
