(* ===== verification/Player_Laws.thy ===== *)
theory Player_Laws
  imports Player_Clock Render
begin

text \<open>
  The mixer reaches every track, an export of a take is the take as it plays, and a take exported off the plan is the take as it
  would be exported when mounted.
\<close>

subsection \<open>Gains\<close>

definition gain_ok :: "player \<Rightarrow> player_track \<Rightarrow> bool" where
  "gain_ok s t \<longleftrightarrow> pt_gain t = strip_gain s (pt_channelKey t) \<and> pt_pan t = ms_pan (strip_of s (pt_channelKey t))"

definition gains_ok :: "player \<Rightarrow> bool" where
  "gains_ok s \<longleftrightarrow> list_all (gain_ok s) (jm_values (pl_tracks s))"

text \<open>Two states whose strips sound alike, the tracks of the later among those of the earlier.\<close>

definition fader :: "player_track \<Rightarrow> real \<times> real \<times> string" where
  "fader t = (pt_gain t, pt_pan t, pt_channelKey t)"

definition same_mix :: "player \<Rightarrow> player \<Rightarrow> bool" where
  "same_mix s s' \<longleftrightarrow> strip_gain s' = strip_gain s \<and> (\<lambda>k. ms_pan (strip_of s' k)) = (\<lambda>k. ms_pan (strip_of s k))
     \<and> fader ` set (jm_values (pl_tracks s')) \<subseteq> fader ` set (jm_values (pl_tracks s))"

lemma same_mix_refl [simp]: "same_mix s s"
  by (simp add: same_mix_def)

lemma same_mix_trans: "same_mix s s' \<Longrightarrow> same_mix s' s'' \<Longrightarrow> same_mix s s''"
  unfolding same_mix_def by (elim conjE, intro conjI, simp, simp) (rule order_trans)

lemma same_mix_ok: "same_mix s s' \<Longrightarrow> gains_ok s \<Longrightarrow> gains_ok s'"
proof -
  assume m: "same_mix s s'" and ok: "gains_ok s"
  have "gain_ok s' t" if "t \<in> set (jm_values (pl_tracks s'))" for t
  proof -
    from m that obtain u where u: "u \<in> set (jm_values (pl_tracks s))" "fader t = fader u" unfolding same_mix_def by blast
    with ok have "gain_ok s u" unfolding gains_ok_def list_all_iff by blast
    moreover have "ms_pan (strip_of s' k) = ms_pan (strip_of s k)" for k using m by (simp add: same_mix_def fun_eq_iff)
    ultimately show ?thesis using u(2) m by (simp add: gain_ok_def fader_def same_mix_def)
  qed
  then show ?thesis by (simp add: gains_ok_def list_all_iff)
qed

lemma mix_cong: "pl_channels s' = pl_channels s \<Longrightarrow> fader ` set (jm_values (pl_tracks s')) \<subseteq> fader ` set (jm_values (pl_tracks s)) \<Longrightarrow> same_mix s s'"
  by (simp add: same_mix_def strip_gain_def strip_of_def any_solo_def fun_eq_iff)

lemma strip_ensure [simp]: "strip_of (ensure_channel key s) = strip_of s"
  by (auto simp: strip_of_def ensure_channel_def or_else_def fun_eq_iff jm_get_set)

lemma list_ex_update_new: "k \<notin> fst ` set m \<Longrightarrow> list_ex P (jm_values (jm_set k v m)) \<longleftrightarrow> list_ex P (jm_values m) \<or> P v"
  by (induction m) auto

lemma solo_ensure [simp]: "any_solo (ensure_channel key s) = any_solo s"
  by (auto simp: any_solo_def ensure_channel_def list_ex_update_new map_of_eq_None_iff default_mix_strip_def)

lemma gain_ensure [simp]: "strip_gain (ensure_channel key s) = strip_gain s"
  by (simp add: strip_gain_def fun_eq_iff)

lemma tracks_ensure [simp]: "pl_tracks (ensure_channel key s) = pl_tracks s"
  by (simp add: ensure_channel_def)

lemma mix_ensure [simp]: "same_mix s (ensure_channel key s)"
  by (simp add: same_mix_def)

lemma gains_applied [simp]: "gains_ok (apply_gains s)"
proof -
  define z where "z = fold ensure_channel (map pt_channelKey (jm_values (pl_tracks s))) s"
  let ?f = "\<lambda>t. t\<lparr>pt_gain := strip_gain z (pt_channelKey t), pt_pan := ms_pan (strip_of z (pt_channelKey t))\<rparr>"
  have g: "apply_gains s = map_tracks ?f z" by (simp add: apply_gains_def z_def Let_def)
  have strips: "strip_gain (map_tracks ?f z) k = strip_gain z k" "strip_of (map_tracks ?f z) k = strip_of z k" for k
    by (simp_all add: map_tracks_def strip_gain_def strip_of_def any_solo_def)
  have "gain_ok (map_tracks ?f z) (?f t)" for t unfolding gain_ok_def strips by simp
  then have "list_all (gain_ok (map_tracks ?f z)) (map ?f (jm_values (pl_tracks z)))" by (simp add: list_all_iff)
  moreover have "jm_values (pl_tracks (map_tracks ?f z)) = map ?f (jm_values (pl_tracks z))"
    by (simp add: map_tracks_def case_prod_unfold comp_def)
  ultimately show ?thesis unfolding g gains_ok_def by (simp only:)
qed

lemma mix_map: "(\<And>t. fader (f t) = fader t) \<Longrightarrow> same_mix s (map_tracks f s)"
  by (rule mix_cong) (auto simp: map_tracks_def image_iff, force)

lemma mix_mount: "same_mix s (snd (mount_track tid sid b key s))"
  by (rule same_mix_trans [OF mix_ensure [of s key] mix_cong]) (simp_all add: mount_track_def Let_def)

lemma mix_schedule [simp]: "same_mix s (schedule f s)" "same_mix s (stop_sources s)" "same_mix s (schedule_take k s)" "same_mix s (player_pause s)"
  by (rule mix_cong; simp add: schedule_def stop_sources_def schedule_take_sources player_pause_def Let_def)+

lemma mix_reschedule [simp]: "same_mix s (reschedule s)"
  unfolding reschedule_def Let_def by (rule same_mix_trans [OF mix_schedule(2) mix_schedule(1)])

lemma mix_unmount [simp]: "same_mix s (unmount_take k s)"
  by (rule mix_cong) (auto simp: unmount_take_def)

lemma mix_fold_unmount [simp]: "same_mix s (fold unmount_take ks s)"
proof (induction ks arbitrary: s)
  case (Cons k ks)
  then show ?case using same_mix_trans [OF mix_unmount [of s k]] by simp
qed simp

lemma mix_lookahead: "same_mix s (ensure_lookahead s)"
proof -
  have "same_mix z (mount_ahead k z)" for k z
    by (rule mix_cong) (simp_all add: mount_ahead_def split: option.split)
  then have "same_mix s (mount_ahead k (fold unmount_take ks s))" for k ks
    using same_mix_trans [OF mix_fold_unmount] by blast
  then show ?thesis by (simp add: ensure_lookahead_def Let_def split: list.split)
qed

lemma on_track_fader:
  assumes "\<And>t. fader (f t) = fader t" shows "same_mix s (on_track sid f s)"
proof (cases "jm_get (pl_tracks s) sid")
  case (Some t)
  have "set (jm_values (jm_set k v m)) \<subseteq> insert v (set (jm_values m))" for k v and m :: "(string, player_track) jsmap"
    by (induction m) auto
  from image_mono [OF this [of sid "f t" "pl_tracks s"], of fader] assms
  have "fader ` set (jm_values (jm_set sid (f t) (pl_tracks s))) \<subseteq> insert (fader t) (fader ` set (jm_values (pl_tracks s)))"
    by (simp only: image_insert)
  moreover have "t \<in> set (jm_values (pl_tracks s))" using map_of_SomeD [OF Some] by force
  ultimately have "fader ` set (jm_values (jm_set sid (f t) (pl_tracks s))) \<subseteq> fader ` set (jm_values (pl_tracks s))" by blast
  then show ?thesis using Some by (intro mix_cong) (simp_all add: on_track_def)
qed (simp add: on_track_def)

lemma repoint_gains: "gains_ok (fst z) \<Longrightarrow> gains_ok (fst (repoint tid x z))"
proof -
  assume ok: "gains_ok (fst z)"
  have "gains_ok (on_track i (\<lambda>t. t\<lparr>pt_clipStartSec := c t, pt_regions := r\<rparr>) (fst z))" for i c r
    by (rule same_mix_ok [OF on_track_fader ok]) (simp add: fader_def)
  with ok show ?thesis by (cases z) (auto simp: repoint_def Let_def split: option.split)
qed

lemma repoint_all_gains: "gains_ok s \<Longrightarrow> gains_ok (fst (repoint_all plan s))"
proof -
  have inner: "gains_ok (fst z) \<Longrightarrow> gains_ok (fst (fold (repoint tid) xs z))" for tid xs z
    by (induction xs arbitrary: z) (simp_all add: repoint_gains)
  have "gains_ok (fst z) \<Longrightarrow> gains_ok (fst (fold (\<lambda>p. fold (repoint (pk_takeId p)) (pk_streams p)) plan z))" for z
    by (induction plan arbitrary: z) (simp_all add: inner)
  then show "gains_ok s \<Longrightarrow> gains_ok (fst (repoint_all plan s))" by (simp add: repoint_all_def)
qed

lemma plan_gains: "gains_ok s \<Longrightarrow> gains_ok (set_session_plan lc plan s)"
proof -
  assume s: "gains_ok s"
  have "same_mix s (s\<lparr>pl_plan := p\<rparr>)" for p by (rule mix_cong) simp_all
  then have "gains_ok (fold unmount_take ks (s\<lparr>pl_plan := p\<rparr>))" for ks p
    using same_mix_ok [OF mix_fold_unmount] same_mix_ok s by blast
  then have "gains_ok (fst (repoint_all q (fold unmount_take ks (s\<lparr>pl_plan := p\<rparr>))))" for ks p q by (rule repoint_all_gains)
  with s show ?thesis using same_mix_ok [OF mix_reschedule]
    by (simp add: set_session_plan_def Let_def case_prod_beta)
qed

lemma play_gains: "gains_ok s \<Longrightarrow> gains_ok (player_play f s)"
proof -
  assume s: "gains_ok s"
  have "same_mix s ((stop_sources s)\<lparr>pl_scheduleCount := 0\<rparr>)" by (rule mix_cong) (simp_all add: stop_sources_def)
  with s have "gains_ok (ensure_lookahead (schedule p ((stop_sources s)\<lparr>pl_scheduleCount := 0\<rparr>)))" for p
    using same_mix_ok [OF mix_lookahead] same_mix_ok [OF mix_schedule(1)] same_mix_ok by blast
  with s show ?thesis by (simp add: player_play_def Let_def)
qed

lemma seek_gains: "gains_ok s \<Longrightarrow> gains_ok (player_seek x s)"
proof -
  assume s: "gains_ok s"
  have n: "same_mix s (s\<lparr>pl_seekCount := n\<rparr>)" "same_mix s (s\<lparr>pl_seekCount := n, pl_startPos := p\<rparr>)" for n p
    by (rule mix_cong; simp)+
  have "gains_ok (ensure_lookahead z)" if "same_mix s z" for z
    using same_mix_ok [OF mix_lookahead] same_mix_ok [OF that s] by blast
  moreover have "same_mix s (schedule p (stop_sources (s\<lparr>pl_seekCount := n\<rparr>)))" for p n
    using same_mix_trans [OF n(1) same_mix_trans [OF mix_schedule(2) mix_schedule(1)]] .
  ultimately show ?thesis using n by (simp add: player_seek_def Let_def)
qed

lemma meter_gains: "gains_ok s \<Longrightarrow> gains_ok (meter_tick x s)"
proof -
  assume s: "gains_ok s"
  have "same_mix s (s\<lparr>pl_lastLookaheadMs := x\<rparr>)" by (rule mix_cong) simp_all
  with s have "gains_ok (ensure_lookahead (s\<lparr>pl_lastLookaheadMs := x\<rparr>))" using same_mix_ok [OF mix_lookahead] same_mix_ok by blast
  with s show ?thesis using same_mix_ok [OF mix_schedule(4)] by (simp add: meter_tick_def Let_def)
qed

lemma ahead_done_gains: "gains_ok s \<Longrightarrow> gains_ok (ahead_done j entries s)"
proof -
  assume s: "gains_ok s"
  have "same_mix s (s\<lparr>pl_ahead := None\<rparr>)" by (rule mix_cong) simp_all
  with s have "gains_ok (s\<lparr>pl_ahead := None\<rparr>)" using same_mix_ok by blast
  then show ?thesis using same_mix_ok [OF mix_schedule(3) gains_applied] by (simp add: ahead_done_def Let_def)
qed

lemma decoded_gains: "gains_ok s \<Longrightarrow> gains_ok (ahead_decoded b entries s)"
proof -
  assume s: "gains_ok s"
  have m: "gains_ok (snd (mount_track tid sid b key s))" for tid sid key using same_mix_ok [OF mix_mount s] .
  have a: "same_mix z (z\<lparr>pl_ahead := j\<rparr>)" for z j by (rule mix_cong) simp_all
  show ?thesis using s ahead_done_gains [OF s] ahead_done_gains [OF m] same_mix_ok [OF a m]
    by (simp add: ahead_decoded_def case_prod_beta Let_def split: option.split list.split)
qed

lemma load_done_gains: "gains_ok (load_done j s)"
  by (simp add: load_done_def Let_def)

lemma load_gains:
  assumes s: "gains_ok s"
  shows "gains_ok (load_call tid ids f s)" "gains_ok (load_decoded b s)" "gains_ok (load_missing s)"
proof -
  have l: "same_mix z (z\<lparr>pl_load := j\<rparr>)" "same_mix z (z\<lparr>pl_error := e\<rparr>)" "same_mix z (z\<lparr>pl_error := e, pl_alignError := e'\<rparr>)"
    "same_mix z (z\<lparr>pl_error := e, pl_alignError := e', pl_load := j\<rparr>)" for z j e e'
    by (rule mix_cong; simp)+
  have nxt: "gains_ok z \<Longrightarrow> gains_ok (load_next j z)" for z j
    using load_done_gains same_mix_ok [OF l(1)] by (simp add: load_next_def)
  have m: "gains_ok (snd (mount_track tid sid b key s))" for tid sid key b using same_mix_ok [OF mix_mount s] .
  show "gains_ok (load_decoded b s)"
    using s nxt [OF m] by (simp add: load_decoded_def case_prod_beta Let_def split: option.split list.split)
  show "gains_ok (load_missing s)"
    using s nxt [OF same_mix_ok [OF l(2) s]] by (simp add: load_missing_def split: option.split list.split)
  have "gains_ok (player_pause s)" using same_mix_ok [OF mix_schedule(4) s] .
  then show "gains_ok (load_call tid ids f s)"
    using s load_done_gains same_mix_ok [OF l(4)] by (simp add: load_call_def Let_def)
qed

lemma eq_gains:
  assumes s: "gains_ok s" shows "gains_ok (set_channel_eq key e s)" "gains_ok (toggle_channel_eq_bypass key s)"
proof -
  have gain: "strip_gain (set_strip key (ms_eq_update h) s) = strip_gain s" "ms_pan (strip_of (set_strip key (ms_eq_update h) s) k) = ms_pan (strip_of s k)" for h k
  proof -
    have of: "strip_of (set_strip key (ms_eq_update h) s) k = (if k = key then ms_eq_update h (strip_of s key) else strip_of s k)" for k
      by (simp add: strip_of_def set_strip_def or_else_def jm_get_set)
    have "list_ex ms_soloed (jm_values (jm_set key (ms_eq_update h (or_else (jm_get m key) default_mix_strip)) m)) = list_ex ms_soloed (jm_values m)" for m
      by (induction m) (auto simp: or_else_def default_mix_strip_def)
    then have "any_solo (set_strip key (ms_eq_update h) s) = any_solo s" by (simp add: any_solo_def set_strip_def strip_of_def)
    then show "strip_gain (set_strip key (ms_eq_update h) s) = strip_gain s" "ms_pan (strip_of (set_strip key (ms_eq_update h) s) k) = ms_pan (strip_of s k)"
      by (auto simp: strip_gain_def of fun_eq_iff Let_def)
  qed
  have strip: "same_mix s (set_strip key (ms_eq_update h) s)" for h
    by (simp add: same_mix_def gain) (simp add: set_strip_def)
  show "gains_ok (set_channel_eq key e s)" "gains_ok (toggle_channel_eq_bypass key s)"
    unfolding set_channel_eq_def toggle_channel_eq_bypass_def Let_def
    by (rule same_mix_ok [OF same_mix_trans [OF strip mix_map] s], simp add: fader_def)+
qed

lemma remap_gains: "gains_ok s \<Longrightarrow> gains_ok (remap_channels f s)"
proof -
  assume s: "gains_ok s"
  have "same_mix s (fold ensure_channel ks s)" for ks
  proof (induction ks arbitrary: s)
    case (Cons k ks)
    then show ?case using same_mix_trans [OF mix_ensure [of s k]] by simp
  qed simp
  with s show ?thesis using same_mix_ok by (simp add: remap_channels_def Let_def)
qed

lemma verdict_fader [simp]: "fader (with_verdict e t) = fader t"
  by (simp add: with_verdict_def fader_def split: option.split)

lemma align_gains:
  assumes s: "gains_ok s"
  shows "gains_ok (align_call g sc s)" "gains_ok (align_writes i r d s)" "gains_ok (align_ends s)" "gains_ok (align_throws msg s)"
    "gains_ok (restore_alignment tid es s)" "gains_ok (remove_tracks ids s)"
proof -
  have q: "same_mix z (z\<lparr>pl_align := a, pl_alignError := e\<rparr>)" "same_mix z (z\<lparr>pl_align := a\<rparr>)" "same_mix z (z\<lparr>pl_alignError := e\<rparr>)"
    "same_mix z (z\<lparr>pl_loadedTakeId := k, pl_startPos := p\<rparr>)" "same_mix z (align_settles j z)" for z a e k p j
    by (rule mix_cong; auto simp: align_settles_def split: option.split)+
  show "gains_ok (align_call g sc s)"
    using s same_mix_ok [OF q(1) s] by (simp add: align_call_def split: option.split)
  show "gains_ok (align_writes i r d s)"
    unfolding align_writes_def using s same_mix_ok [OF mix_map s] by (simp add: fader_def)
  show "gains_ok (align_ends s)"
    using s same_mix_ok [OF q(5) same_mix_ok [OF q(2) same_mix_ok [OF mix_reschedule s]]] same_mix_ok [OF q(5) same_mix_ok [OF q(2) s]]
    by (simp add: align_ends_def Let_def split: option.split)
  show "gains_ok (align_throws msg s)"
    using s same_mix_ok [OF q(5) same_mix_ok [OF q(1) s]] by (simp add: align_throws_def split: option.split)
  have "gains_ok (map_tracks (\<lambda>t. if pt_takeId t = tid \<and> differs es t then with_verdict (jm_get es (at_streamId t)) t else t) (s\<lparr>pl_alignError := None\<rparr>))"
    by (rule same_mix_ok [OF same_mix_trans [OF q(3) mix_map] s]) simp
  then show "gains_ok (restore_alignment tid es s)"
    using s same_mix_ok [OF mix_reschedule] by (simp add: restore_alignment_def Let_def)
  let ?f = "s\<lparr>pl_tracks := filter (\<lambda>(k, t). k \<notin> set ids) (pl_tracks s)\<rparr>"
  have f: "gains_ok ?f" by (rule same_mix_ok [OF mix_cong s]) auto
  then have "gains_ok ((player_pause ?f)\<lparr>pl_loadedTakeId := None, pl_startPos := 0\<rparr>)"
    using same_mix_ok [OF q(4) same_mix_ok [OF mix_schedule(4) f]] by simp
  with f show "gains_ok (remove_tracks ids s)"
    using s same_mix_ok [OF mix_reschedule] by (simp add: remove_tracks_def Let_def)
qed

lemma step_gains: "gains_ok s \<Longrightarrow> gains_ok (player_step lc s e)"
proof -
  assume s: "gains_ok s"
  have q: "same_mix s (s\<lparr>pl_now := n\<rparr>)" "same_mix s (s\<lparr>pl_wired := w\<rparr>)" "same_mix s (s\<lparr>pl_error := m\<rparr>)" "same_mix s (load_fails msg s)"
    "same_mix s (ahead_fails msg s)" "same_mix s (s\<lparr>pl_master := x\<rparr>)" for n w m msg x
    by (rule mix_cong; simp add: load_fails_def ahead_fails_def split: option.split)+
  note keep = q [THEN same_mix_ok, OF s]
  show ?thesis
    using s same_mix_ok [OF mix_schedule(4) s]
    by (cases e) (simp_all add: keep plan_gains play_gains seek_gains meter_gains decoded_gains load_gains eq_gains remap_gains align_gains
        player_toggle_def ahead_missing_def set_channel_db_def set_channel_pan_def toggle_channel_mute_def toggle_channel_solo_def
        set_master_db_def set_master_pan_def set_master_eq_def toggle_master_eq_bypass_def split: option.split list.split)
qed

interpretation player_mixer: invariant_machine "player_step lc" gains_ok for lc
  by unfold_locales (rule step_gains)

text \<open>C37. Whatever is loaded, decoded ahead, re-keyed, muted, soloed or released, and in whatever order, the gain node of every
  mounted track is at its strip's fader, at 0 when the strip is muted or another strip is soloed, and its panner at the strip's
  pan.\<close>

theorem mixer_reaches_every_track:
  "list_all (\<lambda>t. pt_gain t =
       (if ms_muted (strip_of (player_run lc new_player es) (pt_channelKey t))
           \<or> any_solo (player_run lc new_player es) \<and> \<not> ms_soloed (strip_of (player_run lc new_player es) (pt_channelKey t))
        then 0 else db_to_linear (ms_gainDb (strip_of (player_run lc new_player es) (pt_channelKey t))))
     \<and> pt_pan t = ms_pan (strip_of (player_run lc new_player es) (pt_channelKey t)))
   (jm_values (pl_tracks (player_run lc new_player es)))"
proof -
  have "gains_ok new_player" by (simp add: gains_ok_def new_player_def)
  then have "gains_ok (player_run lc new_player es)" by (rule player_mixer.run_inv)
  then show ?thesis by (auto simp: gains_ok_def gain_ok_def strip_gain_def list_all_iff Let_def)
qed

subsection \<open>Exports\<close>

text \<open>What an export schedules for a track sounds what the timeline of the session prescribes, from the base of the take on.\<close>

lemma export_sounds:
  assumes "0 < tt_ratio (player_timing s t)" "0 \<le> c"
  shows "{b. \<exists>n \<in> set (start_source (mounted_render_track s base t) x). node_sounds n c = Some b}
    = {b. \<exists>p \<in> set (pieces_of (pt_regions t)). piece_at (player_timing s t) p (base + x + c) = Some b}"
proof -
  let ?tm = "(player_timing s t)\<lparr>tt_clipDelaySec := tt_clipDelaySec (player_timing s t) - base\<rparr>"
  have clip: "tt_clipDelaySec (player_timing s t) = pt_clipStartSec t" by (simp add: player_timing_def model_timing_def)
  have tm: "rk_timing (mounted_render_track s base t) = ?tm" by (simp add: mounted_render_track_def clip)
  have ps: "pieces_of (rk_regions (mounted_render_track s base t)) = map (shift_piece base) (pieces_of (pt_regions t))"
    by (simp add: mounted_render_track_def pieces_of_rebased)
  have r: "0 < tt_ratio ?tm" "x \<le> x + c" using assms by simp_all
  have at: "piece_at (player_timing s t) p (base + x + c)
      = (case plan_piece ?tm (shift_piece base p) x of None \<Rightarrow> None | Some n \<Rightarrow> node_sounds (start_node ?tm 0 n) c)" for p
  proof -
    have sums: "base + x + c = x + c + base" "0 + (x + c - x) = c" by simp_all
    show ?thesis unfolding sums(1) piece_at_shift [of "player_timing s t" base p "x + c", symmetric]
      by (rule piece_sound [OF r, of "shift_piece base p" 0, unfolded sums(2)])
  qed
  have mem: "n \<in> set (start_source (mounted_render_track s base t) x) \<longleftrightarrow>
      (\<exists>p \<in> set (pieces_of (pt_regions t)). \<exists>k. plan_piece ?tm (shift_piece base p) x = Some k \<and> start_node ?tm 0 k = n)" for n
    by (simp add: start_source_def set_map_filter tm ps)
  have "(\<exists>n \<in> set (start_source (mounted_render_track s base t) x). node_sounds n c = Some b)
      \<longleftrightarrow> (\<exists>p \<in> set (pieces_of (pt_regions t)). piece_at (player_timing s t) p (base + x + c) = Some b)" for b
  proof
    assume "\<exists>n \<in> set (start_source (mounted_render_track s base t) x). node_sounds n c = Some b"
    then obtain p k where "p \<in> set (pieces_of (pt_regions t))" "plan_piece ?tm (shift_piece base p) x = Some k"
        "node_sounds (start_node ?tm 0 k) c = Some b" unfolding Bex_def mem by blast
    with at [of p] show "\<exists>p \<in> set (pieces_of (pt_regions t)). piece_at (player_timing s t) p (base + x + c) = Some b" by force
  next
    assume "\<exists>p \<in> set (pieces_of (pt_regions t)). piece_at (player_timing s t) p (base + x + c) = Some b"
    then obtain p where p: "p \<in> set (pieces_of (pt_regions t))" "piece_at (player_timing s t) p (base + x + c) = Some b" by blast
    with at [of p] obtain k where "plan_piece ?tm (shift_piece base p) x = Some k" "node_sounds (start_node ?tm 0 k) c = Some b"
      by (auto split: option.splits)
    with p(1) show "\<exists>n \<in> set (start_source (mounted_render_track s base t) x). node_sounds n c = Some b"
      unfolding Bex_def mem by blast
  qed
  then show ?thesis by blast
qed

lemma regions_end_fold:
  assumes "0 \<le> a" "0 \<le> base"
  shows "foldl (\<lambda>acc r. max acc (snd (region_span_sec t r))) (max 0 (a - base)) (rebase_regions base rs)
    = max 0 (foldl (\<lambda>acc r. max acc (snd (region_span_sec t r))) a rs - base)"
  using assms(1)
proof (induction rs arbitrary: a)
  case (Cons r rs)
  have span: "snd (region_span_sec t (r\<lparr>rg_startSec := rg_startSec r - base\<rparr>)) = snd (region_span_sec t r) - base"
    by (simp add: region_span_sec_def region_window_def Let_def max_def)
  have "max (max 0 (a - base)) (snd (region_span_sec t r) - base) = max 0 (max a (snd (region_span_sec t r)) - base)" by simp
  with Cons.IH [of "max a (snd (region_span_sec t r))"] Cons.prems show ?case
    by (simp add: rebase_regions_def span)
qed (simp add: rebase_regions_def)

lemma regions_end_rebased:
  assumes "0 \<le> base"
  shows "regions_end_sec t (rebase_regions base rs) = max 0 (regions_end_sec t rs - base)"
  using regions_end_fold [of 0 base t rs] assms by (simp add: regions_end_sec_def)

lemma max_shifted:
  assumes "ts \<noteq> []" "base \<le> the (max_of (map e ts))"
    and "\<And>t. t \<in> set ts \<Longrightarrow> r t = e t - base \<or> r t = max 0 (e t - base)"
  shows "the (max_of (map r ts)) = (the (max_of (map e ts)) :: real) - base"
proof -
  let ?m = "the (max_of (map e ts))"
  obtain t where t: "t \<in> set ts" "e t = ?m" using max_of_the [of "map e ts"] assms(1) by auto
  have "e u \<le> ?m" if "u \<in> set ts" for u using max_of_the [of "map e ts"] assms(1) that by simp
  then have "r u \<le> ?m - base" if "u \<in> set ts" for u using assms(2) assms(3) [OF that] that by force
  moreover have "r t = ?m - base" using assms(2) assms(3) [OF t(1)] t(2) by auto
  ultimately show ?thesis using max_of_the [of "map r ts"] assms(1) t(1) by (intro antisym) force+
qed

text \<open>The tracks of a take as they are when it was mounted off the plan.\<close>

definition mounted_as :: "player_track \<Rightarrow> (string, stored_alignment) jsmap \<Rightarrow> session_stream_plan \<times> audio_buffer \<Rightarrow> bool" where
  "mounted_as t entries = (\<lambda>(x, b). at_streamId t = ps_streamId x \<and> at_buffer t = b \<and> pt_channelKey t = ps_channelKey x
     \<and> pt_clipStartSec t = ps_clipStartSec x \<and> pt_regions t = ps_regions x
     \<and> at_alignment t = map_option (\<lambda>a. filled_result (sa_alignment a)) (jm_get entries (ps_streamId x))
     \<and> at_drift t = Option.bind (jm_get entries (ps_streamId x)) sa_drift)"

lemma mounted_lag:
  assumes "mounted_as t entries d"
  shows "lag_of_track (align_track.truncate t) = lag_of_track (planned_track entries d)"
    "track_applied (align_track.truncate t) = track_applied (planned_track entries d)"
    "model_timing deltas (align_track.truncate t) x = model_timing deltas (planned_track entries d) x"
  using assms
  by (auto simp: mounted_as_def planned_track_def lag_of_track_def track_applied_def track_lag_def track_method_def filled_result_def
      result_method_def model_timing_def head_sec_def drift_ratio_def drift_samples_def align_track.truncate_def split: prod.splits option.splits)

lemma mounted_deltas:
  assumes "list_all2 (\<lambda>t d. mounted_as t entries d) ts ds"
  shows "track_deltas (map align_track.truncate ts) = track_deltas (map (planned_track entries) ds)"
proof -
  have "map lag_of_track (filter track_applied (map align_track.truncate ts)) = map lag_of_track (filter track_applied (map (planned_track entries) ds))"
    using assms by (induction ts ds rule: list_all2_induct) (simp_all add: mounted_lag)
  then show ?thesis by (simp only: track_deltas_def)
qed

lemma base_of_clips:
  assumes "streams \<noteq> []" "list_all (\<lambda>x. ps_regions x \<noteq> Some []) streams"
  shows "planned_base_sec streams = planned_model_base streams"
proof -
  have "List.map_filter (\<lambda>x. clip_start_of (ps_clipStartSec x) (ps_regions x)) streams
      = map (\<lambda>s. case ps_regions s of Some (r # rs) \<Rightarrow> the (min_of (map rg_startSec (r # rs))) | _ \<Rightarrow> ps_clipStartSec s) streams"
    using assms(2)
  proof (induction streams)
    case (Cons x xs)
    have "clip_start_of (ps_clipStartSec x) (ps_regions x)
        = Some (case ps_regions x of Some (r # rs) \<Rightarrow> the (min_of (map rg_startSec (r # rs))) | _ \<Rightarrow> ps_clipStartSec x)"
      using Cons.prems by (auto simp: clip_start_of_def split: option.split list.split)
    with Cons show ?case by (simp add: List.map_filter_def)
  qed (simp add: List.map_filter_def)
  moreover obtain m where "min_of (map (\<lambda>s. case ps_regions s of Some (r # rs) \<Rightarrow> the (min_of (map rg_startSec (r # rs))) | _ \<Rightarrow> ps_clipStartSec s) streams) = Some m"
    using assms(1) min_of_None by (metis (no_types, lifting) map_is_Nil_conv option.exhaust)
  moreover have "List.map_filter (\<lambda>(c, rs). clip_start_of c rs) (map (\<lambda>s. (ps_clipStartSec s, ps_regions s)) xs)
      = List.map_filter (\<lambda>x. clip_start_of (ps_clipStartSec x) (ps_regions x)) xs" for xs :: "session_stream_plan list"
    by (induction xs) (simp_all add: List.map_filter_def)
  ultimately show ?thesis
    by (simp add: planned_base_sec_def clips_base_sec_def planned_model_base_def)
qed

lemma rebased_end:
  assumes "0 \<le> base"
  shows "render_track_end (mounted_render_track s base t) = track_end s t - base
    \<or> render_track_end (mounted_render_track s base t) = max 0 (track_end s t - base)"
proof (cases "pt_regions t")
  case None
  then show ?thesis
    by (simp add: render_track_end_def mounted_render_track_def track_end_def track_end_sec_def player_timing_def model_timing_def)
next
  case (Some rs)
  then show ?thesis using regions_end_rebased [OF assms, of "stream_part (player_timing s t)" rs]
    by (simp add: render_track_end_def mounted_render_track_def track_end_def stream_part_def)
qed

text \<open>The two models agree whenever the tracks are the planned streams, verdicts included.\<close>

lemma mounted_models_agree:
  assumes mounted: "list_all2 (\<lambda>t d. mounted_as t entries d) (take_tracks s (Some tid)) decoded" "decoded \<noteq> []"
    and clips: "list_all (\<lambda>d. ps_regions (fst d) \<noteq> Some []) decoded"
    and sane: "0 \<le> take_base_sec s (Some tid)" "take_base_sec s (Some tid) \<le> take_end_sec s tid"
  shows "planned_render_model tid decoded entries (strip_view_of s) (master_view s) = mounted_render_model s tid"
proof -
  let ?ts = "take_tracks s (Some tid)" and ?base = "take_base_sec s (Some tid)"
  have ne: "?ts \<noteq> []" using mounted by auto
  have spans: "map (\<lambda>t. (pt_clipStartSec t, pt_regions t)) ?ts = map (\<lambda>d. (ps_clipStartSec (fst d), ps_regions (fst d))) decoded"
    using mounted(1) by (induction rule: list_all2_induct) (auto simp: mounted_as_def)
  have "?base = planned_base_sec (map fst decoded)"
    using ne by (simp add: take_base_sec_def spans planned_base_sec_def comp_def)
  also have "\<dots> = planned_model_base (map fst decoded)"
    by (rule base_of_clips) (use mounted(2) clips in \<open>simp_all add: list_all_iff\<close>)
  finally have base: "planned_model_base (map fst decoded) = ?base" by simp
  have deltas: "track_deltas (map (planned_track entries) decoded) = take_deltas s tid"
    using mounted_deltas [OF mounted(1)] by (simp add: take_deltas_def)
  have tid: "\<forall>t \<in> set ?ts. pt_takeId t = tid" by (auto simp: take_tracks_values)
  let ?r = "\<lambda>(x, b). \<lparr>rk_streamId = ps_streamId x, rk_channelKey = ps_channelKey x, rk_buffer = b,
      rk_timing = model_timing (take_deltas s tid) (planned_track entries (x, b)) (ps_clipStartSec x - ?base),
      rk_regions = map_option (rebase_regions ?base) (ps_regions x), rk_strip = strip_view_of s (ps_channelKey x)\<rparr>"
  have one: "?r d = mounted_render_track s ?base t" if m: "mounted_as t entries d" and t: "pt_takeId t = tid" for t d
  proof -
    have "(player_timing s t)\<lparr>tt_clipDelaySec := pt_clipStartSec t - ?base\<rparr>
        = model_timing (take_deltas s tid) (planned_track entries d) (pt_clipStartSec t - ?base)"
      unfolding player_timing_def t mounted_lag(3) [OF m] by (simp add: model_timing_def)
    then show ?thesis using m by (cases d) (simp add: mounted_as_def mounted_render_track_def)
  qed
  have tracks: "map ?r decoded = map (mounted_render_track s ?base) ?ts"
    using mounted(1) tid by (induction rule: list_all2_induct) (simp_all add: one del: split_paired_All)
  have dur: "the (max_of (map render_track_end (map (mounted_render_track s ?base) ?ts))) = take_end_sec s tid - ?base"
    using max_shifted [OF ne, of ?base "track_end s" "\<lambda>t. render_track_end (mounted_render_track s ?base t)"] sane(2) rebased_end [OF sane(1)] ne
    by (simp add: take_end_sec_def comp_def)
  show ?thesis
    unfolding planned_render_model_def mounted_render_model_def Let_def base deltas tracks dur by (rule refl)
qed

text \<open>What the decoding of a take makes of its streams, before the verdicts.\<close>

definition decoded_as :: "string \<Rightarrow> player_track \<Rightarrow> session_stream_plan \<times> audio_buffer \<Rightarrow> bool" where
  "decoded_as tid t = (\<lambda>(x, b). at_streamId t = ps_streamId x \<and> at_buffer t = b \<and> pt_channelKey t = ps_channelKey x
     \<and> pt_clipStartSec t = ps_clipStartSec x \<and> pt_regions t = ps_regions x \<and> at_alignment t = None \<and> at_drift t = None
     \<and> pt_takeId t = tid)"

lemma mount_decodes:
  assumes "plan_stream s tid (ps_streamId x) = Some x"
  shows "decoded_as tid (fst (mount_track tid (ps_streamId x) b (ps_channelKey x) s)) (x, b)"
    "pl_plan (snd (mount_track tid (ps_streamId x) b (ps_channelKey x) s)) = pl_plan s"
proof -
  have "pl_plan (ensure_channel key s) = pl_plan s" for key by (simp add: ensure_channel_def)
  moreover from this have "plan_stream (ensure_channel key s) tid j = plan_stream s tid j" for key j
    by (simp add: plan_stream_def planned_take_def)
  ultimately show "decoded_as tid (fst (mount_track tid (ps_streamId x) b (ps_channelKey x) s)) (x, b)"
    "pl_plan (snd (mount_track tid (ps_streamId x) b (ps_channelKey x) s)) = pl_plan s"
    using assms by (simp_all add: mount_track_def Let_def decoded_as_def rekey_track_def)
qed

lemma decodes_all:
  assumes "pl_ahead s = Some \<lparr>aj_takeId = tid, aj_todo = todo, aj_mounted = ms\<rparr>" "todo \<noteq> []" "length bs = length todo"
    and "\<forall>x \<in> set todo. plan_stream s tid (ps_streamId x) = Some x" "list_all2 (decoded_as tid) ms ds"
  shows "\<exists>s' ms'. player_run lc s (map (\<lambda>b. AheadDecoded b entries) bs)
        = ahead_done \<lparr>aj_takeId = tid, aj_todo = [], aj_mounted = ms'\<rparr> entries s'
      \<and> pl_tracks s' = pl_tracks s \<and> pl_plan s' = pl_plan s \<and> list_all2 (decoded_as tid) ms' (ds @ zip todo bs)"
  using assms
proof (induction todo arbitrary: s ms ds bs)
  case (Cons x todo)
  obtain b bs' where bs: "bs = b # bs'" "length bs' = length todo" using Cons.prems(3) by (cases bs) auto
  obtain t z where tz: "mount_track tid (ps_streamId x) b (ps_channelKey x) s = (t, z)" by fastforce
  have x: "plan_stream s tid (ps_streamId x) = Some x" using Cons.prems(4) by simp
  have t: "decoded_as tid t (x, b)" and z: "pl_plan z = pl_plan s" "pl_tracks z = pl_tracks s"
    using mount_decodes [OF x, of b] mount_track_facts(1) [of tid "ps_streamId x" b "ps_channelKey x" s] tz by simp_all
  then have ms: "list_all2 (decoded_as tid) (ms @ [t]) (ds @ [(x, b)])" using Cons.prems(5) by (simp add: list_all2_appendI)
  show ?case
  proof (cases "todo = []")
    case True
    then have "player_run lc s (map (\<lambda>b. AheadDecoded b entries) bs)
        = ahead_done \<lparr>aj_takeId = tid, aj_todo = [], aj_mounted = ms @ [t]\<rparr> entries z"
      using bs Cons.prems(1) tz by (simp add: ahead_decoded_def Let_def)
    with True bs ms z show ?thesis by (intro exI [of _ z] exI [of _ "ms @ [t]"]) simp
  next
    case False
    let ?z = "z\<lparr>pl_ahead := Some \<lparr>aj_takeId = tid, aj_todo = todo, aj_mounted = ms @ [t]\<rparr>\<rparr>"
    have step: "player_run lc s (map (\<lambda>b. AheadDecoded b entries) bs) = player_run lc ?z (map (\<lambda>b. AheadDecoded b entries) bs')"
      using bs Cons.prems(1) tz False by (simp add: ahead_decoded_def Let_def)
    have "plan_stream ?z tid j = plan_stream s tid j" for j
      by (simp add: plan_stream_def planned_take_def z)
    then have "\<forall>x \<in> set todo. plan_stream ?z tid (ps_streamId x) = Some x" using Cons.prems(4) by simp
    from Cons.IH [of ?z "ms @ [t]" bs' "ds @ [(x, b)]", OF _ False bs(2) this ms] show ?thesis
      unfolding step by (simp add: z bs)
  qed
qed simp

lemma apply_gains_tracks:
  "\<exists>f. take_tracks (apply_gains s) k = map f (take_tracks s k)
     \<and> (\<forall>t. \<exists>g p. f t = t\<lparr>pt_gain := g, pt_pan := p\<rparr>)"
proof -
  define u where "u = fold ensure_channel (map pt_channelKey (jm_values (pl_tracks s))) s"
  define f where "f t = t\<lparr>pt_gain := strip_gain u (pt_channelKey t), pt_pan := ms_pan (strip_of u (pt_channelKey t))\<rparr>" for t :: player_track
  have "pl_tracks u = pl_tracks s"
    unfolding u_def by (rule fold_keeps) (simp add: ensure_channel_def)
  moreover have "apply_gains s = map_tracks f u"
    unfolding apply_gains_def Let_def u_def [symmetric] f_def [abs_def] by (rule refl)
  ultimately have "take_tracks (apply_gains s) k = map f (take_tracks s k)"
    by (simp add: f_def take_tracks_def map_tracks_def filter_map comp_def case_prod_unfold)
  then show ?thesis unfolding f_def by blast
qed

lemma register_fresh:
  "distinct (map at_streamId ts) \<Longrightarrow> \<forall>t \<in> set ts. at_streamId t \<notin> fst ` set m \<Longrightarrow>
     jm_values (fold (\<lambda>t m. jm_set (at_streamId t) t m) ts m) = jm_values m @ ts"
proof (induction ts arbitrary: m)
  case (Cons t ts)
  then have m: "jm_set (at_streamId t) t m = m @ [(at_streamId t, t)]"
    using update_append [of "at_streamId t" m t "[]"] by simp
  have "at_streamId u \<noteq> at_streamId t" if "u \<in> set ts" for u
    using Cons.prems(1) that by (metis distinct.simps(2) image_eqI list.map(2) list.set_map)
  then have "\<forall>u \<in> set ts. at_streamId u \<notin> fst ` set (m @ [(at_streamId t, t)])"
    using Cons.prems(2) by simp
  from Cons.IH [OF _ this] Cons.prems(1) show ?case by (simp add: m)
qed simp

text \<open>A decode ahead of a take leaves its tracks as the plan and the stored verdicts have them.\<close>

lemma mounts_as_planned:
  assumes planned: "planned_take s tid = Some p" "pk_streams p \<noteq> []" "distinct (map ps_streamId (pk_streams p))"
    and fresh: "list_all (\<lambda>t. pt_takeId t \<noteq> tid) (jm_values (pl_tracks s))"
      "list_all (\<lambda>x. ps_streamId x \<notin> fst ` set (pl_tracks s)) (pk_streams p)"
    and bs: "length bs = length (pk_streams p)"
  shows "list_all2 (\<lambda>t d. mounted_as t entries d)
      (take_tracks (player_run lc (mount_ahead tid s) (map (\<lambda>b. AheadDecoded b entries) bs)) (Some tid)) (zip (pk_streams p) bs)"
proof -
  let ?s = "mount_ahead tid s" and ?run = "player_run lc (mount_ahead tid s) (map (\<lambda>b. AheadDecoded b entries) bs)"
  have s: "?s = s\<lparr>pl_ahead := Some \<lparr>aj_takeId = tid, aj_todo = pk_streams p, aj_mounted = []\<rparr>\<rparr>"
    by (simp add: mount_ahead_def planned(1))
  have find: "List.find (\<lambda>y. ps_streamId y = ps_streamId x) xs = Some x"
    if "x \<in> set xs" "distinct (map ps_streamId xs)" for x :: session_stream_plan and xs
    using that by (induction xs) (auto simp: image_iff)
  have "\<forall>x \<in> set (pk_streams p). plan_stream ?s tid (ps_streamId x) = Some x"
    using find [OF _ planned(3)] planned(1) by (simp add: plan_stream_def planned_take_def s)
  then obtain s' ms where run: "?run = ahead_done \<lparr>aj_takeId = tid, aj_todo = [], aj_mounted = ms\<rparr> entries s'"
      "pl_tracks s' = pl_tracks s" "pl_plan s' = pl_plan s" "list_all2 (decoded_as tid) ms (zip (pk_streams p) bs)"
    using decodes_all [of ?s tid "pk_streams p" "[]" bs "[]" lc entries] planned(2) bs by (auto simp: s)
  define ts where "ts = map (\<lambda>t. with_verdict (jm_get entries (at_streamId t)) t) ms"
  have dec: "list_all2 (\<lambda>t d. mounted_as t entries d \<and> pt_takeId t = tid) ts (zip (pk_streams p) bs)"
    unfolding ts_def list_all2_map1 using run(4)
    by (rule list_all2_mono) (auto simp: decoded_as_def mounted_as_def with_verdict_def split: option.split)
  have ids: "map at_streamId ts = map ps_streamId (pk_streams p)"
  proof -
    have "map at_streamId ts = map (ps_streamId \<circ> fst) (zip (pk_streams p) bs)"
      using dec by (induction rule: list_all2_induct) (auto simp: mounted_as_def)
    then show ?thesis using bs by (simp add: map_map [symmetric])
  qed
  have own: "\<forall>t \<in> set ts. pt_takeId t = tid"
    using dec by (induction rule: list_all2_induct) auto
  have new: "\<forall>t \<in> set ts. at_streamId t \<notin> fst ` set (pl_tracks s)"
  proof
    fix t assume "t \<in> set ts"
    then have "at_streamId t \<in> set (map ps_streamId (pk_streams p))" unfolding ids [symmetric] by simp
    then obtain x where "x \<in> set (pk_streams p)" "at_streamId t = ps_streamId x" by auto
    with fresh(2) show "at_streamId t \<notin> fst ` set (pl_tracks s)" by (simp add: list_all_iff)
  qed
  define u where "u = s'\<lparr>pl_ahead := None, pl_tracks := fold (\<lambda>t m. jm_set (at_streamId t) t m) ts (pl_tracks s)\<rparr>"
  have "jm_values (pl_tracks u) = jm_values (pl_tracks s) @ ts"
    using register_fresh [OF _ new] planned(3) by (simp add: u_def ids)
  then have tu: "take_tracks u (Some tid) = ts"
    using own fresh(1) by (auto simp: take_tracks_values list_all_iff filter_empty_conv intro!: filter_True)
  have "take_tracks ?run (Some tid) = take_tracks (apply_gains u) (Some tid)"
    using planned(1) run(2,3) unfolding run(1)
    by (simp add: ahead_done_def planned_take_def Let_def ts_def [symmetric] u_def [symmetric])
      (simp add: take_tracks_def schedule_take_sources)
  moreover obtain f where f: "take_tracks (apply_gains u) (Some tid) = map f ts"
      "\<forall>t. \<exists>g q. f t = t\<lparr>pt_gain := g, pt_pan := q\<rparr>"
    using apply_gains_tracks [of u "Some tid"] tu by auto
  have gains: "mounted_as (f t) entries d \<longleftrightarrow> mounted_as t entries d" for t d
  proof -
    obtain g q where "f t = t\<lparr>pt_gain := g, pt_pan := q\<rparr>" using f(2) by blast
    then show ?thesis by (simp add: mounted_as_def)
  qed
  show ?thesis
    unfolding calculation f(1) list_all2_map1 gains using dec by (rule list_all2_mono) simp
qed

text \<open>C40. An export does not depend on whether its take is mounted. A take of the plan of which nothing is mounted is decoded
  ahead, stream after stream, with its stored verdicts. When the last stream is in, and until the plan or the verdicts change,
  the render model of the mounted take is the one that decoding it off the plan gives an export: the same duration, the same
  timing and regions of every track, the same strips. No stream of the take may have lost all its clips, the take begins at
  or after the start of the arrangement and ends after it begins, and the plan and the channel map do not change while it
  decodes: a change then does not reach the streams that are in already (\<open>decoding_not_reached\<close>).\<close>

theorem planned_export_is_mounted_export:
  assumes planned: "planned_take s0 tid = Some p" "pk_streams p \<noteq> []" "distinct (map ps_streamId (pk_streams p))"
    and fresh: "list_all (\<lambda>t. pt_takeId t \<noteq> tid) (jm_values (pl_tracks s0))"
      "list_all (\<lambda>x. ps_streamId x \<notin> fst ` set (pl_tracks s0)) (pk_streams p)"
    and decoded: "length bs = length (pk_streams p)"
      "s = player_run lc (mount_ahead tid s0) (map (\<lambda>b. AheadDecoded b entries) bs)"
    and clips: "list_all (\<lambda>x. ps_regions x \<noteq> Some []) (pk_streams p)"
    and sane: "0 \<le> take_base_sec s (Some tid)" "take_base_sec s (Some tid) \<le> take_end_sec s tid"
  shows "planned_render_model tid (zip (pk_streams p) bs) entries (strip_view_of s) (master_view s) = mounted_render_model s tid"
proof (rule mounted_models_agree)
  show "list_all2 (\<lambda>t d. mounted_as t entries d) (take_tracks s (Some tid)) (zip (pk_streams p) bs)"
    unfolding decoded(2) by (rule mounts_as_planned [OF planned fresh decoded(1)])
  show "zip (pk_streams p) bs \<noteq> []" using planned(2) decoded(1) by (cases "pk_streams p"; cases bs) auto
  show "list_all (\<lambda>d. ps_regions (fst d) \<noteq> Some []) (zip (pk_streams p) bs)"
    using clips by (auto simp: list_all_iff dest: set_zip_leftD)
qed (use sane in simp_all)

text \<open>A take of one stream of three samples is decoded ahead, and exported.\<close>

definition sample_stream_plan :: session_stream_plan where
  "sample_stream_plan = \<lparr>ps_streamId = ''a'', ps_channelKey = ''a'', ps_clipStartSec = 0, ps_declaredDurationSec = 3 / 10, ps_regions = None\<rparr>"

definition sample_before :: player where
  "sample_before = new_player\<lparr>pl_plan := [\<lparr>pk_takeId = ''k'', pk_streams = [sample_stream_plan]\<rparr>]\<rparr>"

lemma sample_decodes:
  "player_run lc (mount_ahead ''k'' sample_before) [AheadDecoded \<lparr>ab_rate = 10, ab_data = [1, 0, 1]\<rparr> []]
    = sample_before\<lparr>pl_nextOid := 1, pl_tracks := [(''a'', sample_track)], pl_channels := [(''a'', default_mix_strip)]\<rparr>"
proof -
  have "db_to_linear 0 = 1" by (simp add: db_to_linear_def min_db_def)
  then show ?thesis
    by (simp add: mount_ahead_def planned_take_def sample_before_def sample_stream_plan_def ahead_decoded_def ahead_done_def
        mount_track_def ensure_channel_def plan_stream_def rekey_track_def strip_of_def or_else_def with_verdict_def apply_gains_def
        map_tracks_def strip_gain_def any_solo_def sample_track_def new_player_def default_mix_strip_def Let_def)
qed

theorem planned_export_is_mounted_export_witness:
  "planned_render_model ''k'' [(sample_stream_plan, \<lparr>ab_rate = 10, ab_data = [1, 0, 1]\<rparr>)] []
      (strip_view_of (player_run (\<lambda>_ _. 0) (mount_ahead ''k'' sample_before) [AheadDecoded \<lparr>ab_rate = 10, ab_data = [1, 0, 1]\<rparr> []]))
      (master_view (player_run (\<lambda>_ _. 0) (mount_ahead ''k'' sample_before) [AheadDecoded \<lparr>ab_rate = 10, ab_data = [1, 0, 1]\<rparr> []]))
     = mounted_render_model (player_run (\<lambda>_ _. 0) (mount_ahead ''k'' sample_before) [AheadDecoded \<lparr>ab_rate = 10, ab_data = [1, 0, 1]\<rparr> []]) ''k''"
proof -
  define s where "s = player_run (\<lambda>_ _. 0) (mount_ahead ''k'' sample_before) [AheadDecoded \<lparr>ab_rate = 10, ab_data = [1, 0, 1]\<rparr> []]"
  have tr: "pl_tracks s = [(''a'', sample_track)]" unfolding s_def sample_decodes by simp
  then have ts: "take_tracks s (Some ''k'') = [sample_track]" by (simp add: take_tracks_def sample_track_def)
  have base: "take_base_sec s (Some ''k'') = 0"
    by (simp add: take_base_sec_def ts clips_base_sec_def clip_start_of_def List.map_filter_def) (simp add: sample_track_def)
  have "track_end s sample_track = 3 / 10"
    by (simp add: track_end_def player_timing_def model_timing_def track_end_sec_def head_sec_def drift_ratio_def drift_samples_def or_else_def
        buffer_duration_def take_deltas_def track_deltas_def sample_track_def take_tracks_def tr track_applied_def
        align_track.truncate_def normalize_align_deltas_def)
  then have last: "take_base_sec s (Some ''k'') \<le> take_end_sec s ''k''" by (simp add: base take_end_sec_def ts)
  have "planned_render_model ''k'' (zip (pk_streams \<lparr>pk_takeId = ''k'', pk_streams = [sample_stream_plan]\<rparr>)
      [\<lparr>ab_rate = 10, ab_data = [1, 0, 1]\<rparr>]) [] (strip_view_of s) (master_view s) = mounted_render_model s ''k''"
    by (rule planned_export_is_mounted_export [of sample_before _ _ _ _ "\<lambda>_ _. 0"])
      (simp_all add: base last [unfolded base] planned_take_def, simp_all add: sample_before_def new_player_def sample_stream_plan_def s_def)
  then show ?thesis by (simp add: s_def)
qed

subsection \<open>What passes by\<close>

text \<open>A take whose decoding ahead ends while its tracks are mounted and rolling joins them: what plays goes on, and all of it starts
  again beside it.\<close>

lemma joins_itself:
  "pl_playing s \<Longrightarrow> planned_take s (aj_takeId j) = Some p \<Longrightarrow> set (pl_sources s) \<subseteq> set (pl_sources (ahead_done j entries s))"
proof -
  assume *: "pl_playing s" "planned_take s (aj_takeId j) = Some p"
  then have "planned_take (s\<lparr>pl_ahead := None\<rparr>) (aj_takeId j) = Some p" by (simp add: planned_take_def)
  moreover have "pl_sources (apply_gains z) = pl_sources z" for z using gains_same [of z] by (simp add: same_clock_def)
  ultimately show ?thesis using *(1) by (simp add: ahead_done_def Let_def schedule_take_sources)
qed

text \<open>What the plan, the equaliser and the strips change meanwhile does not reach a track that is decoded but not yet mounted.\<close>

lemma decoding_not_reached:
  "pl_ahead (set_session_plan lc plan s) = pl_ahead s" "pl_ahead (set_channel_eq key p s) = pl_ahead s"
  "pl_ahead (toggle_channel_eq_bypass key s) = pl_ahead s" "pl_ahead (remap_channels f s) = pl_ahead s"
  by (rule ahead_plan ahead_mixer ahead_remap)+

text \<open>A run of the alignment compares its last verdicts with those before it, and leaves the sources alone when they agree, also
  when a seek in between scheduled everything by verdicts that were there only for a while.\<close>

lemma blind_end: "pl_align s = Some j \<Longrightarrow> fingerprint s = gj_before j \<Longrightarrow> pl_sources (align_ends s) = pl_sources s"
  using align_settles_same by (simp add: align_ends_def same_clock_def)

lemma throwing_keeps_sources: "pl_sources (align_throws msg s) = pl_sources s"
  using align_settles_same by (simp add: align_throws_def same_clock_def split: option.split)

text \<open>A stream that lost all its clips pulls the base of a render model, but not the place its take is mixed in at.\<close>

lemma lost_clips_shift_export:
  "planned_base_sec [x\<lparr>ps_clipStartSec := 10, ps_regions := Some []\<rparr>, y\<lparr>ps_clipStartSec := 12, ps_regions := None\<rparr>] = 12
   \<and> planned_model_base [x\<lparr>ps_clipStartSec := 10, ps_regions := Some []\<rparr>, y\<lparr>ps_clipStartSec := 12, ps_regions := None\<rparr>] = 10"
  by (simp add: planned_base_sec_def clips_base_sec_def clip_start_of_def planned_model_base_def List.map_filter_def)

end
