(* ===== verification/Spec2Isabelle.thy ===== *)
theory Spec2Isabelle
  imports Signaling_Runs Ingest Http_Routes Regions Sab_Ring Midi Export_Formats Load_Queue
    Collab_Doc Collab_Sync Delivery Take_Lists Sink_Recovery Capture_Take Take_Latch Live_Mic
    Recorder_Session Desk_Session Player_Align Render Player_Laws
begin

text \<open>
  Antiphon records performers in their own browsers and collects every take losslessly at a desk and at a server.
  A recorder page captures samples through an audio worklet, encodes them to FLAC chunks and keeps the chunks in a
  bounded ring until a sink holds them. The sinks, the desk page and the server, persist chunks, acknowledge what
  they hold and repair each other's holes. A signaling room brings the peers of a session together, the server
  archives and serves what was recorded, and several desks edit one shared project document.

  \<^bold>\<open>The path of a sample, theory by theory.\<close>

  \<^item> \<open>Sab_Ring\<close>: the shared-memory ring between the worklet and the encoder worker
    (\<open>apps/web/src/audio/sab-ring.ts\<close>, \<open>public/worklets/capture.js\<close>), as interleaved steps of both sides on 32-bit
    counters. What the reader gets is the consecutive captured samples, dropped ones counted.
  \<^item> \<open>Codec\<close>: the streaming encoder and chunker of \<open>packages/codec/src/encoder.rs\<close>. What it emits is the frames of
    the take's blocks in order, however the samples were cut into slabs.
  \<^item> \<open>Checksums\<close>, \<open>Range_Set\<close>, \<open>Frame_Codec\<close>: CRC-32C, the canonical interval lists and the binary frames of
    \<open>packages/core\<close>. The decoder accepts exactly the encodings of well-formed frames.
  \<^item> \<open>Sender\<close>: \<open>ring.rs\<close> and \<open>sender.rs\<close>, the recorder's side of a stream. Every chunk produced is resident, or
    acknowledged, or a declared gap; popping yields exactly what a sink is owed.
  \<^item> \<open>Time_Sync\<close>: the clock estimate of \<open>timesync.rs\<close>, within half the best round trip of the truth.
  \<^item> \<open>Encoder_Worker\<close>, \<open>Capture_Take\<close>: the recorder's encoder worker (\<open>apps/web/src/audio/encoder.worker.ts\<close>,
    \<open>local-take.ts\<close>, \<open>packages/wasm/src/recorder.rs\<close>), which owns ring reader, encoder, sender and clocks. A take that
    was stopped holds the encoding of consecutive captured samples, none of before it was armed.
  \<^item> \<open>Capture_Controller\<close>, \<open>Capture_Page\<close>, \<open>Take_Latch\<close>, \<open>Live_Mic\<close>: the main thread's side of a recorder
    (\<open>capture-controller.ts\<close>, \<open>capture-media.ts\<close>, \<open>net/sink-link.ts\<close>), the page in which its calls, the two message
    queues and the encoder worker interleave, and what that page keeps: no swap of the input inside a take, a latch that
    opens again, no microphone live that the controller does not hold.
  \<^item> \<open>Device_Identity\<close>, \<open>Signaling_Client\<close>, \<open>Recorder_Session\<close>: device ids and nicknames, the reconnecting control
    socket (\<open>net/signaling-client.ts\<close>), and the recorder's session over both (\<open>net/recorder-session.ts\<close>): its links
    and offers, its takes and their final reports.
  \<^item> \<open>Desk_Link\<close>, \<open>Desk_Session\<close>: the desk's bridge to its sink worker (\<open>net/desk-sink-worker.ts\<close>), whose answers
    find their questions, and the desk's session (\<open>net/desk-session.ts\<close>, \<open>desk-session-state.ts\<close>, \<open>desk-conns.ts\<close>,
    \<open>desk-server-sync.ts\<close>), which holds the room's last word on its take.
  \<^item> \<open>Sink_Engine\<close>, \<open>Stream_Receiver\<close>: \<open>receiver.rs\<close> and the engine of \<open>packages/wasm\<close>, the sink's side, and its
    agreement with the TypeScript archive on high-water marks and holes.
  \<^item> \<open>Delivery\<close>: a sender and a sink against each other. One exchange after the end of a take leaves the sink with
    every chunk or its declared gap, and the sender closed.
  \<^item> \<open>Sink_Worker\<close>, \<open>Sink_Recovery\<close>: the desk's sink worker on the bytes of frames and its files
    (\<open>apps/web/src/audio/sink.worker.ts\<close>, \<open>sink-store.ts\<close>, the facade \<open>packages/wasm/src/sink.rs\<close>), with writes that
    fail or tear. Memory and disk stay together while writes go through, so a restart recovers what was known.
  \<^item> \<open>Ingest\<close>: the server's ingest of frames (\<open>apps/server/src/ingest\<close>), peer links, rebuild after a failed task;
    what is acknowledged is durable.
  \<^item> \<open>Blob_Store\<close>, \<open>Archive\<close>, \<open>Archive_Retention\<close>, \<open>Archive_Read\<close>, \<open>Flac_Streaminfo\<close>: rows and blobs of the
    archive (\<open>apps/server/src/archive\<close>, \<open>blob\<close>, \<open>db/schema.ts\<close>), their deletion, and the reassembly of a FLAC file.

  \<^bold>\<open>Sessions and people.\<close>

  \<^item> \<open>Protocol\<close>, \<open>Signaling\<close>, \<open>Signaling_Runs\<close>: the messages of \<open>packages/protocol\<close>, the room, the hello handshake and
    the dispatch of \<open>apps/server/src/signaling\<close>, and runs of many sockets over them.
  \<^item> \<open>Rate_Limit\<close>, \<open>Access\<close>, \<open>Http_Routes\<close>: token buckets, ownership and shares with their database races, the
    gates and every session and account route of the server, the expiry sweep.
  \<^item> \<open>Collab_Hub\<close>, \<open>Collab_Doc\<close>, \<open>Collab_Sync\<close>: the server's document rooms, the typed reads and writes of the
    project document (\<open>apps/web/src/net/collab-doc.ts\<close>, \<open>collab-doc-lists.ts\<close>), and the client against the room.

  \<^bold>\<open>The desk.\<close>

  \<^item> \<open>Timeline_Math\<close>, \<open>Regions\<close>: alignment deltas, row packing, clip regions and their edits.
  \<^item> \<open>Player_Align\<close>: the alignment of a take (\<open>player-align.ts\<close>), whose content measurements land in the one domain
    the head trims are computed in.
  \<^item> \<open>Player_Plan\<close>, \<open>Render\<close>: the equaliser, the session plan and the model an export renders (\<open>eq.ts\<close>,
    \<open>player-plan.ts\<close>), what an offline context is given, and the mix of a session (\<open>render.ts\<close>), a sum of its takes.
  \<^item> \<open>Player\<close>, \<open>Player_Clock\<close>, \<open>Player_Laws\<close>: the session player (\<open>player.ts\<close>) as a machine whose awaiting calls are
    split: mounts, look-ahead, transport, mixer, plan and alignment runs. Its sources are on one clock and sound what the
    timeline prescribes, its mixer reaches every track, and an export off the plan is that of the mounted take.
  \<^item> \<open>Take_Lists\<close>: song markers and review comments (\<open>markers.ts\<close>, \<open>comments.ts\<close>), the songs they make and their
    local copies.
  \<^item> \<open>Load_Queue\<close>: the latest-wins queue of take loads and the job behind it.
  \<^item> \<open>Json_Store\<close>, \<open>Midi\<close>, \<open>Export_Formats\<close>: JSON values as the browser stores them, MIDI capture, storage and
    Standard MIDI Files, and the ZIP, WAV and XML writers.

  \<^bold>\<open>How code becomes definitions.\<close> A class or struct is a record, an enum a datatype, a handler one function with a
  branch for every early return and error, a \<open>Map\<close> or \<open>Set\<close> with insertion order an association list (\<open>jsmap\<close> of
  \<open>Prelude\<close>). Components with state are total step functions over their events; \<open>Prelude\<close> holds the locales
  \<open>guarded_machine\<close>, \<open>invariant_machine\<close> and \<open>settling_machine\<close>, interpreted for each of them, which carry one-step
  invariants to all runs and measures to settled states. Further interfaces are \<open>blob_store\<close> (what the archive needs
  of a store, interpreted by the file system store), \<open>range_set_spec\<close> (interpreted by the interval lists),
  \<open>reflected_crc\<close> (interpreted by both polynomials) and \<open>js_comparator\<close> (what \<open>Array.sort\<close> needs).
  Machine integers are words where they wrap (the ring counters, the checksums, the STREAMINFO fields). The
  \<open>u32\<close> and \<open>u64\<close> fields of the Rust core are naturals; the codec states their widths as conditions (\<open>frame_ok\<close>).

  \<^bold>\<open>Bounds and fuel.\<close> Loops are structural or carry a measure. The only fuel is that of \<open>pop_all\<close>; \<open>pop_all_spec\<close>
  proves that the backlog of a sink is enough, which is what \<open>drain_local\<close> passes. Where a database call can fail, the model takes the list of outcomes
  and the theorems hold for all of them.

  \<^bold>\<open>Idealisations.\<close> JavaScript numbers that hold times or samples are reals, so rounding is not modelled except where
  the code rounds on purpose. Characters of strings count one byte each where a byte length matters. A handler runs
  without interruption between two awaits, and handlers that interleave at awaits are modelled as such where it
  matters: \<open>Access\<close>, \<open>Sab_Ring\<close>, \<open>Collab_Hub\<close>, \<open>Signaling_Runs\<close>, \<open>Load_Queue\<close>, \<open>Collab_Sync\<close>, \<open>Ingest\<close>. SHA-256,
  the decimal rendering of numbers, UTF-8 validity and third-party identity calls are parameters. Yjs is not under
  the repository's control: \<open>Collab_Hub\<close> and \<open>Collab_Sync\<close> take a document to be the set of its updates, which is
  what its merge guarantees.

  \<^bold>\<open>Not modelled.\<close> The React components and hooks that only render and wire events; the player's meters and listeners;
  the browser's microphone, audio graph and WebRTC calls themselves; the signal processing of \<open>packages/dsp\<close>, whose correctness is numerical; the
  third-party FLAC encoder; the S3 driver, logging, health probes and configuration of the server; tests and tooling.
\<close>

end
